(* ===== verification/Prelude.thy ===== *)
theory Prelude
  imports Main "HOL-Library.Word"
begin

text \<open>
  Shared vocabulary of the development: the machine types of the C code, unsigned
  \<open>size_t\<close> arithmetic with its wrap-around written out, the big-endian encodings that the
  wire formats use, and the generic interfaces (locales) that several components implement:
  self-delimiting codecs and guarded transition systems.
\<close>

unbundle bit_operations_syntax

section \<open>Machine types\<close>

type_synonym byte = "8 word"
type_synonym u32 = "32 word"
type_synonym u64 = "64 word"
type_synonym bytes = "byte list"

named_theorems model_defs \<open>definitions the component proofs unfold\<close>
named_theorems size_arith \<open>unsigned size_t arithmetic without wrap-around\<close>
named_theorems hs_simps \<open>frame and projection rules of the handshake state\<close>

subsection \<open>Unsigned size_t arithmetic\<close>

text \<open>
  \<open>size_t\<close> is 64 bits wide on the LP64 targets the model fixes. Sizes are natural numbers below
  \<open>2 ^ 64\<close>; sums and differences wrap around as in C.
\<close>

definition SIZE_MAX :: nat where
  "SIZE_MAX = 2 ^ 64 - 1"

definition uadd :: "nat \<Rightarrow> nat \<Rightarrow> nat" where
  "uadd a b = (a + b) mod 2 ^ 64"

definition usub :: "nat \<Rightarrow> nat \<Rightarrow> nat" where
  "usub a b = (a + (2 ^ 64 - b mod 2 ^ 64)) mod 2 ^ 64"

lemma uadd_eq [size_arith]: "a + b \<le> SIZE_MAX \<Longrightarrow> uadd a b = a + b"
  by (simp add: uadd_def SIZE_MAX_def)

lemma usub_eq [size_arith]:
  assumes "b \<le> a" and "a \<le> SIZE_MAX"
  shows "usub a b = a - b"
proof -
  have b: "b < 2 ^ 64" and a: "a < 2 ^ 64"
    using assms by (simp_all add: SIZE_MAX_def)
  have "a + (2 ^ 64 - b mod 2 ^ 64) = (a - b) + 2 ^ 64"
    using b assms(1) by simp
  then have "usub a b = ((a - b) + 2 ^ 64) mod 2 ^ 64"
    by (simp only: usub_def)
  also have "\<dots> = (a - b) mod 2 ^ 64"
    by (rule mod_add_self2)
  also have "\<dots> = a - b"
    using a by simp
  finally show ?thesis .
qed

lemma mod_size_le: "(n :: nat) mod 2 ^ 64 \<le> SIZE_MAX"
proof -
  have "n mod 2 ^ 64 < 2 ^ 64"
    by (rule mod_less_divisor) simp
  then show ?thesis
    unfolding SIZE_MAX_def by linarith
qed

lemma uadd_le [simp]: "uadd a b \<le> SIZE_MAX"
  unfolding uadd_def by (rule mod_size_le)

lemma usub_le [simp]: "usub a b \<le> SIZE_MAX"
  unfolding usub_def by (rule mod_size_le)

section \<open>Big-endian integers\<close>

text \<open>
  \<open>be_bytes n v\<close> is the \<open>n\<close>-byte big-endian encoding of \<open>v\<close> modulo \<open>256 ^ n\<close>;
  \<open>be_val\<close> reads a byte string as a big-endian number.
\<close>

primrec be_bytes :: "nat \<Rightarrow> nat \<Rightarrow> bytes" where
  "be_bytes 0 v = []"
| "be_bytes (Suc n) v = be_bytes n (v div 256) @ [of_nat v]"

definition be_val :: "bytes \<Rightarrow> nat" where
  "be_val bs = foldl (\<lambda>acc b. acc * 256 + unat b) 0 bs"

lemma length_be_bytes [simp]: "length (be_bytes n v) = n"
  by (induction n arbitrary: v) simp_all

lemma be_bytes_numeral [simp]:
  "be_bytes (numeral k) v = be_bytes (pred_numeral k) (v div 256) @ [of_nat v]"
  by (subst numeral_eq_Suc) (rule be_bytes.simps(2))

lemma be_bytes_1 [simp]: "be_bytes 1 v = [of_nat v]"
  by (simp only: One_nat_def be_bytes.simps append_Nil)

lemma be_val_Nil [simp]: "be_val [] = 0"
  by (simp add: be_val_def)

lemma be_val_snoc [simp]: "be_val (bs @ [b]) = be_val bs * 256 + unat b"
  by (simp add: be_val_def)

lemma unat_byte_bound [simp]: "unat (b :: byte) < 256"
  using unsigned_less [of b] by simp

lemma be_val_bound: "be_val bs < 256 ^ length bs"
proof (induction bs rule: rev_induct)
  case Nil
  show ?case by simp
next
  case (snoc b bs)
  have "be_val bs * 256 + unat b < (be_val bs + 1) * 256"
    by simp
  also have "\<dots> \<le> 256 ^ length bs * 256"
    using snoc.IH by (intro mult_right_mono) simp_all
  finally show ?case by simp
qed

lemma be_val_be_bytes [simp]: "be_val (be_bytes n v) = v mod 256 ^ n"
proof (induction n arbitrary: v)
  case 0
  show ?case by simp
next
  case (Suc n)
  have "be_val (be_bytes (Suc n) v) = (v div 256) mod 256 ^ n * 256 + v mod 256"
    using Suc.IH by (simp add: unat_of_nat)
  also have "\<dots> = v mod 256 ^ Suc n"
    by (simp add: mod_mult2_eq mult.commute)
  finally show ?case .
qed

lemma be_bytes_be_val [simp]: "be_bytes (length bs) (be_val bs) = bs"
proof (induction bs rule: rev_induct)
  case Nil
  show ?case by simp
next
  case (snoc b bs)
  have "(be_val bs * 256 + unat b) div 256 = be_val bs"
    by simp
  moreover have "(of_nat (be_val bs * 256 + unat b) :: byte) = b"
  proof -
    have "(of_nat (be_val bs * 256 + unat b) :: byte) = of_nat (be_val bs) * of_nat 256 + b"
      by simp
    also have "(of_nat 256 :: byte) = 0"
      by simp
    finally show ?thesis by simp
  qed
  ultimately show ?case
    using snoc.IH by simp
qed

lemma be_val_inject: "length bs = length cs \<Longrightarrow> be_val bs = be_val cs \<longleftrightarrow> bs = cs"
  by (metis be_bytes_be_val)

subsection \<open>Assembling numbers from bytes with shifts\<close>

lemma push_bit_or_nat: "(y :: nat) < 2 ^ k \<Longrightarrow> push_bit k x OR y = x * 2 ^ k + y"
proof -
  assume "y < 2 ^ k"
  then have "take_bit k y = y"
    by (simp add: take_bit_nat_eq_self)
  then have "\<not> bit y i" if "k \<le> i" for i
    using that by (metis bit_take_bit_iff not_less)
  then have "push_bit k x AND y = 0"
    by (auto simp: bit_eq_iff bit_simps)
  then show ?thesis
    by (simp add: disjunctive_add_eq_or [symmetric] push_bit_eq_mult)
qed

lemma take_bit_byte [simp]: "8 \<le> n \<Longrightarrow> take_bit n (unat (a :: byte)) = unat a"
proof -
  assume "8 \<le> n"
  then have "(2 :: nat) ^ 8 \<le> 2 ^ n"
    by (rule power_increasing) simp
  then have "unat a < 2 ^ n"
    using unat_byte_bound [of a] by (simp del: unat_byte_bound)
  then show ?thesis
    by (rule take_bit_nat_eq_self)
qed

lemma unat_ucast_byte [simp]:
  "unat (ucast (a :: byte) :: u32) = unat a" "unat (ucast (a :: byte) :: u64) = unat a"
  by (simp_all add: unsigned_ucast_eq)

section \<open>Interfaces shared by several components\<close>

subsection \<open>Self-delimiting codecs\<close>

text \<open>
  A writer and a reader of one wire format: the reader, given the bytes of a valid value followed
  by anything, returns the value and exactly what followed. \<open>fits\<close> are the inputs that the
  reader can address at all.
\<close>

locale codec =
  fixes fits :: "bytes \<Rightarrow> bool"
    and valid :: "'a \<Rightarrow> bool"
    and enc :: "'a \<Rightarrow> bytes"
    and dec :: "bytes \<Rightarrow> ('a \<times> bytes) option"
  assumes fits_suffix: "fits (bs @ cs) \<Longrightarrow> fits cs"
    and dec_enc: "valid x \<Longrightarrow> fits (enc x @ rest) \<Longrightarrow> dec (enc x @ rest) = Some (x, rest)"
begin

text \<open>No encoding is the beginning of another one.\<close>

lemma enc_inj:
  assumes "valid x" and "valid y" and "fits (enc x @ r)" and "enc x @ r = enc y @ s"
  shows "x = y \<and> r = s"
proof -
  have "dec (enc x @ r) = Some (x, r)"
    using assms(1,3) by (rule dec_enc)
  moreover have "dec (enc x @ r) = Some (y, s)"
    unfolding assms(4) using assms(2) assms(3) [unfolded assms(4)] by (rule dec_enc)
  ultimately show ?thesis
    by (simp only: option.inject prod.inject)
qed

primrec dec_list :: "nat \<Rightarrow> bytes \<Rightarrow> ('a list \<times> bytes) option" where
  "dec_list 0 bs = Some ([], bs)"
| "dec_list (Suc n) bs =
     (case dec bs of None \<Rightarrow> None
      | Some (x, bs') \<Rightarrow> (case dec_list n bs' of None \<Rightarrow> None | Some (xs, r) \<Rightarrow> Some (x # xs, r)))"

lemma dec_list_enc:
  "list_all valid xs \<Longrightarrow> fits (concat (map enc xs) @ rest)
     \<Longrightarrow> dec_list (length xs) (concat (map enc xs) @ rest) = Some (xs, rest)"
proof (induction xs)
  case (Cons x xs)
  have "fits (concat (map enc xs) @ rest)"
    by (rule fits_suffix [of "enc x"]) (use Cons.prems(2) in simp)
  with Cons show ?case by (simp add: dec_enc)
qed simp

end

subsection \<open>Message readers and writers\<close>

text \<open>
  A peer of a handshake reads messages through a transition function that accepts or rejects the
  next message, and writes messages until its write transition says that the flight is over.
  Between two transitions the message is processed or sent, which may change the rest of the
  state; \<open>keeps\<close> says what it leaves alone. \<open>reads\<close> are the runs of accepted messages.
\<close>

inductive reads :: "('s \<Rightarrow> 'm \<Rightarrow> bool \<times> 's) \<Rightarrow> ('s \<Rightarrow> 's \<Rightarrow> bool) \<Rightarrow> 's \<Rightarrow> 'm list \<Rightarrow> 's \<Rightarrow> bool"
  for tr keeps where
  reads_nil: "reads tr keeps s [] s"
| reads_cons: "tr s m = (True, u) \<Longrightarrow> keeps u v \<Longrightarrow> reads tr keeps v ms t
    \<Longrightarrow> reads tr keeps s (m # ms) t"

inductive_simps reads_Nil [simp]: "reads tr keeps s [] t"
inductive_simps reads_Cons: "reads tr keeps s (m # ms) t"

text \<open>The messages \<open>ms\<close> can be read from \<open>s\<close> and lead to a state satisfying \<open>P\<close>.\<close>

definition accepts :: "('s \<Rightarrow> 'm \<Rightarrow> bool \<times> 's) \<Rightarrow> ('s \<Rightarrow> 's \<Rightarrow> bool) \<Rightarrow> ('s \<Rightarrow> bool) \<Rightarrow> 's \<Rightarrow> 'm list \<Rightarrow> bool"
where
  "accepts tr keeps P s ms \<longleftrightarrow> (\<exists>t. reads tr keeps s ms t \<and> P t)"

lemma accepts_Nil [simp]: "accepts tr keeps P s [] \<longleftrightarrow> P s"
  by (auto simp: accepts_def)

lemma accepts_Cons:
  "accepts tr keeps P s (m # ms) \<longleftrightarrow>
     (\<exists>u v. tr s m = (True, u) \<and> keeps u v \<and> accepts tr keeps P v ms)"
  by (auto simp: accepts_def reads_Cons)

text \<open>
  What every reader promises: processing keeps the handshake state \<open>st\<close>, and a rejected
  message leaves it unchanged.
\<close>

locale message_reader =
  fixes tr :: "'s \<Rightarrow> 'm \<Rightarrow> bool \<times> 's"
    and keeps :: "'s \<Rightarrow> 's \<Rightarrow> bool"
    and st :: "'s \<Rightarrow> 'h"
  assumes keeps_refl: "keeps s s"
    and keeps_st: "keeps s t \<Longrightarrow> st t = st s"
    and reject_st: "tr s m = (False, t) \<Longrightarrow> st t = st s"
begin

text \<open>If exactly one message is accepted in a state, every run from it starts with that message.\<close>

lemma accepts_only:
  assumes "\<not> P s" and "tr s x = (True, u)" and "\<And>m. m \<noteq> x \<Longrightarrow> \<not> fst (tr s m)"
    and "\<And>v ns. keeps u v \<Longrightarrow> accepts tr keeps P v ns = L ns"
  shows "accepts tr keeps P s ms \<longleftrightarrow> (\<exists>ns. ms = x # ns \<and> L ns)"
proof (cases ms)
  case Nil
  then show ?thesis using assms(1) by simp
next
  case (Cons m ns)
  have *: "tr s m = (True, w) \<longleftrightarrow> m = x \<and> w = u" for w
    using assms(2) assms(3) [of m] by (cases "m = x") auto
  have "(\<exists>v. keeps u v \<and> accepts tr keeps P v ns) \<longleftrightarrow> L ns"
    using assms(4) keeps_refl by blast
  then show ?thesis
    using Cons by (auto simp: accepts_Cons *)
qed

text \<open>A state in which no message is accepted ends every run.\<close>

lemma accepts_stuck:
  assumes "\<And>m. \<not> fst (tr s m)"
  shows "accepts tr keeps P s ms \<longleftrightarrow> ms = [] \<and> P s"
proof (cases ms)
  case Nil
  then show ?thesis by simp
next
  case (Cons m ns)
  have "tr s m \<noteq> (True, u)" for u
    using assms [of m] by auto
  with Cons show ?thesis by (auto simp: accepts_Cons)
qed

end

text \<open>
  A reader whose processing steps never influence which messages are accepted later: states that
  agree on what is kept accept the same messages. Then a run is determined by its messages, and
  acceptance can be computed message by message.
\<close>

locale stable_reader = message_reader +
  assumes keeps_sym: "keeps s t \<Longrightarrow> keeps t s"
    and keeps_trans: "keeps s t \<Longrightarrow> keeps t u \<Longrightarrow> keeps s u"
    and keeps_sim: "keeps s t \<Longrightarrow> tr s m = (True, u) \<Longrightarrow> \<exists>v. tr t m = (True, v) \<and> keeps u v"
begin

lemma reads_sim:
  "reads tr keeps s ms u \<Longrightarrow> keeps s t \<Longrightarrow> \<exists>v. reads tr keeps t ms v \<and> keeps u v"
proof (induction arbitrary: t rule: reads.induct)
  case (reads_nil s)
  then show ?case by auto
next
  case (reads_cons s m u v ms w)
  then obtain u' where u': "tr t m = (True, u')" "keeps u u'"
    using keeps_sim by blast
  then have "keeps v u'"
    using reads_cons.hyps(2) keeps_sym keeps_trans by blast
  then obtain w' where "reads tr keeps u' ms w'" "keeps w w'"
    using reads_cons.IH by blast
  then show ?case
    using u'(1) keeps_refl reads.reads_cons by metis
qed

lemma accepts_keeps:
  assumes "\<And>s t. keeps s t \<Longrightarrow> P s = P t" and "keeps s t"
  shows "accepts tr keeps P s ms = accepts tr keeps P t ms"
  using assms reads_sim keeps_sym unfolding accepts_def by metis

lemma accepts_Cons_det:
  assumes "\<And>s t. keeps s t \<Longrightarrow> P s = P t"
  shows "accepts tr keeps P s (m # ms) \<longleftrightarrow>
    (case tr s m of (b, u) \<Rightarrow> b \<and> accepts tr keeps P u ms)"
proof (cases "tr s m")
  case (Pair b u)
  have "(\<exists>v. keeps u v \<and> accepts tr keeps P v ms) \<longleftrightarrow> accepts tr keeps P u ms"
    using accepts_keeps [where P = P, OF assms] keeps_refl by blast
  with Pair show ?thesis
    by (auto simp: accepts_Cons)
qed

lemma accepts_st_Cons:
  "accepts tr keeps (\<lambda>t. st t = h) s (m # ms) \<longleftrightarrow>
    (case tr s m of (b, u) \<Rightarrow> b \<and> accepts tr keeps (\<lambda>t. st t = h) u ms)"
  by (rule accepts_Cons_det) (simp add: keeps_st)

end

end
