(* ===== verification/Handshake_State.thy ===== *)
theory Handshake_State
  imports Prelude
begin

text \<open>
  The data of the TLS/DTLS handshake state machines (\<open>ssl/statem/statem.h\<close>,
  \<open>include/openssl/ssl.h\<close>, \<open>ssl/ssl_local.h\<close>): the handshake states, the message flow
  states, the connection object \<open>tls\<close> restricted to the fields the state machines read or write,
  the protocol constants, and the operations of \<open>ssl/statem/statem.c\<close>, \<open>statem_lib.c\<close> and
  \<open>s3_lib.c\<close> that both sides share. A pointer of which the state machines only test whether it
  is NULL is a \<open>bool\<close> (True: not NULL). The C struct \<open>s->statem\<close> is the record \<open>statem\<close>.
  Two fields are observations of calls whose bodies are not part of this theory: \<open>alerts\<close> lists
  the calls of \<open>tls3_send_alert\<close>, \<open>err_queue\<close> the reasons given to \<open>ERR_raise\<close>.
\<close>

section \<open>States\<close>

datatype Otls_HANDSHAKE_STATE =
    TLS_ST_BEFORE | TLS_ST_OK
  | DTLS_ST_CR_HELLO_VERIFY_REQUEST | TLS_ST_CR_SRVR_HELLO | TLS_ST_CR_CERT
  | TLS_ST_CR_CERT_STATUS | TLS_ST_CR_KEY_EXCH | TLS_ST_CR_CERT_REQ | TLS_ST_CR_SRVR_DONE
  | TLS_ST_CR_SESSION_TICKET | TLS_ST_CR_CHANGE | TLS_ST_CR_FINISHED | TLS_ST_CW_CLNT_HELLO
  | TLS_ST_CW_CERT | TLS_ST_CW_KEY_EXCH | TLS_ST_CW_CERT_VRFY | TLS_ST_CW_CHANGE
  | TLS_ST_CW_NEXT_PROTO | TLS_ST_CW_FINISHED | TLS_ST_SW_HELLO_REQ | TLS_ST_SR_CLNT_HELLO
  | DTLS_ST_SW_HELLO_VERIFY_REQUEST | TLS_ST_SW_SRVR_HELLO | TLS_ST_SW_CERT
  | TLS_ST_SW_KEY_EXCH | TLS_ST_SW_CERT_REQ | TLS_ST_SW_SRVR_DONE | TLS_ST_SR_CERT
  | TLS_ST_SR_KEY_EXCH | TLS_ST_SR_CERT_VRFY | TLS_ST_SR_NEXT_PROTO | TLS_ST_SR_CHANGE
  | TLS_ST_SR_FINISHED | TLS_ST_SW_SESSION_TICKET | TLS_ST_SW_CERT_STATUS | TLS_ST_SW_CHANGE
  | TLS_ST_SW_FINISHED | TLS_ST_SW_ENCRYPTED_EXTENSIONS | TLS_ST_CR_ENCRYPTED_EXTENSIONS
  | TLS_ST_CR_CERT_VRFY | TLS_ST_SW_CERT_VRFY | TLS_ST_CR_HELLO_REQ | TLS_ST_SW_KEY_UPDATE
  | TLS_ST_CW_KEY_UPDATE | TLS_ST_SR_KEY_UPDATE | TLS_ST_CR_KEY_UPDATE | TLS_ST_EARLY_DATA
  | TLS_ST_PENDING_EARLY_DATA_END | TLS_ST_CW_END_OF_EARLY_DATA | TLS_ST_SR_END_OF_EARLY_DATA

datatype WORK_STATE =
    WORK_ERROR | WORK_FINISHED_STOP | WORK_FINISHED_CONTINUE
  | WORK_MORE_A | WORK_MORE_B | WORK_MORE_C

datatype WRITE_TRAN = WRITE_TRAN_ERROR | WRITE_TRAN_CONTINUE | WRITE_TRAN_FINISHED

datatype MSG_FLOW_STATE =
    MSG_FLOW_UNINITED | MSG_FLOW_ERROR | MSG_FLOW_READING | MSG_FLOW_WRITING | MSG_FLOW_FINISHED

datatype READ_STATE = READ_STATE_HEADER | READ_STATE_BODY | READ_STATE_POST_PROCESS

datatype WRITE_STATE =
    WRITE_STATE_TRANSITION | WRITE_STATE_PRE_WORK | WRITE_STATE_SEND | WRITE_STATE_POST_WORK

datatype ENC_WRITE_STATES =
    ENC_WRITE_STATE_VALID | ENC_WRITE_STATE_INVALID | ENC_WRITE_STATE_WRITE_PLAIN_ALERTS

datatype ENC_READ_STATES = ENC_READ_STATE_VALID | ENC_READ_STATE_ALLOW_PLAIN_ALERTS

datatype tls_PHA_STATE =
    tls_PHA_NONE | tls_PHA_EXT_SENT | tls_PHA_EXT_RECEIVED | tls_PHA_REQUEST_PENDING
  | tls_PHA_REQUESTED

datatype tls_EARLY_DATA_STATE =
    tls_EARLY_DATA_NONE | tls_EARLY_DATA_CONNECT_RETRY | tls_EARLY_DATA_CONNECTING
  | tls_EARLY_DATA_WRITE_RETRY | tls_EARLY_DATA_WRITING | tls_EARLY_DATA_WRITE_FLUSH
  | tls_EARLY_DATA_UNAUTH_WRITING | tls_EARLY_DATA_FINISHED_WRITING
  | tls_EARLY_DATA_ACCEPT_RETRY | tls_EARLY_DATA_ACCEPTING | tls_EARLY_DATA_READ_RETRY
  | tls_EARLY_DATA_READING | tls_EARLY_DATA_FINISHED_READING

text \<open>The message construction functions, by name.\<close>

datatype confunc =
    dtls_construct_change_cipher_spec | tls_construct_change_cipher_spec
  | tls_construct_client_hello | tls_construct_end_of_early_data
  | tls_construct_client_certificate | tls_construct_client_key_exchange
  | tls_construct_cert_verify | tls_construct_next_proto | tls_construct_finished
  | tls_construct_key_update | dtls_construct_hello_verify_request
  | tls_construct_server_hello | tls_construct_server_certificate
  | tls_construct_server_key_exchange | tls_construct_certificate_request
  | tls_construct_server_done | tls_construct_new_session_ticket | tls_construct_cert_status
  | tls_construct_encrypted_extensions

datatype tls_HRR_STATE = tls_HRR_NONE | tls_HRR_PENDING | tls_HRR_COMPLETE

section \<open>Protocol constants\<close>

abbreviation (input) tls3_MT_HELLO_REQUEST :: int where "tls3_MT_HELLO_REQUEST \<equiv> 0"
abbreviation (input) tls3_MT_CLIENT_HELLO :: int where "tls3_MT_CLIENT_HELLO \<equiv> 1"
abbreviation (input) tls3_MT_SERVER_HELLO :: int where "tls3_MT_SERVER_HELLO \<equiv> 2"
abbreviation (input) DTLS1_MT_HELLO_VERIFY_REQUEST :: int where "DTLS1_MT_HELLO_VERIFY_REQUEST \<equiv> 3"
abbreviation (input) tls3_MT_NEWSESSION_TICKET :: int where "tls3_MT_NEWSESSION_TICKET \<equiv> 4"
abbreviation (input) tls3_MT_END_OF_EARLY_DATA :: int where "tls3_MT_END_OF_EARLY_DATA \<equiv> 5"
abbreviation (input) tls3_MT_ENCRYPTED_EXTENSIONS :: int where "tls3_MT_ENCRYPTED_EXTENSIONS \<equiv> 8"
abbreviation (input) tls3_MT_CERTIFICATE :: int where "tls3_MT_CERTIFICATE \<equiv> 11"
abbreviation (input) tls3_MT_SERVER_KEY_EXCHANGE :: int where "tls3_MT_SERVER_KEY_EXCHANGE \<equiv> 12"
abbreviation (input) tls3_MT_CERTIFICATE_REQUEST :: int where "tls3_MT_CERTIFICATE_REQUEST \<equiv> 13"
abbreviation (input) tls3_MT_SERVER_DONE :: int where "tls3_MT_SERVER_DONE \<equiv> 14"
abbreviation (input) tls3_MT_CERTIFICATE_VERIFY :: int where "tls3_MT_CERTIFICATE_VERIFY \<equiv> 15"
abbreviation (input) tls3_MT_CLIENT_KEY_EXCHANGE :: int where "tls3_MT_CLIENT_KEY_EXCHANGE \<equiv> 16"
abbreviation (input) tls3_MT_FINISHED :: int where "tls3_MT_FINISHED \<equiv> 20"
abbreviation (input) tls3_MT_CERTIFICATE_STATUS :: int where "tls3_MT_CERTIFICATE_STATUS \<equiv> 22"
abbreviation (input) tls3_MT_KEY_UPDATE :: int where "tls3_MT_KEY_UPDATE \<equiv> 24"
abbreviation (input) tls3_MT_NEXT_PROTO :: int where "tls3_MT_NEXT_PROTO \<equiv> 67"
abbreviation (input) tls3_MT_CHANGE_CIPHER_SPEC :: int where "tls3_MT_CHANGE_CIPHER_SPEC \<equiv> 0x0101"
abbreviation (input) tls3_MT_DUMMY :: int where "tls3_MT_DUMMY \<equiv> - 1"

abbreviation (input) tls3_VERSION :: int where "tls3_VERSION \<equiv> 0x0300"
abbreviation (input) TLS1_VERSION :: int where "TLS1_VERSION \<equiv> 0x0301"
abbreviation (input) TLS1_3_VERSION :: int where "TLS1_3_VERSION \<equiv> 0x0304"
abbreviation (input) TLS_ANY_VERSION :: int where "TLS_ANY_VERSION \<equiv> 0x10000"
abbreviation (input) DTLS1_VERSION :: int where "DTLS1_VERSION \<equiv> 0xFEFF"
abbreviation (input) DTLS1_BAD_VER :: int where "DTLS1_BAD_VER \<equiv> 0x0100"

abbreviation (input) tls_kDHE :: u32 where "tls_kDHE \<equiv> 0x2"
abbreviation (input) tls_kECDHE :: u32 where "tls_kECDHE \<equiv> 0x4"
abbreviation (input) tls_kPSK :: u32 where "tls_kPSK \<equiv> 0x8"
abbreviation (input) tls_kSRP :: u32 where "tls_kSRP \<equiv> 0x20"
abbreviation (input) tls_kRSAPSK :: u32 where "tls_kRSAPSK \<equiv> 0x40"
abbreviation (input) tls_kECDHEPSK :: u32 where "tls_kECDHEPSK \<equiv> 0x80"
abbreviation (input) tls_kDHEPSK :: u32 where "tls_kDHEPSK \<equiv> 0x100"
abbreviation (input) tls_PSK :: u32 where
  "tls_PSK \<equiv> tls_kPSK OR tls_kRSAPSK OR tls_kECDHEPSK OR tls_kDHEPSK"
abbreviation (input) tls_aNULL :: u32 where "tls_aNULL \<equiv> 0x4"
abbreviation (input) tls_aPSK :: u32 where "tls_aPSK \<equiv> 0x10"
abbreviation (input) tls_aSRP :: u32 where "tls_aSRP \<equiv> 0x40"

abbreviation (input) tls_OP_COOKIE_EXCHANGE :: u32 where "tls_OP_COOKIE_EXCHANGE \<equiv> 0x2000"
abbreviation (input) tls_OP_ENABLE_MIDDLEBOX_COMPAT :: u32 where
  "tls_OP_ENABLE_MIDDLEBOX_COMPAT \<equiv> 0x100000"
abbreviation (input) tls_VERIFY_PEER :: u32 where "tls_VERIFY_PEER \<equiv> 0x1"
abbreviation (input) tls_VERIFY_FAIL_IF_NO_PEER_CERT :: u32 where
  "tls_VERIFY_FAIL_IF_NO_PEER_CERT \<equiv> 0x2"
abbreviation (input) tls_VERIFY_CLIENT_ONCE :: u32 where "tls_VERIFY_CLIENT_ONCE \<equiv> 0x4"
abbreviation (input) tls_VERIFY_POST_HANDSHAKE :: u32 where "tls_VERIFY_POST_HANDSHAKE \<equiv> 0x8"
abbreviation (input) TLS1_FLAGS_SKIP_CERT_VERIFY :: u32 where "TLS1_FLAGS_SKIP_CERT_VERIFY \<equiv> 0x10"
abbreviation (input) TLS1_FLAGS_ENCRYPT_THEN_MAC_WRITE :: u32 where
  "TLS1_FLAGS_ENCRYPT_THEN_MAC_WRITE \<equiv> 0x400"
abbreviation (input) TLS1_FLAGS_STATELESS :: u32 where "TLS1_FLAGS_STATELESS \<equiv> 0x800"
abbreviation (input) tls_SENT_SHUTDOWN :: u32 where "tls_SENT_SHUTDOWN \<equiv> 1"
abbreviation (input) tls_KEY_UPDATE_NONE :: int where "tls_KEY_UPDATE_NONE \<equiv> - 1"
abbreviation (input) tls_NOTHING :: int where "tls_NOTHING \<equiv> 1"
abbreviation (input) tls_WRITING :: int where "tls_WRITING \<equiv> 2"
abbreviation (input) tls_READING :: int where "tls_READING \<equiv> 3"
abbreviation (input) tls_EARLY_DATA_NOT_SENT :: int where "tls_EARLY_DATA_NOT_SENT \<equiv> 0"
abbreviation (input) tls_EARLY_DATA_REJECTED :: int where "tls_EARLY_DATA_REJECTED \<equiv> 1"
abbreviation (input) tls_EARLY_DATA_ACCEPTED :: int where "tls_EARLY_DATA_ACCEPTED \<equiv> 2"

abbreviation (input) tls3_AL_FATAL :: int where "tls3_AL_FATAL \<equiv> 2"
abbreviation (input) tls_AD_NO_ALERT :: int where "tls_AD_NO_ALERT \<equiv> - 1"
abbreviation (input) tls3_AD_UNEXPECTED_MESSAGE :: int where "tls3_AD_UNEXPECTED_MESSAGE \<equiv> 10"
abbreviation (input) tls_AD_HANDSHAKE_FAILURE :: int where "tls_AD_HANDSHAKE_FAILURE \<equiv> 40"
abbreviation (input) tls_AD_ILLEGAL_PARAMETER :: int where "tls_AD_ILLEGAL_PARAMETER \<equiv> 47"
abbreviation (input) tls_AD_INTERNAL_ERROR :: int where "tls_AD_INTERNAL_ERROR \<equiv> 80"
abbreviation (input) ERR_R_INTERNAL_ERROR :: int where "ERR_R_INTERNAL_ERROR \<equiv> 68"
abbreviation (input) tls_R_UNEXPECTED_MESSAGE :: int where "tls_R_UNEXPECTED_MESSAGE \<equiv> 244"
abbreviation (input) tls_R_PEER_DID_NOT_RETURN_A_CERTIFICATE :: int where
  "tls_R_PEER_DID_NOT_RETURN_A_CERTIFICATE \<equiv> 199"
abbreviation (input) tls_R_BAD_HANDSHAKE_STATE :: int where "tls_R_BAD_HANDSHAKE_STATE \<equiv> 236"
abbreviation (input) tls_R_NO_CIPHERS_AVAILABLE :: int where "tls_R_NO_CIPHERS_AVAILABLE \<equiv> 181"

section \<open>The connection object\<close>

record tls_cipher =
  algorithm_mkey :: u32
  algorithm_auth :: u32
  min_tls :: int
  max_tls :: int
  min_dtls :: int
  max_dtls :: int

record otls_statem =
  flow_state :: MSG_FLOW_STATE
  write_state :: WRITE_STATE
  write_state_work :: WORK_STATE
  read_state :: READ_STATE
  read_state_work :: WORK_STATE
  hand_state :: Otls_HANDSHAKE_STATE
  request_state :: Otls_HANDSHAKE_STATE
  in_init :: bool
  read_state_first_init :: bool
  in_handshake :: int
  cleanuphand :: bool
  no_cert_verify :: bool
  use_timer :: bool
  enc_write_state :: ENC_WRITE_STATES
  enc_read_state :: ENC_READ_STATES

text \<open>Counters of the contexts that the handshake code bumps (\<open>tsan_counter\<close>).\<close>

record tls_stats =
  sess_accept :: nat
  sess_accept_renegotiate :: nat
  sess_accept_good :: nat
  sess_connect :: nat
  sess_connect_renegotiate :: nat
  sess_connect_good :: nat
  sess_hit :: nat

record tls =
  statem :: otls_statem
  server :: bool
  version :: int
  method_version :: int
  method_is_dtls :: bool
  hit :: bool
  renegotiate :: bool
  shutdown :: u32
  options :: u32
  verify_mode :: u32
  rwstate :: int
  init_num :: nat
  first_packet :: bool
  rbio_retry_read :: bool
  key_update :: int
  max_cert_list :: nat
  num_tickets :: nat
  sent_tickets :: nat
  certreqs_sent :: int
  early_data_state :: tls_EARLY_DATA_STATE
  hello_retry_request :: tls_HRR_STATE
  post_handshake_auth :: tls_PHA_STATE
  pha_dgst :: "bytes option"
  handshake_dgst :: bytes
  session_peer :: bool
  session_tick :: bool
  session_secret_cb :: bool
  psk_identity_hint :: bool
  cookie_verified :: bool
  ext_ticket_expected :: bool
  ext_status_expected :: bool
  ext_early_data :: int
  ext_extflags :: "nat list"
  cipher_list :: "tls_cipher list"
  new_cipher :: tls_cipher
  cert_req :: int
  cert_request :: bool
  npn_seen :: bool
  s3_flags :: u32
  s3_renegotiate :: bool
  num_renegotiations :: int
  total_renegotiations :: int
  finish_md_len :: nat
  peer_finish_md_len :: nat
  previous_server_finished_len :: nat
  in_read_app_data :: int
  client_random :: bytes
  read_pending :: bool
  write_pending :: bool
  stats :: tls_stats
  alerts :: "(int \<times> int) list"
  err_queue :: "int list"

text \<open>Field access through \<open>s->statem\<close>.\<close>

abbreviation hs :: "tls \<Rightarrow> Otls_HANDSHAKE_STATE" where
  "hs s \<equiv> hand_state (statem s)"

definition set_hand_state :: "Otls_HANDSHAKE_STATE \<Rightarrow> tls \<Rightarrow> tls" where
  "set_hand_state h s = s\<lparr>statem := (statem s)\<lparr>hand_state := h\<rparr>\<rparr>"

section \<open>Macros of \<open>ssl_local.h\<close>\<close>

definition tls_IS_DTLS :: "tls \<Rightarrow> bool" where
  "tls_IS_DTLS s \<longleftrightarrow> method_is_dtls s"

definition tls_IS_TLS13 :: "tls \<Rightarrow> bool" where
  "tls_IS_TLS13 s \<longleftrightarrow> \<not> tls_IS_DTLS s \<and> method_version s \<ge> TLS1_3_VERSION
     \<and> method_version s \<noteq> TLS_ANY_VERSION"

definition tls_IS_FIRST_HANDSHAKE :: "tls \<Rightarrow> bool" where
  "tls_IS_FIRST_HANDSHAKE s \<longleftrightarrow> finish_md_len s = 0 \<or> peer_finish_md_len s = 0"

definition dtls_ver_ordinal :: "int \<Rightarrow> int" where
  "dtls_ver_ordinal v = (if v = DTLS1_BAD_VER then 0xff00 else v)"

definition DTLS_VERSION_GE :: "int \<Rightarrow> int \<Rightarrow> bool" where
  "DTLS_VERSION_GE v1 v2 \<longleftrightarrow> dtls_ver_ordinal v1 \<le> dtls_ver_ordinal v2"

definition DTLS_VERSION_LE :: "int \<Rightarrow> int \<Rightarrow> bool" where
  "DTLS_VERSION_LE v1 v2 \<longleftrightarrow> dtls_ver_ordinal v1 \<ge> dtls_ver_ordinal v2"

section \<open>Operations of \<open>statem.c\<close> on the connection\<close>

definition tls_in_init :: "tls \<Rightarrow> bool" where
  "tls_in_init s \<longleftrightarrow> in_init (statem s)"

definition tls_is_init_finished :: "tls \<Rightarrow> bool" where
  "tls_is_init_finished s \<longleftrightarrow> \<not> in_init (statem s) \<and> hs s = TLS_ST_OK"

definition tls_in_before :: "tls \<Rightarrow> bool" where
  "tls_in_before s \<longleftrightarrow> hs s = TLS_ST_BEFORE \<and> flow_state (statem s) = MSG_FLOW_UNINITED"

definition otls_statem_clear :: "tls \<Rightarrow> tls" where
  "otls_statem_clear s = s\<lparr>statem := (statem s)\<lparr>flow_state := MSG_FLOW_UNINITED,
     hand_state := TLS_ST_BEFORE, in_init := True, no_cert_verify := False\<rparr>\<rparr>"

definition otls_statem_set_renegotiate :: "tls \<Rightarrow> tls" where
  "otls_statem_set_renegotiate s =
     s\<lparr>statem := (statem s)\<lparr>in_init := True, request_state := TLS_ST_SW_HELLO_REQ\<rparr>\<rparr>"

definition otls_statem_fatal :: "int \<Rightarrow> int \<Rightarrow> tls \<Rightarrow> tls" where
  "otls_statem_fatal al reason s =
     (let s = s\<lparr>err_queue := err_queue s @ [reason]\<rparr> in
      if in_init (statem s) \<and> flow_state (statem s) = MSG_FLOW_ERROR then s
      else let s = s\<lparr>statem := (statem s)\<lparr>in_init := True, flow_state := MSG_FLOW_ERROR\<rparr>\<rparr> in
        if al \<noteq> tls_AD_NO_ALERT \<and> enc_write_state (statem s) \<noteq> ENC_WRITE_STATE_INVALID
        then s\<lparr>alerts := alerts s @ [(tls3_AL_FATAL, al)]\<rparr> else s)"

definition otls_statem_in_error :: "tls \<Rightarrow> bool" where
  "otls_statem_in_error s \<longleftrightarrow> flow_state (statem s) = MSG_FLOW_ERROR"

definition otls_statem_set_in_init :: "bool \<Rightarrow> tls \<Rightarrow> tls" where
  "otls_statem_set_in_init b s = s\<lparr>statem := (statem s)\<lparr>in_init := b\<rparr>\<rparr>"

definition otls_statem_set_in_handshake :: "bool \<Rightarrow> tls \<Rightarrow> tls" where
  "otls_statem_set_in_handshake inhand s =
     s\<lparr>statem := (statem s)\<lparr>in_handshake :=
        (if inhand then in_handshake (statem s) + 1 else in_handshake (statem s) - 1)\<rparr>\<rparr>"

definition otls_statem_skip_early_data :: "tls \<Rightarrow> bool" where
  "otls_statem_skip_early_data s =
     (if ext_early_data s \<noteq> tls_EARLY_DATA_REJECTED then False
      else if \<not> server s \<or> hs s \<noteq> TLS_ST_EARLY_DATA
           \<or> hello_retry_request s = tls_HRR_COMPLETE then False
      else True)"

definition otls_statem_check_finish_init :: "int \<Rightarrow> tls \<Rightarrow> tls" where
  "otls_statem_check_finish_init sending s =
     (if sending = - 1 then
        (if hs s = TLS_ST_PENDING_EARLY_DATA_END \<or> hs s = TLS_ST_EARLY_DATA then
           (let s = otls_statem_set_in_init True s in
            if early_data_state s = tls_EARLY_DATA_WRITE_RETRY
            then s\<lparr>early_data_state := tls_EARLY_DATA_FINISHED_WRITING\<rparr> else s)
         else s)
      else if \<not> server s then
        (if (sending \<noteq> 0 \<and> (hs s = TLS_ST_PENDING_EARLY_DATA_END \<or> hs s = TLS_ST_EARLY_DATA)
               \<and> early_data_state s \<noteq> tls_EARLY_DATA_WRITING)
            \<or> (sending = 0 \<and> hs s = TLS_ST_EARLY_DATA) then
           (let s = otls_statem_set_in_init True s in
            if sending \<noteq> 0 \<and> early_data_state s = tls_EARLY_DATA_WRITE_RETRY
            then s\<lparr>early_data_state := tls_EARLY_DATA_FINISHED_WRITING\<rparr> else s)
         else s)
      else if early_data_state s = tls_EARLY_DATA_FINISHED_READING \<and> hs s = TLS_ST_EARLY_DATA
      then otls_statem_set_in_init True s else s)"

definition otls_statem_set_hello_verify_done :: "tls \<Rightarrow> tls" where
  "otls_statem_set_hello_verify_done s =
     s\<lparr>statem := (statem s)\<lparr>flow_state := MSG_FLOW_UNINITED, in_init := True,
        hand_state := TLS_ST_SR_CLNT_HELLO\<rparr>\<rparr>"

definition otls_statem_app_data_allowed :: "tls \<Rightarrow> bool" where
  "otls_statem_app_data_allowed s =
     (if flow_state (statem s) = MSG_FLOW_UNINITED then False
      else if in_read_app_data s = 0 \<or> total_renegotiations s = 0 then False
      else if server s then hs s = TLS_ST_BEFORE \<or> hs s = TLS_ST_SR_CLNT_HELLO
      else hs s = TLS_ST_CW_CLNT_HELLO)"

definition otls_statem_export_allowed :: "tls \<Rightarrow> bool" where
  "otls_statem_export_allowed s \<longleftrightarrow>
     previous_server_finished_len s \<noteq> 0 \<and> hs s \<noteq> TLS_ST_SW_FINISHED"

definition otls_statem_export_early_allowed :: "tls \<Rightarrow> bool" where
  "otls_statem_export_early_allowed s \<longleftrightarrow> ext_early_data s = tls_EARLY_DATA_ACCEPTED
     \<or> (\<not> server s \<and> ext_early_data s \<noteq> tls_EARLY_DATA_NOT_SENT)"

section \<open>Handshake set-up and renegotiation\<close>

text \<open>
  What the transition functions call outside the state machine: the copy of a digest context
  (\<open>EVP_MD_CTX_copy_ex\<close>, which fails when memory runs out), the reset of the handshake transcript
  (\<open>tls3_init_finished_mac\<close>) and the version range of the configuration
  (\<open>tls_get_min_max_version\<close>, None for an error code).
\<close>

record hs_env =
  EVP_MD_CTX_copy_ex_ok :: bool
  tls3_init_finished_mac :: "tls \<Rightarrow> bool \<times> tls"
  tls_get_min_max_version :: "tls \<Rightarrow> (int \<times> int) option"

definition tls3_renegotiate_check :: "bool \<Rightarrow> tls \<Rightarrow> bool \<times> tls" where
  "tls3_renegotiate_check initok s =
     (if s3_renegotiate s \<and> \<not> read_pending s \<and> \<not> write_pending s \<and> (initok \<or> \<not> tls_in_init s)
      then let s = otls_statem_set_renegotiate s in
        (True, s\<lparr>s3_renegotiate := False, num_renegotiations := num_renegotiations s + 1,
                 total_renegotiations := total_renegotiations s + 1\<rparr>)
      else (False, s))"

definition tls13_restore_handshake_digest_for_pha :: "hs_env \<Rightarrow> tls \<Rightarrow> bool \<times> tls" where
  "tls13_restore_handshake_digest_for_pha e s =
     (case pha_dgst s of
        None \<Rightarrow> (False, otls_statem_fatal tls_AD_INTERNAL_ERROR ERR_R_INTERNAL_ERROR s)
      | Some d \<Rightarrow>
          if \<not> EVP_MD_CTX_copy_ex_ok e
          then (False, otls_statem_fatal tls_AD_INTERNAL_ERROR ERR_R_INTERNAL_ERROR s)
          else (True, s\<lparr>handshake_dgst := d\<rparr>))"

definition cipher_supports :: "tls \<Rightarrow> int \<Rightarrow> tls_cipher \<Rightarrow> bool" where
  "cipher_supports s ver_max c =
     (if tls_IS_DTLS s
      then DTLS_VERSION_GE ver_max (min_dtls c) \<and> DTLS_VERSION_LE ver_max (max_dtls c)
      else ver_max \<ge> min_tls c \<and> ver_max \<le> max_tls c)"

definition tls_setup_handshake :: "hs_env \<Rightarrow> tls \<Rightarrow> bool \<times> tls" where
  "tls_setup_handshake e s =
     (case tls3_init_finished_mac e s of
        (False, s) \<Rightarrow> (False, s)
      | (True, s) \<Rightarrow>
         let s = s\<lparr>ext_extflags := map (\<lambda>_. 0) (ext_extflags s)\<rparr> in
         if server s then
           (case tls_get_min_max_version e s of
              None \<Rightarrow> (False, otls_statem_fatal tls_AD_INTERNAL_ERROR ERR_R_INTERNAL_ERROR s)
            | Some (ver_min, ver_max) \<Rightarrow>
               if \<not> list_ex (cipher_supports s ver_max) (cipher_list s)
               then (False, otls_statem_fatal tls_AD_HANDSHAKE_FAILURE tls_R_NO_CIPHERS_AVAILABLE s)
               else if tls_IS_FIRST_HANDSHAKE s
               then (True, s\<lparr>stats := (stats s)\<lparr>sess_accept := sess_accept (stats s) + 1\<rparr>\<rparr>)
               else (True, s\<lparr>stats := (stats s)\<lparr>sess_accept_renegotiate :=
                                         sess_accept_renegotiate (stats s) + 1\<rparr>,
                             cert_request := False\<rparr>))
         else
           (let s = (if tls_IS_FIRST_HANDSHAKE s
                     then s\<lparr>stats := (stats s)\<lparr>sess_connect := sess_connect (stats s) + 1\<rparr>\<rparr>
                     else s\<lparr>stats := (stats s)\<lparr>sess_connect_renegotiate :=
                                         sess_connect_renegotiate (stats s) + 1\<rparr>\<rparr>);
                s = s\<lparr>client_random := map (\<lambda>_. 0) (client_random s), hit := False,
                      cert_req := 0\<rparr>
            in (True, if tls_IS_DTLS s
                      then s\<lparr>statem := (statem s)\<lparr>use_timer := True\<rparr>\<rparr> else s)))"

text \<open>
  The label \<open>err\<close> of both read transitions: an out-of-order ChangeCipherSpec of DTLS is
  dropped, anything else is fatal.
\<close>

definition read_transition_err :: "tls \<Rightarrow> int \<Rightarrow> bool \<times> tls" where
  "read_transition_err s mt =
     (if tls_IS_DTLS s \<and> mt = tls3_MT_CHANGE_CIPHER_SPEC
      then (False, s\<lparr>init_num := 0, rwstate := tls_READING, rbio_retry_read := True\<rparr>)
      else (False, otls_statem_fatal tls3_AD_UNEXPECTED_MESSAGE tls_R_UNEXPECTED_MESSAGE s))"

abbreviation internal_error :: "tls \<Rightarrow> tls" where
  "internal_error s \<equiv> otls_statem_fatal tls_AD_INTERNAL_ERROR ERR_R_INTERNAL_ERROR s"


section \<open>Frame rules\<close>

lemma hs_set_hand_state [simp, hs_simps]: "hs (set_hand_state h s) = h"
  by (simp add: set_hand_state_def)

lemma hs_fatal [simp, hs_simps]: "hs (otls_statem_fatal al r s) = hs s"
  by (simp add: otls_statem_fatal_def Let_def)

text \<open>Whatever was running, a fatal error leaves the connection in the error state.\<close>

lemma fatal_in_error [simp, hs_simps]: "otls_statem_in_error (otls_statem_fatal al r s)"
  by (simp add: otls_statem_fatal_def otls_statem_in_error_def Let_def)

lemma fatal_alert_once:
  "in_init (statem s) \<Longrightarrow> otls_statem_in_error s \<Longrightarrow> alerts (otls_statem_fatal al r s) = alerts s"
  by (simp add: otls_statem_fatal_def otls_statem_in_error_def Let_def)

lemma read_transition_err_rejects [simp, hs_simps]:
  "fst (read_transition_err s mt) = False" "read_transition_err s mt \<noteq> (True, u)"
  by (simp_all add: read_transition_err_def)

lemma read_transition_err_hs [hs_simps]: "read_transition_err s mt = (b, t) \<Longrightarrow> hs t = hs s"
  by (auto simp: read_transition_err_def split: if_splits)

lemma set_hand_state_frame [simp, hs_simps]:
  "new_cipher (set_hand_state h s) = new_cipher s"
  "tls_IS_DTLS (set_hand_state h s) = tls_IS_DTLS s"
  "tls_IS_TLS13 (set_hand_state h s) = tls_IS_TLS13 s"
  "hit (set_hand_state h s) = hit s"
  "ext_ticket_expected (set_hand_state h s) = ext_ticket_expected s"
  "ext_status_expected (set_hand_state h s) = ext_status_expected s"
  "version (set_hand_state h s) = version s"
  "verify_mode (set_hand_state h s) = verify_mode s"
  "options (set_hand_state h s) = options s"
  "cert_req (set_hand_state h s) = cert_req s"
  "cert_request (set_hand_state h s) = cert_request s"
  "npn_seen (set_hand_state h s) = npn_seen s"
  "session_peer (set_hand_state h s) = session_peer s"
  "no_cert_verify (statem (set_hand_state h s)) = no_cert_verify (statem s)"
  "hello_retry_request (set_hand_state h s) = hello_retry_request s"
  "early_data_state (set_hand_state h s) = early_data_state s"
  "ext_early_data (set_hand_state h s) = ext_early_data s"
  "post_handshake_auth (set_hand_state h s) = post_handshake_auth s"
  "s3_flags (set_hand_state h s) = s3_flags s"
  "certreqs_sent (set_hand_state h s) = certreqs_sent s"
  "psk_identity_hint (set_hand_state h s) = psk_identity_hint s"
  by (simp_all add: set_hand_state_def tls_IS_DTLS_def tls_IS_TLS13_def)

section \<open>Flights\<close>

text \<open>An optional message of a flight.\<close>

definition opt_msg :: "bool \<Rightarrow> int \<Rightarrow> int list" where
  "opt_msg b m = (if b then [m] else [])"

text \<open>
  A peer writes messages as long as its write transition says \<open>WRITE_TRAN_CONTINUE\<close>; \<open>msg\<close>
  is the message type that the entered state sends. Between two transitions the message is
  constructed and sent; \<open>keeps\<close> says what that leaves alone. A flight ends when the
  transition says \<open>WRITE_TRAN_FINISHED\<close>, or when it enters a state that sends no message:
  \<open>TLS_ST_OK\<close>, where the handshake is over (any other such state is a fatal error, which the
  predicate on the final state tells apart).
\<close>

inductive writes :: "('s \<Rightarrow> WRITE_TRAN \<times> 's) \<Rightarrow> ('s \<Rightarrow> int option) \<Rightarrow> ('s \<Rightarrow> 's \<Rightarrow> bool)
    \<Rightarrow> 's \<Rightarrow> int list \<Rightarrow> 's \<Rightarrow> bool" for wtr msg keeps where
  writes_stop: "wtr s = (WRITE_TRAN_FINISHED, t) \<Longrightarrow> writes wtr msg keeps s [] t"
| writes_end: "wtr s = (WRITE_TRAN_CONTINUE, t) \<Longrightarrow> msg t = None \<Longrightarrow> writes wtr msg keeps s [] t"
| writes_cont: "wtr s = (WRITE_TRAN_CONTINUE, u) \<Longrightarrow> msg u = Some m \<Longrightarrow> keeps u v
    \<Longrightarrow> writes wtr msg keeps v ms t \<Longrightarrow> writes wtr msg keeps s (m # ms) t"

inductive_simps writes_Nil: "writes wtr msg keeps s [] t"
inductive_simps writes_Cons: "writes wtr msg keeps s (m # ms) t"

definition sends :: "('s \<Rightarrow> WRITE_TRAN \<times> 's) \<Rightarrow> ('s \<Rightarrow> int option) \<Rightarrow> ('s \<Rightarrow> 's \<Rightarrow> bool)
    \<Rightarrow> ('s \<Rightarrow> bool) \<Rightarrow> 's \<Rightarrow> int list \<Rightarrow> bool" where
  "sends wtr msg keeps P s ms \<longleftrightarrow> (\<exists>t. writes wtr msg keeps s ms t \<and> P t)"

locale message_writer =
  fixes wtr :: "'s \<Rightarrow> WRITE_TRAN \<times> 's"
    and msg :: "'s \<Rightarrow> int option"
    and keeps :: "'s \<Rightarrow> 's \<Rightarrow> bool"
  assumes keeps_total: "\<exists>t. keeps s t"
begin

lemma sends_finished:
  "wtr s = (WRITE_TRAN_FINISHED, u) \<Longrightarrow> sends wtr msg keeps P s ms \<longleftrightarrow> ms = [] \<and> P u"
  by (cases ms) (auto simp: sends_def writes_Nil writes_Cons)

lemma sends_end:
  "wtr s = (WRITE_TRAN_CONTINUE, u) \<Longrightarrow> msg u = None
     \<Longrightarrow> sends wtr msg keeps P s ms \<longleftrightarrow> ms = [] \<and> P u"
  by (cases ms) (auto simp: sends_def writes_Nil writes_Cons)

lemma sends_continue:
  assumes "wtr s = (WRITE_TRAN_CONTINUE, u)" and "msg u = Some m"
    and "\<And>v ns. keeps u v \<Longrightarrow> sends wtr msg keeps P v ns \<longleftrightarrow> ns = L"
  shows "sends wtr msg keeps P s ms \<longleftrightarrow> ms = m # L"
proof (cases ms)
  case Nil
  then show ?thesis using assms(1,2) by (auto simp: sends_def writes_Nil)
next
  case (Cons m' ns)
  have "sends wtr msg keeps P s (m' # ns) \<longleftrightarrow>
      m' = m \<and> (\<exists>v. keeps u v \<and> sends wtr msg keeps P v ns)"
    using assms(1,2) by (auto simp: sends_def writes_Cons)
  then show ?thesis
    using assms(3) keeps_total [of u] Cons by blast
qed

end

section \<open>A sample connection\<close>

text \<open>
  A concrete TLS 1.2 connection with an ECDHE-RSA cipher suite, on which the theorems about the
  handshake are exercised, and an environment in which every call succeeds.
\<close>

definition sample_cipher :: tls_cipher where
  "sample_cipher = \<lparr>algorithm_mkey = tls_kECDHE, algorithm_auth = 1, min_tls = 0x0303,
     max_tls = 0x0303, min_dtls = 0xFEFD, max_dtls = 0xFEFD\<rparr>"

definition sample_statem :: "Otls_HANDSHAKE_STATE \<Rightarrow> otls_statem" where
  "sample_statem h = \<lparr>flow_state = MSG_FLOW_READING, write_state = WRITE_STATE_TRANSITION,
     write_state_work = WORK_MORE_A, read_state = READ_STATE_HEADER, read_state_work = WORK_MORE_A,
     hand_state = h, request_state = TLS_ST_BEFORE, in_init = True,
     read_state_first_init = False, in_handshake = 1, cleanuphand = False,
     no_cert_verify = False, use_timer = False, enc_write_state = ENC_WRITE_STATE_VALID,
     enc_read_state = ENC_READ_STATE_VALID\<rparr>"

definition sample_tls :: "int \<Rightarrow> bool \<Rightarrow> Otls_HANDSHAKE_STATE \<Rightarrow> tls" where
  "sample_tls v srv h = \<lparr>statem = sample_statem h, server = srv, version = v, method_version = v,
     method_is_dtls = False, hit = False, renegotiate = False, shutdown = 0, options = 0,
     verify_mode = 0, rwstate = tls_NOTHING, init_num = 0, first_packet = False,
     rbio_retry_read = False, key_update = tls_KEY_UPDATE_NONE, max_cert_list = 102400,
     num_tickets = 2, sent_tickets = 0, certreqs_sent = 0, early_data_state = tls_EARLY_DATA_NONE,
     hello_retry_request = tls_HRR_NONE, post_handshake_auth = tls_PHA_NONE, pha_dgst = None,
     handshake_dgst = [], session_peer = False, session_tick = False, session_secret_cb = False,
     psk_identity_hint = False, cookie_verified = False, ext_ticket_expected = False,
     ext_status_expected = False, ext_early_data = tls_EARLY_DATA_NOT_SENT, ext_extflags = [],
     cipher_list = [sample_cipher], new_cipher = sample_cipher, cert_req = 0, cert_request = False,
     npn_seen = False, s3_flags = 0, s3_renegotiate = False, num_renegotiations = 0,
     total_renegotiations = 0, finish_md_len = 0, peer_finish_md_len = 0,
     previous_server_finished_len = 0, in_read_app_data = 0, client_random = [],
     read_pending = False, write_pending = False,
     stats = \<lparr>sess_accept = 0, sess_accept_renegotiate = 0, sess_accept_good = 0,
       sess_connect = 0, sess_connect_renegotiate = 0, sess_connect_good = 0, sess_hit = 0\<rparr>,
     alerts = [], err_queue = []\<rparr>"

definition sample_env :: hs_env where
  "sample_env = \<lparr>EVP_MD_CTX_copy_ex_ok = True, tls3_init_finished_mac = (\<lambda>s. (True, s)),
     tls_get_min_max_version = (\<lambda>s. Some (0x0301, 0x0304))\<rparr>"

lemmas sample_defs = sample_tls_def sample_statem_def sample_cipher_def sample_env_def
  tls_IS_TLS13_def tls_IS_DTLS_def opt_msg_def

end
