(* ===== verification/Statem_Clnt.thy ===== *)
theory Statem_Clnt
  imports Handshake_State
begin

text \<open>
  The client's handshake state machine (\<open>ssl/statem/statem_clnt.c\<close>): which message may be read
  next (\<open>otls_statem_client_read_transition\<close> and its TLS 1.3 part), what is written next
  (\<open>otls_statem_client_write_transition\<close>), the message types of the write states and the size
  limits of the read states. A transition returns the C result and the updated connection. The
  theorems state exactly which server flights a client accepts, in TLS 1.2 and below and in
  TLS 1.3, and where ChangeCipherSpec and Finished can occur.
\<close>

section \<open>Reading\<close>

definition cert_req_allowed :: "tls \<Rightarrow> bool" where
  "cert_req_allowed s =
     (if (version s > tls3_VERSION \<and> algorithm_auth (new_cipher s) AND tls_aNULL \<noteq> 0)
         \<or> algorithm_auth (new_cipher s) AND (tls_aSRP OR tls_aPSK) \<noteq> 0
      then False else True)"

definition key_exchange_expected :: "tls \<Rightarrow> bool" where
  "key_exchange_expected s =
     (let alg_k = algorithm_mkey (new_cipher s) in
      if alg_k AND (tls_kDHE OR tls_kECDHE OR tls_kDHEPSK OR tls_kECDHEPSK OR tls_kSRP) \<noteq> 0
      then True else False)"

definition otls_statem_client13_read_transition :: "hs_env \<Rightarrow> tls \<Rightarrow> int \<Rightarrow> bool \<times> tls" where
  "otls_statem_client13_read_transition e s mt =
     (case hs s of
        TLS_ST_CW_CLNT_HELLO \<Rightarrow>
          if mt = tls3_MT_SERVER_HELLO then (True, set_hand_state TLS_ST_CR_SRVR_HELLO s)
          else (False, s)
      | TLS_ST_CR_SRVR_HELLO \<Rightarrow>
          if mt = tls3_MT_ENCRYPTED_EXTENSIONS
          then (True, set_hand_state TLS_ST_CR_ENCRYPTED_EXTENSIONS s)
          else (False, s)
      | TLS_ST_CR_ENCRYPTED_EXTENSIONS \<Rightarrow>
          if hit s then
            (if mt = tls3_MT_FINISHED then (True, set_hand_state TLS_ST_CR_FINISHED s)
             else (False, s))
          else if mt = tls3_MT_CERTIFICATE_REQUEST
          then (True, set_hand_state TLS_ST_CR_CERT_REQ s)
          else if mt = tls3_MT_CERTIFICATE then (True, set_hand_state TLS_ST_CR_CERT s)
          else (False, s)
      | TLS_ST_CR_CERT_REQ \<Rightarrow>
          if mt = tls3_MT_CERTIFICATE then (True, set_hand_state TLS_ST_CR_CERT s)
          else (False, s)
      | TLS_ST_CR_CERT \<Rightarrow>
          if mt = tls3_MT_CERTIFICATE_VERIFY then (True, set_hand_state TLS_ST_CR_CERT_VRFY s)
          else (False, s)
      | TLS_ST_CR_CERT_VRFY \<Rightarrow>
          if mt = tls3_MT_FINISHED then (True, set_hand_state TLS_ST_CR_FINISHED s)
          else (False, s)
      | TLS_ST_OK \<Rightarrow>
          if mt = tls3_MT_NEWSESSION_TICKET
          then (True, set_hand_state TLS_ST_CR_SESSION_TICKET s)
          else if mt = tls3_MT_KEY_UPDATE then (True, set_hand_state TLS_ST_CR_KEY_UPDATE s)
          else if mt = tls3_MT_CERTIFICATE_REQUEST \<and> \<not> tls_IS_DTLS s
                  \<and> post_handshake_auth s = tls_PHA_EXT_SENT then
            (let s = s\<lparr>post_handshake_auth := tls_PHA_REQUESTED\<rparr> in
             case tls13_restore_handshake_digest_for_pha e s of
               (False, s) \<Rightarrow> (False, s)
             | (True, s) \<Rightarrow> (True, set_hand_state TLS_ST_CR_CERT_REQ s))
          else (False, s)
      | _ \<Rightarrow> (False, s))"

text \<open>
  The cases \<open>TLS_ST_CR_CERT_REQ\<close>, \<open>TLS_ST_CR_KEY_EXCH\<close> and
  \<open>TLS_ST_CR_CERT_STATUS\<close>, each falling through to the one before it here.
\<close>

definition client_read_cert_req :: "tls \<Rightarrow> int \<Rightarrow> bool \<times> tls" where
  "client_read_cert_req s mt =
     (if mt = tls3_MT_SERVER_DONE then (True, set_hand_state TLS_ST_CR_SRVR_DONE s)
      else read_transition_err s mt)"

definition client_read_key_exch :: "tls \<Rightarrow> int \<Rightarrow> bool \<times> tls" where
  "client_read_key_exch s mt =
     (if mt = tls3_MT_CERTIFICATE_REQUEST then
        (if cert_req_allowed s then (True, set_hand_state TLS_ST_CR_CERT_REQ s)
         else read_transition_err s mt)
      else client_read_cert_req s mt)"

definition client_read_cert_status :: "tls \<Rightarrow> int \<Rightarrow> bool \<times> tls" where
  "client_read_cert_status s mt =
     (if key_exchange_expected s
         \<or> (algorithm_mkey (new_cipher s) AND tls_PSK \<noteq> 0 \<and> mt = tls3_MT_SERVER_KEY_EXCHANGE) then
        (if mt = tls3_MT_SERVER_KEY_EXCHANGE then (True, set_hand_state TLS_ST_CR_KEY_EXCH s)
         else read_transition_err s mt)
      else client_read_key_exch s mt)"

definition otls_statem_client_read_transition :: "hs_env \<Rightarrow> tls \<Rightarrow> int \<Rightarrow> bool \<times> tls" where
  "otls_statem_client_read_transition e s mt =
     (if tls_IS_TLS13 s then
        (case otls_statem_client13_read_transition e s mt of
           (False, s) \<Rightarrow> read_transition_err s mt
         | (True, s) \<Rightarrow> (True, s))
      else case hs s of
        TLS_ST_CW_CLNT_HELLO \<Rightarrow>
          if mt = tls3_MT_SERVER_HELLO then (True, set_hand_state TLS_ST_CR_SRVR_HELLO s)
          else if tls_IS_DTLS s \<and> mt = DTLS1_MT_HELLO_VERIFY_REQUEST
          then (True, set_hand_state DTLS_ST_CR_HELLO_VERIFY_REQUEST s)
          else read_transition_err s mt
      | TLS_ST_EARLY_DATA \<Rightarrow>
          if mt = tls3_MT_SERVER_HELLO then (True, set_hand_state TLS_ST_CR_SRVR_HELLO s)
          else read_transition_err s mt
      | TLS_ST_CR_SRVR_HELLO \<Rightarrow>
          if hit s then
            (if ext_ticket_expected s then
               (if mt = tls3_MT_NEWSESSION_TICKET
                then (True, set_hand_state TLS_ST_CR_SESSION_TICKET s)
                else read_transition_err s mt)
             else if mt = tls3_MT_CHANGE_CIPHER_SPEC
             then (True, set_hand_state TLS_ST_CR_CHANGE s)
             else read_transition_err s mt)
          else if tls_IS_DTLS s \<and> mt = DTLS1_MT_HELLO_VERIFY_REQUEST
          then (True, set_hand_state DTLS_ST_CR_HELLO_VERIFY_REQUEST s)
          else if version s \<ge> TLS1_VERSION \<and> session_secret_cb s \<and> session_tick s
                  \<and> mt = tls3_MT_CHANGE_CIPHER_SPEC
          then (True, set_hand_state TLS_ST_CR_CHANGE (s\<lparr>hit := True\<rparr>))
          else if algorithm_auth (new_cipher s) AND (tls_aNULL OR tls_aSRP OR tls_aPSK) = 0 then
            (if mt = tls3_MT_CERTIFICATE then (True, set_hand_state TLS_ST_CR_CERT s)
             else read_transition_err s mt)
          else if key_exchange_expected s
                  \<or> (algorithm_mkey (new_cipher s) AND tls_PSK \<noteq> 0
                     \<and> mt = tls3_MT_SERVER_KEY_EXCHANGE) then
            (if mt = tls3_MT_SERVER_KEY_EXCHANGE then (True, set_hand_state TLS_ST_CR_KEY_EXCH s)
             else read_transition_err s mt)
          else if mt = tls3_MT_CERTIFICATE_REQUEST \<and> cert_req_allowed s
          then (True, set_hand_state TLS_ST_CR_CERT_REQ s)
          else if mt = tls3_MT_SERVER_DONE then (True, set_hand_state TLS_ST_CR_SRVR_DONE s)
          else read_transition_err s mt
      | TLS_ST_CR_CERT \<Rightarrow>
          if ext_status_expected s \<and> mt = tls3_MT_CERTIFICATE_STATUS
          then (True, set_hand_state TLS_ST_CR_CERT_STATUS s)
          else client_read_cert_status s mt
      | TLS_ST_CR_CERT_STATUS \<Rightarrow> client_read_cert_status s mt
      | TLS_ST_CR_KEY_EXCH \<Rightarrow> client_read_key_exch s mt
      | TLS_ST_CR_CERT_REQ \<Rightarrow> client_read_cert_req s mt
      | TLS_ST_CW_FINISHED \<Rightarrow>
          if ext_ticket_expected s then
            (if mt = tls3_MT_NEWSESSION_TICKET
             then (True, set_hand_state TLS_ST_CR_SESSION_TICKET s)
             else read_transition_err s mt)
          else if mt = tls3_MT_CHANGE_CIPHER_SPEC then (True, set_hand_state TLS_ST_CR_CHANGE s)
          else read_transition_err s mt
      | TLS_ST_CR_SESSION_TICKET \<Rightarrow>
          if mt = tls3_MT_CHANGE_CIPHER_SPEC then (True, set_hand_state TLS_ST_CR_CHANGE s)
          else read_transition_err s mt
      | TLS_ST_CR_CHANGE \<Rightarrow>
          if mt = tls3_MT_FINISHED then (True, set_hand_state TLS_ST_CR_FINISHED s)
          else read_transition_err s mt
      | TLS_ST_OK \<Rightarrow>
          if mt = tls3_MT_HELLO_REQUEST then (True, set_hand_state TLS_ST_CR_HELLO_REQ s)
          else read_transition_err s mt
      | _ \<Rightarrow> read_transition_err s mt)"

section \<open>Writing\<close>

definition cert_or_finished :: "tls \<Rightarrow> Otls_HANDSHAKE_STATE" where
  "cert_or_finished s = (if cert_req s \<noteq> 0 then TLS_ST_CW_CERT else TLS_ST_CW_FINISHED)"

definition otls_statem_client13_write_transition :: "tls \<Rightarrow> WRITE_TRAN \<times> tls" where
  "otls_statem_client13_write_transition s =
     (case hs s of
        TLS_ST_CR_CERT_REQ \<Rightarrow>
          if post_handshake_auth s = tls_PHA_REQUESTED
          then (WRITE_TRAN_CONTINUE, set_hand_state TLS_ST_CW_CERT s)
          else if shutdown s AND tls_SENT_SHUTDOWN = 0 then (WRITE_TRAN_ERROR, internal_error s)
          else (WRITE_TRAN_CONTINUE, set_hand_state TLS_ST_OK s)
      | TLS_ST_CR_FINISHED \<Rightarrow>
          if early_data_state s = tls_EARLY_DATA_WRITE_RETRY
             \<or> early_data_state s = tls_EARLY_DATA_FINISHED_WRITING
          then (WRITE_TRAN_CONTINUE, set_hand_state TLS_ST_PENDING_EARLY_DATA_END s)
          else if options s AND tls_OP_ENABLE_MIDDLEBOX_COMPAT \<noteq> 0
                  \<and> hello_retry_request s = tls_HRR_NONE
          then (WRITE_TRAN_CONTINUE, set_hand_state TLS_ST_CW_CHANGE s)
          else (WRITE_TRAN_CONTINUE, set_hand_state (cert_or_finished s) s)
      | TLS_ST_PENDING_EARLY_DATA_END \<Rightarrow>
          if ext_early_data s = tls_EARLY_DATA_ACCEPTED
          then (WRITE_TRAN_CONTINUE, set_hand_state TLS_ST_CW_END_OF_EARLY_DATA s)
          else (WRITE_TRAN_CONTINUE, set_hand_state (cert_or_finished s) s)
      | TLS_ST_CW_END_OF_EARLY_DATA \<Rightarrow>
          (WRITE_TRAN_CONTINUE, set_hand_state (cert_or_finished s) s)
      | TLS_ST_CW_CHANGE \<Rightarrow> (WRITE_TRAN_CONTINUE, set_hand_state (cert_or_finished s) s)
      | TLS_ST_CW_CERT \<Rightarrow>
          (WRITE_TRAN_CONTINUE,
           set_hand_state (if cert_req s = 1 then TLS_ST_CW_CERT_VRFY else TLS_ST_CW_FINISHED) s)
      | TLS_ST_CW_CERT_VRFY \<Rightarrow> (WRITE_TRAN_CONTINUE, set_hand_state TLS_ST_CW_FINISHED s)
      | TLS_ST_CR_KEY_UPDATE \<Rightarrow> (WRITE_TRAN_CONTINUE, set_hand_state TLS_ST_OK s)
      | TLS_ST_CW_KEY_UPDATE \<Rightarrow> (WRITE_TRAN_CONTINUE, set_hand_state TLS_ST_OK s)
      | TLS_ST_CR_SESSION_TICKET \<Rightarrow> (WRITE_TRAN_CONTINUE, set_hand_state TLS_ST_OK s)
      | TLS_ST_CW_FINISHED \<Rightarrow> (WRITE_TRAN_CONTINUE, set_hand_state TLS_ST_OK s)
      | TLS_ST_OK \<Rightarrow>
          if key_update s \<noteq> tls_KEY_UPDATE_NONE
          then (WRITE_TRAN_CONTINUE, set_hand_state TLS_ST_CW_KEY_UPDATE s)
          else (WRITE_TRAN_FINISHED, s)
      | _ \<Rightarrow> (WRITE_TRAN_ERROR, internal_error s))"

definition otls_statem_client_write_transition :: "hs_env \<Rightarrow> tls \<Rightarrow> WRITE_TRAN \<times> tls" where
  "otls_statem_client_write_transition e s =
     (if tls_IS_TLS13 s then otls_statem_client13_write_transition s
      else case hs s of
        TLS_ST_OK \<Rightarrow>
          if \<not> renegotiate s then (WRITE_TRAN_FINISHED, s)
          else (WRITE_TRAN_CONTINUE, set_hand_state TLS_ST_CW_CLNT_HELLO s)
      | TLS_ST_BEFORE \<Rightarrow> (WRITE_TRAN_CONTINUE, set_hand_state TLS_ST_CW_CLNT_HELLO s)
      | TLS_ST_CW_CLNT_HELLO \<Rightarrow>
          if early_data_state s = tls_EARLY_DATA_CONNECTING then
            (WRITE_TRAN_CONTINUE,
             set_hand_state (if options s AND tls_OP_ENABLE_MIDDLEBOX_COMPAT \<noteq> 0
                             then TLS_ST_CW_CHANGE else TLS_ST_EARLY_DATA) s)
          else (WRITE_TRAN_FINISHED, s)
      | TLS_ST_CR_SRVR_HELLO \<Rightarrow>
          (WRITE_TRAN_CONTINUE,
           set_hand_state (if options s AND tls_OP_ENABLE_MIDDLEBOX_COMPAT \<noteq> 0
                              \<and> early_data_state s \<noteq> tls_EARLY_DATA_FINISHED_WRITING
                           then TLS_ST_CW_CHANGE else TLS_ST_CW_CLNT_HELLO) s)
      | TLS_ST_EARLY_DATA \<Rightarrow> (WRITE_TRAN_FINISHED, s)
      | DTLS_ST_CR_HELLO_VERIFY_REQUEST \<Rightarrow>
          (WRITE_TRAN_CONTINUE, set_hand_state TLS_ST_CW_CLNT_HELLO s)
      | TLS_ST_CR_SRVR_DONE \<Rightarrow>
          (WRITE_TRAN_CONTINUE,
           set_hand_state (if cert_req s \<noteq> 0 then TLS_ST_CW_CERT else TLS_ST_CW_KEY_EXCH) s)
      | TLS_ST_CW_CERT \<Rightarrow> (WRITE_TRAN_CONTINUE, set_hand_state TLS_ST_CW_KEY_EXCH s)
      | TLS_ST_CW_KEY_EXCH \<Rightarrow>
          (let s = set_hand_state (if cert_req s = 1 then TLS_ST_CW_CERT_VRFY
                                   else TLS_ST_CW_CHANGE) s;
               s = (if s3_flags s AND TLS1_FLAGS_SKIP_CERT_VERIFY \<noteq> 0
                    then set_hand_state TLS_ST_CW_CHANGE s else s)
           in (WRITE_TRAN_CONTINUE, s))
      | TLS_ST_CW_CERT_VRFY \<Rightarrow> (WRITE_TRAN_CONTINUE, set_hand_state TLS_ST_CW_CHANGE s)
      | TLS_ST_CW_CHANGE \<Rightarrow>
          (WRITE_TRAN_CONTINUE,
           set_hand_state (if hello_retry_request s = tls_HRR_PENDING then TLS_ST_CW_CLNT_HELLO
                           else if early_data_state s = tls_EARLY_DATA_CONNECTING
                           then TLS_ST_EARLY_DATA
                           else if \<not> tls_IS_DTLS s \<and> npn_seen s then TLS_ST_CW_NEXT_PROTO
                           else TLS_ST_CW_FINISHED) s)
      | TLS_ST_CW_NEXT_PROTO \<Rightarrow> (WRITE_TRAN_CONTINUE, set_hand_state TLS_ST_CW_FINISHED s)
      | TLS_ST_CW_FINISHED \<Rightarrow>
          if hit s then (WRITE_TRAN_CONTINUE, set_hand_state TLS_ST_OK s)
          else (WRITE_TRAN_FINISHED, s)
      | TLS_ST_CR_FINISHED \<Rightarrow>
          (WRITE_TRAN_CONTINUE, set_hand_state (if hit s then TLS_ST_CW_CHANGE else TLS_ST_OK) s)
      | TLS_ST_CR_HELLO_REQ \<Rightarrow>
          (case tls3_renegotiate_check True s of
             (True, s) \<Rightarrow>
               (case tls_setup_handshake e s of
                  (False, s) \<Rightarrow> (WRITE_TRAN_ERROR, s)
                | (True, s) \<Rightarrow> (WRITE_TRAN_CONTINUE, set_hand_state TLS_ST_CW_CLNT_HELLO s))
           | (False, s) \<Rightarrow> (WRITE_TRAN_CONTINUE, set_hand_state TLS_ST_OK s))
      | _ \<Rightarrow> (WRITE_TRAN_ERROR, internal_error s))"

section \<open>Messages of the states\<close>

text \<open>
  The construction function and the message type of a write state. The construction functions
  themselves (the bodies of the messages) are named, not modelled.
\<close>

definition otls_statem_client_construct_message :: "tls \<Rightarrow> (confunc option \<times> int) option \<times> tls" where
  "otls_statem_client_construct_message s =
     (case hs s of
        TLS_ST_CW_CHANGE \<Rightarrow>
          (Some (Some (if tls_IS_DTLS s then dtls_construct_change_cipher_spec
                       else tls_construct_change_cipher_spec), tls3_MT_CHANGE_CIPHER_SPEC), s)
      | TLS_ST_CW_CLNT_HELLO \<Rightarrow> (Some (Some tls_construct_client_hello, tls3_MT_CLIENT_HELLO), s)
      | TLS_ST_CW_END_OF_EARLY_DATA \<Rightarrow>
          (Some (Some tls_construct_end_of_early_data, tls3_MT_END_OF_EARLY_DATA), s)
      | TLS_ST_PENDING_EARLY_DATA_END \<Rightarrow> (Some (None, tls3_MT_DUMMY), s)
      | TLS_ST_CW_CERT \<Rightarrow> (Some (Some tls_construct_client_certificate, tls3_MT_CERTIFICATE), s)
      | TLS_ST_CW_KEY_EXCH \<Rightarrow>
          (Some (Some tls_construct_client_key_exchange, tls3_MT_CLIENT_KEY_EXCHANGE), s)
      | TLS_ST_CW_CERT_VRFY \<Rightarrow>
          (Some (Some tls_construct_cert_verify, tls3_MT_CERTIFICATE_VERIFY), s)
      | TLS_ST_CW_NEXT_PROTO \<Rightarrow> (Some (Some tls_construct_next_proto, tls3_MT_NEXT_PROTO), s)
      | TLS_ST_CW_FINISHED \<Rightarrow> (Some (Some tls_construct_finished, tls3_MT_FINISHED), s)
      | TLS_ST_CW_KEY_UPDATE \<Rightarrow> (Some (Some tls_construct_key_update, tls3_MT_KEY_UPDATE), s)
      | _ \<Rightarrow> (None, otls_statem_fatal tls_AD_INTERNAL_ERROR tls_R_BAD_HANDSHAKE_STATE s))"

definition otls_statem_client_max_message_size :: "tls \<Rightarrow> nat" where
  "otls_statem_client_max_message_size s =
     (case hs s of
        TLS_ST_CR_SRVR_HELLO \<Rightarrow> 20000
      | DTLS_ST_CR_HELLO_VERIFY_REQUEST \<Rightarrow> 258
      | TLS_ST_CR_CERT \<Rightarrow> max_cert_list s
      | TLS_ST_CR_CERT_VRFY \<Rightarrow> 16384
      | TLS_ST_CR_CERT_STATUS \<Rightarrow> 16384
      | TLS_ST_CR_KEY_EXCH \<Rightarrow> 102400
      | TLS_ST_CR_CERT_REQ \<Rightarrow> max_cert_list s
      | TLS_ST_CR_SRVR_DONE \<Rightarrow> 0
      | TLS_ST_CR_CHANGE \<Rightarrow> if version s = DTLS1_BAD_VER then 3 else 1
      | TLS_ST_CR_SESSION_TICKET \<Rightarrow> 16384
      | TLS_ST_CR_FINISHED \<Rightarrow> 64
      | TLS_ST_CR_ENCRYPTED_EXTENSIONS \<Rightarrow> 20000
      | TLS_ST_CR_KEY_UPDATE \<Rightarrow> 1
      | _ \<Rightarrow> 0)"

section \<open>The client as a message reader\<close>

text \<open>
  The negotiated parameters the read transitions depend on. Processing a message of a server
  flight changes neither them nor the handshake state.
\<close>

definition client_params ::
  "tls \<Rightarrow> (int \<times> int \<times> bool) \<times> (bool \<times> bool \<times> bool) \<times> tls_cipher \<times> (bool \<times> bool) \<times> (tls_PHA_STATE \<times> bool)"
where
  "client_params s = ((version s, method_version s, method_is_dtls s),
     (hit s, ext_ticket_expected s, ext_status_expected s), new_cipher s,
     (session_secret_cb s, session_tick s), (post_handshake_auth s, pha_dgst s = None))"

definition client_keeps :: "tls \<Rightarrow> tls \<Rightarrow> bool" where
  "client_keeps s t \<longleftrightarrow> hs t = hs s \<and> client_params t = client_params s"

lemmas client_read_defs = otls_statem_client_read_transition_def
  otls_statem_client13_read_transition_def client_read_cert_status_def client_read_key_exch_def
  client_read_cert_req_def

lemma restore_digest_hs [hs_simps]:
  "tls13_restore_handshake_digest_for_pha e s = (b, t) \<Longrightarrow> hs t = hs s"
  by (auto simp: tls13_restore_handshake_digest_for_pha_def split: option.splits if_splits)

lemma client13_reject_hs:
  "otls_statem_client13_read_transition e s mt = (False, t) \<Longrightarrow> hs t = hs s"
  by (cases "hs s")
    (auto simp: otls_statem_client13_read_transition_def Let_def
      split: if_splits prod.splits bool.splits dest: restore_digest_hs)

lemma client_reject_hs:
  assumes "otls_statem_client_read_transition e s mt = (False, t)"
  shows "hs t = hs s"
proof (cases "tls_IS_TLS13 s")
  case True
  then obtain u where "otls_statem_client13_read_transition e s mt = (False, u)"
      and "read_transition_err u mt = (False, t)"
    using assms by (auto simp: otls_statem_client_read_transition_def
        split: prod.splits bool.splits)
  then show ?thesis
    using client13_reject_hs read_transition_err_hs by metis
next
  case False
  with assms show ?thesis
    by (cases "hs s")
      (auto simp: client_read_defs split: if_splits dest: read_transition_err_hs)
qed

lemma client_keeps_params:
  assumes "client_keeps s t"
  shows "hs t = hs s" "key_exchange_expected t = key_exchange_expected s"
    "cert_req_allowed t = cert_req_allowed s" "new_cipher t = new_cipher s"
    "tls_IS_DTLS t = tls_IS_DTLS s" "hit t = hit s" "ext_ticket_expected t = ext_ticket_expected s"
    "ext_status_expected t = ext_status_expected s" "tls_IS_TLS13 t = tls_IS_TLS13 s"
    "version t = version s" "session_secret_cb t = session_secret_cb s"
    "session_tick t = session_tick s" "post_handshake_auth t = post_handshake_auth s"
    "pha_dgst t = None \<longleftrightarrow> pha_dgst s = None"
  using assms
  by (auto simp: client_keeps_def client_params_def key_exchange_expected_def
      cert_req_allowed_def tls_IS_DTLS_def tls_IS_TLS13_def)

lemma set_hand_state_cipher_tests [simp, hs_simps]:
  "key_exchange_expected (set_hand_state h s) = key_exchange_expected s"
  "cert_req_allowed (set_hand_state h s) = cert_req_allowed s"
  by (simp_all add: key_exchange_expected_def cert_req_allowed_def)

lemma client_keeps_set_hand_state:
  "client_keeps s t \<Longrightarrow> client_keeps (set_hand_state h s) (set_hand_state h t)"
  by (simp add: client_keeps_def client_params_def set_hand_state_def)

lemma client_keeps_set_hit:
  "client_keeps s t \<Longrightarrow>
     client_keeps (set_hand_state h (s\<lparr>hit := b\<rparr>)) (set_hand_state h (t\<lparr>hit := b\<rparr>))"
  by (simp add: client_keeps_def client_params_def set_hand_state_def)

lemma client13_sim:
  assumes "client_keeps s t" and "otls_statem_client13_read_transition e s m = (True, u)"
  shows "\<exists>v. otls_statem_client13_read_transition e t m = (True, v) \<and> client_keeps u v"
proof (cases "hs s = TLS_ST_OK \<and> m = tls3_MT_CERTIFICATE_REQUEST")
  case False
  with assms show ?thesis
    by (cases "hs s")
      (auto simp: otls_statem_client13_read_transition_def client_keeps_params
        client_keeps_set_hand_state split: if_splits)
next
  case True
  then obtain d where d: "pha_dgst s = Some d" "EVP_MD_CTX_copy_ex_ok e"
      "u = set_hand_state TLS_ST_CR_CERT_REQ
             (s\<lparr>post_handshake_auth := tls_PHA_REQUESTED, handshake_dgst := d\<rparr>)"
      "\<not> tls_IS_DTLS s" "post_handshake_auth s = tls_PHA_EXT_SENT"
    using assms(2)
    by (auto simp: otls_statem_client13_read_transition_def Let_def
        tls13_restore_handshake_digest_for_pha_def split: if_splits option.splits)
  with assms(1) obtain d' where "pha_dgst t = Some d'"
    using client_keeps_params(14) by fastforce
  with True d assms(1) show ?thesis
    by (auto simp: otls_statem_client13_read_transition_def Let_def client_keeps_params
        tls13_restore_handshake_digest_for_pha_def)
      (simp add: client_keeps_def client_params_def set_hand_state_def)
qed

lemma client_sim:
  assumes "client_keeps s t" and "otls_statem_client_read_transition e s m = (True, u)"
  shows "\<exists>v. otls_statem_client_read_transition e t m = (True, v) \<and> client_keeps u v"
proof (cases "tls_IS_TLS13 s")
  case True
  then have "otls_statem_client13_read_transition e s m = (True, u)"
    using assms(2) by (auto simp: otls_statem_client_read_transition_def
        split: prod.splits bool.splits)
  from client13_sim [OF assms(1) this] True show ?thesis
    using assms(1) by (auto simp: otls_statem_client_read_transition_def client_keeps_params)
next
  case False
  with assms show ?thesis
    by (cases "hs s")
      (auto simp: client_read_defs client_keeps_params client_keeps_set_hand_state
        client_keeps_set_hit split: if_splits)
qed

interpretation clnt: stable_reader "otls_statem_client_read_transition e" client_keeps hs for e
  by unfold_locales
    (auto simp: client_keeps_def dest: client_reject_hs
      intro: client_sim [unfolded client_keeps_def])

abbreviation client_accepts ::
  "hs_env \<Rightarrow> Otls_HANDSHAKE_STATE \<Rightarrow> tls \<Rightarrow> int list \<Rightarrow> bool" where
  "client_accepts e h \<equiv>
     accepts (otls_statem_client_read_transition e) client_keeps (\<lambda>t. hs t = h)"

section \<open>The server flights a client accepts\<close>

lemma accepts_done:
  assumes "hs s = TLS_ST_CR_SRVR_DONE" and "\<not> tls_IS_TLS13 s"
  shows "client_accepts e TLS_ST_CR_SRVR_DONE s ms \<longleftrightarrow> ms = []"
  using clnt.accepts_stuck [of e s] assms by (simp add: client_read_defs)

lemma accepts_cert_req:
  assumes "hs s = TLS_ST_CR_CERT_REQ" and "\<not> tls_IS_TLS13 s"
  shows "client_accepts e TLS_ST_CR_SRVR_DONE s ms \<longleftrightarrow> ms = [tls3_MT_SERVER_DONE]"
  using assms
  by (cases ms) (simp_all add: clnt.accepts_st_Cons client_read_defs accepts_done case_prod_beta)

definition key_exch_tail :: "tls \<Rightarrow> int list \<Rightarrow> bool" where
  "key_exch_tail s ms \<longleftrightarrow>
     (\<exists>creq. ms = opt_msg creq tls3_MT_CERTIFICATE_REQUEST @ [tls3_MT_SERVER_DONE]
        \<and> (creq \<longrightarrow> cert_req_allowed s))"

lemma accepts_key_exch:
  assumes "hs s = TLS_ST_CR_KEY_EXCH" and "\<not> tls_IS_TLS13 s"
  shows "client_accepts e TLS_ST_CR_SRVR_DONE s ms \<longleftrightarrow> key_exch_tail s ms"
  using assms
  by (cases ms) (auto simp: clnt.accepts_st_Cons client_read_defs accepts_done accepts_cert_req
      key_exch_tail_def opt_msg_def case_prod_beta ex_bool_eq)

lemma accepts_cert_status:
  assumes "hs s = TLS_ST_CR_CERT_STATUS" and "\<not> tls_IS_TLS13 s"
  shows "client_accepts e TLS_ST_CR_SRVR_DONE s ms \<longleftrightarrow>
    (\<exists>ske ns. ms = opt_msg ske tls3_MT_SERVER_KEY_EXCHANGE @ ns \<and> key_exch_tail s ns
       \<and> (key_exchange_expected s \<longrightarrow> ske)
       \<and> (ske \<longrightarrow> key_exchange_expected s \<or> algorithm_mkey (new_cipher s) AND tls_PSK \<noteq> 0))"
  using assms
  by (cases ms) (auto simp: clnt.accepts_st_Cons client_read_defs accepts_done accepts_cert_req
      accepts_key_exch key_exch_tail_def opt_msg_def case_prod_beta ex_bool_eq)

lemma accepts_cert:
  assumes "hs s = TLS_ST_CR_CERT" and "\<not> tls_IS_TLS13 s"
  shows "client_accepts e TLS_ST_CR_SRVR_DONE s ms \<longleftrightarrow>
    (\<exists>status ske ns. ms = opt_msg status tls3_MT_CERTIFICATE_STATUS
          @ opt_msg ske tls3_MT_SERVER_KEY_EXCHANGE @ ns \<and> key_exch_tail s ns
       \<and> (status \<longrightarrow> ext_status_expected s)
       \<and> (key_exchange_expected s \<longrightarrow> ske)
       \<and> (ske \<longrightarrow> key_exchange_expected s \<or> algorithm_mkey (new_cipher s) AND tls_PSK \<noteq> 0))"
  using assms
  by (cases ms) (auto simp: clnt.accepts_st_Cons client_read_defs accepts_done accepts_cert_req
      accepts_key_exch accepts_cert_status key_exch_tail_def opt_msg_def case_prod_beta ex_bool_eq)

text \<open>
  The abstract specification of a full handshake's server flight (RFC 5246, section 7.3): a
  Certificate exactly when the cipher suite authenticates the server by certificate, an optional
  CertificateStatus after it if one was announced, a ServerKeyExchange when the key exchange
  needs it (optional for the PSK suites), an optional CertificateRequest where the suite allows
  one, and ServerHelloDone.
\<close>

definition server_flight_spec :: "int \<Rightarrow> tls_cipher \<Rightarrow> bool \<Rightarrow> int list \<Rightarrow> bool" where
  "server_flight_spec v c status_announced ms \<longleftrightarrow>
     (\<exists>cert status ske creq.
        ms = opt_msg cert tls3_MT_CERTIFICATE @ opt_msg status tls3_MT_CERTIFICATE_STATUS
             @ opt_msg ske tls3_MT_SERVER_KEY_EXCHANGE
             @ opt_msg creq tls3_MT_CERTIFICATE_REQUEST @ [tls3_MT_SERVER_DONE]
        \<and> (cert \<longleftrightarrow> algorithm_auth c AND (tls_aNULL OR tls_aSRP OR tls_aPSK) = 0)
        \<and> (status \<longrightarrow> cert \<and> status_announced)
        \<and> (algorithm_mkey c AND
             (tls_kDHE OR tls_kECDHE OR tls_kDHEPSK OR tls_kECDHEPSK OR tls_kSRP) \<noteq> 0 \<longrightarrow> ske)
        \<and> (ske \<longrightarrow> algorithm_mkey c AND
             (tls_kDHE OR tls_kECDHE OR tls_kDHEPSK OR tls_kECDHEPSK OR tls_kSRP OR tls_PSK) \<noteq> 0)
        \<and> (creq \<longrightarrow> \<not> (v > tls3_VERSION \<and> algorithm_auth c AND tls_aNULL \<noteq> 0)
                   \<and> algorithm_auth c AND (tls_aSRP OR tls_aPSK) = 0))"

lemma and_or_nonzero: "(w :: u32) AND (a OR b) \<noteq> 0 \<longleftrightarrow> w AND a \<noteq> 0 \<or> w AND b \<noteq> 0"
  by (simp add: bit.conj_disj_distrib or_eq_0_iff)

lemma server_flight_spec_iff:
  "server_flight_spec (version s) (new_cipher s) (ext_status_expected s) ms \<longleftrightarrow>
     (\<exists>cert status ske creq.
        ms = opt_msg cert tls3_MT_CERTIFICATE @ opt_msg status tls3_MT_CERTIFICATE_STATUS
             @ opt_msg ske tls3_MT_SERVER_KEY_EXCHANGE
             @ opt_msg creq tls3_MT_CERTIFICATE_REQUEST @ [tls3_MT_SERVER_DONE]
        \<and> (cert \<longleftrightarrow> algorithm_auth (new_cipher s) AND (tls_aNULL OR tls_aSRP OR tls_aPSK) = 0)
        \<and> (status \<longrightarrow> cert \<and> ext_status_expected s)
        \<and> (key_exchange_expected s \<longrightarrow> ske)
        \<and> (ske \<longrightarrow> key_exchange_expected s \<or> algorithm_mkey (new_cipher s) AND tls_PSK \<noteq> 0)
        \<and> (creq \<longrightarrow> cert_req_allowed s))"
proof -
  have ske: "algorithm_mkey (new_cipher s) AND
      (tls_kDHE OR tls_kECDHE OR tls_kDHEPSK OR tls_kECDHEPSK OR tls_kSRP OR tls_PSK) \<noteq> 0
      \<longleftrightarrow> key_exchange_expected s \<or> algorithm_mkey (new_cipher s) AND tls_PSK \<noteq> 0"
    unfolding key_exchange_expected_def Let_def and_or_nonzero by auto
  have kx: "algorithm_mkey (new_cipher s) AND
      (tls_kDHE OR tls_kECDHE OR tls_kDHEPSK OR tls_kECDHEPSK OR tls_kSRP) \<noteq> 0
      \<longleftrightarrow> key_exchange_expected s"
    by (simp add: key_exchange_expected_def)
  have creq: "(\<not> (version s > tls3_VERSION \<and> algorithm_auth (new_cipher s) AND tls_aNULL \<noteq> 0)
      \<and> algorithm_auth (new_cipher s) AND (tls_aSRP OR tls_aPSK) = 0) \<longleftrightarrow> cert_req_allowed s"
    by (auto simp: cert_req_allowed_def)
  show ?thesis
    unfolding server_flight_spec_def ske kx creq ..
qed

lemma hello_verify_dead:
  assumes "hs s = DTLS_ST_CR_HELLO_VERIFY_REQUEST" and "\<not> tls_IS_TLS13 s"
  shows "\<not> client_accepts e TLS_ST_CR_SRVR_DONE s ms"
  using clnt.accepts_stuck [of e s] assms by (simp add: client_read_defs)

lemma change_no_done:
  assumes "hs s = TLS_ST_CR_CHANGE" and "\<not> tls_IS_TLS13 s"
  shows "\<not> client_accepts e TLS_ST_CR_SRVR_DONE s ms"
proof (cases ms)
  case (Cons m ns)
  have "\<not> client_accepts e TLS_ST_CR_SRVR_DONE (set_hand_state TLS_ST_CR_FINISHED s) ns"
    using clnt.accepts_stuck [of e "set_hand_state TLS_ST_CR_FINISHED s"] assms
    by (simp add: client_read_defs)
  with assms Cons show ?thesis
    by (auto simp: clnt.accepts_st_Cons client_read_defs case_prod_beta)
qed (use assms in simp)

lemma tls13_set_hit [simp]: "tls_IS_TLS13 (s\<lparr>hit := b\<rparr>) = tls_IS_TLS13 s"
  by (simp add: tls_IS_TLS13_def tls_IS_DTLS_def)

lemma client_server_flight_iff:
  assumes "hs s = TLS_ST_CR_SRVR_HELLO" and "\<not> tls_IS_TLS13 s" and "\<not> hit s"
  shows "client_accepts e TLS_ST_CR_SRVR_DONE s ms \<longleftrightarrow> server_flight_spec (version s) (new_cipher s) (ext_status_expected s) ms"
proof (cases ms)
  case Nil
  then show ?thesis using assms by (simp add: server_flight_spec_iff)
next
  case (Cons m ns)
  show ?thesis
    using assms
    by (auto simp: Cons clnt.accepts_st_Cons client_read_defs accepts_done accepts_cert_req
        accepts_key_exch accepts_cert hello_verify_dead change_no_done server_flight_spec_iff
        key_exch_tail_def opt_msg_def case_prod_beta ex_bool_eq)
qed

text \<open>
  C5: below TLS 1.3, in a full handshake, the messages a client accepts between ServerHello and
  ServerHelloDone are exactly the flights of the specification. In particular a Certificate can
  never be skipped when the cipher suite authenticates the server, nor a ServerKeyExchange when
  the key exchange is ephemeral.
\<close>

theorem client_accepts_server_flight:
  assumes "hs s = TLS_ST_CR_SRVR_HELLO" and "\<not> tls_IS_TLS13 s" and "\<not> hit s"
  shows "client_accepts e TLS_ST_CR_SRVR_DONE s ms \<longleftrightarrow> server_flight_spec (version s) (new_cipher s) (ext_status_expected s) ms"
  using assms by (rule client_server_flight_iff)

theorem client_accepts_server_flight_witness:
  "client_accepts sample_env TLS_ST_CR_SRVR_DONE (sample_tls 0x0303 False TLS_ST_CR_SRVR_HELLO)
      [tls3_MT_CERTIFICATE, tls3_MT_SERVER_KEY_EXCHANGE, tls3_MT_SERVER_DONE]
   \<and> \<not> client_accepts sample_env TLS_ST_CR_SRVR_DONE (sample_tls 0x0303 False TLS_ST_CR_SRVR_HELLO)
      [tls3_MT_SERVER_KEY_EXCHANGE, tls3_MT_SERVER_DONE]"
  by (simp add: client_accepts_server_flight sample_defs server_flight_spec_def
      ex_bool_eq)

text \<open>The last flight of the server, below TLS 1.3: in a full handshake after the client's
  Finished, in a resumed one directly after ServerHello.\<close>

lemma accepts_finished:
  assumes "hs s = TLS_ST_CR_FINISHED"
  shows "client_accepts e TLS_ST_CR_FINISHED s ms \<longleftrightarrow> ms = []"
proof -
  have "\<not> fst (otls_statem_client_read_transition e s m)" for m
    using assms by (cases "tls_IS_TLS13 s") (simp_all add: client_read_defs)
  then show ?thesis
    using clnt.accepts_stuck [of e s] assms by simp
qed

lemma accepts_change:
  assumes "hs s = TLS_ST_CR_CHANGE" and "\<not> tls_IS_TLS13 s"
  shows "client_accepts e TLS_ST_CR_FINISHED s ms \<longleftrightarrow> ms = [tls3_MT_FINISHED]"
  using assms
  by (cases ms) (auto simp: clnt.accepts_st_Cons client_read_defs accepts_finished case_prod_beta)

lemma accepts_ticket:
  assumes "hs s = TLS_ST_CR_SESSION_TICKET" and "\<not> tls_IS_TLS13 s"
  shows "client_accepts e TLS_ST_CR_FINISHED s ms \<longleftrightarrow>
    ms = [tls3_MT_CHANGE_CIPHER_SPEC, tls3_MT_FINISHED]"
  using assms
  by (cases ms) (auto simp: clnt.accepts_st_Cons client_read_defs accepts_change case_prod_beta)

lemma client_finish_flight_iff:
  assumes "hs s = TLS_ST_CW_FINISHED \<or> (hs s = TLS_ST_CR_SRVR_HELLO \<and> hit s)"
    and "\<not> tls_IS_TLS13 s"
  shows "client_accepts e TLS_ST_CR_FINISHED s ms \<longleftrightarrow>
    ms = opt_msg (ext_ticket_expected s) tls3_MT_NEWSESSION_TICKET
         @ [tls3_MT_CHANGE_CIPHER_SPEC, tls3_MT_FINISHED]"
proof (cases ms)
  case Nil
  then show ?thesis using assms(1) by auto
next
  case (Cons m ns)
  from assms(1) show ?thesis
  proof
    assume "hs s = TLS_ST_CW_FINISHED"
    then show ?thesis
      using assms(2) by (simp add: Cons clnt.accepts_st_Cons client_read_defs accepts_change
          accepts_ticket opt_msg_def case_prod_beta)
  next
    assume "hs s = TLS_ST_CR_SRVR_HELLO \<and> hit s"
    then show ?thesis
      using assms(2) by (simp add: Cons clnt.accepts_st_Cons client_read_defs accepts_change
          accepts_ticket opt_msg_def case_prod_beta)
  qed
qed

text \<open>
  below TLS 1.3, the messages that take a client from its own Finished (full handshake) or
  from ServerHello (resumption) to the server's Finished are exactly NewSessionTicket if and only
  if one was announced, then ChangeCipherSpec, then Finished: Finished is never accepted in
  plaintext and a ticket can be neither skipped nor injected.
\<close>

theorem client_accepts_finish_flight:
  assumes "hs s = TLS_ST_CW_FINISHED \<or> (hs s = TLS_ST_CR_SRVR_HELLO \<and> hit s)"
    and "\<not> tls_IS_TLS13 s"
  shows "client_accepts e TLS_ST_CR_FINISHED s ms \<longleftrightarrow>
    ms = opt_msg (ext_ticket_expected s) tls3_MT_NEWSESSION_TICKET
         @ [tls3_MT_CHANGE_CIPHER_SPEC, tls3_MT_FINISHED]"
  using assms by (rule client_finish_flight_iff)

theorem client_accepts_finish_flight_witness:
  "client_accepts sample_env TLS_ST_CR_FINISHED (sample_tls 0x0303 False TLS_ST_CW_FINISHED)
      [tls3_MT_CHANGE_CIPHER_SPEC, tls3_MT_FINISHED]
   \<and> \<not> client_accepts sample_env TLS_ST_CR_FINISHED (sample_tls 0x0303 False TLS_ST_CW_FINISHED)
      [tls3_MT_FINISHED]"
  by (simp add: client_accepts_finish_flight sample_defs)

text \<open>TLS 1.3: from ServerHello to the server's Finished.\<close>

lemma accepts13_vrfy:
  assumes "hs s = TLS_ST_CR_CERT_VRFY" and "tls_IS_TLS13 s"
  shows "client_accepts e TLS_ST_CR_FINISHED s ms \<longleftrightarrow> ms = [tls3_MT_FINISHED]"
  using assms
  by (cases ms) (auto simp: clnt.accepts_st_Cons client_read_defs accepts_finished case_prod_beta)

lemma accepts13_cert:
  assumes "hs s = TLS_ST_CR_CERT" and "tls_IS_TLS13 s"
  shows "client_accepts e TLS_ST_CR_FINISHED s ms \<longleftrightarrow>
    ms = [tls3_MT_CERTIFICATE_VERIFY, tls3_MT_FINISHED]"
  using assms
  by (cases ms) (auto simp: clnt.accepts_st_Cons client_read_defs accepts13_vrfy case_prod_beta)

lemma accepts13_cert_req:
  assumes "hs s = TLS_ST_CR_CERT_REQ" and "tls_IS_TLS13 s"
  shows "client_accepts e TLS_ST_CR_FINISHED s ms \<longleftrightarrow>
    ms = [tls3_MT_CERTIFICATE, tls3_MT_CERTIFICATE_VERIFY, tls3_MT_FINISHED]"
  using assms
  by (cases ms) (auto simp: clnt.accepts_st_Cons client_read_defs accepts13_cert case_prod_beta)

lemma accepts13_ee:
  assumes "hs s = TLS_ST_CR_ENCRYPTED_EXTENSIONS" and "tls_IS_TLS13 s"
  shows "client_accepts e TLS_ST_CR_FINISHED s ms \<longleftrightarrow>
    (if hit s then ms = [tls3_MT_FINISHED]
     else \<exists>creq. ms = opt_msg creq tls3_MT_CERTIFICATE_REQUEST
        @ [tls3_MT_CERTIFICATE, tls3_MT_CERTIFICATE_VERIFY, tls3_MT_FINISHED])"
  using assms
  by (cases ms) (auto simp: clnt.accepts_st_Cons client_read_defs accepts13_cert accepts13_cert_req
      accepts_finished opt_msg_def case_prod_beta ex_bool_eq)

lemma client13_server_flight_iff:
  assumes "hs s = TLS_ST_CR_SRVR_HELLO" and "tls_IS_TLS13 s"
  shows "client_accepts e TLS_ST_CR_FINISHED s ms \<longleftrightarrow>
    (\<exists>creq. ms = tls3_MT_ENCRYPTED_EXTENSIONS
        # (if hit s then [] else opt_msg creq tls3_MT_CERTIFICATE_REQUEST
             @ [tls3_MT_CERTIFICATE, tls3_MT_CERTIFICATE_VERIFY])
        @ [tls3_MT_FINISHED])"
  using assms
  by (cases ms) (auto simp: clnt.accepts_st_Cons client_read_defs accepts13_ee case_prod_beta
      split: if_splits)

text \<open>
  C17: in TLS 1.3 the messages a client accepts from ServerHello to Finished are exactly
  EncryptedExtensions followed, unless the session is resumed with a PSK, by an optional
  CertificateRequest, Certificate and CertificateVerify, and then Finished. An unauthenticated
  server cannot complete a full handshake.
\<close>

theorem client13_accepts_server_flight:
  assumes "hs s = TLS_ST_CR_SRVR_HELLO" and "tls_IS_TLS13 s"
  shows "client_accepts e TLS_ST_CR_FINISHED s ms \<longleftrightarrow>
    (\<exists>creq. ms = tls3_MT_ENCRYPTED_EXTENSIONS
        # (if hit s then [] else opt_msg creq tls3_MT_CERTIFICATE_REQUEST
             @ [tls3_MT_CERTIFICATE, tls3_MT_CERTIFICATE_VERIFY])
        @ [tls3_MT_FINISHED])"
  using assms by (rule client13_server_flight_iff)

theorem client13_accepts_server_flight_witness:
  "client_accepts sample_env TLS_ST_CR_FINISHED (sample_tls 0x0304 False TLS_ST_CR_SRVR_HELLO)
      [tls3_MT_ENCRYPTED_EXTENSIONS, tls3_MT_CERTIFICATE, tls3_MT_CERTIFICATE_VERIFY,
       tls3_MT_FINISHED]
   \<and> \<not> client_accepts sample_env TLS_ST_CR_FINISHED (sample_tls 0x0304 False TLS_ST_CR_SRVR_HELLO)
      [tls3_MT_ENCRYPTED_EXTENSIONS, tls3_MT_FINISHED]"
  by (simp add: client13_accepts_server_flight sample_defs ex_bool_eq)

lemma fatal_healthy:
  assumes "flow_state (statem s) \<noteq> MSG_FLOW_ERROR"
    and "enc_write_state (statem s) \<noteq> ENC_WRITE_STATE_INVALID" and "al \<noteq> tls_AD_NO_ALERT"
  shows "alerts (otls_statem_fatal al r s) = alerts s @ [(tls3_AL_FATAL, al)]"
    "alerts (otls_statem_fatal al' r' (otls_statem_fatal al r s)) = alerts s @ [(tls3_AL_FATAL, al)]"
  using assms by (auto simp: otls_statem_fatal_def Let_def)

lemma in_error_retry:
  "otls_statem_in_error (s\<lparr>init_num := n, rwstate := r, rbio_retry_read := b\<rparr>) = otls_statem_in_error s"
  by (simp add: otls_statem_in_error_def)

text \<open>
  A rejected message went to the common error exit, unless it was the CertificateRequest of a
  post-handshake authentication that the client offered: then the transcript saved for it could
  not be restored, which is a fatal error of its own before the exit.
\<close>

lemma client_reject_cases:
  assumes "otls_statem_client_read_transition e s mt = (False, t)"
  shows "if tls_IS_TLS13 s \<and> hs s = TLS_ST_OK \<and> mt = tls3_MT_CERTIFICATE_REQUEST
          \<and> post_handshake_auth s = tls_PHA_EXT_SENT
      then (pha_dgst s = None \<or> \<not> EVP_MD_CTX_copy_ex_ok e)
        \<and> read_transition_err (internal_error (s\<lparr>post_handshake_auth := tls_PHA_REQUESTED\<rparr>)) mt = (False, t)
      else read_transition_err s mt = (False, t)"
proof (cases "tls_IS_TLS13 s")
  case True
  then have "\<not> tls_IS_DTLS s"
    by (simp add: tls_IS_TLS13_def)
  with True assms show ?thesis
    by (cases "hs s") (auto simp: client_read_defs tls13_restore_handshake_digest_for_pha_def Let_def
        split: if_splits option.splits)
next
  case False
  with assms show ?thesis
    by (cases "hs s") (auto simp: client_read_defs split: if_splits)
qed

text \<open>
  C24: a message the client rejects is never silently consumed: the handshake state does not move,
  and either it is an out-of-order DTLS ChangeCipherSpec, which is dropped with the read retried and
  no error, or the connection is put into the permanent error state with exactly one fatal alert.
  The alert is unexpected_message, with one exception: a post-handshake CertificateRequest from a
  server to which the client offered post-handshake authentication is expected, is
  rejected only if the transcript saved for it is missing or cannot be copied, and then the alert is
  internal_error.
\<close>

theorem client_rejects_unexpected:
  assumes "otls_statem_client_read_transition e s mt = (False, t)"
    and "flow_state (statem s) \<noteq> MSG_FLOW_ERROR"
    and "enc_write_state (statem s) \<noteq> ENC_WRITE_STATE_INVALID"
  shows "hs t = hs s
    \<and> (if tls_IS_DTLS s \<and> mt = tls3_MT_CHANGE_CIPHER_SPEC
       then \<not> otls_statem_in_error t \<and> alerts t = alerts s \<and> rwstate t = tls_READING
       else otls_statem_in_error t
            \<and> (if tls_IS_TLS13 s \<and> hs s = TLS_ST_OK \<and> mt = tls3_MT_CERTIFICATE_REQUEST
                  \<and> post_handshake_auth s = tls_PHA_EXT_SENT
               then (pha_dgst s = None \<or> \<not> EVP_MD_CTX_copy_ex_ok e)
                    \<and> alerts t = alerts s @ [(tls3_AL_FATAL, tls_AD_INTERNAL_ERROR)]
               else alerts t = alerts s @ [(tls3_AL_FATAL, tls3_AD_UNEXPECTED_MESSAGE)]))"
  using client_reject_hs [OF assms(1)] client_reject_cases [OF assms(1)] assms(2,3)
    assms(2) [folded otls_statem_in_error_def]
  by (auto simp: read_transition_err_def fatal_healthy in_error_retry split: if_splits)

text \<open>
  The witness: after a TLS 1.3 handshake, a CertificateRequest to a client that did not offer
  post-handshake authentication.
\<close>

theorem client_rejects_unexpected_witness:
  "otls_statem_in_error (snd (otls_statem_client_read_transition sample_env
      (sample_tls 0x0304 False TLS_ST_OK) tls3_MT_CERTIFICATE_REQUEST))
   \<and> alerts (snd (otls_statem_client_read_transition sample_env
      (sample_tls 0x0304 False TLS_ST_OK) tls3_MT_CERTIFICATE_REQUEST))
     = [(tls3_AL_FATAL, tls3_AD_UNEXPECTED_MESSAGE)]"
  using client_rejects_unexpected [of sample_env "sample_tls 0x0304 False TLS_ST_OK"
      tls3_MT_CERTIFICATE_REQUEST "snd (otls_statem_client_read_transition sample_env
      (sample_tls 0x0304 False TLS_ST_OK) tls3_MT_CERTIFICATE_REQUEST)"]
  by (simp add: sample_defs client_read_defs read_transition_err_def)

section \<open>The flight the client writes\<close>

text \<open>
  What the write transitions of one flight depend on, and what constructing and sending its messages
  does to it. The work after ChangeCipherSpec (\<open>tls1_change_cipher_state\<close>) sets or clears the flag
  \<open>TLS1_FLAGS_ENCRYPT_THEN_MAC_WRITE\<close>, and while the early data is closed its state may become
  \<open>tls_EARLY_DATA_FINISHED_WRITING\<close>; everything else is left alone.
\<close>

definition client_wparams ::
  "tls \<Rightarrow> (int \<times> int \<times> bool) \<times> (bool \<times> bool \<times> int) \<times> (tls_HRR_STATE \<times> int)"
where
  "client_wparams s = ((version s, method_version s, method_is_dtls s),
     (hit s, npn_seen s, cert_req s), (hello_retry_request s, ext_early_data s))"

definition client_wflags :: "tls \<Rightarrow> u32" where
  "client_wflags s = (if hs s = TLS_ST_CW_CHANGE
     then s3_flags s AND NOT TLS1_FLAGS_ENCRYPT_THEN_MAC_WRITE else s3_flags s)"

definition client_wkeeps :: "tls \<Rightarrow> tls \<Rightarrow> bool" where
  "client_wkeeps s t \<longleftrightarrow> hs t = hs s \<and> client_wparams t = client_wparams s
     \<and> client_wflags t = client_wflags s
     \<and> (early_data_state t = early_data_state s
        \<or> early_data_state t = tls_EARLY_DATA_FINISHED_WRITING
          \<and> (hs s = TLS_ST_PENDING_EARLY_DATA_END \<or> hs s = TLS_ST_CW_END_OF_EARLY_DATA))"

definition client_msg :: "tls \<Rightarrow> int option" where
  "client_msg s = map_option snd (fst (otls_statem_client_construct_message s))"

interpretation cwr: message_writer "otls_statem_client_write_transition e" client_msg client_wkeeps
  for e
  by unfold_locales (auto simp: client_wkeeps_def)

abbreviation client_sends ::
  "hs_env \<Rightarrow> Otls_HANDSHAKE_STATE \<Rightarrow> tls \<Rightarrow> int list \<Rightarrow> bool" where
  "client_sends e h \<equiv>
     sends (otls_statem_client_write_transition e) client_msg client_wkeeps (\<lambda>t. hs t = h)"

lemma client_wkeeps_params:
  assumes "client_wkeeps s t"
  shows "hs t = hs s" "tls_IS_TLS13 t = tls_IS_TLS13 s" "tls_IS_DTLS t = tls_IS_DTLS s"
    "hit t = hit s" "npn_seen t = npn_seen s" "cert_req t = cert_req s"
    "hs s \<noteq> TLS_ST_CW_CHANGE \<Longrightarrow> s3_flags t = s3_flags s"
    "hello_retry_request t = hello_retry_request s" "ext_early_data t = ext_early_data s"
    "hs s \<noteq> TLS_ST_PENDING_EARLY_DATA_END \<Longrightarrow> hs s \<noteq> TLS_ST_CW_END_OF_EARLY_DATA
      \<Longrightarrow> early_data_state t = early_data_state s"
  using assms
  by (auto simp: client_wkeeps_def client_wparams_def client_wflags_def tls_IS_TLS13_def
      tls_IS_DTLS_def)

lemmas client_write_defs = otls_statem_client_write_transition_def client_msg_def
  otls_statem_client_construct_message_def

lemma client_sends_finished:
  assumes "hs s = TLS_ST_CW_FINISHED" and "\<not> tls_IS_TLS13 s" and "\<not> hit s"
  shows "client_sends e TLS_ST_CW_FINISHED s ms \<longleftrightarrow> ms = []"
  using cwr.sends_finished [of e s s] assms by (simp add: client_write_defs)

lemma client_sends_next_proto:
  assumes "hs s = TLS_ST_CW_NEXT_PROTO" and "\<not> tls_IS_TLS13 s" and "\<not> hit s"
  shows "client_sends e TLS_ST_CW_FINISHED s ms \<longleftrightarrow> ms = [tls3_MT_FINISHED]"
  by (rule cwr.sends_continue [where u = "set_hand_state TLS_ST_CW_FINISHED s"])
    (use assms in \<open>simp_all add: client_write_defs client_sends_finished client_wkeeps_params\<close>)

text \<open>No early data is being offered and no HelloRetryRequest is pending.\<close>

definition plain_handshake :: "tls \<Rightarrow> bool" where
  "plain_handshake s \<longleftrightarrow> \<not> tls_IS_TLS13 s \<and> \<not> hit s \<and> hello_retry_request s \<noteq> tls_HRR_PENDING
     \<and> early_data_state s \<noteq> tls_EARLY_DATA_CONNECTING"

lemma plain_keeps:
  "client_wkeeps s t \<Longrightarrow> hs s \<noteq> TLS_ST_PENDING_EARLY_DATA_END \<Longrightarrow> hs s \<noteq> TLS_ST_CW_END_OF_EARLY_DATA
     \<Longrightarrow> plain_handshake t = plain_handshake s"
  "plain_handshake (set_hand_state h s) = plain_handshake s"
  by (simp_all add: plain_handshake_def client_wkeeps_params)

lemma client_sends_change:
  assumes "hs s = TLS_ST_CW_CHANGE" and "plain_handshake s"
  shows "client_sends e TLS_ST_CW_FINISHED s ms \<longleftrightarrow>
    ms = opt_msg (\<not> tls_IS_DTLS s \<and> npn_seen s) tls3_MT_NEXT_PROTO @ [tls3_MT_FINISHED]"
proof (cases "\<not> tls_IS_DTLS s \<and> npn_seen s")
  case True
  with assms show ?thesis
    using cwr.sends_continue [where e = e and s = s and L = "[tls3_MT_FINISHED]"
        and u = "set_hand_state TLS_ST_CW_NEXT_PROTO s"]
    by (simp add: client_write_defs client_sends_next_proto client_wkeeps_params opt_msg_def
        plain_handshake_def)
next
  case False
  with assms show ?thesis
    using cwr.sends_continue [where e = e and s = s and L = "[]"
        and u = "set_hand_state TLS_ST_CW_FINISHED s"]
    by (auto simp: client_write_defs client_sends_finished client_wkeeps_params opt_msg_def
        plain_handshake_def)
qed

definition client_change_part :: "tls \<Rightarrow> int list" where
  "client_change_part s = tls3_MT_CHANGE_CIPHER_SPEC
     # opt_msg (\<not> tls_IS_DTLS s \<and> npn_seen s) tls3_MT_NEXT_PROTO @ [tls3_MT_FINISHED]"

lemma client_sends_to_change:
  assumes "otls_statem_client_write_transition e s
      = (WRITE_TRAN_CONTINUE, set_hand_state TLS_ST_CW_CHANGE s)" and "plain_handshake s"
  shows "client_sends e TLS_ST_CW_FINISHED s ms \<longleftrightarrow> ms = client_change_part s"
  unfolding client_change_part_def
  by (rule cwr.sends_continue [OF assms(1)])
    (use assms(2) in \<open>simp_all add: client_msg_def otls_statem_client_construct_message_def
      client_sends_change client_wkeeps_params plain_keeps\<close>)

lemma client_change_part_keeps:
  "client_wkeeps s t \<Longrightarrow> client_change_part t = client_change_part s"
  "client_change_part (set_hand_state h s) = client_change_part s"
  by (simp_all add: client_change_part_def client_wkeeps_params)

definition sends_cert_verify :: "tls \<Rightarrow> bool" where
  "sends_cert_verify s \<longleftrightarrow> cert_req s = 1 \<and> s3_flags s AND TLS1_FLAGS_SKIP_CERT_VERIFY = 0"

lemma client_sends_key_exch:
  assumes "hs s = TLS_ST_CW_KEY_EXCH" and "plain_handshake s"
  shows "client_sends e TLS_ST_CW_FINISHED s ms \<longleftrightarrow>
    ms = opt_msg (sends_cert_verify s) tls3_MT_CERTIFICATE_VERIFY @ client_change_part s"
proof (cases "sends_cert_verify s")
  case True
  have "client_sends e TLS_ST_CW_FINISHED v ns \<longleftrightarrow> ns = client_change_part s"
    if "client_wkeeps (set_hand_state TLS_ST_CW_CERT_VRFY s) v" for v ns
  proof -
    have "otls_statem_client_write_transition e v
        = (WRITE_TRAN_CONTINUE, set_hand_state TLS_ST_CW_CHANGE v)"
      using that assms(2)
      by (simp add: otls_statem_client_write_transition_def client_wkeeps_params
          plain_handshake_def)
    from client_sends_to_change [OF this] that assms(2) show ?thesis
      by (simp add: plain_keeps client_change_part_keeps)
  qed
  with True assms show ?thesis
    using cwr.sends_continue [where e = e and s = s and L = "client_change_part s"
        and u = "set_hand_state TLS_ST_CW_CERT_VRFY s"]
    by (simp add: client_write_defs opt_msg_def plain_handshake_def sends_cert_verify_def)
next
  case False
  then have "otls_statem_client_write_transition e s
      = (WRITE_TRAN_CONTINUE, set_hand_state TLS_ST_CW_CHANGE s)"
    using assms by (auto simp: otls_statem_client_write_transition_def plain_handshake_def
        sends_cert_verify_def set_hand_state_def Let_def)
  from client_sends_to_change [OF this assms(2)] False show ?thesis
    by (simp add: opt_msg_def)
qed

definition client_flight :: "tls \<Rightarrow> int list" where
  "client_flight s = opt_msg (cert_req s \<noteq> 0) tls3_MT_CERTIFICATE @ tls3_MT_CLIENT_KEY_EXCHANGE
     # opt_msg (sends_cert_verify s) tls3_MT_CERTIFICATE_VERIFY @ client_change_part s"

lemma client_sends_to_key_exch:
  assumes "otls_statem_client_write_transition e s
      = (WRITE_TRAN_CONTINUE, set_hand_state TLS_ST_CW_KEY_EXCH s)" and "plain_handshake s"
  shows "client_sends e TLS_ST_CW_FINISHED s ms \<longleftrightarrow> ms = tls3_MT_CLIENT_KEY_EXCHANGE
     # opt_msg (sends_cert_verify s) tls3_MT_CERTIFICATE_VERIFY @ client_change_part s"
  by (rule cwr.sends_continue [OF assms(1)])
    (use assms(2) in \<open>simp_all add: client_msg_def otls_statem_client_construct_message_def client_sends_key_exch
      client_wkeeps_params plain_keeps client_change_part_keeps sends_cert_verify_def\<close>)

lemma client_flight_iff:
  assumes "hs s = TLS_ST_CR_SRVR_DONE" and "plain_handshake s"
  shows "client_sends e TLS_ST_CW_FINISHED s ms \<longleftrightarrow> ms = client_flight s"
proof (cases "cert_req s = 0")
  case True
  then have "otls_statem_client_write_transition e s
      = (WRITE_TRAN_CONTINUE, set_hand_state TLS_ST_CW_KEY_EXCH s)"
    using assms by (simp add: otls_statem_client_write_transition_def plain_handshake_def)
  from client_sends_to_key_exch [OF this assms(2)] True show ?thesis
    by (simp add: client_flight_def opt_msg_def)
next
  case False
  let ?L = "tls3_MT_CLIENT_KEY_EXCHANGE
     # opt_msg (sends_cert_verify s) tls3_MT_CERTIFICATE_VERIFY @ client_change_part s"
  have "client_sends e TLS_ST_CW_FINISHED v ns \<longleftrightarrow> ns = ?L"
    if "client_wkeeps (set_hand_state TLS_ST_CW_CERT s) v" for v ns
  proof -
    have "otls_statem_client_write_transition e v
        = (WRITE_TRAN_CONTINUE, set_hand_state TLS_ST_CW_KEY_EXCH v)"
      using that assms(2)
      by (simp add: otls_statem_client_write_transition_def client_wkeeps_params
          plain_handshake_def)
    from client_sends_to_key_exch [OF this] that assms(2) show ?thesis
      by (simp add: plain_keeps client_change_part_keeps sends_cert_verify_def
          client_wkeeps_params)
  qed
  with False assms show ?thesis
    using cwr.sends_continue [where e = e and s = s and L = ?L
        and u = "set_hand_state TLS_ST_CW_CERT s"]
    by (simp add: client_write_defs client_flight_def opt_msg_def plain_handshake_def)
qed

text \<open>
  Below TLS 1.3, in a full handshake, a client that has read ServerHelloDone writes exactly
  one flight and then reads: Certificate if one was requested, ClientKeyExchange,
  CertificateVerify if it has a certificate to prove (and the key exchange does not make it
  superfluous), ChangeCipherSpec, NextProto if negotiated, Finished.
\<close>

theorem client_sends_client_flight:
  assumes "hs s = TLS_ST_CR_SRVR_DONE" and "plain_handshake s"
  shows "client_sends e TLS_ST_CW_FINISHED s ms \<longleftrightarrow> ms = client_flight s"
  using assms by (rule client_flight_iff)

theorem client_sends_client_flight_witness:
  "client_sends sample_env TLS_ST_CW_FINISHED (sample_tls 0x0303 False TLS_ST_CR_SRVR_DONE)
      [tls3_MT_CLIENT_KEY_EXCHANGE, tls3_MT_CHANGE_CIPHER_SPEC, tls3_MT_FINISHED]"
  by (simp add: client_sends_client_flight sample_defs plain_handshake_def client_flight_def
      client_change_part_def sends_cert_verify_def)

section \<open>The flight the client writes in TLS 1.3\<close>

lemmas client13_write_defs = otls_statem_client_write_transition_def
  otls_statem_client13_write_transition_def client_msg_def otls_statem_client_construct_message_def

lemma client13_sends_finished:
  assumes "hs s = TLS_ST_CW_FINISHED" and "tls_IS_TLS13 s"
  shows "client_sends e TLS_ST_OK s ms \<longleftrightarrow> ms = []"
  using cwr.sends_end [of e s "set_hand_state TLS_ST_OK s"] assms
  by (simp add: client13_write_defs)

lemma client13_sends_vrfy:
  assumes "hs s = TLS_ST_CW_CERT_VRFY" and "tls_IS_TLS13 s"
  shows "client_sends e TLS_ST_OK s ms \<longleftrightarrow> ms = [tls3_MT_FINISHED]"
  by (rule cwr.sends_continue [where u = "set_hand_state TLS_ST_CW_FINISHED s"])
    (use assms in \<open>simp_all add: client13_write_defs client13_sends_finished client_wkeeps_params\<close>)

lemma client13_sends_cert:
  assumes "hs s = TLS_ST_CW_CERT" and "tls_IS_TLS13 s"
  shows "client_sends e TLS_ST_OK s ms \<longleftrightarrow>
    ms = opt_msg (cert_req s = 1) tls3_MT_CERTIFICATE_VERIFY @ [tls3_MT_FINISHED]"
proof (cases "cert_req s = 1")
  case True
  with assms show ?thesis
    using cwr.sends_continue [where e = e and s = s and L = "[tls3_MT_FINISHED]"
        and u = "set_hand_state TLS_ST_CW_CERT_VRFY s"]
    by (simp add: client13_write_defs client13_sends_vrfy client_wkeeps_params opt_msg_def)
next
  case False
  with assms show ?thesis
    using cwr.sends_continue [where e = e and s = s and L = "[]"
        and u = "set_hand_state TLS_ST_CW_FINISHED s"]
    by (simp add: client13_write_defs client13_sends_finished client_wkeeps_params opt_msg_def)
qed

definition client13_auth_part :: "tls \<Rightarrow> int list" where
  "client13_auth_part s = opt_msg (cert_req s \<noteq> 0) tls3_MT_CERTIFICATE
     @ opt_msg (cert_req s = 1) tls3_MT_CERTIFICATE_VERIFY @ [tls3_MT_FINISHED]"

lemma client13_sends_auth:
  assumes "otls_statem_client_write_transition e s
      = (WRITE_TRAN_CONTINUE, set_hand_state (cert_or_finished s) s)" and "tls_IS_TLS13 s"
  shows "client_sends e TLS_ST_OK s ms \<longleftrightarrow> ms = client13_auth_part s"
proof (cases "cert_req s = 0")
  case True
  with assms show ?thesis
    using cwr.sends_continue [where e = e and s = s and L = "[]"
        and u = "set_hand_state TLS_ST_CW_FINISHED s"]
    by (simp add: client_msg_def otls_statem_client_construct_message_def cert_or_finished_def
        client13_sends_finished client_wkeeps_params opt_msg_def client13_auth_part_def)
next
  case False
  with assms show ?thesis
    using cwr.sends_continue [where e = e and s = s and u = "set_hand_state TLS_ST_CW_CERT s"
        and L = "opt_msg (cert_req s = 1) tls3_MT_CERTIFICATE_VERIFY @ [tls3_MT_FINISHED]"]
    by (simp add: client_msg_def otls_statem_client_construct_message_def cert_or_finished_def
        client13_sends_cert client_wkeeps_params opt_msg_def client13_auth_part_def)
qed

text \<open>The client's early data is still to be closed.\<close>

definition early_data_open :: "tls \<Rightarrow> bool" where
  "early_data_open s \<longleftrightarrow> early_data_state s = tls_EARLY_DATA_WRITE_RETRY
     \<or> early_data_state s = tls_EARLY_DATA_FINISHED_WRITING"

definition client13_flight :: "tls \<Rightarrow> int list" where
  "client13_flight s =
     (if early_data_open s
      then tls3_MT_DUMMY
           # opt_msg (ext_early_data s = tls_EARLY_DATA_ACCEPTED) tls3_MT_END_OF_EARLY_DATA
      else opt_msg (options s AND tls_OP_ENABLE_MIDDLEBOX_COMPAT \<noteq> 0
                    \<and> hello_retry_request s = tls_HRR_NONE) tls3_MT_CHANGE_CIPHER_SPEC)
     @ client13_auth_part s"

lemma client13_sends_via:
  assumes "otls_statem_client_write_transition e s = (WRITE_TRAN_CONTINUE, set_hand_state h s)"
    and "client_msg (set_hand_state h s) = Some m" and "tls_IS_TLS13 s"
    and "\<And>v. client_wkeeps (set_hand_state h s) v \<Longrightarrow> otls_statem_client_write_transition e v
      = (WRITE_TRAN_CONTINUE, set_hand_state (cert_or_finished v) v)"
  shows "client_sends e TLS_ST_OK s ms \<longleftrightarrow> ms = m # client13_auth_part s"
proof (rule cwr.sends_continue [OF assms(1,2)])
  fix v ns
  assume v: "client_wkeeps (set_hand_state h s) v"
  show "client_sends e TLS_ST_OK v ns \<longleftrightarrow> ns = client13_auth_part s"
    using client13_sends_auth [OF assms(4) [OF v], of ns] assms(3) v
    by (simp add: client_wkeeps_params client13_auth_part_def)
qed

lemma client13_sends_pending:
  assumes "hs s = TLS_ST_PENDING_EARLY_DATA_END" and "tls_IS_TLS13 s"
  shows "client_sends e TLS_ST_OK s ms \<longleftrightarrow>
    ms = opt_msg (ext_early_data s = tls_EARLY_DATA_ACCEPTED) tls3_MT_END_OF_EARLY_DATA
         @ client13_auth_part s"
proof (cases "ext_early_data s = tls_EARLY_DATA_ACCEPTED")
  case True
  then show ?thesis
    using client13_sends_via [of e s TLS_ST_CW_END_OF_EARLY_DATA tls3_MT_END_OF_EARLY_DATA ms] assms
    by (simp add: client13_write_defs client_wkeeps_params opt_msg_def)
next
  case False
  then show ?thesis
    using client13_sends_auth [of e s ms] assms by (simp add: client13_write_defs opt_msg_def)
qed

lemma client13_flight_iff:
  assumes "hs s = TLS_ST_CR_FINISHED" and "tls_IS_TLS13 s"
  shows "client_sends e TLS_ST_OK s ms \<longleftrightarrow> ms = client13_flight s"
proof -
  consider "early_data_open s"
    | "\<not> early_data_open s" "options s AND tls_OP_ENABLE_MIDDLEBOX_COMPAT \<noteq> 0"
        "hello_retry_request s = tls_HRR_NONE"
    | "\<not> early_data_open s" "\<not> (options s AND tls_OP_ENABLE_MIDDLEBOX_COMPAT \<noteq> 0
        \<and> hello_retry_request s = tls_HRR_NONE)" by blast
  then show ?thesis
  proof cases
    case 1
    have "client_sends e TLS_ST_OK v ns \<longleftrightarrow>
        ns = opt_msg (ext_early_data s = tls_EARLY_DATA_ACCEPTED) tls3_MT_END_OF_EARLY_DATA
          @ client13_auth_part s"
      if "client_wkeeps (set_hand_state TLS_ST_PENDING_EARLY_DATA_END s) v" for v ns
      using that assms(2)
      by (simp add: client13_sends_pending client_wkeeps_params client13_auth_part_def)
    with 1 assms show ?thesis
      using cwr.sends_continue [where e = e and s = s
          and u = "set_hand_state TLS_ST_PENDING_EARLY_DATA_END s"]
      by (simp add: client13_write_defs client13_flight_def early_data_open_def)
  next
    case 2
    then show ?thesis
      using client13_sends_via [of e s TLS_ST_CW_CHANGE tls3_MT_CHANGE_CIPHER_SPEC ms] assms
      by (simp add: client13_write_defs client_wkeeps_params opt_msg_def client13_flight_def
          early_data_open_def)
  next
    case 3
    then have "otls_statem_client_write_transition e s
        = (WRITE_TRAN_CONTINUE, set_hand_state (cert_or_finished s) s)"
      using assms by (auto simp: client13_write_defs early_data_open_def)
    from client13_sends_auth [OF this assms(2)] 3 show ?thesis
      by (auto simp: client13_flight_def opt_msg_def)
  qed
qed

end
