(* ===== verification/Statem_Srvr.thy ===== *)
theory Statem_Srvr
  imports Handshake_State
begin

text \<open>
  The server's handshake state machine (\<open>ssl/statem/statem_srvr.c\<close>): the read transitions
  (\<open>otls_statem_server_read_transition\<close> and its TLS 1.3 part), the write transitions, the
  decisions whether a ServerKeyExchange and a CertificateRequest are sent, the message types of
  the write states and the size limits of the read states. The theorems state exactly which
  client flights a server accepts and which flights it writes.
\<close>

section \<open>Reading\<close>

text \<open>
  The cases \<open>TLS_ST_SR_END_OF_EARLY_DATA\<close> and \<open>TLS_ST_SW_FINISHED\<close>, to which
  \<open>TLS_ST_EARLY_DATA\<close> falls through.
\<close>

definition server13_read_after_finished :: "tls \<Rightarrow> int \<Rightarrow> bool \<times> tls" where
  "server13_read_after_finished s mt =
     (if cert_request s then
        (if mt = tls3_MT_CERTIFICATE then (True, set_hand_state TLS_ST_SR_CERT s) else (False, s))
      else if mt = tls3_MT_FINISHED then (True, set_hand_state TLS_ST_SR_FINISHED s)
      else (False, s))"

definition otls_statem_server13_read_transition :: "tls \<Rightarrow> int \<Rightarrow> bool \<times> tls" where
  "otls_statem_server13_read_transition s mt =
     (case hs s of
        TLS_ST_EARLY_DATA \<Rightarrow>
          if hello_retry_request s = tls_HRR_PENDING then
            (if mt = tls3_MT_CLIENT_HELLO then (True, set_hand_state TLS_ST_SR_CLNT_HELLO s)
             else (False, s))
          else if ext_early_data s = tls_EARLY_DATA_ACCEPTED then
            (if mt = tls3_MT_END_OF_EARLY_DATA
             then (True, set_hand_state TLS_ST_SR_END_OF_EARLY_DATA s) else (False, s))
          else server13_read_after_finished s mt
      | TLS_ST_SR_END_OF_EARLY_DATA \<Rightarrow> server13_read_after_finished s mt
      | TLS_ST_SW_FINISHED \<Rightarrow> server13_read_after_finished s mt
      | TLS_ST_SR_CERT \<Rightarrow>
          if \<not> session_peer s then
            (if mt = tls3_MT_FINISHED then (True, set_hand_state TLS_ST_SR_FINISHED s)
             else (False, s))
          else if mt = tls3_MT_CERTIFICATE_VERIFY
          then (True, set_hand_state TLS_ST_SR_CERT_VRFY s)
          else (False, s)
      | TLS_ST_SR_CERT_VRFY \<Rightarrow>
          if mt = tls3_MT_FINISHED then (True, set_hand_state TLS_ST_SR_FINISHED s)
          else (False, s)
      | TLS_ST_OK \<Rightarrow>
          if early_data_state s = tls_EARLY_DATA_READING then (False, s)
          else if mt = tls3_MT_CERTIFICATE \<and> post_handshake_auth s = tls_PHA_REQUESTED
          then (True, set_hand_state TLS_ST_SR_CERT s)
          else if mt = tls3_MT_KEY_UPDATE then (True, set_hand_state TLS_ST_SR_KEY_UPDATE s)
          else (False, s)
      | _ \<Rightarrow> (False, s))"

definition server_read_hello :: "tls \<Rightarrow> int \<Rightarrow> bool \<times> tls" where
  "server_read_hello s mt =
     (if mt = tls3_MT_CLIENT_HELLO then (True, set_hand_state TLS_ST_SR_CLNT_HELLO s)
      else read_transition_err s mt)"

definition otls_statem_server_read_transition :: "tls \<Rightarrow> int \<Rightarrow> bool \<times> tls" where
  "otls_statem_server_read_transition s mt =
     (if tls_IS_TLS13 s then
        (case otls_statem_server13_read_transition s mt of
           (False, s) \<Rightarrow> read_transition_err s mt
         | (True, s) \<Rightarrow> (True, s))
      else case hs s of
        TLS_ST_BEFORE \<Rightarrow> server_read_hello s mt
      | TLS_ST_OK \<Rightarrow> server_read_hello s mt
      | DTLS_ST_SW_HELLO_VERIFY_REQUEST \<Rightarrow> server_read_hello s mt
      | TLS_ST_SW_SRVR_DONE \<Rightarrow>
          if mt = tls3_MT_CLIENT_KEY_EXCHANGE then
            (if cert_request s then
               (if version s = tls3_VERSION then
                  (if verify_mode s AND tls_VERIFY_PEER \<noteq> 0
                      \<and> verify_mode s AND tls_VERIFY_FAIL_IF_NO_PEER_CERT \<noteq> 0
                   then (False, otls_statem_fatal tls_AD_HANDSHAKE_FAILURE
                                  tls_R_PEER_DID_NOT_RETURN_A_CERTIFICATE s)
                   else (True, set_hand_state TLS_ST_SR_KEY_EXCH s))
                else read_transition_err s mt)
             else (True, set_hand_state TLS_ST_SR_KEY_EXCH s))
          else if cert_request s \<and> mt = tls3_MT_CERTIFICATE
          then (True, set_hand_state TLS_ST_SR_CERT s)
          else read_transition_err s mt
      | TLS_ST_SR_CERT \<Rightarrow>
          if mt = tls3_MT_CLIENT_KEY_EXCHANGE then (True, set_hand_state TLS_ST_SR_KEY_EXCH s)
          else read_transition_err s mt
      | TLS_ST_SR_KEY_EXCH \<Rightarrow>
          if \<not> session_peer s \<or> no_cert_verify (statem s) then
            (if mt = tls3_MT_CHANGE_CIPHER_SPEC then (True, set_hand_state TLS_ST_SR_CHANGE s)
             else read_transition_err s mt)
          else if mt = tls3_MT_CERTIFICATE_VERIFY
          then (True, set_hand_state TLS_ST_SR_CERT_VRFY s)
          else read_transition_err s mt
      | TLS_ST_SR_CERT_VRFY \<Rightarrow>
          if mt = tls3_MT_CHANGE_CIPHER_SPEC then (True, set_hand_state TLS_ST_SR_CHANGE s)
          else read_transition_err s mt
      | TLS_ST_SR_CHANGE \<Rightarrow>
          if npn_seen s then
            (if mt = tls3_MT_NEXT_PROTO then (True, set_hand_state TLS_ST_SR_NEXT_PROTO s)
             else read_transition_err s mt)
          else if mt = tls3_MT_FINISHED then (True, set_hand_state TLS_ST_SR_FINISHED s)
          else read_transition_err s mt
      | TLS_ST_SR_NEXT_PROTO \<Rightarrow>
          if mt = tls3_MT_FINISHED then (True, set_hand_state TLS_ST_SR_FINISHED s)
          else read_transition_err s mt
      | TLS_ST_SW_FINISHED \<Rightarrow>
          if mt = tls3_MT_CHANGE_CIPHER_SPEC then (True, set_hand_state TLS_ST_SR_CHANGE s)
          else read_transition_err s mt
      | _ \<Rightarrow> read_transition_err s mt)"

section \<open>Writing\<close>

definition send_server_key_exchange :: "tls \<Rightarrow> bool" where
  "send_server_key_exchange s =
     (let alg_k = algorithm_mkey (new_cipher s) in
      if alg_k AND (tls_kDHE OR tls_kECDHE) \<noteq> 0
         \<or> (alg_k AND (tls_kPSK OR tls_kRSAPSK) \<noteq> 0 \<and> psk_identity_hint s)
         \<or> alg_k AND (tls_PSK AND (tls_kDHEPSK OR tls_kECDHEPSK)) \<noteq> 0
         \<or> alg_k AND tls_kSRP \<noteq> 0
      then True else False)"

definition send_certificate_request :: "tls \<Rightarrow> bool" where
  "send_certificate_request s =
     (if verify_mode s AND tls_VERIFY_PEER \<noteq> 0
         \<and> (\<not> tls_IS_TLS13 s \<or> verify_mode s AND tls_VERIFY_POST_HANDSHAKE = 0
            \<or> post_handshake_auth s = tls_PHA_REQUEST_PENDING)
         \<and> (certreqs_sent s < 1 \<or> verify_mode s AND tls_VERIFY_CLIENT_ONCE = 0)
         \<and> (algorithm_auth (new_cipher s) AND tls_aNULL = 0
            \<or> verify_mode s AND tls_VERIFY_FAIL_IF_NO_PEER_CERT \<noteq> 0)
         \<and> algorithm_auth (new_cipher s) AND tls_aSRP = 0
         \<and> algorithm_auth (new_cipher s) AND tls_aPSK = 0
      then True else False)"

definition otls_statem_server13_write_transition :: "tls \<Rightarrow> WRITE_TRAN \<times> tls" where
  "otls_statem_server13_write_transition s =
     (case hs s of
        TLS_ST_OK \<Rightarrow>
          if key_update s \<noteq> tls_KEY_UPDATE_NONE
          then (WRITE_TRAN_CONTINUE, set_hand_state TLS_ST_SW_KEY_UPDATE s)
          else if post_handshake_auth s = tls_PHA_REQUEST_PENDING
          then (WRITE_TRAN_CONTINUE, set_hand_state TLS_ST_SW_CERT_REQ s)
          else (WRITE_TRAN_FINISHED, s)
      | TLS_ST_SR_CLNT_HELLO \<Rightarrow> (WRITE_TRAN_CONTINUE, set_hand_state TLS_ST_SW_SRVR_HELLO s)
      | TLS_ST_SW_SRVR_HELLO \<Rightarrow>
          (WRITE_TRAN_CONTINUE,
           set_hand_state (if options s AND tls_OP_ENABLE_MIDDLEBOX_COMPAT \<noteq> 0
                              \<and> hello_retry_request s \<noteq> tls_HRR_COMPLETE then TLS_ST_SW_CHANGE
                           else if hello_retry_request s = tls_HRR_PENDING then TLS_ST_EARLY_DATA
                           else TLS_ST_SW_ENCRYPTED_EXTENSIONS) s)
      | TLS_ST_SW_CHANGE \<Rightarrow>
          (WRITE_TRAN_CONTINUE,
           set_hand_state (if hello_retry_request s = tls_HRR_PENDING then TLS_ST_EARLY_DATA
                           else TLS_ST_SW_ENCRYPTED_EXTENSIONS) s)
      | TLS_ST_SW_ENCRYPTED_EXTENSIONS \<Rightarrow>
          (WRITE_TRAN_CONTINUE,
           set_hand_state (if hit s then TLS_ST_SW_FINISHED
                           else if send_certificate_request s then TLS_ST_SW_CERT_REQ
                           else TLS_ST_SW_CERT) s)
      | TLS_ST_SW_CERT_REQ \<Rightarrow>
          if post_handshake_auth s = tls_PHA_REQUEST_PENDING
          then (WRITE_TRAN_CONTINUE,
                set_hand_state TLS_ST_OK (s\<lparr>post_handshake_auth := tls_PHA_REQUESTED\<rparr>))
          else (WRITE_TRAN_CONTINUE, set_hand_state TLS_ST_SW_CERT s)
      | TLS_ST_SW_CERT \<Rightarrow> (WRITE_TRAN_CONTINUE, set_hand_state TLS_ST_SW_CERT_VRFY s)
      | TLS_ST_SW_CERT_VRFY \<Rightarrow> (WRITE_TRAN_CONTINUE, set_hand_state TLS_ST_SW_FINISHED s)
      | TLS_ST_SW_FINISHED \<Rightarrow> (WRITE_TRAN_CONTINUE, set_hand_state TLS_ST_EARLY_DATA s)
      | TLS_ST_EARLY_DATA \<Rightarrow> (WRITE_TRAN_FINISHED, s)
      | TLS_ST_SR_FINISHED \<Rightarrow>
          if post_handshake_auth s = tls_PHA_REQUESTED then
            (let s = s\<lparr>post_handshake_auth := tls_PHA_EXT_RECEIVED\<rparr> in
             (WRITE_TRAN_CONTINUE,
              set_hand_state (if num_tickets s > sent_tickets s then TLS_ST_SW_SESSION_TICKET
                              else TLS_ST_OK) s))
          else if \<not> ext_ticket_expected s
          then (WRITE_TRAN_CONTINUE, set_hand_state TLS_ST_OK s)
          else (WRITE_TRAN_CONTINUE,
                set_hand_state (if num_tickets s > sent_tickets s then TLS_ST_SW_SESSION_TICKET
                                else TLS_ST_OK) s)
      | TLS_ST_SR_KEY_UPDATE \<Rightarrow> (WRITE_TRAN_CONTINUE, set_hand_state TLS_ST_OK s)
      | TLS_ST_SW_KEY_UPDATE \<Rightarrow> (WRITE_TRAN_CONTINUE, set_hand_state TLS_ST_OK s)
      | TLS_ST_SW_SESSION_TICKET \<Rightarrow>
          (WRITE_TRAN_CONTINUE,
           if hit s \<or> num_tickets s \<le> sent_tickets s then set_hand_state TLS_ST_OK s else s)
      | _ \<Rightarrow> (WRITE_TRAN_ERROR, internal_error s))"

text \<open>
  The cases \<open>TLS_ST_SW_KEY_EXCH\<close> and \<open>TLS_ST_SW_CERT_STATUS\<close> with their fall-through
  to \<open>TLS_ST_SW_CERT_REQ\<close>.
\<close>

definition server_write_key_exch :: "tls \<Rightarrow> WRITE_TRAN \<times> tls" where
  "server_write_key_exch s =
     (if send_certificate_request s then (WRITE_TRAN_CONTINUE, set_hand_state TLS_ST_SW_CERT_REQ s)
      else (WRITE_TRAN_CONTINUE, set_hand_state TLS_ST_SW_SRVR_DONE s))"

definition server_write_cert_status :: "tls \<Rightarrow> WRITE_TRAN \<times> tls" where
  "server_write_cert_status s =
     (if send_server_key_exchange s then (WRITE_TRAN_CONTINUE, set_hand_state TLS_ST_SW_KEY_EXCH s)
      else server_write_key_exch s)"

definition otls_statem_server_write_transition :: "hs_env \<Rightarrow> tls \<Rightarrow> WRITE_TRAN \<times> tls" where
  "otls_statem_server_write_transition e s =
     (if tls_IS_TLS13 s then otls_statem_server13_write_transition s
      else case hs s of
        TLS_ST_OK \<Rightarrow>
          if request_state (statem s) = TLS_ST_SW_HELLO_REQ then
            (WRITE_TRAN_CONTINUE,
             s\<lparr>statem := (statem s)\<lparr>hand_state := TLS_ST_SW_HELLO_REQ,
                                    request_state := TLS_ST_BEFORE\<rparr>\<rparr>)
          else (case tls_setup_handshake e s of
                  (False, s) \<Rightarrow> (WRITE_TRAN_ERROR, s)
                | (True, s) \<Rightarrow> (WRITE_TRAN_FINISHED, s))
      | TLS_ST_BEFORE \<Rightarrow> (WRITE_TRAN_FINISHED, s)
      | TLS_ST_SW_HELLO_REQ \<Rightarrow> (WRITE_TRAN_CONTINUE, set_hand_state TLS_ST_OK s)
      | TLS_ST_SR_CLNT_HELLO \<Rightarrow>
          if tls_IS_DTLS s \<and> \<not> cookie_verified s \<and> options s AND tls_OP_COOKIE_EXCHANGE \<noteq> 0
          then (WRITE_TRAN_CONTINUE, set_hand_state DTLS_ST_SW_HELLO_VERIFY_REQUEST s)
          else if \<not> renegotiate s \<and> \<not> tls_IS_FIRST_HANDSHAKE s
          then (WRITE_TRAN_CONTINUE, set_hand_state TLS_ST_OK s)
          else (WRITE_TRAN_CONTINUE, set_hand_state TLS_ST_SW_SRVR_HELLO s)
      | DTLS_ST_SW_HELLO_VERIFY_REQUEST \<Rightarrow> (WRITE_TRAN_FINISHED, s)
      | TLS_ST_SW_SRVR_HELLO \<Rightarrow>
          (WRITE_TRAN_CONTINUE,
           set_hand_state
             (if hit s then (if ext_ticket_expected s then TLS_ST_SW_SESSION_TICKET
                             else TLS_ST_SW_CHANGE)
              else if algorithm_auth (new_cipher s) AND (tls_aNULL OR tls_aSRP OR tls_aPSK) = 0
              then TLS_ST_SW_CERT
              else if send_server_key_exchange s then TLS_ST_SW_KEY_EXCH
              else if send_certificate_request s then TLS_ST_SW_CERT_REQ
              else TLS_ST_SW_SRVR_DONE) s)
      | TLS_ST_SW_CERT \<Rightarrow>
          if ext_status_expected s
          then (WRITE_TRAN_CONTINUE, set_hand_state TLS_ST_SW_CERT_STATUS s)
          else server_write_cert_status s
      | TLS_ST_SW_CERT_STATUS \<Rightarrow> server_write_cert_status s
      | TLS_ST_SW_KEY_EXCH \<Rightarrow> server_write_key_exch s
      | TLS_ST_SW_CERT_REQ \<Rightarrow> (WRITE_TRAN_CONTINUE, set_hand_state TLS_ST_SW_SRVR_DONE s)
      | TLS_ST_SW_SRVR_DONE \<Rightarrow> (WRITE_TRAN_FINISHED, s)
      | TLS_ST_SR_FINISHED \<Rightarrow>
          (WRITE_TRAN_CONTINUE,
           set_hand_state (if hit s then TLS_ST_OK
                           else if ext_ticket_expected s then TLS_ST_SW_SESSION_TICKET
                           else TLS_ST_SW_CHANGE) s)
      | TLS_ST_SW_SESSION_TICKET \<Rightarrow> (WRITE_TRAN_CONTINUE, set_hand_state TLS_ST_SW_CHANGE s)
      | TLS_ST_SW_CHANGE \<Rightarrow> (WRITE_TRAN_CONTINUE, set_hand_state TLS_ST_SW_FINISHED s)
      | TLS_ST_SW_FINISHED \<Rightarrow>
          if hit s then (WRITE_TRAN_FINISHED, s)
          else (WRITE_TRAN_CONTINUE, set_hand_state TLS_ST_OK s)
      | _ \<Rightarrow> (WRITE_TRAN_ERROR, internal_error s))"

section \<open>Messages of the states\<close>

definition otls_statem_server_construct_message :: "tls \<Rightarrow> (confunc option \<times> int) option \<times> tls" where
  "otls_statem_server_construct_message s =
     (case hs s of
        TLS_ST_SW_CHANGE \<Rightarrow>
          (Some (Some (if tls_IS_DTLS s then dtls_construct_change_cipher_spec
                       else tls_construct_change_cipher_spec), tls3_MT_CHANGE_CIPHER_SPEC), s)
      | DTLS_ST_SW_HELLO_VERIFY_REQUEST \<Rightarrow>
          (Some (Some dtls_construct_hello_verify_request, DTLS1_MT_HELLO_VERIFY_REQUEST), s)
      | TLS_ST_SW_HELLO_REQ \<Rightarrow> (Some (None, tls3_MT_HELLO_REQUEST), s)
      | TLS_ST_SW_SRVR_HELLO \<Rightarrow> (Some (Some tls_construct_server_hello, tls3_MT_SERVER_HELLO), s)
      | TLS_ST_SW_CERT \<Rightarrow> (Some (Some tls_construct_server_certificate, tls3_MT_CERTIFICATE), s)
      | TLS_ST_SW_CERT_VRFY \<Rightarrow>
          (Some (Some tls_construct_cert_verify, tls3_MT_CERTIFICATE_VERIFY), s)
      | TLS_ST_SW_KEY_EXCH \<Rightarrow>
          (Some (Some tls_construct_server_key_exchange, tls3_MT_SERVER_KEY_EXCHANGE), s)
      | TLS_ST_SW_CERT_REQ \<Rightarrow>
          (Some (Some tls_construct_certificate_request, tls3_MT_CERTIFICATE_REQUEST), s)
      | TLS_ST_SW_SRVR_DONE \<Rightarrow> (Some (Some tls_construct_server_done, tls3_MT_SERVER_DONE), s)
      | TLS_ST_SW_SESSION_TICKET \<Rightarrow>
          (Some (Some tls_construct_new_session_ticket, tls3_MT_NEWSESSION_TICKET), s)
      | TLS_ST_SW_CERT_STATUS \<Rightarrow>
          (Some (Some tls_construct_cert_status, tls3_MT_CERTIFICATE_STATUS), s)
      | TLS_ST_SW_FINISHED \<Rightarrow> (Some (Some tls_construct_finished, tls3_MT_FINISHED), s)
      | TLS_ST_EARLY_DATA \<Rightarrow> (Some (None, tls3_MT_DUMMY), s)
      | TLS_ST_SW_ENCRYPTED_EXTENSIONS \<Rightarrow>
          (Some (Some tls_construct_encrypted_extensions, tls3_MT_ENCRYPTED_EXTENSIONS), s)
      | TLS_ST_SW_KEY_UPDATE \<Rightarrow> (Some (Some tls_construct_key_update, tls3_MT_KEY_UPDATE), s)
      | _ \<Rightarrow> (None, otls_statem_fatal tls_AD_INTERNAL_ERROR tls_R_BAD_HANDSHAKE_STATE s))"

definition otls_statem_server_max_message_size :: "tls \<Rightarrow> nat" where
  "otls_statem_server_max_message_size s =
     (case hs s of
        TLS_ST_SR_CLNT_HELLO \<Rightarrow> 131396
      | TLS_ST_SR_END_OF_EARLY_DATA \<Rightarrow> 0
      | TLS_ST_SR_CERT \<Rightarrow> max_cert_list s
      | TLS_ST_SR_KEY_EXCH \<Rightarrow> 2048
      | TLS_ST_SR_CERT_VRFY \<Rightarrow> 16384
      | TLS_ST_SR_NEXT_PROTO \<Rightarrow> 514
      | TLS_ST_SR_CHANGE \<Rightarrow> 1
      | TLS_ST_SR_FINISHED \<Rightarrow> 64
      | TLS_ST_SR_KEY_UPDATE \<Rightarrow> 1
      | _ \<Rightarrow> 0)"

section \<open>The server as a message reader\<close>

text \<open>
  The parameters the read transitions depend on. Processing a client's message changes neither
  them nor the handshake state, with two exceptions: processing a Certificate may record the
  peer's certificate, and processing a ClientKeyExchange may decide that no CertificateVerify
  follows (\<open>no_cert_verify\<close>).
\<close>

definition server_params ::
  "tls \<Rightarrow> (int \<times> int \<times> bool) \<times> (bool \<times> bool \<times> u32) \<times> (tls_HRR_STATE \<times> int)" where
  "server_params s = ((version s, method_version s, method_is_dtls s),
     (npn_seen s, cert_request s, verify_mode s), (hello_retry_request s, ext_early_data s))"

definition server_keeps :: "tls \<Rightarrow> tls \<Rightarrow> bool" where
  "server_keeps s t \<longleftrightarrow> hs t = hs s \<and> server_params t = server_params s
     \<and> (hs s \<noteq> TLS_ST_SR_CERT \<longrightarrow> session_peer t = session_peer s)
     \<and> (hs s \<noteq> TLS_ST_SR_KEY_EXCH \<longrightarrow> no_cert_verify (statem t) = no_cert_verify (statem s))"

lemmas server_read_defs = otls_statem_server_read_transition_def
  otls_statem_server13_read_transition_def server13_read_after_finished_def server_read_hello_def

lemma server_keeps_params:
  assumes "server_keeps s t"
  shows "hs t = hs s" "tls_IS_TLS13 t = tls_IS_TLS13 s" "tls_IS_DTLS t = tls_IS_DTLS s"
    "version t = version s" "npn_seen t = npn_seen s" "cert_request t = cert_request s"
    "verify_mode t = verify_mode s" "hello_retry_request t = hello_retry_request s"
    "ext_early_data t = ext_early_data s"
  using assms
  by (simp_all add: server_keeps_def server_params_def tls_IS_TLS13_def tls_IS_DTLS_def)

lemma server_keeps_peer:
  "server_keeps s t \<Longrightarrow> hs s \<noteq> TLS_ST_SR_CERT \<Longrightarrow> session_peer t = session_peer s"
  "server_keeps s t \<Longrightarrow> hs s \<noteq> TLS_ST_SR_KEY_EXCH \<Longrightarrow>
     no_cert_verify (statem t) = no_cert_verify (statem s)"
  by (simp_all add: server_keeps_def)

lemmas server_frame = server_keeps_params server_keeps_peer

lemma server13_reject_hs:
  "otls_statem_server13_read_transition s mt = (False, t) \<Longrightarrow> t = s"
  by (cases "hs s") (auto simp: server_read_defs split: if_splits)

lemma server_reject_hs:
  "otls_statem_server_read_transition s mt = (False, t) \<Longrightarrow> hs t = hs s"
proof (cases "tls_IS_TLS13 s")
  case True
  assume "otls_statem_server_read_transition s mt = (False, t)"
  with True have "read_transition_err s mt = (False, t)"
    using server13_reject_hs [of s mt]
    by (auto simp: otls_statem_server_read_transition_def split: prod.splits bool.splits)
  then show ?thesis by (rule read_transition_err_hs)
next
  case False
  assume "otls_statem_server_read_transition s mt = (False, t)"
  with False show ?thesis
    by (cases "hs s") (auto simp: server_read_defs split: if_splits dest: read_transition_err_hs)
qed

interpretation srvr: message_reader otls_statem_server_read_transition server_keeps hs
  by unfold_locales (auto simp: server_keeps_def dest: server_reject_hs)

text \<open>
  \<open>server_accepts p n s ms\<close>: reading \<open>ms\<close> takes the server from \<open>s\<close> to the client's
  Finished, with a peer certificate on record iff \<open>p\<close> and CertificateVerify waived iff \<open>n\<close>.
\<close>

definition server_accepts :: "bool \<Rightarrow> bool \<Rightarrow> tls \<Rightarrow> int list \<Rightarrow> bool" where
  "server_accepts p n = accepts otls_statem_server_read_transition server_keeps
     (\<lambda>t. hs t = TLS_ST_SR_FINISHED \<and> session_peer t = p \<and> no_cert_verify (statem t) = n)"

lemma server_accepts_only:
  assumes "hs s \<noteq> TLS_ST_SR_FINISHED" and "otls_statem_server_read_transition s x = (True, u)"
    and "\<And>m. m \<noteq> x \<Longrightarrow> \<not> fst (otls_statem_server_read_transition s m)"
    and "\<And>v ns. server_keeps u v \<Longrightarrow> server_accepts p n v ns = L ns"
  shows "server_accepts p n s ms \<longleftrightarrow> (\<exists>ns. ms = x # ns \<and> L ns)"
  using assms unfolding server_accepts_def by (intro srvr.accepts_only) auto

lemma server_accepts_finished:
  assumes "hs s = TLS_ST_SR_FINISHED"
  shows "server_accepts p n s ms \<longleftrightarrow>
    ms = [] \<and> session_peer s = p \<and> no_cert_verify (statem s) = n"
proof -
  have "\<not> fst (otls_statem_server_read_transition s m)" for m
    using assms by (cases "tls_IS_TLS13 s") (simp_all add: server_read_defs)
  then show ?thesis
    using srvr.accepts_stuck [of s] assms by (auto simp: server_accepts_def)
qed

lemma server_accepts_next_proto:
  assumes "hs s = TLS_ST_SR_NEXT_PROTO" and "\<not> tls_IS_TLS13 s"
  shows "server_accepts p n s ms \<longleftrightarrow>
    ms = [tls3_MT_FINISHED] \<and> session_peer s = p \<and> no_cert_verify (statem s) = n"
  using assms
    server_accepts_only [where s = s and u = "set_hand_state TLS_ST_SR_FINISHED s"
      and x = tls3_MT_FINISHED
      and L = "\<lambda>ns. ns = [] \<and> session_peer s = p \<and> no_cert_verify (statem s) = n"]
  by (simp add: server_read_defs server_accepts_finished server_frame)

lemma server_accepts_change:
  assumes "hs s = TLS_ST_SR_CHANGE" and "\<not> tls_IS_TLS13 s"
  shows "server_accepts p n s ms \<longleftrightarrow>
    ms = opt_msg (npn_seen s) tls3_MT_NEXT_PROTO @ [tls3_MT_FINISHED]
    \<and> session_peer s = p \<and> no_cert_verify (statem s) = n"
proof (cases "npn_seen s")
  case True
  with assms show ?thesis
    using server_accepts_only [where s = s and u = "set_hand_state TLS_ST_SR_NEXT_PROTO s"
        and x = tls3_MT_NEXT_PROTO and L = "\<lambda>ns. ns = [tls3_MT_FINISHED]
          \<and> session_peer s = p \<and> no_cert_verify (statem s) = n"]
    by (simp add: server_read_defs server_accepts_next_proto server_frame opt_msg_def)
next
  case False
  with assms show ?thesis
    using server_accepts_only [where s = s and u = "set_hand_state TLS_ST_SR_FINISHED s"
        and x = tls3_MT_FINISHED
        and L = "\<lambda>ns. ns = [] \<and> session_peer s = p \<and> no_cert_verify (statem s) = n"]
    by (simp add: server_read_defs server_accepts_finished server_frame opt_msg_def)
qed

definition change_tail :: "tls \<Rightarrow> int list" where
  "change_tail s =
     tls3_MT_CHANGE_CIPHER_SPEC # opt_msg (npn_seen s) tls3_MT_NEXT_PROTO @ [tls3_MT_FINISHED]"

lemma server_accepts_vrfy:
  assumes "hs s = TLS_ST_SR_CERT_VRFY" and "\<not> tls_IS_TLS13 s"
  shows "server_accepts p n s ms \<longleftrightarrow>
    ms = change_tail s \<and> session_peer s = p \<and> no_cert_verify (statem s) = n"
  using assms
    server_accepts_only [where s = s and u = "set_hand_state TLS_ST_SR_CHANGE s"
      and x = tls3_MT_CHANGE_CIPHER_SPEC
      and L = "\<lambda>ns. ns = opt_msg (npn_seen s) tls3_MT_NEXT_PROTO @ [tls3_MT_FINISHED]
        \<and> session_peer s = p \<and> no_cert_verify (statem s) = n"]
  by (auto simp: server_read_defs server_accepts_change server_frame change_tail_def)

lemma server_accepts_key_exch:
  assumes "hs s = TLS_ST_SR_KEY_EXCH" and "\<not> tls_IS_TLS13 s"
  shows "server_accepts p n s ms \<longleftrightarrow>
    ms = opt_msg (p \<and> \<not> n) tls3_MT_CERTIFICATE_VERIFY @ change_tail s
    \<and> session_peer s = p \<and> no_cert_verify (statem s) = n"
proof (cases "session_peer s \<and> \<not> no_cert_verify (statem s)")
  case True
  with assms show ?thesis
    using server_accepts_only [where s = s and u = "set_hand_state TLS_ST_SR_CERT_VRFY s"
        and x = tls3_MT_CERTIFICATE_VERIFY and L = "\<lambda>ns. ns = change_tail s
          \<and> session_peer s = p \<and> no_cert_verify (statem s) = n"]
    by (auto simp: server_read_defs server_accepts_vrfy server_frame opt_msg_def change_tail_def)
next
  case False
  with assms show ?thesis
    using server_accepts_only [where s = s and u = "set_hand_state TLS_ST_SR_CHANGE s"
        and x = tls3_MT_CHANGE_CIPHER_SPEC
        and L = "\<lambda>ns. ns = opt_msg (npn_seen s) tls3_MT_NEXT_PROTO @ [tls3_MT_FINISHED]
          \<and> session_peer s = p \<and> no_cert_verify (statem s) = n"]
    by (auto simp: server_read_defs server_accepts_change server_frame opt_msg_def change_tail_def)
qed

text \<open>Processing a Certificate chooses the peer, processing a ClientKeyExchange the waiver.\<close>

lemma ex_keeps_key_exch:
  assumes "hs u = TLS_ST_SR_KEY_EXCH"
  shows "(\<exists>v. server_keeps u v \<and> session_peer v = p \<and> no_cert_verify (statem v) = n) \<longleftrightarrow>
    session_peer u = p"
proof
  assume "session_peer u = p"
  then show "\<exists>v. server_keeps u v \<and> session_peer v = p \<and> no_cert_verify (statem v) = n"
    using assms by (intro exI [of _ "u\<lparr>statem := (statem u)\<lparr>no_cert_verify := n\<rparr>\<rparr>"])
      (simp add: server_keeps_def server_params_def)
qed (use assms in \<open>auto simp: server_frame\<close>)

lemma ex_keeps_cert:
  "hs u = TLS_ST_SR_CERT \<Longrightarrow> \<exists>v. server_keeps u v \<and> session_peer v = p"
  by (intro exI [of _ "u\<lparr>session_peer := p\<rparr>"]) (simp add: server_keeps_def server_params_def)

lemma change_tail_keeps: "server_keeps s t \<Longrightarrow> change_tail t = change_tail s"
  by (simp add: change_tail_def server_frame)

lemma change_tail_set_hand_state [simp]: "change_tail (set_hand_state h s) = change_tail s"
  by (simp add: change_tail_def)

definition key_exch_flight :: "bool \<Rightarrow> bool \<Rightarrow> tls \<Rightarrow> int list" where
  "key_exch_flight p n s =
     tls3_MT_CLIENT_KEY_EXCHANGE # opt_msg (p \<and> \<not> n) tls3_MT_CERTIFICATE_VERIFY @ change_tail s"

lemma server_reads_key_exch:
  assumes "otls_statem_server_read_transition s tls3_MT_CLIENT_KEY_EXCHANGE
             = (True, set_hand_state TLS_ST_SR_KEY_EXCH s)" and "\<not> tls_IS_TLS13 s"
  shows "server_accepts p n s (tls3_MT_CLIENT_KEY_EXCHANGE # ms) \<longleftrightarrow>
    tls3_MT_CLIENT_KEY_EXCHANGE # ms = key_exch_flight p n s \<and> session_peer s = p"
proof -
  let ?u = "set_hand_state TLS_ST_SR_KEY_EXCH s"
  have "server_accepts p n s (tls3_MT_CLIENT_KEY_EXCHANGE # ms) \<longleftrightarrow>
      (\<exists>v. server_keeps ?u v \<and> server_accepts p n v ms)"
    using assms(1) by (simp add: server_accepts_def accepts_Cons)
  also have "\<dots> \<longleftrightarrow> (\<exists>v. server_keeps ?u v \<and> session_peer v = p \<and> no_cert_verify (statem v) = n)
      \<and> ms = opt_msg (p \<and> \<not> n) tls3_MT_CERTIFICATE_VERIFY @ change_tail s"
    using assms(2) by (auto simp: server_accepts_key_exch server_frame change_tail_keeps)
  finally show ?thesis
    by (auto simp: ex_keeps_key_exch key_exch_flight_def)
qed

lemma server_accepts_cert:
  assumes "hs s = TLS_ST_SR_CERT" and "\<not> tls_IS_TLS13 s"
  shows "server_accepts p n s ms \<longleftrightarrow> ms = key_exch_flight p n s \<and> session_peer s = p"
proof (cases ms)
  case Nil
  then show ?thesis using assms by (simp add: server_accepts_def key_exch_flight_def)
next
  case (Cons m ns)
  show ?thesis
  proof (cases "m = tls3_MT_CLIENT_KEY_EXCHANGE")
    case True
    then show ?thesis
      using server_reads_key_exch [of s p n ns] assms Cons by (simp add: server_read_defs)
  next
    case False
    then show ?thesis
      using assms Cons
      by (auto simp: server_accepts_def accepts_Cons server_read_defs key_exch_flight_def)
  qed
qed

lemma server_client_flight_iff:
  assumes "hs s = TLS_ST_SW_SRVR_DONE" and "\<not> tls_IS_TLS13 s"
  shows "server_accepts p n s ms \<longleftrightarrow>
    (\<exists>cert. ms = opt_msg cert tls3_MT_CERTIFICATE @ key_exch_flight p n s
       \<and> (if cert then cert_request s
          else session_peer s = p
            \<and> (cert_request s \<longrightarrow> version s = tls3_VERSION
                 \<and> \<not> (verify_mode s AND tls_VERIFY_PEER \<noteq> 0
                      \<and> verify_mode s AND tls_VERIFY_FAIL_IF_NO_PEER_CERT \<noteq> 0))))"
proof (cases ms)
  case Nil
  then show ?thesis using assms by (simp add: server_accepts_def key_exch_flight_def)
next
  case (Cons m ns)
  consider "m = tls3_MT_CLIENT_KEY_EXCHANGE" | "m = tls3_MT_CERTIFICATE"
    | "m \<noteq> tls3_MT_CLIENT_KEY_EXCHANGE" "m \<noteq> tls3_MT_CERTIFICATE" by blast
  then show ?thesis
  proof cases
    case 1
    let ?ok = "cert_request s \<longrightarrow> version s = tls3_VERSION
      \<and> \<not> (verify_mode s AND tls_VERIFY_PEER \<noteq> 0
           \<and> verify_mode s AND tls_VERIFY_FAIL_IF_NO_PEER_CERT \<noteq> 0)"
    have "server_accepts p n s ms \<longleftrightarrow> ?ok \<and> ms = key_exch_flight p n s \<and> session_peer s = p"
    proof (cases ?ok)
      case True
      then have "otls_statem_server_read_transition s tls3_MT_CLIENT_KEY_EXCHANGE
          = (True, set_hand_state TLS_ST_SR_KEY_EXCH s)"
        using assms by (auto simp: server_read_defs)
      from server_reads_key_exch [OF this assms(2)] True show ?thesis
        using Cons 1 by simp
    next
      case False
      then show ?thesis
        using assms Cons 1 by (auto simp: server_accepts_def accepts_Cons server_read_defs)
    qed
    with 1 Cons show ?thesis
      by (auto simp: ex_bool_eq opt_msg_def)
  next
    case 2
    let ?u = "set_hand_state TLS_ST_SR_CERT s"
    have "server_accepts p n v ns \<longleftrightarrow> ns = key_exch_flight p n s \<and> session_peer v = p"
      if "server_keeps ?u v" for v
      using change_tail_keeps [OF that] that assms(2)
      by (simp add: server_accepts_cert server_frame key_exch_flight_def)
    then have "(\<exists>v. server_keeps ?u v \<and> server_accepts p n v ns) \<longleftrightarrow> ns = key_exch_flight p n s"
      using ex_keeps_cert [of ?u p] by (metis hs_set_hand_state)
    moreover have "server_accepts p n s ms \<longleftrightarrow>
        cert_request s \<and> (\<exists>v. server_keeps ?u v \<and> server_accepts p n v ns)"
      using 2 assms Cons by (simp add: server_accepts_def accepts_Cons server_read_defs)
    ultimately show ?thesis
      using 2 Cons by (auto simp: ex_bool_eq opt_msg_def key_exch_flight_def)
  next
    case 3
    then show ?thesis
      using assms Cons by (auto simp: server_accepts_def accepts_Cons server_read_defs ex_bool_eq
          opt_msg_def key_exch_flight_def)
  qed
qed

text \<open>
  C16: below TLS 1.3, the messages that take a server from its ServerHelloDone to the client's
  Finished are exactly an optional Certificate, ClientKeyExchange, CertificateVerify, and
  ChangeCipherSpec, NextProto if negotiated, Finished, where CertificateVerify is present if and
  only if the server has recorded a peer certificate and the key exchange did not waive it. The
  Certificate can be sent only if it was requested, and when it was requested it can be left
  out only in SSL 3.0 with a verify mode that does not insist on it.
\<close>

theorem server_accepts_client_flight:
  assumes "hs s = TLS_ST_SW_SRVR_DONE" and "\<not> tls_IS_TLS13 s"
  shows "server_accepts p n s ms \<longleftrightarrow>
    (\<exists>cert. ms = opt_msg cert tls3_MT_CERTIFICATE @ key_exch_flight p n s
       \<and> (if cert then cert_request s
          else session_peer s = p
            \<and> (cert_request s \<longrightarrow> version s = tls3_VERSION
                 \<and> \<not> (verify_mode s AND tls_VERIFY_PEER \<noteq> 0
                      \<and> verify_mode s AND tls_VERIFY_FAIL_IF_NO_PEER_CERT \<noteq> 0))))"
  using assms by (rule server_client_flight_iff)

theorem server_accepts_client_flight_witness:
  "server_accepts False False (sample_tls 0x0303 True TLS_ST_SW_SRVR_DONE)
      [tls3_MT_CLIENT_KEY_EXCHANGE, tls3_MT_CHANGE_CIPHER_SPEC, tls3_MT_FINISHED]
   \<and> \<not> server_accepts False False (sample_tls 0x0303 True TLS_ST_SW_SRVR_DONE)
      [tls3_MT_CERTIFICATE, tls3_MT_CLIENT_KEY_EXCHANGE, tls3_MT_CHANGE_CIPHER_SPEC,
       tls3_MT_FINISHED]"
  by (simp add: server_accepts_client_flight sample_defs ex_bool_eq key_exch_flight_def
      change_tail_def)

section \<open>The client flight of TLS 1.3\<close>

lemma server13_accepts_vrfy:
  assumes "hs s = TLS_ST_SR_CERT_VRFY" and "tls_IS_TLS13 s"
  shows "server_accepts p n s ms \<longleftrightarrow>
    ms = [tls3_MT_FINISHED] \<and> session_peer s = p \<and> no_cert_verify (statem s) = n"
  using assms
    server_accepts_only [where s = s and u = "set_hand_state TLS_ST_SR_FINISHED s"
      and x = tls3_MT_FINISHED
      and L = "\<lambda>ns. ns = [] \<and> session_peer s = p \<and> no_cert_verify (statem s) = n"]
  by (simp add: server_read_defs server_accepts_finished server_frame)

lemma server13_accepts_cert:
  assumes "hs s = TLS_ST_SR_CERT" and "tls_IS_TLS13 s"
  shows "server_accepts p n s ms \<longleftrightarrow>
    ms = opt_msg p tls3_MT_CERTIFICATE_VERIFY @ [tls3_MT_FINISHED]
    \<and> session_peer s = p \<and> no_cert_verify (statem s) = n"
proof (cases "session_peer s")
  case True
  with assms show ?thesis
    using server_accepts_only [where s = s and u = "set_hand_state TLS_ST_SR_CERT_VRFY s"
        and x = tls3_MT_CERTIFICATE_VERIFY and L = "\<lambda>ns. ns = [tls3_MT_FINISHED]
          \<and> session_peer s = p \<and> no_cert_verify (statem s) = n"]
    by (auto simp: server_read_defs server13_accepts_vrfy server_frame opt_msg_def)
next
  case False
  with assms show ?thesis
    using server_accepts_only [where s = s and u = "set_hand_state TLS_ST_SR_FINISHED s"
        and x = tls3_MT_FINISHED
        and L = "\<lambda>ns. ns = [] \<and> session_peer s = p \<and> no_cert_verify (statem s) = n"]
    by (auto simp: server_read_defs server_accepts_finished server_frame opt_msg_def)
qed

definition auth13_flight :: "bool \<Rightarrow> tls \<Rightarrow> int list" where
  "auth13_flight p s =
     (if cert_request s then tls3_MT_CERTIFICATE # opt_msg p tls3_MT_CERTIFICATE_VERIFY else [])
     @ [tls3_MT_FINISHED]"

lemma server13_accepts_after_finished:
  assumes "\<And>m. otls_statem_server13_read_transition s m = server13_read_after_finished s m"
    and "hs s \<noteq> TLS_ST_SR_FINISHED" and "tls_IS_TLS13 s"
  shows "server_accepts p n s ms \<longleftrightarrow> ms = auth13_flight p s
    \<and> (\<not> cert_request s \<longrightarrow> session_peer s = p) \<and> no_cert_verify (statem s) = n"
proof (cases "cert_request s")
  case True
  let ?u = "set_hand_state TLS_ST_SR_CERT s"
  have tr: "otls_statem_server_read_transition s m = (True, w) \<longleftrightarrow>
      m = tls3_MT_CERTIFICATE \<and> w = ?u" for m w
    using assms(1,3) True
    by (auto simp: otls_statem_server_read_transition_def server13_read_after_finished_def)
  have "server_accepts p n v ns \<longleftrightarrow> ns = opt_msg p tls3_MT_CERTIFICATE_VERIFY @ [tls3_MT_FINISHED]
      \<and> no_cert_verify (statem s) = n \<and> session_peer v = p" if "server_keeps ?u v" for v ns
    using that assms(3) by (auto simp: server13_accepts_cert server_frame)
  then have "(\<exists>v. server_keeps ?u v \<and> server_accepts p n v ns) \<longleftrightarrow>
      ns = opt_msg p tls3_MT_CERTIFICATE_VERIFY @ [tls3_MT_FINISHED]
      \<and> no_cert_verify (statem s) = n" for ns
    using ex_keeps_cert [of ?u p] by (metis hs_set_hand_state)
  moreover have "server_accepts p n s (m # ns) \<longleftrightarrow>
      m = tls3_MT_CERTIFICATE \<and> (\<exists>v. server_keeps ?u v \<and> server_accepts p n v ns)" for m ns
    using tr by (simp add: server_accepts_def accepts_Cons)
  moreover have "\<not> server_accepts p n s []"
    using assms(2) by (simp add: server_accepts_def)
  ultimately show ?thesis
    using True by (cases ms) (auto simp: auth13_flight_def)
next
  case False
  with assms show ?thesis
    using server_accepts_only [where s = s and u = "set_hand_state TLS_ST_SR_FINISHED s"
        and x = tls3_MT_FINISHED
        and L = "\<lambda>ns. ns = [] \<and> session_peer s = p \<and> no_cert_verify (statem s) = n"]
    by (auto simp: otls_statem_server_read_transition_def server13_read_after_finished_def
        server_accepts_finished server_frame auth13_flight_def)
qed

lemma server13_client_flight_iff:
  assumes "hs s = TLS_ST_EARLY_DATA" and "tls_IS_TLS13 s"
    and "hello_retry_request s \<noteq> tls_HRR_PENDING"
  shows "server_accepts p n s ms \<longleftrightarrow>
    ms = opt_msg (ext_early_data s = tls_EARLY_DATA_ACCEPTED) tls3_MT_END_OF_EARLY_DATA
         @ auth13_flight p s
    \<and> (\<not> cert_request s \<longrightarrow> session_peer s = p) \<and> no_cert_verify (statem s) = n"
proof (cases "ext_early_data s = tls_EARLY_DATA_ACCEPTED")
  case True
  let ?u = "set_hand_state TLS_ST_SR_END_OF_EARLY_DATA s"
  have "server_accepts p n v ns \<longleftrightarrow> ns = auth13_flight p s
      \<and> (\<not> cert_request s \<longrightarrow> session_peer s = p) \<and> no_cert_verify (statem s) = n"
    if "server_keeps ?u v" for v ns
    using server13_accepts_after_finished [of v p n ns] that assms(2)
    by (simp add: otls_statem_server13_read_transition_def server_frame auth13_flight_def)
  with True assms show ?thesis
    using server_accepts_only [where s = s and u = ?u and x = tls3_MT_END_OF_EARLY_DATA
        and L = "\<lambda>ns. ns = auth13_flight p s
          \<and> (\<not> cert_request s \<longrightarrow> session_peer s = p) \<and> no_cert_verify (statem s) = n"]
    by (auto simp: server_read_defs opt_msg_def)
next
  case False
  with assms show ?thesis
    using server13_accepts_after_finished [of s p n ms]
    by (simp add: otls_statem_server13_read_transition_def opt_msg_def)
qed

text \<open>
  C18: in TLS 1.3, once the server's own flight is out and no HelloRetryRequest is pending, the
  messages that take it to the client's Finished are exactly EndOfEarlyData if and only if early
  data was accepted, then, if and only if a certificate was requested, Certificate and (when the
  certificate list was not empty) CertificateVerify, and then Finished.
\<close>

theorem server13_accepts_client_flight:
  assumes "hs s = TLS_ST_EARLY_DATA" and "tls_IS_TLS13 s"
    and "hello_retry_request s \<noteq> tls_HRR_PENDING"
  shows "server_accepts p n s ms \<longleftrightarrow>
    ms = opt_msg (ext_early_data s = tls_EARLY_DATA_ACCEPTED) tls3_MT_END_OF_EARLY_DATA
         @ auth13_flight p s
    \<and> (\<not> cert_request s \<longrightarrow> session_peer s = p) \<and> no_cert_verify (statem s) = n"
  using assms by (rule server13_client_flight_iff)

theorem server13_accepts_client_flight_witness:
  "server_accepts False False (sample_tls 0x0304 True TLS_ST_EARLY_DATA) [tls3_MT_FINISHED]"
  by (simp add: server13_accepts_client_flight sample_defs auth13_flight_def)

section \<open>The flights the server writes\<close>

text \<open>
  What the write transitions of one flight depend on, and what constructing and sending the
  messages of the flight does to it: nothing, but that \<open>tls_construct_certificate_request\<close> counts
  the CertificateRequest in \<open>certreqs_sent\<close>.
\<close>

definition server_wparams ::
  "tls \<Rightarrow> (int \<times> int \<times> bool) \<times> (bool \<times> bool \<times> bool \<times> bool) \<times> (tls_cipher \<times> u32)
     \<times> tls_PHA_STATE \<times> u32 \<times> tls_HRR_STATE"
where
  "server_wparams s = ((version s, method_version s, method_is_dtls s),
     (hit s, ext_ticket_expected s, ext_status_expected s, psk_identity_hint s),
     (new_cipher s, verify_mode s), post_handshake_auth s, options s,
     hello_retry_request s)"

definition server_wkeeps :: "tls \<Rightarrow> tls \<Rightarrow> bool" where
  "server_wkeeps s t \<longleftrightarrow> hs t = hs s \<and> server_wparams t = server_wparams s
     \<and> certreqs_sent t = certreqs_sent s + (if hs s = TLS_ST_SW_CERT_REQ then 1 else 0)"

lemma ex_server_wkeeps: "\<exists>t. server_wkeeps s t"
  by (intro exI [of _ "s\<lparr>certreqs_sent :=
      certreqs_sent s + (if hs s = TLS_ST_SW_CERT_REQ then 1 else 0)\<rparr>"])
    (simp add: server_wkeeps_def server_wparams_def)

definition server_msg :: "tls \<Rightarrow> int option" where
  "server_msg s = map_option snd (fst (otls_statem_server_construct_message s))"

interpretation swr: message_writer "otls_statem_server_write_transition e" server_msg server_wkeeps
  for e
  by unfold_locales (rule ex_server_wkeeps)

abbreviation server_sends ::
  "hs_env \<Rightarrow> Otls_HANDSHAKE_STATE \<Rightarrow> tls \<Rightarrow> int list \<Rightarrow> bool" where
  "server_sends e h \<equiv>
     sends (otls_statem_server_write_transition e) server_msg server_wkeeps (\<lambda>t. hs t = h)"

lemma server_wkeeps_params:
  assumes "server_wkeeps s t"
  shows "hs t = hs s" "tls_IS_TLS13 t = tls_IS_TLS13 s" "new_cipher t = new_cipher s"
    "send_server_key_exchange t = send_server_key_exchange s"
    "hs s \<noteq> TLS_ST_SW_CERT_REQ \<Longrightarrow> send_certificate_request t = send_certificate_request s"
    "ext_status_expected t = ext_status_expected s" "hit t = hit s"
    "post_handshake_auth t = post_handshake_auth s" "options t = options s"
    "hello_retry_request t = hello_retry_request s"
  using assms
  by (simp_all add: server_wkeeps_def server_wparams_def tls_IS_TLS13_def tls_IS_DTLS_def
      send_server_key_exchange_def send_certificate_request_def)

lemma set_hand_state_server_tests [simp, hs_simps]:
  "send_server_key_exchange (set_hand_state h s) = send_server_key_exchange s"
  "send_certificate_request (set_hand_state h s) = send_certificate_request s"
  by (simp_all add: send_server_key_exchange_def send_certificate_request_def)

lemmas server_write_defs = otls_statem_server_write_transition_def server_write_cert_status_def
  server_write_key_exch_def server_msg_def otls_statem_server_construct_message_def

lemma server_sends_done:
  assumes "hs s = TLS_ST_SW_SRVR_DONE" and "\<not> tls_IS_TLS13 s"
  shows "server_sends e TLS_ST_SW_SRVR_DONE s ms \<longleftrightarrow> ms = []"
  using swr.sends_finished [of e s s] assms by (simp add: server_write_defs)

lemma server_sends_cert_req:
  assumes "hs s = TLS_ST_SW_CERT_REQ" and "\<not> tls_IS_TLS13 s"
  shows "server_sends e TLS_ST_SW_SRVR_DONE s ms \<longleftrightarrow> ms = [tls3_MT_SERVER_DONE]"
  by (rule swr.sends_continue [where u = "set_hand_state TLS_ST_SW_SRVR_DONE s"])
    (use assms in \<open>simp_all add: server_write_defs server_sends_done server_wkeeps_params\<close>)

lemma server_sends_key_exch:
  assumes "hs s = TLS_ST_SW_KEY_EXCH" and "\<not> tls_IS_TLS13 s"
  shows "server_sends e TLS_ST_SW_SRVR_DONE s ms \<longleftrightarrow>
    ms = opt_msg (send_certificate_request s) tls3_MT_CERTIFICATE_REQUEST @ [tls3_MT_SERVER_DONE]"
proof (cases "send_certificate_request s")
  case True
  then show ?thesis
    using swr.sends_continue [where e = e and s = s and L = "[tls3_MT_SERVER_DONE]"
        and u = "set_hand_state TLS_ST_SW_CERT_REQ s"] assms
    by (simp add: server_write_defs server_sends_cert_req server_wkeeps_params opt_msg_def)
next
  case False
  then show ?thesis
    using swr.sends_continue [where e = e and s = s and L = "[]"
        and u = "set_hand_state TLS_ST_SW_SRVR_DONE s"] assms
    by (simp add: server_write_defs server_sends_done server_wkeeps_params opt_msg_def)
qed

definition key_exch_part :: "tls \<Rightarrow> int list" where
  "key_exch_part s = opt_msg (send_server_key_exchange s) tls3_MT_SERVER_KEY_EXCHANGE
     @ opt_msg (send_certificate_request s) tls3_MT_CERTIFICATE_REQUEST @ [tls3_MT_SERVER_DONE]"

lemma server_sends_cert_status:
  assumes "otls_statem_server_write_transition e s = server_write_cert_status s"
    and "\<not> tls_IS_TLS13 s"
  shows "server_sends e TLS_ST_SW_SRVR_DONE s ms \<longleftrightarrow> ms = key_exch_part s"
proof -
  consider "send_server_key_exchange s"
    | "\<not> send_server_key_exchange s" "send_certificate_request s"
    | "\<not> send_server_key_exchange s" "\<not> send_certificate_request s" by blast
  then show ?thesis
  proof cases
    case 1
    then show ?thesis
      using swr.sends_continue [where e = e and s = s
          and L = "opt_msg (send_certificate_request s) tls3_MT_CERTIFICATE_REQUEST
            @ [tls3_MT_SERVER_DONE]" and u = "set_hand_state TLS_ST_SW_KEY_EXCH s"] assms
      by (simp add: server_msg_def otls_statem_server_construct_message_def
          server_write_cert_status_def server_sends_key_exch server_wkeeps_params opt_msg_def
          key_exch_part_def)
  next
    case 2
    then show ?thesis
      using swr.sends_continue [where e = e and s = s and L = "[tls3_MT_SERVER_DONE]"
          and u = "set_hand_state TLS_ST_SW_CERT_REQ s"] assms
      by (simp add: server_msg_def otls_statem_server_construct_message_def
          server_write_cert_status_def server_write_key_exch_def server_sends_cert_req
          server_wkeeps_params opt_msg_def key_exch_part_def)
  next
    case 3
    then show ?thesis
      using swr.sends_continue [where e = e and s = s and L = "[]"
          and u = "set_hand_state TLS_ST_SW_SRVR_DONE s"] assms
      by (simp add: server_msg_def otls_statem_server_construct_message_def
          server_write_cert_status_def server_write_key_exch_def server_sends_done
          server_wkeeps_params opt_msg_def key_exch_part_def)
  qed
qed

lemma key_exch_part_keeps:
  "server_wkeeps s t \<Longrightarrow> hs s \<noteq> TLS_ST_SW_CERT_REQ \<Longrightarrow> key_exch_part t = key_exch_part s"
  "key_exch_part (set_hand_state h s) = key_exch_part s"
  by (simp_all add: key_exch_part_def server_wkeeps_params)

lemma server_sends_cert:
  assumes "hs s = TLS_ST_SW_CERT" and "\<not> tls_IS_TLS13 s"
  shows "server_sends e TLS_ST_SW_SRVR_DONE s ms \<longleftrightarrow>
    ms = opt_msg (ext_status_expected s) tls3_MT_CERTIFICATE_STATUS @ key_exch_part s"
proof (cases "ext_status_expected s")
  case True
  have "server_sends e TLS_ST_SW_SRVR_DONE v ns \<longleftrightarrow> ns = key_exch_part s"
    if "server_wkeeps (set_hand_state TLS_ST_SW_CERT_STATUS s) v" for v ns
    using server_sends_cert_status [of e v ns] that assms(2)
    by (simp add: otls_statem_server_write_transition_def server_wkeeps_params key_exch_part_keeps)
  with True assms show ?thesis
    using swr.sends_continue [where e = e and s = s and L = "key_exch_part s"
        and u = "set_hand_state TLS_ST_SW_CERT_STATUS s"]
    by (simp add: server_write_defs opt_msg_def)
next
  case False
  with assms show ?thesis
    using server_sends_cert_status [of e s ms]
    by (simp add: otls_statem_server_write_transition_def opt_msg_def)
qed

definition server_flight :: "tls \<Rightarrow> int list" where
  "server_flight s =
     (if algorithm_auth (new_cipher s) AND (tls_aNULL OR tls_aSRP OR tls_aPSK) = 0
      then tls3_MT_CERTIFICATE
           # opt_msg (ext_status_expected s) tls3_MT_CERTIFICATE_STATUS else [])
     @ key_exch_part s"

lemma server_flight_iff:
  assumes "hs s = TLS_ST_SW_SRVR_HELLO" and "\<not> tls_IS_TLS13 s" and "\<not> hit s"
  shows "server_sends e TLS_ST_SW_SRVR_DONE s ms \<longleftrightarrow> ms = server_flight s"
proof (cases "algorithm_auth (new_cipher s) AND (tls_aNULL OR tls_aSRP OR tls_aPSK) = 0")
  case True
  have "server_sends e TLS_ST_SW_SRVR_DONE v ns \<longleftrightarrow>
      ns = opt_msg (ext_status_expected s) tls3_MT_CERTIFICATE_STATUS @ key_exch_part s"
    if "server_wkeeps (set_hand_state TLS_ST_SW_CERT s) v" for v ns
    using that assms(2) by (simp add: server_sends_cert server_wkeeps_params key_exch_part_keeps)
  with True assms show ?thesis
    using swr.sends_continue [where e = e and s = s
        and L = "opt_msg (ext_status_expected s) tls3_MT_CERTIFICATE_STATUS @ key_exch_part s"
        and u = "set_hand_state TLS_ST_SW_CERT s"]
    by (simp add: server_write_defs server_flight_def)
next
  case False
  then have "otls_statem_server_write_transition e s = server_write_cert_status s"
    using assms by (simp add: otls_statem_server_write_transition_def server_write_cert_status_def
        server_write_key_exch_def)
  from server_sends_cert_status [OF this assms(2)] show ?thesis
    using False by (simp add: server_flight_def)
qed

text \<open>
  C23: below TLS 1.3, in a full handshake, the server that has sent its ServerHello writes one
  determined flight and stops to read after ServerHelloDone: Certificate (with CertificateStatus
  if announced) exactly for the suites authenticated by certificate, then ServerKeyExchange and
  CertificateRequest exactly as \<open>send_server_key_exchange\<close> and \<open>send_certificate_request\<close>
  decide. The flight ends: the write loop reaches WRITE_TRAN_FINISHED. A CertificateRequest in the
  flight counts in \<open>certreqs_sent\<close>, and is not sent twice.
\<close>

theorem server_sends_server_flight:
  assumes "hs s = TLS_ST_SW_SRVR_HELLO" and "\<not> tls_IS_TLS13 s" and "\<not> hit s"
  shows "server_sends e TLS_ST_SW_SRVR_DONE s ms \<longleftrightarrow> ms = server_flight s"
  using assms by (rule server_flight_iff)

theorem server_sends_server_flight_witness:
  "server_sends sample_env TLS_ST_SW_SRVR_DONE
     ((sample_tls 0x0303 True TLS_ST_SW_SRVR_HELLO)\<lparr>verify_mode := tls_VERIFY_PEER\<rparr>)
      [tls3_MT_CERTIFICATE, tls3_MT_SERVER_KEY_EXCHANGE, tls3_MT_CERTIFICATE_REQUEST,
       tls3_MT_SERVER_DONE]"
  by (simp add: server_sends_server_flight sample_defs server_flight_def key_exch_part_def
      send_server_key_exchange_def send_certificate_request_def)

section \<open>The server flight of TLS 1.3\<close>

lemmas server13_write_defs = otls_statem_server_write_transition_def
  otls_statem_server13_write_transition_def server_msg_def otls_statem_server_construct_message_def

lemma server13_sends_early:
  assumes "hs s = TLS_ST_EARLY_DATA" and "tls_IS_TLS13 s"
  shows "server_sends e TLS_ST_EARLY_DATA s ms \<longleftrightarrow> ms = []"
  using swr.sends_finished [of e s s] assms by (simp add: server13_write_defs)

lemma server13_sends_finished:
  assumes "hs s = TLS_ST_SW_FINISHED" and "tls_IS_TLS13 s"
  shows "server_sends e TLS_ST_EARLY_DATA s ms \<longleftrightarrow> ms = [tls3_MT_DUMMY]"
  by (rule swr.sends_continue [where u = "set_hand_state TLS_ST_EARLY_DATA s"])
    (use assms in \<open>simp_all add: server13_write_defs server13_sends_early server_wkeeps_params\<close>)

lemma server13_sends_vrfy:
  assumes "hs s = TLS_ST_SW_CERT_VRFY" and "tls_IS_TLS13 s"
  shows "server_sends e TLS_ST_EARLY_DATA s ms \<longleftrightarrow> ms = [tls3_MT_FINISHED, tls3_MT_DUMMY]"
  by (rule swr.sends_continue [where u = "set_hand_state TLS_ST_SW_FINISHED s"])
    (use assms in \<open>simp_all add: server13_write_defs server13_sends_finished server_wkeeps_params\<close>)

lemma server13_sends_cert:
  assumes "hs s = TLS_ST_SW_CERT" and "tls_IS_TLS13 s"
  shows "server_sends e TLS_ST_EARLY_DATA s ms \<longleftrightarrow>
    ms = [tls3_MT_CERTIFICATE_VERIFY, tls3_MT_FINISHED, tls3_MT_DUMMY]"
  by (rule swr.sends_continue [where u = "set_hand_state TLS_ST_SW_CERT_VRFY s"])
    (use assms in \<open>simp_all add: server13_write_defs server13_sends_vrfy server_wkeeps_params\<close>)

lemma server13_sends_cert_req:
  assumes "hs s = TLS_ST_SW_CERT_REQ" and "tls_IS_TLS13 s"
    and "post_handshake_auth s \<noteq> tls_PHA_REQUEST_PENDING"
  shows "server_sends e TLS_ST_EARLY_DATA s ms \<longleftrightarrow>
    ms = [tls3_MT_CERTIFICATE, tls3_MT_CERTIFICATE_VERIFY, tls3_MT_FINISHED, tls3_MT_DUMMY]"
  by (rule swr.sends_continue [where u = "set_hand_state TLS_ST_SW_CERT s"])
    (use assms in \<open>simp_all add: server13_write_defs server13_sends_cert server_wkeeps_params\<close>)

definition auth13_part :: "tls \<Rightarrow> int list" where
  "auth13_part s =
     (if hit s then [] else
        opt_msg (send_certificate_request s) tls3_MT_CERTIFICATE_REQUEST
        @ [tls3_MT_CERTIFICATE, tls3_MT_CERTIFICATE_VERIFY])
     @ [tls3_MT_FINISHED, tls3_MT_DUMMY]"

lemma server13_sends_ee:
  assumes "hs s = TLS_ST_SW_ENCRYPTED_EXTENSIONS" and "tls_IS_TLS13 s"
    and "post_handshake_auth s \<noteq> tls_PHA_REQUEST_PENDING"
  shows "server_sends e TLS_ST_EARLY_DATA s ms \<longleftrightarrow> ms = auth13_part s"
proof -
  let ?h = "if hit s then TLS_ST_SW_FINISHED
            else if send_certificate_request s then TLS_ST_SW_CERT_REQ else TLS_ST_SW_CERT"
  have "server_sends e TLS_ST_EARLY_DATA v ns \<longleftrightarrow> ns = tl (auth13_part s)"
    if "server_wkeeps (set_hand_state ?h s) v" for v ns
    using that assms(2,3)
    by (simp add: auth13_part_def opt_msg_def server13_sends_finished server13_sends_cert_req
        server13_sends_cert server_wkeeps_params split: if_splits)
  moreover have "auth13_part s = hd (auth13_part s) # tl (auth13_part s)"
    by (simp add: auth13_part_def)
  moreover have "server_msg (set_hand_state ?h s) = Some (hd (auth13_part s))"
    by (simp add: server13_write_defs auth13_part_def opt_msg_def)
  ultimately show ?thesis
    using swr.sends_continue [where e = e and s = s and L = "tl (auth13_part s)"
        and u = "set_hand_state ?h s" and m = "hd (auth13_part s)"] assms(1,2)
    by (simp add: otls_statem_server_write_transition_def
        otls_statem_server13_write_transition_def)
qed

lemma auth13_part_keeps:
  "server_wkeeps s t \<Longrightarrow> hs s \<noteq> TLS_ST_SW_CERT_REQ \<Longrightarrow> auth13_part t = auth13_part s"
  "auth13_part (set_hand_state h s) = auth13_part s"
  by (simp_all add: auth13_part_def server_wkeeps_params)

lemma server13_sends_to_ee:
  assumes "otls_statem_server_write_transition e s
      = (WRITE_TRAN_CONTINUE, set_hand_state TLS_ST_SW_ENCRYPTED_EXTENSIONS s)"
    and "tls_IS_TLS13 s" and "post_handshake_auth s \<noteq> tls_PHA_REQUEST_PENDING"
  shows "server_sends e TLS_ST_EARLY_DATA s ms \<longleftrightarrow>
    ms = tls3_MT_ENCRYPTED_EXTENSIONS # auth13_part s"
  by (rule swr.sends_continue [OF assms(1)])
    (use assms(2,3) in \<open>simp_all add: server_msg_def otls_statem_server_construct_message_def server13_sends_ee
      server_wkeeps_params auth13_part_keeps\<close>)

definition server13_flight :: "tls \<Rightarrow> int list" where
  "server13_flight s =
     opt_msg (options s AND tls_OP_ENABLE_MIDDLEBOX_COMPAT \<noteq> 0
              \<and> hello_retry_request s \<noteq> tls_HRR_COMPLETE) tls3_MT_CHANGE_CIPHER_SPEC
     @ tls3_MT_ENCRYPTED_EXTENSIONS # auth13_part s"

lemma server13_flight_iff:
  assumes "hs s = TLS_ST_SW_SRVR_HELLO" and "tls_IS_TLS13 s"
    and "hello_retry_request s \<noteq> tls_HRR_PENDING"
    and "post_handshake_auth s \<noteq> tls_PHA_REQUEST_PENDING"
  shows "server_sends e TLS_ST_EARLY_DATA s ms \<longleftrightarrow> ms = server13_flight s"
proof (cases "options s AND tls_OP_ENABLE_MIDDLEBOX_COMPAT \<noteq> 0
    \<and> hello_retry_request s \<noteq> tls_HRR_COMPLETE")
  case True
  have "server_sends e TLS_ST_EARLY_DATA v ns \<longleftrightarrow>
      ns = tls3_MT_ENCRYPTED_EXTENSIONS # auth13_part s"
    if "server_wkeeps (set_hand_state TLS_ST_SW_CHANGE s) v" for v ns
    using server13_sends_to_ee [of e v ns] that assms(2-4)
    by (simp add: server13_write_defs server_wkeeps_params auth13_part_keeps)
  with True assms show ?thesis
    using swr.sends_continue [where e = e and s = s
        and L = "tls3_MT_ENCRYPTED_EXTENSIONS # auth13_part s"
        and u = "set_hand_state TLS_ST_SW_CHANGE s"]
    by (simp add: server13_write_defs server13_flight_def opt_msg_def)
next
  case False
  then have "otls_statem_server_write_transition e s
      = (WRITE_TRAN_CONTINUE, set_hand_state TLS_ST_SW_ENCRYPTED_EXTENSIONS s)"
    using assms by (auto simp: server13_write_defs)
  from server13_sends_to_ee [OF this] assms False show ?thesis
    by (auto simp: server13_flight_def opt_msg_def)
qed

text \<open>
  In TLS 1.3 the server that has sent a ServerHello which is not a HelloRetryRequest writes one
  determined flight and stops to read: the middlebox-compatibility ChangeCipherSpec if it was not
  sent before, EncryptedExtensions, the certificate messages unless the session is resumed,
  Finished, and the dummy step into the early data state.
\<close>

theorem server13_sends_server_flight:
  assumes "hs s = TLS_ST_SW_SRVR_HELLO" and "tls_IS_TLS13 s"
    and "hello_retry_request s \<noteq> tls_HRR_PENDING"
    and "post_handshake_auth s \<noteq> tls_PHA_REQUEST_PENDING"
  shows "server_sends e TLS_ST_EARLY_DATA s ms \<longleftrightarrow> ms = server13_flight s"
  using assms by (rule server13_flight_iff)

theorem server13_sends_server_flight_witness:
  "server_sends sample_env TLS_ST_EARLY_DATA (sample_tls 0x0304 True TLS_ST_SW_SRVR_HELLO)
      [tls3_MT_ENCRYPTED_EXTENSIONS, tls3_MT_CERTIFICATE, tls3_MT_CERTIFICATE_VERIFY,
       tls3_MT_FINISHED, tls3_MT_DUMMY]"
  by (simp add: server13_sends_server_flight sample_defs server13_flight_def auth13_part_def
      send_certificate_request_def)

section \<open>The server's last flight below TLS 1.3\<close>

definition server_change_part :: "int list" where
  "server_change_part = [tls3_MT_CHANGE_CIPHER_SPEC, tls3_MT_FINISHED]"

lemma server_sends_finished:
  assumes "hs s = TLS_ST_SW_FINISHED" and "\<not> tls_IS_TLS13 s" and "\<not> hit s"
  shows "server_sends e TLS_ST_OK s ms \<longleftrightarrow> ms = []"
  using swr.sends_end [of e s "set_hand_state TLS_ST_OK s"] assms
  by (simp add: server_write_defs)

lemma server_sends_change:
  assumes "hs s = TLS_ST_SW_CHANGE" and "\<not> tls_IS_TLS13 s" and "\<not> hit s"
  shows "server_sends e TLS_ST_OK s ms \<longleftrightarrow> ms = [tls3_MT_FINISHED]"
  by (rule swr.sends_continue [where u = "set_hand_state TLS_ST_SW_FINISHED s"])
    (use assms in \<open>simp_all add: server_write_defs server_sends_finished server_wkeeps_params\<close>)

lemma server_sends_ticket:
  assumes "hs s = TLS_ST_SW_SESSION_TICKET" and "\<not> tls_IS_TLS13 s" and "\<not> hit s"
  shows "server_sends e TLS_ST_OK s ms \<longleftrightarrow> ms = server_change_part"
  unfolding server_change_part_def
  by (rule swr.sends_continue [where u = "set_hand_state TLS_ST_SW_CHANGE s"])
    (use assms in \<open>simp_all add: server_write_defs server_sends_change server_wkeeps_params\<close>)

lemma server_finish_flight_iff:
  assumes "hs s = TLS_ST_SR_FINISHED" and "\<not> tls_IS_TLS13 s" and "\<not> hit s"
  shows "server_sends e TLS_ST_OK s ms \<longleftrightarrow>
    ms = opt_msg (ext_ticket_expected s) tls3_MT_NEWSESSION_TICKET @ server_change_part"
proof (cases "ext_ticket_expected s")
  case True
  with assms show ?thesis
    using swr.sends_continue [where e = e and s = s and L = server_change_part
        and u = "set_hand_state TLS_ST_SW_SESSION_TICKET s"]
    by (simp add: server_write_defs server_sends_ticket server_wkeeps_params opt_msg_def)
next
  case False
  with assms show ?thesis
    using swr.sends_continue [where e = e and s = s and L = "[tls3_MT_FINISHED]"
        and u = "set_hand_state TLS_ST_SW_CHANGE s"]
    by (simp add: server_write_defs server_sends_change server_wkeeps_params opt_msg_def
        server_change_part_def)
qed

end
