(* ===== verification/Handshake_Duplex.thy ===== *)
theory Handshake_Duplex
  imports Statem_Clnt Statem_Srvr
begin

text \<open>
  The two state machines against each other: which of the flights that one side writes the other
  side accepts, when both have negotiated the same parameters. The flights are those of the
  preceding theories; nothing here looks at the transition functions again.
\<close>

section \<open>Agreement of the two sides\<close>

text \<open>After ServerHello both sides know the version, the cipher suite and the status extension.\<close>

definition negotiated :: "tls \<Rightarrow> tls \<Rightarrow> bool" where
  "negotiated c s \<longleftrightarrow> version c = version s \<and> new_cipher c = new_cipher s
     \<and> ext_status_expected c = ext_status_expected s \<and> hit c = hit s"

text \<open>
  In TLS 1.3 a ChangeCipherSpec is sent for middleboxes only and dropped by the reader, and the
  dummy message stands for a step without a message.
\<close>

definition wire13 :: "int list \<Rightarrow> int list" where
  "wire13 ms = filter (\<lambda>m. m \<noteq> tls3_MT_CHANGE_CIPHER_SPEC \<and> m \<noteq> tls3_MT_DUMMY) ms"

lemma wire13_append [simp]: "wire13 (xs @ ys) = wire13 xs @ wire13 ys"
  by (simp add: wire13_def)

lemma wire13_opt [simp]:
  "wire13 (opt_msg b m) =
     opt_msg (b \<and> m \<noteq> tls3_MT_CHANGE_CIPHER_SPEC \<and> m \<noteq> tls3_MT_DUMMY) m"
  by (simp add: wire13_def opt_msg_def)

lemma wire13_Cons [simp]:
  "wire13 (m # ms) =
     (if m \<noteq> tls3_MT_CHANGE_CIPHER_SPEC \<and> m \<noteq> tls3_MT_DUMMY then m # wire13 ms else wire13 ms)"
  "wire13 [] = []"
  by (simp_all add: wire13_def)

section \<open>Below TLS 1.3\<close>

lemma psk_ephemeral: "(w :: u32) AND (tls_PSK AND (tls_kDHEPSK OR tls_kECDHEPSK)) \<noteq> 0 \<longleftrightarrow>
    w AND tls_kDHEPSK \<noteq> 0 \<or> w AND tls_kECDHEPSK \<noteq> 0"
proof -
  have "tls_PSK AND (tls_kDHEPSK OR tls_kECDHEPSK) = tls_kDHEPSK OR tls_kECDHEPSK"
    by simp
  then show ?thesis
    by (simp only: and_or_nonzero)
qed

lemma send_ske_allowed:
  assumes "send_server_key_exchange s"
  shows "algorithm_mkey (new_cipher s) AND
    (tls_kDHE OR tls_kECDHE OR tls_kDHEPSK OR tls_kECDHEPSK OR tls_kSRP OR tls_PSK) \<noteq> 0"
  using assms unfolding send_server_key_exchange_def Let_def psk_ephemeral and_or_nonzero
  by argo

lemma send_ske_required:
  assumes "algorithm_mkey (new_cipher s) AND
    (tls_kDHE OR tls_kECDHE OR tls_kDHEPSK OR tls_kECDHEPSK OR tls_kSRP) \<noteq> 0"
  shows "send_server_key_exchange s"
  using assms unfolding send_server_key_exchange_def Let_def psk_ephemeral and_or_nonzero
  by argo

lemma send_creq_auth:
  assumes "send_certificate_request s"
  shows "algorithm_auth (new_cipher s) AND (tls_aSRP OR tls_aPSK) = 0"
proof -
  have "algorithm_auth (new_cipher s) AND tls_aSRP = 0" "algorithm_auth (new_cipher s) AND tls_aPSK = 0"
    using assms unfolding send_certificate_request_def by metis+
  then show ?thesis
    by (metis and_or_nonzero)
qed

text \<open>The server's flight is one of the specification, up to the anonymous suites.\<close>

lemma server_flight_meets_spec:
  "server_flight_spec (version s) (new_cipher s) (ext_status_expected s) (server_flight s) \<longleftrightarrow>
     \<not> (send_certificate_request s \<and> version s > tls3_VERSION
        \<and> algorithm_auth (new_cipher s) AND tls_aNULL \<noteq> 0)"
proof -
  let ?c = "new_cipher s"
  let ?cert = "algorithm_auth ?c AND (tls_aNULL OR tls_aSRP OR tls_aPSK) = 0"
  have flight: "server_flight s = opt_msg ?cert tls3_MT_CERTIFICATE
      @ opt_msg (?cert \<and> ext_status_expected s) tls3_MT_CERTIFICATE_STATUS
      @ opt_msg (send_server_key_exchange s) tls3_MT_SERVER_KEY_EXCHANGE
      @ opt_msg (send_certificate_request s) tls3_MT_CERTIFICATE_REQUEST @ [tls3_MT_SERVER_DONE]"
    by (simp add: server_flight_def key_exch_part_def opt_msg_def)
  have inj: "opt_msg c1 tls3_MT_CERTIFICATE @ opt_msg t1 tls3_MT_CERTIFICATE_STATUS
        @ opt_msg k1 tls3_MT_SERVER_KEY_EXCHANGE
        @ opt_msg r1 tls3_MT_CERTIFICATE_REQUEST @ [tls3_MT_SERVER_DONE]
      = opt_msg c2 tls3_MT_CERTIFICATE @ opt_msg t2 tls3_MT_CERTIFICATE_STATUS
        @ opt_msg k2 tls3_MT_SERVER_KEY_EXCHANGE
        @ opt_msg r2 tls3_MT_CERTIFICATE_REQUEST @ [tls3_MT_SERVER_DONE]
      \<longleftrightarrow> c1 = c2 \<and> t1 = t2 \<and> k1 = k2 \<and> r1 = r2" for c1 t1 k1 r1 c2 t2 k2 r2
    by (auto simp: opt_msg_def)
  show ?thesis
    unfolding server_flight_spec_def flight inj
    using send_ske_allowed [of s] send_ske_required [of s] send_creq_auth [of s] by metis
qed

text \<open>
  C25: below TLS 1.3, in a full handshake between peers that negotiated the same parameters, the
  flight that the server writes after ServerHello is accepted by the client up to
  ServerHelloDone, with exactly one exception: a server that insists on a client certificate
  with an anonymous cipher suite sends a CertificateRequest, which clients above SSL 3.0 reject.
\<close>

theorem server_flight_interop:
  assumes "hs c = TLS_ST_CR_SRVR_HELLO" and "\<not> tls_IS_TLS13 c"
    and "hs s = TLS_ST_SW_SRVR_HELLO" and "\<not> tls_IS_TLS13 s"
    and "negotiated c s" and "\<not> hit s" and "server_sends e TLS_ST_SW_SRVR_DONE s ms"
  shows "client_accepts e' TLS_ST_CR_SRVR_DONE c ms \<longleftrightarrow>
    \<not> (send_certificate_request s \<and> version s > tls3_VERSION
       \<and> algorithm_auth (new_cipher s) AND tls_aNULL \<noteq> 0)"
proof -
  have "ms = server_flight s"
    using server_flight_iff [OF assms(3,4,6)] assms(7) by blast
  moreover have "client_accepts e' TLS_ST_CR_SRVR_DONE c ms \<longleftrightarrow>
      server_flight_spec (version s) (new_cipher s) (ext_status_expected s) ms"
    using client_server_flight_iff [OF assms(1,2)] assms(5,6) by (simp add: negotiated_def)
  ultimately show ?thesis
    using server_flight_meets_spec by simp
qed

theorem server_flight_interop_witness:
  "client_accepts sample_env TLS_ST_CR_SRVR_DONE (sample_tls 0x0303 False TLS_ST_CR_SRVR_HELLO)
     [tls3_MT_CERTIFICATE, tls3_MT_SERVER_KEY_EXCHANGE, tls3_MT_CERTIFICATE_REQUEST,
      tls3_MT_SERVER_DONE]"
proof -
  let ?s = "(sample_tls 0x0303 True TLS_ST_SW_SRVR_HELLO)\<lparr>verify_mode := tls_VERIFY_PEER\<rparr>"
  have "server_sends sample_env TLS_ST_SW_SRVR_DONE ?s [tls3_MT_CERTIFICATE,
      tls3_MT_SERVER_KEY_EXCHANGE, tls3_MT_CERTIFICATE_REQUEST, tls3_MT_SERVER_DONE]"
    by (simp add: server_flight_iff sample_defs server_flight_def key_exch_part_def
        send_server_key_exchange_def send_certificate_request_def)
  then show ?thesis
    using server_flight_interop [of "sample_tls 0x0303 False TLS_ST_CR_SRVR_HELLO" ?s sample_env _
        sample_env]
    by (simp add: sample_defs negotiated_def)
qed

text \<open>
  C26: below TLS 1.3, in a full handshake, when the client was asked for a certificate exactly if
  the server recorded the request and next protocol negotiation is agreed on, the one thing on
  which the server's acceptance of the client's flight still depends is what its processing
  of Certificate and ClientKeyExchange recorded. With a peer certificate recorded or not (\<open>p\<close>)
  and its verification waived or not (\<open>n\<close>), the server accepts the flight the client writes after
  ServerHelloDone up to Finished if and only if the client sends a CertificateVerify exactly when
  a certificate that needs it was recorded, and none is recorded if the client sent no
  Certificate at all.
\<close>

theorem client_flight_interop:
  assumes "hs c = TLS_ST_CR_SRVR_DONE" and "plain_handshake c"
    and "hs s = TLS_ST_SW_SRVR_DONE" and "\<not> tls_IS_TLS13 s"
    and "cert_request s \<longleftrightarrow> cert_req c \<noteq> 0" and "\<not> session_peer s"
    and "npn_seen s \<longleftrightarrow> \<not> tls_IS_DTLS c \<and> npn_seen c"
    and "client_sends e TLS_ST_CW_FINISHED c ms"
  shows "server_accepts p n s ms \<longleftrightarrow>
    (p \<and> \<not> n \<longleftrightarrow> sends_cert_verify c) \<and> (p \<longrightarrow> cert_req c \<noteq> 0)"
proof -
  have "ms = opt_msg (cert_req c \<noteq> 0) tls3_MT_CERTIFICATE @ tls3_MT_CLIENT_KEY_EXCHANGE
      # opt_msg (sends_cert_verify c) tls3_MT_CERTIFICATE_VERIFY @ change_tail s"
    using client_flight_iff [OF assms(1,2)] assms(7,8)
    by (simp add: client_flight_def client_change_part_def change_tail_def)
  moreover have "opt_msg a tls3_MT_CERTIFICATE @ tls3_MT_CLIENT_KEY_EXCHANGE
        # opt_msg v tls3_MT_CERTIFICATE_VERIFY @ change_tail s
      = opt_msg b tls3_MT_CERTIFICATE @ tls3_MT_CLIENT_KEY_EXCHANGE
        # opt_msg w tls3_MT_CERTIFICATE_VERIFY @ change_tail s \<longleftrightarrow> a = b \<and> v = w" for a b v w
    by (auto simp: opt_msg_def change_tail_def)
  ultimately show ?thesis
    unfolding server_client_flight_iff [OF assms(3,4)] key_exch_flight_def
    using assms(5,6) by auto
qed

theorem client_flight_interop_witness:
  "server_accepts True False ((sample_tls 0x0303 True TLS_ST_SW_SRVR_DONE)\<lparr>cert_request := True\<rparr>)
     (client_flight ((sample_tls 0x0303 False TLS_ST_CR_SRVR_DONE)\<lparr>cert_req := 1\<rparr>))
   \<and> \<not> server_accepts False False ((sample_tls 0x0303 True TLS_ST_SW_SRVR_DONE)\<lparr>cert_request := True\<rparr>)
     (client_flight ((sample_tls 0x0303 False TLS_ST_CR_SRVR_DONE)\<lparr>cert_req := 1\<rparr>))"
proof -
  let ?c = "(sample_tls 0x0303 False TLS_ST_CR_SRVR_DONE)\<lparr>cert_req := 1\<rparr>"
  let ?s = "(sample_tls 0x0303 True TLS_ST_SW_SRVR_DONE)\<lparr>cert_request := True\<rparr>"
  have "client_sends sample_env TLS_ST_CW_FINISHED ?c (client_flight ?c)"
    by (simp add: client_flight_iff sample_defs plain_handshake_def)
  from client_flight_interop [OF _ _ _ _ _ _ _ this, of ?s] show ?thesis
    by (simp add: sample_defs plain_handshake_def sends_cert_verify_def)
qed

text \<open>
  below TLS 1.3, in a full handshake, the server's last flight is accepted by the client when
  both agree on whether a ticket was announced; the server's flight ends in \<open>TLS_ST_OK\<close>.
\<close>

theorem finish_flight_interop:
  assumes "hs s = TLS_ST_SR_FINISHED" and "\<not> tls_IS_TLS13 s" and "\<not> hit s"
    and "hs c = TLS_ST_CW_FINISHED" and "\<not> tls_IS_TLS13 c"
    and "ext_ticket_expected c = ext_ticket_expected s"
  shows "server_sends e TLS_ST_OK s ms \<longleftrightarrow> client_accepts e' TLS_ST_CR_FINISHED c ms"
  using server_finish_flight_iff [OF assms(1-3)] client_finish_flight_iff [of c] assms(4-6)
  by (simp add: server_change_part_def)

theorem finish_flight_interop_witness:
  "server_sends sample_env TLS_ST_OK (sample_tls 0x0303 True TLS_ST_SR_FINISHED)
     [tls3_MT_CHANGE_CIPHER_SPEC, tls3_MT_FINISHED]"
  using finish_flight_interop [of "sample_tls 0x0303 True TLS_ST_SR_FINISHED"
      "sample_tls 0x0303 False TLS_ST_CW_FINISHED" sample_env
      "[tls3_MT_CHANGE_CIPHER_SPEC, tls3_MT_FINISHED]" sample_env]
  by (simp add: sample_defs client_finish_flight_iff)

section \<open>TLS 1.3\<close>

text \<open>
  In TLS 1.3 the flight the server writes after a ServerHello that is no HelloRetryRequest is
  accepted by the client up to Finished, when both agree on whether the session is resumed.
\<close>

theorem server13_flight_interop:
  assumes "hs s = TLS_ST_SW_SRVR_HELLO" and "tls_IS_TLS13 s"
    and "hello_retry_request s \<noteq> tls_HRR_PENDING"
    and "post_handshake_auth s \<noteq> tls_PHA_REQUEST_PENDING"
    and "hs c = TLS_ST_CR_SRVR_HELLO" and "tls_IS_TLS13 c" and "hit c = hit s"
    and "server_sends e TLS_ST_EARLY_DATA s ms"
  shows "client_accepts e' TLS_ST_CR_FINISHED c (wire13 ms)"
proof -
  have "ms = server13_flight s"
    using server13_flight_iff [OF assms(1-4)] assms(8) by blast
  then have "wire13 ms = tls3_MT_ENCRYPTED_EXTENSIONS
      # (if hit c then [] else opt_msg (send_certificate_request s) tls3_MT_CERTIFICATE_REQUEST
           @ [tls3_MT_CERTIFICATE, tls3_MT_CERTIFICATE_VERIFY])
      @ [tls3_MT_FINISHED]"
    using assms(7) by (simp add: server13_flight_def auth13_part_def opt_msg_def)
  then show ?thesis
    unfolding client13_server_flight_iff [OF assms(5,6)] by blast
qed

theorem server13_flight_interop_witness:
  "client_accepts sample_env TLS_ST_CR_FINISHED (sample_tls 0x0304 False TLS_ST_CR_SRVR_HELLO)
     (wire13 (server13_flight (sample_tls 0x0304 True TLS_ST_SW_SRVR_HELLO)))"
proof -
  let ?s = "sample_tls 0x0304 True TLS_ST_SW_SRVR_HELLO"
  have "server_sends sample_env TLS_ST_EARLY_DATA ?s (server13_flight ?s)"
    by (simp add: server13_flight_iff sample_defs)
  then show ?thesis
    using server13_flight_interop [of ?s "sample_tls 0x0304 False TLS_ST_CR_SRVR_HELLO" sample_env
        "server13_flight ?s" sample_env]
    by (simp add: sample_defs)
qed

text \<open>
  In TLS 1.3 the flight the client writes after the server's Finished is accepted by the
  server up to the client's Finished, when both agree on the certificate request and on the early
  data, and a client whose early data was accepted still has to close it.
\<close>

theorem client13_flight_interop:
  assumes "hs c = TLS_ST_CR_FINISHED" and "tls_IS_TLS13 c"
    and "hs s = TLS_ST_EARLY_DATA" and "tls_IS_TLS13 s"
    and "hello_retry_request s \<noteq> tls_HRR_PENDING"
    and "cert_request s \<longleftrightarrow> cert_req c \<noteq> 0" and "\<not> session_peer s"
    and "ext_early_data c = ext_early_data s"
    and "ext_early_data c = tls_EARLY_DATA_ACCEPTED \<longrightarrow> early_data_open c"
    and "client_sends e TLS_ST_OK c ms"
  shows "server_accepts (cert_req c = 1) (no_cert_verify (statem s)) s (wire13 ms)"
proof -
  have "ms = client13_flight c"
    using client13_flight_iff [OF assms(1,2)] assms(10) by blast
  then have "wire13 ms =
      opt_msg (ext_early_data s = tls_EARLY_DATA_ACCEPTED) tls3_MT_END_OF_EARLY_DATA
      @ auth13_flight (cert_req c = 1) s"
    using assms(6,8,9)
    by (auto simp: client13_flight_def client13_auth_part_def auth13_flight_def opt_msg_def)
  then show ?thesis
    unfolding server13_client_flight_iff [OF assms(3-5)] using assms(6,7) by auto
qed

theorem client13_flight_interop_witness:
  "server_accepts False False (sample_tls 0x0304 True TLS_ST_EARLY_DATA)
     (wire13 (client13_flight (sample_tls 0x0304 False TLS_ST_CR_FINISHED)))"
proof -
  let ?c = "sample_tls 0x0304 False TLS_ST_CR_FINISHED"
  have "client_sends sample_env TLS_ST_OK ?c (client13_flight ?c)"
    by (simp add: client13_flight_iff sample_defs)
  then show ?thesis
    using client13_flight_interop [of ?c "sample_tls 0x0304 True TLS_ST_EARLY_DATA" sample_env
        "client13_flight ?c"]
    by (simp add: sample_defs)
qed

end
