(* ===== verification/Memory.thy ===== *)
theory Memory
  imports Prelude "HOL-Library.Monad_Syntax"
begin

text \<open>
  Blocks of memory as byte lists, with the accesses of C made explicit: a read or a write outside
  the block is undefined behaviour and has no result (None). Allocation is a parameter: the
  allocator is a function from the requested size to the fresh block with whatever it holds, or
  None when memory runs out. This is what the C code knows about \<open>OPENtls_malloc\<close> and
  \<open>OPENtls_realloc\<close>.
\<close>

section \<open>Accesses\<close>

definition seg :: "'a list \<Rightarrow> nat \<Rightarrow> nat \<Rightarrow> 'a list" where
  "seg m i n = take n (drop i m)"

definition byte_at :: "'a list \<Rightarrow> nat \<Rightarrow> 'a option" where
  "byte_at m i = (if i < length m then Some (m ! i) else None)"

definition mem_read :: "bytes \<Rightarrow> nat \<Rightarrow> nat \<Rightarrow> bytes option" where
  "mem_read m i n = (if i + n \<le> length m then Some (seg m i n) else None)"

definition mem_write :: "bytes \<Rightarrow> nat \<Rightarrow> bytes \<Rightarrow> bytes option" where
  "mem_write m i bs =
     (if i + length bs \<le> length m then Some (take i m @ bs @ drop (i + length bs) m) else None)"

text \<open>\<open>memset\<close> and \<open>memcpy\<close> at an offset of a block.\<close>

definition memset :: "bytes \<Rightarrow> nat \<Rightarrow> byte \<Rightarrow> nat \<Rightarrow> bytes option" where
  "memset m i c n = mem_write m i (replicate n c)"

type_synonym allocator = "nat \<Rightarrow> bytes option"

definition allocator_ok :: "allocator \<Rightarrow> bool" where
  "allocator_ok a \<longleftrightarrow> (\<forall>n b. a n = Some b \<longrightarrow> length b = n)"

text \<open>
  \<open>realloc\<close> keeps the old contents as far as they fit; a NULL pointer is an empty block here,
  and NULL together with failure is None.
\<close>

definition mem_realloc :: "allocator \<Rightarrow> bytes \<Rightarrow> nat \<Rightarrow> bytes option" where
  "mem_realloc a old n = map_option (\<lambda>fresh. take n old @ drop (length old) fresh) (a n)"

section \<open>Laws\<close>

lemma length_seg [simp]: "length (seg m i n) = min n (length m - i)"
  by (simp add: seg_def)

lemma seg_0 [simp]: "seg m i 0 = []"
  by (simp add: seg_def)

lemma seg_start [simp]: "seg m 0 n = take n m"
  by (simp add: seg_def)

lemma seg_seg: "i + k \<le> n \<Longrightarrow> seg (seg m j n) i k = seg m (j + i) k"
  by (simp add: seg_def drop_take add.commute min_def)

lemma seg_append_split: "seg m i (j + k) = seg m i j @ seg m (i + j) k"
  by (simp add: seg_def take_add add.commute)

lemma take_seg_append: "i \<le> j \<Longrightarrow> take j m = take i m @ seg m i (j - i)"
  by (metis le_add_diff_inverse seg_def take_add)

lemma length_mem_write: "mem_write m i bs = Some m' \<Longrightarrow> length m' = length m"
  by (auto simp: mem_write_def split: if_splits)

lemma mem_write_total: "i + length bs \<le> length m \<Longrightarrow> \<exists>m'. mem_write m i bs = Some m'"
  by (simp add: mem_write_def)

lemma mem_write_bound: "mem_write m i bs = Some m' \<Longrightarrow> i + length bs \<le> length m"
  by (auto simp: mem_write_def split: if_splits)

lemma seg_mem_write_same: "mem_write m i bs = Some m' \<Longrightarrow> seg m' i (length bs) = bs"
  by (auto simp: mem_write_def seg_def split: if_splits)

lemma take_mem_write: "mem_write m i bs = Some m' \<Longrightarrow> j \<le> i \<Longrightarrow> take j m' = take j m"
  by (auto simp: mem_write_def min_def split: if_splits)

lemma seg_mem_write_before:
  assumes "mem_write m i bs = Some m'" and "j + k \<le> i"
  shows "seg m' j k = seg m j k"
proof -
  have "take (j + k) m' = take (j + k) m"
    using take_mem_write assms by blast
  then show ?thesis
    by (metis add_diff_cancel_left' drop_take seg_def)
qed

lemma drop_mem_write:
  "mem_write m i bs = Some m' \<Longrightarrow> i + length bs \<le> j \<Longrightarrow> drop j m' = drop j m"
  by (auto simp: mem_write_def split: if_splits)

lemma seg_mem_write_after:
  "mem_write m i bs = Some m' \<Longrightarrow> i + length bs \<le> j \<Longrightarrow> seg m' j k = seg m j k"
  by (simp add: drop_mem_write seg_def)

lemma mem_write_single:
  "i < length m \<Longrightarrow> mem_write m i [b] = Some (m[i := b])"
  by (simp add: mem_write_def upd_conv_take_nth_drop)

lemma memset_total: "i + n \<le> length m \<Longrightarrow> \<exists>m'. memset m i c n = Some m'"
  by (simp add: memset_def mem_write_def)

lemma length_memset: "memset m i c n = Some m' \<Longrightarrow> length m' = length m"
  unfolding memset_def by (rule length_mem_write)

lemma take_memset: "memset m i c n = Some m' \<Longrightarrow> i + n \<le> length m
    \<Longrightarrow> take (i + n) m' = take i m @ replicate n c"
  by (auto simp: memset_def mem_write_def split: if_splits)

lemma length_mem_realloc:
  assumes "allocator_ok a" and "mem_realloc a old n = Some m" and "length old \<le> n"
  shows "length m = n"
  using assms by (auto simp: mem_realloc_def allocator_ok_def)

lemma take_mem_realloc:
  assumes "mem_realloc a old n = Some m" and "length old \<le> n"
  shows "take (length old) m = old"
  using assms by (auto simp: mem_realloc_def)

end
