(* ===== verification/Buffer.thy ===== *)
theory Buffer
  imports Memory
begin

text \<open>
  Growable buffers, \<open>crypto/buffer/buffer.c\<close>. The struct \<open>BUF_MEM\<close> is a record; its \<open>data\<close>
  pointer is the block it points to, or None for NULL. The functions return the C return value
  and the updated struct, or None where the C code would touch memory outside the block.
  \<open>OPENtls_secure_malloc\<close> is the allocator parameter \<open>sec\<close>, the ordinary allocator \<open>a\<close>.
\<close>

section \<open>Model\<close>

record BUF_MEM =
  b_length :: nat
  b_data :: "bytes option"
  b_max :: nat
  b_flags :: u64

abbreviation (input) BUF_MEM_FLAG_SECURE :: u64 where "BUF_MEM_FLAG_SECURE \<equiv> 1"

definition LIMIT_BEFORE_EXPANSION :: nat where
  "LIMIT_BEFORE_EXPANSION = 0x5ffffffc"

definition BUF_MEM_new :: "allocator \<Rightarrow> BUF_MEM option" where
  "BUF_MEM_new a =
     (case a 32 of None \<Rightarrow> None
      | Some _ \<Rightarrow> Some \<lparr>b_length = 0, b_data = None, b_max = 0, b_flags = 0\<rparr>)"

definition BUF_MEM_new_ex :: "allocator \<Rightarrow> u64 \<Rightarrow> BUF_MEM option" where
  "BUF_MEM_new_ex a flags =
     (case BUF_MEM_new a of None \<Rightarrow> None | Some ret \<Rightarrow> Some (ret\<lparr>b_flags := flags\<rparr>))"

text \<open>
  \<open>sec_alloc_realloc\<close> copies \<open>length\<close> bytes of the old block; the result is the new block or
  NULL (inner None).
\<close>

definition sec_alloc_realloc :: "allocator \<Rightarrow> BUF_MEM \<Rightarrow> nat \<Rightarrow> bytes option option" where
  "sec_alloc_realloc sec str len =
     (case sec len of
        None \<Rightarrow> Some None
      | Some ret \<Rightarrow>
          (case b_data str of
             None \<Rightarrow> Some (Some ret)
           | Some d \<Rightarrow> do {
               old \<leftarrow> mem_read d 0 (b_length str);
               ret \<leftarrow> mem_write ret 0 old;
               Some (Some ret)
             }))"

text \<open>The common tail of both functions: a new block of \<open>(len + 3) / 3 * 4\<close> bytes.\<close>

definition BUF_MEM_expand :: "allocator \<Rightarrow> allocator \<Rightarrow> BUF_MEM \<Rightarrow> nat \<Rightarrow> (nat \<times> BUF_MEM) option" where
  "BUF_MEM_expand a sec str len =
     (if len > LIMIT_BEFORE_EXPANSION then Some (0, str)
      else let n = (len + 3) div 3 * 4 in do {
        ret \<leftarrow> (if b_flags str AND BUF_MEM_FLAG_SECURE \<noteq> 0 then sec_alloc_realloc sec str n
                else Some (mem_realloc a (case b_data str of None \<Rightarrow> [] | Some d \<Rightarrow> d) n));
        (case ret of
           None \<Rightarrow> Some (0, str)
         | Some r \<Rightarrow> do {
             d \<leftarrow> memset r (b_length str) 0 (len - b_length str);
             Some (len, str\<lparr>b_data := Some d, b_max := n, b_length := len\<rparr>)
           })
      })"

definition BUF_MEM_grow :: "allocator \<Rightarrow> allocator \<Rightarrow> BUF_MEM \<Rightarrow> nat \<Rightarrow> (nat \<times> BUF_MEM) option" where
  "BUF_MEM_grow a sec str len =
     (if b_length str \<ge> len then Some (len, str\<lparr>b_length := len\<rparr>)
      else if b_max str \<ge> len then
        (case b_data str of
           None \<Rightarrow> Some (len, str\<lparr>b_length := len\<rparr>)
         | Some d \<Rightarrow> do {
             d \<leftarrow> memset d (b_length str) 0 (len - b_length str);
             Some (len, str\<lparr>b_data := Some d, b_length := len\<rparr>)
           })
      else BUF_MEM_expand a sec str len)"

definition BUF_MEM_grow_clean :: "allocator \<Rightarrow> allocator \<Rightarrow> BUF_MEM \<Rightarrow> nat \<Rightarrow> (nat \<times> BUF_MEM) option"
where
  "BUF_MEM_grow_clean a sec str len =
     (if b_length str \<ge> len then
        (case b_data str of
           None \<Rightarrow> Some (len, str\<lparr>b_length := len\<rparr>)
         | Some d \<Rightarrow> do {
             d \<leftarrow> memset d len 0 (b_length str - len);
             Some (len, str\<lparr>b_data := Some d, b_length := len\<rparr>)
           })
      else if b_max str \<ge> len then
        (case b_data str of
           None \<Rightarrow> None
         | Some d \<Rightarrow> do {
             d \<leftarrow> memset d (b_length str) 0 (len - b_length str);
             Some (len, str\<lparr>b_data := Some d, b_length := len\<rparr>)
           })
      else BUF_MEM_expand a sec str len)"

text \<open>
  \<open>BUF_reverse\<close>: with a source, byte \<open>i\<close> of the source goes to position \<open>sz - 1 - i\<close>;
  without one, the block is reversed in place by swaps from both ends.
\<close>

function BUF_reverse_copy :: "bytes \<Rightarrow> bytes \<Rightarrow> nat \<Rightarrow> nat \<Rightarrow> bytes option" where
  "BUF_reverse_copy out inp sz i =
     (if i < sz then
        (if i < length inp \<and> sz - 1 - i < length out
         then BUF_reverse_copy (out[sz - 1 - i := inp ! i]) inp sz (i + 1) else None)
      else Some out)"
  by pat_completeness auto
termination by (relation "measure (\<lambda>(out, inp, sz, i). sz - i)") auto

function BUF_reverse_swap :: "bytes \<Rightarrow> nat \<Rightarrow> nat \<Rightarrow> bytes option" where
  "BUF_reverse_swap out sz i =
     (if i < sz div 2 then
        (if sz - 1 - i < length out
         then BUF_reverse_swap (out[sz - 1 - i := out ! i, i := out ! (sz - 1 - i)]) sz (i + 1)
         else None)
      else Some out)"
  by pat_completeness auto
termination by (relation "measure (\<lambda>(out, sz, i). sz - i)") auto

definition BUF_reverse :: "bytes \<Rightarrow> bytes option \<Rightarrow> nat \<Rightarrow> bytes option" where
  "BUF_reverse out inp sz =
     (case inp of
        Some i \<Rightarrow> BUF_reverse_copy out i sz 0
      | None \<Rightarrow> BUF_reverse_swap out sz 0)"

declare BUF_reverse_copy.simps [simp del] BUF_reverse_swap.simps [simp del]

section \<open>Well-formed buffers\<close>

text \<open>
  The allocated block has \<open>max\<close> bytes, of which the first \<open>length\<close> are in use; the contents
  are those bytes.
\<close>

definition buf_ok :: "BUF_MEM \<Rightarrow> bool" where
  "buf_ok b \<longleftrightarrow> b_length b \<le> b_max b
     \<and> (case b_data b of None \<Rightarrow> b_max b = 0 | Some d \<Rightarrow> length d = b_max b)"

definition contents :: "BUF_MEM \<Rightarrow> bytes" where
  "contents b = (case b_data b of None \<Rightarrow> [] | Some d \<Rightarrow> take (b_length b) d)"

lemma length_contents: "buf_ok b \<Longrightarrow> length (contents b) = b_length b"
  by (auto simp: buf_ok_def contents_def split: option.splits)

lemma BUF_MEM_new_ok: "BUF_MEM_new a = Some b \<Longrightarrow> buf_ok b \<and> contents b = []"
  by (auto simp: BUF_MEM_new_def buf_ok_def contents_def split: option.splits)

lemma sec_alloc_realloc_spec:
  assumes "allocator_ok sec" and "buf_ok b" and "b_length b \<le> n"
  shows "\<exists>r. sec_alloc_realloc sec b n = Some r
    \<and> (case r of None \<Rightarrow> True | Some m \<Rightarrow> length m = n \<and> take (b_length b) m = contents b)"
proof (cases "sec n")
  case None
  then show ?thesis by (simp add: sec_alloc_realloc_def)
next
  case (Some ret)
  then have len: "length ret = n"
    using assms(1) by (simp add: allocator_ok_def)
  show ?thesis
  proof (cases "b_data b")
    case None
    with assms(2) have "b_length b = 0" by (simp add: buf_ok_def)
    with None Some len show ?thesis
      by (simp add: sec_alloc_realloc_def contents_def)
  next
    case (Some d)
    with assms(2) have d: "length d = b_max b" "b_length b \<le> b_max b"
      by (simp_all add: buf_ok_def)
    with Some \<open>sec n = Some ret\<close> len assms(3) show ?thesis
      by (simp add: sec_alloc_realloc_def mem_read_def mem_write_def contents_def)
  qed
qed

lemma realloc_data_spec:
  assumes "allocator_ok a" and "buf_ok b" and "b_max b \<le> n"
    and "mem_realloc a (case b_data b of None \<Rightarrow> [] | Some d \<Rightarrow> d) n = Some m"
  shows "length m = n \<and> take (b_length b) m = contents b"
proof (cases "b_data b")
  case None
  with assms show ?thesis
    using length_mem_realloc [OF assms(1,4)] by (simp add: buf_ok_def contents_def)
next
  case (Some d)
  with assms(2) have d: "length d = b_max b" "b_length b \<le> b_max b"
    by (simp_all add: buf_ok_def)
  have m: "mem_realloc a d n = Some m"
    using assms(4) Some by simp
  have "length m = n" "take (length d) m = d"
    using length_mem_realloc [OF assms(1) m] take_mem_realloc [OF m] assms(3) d(1) by simp_all
  then have "take (b_length b) m = take (b_length b) d"
    using d by (metis take_take min.absorb1)
  with Some \<open>length m = n\<close> show ?thesis
    by (simp add: contents_def)
qed

text \<open>What both growing functions do: exactly \<open>len\<close> bytes afterwards, the old ones then zeros.\<close>

definition resized :: "bytes \<Rightarrow> nat \<Rightarrow> bytes" where
  "resized xs len = take len xs @ replicate (len - length xs) 0"

lemma expand_spec:
  assumes "allocator_ok a" and "allocator_ok sec" and "buf_ok b" and "b_max b < len"
  shows "\<exists>r b'. BUF_MEM_expand a sec b len = Some (r, b')
    \<and> buf_ok b' \<and> (r = 0 \<and> b' = b \<or> r = len \<and> contents b' = resized (contents b) len
                    \<and> b_length b' = len)"
proof -
  let ?n = "(len + 3) div 3 * 4"
  have n: "b_length b \<le> ?n" "b_max b \<le> ?n" "len \<le> ?n"
    using assms(3,4) by (auto simp: buf_ok_def)
  have tail: "\<exists>d. memset m (b_length b) 0 (len - b_length b) = Some d
      \<and> length d = ?n \<and> take len d = resized (contents b) len"
    if "length m = ?n \<and> take (b_length b) m = contents b" for m
  proof -
    from n assms(3,4) have le: "b_length b + (len - b_length b) = len"
      by (auto simp: buf_ok_def)
    with n that obtain d where d: "memset m (b_length b) 0 (len - b_length b) = Some d"
      using memset_total [of "b_length b" "len - b_length b" m 0] by auto
    from take_memset [OF d] le n that have "take len d = contents b @ replicate (len - b_length b) 0"
      by simp
    then show ?thesis
      using d that length_contents [OF assms(3)] le length_memset [OF d]
      by (simp add: resized_def)
  qed
  show ?thesis
  proof (cases "len > LIMIT_BEFORE_EXPANSION")
    case True
    then show ?thesis using assms(3) by (simp add: BUF_MEM_expand_def)
  next
    case False
    let ?r = "if b_flags b AND BUF_MEM_FLAG_SECURE \<noteq> 0 then sec_alloc_realloc sec b ?n
      else Some (mem_realloc a (case b_data b of None \<Rightarrow> [] | Some d \<Rightarrow> d) ?n)"
    obtain r where r: "?r = Some r"
      and r_ok: "r = None \<or> (\<exists>m. r = Some m \<and> length m = ?n \<and> take (b_length b) m = contents b)"
    proof (cases "b_flags b AND BUF_MEM_FLAG_SECURE \<noteq> 0")
      case True
      obtain r where "sec_alloc_realloc sec b ?n = Some r"
        "case r of None \<Rightarrow> True | Some m \<Rightarrow> length m = ?n \<and> take (b_length b) m = contents b"
        using sec_alloc_realloc_spec [OF assms(2,3) n(1)] by blast
      with True show ?thesis
        by (intro that [of r]) (simp_all split: option.splits)
    next
      case False
      let ?m = "mem_realloc a (case b_data b of None \<Rightarrow> [] | Some d \<Rightarrow> d) ?n"
      have "?m = None \<or> (\<exists>m. ?m = Some m \<and> length m = ?n \<and> take (b_length b) m = contents b)"
        using realloc_data_spec [OF assms(1,3) n(2)] by (cases ?m) simp_all
      with False show ?thesis
        by (intro that [of ?m]) simp_all
    qed
    show ?thesis
    proof (cases r)
      case None
      with r False assms(3) show ?thesis
        by (simp add: BUF_MEM_expand_def Let_def del: if_split)
    next
      case (Some m)
      with r_ok tail obtain d where "memset m (b_length b) 0 (len - b_length b) = Some d"
        "length d = ?n" "take len d = resized (contents b) len" by blast
      with r Some False n show ?thesis
        by (simp add: BUF_MEM_expand_def Let_def buf_ok_def contents_def del: if_split)
    qed
  qed
qed

lemma memset_grow_spec:
  assumes "buf_ok b" and "b_data b = Some d" and "b_length b < len" and "len \<le> b_max b"
  shows "\<exists>d'. memset d (b_length b) 0 (len - b_length b) = Some d' \<and> length d' = b_max b
    \<and> take len d' = resized (contents b) len"
proof -
  from assms have le: "b_length b + (len - b_length b) = len" "len \<le> length d"
    by (simp_all add: buf_ok_def)
  then obtain d' where d': "memset d (b_length b) 0 (len - b_length b) = Some d'"
    using memset_total [of "b_length b" "len - b_length b" d 0] by auto
  from take_memset [OF d'] le assms(2,3) show ?thesis
    using d' length_memset [OF d'] assms length_contents [OF assms(1)]
    by (simp add: resized_def contents_def buf_ok_def)
qed

lemma grow_spec:
  assumes "allocator_ok a" and "allocator_ok sec" and "buf_ok b"
  shows "\<exists>r b'. BUF_MEM_grow a sec b len = Some (r, b') \<and> buf_ok b'
    \<and> (r = 0 \<and> len \<noteq> 0 \<and> b' = b \<or> r = len \<and> contents b' = resized (contents b) len
        \<and> b_length b' = len)"
proof -
  consider "len \<le> b_length b" | "b_length b < len" "len \<le> b_max b" | "b_max b < len"
    by linarith
  then show ?thesis
  proof cases
    case 1
    then show ?thesis
      using assms(3) by (auto simp: BUF_MEM_grow_def buf_ok_def contents_def resized_def min_def
          split: option.splits)
  next
    case 2
    then obtain d where d: "b_data b = Some d"
      using assms(3) by (auto simp: buf_ok_def split: option.splits)
    from memset_grow_spec [OF assms(3) d 2] 2 d assms(3) show ?thesis
      by (auto simp: BUF_MEM_grow_def buf_ok_def contents_def)
  next
    case 3
    then have "BUF_MEM_grow a sec b len = BUF_MEM_expand a sec b len" and "len \<noteq> 0"
      using assms(3) by (auto simp: BUF_MEM_grow_def buf_ok_def)
    with expand_spec [OF assms 3] show ?thesis by fastforce
  qed
qed

text \<open>
  Growing a well-formed buffer never touches memory outside its block, whatever the allocator
  does; it either fails (0 for a non-zero length, only when the buffer has to be reallocated) and
  leaves the buffer as it was, or the buffer then holds exactly \<open>len\<close> bytes: the old contents
  cut to \<open>len\<close>, and zeros after them.
\<close>

theorem BUF_MEM_grow_correct:
  assumes "allocator_ok a" and "allocator_ok sec" and "buf_ok b"
  shows "\<exists>r b'. BUF_MEM_grow a sec b len = Some (r, b') \<and> buf_ok b'
    \<and> (if r = len then contents b' = resized (contents b) len
       else r = 0 \<and> b' = b \<and> b_max b < len)"
proof -
  obtain r b' where r: "BUF_MEM_grow a sec b len = Some (r, b')" "buf_ok b'"
    "r = 0 \<and> len \<noteq> 0 \<and> b' = b \<or> r = len \<and> contents b' = resized (contents b) len"
    using grow_spec [OF assms] by blast
  moreover have "b_max b < len" if "r \<noteq> len"
  proof (rule ccontr)
    assume "\<not> b_max b < len"
    then have "r = len"
      using r(1) by (auto simp: BUF_MEM_grow_def bind_eq_Some_conv split: if_splits option.splits)
    with that show False by simp
  qed
  ultimately show ?thesis by auto
qed

definition sample_alloc :: allocator where
  "sample_alloc n = Some (replicate n 0xAA)"

lemma sample_alloc_ok [simp]: "allocator_ok sample_alloc"
  by (simp add: allocator_ok_def sample_alloc_def)

definition sample_buf :: BUF_MEM where
  "sample_buf = \<lparr>b_length = 2, b_data = Some [1, 2, 3], b_max = 3, b_flags = 0\<rparr>"

theorem BUF_MEM_grow_correct_witness:
  "\<exists>r b'. BUF_MEM_grow sample_alloc sample_alloc sample_buf 5 = Some (r, b') \<and> buf_ok b'"
  using BUF_MEM_grow_correct [of sample_alloc sample_alloc sample_buf 5]
  by (auto simp: buf_ok_def sample_buf_def)

lemma grow_clean_spec:
  assumes "allocator_ok a" and "allocator_ok sec" and "buf_ok b"
  shows "\<exists>r b'. BUF_MEM_grow_clean a sec b len = Some (r, b') \<and> buf_ok b'
    \<and> (r = 0 \<and> len \<noteq> 0 \<and> b' = b \<or> r = len \<and> contents b' = resized (contents b) len)
    \<and> (\<forall>d'. len \<le> b_length b \<longrightarrow> b_data b' = Some d'
         \<longrightarrow> seg d' len (b_length b - len) = replicate (b_length b - len) 0)"
proof (cases "len \<le> b_length b")
  case shrink: True
  show ?thesis
  proof (cases "b_data b")
    case None
    with shrink assms(3) show ?thesis
      by (simp add: BUF_MEM_grow_clean_def buf_ok_def contents_def resized_def)
  next
    case (Some d)
    then have d: "length d = b_max b" "len + (b_length b - len) \<le> length d"
      using assms(3) shrink by (simp_all add: buf_ok_def)
    then obtain d' where d': "memset d len 0 (b_length b - len) = Some d'"
      using memset_total by blast
    have "take len d' = take len d" "length d' = length d"
      "seg d' len (b_length b - len) = replicate (b_length b - len) 0"
      using take_mem_write [OF d' [unfolded memset_def], of len]
        length_mem_write [OF d' [unfolded memset_def]]
        seg_mem_write_same [OF d' [unfolded memset_def]] by simp_all
    with Some shrink d d' assms(3) show ?thesis
      by (simp add: BUF_MEM_grow_clean_def buf_ok_def contents_def resized_def min_def)
  qed
next
  case False
  then have "BUF_MEM_grow_clean a sec b len = BUF_MEM_grow a sec b len"
    using assms(3) by (auto simp: BUF_MEM_grow_clean_def BUF_MEM_grow_def buf_ok_def
        split: option.splits)
  with grow_spec [OF assms, of len] False show ?thesis by auto
qed

definition alloc_total :: "allocator \<Rightarrow> bool" where
  "alloc_total a \<longleftrightarrow> allocator_ok a \<and> (\<forall>n>0. a n \<noteq> None)"

lemma expand_succeeds:
  assumes "alloc_total a" and "alloc_total sec" and "len \<le> LIMIT_BEFORE_EXPANSION"
    and "BUF_MEM_expand a sec b len = Some (r, b')"
  shows "r = len"
proof -
  let ?n = "(len + 3) div 3 * 4"
  have "0 < ?n" by simp
  then obtain x y where x: "a ?n = Some x" and y: "sec ?n = Some y"
    using assms(1,2) unfolding alloc_total_def by blast
  have "sec_alloc_realloc sec b ?n \<noteq> Some None"
    unfolding sec_alloc_realloc_def y
    by (cases "b_data b") (simp_all split: bind_splits)
  moreover have "mem_realloc a (case b_data b of None \<Rightarrow> [] | Some d \<Rightarrow> d) ?n \<noteq> None"
    unfolding mem_realloc_def x by simp
  ultimately show ?thesis
    using assms(3,4) unfolding BUF_MEM_expand_def Let_def
    by (cases "b_data b") (auto split: bind_splits option.splits if_splits)
qed

lemma grow_clean_succeeds:
  assumes "alloc_total a" and "alloc_total sec" and "len \<le> LIMIT_BEFORE_EXPANSION"
    and "BUF_MEM_grow_clean a sec b len = Some (r, b')"
  shows "r = len"
  using assms(4) expand_succeeds [OF assms(1-3)] unfolding BUF_MEM_grow_clean_def
  by (auto split: if_splits option.splits bind_splits)

text \<open>
  \<open>BUF_MEM_grow_clean\<close> resizes like \<open>BUF_MEM_grow\<close> and is as safe; in addition, when it
  shrinks a buffer, the bytes that are given up are zero in memory afterwards.
\<close>

theorem BUF_MEM_grow_clean_correct:
  assumes "allocator_ok a" and "allocator_ok sec" and "buf_ok b"
  shows "\<exists>r b'. BUF_MEM_grow_clean a sec b len = Some (r, b') \<and> buf_ok b'
    \<and> (r = 0 \<and> len \<noteq> 0 \<and> b' = b \<or> r = len \<and> contents b' = resized (contents b) len)
    \<and> (\<forall>d'. len \<le> b_length b \<longrightarrow> b_data b' = Some d'
         \<longrightarrow> seg d' len (b_length b - len) = replicate (b_length b - len) 0)"
  using assms by (rule grow_clean_spec)

theorem BUF_MEM_grow_clean_correct_witness:
  "\<exists>b'. BUF_MEM_grow_clean sample_alloc sample_alloc sample_buf 1 = Some (1, b') \<and> buf_ok b'"
  using BUF_MEM_grow_clean_correct [of sample_alloc sample_alloc sample_buf 1]
  by (auto simp: buf_ok_def sample_buf_def BUF_MEM_grow_clean_def memset_def mem_write_def)

section \<open>Reversal\<close>

lemma BUF_reverse_copy_spec:
  assumes "sz \<le> length inp" and "sz \<le> length out" and "i \<le> sz"
  shows "BUF_reverse_copy out inp sz i
    = Some (rev (seg inp i (sz - i)) @ drop (sz - i) out)"
  using assms
proof (induction out inp sz i rule: BUF_reverse_copy.induct)
  case (1 out inp sz i)
  show ?case
  proof (cases "i < sz")
    case True
    have lt: "i < length inp" "sz - 1 - i < length out"
      using True 1(2,3) by auto
    have sl: "seg inp i (sz - i) = inp ! i # seg inp (Suc i) (sz - Suc i)"
      using True 1(2) by (simp add: seg_def Cons_nth_drop_Suc [symmetric] take_Cons'
          Suc_diff_Suc)
    have dr: "drop (sz - Suc i) (out[sz - 1 - i := inp ! i])
        = inp ! i # drop (sz - i) out"
      using True 1(3) by (simp add: drop_update_swap Cons_nth_drop_Suc [symmetric] Suc_diff_Suc)
    have "BUF_reverse_copy out inp sz i
        = BUF_reverse_copy (out[sz - 1 - i := inp ! i]) inp sz (i + 1)"
      using True lt by (simp add: BUF_reverse_copy.simps [of out])
    also have "\<dots> = Some (rev (seg inp (i + 1) (sz - (i + 1)))
        @ drop (sz - (i + 1)) (out[sz - 1 - i := inp ! i]))"
      using True 1 by (intro "1.IH") simp_all
    finally show ?thesis
      using sl dr by simp
  next
    case False
    with 1 show ?thesis by (simp add: BUF_reverse_copy.simps [of out])
  qed
qed

text \<open>Invariant of the in-place loop: the outer \<open>i\<close> bytes on both sides are swapped already.\<close>

lemma BUF_reverse_swap_nth:
  assumes "sz \<le> length out" and "i \<le> sz div 2"
  shows "\<exists>out'. BUF_reverse_swap out sz i = Some out' \<and> length out' = length out
    \<and> (\<forall>k < length out. out' ! k = (if i \<le> k \<and> k < sz - i then out ! (sz - 1 - k) else out ! k))"
  using assms
proof (induction out sz i rule: BUF_reverse_swap.induct)
  case (1 out sz i)
  show ?case
  proof (cases "i < sz div 2")
    case True
    let ?o = "out[sz - 1 - i := out ! i, i := out ! (sz - 1 - i)]"
    have lt: "sz - 1 - i < length out" "i < sz - 1 - i"
      using True 1(2) by auto
    have eq: "BUF_reverse_swap out sz i = BUF_reverse_swap ?o sz (i + 1)"
      using True lt by (simp add: BUF_reverse_swap.simps [of out])
    obtain out' where o: "BUF_reverse_swap ?o sz (i + 1) = Some out'" "length out' = length out"
      "\<forall>k < length out. out' ! k =
         (if i + 1 \<le> k \<and> k < sz - (i + 1) then ?o ! (sz - 1 - k) else ?o ! k)"
      using "1.IH" [OF True lt(1)] 1(2) True by auto
    have "out' ! k = (if i \<le> k \<and> k < sz - i then out ! (sz - 1 - k) else out ! k)"
      if k: "k < length out" for k
    proof -
      consider "k = i" | "k = sz - 1 - i" "k \<noteq> i" | "i + 1 \<le> k" "k < sz - (i + 1)"
        | "k < i" | "sz - i \<le> k" "k \<noteq> i" using lt by linarith
      then show ?thesis
        using o(3) k lt by cases (auto simp: nth_list_update)
    qed
    with eq o show ?thesis by auto
  next
    case False
    with 1(3) have "i = sz div 2" by simp
    then have "sz - 1 - k = k" if "i \<le> k" "k < sz - i" for k
      using that by auto
    with False show ?thesis
      by (simp add: BUF_reverse_swap.simps [of out])
  qed
qed

lemma BUF_reverse_swap_spec:
  assumes "sz \<le> length out"
  shows "BUF_reverse_swap out sz 0 = Some (rev (take sz out) @ drop sz out)"
proof -
  obtain out' where o: "BUF_reverse_swap out sz 0 = Some out'" "length out' = length out"
    "\<And>k. k < length out \<Longrightarrow> out' ! k = (if k < sz then out ! (sz - 1 - k) else out ! k)"
    using BUF_reverse_swap_nth [OF assms, of 0] by auto
  have "out' = rev (take sz out) @ drop sz out"
    by (rule nth_equalityI) (use o assms in \<open>auto simp: nth_append rev_nth\<close>)
  with o(1) show ?thesis by simp
qed

text \<open>
  both ways of reversing agree: on blocks that are large enough, \<open>BUF_reverse\<close> stores the
  reversed source (or reverses the block in place), leaves the rest of the block alone and stays
  within both blocks.
\<close>

theorem BUF_reverse_correct:
  assumes "sz \<le> length out" and "case inp of None \<Rightarrow> True | Some src \<Rightarrow> sz \<le> length src"
  shows "BUF_reverse out inp sz =
    Some (rev (take sz (case inp of None \<Rightarrow> out | Some src \<Rightarrow> src)) @ drop sz out)"
  using assms
  by (auto simp: BUF_reverse_def BUF_reverse_swap_spec BUF_reverse_copy_spec split: option.splits)

theorem BUF_reverse_correct_witness:
  "BUF_reverse [1, 2, 3, 4] None 3 = Some [3, 2, 1, 4]"
  using BUF_reverse_correct [of 3 "[1, 2, 3, 4]" None] by simp

end
