(* ===== verification/WPacket.thy ===== *)
theory WPacket
  imports Buffer
begin

text \<open>
  The packet writer of \<open>crypto/packet.c\<close>, with which every handshake message is built: nested
  sub-packets whose length prefixes are filled in when they are closed, written to a growable
  buffer, to a caller's buffer of fixed size, or to no buffer at all (only counted). A pointer
  into the buffer is its offset, NULL is None; the list \<open>subs\<close> is the chain of \<open>WPACKET_SUB\<close>
  from the innermost sub-packet along \<open>parent\<close>. Every operation returns its C result and the
  new packet, or None if it would access memory outside the buffer. \<open>otls_assert\<close> is its value
  in a release build, \<open>size_t\<close> arithmetic wraps. The trailing underscores of the C names are
  dropped.
\<close>

section \<open>Model\<close>

record WPACKET_SUB =
  packet_len :: nat
  lenbytes :: nat
  pwritten :: nat
  sub_flags :: u32

record WPACKET =
  wbuf :: "BUF_MEM option"
  staticbuf :: "bytes option"
  curr :: nat
  written :: nat
  maxsize :: nat
  subs :: "WPACKET_SUB list"

abbreviation (input) WPACKET_FLAGS_NON_ZERO_LENGTH :: u32 where
  "WPACKET_FLAGS_NON_ZERO_LENGTH \<equiv> 1"
abbreviation (input) WPACKET_FLAGS_ABANDON_ON_ZERO_LENGTH :: u32 where
  "WPACKET_FLAGS_ABANDON_ON_ZERO_LENGTH \<equiv> 2"
abbreviation (input) DEFAULT_BUF_SIZE :: nat where "DEFAULT_BUF_SIZE \<equiv> 256"

text \<open>The ordinary and the secure allocator; \<open>sizeof(WPACKET_SUB)\<close> is 40.\<close>

type_synonym heap = "allocator \<times> allocator"

definition GETBUF :: "WPACKET \<Rightarrow> bytes option" where
  "GETBUF p =
     (case staticbuf p of Some m \<Rightarrow> Some m
      | None \<Rightarrow> (case wbuf p of Some b \<Rightarrow> b_data b | None \<Rightarrow> None))"

text \<open>The packet after a store into the block that \<open>GETBUF\<close> points to.\<close>

definition set_GETBUF :: "WPACKET \<Rightarrow> bytes \<Rightarrow> WPACKET" where
  "set_GETBUF p m =
     (case staticbuf p of Some _ \<Rightarrow> p\<lparr>staticbuf := Some m\<rparr>
      | None \<Rightarrow> p\<lparr>wbuf := map_option (\<lambda>b. b\<lparr>b_data := Some m\<rparr>) (wbuf p)\<rparr>)"

definition WPACKET_get_curr :: "WPACKET \<Rightarrow> nat option" where
  "WPACKET_get_curr p = (case GETBUF p of None \<Rightarrow> None | Some _ \<Rightarrow> Some (curr p))"

definition WPACKET_reserve_bytes ::
  "heap \<Rightarrow> WPACKET \<Rightarrow> nat \<Rightarrow> (bool \<times> nat option \<times> WPACKET) option" where
  "WPACKET_reserve_bytes h p len =
     (if \<not> (subs p \<noteq> [] \<and> len \<noteq> 0) then Some (False, None, p)
      else if usub (maxsize p) (written p) < len then Some (False, None, p)
      else do {
        (ok, p) \<leftarrow>
          (case wbuf p of
             None \<Rightarrow> Some (True, p)
           | Some b \<Rightarrow>
               if usub (b_length b) (written p) < len then
                 (let reflen = (if len > b_length b then len else b_length b);
                      newlen = (if reflen > SIZE_MAX div 2 then SIZE_MAX
                                else if reflen * 2 < DEFAULT_BUF_SIZE then DEFAULT_BUF_SIZE
                                else reflen * 2)
                  in do {
                    (r, b) \<leftarrow> BUF_MEM_grow (fst h) (snd h) b newlen;
                    Some (r \<noteq> 0, p\<lparr>wbuf := Some b\<rparr>)
                  })
               else Some (True, p));
        if \<not> ok then Some (False, None, p) else Some (True, WPACKET_get_curr p, p)
      })"

definition WPACKET_allocate_bytes ::
  "heap \<Rightarrow> WPACKET \<Rightarrow> nat \<Rightarrow> (bool \<times> nat option \<times> WPACKET) option" where
  "WPACKET_allocate_bytes h p len = do {
     (ok, d, p) \<leftarrow> WPACKET_reserve_bytes h p len;
     if \<not> ok then Some (False, None, p)
     else Some (True, d, p\<lparr>written := uadd (written p) len, curr := uadd (curr p) len\<rparr>)
   }"

definition WPACKET_sub_reserve_bytes ::
  "heap \<Rightarrow> WPACKET \<Rightarrow> nat \<Rightarrow> nat \<Rightarrow> (bool \<times> nat option \<times> WPACKET) option" where
  "WPACKET_sub_reserve_bytes h p len lb = do {
     (ok, d, p) \<leftarrow> WPACKET_reserve_bytes h p (uadd lb len);
     if \<not> ok then Some (False, None, p) else Some (True, map_option (\<lambda>off. uadd off lb) d, p)
   }"

definition maxmaxsize :: "nat \<Rightarrow> nat" where
  "maxmaxsize lb = (if lb \<ge> 8 \<or> lb = 0 then SIZE_MAX else 2 ^ (lb * 8) - 1 + lb)"

definition wpacket_intern_init_len :: "heap \<Rightarrow> WPACKET \<Rightarrow> nat \<Rightarrow> (bool \<times> WPACKET) option" where
  "wpacket_intern_init_len h p lb =
     (let p = p\<lparr>curr := 0, written := 0\<rparr> in
      case fst h 40 of
        None \<Rightarrow> Some (False, p\<lparr>subs := []\<rparr>)
      | Some _ \<Rightarrow>
          if lb = 0
          then Some (True, p\<lparr>subs := [\<lparr>packet_len = 0, lenbytes = 0, pwritten = 0, sub_flags = 0\<rparr>]\<rparr>)
          else do {
            (ok, d, p) \<leftarrow> WPACKET_allocate_bytes h
              (p\<lparr>subs := [\<lparr>packet_len = 0, lenbytes = lb, pwritten = lb, sub_flags = 0\<rparr>]\<rparr>) lb;
            if \<not> ok then Some (False, p\<lparr>subs := []\<rparr>) else Some (True, p)
          })"

definition WPACKET_init_static_len ::
  "heap \<Rightarrow> WPACKET \<Rightarrow> bytes option \<Rightarrow> nat \<Rightarrow> nat \<Rightarrow> (bool \<times> WPACKET) option" where
  "WPACKET_init_static_len h p buf len lb =
     (if \<not> (buf \<noteq> None \<and> len > 0) then Some (False, p)
      else wpacket_intern_init_len h
             (p\<lparr>staticbuf := buf, wbuf := None,
                maxsize := (if maxmaxsize lb < len then maxmaxsize lb else len)\<rparr>) lb)"

definition WPACKET_init_len :: "heap \<Rightarrow> WPACKET \<Rightarrow> BUF_MEM option \<Rightarrow> nat \<Rightarrow> (bool \<times> WPACKET) option"
where
  "WPACKET_init_len h p buf lb =
     (if buf = None then Some (False, p)
      else wpacket_intern_init_len h
             (p\<lparr>staticbuf := None, wbuf := buf, maxsize := maxmaxsize lb\<rparr>) lb)"

definition WPACKET_init :: "heap \<Rightarrow> WPACKET \<Rightarrow> BUF_MEM option \<Rightarrow> (bool \<times> WPACKET) option" where
  "WPACKET_init h p buf = WPACKET_init_len h p buf 0"

definition WPACKET_init_null :: "heap \<Rightarrow> WPACKET \<Rightarrow> nat \<Rightarrow> (bool \<times> WPACKET) option" where
  "WPACKET_init_null h p lb =
     wpacket_intern_init_len h (p\<lparr>staticbuf := None, wbuf := None, maxsize := maxmaxsize lb\<rparr>) 0"

definition WPACKET_set_flags :: "WPACKET \<Rightarrow> u32 \<Rightarrow> bool \<times> WPACKET" where
  "WPACKET_set_flags p flags =
     (case subs p of [] \<Rightarrow> (False, p)
      | s # ss \<Rightarrow> (True, p\<lparr>subs := s\<lparr>sub_flags := flags\<rparr> # ss\<rparr>))"

text \<open>\<open>put_value\<close> stores the low byte last and returns whether the value fitted.\<close>

fun put_value_loop :: "bytes \<Rightarrow> nat \<Rightarrow> nat \<Rightarrow> nat \<Rightarrow> (bytes \<times> nat) option" where
  "put_value_loop m off v 0 = Some (m, v)"
| "put_value_loop m off v (Suc n) =
     (if off + n < length m then put_value_loop (m[off + n := of_nat (v mod 256)]) off (v div 256) n
      else None)"

definition put_value :: "WPACKET \<Rightarrow> nat option \<Rightarrow> nat \<Rightarrow> nat \<Rightarrow> (bool \<times> WPACKET) option" where
  "put_value p data v len =
     (case data of
        None \<Rightarrow> Some (True, p)
      | Some off \<Rightarrow>
          (case GETBUF p of
             None \<Rightarrow> None
           | Some m \<Rightarrow> do {
               (m, v) \<leftarrow> put_value_loop m off v len;
               Some (if v > 0 then False else True, set_GETBUF p m)
             }))"

text \<open>\<open>sub\<close> is closed, \<open>parent\<close> is the rest of the chain behind it.\<close>

definition wpacket_intern_close ::
  "WPACKET \<Rightarrow> WPACKET_SUB \<Rightarrow> WPACKET_SUB list \<Rightarrow> bool \<Rightarrow> (bool \<times> WPACKET) option" where
  "wpacket_intern_close p sub parent doclose =
     (let packlen = usub (written p) (pwritten sub) in
      if packlen = 0 \<and> sub_flags sub AND WPACKET_FLAGS_NON_ZERO_LENGTH \<noteq> 0 then Some (False, p)
      else if packlen = 0 \<and> sub_flags sub AND WPACKET_FLAGS_ABANDON_ON_ZERO_LENGTH \<noteq> 0 \<and> \<not> doclose
      then Some (False, p)
      else
        let (p, sub) =
          (if packlen = 0 \<and> sub_flags sub AND WPACKET_FLAGS_ABANDON_ON_ZERO_LENGTH \<noteq> 0 then
             ((if usub (curr p) (lenbytes sub) = packet_len sub
               then p\<lparr>written := usub (written p) (lenbytes sub),
                      curr := usub (curr p) (lenbytes sub)\<rparr> else p),
              sub\<lparr>packet_len := 0, lenbytes := 0\<rparr>)
           else (p, sub))
        in do {
          (ok, p) \<leftarrow>
            (if lenbytes sub > 0 then
               (case GETBUF p of
                  None \<Rightarrow> Some (True, p)
                | Some _ \<Rightarrow> put_value p (Some (packet_len sub)) packlen (lenbytes sub))
             else Some (True, p));
          if \<not> ok then Some (False, p)
          else Some (True, if doclose then p\<lparr>subs := parent\<rparr> else p)
        })"

fun fill_lengths_loop :: "WPACKET \<Rightarrow> WPACKET_SUB list \<Rightarrow> (bool \<times> WPACKET) option" where
  "fill_lengths_loop p [] = Some (True, p)"
| "fill_lengths_loop p (sub # parent) = do {
     (ok, p) \<leftarrow> wpacket_intern_close p sub parent False;
     if \<not> ok then Some (False, p) else fill_lengths_loop p parent
   }"

definition WPACKET_fill_lengths :: "WPACKET \<Rightarrow> (bool \<times> WPACKET) option" where
  "WPACKET_fill_lengths p =
     (if subs p = [] then Some (False, p) else fill_lengths_loop p (subs p))"

definition WPACKET_close :: "WPACKET \<Rightarrow> (bool \<times> WPACKET) option" where
  "WPACKET_close p =
     (case subs p of
        sub # parent # rest \<Rightarrow> wpacket_intern_close p sub (parent # rest) True
      | _ \<Rightarrow> Some (False, p))"

definition WPACKET_finish :: "WPACKET \<Rightarrow> (bool \<times> WPACKET) option" where
  "WPACKET_finish p =
     (case subs p of
        [sub] \<Rightarrow> do {
          (ret, p) \<leftarrow> wpacket_intern_close p sub [] True;
          Some (ret, if ret then p\<lparr>subs := []\<rparr> else p)
        }
      | _ \<Rightarrow> Some (False, p))"

definition WPACKET_start_sub_packet_len :: "heap \<Rightarrow> WPACKET \<Rightarrow> nat \<Rightarrow> (bool \<times> WPACKET) option" where
  "WPACKET_start_sub_packet_len h p lb =
     (if subs p = [] then Some (False, p)
      else case fst h 40 of
        None \<Rightarrow> Some (False, p)
      | Some _ \<Rightarrow>
          let sub = \<lparr>packet_len = (if lb = 0 then 0 else written p), lenbytes = lb,
                     pwritten = uadd (written p) lb, sub_flags = 0\<rparr>;
              p = p\<lparr>subs := sub # subs p\<rparr>
          in if lb = 0 then Some (True, p)
             else do {
               (ok, d, p) \<leftarrow> WPACKET_allocate_bytes h p lb;
               Some (if \<not> ok then False else True, p)
             })"

definition WPACKET_start_sub_packet :: "heap \<Rightarrow> WPACKET \<Rightarrow> (bool \<times> WPACKET) option" where
  "WPACKET_start_sub_packet h p = WPACKET_start_sub_packet_len h p 0"

definition WPACKET_put_bytes :: "heap \<Rightarrow> WPACKET \<Rightarrow> u32 \<Rightarrow> nat \<Rightarrow> (bool \<times> WPACKET) option" where
  "WPACKET_put_bytes h p v sz =
     (if \<not> sz \<le> 4 then Some (False, p)
      else do {
        (ok, d, p) \<leftarrow> WPACKET_allocate_bytes h p sz;
        if \<not> ok then Some (False, p) else put_value p d (unat v) sz
      })"

definition WPACKET_set_max_size :: "WPACKET \<Rightarrow> nat \<Rightarrow> bool \<times> WPACKET" where
  "WPACKET_set_max_size p mx =
     (if subs p = [] then (False, p)
      else let lb = lenbytes (last (subs p));
               lb = (if lb = 0 then 8 else lb)
           in if maxmaxsize lb < mx \<or> mx < written p then (False, p)
              else (True, p\<lparr>maxsize := mx\<rparr>))"

definition store :: "WPACKET \<Rightarrow> nat option \<Rightarrow> bytes \<Rightarrow> WPACKET option" where
  "store p dest bs =
     (case dest of
        None \<Rightarrow> Some p
      | Some off \<Rightarrow>
          (case GETBUF p of
             None \<Rightarrow> None
           | Some m \<Rightarrow> map_option (set_GETBUF p) (mem_write m off bs)))"

definition WPACKET_memset :: "heap \<Rightarrow> WPACKET \<Rightarrow> byte \<Rightarrow> nat \<Rightarrow> (bool \<times> WPACKET) option" where
  "WPACKET_memset h p ch len =
     (if len = 0 then Some (True, p)
      else do {
        (ok, dest, p) \<leftarrow> WPACKET_allocate_bytes h p len;
        if \<not> ok then Some (False, p)
        else map_option (Pair True) (store p dest (replicate len ch))
      })"

definition WPACKET_memcpy :: "heap \<Rightarrow> WPACKET \<Rightarrow> bytes \<Rightarrow> nat \<Rightarrow> (bool \<times> WPACKET) option" where
  "WPACKET_memcpy h p src len =
     (if len = 0 then Some (True, p)
      else do {
        (ok, dest, p) \<leftarrow> WPACKET_allocate_bytes h p len;
        if \<not> ok then Some (False, p)
        else if dest = None then Some (True, p)
        else do {
          bs \<leftarrow> mem_read src 0 len;
          map_option (Pair True) (store p dest bs)
        }
      })"

definition WPACKET_sub_memcpy :: "heap \<Rightarrow> WPACKET \<Rightarrow> bytes \<Rightarrow> nat \<Rightarrow> nat \<Rightarrow> (bool \<times> WPACKET) option"
where
  "WPACKET_sub_memcpy h p src len lb = do {
     (ok, p) \<leftarrow> WPACKET_start_sub_packet_len h p lb;
     if \<not> ok then Some (False, p) else do {
       (ok, p) \<leftarrow> WPACKET_memcpy h p src len;
       if \<not> ok then Some (False, p) else WPACKET_close p
     }
   }"

definition WPACKET_sub_allocate_bytes ::
  "heap \<Rightarrow> WPACKET \<Rightarrow> nat \<Rightarrow> nat \<Rightarrow> (bool \<times> nat option \<times> WPACKET) option" where
  "WPACKET_sub_allocate_bytes h p len lb = do {
     (ok, p) \<leftarrow> WPACKET_start_sub_packet_len h p lb;
     if \<not> ok then Some (False, None, p) else do {
       (ok, d, p) \<leftarrow> WPACKET_allocate_bytes h p len;
       if \<not> ok then Some (False, None, p) else do {
         (ok, p) \<leftarrow> WPACKET_close p;
         Some (if \<not> ok then False else True, d, p)
       }
     }
   }"

definition WPACKET_get_total_written :: "WPACKET \<Rightarrow> nat" where
  "WPACKET_get_total_written p = written p"

definition WPACKET_get_length :: "WPACKET \<Rightarrow> nat option" where
  "WPACKET_get_length p =
     (case subs p of [] \<Rightarrow> None | sub # _ \<Rightarrow> Some (usub (written p) (pwritten sub)))"

definition WPACKET_is_null_buf :: "WPACKET \<Rightarrow> bool" where
  "WPACKET_is_null_buf p \<longleftrightarrow> wbuf p = None \<and> staticbuf p = None"

definition WPACKET_cleanup :: "WPACKET \<Rightarrow> WPACKET" where
  "WPACKET_cleanup p = p\<lparr>subs := []\<rparr>"

section \<open>Well-formed packets\<close>

text \<open>
  \<open>subs_ok e ss\<close>: the chain is nested within the first \<open>e\<close> bytes, every length field stands
  right before the contents it counts, inside its parent, and the outermost one at the start.
\<close>

fun subs_ok :: "nat \<Rightarrow> WPACKET_SUB list \<Rightarrow> bool" where
  "subs_ok e [] \<longleftrightarrow> True"
| "subs_ok e (s # ss) \<longleftrightarrow> pwritten s \<le> e \<and> lenbytes s \<le> pwritten s
     \<and> (lenbytes s > 0 \<longrightarrow> packet_len s = pwritten s - lenbytes s)
     \<and> (ss = [] \<longrightarrow> pwritten s = lenbytes s)
     \<and> subs_ok (pwritten s - lenbytes s) ss"

definition room_ok :: "WPACKET \<Rightarrow> bool" where
  "room_ok p \<longleftrightarrow> curr p = written p \<and> written p \<le> maxsize p \<and> maxsize p \<le> SIZE_MAX
     \<and> (\<forall>m. staticbuf p = Some m \<longrightarrow> wbuf p = None \<and> maxsize p \<le> length m)
     \<and> (\<forall>b. wbuf p = Some b \<longrightarrow> buf_ok b \<and> written p \<le> b_length b \<and> b_max b \<le> SIZE_MAX)"

definition wpacket_ok :: "WPACKET \<Rightarrow> bool" where
  "wpacket_ok p \<longleftrightarrow> room_ok p \<and> subs_ok (written p) (subs p)"

definition heap_ok :: "heap \<Rightarrow> bool" where
  "heap_ok h \<longleftrightarrow> allocator_ok (fst h) \<and> allocator_ok (snd h)"

text \<open>The block the packet is written to.\<close>

definition block :: "WPACKET \<Rightarrow> bytes" where
  "block p = (case GETBUF p of None \<Rightarrow> [] | Some m \<Rightarrow> m)"

lemma subs_ok_mono: "subs_ok e ss \<Longrightarrow> e \<le> f \<Longrightarrow> subs_ok f ss"
  by (cases ss) auto

lemma GETBUF_set [simp]: "GETBUF p = Some m \<Longrightarrow> GETBUF (set_GETBUF p m') = Some m'"
  by (auto simp: GETBUF_def set_GETBUF_def split: option.splits)

lemma set_GETBUF_frame [simp]:
  "curr (set_GETBUF p m) = curr p" "written (set_GETBUF p m) = written p"
  "maxsize (set_GETBUF p m) = maxsize p" "subs (set_GETBUF p m) = subs p"
  by (auto simp: set_GETBUF_def split: option.splits)

lemma is_null_set_GETBUF [simp]: "WPACKET_is_null_buf (set_GETBUF p m) = WPACKET_is_null_buf p"
  by (auto simp: set_GETBUF_def WPACKET_is_null_buf_def split: option.splits)

lemma room_ok_set_GETBUF:
  assumes "room_ok p" and "GETBUF p = Some m" and "length m' = length m"
  shows "room_ok (set_GETBUF p m')"
  using assms
  by (auto simp: room_ok_def set_GETBUF_def GETBUF_def buf_ok_def split: option.splits)

lemma room_ok_subs [simp]: "room_ok (p\<lparr>subs := ss\<rparr>) = room_ok p"
  by (simp add: room_ok_def)

lemma block_subs [simp]:
  "block (p\<lparr>subs := ss\<rparr>) = block p"
  "WPACKET_is_null_buf (p\<lparr>subs := ss\<rparr>) = WPACKET_is_null_buf p"
  by (simp_all add: block_def GETBUF_def WPACKET_is_null_buf_def split: option.splits)

lemma room_ok_bounds: "room_ok p \<Longrightarrow> written p \<le> SIZE_MAX \<and> curr p = written p"
  unfolding room_ok_def by linarith

lemma GETBUF_frame [simp]:
  "GETBUF (p\<lparr>subs := ss\<rparr>) = GETBUF p" "GETBUF (p\<lparr>written := w\<rparr>) = GETBUF p"
  "GETBUF (p\<lparr>curr := c\<rparr>) = GETBUF p"
  by (simp_all add: GETBUF_def split: option.splits)

lemma written_le_block:
  assumes "room_ok p" and "\<not> WPACKET_is_null_buf p"
  shows "written p \<le> length (block p)"
  using assms
  by (fastforce simp: room_ok_def block_def GETBUF_def buf_ok_def WPACKET_is_null_buf_def
      split: option.splits)

subsection \<open>Reserving and allocating\<close>

text \<open>The doubling strategy always asks for enough.\<close>

lemma newlen_enough:
  fixes l w len :: nat
  assumes "w \<le> l" and "l - w < len" and "l \<le> SIZE_MAX" and "w + len \<le> SIZE_MAX"
    and "reflen = (if len > l then len else l)"
    and "newlen = (if reflen > SIZE_MAX div 2 then SIZE_MAX
      else if reflen * 2 < DEFAULT_BUF_SIZE then DEFAULT_BUF_SIZE else reflen * 2)"
  shows "w + len \<le> newlen" and "0 < newlen" and "newlen \<le> SIZE_MAX"
  using assms by (auto simp: SIZE_MAX_def split: if_splits)

lemma grow_bounds:
  assumes "heap_ok h" and "buf_ok b" and "b_max b \<le> SIZE_MAX" and "0 < n" and "n \<le> SIZE_MAX"
  shows "\<exists>r b'. BUF_MEM_grow (fst h) (snd h) b n = Some (r, b') \<and> buf_ok b' \<and> b_max b' \<le> SIZE_MAX
    \<and> (if r = 0 then b' = b else b_length b' = n \<and> contents b' = resized (contents b) n
         \<and> b_data b' \<noteq> None)"
proof -
  obtain r b' where r: "BUF_MEM_grow (fst h) (snd h) b n = Some (r, b')" "buf_ok b'"
    and cases: "r = 0 \<and> n \<noteq> 0 \<and> b' = b
      \<or> r = n \<and> contents b' = resized (contents b) n \<and> b_length b' = n"
    using grow_spec [of "fst h" "snd h" b n] assms(1,2) unfolding heap_ok_def by blast
  have "b_max b' \<le> SIZE_MAX"
  proof (cases "b_max b < n \<and> n \<le> LIMIT_BEFORE_EXPANSION")
    case True
    then show ?thesis
      using r(1) assms(2,3)
      by (auto simp: BUF_MEM_grow_def BUF_MEM_expand_def buf_ok_def Let_def SIZE_MAX_def
          LIMIT_BEFORE_EXPANSION_def bind_eq_Some_conv split: if_splits option.splits)
  next
    case False
    then show ?thesis
      using r(1) assms(3)
      by (auto simp: BUF_MEM_grow_def BUF_MEM_expand_def bind_eq_Some_conv
          split: if_splits option.splits)
  qed
  moreover have "b_data b' \<noteq> None" if "r \<noteq> 0"
    using r(2) that cases assms(4) by (auto simp: buf_ok_def split: option.splits)
  ultimately show ?thesis
    using r cases assms(4) by auto
qed

definition same_content :: "WPACKET \<Rightarrow> WPACKET \<Rightarrow> bool" where
  "same_content p q \<longleftrightarrow> room_ok q \<and> written q = written p \<and> subs q = subs p
     \<and> maxsize q = maxsize p \<and> WPACKET_is_null_buf q = WPACKET_is_null_buf p
     \<and> staticbuf q = staticbuf p
     \<and> take (written p) (block q) = take (written p) (block p)"

lemma reserve_spec:
  assumes "room_ok p" and "heap_ok h"
  shows "\<exists>ok d q. WPACKET_reserve_bytes h p len = Some (ok, d, q)
    \<and> (if ok then same_content p q \<and> len \<noteq> 0 \<and> written p + len \<le> maxsize p
           \<and> (\<forall>b. wbuf q = Some b \<longrightarrow> written p + len \<le> b_length b)
           \<and> d = (if WPACKET_is_null_buf p then None else Some (written p))
       else q = p)"
proof -
  have max: "usub (maxsize p) (written p) = maxsize p - written p" "maxsize p \<le> SIZE_MAX"
      "written p \<le> maxsize p" "curr p = written p"
    using assms(1) by (auto simp: room_ok_def size_arith)
  consider "subs p = [] \<or> len = 0 \<or> maxsize p - written p < len"
    | b where "subs p \<noteq> []" "len \<noteq> 0" "len \<le> maxsize p - written p" "wbuf p = Some b"
        "b_length b - written p < len"
    | "subs p \<noteq> []" "len \<noteq> 0" "len \<le> maxsize p - written p"
        "\<forall>b. wbuf p = Some b \<longrightarrow> len \<le> b_length b - written p"
    by (cases "wbuf p") force+
  then show ?thesis
  proof cases
    case 1
    then show ?thesis by (auto simp: WPACKET_reserve_bytes_def max(1))
  next
    case 2
    have b: "buf_ok b" "written p \<le> b_length b" "b_max b \<le> SIZE_MAX" "b_length b \<le> SIZE_MAX"
      "staticbuf p = None"
      using assms(1) 2(4) by (cases "staticbuf p"; auto simp: room_ok_def buf_ok_def)+
    define reflen where "reflen = (if len > b_length b then len else b_length b)"
    define newlen where "newlen = (if reflen > SIZE_MAX div 2 then SIZE_MAX
      else if reflen * 2 < DEFAULT_BUF_SIZE then DEFAULT_BUF_SIZE else reflen * 2)"
    have n: "written p + len \<le> newlen" "0 < newlen" "newlen \<le> SIZE_MAX"
      using newlen_enough [OF b(2) 2(5) b(4) _ reflen_def newlen_def] 2(3) max by simp_all
    obtain r b' where g: "BUF_MEM_grow (fst h) (snd h) b newlen = Some (r, b')" "buf_ok b'"
      "b_max b' \<le> SIZE_MAX" "if r = 0 then b' = b else b_length b' = newlen
         \<and> contents b' = resized (contents b) newlen \<and> b_data b' \<noteq> None"
      using grow_bounds [OF assms(2) b(1,3) n(2,3)] by blast
    have us: "usub (b_length b) (written p) = b_length b - written p"
      using b by (simp add: size_arith)
    let ?q = "p\<lparr>wbuf := Some b'\<rparr>"
    have run: "WPACKET_reserve_bytes h p len =
        (if r = 0 then Some (False, None, ?q) else Some (True, WPACKET_get_curr ?q, ?q))"
      using 2 max us g(1) unfolding reflen_def newlen_def
      by (simp add: WPACKET_reserve_bytes_def Let_def del: if_split)
    show ?thesis
    proof (cases "r = 0")
      case True
      then have "?q = p"
        using g(4) 2(4) by (intro WPACKET.equality) simp_all
      with run True show ?thesis by auto
    next
      case False
      then have b': "b_length b' = newlen" "contents b' = resized (contents b) newlen"
        "b_data b' \<noteq> None" using g(4) by simp_all
      then obtain d' where d': "b_data b' = Some d'" by blast
      have "take (written p) (block ?q) = take (written p) (block p)"
      proof -
        have "take (written p) (contents b') = take (written p) (contents b)"
          using b'(2) n b(1,2) 2(3) length_contents [OF b(1)]
          by (simp add: resized_def min_def)
        then have "take (written p) d' = take (written p) (contents b)"
          using d' b'(1) n by (simp add: contents_def min_def)
        also have "\<dots> = take (written p) (case b_data b of None \<Rightarrow> [] | Some d \<Rightarrow> d)"
          using b(2) by (simp add: contents_def min_def split: option.splits)
        finally show ?thesis
          using d' b(5) 2(4) by (simp add: block_def GETBUF_def)
      qed
      moreover have "room_ok ?q"
        using assms(1) b' b(2,5) n g(2,3) by (auto simp: room_ok_def)
      ultimately have "same_content p ?q"
        using 2(4) by (simp add: same_content_def WPACKET_is_null_buf_def)
      moreover have "WPACKET_get_curr ?q = Some (written p)"
        using d' b(5) max(4) by (simp add: WPACKET_get_curr_def GETBUF_def)
      moreover have "WPACKET_reserve_bytes h p len = Some (True, WPACKET_get_curr ?q, ?q)"
        using run False by simp
      moreover have "written p + len \<le> maxsize p"
        using 2(3) max(3) by linarith
      ultimately show ?thesis
        using 2(2,4) n(1) b'(1)
        by (intro exI [of _ True] exI [of _ "Some (written p)"] exI [of _ ?q])
          (simp add: WPACKET_is_null_buf_def)
    qed
  next
    case 3
    have "WPACKET_get_curr p = (if WPACKET_is_null_buf p then None else Some (written p))"
    proof (cases "wbuf p")
      case None
      then show ?thesis
        using max(4) by (simp add: WPACKET_get_curr_def GETBUF_def WPACKET_is_null_buf_def
            split: option.splits)
    next
      case (Some b)
      with 3(2,4) assms(1) have "b_data b \<noteq> None"
        by (auto simp: room_ok_def buf_ok_def split: option.splits)
      with Some assms(1) max(4) show ?thesis
        by (auto simp: WPACKET_get_curr_def GETBUF_def WPACKET_is_null_buf_def room_ok_def
            split: option.splits)
    qed
    moreover have "WPACKET_reserve_bytes h p len = Some (True, WPACKET_get_curr p, p)"
    proof (cases "wbuf p")
      case None
      with 3 max show ?thesis by (simp add: WPACKET_reserve_bytes_def)
    next
      case (Some b)
      with assms(1) have "usub (b_length b) (written p) = b_length b - written p"
        by (auto simp: room_ok_def buf_ok_def size_arith)
      with Some 3 max show ?thesis by (simp add: WPACKET_reserve_bytes_def)
    qed
    ultimately show ?thesis
      using 3 max assms(1) by (auto simp: same_content_def room_ok_def)
  qed
qed

text \<open>A successful allocation: \<open>len\<close> more bytes at the end, everything before them kept.\<close>

definition extends :: "WPACKET \<Rightarrow> nat \<Rightarrow> WPACKET \<Rightarrow> bool" where
  "extends p len q \<longleftrightarrow> room_ok q \<and> written q = written p + len \<and> subs q = subs p
     \<and> WPACKET_is_null_buf q = WPACKET_is_null_buf p \<and> maxsize q = maxsize p
     \<and> map_option length (staticbuf q) = map_option length (staticbuf p)
     \<and> take (written p) (block q) = take (written p) (block p)"

lemma allocate_spec:
  assumes "room_ok p" and "heap_ok h"
  shows "\<exists>ok d q. WPACKET_allocate_bytes h p len = Some (ok, d, q)
    \<and> (if ok then extends p len q \<and> len \<noteq> 0
           \<and> d = (if WPACKET_is_null_buf p then None else Some (written p))
       else q = p)"
proof -
  obtain ok d q where r: "WPACKET_reserve_bytes h p len = Some (ok, d, q)"
    and res: "if ok then same_content p q \<and> len \<noteq> 0 \<and> written p + len \<le> maxsize p
           \<and> (\<forall>b. wbuf q = Some b \<longrightarrow> written p + len \<le> b_length b)
           \<and> d = (if WPACKET_is_null_buf p then None else Some (written p)) else q = p"
    using reserve_spec [OF assms] by blast
  show ?thesis
  proof (cases ok)
    case False
    with r res show ?thesis by (auto simp: WPACKET_allocate_bytes_def)
  next
    case True
    let ?q = "q\<lparr>written := written p + len, curr := written p + len\<rparr>"
    have q: "same_content p q" "written p + len \<le> maxsize p" "len \<noteq> 0"
      "\<And>b. wbuf q = Some b \<Longrightarrow> written p + len \<le> b_length b"
      "d = (if WPACKET_is_null_buf p then None else Some (written p))"
      using res True by simp_all
    have "curr q = written p" "written q = written p" "written p + len \<le> SIZE_MAX"
      using q(1,2) assms(1) by (auto simp: same_content_def room_ok_def)
    then have "WPACKET_allocate_bytes h p len = Some (True, d, ?q)"
      using r True by (simp add: WPACKET_allocate_bytes_def size_arith)
    moreover have "extends p len ?q"
      using q(1,2,4) by (auto simp: extends_def same_content_def room_ok_def block_def
          WPACKET_is_null_buf_def)
    ultimately show ?thesis
      using q(3,5) by auto
  qed
qed

subsection \<open>Storing\<close>

lemma GETBUF_block:
  assumes "room_ok p" and "\<not> WPACKET_is_null_buf p" and "0 < written p"
  shows "GETBUF p = Some (block p)"
  using written_le_block [OF assms(1,2)] assms(3)
  by (auto simp: block_def split: option.splits)

lemma byte_of_nat_mod: "(of_nat (v mod 256) :: byte) = of_nat v"
  by (simp add: word_unat_eq_iff unat_of_nat)

lemma put_value_loop_spec:
  "off + n \<le> length m \<Longrightarrow>
     put_value_loop m off v n = Some (take off m @ be_bytes n v @ drop (off + n) m, v div 256 ^ n)"
proof (induction n arbitrary: m v)
  case 0
  then show ?case by simp
next
  case (Suc n)
  let ?b = "of_nat (v mod 256) :: byte"
  have "drop (off + n) (m[off + n := ?b]) = ?b # drop (off + Suc n) m"
    using Suc.prems by (simp add: Cons_nth_drop_Suc [symmetric])
  with Suc show ?case
    by (simp add: byte_of_nat_mod div_mult2_eq)
qed

lemma block_set_GETBUF: "GETBUF p = Some m \<Longrightarrow> block (set_GETBUF p m') = m'"
  by (simp add: block_def)

lemma static_set_GETBUF:
  "GETBUF p = Some m \<Longrightarrow> length m' = length m
     \<Longrightarrow> map_option length (staticbuf (set_GETBUF p m')) = map_option length (staticbuf p)"
  by (auto simp: set_GETBUF_def GETBUF_def split: option.splits)

text \<open>\<open>appended p bs q\<close>: \<open>q\<close> is \<open>p\<close> with \<open>bs\<close> written behind what was there.\<close>

definition appended :: "WPACKET \<Rightarrow> bytes \<Rightarrow> WPACKET \<Rightarrow> bool" where
  "appended p bs q \<longleftrightarrow> room_ok q \<and> written q = written p + length bs \<and> subs q = subs p
     \<and> \<not> WPACKET_is_null_buf q \<and> maxsize q = maxsize p
     \<and> map_option length (staticbuf q) = map_option length (staticbuf p)
     \<and> take (written q) (block q) = take (written p) (block p) @ bs"

lemma write_extended:
  assumes "extends p (length bs) q" and "\<not> WPACKET_is_null_buf p" and "bs \<noteq> []"
    and "room_ok p"
  shows "\<exists>m'. mem_write (block q) (written p) bs = Some m' \<and> GETBUF q = Some (block q)
    \<and> appended p bs (set_GETBUF q m')"
proof -
  have q: "room_ok q" "written q = written p + length bs" "\<not> WPACKET_is_null_buf q"
    using assms(1,2) by (simp_all add: extends_def)
  have le: "written p + length bs \<le> length (block q)"
    using written_le_block [OF q(1,3)] q(2) by simp
  then obtain m' where m': "mem_write (block q) (written p) bs = Some m'"
    using mem_write_total by blast
  have gb: "GETBUF q = Some (block q)"
    using GETBUF_block [OF q(1,3)] q(2) assms(3) by simp
  have len: "length m' = length (block q)"
    using length_mem_write [OF m'] .
  have "take (written q) m' = take (written p) (block p) @ bs"
    using m' le q(2) assms(1) written_le_block [OF assms(4,2)]
    by (auto simp: mem_write_def extends_def split: if_splits)
  moreover have "room_ok (set_GETBUF q m')"
    using room_ok_set_GETBUF [OF q(1) gb len] .
  ultimately show ?thesis
    using m' gb q(3) static_set_GETBUF [OF gb len] block_set_GETBUF [OF gb] assms(1)
    by (simp add: appended_def extends_def)
qed

lemma put_loop_is_write:
  "off + n \<le> length m \<Longrightarrow>
     put_value_loop m off v n = map_option (\<lambda>m'. (m', v div 256 ^ n)) (mem_write m off (be_bytes n v))"
  by (simp add: put_value_loop_spec mem_write_def)

section \<open>The abstract writer\<close>

text \<open>
  Abstractly a packet under construction is a stack of frames: the width of the length prefix, the
  flags and the contents so far of every open sub-packet. Closing a frame appends the prefix and
  the contents to the frame below.
\<close>

type_synonym frame = "nat \<times> u32 \<times> bytes"

fun abs_put :: "bytes \<Rightarrow> frame list \<Rightarrow> frame list option" where
  "abs_put bs [] = None"
| "abs_put bs ((lb, fl, c) # fs) = Some ((lb, fl, c @ bs) # fs)"

definition abs_start :: "nat \<Rightarrow> frame list \<Rightarrow> frame list option" where
  "abs_start lb fs = (if fs = [] then None else Some ((lb, 0, []) # fs))"

definition abs_output :: "frame \<Rightarrow> bytes option" where
  "abs_output f =
     (case f of (lb, fl, c) \<Rightarrow>
        if c = [] \<and> fl AND WPACKET_FLAGS_NON_ZERO_LENGTH \<noteq> 0 then None
        else if c = [] \<and> fl AND WPACKET_FLAGS_ABANDON_ON_ZERO_LENGTH \<noteq> 0 then Some []
        else if lb > 0 \<and> 256 ^ lb \<le> length c then None
        else Some (be_bytes lb (length c) @ c))"

fun abs_close :: "frame list \<Rightarrow> frame list option" where
  "abs_close (f # g # fs) =
     (case abs_output f of None \<Rightarrow> None | Some bs \<Rightarrow> abs_put bs (g # fs))"
| "abs_close _ = None"

fun frames :: "bytes \<Rightarrow> nat \<Rightarrow> WPACKET_SUB list \<Rightarrow> frame list" where
  "frames m e [] = []"
| "frames m e (s # ss) =
     (lenbytes s, sub_flags s, drop (pwritten s) (take e m)) # frames m (pwritten s - lenbytes s) ss"

definition wpacket_abs :: "WPACKET \<Rightarrow> frame list" where
  "wpacket_abs p = frames (block p) (written p) (subs p)"

lemma frames_cong: "take e m = take e m' \<Longrightarrow> subs_ok e ss \<Longrightarrow> frames m e ss = frames m' e ss"
proof (induction ss arbitrary: e)
  case Nil
  then show ?case by simp
next
  case (Cons s ss)
  then have "pwritten s - lenbytes s \<le> e" by auto
  then have "take (pwritten s - lenbytes s) m = take (pwritten s - lenbytes s) m'"
    using Cons.prems(1) by (metis min.absorb1 take_take)
  with Cons show ?case by simp
qed

lemma frames_append:
  assumes "subs_ok e ss" and "ss \<noteq> []" and "e \<le> length m"
    and "take e' m' = take e m @ bs"
  shows "abs_put bs (frames m e ss) = Some (frames m' e' ss)"
proof -
  obtain s ss' where ss: "ss = s # ss'"
    using assms(2) by (cases ss) auto
  have le: "pwritten s - lenbytes s \<le> e" "pwritten s \<le> e" "subs_ok (pwritten s - lenbytes s) ss'"
    using assms(1) ss by auto
  have "take e (take e' m') = take e m"
    using assms(3,4) by simp
  moreover have "e \<le> e'"
    using assms(3,4) by (metis append_take_drop_id append.assoc length_append length_take
        le_add1 min.absorb2 min.bounded_iff)
  ultimately have "take e m' = take e m"
    by (simp add: min_def)
  then have "take (pwritten s - lenbytes s) m = take (pwritten s - lenbytes s) m'"
    using le(1) by (metis min.absorb1 take_take)
  then have "frames m (pwritten s - lenbytes s) ss' = frames m' (pwritten s - lenbytes s) ss'"
    using le(3) by (rule frames_cong)
  then show ?thesis
    using assms(3,4) le(2) by (simp add: ss)
qed

lemma appended_abs:
  assumes "appended p bs q" and "wpacket_ok p" and "subs p \<noteq> []" and "\<not> WPACKET_is_null_buf p"
  shows "wpacket_ok q \<and> abs_put bs (wpacket_abs p) = Some (wpacket_abs q)"
proof
  have ok: "room_ok p" "subs_ok (written p) (subs p)"
    using assms(2) by (simp_all add: wpacket_ok_def)
  show "wpacket_ok q"
    using assms(1) ok(2) subs_ok_mono [of "written p" "subs p" "written q"]
    by (simp add: wpacket_ok_def appended_def)
  have q: "take (written q) (block q) = take (written p) (block p) @ bs" "subs q = subs p"
    using assms(1) unfolding appended_def by blast+
  show "abs_put bs (wpacket_abs p) = Some (wpacket_abs q)"
    using frames_append [OF ok(2) assms(3) written_le_block [OF ok(1) assms(4)] q(1)] q(2)
    by (simp add: wpacket_abs_def)
qed

section \<open>The operations refine the abstract writer\<close>

lemma allocate_subs: "WPACKET_allocate_bytes h p len = Some (True, d, q) \<Longrightarrow> subs p \<noteq> []"
  by (auto simp: WPACKET_allocate_bytes_def WPACKET_reserve_bytes_def split: if_splits)

text \<open>Allocating and filling the allocated bytes, the common shape of the writing operations.\<close>

lemma allocate_write:
  assumes "room_ok p" and "heap_ok h" and "\<not> WPACKET_is_null_buf p" and "length bs = len"
  shows "\<exists>ok d q. WPACKET_allocate_bytes h p len = Some (ok, d, q)
    \<and> (if ok then subs p \<noteq> [] \<and> bs \<noteq> [] \<and> d = Some (written p) \<and> GETBUF q = Some (block q)
           \<and> written p + len \<le> length (block q)
           \<and> (\<exists>m'. mem_write (block q) (written p) bs = Some m' \<and> appended p bs (set_GETBUF q m'))
       else q = p)"
proof -
  obtain ok d q where a: "WPACKET_allocate_bytes h p len = Some (ok, d, q)"
    "if ok then extends p len q \<and> len \<noteq> 0
       \<and> d = (if WPACKET_is_null_buf p then None else Some (written p)) else q = p"
    using allocate_spec [OF assms(1,2)] by blast
  show ?thesis
  proof (cases ok)
    case False
    with a show ?thesis by auto
  next
    case True
    then have q: "extends p (length bs) q" "bs \<noteq> []" "d = Some (written p)" "subs p \<noteq> []"
      using a assms(3,4) allocate_subs [of h p len d q] by auto
    obtain m' where m': "mem_write (block q) (written p) bs = Some m'" "GETBUF q = Some (block q)"
      "appended p bs (set_GETBUF q m')"
      using write_extended [OF q(1) assms(3) q(2) assms(1)] by blast
    with a(1) True q assms(4) mem_write_bound [OF m'(1)] show ?thesis by auto
  qed
qed

lemma memcpy_spec:
  assumes "room_ok p" and "heap_ok h" and "\<not> WPACKET_is_null_buf p"
  shows "\<exists>ok q. WPACKET_memcpy h p bs (length bs) = Some (ok, q)
    \<and> (if bs = [] then ok \<and> q = p else if ok then subs p \<noteq> [] \<and> appended p bs q else q = p)"
proof -
  obtain ok d q where a: "WPACKET_allocate_bytes h p (length bs) = Some (ok, d, q)"
    "if ok then subs p \<noteq> [] \<and> bs \<noteq> [] \<and> d = Some (written p) \<and> GETBUF q = Some (block q)
           \<and> written p + length bs \<le> length (block q)
           \<and> (\<exists>m'. mem_write (block q) (written p) bs = Some m' \<and> appended p bs (set_GETBUF q m'))
       else q = p"
    using allocate_write [OF assms refl] by blast
  then show ?thesis
    by (cases ok) (auto simp: WPACKET_memcpy_def store_def mem_read_def)
qed

lemma memset_spec:
  assumes "room_ok p" and "heap_ok h" and "\<not> WPACKET_is_null_buf p"
  shows "\<exists>ok q. WPACKET_memset h p c n = Some (ok, q)
    \<and> (if n = 0 then ok \<and> q = p
       else if ok then subs p \<noteq> [] \<and> appended p (replicate n c) q else q = p)"
proof -
  obtain ok d q where a: "WPACKET_allocate_bytes h p n = Some (ok, d, q)"
    "if ok then subs p \<noteq> [] \<and> replicate n c \<noteq> [] \<and> d = Some (written p)
           \<and> GETBUF q = Some (block q) \<and> written p + n \<le> length (block q)
           \<and> (\<exists>m'. mem_write (block q) (written p) (replicate n c) = Some m'
                \<and> appended p (replicate n c) (set_GETBUF q m'))
       else q = p"
    using allocate_write [OF assms length_replicate] by blast
  then show ?thesis
    by (cases ok) (auto simp: WPACKET_memset_def store_def)
qed

lemma put_bytes_spec:
  assumes "room_ok p" and "heap_ok h" and "\<not> WPACKET_is_null_buf p"
  shows "\<exists>ok q. WPACKET_put_bytes h p v sz = Some (ok, q)
    \<and> (ok \<longrightarrow> 0 < sz \<and> sz \<le> 4 \<and> unat v < 256 ^ sz \<and> subs p \<noteq> []
         \<and> appended p (be_bytes sz (unat v)) q)"
proof (cases "sz \<le> 4")
  case True
  obtain ok d q where a: "WPACKET_allocate_bytes h p sz = Some (ok, d, q)"
    "if ok then subs p \<noteq> [] \<and> be_bytes sz (unat v) \<noteq> [] \<and> d = Some (written p)
           \<and> GETBUF q = Some (block q) \<and> written p + sz \<le> length (block q)
           \<and> (\<exists>m'. mem_write (block q) (written p) (be_bytes sz (unat v)) = Some m'
                \<and> appended p (be_bytes sz (unat v)) (set_GETBUF q m'))
       else q = p"
    using allocate_write [OF assms length_be_bytes] by blast
  show ?thesis
  proof (cases ok)
    case False
    with a True show ?thesis by (auto simp: WPACKET_put_bytes_def)
  next
    case ok: True
    with a obtain m' where m': "mem_write (block q) (written p) (be_bytes sz (unat v)) = Some m'"
      "appended p (be_bytes sz (unat v)) (set_GETBUF q m')" by auto
    have "unat v div 256 ^ sz = 0 \<longleftrightarrow> unat v < 256 ^ sz"
      by (simp add: div_eq_0_iff)
    moreover have "0 < sz"
      using a(2) ok by (cases sz) auto
    ultimately show ?thesis
      using a ok True m'
      by (auto simp: WPACKET_put_bytes_def put_value_def put_loop_is_write)
  qed
qed (auto simp: WPACKET_put_bytes_def)

lemma start_spec:
  assumes "wpacket_ok p" and "heap_ok h" and "\<not> WPACKET_is_null_buf p"
  shows "\<exists>ok q. WPACKET_start_sub_packet_len h p lb = Some (ok, q)
    \<and> (ok \<longrightarrow> wpacket_ok q \<and> \<not> WPACKET_is_null_buf q
         \<and> map_option length (staticbuf q) = map_option length (staticbuf p)
         \<and> abs_start lb (wpacket_abs p) = Some (wpacket_abs q))"
proof (cases "subs p = [] \<or> fst h 40 = None")
  case True
  then have "WPACKET_start_sub_packet_len h p lb = Some (False, p)"
    by (auto simp: WPACKET_start_sub_packet_len_def)
  then show ?thesis by blast
next
  case False
  have ok: "room_ok p" "subs_ok (written p) (subs p)" "written p \<le> SIZE_MAX"
    using assms(1) room_ok_bounds by (auto simp: wpacket_ok_def)
  define sub where "sub = \<lparr>packet_len = (if lb = 0 then 0 else written p), lenbytes = lb,
    pwritten = uadd (written p) lb, sub_flags = 0\<rparr>"
  let ?p = "p\<lparr>subs := sub # subs p\<rparr>"
  have run: "WPACKET_start_sub_packet_len h p lb = (if lb = 0 then Some (True, ?p) else do {
      (ok, d, q) \<leftarrow> WPACKET_allocate_bytes h ?p lb; Some (if \<not> ok then False else True, q) })"
    using False unfolding sub_def
    by (auto simp: WPACKET_start_sub_packet_len_def Let_def)
  have ne: "wpacket_abs p \<noteq> []"
    using False by (cases "subs p") (auto simp: wpacket_abs_def)
  show ?thesis
  proof (cases "lb = 0")
    case True
    have "wpacket_ok ?p"
      using ok True False by (auto simp: wpacket_ok_def sub_def size_arith)
    moreover have "wpacket_abs ?p = (lb, 0, []) # wpacket_abs p"
      using True ok(3) by (simp add: wpacket_abs_def sub_def block_def size_arith)
    ultimately show ?thesis
      using run True ne assms(3)
      by (intro exI [of _ True] exI [of _ ?p]) (simp add: abs_start_def WPACKET_is_null_buf_def)
  next
    case lb: False
    obtain aok d q where a: "WPACKET_allocate_bytes h ?p lb = Some (aok, d, q)"
      "if aok then extends ?p lb q else q = ?p"
      using allocate_spec [of ?p h lb] ok(1) assms(2) by auto
    show ?thesis
    proof (cases aok)
      case False
      with a run lb have "WPACKET_start_sub_packet_len h p lb = Some (False, q)" by simp
      then show ?thesis by blast
    next
      case True
      then have q: "room_ok q" "written q = written p + lb" "subs q = sub # subs p"
        "take (written p) (block q) = take (written p) (block p)" "\<not> WPACKET_is_null_buf q"
        "map_option length (staticbuf q) = map_option length (staticbuf p)"
        using a(2) assms(3)
        by (simp_all add: extends_def WPACKET_is_null_buf_def block_def)
      then have pw: "uadd (written p) lb = written p + lb"
        by (simp add: room_ok_def size_arith)
      have "wpacket_ok q"
        using q ok(2) pw False by (auto simp: wpacket_ok_def sub_def)
      moreover have "wpacket_abs q = (lb, 0, []) # wpacket_abs p"
        using q(2-4) pw frames_cong [OF q(4) ok(2)] by (simp add: wpacket_abs_def sub_def)
      ultimately show ?thesis
        using run lb a(1) True ne q(5,6)
        by (intro exI [of _ True] exI [of _ q]) (simp add: abs_start_def)
    qed
  qed
qed

text \<open>Closing, for \<open>WPACKET_close\<close> and \<open>WPACKET_finish\<close> alike.\<close>

definition closed_to :: "WPACKET \<Rightarrow> WPACKET_SUB \<Rightarrow> WPACKET_SUB list \<Rightarrow> bytes \<Rightarrow> WPACKET \<Rightarrow> bool" where
  "closed_to p s ss bs q \<longleftrightarrow> room_ok q \<and> subs q = ss \<and> \<not> WPACKET_is_null_buf q
     \<and> maxsize q = maxsize p
     \<and> map_option length (staticbuf q) = map_option length (staticbuf p)
     \<and> written q = pwritten s - lenbytes s + length bs
     \<and> take (written q) (block q) = take (pwritten s - lenbytes s) (block p) @ bs"

lemma close_prefix_spec:
  assumes "room_ok p" and "\<not> WPACKET_is_null_buf p" and "0 < lenbytes s"
    and "pwritten s \<le> written p" and "lenbytes s \<le> pwritten s"
    and "packet_len s = pwritten s - lenbytes s"
  shows "\<exists>q. put_value p (Some (packet_len s)) (written p - pwritten s) (lenbytes s)
      = Some (written p - pwritten s < 256 ^ lenbytes s, q)
    \<and> closed_to p s (subs p) (be_bytes (lenbytes s) (written p - pwritten s)
        @ drop (pwritten s) (take (written p) (block p))) q"
proof -
  have gb: "GETBUF p = Some (block p)"
    using GETBUF_block [OF assms(1,2)] assms(3-5) by simp
  have le: "written p \<le> length (block p)"
    by (rule written_le_block [OF assms(1,2)])
  let ?pre = "be_bytes (lenbytes s) (written p - pwritten s)"
  have "pwritten s - lenbytes s + lenbytes s \<le> length (block p)"
    using le assms(4,5) by linarith
  then obtain m' where m': "mem_write (block p) (pwritten s - lenbytes s) ?pre = Some m'"
    using mem_write_total [of _ ?pre] by auto
  have "m' = take (pwritten s - lenbytes s) (block p) @ ?pre @ drop (pwritten s) (block p)"
    using m' assms(5) by (auto simp: mem_write_def split: if_splits)
  then have take: "take (written p) m' = take (pwritten s - lenbytes s) (block p) @ ?pre
      @ drop (pwritten s) (take (written p) (block p))"
    using le assms(4,5) by (simp add: drop_take)
  have len: "length m' = length (block p)"
    using length_mem_write [OF m'] .
  have "room_ok (set_GETBUF p m')"
    using room_ok_set_GETBUF [OF assms(1) gb len] .
  then have "closed_to p s (subs p) (?pre @ drop (pwritten s) (take (written p) (block p)))
      (set_GETBUF p m')"
    using take le assms(2,4,5) static_set_GETBUF [OF gb len] block_set_GETBUF [OF gb]
    by (simp add: closed_to_def)
  moreover have "put_value p (Some (packet_len s)) (written p - pwritten s) (lenbytes s)
      = Some (written p - pwritten s < 256 ^ lenbytes s, set_GETBUF p m')"
    using gb m' le assms(4-6)
    by (auto simp: put_value_def put_loop_is_write div_greater_zero_iff)
  ultimately show ?thesis by blast
qed

lemma intern_close_spec:
  assumes "wpacket_ok p" and "\<not> WPACKET_is_null_buf p" and "subs p = s # ss"
  shows "\<exists>ok q. wpacket_intern_close p s ss True = Some (ok, q)
    \<and> (case abs_output (hd (wpacket_abs p)) of None \<Rightarrow> \<not> ok
       | Some bs \<Rightarrow> ok \<and> closed_to p s ss bs q)"
proof -
  let ?c = "drop (pwritten s) (take (written p) (block p))"
  have ok: "room_ok p" "pwritten s \<le> written p" "lenbytes s \<le> pwritten s"
    "lenbytes s > 0 \<longrightarrow> packet_len s = pwritten s - lenbytes s"
    using assms(1,3) by (simp_all add: wpacket_ok_def)
  have le: "written p \<le> length (block p)"
    by (rule written_le_block [OF ok(1) assms(2)])
  have bounds: "written p \<le> SIZE_MAX" "curr p = written p"
    using room_ok_bounds [OF ok(1)] by simp_all
  have c: "length ?c = written p - pwritten s" "?c = [] \<longleftrightarrow> written p = pwritten s"
    using le ok(2) by auto
  have us: "usub (written p) (pwritten s) = written p - pwritten s"
    "usub (curr p) (lenbytes s) = written p - lenbytes s"
    "usub (written p) (lenbytes s) = written p - lenbytes s"
    using bounds ok(2,3) by (simp_all add: size_arith)
  have hd: "hd (wpacket_abs p) = (lenbytes s, sub_flags s, ?c)"
    using assms(3) by (simp add: wpacket_abs_def)
  consider (nonzero) "?c = []" "sub_flags s AND WPACKET_FLAGS_NON_ZERO_LENGTH \<noteq> 0"
    | (abandon) "?c = []" "sub_flags s AND WPACKET_FLAGS_NON_ZERO_LENGTH = 0"
        "sub_flags s AND WPACKET_FLAGS_ABANDON_ON_ZERO_LENGTH \<noteq> 0"
    | (prefixed) "\<not> (?c = [] \<and> sub_flags s AND WPACKET_FLAGS_NON_ZERO_LENGTH \<noteq> 0)"
        "\<not> (?c = [] \<and> sub_flags s AND WPACKET_FLAGS_ABANDON_ON_ZERO_LENGTH \<noteq> 0)"
    by blast
  then show ?thesis
  proof cases
    case nonzero
    then have "wpacket_intern_close p s ss True = Some (False, p)"
      using c(2) us(1) by (simp add: wpacket_intern_close_def Let_def)
    moreover have "abs_output (hd (wpacket_abs p)) = None"
      using nonzero by (simp add: hd abs_output_def)
    ultimately show ?thesis by auto
  next
    case abandon
    define q where "q = (if usub (curr p) (lenbytes s) = packet_len s
      then p\<lparr>written := usub (written p) (lenbytes s), curr := usub (curr p) (lenbytes s)\<rparr> else p)"
    have q: "written q = pwritten s - lenbytes s" "curr q = written q" "block q = block p"
      "WPACKET_is_null_buf q = WPACKET_is_null_buf p" "staticbuf q = staticbuf p"
      "wbuf q = wbuf p" "maxsize q = maxsize p"
      using c(2) abandon(1) us ok(4) bounds
      by (auto simp: q_def block_def WPACKET_is_null_buf_def)
    have "wpacket_intern_close p s ss True = Some (True, q\<lparr>subs := ss\<rparr>)"
      using abandon c(2) us(1) unfolding q_def
      by (simp add: wpacket_intern_close_def Let_def del: if_split)
    moreover have "abs_output (hd (wpacket_abs p)) = Some []"
      using abandon by (simp add: hd abs_output_def)
    moreover have "room_ok q"
      using ok(1) q c(2) abandon(1) by (fastforce simp: room_ok_def)
    ultimately show ?thesis
      using q assms(2) by (auto simp: closed_to_def)
  next
    case prefixed
    have nz: "\<not> (written p - pwritten s = 0 \<and> sub_flags s AND WPACKET_FLAGS_NON_ZERO_LENGTH \<noteq> 0)"
      "\<not> (written p - pwritten s = 0 \<and> sub_flags s AND WPACKET_FLAGS_ABANDON_ON_ZERO_LENGTH \<noteq> 0)"
      using prefixed c(2) ok(2) by auto
    show ?thesis
    proof (cases "lenbytes s = 0")
      case True
      have "wpacket_intern_close p s ss True = Some (True, p\<lparr>subs := ss\<rparr>)"
        using nz True us(1) by (auto simp: wpacket_intern_close_def Let_def)
      moreover have "abs_output (hd (wpacket_abs p)) = Some ?c"
        using prefixed True unfolding hd abs_output_def by auto
      moreover have "closed_to p s ss ?c (p\<lparr>subs := ss\<rparr>)"
        using ok(1,2) True assms(2) le
        by (simp add: closed_to_def block_def WPACKET_is_null_buf_def)
          (metis append_take_drop_id min.absorb1 take_take)
      ultimately show ?thesis by auto
    next
      case False
      obtain q where q: "put_value p (Some (packet_len s)) (written p - pwritten s) (lenbytes s)
          = Some (written p - pwritten s < 256 ^ lenbytes s, q)"
        "closed_to p s (subs p) (be_bytes (lenbytes s) (written p - pwritten s) @ ?c) q"
        using close_prefix_spec [OF ok(1) assms(2) _ ok(2,3)] ok(4) False by blast
      have gb: "GETBUF p = Some (block p)"
        using GETBUF_block [OF ok(1) assms(2)] ok(2,3) False by simp
      have "wpacket_intern_close p s ss True =
          (if written p - pwritten s < 256 ^ lenbytes s then Some (True, q\<lparr>subs := ss\<rparr>)
           else Some (False, q))"
        using nz False us(1) gb q(1) by (auto simp: wpacket_intern_close_def Let_def)
      moreover have "abs_output (hd (wpacket_abs p)) =
          (if written p - pwritten s < 256 ^ lenbytes s
           then Some (be_bytes (lenbytes s) (written p - pwritten s) @ ?c) else None)"
        using prefixed False c(1) unfolding hd abs_output_def by auto
      moreover have "closed_to p s ss (be_bytes (lenbytes s) (written p - pwritten s) @ ?c)
          (q\<lparr>subs := ss\<rparr>)"
        using q(2) by (auto simp: closed_to_def)
      ultimately show ?thesis by auto
    qed
  qed
qed

lemma subs_frames: "subs p = [] \<longleftrightarrow> wpacket_abs p = []"
  by (cases "subs p") (simp_all add: wpacket_abs_def)

text \<open>What every operation keeps, and the length of a caller's buffer.\<close>

definition writer_ok :: "WPACKET \<Rightarrow> bool" where
  "writer_ok p \<longleftrightarrow> wpacket_ok p \<and> \<not> WPACKET_is_null_buf p"

abbreviation static_len :: "WPACKET \<Rightarrow> nat option" where
  "static_len p \<equiv> map_option length (staticbuf p)"

lemma close_spec:
  assumes "writer_ok p"
  shows "\<exists>ok q. WPACKET_close p = Some (ok, q)
    \<and> (ok \<longrightarrow> writer_ok q \<and> static_len q = static_len p
         \<and> abs_close (wpacket_abs p) = Some (wpacket_abs q))
    \<and> (\<not> ok \<longrightarrow> abs_close (wpacket_abs p) = None)"
proof -
  have p: "wpacket_ok p" "\<not> WPACKET_is_null_buf p"
    using assms by (simp_all add: writer_ok_def)
  consider "subs p = []" | s where "subs p = [s]" | s t ss where "subs p = s # t # ss"
    by (metis list.exhaust)
  then show ?thesis
  proof cases
    case 1
    then show ?thesis by (auto simp: WPACKET_close_def wpacket_abs_def)
  next
    case 2
    then show ?thesis by (auto simp: WPACKET_close_def wpacket_abs_def)
  next
    case 3
    obtain ok q where q: "wpacket_intern_close p s (t # ss) True = Some (ok, q)"
      "case abs_output (hd (wpacket_abs p)) of None \<Rightarrow> \<not> ok
       | Some bs \<Rightarrow> ok \<and> closed_to p s (t # ss) bs q"
      using intern_close_spec [OF p 3] by blast
    have abs: "abs_close (wpacket_abs p) = (case abs_output (hd (wpacket_abs p)) of None \<Rightarrow> None
        | Some bs \<Rightarrow> abs_put bs (frames (block p) (pwritten s - lenbytes s) (t # ss)))"
      using 3 by (simp add: wpacket_abs_def split: option.split)
    show ?thesis
    proof (cases "abs_output (hd (wpacket_abs p))")
      case None
      with q 3 abs show ?thesis by (auto simp: WPACKET_close_def)
    next
      case (Some bs)
      then have cl: "ok" "closed_to p s (t # ss) bs q" using q(2) by simp_all
      have ok: "subs_ok (pwritten s - lenbytes s) (t # ss)" "pwritten s - lenbytes s \<le> written p"
        using p(1) 3 by (auto simp: wpacket_ok_def)
      have le: "pwritten s - lenbytes s \<le> length (block p)"
        using written_le_block [of p] p ok(2) by (simp add: wpacket_ok_def)
      have qs: "subs q = t # ss" "room_ok q" "written q = pwritten s - lenbytes s + length bs"
        "take (written q) (block q) = take (pwritten s - lenbytes s) (block p) @ bs"
        "\<not> WPACKET_is_null_buf q" "static_len q = static_len p"
        using cl(2) unfolding closed_to_def by blast+
      have "wpacket_ok q"
        using qs(1-3) subs_ok_mono [OF ok(1), of "written q"] by (simp add: wpacket_ok_def)
      moreover have "abs_close (wpacket_abs p) = Some (wpacket_abs q)"
        using frames_append [OF ok(1) _ le qs(4)] abs Some qs(1) by (simp add: wpacket_abs_def)
      ultimately show ?thesis
        using 3 q(1) cl(1) qs(5,6) by (auto simp: WPACKET_close_def writer_ok_def)
    qed
  qed
qed

subsection \<open>Programs of writing operations\<close>

datatype wpacket_op =
    Put_bytes u32 nat | Memcpy bytes | Memset byte nat | Start_sub nat | Close
  | Set_flags u32 | Set_max_size nat | Sub_memcpy bytes nat

fun wpacket_step :: "heap \<Rightarrow> wpacket_op \<Rightarrow> WPACKET \<Rightarrow> (bool \<times> WPACKET) option" where
  "wpacket_step h (Put_bytes v sz) p = WPACKET_put_bytes h p v sz"
| "wpacket_step h (Memcpy bs) p = WPACKET_memcpy h p bs (length bs)"
| "wpacket_step h (Memset c n) p = WPACKET_memset h p c n"
| "wpacket_step h (Start_sub lb) p = WPACKET_start_sub_packet_len h p lb"
| "wpacket_step h Close p = WPACKET_close p"
| "wpacket_step h (Set_flags fl) p = Some (WPACKET_set_flags p fl)"
| "wpacket_step h (Set_max_size n) p = Some (WPACKET_set_max_size p n)"
| "wpacket_step h (Sub_memcpy bs lb) p = WPACKET_sub_memcpy h p bs (length bs) lb"

fun abs_flags :: "u32 \<Rightarrow> frame list \<Rightarrow> frame list option" where
  "abs_flags fl [] = None"
| "abs_flags fl ((lb, _, c) # fs) = Some ((lb, fl, c) # fs)"

fun abs_step :: "wpacket_op \<Rightarrow> frame list \<Rightarrow> frame list option" where
  "abs_step (Put_bytes v sz) fs =
     (if 0 < sz \<and> sz \<le> 4 \<and> unat v < 256 ^ sz then abs_put (be_bytes sz (unat v)) fs else None)"
| "abs_step (Memcpy bs) fs = (if bs = [] then Some fs else abs_put bs fs)"
| "abs_step (Memset c n) fs = (if n = 0 then Some fs else abs_put (replicate n c) fs)"
| "abs_step (Start_sub lb) fs = abs_start lb fs"
| "abs_step Close fs = abs_close fs"
| "abs_step (Set_flags fl) fs = abs_flags fl fs"
| "abs_step (Set_max_size n) fs = (if fs = [] then None else Some fs)"
| "abs_step (Sub_memcpy bs lb) fs =
     Option.bind (abs_start lb fs) (\<lambda>fs.
       Option.bind (if bs = [] then Some fs else abs_put bs fs) abs_close)"

text \<open>The one obligation of a caller: a limit beyond a caller's buffer must not be set.\<close>

fun op_safe :: "nat option \<Rightarrow> wpacket_op \<Rightarrow> bool" where
  "op_safe (Some l) (Set_max_size n) \<longleftrightarrow> n \<le> l"
| "op_safe _ _ \<longleftrightarrow> True"

definition refines_step :: "WPACKET \<Rightarrow> (frame list \<Rightarrow> frame list option) \<Rightarrow> (bool \<times> WPACKET) option \<Rightarrow> bool"
where
  "refines_step p f r \<longleftrightarrow> (\<exists>ok q. r = Some (ok, q) \<and> (ok \<longrightarrow> writer_ok q \<and> static_len q = static_len p
     \<and> f (wpacket_abs p) = Some (wpacket_abs q)))"

lemma appended_refines:
  assumes "appended p bs q" and "writer_ok p" and "subs p \<noteq> []"
  shows "writer_ok q \<and> static_len q = static_len p \<and> abs_put bs (wpacket_abs p) = Some (wpacket_abs q)"
  using appended_abs [OF assms(1) _ assms(3)] assms(1,2) unfolding writer_ok_def appended_def by blast

lemma memcpy_refines:
  assumes "writer_ok p" and "heap_ok h"
  shows "refines_step p (\<lambda>fs. if bs = [] then Some fs else abs_put bs fs)
    (WPACKET_memcpy h p bs (length bs))"
proof -
  obtain ok q where "WPACKET_memcpy h p bs (length bs) = Some (ok, q)"
    "if bs = [] then ok \<and> q = p else if ok then subs p \<noteq> [] \<and> appended p bs q else q = p"
    using memcpy_spec [of p h bs] assms by (auto simp: writer_ok_def wpacket_ok_def)
  then show ?thesis
    using appended_refines [of p bs q] assms(1) unfolding refines_step_def by auto
qed

lemma memset_refines:
  assumes "writer_ok p" and "heap_ok h"
  shows "refines_step p (abs_step (Memset c n)) (WPACKET_memset h p c n)"
proof -
  obtain ok q where "WPACKET_memset h p c n = Some (ok, q)"
    "if n = 0 then ok \<and> q = p else if ok then subs p \<noteq> [] \<and> appended p (replicate n c) q else q = p"
    using memset_spec [of p h c n] assms by (auto simp: writer_ok_def wpacket_ok_def)
  then show ?thesis
    using appended_refines [of p "replicate n c" q] assms(1) unfolding refines_step_def by auto
qed

lemma put_bytes_refines:
  assumes "writer_ok p" and "heap_ok h"
  shows "refines_step p (abs_step (Put_bytes v sz)) (WPACKET_put_bytes h p v sz)"
proof -
  obtain ok q where "WPACKET_put_bytes h p v sz = Some (ok, q)"
    "ok \<longrightarrow> 0 < sz \<and> sz \<le> 4 \<and> unat v < 256 ^ sz \<and> subs p \<noteq> [] \<and> appended p (be_bytes sz (unat v)) q"
    using put_bytes_spec [of p h v sz] assms by (auto simp: writer_ok_def wpacket_ok_def)
  then show ?thesis
    using appended_refines [of p "be_bytes sz (unat v)" q] assms(1) unfolding refines_step_def by auto
qed

lemma start_refines:
  assumes "writer_ok p" and "heap_ok h"
  shows "refines_step p (abs_start lb) (WPACKET_start_sub_packet_len h p lb)"
  using start_spec [of p h lb] assms unfolding refines_step_def writer_ok_def by metis

lemma close_refines: "writer_ok p \<Longrightarrow> refines_step p abs_close (WPACKET_close p)"
  using close_spec [of p] unfolding refines_step_def by blast

lemma refines_step_bind:
  assumes "refines_step p f r" and "\<And>q. writer_ok q \<Longrightarrow> refines_step q g (k q)"
  shows "refines_step p (\<lambda>fs. Option.bind (f fs) g)
    (Option.bind r (\<lambda>(ok, q). if \<not> ok then Some (False, q) else k q))"
proof -
  obtain ok q where r: "r = Some (ok, q)" "ok \<longrightarrow> writer_ok q \<and> static_len q = static_len p
      \<and> f (wpacket_abs p) = Some (wpacket_abs q)"
    using assms(1) unfolding refines_step_def by blast
  show ?thesis
  proof (cases ok)
    case True
    with r assms(2) [of q] show ?thesis unfolding refines_step_def by auto
  qed (use r in \<open>auto simp: refines_step_def\<close>)
qed

lemma sub_memcpy_refines:
  assumes "writer_ok p" and "heap_ok h"
  shows "refines_step p (abs_step (Sub_memcpy bs lb)) (WPACKET_sub_memcpy h p bs (length bs) lb)"
  unfolding WPACKET_sub_memcpy_def abs_step.simps
  by (intro refines_step_bind start_refines memcpy_refines close_refines assms)

lemma set_max_size_refines:
  assumes "writer_ok p" and "op_safe (static_len p) (Set_max_size n)" and "n \<le> SIZE_MAX"
  shows "refines_step p (abs_step (Set_max_size n)) (Some (WPACKET_set_max_size p n))"
proof -
  let ?q = "p\<lparr>maxsize := n\<rparr>"
  have blk: "block ?q = block p" "WPACKET_is_null_buf ?q = WPACKET_is_null_buf p"
    by (simp_all add: block_def GETBUF_def WPACKET_is_null_buf_def split: option.splits)
  have "room_ok ?q" if "written p \<le> n"
    using assms that by (auto simp: writer_ok_def wpacket_ok_def room_ok_def)
  then have "writer_ok ?q \<and> wpacket_abs ?q = wpacket_abs p" if "written p \<le> n"
    using assms(1) that blk by (simp add: writer_ok_def wpacket_ok_def wpacket_abs_def)
  then show ?thesis
    using subs_frames [of p]
    by (auto simp: refines_step_def WPACKET_set_max_size_def Let_def not_less)
qed

lemma set_flags_refines:
  assumes "writer_ok p"
  shows "refines_step p (abs_step (Set_flags fl)) (Some (WPACKET_set_flags p fl))"
  using assms
  by (cases "subs p")
    (auto simp: refines_step_def WPACKET_set_flags_def writer_ok_def wpacket_ok_def wpacket_abs_def)

lemma step_refines:
  assumes "writer_ok p" and "heap_ok h" and "op_safe (static_len p) op"
    and "\<And>n. op = Set_max_size n \<Longrightarrow> n \<le> SIZE_MAX"
  shows "refines_step p (abs_step op) (wpacket_step h op p)"
proof (cases op)
  case (Memcpy bs)
  with memcpy_refines [OF assms(1,2), of bs] show ?thesis by (simp add: refines_step_def)
next
  case (Start_sub lb)
  with start_refines [OF assms(1,2), of lb] show ?thesis by (simp add: refines_step_def)
next
  case Close
  with close_refines [OF assms(1)] show ?thesis by (simp add: refines_step_def)
qed (use assms put_bytes_refines memset_refines set_flags_refines set_max_size_refines
      sub_memcpy_refines in \<open>simp_all del: abs_step.simps\<close>)

text \<open>A packet is built by initialising it, running the operations and finishing it.\<close>

fun wpacket_run :: "heap \<Rightarrow> wpacket_op list \<Rightarrow> WPACKET \<Rightarrow> (bool \<times> WPACKET) option" where
  "wpacket_run h [] p = Some (True, p)"
| "wpacket_run h (op # ops) p = do {
     (ok, p) \<leftarrow> wpacket_step h op p;
     if \<not> ok then Some (False, p) else wpacket_run h ops p
   }"

definition wpacket_build ::
  "heap \<Rightarrow> (bool \<times> WPACKET) option \<Rightarrow> wpacket_op list \<Rightarrow> (bool \<times> WPACKET) option" where
  "wpacket_build h init ops = do {
     (ok, p) \<leftarrow> init;
     if \<not> ok then Some (False, p) else do {
       (ok, p) \<leftarrow> wpacket_run h ops p;
       if \<not> ok then Some (False, p) else WPACKET_finish p
     }
   }"

fun abs_run :: "wpacket_op list \<Rightarrow> frame list \<Rightarrow> frame list option" where
  "abs_run [] fs = Some fs"
| "abs_run (op # ops) fs = Option.bind (abs_step op fs) (abs_run ops)"

text \<open>The bytes of the finished packet: everything must be closed.\<close>

definition abs_build :: "nat \<Rightarrow> wpacket_op list \<Rightarrow> bytes option" where
  "abs_build lb ops =
     (case abs_run ops [(lb, 0, [])] of Some [f] \<Rightarrow> abs_output f | _ \<Rightarrow> None)"

definition ops_safe :: "nat option \<Rightarrow> wpacket_op list \<Rightarrow> bool" where
  "ops_safe l ops \<longleftrightarrow> list_all (\<lambda>op. op_safe l op \<and> (case op of Set_max_size n \<Rightarrow> n \<le> SIZE_MAX | _ \<Rightarrow> True)) ops"

lemma run_refines:
  assumes "heap_ok h"
  shows "writer_ok p \<Longrightarrow> ops_safe (static_len p) ops
    \<Longrightarrow> refines_step p (abs_run ops) (wpacket_run h ops p)"
proof (induction ops arbitrary: p)
  case Nil
  then show ?case by (auto simp: refines_step_def)
next
  case (Cons op ops)
  have op: "op_safe (static_len p) op" "\<And>n. op = Set_max_size n \<Longrightarrow> n \<le> SIZE_MAX"
    using Cons.prems(2) by (auto simp: ops_safe_def)
  obtain ok q where q: "wpacket_step h op p = Some (ok, q)"
    "ok \<longrightarrow> writer_ok q \<and> static_len q = static_len p \<and> abs_step op (wpacket_abs p) = Some (wpacket_abs q)"
    using step_refines [OF Cons.prems(1) assms op] unfolding refines_step_def by blast
  show ?case
  proof (cases ok)
    case True
    with q Cons.prems(2) have "refines_step q (abs_run ops) (wpacket_run h ops q)"
      by (intro Cons.IH) (simp_all add: ops_safe_def)
    with q True show ?thesis by (auto simp: refines_step_def)
  qed (use q in \<open>auto simp: refines_step_def\<close>)
qed

lemma finish_spec:
  assumes "writer_ok p"
  shows "\<exists>ok q. WPACKET_finish p = Some (ok, q)
    \<and> (ok \<longrightarrow> (\<exists>f bs. wpacket_abs p = [f] \<and> abs_output f = Some bs \<and> subs q = []
         \<and> written q = length bs \<and> take (written q) (block q) = bs))"
proof (cases "\<exists>s. subs p = [s]")
  case True
  then obtain s where s: "subs p = [s]" by blast
  then have z: "pwritten s - lenbytes s = 0" and abs: "wpacket_abs p = [hd (wpacket_abs p)]"
    using assms by (auto simp: writer_ok_def wpacket_ok_def wpacket_abs_def)
  obtain ok q where q: "wpacket_intern_close p s [] True = Some (ok, q)"
    "case abs_output (hd (wpacket_abs p)) of None \<Rightarrow> \<not> ok | Some bs \<Rightarrow> ok \<and> closed_to p s [] bs q"
    using intern_close_spec [of p s "[]"] assms s by (auto simp: writer_ok_def)
  show ?thesis
  proof (cases "abs_output (hd (wpacket_abs p))")
    case None
    with q s show ?thesis by (auto simp: WPACKET_finish_def)
  next
    case (Some bs)
    then have cl: "ok" "written q = length bs" "take (written q) (block q) = bs"
      using q(2) z unfolding closed_to_def by auto
    have "WPACKET_finish p = Some (True, q\<lparr>subs := []\<rparr>)"
      using s q(1) cl(1) by (simp add: WPACKET_finish_def)
    moreover have "\<exists>f bs'. wpacket_abs p = [f] \<and> abs_output f = Some bs' \<and> subs (q\<lparr>subs := []\<rparr>) = []
        \<and> written (q\<lparr>subs := []\<rparr>) = length bs'
        \<and> take (written (q\<lparr>subs := []\<rparr>)) (block (q\<lparr>subs := []\<rparr>)) = bs'"
      using Some abs cl(2,3) by (intro exI [of _ "hd (wpacket_abs p)"] exI [of _ bs]) simp
    ultimately show ?thesis by blast
  qed
next
  case False
  then have "WPACKET_finish p = Some (False, p)"
    by (auto simp: WPACKET_finish_def split: list.splits)
  then show ?thesis by blast
qed

lemma build_spec:
  assumes "heap_ok h" and "init = Some (iok, p)"
    and "iok \<longrightarrow> writer_ok p \<and> wpacket_abs p = [(lb, 0, [])] \<and> ops_safe (static_len p) ops"
  shows "\<exists>ok q. wpacket_build h init ops = Some (ok, q)
    \<and> (ok \<longrightarrow> (\<exists>bs. abs_build lb ops = Some bs \<and> take (written q) (block q) = bs
         \<and> WPACKET_get_total_written q = length bs))"
proof (cases iok)
  case False
  then show ?thesis using assms(2) by (auto simp: wpacket_build_def)
next
  case True
  then obtain rok q where q: "wpacket_run h ops p = Some (rok, q)"
    "rok \<longrightarrow> writer_ok q \<and> abs_run ops [(lb, 0, [])] = Some (wpacket_abs q)"
    using run_refines [OF assms(1), of p ops] assms(3) by (auto simp: refines_step_def)
  show ?thesis
  proof (cases rok)
    case False
    then show ?thesis using q(1) True assms(2) by (auto simp: wpacket_build_def)
  next
    case rok: True
    then obtain fok r where r: "WPACKET_finish q = Some (fok, r)"
      "fok \<longrightarrow> (\<exists>f bs. wpacket_abs q = [f] \<and> abs_output f = Some bs \<and> subs r = []
         \<and> written r = length bs \<and> take (written r) (block r) = bs)"
      using finish_spec [of q] q(2) by blast
    have "wpacket_build h init ops = Some (fok, r)"
      using True rok q(1) r(1) assms(2) by (simp add: wpacket_build_def)
    with r(2) q(2) rok show ?thesis
      by (auto simp: abs_build_def WPACKET_get_total_written_def)
  qed
qed

section \<open>Initialisation\<close>

lemma maxmaxsize_le: "maxmaxsize lb \<le> SIZE_MAX"
proof (cases "lb \<ge> 8 \<or> lb = 0")
  case False
  then have "lb \<in> {1, 2, 3, 4, 5, 6, 7}" by auto
  then show ?thesis by (auto simp: maxmaxsize_def SIZE_MAX_def)
qed (auto simp: maxmaxsize_def)

lemma intern_init_spec:
  assumes "heap_ok h" and "room_ok (p\<lparr>curr := 0, written := 0\<rparr>)" and "\<not> WPACKET_is_null_buf p"
  shows "\<exists>ok q. wpacket_intern_init_len h p lb = Some (ok, q)
    \<and> (ok \<longrightarrow> writer_ok q \<and> wpacket_abs q = [(lb, 0, [])] \<and> static_len q = static_len p)"
proof (cases "fst h 40 = None \<or> lb = 0")
  case True
  let ?q = "p\<lparr>curr := 0, written := 0,
    subs := [\<lparr>packet_len = 0, lenbytes = 0, pwritten = 0, sub_flags = 0\<rparr>]\<rparr>"
  have "room_ok ?q"
    using assms(2) room_ok_subs by blast
  then have "writer_ok ?q \<and> wpacket_abs ?q = [(0, 0, [])] \<and> static_len ?q = static_len p"
    using assms(3) by (simp add: writer_ok_def wpacket_ok_def wpacket_abs_def WPACKET_is_null_buf_def)
  then show ?thesis
    using True by (cases "fst h 40") (auto simp: wpacket_intern_init_len_def Let_def)
next
  case False
  let ?s = "\<lparr>packet_len = 0, lenbytes = lb, pwritten = lb, sub_flags = 0\<rparr>"
  let ?p = "p\<lparr>curr := 0, written := 0, subs := [?s]\<rparr>"
  have "room_ok ?p"
    using assms(2) room_ok_subs by blast
  then obtain ok d q where a: "WPACKET_allocate_bytes h ?p lb = Some (ok, d, q)"
    "if ok then extends ?p lb q else q = ?p"
    using allocate_spec [of ?p h lb] assms(1) by auto
  have "wpacket_intern_init_len h p lb = Some (if ok then (True, q) else (False, q\<lparr>subs := []\<rparr>))"
    using False a(1) by (auto simp: wpacket_intern_init_len_def Let_def)
  moreover have "writer_ok q \<and> wpacket_abs q = [(lb, 0, [])] \<and> static_len q = static_len p" if ok
    using a(2) that assms(3)
    by (simp add: writer_ok_def wpacket_ok_def wpacket_abs_def extends_def WPACKET_is_null_buf_def)
  ultimately show ?thesis by (cases ok) auto
qed

lemma init_len_spec:
  assumes "heap_ok h" and "buf_ok b" and "b_max b \<le> SIZE_MAX"
  shows "\<exists>ok q. WPACKET_init_len h p (Some b) lb = Some (ok, q)
    \<and> (ok \<longrightarrow> writer_ok q \<and> wpacket_abs q = [(lb, 0, [])] \<and> static_len q = None)"
proof -
  let ?p = "p\<lparr>staticbuf := None, wbuf := Some b, maxsize := maxmaxsize lb\<rparr>"
  have "room_ok (?p\<lparr>curr := 0, written := 0\<rparr>)" "\<not> WPACKET_is_null_buf ?p"
    using assms(2,3) maxmaxsize_le by (simp_all add: room_ok_def WPACKET_is_null_buf_def)
  from intern_init_spec [OF assms(1) this, of lb] show ?thesis
    by (simp add: WPACKET_init_len_def)
qed

lemma init_static_spec:
  assumes "heap_ok h" and "len \<le> length m" and "length m \<le> SIZE_MAX"
  shows "\<exists>ok q. WPACKET_init_static_len h p (Some m) len lb = Some (ok, q)
    \<and> (ok \<longrightarrow> writer_ok q \<and> wpacket_abs q = [(lb, 0, [])] \<and> static_len q = Some (length m))"
proof (cases "len = 0")
  case False
  let ?p = "p\<lparr>staticbuf := Some m, wbuf := None,
    maxsize := (if maxmaxsize lb < len then maxmaxsize lb else len)\<rparr>"
  have "room_ok (?p\<lparr>curr := 0, written := 0\<rparr>)" "\<not> WPACKET_is_null_buf ?p"
    using assms(2,3) maxmaxsize_le [of lb] by (auto simp: room_ok_def WPACKET_is_null_buf_def)
  from intern_init_spec [OF assms(1) this, of lb] False show ?thesis
    by (simp add: WPACKET_init_static_len_def)
qed (auto simp: WPACKET_init_static_len_def)

text \<open>
  C20: a packet built in a growable buffer, by any sequence of writing operations and whatever the
  allocator does, never touches memory outside the buffer; if every operation reports success,
  the bytes in the buffer are those of the abstract writer: the contents in the order they
  were written, every sub-packet preceded by its length in big-endian on the chosen number of
  bytes.
\<close>

theorem wpacket_build_growable:
  assumes "heap_ok h" and "buf_ok b" and "b_max b \<le> SIZE_MAX" and "ops_safe None ops"
  shows "\<exists>ok q. wpacket_build h (WPACKET_init_len h p (Some b) lb) ops = Some (ok, q)
    \<and> (ok \<longrightarrow> (\<exists>bs. abs_build lb ops = Some bs \<and> take (written q) (block q) = bs
         \<and> WPACKET_get_total_written q = length bs))"
proof -
  obtain ok q where "WPACKET_init_len h p (Some b) lb = Some (ok, q)"
    "ok \<longrightarrow> writer_ok q \<and> wpacket_abs q = [(lb, 0, [])] \<and> static_len q = None"
    using init_len_spec [OF assms(1-3)] by blast
  then show ?thesis
    using assms(1,4) by (intro build_spec [where iok = ok and p = q]) auto
qed

text \<open>
  The same for a packet built in a caller's buffer of fixed size, provided that the length the
  caller states is right and that \<open>WPACKET_set_max_size\<close> is not used to go beyond it.
\<close>

theorem wpacket_build_static:
  assumes "heap_ok h" and "len \<le> length m" and "length m \<le> SIZE_MAX"
    and "ops_safe (Some (length m)) ops"
  shows "\<exists>ok q. wpacket_build h (WPACKET_init_static_len h p (Some m) len lb) ops = Some (ok, q)
    \<and> (ok \<longrightarrow> (\<exists>bs. abs_build lb ops = Some bs \<and> take (written q) (block q) = bs
         \<and> WPACKET_get_total_written q = length bs))"
proof -
  obtain ok q where "WPACKET_init_static_len h p (Some m) len lb = Some (ok, q)"
    "ok \<longrightarrow> writer_ok q \<and> wpacket_abs q = [(lb, 0, [])] \<and> static_len q = Some (length m)"
    using init_static_spec [OF assms(1-3)] by blast
  then show ?thesis
    using assms(1,4) by (intro build_spec [where iok = ok and p = q]) auto
qed

section \<open>Success\<close>

text \<open>
  The other direction, for a caller's buffer: when memory for the sub-packet records is available
  and everything written so far always fits into the buffer, the operations succeed exactly when
  the abstract writer does.
\<close>

definition frames_size :: "frame list \<Rightarrow> nat" where
  "frames_size fs = sum_list (map (\<lambda>(lb, fl, c). lb + length c) fs)"

lemma frames_size_Cons [simp]:
  "frames_size ((lb, fl, c) # fs) = lb + length c + frames_size fs" "frames_size [] = 0"
  by (simp_all add: frames_size_def)

lemma frames_size_frames:
  "subs_ok e ss \<Longrightarrow> ss \<noteq> [] \<Longrightarrow> e \<le> length m \<Longrightarrow> frames_size (frames m e ss) = e"
proof (induction ss arbitrary: e)
  case (Cons s ss)
  show ?case
  proof (cases ss)
    case Nil
    with Cons.prems show ?thesis by simp
  next
    case (Cons t ts)
    then have "frames_size (frames m (pwritten s - lenbytes s) ss) = pwritten s - lenbytes s"
      using Cons.prems by (intro Cons.IH) auto
    with Cons.prems show ?thesis by simp
  qed
qed simp

lemma written_frames_size:
  assumes "writer_ok p" and "wpacket_abs p \<noteq> []"
  shows "written p = frames_size (wpacket_abs p)"
  using frames_size_frames [of "written p" "subs p" "block p"] written_le_block [of p] assms
    subs_frames [of p]
  by (simp add: writer_ok_def wpacket_ok_def wpacket_abs_def)

fun not_limit :: "wpacket_op \<Rightarrow> bool" where
  "not_limit (Set_max_size n) \<longleftrightarrow> False"
| "not_limit _ \<longleftrightarrow> True"

lemma allocate_static:
  assumes "room_ok p" and "staticbuf p \<noteq> None" and "subs p \<noteq> []" and "len \<noteq> 0"
    and "written p + len \<le> maxsize p"
  shows "\<exists>d q. WPACKET_allocate_bytes h p len = Some (True, d, q)"
proof -
  have "wbuf p = None" "usub (maxsize p) (written p) = maxsize p - written p"
    using assms(1,2) by (auto simp: room_ok_def size_arith)
  with assms(3-5) show ?thesis
    by (auto simp: WPACKET_allocate_bytes_def WPACKET_reserve_bytes_def)
qed

lemma abs_put_size: "abs_put bs fs = Some fs' \<Longrightarrow> frames_size fs' = frames_size fs + length bs \<and> fs \<noteq> []"
  by (cases fs) auto

lemma writer_room: "writer_ok p \<Longrightarrow> room_ok p \<and> \<not> WPACKET_is_null_buf p"
  by (simp add: writer_ok_def wpacket_ok_def)

definition succeeds :: "(bool \<times> WPACKET) option \<Rightarrow> bool" where
  "succeeds r \<longleftrightarrow> (case r of Some (ok, q) \<Rightarrow> ok | None \<Rightarrow> False)"

lemma succeedsD: "succeeds r \<Longrightarrow> \<exists>q. r = Some (True, q)"
  by (auto simp: succeeds_def split: option.splits)

lemma memcpy_complete:
  assumes "writer_ok p" and "heap_ok h" and "staticbuf p \<noteq> None"
    and "bs = [] \<or> wpacket_abs p \<noteq> [] \<and> frames_size (wpacket_abs p) + length bs \<le> maxsize p"
  shows "succeeds (WPACKET_memcpy h p bs (length bs))"
proof (cases "bs = []")
  case False
  obtain d q where "WPACKET_allocate_bytes h p (length bs) = Some (True, d, q)"
    using allocate_static [of p "length bs" h] assms False written_frames_size [of p]
      subs_frames [of p] writer_room [of p] by auto
  moreover obtain ok r where "WPACKET_memcpy h p bs (length bs) = Some (ok, r)"
    using memcpy_spec [of p h bs] assms(1,2) writer_room by blast
  ultimately show ?thesis
    using False by (auto simp: succeeds_def WPACKET_memcpy_def bind_eq_Some_conv split: if_splits)
qed (simp add: succeeds_def WPACKET_memcpy_def)

lemma memset_complete:
  assumes "writer_ok p" and "heap_ok h" and "staticbuf p \<noteq> None"
    and "n = 0 \<or> wpacket_abs p \<noteq> [] \<and> frames_size (wpacket_abs p) + n \<le> maxsize p"
  shows "succeeds (WPACKET_memset h p c n)"
proof (cases "n = 0")
  case False
  obtain d q where "WPACKET_allocate_bytes h p n = Some (True, d, q)"
    using allocate_static [of p n h] assms False written_frames_size [of p]
      subs_frames [of p] writer_room [of p] by auto
  moreover obtain ok r where "WPACKET_memset h p c n = Some (ok, r)"
    using memset_spec [of p h c n] assms(1,2) writer_room by blast
  ultimately show ?thesis
    using False by (auto simp: succeeds_def WPACKET_memset_def bind_eq_Some_conv split: if_splits)
qed (simp add: succeeds_def WPACKET_memset_def)

lemma put_bytes_complete:
  assumes "writer_ok p" and "heap_ok h" and "staticbuf p \<noteq> None" and "0 < sz" and "sz \<le> 4"
    and "unat v < 256 ^ sz" and "wpacket_abs p \<noteq> []"
    and "frames_size (wpacket_abs p) + sz \<le> maxsize p"
  shows "succeeds (WPACKET_put_bytes h p v sz)"
proof -
  obtain d q where a: "WPACKET_allocate_bytes h p sz = Some (True, d, q)"
    using allocate_static [of p sz h] assms written_frames_size [of p] subs_frames [of p]
      writer_room [of p] by auto
  then have w: "d = Some (written p)" "GETBUF q = Some (block q)" "written p + sz \<le> length (block q)"
    using allocate_write [of p h "be_bytes sz (unat v)" sz] assms(1,2) writer_room [of p] by auto
  have "unat v div 256 ^ sz = 0"
    using assms(6) by simp
  with a w assms(5) show ?thesis
    by (auto simp: succeeds_def WPACKET_put_bytes_def put_value_def put_value_loop_spec)
qed

lemma start_complete:
  assumes "writer_ok p" and "staticbuf p \<noteq> None" and "wpacket_abs p \<noteq> []"
    and "fst h 40 \<noteq> None" and "frames_size (wpacket_abs p) + lb \<le> maxsize p"
  shows "succeeds (WPACKET_start_sub_packet_len h p lb)"
proof (cases "lb = 0")
  case True
  then show ?thesis
    using assms(3,4) subs_frames [of p]
    by (auto simp: succeeds_def WPACKET_start_sub_packet_len_def Let_def)
next
  case False
  let ?p = "p\<lparr>subs := \<lparr>packet_len = written p, lenbytes = lb, pwritten = uadd (written p) lb,
    sub_flags = 0\<rparr> # subs p\<rparr>"
  obtain d q where "WPACKET_allocate_bytes h ?p lb = Some (True, d, q)"
    using allocate_static [of ?p lb h] assms False written_frames_size [of p]
      writer_room [of p] by auto
  then show ?thesis
    using False assms(3,4) subs_frames [of p]
    by (auto simp: succeeds_def WPACKET_start_sub_packet_len_def Let_def)
qed

lemma close_complete:
  assumes "writer_ok p" and "abs_close (wpacket_abs p) = Some fs"
  shows "succeeds (WPACKET_close p)"
  using close_spec [OF assms(1)] assms(2) by (fastforce simp: succeeds_def)

lemma start_maxsize:
  assumes "writer_ok p" and "heap_ok h"
    and "WPACKET_start_sub_packet_len h p lb = Some (True, q)"
  shows "maxsize q = maxsize p"
proof -
  have "maxsize r = maxsize p" if "WPACKET_allocate_bytes h (p\<lparr>subs := ss\<rparr>) lb = Some (True, d, r)" for ss d r
    using allocate_spec [of "p\<lparr>subs := ss\<rparr>" h lb] that writer_room [OF assms(1)] assms(2)
    by (auto simp: extends_def)
  then show ?thesis
    using assms(3) by (auto simp: WPACKET_start_sub_packet_len_def Let_def bind_eq_Some_conv
        split: if_splits option.splits)
qed

lemma close_maxsize:
  assumes "writer_ok p" and "WPACKET_close p = Some (True, q)"
  shows "maxsize q = maxsize p"
proof -
  obtain s t ss where s: "subs p = s # t # ss" "wpacket_intern_close p s (t # ss) True = Some (True, q)"
    using assms(2) by (auto simp: WPACKET_close_def split: list.splits)
  then show ?thesis
    using intern_close_spec [of p s "t # ss"] assms(1)
    by (auto simp: writer_ok_def closed_to_def split: option.splits)
qed

lemma memcpy_maxsize:
  assumes "writer_ok p" and "heap_ok h" and "WPACKET_memcpy h p bs (length bs) = Some (True, q)"
  shows "maxsize q = maxsize p"
  using memcpy_spec [of p h bs] assms writer_room [OF assms(1)]
  by (auto simp: appended_def split: if_splits)

text \<open>The three phases of \<open>WPACKET_sub_memcpy\<close>.\<close>

lemma sub_memcpy_phases:
  assumes "WPACKET_sub_memcpy h p bs n lb = Some (True, q)"
  obtains u v where "WPACKET_start_sub_packet_len h p lb = Some (True, u)"
    "WPACKET_memcpy h u bs n = Some (True, v)" "WPACKET_close v = Some (True, q)"
  using assms by (auto simp: WPACKET_sub_memcpy_def bind_eq_Some_conv split: if_splits)

lemma sub_memcpy_maxsize:
  assumes "writer_ok p" and "heap_ok h" and "WPACKET_sub_memcpy h p bs (length bs) lb = Some (True, q)"
  shows "maxsize q = maxsize p"
proof -
  obtain u v where uv: "WPACKET_start_sub_packet_len h p lb = Some (True, u)"
    "WPACKET_memcpy h u bs (length bs) = Some (True, v)" "WPACKET_close v = Some (True, q)"
    using sub_memcpy_phases [OF assms(3)] .
  have u: "writer_ok u"
    using start_refines [OF assms(1,2), of lb] uv(1) by (auto simp: refines_step_def)
  have v: "writer_ok v"
    using memcpy_refines [OF u assms(2), of bs] uv(2) by (auto simp: refines_step_def)
  show ?thesis
    using start_maxsize [OF assms(1,2) uv(1)] memcpy_maxsize [OF u assms(2) uv(2)]
      close_maxsize [OF v uv(3)] by simp
qed

lemma step_maxsize:
  assumes "writer_ok p" and "heap_ok h" and "not_limit op" and "wpacket_step h op p = Some (True, q)"
  shows "maxsize q = maxsize p"
proof (cases op)
  case (Put_bytes v sz)
  then show ?thesis
    using put_bytes_spec [of p h v sz] assms writer_room [OF assms(1)] by (auto simp: appended_def)
next
  case (Memset c n)
  then show ?thesis
    using memset_spec [of p h c n] assms writer_room [OF assms(1)]
    by (auto simp: appended_def split: if_splits)
next
  case (Set_flags fl)
  then show ?thesis
    using assms(4) by (auto simp: WPACKET_set_flags_def split: list.splits)
qed (use assms memcpy_maxsize start_maxsize close_maxsize sub_memcpy_maxsize in auto)

lemma sub_memcpy_complete:
  assumes "writer_ok p" and "heap_ok h" and "staticbuf p \<noteq> None" and "fst h 40 \<noteq> None"
    and "abs_step (Sub_memcpy bs lb) (wpacket_abs p) = Some fs"
    and "frames_size (wpacket_abs p) + lb + length bs \<le> maxsize p"
  shows "succeeds (WPACKET_sub_memcpy h p bs (length bs) lb)"
proof -
  have ne: "wpacket_abs p \<noteq> []"
    using assms(5) by (auto simp: abs_start_def)
  then obtain u where u: "WPACKET_start_sub_packet_len h p lb = Some (True, u)"
    using succeedsD [OF start_complete [OF assms(1,3) ne assms(4), of lb]] assms(6) by auto
  then have u': "writer_ok u" "static_len u = static_len p" "wpacket_abs u = (lb, 0, []) # wpacket_abs p"
    "maxsize u = maxsize p"
    using start_refines [OF assms(1,2), of lb] ne start_maxsize [OF assms(1,2) u]
    by (auto simp: refines_step_def abs_start_def)
  moreover have "staticbuf u \<noteq> None"
    using u'(2) assms(3) by auto
  ultimately obtain v where v: "WPACKET_memcpy h u bs (length bs) = Some (True, v)"
    using succeedsD [OF memcpy_complete [of u h bs]] assms(2,6) by auto
  then have v': "writer_ok v" "(if bs = [] then Some (wpacket_abs u) else abs_put bs (wpacket_abs u))
      = Some (wpacket_abs v)"
    using memcpy_refines [OF u'(1) assms(2), of bs] by (auto simp: refines_step_def)
  then have "abs_close (wpacket_abs v) = Some fs"
    using assms(5) ne u'(3) by (auto simp: abs_start_def split: if_splits)
  then have "succeeds (WPACKET_close v)"
    using close_complete [OF v'(1)] by blast
  then show ?thesis
    using u v by (simp add: WPACKET_sub_memcpy_def)
qed

text \<open>The bytes an operation needs while it runs.\<close>

fun op_size :: "wpacket_op \<Rightarrow> nat" where
  "op_size (Put_bytes v sz) = sz"
| "op_size (Memcpy bs) = length bs"
| "op_size (Memset c n) = n"
| "op_size (Start_sub lb) = lb"
| "op_size (Sub_memcpy bs lb) = lb + length bs"
| "op_size _ = 0"

lemma step_complete:
  assumes "writer_ok p" and "heap_ok h" and "staticbuf p \<noteq> None" and "fst h 40 \<noteq> None"
    and "abs_step op (wpacket_abs p) = Some fs" and "not_limit op"
    and "frames_size (wpacket_abs p) + op_size op \<le> maxsize p"
  shows "succeeds (wpacket_step h op p)"
proof (cases op)
  case (Put_bytes v sz)
  then show ?thesis
    using assms abs_put_size [of "be_bytes sz (unat v)" "wpacket_abs p" fs]
    by (auto intro!: put_bytes_complete split: if_splits)
next
  case (Memcpy bs)
  then show ?thesis
    using assms abs_put_size [of bs "wpacket_abs p" fs] memcpy_complete [of p h bs]
    by (auto split: if_splits)
next
  case (Memset c n)
  then show ?thesis
    using assms abs_put_size [of "replicate n c" "wpacket_abs p" fs] memset_complete [of p h n c]
    by (auto split: if_splits)
next
  case (Start_sub lb)
  then show ?thesis
    using assms by (auto intro!: start_complete simp: abs_start_def split: if_splits)
next
  case (Set_flags fl)
  then show ?thesis
    using assms(5) subs_frames [of p] by (cases "subs p") (auto simp: succeeds_def WPACKET_set_flags_def)
next
  case (Sub_memcpy bs lb)
  then show ?thesis
    using assms by (auto intro!: sub_memcpy_complete)
qed (use assms close_complete in auto)

fun fits :: "nat \<Rightarrow> wpacket_op list \<Rightarrow> frame list \<Rightarrow> bool" where
  "fits mx [] fs \<longleftrightarrow> True"
| "fits mx (op # ops) fs \<longleftrightarrow> not_limit op \<and> frames_size fs + op_size op \<le> mx
     \<and> (case abs_step op fs of None \<Rightarrow> False | Some fs' \<Rightarrow> fits mx ops fs')"

lemma not_limit_safe: "not_limit op \<Longrightarrow> op_safe l op"
  by (cases op; cases l) auto

lemma fits_safe: "fits mx ops fs \<Longrightarrow> ops_safe l ops"
proof (induction ops arbitrary: fs)
  case (Cons op ops)
  then have "ops_safe l ops" "not_limit op"
    by (auto split: option.splits)
  then show ?case
    using not_limit_safe by (cases op) (auto simp: ops_safe_def)
qed (simp add: ops_safe_def)

lemma run_complete:
  assumes "heap_ok h" and "fst h 40 \<noteq> None"
  shows "writer_ok p \<Longrightarrow> staticbuf p \<noteq> None \<Longrightarrow> fits (maxsize p) ops (wpacket_abs p)
    \<Longrightarrow> succeeds (wpacket_run h ops p)"
proof (induction ops arbitrary: p)
  case Nil
  then show ?case by (simp add: succeeds_def)
next
  case (Cons op ops)
  then obtain fs where fs: "abs_step op (wpacket_abs p) = Some fs" "not_limit op"
    "frames_size (wpacket_abs p) + op_size op \<le> maxsize p" "fits (maxsize p) ops fs"
    by (auto split: option.splits)
  obtain q where q: "wpacket_step h op p = Some (True, q)"
    using succeedsD [OF step_complete [OF Cons.prems(1) assms(1) Cons.prems(2) assms(2) fs(1-3)]]
    by blast
  have "op_safe (static_len p) op" "\<And>n. op = Set_max_size n \<Longrightarrow> n \<le> SIZE_MAX"
    using fs(2) not_limit_safe by auto
  from step_refines [OF Cons.prems(1) assms(1) this] q fs(1)
  have "writer_ok q" "wpacket_abs q = fs" "static_len q = static_len p"
    by (auto simp: refines_step_def)
  moreover have "maxsize q = maxsize p"
    using step_maxsize [OF Cons.prems(1) assms(1) fs(2) q] .
  moreover have "staticbuf q \<noteq> None"
    using calculation(3) Cons.prems(2) by auto
  ultimately have "succeeds (wpacket_run h ops q)"
    using fs(4) by (intro Cons.IH) simp_all
  with q show ?case by simp
qed

lemma finish_complete:
  assumes "writer_ok p" and "wpacket_abs p = [f]" and "abs_output f = Some bs"
  shows "succeeds (WPACKET_finish p)"
proof -
  obtain s where s: "subs p = [s]"
    using assms(2) by (cases "subs p" rule: remdups_adj.cases) (auto simp: wpacket_abs_def)
  then show ?thesis
    using intern_close_spec [of p s "[]"] assms by (auto simp: writer_ok_def succeeds_def
        WPACKET_finish_def)
qed

lemma lb_le_maxmaxsize: "lb \<le> SIZE_MAX \<Longrightarrow> lb \<le> maxmaxsize lb"
proof -
  assume "lb \<le> SIZE_MAX"
  moreover have "lb \<le> 2 ^ (lb * 8) - 1 + lb" by (rule le_add2)
  ultimately show ?thesis
    unfolding maxmaxsize_def by (auto simp del: One_nat_def)
qed

lemma init_static_complete:
  assumes "heap_ok h" and "fst h 40 \<noteq> None" and "len \<le> length m" and "length m \<le> SIZE_MAX"
    and "0 < len" and "lb \<le> len"
  shows "\<exists>q. WPACKET_init_static_len h p (Some m) len lb = Some (True, q) \<and> writer_ok q
    \<and> wpacket_abs q = [(lb, 0, [])] \<and> static_len q = Some (length m)
    \<and> maxsize q = min (maxmaxsize lb) len"
proof -
  let ?mx = "if maxmaxsize lb < len then maxmaxsize lb else len"
  let ?p = "p\<lparr>staticbuf := Some m, wbuf := None, maxsize := ?mx, curr := 0, written := 0,
    subs := [\<lparr>packet_len = 0, lenbytes = lb, pwritten = lb, sub_flags = 0\<rparr>]\<rparr>"
  have room: "room_ok ?p"
    using assms(3,4) maxmaxsize_le [of lb] by (auto simp: room_ok_def)
  have "\<exists>q. WPACKET_init_static_len h p (Some m) len lb = Some (True, q)
      \<and> maxsize q = min (maxmaxsize lb) len"
  proof (cases "lb = 0")
    case True
    then show ?thesis
      using assms(2,5) by (auto simp: WPACKET_init_static_len_def wpacket_intern_init_len_def Let_def)
  next
    case False
    obtain d q where a: "WPACKET_allocate_bytes h ?p lb = Some (True, d, q)"
    proof -
      have "lb \<le> ?mx"
        using assms(3,4,6) lb_le_maxmaxsize [of lb] by simp
      then show ?thesis
        using allocate_static [OF room, of lb h] False that by auto
    qed
    then have "maxsize q = min (maxmaxsize lb) len"
      using allocate_spec [OF room assms(1), of lb] by (auto simp: extends_def)
    with a False assms(2,5) show ?thesis
      by (auto simp: WPACKET_init_static_len_def wpacket_intern_init_len_def Let_def)
  qed
  with init_static_spec [OF assms(1,3,4), of p lb] show ?thesis by auto
qed

text \<open>
  Building a packet in a caller's buffer succeeds whenever memory for the sub-packet records
  is available, the abstract writer succeeds, and what has been written never exceeds the
  buffer (nor what the outer length prefix can express); the buffer then holds its bytes.
\<close>

theorem wpacket_build_succeeds:
  assumes "heap_ok h" and "fst h 40 \<noteq> None" and "len \<le> length m" and "length m \<le> SIZE_MAX"
    and "0 < len" and "lb \<le> len" and "fits (min (maxmaxsize lb) len) ops [(lb, 0, [])]"
    and "abs_build lb ops = Some bs"
  shows "\<exists>q. wpacket_build h (WPACKET_init_static_len h p (Some m) len lb) ops = Some (True, q)
    \<and> take (written q) (block q) = bs"
proof -
  obtain q where q: "WPACKET_init_static_len h p (Some m) len lb = Some (True, q)" "writer_ok q"
    "wpacket_abs q = [(lb, 0, [])]" "static_len q = Some (length m)"
    "maxsize q = min (maxmaxsize lb) len"
    using init_static_complete [OF assms(1-6)] by blast
  have st: "staticbuf q \<noteq> None" using q(4) by auto
  have safe: "ops_safe (static_len q) ops"
    using fits_safe [OF assms(7)] .
  obtain r where r: "wpacket_run h ops q = Some (True, r)"
    using succeedsD [OF run_complete [OF assms(1,2) q(2) st]] q(3,5) assms(7) by auto
  then have r': "writer_ok r" "abs_run ops [(lb, 0, [])] = Some (wpacket_abs r)"
    using run_refines [OF assms(1) q(2) safe] q(3) by (auto simp: refines_step_def)
  then obtain f where f: "wpacket_abs r = [f]" "abs_output f = Some bs"
    using assms(8) by (auto simp: abs_build_def split: list.splits)
  obtain t where "WPACKET_finish r = Some (True, t)"
    using succeedsD [OF finish_complete [OF r'(1) f]] by blast
  then have "wpacket_build h (WPACKET_init_static_len h p (Some m) len lb) ops = Some (True, t)"
    using q(1) r by (simp add: wpacket_build_def)
  moreover have "take (written t) (block t) = bs"
    using build_spec [OF assms(1) q(1), of lb ops] q(2,3) safe calculation assms(8) by auto
  ultimately show ?thesis by blast
qed

definition sample_packet :: WPACKET where
  "sample_packet = \<lparr>wbuf = None, staticbuf = None, curr = 0, written = 0, maxsize = 0, subs = []\<rparr>"

definition sample_heap :: heap where
  "sample_heap = (sample_alloc, sample_alloc)"

lemma sample_heap_ok [simp]: "heap_ok sample_heap"
  by (simp add: sample_heap_def heap_ok_def)

text \<open>A two-byte length, one byte, and a nested packet with a one-byte length.\<close>

definition sample_ops :: "wpacket_op list" where
  "sample_ops = [Put_bytes 7 1, Start_sub 1, Memcpy [1, 2, 3], Close]"

lemma sample_bytes: "abs_build 2 sample_ops = Some [0, 5, 7, 3, 1, 2, 3]"
  by (simp add: sample_ops_def abs_build_def abs_start_def abs_output_def)

lemma sample_ops_safe: "ops_safe l sample_ops"
  by (simp add: sample_ops_def ops_safe_def)

theorem wpacket_build_growable_witness:
  "\<exists>ok q. wpacket_build sample_heap (WPACKET_init_len sample_heap sample_packet
      (Some \<lparr>b_length = 0, b_data = None, b_max = 0, b_flags = 0\<rparr>) 2) sample_ops = Some (ok, q)
    \<and> (ok \<longrightarrow> take (written q) (block q) = [0, 5, 7, 3, 1, 2, 3])"
  using wpacket_build_growable [of sample_heap
      "\<lparr>b_length = 0, b_data = None, b_max = 0, b_flags = 0\<rparr>" sample_ops sample_packet 2]
  by (auto simp: buf_ok_def sample_bytes sample_ops_safe)

theorem wpacket_build_static_witness:
  "\<exists>ok q. wpacket_build sample_heap
      (WPACKET_init_static_len sample_heap sample_packet (Some (replicate 8 0)) 8 2) sample_ops
      = Some (ok, q)
    \<and> (ok \<longrightarrow> take (written q) (block q) = [0, 5, 7, 3, 1, 2, 3])"
  using wpacket_build_static [of sample_heap 8 "replicate 8 0" sample_ops sample_packet 2]
  by (auto simp: SIZE_MAX_def sample_bytes sample_ops_safe)

theorem wpacket_build_succeeds_witness:
  "\<exists>q. wpacket_build sample_heap
      (WPACKET_init_static_len sample_heap sample_packet (Some (replicate 8 0)) 8 2) sample_ops
      = Some (True, q) \<and> take (written q) (block q) = [0, 5, 7, 3, 1, 2, 3]"
proof (rule wpacket_build_succeeds)
  show "fits (min (maxmaxsize 2) 8) sample_ops [(2, 0, [])]"
    by (simp add: sample_ops_def maxmaxsize_def abs_start_def abs_output_def)
qed (simp_all add: sample_bytes SIZE_MAX_def sample_heap_def heap_ok_def sample_alloc_def [of 40])

text \<open>
  C28: \<open>WPACKET_set_max_size\<close> does not know the size of a caller's buffer. On a well-formed packet in
  a caller's buffer a copy never leaves the buffer, but after \<open>WPACKET_set_max_size\<close> has accepted
  a new limit, a copy leaves the buffer if and only if it is within the new limit and does not fit
  the buffer: every limit above the size of the buffer makes such copies possible.
\<close>

theorem set_max_size_overruns_static:
  assumes "writer_ok p" and "staticbuf p = Some m" and "WPACKET_set_max_size p mx = (True, q)"
  shows "wpacket_run h [Memcpy bs] p \<noteq> None
    \<and> (wpacket_run h [Set_max_size mx, Memcpy bs] p = None \<longleftrightarrow>
         length m < written p + length bs \<and> written p + length bs \<le> mx)"
proof -
  have p: "curr p = written p" "written p \<le> maxsize p" "maxsize p \<le> length m" "wbuf p = None" "maxsize p \<le> SIZE_MAX"
    using assms(1,2) by (simp_all add: writer_ok_def wpacket_ok_def room_ok_def)
  have q: "q = p\<lparr>maxsize := mx\<rparr>" "written p \<le> mx" "subs p \<noteq> []" "mx \<le> SIZE_MAX"
    using assms(3) maxmaxsize_le by (auto simp: WPACKET_set_max_size_def Let_def not_less intro: order_trans split: if_splits)
  show ?thesis
  proof (cases "bs = []")
    case True
    with assms(3) p q(2) show ?thesis by (simp add: WPACKET_memcpy_def)
  next
    case False
    then show ?thesis
      using assms(2,3) p q
      by (auto simp: WPACKET_memcpy_def WPACKET_allocate_bytes_def WPACKET_reserve_bytes_def size_arith
          WPACKET_get_curr_def GETBUF_def store_def mem_read_def mem_write_def split: if_splits)
  qed
qed

theorem set_max_size_overruns_static_witness:
  "\<exists>p. WPACKET_init_static_len sample_heap sample_packet (Some [0, 0, 0, 0]) 4 0 = Some (True, p)
     \<and> wpacket_run sample_heap [Memcpy [1, 2, 3, 4, 5]] p \<noteq> None
     \<and> wpacket_run sample_heap [Set_max_size 100, Memcpy [1, 2, 3, 4, 5]] p = None"
proof -
  have "\<exists>p. WPACKET_init_static_len sample_heap sample_packet (Some [0, 0, 0, 0]) 4 0 = Some (True, p)
      \<and> writer_ok p \<and> staticbuf p = Some [0, 0, 0, 0] \<and> written p = 0 \<and> fst (WPACKET_set_max_size p 100)"
    by (simp add: WPACKET_init_static_len_def wpacket_intern_init_len_def sample_heap_def sample_alloc_def
        sample_packet_def maxmaxsize_def SIZE_MAX_def writer_ok_def wpacket_ok_def room_ok_def
        WPACKET_is_null_buf_def WPACKET_set_max_size_def)
  then obtain p where p: "WPACKET_init_static_len sample_heap sample_packet (Some [0, 0, 0, 0]) 4 0 = Some (True, p)"
      "writer_ok p" "staticbuf p = Some [0, 0, 0, 0]" "written p = 0" "fst (WPACKET_set_max_size p 100)"
    by blast
  then show ?thesis
    using set_max_size_overruns_static [of p "[0, 0, 0, 0]" 100 "snd (WPACKET_set_max_size p 100)" sample_heap "[1, 2, 3, 4, 5]"]
    by (intro exI [of _ p]) (simp add: prod_eq_iff del: wpacket_run.simps)
qed

end
