(* ===== verification/Packet.thy ===== *)
theory Packet
  imports WPacket
begin

text \<open>
  The packet reader of \<open>include/internal/packet.h\<close>, through which every received handshake
  message is parsed. A \<open>PACKET\<close> is a pointer into a block and a number of remaining bytes; here
  the pointer is an offset into the block \<open>m\<close>, which the operations take as an argument and
  never change. The outer option of a result is None for a read outside the block, the inner
  option is None where the C function returns 0. \<open>unsigned int\<close> is 32 bits wide and
  \<open>unsigned long\<close> 64 bits.
\<close>

section \<open>Model\<close>

record PACKET =
  pcurr :: nat
  remaining :: nat

definition packet_forward :: "PACKET \<Rightarrow> nat \<Rightarrow> PACKET" where
  "packet_forward p len = p\<lparr>pcurr := pcurr p + len, remaining := usub (remaining p) len\<rparr>"

definition PACKET_remaining :: "PACKET \<Rightarrow> nat" where
  "PACKET_remaining p = remaining p"

definition PACKET_end :: "PACKET \<Rightarrow> nat" where
  "PACKET_end p = pcurr p + remaining p"

definition PACKET_buf_init :: "nat \<Rightarrow> nat \<Rightarrow> PACKET option" where
  "PACKET_buf_init buf len =
     (if len > SIZE_MAX div 2 then None else Some \<lparr>pcurr = buf, remaining = len\<rparr>)"

definition PACKET_equal :: "bytes \<Rightarrow> PACKET \<Rightarrow> bytes \<Rightarrow> nat \<Rightarrow> bool option" where
  "PACKET_equal m p ptr num =
     (if PACKET_remaining p \<noteq> num then Some False
      else do { a \<leftarrow> mem_read m (pcurr p) num; b \<leftarrow> mem_read ptr 0 num; Some (a = b) })"

definition PACKET_peek_sub_packet :: "PACKET \<Rightarrow> nat \<Rightarrow> PACKET option" where
  "PACKET_peek_sub_packet p len =
     (if PACKET_remaining p < len then None else PACKET_buf_init (pcurr p) len)"

definition PACKET_get_sub_packet :: "PACKET \<Rightarrow> nat \<Rightarrow> PACKET option \<times> PACKET" where
  "PACKET_get_sub_packet p len =
     (case PACKET_peek_sub_packet p len of
        None \<Rightarrow> (None, p) | Some sub \<Rightarrow> (Some sub, packet_forward p len))"

definition PACKET_peek_1 :: "bytes \<Rightarrow> PACKET \<Rightarrow> u32 option option" where
  "PACKET_peek_1 m p =
     (if PACKET_remaining p = 0 then Some None
      else do { a \<leftarrow> byte_at m (pcurr p); Some (Some (ucast a)) })"

definition PACKET_peek_net_2 :: "bytes \<Rightarrow> PACKET \<Rightarrow> u32 option option" where
  "PACKET_peek_net_2 m p =
     (if PACKET_remaining p < 2 then Some None
      else do {
        a \<leftarrow> byte_at m (pcurr p);
        b \<leftarrow> byte_at m (pcurr p + 1);
        Some (Some (push_bit 8 (ucast a) OR ucast b))
      })"

definition PACKET_peek_net_3 :: "bytes \<Rightarrow> PACKET \<Rightarrow> u64 option option" where
  "PACKET_peek_net_3 m p =
     (if PACKET_remaining p < 3 then Some None
      else do {
        a \<leftarrow> byte_at m (pcurr p);
        b \<leftarrow> byte_at m (pcurr p + 1);
        c \<leftarrow> byte_at m (pcurr p + 2);
        Some (Some ((push_bit 16 (ucast a) OR push_bit 8 (ucast b)) OR ucast c))
      })"

definition PACKET_peek_net_4 :: "bytes \<Rightarrow> PACKET \<Rightarrow> u64 option option" where
  "PACKET_peek_net_4 m p =
     (if PACKET_remaining p < 4 then Some None
      else do {
        a \<leftarrow> byte_at m (pcurr p);
        b \<leftarrow> byte_at m (pcurr p + 1);
        c \<leftarrow> byte_at m (pcurr p + 2);
        d \<leftarrow> byte_at m (pcurr p + 3);
        Some (Some (((push_bit 24 (ucast a) OR push_bit 16 (ucast b)) OR push_bit 8 (ucast c)) OR ucast d))
      })"

definition PACKET_peek_4 :: "bytes \<Rightarrow> PACKET \<Rightarrow> u64 option option" where
  "PACKET_peek_4 m p =
     (if PACKET_remaining p < 4 then Some None
      else do {
        a \<leftarrow> byte_at m (pcurr p);
        b \<leftarrow> byte_at m (pcurr p + 1);
        c \<leftarrow> byte_at m (pcurr p + 2);
        d \<leftarrow> byte_at m (pcurr p + 3);
        Some (Some (((ucast a OR push_bit 8 (ucast b)) OR push_bit 16 (ucast c)) OR push_bit 24 (ucast d)))
      })"

text \<open>The reading functions peek and, on success, move on.\<close>

definition get_after :: "nat \<Rightarrow> 'a option option \<Rightarrow> PACKET \<Rightarrow> ('a option \<times> PACKET) option" where
  "get_after n peek p = do {
     r \<leftarrow> peek;
     Some (case r of None \<Rightarrow> (None, p) | Some v \<Rightarrow> (Some v, packet_forward p n))
   }"

definition PACKET_get_1 :: "bytes \<Rightarrow> PACKET \<Rightarrow> (u32 option \<times> PACKET) option" where
  "PACKET_get_1 m p = get_after 1 (PACKET_peek_1 m p) p"

definition PACKET_get_net_2 :: "bytes \<Rightarrow> PACKET \<Rightarrow> (u32 option \<times> PACKET) option" where
  "PACKET_get_net_2 m p = get_after 2 (PACKET_peek_net_2 m p) p"

definition PACKET_get_net_3 :: "bytes \<Rightarrow> PACKET \<Rightarrow> (u64 option \<times> PACKET) option" where
  "PACKET_get_net_3 m p = get_after 3 (PACKET_peek_net_3 m p) p"

definition PACKET_get_net_4 :: "bytes \<Rightarrow> PACKET \<Rightarrow> (u64 option \<times> PACKET) option" where
  "PACKET_get_net_4 m p = get_after 4 (PACKET_peek_net_4 m p) p"

definition PACKET_get_4 :: "bytes \<Rightarrow> PACKET \<Rightarrow> (u64 option \<times> PACKET) option" where
  "PACKET_get_4 m p = get_after 4 (PACKET_peek_4 m p) p"

text \<open>Pointers into the block are returned as offsets.\<close>

definition PACKET_peek_bytes :: "PACKET \<Rightarrow> nat \<Rightarrow> nat option" where
  "PACKET_peek_bytes p len = (if PACKET_remaining p < len then None else Some (pcurr p))"

definition PACKET_get_bytes :: "PACKET \<Rightarrow> nat \<Rightarrow> nat option \<times> PACKET" where
  "PACKET_get_bytes p len =
     (case PACKET_peek_bytes p len of
        None \<Rightarrow> (None, p) | Some data \<Rightarrow> (Some data, packet_forward p len))"

definition PACKET_peek_copy_bytes :: "bytes \<Rightarrow> PACKET \<Rightarrow> nat \<Rightarrow> bytes option option" where
  "PACKET_peek_copy_bytes m p len =
     (if PACKET_remaining p < len then Some None else map_option Some (mem_read m (pcurr p) len))"

definition PACKET_copy_bytes :: "bytes \<Rightarrow> PACKET \<Rightarrow> nat \<Rightarrow> (bytes option \<times> PACKET) option" where
  "PACKET_copy_bytes m p len = get_after len (PACKET_peek_copy_bytes m p len) p"

definition PACKET_copy_all :: "bytes \<Rightarrow> PACKET \<Rightarrow> nat \<Rightarrow> bytes option option" where
  "PACKET_copy_all m p dest_len =
     (if PACKET_remaining p > dest_len then Some None
      else map_option Some (mem_read m (pcurr p) (remaining p)))"

definition PACKET_contains_zero_byte :: "bytes \<Rightarrow> PACKET \<Rightarrow> bool option" where
  "PACKET_contains_zero_byte m p = do {
     bs \<leftarrow> mem_read m (pcurr p) (remaining p);
     Some (list_ex (\<lambda>b. b = 0) bs)
   }"

definition PACKET_forward :: "PACKET \<Rightarrow> nat \<Rightarrow> bool \<times> PACKET" where
  "PACKET_forward p len =
     (if PACKET_remaining p < len then (False, p) else (True, packet_forward p len))"

text \<open>
  The vectors with a length prefix. \<open>full\<close> tells whether leftover bytes are an error, which is
  the difference between the \<open>get\<close> and the \<open>as\<close> functions.
\<close>

definition get_prefixed ::
  "(PACKET \<Rightarrow> ('w :: len word option \<times> PACKET) option) \<Rightarrow> bool \<Rightarrow> PACKET \<Rightarrow> (PACKET option \<times> PACKET) option"
where
  "get_prefixed get full p = do {
     (r, tmp) \<leftarrow> get p;
     Some (case r of
             None \<Rightarrow> (None, p)
           | Some l \<Rightarrow>
               (case PACKET_get_bytes tmp (unat l) of
                  (None, _) \<Rightarrow> (None, p)
                | (Some data, tmp) \<Rightarrow>
                    if full \<and> PACKET_remaining tmp \<noteq> 0 then (None, p)
                    else (Some \<lparr>pcurr = data, remaining = unat l\<rparr>, tmp)))
   }"

definition PACKET_get_length_prefixed_1 :: "bytes \<Rightarrow> PACKET \<Rightarrow> (PACKET option \<times> PACKET) option" where
  "PACKET_get_length_prefixed_1 m = get_prefixed (PACKET_get_1 m) False"

definition PACKET_as_length_prefixed_1 :: "bytes \<Rightarrow> PACKET \<Rightarrow> (PACKET option \<times> PACKET) option" where
  "PACKET_as_length_prefixed_1 m = get_prefixed (PACKET_get_1 m) True"

definition PACKET_get_length_prefixed_2 :: "bytes \<Rightarrow> PACKET \<Rightarrow> (PACKET option \<times> PACKET) option" where
  "PACKET_get_length_prefixed_2 m = get_prefixed (PACKET_get_net_2 m) False"

definition PACKET_as_length_prefixed_2 :: "bytes \<Rightarrow> PACKET \<Rightarrow> (PACKET option \<times> PACKET) option" where
  "PACKET_as_length_prefixed_2 m = get_prefixed (PACKET_get_net_2 m) True"

definition PACKET_get_length_prefixed_3 :: "bytes \<Rightarrow> PACKET \<Rightarrow> (PACKET option \<times> PACKET) option" where
  "PACKET_get_length_prefixed_3 m = get_prefixed (PACKET_get_net_3 m) False"

section \<open>Reading is parsing the view\<close>

definition packet_ok :: "bytes \<Rightarrow> PACKET \<Rightarrow> bool" where
  "packet_ok m p \<longleftrightarrow> pcurr p + remaining p \<le> length m \<and> length m \<le> SIZE_MAX"

definition view :: "bytes \<Rightarrow> PACKET \<Rightarrow> bytes" where
  "view m p = seg m (pcurr p) (remaining p)"

lemma length_view: "packet_ok m p \<Longrightarrow> length (view m p) = remaining p"
  by (auto simp: view_def packet_ok_def min_def)

lemma view_nth: "packet_ok m p \<Longrightarrow> i < remaining p \<Longrightarrow> byte_at m (pcurr p + i) = Some (view m p ! i)"
  by (simp add: byte_at_def view_def seg_def packet_ok_def)

lemma forward_ok:
  assumes "packet_ok m p" and "n \<le> remaining p"
  shows "packet_ok m (packet_forward p n)" "view m (packet_forward p n) = drop n (view m p)"
    "remaining (packet_forward p n) = remaining p - n"
proof -
  have "usub (remaining p) n = remaining p - n"
    using assms by (simp add: packet_ok_def size_arith)
  then show "packet_ok m (packet_forward p n)" "view m (packet_forward p n) = drop n (view m p)"
    "remaining (packet_forward p n) = remaining p - n"
    using assms by (simp_all add: packet_ok_def packet_forward_def view_def seg_def drop_take
        add.commute)
qed

text \<open>Combining bytes with shifts and OR computes the big-endian value.\<close>

lemma or_be_2: "unat (push_bit 8 (ucast a) OR ucast b :: u32) = be_val [a, b]"
  by (simp add: unsigned_or_eq unsigned_push_bit_eq take_bit_push_bit push_bit_or_nat be_val_def)

lemma or_be_4: "unat (((push_bit 24 (ucast a) OR push_bit 16 (ucast b)) OR push_bit 8 (ucast c))
    OR ucast d :: u64) = be_val [a, b, c, d]"
proof -
  have "((push_bit 24 (unat a) OR push_bit 16 (unat b)) OR push_bit 8 (unat c)) OR unat d
      = push_bit 8 (push_bit 8 (push_bit 8 (unat a) OR unat b) OR unat c) OR unat d"
    by (simp add: push_bit_or)
  also have "\<dots> = be_val [a, b, c, d]"
    by (simp add: push_bit_or_nat be_val_def)
  finally show ?thesis
    by (simp add: unsigned_or_eq unsigned_push_bit_eq take_bit_push_bit)
qed

lemma or_be_3: "unat ((push_bit 16 (ucast a) OR push_bit 8 (ucast b)) OR ucast c :: u64)
    = be_val [a, b, c]"
  using or_be_4 [of 0 a b c] by (simp add: be_val_def)

lemma or_le_4: "unat (((ucast a OR push_bit 8 (ucast b)) OR push_bit 16 (ucast c))
    OR push_bit 24 (ucast d) :: u64) = be_val [d, c, b, a]"
  using or_be_4 [of d c b a] by (simp add: or.commute or.left_commute or.assoc)

lemma take_bytes:
  "1 \<le> length v \<Longrightarrow> take (Suc 0) v = [v ! 0]"
  "2 \<le> length v \<Longrightarrow> take 2 v = [v ! 0, v ! 1]"
  "3 \<le> length v \<Longrightarrow> take 3 v = [v ! 0, v ! 1, v ! 2]"
  "4 \<le> length v \<Longrightarrow> take 4 v = [v ! 0, v ! 1, v ! 2, v ! 3]"
  by (auto simp: numeral_eq_Suc Suc_le_length_iff)

text \<open>
  What a reading function does: it fails without moving when fewer than \<open>n\<close> bytes are left, and
  otherwise returns the value of the first \<open>n\<close> bytes and moves on.
\<close>

definition reads_num ::
  "bytes \<Rightarrow> PACKET \<Rightarrow> nat \<Rightarrow> (bytes \<Rightarrow> nat) \<Rightarrow> ('w :: len word option \<times> PACKET) option \<Rightarrow> bool"
where
  "reads_num m p n f r \<longleftrightarrow>
     (if remaining p < n then r = Some (None, p)
      else \<exists>v. r = Some (Some v, packet_forward p n) \<and> unat v = f (take n (view m p)))"

lemma get_1_spec: "packet_ok m p \<Longrightarrow> reads_num m p 1 be_val (PACKET_get_1 m p)"
  using view_nth [of m p 0] length_view [of m p]
  by (auto simp: reads_num_def PACKET_get_1_def get_after_def PACKET_peek_1_def
      PACKET_remaining_def take_bytes be_val_def)

lemma get_net_2_spec: "packet_ok m p \<Longrightarrow> reads_num m p 2 be_val (PACKET_get_net_2 m p)"
  using view_nth [of m p 0] view_nth [of m p 1] length_view [of m p]
  by (auto simp: reads_num_def PACKET_get_net_2_def get_after_def PACKET_peek_net_2_def
      PACKET_remaining_def take_bytes or_be_2)

lemma get_net_3_spec: "packet_ok m p \<Longrightarrow> reads_num m p 3 be_val (PACKET_get_net_3 m p)"
  using view_nth [of m p 0] view_nth [of m p 1] view_nth [of m p 2] length_view [of m p]
  by (auto simp: reads_num_def PACKET_get_net_3_def get_after_def PACKET_peek_net_3_def
      PACKET_remaining_def take_bytes or_be_3)

lemma get_net_4_spec: "packet_ok m p \<Longrightarrow> reads_num m p 4 be_val (PACKET_get_net_4 m p)"
  using view_nth [of m p 0] view_nth [of m p 1] view_nth [of m p 2] view_nth [of m p 3]
    length_view [of m p]
  by (auto simp: reads_num_def PACKET_get_net_4_def get_after_def PACKET_peek_net_4_def
      PACKET_remaining_def take_bytes or_be_4)

lemma get_4_spec: "packet_ok m p \<Longrightarrow> reads_num m p 4 (\<lambda>bs. be_val (rev bs)) (PACKET_get_4 m p)"
  using view_nth [of m p 0] view_nth [of m p 1] view_nth [of m p 2] view_nth [of m p 3]
    length_view [of m p]
  by (auto simp: reads_num_def PACKET_get_4_def get_after_def PACKET_peek_4_def
      PACKET_remaining_def take_bytes or_le_4)

text \<open>
  The numeric readers are safe and correct: on a packet inside its block each of them reads
  inside the block only, fails without moving if too few bytes are left, and otherwise returns
  the value of the next bytes, in network byte order (in reverse order for \<open>PACKET_get_4\<close>), and
  advances past them.
\<close>

theorem PACKET_get_numbers:
  assumes "packet_ok m p"
  shows "reads_num m p 1 be_val (PACKET_get_1 m p)
    \<and> reads_num m p 2 be_val (PACKET_get_net_2 m p)
    \<and> reads_num m p 3 be_val (PACKET_get_net_3 m p)
    \<and> reads_num m p 4 be_val (PACKET_get_net_4 m p)
    \<and> reads_num m p 4 (\<lambda>bs. be_val (rev bs)) (PACKET_get_4 m p)"
  using assms
  by (intro conjI get_1_spec get_net_2_spec get_net_3_spec get_net_4_spec get_4_spec)

definition sample_view :: PACKET where
  "sample_view = \<lparr>pcurr = 1, remaining = 3\<rparr>"

theorem PACKET_get_numbers_witness:
  "\<exists>v p. PACKET_get_net_2 [9, 1, 2, 3] sample_view = Some (Some v, p) \<and> unat v = 258"
  using PACKET_get_numbers [of "[9, 1, 2, 3]" sample_view]
  by (auto simp: sample_view_def packet_ok_def reads_num_def view_def seg_def be_val_def SIZE_MAX_def)

section \<open>Vectors with a length prefix\<close>

text \<open>The list parser that the three functions implement on the view of a packet.\<close>

definition parse_prefixed :: "nat \<Rightarrow> bool \<Rightarrow> bytes \<Rightarrow> (bytes \<times> bytes) option" where
  "parse_prefixed n full bs =
     (if length bs < n then None
      else let l = be_val (take n bs); rest = drop n bs in
        if length rest < l then None
        else if full \<and> length rest \<noteq> l then None
        else Some (take l rest, drop l rest))"

lemma get_prefixed_spec:
  assumes "packet_ok m p" and "reads_num m p n be_val (get p)"
  shows "\<exists>r q. get_prefixed get full p = Some (r, q) \<and> packet_ok m q
    \<and> (case parse_prefixed n full (view m p) of
         None \<Rightarrow> r = None \<and> q = p
       | Some (c, rest) \<Rightarrow> view m q = rest
           \<and> (\<exists>sub. r = Some sub \<and> packet_ok m sub \<and> view m sub = c))"
proof (cases "remaining p < n")
  case True
  then have "get p = Some (None, p)"
    using assms(2) by (simp add: reads_num_def)
  moreover have "parse_prefixed n full (view m p) = None"
    using True length_view [OF assms(1)] by (simp add: parse_prefixed_def)
  ultimately show ?thesis
    using assms(1) by (simp add: get_prefixed_def)
next
  case False
  let ?t = "packet_forward p n"
  obtain l where l: "get p = Some (Some l, ?t)" "unat l = be_val (take n (view m p))"
    using assms(2) False by (auto simp: reads_num_def)
  have t: "packet_ok m ?t" "view m ?t = drop n (view m p)" "remaining ?t = remaining p - n"
    using forward_ok [OF assms(1)] False by simp_all
  have len: "length (view m p) = remaining p" "length (view m ?t) = remaining ?t"
    using length_view assms(1) t(1) by simp_all
  show ?thesis
  proof (cases "remaining ?t < unat l")
    case True
    then have "get_prefixed get full p = Some (None, p)"
      using l by (simp add: get_prefixed_def PACKET_get_bytes_def PACKET_peek_bytes_def
          PACKET_remaining_def)
    moreover have "parse_prefixed n full (view m p) = None"
      using True False l(2) len t(3) by (simp add: parse_prefixed_def Let_def)
    ultimately show ?thesis using assms(1) by simp
  next
    case enough: False
    let ?q = "packet_forward ?t (unat l)"
    let ?sub = "\<lparr>pcurr = pcurr ?t, remaining = unat l\<rparr>"
    have q: "packet_ok m ?q" "view m ?q = drop (unat l) (view m ?t)"
      "remaining ?q = remaining ?t - unat l"
      using forward_ok [OF t(1)] enough by simp_all
    have sub: "packet_ok m ?sub" "view m ?sub = take (unat l) (view m ?t)"
      using t(1) enough by (simp_all add: packet_ok_def view_def seg_def)
    have run: "get_prefixed get full p =
        Some (if full \<and> remaining ?t \<noteq> unat l then (None, p) else (Some ?sub, ?q))"
      using l(1) enough q(3) by (auto simp: get_prefixed_def PACKET_get_bytes_def
          PACKET_peek_bytes_def PACKET_remaining_def)
    have "parse_prefixed n full (view m p) = (if full \<and> remaining ?t \<noteq> unat l then None
        else Some (view m ?sub, view m ?q))"
      using enough False l(2) len t(2,3) q(2) sub(2) by (simp add: parse_prefixed_def Let_def)
    with run q(1) sub(1) assms(1) show ?thesis by auto
  qed
qed

text \<open>
  Reading a vector with a one-, two- or three-byte length prefix never leaves the block. It
  succeeds exactly when the prefix and the announced number of bytes are there (and, for the
  \<open>as\<close> functions, nothing else); the sub-packet is then the vector and the packet what follows;
  otherwise the packet is unchanged.
\<close>

theorem PACKET_length_prefixed:
  assumes "packet_ok m p"
    and "(n, full, get) \<in> {(1, False, PACKET_get_length_prefixed_1 m),
      (1, True, PACKET_as_length_prefixed_1 m), (2, False, PACKET_get_length_prefixed_2 m),
      (2, True, PACKET_as_length_prefixed_2 m), (3, False, PACKET_get_length_prefixed_3 m)}"
  shows "\<exists>r q. get p = Some (r, q) \<and> packet_ok m q
    \<and> (case parse_prefixed n full (view m p) of
         None \<Rightarrow> r = None \<and> q = p
       | Some (c, rest) \<Rightarrow> view m q = rest
           \<and> (\<exists>sub. r = Some sub \<and> packet_ok m sub \<and> view m sub = c))"
proof -
  note specs =
    get_prefixed_spec [where get = "PACKET_get_1 m", OF assms(1) get_1_spec [OF assms(1)]]
    get_prefixed_spec [where get = "PACKET_get_net_2 m", OF assms(1) get_net_2_spec [OF assms(1)]]
    get_prefixed_spec [where get = "PACKET_get_net_3 m", OF assms(1) get_net_3_spec [OF assms(1)]]
  from assms(2) consider
      "n = 1" "get = get_prefixed (PACKET_get_1 m) full"
    | "n = 2" "get = get_prefixed (PACKET_get_net_2 m) full"
    | "n = 3" "get = get_prefixed (PACKET_get_net_3 m) full"
    by (auto simp: PACKET_get_length_prefixed_1_def PACKET_as_length_prefixed_1_def
        PACKET_get_length_prefixed_2_def PACKET_as_length_prefixed_2_def
        PACKET_get_length_prefixed_3_def)
  then show ?thesis
    by cases (use specs [of full] in \<open>simp_all only:\<close>)
qed

theorem PACKET_length_prefixed_witness:
  "\<exists>r q. PACKET_get_length_prefixed_1 [9, 1, 2, 3] sample_view = Some (r, q)
    \<and> view [9, 1, 2, 3] q = [3]"
  using PACKET_length_prefixed [of "[9, 1, 2, 3]" sample_view 1 False
      "PACKET_get_length_prefixed_1 [9, 1, 2, 3]"]
  by (auto simp: sample_view_def packet_ok_def SIZE_MAX_def parse_prefixed_def view_def seg_def
      be_val_def)

section \<open>Writing and reading back\<close>

text \<open>The bytes of a vector with an \<open>n\<close>-byte length prefix, and the reader as a list parser.\<close>

definition prefixed :: "nat \<Rightarrow> bytes \<Rightarrow> bytes" where
  "prefixed n c = be_bytes n (length c) @ c"

definition addressable :: "bytes \<Rightarrow> bool" where
  "addressable bs \<longleftrightarrow> length bs \<le> SIZE_MAX"

definition read_prefixed ::
  "(bytes \<Rightarrow> PACKET \<Rightarrow> (PACKET option \<times> PACKET) option) \<Rightarrow> bytes \<Rightarrow> (bytes \<times> bytes) option" where
  "read_prefixed get bs =
     (case get bs \<lparr>pcurr = 0, remaining = length bs\<rparr> of
        Some (Some sub, q) \<Rightarrow> Some (view bs sub, view bs q) | _ \<Rightarrow> None)"

lemma read_prefixed_parse:
  assumes "addressable bs" and "\<And>m p. packet_ok m p \<Longrightarrow> reads_num m p n be_val (get m p)"
  shows "read_prefixed (\<lambda>m. get_prefixed (get m) full) bs = parse_prefixed n full bs"
proof -
  let ?p = "\<lparr>pcurr = 0, remaining = length bs\<rparr>"
  have ok: "packet_ok bs ?p" and v: "view bs ?p = bs"
    using assms(1) by (simp_all add: packet_ok_def addressable_def view_def)
  obtain r q where r: "get_prefixed (get bs) full ?p = Some (r, q)"
    "case parse_prefixed n full bs of None \<Rightarrow> r = None \<and> q = ?p
     | Some (c, rest) \<Rightarrow> view bs q = rest \<and> (\<exists>sub. r = Some sub \<and> packet_ok bs sub \<and> view bs sub = c)"
    using get_prefixed_spec [where get = "get bs" and full = full, OF ok assms(2) [OF ok]]
    unfolding v by blast
  then show ?thesis
    by (cases "parse_prefixed n full bs") (auto simp: read_prefixed_def)
qed

lemma parse_prefixed_append:
  "length c < 256 ^ n \<Longrightarrow> parse_prefixed n False (prefixed n c @ rest) = Some (c, rest)"
  by (simp add: parse_prefixed_def prefixed_def)

lemma read_prefixed_1:
  assumes "addressable bs"
  shows "read_prefixed PACKET_get_length_prefixed_1 bs = parse_prefixed 1 False bs"
proof -
  have eq: "PACKET_get_length_prefixed_1 = (\<lambda>m. get_prefixed (PACKET_get_1 m) False)"
    by (rule ext) (rule PACKET_get_length_prefixed_1_def)
  show ?thesis
    unfolding eq by (rule read_prefixed_parse [OF assms get_1_spec])
qed

lemma read_prefixed_2:
  assumes "addressable bs"
  shows "read_prefixed PACKET_get_length_prefixed_2 bs = parse_prefixed 2 False bs"
proof -
  have eq: "PACKET_get_length_prefixed_2 = (\<lambda>m. get_prefixed (PACKET_get_net_2 m) False)"
    by (rule ext) (rule PACKET_get_length_prefixed_2_def)
  show ?thesis
    unfolding eq by (rule read_prefixed_parse [OF assms get_net_2_spec])
qed

lemma read_prefixed_3:
  assumes "addressable bs"
  shows "read_prefixed PACKET_get_length_prefixed_3 bs = parse_prefixed 3 False bs"
proof -
  have eq: "PACKET_get_length_prefixed_3 = (\<lambda>m. get_prefixed (PACKET_get_net_3 m) False)"
    by (rule ext) (rule PACKET_get_length_prefixed_3_def)
  show ?thesis
    unfolding eq by (rule read_prefixed_parse [OF assms get_net_3_spec])
qed

lemmas read_prefixed_widths = read_prefixed_1 read_prefixed_2 read_prefixed_3

lemma addressable_suffix: "addressable (bs @ cs) \<Longrightarrow> addressable cs"
  by (simp add: addressable_def)

interpretation lp1: codec addressable "\<lambda>c. length c < 256 ^ 1" "prefixed 1"
    "read_prefixed PACKET_get_length_prefixed_1"
  by unfold_locales (erule addressable_suffix, simp only: read_prefixed_widths parse_prefixed_append)

interpretation lp2: codec addressable "\<lambda>c. length c < 256 ^ 2" "prefixed 2"
    "read_prefixed PACKET_get_length_prefixed_2"
  by unfold_locales (erule addressable_suffix, simp only: read_prefixed_widths parse_prefixed_append)

interpretation lp3: codec addressable "\<lambda>c. length c < 256 ^ 3" "prefixed 3"
    "read_prefixed PACKET_get_length_prefixed_3"
  by unfold_locales (erule addressable_suffix, simp only: read_prefixed_widths parse_prefixed_append)

text \<open>What a sequence of sub-packets amounts to.\<close>

lemma abs_sub_memcpy:
  assumes "0 < n"
  shows "abs_step (Sub_memcpy c n) [(lb, 0, bs)] =
    (if length c < 256 ^ n then Some [(lb, 0, bs @ prefixed n c)] else None)"
proof (cases "c = []")
  case False
  then have "256 ^ n \<le> length c \<longleftrightarrow> \<not> length c < 256 ^ n" by auto
  with False assms show ?thesis
    by (auto simp: abs_start_def abs_output_def prefixed_def)
qed (use assms in \<open>auto simp: abs_start_def abs_output_def prefixed_def\<close>)

lemma abs_vectors:
  assumes "0 < n" and "abs_run (map (\<lambda>c. Sub_memcpy c n) cs) [(lb, 0, bs)] = Some fs"
  shows "fs = [(lb, 0, bs @ concat (map (prefixed n) cs))] \<and> list_all (\<lambda>c. length c < 256 ^ n) cs"
  using assms(2)
proof (induction cs arbitrary: bs)
  case (Cons c cs)
  have c: "length c < 256 ^ n"
    and run: "abs_run (map (\<lambda>c. Sub_memcpy c n) cs) [(lb, 0, bs @ prefixed n c)] = Some fs"
    using Cons.prems abs_sub_memcpy [OF assms(1), of c lb bs]
    by (auto simp del: abs_step.simps split: if_splits)
  from Cons.IH [OF run] c show ?case by simp
qed simp

text \<open>
  C27: a sequence of vectors written with \<open>WPACKET_sub_memcpy_u16\<close> is read back, vector by vector,
  by \<open>PACKET_get_length_prefixed_2\<close>, with nothing left over, whenever the writer reported success
  and whatever the allocator did.
\<close>

theorem wpacket_packet_roundtrip:
  assumes "heap_ok h" and "buf_ok b" and "b_max b \<le> SIZE_MAX"
    and "wpacket_build h (WPACKET_init_len h p (Some b) 0) (map (\<lambda>c. Sub_memcpy c 2) cs) = Some (True, q)"
    and "written q \<le> SIZE_MAX"
  shows "lp2.dec_list (length cs) (take (written q) (block q)) = Some (cs, [])"
proof -
  let ?ops = "map (\<lambda>c. Sub_memcpy c 2) cs"
  have "ops_safe None ?ops"
    by (simp add: ops_safe_def list_all_iff)
  moreover obtain iok i where "WPACKET_init_len h p (Some b) 0 = Some (iok, i)"
    "iok \<longrightarrow> writer_ok i \<and> wpacket_abs i = [(0, 0, [])] \<and> static_len i = None"
    using init_len_spec [OF assms(1-3)] by blast
  ultimately obtain bs where bs: "abs_build 0 ?ops = Some bs" "take (written q) (block q) = bs"
    using build_spec [OF assms(1), of _ iok i 0 ?ops] assms(4) by auto
  then obtain fs where fs: "abs_run ?ops [(0, 0, [])] = Some fs"
    by (auto simp: abs_build_def split: option.splits)
  have vs: "fs = [(0, 0, concat (map (prefixed 2) cs))]" "list_all (\<lambda>c. length c < 256 ^ 2) cs"
    using abs_vectors [OF _ fs] by auto
  then have "bs = concat (map (prefixed 2) cs)"
    using bs(1) fs by (simp add: abs_build_def abs_output_def)
  moreover have "addressable bs"
    using bs(2) assms(5) by (auto simp: addressable_def)
  ultimately show ?thesis
    using lp2.dec_list_enc [OF vs(2), of "[]"] bs(2) by simp
qed

lemma put_value_loop_2:
  "put_value_loop m off v 2 =
     (if off + 1 < length m then put_value_loop (m[off + 1 := of_nat (v mod 256)]) off (v div 256) (Suc 0)
      else None)"
  by (subst numeral_2_eq_2) simp

lemma sample_vectors_build:
  "\<exists>q. wpacket_build sample_heap (WPACKET_init_len sample_heap sample_packet
      (Some \<lparr>b_length = 8, b_data = Some (replicate 8 0), b_max = 8, b_flags = 0\<rparr>) 0)
      (map (\<lambda>c. Sub_memcpy c 2) [[1, 2], []]) = Some (True, q) \<and> written q \<le> SIZE_MAX"
  by (simp add: wpacket_build_def WPACKET_init_len_def wpacket_intern_init_len_def sample_heap_def
      sample_alloc_def sample_packet_def maxmaxsize_def SIZE_MAX_def WPACKET_sub_memcpy_def
      WPACKET_start_sub_packet_len_def WPACKET_memcpy_def WPACKET_allocate_bytes_def
      WPACKET_reserve_bytes_def usub_def uadd_def WPACKET_get_curr_def GETBUF_def mem_read_def
      store_def mem_write_def WPACKET_close_def WPACKET_finish_def wpacket_intern_close_def
      put_value_def set_GETBUF_def put_value_loop_2 seg_def Let_def)

theorem wpacket_packet_roundtrip_witness:
  "\<exists>q. lp2.dec_list 2 (take (written q) (block q)) = Some ([[1, 2], []], [])"
proof -
  obtain q where "wpacket_build sample_heap (WPACKET_init_len sample_heap sample_packet
      (Some \<lparr>b_length = 8, b_data = Some (replicate 8 0), b_max = 8, b_flags = 0\<rparr>) 0)
      (map (\<lambda>c. Sub_memcpy c 2) [[1, 2], []]) = Some (True, q)" "written q \<le> SIZE_MAX"
    using sample_vectors_build by blast
  from wpacket_packet_roundtrip [OF sample_heap_ok _ _ this] have
    "lp2.dec_list (length [[1, 2], []]) (take (written q) (block q)) = Some ([[1, 2], []], [])"
    by (simp add: buf_ok_def SIZE_MAX_def)
  then show ?thesis
    by (metis One_nat_def Suc_1 length_Cons list.size(3))
qed

end
