(* ===== verification/Dtls_Bitmap.thy ===== *)
theory Dtls_Bitmap
  imports Prelude
begin

text \<open>
  The replay window of DTLS, \<open>ssl/record/dtls1_bitmap.c\<close>: a bitmap of the last 64 records
  received in an epoch, relative to the highest record number seen. Record numbers are 8-byte
  big-endian strings. The record layer state is restricted to the read sequence number and to
  the sequence number of the current record.
\<close>

section \<open>Model\<close>

record DTLS1_BITMAP =
  map_bits :: u64
  max_seq_num :: bytes

record dtls_rlayer =
  read_sequence :: bytes
  rrec_seq_num :: bytes

text \<open>The macro \<open>n2l8\<close>.\<close>

definition n2l8 :: "bytes \<Rightarrow> u64" where
  "n2l8 c = (((((((push_bit 56 (ucast (c ! 0)) OR push_bit 48 (ucast (c ! 1)))
     OR push_bit 40 (ucast (c ! 2))) OR push_bit 32 (ucast (c ! 3))) OR push_bit 24 (ucast (c ! 4)))
     OR push_bit 16 (ucast (c ! 5))) OR push_bit 8 (ucast (c ! 6))) OR ucast (c ! 7))"

text \<open>\<open>int64_t ret = l1 - l2\<close>: the 64-bit difference read as a signed number.\<close>

definition satsub64be :: "bytes \<Rightarrow> bytes \<Rightarrow> int" where
  "satsub64be v1 v2 =
     (let l1 = n2l8 v1; l2 = n2l8 v2; ret = sint (l1 - l2) in
      if l1 > l2 \<and> ret < 0 then 128
      else if l2 > l1 \<and> ret > 0 then - 128
      else if ret > 128 then 128
      else if ret < - 128 then - 128
      else ret)"

definition tls3_RECORD_set_seq_num :: "dtls_rlayer \<Rightarrow> bytes \<Rightarrow> dtls_rlayer" where
  "tls3_RECORD_set_seq_num rl seq = rl\<lparr>rrec_seq_num := take 8 seq\<rparr>"

definition dtls1_record_replay_check :: "dtls_rlayer \<Rightarrow> DTLS1_BITMAP \<Rightarrow> bool \<times> dtls_rlayer" where
  "dtls1_record_replay_check rl bitmap =
     (let seq = read_sequence rl;
          cmp = satsub64be seq (max_seq_num bitmap) in
      if cmp > 0 then (True, tls3_RECORD_set_seq_num rl seq)
      else let shift = nat (- cmp) in
        if shift \<ge> 64 then (False, rl)
        else if map_bits bitmap AND push_bit shift 1 \<noteq> 0 then (False, rl)
        else (True, tls3_RECORD_set_seq_num rl seq))"

definition dtls1_record_bitmap_update :: "dtls_rlayer \<Rightarrow> DTLS1_BITMAP \<Rightarrow> DTLS1_BITMAP" where
  "dtls1_record_bitmap_update rl bitmap =
     (let seq = read_sequence rl;
          cmp = satsub64be seq (max_seq_num bitmap) in
      if cmp > 0 then
        (let shift = nat cmp;
             bitmap = (if shift < 64
                       then bitmap\<lparr>map_bits := push_bit shift (map_bits bitmap) OR 1\<rparr>
                       else bitmap\<lparr>map_bits := 1\<rparr>)
         in bitmap\<lparr>max_seq_num := take 8 seq\<rparr>)
      else let shift = nat (- cmp) in
        if shift < 64 then bitmap\<lparr>map_bits := map_bits bitmap OR push_bit shift 1\<rparr> else bitmap)"

section \<open>The saturating difference\<close>

lemma length_8_cases:
  "length v = 8 \<Longrightarrow> v = [v ! 0, v ! 1, v ! 2, v ! 3, v ! 4, v ! 5, v ! 6, v ! 7]"
  by (rule nth_equalityI) (auto simp: less_Suc_eq numeral_eq_Suc)

lemma unat_n2l8: "length v = 8 \<Longrightarrow> unat (n2l8 v) = be_val v"
proof -
  assume "length v = 8"
  note v = length_8_cases [OF this]
  let ?b = "\<lambda>i. unat (v ! i)"
  have "unat (n2l8 v) = ((((((push_bit 56 (?b 0) OR push_bit 48 (?b 1)) OR push_bit 40 (?b 2))
      OR push_bit 32 (?b 3)) OR push_bit 24 (?b 4)) OR push_bit 16 (?b 5)) OR push_bit 8 (?b 6)) OR ?b 7"
    by (simp add: n2l8_def unsigned_or_eq unsigned_push_bit_eq take_bit_push_bit)
  also have "\<dots> = push_bit 8 (push_bit 8 (push_bit 8 (push_bit 8 (push_bit 8 (push_bit 8
      (push_bit 8 (?b 0) OR ?b 1) OR ?b 2) OR ?b 3) OR ?b 4) OR ?b 5) OR ?b 6) OR ?b 7"
    by (simp add: push_bit_or)
  also have "\<dots> = be_val [v ! 0, v ! 1, v ! 2, v ! 3, v ! 4, v ! 5, v ! 6, v ! 7]"
    by (simp add: push_bit_or_nat be_val_def)
  finally show ?thesis
    using v by metis
qed

text \<open>The signed reading of a 64-bit number and of a difference of two.\<close>

lemma sint_u64: "sint (w :: u64) = (if uint w < 2 ^ 63 then uint w else uint w - 2 ^ 64)"
proof -
  have b: "0 \<le> uint w" "uint w < 2 ^ 64"
    using unsigned_less [of w, where ?'a = int] by simp_all
  have "sint w = take_bit 64 (uint w + 2 ^ 63) - 2 ^ 63"
    by (simp add: sint_uint signed_take_bit_eq_take_bit_shift)
  also have "take_bit 64 (uint w + 2 ^ 63) = (uint w + 2 ^ 63) mod 2 ^ 64"
    by (rule take_bit_eq_mod)
  also have "\<dots> = (if uint w < 2 ^ 63 then uint w + 2 ^ 63 else uint w + 2 ^ 63 - 2 ^ 64)"
  proof (cases "uint w < 2 ^ 63")
    case True
    then have "uint w + 2 ^ 63 < 2 ^ 64" by simp
    with b True show ?thesis by (simp add: mod_pos_pos_trivial)
  next
    case False
    have "(uint w + 2 ^ 63) mod 2 ^ 64 = (uint w + 2 ^ 63 - 2 ^ 64) mod 2 ^ 64"
      by (rule minus_mod_self2 [symmetric])
    also have "\<dots> = uint w + 2 ^ 63 - 2 ^ 64"
      by (rule mod_pos_pos_trivial) (use b False in simp_all)
    finally show ?thesis using False by simp
  qed
  finally show ?thesis by auto
qed

lemma sint_diff:
  "sint ((a :: u64) - b) =
     (if uint a - uint b \<ge> 2 ^ 63 then uint a - uint b - 2 ^ 64
      else if uint a - uint b < - (2 ^ 63) then uint a - uint b + 2 ^ 64 else uint a - uint b)"
proof -
  have b: "0 \<le> uint a" "uint a < 2 ^ 64" "0 \<le> uint b" "uint b < 2 ^ 64"
    using unsigned_less [of a, where ?'a = int] unsigned_less [of b, where ?'a = int] by simp_all
  have "uint (a - b) = (if uint b \<le> uint a then uint a - uint b else uint a - uint b + 2 ^ 64)"
    using uint_sub_if' [of a b] by simp
  with b show ?thesis
    unfolding sint_u64 by auto
qed

lemma satsub64be_clamp:
  assumes "length v1 = 8" and "length v2 = 8"
  shows "satsub64be v1 v2 = max (- 128) (min 128 (int (be_val v1) - int (be_val v2)))"
proof -
  have u: "uint (n2l8 v1) = int (be_val v1)" "uint (n2l8 v2) = int (be_val v2)"
    using arg_cong [OF unat_n2l8 [OF assms(1)], of int] arg_cong [OF unat_n2l8 [OF assms(2)], of int]
    by simp_all
  have b: "int (be_val v1) < 2 ^ 64" "int (be_val v2) < 2 ^ 64"
    using be_val_bound [of v1] be_val_bound [of v2] assms by (simp_all flip: of_nat_power)
  show ?thesis
    using b unfolding satsub64be_def Let_def word_less_def u sint_diff
    by (auto simp: u)
qed

text \<open>
  \<open>satsub64be\<close> computes the difference of the two record numbers, clamped to the range from
  -128 to 128, for all 8-byte arguments: no wrap-around of the 64-bit subtraction shows.
\<close>

theorem satsub64be_saturates:
  assumes "length v1 = 8" and "length v2 = 8"
  shows "satsub64be v1 v2 = max (- 128) (min 128 (int (be_val v1) - int (be_val v2)))"
  using assms by (rule satsub64be_clamp)

theorem satsub64be_saturates_witness:
  "satsub64be [0, 0, 0, 0, 0, 0, 0, 5] [0xFF, 0, 0, 0, 0, 0, 0, 7] = - 128"
  by (simp add: satsub64be_saturates be_val_def)

section \<open>The window as a set of record numbers\<close>

abbreviation seq_max :: "DTLS1_BITMAP \<Rightarrow> nat" where
  "seq_max b \<equiv> be_val (max_seq_num b)"

text \<open>\<open>R\<close> are the record numbers received so far.\<close>

definition window_ok :: "DTLS1_BITMAP \<Rightarrow> nat set \<Rightarrow> bool" where
  "window_ok b R \<longleftrightarrow> length (max_seq_num b) = 8 \<and> (\<forall>r\<in>R. r \<le> seq_max b)
     \<and> (\<forall>i<64. bit (map_bits b) i \<longleftrightarrow> i \<le> seq_max b \<and> seq_max b - i \<in> R)"

lemma check_spec:
  assumes "window_ok b R" and "length (read_sequence rl) = 8"
  shows "fst (dtls1_record_replay_check rl b) \<longleftrightarrow>
    be_val (read_sequence rl) > seq_max b
    \<or> (seq_max b - be_val (read_sequence rl) < 64 \<and> be_val (read_sequence rl) \<notin> R)"
proof -
  let ?n = "be_val (read_sequence rl)" and ?m = "seq_max b"
  have cmp: "satsub64be (read_sequence rl) (max_seq_num b) = max (- 128) (min 128 (int ?n - int ?m))"
    using assms by (intro satsub64be_clamp) (simp_all add: window_ok_def)
  show ?thesis
  proof (cases "?n > ?m")
    case True
    then show ?thesis by (simp add: dtls1_record_replay_check_def Let_def cmp)
  next
    case False
    then have shift: "nat (- satsub64be (read_sequence rl) (max_seq_num b)) = min 128 (?m - ?n)"
      unfolding cmp by auto
    have le: "\<not> satsub64be (read_sequence rl) (max_seq_num b) > 0"
      unfolding cmp using False by auto
    have "bit (map_bits b) (?m - ?n) \<longleftrightarrow> ?n \<in> R" if "?m - ?n < 64"
      using assms(1) that False by (simp add: window_ok_def)
    then show ?thesis
      using False le shift
      by (auto simp: dtls1_record_replay_check_def Let_def bit_iff_and_push_bit_not_eq_0)
  qed
qed

lemma update_newer:
  assumes "window_ok b R" and "length (read_sequence rl) = 8"
    and "be_val (read_sequence rl) > seq_max b"
  shows "window_ok (dtls1_record_bitmap_update rl b) (insert (be_val (read_sequence rl)) R)"
proof -
  let ?n = "be_val (read_sequence rl)" and ?m = "seq_max b"
  let ?map = "if ?n - ?m < 64 then push_bit (?n - ?m) (map_bits b) OR 1 else 1"
  have "satsub64be (read_sequence rl) (max_seq_num b) = max (- 128) (min 128 (int ?n - int ?m))"
    using assms by (intro satsub64be_clamp) (simp_all add: window_ok_def)
  then have upd: "dtls1_record_bitmap_update rl b =
      b\<lparr>map_bits := ?map, max_seq_num := read_sequence rl\<rparr>"
    using assms(2,3) by (auto simp: dtls1_record_bitmap_update_def Let_def nat_diff_distrib)
  have R: "\<forall>r\<in>R. r \<le> ?m" and bits: "\<And>i. i < 64 \<Longrightarrow> bit (map_bits b) i \<longleftrightarrow> i \<le> ?m \<and> ?m - i \<in> R"
    using assms(1) by (simp_all add: window_ok_def)
  have "bit ?map i \<longleftrightarrow> i \<le> ?n \<and> ?n - i \<in> insert ?n R" if i: "i < 64" for i
  proof (cases "i = 0")
    case True
    then show ?thesis by (simp add: bit_simps)
  next
    case False
    have "?n - i \<in> R \<Longrightarrow> ?n - ?m \<le> i"
      using R assms(3) by (metis diff_le_mono2 diff_diff_cancel diff_le_self le_cases nat_less_le
          diff_is_0_eq' not_less)
    moreover have "i - (?n - ?m) \<le> ?m \<longleftrightarrow> i \<le> ?n" "?m - (i - (?n - ?m)) = ?n - i" if "?n - ?m \<le> i"
      using that assms(3) by auto
    moreover have "bit ?map i \<longleftrightarrow> ?n - ?m \<le> i \<and> bit (map_bits b) (i - (?n - ?m))"
      using False i by (auto simp: bit_simps)
    ultimately show ?thesis
      using bits [of "i - (?n - ?m)"] i False assms(3) by auto
  qed
  then show ?thesis
    using R assms(2,3) unfolding upd window_ok_def by (auto simp del: if_split)
qed

lemma update_older:
  assumes "window_ok b R" and "length (read_sequence rl) = 8"
    and "be_val (read_sequence rl) \<le> seq_max b"
  shows "window_ok (dtls1_record_bitmap_update rl b) (insert (be_val (read_sequence rl)) R)"
proof -
  let ?n = "be_val (read_sequence rl)" and ?m = "seq_max b"
  let ?map = "if ?m - ?n < 64 then map_bits b OR push_bit (?m - ?n) 1 else map_bits b"
  have "satsub64be (read_sequence rl) (max_seq_num b) = max (- 128) (min 128 (int ?n - int ?m))"
    using assms by (intro satsub64be_clamp) (simp_all add: window_ok_def)
  then have "satsub64be (read_sequence rl) (max_seq_num b) \<le> 0"
    "nat (- satsub64be (read_sequence rl) (max_seq_num b)) = min 128 (?m - ?n)"
    using assms(3) by auto
  then have upd: "dtls1_record_bitmap_update rl b = b\<lparr>map_bits := ?map\<rparr>"
    by (auto simp: dtls1_record_bitmap_update_def Let_def)
  have bits: "\<And>i. i < 64 \<Longrightarrow> bit (map_bits b) i \<longleftrightarrow> i \<le> ?m \<and> ?m - i \<in> R"
    using assms(1) by (simp add: window_ok_def)
  have "bit ?map i \<longleftrightarrow> i \<le> ?m \<and> ?m - i \<in> insert ?n R" if i: "i < 64" for i
  proof -
    have "bit ?map i \<longleftrightarrow> bit (map_bits b) i \<or> i = ?m - ?n"
      using i by (auto simp: bit_simps)
    moreover have "i \<le> ?m \<Longrightarrow> ?m - i = ?n \<longleftrightarrow> i = ?m - ?n"
      using assms(3) by auto
    ultimately show ?thesis
      using bits [OF i] by auto
  qed
  then show ?thesis
    using assms(1,3) unfolding upd window_ok_def by (auto simp del: if_split)
qed

lemma update_spec:
  assumes "window_ok b R" and "length (read_sequence rl) = 8"
  shows "window_ok (dtls1_record_bitmap_update rl b) (insert (be_val (read_sequence rl)) R)
    \<and> seq_max (dtls1_record_bitmap_update rl b) = max (seq_max b) (be_val (read_sequence rl))"
proof -
  have "satsub64be (read_sequence rl) (max_seq_num b)
      = max (- 128) (min 128 (int (be_val (read_sequence rl)) - int (seq_max b)))"
    using assms by (intro satsub64be_clamp) (simp_all add: window_ok_def)
  then have "seq_max (dtls1_record_bitmap_update rl b) = max (seq_max b) (be_val (read_sequence rl))"
    using assms(2) by (auto simp: dtls1_record_bitmap_update_def Let_def)
  then show ?thesis
    using update_newer [OF assms] update_older [OF assms] by (meson not_le)
qed

section \<open>Streams of records\<close>

text \<open>
  The record layer checks every record against the window and, if it is accepted (and
  authenticated), enters it. \<open>sliding\<close> is the specification: the highest number and the set
  of numbers received so far.
\<close>

definition fresh_bitmap :: DTLS1_BITMAP where
  "fresh_bitmap = \<lparr>map_bits = 0, max_seq_num = replicate 8 0\<rparr>"

fun receive_all :: "DTLS1_BITMAP \<Rightarrow> bytes list \<Rightarrow> bytes list" where
  "receive_all b [] = []"
| "receive_all b (seq # seqs) =
     (case dtls1_record_replay_check \<lparr>read_sequence = seq, rrec_seq_num = []\<rparr> b of
        (True, rl) \<Rightarrow> seq # receive_all (dtls1_record_bitmap_update rl b) seqs
      | (False, _) \<Rightarrow> receive_all b seqs)"

fun sliding :: "nat \<Rightarrow> nat set \<Rightarrow> nat list \<Rightarrow> nat list" where
  "sliding mx R [] = []"
| "sliding mx R (n # ns) =
     (if n > mx \<or> (mx - n < 64 \<and> n \<notin> R) then n # sliding (max mx n) (insert n R) ns
      else sliding mx R ns)"

lemma fresh_window: "window_ok fresh_bitmap {}"
  by (simp add: window_ok_def fresh_bitmap_def)

lemma be_val_replicate_0: "be_val (replicate n 0) = 0"
proof (induction n)
  case (Suc n)
  have "replicate (Suc n) (0 :: byte) = replicate n 0 @ [0]"
    by (simp add: replicate_append_same)
  then show ?case
    using Suc by (simp del: replicate_Suc)
qed simp

lemma check_rl:
  "dtls1_record_replay_check rl b = (ok, rl') \<Longrightarrow> read_sequence rl' = read_sequence rl"
  by (auto simp: dtls1_record_replay_check_def tls3_RECORD_set_seq_num_def Let_def split: if_splits)

lemma receive_sliding:
  "window_ok b R \<Longrightarrow> list_all (\<lambda>s. length s = 8) seqs
     \<Longrightarrow> map be_val (receive_all b seqs) = sliding (seq_max b) R (map be_val seqs)"
proof (induction seqs arbitrary: b R)
  case (Cons seq seqs)
  let ?rl = "\<lparr>read_sequence = seq, rrec_seq_num = []\<rparr>"
  obtain ok rl where c: "dtls1_record_replay_check ?rl b = (ok, rl)"
    by (cases "dtls1_record_replay_check ?rl b")
  have rl: "read_sequence rl = seq"
    using check_rl [OF c] by simp
  have ok: "ok \<longleftrightarrow> be_val seq > seq_max b \<or> (seq_max b - be_val seq < 64 \<and> be_val seq \<notin> R)"
    using check_spec [OF Cons.prems(1), of ?rl] c Cons.prems(2) by simp
  show ?case
  proof (cases ok)
    case True
    have "window_ok (dtls1_record_bitmap_update rl b) (insert (be_val seq) R)"
      "seq_max (dtls1_record_bitmap_update rl b) = max (seq_max b) (be_val seq)"
      using update_spec [OF Cons.prems(1), of rl] rl Cons.prems(2) by simp_all
    with Cons.IH [of "dtls1_record_bitmap_update rl b" "insert (be_val seq) R"] Cons.prems(2)
      c True ok show ?thesis by simp
  next
    case False
    with Cons.IH [OF Cons.prems(1)] Cons.prems(2) c ok show ?thesis by auto
  qed
qed simp

text \<open>
  C29: the 64-bit bitmap implements the sliding window exactly: from an empty window, for every
  sequence of record numbers, the records accepted are those that are newer than everything
  before, or less than 64 behind the newest and not received before.
\<close>

theorem replay_window_refines:
  assumes "list_all (\<lambda>s. length s = 8) seqs"
  shows "map be_val (receive_all fresh_bitmap seqs) = sliding 0 {} (map be_val seqs)"
proof -
  have "seq_max fresh_bitmap = 0"
    by (simp add: fresh_bitmap_def be_val_replicate_0)
  then show ?thesis
    using receive_sliding [OF fresh_window assms] by simp
qed

theorem replay_window_refines_witness:
  "map be_val (receive_all fresh_bitmap
      [[0, 0, 0, 0, 0, 0, 0, 1], [0, 0, 0, 0, 0, 0, 0, 0], [0, 0, 0, 0, 0, 0, 0, 1]]) = [1, 0]"
  using replay_window_refines
    [of "[[0, 0, 0, 0, 0, 0, 0, 1], [0, 0, 0, 0, 0, 0, 0, 0], [0, 0, 0, 0, 0, 0, 0, 1]]"]
  by (simp add: be_val_def)

lemma sliding_fresh: "\<forall>r\<in>R. r \<le> mx \<Longrightarrow> distinct (sliding mx R ns) \<and> set (sliding mx R ns) \<inter> R = {}"
proof (induction ns arbitrary: mx R)
  case (Cons n ns)
  have "\<forall>r\<in>insert n R. r \<le> max mx n"
    using Cons.prems by auto
  from Cons.IH [OF this] Cons.IH [OF Cons.prems] Cons.prems show ?case by auto
qed simp

text \<open>
  C4: no record number is accepted twice, however the records are repeated and reordered.
\<close>

theorem no_replay:
  assumes "list_all (\<lambda>s. length s = 8) seqs"
  shows "distinct (receive_all fresh_bitmap seqs)"
proof -
  have "distinct (map be_val (receive_all fresh_bitmap seqs))"
    using receive_sliding [OF fresh_window assms] sliding_fresh [of "{}"] by simp
  then show ?thesis
    by (simp add: distinct_map)
qed

theorem no_replay_witness:
  "distinct (receive_all fresh_bitmap [[0, 0, 0, 0, 0, 0, 0, 1], [0, 0, 0, 0, 0, 0, 0, 1]])"
  by (rule no_replay) simp

end
