(* ===== verification/Pqueue.thy ===== *)
theory Pqueue
  imports Prelude
begin

text \<open>
  The priority queue of \<open>ssl/pqueue.c\<close>, in which DTLS keeps the handshake messages and records
  that arrived early: a singly linked list of items, ordered by an 8-byte big-endian priority,
  without duplicates. The chain of \<open>next\<close> pointers is a list.
\<close>

section \<open>Model\<close>

record 'a pitem =
  priority :: bytes
  data :: 'a

record 'a pqueue =
  items :: "'a pitem list"
  count :: int

text \<open>\<open>memcmp\<close> on the first \<open>n\<close> bytes: the difference of the first pair of different bytes.\<close>

fun memcmp :: "bytes \<Rightarrow> bytes \<Rightarrow> nat \<Rightarrow> int" where
  "memcmp a b 0 = 0"
| "memcmp (x # a) (y # b) (Suc n) = (if x = y then memcmp a b n else uint x - uint y)"
| "memcmp _ _ (Suc n) = 0"

text \<open>The first argument of the constructors says whether the allocator delivers.\<close>

definition pitem_new :: "bool \<Rightarrow> bytes \<Rightarrow> 'a \<Rightarrow> 'a pitem option" where
  "pitem_new alloc prio64be d =
     (if \<not> alloc then None else Some \<lparr>priority = take 8 prio64be, data = d\<rparr>)"

definition pqueue_new :: "bool \<Rightarrow> 'a pqueue option" where
  "pqueue_new alloc = (if \<not> alloc then None else Some \<lparr>items = [], count = 0\<rparr>)"

text \<open>
  The loop of \<open>pqueue_insert\<close>: \<open>None\<close> when a duplicate is found; the items before the current
  one stay where they are.
\<close>

fun pqueue_insert_loop :: "'a pitem list \<Rightarrow> 'a pitem \<Rightarrow> 'a pitem list option" where
  "pqueue_insert_loop [] item = Some [item]"
| "pqueue_insert_loop (nxt # rest) item =
     (let cmp = memcmp (priority nxt) (priority item) 8 in
      if cmp > 0 then Some (item # nxt # rest)
      else if cmp = 0 then None
      else map_option (Cons nxt) (pqueue_insert_loop rest item))"

definition pqueue_insert :: "'a pqueue \<Rightarrow> 'a pitem \<Rightarrow> 'a pitem option \<times> 'a pqueue" where
  "pqueue_insert pq item =
     (if items pq = [] then (Some item, pq\<lparr>items := [item]\<rparr>)
      else case pqueue_insert_loop (items pq) item of
        None \<Rightarrow> (None, pq)
      | Some is \<Rightarrow> (Some item, pq\<lparr>items := is\<rparr>))"

definition pqueue_peek :: "'a pqueue \<Rightarrow> 'a pitem option" where
  "pqueue_peek pq = (case items pq of [] \<Rightarrow> None | item # _ \<Rightarrow> Some item)"

definition pqueue_pop :: "'a pqueue \<Rightarrow> 'a pitem option \<times> 'a pqueue" where
  "pqueue_pop pq =
     (case items pq of [] \<Rightarrow> (None, pq) | item # rest \<Rightarrow> (Some item, pq\<lparr>items := rest\<rparr>))"

text \<open>The loop of \<open>pqueue_find\<close> stops before the last node, which is compared afterwards.\<close>

fun pqueue_find_loop :: "'a pitem list \<Rightarrow> bytes \<Rightarrow> 'a pitem option" where
  "pqueue_find_loop [] prio = None"
| "pqueue_find_loop [nxt] prio = (if memcmp (priority nxt) prio 8 = 0 then Some nxt else None)"
| "pqueue_find_loop (nxt # nxt2 # rest) prio =
     (if memcmp (priority nxt) prio 8 = 0 then Some nxt else pqueue_find_loop (nxt2 # rest) prio)"

definition pqueue_find :: "'a pqueue \<Rightarrow> bytes \<Rightarrow> 'a pitem option" where
  "pqueue_find pq prio64be = pqueue_find_loop (items pq) prio64be"

definition pqueue_size :: "'a pqueue \<Rightarrow> nat" where
  "pqueue_size pq = length (items pq)"

text \<open>\<open>pqueue_iterator\<close> and \<open>pqueue_next\<close>: an iterator is the rest of the chain.\<close>

definition pqueue_iterator :: "'a pqueue \<Rightarrow> 'a pitem list" where
  "pqueue_iterator pq = items pq"

definition pqueue_next :: "'a pitem list \<Rightarrow> 'a pitem option \<times> 'a pitem list" where
  "pqueue_next it = (case it of [] \<Rightarrow> (None, []) | item # rest \<Rightarrow> (Some item, rest))"

text \<open>
  The items own pointers to their data, which clients modify in place: the effect of a store
  through the data pointer of the item with a given priority.
\<close>

definition pqueue_set_data :: "'a pqueue \<Rightarrow> bytes \<Rightarrow> 'a \<Rightarrow> 'a pqueue" where
  "pqueue_set_data pq prio d =
     pq\<lparr>items := map (\<lambda>it. if priority it = prio then it\<lparr>data := d\<rparr> else it) (items pq)\<rparr>"

section \<open>The interface of a queue keyed by priorities\<close>

text \<open>
  What DTLS relies on: a finite map from priorities to data from which the entry of least
  priority can be taken.
\<close>

locale keyed_queue =
  fixes invar :: "'q \<Rightarrow> bool"
    and lookup :: "'q \<Rightarrow> bytes \<Rightarrow> 'a option"
    and find :: "'q \<Rightarrow> bytes \<Rightarrow> 'a option"
    and ins :: "'q \<Rightarrow> bytes \<Rightarrow> 'a \<Rightarrow> 'q option"
    and pop :: "'q \<Rightarrow> ((bytes \<times> 'a) \<times> 'q) option"
    and upd :: "'q \<Rightarrow> bytes \<Rightarrow> 'a \<Rightarrow> 'q"
  assumes find_lookup: "invar q \<Longrightarrow> length k = 8 \<Longrightarrow> find q k = lookup q k"
    and ins_dup: "invar q \<Longrightarrow> length k = 8 \<Longrightarrow> ins q k a = None \<longleftrightarrow> k \<in> dom (lookup q)"
    and ins_lookup: "invar q \<Longrightarrow> length k = 8 \<Longrightarrow> ins q k a = Some r
      \<Longrightarrow> invar r \<and> lookup r = (lookup q)(k \<mapsto> a)"
    and upd_lookup: "invar q \<Longrightarrow> invar (upd q k a)
      \<and> lookup (upd q k a) = (if k \<in> dom (lookup q) then (lookup q)(k \<mapsto> a) else lookup q)"
    and pop_None: "invar q \<Longrightarrow> pop q = None \<longleftrightarrow> lookup q = Map.empty"
    and pop_Some: "invar q \<Longrightarrow> pop q = Some ((k, a), r)
      \<Longrightarrow> lookup q k = Some a \<and> invar r \<and> lookup r = (lookup q)(k := None)"
    and pop_least: "invar q \<Longrightarrow> pop q = Some ((k, a), r) \<Longrightarrow> k' \<in> dom (lookup q)
      \<Longrightarrow> be_val k \<le> be_val k'"
begin

lemma find_None_ins:
  assumes "invar q" and "length k = 8" and "find q k = None"
  shows "\<exists>r. ins q k a = Some r \<and> invar r \<and> lookup r = (lookup q)(k \<mapsto> a)"
proof -
  have "k \<notin> dom (lookup q)"
    using assms by (auto simp: find_lookup)
  then have "ins q k a \<noteq> None"
    using ins_dup assms(1,2) by blast
  then show ?thesis
    using ins_lookup assms(1,2) by blast
qed

lemma upd_found:
  assumes "invar q" and "length k = 8" and "find q k = Some a"
  shows "invar (upd q k b) \<and> lookup (upd q k b) = (lookup q)(k \<mapsto> b)"
  using assms find_lookup upd_lookup by force

primrec drain :: "nat \<Rightarrow> 'q \<Rightarrow> bytes list" where
  "drain 0 q = []"
| "drain (Suc n) q = (case pop q of None \<Rightarrow> [] | Some ((k, a), r) \<Rightarrow> k # drain n r)"

lemma drain_dom: "invar q \<Longrightarrow> set (drain n q) \<subseteq> dom (lookup q)"
proof (induction n arbitrary: q)
  case (Suc n)
  show ?case
  proof (cases "pop q")
    case (Some x)
    then obtain k a r where x: "pop q = Some ((k, a), r)" by (cases x) auto
    have r: "lookup q k = Some a" "invar r" "dom (lookup r) \<subseteq> dom (lookup q)"
      using pop_Some [OF Suc.prems x] by (auto split: if_splits)
    have "set (drain n r) \<subseteq> dom (lookup q)"
      using Suc.IH [OF r(2)] r(3) by (rule subset_trans)
    with x r(1) show ?thesis by (simp add: domI)
  qed simp
qed simp

lemma drain_all:
  "invar q \<Longrightarrow> finite (dom (lookup q)) \<Longrightarrow> card (dom (lookup q)) \<le> n \<Longrightarrow> set (drain n q) = dom (lookup q)"
proof (induction n arbitrary: q)
  case (Suc n)
  show ?case
  proof (cases "pop q")
    case None
    then show ?thesis using pop_None [OF Suc.prems(1)] by simp
  next
    case (Some x)
    then obtain k a r where x: "pop q = Some ((k, a), r)" by (cases x) auto
    have r: "k \<in> dom (lookup q)" "invar r" "dom (lookup r) = dom (lookup q) - {k}"
      using pop_Some [OF Suc.prems(1) x] by (auto split: if_splits)
    have "card (dom (lookup r)) = card (dom (lookup q)) - 1"
      using r(1,3) by (simp add: card_Diff_singleton)
    then have "set (drain n r) = dom (lookup q) - {k}"
      using Suc.IH [OF r(2)] Suc.prems(2,3) r(3) by simp
    with x r(1) show ?thesis by auto
  qed
qed simp

text \<open>Popping yields the entries in the order of their priorities, each once.\<close>

lemma drain_sorted: "invar q \<Longrightarrow> sorted (map be_val (drain n q)) \<and> distinct (drain n q)"
proof (induction n arbitrary: q)
  case (Suc n)
  show ?case
  proof (cases "pop q")
    case (Some x)
    then obtain k a r where x: "pop q = Some ((k, a), r)" by (cases x) auto
    have r: "invar r" "dom (lookup r) \<subseteq> dom (lookup q)" "k \<notin> dom (lookup r)"
      using pop_Some [OF Suc.prems x] by (auto split: if_splits)
    have "be_val k \<le> be_val k'" if "k' \<in> set (drain n r)" for k'
      using pop_least [OF Suc.prems x] drain_dom [OF r(1)] r(2) that by blast
    moreover have "k \<notin> set (drain n r)"
      using drain_dom [OF r(1)] r(3) by blast
    ultimately show ?thesis using x Suc.IH [OF r(1)] by auto
  qed simp
qed simp

text \<open>A sequence of insertions, those of a key already present being ignored.\<close>

definition ins_all :: "(bytes \<times> 'a) list \<Rightarrow> 'q \<Rightarrow> 'q" where
  "ins_all kvs q = fold (\<lambda>(k, a) q. case ins q k a of None \<Rightarrow> q | Some r \<Rightarrow> r) kvs q"

lemma ins_all_lookup:
  assumes "invar q" and "\<forall>(k, a)\<in>set kvs. length k = 8"
  shows "invar (ins_all kvs q) \<and> lookup (ins_all kvs q) = map_of kvs ++ lookup q"
  using assms
proof (induction kvs arbitrary: q)
  case (Cons kv kvs)
  obtain k a where kv: "kv = (k, a)" by (cases kv)
  have k: "length k = 8" using Cons.prems(2) kv by simp
  show ?case
  proof (cases "ins q k a")
    case None
    then have "k \<in> dom (lookup q)" using ins_dup [OF Cons.prems(1) k] by simp
    then have "map_of (kv # kvs) ++ lookup q = map_of kvs ++ lookup q"
      by (auto simp: kv map_add_def fun_eq_iff split: option.splits)
    moreover have "ins_all (kv # kvs) q = ins_all kvs q"
      using None by (simp add: kv ins_all_def)
    ultimately show ?thesis
      using Cons.IH [OF Cons.prems(1)] Cons.prems(2) by (metis list.set_intros(2))
  next
    case (Some r)
    then have nk: "k \<notin> dom (lookup q)" using ins_dup [OF Cons.prems(1) k, of a] by force
    have r: "invar r" "lookup r = (lookup q)(k \<mapsto> a)"
      using ins_lookup [OF Cons.prems(1) k Some] by simp_all
    have "map_of (kv # kvs) ++ lookup q = map_of kvs ++ lookup r"
      using nk by (auto simp: kv r(2) map_add_def fun_eq_iff split: option.splits)
    moreover have "ins_all (kv # kvs) q = ins_all kvs r"
      using Some by (simp add: kv ins_all_def)
    ultimately show ?thesis
      using Cons.IH [OF r(1)] Cons.prems(2) by (metis list.set_intros(2))
  qed
qed (simp add: ins_all_def)

text \<open>A sort: what is inserted comes out once per key, in order.\<close>

lemma sort_by_queue:
  assumes "invar q" and "lookup q = Map.empty" and "\<forall>(k, a)\<in>set kvs. length k = 8"
    and "drained = drain (length kvs) (ins_all kvs q)"
  shows "sorted (map be_val drained) \<and> distinct drained \<and> set drained = fst ` set kvs"
proof -
  have q: "invar (ins_all kvs q)" "lookup (ins_all kvs q) = map_of kvs"
    using ins_all_lookup [OF assms(1,3)] assms(2) by simp_all
  have d: "dom (lookup (ins_all kvs q)) = fst ` set kvs"
    by (simp add: q(2) dom_map_of_conv_image_fst)
  have "card (fst ` set kvs) \<le> length kvs"
    by (metis card_length image_set length_map)
  then have "set drained = fst ` set kvs"
    using drain_all [OF q(1), of "length kvs"] d assms(4) by simp
  then show ?thesis
    using drain_sorted [OF q(1)] assms(4) by simp
qed

end

section \<open>Comparison of priorities\<close>

lemma be_val_Cons: "be_val (x # xs) = unat x * 256 ^ length xs + be_val xs"
proof (induction xs rule: rev_induct)
  case (snoc y ys)
  have "be_val (x # ys @ [y]) = be_val (x # ys) * 256 + unat y"
    using be_val_snoc [of "x # ys" y] by simp
  with snoc show ?case by (simp add: algebra_simps)
qed (simp add: be_val_def)

lemma memcmp_numeral:
  "memcmp (x # a) (y # b) (numeral k)
   = (if x = y then memcmp a b (pred_numeral k) else uint x - uint y)"
  by (simp add: numeral_eq_Suc)

lemma memcmp_be:
  "length a = n \<Longrightarrow> length b = n \<Longrightarrow>
     (memcmp a b n < 0 \<longleftrightarrow> be_val a < be_val b) \<and> (memcmp a b n > 0 \<longleftrightarrow> be_val a > be_val b)
     \<and> (memcmp a b n = 0 \<longleftrightarrow> a = b)"
proof (induction a b n rule: memcmp.induct)
  case (2 x a y b n)
  have a: "be_val a < 256 ^ n" and b: "be_val b < 256 ^ n"
    using be_val_bound [of a] be_val_bound [of b] 2(2,3) by simp_all
  show ?case
  proof (cases "x = y")
    case True
    with 2 show ?thesis by (simp add: be_val_Cons)
  next
    case False
    have less: "unat u * 256 ^ n + p < unat v * 256 ^ n + q" if "unat u < unat v" "p < 256 ^ n"
      for u v :: byte and p q :: nat
    proof -
      have "unat u * 256 ^ n + p < (unat u + 1) * 256 ^ n"
        using that(2) by (simp add: algebra_simps)
      also have "\<dots> \<le> unat v * 256 ^ n"
        using that(1) by (intro mult_right_mono) simp_all
      finally show ?thesis by simp
    qed
    have "unat x \<noteq> unat y"
      using False by (simp add: word_unat_eq_iff)
    moreover have "uint x - uint y < 0 \<longleftrightarrow> unat x < unat y" "uint x - uint y > 0 \<longleftrightarrow> unat x > unat y"
      using word_less_def [of x y] word_less_def [of y x]
        word_less_nat_alt [of x y] word_less_nat_alt [of y x] by linarith+
    moreover have "length a = n" "length b = n"
      using 2(2,3) by simp_all
    moreover note less [of x y "be_val a" "be_val b"] less [of y x "be_val b" "be_val a"]
    ultimately show ?thesis
      using False a b by (cases "unat x < unat y") (simp_all add: be_val_Cons)
  qed
qed auto

section \<open>The invariant and the map it stands for\<close>

definition prio_less :: "'a pitem \<Rightarrow> 'a pitem \<Rightarrow> bool" where
  "prio_less x y \<longleftrightarrow> be_val (priority x) < be_val (priority y)"

definition pqueue_ok :: "'a pqueue \<Rightarrow> bool" where
  "pqueue_ok pq \<longleftrightarrow> (\<forall>x\<in>set (items pq). length (priority x) = 8) \<and> sorted_wrt prio_less (items pq)"

definition pitems_map :: "'a pitem list \<Rightarrow> bytes \<Rightarrow> 'a option" where
  "pitems_map is = map_of (map (\<lambda>it. (priority it, data it)) is)"

definition pqueue_lookup :: "'a pqueue \<Rightarrow> bytes \<Rightarrow> 'a option" where
  "pqueue_lookup pq = pitems_map (items pq)"

lemma pitems_map_simps [simp]:
  "pitems_map [] = Map.empty"
  "pitems_map (it # is) = (pitems_map is)(priority it \<mapsto> data it)"
  by (simp_all add: pitems_map_def)

lemma dom_pitems_map [simp]: "dom (pitems_map is) = priority ` set is"
  by (simp add: pitems_map_def dom_map_of_conv_image_fst image_image)

lemma insert_loop_spec:
  assumes "\<forall>x\<in>set is. length (priority x) = 8" and "length (priority item) = 8"
    and "sorted_wrt prio_less is"
  shows "case pqueue_insert_loop is item of
      None \<Rightarrow> priority item \<in> priority ` set is
    | Some js \<Rightarrow> priority item \<notin> priority ` set is \<and> set js = insert item (set is)
        \<and> sorted_wrt prio_less js \<and> pitems_map js = (pitems_map is)(priority item \<mapsto> data item)"
  using assms(1,3)
proof (induction "is")
  case (Cons nxt rest)
  let ?c = "memcmp (priority nxt) (priority item) 8"
  have c: "?c < 0 \<longleftrightarrow> prio_less nxt item" "?c > 0 \<longleftrightarrow> prio_less item nxt"
    "?c = 0 \<longleftrightarrow> priority nxt = priority item"
    using memcmp_be [of "priority nxt" 8 "priority item"] Cons.prems(1) assms(2)
    by (simp_all add: prio_less_def)
  have IH: "case pqueue_insert_loop rest item of
      None \<Rightarrow> priority item \<in> priority ` set rest
    | Some js \<Rightarrow> priority item \<notin> priority ` set rest \<and> set js = insert item (set rest)
        \<and> sorted_wrt prio_less js \<and> pitems_map js = (pitems_map rest)(priority item \<mapsto> data item)"
    using Cons by simp
  consider "?c > 0" | "?c = 0" | "?c < 0" by linarith
  then show ?case
  proof cases
    case 1
    then have lt: "prio_less item x" if "x \<in> set (nxt # rest)" for x
      using c(2) Cons.prems(2) that by (auto simp: prio_less_def)
    have ne: "priority item \<noteq> priority x" if "x \<in> set (nxt # rest)" for x
      using lt [OF that] unfolding prio_less_def by force
    have "priority item \<notin> priority ` set (nxt # rest)"
      using ne by blast
    moreover have "sorted_wrt prio_less (item # nxt # rest)"
      using lt Cons.prems(2) by simp
    ultimately show ?thesis
      using 1 by simp
  next
    case 2
    then show ?thesis using c(3) by simp
  next
    case 3
    then have "priority item \<noteq> priority nxt" "prio_less nxt item"
      using c by auto
    with 3 IH Cons.prems(2) show ?thesis
      by (auto simp: fun_upd_twist split: option.splits)
  qed
qed simp

lemma insert_loop_length:
  "pqueue_insert_loop is item = Some js \<Longrightarrow> length js = length is + 1"
  by (induction "is" arbitrary: js) (auto simp: Let_def split: if_splits)

lemma find_loop_spec:
  assumes "\<forall>x\<in>set is. length (priority x) = 8" and "length k = 8"
  shows "map_option data (pqueue_find_loop is k) = pitems_map is k"
  using assms
proof (induction "is" k rule: pqueue_find_loop.induct)
  case (2 nxt prio)
  then show ?case
    using memcmp_be [of "priority nxt" 8 prio] by auto
next
  case (3 nxt nxt2 rest prio)
  then show ?case
    using memcmp_be [of "priority nxt" 8 prio] by auto
qed simp

section \<open>The queue implements the interface\<close>

text \<open>
  The operations as the clients use them: an item is made, then inserted; a store through the data
  pointer of a found item updates its entry.
\<close>

definition queue_find :: "'a pqueue \<Rightarrow> bytes \<Rightarrow> 'a option" where
  "queue_find pq k = map_option data (pqueue_find pq k)"

definition queue_insert :: "'a pqueue \<Rightarrow> bytes \<Rightarrow> 'a \<Rightarrow> 'a pqueue option" where
  "queue_insert pq k d =
     (case pitem_new True k d of
        None \<Rightarrow> None
      | Some item \<Rightarrow> (case pqueue_insert pq item of (None, _) \<Rightarrow> None | (Some _, pq') \<Rightarrow> Some pq'))"

definition queue_pop :: "'a pqueue \<Rightarrow> ((bytes \<times> 'a) \<times> 'a pqueue) option" where
  "queue_pop pq =
     (case pqueue_pop pq of (None, _) \<Rightarrow> None | (Some it, pq') \<Rightarrow> Some ((priority it, data it), pq'))"

lemma queue_insert_spec:
  assumes "pqueue_ok pq" and "length k = 8"
  shows "case queue_insert pq k d of
      None \<Rightarrow> k \<in> dom (pqueue_lookup pq)
    | Some pq' \<Rightarrow> k \<notin> dom (pqueue_lookup pq) \<and> pqueue_ok pq'
        \<and> pqueue_lookup pq' = (pqueue_lookup pq)(k \<mapsto> d)"
  using assms insert_loop_spec [of "items pq" "\<lparr>priority = k, data = d\<rparr>"]
  by (auto simp: queue_insert_def pqueue_insert_def pitem_new_def pqueue_ok_def pqueue_lookup_def
      split: option.splits)

lemma pitems_map_set:
  "pitems_map (map (\<lambda>it. if priority it = k then it\<lparr>data := d\<rparr> else it) is)
   = (if k \<in> priority ` set is then (pitems_map is)(k \<mapsto> d) else pitems_map is)"
  by (induction "is") (auto simp: fun_upd_twist)

lemma pqueue_ok_set: "pqueue_ok pq \<Longrightarrow> pqueue_ok (pqueue_set_data pq k d)"
  by (auto simp: pqueue_ok_def pqueue_set_data_def sorted_wrt_map prio_less_def
      elim!: sorted_wrt_mono_rel [rotated])

interpretation pq: keyed_queue pqueue_ok pqueue_lookup queue_find queue_insert queue_pop pqueue_set_data
proof
  fix q :: "'a pqueue" and k :: bytes and a r
  assume ok: "pqueue_ok q"
  show "length k = 8 \<Longrightarrow> queue_find q k = pqueue_lookup q k"
    using ok by (simp add: queue_find_def pqueue_find_def pqueue_lookup_def pqueue_ok_def find_loop_spec)
  show "length k = 8 \<Longrightarrow> (queue_insert q k a = None) = (k \<in> dom (pqueue_lookup q))"
    using queue_insert_spec [OF ok, of k a] by (auto split: option.splits)
  show "length k = 8 \<Longrightarrow> queue_insert q k a = Some r
    \<Longrightarrow> pqueue_ok r \<and> pqueue_lookup r = (pqueue_lookup q)(k \<mapsto> a)"
    using queue_insert_spec [OF ok, of k a] by simp
  show "pqueue_ok (pqueue_set_data q k a) \<and> pqueue_lookup (pqueue_set_data q k a)
    = (if k \<in> dom (pqueue_lookup q) then (pqueue_lookup q)(k \<mapsto> a) else pqueue_lookup q)"
    using pqueue_ok_set [OF ok] by (simp add: pqueue_lookup_def pqueue_set_data_def pitems_map_set)
  show "(queue_pop q = None) = (pqueue_lookup q = Map.empty)"
    by (auto simp: queue_pop_def pqueue_pop_def pqueue_lookup_def split: list.splits)
  show "queue_pop q = Some ((k, a), r) \<Longrightarrow> pqueue_lookup q k = Some a \<and> pqueue_ok r
    \<and> pqueue_lookup r = (pqueue_lookup q)(k := None)"
  proof -
    assume "queue_pop q = Some ((k, a), r)"
    then obtain it rest where it: "items q = it # rest" "k = priority it" "a = data it"
      "r = q\<lparr>items := rest\<rparr>"
      by (auto simp: queue_pop_def pqueue_pop_def split: list.splits)
    have "priority it \<notin> priority ` set rest"
      using ok it(1) by (force simp: pqueue_ok_def prio_less_def)
    then have "pitems_map rest k = None"
      using dom_pitems_map [of rest] it(2) by blast
    then show ?thesis
      using ok it by (auto simp: pqueue_ok_def pqueue_lookup_def)
  qed
  show "queue_pop q = Some ((k, a), r) \<Longrightarrow> k' \<in> dom (pqueue_lookup q) \<Longrightarrow> be_val k \<le> be_val k'" for k'
    using ok by (auto simp: queue_pop_def pqueue_pop_def pqueue_lookup_def pqueue_ok_def prio_less_def
        split: list.splits)
qed

lemma pqueue_find_spec:
  assumes "pqueue_ok pq" and "length k = 8"
  shows "pqueue_find pq k = map_option (\<lambda>d. \<lparr>priority = k, data = d\<rparr>) (pqueue_lookup pq k)"
proof -
  have "priority it = k" if "pqueue_find_loop is k = Some it" "\<forall>x\<in>set is. length (priority x) = 8" for it "is"
    using that assms(2)
  proof (induction "is" k rule: pqueue_find_loop.induct)
    case (2 nxt prio)
    then show ?case using memcmp_be [of "priority nxt" 8 prio] by (auto split: if_splits)
  next
    case (3 nxt nxt2 rest prio)
    then show ?case using memcmp_be [of "priority nxt" 8 prio] by (auto split: if_splits)
  qed simp
  then have "\<forall>it. pqueue_find pq k = Some it \<longrightarrow> priority it = k"
    using assms(1) unfolding pqueue_find_def pqueue_ok_def by blast
  moreover have "map_option data (pqueue_find pq k) = pqueue_lookup pq k"
    using pq.find_lookup [OF assms] by (simp add: queue_find_def)
  ultimately show ?thesis by (cases "pqueue_find pq k") (auto dest: sym)
qed

lemma pqueue_insert_queue:
  fixes item :: "'a pitem"
  assumes "length (priority item) = 8"
  shows "pqueue_insert pq item =
    (case queue_insert pq (priority item) (data item) of None \<Rightarrow> (None, pq) | Some pq' \<Rightarrow> (Some item, pq'))"
  using assms
  by (cases item) (auto simp: queue_insert_def pitem_new_def pqueue_insert_def split: option.splits)

section \<open>Properties\<close>

text \<open>
  C31: Inserting and finding. In a well-formed queue an item whose priority is not yet present is
  inserted, the queue stays well formed, and a later search for any 8-byte priority finds the new
  item under its own priority and what was there before under every other one. An item whose
  priority is present is refused and the queue is left as it was.
\<close>

theorem pqueue_insert_find:
  assumes "pqueue_ok pq" and "length (priority item) = 8" and "length k = 8"
  shows "if pqueue_find pq (priority item) = None
    then \<exists>pq'. pqueue_insert pq item = (Some item, pq') \<and> pqueue_ok pq'
      \<and> pqueue_find pq' k = (if k = priority item then Some item else pqueue_find pq k)
      \<and> pqueue_size pq' = pqueue_size pq + 1
    else pqueue_insert pq item = (None, pq)"
proof (cases "queue_insert pq (priority item) (data item)")
  case None
  then show ?thesis
    using pq.ins_dup [OF assms(1,2), of "data item"] pqueue_insert_queue [OF assms(2), of pq]
    by (auto simp: pqueue_find_spec [OF assms(1,2)])
next
  case (Some pq')
  have "priority item \<notin> dom (pqueue_lookup pq)"
    using pq.ins_dup [OF assms(1,2), of "data item"] Some by force
  then have n: "pqueue_find pq (priority item) = None"
    by (auto simp: pqueue_find_spec [OF assms(1,2)])
  have ok: "pqueue_ok pq'" and l: "pqueue_lookup pq' = (pqueue_lookup pq)(priority item \<mapsto> data item)"
    using pq.ins_lookup [OF assms(1,2) Some] by simp_all
  have i: "pqueue_insert pq item = (Some item, pq')"
    by (simp add: pqueue_insert_queue [OF assms(2)] Some)
  have "pqueue_find pq' k = (if k = priority item then Some item else pqueue_find pq k)"
    using ok l assms by (simp add: pqueue_find_spec)
  moreover have "pqueue_size pq' = pqueue_size pq + 1"
    using i insert_loop_length [of "items pq" item] 
    by (auto simp: pqueue_insert_def pqueue_size_def split: if_splits option.splits)
  ultimately show ?thesis using n i ok by simp
qed

definition sample_item :: "byte \<Rightarrow> nat \<Rightarrow> nat pitem" where
  "sample_item b d = \<lparr>priority = [0, 0, 0, 0, 0, 0, 0, b], data = d\<rparr>"

theorem pqueue_insert_find_witness:
  "\<exists>pq'. pqueue_insert \<lparr>items = [sample_item 1 10, sample_item 9 90], count = 0\<rparr> (sample_item 5 50) = (Some (sample_item 5 50), pq')
     \<and> pqueue_ok pq' \<and> pqueue_find pq' [0, 0, 0, 0, 0, 0, 0, 9] = Some (sample_item 9 90) \<and> pqueue_size pq' = 3"
  using pqueue_insert_find [of "\<lparr>items = [sample_item 1 10, sample_item 9 90], count = 0\<rparr>" "sample_item 5 50"
      "[0, 0, 0, 0, 0, 0, 0, 9]"]
  by (simp add: pqueue_ok_def pqueue_find_def pqueue_size_def sample_item_def prio_less_def be_val_def memcmp_numeral
      numeral_3_eq_3)

text \<open>
  The priorities in the order in which repeated \<open>pqueue_pop\<close> delivers their items.
\<close>

fun pqueue_drain :: "nat \<Rightarrow> 'a pqueue \<Rightarrow> bytes list" where
  "pqueue_drain 0 pq = []"
| "pqueue_drain (Suc n) pq =
     (case pqueue_pop pq of (None, _) \<Rightarrow> [] | (Some it, pq') \<Rightarrow> priority it # pqueue_drain n pq')"

lemma pqueue_drain_numeral:
  "pqueue_drain (numeral n) pq =
     (case pqueue_pop pq of (None, _) \<Rightarrow> []
      | (Some it, pq') \<Rightarrow> priority it # pqueue_drain (pred_numeral n) pq')"
  by (simp add: numeral_eq_Suc)

lemma pqueue_drain_drain: "pqueue_drain n pq = pq.drain n pq"
  by (induction n arbitrary: pq)
    (auto simp: queue_pop_def split: option.splits prod.splits)

definition insert_all :: "'a pitem list \<Rightarrow> 'a pqueue \<Rightarrow> 'a pqueue" where
  "insert_all its pq = fold (\<lambda>it pq. snd (pqueue_insert pq it)) its pq"

lemma insert_all_ins_all:
  "\<forall>it\<in>set its. length (priority it) = 8 \<Longrightarrow>
   insert_all its pq = pq.ins_all (map (\<lambda>it. (priority it, data it)) its) pq"
  by (induction its arbitrary: pq)
    (auto simp: insert_all_def pq.ins_all_def pqueue_insert_queue split: option.splits)

text \<open>
  C30: Ordering. Items inserted into a fresh queue in any order, duplicates included, are popped in
  the order of their priorities read as 64-bit big-endian numbers, each priority once, and none is
  lost.
\<close>

theorem pqueue_pops_in_order:
  assumes "\<forall>it\<in>set its. length (priority it) = 8" and "pqueue_new True = Some pq"
    and "ks = pqueue_drain (length its) (insert_all its pq)"
  shows "sorted_wrt (<) (map be_val ks) \<and> set ks = priority ` set its"
proof -
  let ?kvs = "map (\<lambda>it. (priority it, data it)) its"
  have pq: "pqueue_ok pq" "pqueue_lookup pq = Map.empty"
    using assms(2) by (auto simp: pqueue_new_def pqueue_ok_def pqueue_lookup_def)
  have ks: "ks = pq.drain (length ?kvs) (pq.ins_all ?kvs pq)"
    using assms(1,3) by (simp add: pqueue_drain_drain insert_all_ins_all)
  have s: "sorted (map be_val ks)" "distinct ks" "set ks = priority ` set its"
    using pq.sort_by_queue [OF pq _ ks] assms(1) by (auto simp: image_image)
  have "inj_on be_val (set ks)"
    using assms(1) s(3) by (auto simp: inj_on_def be_val_inject)
  then show ?thesis
    using s by (simp add: strict_sorted_iff distinct_map)
qed

theorem pqueue_pops_in_order_witness:
  "pqueue_drain 3 (insert_all [sample_item 9 90, sample_item 1 10, sample_item 9 91] \<lparr>items = [], count = 0\<rparr>)
     = [[0, 0, 0, 0, 0, 0, 0, 1], [0, 0, 0, 0, 0, 0, 0, 9]]
   \<and> sorted_wrt (<) (map be_val (pqueue_drain 3
       (insert_all [sample_item 9 90, sample_item 1 10, sample_item 9 91] \<lparr>items = [], count = 0\<rparr>)))"
  using pqueue_pops_in_order [of "[sample_item 9 90, sample_item 1 10, sample_item 9 91]" "\<lparr>items = [], count = 0\<rparr>"
      "pqueue_drain 3 (insert_all [sample_item 9 90, sample_item 1 10, sample_item 9 91] \<lparr>items = [], count = 0\<rparr>)"]
  by (simp add: pqueue_new_def sample_item_def insert_all_def pqueue_insert_def pqueue_pop_def memcmp_numeral pqueue_drain_numeral)

end
