(* ===== verification/Dtls_Fragment.thy ===== *)
theory Dtls_Fragment
  imports Memory Pqueue
begin

text \<open>
  Handshake fragments of DTLS: the fragment header and its wire format, the bitmask that records
  which bytes of a message have arrived, and the fragment buffers (\<open>ssl/statem/statem_dtls.c\<close>,
  the structs of \<open>ssl/ssl_local.h\<close>). The \<open>long\<close> indices of the bitmask macros are natural
  numbers: they come from lengths below \<open>2 ^ 24\<close>.
\<close>

section \<open>Headers\<close>

type_synonym u16 = "16 word"

text \<open>Pointers that are only saved and restored are numbers, with 0 for NULL.\<close>

record dtls1_retransmit_state =
  rs_enc_write_ctx :: nat
  rs_write_hash :: nat
  rs_compress :: nat
  rs_session :: nat
  rs_epoch :: u16

record hm_header =
  hm_type :: byte
  msg_len :: nat
  seq :: u16
  frag_off :: nat
  frag_len :: nat
  is_ccs :: nat
  saved_retransmit_state :: dtls1_retransmit_state

definition hm_header_zero :: hm_header where
  "hm_header_zero = \<lparr>hm_type = 0, msg_len = 0, seq = 0, frag_off = 0, frag_len = 0, is_ccs = 0,
     saved_retransmit_state = \<lparr>rs_enc_write_ctx = 0, rs_write_hash = 0, rs_compress = 0,
       rs_session = 0, rs_epoch = 0\<rparr>\<rparr>"

abbreviation (input) DTLS1_HM_HEADER_LENGTH :: nat where "DTLS1_HM_HEADER_LENGTH \<equiv> 12"

text \<open>The macros that move 2- and 3-byte integers to and from the wire.\<close>

definition n2s :: "bytes \<Rightarrow> u16" where
  "n2s c = push_bit 8 (ucast (c ! 0)) OR ucast (c ! 1)"

definition s2n :: "u16 \<Rightarrow> bytes" where
  "s2n s = [ucast (drop_bit 8 s), ucast s]"

definition n2l3 :: "bytes \<Rightarrow> nat" where
  "n2l3 c = (push_bit 16 (unat (c ! 0)) OR push_bit 8 (unat (c ! 1))) OR unat (c ! 2)"

definition l2n3 :: "nat \<Rightarrow> bytes" where
  "l2n3 l = [of_nat (drop_bit 16 l), of_nat (drop_bit 8 l), of_nat l]"

text \<open>What \<open>dtls1_write_message_header\<close> stores at its pointer.\<close>

definition dtls1_write_message_header :: "hm_header \<Rightarrow> bytes" where
  "dtls1_write_message_header h =
     hm_type h # l2n3 (msg_len h) @ s2n (seq h) @ l2n3 (frag_off h) @ l2n3 (frag_len h)"

definition dtls1_get_message_header :: "bytes \<Rightarrow> hm_header" where
  "dtls1_get_message_header p = hm_header_zero\<lparr>hm_type := p ! 0, msg_len := n2l3 (drop 1 p),
     seq := n2s (drop 4 p), frag_off := n2l3 (drop 6 p), frag_len := n2l3 (drop 9 p)\<rparr>"

section \<open>The reassembly bitmask\<close>

definition RSMBLY_BITMASK_SIZE :: "nat \<Rightarrow> nat" where
  "RSMBLY_BITMASK_SIZE len = (len + 7) div 8"

definition bitmask_start_values :: bytes where
  "bitmask_start_values = [0xff, 0xfe, 0xfc, 0xf8, 0xf0, 0xe0, 0xc0, 0x80]"

definition bitmask_end_values :: bytes where
  "bitmask_end_values = [0xff, 0x01, 0x03, 0x07, 0x0f, 0x1f, 0x3f, 0x7f]"

definition or_at :: "bytes \<Rightarrow> nat \<Rightarrow> byte \<Rightarrow> bytes option" where
  "or_at bm i v = (if i < length bm then Some (bm[i := bm ! i OR v]) else None)"

function mark_bits :: "bytes \<Rightarrow> nat \<Rightarrow> nat \<Rightarrow> bytes option" where
  "mark_bits bm ii e =
     (if ii < e then do {
        bm \<leftarrow> or_at bm (drop_bit 3 ii) (push_bit (ii AND 7) 1);
        mark_bits bm (ii + 1) e
      } else Some bm)"
  by auto
termination by (relation "measure (\<lambda>(_, ii, e). e - ii)") auto

function mark_full :: "bytes \<Rightarrow> nat \<Rightarrow> nat \<Rightarrow> bytes option" where
  "mark_full bm ii e =
     (if ii < e then
        (if ii < length bm then mark_full (bm[ii := 0xff]) (ii + 1) e else None)
      else Some bm)"
  by auto
termination by (relation "measure (\<lambda>(_, ii, e). e - ii)") auto

declare mark_bits.simps [simp del] mark_full.simps [simp del]

definition RSMBLY_BITMASK_MARK :: "bytes \<Rightarrow> nat \<Rightarrow> nat \<Rightarrow> bytes option" where
  "RSMBLY_BITMASK_MARK bm s e =
     (if e - s \<le> 8 then mark_bits bm s e
      else do {
        bm \<leftarrow> or_at bm (drop_bit 3 s) (bitmask_start_values ! (s AND 7));
        bm \<leftarrow> mark_full bm (drop_bit 3 s + 1) (drop_bit 3 (e - 1));
        or_at bm (drop_bit 3 (e - 1)) (bitmask_end_values ! (e AND 7))
      })"

text \<open>The backward loop over the full bytes; \<open>i\<close> bytes remain.\<close>

fun all_full :: "bytes \<Rightarrow> nat \<Rightarrow> bool option" where
  "all_full bm 0 = Some True"
| "all_full bm (Suc i) =
     (if i < length bm then (if bm ! i \<noteq> 0xff then Some False else all_full bm i) else None)"

definition RSMBLY_BITMASK_IS_COMPLETE :: "bytes \<Rightarrow> nat \<Rightarrow> bool option" where
  "RSMBLY_BITMASK_IS_COMPLETE bm len =
     (let j = drop_bit 3 (len - 1) in
      if j < length bm then
        (if bm ! j \<noteq> bitmask_end_values ! (len AND 7) then Some False else all_full bm j)
      else None)"

section \<open>Fragment buffers\<close>

record hm_fragment =
  msg_header :: hm_header
  fragment :: bytes
  reassembly :: "bytes option"

text \<open>\<open>OPENtls_zalloc\<close> clears the block; the size of the struct is that of the LP64 targets.\<close>

definition zalloc :: "allocator \<Rightarrow> nat \<Rightarrow> bytes option" where
  "zalloc a n = map_option (\<lambda>b. replicate n 0) (a n)"

abbreviation (input) sizeof_hm_fragment :: nat where "sizeof_hm_fragment \<equiv> 104"
abbreviation (input) sizeof_pitem :: nat where "sizeof_pitem \<equiv> 24"

definition dtls1_hm_fragment_new :: "allocator \<Rightarrow> nat \<Rightarrow> bool \<Rightarrow> hm_fragment option" where
  "dtls1_hm_fragment_new a flen re =
     (if a sizeof_hm_fragment = None then None
      else case (if flen \<noteq> 0 then a flen else Some []) of
        None \<Rightarrow> None
      | Some buf \<Rightarrow>
          (if re then
             (case zalloc a (RSMBLY_BITMASK_SIZE flen) of
                None \<Rightarrow> None
              | Some bitmask \<Rightarrow>
                  Some \<lparr>msg_header = hm_header_zero, fragment = buf, reassembly = Some bitmask\<rparr>)
           else Some \<lparr>msg_header = hm_header_zero, fragment = buf, reassembly = None\<rparr>))"

section \<open>The header is a codec\<close>

lemma n2l3_be: "n2l3 (a # b # c # r) = be_val [a, b, c]"
proof -
  have "(push_bit 16 (unat a) OR push_bit 8 (unat b)) OR unat c
    = push_bit 8 (push_bit 8 (unat a) OR unat b) OR unat c"
    by (simp add: bit_eq_iff bit_simps)
  then show ?thesis
    by (simp add: n2l3_def push_bit_or_nat be_val_def)
qed

lemma l2n3_be: "l2n3 l = be_bytes 3 l"
  by (simp add: l2n3_def drop_bit_eq_div div_mult2_eq [symmetric])

lemma n2l3_l2n3: "l < 2 ^ 24 \<Longrightarrow> n2l3 (l2n3 l @ r) = l"
proof -
  assume "l < 2 ^ 24"
  then have "be_val (l2n3 l) = l"
    by (simp only: l2n3_be be_val_be_bytes) simp
  then show ?thesis
    by (simp add: l2n3_def n2l3_be)
qed

lemma n2s_s2n: "n2s (s2n s @ r) = s"
proof -
  have "push_bit 8 (ucast (ucast (drop_bit 8 s) :: byte)) OR ucast (ucast s :: byte) = s"
    by (rule bit_word_eqI) (auto simp: bit_simps)
  then show ?thesis
    by (simp add: n2s_def s2n_def)
qed

definition hm_valid :: "hm_header \<Rightarrow> bool" where
  "hm_valid h \<longleftrightarrow> msg_len h < 2 ^ 24 \<and> frag_off h < 2 ^ 24 \<and> frag_len h < 2 ^ 24
     \<and> is_ccs h = 0 \<and> saved_retransmit_state h = saved_retransmit_state hm_header_zero"

definition hm_read :: "bytes \<Rightarrow> (hm_header \<times> bytes) option" where
  "hm_read bs =
     (if length bs < DTLS1_HM_HEADER_LENGTH then None
      else Some (dtls1_get_message_header (take 12 bs), drop 12 bs))"

lemma length_write_header [simp]: "length (dtls1_write_message_header h) = 12"
  by (simp add: dtls1_write_message_header_def l2n3_def s2n_def)

lemma get_write_header:
  assumes "hm_valid h"
  shows "dtls1_get_message_header (dtls1_write_message_header h) = h"
proof -
  let ?w = "dtls1_write_message_header h"
  have d: "drop 1 ?w = l2n3 (msg_len h) @ s2n (seq h) @ l2n3 (frag_off h) @ l2n3 (frag_len h)"
    "drop 4 ?w = s2n (seq h) @ l2n3 (frag_off h) @ l2n3 (frag_len h)"
    "drop 6 ?w = l2n3 (frag_off h) @ l2n3 (frag_len h)"
    "drop 9 ?w = l2n3 (frag_len h) @ []"
    by (simp_all add: dtls1_write_message_header_def l2n3_def s2n_def)
  have "?w ! 0 = hm_type h"
    by (simp add: dtls1_write_message_header_def)
  with assms show ?thesis
    unfolding dtls1_get_message_header_def d
    using n2l3_l2n3 [of "frag_len h" "[]"]
    by (cases h) (simp add: n2l3_l2n3 n2s_s2n hm_valid_def hm_header_zero_def)
qed

interpretation hm: codec "\<lambda>_. True" hm_valid dtls1_write_message_header hm_read
  by unfold_locales (simp_all add: hm_read_def get_write_header)

section \<open>The bitmask as a set of positions\<close>

definition bits :: "bytes \<Rightarrow> nat set" where
  "bits bm = {k. k < 8 * length bm \<and> bit (bm ! (k div 8)) (k mod 8)}"

lemma and_7: "(n :: nat) AND 7 = n mod 8"
proof -
  have "n AND 7 = n AND mask 3"
    by (simp add: mask_eq_exp_minus_1)
  then show ?thesis
    by (simp only: take_bit_eq_mask [symmetric] take_bit_eq_mod) simp
qed

lemma shift_3: "drop_bit 3 (n :: nat) = n div 8"
  by (simp add: drop_bit_eq_div)

lemma bits_replicate [simp]: "bits (replicate n 0) = {}"
  by (auto simp: bits_def)

lemma less_8_cases: "(i :: nat) < 8 \<longleftrightarrow> i \<in> {0, 1, 2, 3, 4, 5, 6, 7}"
  by auto

lemma byte_ff: "(0xff :: byte) = mask 8"
  by (simp add: mask_eq_exp_minus_1)

lemma bit_byte_ff: "bit (0xff :: byte) (k mod 8)"
  unfolding byte_ff by (simp add: bit_mask_iff)

lemma start_values: "j < 8 \<Longrightarrow> bitmask_start_values ! j = push_bit j (mask 8)"
  unfolding less_8_cases
  by (elim insertE) (simp_all add: bitmask_start_values_def mask_eq_exp_minus_1)

lemma end_values: "j < 8 \<Longrightarrow> bitmask_end_values ! j = (if j = 0 then mask 8 else mask j)"
  unfolding less_8_cases
  by (elim insertE) (simp_all add: bitmask_end_values_def mask_eq_exp_minus_1)

lemma bit_start_values: "j < 8 \<Longrightarrow> i < 8 \<Longrightarrow> bit (bitmask_start_values ! j) i \<longleftrightarrow> j \<le> i"
  by (auto simp: start_values bit_simps)

lemma bit_end_values: "j < 8 \<Longrightarrow> i < 8 \<Longrightarrow> bit (bitmask_end_values ! j) i \<longleftrightarrow> j = 0 \<or> i < j"
  by (simp add: end_values bit_simps)

lemma bits_update:
  assumes "i < length bm"
  shows "bits (bm[i := v]) = {k\<in>bits bm. k div 8 \<noteq> i} \<union> {k. k div 8 = i \<and> bit v (k mod 8)}"
  using assms by (auto simp: bits_def nth_list_update div_less_iff_less_mult)

lemma or_at_bits:
  assumes "i < length bm"
  shows "\<exists>bm'. or_at bm i v = Some bm' \<and> length bm' = length bm
    \<and> bits bm' = bits bm \<union> {k. k div 8 = i \<and> bit v (k mod 8)}"
proof -
  have "bits (bm[i := bm ! i OR v]) = bits bm \<union> {k. k div 8 = i \<and> bit v (k mod 8)}"
    unfolding bits_update [OF assms]
    using assms by (auto simp: bits_def bit_simps)
  with assms show ?thesis by (simp add: or_at_def)
qed

lemma div_mod_8: "(k :: nat) div 8 = n div 8 \<and> k mod 8 = n mod 8 \<longleftrightarrow> k = n"
  by (metis div_mult_mod_eq)

lemma mark_bits_spec:
  "e \<le> 8 * length bm \<Longrightarrow> \<exists>bm'. mark_bits bm ii e = Some bm' \<and> length bm' = length bm
     \<and> bits bm' = bits bm \<union> {ii..<e}"
proof (induction bm ii e rule: mark_bits.induct)
  case (1 bm ii e)
  show ?case
  proof (cases "ii < e")
    case True
    have i: "drop_bit 3 ii < length bm"
      using True 1(2) by (simp add: shift_3 div_less_iff_less_mult mult.commute)
    obtain bm1 where bm1: "or_at bm (drop_bit 3 ii) (push_bit (ii AND 7) 1) = Some bm1"
      "length bm1 = length bm"
      "bits bm1 = bits bm \<union> {k. k div 8 = drop_bit 3 ii \<and> bit (push_bit (ii AND 7) 1 :: byte) (k mod 8)}"
      using or_at_bits [OF i] by blast
    have "{k. k div 8 = drop_bit 3 ii \<and> bit (push_bit (ii AND 7) 1 :: byte) (k mod 8)} = {ii}"
      unfolding and_7 shift_3 div_mod_8 [of _ ii, symmetric] singleton_conv [symmetric]
      by (simp add: bit_simps)
    then have b: "bits bm1 = insert ii (bits bm)"
      using bm1(3) by simp
    obtain bm' where "mark_bits bm1 (ii + 1) e = Some bm'" "length bm' = length bm1"
      "bits bm' = bits bm1 \<union> {ii + 1..<e}"
      using 1(1) [OF True bm1(1)] 1(2) bm1(2) by auto
    moreover from True have "insert ii (bits bm) \<union> {ii + 1..<e} = bits bm \<union> {ii..<e}"
      by auto
    ultimately show ?thesis
      using True bm1(1,2) unfolding b by (subst mark_bits.simps) simp
  qed (subst mark_bits.simps, simp)
qed

lemma mark_full_spec:
  "e \<le> length bm \<Longrightarrow> \<exists>bm'. mark_full bm ii e = Some bm' \<and> length bm' = length bm
     \<and> bits bm' = bits bm \<union> {k. ii \<le> k div 8 \<and> k div 8 < e}"
proof (induction bm ii e rule: mark_full.induct)
  case (1 bm ii e)
  show ?case
  proof (cases "ii < e")
    case True
    then have i: "ii < length bm" using 1(2) by simp
    have b: "bits (bm[ii := 0xff]) = bits bm \<union> {k. k div 8 = ii}"
      unfolding bits_update [OF i] using bit_byte_ff by blast
    obtain bm' where "mark_full (bm[ii := 0xff]) (ii + 1) e = Some bm'" "length bm' = length bm"
      "bits bm' = bits (bm[ii := 0xff]) \<union> {k. ii + 1 \<le> k div 8 \<and> k div 8 < e}"
      using 1(1) [OF True i] 1(2) by auto
    moreover have "{k. k div 8 = ii} \<union> {k. ii + 1 \<le> k div 8 \<and> k div 8 < e} = {k. ii \<le> k div 8 \<and> k div 8 < e}"
      using True by auto
    ultimately show ?thesis
      using True i b by (subst mark_full.simps) (simp add: Un_assoc)
  qed (subst mark_full.simps, simp, auto)
qed

lemma byte_range:
  fixes a l b r m q :: nat
  assumes "a < l" and "b < 8" and "r < 8" and "m < 8"
  shows "q = a \<and> b \<le> r \<or> a + 1 \<le> q \<and> q < l \<or> q = l \<and> r \<le> m
    \<longleftrightarrow> a * 8 + b \<le> q * 8 + r \<and> q * 8 + r \<le> l * 8 + m"
proof -
  consider "q < a" | "q = a" | "a < q" "q < l" | "q = l" | "l < q" by linarith
  then show ?thesis using assms by cases auto
qed

lemma mark_spec:
  assumes "s \<le> e" and "e \<le> 8 * length bm"
  shows "\<exists>bm'. RSMBLY_BITMASK_MARK bm s e = Some bm' \<and> length bm' = length bm
    \<and> bits bm' = bits bm \<union> {s..<e}"
proof (cases "e - s \<le> 8")
  case True
  with mark_bits_spec [OF assms(2), of s] show ?thesis
    by (simp add: RSMBLY_BITMASK_MARK_def)
next
  case False
  let ?l = "(e - 1) div 8"
  have l: "?l < length bm" and sl: "s div 8 < ?l"
    using False assms by (auto simp: div_less_iff_less_mult)
  obtain bm1 where 1: "or_at bm (s div 8) (bitmask_start_values ! (s mod 8)) = Some bm1"
    "length bm1 = length bm"
    "bits bm1 = bits bm \<union> {k. k div 8 = s div 8 \<and> bit (bitmask_start_values ! (s mod 8)) (k mod 8)}"
    using or_at_bits [of "s div 8" bm] l sl by force
  obtain bm2 where 2: "mark_full bm1 (s div 8 + 1) ?l = Some bm2" "length bm2 = length bm"
    "bits bm2 = bits bm1 \<union> {k. s div 8 + 1 \<le> k div 8 \<and> k div 8 < ?l}"
    using mark_full_spec [of ?l bm1 "s div 8 + 1"] l 1(2) by auto
  obtain bm3 where 3: "or_at bm2 ?l (bitmask_end_values ! (e mod 8)) = Some bm3"
    "length bm3 = length bm"
    "bits bm3 = bits bm2 \<union> {k. k div 8 = ?l \<and> bit (bitmask_end_values ! (e mod 8)) (k mod 8)}"
    using or_at_bits [of ?l bm2] l 2(2) by force
  have "k div 8 = s div 8 \<and> s mod 8 \<le> k mod 8 \<or> s div 8 + 1 \<le> k div 8 \<and> k div 8 < ?l
      \<or> k div 8 = ?l \<and> (e mod 8 = 0 \<or> k mod 8 < e mod 8) \<longleftrightarrow> s \<le> k \<and> k < e" for k
  proof -
    have "e = Suc (e - 1)" using False by simp
    then have "e mod 8 = 0 \<or> k mod 8 < e mod 8 \<longleftrightarrow> k mod 8 \<le> (e - 1) mod 8"
      using mod_Suc [of "e - 1" 8] by (auto split: if_splits)
    moreover have "s \<le> k \<and> k < e \<longleftrightarrow> s \<le> k \<and> k \<le> e - 1" using False by auto
    ultimately show ?thesis
      using byte_range [OF sl, of "s mod 8" "k mod 8" "(e - 1) mod 8" "k div 8"] by simp
  qed
  then have "bits bm3 = bits bm \<union> {s..<e}"
    unfolding 3(3) 2(3) 1(3)
    by (simp add: bit_start_values bit_end_values set_eq_iff)
  with False 1 2 3 show ?thesis
    by (simp add: RSMBLY_BITMASK_MARK_def and_7 shift_3)
qed

lemma byte_eq_bits: "(a :: byte) = b \<longleftrightarrow> (\<forall>i<8. bit a i \<longleftrightarrow> bit b i)"
  by (auto simp: bit_eq_iff)

lemma all_full_spec:
  "j \<le> length bm \<Longrightarrow> all_full bm j = Some ({..<8 * j} \<subseteq> bits bm)"
proof (induction j)
  case (Suc i)
  then have i: "i < length bm" by simp
  have "bm ! i = 0xff \<longleftrightarrow> (\<forall>j<8. bit (bm ! i) j)"
    unfolding byte_eq_bits byte_ff by (simp add: bit_mask_iff)
  also have "\<dots> \<longleftrightarrow> {8 * i..<8 * Suc i} \<subseteq> bits bm"
  proof
    assume a: "\<forall>j<8. bit (bm ! i) j"
    show "{8 * i..<8 * Suc i} \<subseteq> bits bm"
    proof
      fix k assume k: "k \<in> {8 * i..<8 * Suc i}"
      then have "k div 8 = i" by (intro div_nat_eqI) auto
      with a k i show "k \<in> bits bm" by (simp add: bits_def)
    qed
  next
    assume a: "{8 * i..<8 * Suc i} \<subseteq> bits bm"
    have "bit (bm ! i) j" if "j < 8" for j
    proof -
      have "8 * i + j \<in> bits bm" using a that by auto
      then show ?thesis using that by (simp add: bits_def)
    qed
    then show "\<forall>j<8. bit (bm ! i) j" by blast
  qed
  finally have e: "bm ! i = 0xff \<longleftrightarrow> {8 * i..<8 * Suc i} \<subseteq> bits bm" .
  have "{..<8 * Suc i} = {..<8 * i} \<union> {8 * i..<8 * Suc i}" by auto
  with e i Suc.IH show ?case by simp
qed simp

lemma is_complete_spec:
  assumes "0 < len" and "length bm = RSMBLY_BITMASK_SIZE len" and "bits bm \<subseteq> {..<len}"
  shows "RSMBLY_BITMASK_IS_COMPLETE bm len = Some (bits bm = {..<len})"
proof -
  let ?j = "(len - 1) div 8"
  have j: "?j < length bm"
    using assms(1,2) by (simp add: RSMBLY_BITMASK_SIZE_def div_less_iff_less_mult) 
  have in_bits: "8 * ?j + i \<in> bits bm \<longleftrightarrow> bit (bm ! ?j) i" if "i < 8" for i
    using j that by (simp add: bits_def)
  have less: "8 * ?j + i < len \<longleftrightarrow> len mod 8 = 0 \<or> i < len mod 8" if "i < 8" for i
  proof -
    have "len = 8 * ?j + (len - 1) mod 8 + 1" using assms(1) by simp
    moreover have "i \<le> (len - 1) mod 8 \<longleftrightarrow> len mod 8 = 0 \<or> i < len mod 8"
      using mod_Suc [of "len - 1" 8] assms(1) that by (auto split: if_splits)
    ultimately show ?thesis by linarith
  qed
  have "bm ! ?j = bitmask_end_values ! (len mod 8) \<longleftrightarrow> (\<forall>i<8. 8 * ?j + i < len \<longrightarrow> 8 * ?j + i \<in> bits bm)"
    unfolding byte_eq_bits using in_bits less assms(3) by (auto simp: bit_end_values)
  also have "\<dots> \<longleftrightarrow> {8 * ?j..<len} \<subseteq> bits bm"
  proof
    assume a: "\<forall>i<8. 8 * ?j + i < len \<longrightarrow> 8 * ?j + i \<in> bits bm"
    show "{8 * ?j..<len} \<subseteq> bits bm"
    proof
      fix k assume k: "k \<in> {8 * ?j..<len}"
      then have "k - 8 * ?j < 8" by auto
      with a k show "k \<in> bits bm"
        using spec [OF a, of "k - 8 * ?j"] by simp
    qed
  qed auto
  finally have last: "bm ! ?j = bitmask_end_values ! (len mod 8) \<longleftrightarrow> {8 * ?j..<len} \<subseteq> bits bm" .
  have "{..<len} = {..<8 * ?j} \<union> {8 * ?j..<len}"
    using assms(1) by auto
  then have "bits bm = {..<len} \<longleftrightarrow> {8 * ?j..<len} \<subseteq> bits bm \<and> {..<8 * ?j} \<subseteq> bits bm"
    using assms(3) by blast
  moreover have "all_full bm ?j = Some ({..<8 * ?j} \<subseteq> bits bm)"
    using all_full_spec j by simp
  ultimately show ?thesis
    using j unfolding RSMBLY_BITMASK_IS_COMPLETE_def and_7 shift_3 Let_def last by simp
qed

section \<open>Properties\<close>

definition mark_ranges :: "nat \<Rightarrow> (nat \<times> nat) list \<Rightarrow> bytes option" where
  "mark_ranges len rs =
     fold (\<lambda>(s, e) bm. Option.bind bm (\<lambda>bm. RSMBLY_BITMASK_MARK bm s e)) rs
       (Some (replicate (RSMBLY_BITMASK_SIZE len) 0))"

lemma fold_mark:
  assumes "\<forall>(s, e)\<in>set rs. s \<le> e \<and> e \<le> 8 * length bm"
  shows "\<exists>bm'. fold (\<lambda>(s, e) bm. Option.bind bm (\<lambda>bm. RSMBLY_BITMASK_MARK bm s e)) rs (Some bm) = Some bm'
    \<and> length bm' = length bm \<and> bits bm' = bits bm \<union> (\<Union>(s, e)\<in>set rs. {s..<e})"
  using assms
proof (induction rs arbitrary: bm)
  case (Cons r rs)
  obtain s e where r: "r = (s, e)" by (cases r)
  then obtain bm1 where bm1: "RSMBLY_BITMASK_MARK bm s e = Some bm1" "length bm1 = length bm"
    "bits bm1 = bits bm \<union> {s..<e}"
    using mark_spec [of s e bm] Cons.prems by auto
  obtain bm' where "fold (\<lambda>(s, e) bm. Option.bind bm (\<lambda>bm. RSMBLY_BITMASK_MARK bm s e)) rs (Some bm1) = Some bm'"
    "length bm' = length bm1" "bits bm' = bits bm1 \<union> (\<Union>(s, e)\<in>set rs. {s..<e})"
    using Cons.IH [of bm1] Cons.prems bm1(2) by auto
  with r bm1 show ?case by auto
qed simp

text \<open>
  Marking ranges in a fresh reassembly bitmask, in any order, overlapping or not, stays inside
  the bitmask and records exactly the positions of the ranges; the completeness test that follows
  says whether they cover the whole message.
\<close>

theorem bitmask_records_ranges:
  assumes "0 < len" and "\<forall>(s, e)\<in>set rs. s \<le> e \<and> e \<le> len"
  shows "\<exists>bm. mark_ranges len rs = Some bm \<and> bits bm = (\<Union>(s, e)\<in>set rs. {s..<e})
    \<and> RSMBLY_BITMASK_IS_COMPLETE bm len = Some ({..<len} \<subseteq> (\<Union>(s, e)\<in>set rs. {s..<e}))"
proof -
  let ?bm = "replicate (RSMBLY_BITMASK_SIZE len) (0 :: byte)"
  have "len \<le> 8 * RSMBLY_BITMASK_SIZE len"
    by (simp add: RSMBLY_BITMASK_SIZE_def)
  then have "\<forall>(s, e)\<in>set rs. s \<le> e \<and> e \<le> 8 * length ?bm"
    using assms(2) by fastforce
  then obtain bm where bm: "mark_ranges len rs = Some bm" "length bm = RSMBLY_BITMASK_SIZE len"
    "bits bm = (\<Union>(s, e)\<in>set rs. {s..<e})"
    using fold_mark [of rs ?bm] by (auto simp: mark_ranges_def)
  have "bits bm \<subseteq> {..<len}"
    using assms(2) bm(3) by fastforce
  then have "bits bm = {..<len} \<longleftrightarrow> {..<len} \<subseteq> bits bm" by blast
  with is_complete_spec [OF assms(1) bm(2)] \<open>bits bm \<subseteq> {..<len}\<close> bm show ?thesis by auto
qed

theorem bitmask_records_ranges_witness:
  "\<exists>bm. mark_ranges 20 [(9, 20), (0, 10)] = Some bm \<and> RSMBLY_BITMASK_IS_COMPLETE bm 20 = Some True"
proof -
  have "{..<20 :: nat} \<subseteq> {9..<20} \<union> {0..<10}" by auto
  then show ?thesis
    using bitmask_records_ranges [of 20 "[(9, 20), (0, 10)]"] by auto
qed

text \<open>
  The fragment header survives the wire: a header whose lengths fit their three bytes is read
  back as written, whatever follows it, and no two such headers share an encoding.
\<close>

theorem message_header_roundtrip:
  assumes "hm_valid h" and "hm_valid h'"
  shows "length (dtls1_write_message_header h) = DTLS1_HM_HEADER_LENGTH
    \<and> dtls1_get_message_header (take 12 (dtls1_write_message_header h @ rest)) = h
    \<and> (dtls1_write_message_header h @ rest = dtls1_write_message_header h' @ rest' \<longrightarrow> h = h')"
  using hm.enc_inj [OF assms, of rest rest'] get_write_header [OF assms(1)] by simp

theorem message_header_roundtrip_witness:
  "dtls1_get_message_header (take 12 (dtls1_write_message_header
     (hm_header_zero\<lparr>hm_type := 11, msg_len := 70000, seq := 258, frag_off := 1000, frag_len := 500\<rparr>) @ [7]))
   = hm_header_zero\<lparr>hm_type := 11, msg_len := 70000, seq := 258, frag_off := 1000, frag_len := 500\<rparr>"
  using message_header_roundtrip [of
      "hm_header_zero\<lparr>hm_type := 11, msg_len := 70000, seq := 258, frag_off := 1000, frag_len := 500\<rparr>"
      hm_header_zero "[7]"]
  by (simp add: hm_valid_def hm_header_zero_def)

end
