(* ===== verification/Dtls_Reassembly.thy ===== *)
theory Dtls_Reassembly
  imports Dtls_Fragment Buffer Handshake_State
begin

text \<open>
  The receiving half of \<open>ssl/statem/statem_dtls.c\<close>: handshake messages arrive in fragments, in
  any order, and are put together in the queue \<open>buffered_messages\<close>. The record layer below and
  the handshake digest are parameters: \<open>read_bytes e n io\<close> is \<open>s->method->tls_read_bytes\<close> asked
  for at most \<open>n\<close> bytes, with its result, the record type, the bytes it stored and its own new
  state. An access outside a block, or a loop that never ends, is the result None.
\<close>

section \<open>The connection\<close>

text \<open>
  The DTLS part of the connection: \<open>s->d1\<close>, \<open>s->s3.tmp\<close> and the message buffer. Message
  callbacks are observers only and are left out; \<open>init_msg\<close> is an offset into the buffer.
\<close>

record 'io dtls_st =
  core :: tls
  init_buf :: BUF_MEM
  init_msg :: nat
  init_off :: nat
  message_type :: int
  message_size :: nat
  handshake_write_seq :: u16
  next_handshake_write_seq :: u16
  handshake_read_seq :: u16
  buffered_messages :: "hm_fragment pqueue"
  sent_messages :: "hm_fragment pqueue"
  mtu :: nat
  link_mtu :: nat
  w_msg_hdr :: hm_header
  r_msg_hdr :: hm_header
  retransmitting :: bool
  max_send_fragment :: nat
  write_crypto :: dtls1_retransmit_state
  io :: 'io

record 'io dtls_env =
  malloc :: allocator
  sec_malloc :: allocator
  read_bytes :: "nat \<Rightarrow> 'io \<Rightarrow> int \<times> int \<times> bytes \<times> 'io"
  rrec_length :: "'io \<Rightarrow> nat"
  finish_mac :: "bytes \<Rightarrow> tls \<Rightarrow> bool \<times> tls"
  take_mac :: "tls \<Rightarrow> bool \<times> tls"

abbreviation (input) DTLS1_HM_BAD_FRAGMENT :: int where "DTLS1_HM_BAD_FRAGMENT \<equiv> - 2"
abbreviation (input) DTLS1_HM_FRAGMENT_RETRY :: int where "DTLS1_HM_FRAGMENT_RETRY \<equiv> - 3"
abbreviation (input) tls3_RT_CHANGE_CIPHER_SPEC :: int where "tls3_RT_CHANGE_CIPHER_SPEC \<equiv> 20"
abbreviation (input) tls3_RT_HANDSHAKE :: int where "tls3_RT_HANDSHAKE \<equiv> 22"
abbreviation (input) tls3_MT_CCS :: byte where "tls3_MT_CCS \<equiv> 1"
abbreviation (input) ERR_R_BUF_LIB :: int where "ERR_R_BUF_LIB \<equiv> 7"
abbreviation (input) tls_R_BAD_CHANGE_CIPHER_SPEC :: int where "tls_R_BAD_CHANGE_CIPHER_SPEC \<equiv> 103"
abbreviation (input) tls_R_EXCESSIVE_MESSAGE_SIZE :: int where "tls_R_EXCESSIVE_MESSAGE_SIZE \<equiv> 152"
abbreviation (input) tls_R_BAD_LENGTH :: int where "tls_R_BAD_LENGTH \<equiv> 271"

definition tls3_RT_MAX_ENCRYPTED_LENGTH :: nat where
  "tls3_RT_MAX_ENCRYPTED_LENGTH = (256 + 64) + (16384 + 1024)"

definition on_core :: "(tls \<Rightarrow> tls) \<Rightarrow> 'io dtls_st \<Rightarrow> 'io dtls_st" where
  "on_core f s = s\<lparr>core := f (core s)\<rparr>"

definition tlsfatal :: "int \<Rightarrow> int \<Rightarrow> 'io dtls_st \<Rightarrow> 'io dtls_st" where
  "tlsfatal al reason = on_core (otls_statem_fatal al reason)"

text \<open>A store at an offset of the message buffer.\<close>

definition buf_store :: "nat \<Rightarrow> bytes \<Rightarrow> 'io dtls_st \<Rightarrow> 'io dtls_st option" where
  "buf_store i bs s = do {
     d \<leftarrow> b_data (init_buf s);
     d \<leftarrow> mem_write d i bs;
     Some (s\<lparr>init_buf := (init_buf s)\<lparr>b_data := Some d\<rparr>\<rparr>)
   }"

text \<open>The queue key of a message number.\<close>

definition seq64be :: "u16 \<Rightarrow> bytes" where
  "seq64be n = replicate 6 0 @ [ucast (drop_bit 8 n), ucast n]"

section \<open>Operations\<close>

definition dtls1_max_handshake_message_len :: "'io dtls_st \<Rightarrow> nat" where
  "dtls1_max_handshake_message_len s =
     (let max_len = DTLS1_HM_HEADER_LENGTH + tls3_RT_MAX_ENCRYPTED_LENGTH in
      if max_len < max_cert_list (core s) then max_cert_list (core s) else max_len)"

definition dtls1_preprocess_fragment ::
  "'io dtls_env \<Rightarrow> hm_header \<Rightarrow> 'io dtls_st \<Rightarrow> (bool \<times> 'io dtls_st) option" where
  "dtls1_preprocess_fragment e h s =
     (if uadd (frag_off h) (frag_len h) > msg_len h \<or> msg_len h > dtls1_max_handshake_message_len s
      then Some (False, tlsfatal tls_AD_ILLEGAL_PARAMETER tls_R_EXCESSIVE_MESSAGE_SIZE s)
      else if frag_off (r_msg_hdr s) = 0 then do {
        (r, buf) \<leftarrow> BUF_MEM_grow_clean (malloc e) (sec_malloc e) (init_buf s)
          (uadd (msg_len h) DTLS1_HM_HEADER_LENGTH);
        (if r = 0 then Some (False, tlsfatal tls_AD_INTERNAL_ERROR ERR_R_BUF_LIB s)
         else Some (True, s\<lparr>init_buf := buf, message_size := msg_len h,
           message_type := uint (hm_type h),
           r_msg_hdr := (r_msg_hdr s)\<lparr>msg_len := msg_len h, hm_type := hm_type h, seq := seq h\<rparr>\<rparr>))
      }
      else if msg_len h \<noteq> msg_len (r_msg_hdr s)
      then Some (False, tlsfatal tls_AD_ILLEGAL_PARAMETER tls_R_EXCESSIVE_MESSAGE_SIZE s)
      else Some (True, s))"

text \<open>The loop at the start of \<open>dtls1_retrieve_buffered_fragment\<close> drops stale messages.\<close>

function drop_stale :: "u16 \<Rightarrow> hm_fragment pqueue \<Rightarrow> hm_fragment pqueue" where
  "drop_stale n q =
     (case pqueue_peek q of
        None \<Rightarrow> q
      | Some item \<Rightarrow>
          (if seq (msg_header (data item)) < n then drop_stale n (snd (pqueue_pop q)) else q))"
  by pat_completeness auto
termination
  by (relation "measure (\<lambda>(_, q). length (items q))")
    (auto simp: pqueue_peek_def pqueue_pop_def split: list.splits)

declare drop_stale.simps [simp del]

definition dtls1_retrieve_buffered_fragment ::
  "'io dtls_env \<Rightarrow> 'io dtls_st \<Rightarrow> (int \<times> nat \<times> 'io dtls_st) option" where
  "dtls1_retrieve_buffered_fragment e s =
     (let s = s\<lparr>buffered_messages := drop_stale (handshake_read_seq s) (buffered_messages s)\<rparr> in
      case pqueue_peek (buffered_messages s) of
        None \<Rightarrow> Some (0, 0, s)
      | Some item \<Rightarrow>
          (let frag = data item; h = msg_header frag in
           if reassembly frag \<noteq> None then Some (0, 0, s)
           else if handshake_read_seq s = seq h then
             (let s = s\<lparr>buffered_messages := snd (pqueue_pop (buffered_messages s))\<rparr> in do {
                (ret, s) \<leftarrow> dtls1_preprocess_fragment e h s;
                s \<leftarrow> (if ret \<and> frag_len h > 0 then do {
                       bs \<leftarrow> mem_read (fragment frag) 0 (frag_len h);
                       buf_store (DTLS1_HM_HEADER_LENGTH + frag_off h) bs s
                     } else Some s);
                (if ret then Some (1, frag_len h, s)
                 else Some (- 1, 0, on_core (init_num_update (\<lambda>_. 0)) s))
              })
           else Some (0, 0, s)))"

text \<open>
  The loop that reads the rest of a fragment into a block of 256 bytes and forgets it: the last
  result of the reader, positive at the normal exit.
\<close>

partial_function (option) discard :: "'io dtls_env \<Rightarrow> nat \<Rightarrow> 'io \<Rightarrow> (int \<times> 'io) option" where
  "discard e flen st =
     (if flen = 0 then Some (1, st)
      else let n = (if flen > 256 then 256 else flen) in
        case read_bytes e n st of (i, _, bs, st') \<Rightarrow>
          (if length bs > 256 then None
           else if i \<le> 0 then Some (i, st')
           else discard e (usub flen (length bs)) st'))"

definition dtls1_reassemble_fragment ::
  "'io dtls_env \<Rightarrow> hm_header \<Rightarrow> 'io dtls_st \<Rightarrow> (int \<times> 'io dtls_st) option" where
  "dtls1_reassemble_fragment e h s =
     (if uadd (frag_off h) (frag_len h) > msg_len h \<or> msg_len h > dtls1_max_handshake_message_len s
      then Some (- 1, s)
      else if frag_len h = 0 then Some (DTLS1_HM_FRAGMENT_RETRY, s)
      else let key = seq64be (seq h); item = pqueue_find (buffered_messages s) key in
        case (case item of
            None \<Rightarrow> map_option
              (\<lambda>frag. frag\<lparr>msg_header := h\<lparr>frag_len := msg_len h, frag_off := 0\<rparr>\<rparr>)
              (dtls1_hm_fragment_new (malloc e) (msg_len h) True)
          | Some it \<Rightarrow>
              (if msg_len (msg_header (data it)) \<noteq> msg_len h then None else Some (data it))) of
          None \<Rightarrow> Some (- 1, s)
        | Some frag \<Rightarrow>
            (case reassembly frag of
               None \<Rightarrow> do {
                 (i, st) \<leftarrow> discard e (frag_len h) (io s);
                 Some (if i \<le> 0 then - 1 else DTLS1_HM_FRAGMENT_RETRY, s\<lparr>io := st\<rparr>)
               }
             | Some bm \<Rightarrow>
                 (case read_bytes e (frag_len h) (io s) of (i, _, bs, st) \<Rightarrow>
                    let s = s\<lparr>io := st\<rparr>;
                        put = (\<lambda>frag s. if item = None then s else s\<lparr>buffered_messages :=
                          pqueue_set_data (buffered_messages s) key frag\<rparr>) in do {
                    buf \<leftarrow> mem_write (fragment frag) (frag_off h) bs;
                    let frag = frag\<lparr>fragment := buf\<rparr>;
                    if i \<le> 0 \<or> length bs \<noteq> frag_len h then Some (- 1, put frag s)
                    else do {
                      bm \<leftarrow> RSMBLY_BITMASK_MARK bm (frag_off h) (uadd (frag_off h) (frag_len h));
                      let frag = frag\<lparr>reassembly := Some bm\<rparr>;
                      if msg_len h = 0 then Some (- 1, put frag s)
                      else do {
                        is_complete \<leftarrow> RSMBLY_BITMASK_IS_COMPLETE bm (msg_len h);
                        let frag = (if is_complete then frag\<lparr>reassembly := None\<rparr> else frag);
                        if item \<noteq> None then Some (DTLS1_HM_FRAGMENT_RETRY, put frag s)
                        else case pitem_new (malloc e sizeof_pitem \<noteq> None) key frag of
                          None \<Rightarrow> Some (- 1, s)
                        | Some it \<Rightarrow>
                            (case pqueue_insert (buffered_messages s) it of
                               (None, _) \<Rightarrow> Some (- 1, s)
                             | (Some _, q) \<Rightarrow>
                                 Some (DTLS1_HM_FRAGMENT_RETRY, s\<lparr>buffered_messages := q\<rparr>))
                      }
                    }
                  })))"

definition dtls1_process_out_of_seq_message ::
  "'io dtls_env \<Rightarrow> hm_header \<Rightarrow> 'io dtls_st \<Rightarrow> (int \<times> 'io dtls_st) option" where
  "dtls1_process_out_of_seq_message e h s =
     (if uadd (frag_off h) (frag_len h) > msg_len h then Some (0, s)
      else let key = seq64be (seq h);
               item = pqueue_find (buffered_messages s) key;
               item = (if item \<noteq> None \<and> frag_len h \<noteq> msg_len h then None else item) in
        if unat (seq h) \<le> unat (handshake_read_seq s)
          \<or> unat (seq h) > unat (handshake_read_seq s) + 10 \<or> item \<noteq> None
          \<or> handshake_read_seq s = 0 \<and> uint (hm_type h) = tls3_MT_FINISHED
        then do {
          (i, st) \<leftarrow> discard e (frag_len h) (io s);
          Some (if i \<le> 0 then 0 else DTLS1_HM_FRAGMENT_RETRY, s\<lparr>io := st\<rparr>)
        }
        else if frag_len h \<noteq> msg_len h then dtls1_reassemble_fragment e h s
        else if frag_len h > dtls1_max_handshake_message_len s then Some (0, s)
        else case dtls1_hm_fragment_new (malloc e) (frag_len h) False of
          None \<Rightarrow> Some (0, s)
        | Some frag \<Rightarrow>
            (let frag = frag\<lparr>msg_header := h\<rparr> in
             case (if frag_len h \<noteq> 0 then read_bytes e (frag_len h) (io s) else (1, 0, [], io s)) of
               (i, _, bs, st) \<Rightarrow> let s = s\<lparr>io := st\<rparr> in do {
                 buf \<leftarrow> mem_write (fragment frag) 0 bs;
                 let frag = frag\<lparr>fragment := buf\<rparr>;
                 if i \<le> 0 \<or> length bs \<noteq> frag_len h then Some (0, s)
                 else case pitem_new (malloc e sizeof_pitem \<noteq> None) key frag of
                   None \<Rightarrow> Some (0, s)
                 | Some it \<Rightarrow>
                     (case pqueue_insert (buffered_messages s) it of
                        (None, _) \<Rightarrow> Some (0, s)
                      | (Some _, q) \<Rightarrow>
                          Some (DTLS1_HM_FRAGMENT_RETRY, s\<lparr>buffered_messages := q\<rparr>))
               }))"

text \<open>
  \<open>dtls_get_reassembled_message\<close>: the return value, \<open>*errtype\<close>, \<open>*len\<close> (None when it is
  not set) and the connection. The jump to \<open>redo\<close> is the recursive call.
\<close>

partial_function (option) dtls_get_reassembled_message ::
  "'io dtls_env \<Rightarrow> 'io dtls_st \<Rightarrow> (bool \<times> int \<times> nat option \<times> 'io dtls_st) option" where
  "dtls_get_reassembled_message e s =
     Option.bind (dtls1_retrieve_buffered_fragment e s) (\<lambda>(ret, flen, s).
     if ret < 0 then Some (False, 0, None, s)
     else if ret > 0 then Some (True, 0, Some flen, on_core (init_num_update (\<lambda>_. flen)) s)
     else case read_bytes e DTLS1_HM_HEADER_LENGTH (io s) of (i, recvd_type, wire, st) \<Rightarrow>
       let s = s\<lparr>io := st\<rparr>;
           f_err = (\<lambda>s. Some (False, 0, Some 0, on_core (init_num_update (\<lambda>_. 0)) s)) in
       if length wire > DTLS1_HM_HEADER_LENGTH then None
       else if i \<le> 0 then
         Some (False, 0, Some 0, on_core (rwstate_update (\<lambda>_. tls_READING)) s)
       else if recvd_type = tls3_RT_CHANGE_CIPHER_SPEC then
         (if wire = [] then None
          else if wire ! 0 \<noteq> tls3_MT_CCS then
            f_err (tlsfatal tls3_AD_UNEXPECTED_MESSAGE tls_R_BAD_CHANGE_CIPHER_SPEC s)
          else Option.bind (buf_store 0 wire s) (\<lambda>s.
            let n = length wire - 1 in
            Some (True, 0, Some n, on_core (init_num_update (\<lambda>_. n))
              (s\<lparr>init_msg := 1, message_type := tls3_MT_CHANGE_CIPHER_SPEC, message_size := n\<rparr>))))
       else if length wire \<noteq> DTLS1_HM_HEADER_LENGTH then
         f_err (tlsfatal tls3_AD_UNEXPECTED_MESSAGE tls_R_UNEXPECTED_MESSAGE s)
       else let h = dtls1_get_message_header wire in
         if frag_len h > rrec_length e (io s) then
           f_err (tlsfatal tls_AD_ILLEGAL_PARAMETER tls_R_BAD_LENGTH s)
         else if seq h \<noteq> handshake_read_seq s then
           map_option (\<lambda>(errtype, s). (False, errtype, None, s)) (dtls1_process_out_of_seq_message e h s)
         else if frag_len h \<noteq> 0 \<and> frag_len h < msg_len h then
           map_option (\<lambda>(errtype, s). (False, errtype, None, s)) (dtls1_reassemble_fragment e h s)
         else if \<not> server (core s) \<and> frag_off (r_msg_hdr s) = 0 \<and> hs (core s) \<noteq> TLS_ST_OK
           \<and> uint (wire ! 0) = tls3_MT_HELLO_REQUEST then
           (if wire ! 1 = 0 \<and> wire ! 2 = 0 \<and> wire ! 3 = 0 then
              dtls_get_reassembled_message e (on_core (init_num_update (\<lambda>_. 0)) s)
            else f_err (tlsfatal tls3_AD_UNEXPECTED_MESSAGE tls_R_UNEXPECTED_MESSAGE s))
         else Option.bind (dtls1_preprocess_fragment e h s) (\<lambda>(ok, s).
           if \<not> ok then f_err s
           else case (if frag_len h > 0 then read_bytes e (frag_len h) (io s) else (1, 0, [], io s)) of
             (i, _, bs, st) \<Rightarrow>
               Option.bind (if frag_len h > 0
                   then buf_store (DTLS1_HM_HEADER_LENGTH + frag_off h) bs (s\<lparr>io := st\<rparr>)
                   else Some s) (\<lambda>s.
               if i \<le> 0 then Some (False, 0, Some 0, on_core (rwstate_update (\<lambda>_. tls_READING)) s)
               else if length bs \<noteq> frag_len h then
                 f_err (tlsfatal tls_AD_ILLEGAL_PARAMETER tls_R_BAD_LENGTH s)
               else Some (True, 0, Some (frag_len h), on_core (init_num_update (\<lambda>_. frag_len h)) s))))"

text \<open>
  \<open>dtls_get_message\<close>: the return value, \<open>*mt\<close>, \<open>*len\<close> and the connection. The loop at
  \<open>again\<close> skips fragments that do not complete a message.
\<close>

partial_function (option) get_until_message ::
  "'io dtls_env \<Rightarrow> 'io dtls_st \<Rightarrow> (bool \<times> 'io dtls_st) option" where
  "get_until_message e s =
     Option.bind (dtls_get_reassembled_message e s) (\<lambda>(ok, errtype, _, s).
     if \<not> ok then
       (if errtype = DTLS1_HM_BAD_FRAGMENT \<or> errtype = DTLS1_HM_FRAGMENT_RETRY
        then get_until_message e s else Some (False, s))
     else Some (True, s))"

definition dtls_get_message ::
  "'io dtls_env \<Rightarrow> 'io dtls_st \<Rightarrow> (bool \<times> int \<times> nat \<times> 'io dtls_st) option" where
  "dtls_get_message e s =
     Option.bind (get_until_message e (s\<lparr>r_msg_hdr := hm_header_zero\<rparr>)) (\<lambda>(ok, s).
     if \<not> ok then Some (False, 0, 0, s)
     else let mt = message_type s; len = init_num (core s); h = r_msg_hdr s in
       if mt = tls3_MT_CHANGE_CIPHER_SPEC then Some (True, mt, len, s)
       else Option.bind (buf_store 0
           (hm_type h # l2n3 (msg_len h) @ s2n (seq h) @ l2n3 0 @ l2n3 (msg_len h)) s) (\<lambda>s.
         let (p, mlen) = (if version (core s) \<noteq> DTLS1_BAD_VER
           then (0, uadd (msg_len h) DTLS1_HM_HEADER_LENGTH) else (12, msg_len h));
             (taken, c) = (if mt = tls3_MT_FINISHED then take_mac e (core s) else (True, core s));
             s = s\<lparr>core := c\<rparr> in
         if \<not> taken then Some (False, mt, len, s)
         else Option.bind (b_data (init_buf s)) (\<lambda>d. Option.bind (mem_read d p mlen) (\<lambda>msg.
           let (ok, c) = finish_mac e msg (core s); s = s\<lparr>core := c\<rparr> in
           if \<not> ok then Some (False, mt, len, s)
           else Some (True, mt, len, s\<lparr>r_msg_hdr := hm_header_zero,
             handshake_read_seq := handshake_read_seq s + 1, init_msg := DTLS1_HM_HEADER_LENGTH\<rparr>)))))"

declare discard.simps [code] dtls_get_reassembled_message.simps [code] get_until_message.simps [code]

section \<open>Invariants\<close>

text \<open>
  A buffered fragment is well formed when its block has the announced length, which the message
  length bounds, and its bitmask, while there is one, has a bit for every byte of the message and
  no bit set beyond. Its key is its message number.
\<close>

definition frag_wf :: "hm_fragment \<Rightarrow> bool" where
  "frag_wf f \<longleftrightarrow> (let h = msg_header f in
     msg_len h < 2 ^ 24 \<and> frag_off h = 0 \<and> frag_len h = msg_len h
     \<and> length (fragment f) = msg_len h
     \<and> (case reassembly f of
          None \<Rightarrow> True
        | Some bm \<Rightarrow> 0 < msg_len h \<and> length bm = RSMBLY_BITMASK_SIZE (msg_len h)
            \<and> bits bm \<subset> {..<msg_len h}))"

definition queue_wf :: "hm_fragment pqueue \<Rightarrow> bool" where
  "queue_wf q \<longleftrightarrow> pqueue_ok q
     \<and> (\<forall>k f. pqueue_lookup q k = Some f \<longrightarrow> frag_wf f \<and> k = seq64be (seq (msg_header f)))"

definition dtls_wf :: "'io dtls_st \<Rightarrow> bool" where
  "dtls_wf s \<longleftrightarrow> queue_wf (buffered_messages s) \<and> buf_ok (init_buf s)
     \<and> DTLS1_HM_HEADER_LENGTH \<le> b_max (init_buf s) \<and> frag_off (r_msg_hdr s) = 0"

text \<open>
  What the reader promises whatever the peer sends: it never stores more than it was asked for,
  and a positive result comes with data.
\<close>

definition reader_safe :: "'io dtls_env \<Rightarrow> bool" where
  "reader_safe e \<longleftrightarrow> (\<forall>n st. 0 < n \<longrightarrow> (case read_bytes e n st of (i, ty, bs, st') \<Rightarrow>
     length bs \<le> n \<and> (0 < i \<longrightarrow> bs \<noteq> [])))"

definition env_safe :: "'io dtls_env \<Rightarrow> bool" where
  "env_safe e \<longleftrightarrow> reader_safe e \<and> allocator_ok (malloc e) \<and> allocator_ok (sec_malloc e)"

lemma length_seq64be [simp]: "length (seq64be n) = 8"
  by (simp add: seq64be_def)

lemma seq64be_inject [simp]: "seq64be m = seq64be n \<longleftrightarrow> m = n"
proof
  assume "seq64be m = seq64be n"
  then have "s2n m = s2n n" by (simp add: seq64be_def s2n_def)
  then show "m = n" by (metis n2s_s2n)
qed simp

lemma readE:
  assumes "env_safe e" and "0 < n"
  obtains i ty bs st' where "read_bytes e n st = (i, ty, bs, st')" "length bs \<le> n" "0 < i \<Longrightarrow> bs \<noteq> []"
proof -
  obtain i ty bs st' where r: "read_bytes e n st = (i, ty, bs, st')"
    by (metis prod_cases4)
  have "case read_bytes e n st of (i, ty, bs, st') \<Rightarrow> length bs \<le> n \<and> (0 < i \<longrightarrow> bs \<noteq> [])"
    by (rule assms(1) [unfolded env_safe_def reader_safe_def, THEN conjunct1, rule_format, OF assms(2)])
  then have "length bs \<le> n" "0 < i \<Longrightarrow> bs \<noteq> []" by (simp_all add: r)
  with r show thesis by (rule that)
qed

text \<open>The states of the reader that further reads can lead to.\<close>

definition reads_to :: "'io dtls_env \<Rightarrow> 'io \<Rightarrow> 'io \<Rightarrow> bool" where
  "reads_to e = (\<lambda>st st'. \<exists>n i ty bs. read_bytes e n st = (i, ty, bs, st'))\<^sup>*\<^sup>*"

lemma reads_to_refl [simp]: "reads_to e st st"
  by (simp add: reads_to_def)

lemma reads_to_read: "read_bytes e n st = (i, ty, bs, st') \<Longrightarrow> reads_to e st st'"
  unfolding reads_to_def by blast

lemma reads_to_trans: "reads_to e a b \<Longrightarrow> reads_to e b c \<Longrightarrow> reads_to e a c"
  unfolding reads_to_def by (rule rtranclp_trans)

text \<open>The loop that skips the rest of a fragment ends, whatever the peer sends.\<close>

lemma discard_total:
  assumes "env_safe e"
  shows "n \<le> SIZE_MAX \<Longrightarrow> \<exists>i st'. discard e n st = Some (i, st') \<and> reads_to e st st'"
proof (induction n arbitrary: st rule: less_induct)
  case (less n)
  show ?case
  proof (cases "n = 0")
    case True
    then show ?thesis by (subst discard.simps) simp
  next
    case False
    let ?m = "if n > 256 then 256 else n"
    obtain i ty bs st' where r: "read_bytes e ?m st = (i, ty, bs, st')" "length bs \<le> ?m"
      "0 < i \<Longrightarrow> bs \<noteq> []"
      by (rule readE [OF assms, of ?m st]) (use False in simp_all)
    show ?thesis
    proof (cases "i \<le> 0")
      case True
      with False r reads_to_read [OF r(1)] show ?thesis
        by (subst discard.simps) (simp split: if_splits)
    next
      case pos: False
      then have bs: "0 < length bs" "length bs \<le> n" "length bs \<le> 256"
        using r(2,3) by (auto split: if_splits)
      then have lt: "n - length bs < n" by linarith
      have u: "usub n (length bs) = n - length bs" and le: "n - length bs \<le> SIZE_MAX"
        using bs(2) less.prems by (simp_all add: usub_eq)
      obtain i' st'' where d: "discard e (n - length bs) st' = Some (i', st'')" "reads_to e st' st''"
        using less.IH [OF lt le, of st'] by (elim exE conjE) (rule that)
      have "reads_to e st st''"
        by (rule reads_to_trans [OF reads_to_read [OF r(1)] d(2)])
      with d(1) show ?thesis
        using False r(1) pos bs(3) u by (subst discard.simps) (simp split: if_splits)
    qed
  qed
qed

subsection \<open>The queue of buffered messages\<close>

lemma find_lookup:
  "queue_wf q \<Longrightarrow> pqueue_find q (seq64be n) =
     map_option (\<lambda>d. \<lparr>priority = seq64be n, data = d\<rparr>) (pqueue_lookup q (seq64be n))"
  by (simp add: queue_wf_def pqueue_find_spec)

lemma insert_new:
  assumes "pqueue_ok q" and "length k = 8" and "pqueue_lookup q k = None"
  shows "\<exists>q'. pqueue_insert q \<lparr>priority = k, data = f\<rparr> = (Some \<lparr>priority = k, data = f\<rparr>, q')
    \<and> pqueue_ok q' \<and> pqueue_lookup q' = (pqueue_lookup q)(k \<mapsto> f)"
proof -
  have "queue_find q k = None"
    using assms by (simp add: pq.find_lookup)
  then obtain q' where "queue_insert q k f = Some q'" "pqueue_ok q'"
    "pqueue_lookup q' = (pqueue_lookup q)(k \<mapsto> f)"
    using pq.find_None_ins [OF assms(1,2)] by blast
  with assms(2) show ?thesis by (simp add: pqueue_insert_queue)
qed

lemma set_found:
  assumes "pqueue_ok q" and "pqueue_lookup q k = Some f"
  shows "pqueue_ok (pqueue_set_data q k g) \<and> pqueue_lookup (pqueue_set_data q k g) = (pqueue_lookup q)(k \<mapsto> g)"
  using pq.upd_lookup [OF assms(1), of k g] assms(2) by (simp add: domI)

lemma queue_wf_upd:
  assumes "queue_wf q" and "frag_wf f" and "k = seq64be (seq (msg_header f))"
    and "pqueue_ok q'" and "pqueue_lookup q' = (pqueue_lookup q)(k \<mapsto> f)"
  shows "queue_wf q'"
  using assms unfolding queue_wf_def by (simp del: fun_upd_apply) (simp add: fun_upd_apply)

subsection \<open>Putting bytes into a fragment\<close>

definition hm_small :: "hm_header \<Rightarrow> bool" where
  "hm_small h \<longleftrightarrow> msg_len h < 2 ^ 24 \<and> frag_off h < 2 ^ 24 \<and> frag_len h < 2 ^ 24"

lemma uadd_small [simp]: "hm_small h \<Longrightarrow> uadd (frag_off h) (frag_len h) = frag_off h + frag_len h"
  by (simp add: hm_small_def uadd_def)

lemma frag_wfD:
  assumes "frag_wf f" and "reassembly f = Some bm"
  shows "length (fragment f) = msg_len (msg_header f)"
    and "length bm = RSMBLY_BITMASK_SIZE (msg_len (msg_header f))"
    and "bits bm \<subset> {..<msg_len (msg_header f)}" and "0 < msg_len (msg_header f)"
  using assms by (auto simp: frag_wf_def Let_def)

lemma frag_wf_put:
  assumes "frag_wf f" and "length buf = length (fragment f)"
    and "case re of None \<Rightarrow> True
      | Some bm \<Rightarrow> 0 < msg_len (msg_header f) \<and> length bm = RSMBLY_BITMASK_SIZE (msg_len (msg_header f))
          \<and> bits bm \<subset> {..<msg_len (msg_header f)}"
  shows "frag_wf (f\<lparr>fragment := buf, reassembly := re\<rparr>)"
  using assms by (auto simp: frag_wf_def Let_def split: option.splits)

lemma absorb:
  assumes "frag_wf f" and "reassembly f = Some bm" and "msg_len (msg_header f) = n"
    and "off + len \<le> n" and "length bs \<le> len"
  obtains buf bm' where "mem_write (fragment f) off bs = Some buf"
    and "length buf = length (fragment f)"
    and "frag_wf (f\<lparr>fragment := buf\<rparr>)"
    and "RSMBLY_BITMASK_MARK bm off (off + len) = Some bm'"
    and "bits bm' = bits bm \<union> {off..<off + len}"
    and "RSMBLY_BITMASK_IS_COMPLETE bm' n = Some (bits bm' = {..<n})"
    and "frag_wf (f\<lparr>fragment := buf, reassembly := if bits bm' = {..<n} then None else Some bm'\<rparr>)"
proof -
  note f = frag_wfD [OF assms(1,2), unfolded assms(3)]
  obtain buf where buf: "mem_write (fragment f) off bs = Some buf"
    using mem_write_total [of off bs "fragment f"] assms(4,5) f(1) by auto
  have "n \<le> 8 * length bm" using f(2) by (simp add: RSMBLY_BITMASK_SIZE_def)
  then obtain bm' where bm': "RSMBLY_BITMASK_MARK bm off (off + len) = Some bm'"
    "length bm' = length bm" "bits bm' = bits bm \<union> {off..<off + len}"
    using mark_spec [of off "off + len" bm] assms(4) by auto
  have sub: "bits bm' \<subseteq> {..<n}" using f(3) bm'(3) assms(4) by auto
  have l: "length buf = length (fragment f)" using length_mem_write [OF buf] .
  have wf: "frag_wf (f\<lparr>fragment := buf\<rparr>)"
    using assms(1,2) l by (simp add: frag_wf_def Let_def)
  have "frag_wf (f\<lparr>fragment := buf, reassembly := if bits bm' = {..<n} then None else Some bm'\<rparr>)"
  proof (rule frag_wf_put [OF assms(1) l])
    show "case if bits bm' = {..<n} then None else Some bm' of None \<Rightarrow> True
      | Some bm \<Rightarrow> 0 < msg_len (msg_header f) \<and> length bm = RSMBLY_BITMASK_SIZE (msg_len (msg_header f))
          \<and> bits bm \<subset> {..<msg_len (msg_header f)}"
      using f(2,4) bm'(2) sub assms(3) by (simp add: psubset_eq)
  qed
  moreover have "RSMBLY_BITMASK_IS_COMPLETE bm' n = Some (bits bm' = {..<n})"
    using is_complete_spec [OF f(4) _ sub] f(2) bm'(2) by simp
  ultimately show thesis
    using that [OF buf l wf bm'(1,3)] by blast
qed

lemma empty_lessThan [simp]: "{} = {..<n :: nat} \<longleftrightarrow> n = 0"
  by auto

lemma fragment_new_wf:
  assumes "allocator_ok a" and "dtls1_hm_fragment_new a (msg_len h) True = Some f"
    and "hm_small h" and "0 < msg_len h"
  shows "frag_wf (f\<lparr>msg_header := h\<lparr>frag_len := msg_len h, frag_off := 0\<rparr>\<rparr>)"
    and "\<exists>bm. reassembly f = Some bm \<and> bits bm = {}"
proof -
  from assms show "frag_wf (f\<lparr>msg_header := h\<lparr>frag_len := msg_len h, frag_off := 0\<rparr>\<rparr>)"
    by (auto simp: dtls1_hm_fragment_new_def frag_wf_def Let_def hm_small_def allocator_ok_def zalloc_def
        split: option.splits if_splits)
  show "\<exists>bm. reassembly f = Some bm \<and> bits bm = {}"
    using assms(2) by (auto simp: dtls1_hm_fragment_new_def zalloc_def split: option.splits if_splits)
qed

subsection \<open>One fragment\<close>

text \<open>The fragment that \<open>dtls1_reassemble_fragment\<close> works on: the buffered one, or a new one.\<close>

definition target :: "'io dtls_env \<Rightarrow> hm_header \<Rightarrow> 'io dtls_st \<Rightarrow> hm_fragment option" where
  "target e h s =
     (case pqueue_lookup (buffered_messages s) (seq64be (seq h)) of
        None \<Rightarrow> map_option (\<lambda>f. f\<lparr>msg_header := h\<lparr>frag_len := msg_len h, frag_off := 0\<rparr>\<rparr>)
          (dtls1_hm_fragment_new (malloc e) (msg_len h) True)
      | Some f \<Rightarrow> (if msg_len (msg_header f) \<noteq> msg_len h then None else Some f))"

lemma target_wf:
  assumes "env_safe e" and "queue_wf (buffered_messages s)" and "hm_small h" and "0 < msg_len h"
    and "target e h s = Some f"
  shows "frag_wf f" and "msg_len (msg_header f) = msg_len h" and "seq (msg_header f) = seq h"
proof -
  have "frag_wf f \<and> msg_len (msg_header f) = msg_len h \<and> seq (msg_header f) = seq h"
  proof (cases "pqueue_lookup (buffered_messages s) (seq64be (seq h))")
    case None
    with assms fragment_new_wf(1) [of "malloc e" h] show ?thesis
      by (auto simp: target_def env_safe_def)
  next
    case (Some g)
    then have "frag_wf g \<and> seq64be (seq h) = seq64be (seq (msg_header g))"
      using assms(2) unfolding queue_wf_def by blast
    with Some assms(5) show ?thesis by (simp add: target_def split: if_splits)
  qed
  then show "frag_wf f" "msg_len (msg_header f) = msg_len h" "seq (msg_header f) = seq h" by simp_all
qed

lemma reassemble_no_target:
  assumes "queue_wf (buffered_messages s)" and "target e h s = None"
  shows "dtls1_reassemble_fragment e h s = Some (- 1, s)
    \<or> dtls1_reassemble_fragment e h s = Some (DTLS1_HM_FRAGMENT_RETRY, s)"
  using assms(2)
  by (cases "pqueue_lookup (buffered_messages s) (seq64be (seq h))")
    (simp_all add: dtls1_reassemble_fragment_def target_def find_lookup [OF assms(1)] Let_def split: if_splits)

lemma reassemble_done:
  assumes "queue_wf (buffered_messages s)" and "hm_small h"
    and "frag_off h + frag_len h \<le> msg_len h" and "msg_len h \<le> dtls1_max_handshake_message_len s"
    and "0 < frag_len h" and "target e h s = Some f" and "reassembly f = None"
    and "discard e (frag_len h) (io s) = Some (i, st)"
  shows "dtls1_reassemble_fragment e h s
    = Some (if i \<le> 0 then - 1 else DTLS1_HM_FRAGMENT_RETRY, s\<lparr>io := st\<rparr>)"
proof -
  have "reassembly g \<noteq> None" if "dtls1_hm_fragment_new a n True = Some g" for a n g
    using that by (auto simp: dtls1_hm_fragment_new_def split: option.splits if_splits)
  then obtain g where "pqueue_lookup (buffered_messages s) (seq64be (seq h)) = Some g"
    using assms(6,7) by (fastforce simp: target_def split: option.splits)
  moreover from this have "g = f" "msg_len (msg_header f) = msg_len h"
    using assms(6) by (simp_all add: target_def split: if_splits)
  ultimately show ?thesis
    using assms(2-5,7,8) by (simp add: dtls1_reassemble_fragment_def find_lookup [OF assms(1)] Let_def)
qed

lemma reassemble_read:
  assumes env: "env_safe e" and wf: "queue_wf (buffered_messages s)" and small: "hm_small h"
    and fits: "frag_off h + frag_len h \<le> msg_len h" "msg_len h \<le> dtls1_max_handshake_message_len s"
    and pos: "0 < frag_len h" and f: "target e h s = Some f" "reassembly f = Some bm"
    and r: "read_bytes e (frag_len h) (io s) = (i, ty, bs, st)" "length bs \<le> frag_len h"
  shows "\<exists>r q. dtls1_reassemble_fragment e h s = Some (r, s\<lparr>buffered_messages := q, io := st\<rparr>)
    \<and> queue_wf q \<and> r \<in> {- 1, DTLS1_HM_FRAGMENT_RETRY}
    \<and> (\<forall>k. k \<noteq> seq64be (seq h) \<longrightarrow> pqueue_lookup q k = pqueue_lookup (buffered_messages s) k)
    \<and> (0 < i \<and> length bs = frag_len h \<and> malloc e sizeof_pitem \<noteq> None \<longrightarrow>
         r = DTLS1_HM_FRAGMENT_RETRY \<and> (\<exists>buf bm'. mem_write (fragment f) (frag_off h) bs = Some buf
         \<and> bits bm' = bits bm \<union> {frag_off h..<frag_off h + frag_len h}
         \<and> pqueue_lookup q (seq64be (seq h)) = Some (f\<lparr>fragment := buf,
              reassembly := if bits bm' = {..<msg_len h} then None else Some bm'\<rparr>)))"
proof -
  let ?k = "seq64be (seq h)" and ?q = "buffered_messages s"
  note wf_f = target_wf [OF env wf small _ f(1)]
  have n: "0 < msg_len h" using fits(1) pos by simp
  obtain buf bm' where a: "mem_write (fragment f) (frag_off h) bs = Some buf"
    "length buf = length (fragment f)" "frag_wf (f\<lparr>fragment := buf\<rparr>)"
    "RSMBLY_BITMASK_MARK bm (frag_off h) (frag_off h + frag_len h) = Some bm'"
    "bits bm' = bits bm \<union> {frag_off h..<frag_off h + frag_len h}"
    "RSMBLY_BITMASK_IS_COMPLETE bm' (msg_len h) = Some (bits bm' = {..<msg_len h})"
    "frag_wf (f\<lparr>fragment := buf, reassembly := if bits bm' = {..<msg_len h} then None else Some bm'\<rparr>)"
    by (rule absorb [OF wf_f(1) f(2) wf_f(2) fits(1) r(2)]) (use n in simp_all)
  let ?f = "f\<lparr>fragment := buf, reassembly := if bits bm' = {..<msg_len h} then None else Some bm'\<rparr>"
  have seq: "seq (msg_header f) = seq h" using wf_f(3) n by simp
  have ok: "pqueue_ok ?q" using wf by (simp add: queue_wf_def)
  have upd: "queue_wf q" if "pqueue_ok q" "pqueue_lookup q = (pqueue_lookup ?q)(?k \<mapsto> g)" "frag_wf g"
    "msg_header g = msg_header f" for q g
    using queue_wf_upd [OF wf that(3) _ that(1,2)] that(4) seq by simp
  show ?thesis
  proof (cases "pqueue_lookup ?q ?k")
    case None
    then obtain f0 where new: "dtls1_hm_fragment_new (malloc e) (msg_len h) True = Some f0"
      "f0\<lparr>msg_header := h\<lparr>frag_len := msg_len h, frag_off := 0\<rparr>\<rparr> = f"
      using f(1) by (auto simp: target_def)
    obtain q where q: "pqueue_insert ?q \<lparr>priority = ?k, data = ?f\<rparr> = (Some \<lparr>priority = ?k, data = ?f\<rparr>, q)"
      "pqueue_ok q" "pqueue_lookup q = (pqueue_lookup ?q)(?k \<mapsto> ?f)"
      using insert_new [OF ok _ None] by (metis length_seq64be)
    have step: "dtls1_reassemble_fragment e h s = (if i \<le> 0 \<or> length bs \<noteq> frag_len h \<or> malloc e sizeof_pitem = None
      then Some (- 1, s\<lparr>io := st\<rparr>) else Some (DTLS1_HM_FRAGMENT_RETRY, s\<lparr>io := st, buffered_messages := q\<rparr>))"
      using fits pos small n None new f(2) r(1) a(1,4,6) q(1)
      by (cases "bits bm' = {..<msg_len h}")
        (simp_all add: dtls1_reassemble_fragment_def find_lookup [OF wf] pitem_new_def Let_def)
    have "queue_wf q" using upd [OF q(2,3) a(7)] by simp
    then show ?thesis
    proof (cases "i \<le> 0 \<or> length bs \<noteq> frag_len h \<or> malloc e sizeof_pitem = None")
      case True
      with step wf show ?thesis by (intro exI [of _ "- 1"] exI [of _ ?q]) auto
    next
      case False
      with step \<open>queue_wf q\<close> q(3) a(1,5) show ?thesis
        by (intro exI [of _ DTLS1_HM_FRAGMENT_RETRY] exI [of _ q]) auto
    qed
  next
    case (Some g)
    then have g: "g = f" "msg_len (msg_header f) = msg_len h"
      using f(1) by (simp_all add: target_def split: if_splits)
    let ?q1 = "pqueue_set_data ?q ?k (f\<lparr>fragment := buf\<rparr>)" and ?q2 = "pqueue_set_data ?q ?k ?f"
    have step: "dtls1_reassemble_fragment e h s = (if i \<le> 0 \<or> length bs \<noteq> frag_len h
      then Some (- 1, s\<lparr>io := st, buffered_messages := ?q1\<rparr>)
      else Some (DTLS1_HM_FRAGMENT_RETRY, s\<lparr>io := st, buffered_messages := ?q2\<rparr>))"
      using fits pos small n Some g f(2) r(1) a(1,4,6)
      by (cases "bits bm' = {..<msg_len h}")
        (simp_all add: dtls1_reassemble_fragment_def find_lookup [OF wf] Let_def)
    have "queue_wf ?q1" "queue_wf ?q2"
      using set_found [OF ok Some] upd a(3,7) by simp_all
    then show ?thesis
    proof (cases "i \<le> 0 \<or> length bs \<noteq> frag_len h")
      case True
      with step set_found [OF ok Some] \<open>queue_wf ?q1\<close> show ?thesis
        by (intro exI [of _ "- 1"] exI [of _ ?q1]) auto
    next
      case False
      with step set_found [OF ok Some, of ?f] \<open>queue_wf ?q2\<close> a(1,5) show ?thesis
        by (intro exI [of _ DTLS1_HM_FRAGMENT_RETRY] exI [of _ ?q2]) auto
    qed
  qed
qed

section \<open>Safety for every peer\<close>

text \<open>What a fragment may change: the queue, which stays well formed, and the reader's state.\<close>

definition keeps :: "'io dtls_env \<Rightarrow> 'io dtls_st \<Rightarrow> 'io dtls_st \<Rightarrow> bool" where
  "keeps e s s' \<longleftrightarrow> (\<exists>q st. s' = s\<lparr>buffered_messages := q, io := st\<rparr> \<and> queue_wf q \<and> reads_to e (io s) st)"

lemma keepsI:
  "queue_wf q \<Longrightarrow> reads_to e (io s) st \<Longrightarrow> keeps e s (s\<lparr>buffered_messages := q, io := st\<rparr>)"
  "queue_wf (buffered_messages s) \<Longrightarrow> reads_to e (io s) st \<Longrightarrow> keeps e s (s\<lparr>io := st\<rparr>)"
  "queue_wf (buffered_messages s) \<Longrightarrow> keeps e s s"
proof -
  show 1: "queue_wf q \<Longrightarrow> reads_to e (io s) st \<Longrightarrow> keeps e s (s\<lparr>buffered_messages := q, io := st\<rparr>)" for q st
    unfolding keeps_def by blast
  show "queue_wf (buffered_messages s) \<Longrightarrow> reads_to e (io s) st \<Longrightarrow> keeps e s (s\<lparr>io := st\<rparr>)"
    using 1 [of "buffered_messages s" st] by simp
  show "queue_wf (buffered_messages s) \<Longrightarrow> keeps e s s"
    using 1 [of "buffered_messages s" "io s"] by simp
qed

lemma reassemble_safe:
  assumes "env_safe e" and "queue_wf (buffered_messages s)" and "hm_small h"
  shows "\<exists>r s'. dtls1_reassemble_fragment e h s = Some (r, s') \<and> keeps e s s'"
proof (cases "frag_off h + frag_len h \<le> msg_len h \<and> msg_len h \<le> dtls1_max_handshake_message_len s
    \<and> 0 < frag_len h")
  case False
  then have "dtls1_reassemble_fragment e h s = Some (- 1, s)
    \<or> dtls1_reassemble_fragment e h s = Some (DTLS1_HM_FRAGMENT_RETRY, s)"
    using assms(3) by (auto simp: dtls1_reassemble_fragment_def)
  with keepsI(3) [OF assms(2)] show ?thesis by blast
next
  case True
  then have fits: "frag_off h + frag_len h \<le> msg_len h" "msg_len h \<le> dtls1_max_handshake_message_len s"
    "0 < frag_len h" by simp_all
  show ?thesis
  proof (cases "target e h s")
    case None
    with reassemble_no_target [OF assms(2)] keepsI(3) [OF assms(2)] show ?thesis by blast
  next
    case (Some f)
    show ?thesis
    proof (cases "reassembly f")
      case None
      have "frag_len h \<le> SIZE_MAX"
        using assms(3) by (simp add: hm_small_def SIZE_MAX_def)
      then obtain i st where d: "discard e (frag_len h) (io s) = Some (i, st)" "reads_to e (io s) st"
        using discard_total [OF assms(1)] by blast
      from reassemble_done [OF assms(2,3) fits Some None d(1)] keepsI(2) [OF assms(2) d(2)] show ?thesis
        by blast
    next
      case bm: (Some bm)
      obtain i ty bs st where r: "read_bytes e (frag_len h) (io s) = (i, ty, bs, st)"
        "length bs \<le> frag_len h"
        by (rule readE [OF assms(1) fits(3)])
      obtain x q where "dtls1_reassemble_fragment e h s = Some (x, s\<lparr>buffered_messages := q, io := st\<rparr>)"
        and "queue_wf q"
        using reassemble_read [OF assms fits Some bm r] by (elim exE conjE) (rule that)
      then show ?thesis
        by (intro exI conjI) (assumption, rule keepsI(1) [OF _ reads_to_read [OF r(1)]])
    qed
  qed
qed

lemma out_of_seq_safe:
  assumes "env_safe e" and "queue_wf (buffered_messages s)" and "hm_small h"
  shows "\<exists>r s'. dtls1_process_out_of_seq_message e h s = Some (r, s') \<and> keeps e s s'"
proof -
  let ?k = "seq64be (seq h)" and ?q = "buffered_messages s"
  have "frag_len h \<le> SIZE_MAX"
    using assms(3) by (simp add: hm_small_def SIZE_MAX_def)
  then obtain i st where d: "discard e (frag_len h) (io s) = Some (i, st)" "reads_to e (io s) st"
    using discard_total [OF assms(1)] by blast
  have i: "((if pqueue_find ?q ?k \<noteq> None \<and> frag_len h \<noteq> msg_len h then None else pqueue_find ?q ?k) \<noteq> None)
    \<longleftrightarrow> pqueue_lookup ?q ?k \<noteq> None \<and> frag_len h = msg_len h"
    by (simp add: find_lookup [OF assms(2)])
  note unf = dtls1_process_out_of_seq_message_def Let_def i uadd_small [OF assms(3)]
  let ?drop = "unat (seq h) \<le> unat (handshake_read_seq s)
    \<or> unat (seq h) > unat (handshake_read_seq s) + 10
    \<or> pqueue_lookup ?q ?k \<noteq> None \<and> frag_len h = msg_len h
    \<or> handshake_read_seq s = 0 \<and> uint (hm_type h) = tls3_MT_FINISHED"
  consider (long) "frag_off h + frag_len h > msg_len h" | (drop) "\<not> frag_off h + frag_len h > msg_len h" ?drop
    | (part) "\<not> frag_off h + frag_len h > msg_len h" "\<not> ?drop" "frag_len h \<noteq> msg_len h"
    | (whole) "\<not> frag_off h + frag_len h > msg_len h" "\<not> ?drop" "frag_len h = msg_len h"
    by blast
  then show ?thesis
  proof cases
    case long
    then show ?thesis
      using assms keepsI(3) by (auto simp: dtls1_process_out_of_seq_message_def)
  next
    case drop
    then have "dtls1_process_out_of_seq_message e h s
      = Some (if i \<le> 0 then 0 else DTLS1_HM_FRAGMENT_RETRY, s\<lparr>io := st\<rparr>)"
      unfolding unf d(1) by simp
    then show ?thesis using keepsI(2) [OF assms(2) d(2)] by blast
  next
    case part
    then have "dtls1_process_out_of_seq_message e h s = dtls1_reassemble_fragment e h s"
      unfolding unf by auto
    with reassemble_safe [OF assms] show ?thesis by simp
  next
    case whole
    then have none: "pqueue_lookup ?q ?k = None" and off: "frag_off h = 0" by auto
    show ?thesis
    proof (cases "frag_len h > dtls1_max_handshake_message_len s
        \<or> dtls1_hm_fragment_new (malloc e) (frag_len h) False = None")
      case True
      then have "dtls1_process_out_of_seq_message e h s = Some (0, s)"
        using whole none unfolding unf by (auto simp: not_le)
      then show ?thesis using keepsI(3) [OF assms(2)] by blast
    next
      case False
      then obtain f where f: "dtls1_hm_fragment_new (malloc e) (frag_len h) False = Some f" by auto
      then have lf: "length (fragment f) = frag_len h" "reassembly f = None"
        using assms(1) by (auto simp: dtls1_hm_fragment_new_def env_safe_def allocator_ok_def
            split: option.splits if_splits)
      obtain i ty bs st where r: "(if frag_len h \<noteq> 0 then read_bytes e (frag_len h) (io s) else (1, 0, [], io s))
        = (i, ty, bs, st)" "length bs \<le> frag_len h"
        by (cases "frag_len h = 0") (auto intro: readE [OF assms(1), of "frag_len h" "io s"])
      obtain buf where buf: "mem_write (fragment f) 0 bs = Some buf"
        using mem_write_total [of 0 bs "fragment f"] lf(1) r(2) by auto
      let ?f = "f\<lparr>msg_header := h, fragment := buf\<rparr>"
      have wf: "frag_wf ?f"
        using length_mem_write [OF buf] lf off whole(3) assms(3) by (simp add: frag_wf_def hm_small_def)
      obtain q where q: "pqueue_insert ?q \<lparr>priority = ?k, data = ?f\<rparr> = (Some \<lparr>priority = ?k, data = ?f\<rparr>, q)"
        "pqueue_ok q" "pqueue_lookup q = (pqueue_lookup ?q)(?k \<mapsto> ?f)"
        using insert_new [OF _ _ none] assms(2) unfolding queue_wf_def by (metis length_seq64be)
      have "queue_wf q" using queue_wf_upd [OF assms(2) wf _ q(2,3)] by simp
      have "dtls1_process_out_of_seq_message e h s =
        (if i \<le> 0 \<or> length bs \<noteq> frag_len h \<or> malloc e sizeof_pitem = None then Some (0, s\<lparr>io := st\<rparr>)
         else Some (DTLS1_HM_FRAGMENT_RETRY, s\<lparr>buffered_messages := q, io := st\<rparr>))"
        using whole(3) False buf q(1)
        unfolding unf if_not_P [OF whole(1)] if_not_P [OF whole(2)] r(1) f by (simp add: pitem_new_def)
      moreover have "reads_to e (io s) st"
        using r(1) reads_to_read by (metis Pair_inject reads_to_refl)
      ultimately show ?thesis
        using keepsI(1) [OF \<open>queue_wf q\<close>, of e s st] keepsI(2) [OF assms(2), of e st]
        by (auto split: if_splits)
    qed
  qed
qed

text \<open>Well-formedness does not depend on the core of the connection, nor on the reader's state.\<close>

lemma dtls_wf_frame [simp]:
  "dtls_wf (on_core g s) = dtls_wf s" "dtls_wf (tlsfatal al rs s) = dtls_wf s"
  "dtls_wf (s\<lparr>io := st\<rparr>) = dtls_wf s" "dtls_wf (s\<lparr>core := c\<rparr>) = dtls_wf s"
  "dtls_wf (s\<lparr>init_msg := im, message_type := mt, message_size := ms\<rparr>) = dtls_wf s"
  by (simp_all add: dtls_wf_def on_core_def tlsfatal_def)

lemma dtls_wf_keeps: "dtls_wf s \<Longrightarrow> keeps e s s' \<Longrightarrow> dtls_wf s'"
  by (auto simp: dtls_wf_def keeps_def)

lemma buf_store_total:
  assumes "dtls_wf s" and "i + length bs \<le> b_max (init_buf s)"
  shows "\<exists>d'. buf_store i bs s = Some (s\<lparr>init_buf := (init_buf s)\<lparr>b_data := Some d'\<rparr>\<rparr>)
    \<and> length d' = b_max (init_buf s) \<and> (\<forall>d. b_data (init_buf s) = Some d \<longrightarrow> mem_write d i bs = Some d')
    \<and> dtls_wf (s\<lparr>init_buf := (init_buf s)\<lparr>b_data := Some d'\<rparr>\<rparr>)"
proof -
  obtain d where d: "b_data (init_buf s) = Some d" "length d = b_max (init_buf s)"
    using assms(1) by (auto simp: dtls_wf_def buf_ok_def split: option.splits)
  then obtain d' where d': "mem_write d i bs = Some d'"
    using mem_write_total [of i bs d] assms(2) by auto
  with d length_mem_write [OF d'] assms(1) show ?thesis
    by (simp add: buf_store_def dtls_wf_def buf_ok_def)
qed

text \<open>
  After a successful \<open>dtls1_preprocess_fragment\<close> the buffer has room for the header and the
  message, and the fragment lies inside the message.
\<close>

definition prepared :: "hm_header \<Rightarrow> 'io dtls_st \<Rightarrow> 'io dtls_st \<Rightarrow> bool" where
  "prepared h s s' \<longleftrightarrow> (\<exists>buf. s' = s\<lparr>init_buf := buf, message_size := msg_len h,
       message_type := uint (hm_type h),
       r_msg_hdr := (r_msg_hdr s)\<lparr>msg_len := msg_len h, hm_type := hm_type h, seq := seq h\<rparr>\<rparr>
     \<and> b_length buf = msg_len h + DTLS1_HM_HEADER_LENGTH
     \<and> frag_off h + frag_len h \<le> msg_len h \<and> dtls_wf s')"

lemma preprocess_safe:
  assumes "env_safe e" and "dtls_wf s" and "hm_small h"
  shows "(\<exists>al rs. dtls1_preprocess_fragment e h s = Some (False, tlsfatal al rs s))
    \<or> (\<exists>s'. dtls1_preprocess_fragment e h s = Some (True, s') \<and> prepared h s s')"
proof (cases "frag_off h + frag_len h > msg_len h \<or> msg_len h > dtls1_max_handshake_message_len s")
  case True
  then show ?thesis using assms(3) by (auto simp: dtls1_preprocess_fragment_def)
next
  case False
  have len: "uadd (msg_len h) 12 = msg_len h + 12"
    using assms(3) by (simp add: hm_small_def uadd_def)
  have ok: "allocator_ok (malloc e)" "allocator_ok (sec_malloc e)" "buf_ok (init_buf s)"
    "frag_off (r_msg_hdr s) = 0"
    using assms(1,2) by (simp_all add: env_safe_def dtls_wf_def)
  obtain r b where g: "BUF_MEM_grow_clean (malloc e) (sec_malloc e) (init_buf s) (msg_len h + 12) = Some (r, b)"
    "buf_ok b" "r = 0 \<and> b = init_buf s \<or> r = msg_len h + 12 \<and> contents b = resized (contents (init_buf s)) r"
    using grow_clean_spec [OF ok(1-3), of "msg_len h + 12"] by auto
  show ?thesis
  proof (cases "r = 0")
    case True
    with False len ok(4) g(1) assms(3) show ?thesis
      by (auto simp: dtls1_preprocess_fragment_def)
  next
    case r: False
    have "length (contents b) = r" using g(3) r by (auto simp: resized_def)
    then have b: "b_length b = msg_len h + 12" "12 \<le> b_max b"
      using g(2,3) r length_contents [OF g(2)] by (auto simp: buf_ok_def)
    let ?s = "s\<lparr>init_buf := b, message_size := msg_len h, message_type := uint (hm_type h),
       r_msg_hdr := (r_msg_hdr s)\<lparr>msg_len := msg_len h, hm_type := hm_type h, seq := seq h\<rparr>\<rparr>"
    have "dtls1_preprocess_fragment e h s = Some (True, ?s)"
      using False len ok(4) g(1) assms(3) r by (simp add: dtls1_preprocess_fragment_def)
    moreover have "prepared h s ?s"
      unfolding prepared_def using False b g(2) assms(2) by (intro exI [of _ b]) (simp add: dtls_wf_def)
    ultimately show ?thesis by blast
  qed
qed

lemma peek_lookup:
  assumes "queue_wf q" and "pqueue_peek q = Some item"
  shows "pqueue_lookup q (priority item) = Some (data item)"
    and "priority item = seq64be (seq (msg_header (data item)))"
    and "pqueue_lookup (snd (pqueue_pop q)) = (pqueue_lookup q)(priority item := None)"
    and "k \<in> dom (pqueue_lookup q) \<Longrightarrow> be_val (priority item) \<le> be_val k"
proof -
  obtain rest where it: "items q = item # rest"
    using assms(2) by (auto simp: pqueue_peek_def split: list.splits)
  then have pop: "queue_pop q = Some ((priority item, data item), q\<lparr>items := rest\<rparr>)"
    "snd (pqueue_pop q) = q\<lparr>items := rest\<rparr>"
    by (simp_all add: queue_pop_def pqueue_pop_def)
  have ok: "pqueue_ok q" using assms(1) by (simp add: queue_wf_def)
  note p = pq.pop_Some [OF ok pop(1)]
  show "pqueue_lookup q (priority item) = Some (data item)" using p by blast
  then show "priority item = seq64be (seq (msg_header (data item)))"
    using assms(1) unfolding queue_wf_def by blast
  show "pqueue_lookup (snd (pqueue_pop q)) = (pqueue_lookup q)(priority item := None)"
    using p by (simp only: pop(2))
  show "k \<in> dom (pqueue_lookup q) \<Longrightarrow> be_val (priority item) \<le> be_val k"
    using pq.pop_least [OF ok pop(1)] by blast
qed

lemma queue_wf_pop:
  assumes "queue_wf q" and "pqueue_peek q = Some item"
  shows "queue_wf (snd (pqueue_pop q))" and "frag_wf (data item)"
proof -
  have "pqueue_ok (snd (pqueue_pop q))"
    using assms by (auto simp: queue_wf_def pqueue_ok_def pqueue_peek_def pqueue_pop_def split: list.splits)
  with assms(1) peek_lookup(3) [OF assms] show "queue_wf (snd (pqueue_pop q))"
    unfolding queue_wf_def by (auto split: if_splits)
  show "frag_wf (data item)"
    using assms(1) peek_lookup(1) [OF assms] unfolding queue_wf_def by blast
qed

lemma drop_stale_wf: "queue_wf q \<Longrightarrow> queue_wf (drop_stale n q)"
proof (induction n q rule: drop_stale.induct)
  case (1 n q)
  show ?case
    using 1 queue_wf_pop(1)
    by (subst drop_stale.simps) (auto split: option.splits)
qed

text \<open>A complete message is in the buffer, with room for its header.\<close>

definition ready :: "'io dtls_st \<Rightarrow> bool" where
  "ready s \<longleftrightarrow> dtls_wf s \<and> msg_len (r_msg_hdr s) < 2 ^ 24
     \<and> msg_len (r_msg_hdr s) + DTLS1_HM_HEADER_LENGTH \<le> b_length (init_buf s)"

lemma ready_frame [simp]: "ready (on_core g s) = ready s" "ready (s\<lparr>io := st\<rparr>) = ready s"
  by (simp_all add: ready_def on_core_def dtls_wf_def)

lemma ready_wf: "ready s \<Longrightarrow> dtls_wf s"
  by (simp add: ready_def)

lemma prepared_ready: "prepared h s s' \<Longrightarrow> hm_small h \<Longrightarrow> ready s'"
  by (auto simp: prepared_def ready_def hm_small_def)

lemma prepared_store:
  assumes "prepared h s s'" and "hm_small h" and "length bs \<le> frag_len h"
  shows "\<exists>s''. buf_store (DTLS1_HM_HEADER_LENGTH + frag_off h) bs (s'\<lparr>io := st\<rparr>) = Some s'' \<and> ready s'' \<and> io s'' = st"
proof -
  have r: "ready (s'\<lparr>io := st\<rparr>)" using prepared_ready [OF assms(1,2)] by simp
  have "DTLS1_HM_HEADER_LENGTH + frag_off h + length bs \<le> b_max (init_buf s')"
    using assms(1,3) by (auto simp: prepared_def dtls_wf_def buf_ok_def)
  then show ?thesis
    using buf_store_total [OF ready_wf [OF r], of "12 + frag_off h" bs] r by (auto simp: ready_def)
qed

lemma retrieve_safe:
  assumes "env_safe e" and "dtls_wf s"
  shows "\<exists>r n s'. dtls1_retrieve_buffered_fragment e s = Some (r, n, s') \<and> dtls_wf s' \<and> io s' = io s
    \<and> (r > 0 \<longrightarrow> ready s')"
proof -
  let ?q = "drop_stale (handshake_read_seq s) (buffered_messages s)"
  let ?s = "s\<lparr>buffered_messages := ?q\<rparr>"
  have q: "queue_wf ?q" using drop_stale_wf assms(2) by (simp add: dtls_wf_def)
  then have wf: "dtls_wf ?s" using assms(2) by (simp add: dtls_wf_def)
  show ?thesis
  proof (cases "\<exists>item. pqueue_peek ?q = Some item \<and> reassembly (data item) = None
      \<and> handshake_read_seq s = seq (msg_header (data item))")
    case False
    then have "dtls1_retrieve_buffered_fragment e s = Some (0, 0, ?s)"
      by (auto simp: dtls1_retrieve_buffered_fragment_def Let_def split: option.splits)
    with wf show ?thesis by simp
  next
    case True
    then obtain item where it: "pqueue_peek ?q = Some item" "reassembly (data item) = None"
      "handshake_read_seq s = seq (msg_header (data item))" by blast
    let ?f = "data item" and ?h = "msg_header (data item)" and ?p = "s\<lparr>buffered_messages := snd (pqueue_pop ?q)\<rparr>"
    note pop = queue_wf_pop [OF q it(1)]
    have small: "hm_small ?h" and len: "length (fragment ?f) = frag_len ?h"
      using pop(2) by (simp_all add: frag_wf_def hm_small_def Let_def)
    have wfp: "dtls_wf ?p" using pop(1) assms(2) by (simp add: dtls_wf_def)
    have unf: "dtls1_retrieve_buffered_fragment e s =
      Option.bind (dtls1_preprocess_fragment e ?h ?p) (\<lambda>(ret, s). do {
        s \<leftarrow> (if ret \<and> frag_len ?h > 0 then do {
               bs \<leftarrow> mem_read (fragment ?f) 0 (frag_len ?h);
               buf_store (DTLS1_HM_HEADER_LENGTH + frag_off ?h) bs s
             } else Some s);
        (if ret then Some (1, frag_len ?h, s) else Some (- 1, 0, on_core (init_num_update (\<lambda>_. 0)) s)) })"
      using it by (simp add: dtls1_retrieve_buffered_fragment_def Let_def)
    consider (bad) al rs where "dtls1_preprocess_fragment e ?h ?p = Some (False, tlsfatal al rs ?p)"
      | (good) s' where "dtls1_preprocess_fragment e ?h ?p = Some (True, s')" "prepared ?h ?p s'"
      using preprocess_safe [OF assms(1) wfp small] by blast
    then show ?thesis
    proof cases
      case bad
      with wfp show ?thesis unfolding unf by (simp add: on_core_def tlsfatal_def)
    next
      case good
      obtain s'' where st: "buf_store (12 + frag_off ?h) (fragment ?f) s' = Some s''" "ready s''" "io s'' = io s'"
        using prepared_store [OF good(2) small, of "fragment ?f" "io s'"] len by auto
      have i: "io s' = io s" using good(2) by (auto simp: prepared_def)
      have "mem_read (fragment ?f) 0 (frag_len ?h) = Some (fragment ?f)"
        by (simp add: mem_read_def len)
      with st len good(1) prepared_ready [OF good(2) small] i ready_wf [of s'] ready_wf [of s'']
      show ?thesis unfolding unf by (cases "0 < frag_len ?h") simp_all
    qed
  qed
qed

text \<open>A peer that sends finitely much: every successful read uses up some of it.\<close>

definition reader_finite :: "'io dtls_env \<Rightarrow> ('io \<Rightarrow> nat) \<Rightarrow> bool" where
  "reader_finite e m \<longleftrightarrow> (\<forall>n st. case read_bytes e n st of (i, ty, bs, st') \<Rightarrow>
     m st' \<le> m st \<and> (0 < i \<longrightarrow> m st' < m st))"

lemma reader_finiteD:
  assumes "reader_finite e m" and "read_bytes e n st = (i, ty, bs, st')"
  shows "m st' \<le> m st" and "0 < i \<Longrightarrow> m st' < m st"
proof -
  have "case read_bytes e n st of (i, ty, bs, st') \<Rightarrow> m st' \<le> m st \<and> (0 < i \<longrightarrow> m st' < m st)"
    by (rule assms(1) [unfolded reader_finite_def, rule_format])
  then show "m st' \<le> m st" "0 < i \<Longrightarrow> m st' < m st" by (simp_all add: assms(2))
qed

lemma reads_to_le: "reads_to e a b \<Longrightarrow> reader_finite e m \<Longrightarrow> m b \<le> m a"
  unfolding reads_to_def
  by (induction rule: rtranclp_induct) (auto dest: reader_finiteD(1))

lemma n2l3_less: "3 \<le> length l \<Longrightarrow> n2l3 l < 2 ^ 24"
proof -
  assume "3 \<le> length l"
  then obtain a b c r where "l = a # b # c # r"
    by (metis length_Cons list.exhaust list.size(3) not_less_eq_eq numeral_3_eq_3 zero_le)
  then show ?thesis
    using be_val_bound [of "[a, b, c]"] by (simp add: n2l3_be)
qed

lemma hm_small_wire: "length wire = 12 \<Longrightarrow> hm_small (dtls1_get_message_header wire)"
  by (simp add: hm_small_def dtls1_get_message_header_def n2l3_less [simplified])

text \<open>The result of one round, with what it leaves for the next.\<close>

definition round_ok :: "('io \<Rightarrow> nat) \<Rightarrow> 'io dtls_st \<Rightarrow> (bool \<times> int \<times> nat option \<times> 'io dtls_st) option \<Rightarrow> bool" where
  "round_ok m s r \<longleftrightarrow> (\<exists>ok et len s'. r = Some (ok, et, len, s') \<and> dtls_wf s' \<and> m (io s') \<le> m (io s)
     \<and> (et \<noteq> 0 \<longrightarrow> m (io s') < m (io s))
     \<and> (ok \<longrightarrow> message_type s' = tls3_MT_CHANGE_CIPHER_SPEC \<or> ready s'))"

lemma round_okI:
  "dtls_wf s' \<Longrightarrow> m (io s') \<le> m (io s) \<Longrightarrow> (et \<noteq> 0 \<Longrightarrow> m (io s') < m (io s)) \<Longrightarrow> \<not> ok
     \<or> message_type s' = tls3_MT_CHANGE_CIPHER_SPEC \<or> ready s' \<Longrightarrow> round_ok m s (Some (ok, et, len, s'))"
  by (auto simp: round_ok_def)

lemma io_core [simp]: "io (on_core g s) = io s" "io (tlsfatal al rs s) = io s"
  "message_type (on_core g s) = message_type s"
  by (simp_all add: on_core_def tlsfatal_def)

lemma round_keeps:
  assumes "dtls_wf s" and "keeps e s s'" and "reader_finite e m" and "m (io s) < m (io s0)"
  shows "round_ok m s0 (map_option (\<lambda>(errtype, s). (False, errtype, None, s)) (Some (r, s')))"
proof -
  have "m (io s') \<le> m (io s)"
    using assms(2,3) reads_to_le by (auto simp: keeps_def)
  then show ?thesis
    using assms dtls_wf_keeps by (auto intro!: round_okI)
qed

lemma if_ok: "(P \<Longrightarrow> R x) \<Longrightarrow> (\<not> P \<Longrightarrow> R y) \<Longrightarrow> R (if P then x else y)"
  by simp

lemma round_trans: "round_ok m s1 r \<Longrightarrow> m (io s1) \<le> m (io s0) \<Longrightarrow> round_ok m s0 r"
  unfolding round_ok_def by (elim exE conjE) (intro exI conjI, assumption+, auto)

text \<open>The end of the function, where the fragment is a whole message.\<close>

lemma round_whole:
  assumes env: "env_safe e" "reader_finite e m" and wf: "dtls_wf s" and small: "hm_small h"
    and lt: "m (io s) < m (io s0)"
  shows "round_ok m s0 (Option.bind (dtls1_preprocess_fragment e h s) (\<lambda>(ok, s).
     if \<not> ok then Some (False, 0, Some 0, on_core (init_num_update (\<lambda>_. 0)) s)
     else case (if frag_len h > 0 then read_bytes e (frag_len h) (io s) else (1, 0, [], io s)) of
       (i, _, bs, st) \<Rightarrow>
         Option.bind (if frag_len h > 0
             then buf_store (DTLS1_HM_HEADER_LENGTH + frag_off h) bs (s\<lparr>io := st\<rparr>)
             else Some s) (\<lambda>s.
         if i \<le> 0 then Some (False, 0, Some 0, on_core (rwstate_update (\<lambda>_. tls_READING)) s)
         else if length bs \<noteq> frag_len h then Some (False, 0, Some 0, on_core (init_num_update (\<lambda>_. 0))
           (tlsfatal tls_AD_ILLEGAL_PARAMETER tls_R_BAD_LENGTH s))
         else Some (True, 0, Some (frag_len h), on_core (init_num_update (\<lambda>_. frag_len h)) s))))"
proof -
  consider (bad) al rs where "dtls1_preprocess_fragment e h s = Some (False, tlsfatal al rs s)"
    | (good) s' where "dtls1_preprocess_fragment e h s = Some (True, s')" "prepared h s s'"
    using preprocess_safe [OF env(1) wf small] by blast
  then show ?thesis
  proof cases
    case bad
    with wf lt show ?thesis by (simp add: round_okI)
  next
    case good
    have io: "io s' = io s" using good(2) by (auto simp: prepared_def)
    have rdy: "ready s'" using prepared_ready [OF good(2) small] .
    show ?thesis
    proof (cases "0 < frag_len h")
      case False
      with good(1) io rdy lt ready_wf [OF rdy] show ?thesis by (simp add: round_okI)
    next
      case True
      obtain i ty bs st where r: "read_bytes e (frag_len h) (io s') = (i, ty, bs, st)"
        "length bs \<le> frag_len h"
        by (rule readE [OF env(1) True])
      obtain s'' where s'': "buf_store (12 + frag_off h) bs (s'\<lparr>io := st\<rparr>) = Some s''" "ready s''" "io s'' = st"
        using prepared_store [OF good(2) small r(2)] by blast
      have "m st \<le> m (io s0)" using reader_finiteD(1) [OF env(2) r(1)] io lt by simp
      with True good(1) r(1) s'' ready_wf [OF s''(2)] show ?thesis by (simp add: round_okI)
    qed
  qed
qed

lemma get_reassembled_safe:
  assumes "env_safe e" and "reader_finite e m"
  shows "dtls_wf s \<Longrightarrow> round_ok m s (dtls_get_reassembled_message e s)"
proof (induction "m (io s)" arbitrary: s rule: less_induct)
  case less
  obtain ret flen s1 where s1: "dtls1_retrieve_buffered_fragment e s = Some (ret, flen, s1)"
    "dtls_wf s1" "io s1 = io s" "ret > 0 \<longrightarrow> ready s1"
    using retrieve_safe [OF assms(1) less.prems] by blast
  have 12: "0 < (12 :: nat)" by simp
  obtain i ty wire st where rd: "read_bytes e 12 (io s) = (i, ty, wire, st)" "length wire \<le> 12"
    "0 < i \<longrightarrow> wire \<noteq> []"
    by (rule readE [OF assms(1) 12, of "io s"]) blast
  note le = reader_finiteD [OF assms(2) rd(1)]
  let ?s = "s1\<lparr>io := st\<rparr>" and ?h = "dtls1_get_message_header wire"
  have wf: "dtls_wf ?s" using s1(2) by simp
  note unf = dtls_get_reassembled_message.simps [of e s] s1(1) bind.bind_lunit prod.case s1(3) rd(1)
  consider (ret) "ret \<noteq> 0" | (err) "ret = 0" "i \<le> 0"
    | (ccs) "ret = 0" "0 < i" "ty = 20" | (short) "ret = 0" "0 < i" "ty \<noteq> 20" "length wire \<noteq> 12"
    | (hdr) "ret = 0" "0 < i" "ty \<noteq> 20" "length wire = 12"
    by fastforce
  then show ?case
  proof cases
    case ret
    then show ?thesis unfolding unf using s1 by (cases "ret < 0") (auto intro!: round_okI)
  next
    case err
    then show ?thesis unfolding unf using wf le rd(2) by (auto simp: Let_def intro!: round_okI)
  next
    case ccs
    show ?thesis
    proof (cases "wire ! 0 = 1")
      case False
      with ccs rd(2,3) wf le show ?thesis unfolding unf by (auto simp: Let_def intro!: round_okI)
    next
      case True
      have "0 + length wire \<le> b_max (init_buf ?s)"
        using rd(2) wf by (auto simp: dtls_wf_def)
      then obtain d where "buf_store 0 wire ?s = Some (?s\<lparr>init_buf := (init_buf ?s)\<lparr>b_data := Some d\<rparr>\<rparr>)"
        "dtls_wf (?s\<lparr>init_buf := (init_buf ?s)\<lparr>b_data := Some d\<rparr>\<rparr>)"
        using buf_store_total [OF wf] by blast
      with True ccs rd(2,3) le show ?thesis unfolding unf
        by (auto simp: Let_def dtls_wf_def on_core_def intro!: round_okI)
    qed
  next
    case short
    then show ?thesis unfolding unf using wf le rd(2) by (auto simp: Let_def intro!: round_okI)
  next
    case hdr
    have small: "hm_small ?h" using hm_small_wire hdr(4) .
    have lt: "m (io ?s) < m (io s)" using le(2) hdr(2) by simp
    have qwf: "queue_wf (buffered_messages ?s)" using wf by (simp add: dtls_wf_def)
    obtain r1 t1 where 1: "dtls1_process_out_of_seq_message e ?h ?s = Some (r1, t1)" "keeps e ?s t1"
      using out_of_seq_safe [OF assms(1) qwf small] by blast
    obtain r2 t2 where 2: "dtls1_reassemble_fragment e ?h ?s = Some (r2, t2)" "keeps e ?s t2"
      using reassemble_safe [OF assms(1) qwf small] by blast
    let ?s' = "on_core (init_num_update (\<lambda>_. 0)) ?s"
    have redo: "round_ok m s (dtls_get_reassembled_message e ?s')"
    proof -
      have lt': "m (io ?s') < m (io s)" and wf': "dtls_wf ?s'"
        using lt wf unfolding io_core dtls_wf_frame by simp_all
      show ?thesis by (rule round_trans [OF less.hyps [OF lt' wf'] less_imp_le [OF lt']])
    qed
    have fatal: "round_ok m s (Some (False, 0, Some 0, on_core g (tlsfatal al rs ?s)))" for g al rs
      using lt wf by (simp add: round_okI)
    have body: "ret < 0 \<longleftrightarrow> False" "ret > 0 \<longleftrightarrow> False" "length wire > 12 \<longleftrightarrow> False" "i \<le> 0 \<longleftrightarrow> False"
      "ty = 20 \<longleftrightarrow> False" "length wire \<noteq> 12 \<longleftrightarrow> False"
      using hdr by simp_all
    show ?thesis
      unfolding unf Let_def body if_False
      using fatal redo round_keeps [OF wf 1(2) assms(2) lt] round_keeps [OF wf 2(2) assms(2) lt]
        round_whole [OF assms wf small lt]
      by (intro if_ok [of _ "round_ok m s"]) (simp_all only: dtls_st.simps 1(1) 2(1))
  qed
qed

lemma dtls_wf_done:
  "dtls_wf s \<Longrightarrow> dtls_wf (s\<lparr>core := c, r_msg_hdr := hm_header_zero, handshake_read_seq := n, init_msg := k\<rparr>)"
  by (simp add: dtls_wf_def hm_header_zero_def)

lemma get_until_safe:
  assumes "env_safe e" and "reader_finite e m"
  shows "dtls_wf s \<Longrightarrow> \<exists>ok s'. get_until_message e s = Some (ok, s') \<and> dtls_wf s'
    \<and> (ok \<longrightarrow> message_type s' = tls3_MT_CHANGE_CIPHER_SPEC \<or> ready s')"
proof (induction "m (io s)" arbitrary: s rule: less_induct)
  case less
  obtain ok et len s' where r: "dtls_get_reassembled_message e s = Some (ok, et, len, s')" "dtls_wf s'"
    "et \<noteq> 0 \<longrightarrow> m (io s') < m (io s)" "ok \<longrightarrow> message_type s' = 257 \<or> ready s'"
    using get_reassembled_safe [OF assms less.prems] unfolding round_ok_def by blast
  show ?case
  proof (cases "\<not> ok \<and> (et = DTLS1_HM_BAD_FRAGMENT \<or> et = DTLS1_HM_FRAGMENT_RETRY)")
    case True
    then have "m (io s') < m (io s)" using r(3) by auto
    from less.hyps [OF this r(2)] True r(1) show ?thesis
      by (subst get_until_message.simps) auto
  next
    case False
    with r show ?thesis by (subst get_until_message.simps) auto
  qed
qed

text \<open>
  C19: Memory safety and termination of \<open>dtls_get_message\<close> against every peer. Whatever the
  records contain, however small or large the announced lengths, whichever allocations fail: as
  long as the record layer delivers no more bytes than asked for and the peer sends finitely much,
  the function returns; no access falls outside the message buffer, a fragment buffer or a bitmask,
  and the queue of buffered messages stays well formed.
\<close>

theorem dtls_get_message_safe:
  assumes "env_safe e" and "reader_finite e m" and "dtls_wf s"
  shows "\<exists>ok mt len s'. dtls_get_message e s = Some (ok, mt, len, s') \<and> dtls_wf s'"
proof -
  let ?s = "s\<lparr>r_msg_hdr := hm_header_zero\<rparr>"
  have "dtls_wf ?s" using assms(3) by (simp add: dtls_wf_def hm_header_zero_def)
  then obtain ok s1 where 1: "get_until_message e ?s = Some (ok, s1)" "dtls_wf s1"
    "ok \<longrightarrow> message_type s1 = 257 \<or> ready s1"
    using get_until_safe [OF assms(1,2)] by blast
  show ?thesis
  proof (cases "ok \<and> message_type s1 \<noteq> 257")
    case False
    with 1 show ?thesis by (auto simp: dtls_get_message_def Let_def)
  next
    case True
    then have rdy: "ready s1" using 1(3) by blast
    let ?h = "r_msg_hdr s1"
    let ?w = "hm_type ?h # l2n3 (msg_len ?h) @ s2n (seq ?h) @ l2n3 0 @ l2n3 (msg_len ?h)"
    have len: "length ?w = 12" by (simp add: l2n3_def s2n_def)
    have room: "msg_len ?h + 12 \<le> b_max (init_buf s1)" "msg_len ?h < 2 ^ 24"
      using rdy by (auto simp: ready_def dtls_wf_def buf_ok_def)
    have "0 + length ?w \<le> b_max (init_buf s1)" unfolding len using room by simp
    then obtain d where d: "buf_store 0 ?w s1 = Some (s1\<lparr>init_buf := (init_buf s1)\<lparr>b_data := Some d\<rparr>\<rparr>)"
      "length d = b_max (init_buf s1)" "dtls_wf (s1\<lparr>init_buf := (init_buf s1)\<lparr>b_data := Some d\<rparr>\<rparr>)"
      using buf_store_total [OF 1(2)] by blast
    have u: "uadd (msg_len ?h) 12 = msg_len ?h + 12" using room(2) by (simp add: uadd_def)
    have "\<exists>x. mem_read d 0 (msg_len ?h + 12) = Some x" "\<exists>y. mem_read d 12 (msg_len ?h) = Some y"
      using room(1) d(2) by (simp_all add: mem_read_def)
    then obtain x y where "mem_read d 0 (msg_len ?h + 12) = Some x" "mem_read d 12 (msg_len ?h) = Some y"
      by blast
    with True d(1) 1(1) u show ?thesis
      using dtls_wf_done [OF d(3)] d(3)
      by (auto simp: dtls_get_message_def Let_def split: prod.splits if_splits)
  qed
qed

text \<open>
  A record layer over a list of records: what is left of the current record, and the others.
\<close>

fun rec_read :: "nat \<Rightarrow> bytes \<times> bytes list \<Rightarrow> int \<times> int \<times> bytes \<times> bytes \<times> bytes list" where
  "rec_read 0 st = (0, 0, [], st)"
| "rec_read n ([], []) = (0, 0, [], [], [])"
| "rec_read n ([], [] # rs) = (0, 0, [], [], rs)"
| "rec_read n ([], r # rs) = (1, 22, take n r, drop n r, rs)"
| "rec_read n (r, rs) = (1, 22, take n r, drop n r, rs)"

definition sample_denv :: "(bytes \<times> bytes list) dtls_env" where
  "sample_denv = \<lparr>malloc = sample_alloc, sec_malloc = sample_alloc, read_bytes = rec_read,
     rrec_length = (\<lambda>(r, rs). length r), finish_mac = (\<lambda>m c. (True, c)), take_mac = (\<lambda>c. (True, c))\<rparr>"

definition sample_dtls :: "bytes list \<Rightarrow> (bytes \<times> bytes list) dtls_st" where
  "sample_dtls rs = \<lparr>core = sample_tls DTLS1_VERSION True TLS_ST_BEFORE,
     init_buf = \<lparr>b_length = 0, b_data = Some (replicate 16 0), b_max = 16, b_flags = 0\<rparr>,
     init_msg = 0, init_off = 0, message_type = 0, message_size = 0, handshake_write_seq = 0,
     next_handshake_write_seq = 0, handshake_read_seq = 0,
     buffered_messages = \<lparr>items = [], count = 0\<rparr>, sent_messages = \<lparr>items = [], count = 0\<rparr>,
     mtu = 0, link_mtu = 0, w_msg_hdr = hm_header_zero, r_msg_hdr = hm_header_zero, retransmitting = False,
     max_send_fragment = 16384, write_crypto = saved_retransmit_state hm_header_zero, io = ([], rs)\<rparr>"

lemma sample_denv_safe: "env_safe sample_denv"
proof -
  have "case rec_read n st of (i, ty, bs, st') \<Rightarrow> length bs \<le> n \<and> (0 < i \<longrightarrow> bs \<noteq> [])" for n st
    by (induction n st rule: rec_read.induct) auto
  then show ?thesis
    by (simp add: env_safe_def reader_safe_def sample_denv_def)
qed

lemma sample_denv_finite: "reader_finite sample_denv (\<lambda>(r, rs). length r + length (concat rs))"
proof -
  have "case rec_read n st of (i, ty, bs, st') \<Rightarrow>
    (\<lambda>(r, rs). length r + length (concat rs)) st' \<le> (\<lambda>(r, rs). length r + length (concat rs)) st
    \<and> (0 < i \<longrightarrow> (\<lambda>(r, rs). length r + length (concat rs)) st' < (\<lambda>(r, rs). length r + length (concat rs)) st)" for n st
    by (induction n st rule: rec_read.induct) auto
  then show ?thesis
    by (simp add: reader_finite_def sample_denv_def)
qed

lemma sample_dtls_wf: "dtls_wf (sample_dtls rs)"
  by (simp add: dtls_wf_def sample_dtls_def queue_wf_def pqueue_ok_def pqueue_lookup_def buf_ok_def hm_header_zero_def)

theorem dtls_get_message_safe_witness:
  "\<exists>ok mt len s'. dtls_get_message sample_denv (sample_dtls [[1, 0, 0, 200], [7]]) = Some (ok, mt, len, s')
    \<and> dtls_wf s'"
  using dtls_get_message_safe [OF sample_denv_safe sample_denv_finite sample_dtls_wf] .

end
