(* ===== verification/Dtls_Deliver.thy ===== *)
theory Dtls_Deliver
  imports Dtls_Reassembly
begin

text \<open>
  Delivery of fragmented messages: when the records hold the fragments of a message, in whatever
  order, overlapping or repeated, \<open>dtls_get_message\<close> puts the message together and returns it as
  soon as the fragments cover it.
\<close>

section \<open>Fragments of a message\<close>

definition frag_hdr :: "byte \<Rightarrow> u16 \<Rightarrow> bytes \<Rightarrow> nat \<Rightarrow> nat \<Rightarrow> hm_header" where
  "frag_hdr mt n M off l = hm_header_zero\<lparr>hm_type := mt, msg_len := length M, seq := n,
     frag_off := off, frag_len := l\<rparr>"

definition frag_rec :: "byte \<Rightarrow> u16 \<Rightarrow> bytes \<Rightarrow> nat \<times> nat \<Rightarrow> bytes" where
  "frag_rec mt n M = (\<lambda>(off, l). dtls1_write_message_header (frag_hdr mt n M off l) @ seg M off l)"

definition covered :: "(nat \<times> nat) list \<Rightarrow> nat set" where
  "covered frs = (\<Union>(off, l)\<in>set frs. {off..<off + l})"

text \<open>
  A record layer that delivers the records it holds: a read of at most what is left of the current
  record returns just that.
\<close>

definition delivers :: "'io dtls_env \<Rightarrow> ('io \<Rightarrow> bytes list) \<Rightarrow> bool" where
  "delivers e recs \<longleftrightarrow> (\<forall>k st r rs. recs st = r # rs \<longrightarrow> 0 < k \<longrightarrow> k \<le> length r \<longrightarrow>
     (\<exists>st'. read_bytes e k st = (1, tls3_RT_HANDSHAKE, take k r, st') \<and> rrec_length e st' = length r - k
        \<and> recs st' = (if k = length r then rs else drop k r # rs)))"

lemma deliversE:
  assumes "delivers e recs" and "recs st = r # rs" and "0 < k" and "k \<le> length r"
  obtains st' where "read_bytes e k st = (1, tls3_RT_HANDSHAKE, take k r, st')"
    "rrec_length e st' = length r - k" "recs st' = (if k = length r then rs else drop k r # rs)"
proof -
  have "\<exists>st'. read_bytes e k st = (1, tls3_RT_HANDSHAKE, take k r, st') \<and> rrec_length e st' = length r - k
        \<and> recs st' = (if k = length r then rs else drop k r # rs)"
    by (rule assms(1) [unfolded delivers_def, rule_format, OF assms(2-4)])
  then show thesis using that by blast
qed

lemma frag_hdr_sel [simp]:
  "hm_type (frag_hdr mt n M off l) = mt" "msg_len (frag_hdr mt n M off l) = length M"
  "seq (frag_hdr mt n M off l) = n" "frag_off (frag_hdr mt n M off l) = off"
  "frag_len (frag_hdr mt n M off l) = l"
  by (simp_all add: frag_hdr_def)

lemma frag_hdr_small: "length M < 2 ^ 24 \<Longrightarrow> off + l \<le> length M \<Longrightarrow> hm_small (frag_hdr mt n M off l)"
  by (simp add: hm_small_def)

lemma get_frag_hdr:
  assumes "length M < 2 ^ 24" and "off + l \<le> length M"
  shows "dtls1_get_message_header (dtls1_write_message_header (frag_hdr mt n M off l)) = frag_hdr mt n M off l"
  using assms by (intro get_write_header) (simp add: hm_valid_def frag_hdr_def hm_header_zero_def)

lemma frag_rec_read:
  "length M < 2 ^ 24 \<Longrightarrow> off + l \<le> length M \<Longrightarrow> length (frag_rec mt n M (off, l)) = 12 + l"
  "take 12 (frag_rec mt n M (off, l)) = dtls1_write_message_header (frag_hdr mt n M off l)"
  "drop 12 (frag_rec mt n M (off, l)) = seg M off l"
  by (simp_all add: frag_rec_def)

section \<open>What has been received of the message\<close>

definition received :: "byte \<Rightarrow> u16 \<Rightarrow> bytes \<Rightarrow> nat set \<Rightarrow> hm_fragment option \<Rightarrow> bool" where
  "received mt n M cov fo \<longleftrightarrow> cov \<subseteq> {..<length M} \<and>
     (case fo of
        None \<Rightarrow> cov = {}
      | Some f \<Rightarrow> frag_wf f \<and> msg_header f = frag_hdr mt n M 0 (length M)
          \<and> (case reassembly f of
               None \<Rightarrow> cov = {..<length M} \<and> fragment f = M
             | Some bm \<Rightarrow> bits bm = cov \<and> (\<forall>k\<in>cov. fragment f ! k = M ! k)))"

abbreviation entry :: "'io dtls_st \<Rightarrow> u16 \<Rightarrow> hm_fragment option" where
  "entry s n \<equiv> pqueue_lookup (buffered_messages s) (seq64be n)"

lemma write_agree:
  assumes "mem_write buf off (seg M off l) = Some buf'" and "length buf = length M"
    and "off + l \<le> length M" and "\<forall>k\<in>cov. buf ! k = M ! k" and "cov \<subseteq> {..<length M}"
  shows "\<forall>k\<in>cov \<union> {off..<off + l}. buf' ! k = M ! k"
proof
  fix k assume k: "k \<in> cov \<union> {off..<off + l}"
  have b: "buf' = take off buf @ seg M off l @ drop (off + l) buf"
    using assms(1-3) by (simp add: mem_write_def min_def split: if_splits)
  consider "k < off" "k \<in> cov" | "off \<le> k" "k < off + l" | "off + l \<le> k" "k \<in> cov"
    using k by fastforce
  then show "buf' ! k = M ! k"
  proof cases
    case 1
    then show ?thesis using assms(2-5) by (simp add: b nth_append min_def)
  next
    case 2
    then have "k - off < length (seg M off l)" using assms(3) by auto
    with 2 show ?thesis using assms(2,3) by (simp add: b nth_append seg_def min_def)
  next
    case 3
    then have "k < length M" using assms(5) by auto
    moreover have "length (take off buf @ seg M off l) = off + l" using assms(2,3) by simp
    ultimately show ?thesis
      using 3 assms(2,4) unfolding b append_assoc [symmetric] by (subst nth_append) simp
  qed
qed

lemma discard_delivers:
  assumes "delivers e recs" and "l \<le> SIZE_MAX"
  shows "recs st = r # rs \<Longrightarrow> l = length r \<Longrightarrow> 0 < l \<Longrightarrow> \<exists>st'. discard e l st = Some (1, st') \<and> recs st' = rs"
  using assms(2)
proof (induction l arbitrary: st r rule: less_induct)
  case (less l)
  let ?k = "if l > 256 then 256 else l"
  have k: "0 < ?k" "?k \<le> length r" using less.prems by auto
  obtain st' where rd: "read_bytes e ?k st = (1, 22, take ?k r, st')"
    "recs st' = (if ?k = length r then rs else drop ?k r # rs)"
    using deliversE [OF assms(1) less.prems(1) k] by metis
  have len: "length (take ?k r) = ?k" using k by simp
  show ?case
  proof (cases "l > 256")
    case True
    have lt: "l - 256 < l" using True by linarith
    have u: "usub l 256 = l - 256" using True less.prems(4) by (simp add: usub_eq)
    have "recs st' = drop 256 r # rs" using rd(2) True less.prems(2) by simp
    then obtain st'' where "discard e (l - 256) st' = Some (1, st'')" "recs st'' = rs"
      using less.IH [of "l - 256" st' "drop 256 r"] lt True less.prems(2,4) by auto
    then show ?thesis
      using True rd(1) len u less.prems(2) by (subst discard.simps) auto
  next
    case False
    have "discard e 0 st' = Some (1, st')" by (subst discard.simps) simp
    then show ?thesis
      using False rd len less.prems(2,3) by (subst discard.simps) (simp add: usub_def)
  qed
qed

section \<open>One round\<close>

lemma be_val_seq64be: "be_val (seq64be n) = unat n"
proof -
  have "unat n = unat (ucast (drop_bit 8 n) :: byte) * 256 + unat (ucast n :: byte)"
  proof -
    have "drop_bit 8 (unat n) < 256"
      using unsigned_less [of n] by (simp add: drop_bit_eq_div div_less_iff_less_mult)
    then have "unat (ucast (drop_bit 8 n) :: byte) = unat n div 256"
      by (simp add: unsigned_ucast_eq drop_bit_eq_div take_bit_eq_mod unat_div)
    moreover have "unat (ucast n :: byte) = unat n mod 256"
      by (simp add: unsigned_ucast_eq take_bit_eq_mod)
    ultimately show ?thesis by simp
  qed
  moreover have "replicate 6 (0 :: byte) = [0, 0, 0, 0, 0, 0]"
    by (simp add: numeral_eq_Suc)
  ultimately show ?thesis
    by (simp add: seq64be_def be_val_def)
qed

text \<open>Dropping stale messages leaves the entries of this and later messages alone.\<close>

lemma drop_stale_lookup:
  "queue_wf q \<Longrightarrow> \<not> k < n \<Longrightarrow> pqueue_lookup (drop_stale n q) (seq64be k) = pqueue_lookup q (seq64be k)"
proof (induction n q rule: drop_stale.induct)
  case (1 n q)
  show ?case
  proof (cases "\<exists>item. pqueue_peek q = Some item \<and> seq (msg_header (data item)) < n")
    case False
    then have "drop_stale n q = q"
      by (subst drop_stale.simps) (auto split: option.splits)
    then show ?thesis by simp
  next
    case True
    then obtain item where it: "pqueue_peek q = Some item" "seq (msg_header (data item)) < n" by blast
    note p = peek_lookup [OF 1(2) it(1)]
    have ne: "seq64be k \<noteq> priority item" using p(2) it(2) 1(3) by auto
    have "drop_stale n q = drop_stale n (snd (pqueue_pop q))"
      using it by (subst drop_stale.simps) simp
    with 1(1) [OF it] queue_wf_pop(1) [OF 1(2) it(1)] 1(3) p(3) ne show ?thesis by simp
  qed
qed

definition env_total :: "'io dtls_env \<Rightarrow> bool" where
  "env_total e \<longleftrightarrow> env_safe e \<and> alloc_total (malloc e) \<and> alloc_total (sec_malloc e)"

lemma preprocess_ok:
  assumes "env_total e" and "dtls_wf s" and "hm_small h"
    and "frag_off h + frag_len h \<le> msg_len h" and "msg_len h \<le> dtls1_max_handshake_message_len s"
  obtains s' where "dtls1_preprocess_fragment e h s = Some (True, s')" and "prepared h s s'"
proof -
  have "env_safe e" using assms(1) by (simp add: env_total_def)
  then consider (bad) al rs where "dtls1_preprocess_fragment e h s = Some (False, tlsfatal al rs s)"
    | (good) s' where "dtls1_preprocess_fragment e h s = Some (True, s')" "prepared h s s'"
    using preprocess_safe [OF _ assms(2,3)] by blast
  then show thesis
  proof cases
    case bad
    have "r \<noteq> 0" if "BUF_MEM_grow_clean (malloc e) (sec_malloc e) (init_buf s) (msg_len h + 12) = Some (r, b)" for r b
      using grow_clean_succeeds [OF _ _ _ that] assms(1,3)
      by (simp add: env_total_def hm_small_def LIMIT_BEFORE_EXPANSION_def)
    moreover have "uadd (msg_len h) 12 = msg_len h + 12"
      using assms(3) by (simp add: hm_small_def uadd_def)
    ultimately show ?thesis
      using bad assms(2-5)
      by (auto simp: dtls1_preprocess_fragment_def dtls_wf_def split: bind_splits if_splits)
  qed (rule that)
qed

text \<open>The message is in the buffer, behind the room for its header.\<close>

definition delivered :: "byte \<Rightarrow> u16 \<Rightarrow> bytes \<Rightarrow> 'io dtls_st \<Rightarrow> 'io dtls_st \<Rightarrow> bool" where
  "delivered mt n M s s' \<longleftrightarrow> ready s' \<and> message_type s' = uint mt \<and> core s' = (core s)\<lparr>init_num := length M\<rparr>
     \<and> hm_type (r_msg_hdr s') = mt \<and> msg_len (r_msg_hdr s') = length M \<and> seq (r_msg_hdr s') = n
     \<and> handshake_read_seq s' = handshake_read_seq s
     \<and> (\<exists>d. b_data (init_buf s') = Some d \<and> length d = b_max (init_buf s') \<and> seg d 12 (length M) = M)"

lemma store_message:
  assumes "prepared (frag_hdr mt n M 0 (length M)) s s1" and "length M < 2 ^ 24"
  obtains s2 where "buf_store 12 M (s1\<lparr>io := st\<rparr>) = Some s2" and "io s2 = st"
    and "delivered mt n M s (on_core (init_num_update (\<lambda>_. length M)) s2)"
proof -
  let ?h = "frag_hdr mt n M 0 (length M)"
  have rdy: "ready (s1\<lparr>io := st\<rparr>)"
    using prepared_ready [OF assms(1)] assms(2) by (simp add: hm_small_def)
  have room: "12 + length M \<le> b_max (init_buf (s1\<lparr>io := st\<rparr>))"
    using assms(1) by (auto simp: prepared_def dtls_wf_def buf_ok_def)
  obtain d' where d': "buf_store 12 M (s1\<lparr>io := st\<rparr>) = Some (s1\<lparr>io := st, init_buf := (init_buf s1)\<lparr>b_data := Some d'\<rparr>\<rparr>)"
    "length d' = b_max (init_buf s1)" "\<forall>d. b_data (init_buf s1) = Some d \<longrightarrow> mem_write d 12 M = Some d'"
    "dtls_wf (s1\<lparr>io := st, init_buf := (init_buf s1)\<lparr>b_data := Some d'\<rparr>\<rparr>)"
    using buf_store_total [OF ready_wf [OF rdy] room] by auto
  obtain d where "b_data (init_buf s1) = Some d"
    using d'(1) by (auto simp: buf_store_def split: bind_splits)
  then have m: "seg d' 12 (length M) = M"
    using d'(3) seg_mem_write_same by blast
  show thesis
    by (rule that [OF d'(1)])
      (use assms(1) d'(2,4) m rdy in \<open>auto simp: delivered_def prepared_def ready_def on_core_def dtls_wf_def\<close>)
qed

lemma retrieve_waits:
  assumes "dtls_wf s" and "received mt (handshake_read_seq s) M cov (entry s (handshake_read_seq s))"
    and "cov \<noteq> {..<length M}"
  shows "dtls1_retrieve_buffered_fragment e s
    = Some (0, 0, s\<lparr>buffered_messages := drop_stale (handshake_read_seq s) (buffered_messages s)\<rparr>)"
proof -
  let ?n = "handshake_read_seq s"
  let ?q = "drop_stale ?n (buffered_messages s)"
  have wf: "queue_wf (buffered_messages s)" using assms(1) by (simp add: dtls_wf_def)
  have "\<not> (reassembly (data item) = None \<and> ?n = seq (msg_header (data item)))"
    if "pqueue_peek ?q = Some item" for item
  proof
    assume a: "reassembly (data item) = None \<and> ?n = seq (msg_header (data item))"
    have "pqueue_lookup ?q (seq64be ?n) = Some (data item)"
      using peek_lookup(1,2) [OF drop_stale_wf [OF wf] that] a by simp
    then have "entry s ?n = Some (data item)"
      using drop_stale_lookup [OF wf, of ?n ?n] by simp
    with a assms(2,3) show False by (simp add: received_def)
  qed
  then show ?thesis
    by (auto simp: dtls1_retrieve_buffered_fragment_def Let_def split: option.splits)
qed

lemma drop_stale_least:
  "queue_wf q \<Longrightarrow> pqueue_peek (drop_stale n q) = Some item \<Longrightarrow> \<not> seq (msg_header (data item)) < n"
proof (induction n q rule: drop_stale.induct)
  case (1 n q)
  show ?case
  proof (cases "\<exists>it. pqueue_peek q = Some it \<and> seq (msg_header (data it)) < n")
    case True
    then obtain it where it: "pqueue_peek q = Some it" "seq (msg_header (data it)) < n" by blast
    then have "drop_stale n q = drop_stale n (snd (pqueue_pop q))"
      by (subst drop_stale.simps) simp
    with 1(1) [OF it queue_wf_pop(1) [OF 1(2) it(1)]] 1(3) show ?thesis by simp
  next
    case False
    then have "drop_stale n q = q"
      by (subst drop_stale.simps) (auto split: option.splits)
    with False 1(3) show ?thesis by simp
  qed
qed

lemma retrieve_done:
  assumes env: "env_total e" and wf: "dtls_wf s" and M: "0 < length M" "length M < 2 ^ 24"
    "length M \<le> dtls1_max_handshake_message_len s"
    and rec: "received mt (handshake_read_seq s) M {..<length M} (entry s (handshake_read_seq s))"
  shows "\<exists>s'. dtls1_retrieve_buffered_fragment e s = Some (1, length M, s') \<and> io s' = io s
    \<and> delivered mt (handshake_read_seq s) M s (on_core (init_num_update (\<lambda>_. length M)) s')"
proof -
  let ?n = "handshake_read_seq s"
  let ?h = "frag_hdr mt ?n M 0 (length M)"
  let ?q = "drop_stale ?n (buffered_messages s)"
  have q: "queue_wf (buffered_messages s)" "queue_wf ?q"
    using wf drop_stale_wf by (simp_all add: dtls_wf_def)
  have "{..<length M} \<noteq> {}" using M(1) by (auto simp: lessThan_empty_iff)
  then obtain f where f: "entry s ?n = Some f" "msg_header f = ?h" "reassembly f = None" "fragment f = M"
    using rec M(1) by (auto simp: received_def frag_wf_def Let_def split: option.splits)
  have lf: "pqueue_lookup ?q (seq64be ?n) = Some f"
    using drop_stale_lookup [OF q(1), of ?n ?n] f(1) by simp
  then have "items ?q \<noteq> []" by (auto simp: pqueue_lookup_def)
  then obtain item where it: "pqueue_peek ?q = Some item"
    by (auto simp: pqueue_peek_def neq_Nil_conv)
  note p = peek_lookup [OF q(2) it]
  have "be_val (priority item) \<le> be_val (seq64be ?n)" using p(4) lf by blast
  then have "unat (seq (msg_header (data item))) \<le> unat ?n"
    by (simp add: p(2) be_val_seq64be)
  moreover have "\<not> seq (msg_header (data item)) < ?n"
    using drop_stale_least [OF q(1) it] .
  ultimately have "seq (msg_header (data item)) = ?n"
    by (simp add: word_le_nat_alt [symmetric])
  then have df: "data item = f" using p(1,2) lf by simp
  let ?p = "s\<lparr>buffered_messages := snd (pqueue_pop ?q)\<rparr>"
  have wfp: "dtls_wf ?p" using queue_wf_pop(1) [OF q(2) it] wf by (simp add: dtls_wf_def)
  have small: "hm_small ?h" using M(2) by (simp add: hm_small_def)
  obtain s1 where s1: "dtls1_preprocess_fragment e ?h ?p = Some (True, s1)" "prepared ?h ?p s1"
    by (rule preprocess_ok [OF env wfp small])
      (use M(3) in \<open>auto simp: dtls1_max_handshake_message_len_def Let_def\<close>)
  obtain s2 where s2: "buf_store 12 M (s1\<lparr>io := io s1\<rparr>) = Some s2" "io s2 = io s1"
    "delivered mt ?n M ?p (on_core (init_num_update (\<lambda>_. length M)) s2)"
    by (rule store_message [OF s1(2) M(2)])
  have "io s1 = io s" using s1(2) by (auto simp: prepared_def)
  moreover have "dtls1_retrieve_buffered_fragment e s = Some (1, length M, s2)"
    using it df f(2-4) s1(1) s2(1) M(1)
    by (simp add: dtls1_retrieve_buffered_fragment_def Let_def mem_read_def)
  moreover have "delivered mt ?n M s (on_core (init_num_update (\<lambda>_. length M)) s2)"
    using s2(3) by (simp add: delivered_def)
  ultimately show ?thesis using s2(2) by simp
qed

text \<open>
  The state while the message is incomplete: nothing but the queue and the reader have changed, and
  the queue holds what has been received.
\<close>

definition waiting :: "byte \<Rightarrow> bytes \<Rightarrow> 'io dtls_st \<Rightarrow> nat set \<Rightarrow> 'io dtls_st \<Rightarrow> bool" where
  "waiting mt M s0 cov s \<longleftrightarrow> dtls_wf s \<and> s = s0\<lparr>buffered_messages := buffered_messages s, io := io s\<rparr>
     \<and> received mt (handshake_read_seq s0) M cov (entry s (handshake_read_seq s0))"

lemma waitingD:
  assumes "waiting mt M s0 cov s"
  shows "dtls_wf s" "core s = core s0" "handshake_read_seq s = handshake_read_seq s0" "r_msg_hdr s = r_msg_hdr s0"
    "received mt (handshake_read_seq s0) M cov (entry s (handshake_read_seq s0))"
    "dtls1_max_handshake_message_len s = dtls1_max_handshake_message_len s0"
proof -
  have eq: "s = s0\<lparr>buffered_messages := buffered_messages s, io := io s\<rparr>"
    and "dtls_wf s" "received mt (handshake_read_seq s0) M cov (entry s (handshake_read_seq s0))"
    using assms by (simp_all only: waiting_def)
  then show "dtls_wf s" "received mt (handshake_read_seq s0) M cov (entry s (handshake_read_seq s0))" by simp_all
  show "core s = core s0" "handshake_read_seq s = handshake_read_seq s0" "r_msg_hdr s = r_msg_hdr s0"
    by (subst eq, simp)+
  then show "dtls1_max_handshake_message_len s = dtls1_max_handshake_message_len s0"
    by (simp add: dtls1_max_handshake_message_len_def Let_def)
qed

text \<open>The fragment buffer that the next fragment goes to.\<close>

lemma target_received:
  assumes "env_total e" and "0 < length M" and "length M < 2 ^ 24" and "off + l \<le> length M"
    and "received mt n M cov (entry s n)"
  obtains f where "target e (frag_hdr mt n M off l) s = Some f" and "frag_wf f"
    and "msg_header f = frag_hdr mt n M 0 (length M)"
    and "case reassembly f of None \<Rightarrow> cov = {..<length M}
      | Some bm \<Rightarrow> bits bm = cov \<and> (\<forall>k\<in>cov. fragment f ! k = M ! k)"
proof (cases "entry s n")
  case None
  have a: "malloc e k \<noteq> None" if "0 < k" for k
    using assms(1) that by (simp add: env_total_def alloc_total_def)
  have "0 < RSMBLY_BITMASK_SIZE (length M)"
    using assms(2) unfolding RSMBLY_BITMASK_SIZE_def by linarith
  then obtain f0 where f0: "dtls1_hm_fragment_new (malloc e) (length M) True = Some f0"
    using a [of 104] a [OF assms(2)] a [of "RSMBLY_BITMASK_SIZE (length M)"] assms(2)
    by (auto simp: dtls1_hm_fragment_new_def zalloc_def)
  let ?h = "frag_hdr mt n M off l"
  let ?f = "f0\<lparr>msg_header := ?h\<lparr>frag_len := msg_len ?h, frag_off := 0\<rparr>\<rparr>"
  have "allocator_ok (malloc e)" using assms(1) by (simp add: env_total_def env_safe_def)
  from fragment_new_wf [OF this _ frag_hdr_small [OF assms(3,4)], of mt n f0] f0 assms(2)
  have wf: "frag_wf ?f" "\<exists>bm. reassembly f0 = Some bm \<and> bits bm = {}" by simp_all
  have "cov = {}" using None assms(5) by (simp add: received_def)
  with wf(2) show thesis
    by (intro that [of ?f]) (use None f0 wf(1) in \<open>auto simp: target_def frag_hdr_def\<close>)
next
  case (Some f)
  with assms(5) show thesis
    by (intro that [of f]) (auto simp: received_def target_def split: option.splits)
qed

text \<open>A fragment arrives.\<close>

lemma absorb_fragment:
  assumes env: "env_total e" and rd: "delivers e recs" and w: "waiting mt M s0 cov s"
    and M: "length M < 2 ^ 24" "length M \<le> dtls1_max_handshake_message_len s0"
    and fr: "0 < l" "off + l \<le> length M" and st: "recs (io s) = seg M off l # rs"
  shows "\<exists>s'. dtls1_reassemble_fragment e (frag_hdr mt (handshake_read_seq s0) M off l) s
      = Some (DTLS1_HM_FRAGMENT_RETRY, s')
    \<and> recs (io s') = rs \<and> waiting mt M s0 (cov \<union> {off..<off + l}) s'"
proof -
  let ?n = "handshake_read_seq s0"
  let ?h = "frag_hdr mt ?n M off l"
  note w' = waitingD [OF w]
  have eq: "s = s0\<lparr>buffered_messages := buffered_messages s, io := io s\<rparr>"
    using w by (simp only: waiting_def)
  have q: "queue_wf (buffered_messages s)" using w'(1) by (simp add: dtls_wf_def)
  have small: "hm_small ?h" using frag_hdr_small [OF M(1) fr(2)] .
  have safe: "env_safe e" using env by (simp add: env_total_def)
  have fits: "frag_off ?h + frag_len ?h \<le> msg_len ?h" "msg_len ?h \<le> dtls1_max_handshake_message_len s"
    "0 < frag_len ?h"
    using fr M(2) w'(6) by simp_all
  have len: "length (seg M off l) = l" using fr(2) by simp
  have cov: "cov \<subseteq> {..<length M}" using w'(5) by (simp add: received_def)
  have Mpos: "0 < length M" using fr by linarith
  obtain f where f: "target e ?h s = Some f" "frag_wf f" "msg_header f = frag_hdr mt ?n M 0 (length M)"
    "case reassembly f of None \<Rightarrow> cov = {..<length M}
      | Some bm \<Rightarrow> bits bm = cov \<and> (\<forall>k\<in>cov. fragment f ! k = M ! k)"
    by (rule target_received [OF env Mpos M(1) fr(2) w'(5)])
  show ?thesis
  proof (cases "reassembly f")
    case None
    have "l \<le> SIZE_MAX" using fr M(1) by (simp add: SIZE_MAX_def)
    then obtain st' where d: "discard e l (io s) = Some (1, st')" "recs st' = rs"
      using discard_delivers [OF rd _ st len [symmetric] fr(1)] by blast
    have "cov \<union> {off..<off + l} = cov" using None f(4) fr(2) by auto
    moreover have "waiting mt M s0 cov (s\<lparr>io := st'\<rparr>)"
      using w'(1,5) unfolding waiting_def by simp (subst eq, simp)
    ultimately show ?thesis
      using reassemble_done [OF q small fits f(1) None, of 1 st'] d by simp
  next
    case (Some bm)
    obtain st' where r: "read_bytes e l (io s) = (1, 22, seg M off l, st')" "recs st' = rs"
    proof (rule deliversE [OF rd st fr(1)])
      show "l \<le> length (seg M off l)" using len by simp
    qed (use len in simp_all)
    have "read_bytes e (frag_len ?h) (io s) = (1, 22, seg M off l, st')" "length (seg M off l) \<le> frag_len ?h"
      using r(1) len by simp_all
    note rr = reassemble_read [OF safe q small fits f(1) Some this]
    have mal: "malloc e 24 \<noteq> None" using env by (simp add: env_total_def alloc_total_def)
    obtain q' buf bm' where q': "dtls1_reassemble_fragment e ?h s = Some (DTLS1_HM_FRAGMENT_RETRY, s\<lparr>buffered_messages := q', io := st'\<rparr>)"
      "queue_wf q'" "mem_write (fragment f) off (seg M off l) = Some buf"
      "bits bm' = bits bm \<union> {off..<off + l}"
      "pqueue_lookup q' (seq64be ?n) = Some (f\<lparr>fragment := buf,
          reassembly := if bits bm' = {..<length M} then None else Some bm'\<rparr>)"
      using rr mal len by (elim exE conjE) (auto simp del: fun_upd_apply)
    let ?f = "f\<lparr>fragment := buf, reassembly := if bits bm' = {..<length M} then None else Some bm'\<rparr>"
    have lf: "length (fragment f) = length M" using f(2,3) by (simp add: frag_wf_def Let_def)
    have agree: "\<forall>k\<in>cov \<union> {off..<off + l}. buf ! k = M ! k"
      using write_agree [OF q'(3) lf fr(2) _ cov] f(4) Some by simp
    have b: "bits bm' = cov \<union> {off..<off + l}" using q'(4) f(4) Some by simp
    have "buf = M" if "bits bm' = {..<length M}"
      using agree that b length_mem_write [OF q'(3)] lf by (intro nth_equalityI) auto
    moreover have "frag_wf ?f" using q'(2,5) unfolding queue_wf_def by blast
    ultimately have "received mt ?n M (cov \<union> {off..<off + l}) (Some ?f)"
      using cov fr(2) f(3) b agree by (auto simp: received_def)
    then have "waiting mt M s0 (cov \<union> {off..<off + l}) (s\<lparr>buffered_messages := q', io := st'\<rparr>)"
      using w'(1) q'(2,5) unfolding waiting_def by (simp add: dtls_wf_def) (subst eq, simp)
    with q'(1) r(2) show ?thesis by simp
  qed
qed

lemma waiting_drop:
  assumes "waiting mt M s0 cov s"
  shows "waiting mt M s0 cov (s\<lparr>buffered_messages := drop_stale (handshake_read_seq s0) (buffered_messages s), io := st\<rparr>)"
proof -
  note w' = waitingD [OF assms]
  have eq: "s = s0\<lparr>buffered_messages := buffered_messages s, io := io s\<rparr>"
    using assms by (simp only: waiting_def)
  have q: "queue_wf (buffered_messages s)" using w'(1) by (simp add: dtls_wf_def)
  show ?thesis
    using w'(1,5) drop_stale_wf [OF q] drop_stale_lookup [OF q, of "handshake_read_seq s0" "handshake_read_seq s0"]
    unfolding waiting_def by (simp add: dtls_wf_def) (subst eq, simp)
qed

text \<open>
  One round with a fragment of the message that the connection waits for: the fragment is recorded;
  or, when it is the whole message, the message is delivered at once.
\<close>

lemma round_fragment:
  assumes env: "env_total e" and rd: "delivers e recs" and w: "waiting mt M s0 cov s"
    and cov: "cov \<noteq> {..<length M}"
    and M: "length M < 2 ^ 24" "length M \<le> dtls1_max_handshake_message_len s0"
    and fr: "0 < l" "off + l \<le> length M"
    and st: "recs (io s) = frag_rec mt (handshake_read_seq s0) M (off, l) # rs"
    and hello: "server (core s0) \<or> hs (core s0) = TLS_ST_OK \<or> mt \<noteq> 0"
  shows "if l < length M
    then \<exists>s'. dtls_get_reassembled_message e s = Some (False, DTLS1_HM_FRAGMENT_RETRY, None, s')
      \<and> recs (io s') = rs \<and> waiting mt M s0 (cov \<union> {off..<off + l}) s'
    else \<exists>s'. dtls_get_reassembled_message e s = Some (True, 0, Some (length M), s')
      \<and> recs (io s') = rs \<and> delivered mt (handshake_read_seq s0) M s0 s'"
proof -
  let ?n = "handshake_read_seq s0"
  let ?h = "frag_hdr mt ?n M off l" and ?w = "dtls1_write_message_header (frag_hdr mt ?n M off l)"
  let ?q = "drop_stale ?n (buffered_messages s)"
  note w' = waitingD [OF w]
  note fl = frag_rec_read(1) [OF M(1) fr(2), of mt ?n]
  have len: "length (seg M off l) = l" using fr(2) by simp
  obtain st' where st': "read_bytes e 12 (io s) = (1, 22, ?w, st')" "rrec_length e st' = l"
    "recs st' = seg M off l # rs"
    using deliversE [OF rd st, of 12] fl frag_rec_read(2,3) [of mt ?n M off l] fr(1) by auto
  let ?s = "s\<lparr>buffered_messages := ?q, io := st'\<rparr>"
  have ret: "dtls1_retrieve_buffered_fragment e s = Some (0, 0, s\<lparr>buffered_messages := ?q\<rparr>)"
    using retrieve_waits [OF w'(1), of mt M cov e] w'(3,5) cov by simp
  have ws: "waiting mt M s0 cov ?s" using waiting_drop [OF w] .
  note ws' = waitingD [OF ws]
  have hd: "dtls1_get_message_header ?w = ?h" using get_frag_hdr [OF M(1) fr(2)] .
  have w0: "uint (?w ! 0) = uint mt" by (simp add: dtls1_write_message_header_def)
  note unf = dtls_get_reassembled_message.simps [of e s] ret bind.bind_lunit prod.case
  show ?thesis
  proof (cases "l < length M")
    case True
    obtain s' where s': "dtls1_reassemble_fragment e ?h ?s = Some (DTLS1_HM_FRAGMENT_RETRY, s')"
      "recs (io s') = rs" "waiting mt M s0 (cov \<union> {off..<off + l}) s'"
      using absorb_fragment [OF env rd ws M fr, of rs] st'(3) by auto
    then have "dtls_get_reassembled_message e s = Some (False, DTLS1_HM_FRAGMENT_RETRY, None, s')"
      unfolding unf using True st'(1,2) hd fr(1) ws'(3) w'(3) by (simp add: Let_def)
    with True s' show ?thesis by simp
  next
    case False
    then have l: "l = length M" "off = 0" using fr(2) by auto
    have small: "hm_small ?h" using frag_hdr_small [OF M(1) fr(2)] .
    obtain s1 where s1: "dtls1_preprocess_fragment e ?h ?s = Some (True, s1)" "prepared ?h ?s s1"
      by (rule preprocess_ok [OF env ws'(1) small]) (use fr(2) M(2) ws'(6) in simp_all)
    have io: "io s1 = st'" using s1(2) by (auto simp: prepared_def)
    have st1: "recs (io s1) = M # rs" using io st'(3) l by simp
    obtain st'' where st'': "read_bytes e l (io s1) = (1, 22, M, st'')" "recs st'' = rs"
      using deliversE [OF rd st1 fr(1)] l by auto
    obtain s2 where s2: "buf_store 12 M (s1\<lparr>io := st''\<rparr>) = Some s2" "io s2 = st''"
      "delivered mt ?n M ?s (on_core (init_num_update (\<lambda>_. length M)) s2)"
      by (rule store_message [OF s1(2) [unfolded l] M(1)])
    have nh: "server (core s0) \<or> hs (core s0) = TLS_ST_OK \<or> uint (?w ! 0) \<noteq> 0"
      using hello w0 by (auto simp: uint_0_iff)
    have "dtls_get_reassembled_message e s = Some (True, 0, Some (length M), on_core (init_num_update (\<lambda>_. length M)) s2)"
      unfolding unf using nh False l st'(1,2) hd fr(1) w'(2,3) s1(1) io st''(1) s2(1)
      by (elim disjE) (simp_all add: Let_def)
    moreover have "delivered mt ?n M s0 (on_core (init_num_update (\<lambda>_. length M)) s2)"
      using s2(3) ws'(2,3) by (simp add: delivered_def)
    ultimately show ?thesis using False s2(2) st''(2) by simp
  qed
qed

section \<open>The whole message\<close>

lemma covered_simps [simp]: "covered [] = {}" "covered ((off, l) # frs) = {off..<off + l} \<union> covered frs"
  by (simp_all add: covered_def)

lemma covered_append: "covered (xs @ ys) = covered xs \<union> covered ys"
  by (simp add: covered_def)

lemma covered_butlast: "covered (butlast frs) \<subseteq> covered frs"
  unfolding covered_def by (intro UN_mono) (auto dest: in_set_butlastD)

lemma get_until_delivers:
  assumes env: "env_total e" and rd: "delivers e recs"
    and M: "0 < length M" "length M < 2 ^ 24" "length M \<le> dtls1_max_handshake_message_len s0"
    and hello: "server (core s0) \<or> hs (core s0) = TLS_ST_OK \<or> mt \<noteq> 0"
  shows "waiting mt M s0 cov s \<Longrightarrow> \<forall>(off, l)\<in>set frs. 0 < l \<and> off + l \<le> length M
    \<Longrightarrow> recs (io s) = map (frag_rec mt (handshake_read_seq s0) M) frs @ later
    \<Longrightarrow> cov \<union> covered frs = {..<length M}
    \<Longrightarrow> frs = [] \<or> cov \<union> covered (butlast frs) \<noteq> {..<length M}
    \<Longrightarrow> \<exists>s'. get_until_message e s = Some (True, s') \<and> recs (io s') = later
      \<and> delivered mt (handshake_read_seq s0) M s0 s'"
proof (induction frs arbitrary: s cov)
  case Nil
  note w' = waitingD [OF Nil(1)]
  have "cov = {..<length M}" using Nil(4) by simp
  then obtain s' where s': "dtls1_retrieve_buffered_fragment e s = Some (1, length M, s')" "io s' = io s"
    "delivered mt (handshake_read_seq s0) M s (on_core (init_num_update (\<lambda>_. length M)) s')"
    using retrieve_done [OF env w'(1) M(1,2), of mt] M(3) w'(3,5,6) by auto
  have "dtls_get_reassembled_message e s = Some (True, 0, Some (length M), on_core (init_num_update (\<lambda>_. length M)) s')"
    by (subst dtls_get_reassembled_message.simps) (simp add: s'(1))
  then have "get_until_message e s = Some (True, on_core (init_num_update (\<lambda>_. length M)) s')"
    by (subst get_until_message.simps) simp
  moreover have "delivered mt (handshake_read_seq s0) M s0 (on_core (init_num_update (\<lambda>_. length M)) s')"
    using s'(3) w'(2,3) by (simp add: delivered_def)
  ultimately show ?case using s'(2) Nil(3) by simp
next
  case (Cons fr frs)
  obtain off l where fr: "fr = (off, l)" by (cases fr)
  have bl: "cov \<subseteq> cov \<union> covered (butlast (fr # frs))" "cov \<union> covered (butlast (fr # frs)) \<subseteq> {..<length M}"
    using Cons.prems(4) covered_butlast [of "fr # frs"] by blast+
  then have cov: "cov \<noteq> {..<length M}" using Cons.prems(5) by blast
  have f: "0 < l" "off + l \<le> length M" using Cons.prems(2) fr by auto
  have st: "recs (io s) = frag_rec mt (handshake_read_seq s0) M (off, l)
      # map (frag_rec mt (handshake_read_seq s0) M) frs @ later"
    using Cons.prems(3) fr by simp
  note rf = round_fragment [OF env rd Cons.prems(1) cov M(2,3) f st hello]
  show ?case
  proof (cases "l < length M")
    case True
    then obtain s' where s': "dtls_get_reassembled_message e s = Some (False, DTLS1_HM_FRAGMENT_RETRY, None, s')"
      "recs (io s') = map (frag_rec mt (handshake_read_seq s0) M) frs @ later"
      "waiting mt M s0 (cov \<union> {off..<off + l}) s'"
      using rf by auto
    have p5: "frs = [] \<or> cov \<union> {off..<off + l} \<union> covered (butlast frs) \<noteq> {..<length M}"
      using Cons.prems(5) unfolding fr by (cases "frs = []") (simp_all add: Un_assoc)
    have p4: "cov \<union> {off..<off + l} \<union> covered frs = {..<length M}"
      using Cons.prems(4) unfolding fr by (simp add: Un_assoc)
    have p2: "\<forall>(off, l)\<in>set frs. 0 < l \<and> off + l \<le> length M"
      using Cons.prems(2) by simp
    obtain s'' where "get_until_message e s' = Some (True, s'')" "recs (io s'') = later"
      "delivered mt (handshake_read_seq s0) M s0 s''"
      using Cons.IH [OF s'(3) p2 s'(2) p4 p5] by (elim exE conjE) (rule that)
    then show ?thesis
      using s'(1) by (subst get_until_message.simps) simp
  next
    case False
    then obtain s' where s': "dtls_get_reassembled_message e s = Some (True, 0, Some (length M), s')"
      "recs (io s') = map (frag_rec mt (handshake_read_seq s0) M) frs @ later"
      "delivered mt (handshake_read_seq s0) M s0 s'"
      using rf by auto
    have full: "{off..<off + l} = {..<length M}" using False f by auto
    have "frs = []"
    proof (rule ccontr)
      assume "frs \<noteq> []"
      then have "{off..<off + l} \<subseteq> cov \<union> covered (butlast (fr # frs))" by (auto simp: fr)
      with full bl(2) Cons.prems(5) show False by blast
    qed
    with s' show ?thesis by (subst get_until_message.simps) simp
  qed
qed

lemma header_in_front:
  assumes "mem_write d 0 w = Some d'" and "length w = 12" and "seg d 12 n = M" and "length M = n"
  shows "mem_read d' 0 (n + 12) = Some (w @ M)" and "seg d' 12 n = M"
proof -
  have b: "12 + n \<le> length d" if "n \<noteq> 0" using assms(3,4) that by (auto simp: seg_def)
  have l: "length d' = length d" "12 \<le> length d"
    using length_mem_write [OF assms(1)] mem_write_bound [OF assms(1)] assms(2) by simp_all
  show s: "seg d' 12 n = M"
    using seg_mem_write_after [OF assms(1)] assms(2,3) by simp
  have "seg d' 0 12 = w" using seg_mem_write_same [OF assms(1)] assms(2) by simp
  then have "seg d' 0 (12 + n) = w @ M" using s unfolding seg_append_split by simp
  moreover have "n + 12 \<le> length d'" using b l by (cases "n = 0") auto
  ultimately show "mem_read d' 0 (n + 12) = Some (w @ M)"
    by (simp add: mem_read_def add.commute)
qed

lemma deliver_message:
  assumes "env_total e" and "delivers e recs" and "dtls_wf s"
    and "n = handshake_read_seq s" and "entry s n = None"
    and "0 < length M" and "length M < 2 ^ 24" and "length M \<le> dtls1_max_handshake_message_len s"
    and "\<forall>(off, l)\<in>set frs. 0 < l \<and> off + l \<le> length M"
    and "covered frs = {..<length M}" and "covered (butlast frs) \<noteq> {..<length M}"
    and "recs (io s) = map (frag_rec mt n M) frs @ later"
    and "server (core s) \<or> hs (core s) = TLS_ST_OK \<or> uint mt \<noteq> tls3_MT_HELLO_REQUEST"
    and "version (core s) \<noteq> DTLS1_BAD_VER"
    and "c = (core s)\<lparr>init_num := length M\<rparr>"
    and "(if uint mt = tls3_MT_FINISHED then take_mac e c else (True, c)) = (True, c1)"
    and "finish_mac e (dtls1_write_message_header (frag_hdr mt n M 0 (length M)) @ M) c1 = (True, c2)"
  shows "\<exists>s' d. dtls_get_message e s = Some (True, uint mt, length M, s') \<and> recs (io s') = later
    \<and> b_data (init_buf s') = Some d \<and> seg d (init_msg s') (length M) = M
    \<and> handshake_read_seq s' = n + 1 \<and> core s' = c2"
proof -
  let ?s = "s\<lparr>r_msg_hdr := hm_header_zero\<rparr>"
  have "waiting mt M ?s {} ?s"
    using assms(3-5) by (simp add: waiting_def received_def dtls_wf_def hm_header_zero_def)
  moreover have "length M \<le> dtls1_max_handshake_message_len ?s"
    using assms(8) by (simp add: dtls1_max_handshake_message_len_def Let_def split: if_splits)
  ultimately obtain s1 where s1: "get_until_message e ?s = Some (True, s1)" "recs (io s1) = later"
    "delivered mt n M ?s s1"
    using get_until_delivers [OF assms(1,2,6,7), of ?s mt "{}" ?s frs later] assms(4,9-13)
    by (auto simp: uint_0_iff)
  note dl = s1(3) [unfolded delivered_def]
  let ?w = "dtls1_write_message_header (frag_hdr mt n M 0 (length M))"
  have w: "mt # l2n3 (length M) @ s2n n @ l2n3 0 @ l2n3 (length M) = ?w"
    by (simp add: dtls1_write_message_header_def)
  have rh: "hm_type (r_msg_hdr s1) = mt" "msg_len (r_msg_hdr s1) = length M" "seq (r_msg_hdr s1) = n"
    "handshake_read_seq s1 = n" "init_num (core s1) = length M"
    using dl assms(4) by simp_all
  obtain d where d: "b_data (init_buf s1) = Some d" "length d = b_max (init_buf s1)" "seg d 12 (length M) = M"
    using dl by blast
  have wf: "dtls_wf s1" using dl ready_wf by blast
  then have "0 + length ?w \<le> b_max (init_buf s1)" by (simp add: dtls_wf_def)
  then obtain d' where d': "buf_store 0 ?w s1 = Some (s1\<lparr>init_buf := (init_buf s1)\<lparr>b_data := Some d'\<rparr>\<rparr>)"
    "mem_write d 0 ?w = Some d'"
    using buf_store_total [OF wf, of 0 ?w] d(1) by auto
  note h = header_in_front [OF d'(2) length_write_header d(3) refl]
  have mt: "message_type s1 = uint mt" "uint mt \<noteq> 257"
    using dl uint_bounded [of mt] by auto
  have u: "uadd (length M) 12 = length M + 12" using assms(7) by (simp add: uadd_def)
  have cs: "core s1 = c" "version (core s1) \<noteq> 256" using dl assms(14,15) by simp_all
  have "dtls_get_message e s = Some (True, uint mt, length M, s1\<lparr>init_buf := (init_buf s1)\<lparr>b_data := Some d'\<rparr>,
    core := c2, r_msg_hdr := hm_header_zero, handshake_read_seq := n + 1, init_msg := 12\<rparr>)"
    unfolding dtls_get_message_def s1(1) bind.bind_lunit prod.case Let_def rh mt(1) w d'(1)
    using mt(2) u cs assms(16,17) h(1) rh(4) by (cases "uint mt = 20") simp_all
  with h(2) s1(2) show ?thesis by auto
qed

text \<open>
  C3: Reassembly delivers the message. A connection waits for message number \<open>n\<close>, of which it has
  received nothing yet. The next records hold fragments of a message \<open>M\<close>, in any order,
  overlapping and repeated as they may be, the last of them being the first that completes the
  message; memory suffices and the digest accepts the message. Then \<open>dtls_get_message\<close> succeeds,
  consumes exactly these records, leaves \<open>M\<close> at \<open>init_msg\<close>, reports its type and length, feeds
  the unfragmented message to the handshake digest and waits for message \<open>n + 1\<close>.
\<close>

theorem dtls_get_message_delivers:
  assumes "env_total e" and "delivers e recs" and "dtls_wf s"
    and "n = handshake_read_seq s" and "entry s n = None"
    and "0 < length M" and "length M < 2 ^ 24" and "length M \<le> dtls1_max_handshake_message_len s"
    and "\<forall>(off, l)\<in>set frs. 0 < l \<and> off + l \<le> length M"
    and "covered frs = {..<length M}" and "covered (butlast frs) \<noteq> {..<length M}"
    and "recs (io s) = map (frag_rec mt n M) frs @ later"
    and "server (core s) \<or> hs (core s) = TLS_ST_OK \<or> uint mt \<noteq> tls3_MT_HELLO_REQUEST"
    and "version (core s) \<noteq> DTLS1_BAD_VER"
    and "c = (core s)\<lparr>init_num := length M\<rparr>"
    and "(if uint mt = tls3_MT_FINISHED then take_mac e c else (True, c)) = (True, c1)"
    and "finish_mac e (dtls1_write_message_header (frag_hdr mt n M 0 (length M)) @ M) c1 = (True, c2)"
  shows "\<exists>s' d. dtls_get_message e s = Some (True, uint mt, length M, s') \<and> recs (io s') = later
    \<and> b_data (init_buf s') = Some d \<and> seg d (init_msg s') (length M) = M
    \<and> handshake_read_seq s' = n + 1 \<and> core s' = c2"
  using deliver_message [OF assms] .

lemma sample_delivers: "delivers sample_denv (\<lambda>(r, rs). if r = [] then rs else r # rs)"
  unfolding delivers_def
proof (intro allI impI)
  fix k :: nat and st :: "bytes \<times> bytes list" and r rs
  assume a: "(\<lambda>(r, rs). if r = [] then rs else r # rs) st = r # rs" "0 < k" "k \<le> length r"
  then obtain j where k: "k = Suc j" by (cases k) auto
  have r: "r \<noteq> []" using a by auto
  have "st = ([], r # rs) \<or> st = (r, rs)" using a(1) by (auto split: prod.splits if_splits)
  moreover have "rec_read k ([], r # rs) = (1, 22, take k r, drop k r, rs)"
    "rec_read k (r, rs) = (1, 22, take k r, drop k r, rs)"
    using r unfolding k by (cases r; simp)+
  ultimately have "read_bytes sample_denv k st = (1, 22, take k r, drop k r, rs)"
    by (auto simp: sample_denv_def)
  then show "\<exists>st'. read_bytes sample_denv k st = (1, tls3_RT_HANDSHAKE, take k r, st')
    \<and> rrec_length sample_denv st' = length r - k
    \<and> (\<lambda>(r, rs). if r = [] then rs else r # rs) st' = (if k = length r then rs else drop k r # rs)"
    using a(3) by (auto simp: sample_denv_def)
qed

lemma sample_denv_total: "env_total sample_denv"
  using sample_denv_safe by (simp add: env_total_def alloc_total_def sample_denv_def sample_alloc_def allocator_ok_def)

theorem dtls_get_message_delivers_witness:
  "\<exists>s' d. dtls_get_message sample_denv (sample_dtls [frag_rec 1 0 [5, 6, 7] (1, 2), frag_rec 1 0 [5, 6, 7] (0, 2), [9]])
      = Some (True, 1, 3, s')
    \<and> b_data (init_buf s') = Some d \<and> seg d (init_msg s') 3 = [5, 6, 7]"
proof -
  let ?s = "sample_dtls [frag_rec 1 0 [5, 6, 7] (1, 2), frag_rec 1 0 [5, 6, 7] (0, 2), [9]]"
  have c1: "covered [(1, 2), (0, 2)] = {..<length [5, 6, 7 :: byte]}"
    by (rule set_eqI) (simp, arith)
  have "0 \<in> {..<length [5, 6, 7 :: byte]}" "0 \<notin> covered (butlast [(1, 2), (0, 2)])" by simp_all
  then have c2: "covered (butlast [(1, 2), (0, 2)]) \<noteq> {..<length [5, 6, 7 :: byte]}" by blast
  have "\<exists>s' d. dtls_get_message sample_denv ?s = Some (True, uint (1 :: byte), length [5, 6, 7 :: byte], s')
      \<and> (\<lambda>(r, rs). if r = [] then rs else r # rs) (io s') = [[9]]
      \<and> b_data (init_buf s') = Some d \<and> seg d (init_msg s') (length [5, 6, 7 :: byte]) = [5, 6, 7]
      \<and> handshake_read_seq s' = 0 + 1 \<and> core s' = (core ?s)\<lparr>init_num := length [5, 6, 7 :: byte]\<rparr>"
    by (rule dtls_get_message_delivers [OF sample_denv_total sample_delivers sample_dtls_wf _ _ _ _ _ _ c1 c2])
      (simp_all add: sample_dtls_def sample_tls_def pqueue_lookup_def dtls1_max_handshake_message_len_def
        tls3_RT_MAX_ENCRYPTED_LENGTH_def sample_denv_def)
  then show ?thesis by (auto simp: numeral_3_eq_3)
qed

end
