(* ===== verification/Dtls_Write.thy ===== *)
theory Dtls_Write
  imports Dtls_Deliver "HOL-Library.Multiset"
begin

text \<open>
  The sending half of \<open>ssl/statem/statem_dtls.c\<close>, with the path MTU functions of
  \<open>ssl/d1_lib.c\<close>: a handshake message is cut into fragments that fit the MTU, each with its own
  header, and kept for retransmission. The record layer and the network are parameters that act
  on their own state; the sizes that the cipher and the digest add to a record are parameters too.
\<close>

section \<open>Parameters\<close>

record 'io dtls_wenv =
  wpending :: "'io \<Rightarrow> nat"
  bio_flush :: "'io \<Rightarrow> int \<times> 'io"
  write_bytes :: "int \<Rightarrow> bytes \<Rightarrow> 'io \<Rightarrow> int \<times> nat \<times> 'io"
  mtu_exceeded :: "'io \<Rightarrow> bool"
  mtu_overhead :: "'io \<Rightarrow> nat"
  bio_query_mtu :: "'io \<Rightarrow> nat"
  bio_set_mtu :: "nat \<Rightarrow> 'io \<Rightarrow> 'io"
  cipher_is_aead :: "nat \<Rightarrow> bool"
  cipher_is_cbc :: "nat \<Rightarrow> bool"
  cipher_block_size :: "nat \<Rightarrow> nat"
  md_size :: "nat \<Rightarrow> nat"

abbreviation (input) tls_OP_NO_QUERY_MTU :: u32 where "tls_OP_NO_QUERY_MTU \<equiv> 0x1000"
abbreviation (input) DTLS1_RT_HEADER_LENGTH :: nat where "DTLS1_RT_HEADER_LENGTH \<equiv> 13"
abbreviation (input) DTLS1_CCS_HEADER_LENGTH :: nat where "DTLS1_CCS_HEADER_LENGTH \<equiv> 1"

section \<open>Path MTU\<close>

definition g_probable_mtu :: "nat list" where
  "g_probable_mtu = [1500, 512, 256]"

definition dtls1_link_min_mtu :: nat where
  "dtls1_link_min_mtu = last g_probable_mtu"

definition dtls1_min_mtu :: "'io dtls_wenv \<Rightarrow> 'io dtls_st \<Rightarrow> nat" where
  "dtls1_min_mtu w s = usub dtls1_link_min_mtu (mtu_overhead w (io s))"

definition dtls1_query_mtu :: "'io dtls_wenv \<Rightarrow> 'io dtls_st \<Rightarrow> bool \<times> 'io dtls_st" where
  "dtls1_query_mtu w s =
     (let s = (if link_mtu s \<noteq> 0
               then s\<lparr>mtu := usub (link_mtu s) (mtu_overhead w (io s)), link_mtu := 0\<rparr> else s) in
      if mtu s < dtls1_min_mtu w s then
        (if options (core s) AND tls_OP_NO_QUERY_MTU = 0 then
           (let s = s\<lparr>mtu := bio_query_mtu w (io s)\<rparr> in
            if mtu s < dtls1_min_mtu w s then
              (let m = dtls1_min_mtu w s in (True, s\<lparr>mtu := m, io := bio_set_mtu w m (io s)\<rparr>))
            else (True, s))
         else (False, s))
      else (True, s))"

section \<open>Headers of outgoing messages\<close>

definition dtls1_set_message_header_int ::
  "byte \<Rightarrow> nat \<Rightarrow> u16 \<Rightarrow> nat \<Rightarrow> nat \<Rightarrow> 'io dtls_st \<Rightarrow> 'io dtls_st" where
  "dtls1_set_message_header_int mt len seq_num foff flen s =
     s\<lparr>w_msg_hdr := (w_msg_hdr s)\<lparr>hm_type := mt, msg_len := len, seq := seq_num,
       frag_off := foff, frag_len := flen\<rparr>\<rparr>"

definition dtls1_fix_message_header :: "nat \<Rightarrow> nat \<Rightarrow> 'io dtls_st \<Rightarrow> 'io dtls_st" where
  "dtls1_fix_message_header foff flen s =
     s\<lparr>w_msg_hdr := (w_msg_hdr s)\<lparr>frag_off := foff, frag_len := flen\<rparr>\<rparr>"

definition dtls1_set_message_header :: "byte \<Rightarrow> nat \<Rightarrow> nat \<Rightarrow> nat \<Rightarrow> 'io dtls_st \<Rightarrow> 'io dtls_st" where
  "dtls1_set_message_header mt len foff flen s =
     (let s = (if foff = 0 then s\<lparr>handshake_write_seq := next_handshake_write_seq s,
                  next_handshake_write_seq := next_handshake_write_seq s + 1\<rparr> else s) in
      dtls1_set_message_header_int mt len (handshake_write_seq s) foff flen s)"

section \<open>Writing a message\<close>

definition write_mac_size :: "'io dtls_wenv \<Rightarrow> dtls1_retransmit_state \<Rightarrow> nat" where
  "write_mac_size w c =
     (if rs_write_hash c \<noteq> 0 then
        (if rs_enc_write_ctx c \<noteq> 0 \<and> cipher_is_aead w (rs_enc_write_ctx c) then 0
         else md_size w (rs_write_hash c))
      else 0)"

definition write_blocksize :: "'io dtls_wenv \<Rightarrow> dtls1_retransmit_state \<Rightarrow> nat" where
  "write_blocksize w c =
     (if rs_enc_write_ctx c \<noteq> 0 \<and> cipher_is_cbc w (rs_enc_write_ctx c)
      then 2 * cipher_block_size w (rs_enc_write_ctx c) else 0)"

text \<open>
  The start of an iteration: a fragment other than the first one needs room for its header in
  front of the unsent bytes. None is the return of -1.
\<close>

definition next_fragment :: "int \<Rightarrow> nat \<Rightarrow> 'io dtls_st \<Rightarrow> (nat \<times> 'io dtls_st) option" where
  "next_fragment ty foff s =
     (if ty = tls3_RT_HANDSHAKE \<and> init_off s \<noteq> 0 then
        (if foff > 0 then
           (if init_off s \<le> DTLS1_HM_HEADER_LENGTH then None
            else Some (foff, on_core (init_num_update (\<lambda>n. n + DTLS1_HM_HEADER_LENGTH))
              (s\<lparr>init_off := init_off s - DTLS1_HM_HEADER_LENGTH\<rparr>)))
         else Some (frag_off (w_msg_hdr s), s))
      else Some (foff, s))"

text \<open>
  The room for a fragment: the MTU less what is pending and the overhead, after a flush when too
  little is left. \<open>Inl\<close> is a return from \<open>dtls1_do_write\<close>.
\<close>

definition room_for_fragment ::
  "'io dtls_wenv \<Rightarrow> nat \<Rightarrow> 'io dtls_st \<Rightarrow> (int \<times> 'io dtls_st) + (nat \<times> 'io dtls_st)" where
  "room_for_fragment w overhead s =
     (let used_len = wpending w (io s) + DTLS1_RT_HEADER_LENGTH + overhead;
          curr_mtu = (if mtu s > used_len then mtu s - used_len else 0) in
      if curr_mtu \<le> DTLS1_HM_HEADER_LENGTH then
        (case bio_flush w (io s) of (ret, st) \<Rightarrow>
           let s = s\<lparr>io := st\<rparr> in
           if ret \<le> 0 then Inl (ret, on_core (rwstate_update (\<lambda>_. tls_WRITING)) s)
           else let used_len = DTLS1_RT_HEADER_LENGTH + overhead in
             if mtu s > used_len + DTLS1_HM_HEADER_LENGTH then Inr (mtu s - used_len, s)
             else Inl (- 1, s))
      else Inr (curr_mtu, s))"

text \<open>
  What goes into the handshake digest after a fragment: the first one with the header that the
  unfragmented message would have, the others without header.
\<close>

definition digest_fragment :: "'io dtls_env \<Rightarrow> nat \<Rightarrow> nat \<Rightarrow> 'io dtls_st \<Rightarrow> (bool \<times> 'io dtls_st) option" where
  "digest_fragment e foff written s =
     (let h = w_msg_hdr s in do {
        (p, xlen, s) \<leftarrow>
          (if foff = 0 \<and> version (core s) \<noteq> DTLS1_BAD_VER then do {
             s \<leftarrow> buf_store (init_off s)
               (hm_type h # l2n3 (msg_len h) @ s2n (seq h) @ l2n3 0 @ l2n3 (msg_len h)) s;
             Some (init_off s, written, s)
           } else Some (init_off s + DTLS1_HM_HEADER_LENGTH, written - DTLS1_HM_HEADER_LENGTH, s));
        d \<leftarrow> b_data (init_buf s);
        bs \<leftarrow> mem_read d p xlen;
        (let (ok, c) = finish_mac e bs (core s) in Some (ok, s\<lparr>core := c\<rparr>))
      })"

partial_function (option) do_write_loop ::
  "'io dtls_env \<Rightarrow> 'io dtls_wenv \<Rightarrow> int \<Rightarrow> nat \<Rightarrow> bool \<Rightarrow> nat \<Rightarrow> 'io dtls_st \<Rightarrow> (int \<times> 'io dtls_st) option"
where
  "do_write_loop e w ty overhead retry foff s =
     (if init_num (core s) = 0 then Some (0, s)
      else case next_fragment ty foff s of
        None \<Rightarrow> Some (- 1, s)
      | Some (foff, s) \<Rightarrow>
          (case room_for_fragment w overhead s of
             Inl r \<Rightarrow> Some r
           | Inr (curr_mtu, s) \<Rightarrow>
               let len = (if init_num (core s) mod 2 ^ 32 > curr_mtu then curr_mtu else init_num (core s));
                   len = (if len > max_send_fragment s then max_send_fragment s else len) in
               if ty = tls3_RT_HANDSHAKE \<and> len < DTLS1_HM_HEADER_LENGTH then Some (- 1, s)
               else Option.bind
                 (if ty = tls3_RT_HANDSHAKE then
                    (let s = dtls1_fix_message_header foff (len - DTLS1_HM_HEADER_LENGTH) s in
                     buf_store (init_off s) (dtls1_write_message_header (w_msg_hdr s)) s)
                  else Some s) (\<lambda>s.
               Option.bind (b_data (init_buf s)) (\<lambda>d. Option.bind (mem_read d (init_off s) len) (\<lambda>bs.
               case write_bytes w ty bs (io s) of (ret, written, st) \<Rightarrow>
                 let s = s\<lparr>io := st\<rparr> in
                 if ret < 0 then
                   (if retry \<and> mtu_exceeded w st then
                      (if options (core s) AND tls_OP_NO_QUERY_MTU = 0 then
                         (case dtls1_query_mtu w s of (ok, s) \<Rightarrow>
                            if \<not> ok then Some (- 1, s) else do_write_loop e w ty overhead False foff s)
                       else Some (- 1, s))
                    else Some (- 1, s))
                 else if len \<noteq> written then Some (- 1, s)
                 else Option.bind
                   (if ty = tls3_RT_HANDSHAKE \<and> \<not> retransmitting s
                    then digest_fragment e foff written s else Some (True, s)) (\<lambda>(ok, s).
                   if \<not> ok then Some (- 1, s)
                   else if written = init_num (core s) then
                     Some (1, on_core (init_num_update (\<lambda>_. 0)) (s\<lparr>init_off := 0\<rparr>))
                   else let foff = uadd foff (usub written DTLS1_HM_HEADER_LENGTH) in
                     do_write_loop e w ty overhead retry foff
                       (dtls1_fix_message_header foff 0
                         (on_core (init_num_update (\<lambda>n. n - written))
                           (s\<lparr>init_off := init_off s + written\<rparr>)))))))))"

declare do_write_loop.simps [code]

definition dtls1_do_write ::
  "'io dtls_env \<Rightarrow> 'io dtls_wenv \<Rightarrow> int \<Rightarrow> 'io dtls_st \<Rightarrow> (int \<times> 'io dtls_st) option" where
  "dtls1_do_write e w ty s =
     (case dtls1_query_mtu w s of (ok, s) \<Rightarrow>
        if \<not> ok then Some (- 1, s)
        else if mtu s < dtls1_min_mtu w s then Some (- 1, s)
        else if init_off s = 0 \<and> ty = tls3_RT_HANDSHAKE
          \<and> init_num (core s) \<noteq> msg_len (w_msg_hdr s) + DTLS1_HM_HEADER_LENGTH then Some (- 1, s)
        else do_write_loop e w ty
          (write_mac_size w (write_crypto s) + write_blocksize w (write_crypto s)) True 0
          (on_core (rwstate_update (\<lambda>_. tls_NOTHING)) s))"

definition dtls1_handshake_write ::
  "'io dtls_env \<Rightarrow> 'io dtls_wenv \<Rightarrow> 'io dtls_st \<Rightarrow> (int \<times> 'io dtls_st) option" where
  "dtls1_handshake_write e w s = dtls1_do_write e w tls3_RT_HANDSHAKE s"

section \<open>The fragments that are written\<close>

text \<open>A network that takes every record, and a digest that appends to the transcript.\<close>

definition sends_all :: "'io dtls_wenv \<Rightarrow> ('io \<Rightarrow> bytes list) \<Rightarrow> bool" where
  "sends_all w sent \<longleftrightarrow>
     (\<forall>ty bs st. \<exists>st'. write_bytes w ty bs st = (1, length bs, st') \<and> sent st' = sent st @ [bs])
     \<and> (\<forall>st. \<exists>r st'. bio_flush w st = (r, st') \<and> 0 < r \<and> sent st' = sent st)"

definition transcribes :: "'io dtls_env \<Rightarrow> bool" where
  "transcribes e \<longleftrightarrow> (\<forall>bs c. finish_mac e bs c = (True, c\<lparr>handshake_dgst := handshake_dgst c @ bs\<rparr>))"

text \<open>Consecutive ranges from \<open>a\<close> to \<open>b\<close>.\<close>

fun chain :: "nat \<Rightarrow> (nat \<times> nat) list \<Rightarrow> nat \<Rightarrow> bool" where
  "chain a [] b \<longleftrightarrow> a = b"
| "chain a ((off, l) # frs) b \<longleftrightarrow> off = a \<and> 0 < l \<and> chain (a + l) frs b"

text \<open>
  The state in which the fragment at offset \<open>foff\<close> is about to be written: the buffer holds the
  rest of the message behind the room for a header.
\<close>

definition sending :: "byte \<Rightarrow> u16 \<Rightarrow> bytes \<Rightarrow> nat \<Rightarrow> 'io dtls_st \<Rightarrow> bool" where
  "sending mt n M foff s \<longleftrightarrow> foff < length M \<and> length M < 2 ^ 24
     \<and> hm_type (w_msg_hdr s) = mt \<and> msg_len (w_msg_hdr s) = length M \<and> seq (w_msg_hdr s) = n
     \<and> version (core s) \<noteq> DTLS1_BAD_VER
     \<and> (\<exists>d. b_data (init_buf s) = Some d \<and> 12 + length M \<le> length d
          \<and> seg d (12 + foff) (length M - foff) = drop foff M)"

definition at_fragment :: "nat \<Rightarrow> nat \<Rightarrow> 'io dtls_st \<Rightarrow> bool" where
  "at_fragment len foff s \<longleftrightarrow> init_off s = foff \<and> init_num (core s) = len - foff + DTLS1_HM_HEADER_LENGTH"

text \<open>What the iterations leave alone.\<close>

definition same_limits :: "'io dtls_st \<Rightarrow> 'io dtls_st \<Rightarrow> bool" where
  "same_limits s s' \<longleftrightarrow> mtu s' = mtu s \<and> max_send_fragment s' = max_send_fragment s
     \<and> retransmitting s' = retransmitting s \<and> link_mtu s' = link_mtu s
     \<and> options (core s') = options (core s)"

lemma room_enough:
  assumes "sends_all w sent" and "overhead + DTLS1_RT_HEADER_LENGTH + DTLS1_HM_HEADER_LENGTH < mtu s"
  obtains cm st where "room_for_fragment w overhead s = Inr (cm, s\<lparr>io := st\<rparr>)"
    and "sent st = sent (io s)" and "12 < cm" and "cm + overhead + DTLS1_RT_HEADER_LENGTH \<le> mtu s"
proof (cases "wpending w (io s) + 13 + overhead + 12 < mtu s")
  case True
  then show ?thesis
    by (intro that [of "mtu s - (wpending w (io s) + 13 + overhead)" "io s"])
      (auto simp: room_for_fragment_def Let_def)
next
  case False
  obtain r st where "bio_flush w (io s) = (r, st)" "0 < r" "sent st = sent (io s)"
    using assms(1) unfolding sends_all_def by blast
  with False assms(2) show ?thesis
    by (intro that [of "mtu s - (13 + overhead)" st]) (auto simp: room_for_fragment_def Let_def)
qed

lemma buf_store_some:
  "b_data (init_buf s) = Some d \<Longrightarrow> mem_write d i bs = Some d'
   \<Longrightarrow> buf_store i bs s = Some (s\<lparr>init_buf := (init_buf s)\<lparr>b_data := Some d'\<rparr>\<rparr>)"
  by (simp add: buf_store_def)

lemma write_header_frag:
  "hm_type h = mt \<Longrightarrow> msg_len h = length M \<Longrightarrow> seq h = n \<Longrightarrow>
   dtls1_write_message_header (h\<lparr>frag_off := off, frag_len := l\<rparr>)
   = dtls1_write_message_header (frag_hdr mt n M off l)"
  by (simp add: dtls1_write_message_header_def)

text \<open>The bytes at the start of the buffer after a header has been put in front.\<close>

lemma header_then_data:
  assumes "b + 12 + l \<le> length d" and "length w = 12" and "seg d (12 + b) k = drop b M"
    and "k = length M - b" and "l \<le> k"
  obtains d' where "mem_write d b w = Some d'" and "mem_read d' b (12 + l) = Some (w @ seg M b l)"
    and "length d' = length d" and "\<forall>j m. b + 12 \<le> j \<longrightarrow> seg d' j m = seg d j m"
proof -
  obtain d' where d': "mem_write d b w = Some d'"
    using mem_write_total [of b w d] assms(1,2) by auto
  have keep: "seg d' j m = seg d j m" if "b + 12 \<le> j" for j m
    using seg_mem_write_after [OF d'] assms(2) that by simp
  have "seg d' b 12 = w" using seg_mem_write_same [OF d'] assms(2) by simp
  moreover have "seg d' (b + 12) l = seg M b l"
  proof -
    have "seg d' (b + 12) l = seg d (12 + b) l" using keep by (simp add: add.commute)
    also have "\<dots> = take l (seg d (12 + b) k)" using assms(5) by (simp add: seg_def min_def)
    also have "\<dots> = seg M b l" using assms(3) by (simp add: seg_def)
    finally show ?thesis .
  qed
  ultimately have "seg d' b (12 + l) = w @ seg M b l"
    by (simp add: seg_append_split)
  moreover have "b + (12 + l) \<le> length d'" using length_mem_write [OF d'] assms(1) by simp
  ultimately show thesis
    using that [OF d' _ length_mem_write [OF d']] keep by (simp add: mem_read_def)
qed

definition digested :: "byte \<Rightarrow> u16 \<Rightarrow> bytes \<Rightarrow> nat \<Rightarrow> nat \<Rightarrow> bytes" where
  "digested mt n M foff l =
     (if foff = 0 then dtls1_write_message_header (frag_hdr mt n M 0 (length M)) else []) @ seg M foff l"

lemma drop_seg: "drop k (seg d i m) = seg d (i + k) (m - k)"
  by (simp add: seg_def drop_take add.commute)

lemma digest_ok:
  assumes "transcribes e" and "b_data (init_buf s) = Some d" and "init_off s = foff"
    and "hm_type (w_msg_hdr s) = mt" "msg_len (w_msg_hdr s) = length M" "seq (w_msg_hdr s) = n"
    and "version (core s) \<noteq> DTLS1_BAD_VER" and "foff + 12 + l \<le> length d"
    and "seg d (12 + foff) (length M - foff) = drop foff M" and "l \<le> length M - foff"
  shows "\<exists>d'. digest_fragment e foff (12 + l) s = Some (True, s\<lparr>init_buf := (init_buf s)\<lparr>b_data := Some d'\<rparr>,
      core := (core s)\<lparr>handshake_dgst := handshake_dgst (core s) @ digested mt n M foff l\<rparr>\<rparr>)
    \<and> length d' = length d \<and> (\<forall>j m. foff + 12 \<le> j \<longrightarrow> seg d' j m = seg d j m)"
proof (cases "foff = 0")
  case True
  let ?w = "dtls1_write_message_header (frag_hdr mt n M 0 (length M))"
  have w: "mt # l2n3 (length M) @ s2n n @ l2n3 0 @ l2n3 (length M) = ?w"
    by (simp add: dtls1_write_message_header_def)
  obtain d' where d': "mem_write d foff ?w = Some d'" "mem_read d' foff (12 + l) = Some (?w @ seg M foff l)"
    "length d' = length d" "\<forall>j m. foff + 12 \<le> j \<longrightarrow> seg d' j m = seg d j m"
    by (rule header_then_data [OF assms(8) length_write_header assms(9) refl assms(10)])
  have st: "buf_store foff ?w s = Some (s\<lparr>init_buf := (init_buf s)\<lparr>b_data := Some d'\<rparr>\<rparr>)"
    using buf_store_some [OF assms(2) d'(1)] .
  have "digest_fragment e foff (12 + l) s = Some (True, s\<lparr>init_buf := (init_buf s)\<lparr>b_data := Some d'\<rparr>,
      core := (core s)\<lparr>handshake_dgst := handshake_dgst (core s) @ digested mt n M foff l\<rparr>\<rparr>)"
    using True assms(1,3,7) d'(2) st
    unfolding digest_fragment_def Let_def assms(3-6) w
    by (simp add: transcribes_def digested_def assms(3))
  with d'(3,4) show ?thesis by blast
next
  case False
  have "seg d (foff + 12) l = take l (seg d (12 + foff) (length M - foff))"
    using assms(10) by (simp add: seg_def min_def add.commute)
  also have "\<dots> = seg M foff l"
    by (subst assms(9)) (simp add: seg_def)
  finally have "mem_read d (foff + 12) l = Some (seg M foff l)"
    using assms(8) by (simp add: mem_read_def)
  moreover have "(init_buf s)\<lparr>b_data := Some d\<rparr> = init_buf s"
    using assms(2) by (cases "init_buf s") simp
  ultimately show ?thesis
    using False assms(1,2,3)
    by (intro exI [of _ d]) (simp add: digest_fragment_def transcribes_def digested_def)
qed

lemma write_step_at:
  assumes nxt: "next_fragment tls3_RT_HANDSHAKE foff0 s0 = Some (foff, s)" and nz: "init_num (core s0) \<noteq> 0"
    and snd: "sending mt n M foff s" and at: "at_fragment (length M) foff s" and tr: "transcribes e"
    and room: "room_for_fragment w overhead s = Inr (cm, s\<lparr>io := st\<rparr>)" "12 < cm" and max: "12 < max_send_fragment s"
    and ldef: "l = min (min cm (length M - foff + 12)) (max_send_fragment s) - 12"
    and wrote: "write_bytes w tls3_RT_HANDSHAKE (frag_rec mt n M (foff, l)) st = (1, 12 + l, st')"
  shows "\<exists>s'. 0 < l \<and> foff + l \<le> length M \<and> same_limits s s' \<and> io s' = st'
    \<and> handshake_dgst (core s') = handshake_dgst (core s) @ (if retransmitting s then [] else digested mt n M foff l)
    \<and> (if foff + l = length M
       then do_write_loop e w tls3_RT_HANDSHAKE overhead retry foff0 s0 = Some (1, s')
         \<and> init_num (core s') = 0 \<and> init_off s' = 0
       else do_write_loop e w tls3_RT_HANDSHAKE overhead retry foff0 s0
           = do_write_loop e w tls3_RT_HANDSHAKE overhead retry (foff + l) s'
         \<and> init_off s' = 12 + foff + l \<and> init_num (core s') = length M - (foff + l) \<and> sending mt n M (foff + l) s')"
proof -
  note sn = snd [unfolded sending_def] and a = at [unfolded at_fragment_def]
  obtain d where d: "b_data (init_buf s) = Some d" "12 + length M \<le> length d"
    "seg d (12 + foff) (length M - foff) = drop foff M" using sn by blast
  let ?N = "length M - foff + 12"
  define len where "len = (if (if ?N > cm then cm else ?N) > max_send_fragment s then max_send_fragment s
    else (if ?N > cm then cm else ?N))"
  have l_def: "l = len - 12"
    by (simp add: ldef len_def)
  have l: "len = 12 + l" "0 < l" "foff + l \<le> length M" "l \<le> length M - foff"
    using sn room(2) max by (auto simp: l_def len_def)
  have "length M < 2 ^ 24" using sn by blast
  then have "?N < 2 ^ 32" by simp
  then have N: "init_num (core s) = ?N" "?N mod 2 ^ 32 = ?N" using a by (simp_all only: mod_less)
  let ?w = "dtls1_write_message_header (frag_hdr mt n M foff l)"
  let ?h = "(w_msg_hdr s)\<lparr>frag_off := foff, frag_len := l\<rparr>"
  have w: "dtls1_write_message_header ?h = ?w" using sn by (intro write_header_frag) simp_all
  have bound: "foff + 12 + l \<le> length d" using d(2) l(3) by simp
  obtain d1 where d1: "mem_write d foff ?w = Some d1" "mem_read d1 foff (12 + l) = Some (?w @ seg M foff l)"
    "length d1 = length d" "\<forall>j m. foff + 12 \<le> j \<longrightarrow> seg d1 j m = seg d j m"
    by (rule header_then_data [OF bound length_write_header d(3) refl l(4)])
  let ?s1 = "s\<lparr>w_msg_hdr := ?h, init_buf := (init_buf s)\<lparr>b_data := Some d1\<rparr>, io := st'\<rparr>"
  let ?dg = "if retransmitting s then [] else digested mt n M foff l"
  have ex: "\<exists>d2. (if retransmitting s then d2 = d1 else digest_fragment e foff len ?s1
      = Some (True, ?s1\<lparr>init_buf := (init_buf s)\<lparr>b_data := Some d2\<rparr>,
          core := (core s)\<lparr>handshake_dgst := handshake_dgst (core s) @ ?dg\<rparr>\<rparr>))
    \<and> length d2 = length d \<and> (\<forall>j m. foff + 12 \<le> j \<longrightarrow> seg d2 j m = seg d j m)"
  proof (cases "retransmitting s")
    case True
    then show ?thesis using d1(3,4) by simp
  next
    case False
    have "seg d1 (12 + foff) (length M - foff) = drop foff M" using d1(4) d(3) by simp
    then obtain d2 where "digest_fragment e foff (12 + l) ?s1 = Some (True, ?s1\<lparr>init_buf := (init_buf ?s1)\<lparr>b_data := Some d2\<rparr>,
        core := (core ?s1)\<lparr>handshake_dgst := handshake_dgst (core ?s1) @ digested mt n M foff l\<rparr>\<rparr>)"
      "length d2 = length d1" "\<forall>j m. foff + 12 \<le> j \<longrightarrow> seg d2 j m = seg d1 j m"
      using digest_ok [OF tr, of ?s1 d1 foff mt M n l] a sn bound d1(3) l(4) by auto
    with False d1(3,4) l(1) show ?thesis by (intro exI [of _ d2]) simp_all
  qed
  then obtain d2 where d2: "if retransmitting s then d2 = d1 else digest_fragment e foff len ?s1
      = Some (True, ?s1\<lparr>init_buf := (init_buf s)\<lparr>b_data := Some d2\<rparr>,
          core := (core s)\<lparr>handshake_dgst := handshake_dgst (core s) @ ?dg\<rparr>\<rparr>)"
    "length d2 = length d" "\<forall>j m. foff + 12 \<le> j \<longrightarrow> seg d2 j m = seg d j m"
    by blast
  let ?s2 = "?s1\<lparr>init_buf := (init_buf s)\<lparr>b_data := Some d2\<rparr>,
          core := (core s)\<lparr>handshake_dgst := handshake_dgst (core s) @ ?dg\<rparr>\<rparr>"
  have step: "do_write_loop e w 22 overhead retry foff0 s0 =
    (if len = ?N then Some (1, on_core (init_num_update (\<lambda>_. 0)) (?s2\<lparr>init_off := 0\<rparr>))
     else do_write_loop e w 22 overhead retry (foff + l)
       (dtls1_fix_message_header (foff + l) 0 (on_core (init_num_update (\<lambda>n. n - len)) (?s2\<lparr>init_off := foff + len\<rparr>))))"
  proof -
    have fix_hdr: "dtls1_fix_message_header foff (len - 12) (s\<lparr>io := st\<rparr>) = s\<lparr>io := st, w_msg_hdr := ?h\<rparr>"
      by (simp add: dtls1_fix_message_header_def l_def)
    have store: "buf_store foff ?w (s\<lparr>io := st, w_msg_hdr := ?h\<rparr>)
      = Some (s\<lparr>io := st, w_msg_hdr := ?h, init_buf := (init_buf s)\<lparr>b_data := Some d1\<rparr>\<rparr>)"
      using buf_store_some [of "s\<lparr>io := st, w_msg_hdr := ?h\<rparr>" d foff ?w d1] d(1) d1(1) by simp
    have ge: "(22 :: int) = 22 \<and> len < 12 \<longleftrightarrow> False" using l(1) by simp
    have u: "uadd foff (usub len 12) = foff + l"
      using l sn by (simp add: usub_def uadd_def)
    have wr: "write_bytes w 22 (?w @ seg M foff l) st = (1, len, st')" using wrote l(1) by (simp add: frag_rec_def)
    have rd: "mem_read d1 foff len = Some (?w @ seg M foff l)" using d1(2) l(1) by simp
    have N': "init_num (core (s\<lparr>io := st\<rparr>)) = ?N" "max_send_fragment (s\<lparr>io := st\<rparr>) = max_send_fragment s"
      using N(1) by simp_all
    note unf = do_write_loop.simps [of e w 22 overhead retry foff0 s0] nxt option.case prod.case room(1) sum.case
      N' N(2) Let_def len_def [symmetric] ge if_False fix_hdr
    show ?thesis
    proof (cases "retransmitting s")
      case True
      then have "?s2 = ?s1" using d2(1) by simp
      then show ?thesis
        unfolding unf using True nz a w store rd wr u N(1) by simp
    next
      case False
      then show ?thesis
        unfolding unf using nz a w store rd wr d2(1) u N(1) by simp
    qed
  qed
  show ?thesis
  proof (cases "foff + l = length M")
    case True
    then have "len = ?N" using l(1) by simp
    let ?s3 = "on_core (init_num_update (\<lambda>_. 0)) (?s2\<lparr>init_off := 0\<rparr>)"
    from \<open>len = ?N\<close> step have "do_write_loop e w 22 overhead retry foff0 s0 = Some (1, ?s3)" by simp
    then show ?thesis
      using True l by (intro exI [of _ ?s3]) (simp add: same_limits_def on_core_def)
  next
    case False
    then have "len \<noteq> ?N" using l(1,3) by simp
    let ?s3 = "dtls1_fix_message_header (foff + l) 0 (on_core (init_num_update (\<lambda>n. n - len)) (?s2\<lparr>init_off := foff + len\<rparr>))"
    from \<open>len \<noteq> ?N\<close> step
    have loop: "do_write_loop e w 22 overhead retry foff0 s0 = do_write_loop e w 22 overhead retry (foff + l) ?s3" by simp
    have "seg d2 (12 + (foff + l)) (length M - (foff + l)) = seg d (12 + (foff + l)) (length M - (foff + l))"
      using d2(3) by simp
    also have "\<dots> = drop (foff + l) M"
      using d(3) l(3) drop_drop [of l foff M] drop_seg [of l d "12 + foff" "length M - foff"]
      by (simp add: ac_simps)
    finally have "sending mt n M (foff + l) ?s3"
      using False sn l(3) d(2) d2(2)
      by (simp add: sending_def dtls1_fix_message_header_def on_core_def)
    then show ?thesis
      using False loop l N(1)
      by (intro exI [of _ ?s3]) (simp add: same_limits_def on_core_def dtls1_fix_message_header_def)
  qed
qed

lemma write_step:
  assumes nxt: "next_fragment tls3_RT_HANDSHAKE foff0 s0 = Some (foff, s)" and nz: "init_num (core s0) \<noteq> 0"
    and snd: "sending mt n M foff s" and at: "at_fragment (length M) foff s"
    and net: "sends_all w sent" and tr: "transcribes e"
    and lim: "overhead + DTLS1_RT_HEADER_LENGTH + DTLS1_HM_HEADER_LENGTH < mtu s" "12 < max_send_fragment s"
  shows "\<exists>l s'. 0 < l \<and> foff + l \<le> length M \<and> l + 12 \<le> max_send_fragment s
    \<and> l + 12 + overhead + DTLS1_RT_HEADER_LENGTH \<le> mtu s \<and> same_limits s s'
    \<and> sent (io s') = sent (io s) @ [frag_rec mt n M (foff, l)]
    \<and> handshake_dgst (core s') = handshake_dgst (core s) @ (if retransmitting s then [] else digested mt n M foff l)
    \<and> (if foff + l = length M
       then do_write_loop e w tls3_RT_HANDSHAKE overhead retry foff0 s0 = Some (1, s')
         \<and> init_num (core s') = 0 \<and> init_off s' = 0
       else do_write_loop e w tls3_RT_HANDSHAKE overhead retry foff0 s0
           = do_write_loop e w tls3_RT_HANDSHAKE overhead retry (foff + l) s'
         \<and> init_off s' = 12 + foff + l \<and> init_num (core s') = length M - (foff + l) \<and> sending mt n M (foff + l) s')"
proof -
  obtain cm st where room: "room_for_fragment w overhead s = Inr (cm, s\<lparr>io := st\<rparr>)"
    "sent st = sent (io s)" "12 < cm" "cm + overhead + 13 \<le> mtu s"
    by (rule room_enough [OF net lim(1)])
  define l where "l = min (min cm (length M - foff + 12)) (max_send_fragment s) - 12"
  have "foff < length M" using snd by (simp add: sending_def)
  then have l: "l \<le> length M - foff" "l + 12 \<le> max_send_fragment s" "l + 12 \<le> cm"
    using room(3) lim(2) by (auto simp: l_def)
  then have len: "length (frag_rec mt n M (foff, l)) = 12 + l"
    by (simp add: frag_rec_def)
  obtain st' where st': "write_bytes w tls3_RT_HANDSHAKE (frag_rec mt n M (foff, l)) st = (1, 12 + l, st')"
    "sent st' = sent st @ [frag_rec mt n M (foff, l)]"
    using net len unfolding sends_all_def by metis
  show ?thesis
    using write_step_at [OF nxt nz snd at tr room(1,3) lim(2) l_def st'(1), of retry] st'(2) l room(2,4)
    by (intro exI [of _ l]) auto
qed

text \<open>The whole loop, from any fragment on.\<close>

lemma digested_split: "digested mt n M foff l @ seg M (foff + l) m = digested mt n M foff (l + m)"
  by (simp add: digested_def seg_append_split)

lemma write_loop:
  assumes net: "sends_all w sent" and tr: "transcribes e"
  shows "next_fragment tls3_RT_HANDSHAKE foff0 s0 = Some (foff, s) \<Longrightarrow> init_num (core s0) \<noteq> 0
    \<Longrightarrow> sending mt n M foff s \<Longrightarrow> at_fragment (length M) foff s
    \<Longrightarrow> overhead + DTLS1_RT_HEADER_LENGTH + DTLS1_HM_HEADER_LENGTH < mtu s \<Longrightarrow> 12 < max_send_fragment s
    \<Longrightarrow> \<exists>frs s'. do_write_loop e w tls3_RT_HANDSHAKE overhead retry foff0 s0 = Some (1, s')
      \<and> sent (io s') = sent (io s) @ map (frag_rec mt n M) frs \<and> chain foff frs (length M)
      \<and> (\<forall>(off, l)\<in>set frs. l + 12 \<le> max_send_fragment s \<and> l + 12 + overhead + DTLS1_RT_HEADER_LENGTH \<le> mtu s)
      \<and> init_num (core s') = 0 \<and> init_off s' = 0
      \<and> handshake_dgst (core s') = handshake_dgst (core s)
          @ (if retransmitting s then [] else digested mt n M foff (length M - foff))"
proof (induction "length M - foff" arbitrary: foff0 s0 foff s rule: less_induct)
  case less
  obtain l s1 where st: "0 < l" "foff + l \<le> length M" "l + 12 \<le> max_send_fragment s"
    "l + 12 + overhead + 13 \<le> mtu s" "same_limits s s1"
    "sent (io s1) = sent (io s) @ [frag_rec mt n M (foff, l)]"
    "handshake_dgst (core s1) = handshake_dgst (core s) @ (if retransmitting s then [] else digested mt n M foff l)"
    "if foff + l = length M
       then do_write_loop e w 22 overhead retry foff0 s0 = Some (1, s1) \<and> init_num (core s1) = 0 \<and> init_off s1 = 0
       else do_write_loop e w 22 overhead retry foff0 s0 = do_write_loop e w 22 overhead retry (foff + l) s1
         \<and> init_off s1 = 12 + foff + l \<and> init_num (core s1) = length M - (foff + l) \<and> sending mt n M (foff + l) s1"
    using write_step [OF less.prems(1-4) net tr less.prems(5,6), of retry] by blast
  show ?case
  proof (cases "foff + l = length M")
    case True
    then have "l = length M - foff" by simp
    with True st show ?thesis
      by (intro exI [of _ "[(foff, l)]"] exI [of _ s1]) simp
  next
    case False
    let ?s2 = "on_core (init_num_update (\<lambda>n. n + 12)) (s1\<lparr>init_off := init_off s1 - 12\<rparr>)"
    have s1: "do_write_loop e w 22 overhead retry foff0 s0 = do_write_loop e w 22 overhead retry (foff + l) s1"
      "init_off s1 = 12 + foff + l" "init_num (core s1) = length M - (foff + l)" "sending mt n M (foff + l) s1"
      using st(8) False by simp_all
    have n: "next_fragment 22 (foff + l) s1 = Some (foff + l, ?s2)"
      using s1(2) st(1) by (simp add: next_fragment_def)
    have sn: "sending mt n M (foff + l) ?s2"
      using s1(4) by (simp add: sending_def on_core_def)
    have at: "at_fragment (length M) (foff + l) ?s2"
      using s1(2,3) st(2) by (simp add: at_fragment_def on_core_def)
    have lim: "mtu ?s2 = mtu s" "max_send_fragment ?s2 = max_send_fragment s" "retransmitting ?s2 = retransmitting s"
      "io ?s2 = io s1" "handshake_dgst (core ?s2) = handshake_dgst (core s1)"
      using st(5) by (simp_all add: same_limits_def on_core_def)
    have lt: "length M - (foff + l) < length M - foff" and nz: "init_num (core s1) \<noteq> 0"
      using st(1,2) False s1(3) by simp_all
    obtain frs s' where r: "do_write_loop e w 22 overhead retry (foff + l) s1 = Some (1, s')"
      "sent (io s') = sent (io ?s2) @ map (frag_rec mt n M) frs" "chain (foff + l) frs (length M)"
      "\<forall>(off, l)\<in>set frs. l + 12 \<le> max_send_fragment ?s2 \<and> l + 12 + overhead + 13 \<le> mtu ?s2"
      "init_num (core s') = 0" "init_off s' = 0"
      "handshake_dgst (core s') = handshake_dgst (core ?s2)
          @ (if retransmitting ?s2 then [] else digested mt n M (foff + l) (length M - (foff + l)))"
      using less.hyps [OF lt n nz sn at] less.prems(5,6) lim(1,2) by auto
    have "digested mt n M foff l @ digested mt n M (foff + l) (length M - (foff + l)) = digested mt n M foff (length M - foff)"
      using digested_split [of mt n M foff l "length M - (foff + l)"] st(1,2) by (simp add: digested_def)
    with r s1(1) st lim show ?thesis
      by (intro exI [of _ "(foff, l) # frs"] exI [of _ s']) auto
  qed
qed

section \<open>Properties\<close>

text \<open>
  A connection about to send the message \<open>M\<close> of type \<open>mt\<close> and number \<open>n\<close>, with an MTU that
  leaves room for data.
\<close>

definition to_send :: "'io dtls_wenv \<Rightarrow> byte \<Rightarrow> u16 \<Rightarrow> bytes \<Rightarrow> 'io dtls_st \<Rightarrow> bool" where
  "to_send w mt n M s \<longleftrightarrow> link_mtu s = 0 \<and> dtls1_min_mtu w s \<le> mtu s \<and> init_off s = 0
     \<and> init_num (core s) = length M + DTLS1_HM_HEADER_LENGTH \<and> sending mt n M 0 s
     \<and> write_mac_size w (write_crypto s) + write_blocksize w (write_crypto s)
         + DTLS1_RT_HEADER_LENGTH + DTLS1_HM_HEADER_LENGTH < mtu s
     \<and> DTLS1_HM_HEADER_LENGTH < max_send_fragment s"

lemma do_write_enters:
  assumes "to_send w mt n M s"
  shows "dtls1_do_write e w tls3_RT_HANDSHAKE s
    = do_write_loop e w tls3_RT_HANDSHAKE (write_mac_size w (write_crypto s) + write_blocksize w (write_crypto s)) True 0
        (on_core (rwstate_update (\<lambda>_. tls_NOTHING)) s)"
proof -
  note a = assms [unfolded to_send_def]
  have "dtls1_query_mtu w s = (True, s)"
    using a by (simp add: dtls1_query_mtu_def)
  moreover have "msg_len (w_msg_hdr s) = length M" using a by (simp add: sending_def)
  ultimately show ?thesis
    using a by (simp add: dtls1_do_write_def)
qed

lemma do_write_spec:
  assumes "to_send w mt n M s" and "sends_all w sent" and "transcribes e"
  shows "\<exists>frs s'. dtls1_do_write e w tls3_RT_HANDSHAKE s = Some (1, s')
    \<and> sent (io s') = sent (io s) @ map (frag_rec mt n M) frs \<and> chain 0 frs (length M)
    \<and> (\<forall>(off, l)\<in>set frs. l + DTLS1_HM_HEADER_LENGTH \<le> max_send_fragment s
         \<and> l + DTLS1_HM_HEADER_LENGTH + DTLS1_RT_HEADER_LENGTH
             + write_mac_size w (write_crypto s) + write_blocksize w (write_crypto s) \<le> mtu s)
    \<and> init_num (core s') = 0 \<and> init_off s' = 0
    \<and> handshake_dgst (core s') = handshake_dgst (core s) @ (if retransmitting s then []
         else dtls1_write_message_header (frag_hdr mt n M 0 (length M)) @ M)"
proof -
  let ?s = "on_core (rwstate_update (\<lambda>_. tls_NOTHING)) s"
  let ?o = "write_mac_size w (write_crypto s) + write_blocksize w (write_crypto s)"
  note a = assms(1) [unfolded to_send_def]
  have d: "dtls1_do_write e w 22 s = do_write_loop e w 22 ?o True 0 ?s"
    by (rule do_write_enters [OF assms(1)])
  have n: "next_fragment 22 0 ?s = Some (0, ?s)" using a by (simp add: next_fragment_def on_core_def)
  have nz: "init_num (core ?s) \<noteq> 0" "at_fragment (length M) 0 ?s" "sending mt n M 0 ?s"
    "?o + 13 + 12 < mtu ?s" "12 < max_send_fragment ?s"
    using a by (simp_all add: at_fragment_def sending_def on_core_def)
  obtain frs s' where r: "do_write_loop e w 22 ?o True 0 ?s = Some (1, s')"
    "sent (io s') = sent (io ?s) @ map (frag_rec mt n M) frs" "chain 0 frs (length M)"
    "\<forall>(off, l)\<in>set frs. l + 12 \<le> max_send_fragment ?s \<and> l + 12 + ?o + 13 \<le> mtu ?s"
    "init_num (core s') = 0" "init_off s' = 0"
    "handshake_dgst (core s') = handshake_dgst (core ?s)
      @ (if retransmitting ?s then [] else digested mt n M 0 (length M - 0))"
    using write_loop [OF assms(2,3) n nz(1,3,2,4,5), of True] by blast
  then show ?thesis
    unfolding d by (intro exI [of _ frs] exI [of _ s']) (auto simp: on_core_def digested_def)
qed

text \<open>
  C21: Fragmentation. \<open>dtls1_do_write\<close> sends a handshake message as consecutive non-empty fragments
  that cover it exactly, each in a record of its own with a correct header and within both the path
  MTU (record header, MAC and padding included) and the maximum fragment size. It adds the
  unfragmented message to the handshake digest, unless the message is retransmitted.
\<close>

theorem dtls1_do_write_fragments:
  assumes "to_send w mt n M s" and "sends_all w sent" and "transcribes e"
  shows "\<exists>frs s'. dtls1_do_write e w tls3_RT_HANDSHAKE s = Some (1, s')
    \<and> sent (io s') = sent (io s) @ map (frag_rec mt n M) frs \<and> chain 0 frs (length M)
    \<and> (\<forall>(off, l)\<in>set frs. l + DTLS1_HM_HEADER_LENGTH \<le> max_send_fragment s
         \<and> l + DTLS1_HM_HEADER_LENGTH + DTLS1_RT_HEADER_LENGTH
             + write_mac_size w (write_crypto s) + write_blocksize w (write_crypto s) \<le> mtu s)
    \<and> init_num (core s') = 0 \<and> init_off s' = 0
    \<and> handshake_dgst (core s') = handshake_dgst (core s) @ (if retransmitting s then []
         else dtls1_write_message_header (frag_hdr mt n M 0 (length M)) @ M)"
  using do_write_spec [OF assms] .

lemma chain_sum: "chain a frs b \<Longrightarrow> a \<le> b \<and> sum_list (map snd frs) = b - a"
  by (induction a frs b rule: chain.induct) auto

lemma chain_bounds: "chain a frs b \<Longrightarrow> (off, l) \<in> set frs \<Longrightarrow> 0 < l \<and> a \<le> off \<and> off + l \<le> b"
proof (induction a frs b rule: chain.induct)
  case (2 a o' l' frs b)
  have "a + l' \<le> b" using chain_sum [of "a + l'" frs b] 2(2) by simp
  with 2 show ?case by fastforce
qed simp

lemma chain_covered: "chain a frs b \<Longrightarrow> covered frs = {a..<b}"
proof (induction a frs b rule: chain.induct)
  case (2 a off l frs b)
  have "a + l \<le> b" using chain_bounds [OF 2(2), of off l] 2(2) by simp
  with 2 show ?case by (auto simp: ivl_disj_un)
qed simp

lemma card_covered: "card (covered frs) \<le> sum_list (map snd frs)"
proof (induction frs)
  case (Cons fr frs)
  obtain off l where fr: "fr = (off, l)" by (cases fr)
  have "card ({off..<off + l} \<union> covered frs) \<le> card {off..<off + l} + card (covered frs)"
    by (rule card_Un_le)
  with Cons fr show ?case by simp
qed simp

lemma mset_map_inv: "mset ys = mset (map f xs) \<Longrightarrow> \<exists>xs'. ys = map f xs' \<and> mset xs' = mset xs"
proof (induction ys arbitrary: xs)
  case (Cons y ys)
  then have "y \<in> set (map f xs)" by (metis list.set_intros(1) mset_eq_setD)
  then obtain x where x: "x \<in> set xs" "y = f x" by auto
  then have m: "mset xs = add_mset x (mset (remove1 x xs))" by simp
  have "add_mset (f x) (mset ys) = image_mset f (add_mset x (mset (remove1 x xs)))"
    using Cons.prems x(2) unfolding m [symmetric] by simp
  then have "mset ys = mset (map f (remove1 x xs))" by simp
  then obtain xs' where "ys = map f xs'" "mset xs' = mset (remove1 x xs)"
    using Cons.IH by blast
  with x m show ?case by (intro exI [of _ "x # xs'"]) simp
qed simp

text \<open>The digest that the Finished message is checked against does not change the transcript.\<close>

definition takes_mac :: "'io dtls_env \<Rightarrow> bool" where
  "takes_mac e \<longleftrightarrow> (\<forall>c. \<exists>c'. take_mac e c = (True, c') \<and> handshake_dgst c' = handshake_dgst c)"

text \<open>
  C2: From sender to receiver. The records in which one side sends a handshake message arrive at
  the other side in any order. Then \<open>dtls_get_message\<close> delivers the message: its type, its length
  and its bytes; and both sides have added the same bytes to their handshake transcripts.
\<close>

theorem dtls_message_end_to_end:
  assumes "to_send w mt n M s" and "sends_all w sent" and "transcribes e" and "\<not> retransmitting s"
    and "env_total e'" and "delivers e' recs" and "transcribes e'" and "takes_mac e'"
    and "dtls_wf r" and "handshake_read_seq r = n" and "entry r n = None"
    and "length M \<le> dtls1_max_handshake_message_len r" and "version (core r) \<noteq> DTLS1_BAD_VER"
    and "server (core r) \<or> hs (core r) = TLS_ST_OK \<or> uint mt \<noteq> tls3_MT_HELLO_REQUEST"
  shows "\<exists>rs s'. dtls1_do_write e w tls3_RT_HANDSHAKE s = Some (1, s') \<and> sent (io s') = sent (io s) @ rs
    \<and> (\<forall>rs' later. mset rs' = mset rs \<longrightarrow> recs (io r) = rs' @ later \<longrightarrow>
        (\<exists>r' d t. dtls_get_message e' r = Some (True, uint mt, length M, r') \<and> recs (io r') = later
          \<and> b_data (init_buf r') = Some d \<and> seg d (init_msg r') (length M) = M
          \<and> handshake_dgst (core s') = handshake_dgst (core s) @ t
          \<and> handshake_dgst (core r') = handshake_dgst (core r) @ t))"
proof -
  let ?t = "dtls1_write_message_header (frag_hdr mt n M 0 (length M)) @ M"
  have M: "0 < length M" "length M < 2 ^ 24" using assms(1) by (auto simp: to_send_def sending_def)
  obtain frs s' where w: "dtls1_do_write e w 22 s = Some (1, s')"
    "sent (io s') = sent (io s) @ map (frag_rec mt n M) frs" "chain 0 frs (length M)"
    "handshake_dgst (core s') = handshake_dgst (core s) @ ?t"
    using do_write_spec [OF assms(1-3)] assms(4) by auto
  have "\<exists>r' d. dtls_get_message e' r = Some (True, uint mt, length M, r') \<and> recs (io r') = later
      \<and> b_data (init_buf r') = Some d \<and> seg d (init_msg r') (length M) = M
      \<and> handshake_dgst (core r') = handshake_dgst (core r) @ ?t"
    if perm: "mset rs' = mset (map (frag_rec mt n M) frs)" and st: "recs (io r) = rs' @ later" for rs' later
  proof -
    obtain frs' where f: "rs' = map (frag_rec mt n M) frs'" "mset frs' = mset frs"
      using mset_map_inv [OF perm] by blast
    then have sf: "set frs' = set frs" using mset_eq_setD by blast
    have valid: "\<forall>(off, l)\<in>set frs'. 0 < l \<and> off + l \<le> length M"
      using chain_bounds [OF w(3)] sf by auto
    have cov: "covered frs' = {..<length M}"
      using chain_covered [OF w(3)] sf by (simp add: covered_def atLeast0LessThan)
    have "mset (map snd frs') = mset (map snd frs)" using f(2) by simp
    then have "sum_list (map snd frs') = sum_list (map snd frs)"
      by (metis sum_mset_sum_list)
    then have sum: "sum_list (map snd frs') = length M"
      using chain_sum [OF w(3)] by simp
    have "frs' \<noteq> []" using sum M(1) by (metis less_irrefl list.simps(8) sum_list.Nil)
    then obtain fs off l where fs: "frs' = fs @ [(off, l)]" by (metis append_butlast_last_id surj_pair)
    have "card (covered (butlast frs')) < length M"
      using card_covered [of fs] sum valid unfolding fs by simp
    then have but: "covered (butlast frs') \<noteq> {..<length M}" by (metis card_lessThan less_irrefl)
    obtain c1 where c1: "(if uint mt = 20 then take_mac e' ((core r)\<lparr>init_num := length M\<rparr>)
        else (True, (core r)\<lparr>init_num := length M\<rparr>)) = (True, c1)" "handshake_dgst c1 = handshake_dgst (core r)"
      using assms(8) [unfolded takes_mac_def, rule_format, of "(core r)\<lparr>init_num := length M\<rparr>"]
      by (cases "uint mt = 20") auto
    have c2: "finish_mac e' ?t c1 = (True, c1\<lparr>handshake_dgst := handshake_dgst c1 @ ?t\<rparr>)"
      using assms(7) by (simp add: transcribes_def)
    from deliver_message [OF assms(5,6,9) assms(10) [symmetric] assms(11) M assms(12) valid cov but
        st [unfolded f(1)] assms(14,13) refl c1(1) c2] c1(2)
    show ?thesis by auto
  qed
  with w(1,2,4) show ?thesis by blast
qed

subsection \<open>Sample connections\<close>

text \<open>A network that keeps the records written, over a link with 28 bytes of overhead.\<close>

definition sample_wenv :: "bytes list dtls_wenv" where
  "sample_wenv = \<lparr>wpending = (\<lambda>_. 0), bio_flush = (\<lambda>st. (1, st)),
     write_bytes = (\<lambda>ty bs st. (1, length bs, st @ [bs])), mtu_exceeded = (\<lambda>_. False),
     mtu_overhead = (\<lambda>_. 28), bio_query_mtu = (\<lambda>_. 1400), bio_set_mtu = (\<lambda>_ st. st),
     cipher_is_aead = (\<lambda>_. False), cipher_is_cbc = (\<lambda>_. False), cipher_block_size = (\<lambda>_. 16),
     md_size = (\<lambda>_. 32)\<rparr>"

definition transcript_mac :: "bytes \<Rightarrow> tls \<Rightarrow> bool \<times> tls" where
  "transcript_mac bs c = (True, c\<lparr>handshake_dgst := handshake_dgst c @ bs\<rparr>)"

definition sample_senv :: "bytes list dtls_env" where
  "sample_senv = \<lparr>malloc = sample_alloc, sec_malloc = sample_alloc, read_bytes = (\<lambda>_ st. (0, 0, [], st)),
     rrec_length = (\<lambda>_. 0), finish_mac = transcript_mac, take_mac = (\<lambda>c. (True, c))\<rparr>"

definition sample_renv :: "(bytes \<times> bytes list) dtls_env" where
  "sample_renv = sample_denv\<lparr>finish_mac := transcript_mac\<rparr>"

definition sample_sender :: "bytes \<Rightarrow> bytes list dtls_st" where
  "sample_sender M = \<lparr>core = (sample_tls DTLS1_VERSION True TLS_ST_BEFORE)\<lparr>init_num := length M + 12\<rparr>,
     init_buf = \<lparr>b_length = 12 + length M, b_data = Some (replicate 12 0 @ M), b_max = 12 + length M, b_flags = 0\<rparr>,
     init_msg = 12, init_off = 0, message_type = 0, message_size = 0, handshake_write_seq = 0,
     next_handshake_write_seq = 1, handshake_read_seq = 0,
     buffered_messages = \<lparr>items = [], count = 0\<rparr>, sent_messages = \<lparr>items = [], count = 0\<rparr>,
     mtu = 300, link_mtu = 0,
     w_msg_hdr = hm_header_zero\<lparr>hm_type := 1, msg_len := length M, frag_len := length M\<rparr>,
     r_msg_hdr = hm_header_zero, retransmitting = False, max_send_fragment = 14,
     write_crypto = saved_retransmit_state hm_header_zero, io = []\<rparr>"

lemma sample_to_send: "0 < length M \<Longrightarrow> length M < 2 ^ 24 \<Longrightarrow> to_send sample_wenv 1 0 M (sample_sender M)"
  by (simp add: to_send_def sending_def sample_sender_def sample_wenv_def dtls1_min_mtu_def usub_def
      dtls1_link_min_mtu_def g_probable_mtu_def hm_header_zero_def sample_tls_def write_mac_size_def
      write_blocksize_def seg_def)

lemma sample_sends: "sends_all sample_wenv (\<lambda>st. st)"
  by (simp add: sends_all_def sample_wenv_def)

lemma sample_transcribes: "transcribes sample_senv" "transcribes sample_renv"
  by (simp_all add: transcribes_def sample_senv_def sample_renv_def transcript_mac_def)

lemma sample_renv_ok:
  "env_total sample_renv" "delivers sample_renv (\<lambda>(r, rs). if r = [] then rs else r # rs)" "takes_mac sample_renv"
proof -
  have same: "malloc sample_renv = malloc sample_denv" "sec_malloc sample_renv = sec_malloc sample_denv"
    "read_bytes sample_renv = read_bytes sample_denv" "rrec_length sample_renv = rrec_length sample_denv"
    by (simp_all add: sample_renv_def)
  show "env_total sample_renv"
    using sample_denv_total unfolding env_total_def env_safe_def reader_safe_def same .
  show "delivers sample_renv (\<lambda>(r, rs). if r = [] then rs else r # rs)"
    using sample_delivers unfolding delivers_def same .
  show "takes_mac sample_renv"
    by (simp add: takes_mac_def sample_renv_def sample_denv_def)
qed

theorem dtls1_do_write_fragments_witness:
  "\<exists>frs s'. dtls1_do_write sample_senv sample_wenv tls3_RT_HANDSHAKE (sample_sender [5, 6, 7]) = Some (1, s')
    \<and> io s' = map (frag_rec 1 0 [5, 6, 7]) frs \<and> chain 0 frs 3 \<and> (\<forall>(off, l)\<in>set frs. l \<le> 2)"
proof -
  let ?M = "[5, 6, 7] :: bytes" and ?s = "sample_sender [5, 6, 7]"
  have "to_send sample_wenv 1 0 ?M ?s" by (rule sample_to_send) simp_all
  then obtain frs s' where w: "dtls1_do_write sample_senv sample_wenv 22 ?s = Some (1, s')"
    "io s' = io ?s @ map (frag_rec 1 0 ?M) frs" "chain 0 frs (length ?M)"
    "\<forall>(off, l)\<in>set frs. l + DTLS1_HM_HEADER_LENGTH \<le> max_send_fragment ?s
         \<and> l + DTLS1_HM_HEADER_LENGTH + DTLS1_RT_HEADER_LENGTH
             + write_mac_size sample_wenv (write_crypto ?s) + write_blocksize sample_wenv (write_crypto ?s) \<le> mtu ?s"
    using dtls1_do_write_fragments [OF _ sample_sends sample_transcribes(1)] by blast
  have "\<forall>(off, l)\<in>set frs. l \<le> 2" using w(4) by (auto simp: sample_sender_def)
  with w(1-3) show ?thesis
    by (intro exI [of _ frs] exI [of _ s']) (simp add: sample_sender_def numeral_3_eq_3)
qed

theorem dtls_message_end_to_end_witness:
  "\<exists>rs s'. dtls1_do_write sample_senv sample_wenv tls3_RT_HANDSHAKE (sample_sender [5, 6, 7]) = Some (1, s') \<and> io s' = rs
    \<and> (mset [frag_rec 1 0 [5, 6, 7] (2, 1), frag_rec 1 0 [5, 6, 7] (0, 2)] = mset rs \<longrightarrow>
      (\<exists>r' d. dtls_get_message sample_renv
          (sample_dtls [frag_rec 1 0 [5, 6, 7] (2, 1), frag_rec 1 0 [5, 6, 7] (0, 2)]) = Some (True, 1, 3, r')
        \<and> b_data (init_buf r') = Some d \<and> seg d (init_msg r') 3 = [5, 6, 7]))"
proof -
  let ?rs = "[frag_rec 1 0 [5, 6, 7] (2, 1), frag_rec 1 0 [5, 6, 7] (0, 2)]"
  let ?M = "[5, 6, 7] :: bytes"
  have r: "handshake_read_seq (sample_dtls ?rs) = 0" "entry (sample_dtls ?rs) 0 = None"
    "length ?M \<le> dtls1_max_handshake_message_len (sample_dtls ?rs)"
    "version (core (sample_dtls ?rs)) \<noteq> DTLS1_BAD_VER" "server (core (sample_dtls ?rs))"
    "(\<lambda>(r, rs). if r = [] then rs else r # rs) (io (sample_dtls ?rs)) = ?rs @ []"
    by (simp_all add: sample_dtls_def sample_tls_def pqueue_lookup_def dtls1_max_handshake_message_len_def
        tls3_RT_MAX_ENCRYPTED_LENGTH_def)
  have nr: "\<not> retransmitting (sample_sender ?M)" "io (sample_sender ?M) = []"
    by (simp_all add: sample_sender_def)
  have s: "to_send sample_wenv 1 0 ?M (sample_sender ?M)" by (rule sample_to_send) simp_all
  obtain rs s' where w: "dtls1_do_write sample_senv sample_wenv 22 (sample_sender ?M) = Some (1, s')"
    "io s' = io (sample_sender ?M) @ rs"
    "\<forall>rs' later. mset rs' = mset rs
      \<longrightarrow> (\<lambda>(r, rs). if r = [] then rs else r # rs) (io (sample_dtls ?rs)) = rs' @ later \<longrightarrow>
      (\<exists>r' d t. dtls_get_message sample_renv (sample_dtls ?rs) = Some (True, uint (1 :: byte), length ?M, r')
          \<and> (\<lambda>(r, rs). if r = [] then rs else r # rs) (io r') = later
          \<and> b_data (init_buf r') = Some d \<and> seg d (init_msg r') (length ?M) = ?M
          \<and> handshake_dgst (core s') = handshake_dgst (core (sample_sender ?M)) @ t
          \<and> handshake_dgst (core r') = handshake_dgst (core (sample_dtls ?rs)) @ t)"
    using dtls_message_end_to_end [OF s sample_sends sample_transcribes(1) nr(1) sample_renv_ok(1,2)
        sample_transcribes(2) sample_renv_ok(3) sample_dtls_wf r(1-4) disjI1 [OF r(5)]] by blast
  show ?thesis
    using w(1,2) w(3) [rule_format, of ?rs "[]"] r(6) nr(2)
    by (intro exI [of _ rs] exI [of _ s']) (auto simp: numeral_3_eq_3)
qed

subsection \<open>A retry in the middle of a message\<close>











section \<open>Retransmission\<close>

text \<open>
  Messages are kept in the queue \<open>sent_messages\<close> with the keys that have their cipher state for
  the time they were sent. The epoch of the record layer is read and set through parameters.
\<close>

definition dtls1_get_queue_priority :: "u16 \<Rightarrow> nat \<Rightarrow> int" where
  "dtls1_get_queue_priority n ccs = int (unat n) * 2 - int ccs"

definition prio64be :: "int \<Rightarrow> bytes" where
  "prio64be p = replicate 6 0 @ [of_int (drop_bit 8 p), of_int p]"

definition dtls1_buffer_message ::
  "'io dtls_env \<Rightarrow> ('io \<Rightarrow> u16) \<Rightarrow> nat \<Rightarrow> 'io dtls_st \<Rightarrow> (bool \<times> 'io dtls_st) option" where
  "dtls1_buffer_message e w_epoch ccs s =
     (if init_off s \<noteq> 0 then Some (False, s)
      else case dtls1_hm_fragment_new (malloc e) (init_num (core s)) False of
        None \<Rightarrow> Some (False, s)
      | Some frag \<Rightarrow> do {
          d \<leftarrow> b_data (init_buf s);
          bs \<leftarrow> mem_read d 0 (init_num (core s));
          buf \<leftarrow> mem_write (fragment frag) 0 bs;
          let h = w_msg_hdr s;
          let hlen = (if ccs \<noteq> 0 then (if version (core s) = DTLS1_BAD_VER then 3 else DTLS1_CCS_HEADER_LENGTH)
                      else DTLS1_HM_HEADER_LENGTH);
          if msg_len h + hlen \<noteq> init_num (core s) mod 2 ^ 32 then Some (False, s)
          else
            (let mh = (msg_header frag)\<lparr>msg_len := msg_len h, seq := seq h, hm_type := hm_type h,
                   frag_off := 0, frag_len := msg_len h, is_ccs := ccs,
                   saved_retransmit_state := (write_crypto s)\<lparr>rs_epoch := w_epoch (io s)\<rparr>\<rparr> in
             case pitem_new (malloc e sizeof_pitem \<noteq> None)
                 (prio64be (dtls1_get_queue_priority (seq mh) (is_ccs mh)))
                 (frag\<lparr>fragment := buf, msg_header := mh\<rparr>) of
               None \<Rightarrow> Some (False, s)
             | Some item \<Rightarrow>
                 Some (True, s\<lparr>sent_messages := snd (pqueue_insert (sent_messages s) item)\<rparr>))
        })"

definition dtls1_retransmit_message ::
  "'io dtls_env \<Rightarrow> 'io dtls_wenv \<Rightarrow> ('io \<Rightarrow> u16) \<Rightarrow> (u16 \<Rightarrow> 'io \<Rightarrow> 'io) \<Rightarrow> u16 \<Rightarrow> 'io dtls_st
   \<Rightarrow> (int \<times> bool \<times> 'io dtls_st) option" where
  "dtls1_retransmit_message e w w_epoch set_epoch prio s =
     (case pqueue_find (sent_messages s) (seq64be prio) of
        None \<Rightarrow> Some (0, False, tlsfatal tls_AD_INTERNAL_ERROR ERR_R_INTERNAL_ERROR s)
      | Some item \<Rightarrow>
          (let frag = data item; h = msg_header frag;
               header_length = (if is_ccs h \<noteq> 0 then DTLS1_CCS_HEADER_LENGTH else DTLS1_HM_HEADER_LENGTH) in do {
             bs \<leftarrow> mem_read (fragment frag) 0 (msg_len h + header_length);
             s \<leftarrow> buf_store 0 bs s;
             let s = dtls1_set_message_header_int (hm_type h) (msg_len h) (seq h) 0 (frag_len h)
               (on_core (init_num_update (\<lambda>_. msg_len h + header_length)) s);
             let saved = (write_crypto s)\<lparr>rs_epoch := w_epoch (io s)\<rparr>;
             let s = s\<lparr>retransmitting := True, write_crypto := saved_retransmit_state h,
               io := set_epoch (rs_epoch (saved_retransmit_state h)) (io s)\<rparr>;
             (ret, s) \<leftarrow> dtls1_do_write e w
               (if is_ccs h \<noteq> 0 then tls3_RT_CHANGE_CIPHER_SPEC else tls3_RT_HANDSHAKE) s;
             let s = s\<lparr>write_crypto := saved, io := set_epoch (rs_epoch saved) (io s),
               retransmitting := False\<rparr>;
             Some (ret, True, s\<lparr>io := snd (bio_flush w (io s))\<rparr>)
           }))"

text \<open>The loop over the items; the queue itself does not change meanwhile.\<close>

fun retransmit_items ::
  "'io dtls_env \<Rightarrow> 'io dtls_wenv \<Rightarrow> ('io \<Rightarrow> u16) \<Rightarrow> (u16 \<Rightarrow> 'io \<Rightarrow> 'io) \<Rightarrow> hm_fragment pitem list
   \<Rightarrow> 'io dtls_st \<Rightarrow> (int \<times> 'io dtls_st) option" where
  "retransmit_items e w w_epoch set_epoch [] s = Some (1, s)"
| "retransmit_items e w w_epoch set_epoch (item # rest) s = do {
     (ret, found, s) \<leftarrow> dtls1_retransmit_message e w w_epoch set_epoch
       (of_int (dtls1_get_queue_priority (seq (msg_header (data item))) (is_ccs (msg_header (data item))))) s;
     (if ret \<le> 0 then Some (- 1, s) else retransmit_items e w w_epoch set_epoch rest s)
   }"

definition dtls1_retransmit_buffered_messages ::
  "'io dtls_env \<Rightarrow> 'io dtls_wenv \<Rightarrow> ('io \<Rightarrow> u16) \<Rightarrow> (u16 \<Rightarrow> 'io \<Rightarrow> 'io) \<Rightarrow> 'io dtls_st
   \<Rightarrow> (int \<times> 'io dtls_st) option" where
  "dtls1_retransmit_buffered_messages e w w_epoch set_epoch s =
     retransmit_items e w w_epoch set_epoch (pqueue_iterator (sent_messages s)) s"

lemma of_int_byte_mod: "unat (of_int p :: byte) = nat (p mod 256)"
  by (simp add: unat_eq_nat_uint uint_word_of_int)

lemma be_val_prio64be:
  "be_val (prio64be p) = nat ((p div 256) mod 256) * 256 + nat (p mod 256)"
proof -
  have "replicate 6 (0 :: byte) = [0, 0, 0, 0, 0, 0]"
    by (simp add: numeral_eq_Suc)
  then show ?thesis
    by (simp add: prio64be_def be_val_def of_int_byte_mod drop_bit_eq_div)
qed

lemma be_val_prio64be_small:
  assumes "0 \<le> p" and "p < 65536"
  shows "be_val (prio64be p) = nat p"
proof -
  have "p div 256 < 256" "0 \<le> p div 256" using assms by auto
  then have "(p div 256) mod 256 = p div 256" by simp
  then have "int (be_val (prio64be p)) = p div 256 * 256 + p mod 256"
    using \<open>0 \<le> p div 256\<close> by (simp add: be_val_prio64be)
  then show ?thesis by simp
qed

lemma prio_range:
  "x < 2 ^ 15 \<Longrightarrow> c \<le> 1 \<Longrightarrow> c = 1 \<longrightarrow> 0 < x \<Longrightarrow> 0 \<le> int x * 2 - int c \<and> int x * 2 - int c < 65536"
  for x c :: nat
  by (cases "c = 0") auto

lemma prio_compare:
  fixes x y c d :: nat
  assumes "x < 2 ^ 15" "y < 2 ^ 15" "c \<le> 1" "d \<le> 1" "c = 1 \<longrightarrow> 0 < x" "d = 1 \<longrightarrow> 0 < y"
  shows "nat (int x * 2 - int c) < nat (int y * 2 - int d) \<longleftrightarrow> x < y \<or> x = y \<and> d < c"
    and "nat (int x * 2 - int c) = nat (int y * 2 - int d) \<longleftrightarrow> x = y \<and> c = d"
proof -
  have cd: "c = 0 \<or> c = 1" "d = 0 \<or> d = 1" using assms by auto
  from cd assms(5,6) show "nat (int x * 2 - int c) < nat (int y * 2 - int d) \<longleftrightarrow> x < y \<or> x = y \<and> d < c"
    by (elim disjE) (simp_all, arith+)
  from cd assms(5,6) show "nat (int x * 2 - int c) = nat (int y * 2 - int d) \<longleftrightarrow> x = y \<and> c = d"
    by (elim disjE) (simp_all add: eq_nat_nat_iff, presburger+)
qed

text \<open>
  The queue key of a sent message. For message numbers below \<open>2 ^ 15\<close> the key orders the
  messages by number, a ChangeCipherSpec directly before the message that has its number, and no
  two messages share a key. From \<open>2 ^ 15\<close> on the key wraps around: message 32768 has the key of
  message 0.
\<close>

theorem queue_priority_order:
  assumes "unat m < 2 ^ 15" and "unat n < 2 ^ 15" and "c \<le> 1" and "d \<le> 1"
    and "c = 1 \<longrightarrow> 0 < unat m" and "d = 1 \<longrightarrow> 0 < unat n"
  shows "(be_val (prio64be (dtls1_get_queue_priority m c)) < be_val (prio64be (dtls1_get_queue_priority n d))
      \<longleftrightarrow> unat m < unat n \<or> unat m = unat n \<and> d < c)
    \<and> (prio64be (dtls1_get_queue_priority m c) = prio64be (dtls1_get_queue_priority n d) \<longleftrightarrow> m = n \<and> c = d)
    \<and> prio64be (dtls1_get_queue_priority (m + 2 ^ 15) c) = prio64be (dtls1_get_queue_priority m c)"
proof -
  let ?p = "dtls1_get_queue_priority m c" and ?q = "dtls1_get_queue_priority n d"
  have b: "0 \<le> ?p" "?p < 65536" "0 \<le> ?q" "?q < 65536"
    using prio_range [OF assms(1,3,5)] prio_range [OF assms(2,4,6)]
    unfolding dtls1_get_queue_priority_def by blast+
  have v: "be_val (prio64be ?p) = nat ?p" "be_val (prio64be ?q) = nat ?q"
    using be_val_prio64be_small b by blast+
  have less: "nat ?p < nat ?q \<longleftrightarrow> unat m < unat n \<or> unat m = unat n \<and> d < c"
    unfolding dtls1_get_queue_priority_def by (rule prio_compare(1) [OF assms])
  have "nat ?p = nat ?q \<longleftrightarrow> unat m = unat n \<and> c = d"
    unfolding dtls1_get_queue_priority_def by (rule prio_compare(2) [OF assms])
  moreover have "prio64be ?p = prio64be ?q \<longleftrightarrow> be_val (prio64be ?p) = be_val (prio64be ?q)"
    by (simp add: be_val_inject prio64be_def)
  ultimately have eq: "prio64be ?p = prio64be ?q \<longleftrightarrow> m = n \<and> c = d"
    by (simp add: v word_unat_eq_iff)
  have "unat (m + 2 ^ 15) = unat m + 2 ^ 15"
    using assms(1) by (subst unat_add_lem [THEN iffD1]) simp_all
  then have "dtls1_get_queue_priority (m + 2 ^ 15) c = ?p + 65536"
    by (simp add: dtls1_get_queue_priority_def)
  moreover have "prio64be (?p + 65536) = prio64be ?p"
  proof -
    have "(?p + 65536) div 256 = ?p div 256 + 256" "(?p + 65536) mod 256 = ?p mod 256"
      using mod_mult_self1 [of ?p 256 256] by simp_all
    then have "be_val (prio64be (?p + 65536)) = be_val (prio64be ?p)"
      by (simp add: be_val_prio64be)
    then show ?thesis by (simp add: be_val_inject prio64be_def)
  qed
  ultimately show ?thesis using less eq v by simp
qed

theorem queue_priority_order_witness:
  "be_val (prio64be (dtls1_get_queue_priority 4 1)) < be_val (prio64be (dtls1_get_queue_priority 4 0))
   \<and> prio64be (dtls1_get_queue_priority (4 + 2 ^ 15) 1) = prio64be (dtls1_get_queue_priority 4 1)"
  using queue_priority_order [of 4 4 1 0] by simp

lemma memcmp_self [simp]: "memcmp a a n = 0"
proof (induction n arbitrary: a)
  case (Suc n)
  then show ?case by (cases a) simp_all
qed simp

text \<open>
  A ChangeCipherSpec of the old protocol version \<open>DTLS1_BAD_VER\<close> has three bytes; it is buffered
  with all of them and retransmitted with its first byte only.
\<close>

definition bad_ver_sender :: "bytes list dtls_st" where
  "bad_ver_sender = (sample_sender [])\<lparr>core := (sample_tls DTLS1_BAD_VER True TLS_ST_BEFORE)\<lparr>init_num := 3\<rparr>,
     init_buf := \<lparr>b_length = 3, b_data = Some [1, 0, 1], b_max = 3, b_flags = 0\<rparr>,
     w_msg_hdr := hm_header_zero\<lparr>hm_type := 1, seq := 1\<rparr>\<rparr>"

theorem bad_ver_ccs_truncated:
  "\<exists>s1 s2. dtls1_buffer_message sample_senv (\<lambda>_. 0) 1 bad_ver_sender = Some (True, s1)
    \<and> dtls1_retransmit_buffered_messages sample_senv sample_wenv (\<lambda>_. 0) (\<lambda>_ st. st) s1 = Some (1, s2)
    \<and> map (fragment \<circ> data) (items (sent_messages s1)) = [[1, 0, 1]] \<and> io s2 = [[1]]"
  apply (simp add: dtls1_buffer_message_def bad_ver_sender_def sample_sender_def hm_header_zero_def
      sample_tls_def dtls1_hm_fragment_new_def sample_senv_def sample_alloc_def mem_read_def mem_write_def
      pitem_new_def prio64be_def dtls1_get_queue_priority_def pqueue_insert_def seg_def)
  apply (simp add: dtls1_retransmit_buffered_messages_def dtls1_retransmit_message_def pqueue_iterator_def
      pqueue_find_def seq64be_def dtls1_get_queue_priority_def mem_read_def seg_def buf_store_def mem_write_def
      dtls1_set_message_header_int_def on_core_def dtls1_do_write_def dtls1_query_mtu_def sample_wenv_def
      dtls1_min_mtu_def dtls1_link_min_mtu_def g_probable_mtu_def usub_def write_mac_size_def write_blocksize_def)
  apply (subst do_write_loop.simps, simp add: next_fragment_def room_for_fragment_def on_core_def mem_read_def seg_def)
  done

end
