(* ===== verification/Tls_Message.thy ===== *)
theory Tls_Message
  imports Dtls_Write
begin

text \<open>
  Handshake messages over TLS (\<open>ssl/statem/statem_lib.c\<close>, \<open>ssl/s3_lib.c\<close>): reading the header
  and the body of a message from a byte stream that arrives in pieces, and writing a message. The
  connection is the record \<open>dtls_st\<close>, which holds the message buffer of both protocols. The
  record layer is a parameter: \<open>read_bytes\<close> and \<open>tls3_write_bytes\<close> act on their own state, and
  what \<open>read_bytes\<close> stores at its pointer is the list it returns. A store or a load outside the
  message buffer has no result (None), and so has a loop that never ends.
\<close>

section \<open>Parameters and constants\<close>

record 'io tls_env =
  base :: "'io dtls_env"
  is_tlsv2_record :: "'io \<Rightarrow> bool"
  tls3_write_bytes :: "int \<Rightarrow> bytes \<Rightarrow> 'io \<Rightarrow> int \<times> nat \<times> 'io"

abbreviation (input) tls3_HM_HEADER_LENGTH :: nat where "tls3_HM_HEADER_LENGTH \<equiv> 4"
abbreviation (input) tls3_RANDOM_SIZE :: nat where "tls3_RANDOM_SIZE \<equiv> 32"
abbreviation (input) SERVER_HELLO_RANDOM_OFFSET :: nat where "SERVER_HELLO_RANDOM_OFFSET \<equiv> 4 + 2"
abbreviation (input) INT_MAX :: nat where "INT_MAX \<equiv> 0x7FFFFFFF"
abbreviation (input) tls_R_CCS_RECEIVED_EARLY :: int where "tls_R_CCS_RECEIVED_EARLY \<equiv> 133"

definition hrrrandom :: bytes where
  "hrrrandom = [0xcf, 0x21, 0xad, 0x74, 0xe5, 0x9a, 0x61, 0x11, 0xbe, 0x1d, 0x8c, 0x02,
    0x1e, 0x65, 0xb8, 0x91, 0xc2, 0xa2, 0x11, 0x16, 0x7a, 0xbb, 0x8c, 0x5e,
    0x07, 0x9e, 0x09, 0xe2, 0xc8, 0xa8, 0x33, 0x9c]"

text \<open>A load from the message buffer, and the cast of a \<open>size_t\<close> to \<open>int\<close> and back.\<close>

definition buf_load :: "nat \<Rightarrow> nat \<Rightarrow> 'io dtls_st \<Rightarrow> bytes option" where
  "buf_load i n s = Option.bind (b_data (init_buf s)) (\<lambda>d. mem_read d i n)"

definition int_cast :: "nat \<Rightarrow> nat" where
  "int_cast n = (let m = n mod 2 ^ 32 in if m < 2 ^ 31 then m else m + (2 ^ 64 - 2 ^ 32))"

section \<open>Writing\<close>

definition tls3_do_write :: "'io tls_env \<Rightarrow> int \<Rightarrow> 'io dtls_st \<Rightarrow> (int \<times> 'io dtls_st) option" where
  "tls3_do_write e ty s = do {
     bs \<leftarrow> buf_load (init_off s) (init_num (core s)) s;
     (case tls3_write_bytes e ty bs (io s) of (ret, written, st) \<Rightarrow>
        let s = s\<lparr>io := st\<rparr> in
        if ret < 0 then Some (- 1, s)
        else do {
          (ok, s) \<leftarrow>
            (if ty = tls3_RT_HANDSHAKE \<and> (\<not> tls_IS_TLS13 (core s)
                \<or> hs (core s) \<noteq> TLS_ST_SW_SESSION_TICKET \<and> hs (core s) \<noteq> TLS_ST_CW_KEY_UPDATE
                  \<and> hs (core s) \<noteq> TLS_ST_SW_KEY_UPDATE) then do {
               bs \<leftarrow> buf_load (init_off s) written s;
               (let (ok, c) = finish_mac (base e) bs (core s) in Some (ok, s\<lparr>core := c\<rparr>))
             } else Some (True, s));
          (if \<not> ok then Some (- 1, s)
           else if written = init_num (core s) then Some (1, s)
           else Some (0, on_core (init_num_update (\<lambda>n. usub n written))
             (s\<lparr>init_off := uadd (init_off s) written\<rparr>)))
        })
   }"

section \<open>Reading the header\<close>

text \<open>
  The inner loop of \<open>tls_get_message_header\<close> fills the header. \<open>Inl\<close> is a return from the
  function, with its result and the message type.
\<close>

partial_function (option) fill_header ::
  "'io tls_env \<Rightarrow> 'io dtls_st \<Rightarrow> ((bool \<times> int \<times> 'io dtls_st) + 'io dtls_st) option" where
  "fill_header e s =
     (if \<not> init_num (core s) < tls3_HM_HEADER_LENGTH then Some (Inr s)
      else case read_bytes (base e) (tls3_HM_HEADER_LENGTH - init_num (core s)) (io s) of (i, recvd_type, bs, st) \<Rightarrow>
        Option.bind (buf_store (init_num (core s)) bs (s\<lparr>io := st\<rparr>)) (\<lambda>s.
        if i \<le> 0 then Some (Inl (False, 0, on_core (rwstate_update (\<lambda>_. tls_READING)) s))
        else if recvd_type = tls3_RT_CHANGE_CIPHER_SPEC then
          Option.bind (if init_num (core s) \<noteq> 0 \<or> length bs \<noteq> 1 then Some True
                       else map_option (\<lambda>p. p \<noteq> [tls3_MT_CCS]) (buf_load 0 1 s)) (\<lambda>bad.
          if bad then
            Some (Inl (False, 0, tlsfatal tls3_AD_UNEXPECTED_MESSAGE tls_R_BAD_CHANGE_CIPHER_SPEC s))
          else if hs (core s) = TLS_ST_BEFORE \<and> s3_flags (core s) AND TLS1_FLAGS_STATELESS \<noteq> 0 then
            Some (Inl (False, 0, s))
          else Some (Inl (True, tls3_MT_CHANGE_CIPHER_SPEC, on_core (init_num_update (\<lambda>_. length bs - 1))
            (s\<lparr>message_type := tls3_MT_CHANGE_CIPHER_SPEC, init_msg := 0, message_size := length bs\<rparr>))))
        else if recvd_type \<noteq> tls3_RT_HANDSHAKE then
          Some (Inl (False, 0, tlsfatal tls3_AD_UNEXPECTED_MESSAGE tls_R_CCS_RECEIVED_EARLY s))
        else fill_header e (on_core (init_num_update (\<lambda>n. n + length bs)) s)))"

declare fill_header.simps [code]

text \<open>A client in the middle of a handshake skips empty HelloRequest messages.\<close>

definition skip_message :: "'io dtls_st \<Rightarrow> bool option" where
  "skip_message s =
     (if \<not> server (core s) \<and> hs (core s) \<noteq> TLS_ST_OK
      then map_option (\<lambda>p. p = [0, 0, 0, 0]) (buf_load 0 tls3_HM_HEADER_LENGTH s)
      else Some False)"

partial_function (option) header_loop ::
  "'io tls_env \<Rightarrow> 'io dtls_st \<Rightarrow> ((bool \<times> int \<times> 'io dtls_st) + 'io dtls_st) option" where
  "header_loop e s =
     Option.bind (fill_header e s) (\<lambda>r. case r of
       Inl x \<Rightarrow> Some (Inl x)
     | Inr s \<Rightarrow> Option.bind (skip_message s) (\<lambda>skip.
         if skip then header_loop e (on_core (init_num_update (\<lambda>_. 0)) s) else Some (Inr s)))"

declare header_loop.simps [code]

definition tls_get_message_header ::
  "'io tls_env \<Rightarrow> 'io dtls_st \<Rightarrow> (bool \<times> int \<times> 'io dtls_st) option" where
  "tls_get_message_header e s = do {
     r \<leftarrow> header_loop e s;
     (case r of
        Inl x \<Rightarrow> Some x
      | Inr s \<Rightarrow> do {
          p \<leftarrow> buf_load 0 tls3_HM_HEADER_LENGTH s;
          let mt = uint (p ! 0);
          let s = s\<lparr>message_type := mt\<rparr>;
          if is_tlsv2_record e (io s) then
            (let l = uadd (rrec_length (base e) (io s)) tls3_HM_HEADER_LENGTH in
             Some (True, mt, on_core (init_num_update (\<lambda>_. tls3_HM_HEADER_LENGTH))
               (s\<lparr>message_size := l, init_msg := 0\<rparr>)))
          else
            (let l = n2l3 (drop 1 p) in
             if l > INT_MAX - tls3_HM_HEADER_LENGTH
             then Some (False, mt, tlsfatal tls_AD_ILLEGAL_PARAMETER tls_R_EXCESSIVE_MESSAGE_SIZE s)
             else Some (True, mt, on_core (init_num_update (\<lambda>_. 0))
               (s\<lparr>message_size := l, init_msg := tls3_HM_HEADER_LENGTH\<rparr>)))
        })
   }"

section \<open>Reading the body\<close>

definition grow_init_buf :: "'io tls_env \<Rightarrow> nat \<Rightarrow> 'io dtls_st \<Rightarrow> (bool \<times> 'io dtls_st) option" where
  "grow_init_buf e sz s = do {
     let msg_offset = init_msg s;
     (r, buf) \<leftarrow> BUF_MEM_grow_clean (malloc (base e)) (sec_malloc (base e)) (init_buf s) (int_cast sz);
     let s = s\<lparr>init_buf := buf\<rparr>;
     (if r = 0 then Some (False, s)
      else if sz < msg_offset then Some (False, s)
      else Some (True, s\<lparr>init_msg := msg_offset\<rparr>))
   }"

partial_function (option) body_loop :: "'io tls_env \<Rightarrow> nat \<Rightarrow> 'io dtls_st \<Rightarrow> (bool \<times> 'io dtls_st) option" where
  "body_loop e n s =
     (if n = 0 then Some (True, s)
      else case read_bytes (base e) n (io s) of (i, _, bs, st) \<Rightarrow>
        Option.bind (buf_store (init_msg s + init_num (core s)) bs (s\<lparr>io := st\<rparr>)) (\<lambda>s.
        if i \<le> 0 then Some (False, on_core (rwstate_update (\<lambda>_. tls_READING)) s)
        else body_loop e (usub n (length bs)) (on_core (init_num_update (\<lambda>k. k + length bs)) s)))"

declare body_loop.simps [code]

text \<open>Whether the message goes into the transcript now: a HelloRetryRequest is added later.\<close>

definition defers_transcript :: "'io dtls_st \<Rightarrow> bool option" where
  "defers_transcript s =
     (if tls_IS_TLS13 (core s) \<and> (message_type s = tls3_MT_NEWSESSION_TICKET \<or> message_type s = tls3_MT_KEY_UPDATE)
      then Some True
      else if message_type s \<noteq> tls3_MT_SERVER_HELLO
           \<or> init_num (core s) < SERVER_HELLO_RANDOM_OFFSET + tls3_RANDOM_SIZE then Some False
      else map_option (\<lambda>p. p = hrrrandom) (buf_load SERVER_HELLO_RANDOM_OFFSET tls3_RANDOM_SIZE s))"

definition add_to_mac :: "'io tls_env \<Rightarrow> nat \<Rightarrow> 'io dtls_st \<Rightarrow> (bool \<times> 'io dtls_st) option" where
  "add_to_mac e n s = do {
     bs \<leftarrow> buf_load 0 n s;
     (let (ok, c) = finish_mac (base e) bs (core s) in Some (ok, s\<lparr>core := c\<rparr>))
   }"

definition tls_get_message_body :: "'io tls_env \<Rightarrow> 'io dtls_st \<Rightarrow> (bool \<times> nat \<times> 'io dtls_st) option" where
  "tls_get_message_body e s =
     (if message_type s = tls3_MT_CHANGE_CIPHER_SPEC then Some (True, init_num (core s), s)
      else do {
        (ok, s) \<leftarrow> body_loop e (usub (message_size s) (init_num (core s))) s;
        (if \<not> ok then Some (False, 0, s)
         else do {
           p \<leftarrow> buf_load 0 1 s;
           let (ok, c) = (if uint (p ! 0) = tls3_MT_FINISHED then take_mac (base e) (core s) else (True, core s));
           let s = s\<lparr>core := c\<rparr>;
           if \<not> ok then Some (False, 0, s)
           else do {
             (ok, s) \<leftarrow>
               (if is_tlsv2_record e (io s) then add_to_mac e (init_num (core s)) s
                else do {
                  deferred \<leftarrow> defers_transcript s;
                  (if deferred then Some (True, s)
                   else add_to_mac e (init_num (core s) + tls3_HM_HEADER_LENGTH) s)
                });
             (if \<not> ok then Some (False, 0, s) else Some (True, init_num (core s), s))
           }
         })
      })"

section \<open>Messages on a stream\<close>

text \<open>
  A TLS record layer delivers the handshake bytes of the peer in pieces of any size, and may report
  at any time that nothing is there yet.
\<close>

definition streams :: "'io tls_env \<Rightarrow> ('io \<Rightarrow> bytes) \<Rightarrow> bool" where
  "streams e stream \<longleftrightarrow> (\<forall>k st. 0 < k \<longrightarrow> (case read_bytes (base e) k st of (i, ty, bs, st') \<Rightarrow>
      stream st = bs @ stream st' \<and> length bs \<le> k \<and> (0 < i \<longleftrightarrow> bs \<noteq> []) \<and> (0 < i \<longrightarrow> ty = tls3_RT_HANDSHAKE)))
    \<and> (\<forall>st. \<not> is_tlsv2_record e st)"

lemma streamsE:
  assumes "streams e stream" and "0 < k" and "read_bytes (base e) k st = (i, ty, bs, st')"
  shows "stream st = bs @ stream st'" and "length bs \<le> k" and "0 < i \<longleftrightarrow> bs \<noteq> []"
    and "0 < i \<Longrightarrow> ty = tls3_RT_HANDSHAKE"
proof -
  have "case read_bytes (base e) k st of (i, ty, bs, st') \<Rightarrow>
      stream st = bs @ stream st' \<and> length bs \<le> k \<and> (0 < i \<longleftrightarrow> bs \<noteq> []) \<and> (0 < i \<longrightarrow> ty = tls3_RT_HANDSHAKE)"
    by (rule assms(1) [unfolded streams_def, THEN conjunct1, rule_format, OF assms(2)])
  then show "stream st = bs @ stream st'" "length bs \<le> k" "0 < i \<longleftrightarrow> bs \<noteq> []"
    "0 < i \<Longrightarrow> ty = tls3_RT_HANDSHAKE"
    using assms(3) by simp_all
qed

text \<open>A record layer that has something to deliver whenever the peer has sent something.\<close>

definition prompt :: "'io tls_env \<Rightarrow> ('io \<Rightarrow> bytes) \<Rightarrow> bool" where
  "prompt e stream \<longleftrightarrow> (\<forall>k st. 0 < k \<longrightarrow> stream st \<noteq> [] \<longrightarrow> 0 < fst (read_bytes (base e) k st))"

lemma promptD: "prompt e stream \<Longrightarrow> 0 < k \<Longrightarrow> stream st \<noteq> [] \<Longrightarrow> read_bytes (base e) k st = (i, ty, bs, st') \<Longrightarrow> 0 < i"
  unfolding prompt_def by (metis fst_conv)

text \<open>The message buffer: allocated, with room for a header.\<close>

definition msg_wf :: "'io dtls_st \<Rightarrow> bool" where
  "msg_wf s \<longleftrightarrow> buf_ok (init_buf s) \<and> tls3_HM_HEADER_LENGTH \<le> b_length (init_buf s)"

lemma msg_wfE:
  assumes "msg_wf s"
  obtains d where "b_data (init_buf s) = Some d" and "length d = b_max (init_buf s)"
    and "b_length (init_buf s) \<le> length d" and "4 \<le> length d"
  using assms by (auto simp: msg_wf_def buf_ok_def split: option.splits)

text \<open>What a read changes: the buffer contents, the record layer, \<open>init_num\<close> and \<open>rwstate\<close>.\<close>

definition moved :: "'io dtls_st \<Rightarrow> 'io dtls_st \<Rightarrow> bool" where
  "moved s s' \<longleftrightarrow> (\<exists>d st n rw. s' = s\<lparr>init_buf := (init_buf s)\<lparr>b_data := Some d\<rparr>, io := st,
     core := (core s)\<lparr>init_num := n, rwstate := rw\<rparr>\<rparr>)"

lemma movedI:
  "s' = s\<lparr>init_buf := (init_buf s)\<lparr>b_data := Some d\<rparr>, io := st, core := (core s)\<lparr>init_num := n, rwstate := rw\<rparr>\<rparr>
   \<Longrightarrow> moved s s'"
  unfolding moved_def by blast

lemma moved_trans: "moved s s1 \<Longrightarrow> moved s1 s2 \<Longrightarrow> moved s s2"
  unfolding moved_def by (elim exE) (simp, blast)

lemma moved_refl: "msg_wf s \<Longrightarrow> moved s s"
proof -
  assume "msg_wf s"
  then obtain d where "b_data (init_buf s) = Some d" by (rule msg_wfE)
  then have "s = s\<lparr>init_buf := (init_buf s)\<lparr>b_data := Some d\<rparr>, io := io s,
      core := (core s)\<lparr>init_num := init_num (core s), rwstate := rwstate (core s)\<rparr>\<rparr>"
    by (cases s, cases "init_buf s", cases "core s") simp
  then show ?thesis by (rule movedI)
qed

text \<open>The bytes of the message that have been stored so far, followed by the bytes to come.\<close>

definition pending :: "('io \<Rightarrow> bytes) \<Rightarrow> nat \<Rightarrow> 'io dtls_st \<Rightarrow> bytes" where
  "pending stream k s = (case b_data (init_buf s) of None \<Rightarrow> [] | Some d \<Rightarrow> take k d @ stream (io s))"

lemma pending_more:
  assumes "pending stream k s = B" and "k < length B"
  shows "stream (io s) \<noteq> []"
  using assms by (auto simp: pending_def split: option.splits)

text \<open>One read into the buffer keeps the pending bytes.\<close>

lemma stored_pending:
  assumes "msg_wf s" and "k + length bs \<le> b_max (init_buf s)" and "stream (io s) = bs @ stream st"
  obtains d where "buf_store k bs (s\<lparr>io := st\<rparr>) = Some (s\<lparr>io := st, init_buf := (init_buf s)\<lparr>b_data := Some d\<rparr>\<rparr>)"
    and "length d = b_max (init_buf s)" and "take (k + length bs) d @ stream st = pending stream k s"
    and "take k d = take k (the (b_data (init_buf s)))"
proof -
  obtain d0 where d0: "b_data (init_buf s) = Some d0" "length d0 = b_max (init_buf s)"
    using assms(1) by (rule msg_wfE)
  obtain d where d: "mem_write d0 k bs = Some d"
    using mem_write_total [of k bs d0] assms(2) d0(2) by auto
  have "take (k + length bs) d = take k d0 @ bs"
    using d assms(2) d0(2) by (auto simp: mem_write_def split: if_splits)
  with d0 d assms(3) show thesis
    by (intro that [of d]) (simp_all add: buf_store_some pending_def length_mem_write take_mem_write)
qed

lemma msg_wf_upd [simp]:
  "msg_wf s \<Longrightarrow> length d = b_max (init_buf s)
   \<Longrightarrow> msg_wf (s\<lparr>io := st, init_buf := (init_buf s)\<lparr>b_data := Some d\<rparr>\<rparr>)"
  "msg_wf (s\<lparr>core := c\<rparr>) = msg_wf s"
  by (simp_all add: msg_wf_def buf_ok_def)

subsection \<open>The header\<close>

definition filling :: "('io \<Rightarrow> bytes) \<Rightarrow> bytes \<Rightarrow> 'io dtls_st \<Rightarrow> bool" where
  "filling stream B s \<longleftrightarrow> msg_wf s \<and> init_num (core s) \<le> 4 \<and> pending stream (init_num (core s)) s = B"

lemma fill_header_streams:
  assumes "streams e stream" and "filling stream B s"
  shows "\<exists>s'. (fill_header e s = Some (Inl (False, 0, s')) \<and> init_num (core s') < 4
      \<or> fill_header e s = Some (Inr s') \<and> init_num (core s') = 4) \<and> filling stream B s' \<and> moved s s'
    \<and> (prompt e stream \<longrightarrow> 4 \<le> length B \<longrightarrow> init_num (core s') = 4)"
  using assms(2)
proof (induction "4 - init_num (core s)" arbitrary: s rule: less_induct)
  case less
  note f = less.prems [unfolded filling_def]
  show ?case
  proof (cases "init_num (core s) = 4")
    case True
    with less.prems f show ?thesis
      by (intro exI [of _ s]) (simp add: moved_refl fill_header.simps)
  next
    case False
    let ?k = "init_num (core s)"
    have k: "?k < 4" "0 < 4 - ?k" using False f by simp_all
    obtain i ty bs st where r: "read_bytes (base e) (4 - ?k) (io s) = (i, ty, bs, st)"
      by (cases "read_bytes (base e) (4 - ?k) (io s)")
    note r' = streamsE [OF assms(1) k(2) r]
    have "?k + length bs \<le> b_max (init_buf s)"
      using r'(2) k(1) f by (auto simp: msg_wf_def buf_ok_def)
    then obtain d where d: "buf_store ?k bs (s\<lparr>io := st\<rparr>) = Some (s\<lparr>io := st, init_buf := (init_buf s)\<lparr>b_data := Some d\<rparr>\<rparr>)"
      "length d = b_max (init_buf s)" "take (?k + length bs) d @ stream st = B"
      using f stored_pending [of s ?k bs stream st] r'(1) by blast
    let ?s = "s\<lparr>io := st, init_buf := (init_buf s)\<lparr>b_data := Some d\<rparr>\<rparr>"
    show ?thesis
    proof (cases "0 < i")
      case False
      let ?s' = "on_core (rwstate_update (\<lambda>_. tls_READING)) ?s"
      have "fill_header e s = Some (Inl (False, 0, ?s'))"
        using False r d(1) k(1) by (subst fill_header.simps) simp
      moreover have "filling stream B ?s'"
        using f d r'(3) False k(1) by (simp add: filling_def on_core_def pending_def)
      moreover have "moved s ?s'"
        by (rule movedI [where d = d and st = st and n = ?k and rw = tls_READING]) (simp add: on_core_def)
      moreover have "init_num (core ?s') < 4" using k(1) by (simp add: on_core_def)
      moreover have "\<not> (prompt e stream \<and> 4 \<le> length B)"
        using promptD [OF _ k(2) _ r, of stream] pending_more [of stream ?k s B] f k(1) False by auto
      ultimately show ?thesis by blast
    next
      case True
      let ?s' = "on_core (init_num_update (\<lambda>n. n + length bs)) ?s"
      have eq: "fill_header e s = fill_header e ?s'"
        using True r r'(4) d(1) k(1) by (subst fill_header.simps) simp
      have "filling stream B ?s'"
        using f d r'(2) k(1) by (simp add: filling_def on_core_def pending_def)
      moreover have "4 - init_num (core ?s') < 4 - ?k" using r'(3) True k(1) by (cases bs) (simp_all add: on_core_def)
      moreover have "moved s ?s'"
        by (rule movedI [where d = d and st = st and n = "?k + length bs" and rw = "rwstate (core s)"]) (simp add: on_core_def)
      ultimately show ?thesis
        using less.hyps [of ?s'] eq moved_trans [of s ?s'] by metis
    qed
  qed
qed

text \<open>The header of a message on the wire.\<close>

definition wire_hdr :: "byte \<Rightarrow> bytes \<Rightarrow> bytes" where
  "wire_hdr mt M = mt # l2n3 (length M)"

lemma length_wire_hdr [simp]: "length (wire_hdr mt M) = 4"
  by (simp add: wire_hdr_def l2n3_def)

lemma n2l3_wire_hdr: "length M < 2 ^ 24 \<Longrightarrow> n2l3 (drop 1 (wire_hdr mt M)) = length M"
  using n2l3_l2n3 [of "length M" "[]"] by (simp add: wire_hdr_def)

definition skipped :: "byte \<Rightarrow> bytes \<Rightarrow> 'io dtls_st \<Rightarrow> bool" where
  "skipped mt M s \<longleftrightarrow> \<not> server (core s) \<and> hs (core s) \<noteq> TLS_ST_OK \<and> mt = 0 \<and> M = []"

definition at_header :: "('io \<Rightarrow> bytes) \<Rightarrow> byte \<Rightarrow> bytes \<Rightarrow> bytes \<Rightarrow> 'io dtls_st \<Rightarrow> bool" where
  "at_header stream mt M later s \<longleftrightarrow> length M < 2 ^ 24 \<and> \<not> skipped mt M s
     \<and> init_num (core s) < 4 \<and> filling stream (wire_hdr mt M @ M @ later) s"

definition at_body :: "('io \<Rightarrow> bytes) \<Rightarrow> byte \<Rightarrow> bytes \<Rightarrow> bytes \<Rightarrow> 'io dtls_st \<Rightarrow> bool" where
  "at_body stream mt M later s \<longleftrightarrow> length M < 2 ^ 24 \<and> msg_wf s \<and> init_num (core s) \<le> length M
     \<and> init_msg s = 4 \<and> message_type s = uint mt \<and> message_size s = length M
     \<and> pending stream (4 + init_num (core s)) s = wire_hdr mt M @ M @ later"

lemma moved_core [simp]:
  assumes "moved s s'"
  shows "server (core s') = server (core s)" "hs (core s') = hs (core s)"
    "skipped mt M s' = skipped mt M s"
  using assms by (auto simp: moved_def skipped_def)

lemma l2n3_zero: "length M < 2 ^ 24 \<Longrightarrow> l2n3 (length M) = [0, 0, 0] \<longleftrightarrow> M = []"
proof
  assume "length M < 2 ^ 24" and "l2n3 (length M) = [0, 0, 0]"
  then have "length M = n2l3 [0, 0, 0]" using n2l3_l2n3 [of "length M" "[]"] by simp
  then show "M = []" by (simp add: n2l3_be be_val_def)
qed (simp add: l2n3_def)

lemma get_header_streams:
  assumes "streams e stream" and "at_header stream mt M later s"
  shows "\<exists>ok x s1 s'. tls_get_message_header e s = Some (ok, x, s') \<and> moved s s1
    \<and> (prompt e stream \<longrightarrow> ok) \<and> (if ok then x = uint mt \<and> at_body stream mt M later s' \<and> init_num (core s') = 0
         \<and> s' = on_core (init_num_update (\<lambda>_. 0)) (s1\<lparr>message_type := uint mt, message_size := length M, init_msg := 4\<rparr>)
       else at_header stream mt M later s' \<and> s' = s1)"
proof -
  let ?B = "wire_hdr mt M @ M @ later"
  have M: "length M < 2 ^ 24" and sk: "\<not> skipped mt M s" and f: "filling stream ?B s"
    using assms(2) by (simp_all add: at_header_def)
  obtain s1 where s1: "fill_header e s = Some (Inl (False, 0, s1)) \<and> init_num (core s1) < 4
      \<or> fill_header e s = Some (Inr s1) \<and> init_num (core s1) = 4" "filling stream ?B s1" "moved s s1" "prompt e stream \<longrightarrow> init_num (core s1) = 4"
    using fill_header_streams [OF assms(1) f] by auto
  show ?thesis
  proof (cases "init_num (core s1) = 4")
    case False
    then have "tls_get_message_header e s = Some (False, 0, s1)"
      using s1(1) by (simp add: tls_get_message_header_def header_loop.simps)
    with False s1 sk M show ?thesis
      by (intro exI [of _ False] exI [of _ 0] exI [of _ s1]) (auto simp: at_header_def)
  next
    case True
    obtain d where d: "b_data (init_buf s1) = Some d" "4 \<le> length d"
      using s1(2) by (auto simp: filling_def elim: msg_wfE)
    have "take 4 d @ stream (io s1) = ?B"
      using s1(2) True d(1) by (simp add: filling_def pending_def)
    then have t: "take 4 d = wire_hdr mt M" "stream (io s1) = M @ later"
      using d(2) by (simp_all add: append_eq_append_conv)
    have load: "buf_load 0 4 s1 = Some (wire_hdr mt M)"
      using d t(1) by (simp add: buf_load_def mem_read_def)
    have "skip_message s1 = Some False"
      using load sk s1(3) M by (auto simp: skip_message_def skipped_def wire_hdr_def l2n3_zero)
    then have loop: "header_loop e s = Some (Inr s1)"
      using s1(1) True by (subst header_loop.simps) auto
    let ?s' = "on_core (init_num_update (\<lambda>_. 0)) (s1\<lparr>message_type := uint mt, message_size := length M, init_msg := 4\<rparr>)"
    have "tls_get_message_header e s = Some (True, uint mt, ?s')"
      using assms(1) M n2l3_wire_hdr [OF M, of mt]
      by (simp add: tls_get_message_header_def loop load streams_def Let_def)
        (simp add: wire_hdr_def on_core_def)
    moreover have "at_body stream mt M later ?s'"
      using M s1(2) d t by (simp add: at_body_def filling_def msg_wf_def pending_def on_core_def)
    ultimately show ?thesis
      using s1(3) by (intro exI [of _ True] exI [of _ "uint mt"] exI [of _ s1] exI [of _ ?s'])
        (simp add: on_core_def)
  qed
qed

subsection \<open>The body\<close>

definition roomy :: "bytes \<Rightarrow> 'io dtls_st \<Rightarrow> bool" where
  "roomy M s \<longleftrightarrow> 4 + length M \<le> b_max (init_buf s)"

lemma int_cast_small: "n < 2 ^ 31 \<Longrightarrow> int_cast n = n"
  by (simp add: int_cast_def Let_def)

lemma grow_init_buf_streams:
  assumes "env_total (base e)" and "at_body stream mt M later s" and "init_num (core s) = 0"
  obtains buf where "grow_init_buf e (length M + 4) s = Some (True, s\<lparr>init_buf := buf\<rparr>)"
    and "at_body stream mt M later (s\<lparr>init_buf := buf\<rparr>)" and "roomy M (s\<lparr>init_buf := buf\<rparr>)"
proof -
  let ?len = "length M + 4" and ?a = "malloc (base e)" and ?b = "sec_malloc (base e)"
  have ab: "length M < 2 ^ 24" "msg_wf s" "init_msg s = 4" "pending stream 4 s = wire_hdr mt M @ M @ later"
    using assms(2,3) by (simp_all add: at_body_def)
  have c: "int_cast ?len = ?len" using ab(1) by (intro int_cast_small) simp
  obtain r buf where g: "BUF_MEM_grow_clean ?a ?b (init_buf s) ?len = Some (r, buf)" "buf_ok buf"
    "r = 0 \<and> ?len \<noteq> 0 \<and> buf = init_buf s \<or> r = ?len \<and> contents buf = resized (contents (init_buf s)) ?len"
    using grow_clean_spec [of ?a ?b "init_buf s" ?len] assms(1) ab(2)
    by (auto simp: env_total_def env_safe_def msg_wf_def)
  have "?len \<le> LIMIT_BEFORE_EXPANSION" using ab(1) by (simp add: LIMIT_BEFORE_EXPANSION_def)
  then have r: "r = ?len"
    using grow_clean_succeeds [OF _ _ _ g(1)] assms(1) by (simp add: env_total_def)
  then have con: "contents buf = resized (contents (init_buf s)) ?len" using g(3) by simp
  obtain d where d: "b_data (init_buf s) = Some d" "b_length (init_buf s) \<le> length d"
    using ab(2) by (rule msg_wfE)
  moreover have "4 \<le> b_length (init_buf s)" using ab(2) by (simp add: msg_wf_def)
  ultimately have len: "length (contents buf) = ?len" and t: "take 4 (contents buf) = take 4 d"
    using con by (simp_all add: contents_def resized_def)
  then obtain d' where d': "b_data buf = Some d'" "b_length buf = ?len" "length d' = b_max buf" "?len \<le> length d'"
    using g(2) by (auto simp: contents_def buf_ok_def split: option.splits)
  then have t': "take 4 d' = take 4 d" using t by (simp add: contents_def)
  let ?s = "s\<lparr>init_buf := buf\<rparr>"
  have "msg_wf ?s" using g(2) d'(2) by (simp add: msg_wf_def)
  moreover have "pending stream 4 ?s = pending stream 4 s" using t' d(1) d'(1) by (simp add: pending_def)
  ultimately have "at_body stream mt M later ?s"
    using assms(2,3) by (simp add: at_body_def)
  moreover have "roomy M ?s" using d'(3,4) by (simp add: roomy_def)
  moreover have "grow_init_buf e ?len s = Some (True, ?s)"
    using g(1) r ab(3) by (simp add: grow_init_buf_def c)
  ultimately show thesis by (intro that)
qed

lemma body_loop_streams:
  assumes "streams e stream" and "at_body stream mt M later s" and "roomy M s"
  shows "\<exists>ok s'. body_loop e (length M - init_num (core s)) s = Some (ok, s') \<and> moved s s' \<and> roomy M s'
    \<and> at_body stream mt M later s' \<and> (ok \<longrightarrow> init_num (core s') = length M) \<and> (prompt e stream \<longrightarrow> ok)"
  using assms(2,3)
proof (induction "length M - init_num (core s)" arbitrary: s rule: less_induct)
  case less
  let ?k = "init_num (core s)"
  have b: "length M < 2 ^ 24" "msg_wf s" "?k \<le> length M" "init_msg s = 4"
    "pending stream (4 + ?k) s = wire_hdr mt M @ M @ later"
    using less.prems(1) by (simp_all add: at_body_def)
  show ?case
  proof (cases "?k = length M")
    case True
    with less.prems b(2) show ?thesis
      by (intro exI [of _ True] exI [of _ s]) (simp add: moved_refl body_loop.simps)
  next
    case False
    let ?n = "length M - ?k"
    have n: "0 < ?n" using False b(3) by simp
    obtain i ty bs st where r: "read_bytes (base e) ?n (io s) = (i, ty, bs, st)"
      by (cases "read_bytes (base e) ?n (io s)")
    note r' = streamsE [OF assms(1) n r]
    have "4 + ?k + length bs \<le> b_max (init_buf s)"
      using r'(2) less.prems(2) b(3) by (simp add: roomy_def)
    then obtain d where d: "buf_store (4 + ?k) bs (s\<lparr>io := st\<rparr>) = Some (s\<lparr>io := st, init_buf := (init_buf s)\<lparr>b_data := Some d\<rparr>\<rparr>)"
      "length d = b_max (init_buf s)" "take (4 + ?k + length bs) d @ stream st = wire_hdr mt M @ M @ later"
      using b(2,5) stored_pending [of s "4 + ?k" bs stream st] r'(1) by metis
    let ?s = "s\<lparr>io := st, init_buf := (init_buf s)\<lparr>b_data := Some d\<rparr>\<rparr>"
    show ?thesis
    proof (cases "0 < i")
      case False
      let ?s' = "on_core (rwstate_update (\<lambda>_. tls_READING)) ?s"
      have "body_loop e ?n s = Some (False, ?s')"
        using False r d(1) n b(4) by (subst body_loop.simps) simp
      moreover have "at_body stream mt M later ?s'" "roomy M ?s'"
        using less.prems d b r'(3) False by (simp_all add: at_body_def roomy_def on_core_def pending_def)
      moreover have "moved s ?s'"
        by (rule movedI [where d = d and st = st and n = ?k and rw = tls_READING]) (simp add: on_core_def)
      moreover have "\<not> prompt e stream"
        using promptD [OF _ n _ r, of stream] pending_more [OF b(5)] n False by auto
      ultimately show ?thesis by blast
    next
      case True
      let ?s' = "on_core (init_num_update (\<lambda>n. n + length bs)) ?s"
      have u: "usub ?n (length bs) = length M - init_num (core ?s')"
        using r'(2) b(1) by (simp add: on_core_def usub_eq SIZE_MAX_def)
      have eq: "body_loop e ?n s = body_loop e (length M - init_num (core ?s')) ?s'"
        unfolding u [symmetric] using True r d(1) n b(4) by (subst body_loop.simps) simp
      have "at_body stream mt M later ?s'" "roomy M ?s'"
        using less.prems d b r'(2) by (simp_all add: at_body_def roomy_def on_core_def pending_def add.assoc)
      moreover have "length M - init_num (core ?s') < ?n"
        using r'(3) True n by (cases bs) (simp_all add: on_core_def)
      moreover have "moved s ?s'"
        by (rule movedI [where d = d and st = st and n = "?k + length bs" and rw = "rwstate (core s)"]) (simp add: on_core_def)
      ultimately show ?thesis
        using less.hyps [of ?s'] eq moved_trans [of s ?s'] by metis
    qed
  qed
qed

text \<open>\<open>tls3_take_mac\<close> computes the MAC for a Finished message and stores it with its length.\<close>

definition stores_mac :: "'io tls_env \<Rightarrow> bool" where
  "stores_mac e \<longleftrightarrow> (\<forall>c. \<exists>n. take_mac (base e) c = (True, c\<lparr>peer_finish_md_len := n\<rparr>))"

definition deferred :: "tls \<Rightarrow> byte \<Rightarrow> bytes \<Rightarrow> bool" where
  "deferred c mt M \<longleftrightarrow>
     tls_IS_TLS13 c \<and> (uint mt = tls3_MT_NEWSESSION_TICKET \<or> uint mt = tls3_MT_KEY_UPDATE)
     \<or> uint mt = tls3_MT_SERVER_HELLO \<and> 38 \<le> length M \<and> seg M 2 32 = hrrrandom"

definition transcript :: "tls \<Rightarrow> byte \<Rightarrow> bytes \<Rightarrow> bytes" where
  "transcript c mt M = (if deferred c mt M then [] else wire_hdr mt M @ M)"

lemma is_tls13_upd [simp]:
  "tls_IS_TLS13 (c\<lparr>init_num := n\<rparr>) = tls_IS_TLS13 c" "tls_IS_TLS13 (c\<lparr>rwstate := rw\<rparr>) = tls_IS_TLS13 c"
  "tls_IS_TLS13 (c\<lparr>peer_finish_md_len := l\<rparr>) = tls_IS_TLS13 c"
  by (simp_all add: tls_IS_TLS13_def tls_IS_DTLS_def)

lemma defers_transcript_eq:
  assumes "b_data (init_buf s) = Some d" and "take (4 + length M) d = wire_hdr mt M @ M" and "4 + length M \<le> length d"
    and "message_type s = uint mt" and "init_num (core s) = length M"
  shows "defers_transcript s = Some (deferred (core s) mt M)"
proof -
  have "seg d 6 32 = seg M 2 32" if "38 \<le> length M"
  proof -
    have "seg d 6 32 = seg (take (4 + length M) d) 6 32"
      using that by (simp add: seg_def drop_take min_def)
    also have "\<dots> = seg M 2 32" unfolding assms(2) by (simp add: seg_def)
    finally show ?thesis .
  qed
  with assms show ?thesis
    by (auto simp: defers_transcript_def deferred_def buf_load_def mem_read_def)
qed

definition tls_delivered :: "byte \<Rightarrow> bytes \<Rightarrow> 'io dtls_st \<Rightarrow> bool" where
  "tls_delivered mt M s \<longleftrightarrow> msg_wf s \<and> init_msg s = 4 \<and> init_num (core s) = length M \<and> message_type s = uint mt
     \<and> (\<exists>d. b_data (init_buf s) = Some d \<and> seg d 4 (length M) = M \<and> 4 + length M \<le> length d)"

lemma get_body_streams:
  assumes "streams e stream" and "transcribes (base e)" and "stores_mac e"
    and "at_body stream mt M later s" and "roomy M s"
  shows "\<exists>ok len s1 s'. tls_get_message_body e s = Some (ok, len, s') \<and> moved s s1
    \<and> (prompt e stream \<longrightarrow> ok) \<and> (if ok then len = length M \<and> tls_delivered mt M s' \<and> stream (io s') = later
         \<and> (\<exists>n. s' = s1\<lparr>core := (core s1)\<lparr>peer_finish_md_len := n,
              handshake_dgst := handshake_dgst (core s) @ transcript (core s) mt M\<rparr>\<rparr>)
       else at_body stream mt M later s' \<and> roomy M s' \<and> s' = s1)"
proof -
  let ?k = "init_num (core s)"
  have M: "length M < 2 ^ 24" "?k \<le> length M" "message_size s = length M" and mt: "message_type s = uint mt"
    using assms(4) by (simp_all add: at_body_def)
  have ccs: "message_type s \<noteq> tls3_MT_CHANGE_CIPHER_SPEC"
    using mt uint_bounded [of mt] by auto
  obtain ok s1 where s1: "body_loop e (length M - ?k) s = Some (ok, s1)" "moved s s1" "roomy M s1"
    "at_body stream mt M later s1" "ok \<longrightarrow> init_num (core s1) = length M" "prompt e stream \<longrightarrow> ok"
    using body_loop_streams [OF assms(1,4,5)] by blast
  have u: "usub (message_size s) ?k = length M - ?k" using M by (simp add: usub_eq SIZE_MAX_def)
  show ?thesis
  proof (cases ok)
    case False
    then show ?thesis
      using s1 ccs by (intro exI [of _ False] exI [of _ 0] exI [of _ s1]) (simp add: tls_get_message_body_def u)
  next
    case True
    have b: "msg_wf s1" "init_num (core s1) = length M" "message_type s1 = uint mt" "init_msg s1 = 4"
      "pending stream (4 + length M) s1 = wire_hdr mt M @ M @ later"
      using s1(4,5) True by (simp_all add: at_body_def)
    obtain d where d: "b_data (init_buf s1) = Some d" "length d = b_max (init_buf s1)"
      using b(1) by (rule msg_wfE)
    have ld: "4 + length M \<le> length d" using s1(3) d(2) by (simp add: roomy_def)
    have "take (4 + length M) d @ stream (io s1) = (wire_hdr mt M @ M) @ later"
      using b(5) d(1) by (simp add: pending_def)
    moreover have "length (take (4 + length M) d) = length (wire_hdr mt M @ M)" using ld by simp
    ultimately have t: "take (4 + length M) d = wire_hdr mt M @ M" "stream (io s1) = later"
      using append_eq_append_conv by blast+
    have "take 1 d = take 1 (take (4 + length M) d)" by (simp add: min_def)
    then have p: "take 1 d = [mt]" unfolding t(1) by (simp add: wire_hdr_def)
    have sg: "seg d 4 (length M) = M"
    proof -
      have "seg d 4 (length M) = drop 4 (take (4 + length M) d)" by (simp add: seg_def drop_take)
      then show ?thesis unfolding t(1) by simp
    qed
    obtain n where n: "(if uint mt = 20 then take_mac (base e) (core s1) else (True, core s1))
        = (True, (core s1)\<lparr>peer_finish_md_len := n\<rparr>)"
    proof (cases "uint mt = 20")
      case True
      then show ?thesis using assms(3) that unfolding stores_mac_def by auto
    next
      case False
      then show ?thesis using that [of "peer_finish_md_len (core s1)"] by simp
    qed
    let ?c = "(core s1)\<lparr>peer_finish_md_len := n\<rparr>"
    let ?s2 = "s1\<lparr>core := ?c\<rparr>"
    have core1: "tls_IS_TLS13 (core s1) = tls_IS_TLS13 (core s)" "handshake_dgst (core s1) = handshake_dgst (core s)"
      using s1(2) by (auto simp: moved_def)
    have df: "deferred ?c mt M = deferred (core s) mt M"
      by (simp add: deferred_def core1)
    have def_eq: "defers_transcript ?s2 = Some (deferred (core s) mt M)"
      using defers_transcript_eq [of ?s2 d M mt] d(1) t(1) ld b(2,3) by (simp add: df)
    let ?s' = "s1\<lparr>core := ?c\<lparr>handshake_dgst := handshake_dgst (core s) @ transcript (core s) mt M\<rparr>\<rparr>"
    have "tls_get_message_body e s = Some (True, length M, ?s')"
    proof -
      have load1: "buf_load 0 1 s1 = Some [mt]" using d(1) p ld by (simp add: buf_load_def mem_read_def)
      have load2: "buf_load 0 (length M + 4) ?s2 = Some (wire_hdr mt M @ M)"
        using d(1) t(1) ld by (simp add: buf_load_def mem_read_def add.commute)
      have nv: "\<not> is_tlsv2_record e (io s1)" using assms(1) by (simp add: streams_def)
      show ?thesis
        using ccs s1(1) True load1 n def_eq nv load2 assms(2) b(2) core1(2)
        by (simp add: tls_get_message_body_def u add_to_mac_def transcribes_def transcript_def)
    qed
    moreover have "tls_delivered mt M ?s'"
      using b d(1) sg ld by (auto simp: tls_delivered_def)
    ultimately show ?thesis
      using s1(2) t(2) by (intro exI [of _ True] exI [of _ "length M"] exI [of _ s1] exI [of _ ?s'])
        (simp, intro exI [of _ n], simp)
  qed
qed

end
