(* ===== verification/Tls_Construct.thy ===== *)
theory Tls_Construct
  imports Tls_Message WPacket
begin

text \<open>
  Construction of handshake messages: the message header functions of TLS (\<open>ssl/s3_lib.c\<close>,
  \<open>ssl/statem/statem_lib.c\<close>) and DTLS (\<open>ssl/statem/statem_dtls.c\<close>), and the part of
  \<open>write_state_machine\<close> (\<open>ssl/statem/statem.c\<close>) that builds a message in the message buffer
  with the packet writer and sends it. The packet writer holds a pointer to \<open>s->init_buf\<close>; here
  the writer has its own copy, and \<open>sync\<close> makes what it wrote visible in the connection after
  every call. The function that writes the body of the message is a parameter.
\<close>

section \<open>Model\<close>

definition sync :: "WPACKET \<Rightarrow> 'io dtls_st \<Rightarrow> 'io dtls_st" where
  "sync pkt s = (case wbuf pkt of None \<Rightarrow> s | Some b \<Rightarrow> s\<lparr>init_buf := b\<rparr>)"

type_synonym 'io pkt_fun = "'io dtls_st \<Rightarrow> WPACKET \<Rightarrow> (bool \<times> 'io dtls_st \<times> WPACKET) option"

definition tls3_set_handshake_header :: "heap \<Rightarrow> int \<Rightarrow> 'io pkt_fun" where
  "tls3_set_handshake_header h htype s pkt =
     (if htype = tls3_MT_CHANGE_CIPHER_SPEC then Some (True, s, pkt)
      else do {
        (ok, pkt) \<leftarrow> WPACKET_put_bytes h pkt (of_int htype) 1;
        if \<not> ok then Some (False, sync pkt s, pkt)
        else do {
          (ok, pkt) \<leftarrow> WPACKET_start_sub_packet_len h pkt 3;
          Some (ok, sync pkt s, pkt)
        }
      })"

definition tls_close_construct_packet :: "int \<Rightarrow> 'io pkt_fun" where
  "tls_close_construct_packet htype s pkt = do {
     (ok, pkt) \<leftarrow> (if htype \<noteq> tls3_MT_CHANGE_CIPHER_SPEC then WPACKET_close pkt else Some (True, pkt));
     let s = sync pkt s;
     if \<not> ok then Some (False, s, pkt)
     else case WPACKET_get_length pkt of
       None \<Rightarrow> Some (False, s, pkt)
     | Some msglen \<Rightarrow>
         if msglen > INT_MAX then Some (False, s, pkt)
         else Some (True, on_core (init_num_update (\<lambda>_. msglen)) (s\<lparr>init_off := 0\<rparr>), pkt)
   }"

definition dtls1_set_handshake_header :: "heap \<Rightarrow> int \<Rightarrow> 'io pkt_fun" where
  "dtls1_set_handshake_header h htype s pkt =
     (if htype = tls3_MT_CHANGE_CIPHER_SPEC then do {
        let s = s\<lparr>handshake_write_seq := next_handshake_write_seq s\<rparr>;
        let s = dtls1_set_message_header_int tls3_MT_CCS 0 (handshake_write_seq s) 0 0 s;
        (ok, pkt) \<leftarrow> WPACKET_put_bytes h pkt (ucast tls3_MT_CCS) 1;
        Some (ok, sync pkt s, pkt)
      }
      else do {
        let s = dtls1_set_message_header (of_int htype) 0 0 0 s;
        (ok, header, pkt) \<leftarrow> WPACKET_allocate_bytes h pkt DTLS1_HM_HEADER_LENGTH;
        if \<not> ok then Some (False, sync pkt s, pkt)
        else do {
          (ok, pkt) \<leftarrow> WPACKET_start_sub_packet h pkt;
          Some (ok, sync pkt s, pkt)
        }
      })"

definition dtls1_close_construct_packet :: "'io dtls_env \<Rightarrow> ('io \<Rightarrow> u16) \<Rightarrow> int \<Rightarrow> 'io pkt_fun" where
  "dtls1_close_construct_packet e w_epoch htype s pkt = do {
     (ok, pkt) \<leftarrow> (if htype \<noteq> tls3_MT_CHANGE_CIPHER_SPEC then WPACKET_close pkt else Some (True, pkt));
     let s = sync pkt s;
     if \<not> ok then Some (False, s, pkt)
     else case WPACKET_get_length pkt of
       None \<Rightarrow> Some (False, s, pkt)
     | Some msglen \<Rightarrow>
         if msglen > INT_MAX then Some (False, s, pkt)
         else do {
           let s = (if htype \<noteq> tls3_MT_CHANGE_CIPHER_SPEC
             then s\<lparr>w_msg_hdr := (w_msg_hdr s)\<lparr>msg_len := usub msglen DTLS1_HM_HEADER_LENGTH,
               frag_len := usub msglen DTLS1_HM_HEADER_LENGTH\<rparr>\<rparr> else s);
           let s = on_core (init_num_update (\<lambda>_. msglen)) (s\<lparr>init_off := 0\<rparr>);
           if htype \<noteq> DTLS1_MT_HELLO_VERIFY_REQUEST then do {
             (ok, s) \<leftarrow> dtls1_buffer_message e w_epoch (if htype = tls3_MT_CHANGE_CIPHER_SPEC then 1 else 0) s;
             Some (ok, s, pkt)
           } else Some (True, s, pkt)
         }
   }"

text \<open>The construction functions of a ChangeCipherSpec.\<close>

definition tls_construct_change_cipher_spec_fn :: "heap \<Rightarrow> 'io pkt_fun" where
  "tls_construct_change_cipher_spec_fn h s pkt = do {
     (ok, pkt) \<leftarrow> WPACKET_put_bytes h pkt (ucast tls3_MT_CCS) 1;
     if \<not> ok then Some (False, tlsfatal tls_AD_INTERNAL_ERROR ERR_R_INTERNAL_ERROR (sync pkt s), pkt)
     else Some (True, sync pkt s, pkt)
   }"

definition dtls_construct_change_cipher_spec_fn :: "heap \<Rightarrow> 'io pkt_fun" where
  "dtls_construct_change_cipher_spec_fn h s pkt =
     (if version (core s) = DTLS1_BAD_VER then do {
        let s = s\<lparr>next_handshake_write_seq := next_handshake_write_seq s + 1\<rparr>;
        (ok, pkt) \<leftarrow> WPACKET_put_bytes h pkt (ucast (handshake_write_seq s)) 2;
        if \<not> ok then Some (False, tlsfatal tls_AD_INTERNAL_ERROR ERR_R_INTERNAL_ERROR (sync pkt s), pkt)
        else Some (True, sync pkt s, pkt)
      }
      else Some (True, s, pkt))"

text \<open>
  The part of \<open>write_state_machine\<close> that constructs a message of type \<open>mt\<close>; the result says
  whether the machine goes on. \<open>con\<close> is None when no function is to be called. The writer on the
  stack is not initialised before \<open>WPACKET_init\<close>.
\<close>

definition stack_pkt :: WPACKET where
  "stack_pkt = \<lparr>wbuf = None, staticbuf = None, curr = 0, written = 0, maxsize = 0, subs = []\<rparr>"

definition construct_message ::
  "'io dtls_env \<Rightarrow> ('io \<Rightarrow> u16) \<Rightarrow> 'io pkt_fun option \<Rightarrow> int \<Rightarrow> 'io dtls_st \<Rightarrow> (bool \<times> 'io dtls_st) option" where
  "construct_message e w_epoch con mt s = (let h = (malloc e, sec_malloc e); dtls = tls_IS_DTLS (core s);
       fatal = tlsfatal tls_AD_INTERNAL_ERROR ERR_R_INTERNAL_ERROR in do {
     (ok, pkt) \<leftarrow> WPACKET_init h stack_pkt (Some (init_buf s));
     let s = sync pkt s;
     (ok, s, pkt) \<leftarrow> (if \<not> ok then Some (False, s, pkt)
       else if dtls then dtls1_set_handshake_header h mt s pkt else tls3_set_handshake_header h mt s pkt);
     if \<not> ok then Some (False, fatal s)
     else do {
       (ok, s, pkt) \<leftarrow> (case con of None \<Rightarrow> Some (True, s, pkt) | Some f \<Rightarrow> f s pkt);
       if \<not> ok then Some (False, s)
       else do {
         (ok, s, pkt) \<leftarrow> (if dtls then dtls1_close_construct_packet e w_epoch mt s pkt
           else tls_close_construct_packet mt s pkt);
         if \<not> ok then Some (False, fatal s)
         else do {
           (ok, pkt) \<leftarrow> WPACKET_finish pkt;
           let s = sync pkt s;
           if \<not> ok then Some (False, fatal s) else Some (True, s)
         }
       }
     }
   })"

definition statem_do_write ::
  "'io tls_env \<Rightarrow> 'io dtls_wenv \<Rightarrow> 'io dtls_st \<Rightarrow> (int \<times> 'io dtls_st) option" where
  "statem_do_write e w s =
     (if hs (core s) = TLS_ST_CW_CHANGE \<or> hs (core s) = TLS_ST_SW_CHANGE then
        (if tls_IS_DTLS (core s) then dtls1_do_write (base e) w tls3_RT_CHANGE_CIPHER_SPEC s
         else tls3_do_write e tls3_RT_CHANGE_CIPHER_SPEC s)
      else if tls_IS_DTLS (core s) then dtls1_handshake_write (base e) w s
      else tls3_do_write e tls3_RT_HANDSHAKE s)"

section \<open>Writing into a buffer that is large enough\<close>

text \<open>A writer on a growable buffer of length \<open>L\<close>, without a limit of its own.\<close>

definition sized :: "nat \<Rightarrow> WPACKET \<Rightarrow> bool" where
  "sized L p \<longleftrightarrow> writer_ok p \<and> staticbuf p = None \<and> maxsize p = SIZE_MAX
     \<and> (\<exists>b. wbuf p = Some b \<and> b_length b = L)"

lemma sizedE:
  assumes "sized L p"
  obtains b where "wbuf p = Some b" "b_length b = L" "buf_ok b" "L \<le> SIZE_MAX" "room_ok p"
    "curr p = written p" "writer_ok p" "staticbuf p = None" "maxsize p = SIZE_MAX"
proof -
  obtain b where b: "wbuf p = Some b" "b_length b = L" using assms unfolding sized_def by blast
  have r: "room_ok p" using assms by (simp add: sized_def writer_ok_def wpacket_ok_def)
  then have "buf_ok b" "b_max b \<le> SIZE_MAX" using b(1) by (auto simp: room_ok_def)
  then have "L \<le> SIZE_MAX" using b(2) by (simp add: buf_ok_def)
  with b \<open>buf_ok b\<close> r assms that show thesis by (simp add: sized_def room_ok_def)
qed

lemma allocate_sized:
  assumes "sized L p" and "subs p \<noteq> []" and "0 < len" and "written p + len \<le> L"
  shows "WPACKET_allocate_bytes h p len
    = Some (True, WPACKET_get_curr p, p\<lparr>written := written p + len, curr := written p + len\<rparr>)"
proof -
  obtain b where b: "wbuf p = Some b" "b_length b = L" "L \<le> SIZE_MAX" "curr p = written p" "maxsize p = SIZE_MAX"
    using assms(1) by (rule sizedE)
  then show ?thesis
    using assms(2-4)
    by (simp add: WPACKET_allocate_bytes_def WPACKET_reserve_bytes_def usub_eq uadd_eq) linarith
qed

lemma sized_block:
  assumes "sized L p" and "wbuf p = Some b" and "b_data b = Some d"
  shows "block p = d" "GETBUF p = Some d"
  using assms by (simp_all add: sized_def block_def GETBUF_def)

lemma refines_stepD:
  assumes "refines_step p f r" and "r = Some (True, q)"
  shows "writer_ok q" "static_len q = static_len p" "f (wpacket_abs p) = Some (wpacket_abs q)"
  using assms by (auto simp: refines_step_def)

lemma put_bytes_sized:
  assumes "sized L p" and "heap_ok h" and "0 < sz" and "sz \<le> 4" and "unat v < 256 ^ sz"
    and "wpacket_abs p = (lb, fl, c) # fs" and "written p + sz \<le> L"
  obtains q where "WPACKET_put_bytes h p v sz = Some (True, q)" and "sized L q"
    and "wpacket_abs q = (lb, fl, c @ be_bytes sz (unat v)) # fs" and "written q = written p + sz"
proof -
  let ?p = "p\<lparr>written := written p + sz, curr := written p + sz\<rparr>"
  have w: "writer_ok p" using assms(1) by (simp add: sized_def)
  have sb: "subs p \<noteq> []" using assms(6) subs_frames [of p] by auto
  have a: "WPACKET_allocate_bytes h p sz = Some (True, WPACKET_get_curr p, ?p)"
    using allocate_sized [OF assms(1) sb assms(3,7)] .
  have g: "WPACKET_get_curr p = Some (written p)" "GETBUF ?p = Some (block ?p)" "written p + sz \<le> length (block ?p)"
    using allocate_write [of p h "be_bytes sz (unat v)" sz] w assms(2) a writer_room [of p] by auto
  have "unat v div 256 ^ sz = 0" using assms(5) by simp
  then obtain m where q: "WPACKET_put_bytes h p v sz = Some (True, set_GETBUF ?p m)"
    using a g assms(4) by (auto simp: WPACKET_put_bytes_def put_value_def put_value_loop_spec)
  let ?q = "set_GETBUF ?p m"
  note r = refines_stepD [OF put_bytes_refines [OF w assms(2), of v sz] q]
  have "wpacket_abs ?q = (lb, fl, c @ be_bytes sz (unat v)) # fs"
    using r(3) assms(3-6) by simp
  moreover have "sized L ?q"
    using r(1,2) assms(1) by (auto simp: sized_def set_GETBUF_def split: option.splits)
  ultimately show thesis using q by (intro that [of ?q]) simp_all
qed

lemma start_sized:
  assumes "sized L p" and "heap_ok h" and "fst h 40 \<noteq> None" and "wpacket_abs p \<noteq> []" and "written p + lb \<le> L"
  obtains q where "WPACKET_start_sub_packet_len h p lb = Some (True, q)" and "sized L q"
    and "wpacket_abs q = (lb, 0, []) # wpacket_abs p" and "written q = written p + lb"
proof -
  have w: "writer_ok p" using assms(1) by (simp add: sized_def)
  have sb: "subs p \<noteq> []" using assms(4) subs_frames [of p] by auto
  let ?s = "\<lparr>packet_len = (if lb = 0 then 0 else written p), lenbytes = lb, pwritten = uadd (written p) lb, sub_flags = 0\<rparr>"
  let ?p = "p\<lparr>subs := ?s # subs p\<rparr>"
  obtain q where q: "WPACKET_start_sub_packet_len h p lb = Some (True, q)" "wbuf q = wbuf p" "staticbuf q = staticbuf p"
    "maxsize q = maxsize p" "written q = written p + lb"
  proof (cases "lb = 0")
    case True
    with sb assms(3) show thesis by (intro that [of ?p]) (auto simp: WPACKET_start_sub_packet_len_def Let_def)
  next
    case False
    obtain b where b: "wbuf p = Some b" "b_length b = L" "L \<le> SIZE_MAX" "curr p = written p" "maxsize p = SIZE_MAX"
      using assms(1) by (rule sizedE)
    have "WPACKET_allocate_bytes h ?p lb
        = Some (True, WPACKET_get_curr ?p, ?p\<lparr>written := written p + lb, curr := written p + lb\<rparr>)"
      using b False assms(5)
      by (simp add: WPACKET_allocate_bytes_def WPACKET_reserve_bytes_def usub_eq uadd_eq) linarith
    with False sb assms(3) show thesis
      by (intro that [of "?p\<lparr>written := written p + lb, curr := written p + lb\<rparr>"])
        (auto simp: WPACKET_start_sub_packet_len_def Let_def)
  qed
  note r = refines_stepD [OF start_refines [OF w assms(2), of lb] q(1)]
  have "sized L q" using r(1) q assms(1) by (simp add: sized_def)
  moreover have "wpacket_abs q = (lb, 0, []) # wpacket_abs p"
    using r(3) assms(4) by (simp add: abs_start_def)
  ultimately show thesis using q(1,5) that by blast
qed

lemma init_sized:
  assumes "buf_ok b" and "b_max b \<le> SIZE_MAX" and "fst h 40 \<noteq> None"
  obtains q where "WPACKET_init h p (Some b) = Some (True, q)" and "sized (b_length b) q"
    and "wpacket_abs q = [(0, 0, [])]" and "written q = 0" and "wbuf q = Some b"
proof -
  let ?q = "p\<lparr>staticbuf := None, wbuf := Some b, maxsize := SIZE_MAX, curr := 0, written := 0,
    subs := [\<lparr>packet_len = 0, lenbytes = 0, pwritten = 0, sub_flags = 0\<rparr>]\<rparr>"
  have "WPACKET_init h p (Some b) = Some (True, ?q)"
    using assms(3) by (auto simp: WPACKET_init_def WPACKET_init_len_def wpacket_intern_init_len_def maxmaxsize_def Let_def)
  moreover have "writer_ok ?q"
    using assms(1,2) by (simp add: writer_ok_def wpacket_ok_def room_ok_def WPACKET_is_null_buf_def)
  ultimately show thesis by (intro that [of ?q]) (simp_all add: sized_def wpacket_abs_def)
qed

text \<open>The length of a packet with one open frame.\<close>

lemma get_length_top:
  assumes "writer_ok p" and "wpacket_abs p = [(0, fl, c)]"
  shows "WPACKET_get_length p = Some (length c)" and "written p = length c" and "take (length c) (block p) = c"
proof -
  obtain s where s: "subs p = [s]" "lenbytes s = 0" "c = drop (pwritten s) (take (written p) (block p))"
    using assms(2) by (cases "subs p" rule: remdups_adj.cases) (auto simp: wpacket_abs_def)
  have r: "room_ok p" "\<not> WPACKET_is_null_buf p" using assms(1) by (simp_all add: writer_ok_def wpacket_ok_def)
  have z: "pwritten s = 0" using assms(1) s(1,2) by (simp add: writer_ok_def wpacket_ok_def)
  then have c: "c = take (written p) (block p)" using s(3) by simp
  then show w: "written p = length c" using written_le_block [OF r] by simp
  show "take (length c) (block p) = c" using c w by simp
  have "usub (written p) 0 = written p" using room_ok_bounds [OF r(1)] by (simp add: usub_eq)
  then show "WPACKET_get_length p = Some (length c)"
    using s(1) z w by (simp add: WPACKET_get_length_def)
qed

lemma finish_top:
  assumes "writer_ok p" and "wpacket_abs p = [(0, 0, c)]"
  shows "WPACKET_finish p = Some (True, p\<lparr>subs := []\<rparr>)"
proof -
  obtain s where "subs p = [s]" "lenbytes s = 0" "sub_flags s = 0"
    using assms(2) by (cases "subs p" rule: remdups_adj.cases) (auto simp: wpacket_abs_def)
  then show ?thesis by (simp add: WPACKET_finish_def wpacket_intern_close_def Let_def)
qed

lemma be_bytes_l2n3: "be_bytes 3 n = l2n3 n"
  by (simp add: l2n3_def drop_bit_eq_div flip: div_mult2_eq)

lemma put_type_byte: "unat (of_int (uint (b :: byte)) :: u32) = unat b"
proof -
  have "unat b < 2 ^ 32" by (rule less_trans [OF unat_byte_bound]) simp
  then have "unat b mod 2 ^ 32 = unat b" by (rule mod_less)
  moreover have "(of_int (uint b) :: u32) = of_nat (unat b)" by simp
  ultimately show ?thesis by (simp only: unat_of_nat len_of_numeral_defs) simp
qed

section \<open>Construction of a message\<close>

text \<open>
  What the construction expects of the function that writes the body: given a writer that has at
  least the header written, it appends the body and touches nothing of the connection but the
  buffer and the fields of \<open>core\<close> that do not govern the flow of messages. A message is constructed
  in one state; a constructor whose body depends on the state stands here as the function it is in
  that state.
\<close>

definition con_keeps :: "tls \<Rightarrow> tls \<Rightarrow> bool" where
  "con_keeps c c' \<longleftrightarrow> method_is_dtls c' = method_is_dtls c \<and> method_version c' = method_version c
     \<and> version c' = version c \<and> statem c' = statem c \<and> handshake_dgst c' = handshake_dgst c
     \<and> server c' = server c"

definition builds :: "'io pkt_fun \<Rightarrow> bytes \<Rightarrow> nat \<Rightarrow> bool" where
  "builds con M L \<longleftrightarrow> (\<forall>s p lb fl c fs. sized L p \<longrightarrow> written p \<le> 12 \<longrightarrow> wpacket_abs p = (lb, fl, c) # fs \<longrightarrow>
     (\<exists>q c'. con s p = Some (True, (sync q s)\<lparr>core := c'\<rparr>, q) \<and> con_keeps (core s) c' \<and> writer_ok q
        \<and> staticbuf q = None \<and> wpacket_abs q = (lb, fl, c @ M) # fs))"

lemma buildsE:
  assumes "builds con M L" and "sized L p" and "written p \<le> 12" and "wpacket_abs p = (lb, fl, c) # fs"
  obtains q c' where "con s p = Some (True, (sync q s)\<lparr>core := c'\<rparr>, q)" and "con_keeps (core s) c'"
    and "writer_ok q" and "staticbuf q = None" and "wpacket_abs q = (lb, fl, c @ M) # fs"
  using assms(1) [unfolded builds_def, rule_format, OF assms(2-4), of s] by (elim exE conjE) (rule that)

lemma writer_buf:
  assumes "writer_ok q" and "staticbuf q = None"
  obtains b where "wbuf q = Some b" "buf_ok b" "block q = (case b_data b of None \<Rightarrow> [] | Some d \<Rightarrow> d)"
    "written q \<le> b_length b" "b_max b \<le> SIZE_MAX"
  using assms by (auto simp: writer_ok_def wpacket_ok_def room_ok_def WPACKET_is_null_buf_def block_def GETBUF_def)

text \<open>The buffer that the message is built in.\<close>

definition build_buf :: "'io dtls_st \<Rightarrow> bool" where
  "build_buf s \<longleftrightarrow> buf_ok (init_buf s) \<and> b_max (init_buf s) \<le> SIZE_MAX \<and> 12 \<le> b_length (init_buf s)"

lemma sync_simps [simp]:
  "core (sync q s) = core s" "io (sync q s) = io s" "init_off (sync q s) = init_off s"
  "w_msg_hdr (sync q s) = w_msg_hdr s"
  by (simp_all add: sync_def split: option.splits)

lemma sync_some: "wbuf q = Some b \<Longrightarrow> sync q s = s\<lparr>init_buf := b\<rparr>"
  by (simp add: sync_def)

lemma construct_tls:
  assumes env: "env_total e" and buf: "build_buf s" and tls: "\<not> tls_IS_DTLS (core s)"
    and con: "builds con M (b_length (init_buf s))" and M: "length M < 2 ^ 24"
  obtains b d c' where "construct_message e w_epoch (Some con) (uint mt) s
      = Some (True, s\<lparr>init_buf := b, init_off := 0, core := c'\<lparr>init_num := 4 + length M\<rparr>\<rparr>)"
    and "buf_ok b" and "b_data b = Some d" and "take (4 + length M) d = wire_hdr mt M @ M"
    and "4 + length M \<le> b_length b" and "con_keeps (core s) c'"
proof -
  let ?h = "(malloc e, sec_malloc e)" and ?L = "b_length (init_buf s)"
  have h: "heap_ok ?h" "fst ?h 40 \<noteq> None"
    using env by (auto simp: env_total_def alloc_total_def heap_ok_def)
  have b: "buf_ok (init_buf s)" "b_max (init_buf s) \<le> SIZE_MAX" "12 \<le> ?L" using buf by (simp_all add: build_buf_def)
  obtain q0 where q0: "WPACKET_init ?h stack_pkt (Some (init_buf s)) = Some (True, q0)" "sized ?L q0"
    "wpacket_abs q0 = [(0, 0, [])]" "written q0 = 0"
    using init_sized [OF b(1,2) h(2)] by metis
  have "unat (of_int (uint mt) :: u32) < 256 ^ 1" unfolding put_type_byte by simp
  then obtain q1 where q1: "WPACKET_put_bytes ?h q0 (of_int (uint mt)) 1 = Some (True, q1)" "sized ?L q1"
    "wpacket_abs q1 = [(0, 0, [mt])]" "written q1 = 1"
    using put_bytes_sized [OF q0(2) h(1), of 1 "of_int (uint mt)" 0 0 "[]" "[]"] q0(3,4) b(3)
    unfolding put_type_byte by auto
  obtain q2 where q2: "WPACKET_start_sub_packet_len ?h q1 3 = Some (True, q2)" "sized ?L q2"
    "wpacket_abs q2 = [(3, 0, []), (0, 0, [mt])]" "written q2 = 4"
    using start_sized [OF q1(2) h, of 3] q1(3,4) b(3) by auto
  have mt: "uint mt \<noteq> 257" using uint_bounded [of mt] by auto
  have set: "tls3_set_handshake_header ?h (uint mt) (sync q0 s) q0 = Some (True, sync q2 (sync q0 s), q2)"
    using q1(1) q2(1) mt by (simp add: tls3_set_handshake_header_def)
  have w2: "written q2 \<le> 12" using q2(4) by simp
  obtain q3 c' where q3: "con (sync q2 (sync q0 s)) q2 = Some (True, (sync q3 (sync q2 (sync q0 s)))\<lparr>core := c'\<rparr>, q3)"
    "con_keeps (core (sync q2 (sync q0 s))) c'" "writer_ok q3" "staticbuf q3 = None"
    "wpacket_abs q3 = [(3, 0, M), (0, 0, [mt])]"
    by (rule buildsE [OF con q2(2) w2 q2(3), where s = "sync q2 (sync q0 s)"]) (rule that, simp_all)
  have hdr: "abs_close (wpacket_abs q3) = Some [(0, 0, wire_hdr mt M @ M)]"
    using M by (simp add: q3(5) abs_output_def be_bytes_l2n3 wire_hdr_def del: be_bytes_numeral)
  obtain q4 where q4: "WPACKET_close q3 = Some (True, q4)" "writer_ok q4" "static_len q4 = static_len q3"
    "wpacket_abs q4 = [(0, 0, wire_hdr mt M @ M)]"
    using close_spec [OF q3(3)] hdr by auto
  have st4: "staticbuf q4 = None" using q4(3) q3(4) by simp
  note top = get_length_top [OF q4(2,4)]
  obtain b4 where b4: "wbuf q4 = Some b4" "buf_ok b4" "block q4 = (case b_data b4 of None \<Rightarrow> [] | Some d \<Rightarrow> d)"
    "written q4 \<le> b_length b4" using writer_buf [OF q4(2) st4] by blast
  obtain b3 where b3: "wbuf q3 = Some b3" using writer_buf [OF q3(3,4)] by blast
  obtain b0 b2 where b02: "wbuf q0 = Some b0" "wbuf q2 = Some b2" using q0(2) q2(2) by (auto simp: sized_def)
  have "block q4 \<noteq> []" using top(3) by (auto simp: wire_hdr_def)
  then obtain d where d: "b_data b4 = Some d" using b4(3) by (cases "b_data b4") simp_all
  have "length (wire_hdr mt M @ M) \<le> INT_MAX" using M by simp
  then have "construct_message e w_epoch (Some con) (uint mt) s
      = Some (True, s\<lparr>init_buf := b4, init_off := 0, core := c'\<lparr>init_num := 4 + length M\<rparr>\<rparr>)"
    using tls q0(1) set q3(1) q4(1) top(1) finish_top [OF q4(2,4)] mt b02 b3 b4(1)
    by (simp add: construct_message_def tls_close_construct_packet_def sync_some on_core_def)
  moreover have "take (4 + length M) d = wire_hdr mt M @ M"
    using top(3) b4(3) d by simp
  moreover have "4 + length M \<le> b_length b4" using b4(4) top(2) by simp
  ultimately show thesis using that [OF _ b4(2) d] q3(2) by simp
qed

lemma allocate_appends:
  assumes "sized L p" and "heap_ok h" and "0 < len" and "written p + len \<le> L" and "wpacket_abs p = (lb, fl, c) # fs"
  obtains d q x where "WPACKET_allocate_bytes h p len = Some (True, d, q)" and "sized L q" and "length x = len"
    and "wpacket_abs q = (lb, fl, c @ x) # fs" and "written q = written p + len"
proof -
  let ?q = "p\<lparr>written := written p + len, curr := written p + len\<rparr>"
  have w: "room_ok p" "wpacket_ok p" "\<not> WPACKET_is_null_buf p" using assms(1) by (simp_all add: sized_def writer_ok_def wpacket_ok_def)
  have sb: "subs p \<noteq> []" using assms(5) subs_frames [of p] by auto
  have a: "WPACKET_allocate_bytes h p len = Some (True, WPACKET_get_curr p, ?q)"
    by (rule allocate_sized [OF assms(1) sb assms(3,4)])
  then have ex: "extends p len ?q" using allocate_spec [OF w(1) assms(2), of len] by auto
  let ?x = "seg (block ?q) (written p) len"
  have nn: "\<not> WPACKET_is_null_buf ?q" "room_ok ?q" using ex w(3) by (simp_all add: extends_def)
  have len: "length ?x = len" using written_le_block [OF nn(2,1)] by simp
  have "appended p ?x ?q"
    using ex nn len take_seg_append [of "written p" "written p + len" "block ?q"]
    unfolding appended_def extends_def by simp
  from appended_abs [OF this w(2) sb w(3)]
  have "wpacket_ok ?q" "wpacket_abs ?q = (lb, fl, c @ ?x) # fs" using assms(5) by simp_all
  moreover have "sized L ?q" using assms(1) nn \<open>wpacket_ok ?q\<close> by (simp add: sized_def writer_ok_def)
  ultimately show thesis using a len by (intro that [of "WPACKET_get_curr p" ?q ?x]) simp_all
qed

text \<open>The message as it is kept for retransmission.\<close>

definition kept_message :: "byte \<Rightarrow> u16 \<Rightarrow> bytes \<Rightarrow> dtls1_retransmit_state \<Rightarrow> hm_fragment \<Rightarrow> bool" where
  "kept_message mt n M crypto frag \<longleftrightarrow> length (fragment frag) = 12 + length M \<and> drop 12 (fragment frag) = M
     \<and> msg_header frag = hm_header_zero\<lparr>hm_type := mt, msg_len := length M, seq := n, frag_off := 0,
         frag_len := length M, saved_retransmit_state := crypto\<rparr>"

lemma buffer_message_ok:
  assumes "env_total e" and "init_off s = 0" and "init_num (core s) = 12 + length M" and "length M < 2 ^ 24"
    and "b_data (init_buf s) = Some d" and "take (12 + length M) d = x @ M" and "length x = 12" "12 + length M \<le> length d"
    and "msg_len (w_msg_hdr s) = length M" "seq (w_msg_hdr s) = n" "hm_type (w_msg_hdr s) = mt"
  obtains frag where "dtls1_buffer_message e w_epoch 0 s = Some (True, s\<lparr>sent_messages :=
      snd (pqueue_insert (sent_messages s) \<lparr>priority = prio64be (dtls1_get_queue_priority n 0), data = frag\<rparr>)\<rparr>)"
    and "kept_message mt n M ((write_crypto s)\<lparr>rs_epoch := w_epoch (io s)\<rparr>) frag"
proof -
  have al: "allocator_ok (malloc e)" "malloc e k \<noteq> None" if "0 < k" for k
    using assms(1) that by (auto simp: env_total_def alloc_total_def)
  obtain buf where buf: "malloc e (12 + length M) = Some buf" "length buf = 12 + length M"
    using al [of "12 + length M"] by (auto simp: allocator_ok_def)
  then have new: "dtls1_hm_fragment_new (malloc e) (12 + length M) False
      = Some \<lparr>msg_header = hm_header_zero, fragment = buf, reassembly = None\<rparr>"
    using al [of sizeof_hm_fragment] by (auto simp: dtls1_hm_fragment_new_def)
  have rd: "mem_read d 0 (12 + length M) = Some (x @ M)" using assms(6,8) by (simp add: mem_read_def)
  have wr: "mem_write buf 0 (x @ M) = Some (x @ M)" using buf(2) assms(7) by (simp add: mem_write_def)
  let ?h = "hm_header_zero\<lparr>hm_type := mt, msg_len := length M, seq := n, frag_off := 0,
         frag_len := length M, saved_retransmit_state := (write_crypto s)\<lparr>rs_epoch := w_epoch (io s)\<rparr>\<rparr>"
  let ?frag = "\<lparr>msg_header = ?h, fragment = x @ M, reassembly = None\<rparr>"
  have md: "(12 + length M) mod 2 ^ 32 = 12 + length M" using assms(4) by simp
  have h: "(hm_header_zero\<lparr>msg_len := length M, seq := n, hm_type := mt, frag_off := 0, frag_len := length M, is_ccs := 0,
      saved_retransmit_state := (write_crypto s)\<lparr>rs_epoch := w_epoch (io s)\<rparr>\<rparr>) = ?h"
    by (simp add: hm_header_zero_def)
  have z: "is_ccs hm_header_zero = 0" "take 8 (prio64be p) = prio64be p" for p
    by (simp_all add: hm_header_zero_def prio64be_def)
  have "dtls1_buffer_message e w_epoch 0 s = Some (True, s\<lparr>sent_messages :=
      snd (pqueue_insert (sent_messages s) \<lparr>priority = prio64be (dtls1_get_queue_priority n 0), data = ?frag\<rparr>)\<rparr>)"
    using assms(2,3,5,9-11) new rd wr md al [of sizeof_pitem]
    by (simp add: dtls1_buffer_message_def Let_def h z pitem_new_def add.commute)
  moreover have "kept_message mt n M ((write_crypto s)\<lparr>rs_epoch := w_epoch (io s)\<rparr>) ?frag"
    using assms(7) by (simp add: kept_message_def)
  ultimately show thesis by (rule that)
qed

lemma construct_dtls:
  assumes env: "env_total e" and buf: "build_buf s" and dtls: "tls_IS_DTLS (core s)"
    and con: "builds con M (b_length (init_buf s))" and M: "length M < 2 ^ 24"
    and mt: "uint mt \<noteq> DTLS1_MT_HELLO_VERIFY_REQUEST"
  obtains b d x c' frag where "construct_message e w_epoch (Some con) (uint mt) s
      = Some (True, s\<lparr>init_buf := b, init_off := 0, core := c'\<lparr>init_num := 12 + length M\<rparr>,
          handshake_write_seq := next_handshake_write_seq s, next_handshake_write_seq := next_handshake_write_seq s + 1,
          w_msg_hdr := (w_msg_hdr s)\<lparr>hm_type := mt, msg_len := length M, seq := next_handshake_write_seq s,
            frag_off := 0, frag_len := length M\<rparr>,
          sent_messages := snd (pqueue_insert (sent_messages s)
            \<lparr>priority = prio64be (dtls1_get_queue_priority (next_handshake_write_seq s) 0), data = frag\<rparr>)\<rparr>)"
    and "b_data b = Some d" and "take (12 + length M) d = x @ M" and "length x = 12"
    and "12 + length M \<le> length d" and "con_keeps (core s) c'"
    and "kept_message mt (next_handshake_write_seq s) M ((write_crypto s)\<lparr>rs_epoch := w_epoch (io s)\<rparr>) frag"
proof -
  let ?h = "(malloc e, sec_malloc e)" and ?L = "b_length (init_buf s)" and ?n = "next_handshake_write_seq s"
  have h: "heap_ok ?h" "fst ?h 40 \<noteq> None"
    using env by (auto simp: env_total_def alloc_total_def heap_ok_def)
  have b: "buf_ok (init_buf s)" "b_max (init_buf s) \<le> SIZE_MAX" "12 \<le> ?L" using buf by (simp_all add: build_buf_def)
  obtain q0 where q0: "WPACKET_init ?h stack_pkt (Some (init_buf s)) = Some (True, q0)" "sized ?L q0"
    "wpacket_abs q0 = [(0, 0, [])]" "written q0 = 0" "wbuf q0 = Some (init_buf s)"
    using init_sized [OF b(1,2) h(2)] by metis
  obtain dd q1 x where q1: "WPACKET_allocate_bytes ?h q0 12 = Some (True, dd, q1)" "sized ?L q1" "length x = 12"
    "wpacket_abs q1 = [(0, 0, x)]" "written q1 = 12"
    using allocate_appends [OF q0(2) h(1) _ _ q0(3), of 12] q0(4) b(3) by auto
  obtain q2 where q2: "WPACKET_start_sub_packet ?h q1 = Some (True, q2)" "sized ?L q2"
    "wpacket_abs q2 = [(0, 0, []), (0, 0, x)]" "written q2 = 12"
    using start_sized [OF q1(2) h, of 0] q1(4,5) b(3) by (auto simp: WPACKET_start_sub_packet_def)
  have mt1: "uint mt \<noteq> 257" using uint_bounded [of mt] by auto
  let ?s0 = "s\<lparr>handshake_write_seq := ?n, next_handshake_write_seq := ?n + 1,
    w_msg_hdr := (w_msg_hdr s)\<lparr>hm_type := mt, msg_len := 0, seq := ?n, frag_off := 0, frag_len := 0\<rparr>\<rparr>"
  obtain b2 where b2: "wbuf q2 = Some b2" using q2(2) by (auto simp: sized_def)
  let ?s2 = "?s0\<lparr>init_buf := b2\<rparr>"
  have set: "dtls1_set_handshake_header ?h (uint mt) (sync q0 s) q0 = Some (True, ?s2, q2)"
    using q1(1) q2(1) mt1 q0(5) b2
    by (simp add: dtls1_set_handshake_header_def sync_some dtls1_set_message_header_def
        dtls1_set_message_header_int_def Let_def)
  have w2: "written q2 \<le> 12" using q2(4) by simp
  obtain q3 c' where q3: "con ?s2 q2 = Some (True, (sync q3 ?s2)\<lparr>core := c'\<rparr>, q3)"
    "con_keeps (core s) c'" "writer_ok q3" "staticbuf q3 = None" "wpacket_abs q3 = [(0, 0, M), (0, 0, x)]"
    by (rule buildsE [OF con q2(2) w2 q2(3), where s = ?s2]) (rule that, simp_all)
  have cl: "abs_close (wpacket_abs q3) = Some [(0, 0, x @ M)]"
    by (simp add: q3(5) abs_output_def)
  obtain q4 where q4: "WPACKET_close q3 = Some (True, q4)" "writer_ok q4" "static_len q4 = static_len q3"
    "wpacket_abs q4 = [(0, 0, x @ M)]"
    using close_spec [OF q3(3)] cl by auto
  have st4: "staticbuf q4 = None" using q4(3) q3(4) by simp
  note top = get_length_top [OF q4(2,4)]
  obtain b4 where b4: "wbuf q4 = Some b4" "buf_ok b4" "block q4 = (case b_data b4 of None \<Rightarrow> [] | Some d \<Rightarrow> d)"
    using writer_buf [OF q4(2) st4] by blast
  obtain b3 where b3: "wbuf q3 = Some b3" using writer_buf [OF q3(3,4)] by blast
  have "block q4 \<noteq> []" using top(3) q1(3) by auto
  then obtain d where d: "b_data b4 = Some d" using b4(3) by (cases "b_data b4") simp_all
  have td: "take (12 + length M) d = x @ M" using top(3) b4(3) d q1(3) by simp
  then have ld: "12 + length M \<le> length d" using q1(3)
    by (metis length_append length_take min.absorb_iff2 min.commute)
  let ?s4 = "s\<lparr>init_buf := b4, init_off := 0, core := c'\<lparr>init_num := 12 + length M\<rparr>,
          handshake_write_seq := ?n, next_handshake_write_seq := ?n + 1,
          w_msg_hdr := (w_msg_hdr s)\<lparr>hm_type := mt, msg_len := length M, seq := ?n,
            frag_off := 0, frag_len := length M\<rparr>\<rparr>"
  obtain frag where f: "dtls1_buffer_message e w_epoch 0 ?s4 = Some (True, ?s4\<lparr>sent_messages :=
      snd (pqueue_insert (sent_messages s) \<lparr>priority = prio64be (dtls1_get_queue_priority ?n 0), data = frag\<rparr>)\<rparr>)"
    "kept_message mt ?n M ((write_crypto s)\<lparr>rs_epoch := w_epoch (io s)\<rparr>) frag"
    using buffer_message_ok [OF env _ _ M _ td q1(3) ld, of ?s4 ?n mt w_epoch] d by auto
  have len: "length (x @ M) \<le> INT_MAX" "usub (length (x @ M)) 12 = length M"
    using M q1(3) by (simp_all add: usub_eq SIZE_MAX_def)
  have cls: "dtls1_close_construct_packet e w_epoch (uint mt) ((sync q3 ?s2)\<lparr>core := c'\<rparr>) q3 = Some (True,
      ?s4\<lparr>sent_messages := snd (pqueue_insert (sent_messages s)
        \<lparr>priority = prio64be (dtls1_get_queue_priority ?n 0), data = frag\<rparr>)\<rparr>, q4)"
    using q4(1) top(1) len mt mt1 f(1) b3 b4(1) q1(3)
    by (cases s, cases "w_msg_hdr s") (simp add: dtls1_close_construct_packet_def sync_some on_core_def)
  have "construct_message e w_epoch (Some con) (uint mt) s
      = Some (True, ?s4\<lparr>sent_messages := snd (pqueue_insert (sent_messages s)
        \<lparr>priority = prio64be (dtls1_get_queue_priority ?n 0), data = frag\<rparr>)\<rparr>)"
    using dtls q0(1) set q3(1) cls finish_top [OF q4(2,4)] b4(1)
    by (simp add: construct_message_def sync_some)
  then show thesis using that [OF _ d td q1(3) ld q3(2) f(2)] by simp
qed

end
