(* ===== verification/Dtls_Timer.thy ===== *)
theory Dtls_Timer
  imports Dtls_Write
begin

text \<open>
  The retransmission timer of DTLS (\<open>ssl/d1_lib.c\<close>): starting and stopping it, the time left,
  the doubling of its duration, and what happens when it expires. The timer fields of
  \<open>DTLS1_STATE\<close> are the record \<open>dtls1_timer\<close> beside the connection \<open>dtls_st\<close>. The clock
  and the datagram BIO are parameters that act on the state of the network. A \<open>struct timeval\<close>
  has mathematical integers, the duration is an \<open>unsigned int\<close> that wraps.
\<close>

section \<open>Model\<close>

record timeval =
  tv_sec :: int
  tv_usec :: int

record dtls1_timer =
  read_timeouts :: u32
  write_timeouts :: u32
  num_alerts :: u32
  next_timeout :: timeval
  timeout_duration_us :: u32
  timer_cb :: "(u32 \<Rightarrow> u32) option"

record 'io conn =
  d1 :: "'io dtls_st"
  timer :: dtls1_timer

record 'io timer_env =
  get_current_time :: "'io \<Rightarrow> timeval \<times> 'io"
  dgram_is_sctp :: "'io \<Rightarrow> bool"
  set_next_timeout :: "timeval \<Rightarrow> 'io \<Rightarrow> 'io"
  fallback_mtu :: "'io \<Rightarrow> nat"

abbreviation (input) DTLS1_TMO_READ_COUNT :: u32 where "DTLS1_TMO_READ_COUNT \<equiv> 2"
abbreviation (input) DTLS1_TMO_ALERT_COUNT :: u32 where "DTLS1_TMO_ALERT_COUNT \<equiv> 12"
abbreviation (input) tls_R_READ_TIMEOUT_EXPIRED :: int where "tls_R_READ_TIMEOUT_EXPIRED \<equiv> 312"

definition time_zero :: timeval where
  "time_zero = \<lparr>tv_sec = 0, tv_usec = 0\<rparr>"

text \<open>A step of the network state below the connection.\<close>

definition on_io :: "('io \<Rightarrow> 'io) \<Rightarrow> 'io conn \<Rightarrow> 'io conn" where
  "on_io f c = c\<lparr>d1 := (d1 c)\<lparr>io := f (io (d1 c))\<rparr>\<rparr>"

definition add_duration :: "timeval \<Rightarrow> u32 \<Rightarrow> timeval" where
  "add_duration t us =
     (let sec = us div 1000000; usec = us - sec * 1000000;
          t = \<lparr>tv_sec = tv_sec t + uint sec, tv_usec = tv_usec t + uint usec\<rparr> in
      if tv_usec t \<ge> 1000000 then \<lparr>tv_sec = tv_sec t + 1, tv_usec = tv_usec t - 1000000\<rparr> else t)"

definition dtls1_start_timer :: "'io timer_env \<Rightarrow> 'io conn \<Rightarrow> 'io conn" where
  "dtls1_start_timer te c =
     (if dgram_is_sctp te (io (d1 c)) then c\<lparr>timer := (timer c)\<lparr>next_timeout := time_zero\<rparr>\<rparr>
      else
        let t = timer c;
            t = (if next_timeout t = time_zero
                 then t\<lparr>timeout_duration_us := (case timer_cb t of Some cb \<Rightarrow> cb 0 | None \<Rightarrow> 1000000)\<rparr> else t);
            (now, st) = get_current_time te (io (d1 c));
            t = t\<lparr>next_timeout := add_duration now (timeout_duration_us t)\<rparr> in
        on_io (set_next_timeout te (next_timeout t)) (on_io (\<lambda>_. st) (c\<lparr>timer := t\<rparr>)))"

text \<open>The time left until the timer expires; None when it is not running.\<close>

definition dtls1_get_timeout :: "'io timer_env \<Rightarrow> 'io conn \<Rightarrow> timeval option \<times> 'io conn" where
  "dtls1_get_timeout te c =
     (let nxt = next_timeout (timer c) in
      if nxt = time_zero then (None, c)
      else case get_current_time te (io (d1 c)) of (now, st) \<Rightarrow>
        let c = on_io (\<lambda>_. st) c in
        if tv_sec nxt < tv_sec now \<or> tv_sec nxt = tv_sec now \<and> tv_usec nxt \<le> tv_usec now
        then (Some time_zero, c)
        else
          let left = \<lparr>tv_sec = tv_sec nxt - tv_sec now, tv_usec = tv_usec nxt - tv_usec now\<rparr>;
              left = (if tv_usec left < 0
                      then \<lparr>tv_sec = tv_sec left - 1, tv_usec = tv_usec left + 1000000\<rparr> else left) in
          if tv_sec left = 0 \<and> tv_usec left < 15000 then (Some time_zero, c) else (Some left, c))"

definition dtls1_is_timer_expired :: "'io timer_env \<Rightarrow> 'io conn \<Rightarrow> bool \<times> 'io conn" where
  "dtls1_is_timer_expired te c =
     (case dtls1_get_timeout te c of
        (None, c) \<Rightarrow> (False, c)
      | (Some left, c) \<Rightarrow> if tv_sec left > 0 \<or> tv_usec left > 0 then (False, c) else (True, c))"

definition dtls1_double_timeout :: "'io timer_env \<Rightarrow> 'io conn \<Rightarrow> 'io conn" where
  "dtls1_double_timeout te c =
     (let us = timeout_duration_us (timer c) * 2; us = (if us > 60000000 then 60000000 else us) in
      dtls1_start_timer te (c\<lparr>timer := (timer c)\<lparr>timeout_duration_us := us\<rparr>\<rparr>))"

text \<open>The loop pops every item.\<close>

function clear_queue :: "'a pqueue \<Rightarrow> 'a pqueue" where
  "clear_queue q = (case pqueue_pop q of (None, q) \<Rightarrow> q | (Some item, q) \<Rightarrow> clear_queue q)"
  by pat_completeness auto
termination
  by (relation "measure (\<lambda>q. length (items q))") (auto simp: pqueue_pop_def split: list.splits)

definition dtls1_clear_sent_buffer :: "'io dtls_st \<Rightarrow> 'io dtls_st" where
  "dtls1_clear_sent_buffer s = s\<lparr>sent_messages := clear_queue (sent_messages s)\<rparr>"

definition dtls1_clear_received_buffer :: "'io dtls_st \<Rightarrow> 'io dtls_st" where
  "dtls1_clear_received_buffer s = s\<lparr>buffered_messages := clear_queue (buffered_messages s)\<rparr>"

definition dtls1_clear_queues :: "'io dtls_st \<Rightarrow> 'io dtls_st" where
  "dtls1_clear_queues s = dtls1_clear_sent_buffer (dtls1_clear_received_buffer s)"

definition dtls1_stop_timer :: "'io timer_env \<Rightarrow> 'io conn \<Rightarrow> 'io conn" where
  "dtls1_stop_timer te c =
     (let c = c\<lparr>timer := (timer c)\<lparr>read_timeouts := 0, write_timeouts := 0, num_alerts := 0,
            next_timeout := time_zero, timeout_duration_us := 1000000\<rparr>\<rparr>;
          c = on_io (set_next_timeout te time_zero) c in
      c\<lparr>d1 := dtls1_clear_sent_buffer (d1 c)\<rparr>)"

definition dtls1_check_timeout_num :: "'io timer_env \<Rightarrow> 'io conn \<Rightarrow> int \<times> 'io conn" where
  "dtls1_check_timeout_num te c =
     (let c = c\<lparr>timer := (timer c)\<lparr>num_alerts := num_alerts (timer c) + 1\<rparr>\<rparr>;
          c = (if num_alerts (timer c) > 2 \<and> options (core (d1 c)) AND tls_OP_NO_QUERY_MTU = 0
               then (let m = fallback_mtu te (io (d1 c)) in
                     if m < mtu (d1 c) then c\<lparr>d1 := (d1 c)\<lparr>mtu := m\<rparr>\<rparr> else c)
               else c) in
      if num_alerts (timer c) > DTLS1_TMO_ALERT_COUNT
      then (- 1, c\<lparr>d1 := tlsfatal tls_AD_NO_ALERT tls_R_READ_TIMEOUT_EXPIRED (d1 c)\<rparr>)
      else (0, c))"

definition dtls1_handle_timeout ::
  "'io dtls_env \<Rightarrow> 'io dtls_wenv \<Rightarrow> ('io \<Rightarrow> u16) \<Rightarrow> (u16 \<Rightarrow> 'io \<Rightarrow> 'io) \<Rightarrow> 'io timer_env \<Rightarrow> 'io conn
   \<Rightarrow> (int \<times> 'io conn) option" where
  "dtls1_handle_timeout e w w_epoch set_epoch te c =
     (case dtls1_is_timer_expired te c of (expired, c) \<Rightarrow>
        if \<not> expired then Some (0, c)
        else
          let c = (case timer_cb (timer c) of
              Some cb \<Rightarrow> c\<lparr>timer := (timer c)\<lparr>timeout_duration_us := cb (timeout_duration_us (timer c))\<rparr>\<rparr>
            | None \<Rightarrow> dtls1_double_timeout te c) in
          case dtls1_check_timeout_num te c of (r, c) \<Rightarrow>
            if r < 0 then Some (- 1, c)
            else
              let n = read_timeouts (timer c) + 1;
                  n = (if n > DTLS1_TMO_READ_COUNT then 1 else n);
                  c = dtls1_start_timer te (c\<lparr>timer := (timer c)\<lparr>read_timeouts := n\<rparr>\<rparr>) in
              map_option (\<lambda>(r, s). (r, c\<lparr>d1 := s\<rparr>))
                (dtls1_retransmit_buffered_messages e w w_epoch set_epoch (d1 c)))"

text \<open>What a failed read does: it handles a timeout, if the timer has expired during a handshake.\<close>

definition dtls1_read_failed ::
  "'io dtls_env \<Rightarrow> 'io dtls_wenv \<Rightarrow> ('io \<Rightarrow> u16) \<Rightarrow> (u16 \<Rightarrow> 'io \<Rightarrow> 'io) \<Rightarrow> 'io timer_env
   \<Rightarrow> ('io \<Rightarrow> 'io) \<Rightarrow> int \<Rightarrow> 'io conn \<Rightarrow> (int \<times> 'io conn) option" where
  "dtls1_read_failed e w w_epoch set_epoch te set_flags_read code c =
     (if code > 0
      then Some (0, c\<lparr>d1 := tlsfatal tls_AD_INTERNAL_ERROR ERR_R_INTERNAL_ERROR (d1 c)\<rparr>)
      else case dtls1_is_timer_expired te c of (expired, c) \<Rightarrow>
        if \<not> expired \<or> otls_statem_in_error (core (d1 c)) then Some (code, c)
        else if \<not> tls_in_init (core (d1 c)) then Some (code, on_io set_flags_read c)
        else dtls1_handle_timeout e w w_epoch set_epoch te c)"

section \<open>Exact times\<close>

definition micros :: "timeval \<Rightarrow> int" where
  "micros t = tv_sec t * 1000000 + tv_usec t"

definition valid_time :: "timeval \<Rightarrow> bool" where
  "valid_time t \<longleftrightarrow> 0 \<le> tv_usec t \<and> tv_usec t < 1000000"

lemma micros_less:
  assumes "valid_time a" and "valid_time b"
  shows "tv_sec a < tv_sec b \<or> tv_sec a = tv_sec b \<and> tv_usec a \<le> tv_usec b \<longleftrightarrow> micros a \<le> micros b"
proof (cases "tv_sec a" "tv_sec b" rule: linorder_cases)
  case less
  then have "tv_sec a + 1 \<le> tv_sec b" by simp
  with less assms show ?thesis unfolding micros_def valid_time_def by simp
next
  case greater
  then have "tv_sec b + 1 \<le> tv_sec a" by simp
  with greater assms show ?thesis unfolding micros_def valid_time_def by simp
qed (simp add: micros_def)

lemma uint_div_1000000: "uint (us div 1000000 :: u32) = uint us div 1000000"
  by (simp add: uint_div)

lemma uint_rest: "uint (us - us div 1000000 * 1000000 :: u32) = uint us mod 1000000"
proof -
  have "us - us div 1000000 * 1000000 = us mod 1000000"
    by (metis add_diff_cancel_left' div_mult_mod_eq)
  then show ?thesis by (simp add: uint_mod)
qed

lemma add_duration_exact:
  assumes "valid_time t"
  shows "valid_time (add_duration t us)" and "micros (add_duration t us) = micros t + uint us"
proof -
  have "0 \<le> uint us mod 1000000" "uint us mod 1000000 < 1000000" by simp_all
  then show "valid_time (add_duration t us)"
    using assms by (auto simp: add_duration_def Let_def uint_div_1000000 uint_rest valid_time_def)
  have "uint us = uint us div 1000000 * 1000000 + uint us mod 1000000" by simp
  then show "micros (add_duration t us) = micros t + uint us"
    by (simp add: add_duration_def Let_def uint_div_1000000 uint_rest micros_def)
qed


lemma positive_time:
  assumes "valid_time t" and "0 \<le> micros t"
  shows "tv_sec t > 0 \<or> tv_usec t > 0 \<longleftrightarrow> micros t \<noteq> 0"
proof -
  have "0 \<le> tv_sec t" using assms unfolding micros_def valid_time_def by linarith
  then show ?thesis using assms unfolding micros_def valid_time_def by (cases "tv_sec t = 0") auto
qed

text \<open>
  C33: The time left on a running timer is the exact difference between the time it expires and now,
  except that the past and the last 15 milliseconds count as expired; the timer has expired if and
  only if less than 15 milliseconds are left.
\<close>

theorem dtls1_get_timeout_exact:
  assumes "get_current_time te (io (d1 c)) = (now, st)" and "valid_time now"
    and "valid_time (next_timeout (timer c))" and "next_timeout (timer c) \<noteq> time_zero"
  shows "\<exists>left. dtls1_get_timeout te c = (Some left, on_io (\<lambda>_. st) c) \<and> valid_time left
      \<and> micros left = (let us = micros (next_timeout (timer c)) - micros now in if us < 15000 then 0 else us)
      \<and> dtls1_is_timer_expired te c = (micros (next_timeout (timer c)) - micros now < 15000, on_io (\<lambda>_. st) c)"
proof -
  let ?n = "next_timeout (timer c)"
  let ?l = "if tv_usec ?n - tv_usec now < 0 then \<lparr>tv_sec = tv_sec ?n - tv_sec now - 1, tv_usec = tv_usec ?n - tv_usec now + 1000000\<rparr>
    else \<lparr>tv_sec = tv_sec ?n - tv_sec now, tv_usec = tv_usec ?n - tv_usec now\<rparr>"
  let ?left = "if micros ?n \<le> micros now \<or> tv_sec ?l = 0 \<and> tv_usec ?l < 15000 then time_zero else ?l"
  have g: "dtls1_get_timeout te c = (Some ?left, on_io (\<lambda>_. st) c)"
    using assms(1,4) micros_less [OF assms(3,2)] by (auto simp: dtls1_get_timeout_def Let_def)
  have l: "valid_time ?l" "micros ?l = micros ?n - micros now"
    using assms(2,3) by (simp_all add: valid_time_def micros_def)
  have z: "valid_time time_zero" "micros time_zero = 0" by (simp_all add: time_zero_def valid_time_def micros_def)
  have short: "tv_sec ?l = 0 \<and> tv_usec ?l < 15000 \<longleftrightarrow> micros ?l < 15000" if "micros now < micros ?n"
  proof (cases "tv_sec ?l \<le> 0")
    case True
    then have "tv_sec ?l = 0" using that l unfolding micros_def valid_time_def by linarith
    then show ?thesis by (simp add: micros_def)
  next
    case False
    then have "1 \<le> tv_sec ?l" by simp
    then have "15000 \<le> micros ?l" using l(1) unfolding micros_def valid_time_def by linarith
    with False show ?thesis by simp
  qed
  have v: "valid_time ?left" using l(1) z(1) by simp
  have m: "micros ?left = (let us = micros ?n - micros now in if us < 15000 then 0 else us)"
    using l(2) z(2) short unfolding Let_def by auto
  have "tv_sec ?left > 0 \<or> tv_usec ?left > 0 \<longleftrightarrow> micros ?left \<noteq> 0"
    using v m by (intro positive_time) (simp_all add: Let_def)
  then have "dtls1_is_timer_expired te c = (micros ?n - micros now < 15000, on_io (\<lambda>_. st) c)"
    using m unfolding dtls1_is_timer_expired_def g by (simp add: Let_def split: if_splits)
  with g v m show ?thesis by blast
qed


section \<open>The schedule of retransmissions\<close>

text \<open>A clock that runs after 1970, on a transport other than SCTP.\<close>

definition clock_ok :: "'io timer_env \<Rightarrow> bool" where
  "clock_ok te \<longleftrightarrow> (\<forall>st. \<not> dgram_is_sctp te st
     \<and> (case get_current_time te st of (now, st') \<Rightarrow> valid_time now \<and> 0 \<le> micros now))"

text \<open>
  \<open>n\<close> expiries of the timer in a row, each handled by a retransmission that succeeds; in between
  the state of the network changes in any way, but no message of the peer arrives.
\<close>

inductive expiries :: "'io dtls_env \<Rightarrow> 'io dtls_wenv \<Rightarrow> ('io \<Rightarrow> u16) \<Rightarrow> (u16 \<Rightarrow> 'io \<Rightarrow> 'io) \<Rightarrow> 'io timer_env
    \<Rightarrow> 'io conn \<Rightarrow> nat \<Rightarrow> 'io conn \<Rightarrow> bool" for e w w_epoch set_epoch te c where
  start: "expiries e w w_epoch set_epoch te c 0 c"
| wait: "expiries e w w_epoch set_epoch te c n c1 \<Longrightarrow> expiries e w w_epoch set_epoch te c n (on_io f c1)"
| expiry: "expiries e w w_epoch set_epoch te c n c1 \<Longrightarrow> fst (dtls1_is_timer_expired te c1)
    \<Longrightarrow> dtls1_handle_timeout e w w_epoch set_epoch te c1 = Some (1, c2)
    \<Longrightarrow> expiries e w w_epoch set_epoch te c (Suc n) c2"

text \<open>The timer after \<open>n\<close> expiries.\<close>

definition backoff :: "nat \<Rightarrow> nat" where
  "backoff n = min (1000000 * 2 ^ n) 60000000"

definition timer_at :: "nat \<Rightarrow> dtls1_timer \<Rightarrow> bool" where
  "timer_at n t \<longleftrightarrow> timer_cb t = None \<and> unat (num_alerts t) = n \<and> unat (timeout_duration_us t) = backoff n
     \<and> next_timeout t \<noteq> time_zero"

lemma add_duration_running:
  assumes "valid_time now" and "0 \<le> micros now" and "0 < us"
  shows "add_duration now us \<noteq> time_zero"
proof
  assume "add_duration now us = time_zero"
  then have "micros now + uint us = 0"
    using add_duration_exact(2) [OF assms(1), of us] by (simp add: micros_def time_zero_def)
  moreover have "0 < uint us" using assms(3) by (simp add: word_less_alt)
  ultimately show False using assms(2) by linarith
qed

lemma start_timer_running:
  assumes "clock_ok te" and "next_timeout (timer c) \<noteq> time_zero" and "0 < timeout_duration_us (timer c)"
  obtains t st where "dtls1_start_timer te c = \<lparr>d1 = (d1 c)\<lparr>io := st\<rparr>, timer = (timer c)\<lparr>next_timeout := t\<rparr>\<rparr>"
    and "t \<noteq> time_zero"
proof -
  obtain now st where g: "get_current_time te (io (d1 c)) = (now, st)" by (cases "get_current_time te (io (d1 c))")
  have ck: "\<not> dgram_is_sctp te (io (d1 c))" "valid_time now" "0 \<le> micros now"
    using assms(1) [unfolded clock_ok_def, THEN spec, of "io (d1 c)"] g by simp_all
  have "dtls1_start_timer te c = \<lparr>d1 = (d1 c)\<lparr>io := set_next_timeout te (add_duration now (timeout_duration_us (timer c))) st\<rparr>,
      timer = (timer c)\<lparr>next_timeout := add_duration now (timeout_duration_us (timer c))\<rparr>\<rparr>"
    using ck(1) g assms(2) by (cases c) (simp add: dtls1_start_timer_def on_io_def)
  then show thesis using add_duration_running [OF ck(2,3) assms(3)] that by blast
qed

lemma expired_running:
  assumes "fst (dtls1_is_timer_expired te c)"
  obtains st where "dtls1_is_timer_expired te c = (True, on_io (\<lambda>_. st) c)" and "next_timeout (timer c) \<noteq> time_zero"
  using assms that
  by (auto simp: dtls1_is_timer_expired_def dtls1_get_timeout_def Let_def split: if_splits prod.splits option.splits)

lemma unat_double:
  assumes "unat (us :: u32) \<le> 60000000"
  shows "unat (if us * 2 > 60000000 then 60000000 else us * 2) = min (unat us * 2) 60000000"
proof -
  have "unat (us * 2) = unat us * 2"
    using assms by (subst unat_mult_lem [THEN iffD1]) simp_all
  then show ?thesis by (simp add: word_less_nat_alt min_def)
qed

lemma backoff_Suc: "min (backoff n * 2) 60000000 = backoff (Suc n)"
  by (simp add: backoff_def min_def)

lemma double_timeout_at:
  assumes "clock_ok te" and "next_timeout (timer c) \<noteq> time_zero" and "unat (timeout_duration_us (timer c)) = backoff n"
  obtains t us st where "dtls1_double_timeout te c = \<lparr>d1 = (d1 c)\<lparr>io := st\<rparr>,
      timer = (timer c)\<lparr>timeout_duration_us := us, next_timeout := t\<rparr>\<rparr>"
    and "t \<noteq> time_zero" and "unat us = backoff (Suc n)" and "0 < us"
proof -
  let ?us = "timeout_duration_us (timer c) * 2"
  let ?u = "if ?us > 60000000 then 60000000 else ?us"
  let ?c = "c\<lparr>timer := (timer c)\<lparr>timeout_duration_us := ?u\<rparr>\<rparr>"
  have u: "unat ?u = backoff (Suc n)"
    using unat_double [of "timeout_duration_us (timer c)"] assms(3) backoff_Suc [of n]
    by (simp add: backoff_def)
  then have pos: "0 < ?u" by (simp add: word_less_nat_alt backoff_def)
  obtain t st where "dtls1_start_timer te ?c = \<lparr>d1 = (d1 ?c)\<lparr>io := st\<rparr>, timer = (timer ?c)\<lparr>next_timeout := t\<rparr>\<rparr>"
    "t \<noteq> time_zero"
  proof (rule start_timer_running [OF assms(1), of ?c])
    show "next_timeout (timer ?c) \<noteq> time_zero" using assms(2) by simp
    show "0 < timeout_duration_us (timer ?c)" using pos by simp
  qed (rule that)
  then show thesis using u pos by (intro that [of st t ?u]) (simp_all add: dtls1_double_timeout_def Let_def)
qed

text \<open>One expiry: the timer moves on, or the connection fails after the last one.\<close>

lemma handle_timeout_at:
  assumes "clock_ok te" and "timer_at n (timer c)" and "n \<le> 12" and "fst (dtls1_is_timer_expired te c)"
  shows "if n = 12 then \<exists>c'. dtls1_handle_timeout e w w_epoch set_epoch te c = Some (- 1, c')
        \<and> otls_statem_in_error (core (d1 c'))
      else \<exists>c'. timer_at (Suc n) (timer c') \<and> dtls1_handle_timeout e w w_epoch set_epoch te c
        = map_option (\<lambda>(r, s). (r, c'\<lparr>d1 := s\<rparr>)) (dtls1_retransmit_buffered_messages e w w_epoch set_epoch (d1 c'))"
proof -
  obtain st0 where x: "dtls1_is_timer_expired te c = (True, on_io (\<lambda>_. st0) c)"
    using assms(4) by (rule expired_running)
  let ?c0 = "on_io (\<lambda>_. st0) c"
  have t0: "timer ?c0 = timer c" by (simp add: on_io_def)
  have at: "timer_cb (timer c) = None" "unat (num_alerts (timer c)) = n" "unat (timeout_duration_us (timer c)) = backoff n"
    "next_timeout (timer c) \<noteq> time_zero" using assms(2) by (simp_all add: timer_at_def)
  obtain t us st where d: "dtls1_double_timeout te ?c0 = \<lparr>d1 = (d1 ?c0)\<lparr>io := st\<rparr>,
      timer = (timer c)\<lparr>timeout_duration_us := us, next_timeout := t\<rparr>\<rparr>"
    "t \<noteq> time_zero" "unat us = backoff (Suc n)" "0 < us"
    using double_timeout_at [OF assms(1), of ?c0 n] at t0 by metis
  let ?c1 = "\<lparr>d1 = (d1 ?c0)\<lparr>io := st\<rparr>, timer = (timer c)\<lparr>timeout_duration_us := us, next_timeout := t\<rparr>\<rparr>"
  let ?na = "num_alerts (timer c) + 1"
  have na: "unat ?na = Suc n"
    using at(2) assms(3) by (subst unat_add_lem [THEN iffD1]) simp_all
  obtain r c2 where ck: "dtls1_check_timeout_num te ?c1 = (r, c2)" by (cases "dtls1_check_timeout_num te ?c1")
  have c2: "timer c2 = (timer ?c1)\<lparr>num_alerts := ?na\<rparr>" "r = (if n = 12 then - 1 else 0)"
    "n = 12 \<Longrightarrow> otls_statem_in_error (core (d1 c2))"
    using ck na assms(3)
    by (auto simp: dtls1_check_timeout_num_def Let_def word_less_nat_alt tlsfatal_def on_core_def
        otls_statem_in_error_def otls_statem_fatal_def split: if_splits)
  have h: "dtls1_handle_timeout e w w_epoch set_epoch te c = (if r < 0 then Some (- 1, c2) else
      (let m = read_timeouts (timer c2) + 1; m = (if m > 2 then 1 else m);
           c3 = dtls1_start_timer te (c2\<lparr>timer := (timer c2)\<lparr>read_timeouts := m\<rparr>\<rparr>) in
       map_option (\<lambda>(r, s). (r, c3\<lparr>d1 := s\<rparr>)) (dtls1_retransmit_buffered_messages e w w_epoch set_epoch (d1 c3))))"
    by (simp add: dtls1_handle_timeout_def x t0 at(1) d(1) ck Let_def)
  show ?thesis
  proof (cases "n = 12")
    case True
    with h c2(2,3) show ?thesis by simp
  next
    case False
    let ?m = "let m = read_timeouts (timer c2) + 1 in if m > 2 then 1 else m"
    let ?c2 = "c2\<lparr>timer := (timer c2)\<lparr>read_timeouts := ?m\<rparr>\<rparr>"
    obtain t' st' where c3: "dtls1_start_timer te ?c2 = \<lparr>d1 = (d1 ?c2)\<lparr>io := st'\<rparr>, timer = (timer ?c2)\<lparr>next_timeout := t'\<rparr>\<rparr>"
      "t' \<noteq> time_zero"
    proof (rule start_timer_running [OF assms(1), of ?c2])
      show "next_timeout (timer ?c2) \<noteq> time_zero" using c2(1) d(2) by simp
      show "0 < timeout_duration_us (timer ?c2)" using c2(1) d(4) by simp
    qed (rule that)
    have "timer_at (Suc n) (timer (dtls1_start_timer te ?c2))"
      using c3 c2(1) at(1) na d(3) by (simp add: timer_at_def)
    with False h c2(2) show ?thesis by (auto simp: Let_def)
  qed
qed

text \<open>
  C22: The schedule of retransmissions. A timer that was started with one second doubles its
  duration with every expiry up to one minute, retransmitting the last flight each time. After
  twelve expiries without an answer the next one ends the connection with an error, so that a
  peer that stays silent is given up.
\<close>

theorem dtls_retransmission_schedule:
  assumes "clock_ok te" and "timer_at 0 (timer c)" and "expiries e w w_epoch set_epoch te c n c'"
  shows "n \<le> 12 \<and> unat (timeout_duration_us (timer c')) = min (1000000 * 2 ^ n) 60000000
    \<and> unat (num_alerts (timer c')) = n
    \<and> (n = 12 \<longrightarrow> fst (dtls1_is_timer_expired te c') \<longrightarrow>
        (\<exists>c''. dtls1_handle_timeout e w w_epoch set_epoch te c' = Some (- 1, c'')
          \<and> otls_statem_in_error (core (d1 c''))))"
proof -
  have "n \<le> 12 \<and> timer_at n (timer c')"
    using assms(3)
  proof (induction rule: expiries.induct)
    case (expiry n c1 c2)
    then have "n \<noteq> 12" using handle_timeout_at [OF assms(1), of n c1 e w w_epoch set_epoch] by auto
    with expiry show ?case using handle_timeout_at [OF assms(1), of n c1 e w w_epoch set_epoch]
      by (auto simp: map_option_case split: option.splits)
  qed (use assms(2) in \<open>simp_all add: on_io_def\<close>)
  then show ?thesis
    using handle_timeout_at [OF assms(1), of n c' e w w_epoch set_epoch] by (auto simp: timer_at_def backoff_def)
qed

subsection \<open>A sample timer\<close>

text \<open>A network whose clock shows 100 seconds per record in its log and logs every look at it.\<close>

definition sample_timer_env :: "bytes list timer_env" where
  "sample_timer_env = \<lparr>get_current_time = (\<lambda>st. (\<lparr>tv_sec = 100 * int (length st), tv_usec = 0\<rparr>, [] # st)),
     dgram_is_sctp = (\<lambda>_. False), set_next_timeout = (\<lambda>_ st. st), fallback_mtu = (\<lambda>_. 548)\<rparr>"

definition sample_conn :: "bytes list conn" where
  "sample_conn = \<lparr>d1 = sample_sender [], timer = \<lparr>read_timeouts = 0, write_timeouts = 0, num_alerts = 0,
     next_timeout = \<lparr>tv_sec = 1, tv_usec = 20000\<rparr>, timeout_duration_us = 1000000, timer_cb = None\<rparr>\<rparr>"

lemma sample_clock_ok: "clock_ok sample_timer_env"
  by (simp add: clock_ok_def sample_timer_env_def valid_time_def micros_def)

theorem dtls1_get_timeout_exact_witness:
  "\<exists>left. dtls1_get_timeout sample_timer_env sample_conn = (Some left, on_io (\<lambda>_. [[]]) sample_conn)
    \<and> micros left = 1020000 \<and> \<not> fst (dtls1_is_timer_expired sample_timer_env sample_conn)"
proof -
  have c: "get_current_time sample_timer_env (io (d1 sample_conn)) = (time_zero, [[]])"
    "valid_time time_zero" "valid_time (next_timeout (timer sample_conn))" "next_timeout (timer sample_conn) \<noteq> time_zero"
    "micros (next_timeout (timer sample_conn)) - micros time_zero = 1020000"
    by (simp_all add: sample_timer_env_def sample_conn_def sample_sender_def time_zero_def valid_time_def micros_def)
  show ?thesis using dtls1_get_timeout_exact [OF c(1-4)] unfolding c(5) Let_def by auto
qed

theorem dtls_retransmission_schedule_witness:
  "\<exists>c'. expiries sample_senv sample_wenv (\<lambda>_. 0) (\<lambda>_ st. st) sample_timer_env sample_conn 1 c'
    \<and> unat (timeout_duration_us (timer c')) = 2000000 \<and> unat (num_alerts (timer c')) = 1"
proof -
  let ?c1 = "on_io (\<lambda>_. [[]]) sample_conn"
  have at: "timer_at 0 (timer sample_conn)" by (simp add: timer_at_def sample_conn_def backoff_def time_zero_def)
  have x: "fst (dtls1_is_timer_expired sample_timer_env ?c1)"
    by (simp add: dtls1_is_timer_expired_def dtls1_get_timeout_def sample_timer_env_def sample_conn_def on_io_def time_zero_def)
  have "\<exists>c2. dtls1_handle_timeout sample_senv sample_wenv (\<lambda>_. 0) (\<lambda>_ st. st) sample_timer_env ?c1 = Some (1, c2)"
    by (simp add: dtls1_handle_timeout_def dtls1_is_timer_expired_def dtls1_get_timeout_def dtls1_double_timeout_def
        dtls1_start_timer_def dtls1_check_timeout_num_def dtls1_retransmit_buffered_messages_def pqueue_iterator_def
        sample_timer_env_def sample_conn_def sample_sender_def on_io_def time_zero_def Let_def)
  then obtain c2 where ex: "expiries sample_senv sample_wenv (\<lambda>_. 0) (\<lambda>_ st. st) sample_timer_env sample_conn (Suc 0) c2"
    using expiries.expiry [OF expiries.wait [OF expiries.start] x] by blast
  show ?thesis
    using dtls_retransmission_schedule [OF sample_clock_ok at ex] ex by (intro exI [of _ c2]) simp
qed

end
