(* ===== verification/Statem.thy ===== *)
theory Statem
  imports Statem_Clnt Statem_Srvr Tls_Construct Dtls_Timer
begin

text \<open>
  The message flow state machine (\<open>ssl/statem/statem.c\<close>): \<open>state_machine\<close>, which drives a
  handshake by alternating between reading and writing, and its two sub-state machines. The
  transitions, the message types and the size limits of both sides, the reading and writing of
  messages over TLS and DTLS, the construction of messages and the timer are those of the other
  theories. The functions that process a message or do the work before and after a message, the
  security policy and the set-up of the record layer are parameters. Callbacks of the application
  (\<open>info_callback\<close>), SCTP, which is disabled by default, and the flag \<open>change_cipher_spec\<close> of the
  record layer, which the machine clears, are left out. A loop that never ends
  has no result.
\<close>

section \<open>Parameters\<close>

datatype MSG_PROCESS_RETURN =
    MSG_PROCESS_ERROR | MSG_PROCESS_FINISHED_READING | MSG_PROCESS_CONTINUE_PROCESSING
  | MSG_PROCESS_CONTINUE_READING

datatype SUB_STATE_RETURN = SUB_STATE_ERROR | SUB_STATE_FINISHED | SUB_STATE_END_HANDSHAKE

record 'io drv =
  tenv :: "'io tls_env"
  wenv :: "'io dtls_wenv"
  w_epoch :: "'io \<Rightarrow> u16"
  tmenv :: "'io timer_env"
  henv :: hs_env
  clear :: "'io conn \<Rightarrow> bool \<times> 'io conn"
  security_version :: "tls \<Rightarrow> bool"
  setup_buffers :: "'io conn \<Rightarrow> bool \<times> 'io conn"
  init_wbio_buffer :: "'io conn \<Rightarrow> bool \<times> 'io conn"
  construct_fn :: "confunc \<Rightarrow> 'io pkt_fun"
  process_message :: "bytes \<Rightarrow> 'io conn \<Rightarrow> MSG_PROCESS_RETURN \<times> 'io conn"
  post_process_message :: "WORK_STATE \<Rightarrow> 'io conn \<Rightarrow> WORK_STATE \<times> 'io conn"
  pre_work :: "WORK_STATE \<Rightarrow> 'io conn \<Rightarrow> WORK_STATE \<times> 'io conn"
  post_work :: "WORK_STATE \<Rightarrow> 'io conn \<Rightarrow> WORK_STATE \<times> 'io conn"

abbreviation (input) tls_R_MISSING_FATAL :: int where "tls_R_MISSING_FATAL \<equiv> 256"
abbreviation (input) ERR_R_SHOULD_NOT_HAVE_BEEN_CALLED :: int where
  "ERR_R_SHOULD_NOT_HAVE_BEEN_CALLED \<equiv> 2 + 64"
abbreviation (input) tls3_RT_MAX_PLAIN_LENGTH :: nat where "tls3_RT_MAX_PLAIN_LENGTH \<equiv> 16384"
abbreviation (input) tls3_VERSION_MAJOR :: int where "tls3_VERSION_MAJOR \<equiv> 3"

text \<open>Access to the parts of a connection.\<close>

abbreviation ccore :: "'io conn \<Rightarrow> tls" where "ccore c \<equiv> core (d1 c)"
abbreviation st :: "'io conn \<Rightarrow> otls_statem" where "st c \<equiv> statem (core (d1 c))"

definition upd_core :: "(tls \<Rightarrow> tls) \<Rightarrow> 'io conn \<Rightarrow> 'io conn" where
  "upd_core f c = c\<lparr>d1 := on_core f (d1 c)\<rparr>"

definition upd_st :: "(otls_statem \<Rightarrow> otls_statem) \<Rightarrow> 'io conn \<Rightarrow> 'io conn" where
  "upd_st f = upd_core (\<lambda>s. s\<lparr>statem := f (statem s)\<rparr>)"

definition fatal :: "int \<Rightarrow> int \<Rightarrow> 'io conn \<Rightarrow> 'io conn" where
  "fatal al reason = upd_core (otls_statem_fatal al reason)"

definition check_fatal :: "'io conn \<Rightarrow> 'io conn" where
  "check_fatal c =
     (if \<not> (in_init (st c) \<and> flow_state (st c) = MSG_FLOW_ERROR)
      then fatal tls_AD_INTERNAL_ERROR tls_R_MISSING_FATAL c else c)"

section \<open>Reading\<close>

definition init_read_state_machine :: "'io conn \<Rightarrow> 'io conn" where
  "init_read_state_machine = upd_st (read_state_update (\<lambda>_. READ_STATE_HEADER))"

text \<open>The function tables of the two sides.\<close>

definition read_transition :: "hs_env \<Rightarrow> bool \<Rightarrow> tls \<Rightarrow> int \<Rightarrow> bool \<times> tls" where
  "read_transition e srv = (if srv then otls_statem_server_read_transition else otls_statem_client_read_transition e)"

definition max_message_size :: "bool \<Rightarrow> tls \<Rightarrow> nat" where
  "max_message_size srv = (if srv then otls_statem_server_max_message_size else otls_statem_client_max_message_size)"

text \<open>
  The case \<open>READ_STATE_HEADER\<close>; \<open>Inl\<close> is the return of \<open>SUB_STATE_ERROR\<close>, \<open>Inr\<close> the fall
  through to the body with the length read so far.
\<close>

definition read_header :: "'io drv \<Rightarrow> bool \<Rightarrow> nat \<Rightarrow> 'io conn \<Rightarrow> ('io conn + nat \<times> 'io conn) option" where
  "read_header d srv len c = do {
     (ret, mt, len, s) \<leftarrow> (if tls_IS_DTLS (ccore c) then
         map_option (\<lambda>(ret, mt, l, s). (ret, mt, if ret then l else len, s)) (dtls_get_message (base (tenv d)) (d1 c))
       else map_option (\<lambda>(ret, mt, s). (ret, mt, len, s)) (tls_get_message_header (tenv d) (d1 c)));
     let c = c\<lparr>d1 := s\<rparr>;
     if \<not> ret then Some (Inl c)
     else
       let (ok, co) = read_transition (henv d) srv (ccore c) mt;
           c = upd_core (\<lambda>_. co) c in
       if \<not> ok then Some (Inl c)
       else if message_size (d1 c) > max_message_size srv (ccore c)
       then Some (Inl (fatal tls_AD_ILLEGAL_PARAMETER tls_R_EXCESSIVE_MESSAGE_SIZE c))
       else do {
         (ok, s) \<leftarrow> (if \<not> tls_IS_DTLS (ccore c) \<and> message_size (d1 c) > 0
           then grow_init_buf (tenv d) (uadd (message_size (d1 c)) tls3_HM_HEADER_LENGTH) (d1 c)
           else Some (True, d1 c));
         let c = c\<lparr>d1 := s\<rparr>;
         if \<not> ok then Some (Inl (fatal tls_AD_INTERNAL_ERROR ERR_R_BUF_LIB c))
         else Some (Inr (len, upd_st (read_state_update (\<lambda>_. READ_STATE_BODY)) c))
       }
   }"

text \<open>What follows the processing of a message; \<open>Inr\<close> is another round of the loop.\<close>

definition message_processed ::
  "'io drv \<Rightarrow> MSG_PROCESS_RETURN \<times> 'io conn \<Rightarrow> SUB_STATE_RETURN \<times> 'io conn + 'io conn" where
  "message_processed d r =
     (case r of (ret, c) \<Rightarrow>
        let c = upd_core (init_num_update (\<lambda>_. 0)) c in
        case ret of
          MSG_PROCESS_ERROR \<Rightarrow> Inl (SUB_STATE_ERROR, check_fatal c)
        | MSG_PROCESS_FINISHED_READING \<Rightarrow>
            Inl (SUB_STATE_FINISHED, if tls_IS_DTLS (ccore c) then dtls1_stop_timer (tmenv d) c else c)
        | MSG_PROCESS_CONTINUE_PROCESSING \<Rightarrow>
            Inr (upd_st (\<lambda>s. s\<lparr>read_state := READ_STATE_POST_PROCESS, read_state_work := WORK_MORE_A\<rparr>) c)
        | MSG_PROCESS_CONTINUE_READING \<Rightarrow> Inr (upd_st (read_state_update (\<lambda>_. READ_STATE_HEADER)) c))"

definition read_body ::
  "'io drv \<Rightarrow> nat \<Rightarrow> 'io conn \<Rightarrow> (SUB_STATE_RETURN \<times> 'io conn + nat \<times> 'io conn) option" where
  "read_body d len c = do {
     (ret, len, s) \<leftarrow> (if \<not> tls_IS_DTLS (ccore c) then tls_get_message_body (tenv d) (d1 c)
       else Some (True, len, d1 c));
     let c = c\<lparr>d1 := s\<rparr>;
     if \<not> ret then Some (Inl (SUB_STATE_ERROR, c))
     else
       let c = upd_core (first_packet_update (\<lambda>_. False)) c in
       if len > SIZE_MAX div 2
       then Some (Inl (SUB_STATE_ERROR, fatal tls_AD_INTERNAL_ERROR ERR_R_INTERNAL_ERROR c))
       else do {
         pkt \<leftarrow> buf_load (init_msg (d1 c)) len (d1 c);
         Some (map_sum id (Pair len) (message_processed d (process_message d pkt c)))
       }
   }"

definition read_post_process ::
  "'io drv \<Rightarrow> 'io conn \<Rightarrow> SUB_STATE_RETURN \<times> 'io conn + 'io conn" where
  "read_post_process d c =
     (let (work, c) = post_process_message d (read_state_work (st c)) c;
          c = upd_st (read_state_work_update (\<lambda>_. work)) c in
      case work of
        WORK_ERROR \<Rightarrow> Inl (SUB_STATE_ERROR, check_fatal c)
      | WORK_FINISHED_CONTINUE \<Rightarrow> Inr (upd_st (read_state_update (\<lambda>_. READ_STATE_HEADER)) c)
      | WORK_FINISHED_STOP \<Rightarrow>
          Inl (SUB_STATE_FINISHED, if tls_IS_DTLS (ccore c) then dtls1_stop_timer (tmenv d) c else c)
      | _ \<Rightarrow> Inl (SUB_STATE_ERROR, c))"

partial_function (option) read_loop ::
  "'io drv \<Rightarrow> bool \<Rightarrow> nat \<Rightarrow> 'io conn \<Rightarrow> (SUB_STATE_RETURN \<times> 'io conn) option" where
  "read_loop d srv len c =
     (case read_state (st c) of
        READ_STATE_HEADER \<Rightarrow>
          Option.bind (read_header d srv len c) (\<lambda>r. case r of
            Inl c \<Rightarrow> Some (SUB_STATE_ERROR, c)
          | Inr (len, c) \<Rightarrow> Option.bind (read_body d len c) (\<lambda>r. case r of
              Inl x \<Rightarrow> Some x | Inr (len, c) \<Rightarrow> read_loop d srv len c))
      | READ_STATE_BODY \<Rightarrow>
          Option.bind (read_body d len c) (\<lambda>r. case r of
            Inl x \<Rightarrow> Some x | Inr (len, c) \<Rightarrow> read_loop d srv len c)
      | READ_STATE_POST_PROCESS \<Rightarrow>
          (case read_post_process d c of Inl x \<Rightarrow> Some x | Inr c \<Rightarrow> read_loop d srv len c))"

declare read_loop.simps [code]

definition note_first_packet :: "'io conn \<Rightarrow> 'io conn" where
  "note_first_packet c =
     (if read_state_first_init (st c)
      then upd_st (read_state_first_init_update (\<lambda>_. False)) (upd_core (first_packet_update (\<lambda>_. True)) c)
      else c)"

definition read_state_machine :: "'io drv \<Rightarrow> 'io conn \<Rightarrow> (SUB_STATE_RETURN \<times> 'io conn) option" where
  "read_state_machine d c = read_loop d (server (ccore c)) 0 (note_first_packet c)"

section \<open>Writing\<close>

definition init_write_state_machine :: "'io conn \<Rightarrow> 'io conn" where
  "init_write_state_machine = upd_st (write_state_update (\<lambda>_. WRITE_STATE_TRANSITION))"

definition write_transition :: "hs_env \<Rightarrow> bool \<Rightarrow> tls \<Rightarrow> WRITE_TRAN \<times> tls" where
  "write_transition e srv = (if srv then otls_statem_server_write_transition e else otls_statem_client_write_transition e)"

definition get_construct_message_f :: "bool \<Rightarrow> tls \<Rightarrow> (confunc option \<times> int) option \<times> tls" where
  "get_construct_message_f srv =
     (if srv then otls_statem_server_construct_message else otls_statem_client_construct_message)"

definition write_tran :: "'io drv \<Rightarrow> bool \<Rightarrow> 'io conn \<Rightarrow> SUB_STATE_RETURN \<times> 'io conn + 'io conn" where
  "write_tran d srv c =
     (let (tran, co) = write_transition (henv d) srv (ccore c); c = upd_core (\<lambda>_. co) c in
      case tran of
        WRITE_TRAN_CONTINUE \<Rightarrow>
          Inr (upd_st (\<lambda>s. s\<lparr>write_state := WRITE_STATE_PRE_WORK, write_state_work := WORK_MORE_A\<rparr>) c)
      | WRITE_TRAN_FINISHED \<Rightarrow> Inl (SUB_STATE_FINISHED, c)
      | WRITE_TRAN_ERROR \<Rightarrow> Inl (SUB_STATE_ERROR, check_fatal c))"

text \<open>
  The work before and after a message: \<open>Inr\<close> when the machine goes on. The result is also kept
  in \<open>write_state_work\<close>.
\<close>

definition write_work ::
  "(WORK_STATE \<Rightarrow> 'io conn \<Rightarrow> WORK_STATE \<times> 'io conn) \<Rightarrow> WRITE_STATE \<Rightarrow> 'io conn
   \<Rightarrow> SUB_STATE_RETURN \<times> 'io conn + 'io conn" where
  "write_work f nxt c =
     (let (work, c) = f (write_state_work (st c)) c;
          c = upd_st (write_state_work_update (\<lambda>_. work)) c in
      case work of
        WORK_ERROR \<Rightarrow> Inl (SUB_STATE_ERROR, check_fatal c)
      | WORK_FINISHED_CONTINUE \<Rightarrow> Inr (upd_st (write_state_update (\<lambda>_. nxt)) c)
      | WORK_FINISHED_STOP \<Rightarrow> Inl (SUB_STATE_END_HANDSHAKE, c)
      | _ \<Rightarrow> Inl (SUB_STATE_ERROR, c))"

text \<open>
  The case \<open>WRITE_STATE_PRE_WORK\<close>: \<open>Inr (True, c)\<close> falls through to sending, \<open>Inr (False, c)\<close>
  starts the next round of the loop. \<open>construct_message\<close> fails after a fatal error of its own or
  because of the construction function; \<open>check_fatal\<close>, which the code calls in the second case
  only, does nothing in the first.
\<close>

definition write_pre_work ::
  "'io drv \<Rightarrow> bool \<Rightarrow> 'io conn \<Rightarrow> (SUB_STATE_RETURN \<times> 'io conn + bool \<times> 'io conn) option" where
  "write_pre_work d srv c =
     (case write_work (pre_work d) WRITE_STATE_SEND c of
        Inl x \<Rightarrow> Some (Inl x)
      | Inr c \<Rightarrow>
          (case get_construct_message_f srv (ccore c) of
             (None, co) \<Rightarrow> Some (Inl (SUB_STATE_ERROR, upd_core (\<lambda>_. co) c))
           | (Some (con, mt), co) \<Rightarrow>
               let c = upd_core (\<lambda>_. co) c in
               if mt = tls3_MT_DUMMY
               then Some (Inr (False, upd_st (\<lambda>s. s\<lparr>write_state := WRITE_STATE_POST_WORK, write_state_work := WORK_MORE_A\<rparr>) c))
               else do {
                 (ok, s) \<leftarrow> construct_message (base (tenv d)) (w_epoch d) (map_option (construct_fn d) con) mt (d1 c);
                 let c = c\<lparr>d1 := s\<rparr>;
                 Some (if ok then Inr (True, c) else Inl (SUB_STATE_ERROR, check_fatal c))
               }))"

definition write_send :: "'io drv \<Rightarrow> 'io conn \<Rightarrow> (SUB_STATE_RETURN \<times> 'io conn + 'io conn) option" where
  "write_send d c = do {
     let c = (if tls_IS_DTLS (ccore c) \<and> use_timer (st c) then dtls1_start_timer (tmenv d) c else c);
     (ret, s) \<leftarrow> statem_do_write (tenv d) (wenv d) (d1 c);
     let c = c\<lparr>d1 := s\<rparr>;
     Some (if ret \<le> 0 then Inl (SUB_STATE_ERROR, c)
       else Inr (upd_st (\<lambda>s. s\<lparr>write_state := WRITE_STATE_POST_WORK, write_state_work := WORK_MORE_A\<rparr>) c))
   }"

definition write_post_work :: "'io drv \<Rightarrow> 'io conn \<Rightarrow> SUB_STATE_RETURN \<times> 'io conn + 'io conn" where
  "write_post_work d = write_work (post_work d) WRITE_STATE_TRANSITION"

text \<open>Sending falls through to the work after the message.\<close>

definition write_send_post :: "'io drv \<Rightarrow> 'io conn \<Rightarrow> (SUB_STATE_RETURN \<times> 'io conn + 'io conn) option" where
  "write_send_post d c = do {
     r \<leftarrow> write_send d c;
     Some (case r of Inl x \<Rightarrow> Inl x | Inr c \<Rightarrow> write_post_work d c)
   }"

definition write_round ::
  "'io drv \<Rightarrow> bool \<Rightarrow> 'io conn \<Rightarrow> (SUB_STATE_RETURN \<times> 'io conn + 'io conn) option" where
  "write_round d srv c =
     (case write_state (st c) of
        WRITE_STATE_TRANSITION \<Rightarrow> Some (write_tran d srv c)
      | WRITE_STATE_PRE_WORK \<Rightarrow> do {
          r \<leftarrow> write_pre_work d srv c;
          (case r of
             Inl x \<Rightarrow> Some (Inl x)
           | Inr (go, c) \<Rightarrow> if go then write_send_post d c else Some (Inr c))
        }
      | WRITE_STATE_SEND \<Rightarrow> write_send_post d c
      | WRITE_STATE_POST_WORK \<Rightarrow> Some (write_post_work d c))"

partial_function (option) write_loop ::
  "'io drv \<Rightarrow> bool \<Rightarrow> 'io conn \<Rightarrow> (SUB_STATE_RETURN \<times> 'io conn) option" where
  "write_loop d srv c =
     Option.bind (write_round d srv c) (\<lambda>r. case r of Inl x \<Rightarrow> Some x | Inr c \<Rightarrow> write_loop d srv c)"

declare write_loop.simps [code]

definition write_state_machine :: "'io drv \<Rightarrow> 'io conn \<Rightarrow> (SUB_STATE_RETURN \<times> 'io conn) option" where
  "write_state_machine d c = write_loop d (server (ccore c)) c"

definition statem_flush :: "('io \<Rightarrow> int \<times> 'io) \<Rightarrow> 'io conn \<Rightarrow> bool \<times> 'io conn" where
  "statem_flush flush c =
     (let c = upd_core (rwstate_update (\<lambda>_. tls_WRITING)) c; (r, i) = flush (io (d1 c)); c = on_io (\<lambda>_. i) c in
      if r \<le> 0 then (False, c) else (True, upd_core (rwstate_update (\<lambda>_. tls_NOTHING)) c))"

section \<open>The machine\<close>

text \<open>
  The initialisation of the machine; \<open>Inl\<close> is the jump to the end. A NULL pointer \<open>init_buf\<close> is
  a buffer without memory.
\<close>

definition version_ok :: "bool \<Rightarrow> tls \<Rightarrow> bool" where
  "version_ok srv s =
     (if tls_IS_DTLS s
      then \<not> (version s AND 0xff00 \<noteq> DTLS1_VERSION AND 0xff00
              \<and> (srv \<or> version s AND 0xff00 \<noteq> DTLS1_BAD_VER AND 0xff00))
      else drop_bit 8 (version s) = tls3_VERSION_MAJOR)"

definition new_init_buf :: "'io dtls_env \<Rightarrow> 'io conn \<Rightarrow> (bool \<times> 'io conn) option" where
  "new_init_buf e c =
     (if b_data (init_buf (d1 c)) \<noteq> None then Some (True, c)
      else case BUF_MEM_new (malloc e) of
        None \<Rightarrow> Some (False, c)
      | Some buf \<Rightarrow> do {
          (r, buf) \<leftarrow> BUF_MEM_grow (malloc e) (sec_malloc e) buf tls3_RT_MAX_PLAIN_LENGTH;
          Some (if r = 0 then (False, c) else (True, c\<lparr>d1 := (d1 c)\<lparr>init_buf := buf\<rparr>\<rparr>))
        })"

definition init_machine :: "'io drv \<Rightarrow> bool \<Rightarrow> 'io conn \<Rightarrow> ('io conn + 'io conn) option" where
  "init_machine d srv c =
     (let fail = (\<lambda>c. Some (Inl (fatal tls_AD_NO_ALERT ERR_R_INTERNAL_ERROR c)));
          c = (if flow_state (st c) = MSG_FLOW_UNINITED
               then upd_st (\<lambda>s. s\<lparr>hand_state := TLS_ST_BEFORE, request_state := TLS_ST_BEFORE\<rparr>) c else c);
          c = upd_core (server_update (\<lambda>_. srv)) c in
      if \<not> version_ok srv (ccore c) then fail c
      else if \<not> security_version d (ccore c) then fail c
      else do {
        (ok, c) \<leftarrow> new_init_buf (base (tenv d)) c;
        if \<not> ok then fail c
        else case setup_buffers d c of (ok, c) \<Rightarrow>
          if \<not> ok then fail c
          else let c = upd_core (init_num_update (\<lambda>_. 0)) c in
            case init_wbio_buffer d c of (ok, c) \<Rightarrow>
              if \<not> ok then fail c
              else
                let (ok, c) = (if tls_in_before (ccore c) \<or> renegotiate (ccore c)
                    then (case tls_setup_handshake (henv d) (ccore c) of (ok, co) \<Rightarrow>
                            let c = upd_core (\<lambda>_. co) c in
                            if \<not> ok then (False, c)
                            else (True, if tls_IS_FIRST_HANDSHAKE (ccore c)
                              then upd_st (read_state_first_init_update (\<lambda>_. True)) c else c))
                    else (True, c)) in
                if \<not> ok then Some (Inl c)
                else Some (Inr (init_write_state_machine (upd_st (flow_state_update (\<lambda>_. MSG_FLOW_WRITING)) c)))
      })"

text \<open>One round of the loop of \<open>state_machine\<close>.\<close>

definition machine_round :: "'io drv \<Rightarrow> 'io conn \<Rightarrow> ('io conn + 'io conn) option" where
  "machine_round d c =
     (case flow_state (st c) of
        MSG_FLOW_READING \<Rightarrow> do {
          (r, c) \<leftarrow> read_state_machine d c;
          Some (if r = SUB_STATE_FINISHED
            then Inr (init_write_state_machine (upd_st (flow_state_update (\<lambda>_. MSG_FLOW_WRITING)) c)) else Inl c)
        }
      | MSG_FLOW_WRITING \<Rightarrow> do {
          (r, c) \<leftarrow> write_state_machine d c;
          Some (case r of
              SUB_STATE_FINISHED \<Rightarrow> Inr (init_read_state_machine (upd_st (flow_state_update (\<lambda>_. MSG_FLOW_READING)) c))
            | SUB_STATE_END_HANDSHAKE \<Rightarrow> Inr (upd_st (flow_state_update (\<lambda>_. MSG_FLOW_FINISHED)) c)
            | SUB_STATE_ERROR \<Rightarrow> Inl c)
        }
      | _ \<Rightarrow> Some (Inl (upd_core (err_queue_update (\<lambda>q. q @ [ERR_R_SHOULD_NOT_HAVE_BEEN_CALLED])) (check_fatal c))))"

partial_function (option) machine_loop :: "'io drv \<Rightarrow> 'io conn \<Rightarrow> (int \<times> 'io conn) option" where
  "machine_loop d c =
     (if flow_state (st c) = MSG_FLOW_FINISHED then Some (1, c)
      else Option.bind (machine_round d c) (\<lambda>r. case r of Inl c \<Rightarrow> Some (- 1, c) | Inr c \<Rightarrow> machine_loop d c))"

declare machine_loop.simps [code]

definition state_machine :: "'io drv \<Rightarrow> bool \<Rightarrow> 'io conn \<Rightarrow> (int \<times> 'io conn) option" where
  "state_machine d srv c =
     (if flow_state (st c) = MSG_FLOW_ERROR then Some (- 1, c)
      else
        let c = upd_core (otls_statem_set_in_handshake True \<circ> err_queue_update (\<lambda>_. [])) c;
            (ok, c) = (if (\<not> tls_in_init (ccore c) \<or> tls_in_before (ccore c))
                          \<and> s3_flags (ccore c) AND TLS1_FLAGS_STATELESS = 0 then clear d c else (True, c)) in
        if \<not> ok then Some (- 1, c)
        else do {
          r \<leftarrow> (if flow_state (st c) = MSG_FLOW_UNINITED \<or> flow_state (st c) = MSG_FLOW_FINISHED
                then init_machine d srv c else Some (Inr c));
          (ret, c) \<leftarrow> (case r of Inl c \<Rightarrow> Some (- 1, c) | Inr c \<Rightarrow> machine_loop d c);
          Some (ret, upd_core (otls_statem_set_in_handshake False) c)
        })"

definition otls_statem_connect :: "'io drv \<Rightarrow> 'io conn \<Rightarrow> (int \<times> 'io conn) option" where
  "otls_statem_connect d = state_machine d False"

definition otls_statem_accept :: "'io drv \<Rightarrow> 'io conn \<Rightarrow> (int \<times> 'io conn) option" where
  "otls_statem_accept d = state_machine d True"

text \<open>
  A call that fails to clear the connection returns between the increment and the decrement of
  \<open>in_handshake\<close>: the counter stays too high.
\<close>

lemma failed_clear_leaves_in_handshake:
  assumes "flow_state (st c) \<noteq> MSG_FLOW_ERROR" "tls_in_before (ccore c)"
    and "s3_flags (ccore c) AND TLS1_FLAGS_STATELESS = 0"
    and "\<And>x. \<exists>y. clear d x = (False, y) \<and> in_handshake (st y) = in_handshake (st x)"
  shows "\<exists>y. state_machine d srv c = Some (- 1, y) \<and> in_handshake (st y) = in_handshake (st c) + 1"
proof -
  define x where "x = upd_core (otls_statem_set_in_handshake True \<circ> err_queue_update (\<lambda>_. [])) c"
  have x: "tls_in_before (ccore x)" "s3_flags (ccore x) = s3_flags (ccore c)"
      "in_handshake (st x) = in_handshake (st c) + 1"
    using assms(2) by (simp_all add: x_def upd_core_def on_core_def otls_statem_set_in_handshake_def tls_in_before_def)
  obtain y where "clear d x = (False, y)" "in_handshake (st y) = in_handshake (st x)"
    using assms(4) [of x] by blast
  with x assms(1, 3) show ?thesis
    by (intro exI [of _ y]) (simp add: state_machine_def Let_def flip: x_def)
qed

end
