(* ===== verification/Statem_Messages.thy ===== *)
theory Statem_Messages
  imports Statem
begin

text \<open>
  What the message flow state machine does with the messages: over TLS, \<open>read_state_machine\<close>
  hands every message of the peer to \<open>process_message\<close>, whole and once, however the stream is cut
  into pieces and however often the reading has to be interrupted and resumed.
\<close>

section \<open>Receiving a message\<close>

text \<open>The message is acceptable in the state of the handshake, and not too long.\<close>

definition acceptable :: "'io drv \<Rightarrow> byte \<Rightarrow> bytes \<Rightarrow> bytes \<Rightarrow> tls \<Rightarrow> bool" where
  "acceptable d mt M dg s \<longleftrightarrow> (\<forall>rw n. case read_transition (henv d) (server s) (s\<lparr>init_num := n, rwstate := rw\<rparr>) (uint mt) of
     (ok, co) \<Rightarrow> ok \<and> length M \<le> max_message_size (server s) co \<and> \<not> tls_IS_DTLS co \<and> init_num co = n
       \<and> \<not> read_state_first_init (statem co)
       \<and> dg = handshake_dgst co @ transcript co mt M)"

text \<open>
  A TLS connection that is waiting for the message \<open>M\<close> of type \<open>mt\<close> or has received a part of it.
  After the message, the transcript will be \<open>dg\<close>.
\<close>

definition receiving ::
  "'io drv \<Rightarrow> ('io \<Rightarrow> bytes) \<Rightarrow> byte \<Rightarrow> bytes \<Rightarrow> bytes \<Rightarrow> bytes \<Rightarrow> 'io conn \<Rightarrow> bool" where
  "receiving d stream mt M later dg c \<longleftrightarrow> \<not> tls_IS_DTLS (ccore c) \<and> \<not> read_state_first_init (st c)
     \<and> (read_state (st c) = READ_STATE_HEADER \<and> at_header stream mt M later (d1 c) \<and> acceptable d mt M dg (ccore c)
       \<or> read_state (st c) = READ_STATE_BODY \<and> at_body stream mt M later (d1 c) \<and> roomy M (d1 c)
         \<and> dg = handshake_dgst (ccore c) @ transcript (ccore c) mt M)"

text \<open>The rest of the loop after the message has been processed.\<close>

definition after_message ::
  "'io drv \<Rightarrow> bool \<Rightarrow> nat \<Rightarrow> MSG_PROCESS_RETURN \<times> 'io conn \<Rightarrow> (SUB_STATE_RETURN \<times> 'io conn) option" where
  "after_message d srv len r = (case message_processed d r of Inl x \<Rightarrow> Some x | Inr c \<Rightarrow> read_loop d srv len c)"

lemma is_dtls_upd [simp]:
  "tls_IS_DTLS (s\<lparr>init_num := n\<rparr>) = tls_IS_DTLS s" "tls_IS_DTLS (s\<lparr>rwstate := rw\<rparr>) = tls_IS_DTLS s"
  "tls_IS_DTLS (s\<lparr>first_packet := fp\<rparr>) = tls_IS_DTLS s" "tls_IS_DTLS (s\<lparr>statem := m\<rparr>) = tls_IS_DTLS s"
  "tls_IS_DTLS (s\<lparr>peer_finish_md_len := l\<rparr>) = tls_IS_DTLS s" "tls_IS_DTLS (s\<lparr>handshake_dgst := dg\<rparr>) = tls_IS_DTLS s"
  by (simp_all add: tls_IS_DTLS_def)

lemma is_tls13_more [simp]:
  "tls_IS_TLS13 (s\<lparr>first_packet := fp\<rparr>) = tls_IS_TLS13 s" "tls_IS_TLS13 (s\<lparr>statem := m\<rparr>) = tls_IS_TLS13 s"
  by (simp_all add: tls_IS_TLS13_def tls_IS_DTLS_def)

lemma transcript_cong: "tls_IS_TLS13 c = tls_IS_TLS13 c' \<Longrightarrow> transcript c mt M = transcript c' mt M"
  by (simp add: transcript_def deferred_def)

lemma movedE:
  assumes "moved s s'"
  obtains n rw where "core s' = (core s)\<lparr>init_num := n, rwstate := rw\<rparr>"
  using assms unfolding moved_def by (elim exE) (rule that, simp)

subsection \<open>The body\<close>

lemma read_body_delivers:
  assumes net: "streams (tenv d) stream" "transcribes (base (tenv d))" "stores_mac (tenv d)"
    and nd: "\<not> tls_IS_DTLS (ccore c)" and at: "at_body stream mt M later (d1 c)" "roomy M (d1 c)"
    and rs: "read_state (st c) = READ_STATE_BODY" "\<not> read_state_first_init (st c)"
    and dg: "dg = handshake_dgst (ccore c) @ transcript (ccore c) mt M"
  shows "(\<exists>c'. read_body d len c = Some (Inl (SUB_STATE_ERROR, c')) \<and> receiving d stream mt M later dg c'
        \<and> \<not> prompt (tenv d) stream)
    \<or> (\<exists>c1. read_body d len c = Some (map_sum id (Pair (length M)) (message_processed d (process_message d M c1)))
        \<and> tls_delivered mt M (d1 c1) \<and> stream (io (d1 c1)) = later \<and> handshake_dgst (ccore c1) = dg)"
proof -
  obtain ok l s1 s' where b: "tls_get_message_body (tenv d) (d1 c) = Some (ok, l, s')" "moved (d1 c) s1"
    "prompt (tenv d) stream \<longrightarrow> ok"
    "if ok then l = length M \<and> tls_delivered mt M s' \<and> stream (io s') = later
         \<and> (\<exists>n. s' = s1\<lparr>core := (core s1)\<lparr>peer_finish_md_len := n,
              handshake_dgst := handshake_dgst (ccore c) @ transcript (ccore c) mt M\<rparr>\<rparr>)
     else at_body stream mt M later s' \<and> roomy M s' \<and> s' = s1"
    using get_body_streams [OF net at] by blast
  obtain n rw where core1: "core s1 = (ccore c)\<lparr>init_num := n, rwstate := rw\<rparr>" using b(2) by (rule movedE)
  show ?thesis
  proof (cases ok)
    case False
    let ?c = "c\<lparr>d1 := s'\<rparr>"
    have s': "s' = s1" "at_body stream mt M later s'" "roomy M s'"
      using b(4) unfolding if_not_P [OF False] by blast+
    have "read_body d len c = Some (Inl (SUB_STATE_ERROR, ?c))"
      using False b(1) nd by (simp add: read_body_def)
    moreover have "receiving d stream mt M later dg ?c"
      using s' core1 nd rs dg transcript_cong [of "(ccore c)\<lparr>init_num := n, rwstate := rw\<rparr>" "ccore c"]
      by (simp add: receiving_def)
    ultimately show ?thesis using b(3) False by blast
  next
    case True
    let ?c1 = "upd_core (first_packet_update (\<lambda>_. False)) (c\<lparr>d1 := s'\<rparr>)"
    have s': "l = length M" "tls_delivered mt M s'" "stream (io s') = later" "handshake_dgst (core s') = dg"
      using b(4) True dg by auto
    have "length M < 2 ^ 24" using at(1) by (simp add: at_body_def)
    then have sz: "\<not> length M > SIZE_MAX div 2" by (simp add: SIZE_MAX_def)
    have "buf_load (init_msg (d1 ?c1)) (length M) (d1 ?c1) = Some M"
      using s'(2) by (auto simp: tls_delivered_def buf_load_def mem_read_def upd_core_def on_core_def)
    then have "read_body d len c = Some (map_sum id (Pair (length M)) (message_processed d (process_message d M ?c1)))"
      using True b(1) nd s'(1) sz by (simp add: read_body_def)
    moreover have "tls_delivered mt M (d1 ?c1)" using s'(2) by (simp add: tls_delivered_def upd_core_def on_core_def msg_wf_def)
    ultimately show ?thesis using s'(3,4) by (intro disjI2 exI [of _ ?c1]) (simp add: upd_core_def on_core_def)
  qed
qed

subsection \<open>The header\<close>

lemma at_body_core:
  "init_num co = init_num (core s) \<Longrightarrow> at_body stream mt M later (s\<lparr>core := co\<rparr>) = at_body stream mt M later s"
  by (simp add: at_body_def pending_def msg_wf_def split: option.split)

lemma roomy_core [simp]: "roomy M (s\<lparr>core := co\<rparr>) = roomy M s"
  by (simp add: roomy_def)

lemma acceptable_moved: "acceptable d mt M dg (s\<lparr>init_num := n, rwstate := rw\<rparr>) = acceptable d mt M dg s"
  by (simp add: acceptable_def)

lemma read_header_delivers:
  assumes net: "streams (tenv d) stream" "env_total (base (tenv d))" and nd: "\<not> tls_IS_DTLS (ccore c)"
    and at: "at_header stream mt M later (d1 c)" and rs: "read_state (st c) = READ_STATE_HEADER" "\<not> read_state_first_init (st c)"
    and acc: "acceptable d mt M dg (ccore c)"
  shows "(\<exists>c'. read_header d (server (ccore c)) len c = Some (Inl c') \<and> receiving d stream mt M later dg c'
        \<and> \<not> prompt (tenv d) stream)
    \<or> (\<exists>c'. read_header d (server (ccore c)) len c = Some (Inr (len, c')) \<and> \<not> tls_IS_DTLS (ccore c')
        \<and> read_state (st c') = READ_STATE_BODY \<and> \<not> read_state_first_init (st c') \<and> at_body stream mt M later (d1 c') \<and> roomy M (d1 c')
        \<and> dg = handshake_dgst (ccore c') @ transcript (ccore c') mt M)"
proof -
  let ?srv = "server (ccore c)"
  obtain ok x s1 s' where h: "tls_get_message_header (tenv d) (d1 c) = Some (ok, x, s')" "moved (d1 c) s1"
    "prompt (tenv d) stream \<longrightarrow> ok"
    "if ok then x = uint mt \<and> at_body stream mt M later s' \<and> init_num (core s') = 0
         \<and> s' = on_core (init_num_update (\<lambda>_. 0)) (s1\<lparr>message_type := uint mt, message_size := length M, init_msg := 4\<rparr>)
     else at_header stream mt M later s' \<and> s' = s1"
    using get_header_streams [OF net(1) at] by blast
  obtain n rw where core1: "core s1 = (ccore c)\<lparr>init_num := n, rwstate := rw\<rparr>" using h(2) by (rule movedE)
  show ?thesis
  proof (cases ok)
    case False
    have s': "s' = s1" "at_header stream mt M later s'" using h(4) unfolding if_not_P [OF False] by blast+
    have "read_header d ?srv len c = Some (Inl (c\<lparr>d1 := s'\<rparr>))"
      using False h(1) nd by (simp add: read_header_def)
    moreover have "receiving d stream mt M later dg (c\<lparr>d1 := s'\<rparr>)"
      using s' core1 nd rs acc by (simp add: receiving_def acceptable_moved)
    ultimately show ?thesis using h(3) False by blast
  next
    case True
    have s': "x = uint mt" "at_body stream mt M later s'" "init_num (core s') = 0"
      "s' = on_core (init_num_update (\<lambda>_. 0)) (s1\<lparr>message_type := uint mt, message_size := length M, init_msg := 4\<rparr>)"
      using h(4) unfolding if_P [OF True] by blast+
    have core': "core s' = (ccore c)\<lparr>init_num := 0, rwstate := rw\<rparr>"
      using s'(4) core1 by (cases "ccore c") (simp add: on_core_def)
    obtain co where co: "read_transition (henv d) ?srv (core s') (uint mt) = (True, co)"
      "length M \<le> max_message_size ?srv co" "\<not> tls_IS_DTLS co" "init_num co = 0" "\<not> read_state_first_init (statem co)"
      "dg = handshake_dgst co @ transcript co mt M"
      using acc [unfolded acceptable_def, THEN spec, THEN spec, of 0 rw] unfolding core'
      by (auto split: prod.splits)
    let ?s2 = "s'\<lparr>core := co\<rparr>"
    have ab2: "at_body stream mt M later ?s2" using s'(2,3) co(4) at_body_core [of co s'] by simp
    have ms: "message_size ?s2 = length M" and M: "length M < 2 ^ 24" using ab2 by (simp_all add: at_body_def)
    obtain b where g: "(if length M > 0 then grow_init_buf (tenv d) (uadd (length M) 4) ?s2 else Some (True, ?s2))
        = Some (True, ?s2\<lparr>init_buf := b\<rparr>)" "at_body stream mt M later (?s2\<lparr>init_buf := b\<rparr>)" "roomy M (?s2\<lparr>init_buf := b\<rparr>)"
    proof (cases "length M > 0")
      case True
      have u: "uadd (length M) 4 = length M + 4" using M by (simp add: uadd_eq SIZE_MAX_def)
      have z: "init_num (core ?s2) = 0" using co(4) by simp
      show ?thesis
        by (rule grow_init_buf_streams [OF net(2) ab2 z]) (rule that, use True in \<open>simp_all add: u\<close>)
    next
      case False
      have "4 \<le> b_max (init_buf s')" using s'(2) by (simp add: at_body_def msg_wf_def buf_ok_def)
      with False ab2 show ?thesis by (intro that [of "init_buf s'"]) (simp_all add: roomy_def)
    qed
    let ?c' = "upd_st (read_state_update (\<lambda>_. READ_STATE_BODY)) (c\<lparr>d1 := ?s2\<lparr>init_buf := b\<rparr>\<rparr>)"
    have "read_header d ?srv len c = Some (Inr (len, ?c'))"
    proof -
      have u2: "upd_core (\<lambda>_. co) (c\<lparr>d1 := s'\<rparr>) = c\<lparr>d1 := ?s2\<rparr>" by (simp add: upd_core_def on_core_def)
      show ?thesis
        using True h(1) nd s'(1) co(1-3) ms g(1)
        by (simp add: read_header_def u2 split: if_splits)
    qed
    moreover have "at_body stream mt M later (d1 ?c')" "roomy M (d1 ?c')" "\<not> tls_IS_DTLS (ccore ?c')"
      "read_state (st ?c') = READ_STATE_BODY" "\<not> read_state_first_init (st ?c')" "dg = handshake_dgst (ccore ?c') @ transcript (ccore ?c') mt M"
      using g(2,3) co(3,5,6) transcript_cong [of "co\<lparr>statem := (statem co)\<lparr>read_state := READ_STATE_BODY\<rparr>\<rparr>" co mt M]
      by (simp_all add: upd_st_def upd_core_def on_core_def at_body_def pending_def msg_wf_def roomy_def cong: option.case_cong)
    ultimately show ?thesis by blast
  qed
qed

subsection \<open>The machine\<close>

lemma read_loop_body:
  "read_state (st c) = READ_STATE_BODY \<Longrightarrow> read_loop d srv len c = Option.bind (read_body d len c) (\<lambda>r. case r of
     Inl x \<Rightarrow> Some x | Inr (len, c) \<Rightarrow> read_loop d srv len c)"
  by (subst read_loop.simps) simp

lemma after_message_eq:
  "(case map_sum id (Pair len) r of Inl x \<Rightarrow> Some x | Inr (len, c) \<Rightarrow> read_loop d srv len c)
   = (case r of Inl x \<Rightarrow> Some x | Inr c \<Rightarrow> read_loop d srv len c)"
  by (cases r) simp_all

lemma read_loop_delivers:
  assumes net: "streams (tenv d) stream" "transcribes (base (tenv d))" "stores_mac (tenv d)"
    "env_total (base (tenv d))" and rc: "receiving d stream mt M later dg c"
  shows "(\<exists>c'. read_loop d (server (ccore c)) len c = Some (SUB_STATE_ERROR, c') \<and> receiving d stream mt M later dg c'
        \<and> \<not> prompt (tenv d) stream)
    \<or> (\<exists>c1. read_loop d (server (ccore c)) len c = after_message d (server (ccore c)) (length M) (process_message d M c1)
        \<and> tls_delivered mt M (d1 c1) \<and> stream (io (d1 c1)) = later \<and> handshake_dgst (ccore c1) = dg)"
proof -
  let ?srv = "server (ccore c)"
  have body: "(\<exists>c'. Option.bind (read_body d l b) (\<lambda>r. case r of Inl x \<Rightarrow> Some x | Inr (l, c) \<Rightarrow> read_loop d ?srv l c)
        = Some (SUB_STATE_ERROR, c') \<and> receiving d stream mt M later dg c' \<and> \<not> prompt (tenv d) stream)
    \<or> (\<exists>c1. Option.bind (read_body d l b) (\<lambda>r. case r of Inl x \<Rightarrow> Some x | Inr (l, c) \<Rightarrow> read_loop d ?srv l c)
        = after_message d ?srv (length M) (process_message d M c1)
        \<and> tls_delivered mt M (d1 c1) \<and> stream (io (d1 c1)) = later \<and> handshake_dgst (ccore c1) = dg)"
    if "\<not> tls_IS_DTLS (ccore b)" "at_body stream mt M later (d1 b)" "roomy M (d1 b)" "read_state (st b) = READ_STATE_BODY"
      "\<not> read_state_first_init (st b)" "dg = handshake_dgst (ccore b) @ transcript (ccore b) mt M" for b l
    using read_body_delivers [OF net(1-3) that, where len = l] by (elim disjE exE conjE) (auto simp: after_message_def after_message_eq)
  from rc consider (header) "read_state (st c) = READ_STATE_HEADER" "at_header stream mt M later (d1 c)"
      "acceptable d mt M dg (ccore c)"
    | (body) "read_state (st c) = READ_STATE_BODY" "at_body stream mt M later (d1 c)" "roomy M (d1 c)"
      "dg = handshake_dgst (ccore c) @ transcript (ccore c) mt M"
    unfolding receiving_def by blast
  then show ?thesis
  proof cases
    case b: body
    show ?thesis unfolding read_loop_body [OF b(1)]
      using body [OF _ b(2,3,1) _ b(4)] rc unfolding receiving_def by blast
  next
    case h: header
    have nd: "\<not> tls_IS_DTLS (ccore c)" "\<not> read_state_first_init (st c)" using rc by (simp_all add: receiving_def)
    from read_header_delivers [OF net(1,4) nd(1) h(2,1) nd(2) h(3), of len]
    consider (wait) c' where "read_header d ?srv len c = Some (Inl c')" "receiving d stream mt M later dg c'"
        "\<not> prompt (tenv d) stream"
      | (go) c' where "read_header d ?srv len c = Some (Inr (len, c'))" "\<not> tls_IS_DTLS (ccore c')"
        "read_state (st c') = READ_STATE_BODY" "\<not> read_state_first_init (st c')" "at_body stream mt M later (d1 c')"
        "roomy M (d1 c')" "dg = handshake_dgst (ccore c') @ transcript (ccore c') mt M"
      by blast
    then show ?thesis
    proof cases
      case wait
      then show ?thesis using h(1) by (subst (1 2) read_loop.simps) simp
    next
      case go
      have "read_loop d ?srv len c
          = Option.bind (read_body d len c') (\<lambda>r. case r of Inl x \<Rightarrow> Some x | Inr (l, c) \<Rightarrow> read_loop d ?srv l c)"
        using h(1) go(1) by (subst read_loop.simps) simp
      then show ?thesis using body [OF go(2,5,6,3,4,7), of len] by simp
    qed
  qed
qed

text \<open>
  C15: Messages over TLS. The peer sends the message \<open>M\<close>, which the handshake allows next. However
  the record layer cuts the stream into pieces, every call of \<open>read_state_machine\<close> either returns
  because nothing more has arrived, and then a later call resumes where this one stopped, or it
  calls \<open>process_message\<close> with exactly the bytes of \<open>M\<close>, the message buffer holding them, the
  following bytes untouched in the stream and the message added to the transcript once. The call
  returns early only if the record layer had nothing to deliver.
\<close>

theorem read_state_machine_delivers:
  assumes "streams (tenv d) stream" and "transcribes (base (tenv d))" and "stores_mac (tenv d)"
    and "env_total (base (tenv d))" and "receiving d stream mt M later dg (note_first_packet c)"
  shows "(\<exists>c'. read_state_machine d c = Some (SUB_STATE_ERROR, c')
        \<and> receiving d stream mt M later dg (note_first_packet c') \<and> \<not> prompt (tenv d) stream)
    \<or> (\<exists>c1. read_state_machine d c = after_message d (server (ccore c)) (length M) (process_message d M c1)
        \<and> tls_delivered mt M (d1 c1) \<and> stream (io (d1 c1)) = later \<and> handshake_dgst (ccore c1) = dg)"
proof -
  have srv: "server (ccore (note_first_packet c)) = server (ccore c)"
    by (simp add: note_first_packet_def upd_st_def upd_core_def on_core_def)
  have same: "note_first_packet c' = c'" if "receiving d stream mt M later dg c'" for c'
    using that by (simp add: receiving_def note_first_packet_def)
  show ?thesis
    unfolding read_state_machine_def
    using read_loop_delivers [OF assms(1-5), of 0, unfolded srv] same by metis
qed

section \<open>Sending a message\<close>

text \<open>
  A record layer for writing: a call that fails has sent nothing that counts, a call that succeeds
  has sent as many bytes as it reports.
\<close>

definition sinks :: "'io tls_env \<Rightarrow> ('io \<Rightarrow> bytes) \<Rightarrow> bool" where
  "sinks e sent \<longleftrightarrow> (\<forall>ty bs i. case tls3_write_bytes e ty bs i of (ret, n, i') \<Rightarrow>
     if ret < 0 then sent i' = sent i else n \<le> length bs \<and> sent i' = sent i @ take n bs)"

lemma sinksD:
  assumes "sinks e sent" and "tls3_write_bytes e ty bs i = (ret, n, i')"
  shows "ret < 0 \<Longrightarrow> sent i' = sent i" and "\<not> ret < 0 \<Longrightarrow> n \<le> length bs \<and> sent i' = sent i @ take n bs"
proof -
  have "case tls3_write_bytes e ty bs i of (ret, n, i') \<Rightarrow>
     if ret < 0 then sent i' = sent i else n \<le> length bs \<and> sent i' = sent i @ take n bs"
    using assms(1) unfolding sinks_def by (elim allE)
  then show "ret < 0 \<Longrightarrow> sent i' = sent i" "\<not> ret < 0 \<Longrightarrow> n \<le> length bs \<and> sent i' = sent i @ take n bs"
    using assms(2) by simp_all
qed

text \<open>
  The handshake is at a message that goes into the transcript, and \<open>R\<close> is what is left to write:
  together with it, \<open>msgs\<close> will have been sent and the transcript will be \<open>dg\<close>.
\<close>

definition writes_transcript :: "tls \<Rightarrow> bool" where
  "writes_transcript c \<longleftrightarrow> \<not> tls_IS_DTLS c \<and> hs c \<noteq> TLS_ST_CW_CHANGE \<and> hs c \<noteq> TLS_ST_SW_CHANGE
     \<and> (\<not> tls_IS_TLS13 c \<or> hs c \<noteq> TLS_ST_SW_SESSION_TICKET \<and> hs c \<noteq> TLS_ST_CW_KEY_UPDATE \<and> hs c \<noteq> TLS_ST_SW_KEY_UPDATE)"

definition transmitting :: "('io \<Rightarrow> bytes) \<Rightarrow> bytes \<Rightarrow> bytes \<Rightarrow> 'io dtls_st \<Rightarrow> bool" where
  "transmitting sent msgs dg s \<longleftrightarrow> writes_transcript (core s) \<and> init_off s + init_num (core s) < 2 ^ 31
     \<and> (\<exists>R. buf_load (init_off s) (init_num (core s)) s = Some R
          \<and> msgs = sent (io s) @ R \<and> dg = handshake_dgst (core s) @ R)"

lemma buf_load_prefix:
  assumes "buf_load i n s = Some R" and "k \<le> n"
  shows "buf_load i k s = Some (take k R)" and "buf_load (i + k) (n - k) s = Some (drop k R)" and "length R = n"
  using assms by (auto simp: buf_load_def mem_read_def seg_def drop_take min_def add.commute split: if_splits bind_splits)

lemma writes_transcript_upd [simp]:
  "writes_transcript (c\<lparr>handshake_dgst := x\<rparr>) = writes_transcript c"
  "writes_transcript (init_num_update f c) = writes_transcript c"
  by (simp_all add: writes_transcript_def tls_IS_TLS13_def tls_IS_DTLS_def)

lemma buf_load_frame [simp]:
  "buf_load i n (s\<lparr>io := j\<rparr>) = buf_load i n s" "buf_load i n (s\<lparr>core := c\<rparr>) = buf_load i n s"
  "buf_load i n (s\<lparr>init_off := o1\<rparr>) = buf_load i n s"
  by (simp_all add: buf_load_def)

lemma do_write_transmits:
  assumes "sinks e sent" and "transcribes (base e)" and "transmitting sent msgs dg s"
  obtains r s' where "statem_do_write e w s = Some (r, s')"
    and "if 0 < r then sent (io s') = msgs \<and> handshake_dgst (core s') = dg else transmitting sent msgs dg s'"
proof -
  have wt: "writes_transcript (core s)" "init_off s + init_num (core s) < 2 ^ 31" using assms(3) by (simp_all add: transmitting_def)
  obtain R where R: "buf_load (init_off s) (init_num (core s)) s = Some R" "msgs = sent (io s) @ R"
    "dg = handshake_dgst (core s) @ R" using assms(3) unfolding transmitting_def by blast
  obtain ret k i where w: "tls3_write_bytes e 22 R (io s) = (ret, k, i)" by (cases "tls3_write_bytes e 22 R (io s)")
  have dw: "statem_do_write e w s = tls3_do_write e 22 s" using wt(1) by (simp add: statem_do_write_def writes_transcript_def)
  show thesis
  proof (cases "ret < 0")
    case True
    have "statem_do_write e w s = Some (- 1, s\<lparr>io := i\<rparr>)" using dw R(1) w True by (simp add: tls3_do_write_def)
    moreover have "transmitting sent msgs dg (s\<lparr>io := i\<rparr>)"
      using wt R sinksD(1) [OF assms(1) w True] by (simp add: transmitting_def)
    ultimately show thesis by (intro that [of "- 1" "s\<lparr>io := i\<rparr>"]) simp_all
  next
    case False
    let ?n = "init_num (core s)"
    note lR = buf_load_prefix(3) [OF R(1) le_refl]
    have k: "k \<le> ?n" "sent i = sent (io s) @ take k R" using sinksD(2) [OF assms(1) w False] lR by simp_all
    note ld = buf_load_prefix(1,2) [OF R(1) k(1)]
    let ?s1 = "s\<lparr>io := i, core := (core s)\<lparr>handshake_dgst := handshake_dgst (core s) @ take k R\<rparr>\<rparr>"
    have c: "tls_IS_TLS13 (core s) \<longrightarrow> hs (core s) \<noteq> TLS_ST_SW_SESSION_TICKET \<and> hs (core s) \<noteq> TLS_ST_CW_KEY_UPDATE
        \<and> hs (core s) \<noteq> TLS_ST_SW_KEY_UPDATE" using wt(1) by (auto simp: writes_transcript_def)
    have e: "tls3_do_write e 22 s = (if k = ?n then Some (1, ?s1) else
        Some (0, on_core (init_num_update (\<lambda>n. usub n k)) (?s1\<lparr>init_off := uadd (init_off s) k\<rparr>)))"
      using R(1) w False ld(1) c assms(2) by (auto simp: tls3_do_write_def transcribes_def)
    show thesis
    proof (cases "k = ?n")
      case True
      then show thesis using e dw k(2) R(2,3) lR by (intro that [of 1 ?s1]) simp_all
    next
      case False
      have u: "uadd (init_off s) k = init_off s + k" "usub ?n k = ?n - k"
        using wt(2) k(1) by (simp_all add: uadd_eq usub_eq SIZE_MAX_def)
      let ?s2 = "on_core (init_num_update (\<lambda>n. n - k)) (?s1\<lparr>init_off := init_off s + k\<rparr>)"
      have "statem_do_write e w s = Some (0, ?s2)" using e dw False by (simp add: u on_core_def)
      moreover have "transmitting sent msgs dg ?s2"
        using wt ld(2) k R(2,3) unfolding transmitting_def by (simp add: on_core_def)
      ultimately show thesis by (intro that [of 0 ?s2]) simp_all
    qed
  qed
qed

section \<open>From sender to receiver\<close>

text \<open>Calls of \<open>statem_do_write\<close> that have to be repeated.\<close>

inductive write_calls :: "'io tls_env \<Rightarrow> 'io dtls_wenv \<Rightarrow> 'io dtls_st \<Rightarrow> 'io dtls_st \<Rightarrow> bool" for e w s where
  start: "write_calls e w s s"
| again: "write_calls e w s s1 \<Longrightarrow> statem_do_write e w s1 = Some (r, s2) \<Longrightarrow> r \<le> 0 \<Longrightarrow> write_calls e w s s2"

lemma write_calls_transmit:
  assumes "sinks e sent" and "transcribes (base e)" and "transmitting sent msgs dg s" and "write_calls e w s s'"
  shows "transmitting sent msgs dg s'"
  using assms(4)
proof (induction rule: write_calls.induct)
  case (again s1 r s2)
  then show ?case using do_write_transmits [OF assms(1,2), of msgs dg s1 w] by (metis not_less option.inject prod.inject)
qed (rule assms(3))

lemma construct_transmits:
  assumes "env_total e" and "build_buf s" and "writes_transcript (core s)" and "builds con M (b_length (init_buf s))"
    and "length M < 2 ^ 24"
  obtains s1 where "construct_message e we (Some con) (uint mt) s = Some (True, s1)"
    and "transmitting sent (sent (io s) @ wire_hdr mt M @ M) (handshake_dgst (core s) @ wire_hdr mt M @ M) s1"
proof -
  have nd: "\<not> tls_IS_DTLS (core s)" using assms(3) by (simp add: writes_transcript_def)
  obtain b d c' where c: "construct_message e we (Some con) (uint mt) s
      = Some (True, s\<lparr>init_buf := b, init_off := 0, core := c'\<lparr>init_num := 4 + length M\<rparr>\<rparr>)"
    "buf_ok b" "b_data b = Some d" "take (4 + length M) d = wire_hdr mt M @ M" "4 + length M \<le> b_length b" "con_keeps (core s) c'"
    by (rule construct_tls [OF assms(1,2) nd assms(4,5), where mt = mt and w_epoch = we])
  have "writes_transcript c'" "handshake_dgst c' = handshake_dgst (core s)"
    using c(6) assms(3) by (auto simp: con_keeps_def writes_transcript_def tls_IS_DTLS_def tls_IS_TLS13_def)
  moreover have "4 + length M \<le> length d" using c(2,3,5) by (simp add: buf_ok_def)
  ultimately have "transmitting sent (sent (io s) @ wire_hdr mt M @ M) (handshake_dgst (core s) @ wire_hdr mt M @ M)
      (s\<lparr>init_buf := b, init_off := 0, core := c'\<lparr>init_num := 4 + length M\<rparr>\<rparr>)"
    using c(3,4) assms(5) by (simp add: transmitting_def buf_load_def mem_read_def)
  with c(1) show thesis by (rule that)
qed

text \<open>A TLS connection at the start of a message \<open>M\<close> that is acceptable and goes into the transcript.\<close>

definition awaiting :: "'io drv \<Rightarrow> byte \<Rightarrow> bytes \<Rightarrow> 'io conn \<Rightarrow> bool" where
  "awaiting d mt M c \<longleftrightarrow> \<not> tls_IS_DTLS (ccore c) \<and> \<not> read_state_first_init (st c)
     \<and> read_state (st c) = READ_STATE_HEADER \<and> msg_wf (d1 c) \<and> init_num (ccore c) = 0 \<and> \<not> skipped mt M (d1 c)
     \<and> acceptable d mt M (handshake_dgst (ccore c) @ wire_hdr mt M @ M) (ccore c)"

lemma awaiting_receives:
  assumes "awaiting d mt M c" and "length M < 2 ^ 24" and "stream (io (d1 c)) = wire_hdr mt M @ M @ later"
  shows "receiving d stream mt M later (handshake_dgst (ccore c) @ wire_hdr mt M @ M) c"
  using assms by (auto simp: awaiting_def receiving_def at_header_def filling_def pending_def elim!: msg_wfE)

text \<open>
  C1: A handshake message from sender to receiver over TLS. The sender constructs the message with
  the body \<open>M\<close> in its buffer; however often the record layer interrupts the writing, the bytes sent
  in the end are the header and the body, and they are in the sender's transcript once. A receiver
  that gets these bytes and may accept the message hands exactly \<open>M\<close> to \<open>process_message\<close>, again
  however often the reading is interrupted, and then has the same bytes added to its transcript.
\<close>

theorem tls_message_end_to_end:
  assumes "env_total (base e)" and "build_buf s" and "writes_transcript (core s)"
    and "builds con M (b_length (init_buf s))" and "length M < 2 ^ 24" and "sinks e sent" and "transcribes (base e)"
    and "streams (tenv d) stream" and "transcribes (base (tenv d))" and "stores_mac (tenv d)"
    and "env_total (base (tenv d))" and "awaiting d mt M c"
  shows "\<exists>s1. construct_message (base e) we (Some con) (uint mt) s = Some (True, s1)
    \<and> (\<forall>s2. write_calls e w s1 s2 \<longrightarrow> (\<exists>r s3. statem_do_write e w s2 = Some (r, s3) \<and> (0 < r \<longrightarrow>
        (\<exists>W. sent (io s3) = sent (io s) @ W \<and> handshake_dgst (core s3) = handshake_dgst (core s) @ W
          \<and> (\<forall>later dg. stream (io (d1 c)) = W @ later \<longrightarrow> dg = handshake_dgst (ccore c) @ W \<longrightarrow>
              receiving d stream mt M later dg c \<and> (\<forall>c'. receiving d stream mt M later dg c' \<longrightarrow>
                (\<exists>c2. read_state_machine d c' = Some (SUB_STATE_ERROR, c2) \<and> receiving d stream mt M later dg c2
                  \<and> \<not> prompt (tenv d) stream)
                \<or> (\<exists>c1. read_state_machine d c' = after_message d (server (ccore c')) (length M) (process_message d M c1)
                  \<and> tls_delivered mt M (d1 c1) \<and> stream (io (d1 c1)) = later \<and> handshake_dgst (ccore c1) = dg)))))))"
proof -
  let ?W = "wire_hdr mt M @ M"
  obtain s1 where s1: "construct_message (base e) we (Some con) (uint mt) s = Some (True, s1)"
    "transmitting sent (sent (io s) @ ?W) (handshake_dgst (core s) @ ?W) s1"
    using construct_transmits [OF assms(1-5)] by blast
  have same: "note_first_packet c' = c'" if "receiving d stream mt M later dg c'" for later dg c'
    using that by (simp add: receiving_def note_first_packet_def)
  have rd: "(\<exists>c2. read_state_machine d c' = Some (SUB_STATE_ERROR, c2) \<and> receiving d stream mt M later dg c2
        \<and> \<not> prompt (tenv d) stream)
      \<or> (\<exists>c1. read_state_machine d c' = after_message d (server (ccore c')) (length M) (process_message d M c1)
        \<and> tls_delivered mt M (d1 c1) \<and> stream (io (d1 c1)) = later \<and> handshake_dgst (ccore c1) = dg)"
    if r: "receiving d stream mt M later dg c'" for later dg c'
    using read_loop_delivers [OF assms(8-11) r, of 0] unfolding read_state_machine_def same [OF r] .
  have rc: "receiving d stream mt M later (handshake_dgst (ccore c) @ ?W) c" if "stream (io (d1 c)) = ?W @ later" for later
    using awaiting_receives [OF assms(12,5), of stream later] that by simp
  show ?thesis
  proof (intro exI [of _ s1] conjI allI impI s1(1))
    fix s2 assume "write_calls e w s1 s2"
    then obtain r s3 where r: "statem_do_write e w s2 = Some (r, s3)" "if 0 < r then sent (io s3) = sent (io s) @ ?W
        \<and> handshake_dgst (core s3) = handshake_dgst (core s) @ ?W
      else transmitting sent (sent (io s) @ ?W) (handshake_dgst (core s) @ ?W) s3"
      using do_write_transmits [OF assms(6,7) write_calls_transmit [OF assms(6,7) s1(2)]] by blast
    show "\<exists>r s3. statem_do_write e w s2 = Some (r, s3) \<and> (0 < r \<longrightarrow>
        (\<exists>W. sent (io s3) = sent (io s) @ W \<and> handshake_dgst (core s3) = handshake_dgst (core s) @ W
          \<and> (\<forall>later dg. stream (io (d1 c)) = W @ later \<longrightarrow> dg = handshake_dgst (ccore c) @ W \<longrightarrow>
              receiving d stream mt M later dg c \<and> (\<forall>c'. receiving d stream mt M later dg c' \<longrightarrow>
                (\<exists>c2. read_state_machine d c' = Some (SUB_STATE_ERROR, c2) \<and> receiving d stream mt M later dg c2
                  \<and> \<not> prompt (tenv d) stream)
                \<or> (\<exists>c1. read_state_machine d c' = after_message d (server (ccore c')) (length M) (process_message d M c1)
                  \<and> tls_delivered mt M (d1 c1) \<and> stream (io (d1 c1)) = later \<and> handshake_dgst (ccore c1) = dg)))))"
      using r rd rc by (intro exI [of _ r] exI [of _ s3] conjI impI exI [of _ ?W] allI) simp_all
  qed
qed

section \<open>Sample connections\<close>

text \<open>A body that is copied from memory, and a record layer whose state is the stream itself.\<close>

definition copy_body :: "heap \<Rightarrow> bytes \<Rightarrow> 'io pkt_fun" where
  "copy_body h M s p = map_option (\<lambda>(ok, q). (ok, sync q s, q)) (WPACKET_memcpy h p M (length M))"

lemma copy_body_builds:
  assumes "heap_ok h" and "12 + length M \<le> L"
  shows "builds (copy_body h M) M L"
  unfolding builds_def
proof (intro allI impI)
  fix s :: "'io dtls_st" and p lb fl c fs
  assume p: "sized L p" "written p \<le> 12" "wpacket_abs p = (lb, fl, c) # fs"
  have w: "writer_ok p" "staticbuf p = None" "room_ok p" "\<not> WPACKET_is_null_buf p"
    using p(1) by (simp_all add: sized_def writer_ok_def wpacket_ok_def)
  have "subs p \<noteq> []" using p(3) subs_frames [of p] by auto
  then have ok: "\<exists>d q. WPACKET_allocate_bytes h p (length M) = Some (True, d, q)" if "M \<noteq> []"
    using allocate_sized [OF p(1), of "length M" h] that p(2) assms(2) by auto
  obtain q where q: "WPACKET_memcpy h p M (length M) = Some (True, q)"
  proof (cases "M = []")
    case False
    obtain b q where m: "WPACKET_memcpy h p M (length M) = Some (b, q)" using memcpy_spec [OF w(3) assms(1) w(4), of M] by blast
    have b
    proof (rule ccontr)
      assume "\<not> b"
      with m ok [OF False] False show False
        by (auto simp: WPACKET_memcpy_def mem_read_def split: if_splits bind_splits option.splits)
    qed
    with m show ?thesis using that by simp
  qed (use that [of p] in \<open>simp add: WPACKET_memcpy_def\<close>)
  have r: "writer_ok q" "static_len q = static_len p" "(if M = [] then Some (wpacket_abs p) else abs_put M (wpacket_abs p)) = Some (wpacket_abs q)"
    using refines_stepD [OF memcpy_refines [OF w(1) assms(1), of M] q] by blast+
  have "(sync q s)\<lparr>core := core s\<rparr> = sync q s" by (cases s) (simp add: sync_def split: option.split)
  then show "\<exists>q c'. copy_body h M s p = Some (True, (sync q s)\<lparr>core := c'\<rparr>, q) \<and> con_keeps (core s) c' \<and> writer_ok q
        \<and> staticbuf q = None \<and> wpacket_abs q = (lb, fl, c @ M) # fs"
    using q r w(2) p(3) by (intro exI [of _ q] exI [of _ "core s"]) (auto simp: copy_body_def con_keeps_def split: if_splits)
qed

definition stream_env :: "bytes tls_env" where
  "stream_env = \<lparr>base = \<lparr>malloc = sample_alloc, sec_malloc = sample_alloc,
     read_bytes = (\<lambda>k i. if i = [] then (- 1, 22, [], []) else (1, 22, take k i, drop k i)),
     rrec_length = length, finish_mac = transcript_mac, take_mac = (\<lambda>c. (True, c))\<rparr>,
     is_tlsv2_record = (\<lambda>_. False), tls3_write_bytes = (\<lambda>ty bs i. (1, length bs, i @ bs))\<rparr>"

definition stream_st :: "bool \<Rightarrow> Otls_HANDSHAKE_STATE \<Rightarrow> 'io \<Rightarrow> 'io dtls_st" where
  "stream_st srv h i = \<lparr>core = sample_tls TLS1_VERSION srv h,
     init_buf = \<lparr>b_length = 16, b_data = Some (replicate 16 0), b_max = 16, b_flags = 0\<rparr>,
     init_msg = 0, init_off = 0, message_type = 0, message_size = 0, handshake_write_seq = 0,
     next_handshake_write_seq = 0, handshake_read_seq = 0,
     buffered_messages = \<lparr>items = [], count = 0\<rparr>, sent_messages = \<lparr>items = [], count = 0\<rparr>,
     mtu = 0, link_mtu = 0, w_msg_hdr = hm_header_zero, r_msg_hdr = hm_header_zero, retransmitting = False,
     max_send_fragment = 16384, write_crypto = saved_retransmit_state hm_header_zero, io = i\<rparr>"

definition stream_conn :: "bytes \<Rightarrow> bytes conn" where
  "stream_conn i = \<lparr>d1 = stream_st True TLS_ST_BEFORE i, timer = \<lparr>read_timeouts = 0, write_timeouts = 0, num_alerts = 0,
     next_timeout = time_zero, timeout_duration_us = 1000000, timer_cb = None\<rparr>\<rparr>"

definition stream_drv :: "bytes drv" where
  "stream_drv = \<lparr>tenv = stream_env, wenv = \<lparr>wpending = (\<lambda>_. 0), bio_flush = (\<lambda>i. (1, i)), write_bytes = (\<lambda>ty bs i. (1, length bs, i)),
       mtu_exceeded = (\<lambda>_. False), mtu_overhead = (\<lambda>_. 28), bio_query_mtu = (\<lambda>_. 1500), bio_set_mtu = (\<lambda>_ i. i),
       cipher_is_aead = (\<lambda>_. False), cipher_is_cbc = (\<lambda>_. False), cipher_block_size = (\<lambda>_. 0), md_size = (\<lambda>_. 0)\<rparr>,
     w_epoch = (\<lambda>_. 0), tmenv = \<lparr>get_current_time = (\<lambda>i. (time_zero, i)), dgram_is_sctp = (\<lambda>_. False),
       set_next_timeout = (\<lambda>_ i. i), fallback_mtu = (\<lambda>_. 0)\<rparr>, henv = sample_env, clear = Pair True,
     security_version = (\<lambda>_. True), setup_buffers = Pair True, init_wbio_buffer = Pair True,
     construct_fn = (\<lambda>_ s p. Some (True, s, p)), process_message = (\<lambda>_. Pair MSG_PROCESS_FINISHED_READING),
     post_process_message = (\<lambda>_. Pair WORK_FINISHED_CONTINUE), pre_work = (\<lambda>_. Pair WORK_FINISHED_CONTINUE),
     post_work = (\<lambda>_. Pair WORK_FINISHED_CONTINUE)\<rparr>"

lemma stream_env_ok:
  "streams stream_env (\<lambda>i. i)" "prompt stream_env (\<lambda>i. i)" "sinks stream_env (\<lambda>i. i)"
  "transcribes (base stream_env)" "stores_mac stream_env" "env_total (base stream_env)"
proof -
  show "streams stream_env (\<lambda>i. i)" by (auto simp: streams_def stream_env_def)
  show "prompt stream_env (\<lambda>i. i)" "sinks stream_env (\<lambda>i. i)" "transcribes (base stream_env)"
    by (simp_all add: prompt_def sinks_def stream_env_def transcribes_def transcript_mac_def)
  show "stores_mac stream_env"
    unfolding stores_mac_def
  proof (intro allI exI)
    fix c :: tls
    show "take_mac (base stream_env) c = (True, c\<lparr>peer_finish_md_len := peer_finish_md_len c\<rparr>)"
      by (simp add: stream_env_def)
  qed
  show "env_total (base stream_env)"
    by (auto simp: env_total_def env_safe_def reader_safe_def alloc_total_def stream_env_def sample_alloc_def allocator_ok_def)
qed

lemma stream_conn_awaits:
  assumes "length M \<le> 100000"
  shows "awaiting stream_drv 1 M (stream_conn i)"
proof -
  have "tls_IS_TLS13 co = False" if "method_version co = TLS1_VERSION" for co using that by (simp add: tls_IS_TLS13_def)
  then have "acceptable stream_drv 1 M (wire_hdr 1 M @ M) (sample_tls TLS1_VERSION True TLS_ST_BEFORE)"
    using assms by (simp add: acceptable_def read_transition_def max_message_size_def otls_statem_server_read_transition_def
        server_read_hello_def otls_statem_server_max_message_size_def set_hand_state_def sample_tls_def sample_statem_def
        tls_IS_DTLS_def transcript_def deferred_def)
  then show ?thesis
    by (simp add: awaiting_def stream_conn_def stream_st_def msg_wf_def buf_ok_def skipped_def)
      (simp add: sample_tls_def sample_statem_def tls_IS_DTLS_def)
qed

theorem read_state_machine_delivers_witness:
  "\<exists>c1. read_state_machine stream_drv (stream_conn [1, 0, 0, 3, 5, 6, 7, 9])
      = after_message stream_drv True 3 (process_message stream_drv [5, 6, 7] c1)
    \<and> tls_delivered 1 [5, 6, 7] (d1 c1) \<and> io (d1 c1) = [9] \<and> handshake_dgst (ccore c1) = [1, 0, 0, 3, 5, 6, 7]"
proof -
  let ?c = "stream_conn [1, 0, 0, 3, 5, 6, 7, 9]" and ?M = "[5, 6, 7] :: bytes"
  have w: "wire_hdr 1 ?M = [1, 0, 0, 3]" by (simp add: wire_hdr_def l2n3_def drop_bit_eq_div)
  have io: "(\<lambda>i. i) (io (d1 ?c)) = wire_hdr 1 ?M @ ?M @ [9]" unfolding w by (simp add: stream_conn_def stream_st_def)
  have nf: "note_first_packet ?c = ?c"
    by (simp add: note_first_packet_def stream_conn_def stream_st_def sample_tls_def sample_statem_def)
  have dg: "handshake_dgst (ccore ?c) = []" "server (ccore ?c)" by (simp_all add: stream_conn_def stream_st_def sample_tls_def)
  have "receiving (stream_drv) (\<lambda>i. i) 1 ?M [9] (handshake_dgst (ccore ?c) @ wire_hdr 1 ?M @ ?M) (note_first_packet ?c)"
    unfolding nf by (rule awaiting_receives [OF stream_conn_awaits, where stream = "\<lambda>i. i"]) (simp_all add: io [simplified])
  then have rc: "receiving stream_drv (\<lambda>i. i) 1 ?M [9] [1, 0, 0, 3, 5, 6, 7] (note_first_packet ?c)"
    unfolding dg(1) w by simp
  have d: "tenv stream_drv = stream_env" by (simp add: stream_drv_def)
  note st = stream_env_ok [folded d]
  from read_state_machine_delivers [OF st(1,4,5,6) rc] st(2) dg(2) show ?thesis
    by (auto simp: numeral_3_eq_3)
qed

lemma stream_write_done:
  assumes "transmitting (\<lambda>i. i) msgs dg s"
  shows "\<exists>s'. statem_do_write stream_env w s = Some (1, s')"
proof -
  obtain R where R: "buf_load (init_off s) (init_num (core s)) s = Some R" using assms by (auto simp: transmitting_def)
  have "length R = init_num (core s)" by (rule buf_load_prefix(3) [OF R le_refl])
  then show ?thesis
    using R assms by (auto simp: transmitting_def statem_do_write_def writes_transcript_def tls3_do_write_def stream_env_def
        transcript_mac_def)
qed

theorem tls_message_end_to_end_witness:
  "\<exists>s1 s3 c1. construct_message (base stream_env) (\<lambda>_. 0) (Some (copy_body (sample_alloc, sample_alloc) [5, 6, 7])) 1
      (stream_st False TLS_ST_CW_CLNT_HELLO []) = Some (True, s1)
    \<and> statem_do_write stream_env (wenv stream_drv) s1 = Some (1, s3) \<and> io s3 = [1, 0, 0, 3, 5, 6, 7]
    \<and> read_state_machine stream_drv (stream_conn (io s3)) = after_message stream_drv True 3 (process_message stream_drv [5, 6, 7] c1)"
proof -
  let ?M = "[5, 6, 7] :: bytes" and ?s = "stream_st False TLS_ST_CW_CLNT_HELLO [] :: bytes dtls_st"
  let ?con = "copy_body (sample_alloc, sample_alloc) ?M :: bytes pkt_fun"
  let ?w = "wenv stream_drv" and ?c = "stream_conn [1, 0, 0, 3, 5, 6, 7]"
  have w: "wire_hdr 1 ?M = [1, 0, 0, 3]" by (simp add: wire_hdr_def l2n3_def drop_bit_eq_div)
  have s: "build_buf ?s" "writes_transcript (core ?s)" "io ?s = []" "handshake_dgst (core ?s) = []"
    "builds ?con ?M (b_length (init_buf ?s))" "length ?M < 2 ^ 24"
    by (simp_all add: build_buf_def stream_st_def buf_ok_def SIZE_MAX_def writes_transcript_def sample_tls_def
        sample_statem_def tls_IS_DTLS_def tls_IS_TLS13_def copy_body_builds heap_ok_def)
  have d: "tenv stream_drv = stream_env" by (simp add: stream_drv_def)
  have c: "io (d1 ?c) = [1, 0, 0, 3, 5, 6, 7]" "handshake_dgst (ccore ?c) = []" "server (ccore ?c)"
    by (simp_all add: stream_conn_def stream_st_def sample_tls_def)
  have aw: "awaiting stream_drv 1 ?M ?c" by (rule stream_conn_awaits) simp
  have one: "uint (1 :: byte) = 1" by simp
  note st = stream_env_ok [folded d]
  note main = tls_message_end_to_end [where we = "\<lambda>_. 0" and mt = 1 and w = ?w, OF stream_env_ok(6) s(1,2,5,6)
      stream_env_ok(3,4) st(1,4,5,6) aw, unfolded one]
  obtain s1 where s1: "construct_message (base stream_env) (\<lambda>_. 0) (Some ?con) 1 ?s = Some (True, s1)"
    "transmitting (\<lambda>i. i) (io ?s @ wire_hdr 1 ?M @ ?M) (handshake_dgst (core ?s) @ wire_hdr 1 ?M @ ?M) s1"
    using construct_transmits [OF stream_env_ok(6) s(1,2,5,6), of "\<lambda>_. 0" 1 "\<lambda>i. i"] unfolding one by blast
  obtain s3 where s3: "statem_do_write stream_env ?w s1 = Some (1, s3)" using stream_write_done [OF s1(2)] by blast
  have "(0 :: int) < 1" by simp
  then obtain W where W: "io s3 = W" "\<forall>later dg. io (d1 ?c) = W @ later \<longrightarrow> dg = handshake_dgst (ccore ?c) @ W \<longrightarrow>
      receiving stream_drv (\<lambda>i. i) 1 ?M later dg ?c \<and> (\<forall>c'. receiving stream_drv (\<lambda>i. i) 1 ?M later dg c' \<longrightarrow>
        (\<exists>c2. read_state_machine stream_drv c' = Some (SUB_STATE_ERROR, c2) \<and> receiving stream_drv (\<lambda>i. i) 1 ?M later dg c2
          \<and> \<not> prompt (tenv stream_drv) (\<lambda>i. i))
        \<or> (\<exists>c1. read_state_machine stream_drv c' = after_message stream_drv (server (ccore c')) (length ?M) (process_message stream_drv ?M c1)
          \<and> tls_delivered 1 ?M (d1 c1) \<and> io (d1 c1) = later \<and> handshake_dgst (ccore c1) = dg))"
    using main s1(1) s3 write_calls.start [of stream_env ?w s1] s(3) by auto
  have io3: "io s3 = [1, 0, 0, 3, 5, 6, 7]"
    using do_write_transmits [OF stream_env_ok(3,4) s1(2), of ?w] s3 s(3) w by auto
  with W io3 have "receiving stream_drv (\<lambda>i. i) 1 ?M [] [1, 0, 0, 3, 5, 6, 7] ?c \<and> (\<exists>c1. read_state_machine stream_drv ?c
      = after_message stream_drv True 3 (process_message stream_drv ?M c1))"
    using c st(2) by (fastforce simp: numeral_3_eq_3)
  with s1(1) s3 io3 show ?thesis by auto
qed

end
