(* ===== verification/Lhash.thy ===== *)
theory Lhash
  imports Prelude "HOL-Library.Multiset" "HOL-Library.Monad_Syntax"
begin

text \<open>
  The hash table of \<open>crypto/lhash/lhash.c\<close>: linear hashing, where the table grows and shrinks by
  one bucket at a time. A chain of nodes is a list; the pointer to a pointer that \<open>getrn\<close> returns
  is the number of a bucket and a position in its chain. Counters of type \<open>unsigned int\<close> and
  \<open>unsigned long\<close> wrap at 32 and 64 bits. Every operation calls the allocator at most once for a node
  and once for the bucket array; the two outcomes are an argument. An access outside the bucket
  array has no result (None), and so has a reallocation whose size wrapped.

  The table is used through the laws of the locale \<open>key_table\<close>: it is a finite map, and an
  operation that fails for lack of memory says so and changes nothing.
\<close>

section \<open>Model\<close>

record 'a lhash_node =
  node_data :: 'a
  node_hash :: u64

record 'a LHASH =
  lh_b :: "'a lhash_node list list"
  lh_comp :: "'a \<Rightarrow> 'a \<Rightarrow> int"
  lh_hash :: "'a \<Rightarrow> u64"
  num_nodes :: nat
  num_alloc_nodes :: nat
  lh_p :: nat
  lh_pmax :: nat
  up_load :: nat
  down_load :: nat
  num_items :: nat
  num_expands :: nat
  num_expand_reallocs :: nat
  num_contracts :: nat
  num_contract_reallocs :: nat
  num_hash_calls :: nat
  num_comp_calls :: nat
  num_insert :: nat
  num_replace :: nat
  num_delete :: nat
  num_no_delete :: nat
  num_retrieve :: nat
  num_retrieve_miss :: nat
  num_hash_comps :: nat
  lh_error :: int

record lh_alloc =
  node_ok :: bool
  array_ok :: bool

abbreviation (input) MIN_NODES :: nat where "MIN_NODES \<equiv> 16"
abbreviation (input) LH_LOAD_MULT :: nat where "LH_LOAD_MULT \<equiv> 256"

text \<open>The arithmetic of \<open>unsigned int\<close>.\<close>

definition wrap32 :: "nat \<Rightarrow> nat" where
  "wrap32 n = n mod 2 ^ 32"

definition OPENtls_LH_new :: "lh_alloc \<Rightarrow> ('a \<Rightarrow> u64) \<Rightarrow> ('a \<Rightarrow> 'a \<Rightarrow> int) \<Rightarrow> 'a LHASH option" where
  "OPENtls_LH_new al h c =
     (if \<not> node_ok al then None
      else if \<not> array_ok al then None
      else Some \<lparr>lh_b = replicate MIN_NODES [], lh_comp = c, lh_hash = h, num_nodes = MIN_NODES div 2,
        num_alloc_nodes = MIN_NODES, lh_p = 0, lh_pmax = MIN_NODES div 2, up_load = 2 * LH_LOAD_MULT,
        down_load = LH_LOAD_MULT, num_items = 0, num_expands = 0, num_expand_reallocs = 0,
        num_contracts = 0, num_contract_reallocs = 0, num_hash_calls = 0, num_comp_calls = 0,
        num_insert = 0, num_replace = 0, num_delete = 0, num_no_delete = 0, num_retrieve = 0,
        num_retrieve_miss = 0, num_hash_comps = 0, lh_error = 0\<rparr>)"

primrec flush_loop :: "nat \<Rightarrow> 'a lhash_node list list \<Rightarrow> 'a lhash_node list list option" where
  "flush_loop 0 b = Some b"
| "flush_loop (Suc i) b = do { b \<leftarrow> flush_loop i b; if i < length b then Some (b[i := []]) else None }"

definition OPENtls_LH_flush :: "'a LHASH \<Rightarrow> 'a LHASH option" where
  "OPENtls_LH_flush lh = do {
     b \<leftarrow> flush_loop (num_nodes lh) (lh_b lh);
     Some (lh\<lparr>lh_b := b\<rparr>)
   }"

text \<open>
  The loop of \<open>expand\<close> over the chain of a bucket: the nodes that stay, and the new bucket, to
  the front of which the other nodes are moved.
\<close>

fun expand_loop :: "nat \<Rightarrow> nat \<Rightarrow> 'a lhash_node list \<Rightarrow> 'a lhash_node list \<Rightarrow> 'a lhash_node list \<times> 'a lhash_node list" where
  "expand_loop nni p [] n2 = ([], n2)"
| "expand_loop nni p (np # nxt) n2 =
     (if unat (node_hash np) mod nni \<noteq> p then expand_loop nni p nxt (np # n2)
      else case expand_loop nni p nxt n2 of (n1, n2) \<Rightarrow> (np # n1, n2))"

definition expand :: "lh_alloc \<Rightarrow> 'a LHASH \<Rightarrow> (bool \<times> 'a LHASH) option" where
  "expand al lh =
     (let nni = num_alloc_nodes lh; p = lh_p lh; pmax = lh_pmax lh in do {
        (ok, lh) \<leftarrow>
          (if wrap32 (p + 1) \<ge> pmax then
             let j = wrap32 (nni * 2) in
             if j = 0 then None
             else if \<not> array_ok al then Some (False, lh\<lparr>lh_error := lh_error lh + 1\<rparr>)
             else if j < nni then None
             else Some (True, lh\<lparr>lh_b := lh_b lh @ replicate (j - nni) [], lh_pmax := nni, num_alloc_nodes := j,
               num_expand_reallocs := uadd (num_expand_reallocs lh) 1, lh_p := 0\<rparr>)
           else Some (True, lh\<lparr>lh_p := wrap32 (lh_p lh + 1)\<rparr>));
        if \<not> ok then Some (False, lh)
        else do {
          let lh = lh\<lparr>num_nodes := wrap32 (num_nodes lh + 1), num_expands := uadd (num_expands lh) 1\<rparr>;
          let q = wrap32 (p + pmax);
          if p < length (lh_b lh) \<and> q < length (lh_b lh) then
            (case expand_loop nni p (lh_b lh ! p) [] of (n1, n2) \<Rightarrow> Some (True, lh\<lparr>lh_b := (lh_b lh)[p := n1, q := n2]\<rparr>))
          else None
        }
      })"

text \<open>
  \<open>contract\<close> gives the size of the smaller array as an \<open>unsigned int\<close>. A size that wraps around
  to zero frees the array (\<open>CRYPTO_realloc\<close>) while the table still points to it, which has no result.
\<close>

definition contract :: "lh_alloc \<Rightarrow> 'a LHASH \<Rightarrow> 'a LHASH option" where
  "contract al lh =
     (let i = wrap32 (lh_p lh + lh_pmax lh + (2 ^ 32 - 1)) in
      if \<not> i < length (lh_b lh) then None
      else
        let np = lh_b lh ! i; lh = lh\<lparr>lh_b := (lh_b lh)[i := []]\<rparr> in do {
          (ok, lh) \<leftarrow>
            (if lh_p lh = 0 then
               let bytes = wrap32 (8 * lh_pmax lh) in
               if bytes = 0 then None
               else if \<not> array_ok al then Some (False, lh\<lparr>lh_error := lh_error lh + 1\<rparr>)
               else Some (True, lh\<lparr>num_contract_reallocs := uadd (num_contract_reallocs lh) 1,
                 num_alloc_nodes := num_alloc_nodes lh div 2, lh_pmax := lh_pmax lh div 2,
                 lh_p := wrap32 (lh_pmax lh div 2 + (2 ^ 32 - 1)), lh_b := take (bytes div 8) (lh_b lh)\<rparr>)
             else Some (True, lh\<lparr>lh_p := lh_p lh - 1\<rparr>));
          if \<not> ok then Some lh
          else do {
            let lh = lh\<lparr>num_nodes := wrap32 (num_nodes lh + (2 ^ 32 - 1)), num_contracts := uadd (num_contracts lh) 1\<rparr>;
            if lh_p lh < 2 ^ 31 \<and> lh_p lh < length (lh_b lh)
            then Some (lh\<lparr>lh_b := (lh_b lh)[lh_p lh := lh_b lh ! lh_p lh @ np]\<rparr>)
            else None
          }
        })"

fun getrn_loop :: "u64 \<Rightarrow> 'a \<Rightarrow> 'a lhash_node list \<Rightarrow> nat \<Rightarrow> 'a LHASH \<Rightarrow> nat \<times> 'a LHASH" where
  "getrn_loop hash data [] k lh = (k, lh)"
| "getrn_loop hash data (n1 # nxt) k lh =
     (let lh = lh\<lparr>num_hash_comps := uadd (num_hash_comps lh) 1\<rparr> in
      if node_hash n1 \<noteq> hash then getrn_loop hash data nxt (Suc k) lh
      else let lh = lh\<lparr>num_comp_calls := uadd (num_comp_calls lh) 1\<rparr> in
        if lh_comp lh (node_data n1) data = 0 then (k, lh)
        else getrn_loop hash data nxt (Suc k) lh)"

definition getrn :: "'a LHASH \<Rightarrow> 'a \<Rightarrow> (u64 \<times> nat \<times> nat \<times> 'a LHASH) option" where
  "getrn lh data =
     (let hash = lh_hash lh data; lh = lh\<lparr>num_hash_calls := uadd (num_hash_calls lh) 1\<rparr> in
      if lh_pmax lh = 0 \<or> num_alloc_nodes lh = 0 then None
      else
        let nn = unat hash mod lh_pmax lh;
            nn = (if nn < lh_p lh then unat hash mod num_alloc_nodes lh else nn) in
        if nn < 2 ^ 31 \<and> nn < length (lh_b lh) then
          (case getrn_loop hash data (lh_b lh ! nn) 0 lh of (k, lh) \<Rightarrow> Some (hash, nn, k, lh))
        else None)"

text \<open>A store through the pointer that \<open>getrn\<close> returned.\<close>

definition set_rn :: "nat \<Rightarrow> nat \<Rightarrow> 'a lhash_node list \<Rightarrow> 'a LHASH \<Rightarrow> 'a LHASH" where
  "set_rn nn k ns lh = lh\<lparr>lh_b := (lh_b lh)[nn := take k (lh_b lh ! nn) @ ns]\<rparr>"

text \<open>The load of the table; there is none (a division by zero) without a bucket.\<close>

definition load :: "'a LHASH \<Rightarrow> nat option" where
  "load lh = (if num_nodes lh = 0 then None else Some ((num_items lh * LH_LOAD_MULT) mod 2 ^ 64 div num_nodes lh))"

text \<open>What an insertion does at the place \<open>getrn\<close> found.\<close>

definition place_item :: "lh_alloc \<Rightarrow> 'a \<Rightarrow> u64 \<times> nat \<times> nat \<times> 'a LHASH \<Rightarrow> 'a option \<times> 'a LHASH" where
  "place_item al data rn =
     (case rn of (hash, nn, k, lh) \<Rightarrow>
        case drop k (lh_b lh ! nn) of
          [] \<Rightarrow>
            if \<not> node_ok al then (None, lh\<lparr>lh_error := lh_error lh + 1\<rparr>)
            else (None, (set_rn nn k [\<lparr>node_data = data, node_hash = hash\<rparr>] lh)
              \<lparr>num_insert := uadd (num_insert lh) 1, num_items := uadd (num_items lh) 1\<rparr>)
        | n # nxt \<Rightarrow>
            (Some (node_data n), (set_rn nn k (n\<lparr>node_data := data\<rparr> # nxt) lh)
              \<lparr>num_replace := uadd (num_replace lh) 1\<rparr>))"

definition OPENtls_LH_insert :: "lh_alloc \<Rightarrow> 'a LHASH \<Rightarrow> 'a \<Rightarrow> ('a option \<times> 'a LHASH) option" where
  "OPENtls_LH_insert al lh data = do {
     let lh = lh\<lparr>lh_error := 0\<rparr>;
     l \<leftarrow> load lh;
     (ok, lh) \<leftarrow> (if up_load lh \<le> l then expand al lh else Some (True, lh));
     if \<not> ok then Some (None, lh)
     else map_option (place_item al data) (getrn lh data)
   }"

definition shrink :: "lh_alloc \<Rightarrow> 'a LHASH \<Rightarrow> 'a LHASH option" where
  "shrink al lh =
     (if num_nodes lh > MIN_NODES
      then do { l \<leftarrow> load lh; if down_load lh \<ge> l then contract al lh else Some lh } else Some lh)"

definition OPENtls_LH_delete :: "lh_alloc \<Rightarrow> 'a LHASH \<Rightarrow> 'a \<Rightarrow> ('a option \<times> 'a LHASH) option" where
  "OPENtls_LH_delete al lh data = do {
     let lh = lh\<lparr>lh_error := 0\<rparr>;
     (hash, nn, k, lh) \<leftarrow> getrn lh data;
     (case drop k (lh_b lh ! nn) of
        [] \<Rightarrow> Some (None, lh\<lparr>num_no_delete := uadd (num_no_delete lh) 1\<rparr>)
      | rn # nxt \<Rightarrow>
          let lh = (set_rn nn k nxt lh)\<lparr>num_delete := uadd (num_delete lh) 1, num_items := usub (num_items lh) 1\<rparr> in
          map_option (Pair (Some (node_data rn))) (shrink al lh))
   }"

definition OPENtls_LH_retrieve :: "'a LHASH \<Rightarrow> 'a \<Rightarrow> ('a option \<times> 'a LHASH) option" where
  "OPENtls_LH_retrieve lh data = do {
     let lh = lh\<lparr>lh_error := 0\<rparr>;
     (hash, nn, k, lh) \<leftarrow> getrn lh data;
     (case drop k (lh_b lh ! nn) of
        [] \<Rightarrow> Some (None, lh\<lparr>num_retrieve_miss := uadd (num_retrieve_miss lh) 1\<rparr>)
      | rn # nxt \<Rightarrow> Some (Some (node_data rn), lh\<lparr>num_retrieve := uadd (num_retrieve lh) 1\<rparr>))
   }"

text \<open>
  The iteration over all items, from the last bucket to the first. The function called has a state
  of its own and does not change the table.
\<close>

fun doall_util_fn :: "nat \<Rightarrow> 'a lhash_node list list \<Rightarrow> ('a \<Rightarrow> 's \<Rightarrow> 's) \<Rightarrow> 's \<Rightarrow> 's option" where
  "doall_util_fn 0 b f s = Some s"
| "doall_util_fn (Suc i) b f s =
     (if i < length b then doall_util_fn i b f (fold (\<lambda>a. f (node_data a)) (b ! i) s) else None)"

definition OPENtls_LH_doall :: "'a LHASH \<Rightarrow> ('a \<Rightarrow> 's \<Rightarrow> 's) \<Rightarrow> 's \<Rightarrow> 's option" where
  "OPENtls_LH_doall lh = doall_util_fn (num_nodes lh) (lh_b lh)"

definition OPENtls_LH_num_items :: "'a LHASH \<Rightarrow> nat" where
  "OPENtls_LH_num_items lh = num_items lh"

definition OPENtls_LH_set_down_load :: "'a LHASH \<Rightarrow> nat \<Rightarrow> 'a LHASH" where
  "OPENtls_LH_set_down_load lh d = lh\<lparr>down_load := d\<rparr>"

text \<open>The default hash function, for C strings (lists of non-zero bytes; \<open>char\<close> is signed).\<close>

fun strhash_loop :: "bytes \<Rightarrow> u64 \<Rightarrow> u64 \<Rightarrow> u64" where
  "strhash_loop [] n ret = ret"
| "strhash_loop (c # cs) n ret =
     (let v = n OR scast c;
          r = unat ((drop_bit 2 v XOR v) AND 0x0f);
          ret = push_bit r ret OR drop_bit (32 - r) ret;
          ret = ret AND 0xFFFFFFFF;
          ret = ret XOR (v * v) in
      strhash_loop cs (n + 0x100) ret)"

definition OPENtls_LH_strhash :: "bytes \<Rightarrow> u64" where
  "OPENtls_LH_strhash c = (if c = [] then 0 else let ret = strhash_loop c 0x100 0 in drop_bit 16 ret XOR ret)"

section \<open>The interface\<close>

text \<open>
  A table of items with keys, as its clients use it. \<open>ok n s\<close> holds of a table that has gone
  through at most \<open>n\<close> operations; \<open>failed\<close> is the error indication after an operation. A deletion may
  be given up by the table (\<open>dels\<close> says when it is not).
\<close>

locale key_table =
  fixes ok :: "nat \<Rightarrow> 's \<Rightarrow> bool"
    and lookup :: "'s \<Rightarrow> 'k \<Rightarrow> 'a option"
    and key :: "'a \<Rightarrow> 'k"
    and failed :: "'s \<Rightarrow> bool"
    and insert :: "'e \<Rightarrow> 's \<Rightarrow> 'a \<Rightarrow> ('a option \<times> 's) option"
    and delete :: "'e \<Rightarrow> 's \<Rightarrow> 'a \<Rightarrow> ('a option \<times> 's) option"
    and retrieve :: "'s \<Rightarrow> 'a \<Rightarrow> ('a option \<times> 's) option"
    and dels :: "'e \<Rightarrow> bool"
    and limit :: nat
  assumes insert_law: "ok n s \<Longrightarrow> n < limit \<Longrightarrow> \<exists>r s'. insert e s d = Some (r, s') \<and> ok (Suc n) s'
      \<and> (if failed s' then r = None \<and> lookup s' = lookup s
         else r = lookup s (key d) \<and> lookup s' = (lookup s)(key d \<mapsto> d))"
    and delete_law: "ok n s \<Longrightarrow> dels e \<Longrightarrow> \<exists>s'. delete e s d = Some (lookup s (key d), s') \<and> ok n s'
      \<and> lookup s' = (lookup s)(key d := None)"
    and retrieve_law: "ok n s \<Longrightarrow> \<exists>s'. retrieve s d = Some (lookup s (key d), s') \<and> ok n s' \<and> lookup s' = lookup s"

text \<open>Sequences of operations, on the table and on a finite map.\<close>

datatype ('e, 'a) table_op = Insert 'e 'a | Delete 'e 'a | Retrieve 'a

fun insertions :: "('e, 'a) table_op list \<Rightarrow> nat" where
  "insertions [] = 0"
| "insertions (Insert _ _ # ops) = Suc (insertions ops)"
| "insertions (_ # ops) = insertions ops"

fun run_table :: "('e \<Rightarrow> 's \<Rightarrow> 'a \<Rightarrow> ('a option \<times> 's) option) \<Rightarrow> ('e \<Rightarrow> 's \<Rightarrow> 'a \<Rightarrow> ('a option \<times> 's) option)
    \<Rightarrow> ('s \<Rightarrow> 'a \<Rightarrow> ('a option \<times> 's) option) \<Rightarrow> ('s \<Rightarrow> bool)
    \<Rightarrow> 's \<Rightarrow> ('e, 'a) table_op list \<Rightarrow> (('a option \<times> bool) list \<times> 's) option" where
  "run_table ins del ret fl s [] = Some ([], s)"
| "run_table ins del ret fl s (op # ops) = do {
     (r, s) \<leftarrow> (case op of Insert e d \<Rightarrow> ins e s d | Delete e d \<Rightarrow> del e s d | Retrieve d \<Rightarrow> ret s d);
     (rs, s') \<leftarrow> run_table ins del ret fl s ops;
     Some ((r, fl s) # rs, s')
   }"

text \<open>The same sequence on a map, where the insertions marked as failed do nothing.\<close>

fun map_results :: "('a \<Rightarrow> 'k) \<Rightarrow> ('k \<Rightarrow> 'a option) \<Rightarrow> ('e, 'a) table_op list \<Rightarrow> bool list \<Rightarrow> 'a option list \<times> ('k \<Rightarrow> 'a option)" where
  "map_results key m (Insert e d # ops) (fl # fls) =
     (if fl then (case map_results key m ops fls of (rs, m) \<Rightarrow> (None # rs, m))
      else (case map_results key (m(key d \<mapsto> d)) ops fls of (rs, m') \<Rightarrow> (m (key d) # rs, m')))"
| "map_results key m (Delete e d # ops) (fl # fls) =
     (case map_results key (m(key d := None)) ops fls of (rs, m') \<Rightarrow> (m (key d) # rs, m'))"
| "map_results key m (Retrieve d # ops) (fl # fls) =
     (case map_results key m ops fls of (rs, m') \<Rightarrow> (m (key d) # rs, m'))"
| "map_results key m _ _ = ([], m)"

definition dels_ok :: "('e \<Rightarrow> bool) \<Rightarrow> ('e, 'a) table_op list \<Rightarrow> bool" where
  "dels_ok dels ops = list_all (\<lambda>op. case op of Delete e _ \<Rightarrow> dels e | _ \<Rightarrow> True) ops"

context key_table
begin

lemma run_refines_map:
  assumes "ok n s" "n + insertions ops \<le> limit" "dels_ok dels ops"
  shows "\<exists>rs s'. run_table insert delete retrieve failed s ops = Some (rs, s') \<and> ok (n + insertions ops) s'
    \<and> map_results key (lookup s) ops (map snd rs) = (map fst rs, lookup s')"
  using assms
proof (induction ops arbitrary: n s)
  case Nil
  then show ?case by simp
next
  case (Cons op ops)
  have rest: "dels_ok dels ops"
    using Cons.prems(3) by (simp add: dels_ok_def)
  show ?case
  proof (cases op)
    case (Insert e d)
    obtain r s1 where s1: "insert e s d = Some (r, s1)" "ok (Suc n) s1"
        "if failed s1 then r = None \<and> lookup s1 = lookup s
         else r = lookup s (key d) \<and> lookup s1 = (lookup s)(key d \<mapsto> d)"
      using insert_law [of n s e d] Cons.prems(1, 2) Insert by auto
    obtain rs s' where "run_table insert delete retrieve failed s1 ops = Some (rs, s')"
        "ok (Suc n + insertions ops) s'" "map_results key (lookup s1) ops (map snd rs) = (map fst rs, lookup s')"
      using Cons.IH [OF s1(2) _ rest] Cons.prems(2) Insert by auto
    with s1 Insert show ?thesis by (auto split: if_splits)
  next
    case (Delete e d)
    obtain s1 where s1: "delete e s d = Some (lookup s (key d), s1)" "ok n s1" "lookup s1 = (lookup s)(key d := None)"
      using delete_law [of n s e d] Cons.prems(1, 3) Delete by (auto simp: dels_ok_def)
    obtain rs s' where "run_table insert delete retrieve failed s1 ops = Some (rs, s')"
        "ok (n + insertions ops) s'" "map_results key (lookup s1) ops (map snd rs) = (map fst rs, lookup s')"
      using Cons.IH [OF s1(2) _ rest] Cons.prems(2) Delete by auto
    with s1 Delete show ?thesis by auto
  next
    case (Retrieve d)
    obtain s1 where s1: "retrieve s d = Some (lookup s (key d), s1)" "ok n s1" "lookup s1 = lookup s"
      using retrieve_law [of n s d] Cons.prems(1) by auto
    obtain rs s' where "run_table insert delete retrieve failed s1 ops = Some (rs, s')"
        "ok (n + insertions ops) s'" "map_results key (lookup s1) ops (map snd rs) = (map fst rs, lookup s')"
      using Cons.IH [OF s1(2) _ rest] Cons.prems(2) Retrieve by auto
    with s1 Retrieve show ?thesis by auto
  qed
qed

end

section \<open>The invariant\<close>

text \<open>
  The bucket a hash value belongs to: buckets below \<open>p\<close> have been split already. Every node is in
  the bucket of its hash, keys are not repeated, and \<open>num_items\<close> counts the nodes. The functions
  of the client compare and hash items by their keys.
\<close>

definition bucket_of :: "nat \<Rightarrow> nat \<Rightarrow> u64 \<Rightarrow> nat" where
  "bucket_of p pmax h = (if unat h mod pmax < p then unat h mod (2 * pmax) else unat h mod pmax)"

definition lh_shape :: "'a LHASH \<Rightarrow> bool" where
  "lh_shape lh \<longleftrightarrow> (\<exists>k. lh_pmax lh = 2 ^ (k + 3)) \<and> num_alloc_nodes lh = 2 * lh_pmax lh \<and> lh_p lh < lh_pmax lh
     \<and> num_nodes lh = lh_p lh + lh_pmax lh \<and> length (lh_b lh) = num_alloc_nodes lh"

definition filed :: "('a \<Rightarrow> u64) \<Rightarrow> nat \<Rightarrow> nat \<Rightarrow> 'a lhash_node list list \<Rightarrow> bool" where
  "filed h p m b \<longleftrightarrow> (\<forall>i < length b. \<forall>n \<in> set (b ! i). node_hash n = h (node_data n) \<and> bucket_of p m (node_hash n) = i)"

definition lh_items :: "'a LHASH \<Rightarrow> 'a multiset" where
  "lh_items lh = image_mset node_data (mset (concat (lh_b lh)))"

definition lh_client :: "('a \<Rightarrow> 'k) \<Rightarrow> 'a LHASH \<Rightarrow> bool" where
  "lh_client key lh \<longleftrightarrow> (\<forall>a b. lh_comp lh a b = 0 \<longleftrightarrow> key a = key b) \<and> (\<forall>a b. key a = key b \<longrightarrow> lh_hash lh a = lh_hash lh b)"

definition lh_wf :: "('a \<Rightarrow> 'k) \<Rightarrow> 'a LHASH \<Rightarrow> bool" where
  "lh_wf key lh \<longleftrightarrow> lh_shape lh \<and> filed (lh_hash lh) (lh_p lh) (lh_pmax lh) (lh_b lh) \<and> lh_client key lh
     \<and> (\<forall>k. count (image_mset key (lh_items lh)) k \<le> 1) \<and> num_items lh = size (lh_items lh)"

text \<open>A table that has gone through at most \<open>n\<close> insertions is small enough for its counters.\<close>

definition lh_ok :: "('a \<Rightarrow> 'k) \<Rightarrow> nat \<Rightarrow> 'a LHASH \<Rightarrow> bool" where
  "lh_ok key n lh \<longleftrightarrow> lh_wf key lh \<and> num_nodes lh \<le> 8 + n div 2 \<and> num_items lh \<le> n \<and> n \<le> 2 ^ 29
     \<and> up_load lh = 2 * LH_LOAD_MULT"

definition lh_lookup :: "('a \<Rightarrow> 'k) \<Rightarrow> 'a LHASH \<Rightarrow> 'k \<Rightarrow> 'a option" where
  "lh_lookup key lh k = find (\<lambda>d. key d = k) (map node_data (concat (lh_b lh)))"

lemma mset_concat_update:
  "i < length b \<Longrightarrow> mset (concat (b[i := c])) + mset (b ! i) = mset (concat b) + mset c"
proof -
  assume i: "i < length b"
  have "b = take i b @ (b ! i) # drop (Suc i) b"
    using i by (rule id_take_nth_drop)
  then have "mset (concat b) = mset (concat (take i b)) + mset (b ! i) + mset (concat (drop (Suc i) b))"
    by (metis concat.simps(2) concat_append mset_append union_assoc)
  with i show ?thesis
    by (simp add: upd_conv_take_nth_drop)
qed

lemma unique_item:
  assumes "\<forall>k. count (image_mset key M) k \<le> 1" "x \<in># M" "y \<in># M" "key x = key y"
  shows "x = y"
proof (rule ccontr)
  assume "x \<noteq> y"
  then have "\<exists>N. M = add_mset x (add_mset y N)"
    using assms(2, 3) by (metis insert_DiffM insert_noteq_member)
  then obtain N where "M = add_mset x (add_mset y N)" ..
  then have "count (image_mset key M) (key x) \<ge> 2"
    using assms(4) by simp
  with assms(1) show False
    by (metis Suc_1 not_less_eq_eq)
qed

lemma lookup_iff:
  assumes "lh_wf key lh"
  shows "lh_lookup key lh k = Some d \<longleftrightarrow> d \<in># lh_items lh \<and> key d = k"
proof -
  have "find (\<lambda>d. key d = k) ds = Some d \<longleftrightarrow> d \<in> set ds \<and> key d = k" if "mset ds = lh_items lh" for ds
  proof
    assume "find (\<lambda>d. key d = k) ds = Some d"
    then show "d \<in> set ds \<and> key d = k"
      by (auto simp: find_Some_iff)
  next
    assume d: "d \<in> set ds \<and> key d = k"
    then have "find (\<lambda>d. key d = k) ds \<noteq> None"
      by (auto simp: find_None_iff)
    then obtain d' where d': "find (\<lambda>d. key d = k) ds = Some d'"
      by blast
    then have "d' \<in> set ds \<and> key d' = k"
      by (auto simp: find_Some_iff)
    with d have "d' = d"
      using assms by (intro unique_item [of key "lh_items lh" d' d]) (auto simp: lh_wf_def simp flip: that)
    with d' show "find (\<lambda>d. key d = k) ds = Some d" by simp
  qed
  from this [of "map node_data (concat (lh_b lh))"] show ?thesis
    by (simp add: lh_lookup_def lh_items_def)
qed

lemma lookup_None_iff:
  "lh_lookup key lh k = None \<longleftrightarrow> (\<forall>d \<in># lh_items lh. key d \<noteq> k)"
  by (auto simp: lh_lookup_def lh_items_def find_None_iff)

lemma lookup_eqI:
  assumes "lh_wf key lh" "\<And>d. m k = Some d \<longleftrightarrow> d \<in># lh_items lh \<and> key d = k"
  shows "lh_lookup key lh k = m k"
  using assms lookup_iff [OF assms(1)] by (metis option.exhaust)

lemma num_items_card:
  assumes "lh_wf key lh"
  shows "num_items lh = card (dom (lh_lookup key lh))"
proof -
  have "dom (lh_lookup key lh) = key ` set_mset (lh_items lh)"
    by (auto simp: dom_def lookup_iff [OF assms] image_iff)
  also have "card \<dots> = card (set_mset (image_mset key (lh_items lh)))"
    by simp
  also have "\<dots> = size (image_mset key (lh_items lh))"
  proof -
    have "count (image_mset key (lh_items lh)) k = 1" if "k \<in># image_mset key (lh_items lh)" for k
      using assms that unfolding lh_wf_def by (metis One_nat_def Suc_leI count_greater_zero_iff le_antisym)
    then show ?thesis
      by (simp only: size_multiset_overloaded_eq card_eq_sum cong: sum.cong)
  qed
  finally show ?thesis
    using assms by (simp add: lh_wf_def)
qed

lemma lookup_cong:
  assumes "lh_wf key lh" "lh_wf key lh'" "lh_items lh' = lh_items lh"
  shows "lh_lookup key lh' = lh_lookup key lh"
  by (rule ext, rule lookup_eqI [OF assms(2)]) (simp add: lookup_iff [OF assms(1)] assms(3))

section \<open>Growing and shrinking\<close>

lemma expand_loop_items:
  "expand_loop nni p ns n2 = (a, c) \<Longrightarrow> mset a + mset c = mset ns + mset n2
    \<and> (\<forall>n \<in> set a. unat (node_hash n) mod nni = p) \<and> (\<forall>n \<in> set c. unat (node_hash n) mod nni \<noteq> p \<or> n \<in> set n2)"
proof (induction nni p ns n2 arbitrary: a c rule: expand_loop.induct)
  case (1 nni p n2)
  then show ?case by simp
next
  case (2 nni p np nxt n2)
  show ?case
  proof (cases "unat (node_hash np) mod nni = p")
    case True
    obtain a1 c1 where ac: "expand_loop nni p nxt n2 = (a1, c1)"
      by (rule prod.exhaust)
    with 2 True have "a = np # a1" "c = c1"
      by simp_all
    with "2.IH"(2) [OF _ ac] True show ?thesis by simp
  next
    case False
    with "2.prems" have "expand_loop nni p nxt (np # n2) = (a, c)" by simp
    from "2.IH"(1) [OF False this] False show ?thesis by auto
  qed
qed

lemma mod_double:
  "(0 :: nat) < m \<Longrightarrow> h mod (2 * m) = h mod m \<or> h mod (2 * m) = h mod m + m"
  by (metis add.commute mod_double_nat mult.commute)

lemma bucket_of_less:
  assumes "p < m"
  shows "bucket_of p m h < p + m"
proof -
  have "unat h mod m < m" "unat h mod (2 * m) = unat h mod m \<or> unat h mod (2 * m) = unat h mod m + m"
    using assms by (simp_all add: mod_double)
  then show ?thesis
    using assms by (cases "unat h mod m < p") (simp_all only: bucket_of_def if_True if_False, linarith+)
qed

text \<open>One step of growth, from \<open>p\<close> and \<open>pmax\<close>, splits the bucket \<open>p\<close>.\<close>

definition next_p :: "nat \<Rightarrow> nat \<Rightarrow> nat" where
  "next_p p m = (if p + 1 \<ge> m then 0 else p + 1)"

definition next_max :: "nat \<Rightarrow> nat \<Rightarrow> nat" where
  "next_max p m = (if p + 1 \<ge> m then 2 * m else m)"

lemma bucket_cases:
  assumes "p < m"
  obtains (split) "unat h mod m < p" "bucket_of p m h = unat h mod (2 * m)" "bucket_of p m h \<noteq> p"
      "bucket_of (next_p p m) (next_max p m) h = unat h mod (2 * m)"
    | (now) "unat h mod m = p" "bucket_of p m h = p" "unat h mod (2 * m) = p \<or> unat h mod (2 * m) = p + m"
      "bucket_of (next_p p m) (next_max p m) h = unat h mod (2 * m)"
    | (later) "p < unat h mod m" "bucket_of p m h = unat h mod m" "bucket_of (next_p p m) (next_max p m) h = unat h mod m"
proof -
  define r where "r = unat h mod m"
  define d where "d = unat h mod (2 * m)"
  have r: "r < m" and d: "d = r \<or> d = r + m"
    using assms mod_double [of m "unat h"] by (simp_all add: r_def d_def)
  have old: "bucket_of p m h = (if r < p then d else r)"
    by (simp add: bucket_of_def r_def d_def)
  have new: "bucket_of (next_p p m) (next_max p m) h = (if r \<le> p then d else r)"
  proof (cases "p + 1 \<ge> m")
    case True
    then have "r \<le> p" using r by linarith
    with True show ?thesis by (simp add: bucket_of_def next_p_def next_max_def d_def)
  next
    case False
    then show ?thesis by (simp add: bucket_of_def next_p_def next_max_def r_def d_def less_Suc_eq_le)
  qed
  consider "r < p" | "r = p" | "p < r" by linarith
  then show thesis
  proof cases
    case 1
    with d assms old new show ?thesis
      by (intro split) (auto simp: r_def d_def)
  next
    case 2
    with d old new show ?thesis
      by (intro now) (auto simp: r_def d_def)
  next
    case 3
    with old new show ?thesis
      by (intro later) (auto simp: r_def d_def)
  qed
qed

lemma bucket_grow:
  assumes "p < m"
  shows "bucket_of (next_p p m) (next_max p m) h = (if bucket_of p m h = p then unat h mod (2 * m) else bucket_of p m h)"
  by (rule bucket_cases [OF assms, of h]) auto

lemma bucket_grow_p:
  assumes "p < m" "bucket_of p m h = p"
  shows "unat h mod (2 * m) = p \<or> unat h mod (2 * m) = p + m"
  by (rule bucket_cases [OF assms(1), of h]) (use assms in auto)

lemma bucket_shrink:
  assumes "p < m"
  shows "bucket_of p m h = (let i = bucket_of (next_p p m) (next_max p m) h in if i = p + m then p else i)"
  using bucket_grow [OF assms, of h] bucket_grow_p [OF assms, of h] bucket_of_less [OF assms, of h]
  by (auto simp: Let_def)

lemma filedD:
  "filed h p m b \<Longrightarrow> i < length b \<Longrightarrow> n \<in> set (b ! i) \<Longrightarrow> node_hash n = h (node_data n) \<and> bucket_of p m (node_hash n) = i"
  unfolding filed_def by blast

lemma filed_expand:
  assumes "filed h p m b" "p < m" "p + m < length b" "b ! (p + m) = []"
    and "expand_loop (2 * m) p (b ! p) [] = (n1, n2)"
  shows "filed h (next_p p m) (next_max p m) (b[p := n1, p + m := n2])"
    and "mset (concat (b[p := n1, p + m := n2])) = mset (concat b)"
proof -
  have ms: "mset n1 + mset n2 = mset (b ! p)"
      and n1: "\<And>n. n \<in> set n1 \<Longrightarrow> unat (node_hash n) mod (2 * m) = p"
      and n2: "\<And>n. n \<in> set n2 \<Longrightarrow> unat (node_hash n) mod (2 * m) \<noteq> p"
    using expand_loop_items [OF assms(5)] by auto
  have sub: "n \<in> set (b ! p)" if "n \<in> set n1 \<or> n \<in> set n2" for n
    using that ms by (metis Un_iff set_mset_mset set_mset_union)
  have p: "node_hash n = h (node_data n) \<and> bucket_of p m (node_hash n) = p" if "n \<in> set (b ! p)" for n
    using filedD [OF assms(1) _ that] assms(3) by force
  show "filed h (next_p p m) (next_max p m) (b[p := n1, p + m := n2])"
    unfolding filed_def
  proof (intro allI impI ballI)
    fix i n
    assume i: "i < length (b[p := n1, p + m := n2])" and n: "n \<in> set (b[p := n1, p + m := n2] ! i)"
    show "node_hash n = h (node_data n) \<and> bucket_of (next_p p m) (next_max p m) (node_hash n) = i"
    proof (cases "i = p \<or> i = p + m")
      case True
      with n assms(2, 3) have "i = p \<and> n \<in> set n1 \<or> i = p + m \<and> n \<in> set n2"
        by (auto simp: nth_list_update)
      then show ?thesis
        using p [OF sub, of n] n1 [of n] n2 [of n] bucket_grow_p [OF assms(2), of "node_hash n"]
        by (auto simp: bucket_grow [OF assms(2)])
    next
      case False
      with n i have "n \<in> set (b ! i)" "i < length b" by (auto simp: nth_list_update)
      with filedD [OF assms(1), of i n] False show ?thesis
        by (auto simp: bucket_grow [OF assms(2)])
    qed
  qed
  have "mset (concat (b[p := n1, p + m := n2])) + mset (b ! p) + mset [] = mset (concat b) + mset n1 + mset n2"
    using mset_concat_update [of p b n1] mset_concat_update [of "p + m" "b[p := n1]" n2] assms(2-4)
    by (simp add: nth_list_update union_assoc)
  with ms show "mset (concat (b[p := n1, p + m := n2])) = mset (concat b)"
    by (simp add: union_assoc)
qed

lemma filed_contract:
  assumes "filed h (next_p p m) (next_max p m) b" "p < m" "p + m < length b"
  shows "filed h p m (b[p + m := [], p := b ! p @ b ! (p + m)])"
    and "mset (concat (b[p + m := [], p := b ! p @ b ! (p + m)])) = mset (concat b)"
proof -
  show "filed h p m (b[p + m := [], p := b ! p @ b ! (p + m)])"
    unfolding filed_def
  proof (intro allI impI ballI)
    fix i n
    assume i: "i < length (b[p + m := [], p := b ! p @ b ! (p + m)])"
      and n: "n \<in> set (b[p + m := [], p := b ! p @ b ! (p + m)] ! i)"
    have "n \<in> set (b ! i) \<and> i \<noteq> p + m \<or> i = p \<and> n \<in> set (b ! (p + m))"
      using n i assms(2, 3) by (auto simp: nth_list_update split: if_splits)
    then show "node_hash n = h (node_data n) \<and> bucket_of p m (node_hash n) = i"
    proof
      assume "n \<in> set (b ! i) \<and> i \<noteq> p + m"
      with filedD [OF assms(1), of i n] i show ?thesis
        by (auto simp: bucket_shrink [OF assms(2)] Let_def)
    next
      assume "i = p \<and> n \<in> set (b ! (p + m))"
      with filedD [OF assms(1), of "p + m" n] assms(3) show ?thesis
        by (auto simp: bucket_shrink [OF assms(2)] Let_def)
    qed
  qed
  show "mset (concat (b[p + m := [], p := b ! p @ b ! (p + m)])) = mset (concat b)"
    using mset_concat_update [of "p + m" b "[]"] mset_concat_update [of p "b[p + m := []]" "b ! p @ b ! (p + m)"] assms(2, 3)
    by (simp add: nth_list_update union_assoc)
qed

lemma wrap32_eq [simp]: "n < 2 ^ 32 \<Longrightarrow> wrap32 n = n"
  by (simp add: wrap32_def)

lemma wrap32_pred [simp]: "0 < n \<Longrightarrow> n < 2 ^ 32 \<Longrightarrow> wrap32 (n + (2 ^ 32 - 1)) = n - 1"
  by (cases n) (simp_all add: wrap32_def)

lemma unused_bucket_empty:
  assumes "lh_wf key lh" "num_nodes lh \<le> i" "i < length (lh_b lh)"
  shows "lh_b lh ! i = []"
proof (rule ccontr)
  assume "lh_b lh ! i \<noteq> []"
  then obtain n where n: "n \<in> set (lh_b lh ! i)"
    by (cases "lh_b lh ! i") auto
  have "lh_p lh < lh_pmax lh" "num_nodes lh = lh_p lh + lh_pmax lh"
      "filed (lh_hash lh) (lh_p lh) (lh_pmax lh) (lh_b lh)"
    using assms(1) by (simp_all add: lh_wf_def lh_shape_def)
  with filedD [OF this(3) assms(3) n] bucket_of_less [of "lh_p lh" "lh_pmax lh" "node_hash n"] assms(2)
  show False by auto
qed

text \<open>What growing and shrinking keep: the items and everything but the places of the nodes.\<close>

definition same_table :: "'a LHASH \<Rightarrow> 'a LHASH \<Rightarrow> bool" where
  "same_table lh lh' \<longleftrightarrow> lh_items lh' = lh_items lh \<and> num_items lh' = num_items lh \<and> lh_hash lh' = lh_hash lh
     \<and> lh_comp lh' = lh_comp lh \<and> up_load lh' = up_load lh \<and> down_load lh' = down_load lh"

lemma wf_replaced:
  assumes "lh_wf key lh" "lh_shape lh'" "filed (lh_hash lh') (lh_p lh') (lh_pmax lh') (lh_b lh')" "same_table lh lh'"
  shows "lh_wf key lh'"
proof -
  have "lh_client key lh' = lh_client key lh"
    using assms(4) by (simp add: lh_client_def same_table_def)
  with assms show ?thesis
    by (simp add: lh_wf_def same_table_def)
qed

lemma expand_wf:
  assumes "lh_wf key lh" "num_nodes lh \<le> 8 + 2 ^ 29"
  shows "\<exists>ok lh'. expand al lh = Some (ok, lh') \<and> lh_wf key lh' \<and> same_table lh lh'
    \<and> num_nodes lh' \<le> num_nodes lh + 1 \<and> lh_error lh' = (if ok then lh_error lh else lh_error lh + 1)"
proof -
  define p where "p = lh_p lh"
  define m where "m = lh_pmax lh"
  have shape: "num_alloc_nodes lh = 2 * m" "p < m" "num_nodes lh = p + m" "length (lh_b lh) = 2 * m"
      and fl: "filed (lh_hash lh) p m (lh_b lh)"
    using assms(1) by (simp_all add: lh_wf_def lh_shape_def p_def m_def)
  obtain k where k: "m = 2 ^ (k + 3)"
    using assms(1) by (auto simp: lh_wf_def lh_shape_def m_def)
  have small: "p + 1 < 2 ^ 32" "2 * m * 2 < 2 ^ 32" "p + m + 1 < 2 ^ 32" "0 < m"
    using assms(2) shape by simp_all
  have empty: "lh_b lh ! (p + m) = []"
    using unused_bucket_empty [OF assms(1), of "p + m"] shape by simp
  obtain n1 n2 where ac: "expand_loop (2 * m) p (lh_b lh ! p) [] = (n1, n2)"
    by (rule prod.exhaust)
  show ?thesis
  proof (cases "p + 1 \<ge> m")
    case wrap: True
    show ?thesis
    proof (cases "array_ok al")
      case True
      define b where "b = lh_b lh @ replicate (2 * m) []"
      have b: "b ! p = lh_b lh ! p" "b ! (p + m) = []" "p + m < length b" "mset (concat b) = mset (concat (lh_b lh))"
        using shape empty by (simp_all add: b_def nth_append)
      have flb: "filed (lh_hash lh) p m b"
        unfolding filed_def
        by (auto simp: b_def nth_append split: if_splits dest!: filedD [OF fl, rotated])
      have res: "expand al lh = Some (True, lh\<lparr>lh_b := b[p := n1, p + m := n2], lh_pmax := 2 * m, num_alloc_nodes := 2 * m * 2,
          num_expand_reallocs := uadd (num_expand_reallocs lh) 1, lh_p := 0, num_nodes := p + m + 1,
          num_expands := uadd (num_expands lh) 1\<rparr>)" (is "_ = Some (True, ?lh)")
        using wrap True small shape b ac
        by (simp add: expand_def Let_def flip: p_def m_def) (simp add: b_def)
      have "same_table lh ?lh"
        using filed_expand(2) [OF flb shape(2) b(3, 2), of n1 n2] ac b by (simp add: same_table_def lh_items_def)
      moreover have "lh_shape ?lh"
      proof -
        have "p + 1 = m" "2 * m = 2 ^ ((k + 1) + 3)"
          using wrap shape k by (simp_all add: power_add)
        with shape show ?thesis
          unfolding lh_shape_def by (simp add: b_def del: power_Suc)
      qed
      moreover have "filed (lh_hash ?lh) (lh_p ?lh) (lh_pmax ?lh) (lh_b ?lh)"
        using filed_expand(1) [OF flb shape(2) b(3, 2), of n1 n2] ac b wrap by (simp add: next_p_def next_max_def)
      ultimately show ?thesis
        using res shape wf_replaced [OF assms(1), of ?lh] by auto
    next
      case False
      then have "expand al lh = Some (False, lh\<lparr>lh_error := lh_error lh + 1\<rparr>)"
        using wrap small shape by (simp add: expand_def Let_def flip: p_def m_def)
      moreover have same: "same_table lh (lh\<lparr>lh_error := lh_error lh + 1\<rparr>)"
        by (simp add: same_table_def lh_items_def)
      moreover have "lh_wf key (lh\<lparr>lh_error := lh_error lh + 1\<rparr>)"
        using assms(1) by (intro wf_replaced [OF assms(1) _ _ same]) (simp_all add: lh_wf_def lh_shape_def)
      ultimately show ?thesis by (intro exI [of _ False] exI) auto
    qed
  next
    case grow: False
    have res: "expand al lh = Some (True, lh\<lparr>lh_p := p + 1, num_nodes := p + m + 1,
        num_expands := uadd (num_expands lh) 1, lh_b := (lh_b lh)[p := n1, p + m := n2]\<rparr>)" (is "_ = Some (True, ?lh)")
      using grow small shape ac by (simp add: expand_def Let_def flip: p_def m_def)
    have "same_table lh ?lh"
      using filed_expand(2) [OF fl shape(2) _ empty ac] shape by (simp add: same_table_def lh_items_def)
    moreover have "lh_shape ?lh"
      using shape k grow by (auto simp: lh_shape_def simp flip: m_def)
    moreover have "filed (lh_hash ?lh) (lh_p ?lh) (lh_pmax ?lh) (lh_b ?lh)"
      using filed_expand(1) [OF fl shape(2) _ empty ac] shape grow by (simp add: next_p_def next_max_def flip: m_def)
    ultimately show ?thesis
      using res shape wf_replaced [OF assms(1), of ?lh] by auto
  qed
qed

lemma contract_wf:
  assumes "lh_wf key lh" "num_nodes lh \<le> 8 + 2 ^ 28" "num_nodes lh > 16" "array_ok al"
  shows "\<exists>lh'. contract al lh = Some lh' \<and> lh_wf key lh' \<and> same_table lh lh'
    \<and> num_nodes lh' \<le> num_nodes lh \<and> lh_error lh' = lh_error lh"
proof -
  have shape: "num_alloc_nodes lh = 2 * lh_pmax lh" "lh_p lh < lh_pmax lh" "num_nodes lh = lh_p lh + lh_pmax lh"
      "length (lh_b lh) = 2 * lh_pmax lh" and fl: "filed (lh_hash lh) (lh_p lh) (lh_pmax lh) (lh_b lh)"
    using assms(1) by (simp_all add: lh_wf_def lh_shape_def)
  obtain k where k: "lh_pmax lh = 2 ^ (k + 3)"
    using assms(1) by (auto simp: lh_wf_def lh_shape_def)
  define p where "p = (if lh_p lh = 0 then lh_pmax lh div 2 - 1 else lh_p lh - 1)"
  define m where "m = (if lh_p lh = 0 then lh_pmax lh div 2 else lh_pmax lh)"
  have even: "lh_p lh = 0 \<Longrightarrow> \<exists>j. lh_pmax lh = 2 * 2 ^ (j + 3)"
  proof -
    assume "lh_p lh = 0"
    then have "k \<noteq> 0" using shape assms(3) k by (intro notI) simp
    then show "\<exists>j. lh_pmax lh = 2 * 2 ^ (j + 3)"
      using k by (intro exI [of _ "k - 1"]) (cases k; simp add: power_add)
  qed
  have pm: "p < m" "next_p p m = lh_p lh" "next_max p m = lh_pmax lh" "p + m + 1 = lh_p lh + lh_pmax lh" "p + m < length (lh_b lh)"
    using shape even by (auto simp: p_def m_def next_p_def next_max_def)
  have small: "p + m + 1 < 2 ^ 32" "0 < m" "p < 2 ^ 31"
    using assms(2) shape pm by simp_all
  define b where "b = (lh_b lh)[p + m := [], p := lh_b lh ! p @ lh_b lh ! (p + m)]"
  have b: "filed (lh_hash lh) p m b" "mset (concat b) = mset (concat (lh_b lh))" "length b = 2 * lh_pmax lh"
    using filed_contract [of "lh_hash lh" p m "lh_b lh"] fl pm shape by (simp_all add: b_def)
  have "lh_p lh + lh_pmax lh + (2 ^ 32 - 1) = p + m + 2 ^ 32"
    using pm(4) by simp
  then have last: "wrap32 (lh_p lh + lh_pmax lh + (2 ^ 32 - 1)) = p + m"
    using small by (simp add: wrap32_def)
  have mid: "(lh_b lh)[p + m := []] ! p = lh_b lh ! p"
    using small by simp
  show ?thesis
  proof (cases "lh_p lh = 0")
    case True
    obtain j where j: "lh_pmax lh = 2 * 2 ^ (j + 3)"
      using even [OF True] by blast
    have m: "m = 2 ^ (j + 3)" "lh_pmax lh = 2 * m" "lh_pmax lh div 2 = m"
      using True j by (simp_all add: m_def)
    have rest: "concat (drop (2 * m) b) = []"
    proof -
      have "b ! i = []" if "2 * m \<le> i" "i < length b" for i
        using unused_bucket_empty [OF assms(1), of i] that shape True m pm(1) b(3) by (simp add: b_def nth_list_update)
      then show ?thesis
        by (auto simp: in_set_conv_nth)
    qed
    have tk: "mset (concat (take (2 * m) b)) = mset (concat b)"
      using concat_append [of "take (2 * m) b" "drop (2 * m) b"] rest by (simp only: append_take_drop_id append_Nil2)
    have ft: "filed (lh_hash lh) p m (take (2 * m) b)"
      unfolding filed_def by (auto dest!: filedD [OF b(1), rotated])
    have res: "contract al lh = Some (lh\<lparr>num_contract_reallocs := uadd (num_contract_reallocs lh) 1,
        num_alloc_nodes := 2 * m, lh_pmax := m, lh_p := p,
        num_nodes := p + m, num_contracts := uadd (num_contracts lh) 1, lh_b := take (2 * m) b\<rparr>)" (is "_ = Some ?lh")
    proof -
      have "wrap32 (m + (2 ^ 32 - 1)) = p"
        using small True m(3) wrap32_pred [of m] by (simp add: p_def)
      moreover have "wrap32 (8 * lh_pmax lh) = 8 * lh_pmax lh"
        using assms(2) shape(3) by (simp add: wrap32_def)
      ultimately show ?thesis
        using True m(2) last mid small(2, 3) pm(1) shape(1, 3, 4) assms(4)
        by (simp add: contract_def Let_def b_def take_update_swap del: One_nat_def)
    qed
    have "same_table lh ?lh"
      using tk b(2) by (simp add: same_table_def lh_items_def)
    moreover have "lh_shape ?lh"
      using m b(3) pm(1) by (auto simp: lh_shape_def)
    ultimately show ?thesis
      using res pm(4) ft shape wf_replaced [OF assms(1), of ?lh] by auto
  next
    case False
    have m: "m = lh_pmax lh" "p = lh_p lh - 1"
      using False by (simp_all add: m_def p_def)
    have res: "contract al lh = Some (lh\<lparr>lh_p := p, num_nodes := p + m, num_contracts := uadd (num_contracts lh) 1,
        lh_b := b\<rparr>)" (is "_ = Some ?lh")
      using False last mid small pm(5) shape(3) m(2)
      by (simp add: contract_def Let_def b_def)
    have "same_table lh ?lh"
      using b(2) by (simp add: same_table_def lh_items_def)
    moreover have "lh_shape ?lh"
      using m b(3) pm(1) shape k by (auto simp: lh_shape_def)
    ultimately show ?thesis
      using res pm(4) b(1) m(1) shape wf_replaced [OF assms(1), of ?lh] by auto
  qed
qed

section \<open>Finding, inserting and deleting\<close>

text \<open>Searching only counts.\<close>

definition counted :: "'a LHASH \<Rightarrow> 'a LHASH \<Rightarrow> bool" where
  "counted lh lh' \<longleftrightarrow> (\<exists>a b c. lh' = lh\<lparr>num_hash_calls := a, num_comp_calls := b, num_hash_comps := c\<rparr>)"

lemma getrn_loop_counted: "counted lh (snd (getrn_loop hash data ns k lh))"
proof (induction hash data ns k lh rule: getrn_loop.induct)
  case (1 hash data k lh)
  have "lh = lh\<lparr>num_hash_calls := num_hash_calls lh, num_comp_calls := num_comp_calls lh, num_hash_comps := num_hash_comps lh\<rparr>"
    by simp
  then show ?case
    unfolding counted_def by (metis getrn_loop.simps(1) snd_conv)
next
  case (2 hash data n1 nxt k lh)
  then show ?case
    by (cases lh) (auto simp: counted_def Let_def)
qed

lemma getrn_loop_spec:
  "\<exists>j. fst (getrn_loop hash data ns k lh) = k + j \<and> j \<le> length ns
     \<and> (\<forall>n \<in> set (take j ns). \<not> (node_hash n = hash \<and> lh_comp lh (node_data n) data = 0))
     \<and> (j < length ns \<longrightarrow> node_hash (ns ! j) = hash \<and> lh_comp lh (node_data (ns ! j)) data = 0)"
proof (induction ns arbitrary: k lh)
  case Nil
  then show ?case by simp
next
  case (Cons n ns)
  show ?case
  proof (cases "node_hash n = hash \<and> lh_comp lh (node_data n) data = 0")
    case True
    then show ?thesis by (intro exI [of _ 0]) (simp add: Let_def)
  next
    case False
    then obtain lh' where lh': "getrn_loop hash data (n # ns) k lh = getrn_loop hash data ns (Suc k) lh'" "lh_comp lh' = lh_comp lh"
      by (cases "node_hash n = hash") (auto simp: Let_def)
    obtain j where j: "fst (getrn_loop hash data ns (Suc k) lh') = Suc k + j" "j \<le> length ns"
        "\<forall>n \<in> set (take j ns). \<not> (node_hash n = hash \<and> lh_comp lh' (node_data n) data = 0)"
        "j < length ns \<longrightarrow> node_hash (ns ! j) = hash \<and> lh_comp lh' (node_data (ns ! j)) data = 0"
      using Cons.IH [of "Suc k" lh'] by blast
    show ?thesis
      using j False unfolding lh'(1) lh'(2) by (intro exI [of _ "Suc j"]) auto
  qed
qed

text \<open>
  \<open>getrn\<close> finds the place of an item: the node that holds its key, or the end of the chain when
  the key is not in the table.
\<close>

lemma getrn_spec:
  assumes "lh_wf key lh" "num_nodes lh \<le> 8 + 2 ^ 29"
  obtains nn k lh' where "getrn lh d = Some (lh_hash lh d, nn, k, lh')" "counted lh lh'"
    "nn < length (lh_b lh)" "nn = bucket_of (lh_p lh) (lh_pmax lh) (lh_hash lh d)" "k \<le> length (lh_b lh ! nn)"
    "k < length (lh_b lh ! nn) \<Longrightarrow> key (node_data (lh_b lh ! nn ! k)) = key d"
    "k = length (lh_b lh ! nn) \<Longrightarrow> lh_lookup key lh (key d) = None"
proof -
  have shape: "num_alloc_nodes lh = 2 * lh_pmax lh" "lh_p lh < lh_pmax lh" "num_nodes lh = lh_p lh + lh_pmax lh"
      "length (lh_b lh) = 2 * lh_pmax lh" and fl: "filed (lh_hash lh) (lh_p lh) (lh_pmax lh) (lh_b lh)"
      and cl: "lh_client key lh"
    using assms(1) by (simp_all add: lh_wf_def lh_shape_def)
  define nn where "nn = bucket_of (lh_p lh) (lh_pmax lh) (lh_hash lh d)"
  have nn: "nn < 2 ^ 31" "nn < length (lh_b lh)"
    using bucket_of_less [OF shape(2), of "lh_hash lh d"] shape assms(2) by (simp_all add: nn_def)
  define l0 where "l0 = lh\<lparr>num_hash_calls := uadd (num_hash_calls lh) 1\<rparr>"
  obtain k lh' where kl: "getrn_loop (lh_hash lh d) d (lh_b lh ! nn) 0 l0 = (k, lh')"
    by (rule prod.exhaust)
  have res: "getrn lh d = Some (lh_hash lh d, nn, k, lh')"
    using nn shape kl by (cases "unat (lh_hash lh d) mod lh_pmax lh < lh_p lh")
      (simp_all add: getrn_def Let_def bucket_of_def nn_def l0_def)
  have "counted l0 lh'"
    using getrn_loop_counted [of l0 "lh_hash lh d" d "lh_b lh ! nn" 0] kl by simp
  then have cnt: "counted lh lh'"
    by (auto simp: counted_def l0_def)
  have k: "k \<le> length (lh_b lh ! nn)"
      "\<forall>n \<in> set (take k (lh_b lh ! nn)). \<not> (node_hash n = lh_hash lh d \<and> lh_comp lh (node_data n) d = 0)"
      "k < length (lh_b lh ! nn) \<longrightarrow> lh_comp lh (node_data (lh_b lh ! nn ! k)) d = 0"
    using getrn_loop_spec [of "lh_hash lh d" d "lh_b lh ! nn" 0 l0] kl by (auto simp: l0_def)
  have comp: "lh_comp lh a d = 0 \<longleftrightarrow> key a = key d" for a
    using cl by (simp add: lh_client_def)
  have hash: "lh_hash lh a = lh_hash lh d" if "key a = key d" for a
    using cl that unfolding lh_client_def by blast
  have miss: "lh_lookup key lh (key d) = None" if "k = length (lh_b lh ! nn)"
    unfolding lookup_None_iff
  proof
    fix a assume "a \<in># lh_items lh"
    then obtain ns n where ns: "ns \<in> set (lh_b lh)" "n \<in> set ns" "a = node_data n"
      by (auto simp: lh_items_def)
    from ns(1) obtain i where "i < length (lh_b lh)" "lh_b lh ! i = ns"
      by (auto simp: in_set_conv_nth)
    with ns have n: "i < length (lh_b lh)" "n \<in> set (lh_b lh ! i)" "a = node_data n"
      by simp_all
    show "key a \<noteq> key d"
    proof
      assume a: "key a = key d"
      have "node_hash n = lh_hash lh d" "i = nn"
        using filedD [OF fl n(1, 2)] hash [OF a] n(3) by (auto simp: nn_def)
      with k(2) that n a comp show False by simp
    qed
  qed
  show thesis
    using that [of nn k lh'] res cnt nn(2) k(1, 3) miss comp by (simp add: nn_def)
qed

text \<open>A store into a chain replaces the nodes from position \<open>k\<close> on.\<close>

definition stored :: "nat \<Rightarrow> nat \<Rightarrow> 'a lhash_node list \<Rightarrow> 'a LHASH \<Rightarrow> 'a LHASH \<Rightarrow> bool" where
  "stored nn k ns lh lh' \<longleftrightarrow> lh_b lh' = (lh_b lh)[nn := take k (lh_b lh ! nn) @ ns] \<and> lh_hash lh' = lh_hash lh
     \<and> lh_comp lh' = lh_comp lh \<and> num_nodes lh' = num_nodes lh \<and> num_alloc_nodes lh' = num_alloc_nodes lh
     \<and> lh_p lh' = lh_p lh \<and> lh_pmax lh' = lh_pmax lh \<and> up_load lh' = up_load lh \<and> down_load lh' = down_load lh"

lemma stored_items:
  assumes "stored nn k ns lh lh'" "nn < length (lh_b lh)"
  shows "lh_items lh' + image_mset node_data (mset (drop k (lh_b lh ! nn))) = lh_items lh + image_mset node_data (mset ns)"
proof -
  have "mset (lh_b lh ! nn) = mset (take k (lh_b lh ! nn)) + mset (drop k (lh_b lh ! nn))"
    by (metis append_take_drop_id mset_append)
  with mset_concat_update [OF assms(2), of "take k (lh_b lh ! nn) @ ns"]
  have "mset (concat (lh_b lh')) + mset (drop k (lh_b lh ! nn)) = mset (concat (lh_b lh)) + mset ns"
    using assms(1) by (simp add: stored_def)
  from arg_cong [OF this, of "image_mset node_data"] show ?thesis
    by (simp add: lh_items_def)
qed

lemma stored_wf:
  assumes "lh_wf key lh" "stored nn k ns lh lh'" "nn < length (lh_b lh)"
    and "\<And>n. n \<in> set ns \<Longrightarrow> node_hash n = lh_hash lh (node_data n) \<and> bucket_of (lh_p lh) (lh_pmax lh) (node_hash n) = nn"
    and "\<And>k. count (image_mset key (lh_items lh')) k \<le> 1" "num_items lh' = size (lh_items lh')"
  shows "lh_wf key lh'"
proof -
  have fl: "filed (lh_hash lh) (lh_p lh) (lh_pmax lh) (lh_b lh)"
    using assms(1) by (simp add: lh_wf_def)
  have "filed (lh_hash lh) (lh_p lh) (lh_pmax lh) ((lh_b lh)[nn := take k (lh_b lh ! nn) @ ns])"
    unfolding filed_def
  proof (intro allI impI ballI)
    fix i n
    assume "i < length ((lh_b lh)[nn := take k (lh_b lh ! nn) @ ns])" "n \<in> set ((lh_b lh)[nn := take k (lh_b lh ! nn) @ ns] ! i)"
    then have "i < length (lh_b lh) \<and> (n \<in> set (lh_b lh ! i) \<or> i = nn \<and> n \<in> set ns)"
      using assms(3) by (auto simp: nth_list_update dest: in_set_takeD split: if_splits)
    then show "node_hash n = lh_hash lh (node_data n) \<and> bucket_of (lh_p lh) (lh_pmax lh) (node_hash n) = i"
      using filedD [OF fl, of i n] assms(4) [of n] by blast
  qed
  moreover have "lh_client key lh' = lh_client key lh"
    using assms(2) by (simp add: lh_client_def stored_def)
  moreover have "lh_shape lh' = lh_shape lh"
    using assms(2) by (simp add: lh_shape_def stored_def)
  ultimately show ?thesis
    using assms(1, 2, 5, 6) by (simp add: lh_wf_def stored_def)
qed

lemma wf_unique: "lh_wf key lh \<Longrightarrow> count (image_mset key (lh_items lh)) k \<le> 1"
  by (simp add: lh_wf_def)

lemma count_key_None:
  "lh_lookup key lh k = None \<Longrightarrow> count (image_mset key (lh_items lh)) k = 0"
  by (auto simp: lookup_None_iff count_eq_zero_iff)

lemma stored_new:
  assumes "lh_wf key lh" "stored nn (length (lh_b lh ! nn)) [\<lparr>node_data = d, node_hash = lh_hash lh d\<rparr>] lh lh'"
    and "nn < length (lh_b lh)" "nn = bucket_of (lh_p lh) (lh_pmax lh) (lh_hash lh d)"
    and "lh_lookup key lh (key d) = None" "num_items lh' = num_items lh + 1"
  shows "lh_wf key lh'" "lh_lookup key lh' = (lh_lookup key lh)(key d \<mapsto> d)"
proof -
  have items: "lh_items lh' = add_mset d (lh_items lh)"
    using stored_items [OF assms(2, 3)] by simp
  show wf: "lh_wf key lh'"
  proof (rule stored_wf [OF assms(1-3)])
    show "count (image_mset key (lh_items lh')) k \<le> 1" for k
      using wf_unique [OF assms(1), of k] count_key_None [OF assms(5)] by (auto simp: items)
    show "num_items lh' = size (lh_items lh')"
      using assms(1, 6) by (simp add: items lh_wf_def)
  qed (use assms(4) in auto)
  have "\<forall>x \<in># lh_items lh. key x \<noteq> key d"
    using assms(5) by (simp add: lookup_None_iff)
  then show "lh_lookup key lh' = (lh_lookup key lh)(key d \<mapsto> d)"
    by (intro ext lookup_eqI [OF wf]) (auto simp: items lookup_iff [OF assms(1)])
qed

lemma stored_replaced:
  assumes "lh_wf key lh" "drop k (lh_b lh ! nn) = rn # nxt" "stored nn k (rn\<lparr>node_data := d\<rparr> # nxt) lh lh'"
    and "nn < length (lh_b lh)" "nn = bucket_of (lh_p lh) (lh_pmax lh) (lh_hash lh d)"
    and "key (node_data rn) = key d" "num_items lh' = num_items lh"
  shows "lh_wf key lh'" "lh_lookup key lh' = (lh_lookup key lh)(key d \<mapsto> d)"
proof -
  obtain M where M: "lh_items lh = add_mset (node_data rn) M" "lh_items lh' = add_mset d M"
  proof -
    have "rn \<in> set (lh_b lh ! nn)"
      using assms(2) by (metis in_set_dropD list.set_intros(1))
    then have "node_data rn \<in># lh_items lh"
      using nth_mem [OF assms(4)] by (auto simp: lh_items_def)
    then obtain M where "lh_items lh = add_mset (node_data rn) M"
      by (metis insert_DiffM)
    moreover from this have "lh_items lh' = add_mset d M"
      using stored_items [OF assms(3, 4)] assms(2) by (simp add: add_mset_commute)
    ultimately show thesis by (rule that)
  qed
  show wf: "lh_wf key lh'"
  proof (rule stored_wf [OF assms(1, 3, 4)])
    fix n assume n: "n \<in> set (rn\<lparr>node_data := d\<rparr> # nxt)"
    have sub: "x \<in> set (lh_b lh ! nn)" if "x \<in> set (rn # nxt)" for x
      using that assms(2) by (metis in_set_dropD)
    have fl: "filed (lh_hash lh) (lh_p lh) (lh_pmax lh) (lh_b lh)" and hs: "lh_hash lh (node_data rn) = lh_hash lh d"
      using assms(1, 6) unfolding lh_wf_def lh_client_def by blast+
    show "node_hash n = lh_hash lh (node_data n) \<and> bucket_of (lh_p lh) (lh_pmax lh) (node_hash n) = nn"
      using filedD [OF fl assms(4) sub, of rn] filedD [OF fl assms(4) sub, of n] n hs by auto
  next
    show "count (image_mset key (lh_items lh')) k \<le> 1" for k
      using wf_unique [OF assms(1), of k] assms(6) by (simp add: M)
    show "num_items lh' = size (lh_items lh')"
      using assms(1, 7) by (simp add: M lh_wf_def)
  qed
  have "\<forall>x \<in># M. key x \<noteq> key d"
  proof
    fix x assume "x \<in># M"
    then obtain N where "M = add_mset x N" by (metis insert_DiffM)
    with wf_unique [OF assms(1), of "key d"] assms(6) show "key x \<noteq> key d"
      by (auto simp: M)
  qed
  then show "lh_lookup key lh' = (lh_lookup key lh)(key d \<mapsto> d)"
    by (intro ext lookup_eqI [OF wf]) (auto simp: M lookup_iff [OF assms(1)] assms(6))
qed

lemma stored_deleted:
  assumes "lh_wf key lh" "drop k (lh_b lh ! nn) = rn # nxt" "stored nn k nxt lh lh'"
    and "nn < length (lh_b lh)" "key (node_data rn) = key d" "num_items lh' = num_items lh - 1"
  shows "lh_wf key lh'" "lh_lookup key lh' = (lh_lookup key lh)(key d := None)"
    and "lh_items lh = add_mset (node_data rn) (lh_items lh')"
proof -
  show M: "lh_items lh = add_mset (node_data rn) (lh_items lh')"
    using stored_items [OF assms(3, 4)] assms(2) by simp
  show wf: "lh_wf key lh'"
  proof (rule stored_wf [OF assms(1, 3, 4)])
    fix n assume "n \<in> set nxt"
    then have "n \<in> set (lh_b lh ! nn)"
      using assms(2) by (metis in_set_dropD list.set_intros(2))
    then show "node_hash n = lh_hash lh (node_data n) \<and> bucket_of (lh_p lh) (lh_pmax lh) (node_hash n) = nn"
      using filedD [of "lh_hash lh" "lh_p lh" "lh_pmax lh" "lh_b lh" nn n] assms(1, 4) unfolding lh_wf_def by blast
  next
    show "count (image_mset key (lh_items lh')) k \<le> 1" for k
      using wf_unique [OF assms(1), of k] by (simp add: M split: if_splits)
    show "num_items lh' = size (lh_items lh')"
      using assms(1, 6) by (simp add: M lh_wf_def)
  qed
  have "\<forall>x \<in># lh_items lh'. key x \<noteq> key d"
  proof
    fix x assume "x \<in># lh_items lh'"
    then obtain N where "lh_items lh' = add_mset x N" by (metis insert_DiffM)
    with wf_unique [OF assms(1), of "key d"] assms(5) show "key x \<noteq> key d"
      by (auto simp: M)
  qed
  then show "lh_lookup key lh' = (lh_lookup key lh)(key d := None)"
    by (intro ext lookup_eqI [OF wf]) (auto simp: M lookup_iff [OF assms(1)] assms(5))
qed

lemma counted_same:
  assumes "counted lh lh'"
  shows "lh_b lh' = lh_b lh" "lh_hash lh' = lh_hash lh" "num_nodes lh' = num_nodes lh" "num_items lh' = num_items lh"
    and "down_load lh' = down_load lh" "up_load lh' = up_load lh" "lh_error lh' = lh_error lh" "lh_lookup key lh' = lh_lookup key lh"
    and "lh_wf key lh' = lh_wf key lh" "stored nn k ns lh' = stored nn k ns lh"
  using assms unfolding counted_def
  by (elim exE, simp add: lh_lookup_def lh_wf_def lh_shape_def lh_items_def lh_client_def stored_def fun_eq_iff)+

lemma drop_eq_Cons_nth:
  "drop k xs = x # ys \<Longrightarrow> k < length xs \<and> xs ! k = x"
  by (metis drop_all list.distinct(1) not_le nth_via_drop)

lemma lookup_node:
  assumes "lh_wf key lh" "nn < length (lh_b lh)" "drop k (lh_b lh ! nn) = rn # nxt"
  shows "lh_lookup key lh (key (node_data rn)) = Some (node_data rn)"
proof -
  have "rn \<in> set (lh_b lh ! nn)"
    using drop_eq_Cons_nth [OF assms(3)] nth_mem by blast
  then show ?thesis
    using nth_mem [OF assms(2)] by (auto simp: lookup_iff [OF assms(1)] lh_items_def)
qed

lemma error_reset:
  "lh_wf key (lh\<lparr>lh_error := e\<rparr>) = lh_wf key lh" "lh_lookup key (lh\<lparr>lh_error := e\<rparr>) = lh_lookup key lh"
  by (simp_all add: lh_lookup_def lh_wf_def lh_shape_def lh_items_def lh_client_def fun_eq_iff)

lemma lh_okD:
  assumes "lh_ok key n lh"
  shows "lh_wf key lh" "num_nodes lh \<le> 8 + n div 2" "num_items lh \<le> n" "n \<le> 2 ^ 29" "num_nodes lh \<le> 8 + 2 ^ 29" "0 < num_nodes lh"
    "num_nodes lh \<le> 8 + 2 ^ 28" "up_load lh = 2 * LH_LOAD_MULT"
  using assms by (auto simp: lh_ok_def lh_wf_def lh_shape_def)

lemma insert_found:
  assumes "lh_wf key lh" "num_nodes lh \<le> 8 + 2 ^ 29" "num_items lh < 2 ^ 29"
  shows "\<exists>r lh'. map_option (place_item al d) (getrn lh d) = Some (r, lh')
    \<and> lh_wf key lh' \<and> num_nodes lh' = num_nodes lh \<and> num_items lh' \<le> num_items lh + 1 \<and> up_load lh' = up_load lh
    \<and> (if lh_error lh' \<noteq> lh_error lh then r = None \<and> lh_lookup key lh' = lh_lookup key lh
       else r = lh_lookup key lh (key d) \<and> lh_lookup key lh' = (lh_lookup key lh)(key d \<mapsto> d))"
proof (rule getrn_spec [OF assms(1, 2), of d])
  fix nn k lh1
  assume g: "getrn lh d = Some (lh_hash lh d, nn, k, lh1)" "counted lh lh1" "nn < length (lh_b lh)"
      "nn = bucket_of (lh_p lh) (lh_pmax lh) (lh_hash lh d)" "k \<le> length (lh_b lh ! nn)"
    and hit: "k < length (lh_b lh ! nn) \<Longrightarrow> key (node_data (lh_b lh ! nn ! k)) = key d"
    and miss: "k = length (lh_b lh ! nn) \<Longrightarrow> lh_lookup key lh (key d) = None"
  note same = counted_same [OF g(2)]
  show ?thesis
  proof (cases "drop k (lh_b lh ! nn)")
    case Nil
    then have k: "k = length (lh_b lh ! nn)"
      using g(5) by simp
    show ?thesis
    proof (cases "node_ok al")
      case True
      define lh' where "lh' = (set_rn nn k [\<lparr>node_data = d, node_hash = lh_hash lh d\<rparr>] lh1)
              \<lparr>num_insert := uadd (num_insert lh1) 1, num_items := uadd (num_items lh1) 1\<rparr>"
      have res: "place_item al d (lh_hash lh d, nn, k, lh1) = (None, lh')"
        using True Nil by (simp add: place_item_def lh'_def same)
      have st: "stored nn (length (lh_b lh ! nn)) [\<lparr>node_data = d, node_hash = lh_hash lh d\<rparr>] lh lh'"
        using k g(2) by (auto simp: lh'_def stored_def set_rn_def counted_def)
      have n: "num_items lh' = num_items lh + 1" "num_nodes lh' = num_nodes lh" "lh_error lh' = lh_error lh"
        using assms(3) by (simp_all add: lh'_def set_rn_def same uadd_def)
      show ?thesis
        using stored_new [OF assms(1) st g(3, 4) miss [OF k] n(1)] n g(1) miss [OF k] res st by (simp add: stored_def)
    next
      case False
      then have "place_item al d (lh_hash lh d, nn, k, lh1) = (None, lh1\<lparr>lh_error := lh_error lh1 + 1\<rparr>)"
        using Nil by (simp add: place_item_def same)
      then show ?thesis
        using g(1) assms(1) by (simp add: same error_reset)
    qed
  next
    case (Cons rn nxt)
    define lh' where "lh' = (set_rn nn k (rn\<lparr>node_data := d\<rparr> # nxt) lh1)\<lparr>num_replace := uadd (num_replace lh1) 1\<rparr>"
    have res: "place_item al d (lh_hash lh d, nn, k, lh1) = (Some (node_data rn), lh')"
      using Cons by (simp add: place_item_def lh'_def same)
    have k: "k < length (lh_b lh ! nn)" "lh_b lh ! nn ! k = rn"
      using Cons drop_eq_Cons_nth [OF Cons] by simp_all
    have key: "key (node_data rn) = key d"
      using hit k by simp
    have st: "stored nn k (rn\<lparr>node_data := d\<rparr> # nxt) lh lh'"
      using g(2) by (auto simp: lh'_def stored_def set_rn_def counted_def)
    have n: "num_items lh' = num_items lh" "num_nodes lh' = num_nodes lh" "lh_error lh' = lh_error lh"
      by (simp_all add: lh'_def set_rn_def same)
    show ?thesis
      using stored_replaced [OF assms(1) Cons st g(3, 4) key n(1)] n g(1) res
        lookup_node [OF assms(1) g(3) Cons] key st by (simp add: stored_def)
  qed
qed

text \<open>The table expands only when there are twice as many items as buckets.\<close>

lemma expand_load:
  assumes "512 \<le> (i * 256) mod 2 ^ 64 div (m :: nat)" "i \<le> 2 ^ 29" "0 < m"
  shows "2 * m \<le> i"
proof -
  have "i * 256 mod 2 ^ 64 = i * 256"
    using assms(2) by simp
  then show ?thesis
    using assms(1,3) by (simp add: less_eq_div_iff_mult_less_eq)
qed

lemma insert_ok:
  assumes "lh_ok key n lh" "n < 2 ^ 29"
  shows "\<exists>r lh'. OPENtls_LH_insert al lh d = Some (r, lh') \<and> lh_ok key (Suc n) lh'
    \<and> (if lh_error lh' \<noteq> 0 then r = None \<and> lh_lookup key lh' = lh_lookup key lh
       else r = lh_lookup key lh (key d) \<and> lh_lookup key lh' = (lh_lookup key lh)(key d \<mapsto> d))"
proof -
  note ok = lh_okD [OF assms(1)]
  define l0 where "l0 = lh\<lparr>lh_error := 0\<rparr>"
  have l0: "lh_wf key l0" "num_nodes l0 = num_nodes lh" "num_items l0 = num_items lh" "lh_error l0 = 0" "lh_lookup key l0 = lh_lookup key lh"
    using ok(1) by (simp_all add: l0_def error_reset)
  obtain g l1 where l1: "(if up_load l0 \<le> (num_items l0 * 256) mod 2 ^ 64 div num_nodes l0 then expand al l0 else Some (True, l0)) = Some (g, l1)"
      "lh_wf key l1" "same_table l0 l1" "num_nodes l1 \<le> 8 + n div 2" "lh_error l1 = (if g then 0 else 1)"
  proof (cases "up_load l0 \<le> (num_items l0 * 256) mod 2 ^ 64 div num_nodes l0")
    case True
    obtain g l1 where "expand al l0 = Some (g, l1)" "lh_wf key l1" "same_table l0 l1"
        "num_nodes l1 \<le> num_nodes l0 + 1" "lh_error l1 = (if g then lh_error l0 else lh_error l0 + 1)"
      using expand_wf [OF l0(1), of al] ok(5) l0(2) by auto
    moreover have "num_nodes lh + 1 \<le> 8 + n div 2"
      using True expand_load [of "num_items lh" "num_nodes lh"] ok l0 by (simp add: l0_def)
    ultimately show thesis using True l0 by (intro that [of g l1]) simp_all
  next
    case False
    with l0 ok(2) show thesis by (intro that [of True l0]) (simp_all add: same_table_def)
  qed
  have look: "lh_lookup key l1 = lh_lookup key lh" "num_items l1 = num_items lh" "up_load l1 = 512"
    using lookup_cong [OF l0(1) l1(2)] l1(3) l0 ok(8) by (simp_all add: same_table_def l0_def)
  have more: "8 + n div 2 \<le> 8 + Suc n div 2"
    by simp
  have step: "OPENtls_LH_insert al lh d = (if \<not> g then Some (None, l1) else map_option (place_item al d) (getrn l1 d))"
    using l1(1) ok(6) l0(2) by (simp add: OPENtls_LH_insert_def load_def Let_def flip: l0_def)
  show ?thesis
  proof (cases g)
    case False
    then show ?thesis
      using step l1 look ok assms(2) order_trans [OF l1(4) more] by (simp add: lh_ok_def del: div_Suc)
  next
    case True
    have "num_nodes l1 \<le> 8 + 2 ^ 29" "num_items l1 < 2 ^ 29"
      using l1(4) ok assms(2) look(2) by simp_all
    then obtain r l2 where l2: "map_option (place_item al d) (getrn l1 d) = Some (r, l2)"
        "lh_wf key l2" "num_nodes l2 = num_nodes l1" "num_items l2 \<le> num_items l1 + 1" "up_load l2 = up_load l1"
        "if lh_error l2 \<noteq> lh_error l1 then r = None \<and> lh_lookup key l2 = lh_lookup key l1
         else r = lh_lookup key l1 (key d) \<and> lh_lookup key l2 = (lh_lookup key l1)(key d \<mapsto> d)"
      using insert_found [OF l1(2), of al d] by blast
    have "lh_ok key (Suc n) l2"
      using l2 ok assms(2) look(2,3) order_trans [OF l1(4) more] by (simp add: lh_ok_def)
    then show ?thesis
      using True step l2 l1(5) look by (intro exI [of _ r] exI [of _ l2]) simp
  qed
qed

lemma retrieve_ok:
  assumes "lh_ok key n lh"
  shows "\<exists>lh'. OPENtls_LH_retrieve lh d = Some (lh_lookup key lh (key d), lh') \<and> lh_ok key n lh' \<and> lh_lookup key lh' = lh_lookup key lh"
proof -
  note ok = lh_okD [OF assms]
  define l0 where "l0 = lh\<lparr>lh_error := 0\<rparr>"
  have l0: "lh_wf key l0" "num_nodes l0 = num_nodes lh" "num_items l0 = num_items lh" "lh_lookup key l0 = lh_lookup key lh" "up_load l0 = up_load lh"
    using ok(1) by (simp_all add: l0_def error_reset)
  have "num_nodes l0 \<le> 8 + 2 ^ 29"
    using ok(5) l0(2) by simp
  then show ?thesis
  proof (rule getrn_spec [OF l0(1), of d])
    fix nn k l1
    assume g: "getrn l0 d = Some (lh_hash l0 d, nn, k, l1)" "counted l0 l1" "nn < length (lh_b l0)" "k \<le> length (lh_b l0 ! nn)"
      and hit: "k < length (lh_b l0 ! nn) \<Longrightarrow> key (node_data (lh_b l0 ! nn ! k)) = key d"
      and miss: "k = length (lh_b l0 ! nn) \<Longrightarrow> lh_lookup key l0 (key d) = None"
    note same = counted_same [OF g(2)]
    have count: "lh_ok key n (l1\<lparr>num_retrieve := a\<rparr>)" "lh_ok key n (l1\<lparr>num_retrieve_miss := a\<rparr>)"
        "lh_lookup key (l1\<lparr>num_retrieve := a\<rparr>) = lh_lookup key lh" "lh_lookup key (l1\<lparr>num_retrieve_miss := a\<rparr>) = lh_lookup key lh" for a
    proof -
      have "lh_wf key (l1\<lparr>num_retrieve := a\<rparr>) = lh_wf key l1" "lh_wf key (l1\<lparr>num_retrieve_miss := a\<rparr>) = lh_wf key l1"
          "lh_lookup key (l1\<lparr>num_retrieve := a\<rparr>) = lh_lookup key l1" "lh_lookup key (l1\<lparr>num_retrieve_miss := a\<rparr>) = lh_lookup key l1"
        by (simp_all add: lh_wf_def lh_shape_def lh_items_def lh_client_def lh_lookup_def fun_eq_iff)
      with ok l0 show "lh_ok key n (l1\<lparr>num_retrieve := a\<rparr>)" "lh_ok key n (l1\<lparr>num_retrieve_miss := a\<rparr>)"
          "lh_lookup key (l1\<lparr>num_retrieve := a\<rparr>) = lh_lookup key lh" "lh_lookup key (l1\<lparr>num_retrieve_miss := a\<rparr>) = lh_lookup key lh"
        by (simp_all add: lh_ok_def same)
    qed
    show ?thesis
    proof (cases "drop k (lh_b l0 ! nn)")
      case Nil
      with miss g(4) have "lh_lookup key lh (key d) = None" by (simp add: l0(4))
      with Nil g(1) count show ?thesis
        by (simp add: OPENtls_LH_retrieve_def Let_def same(1) flip: l0_def)
    next
      case (Cons rn nxt)
      then have "lh_lookup key lh (key d) = Some (node_data rn)"
        using lookup_node [OF l0(1) g(3) Cons] hit drop_eq_Cons_nth [OF Cons] by (simp add: l0(4))
      with Cons g(1) count show ?thesis
        by (simp add: OPENtls_LH_retrieve_def Let_def same(1) flip: l0_def)
    qed
  qed
qed

lemma shrink_ok:
  assumes "lh_ok key n lh" "array_ok al"
  obtains lh' where "shrink al lh = Some lh'" "lh_ok key n lh'" "lh_lookup key lh' = lh_lookup key lh"
proof -
  note ok = lh_okD [OF assms(1)]
  obtain l where l: "load lh = Some l"
    using ok(6) by (simp add: load_def)
  show thesis
  proof (cases "num_nodes lh > 16 \<and> down_load lh \<ge> l")
    case True
    obtain l1 where l1: "contract al lh = Some l1" "lh_wf key l1" "same_table lh l1" "num_nodes l1 \<le> num_nodes lh"
      using contract_wf [OF ok(1, 7) _ assms(2)] True by auto
    have "lh_ok key n l1" "lh_lookup key l1 = lh_lookup key lh"
      using l1 ok lookup_cong [OF ok(1) l1(2)] by (simp_all add: lh_ok_def same_table_def)
    with True l l1(1) show thesis by (intro that [of l1]) (simp_all add: shrink_def)
  next
    case False
    with l show thesis by (intro that [of lh]) (auto simp: assms(1) shrink_def)
  qed
qed

text \<open>
  A deletion either finds nothing and only counts, or takes the item out of its chain and gives
  the table that is left to \<open>shrink\<close>.
\<close>

lemma delete_missing:
  assumes "lh_ok key n lh" "lh_lookup key lh (key d) = None"
  obtains lh' where "OPENtls_LH_delete al lh d = Some (None, lh')" "lh_ok key n lh'" "lh_lookup key lh' = lh_lookup key lh"
proof -
  note ok = lh_okD [OF assms(1)]
  define l0 where "l0 = lh\<lparr>lh_error := 0\<rparr>"
  have l0: "lh_wf key l0" "num_nodes l0 = num_nodes lh" "num_items l0 = num_items lh" "lh_lookup key l0 = lh_lookup key lh" "up_load l0 = up_load lh"
    using ok(1) by (simp_all add: l0_def error_reset)
  have "num_nodes l0 \<le> 8 + 2 ^ 29"
    using ok(5) l0(2) by simp
  then show thesis
  proof (rule getrn_spec [OF l0(1), of d])
    fix nn k l1
    assume g: "getrn l0 d = Some (lh_hash l0 d, nn, k, l1)" "counted l0 l1" "nn < length (lh_b l0)" "k \<le> length (lh_b l0 ! nn)"
      and hit: "k < length (lh_b l0 ! nn) \<Longrightarrow> key (node_data (lh_b l0 ! nn ! k)) = key d"
    note same = counted_same [OF g(2)]
    have nil: "drop k (lh_b l0 ! nn) = []"
    proof (cases "drop k (lh_b l0 ! nn)")
      case (Cons rn nxt)
      then show ?thesis
        using lookup_node [OF l0(1) g(3) Cons] hit drop_eq_Cons_nth [OF Cons] assms(2) l0(4) by simp
    qed simp
    define l2 where "l2 = l1\<lparr>num_no_delete := uadd (num_no_delete l1) 1\<rparr>"
    have "lh_wf key l2 = lh_wf key l1" "lh_lookup key l2 = lh_lookup key l1" "num_nodes l2 = num_nodes l1"
        "num_items l2 = num_items l1" "up_load l2 = up_load l1"
      by (simp_all add: l2_def lh_wf_def lh_shape_def lh_items_def lh_client_def lh_lookup_def fun_eq_iff)
    then have "lh_ok key n l2" "lh_lookup key l2 = lh_lookup key lh"
      using ok l0 by (simp_all add: lh_ok_def same)
    with nil g(1) show thesis
      by (intro that [of l2]) (simp_all add: OPENtls_LH_delete_def Let_def same(1) del: One_nat_def flip: l0_def l2_def)
  qed
qed

lemma delete_found:
  assumes "lh_ok key n lh" "lh_lookup key lh (key d) = Some x"
  obtains l where "OPENtls_LH_delete al lh d = map_option (Pair (Some x)) (shrink al l)" "lh_ok key n l"
    "lh_lookup key l = (lh_lookup key lh)(key d := None)" "num_items l = num_items lh - 1" "num_nodes l = num_nodes lh"
    "lh_p l = lh_p lh" "lh_hash l = lh_hash lh" "down_load l = down_load lh"
proof -
  note ok = lh_okD [OF assms(1)]
  define l0 where "l0 = lh\<lparr>lh_error := 0\<rparr>"
  have l0: "lh_wf key l0" "num_nodes l0 = num_nodes lh" "num_items l0 = num_items lh" "lh_lookup key l0 = lh_lookup key lh"
      "up_load l0 = up_load lh" "lh_p l0 = lh_p lh" "lh_hash l0 = lh_hash lh" "down_load l0 = down_load lh"
    using ok(1) by (simp_all add: l0_def error_reset)
  have "num_nodes l0 \<le> 8 + 2 ^ 29"
    using ok(5) l0(2) by simp
  then show thesis
  proof (rule getrn_spec [OF l0(1), of d])
    fix nn k l1
    assume g: "getrn l0 d = Some (lh_hash l0 d, nn, k, l1)" "counted l0 l1" "nn < length (lh_b l0)" "k \<le> length (lh_b l0 ! nn)"
      and hit: "k < length (lh_b l0 ! nn) \<Longrightarrow> key (node_data (lh_b l0 ! nn ! k)) = key d"
      and miss: "k = length (lh_b l0 ! nn) \<Longrightarrow> lh_lookup key l0 (key d) = None"
    note same = counted_same [OF g(2)]
    have "k < length (lh_b l0 ! nn)"
      using miss g(4) assms(2) l0(4) by fastforce
    then obtain rn nxt where rn: "drop k (lh_b l0 ! nn) = rn # nxt"
      by (metis Cons_nth_drop_Suc)
    have key: "key (node_data rn) = key d"
      using hit drop_eq_Cons_nth [OF rn] by simp
    have x: "x = node_data rn"
      using lookup_node [OF l0(1) g(3) rn] key assms(2) by (simp add: l0(4))
    define l2 where "l2 = (set_rn nn k nxt l1)\<lparr>num_delete := uadd (num_delete l1) 1, num_items := usub (num_items l1) 1\<rparr>"
    have st: "stored nn k nxt l0 l2"
      using g(2) by (auto simp: l2_def stored_def set_rn_def counted_def)
    have "num_items l0 = size (lh_items l0)"
      using l0(1) by (simp add: lh_wf_def)
    then have pos: "1 \<le> num_items l0" "num_items l0 \<le> SIZE_MAX"
      using stored_items [OF st g(3)] rn ok(3, 4) l0(3) by (simp_all add: SIZE_MAX_def) (metis add_mset_not_empty add_is_0 gr0I One_nat_def Suc_leI size_eq_0_iff_empty)
    then have n: "num_items l2 = num_items l0 - 1" "num_nodes l2 = num_nodes lh"
      by (simp_all add: l2_def set_rn_def same usub_eq l0)
    note del = stored_deleted [OF l0(1) rn st g(3) key n(1)]
    have "lh_ok key n l2"
      using del(1) n ok l0 st by (simp add: lh_ok_def stored_def)
    moreover have "OPENtls_LH_delete al lh d = map_option (Pair (Some x)) (shrink al l2)"
      using rn g(1) x by (simp add: OPENtls_LH_delete_def Let_def same(1) l2_def del: One_nat_def flip: l0_def)
    ultimately show thesis
      using del(2) n st l0 by (intro that [of l2]) (simp_all add: stored_def)
  qed
qed

lemma delete_ok:
  assumes "lh_ok key n lh" "array_ok al"
  shows "\<exists>lh'. OPENtls_LH_delete al lh d = Some (lh_lookup key lh (key d), lh') \<and> lh_ok key n lh'
    \<and> lh_lookup key lh' = (lh_lookup key lh)(key d := None)"
proof (cases "lh_lookup key lh (key d)")
  case None
  show ?thesis
    by (rule delete_missing [OF assms(1) None, of al]) (simp add: None fun_upd_idem)
next
  case (Some x)
  obtain l where l: "OPENtls_LH_delete al lh d = map_option (Pair (Some x)) (shrink al l)" "lh_ok key n l"
      "lh_lookup key l = (lh_lookup key lh)(key d := None)"
    by (rule delete_found [OF assms(1) Some])
  obtain l' where "shrink al l = Some l'" "lh_ok key n l'" "lh_lookup key l' = lh_lookup key l"
    by (rule shrink_ok [OF l(2) assms(2)])
  with l Some show ?thesis by simp
qed

text \<open>The hash table provides the interface.\<close>

interpretation lht: key_table "lh_ok key" "lh_lookup key" key "\<lambda>lh. lh_error lh \<noteq> 0"
    OPENtls_LH_insert OPENtls_LH_delete OPENtls_LH_retrieve array_ok "2 ^ 29" for key
  by unfold_locales (rule insert_ok delete_ok retrieve_ok; assumption)+

lemma new_ok:
  assumes "\<And>a b. c a b = 0 \<longleftrightarrow> key a = key b" "\<And>a b. key a = key b \<Longrightarrow> h a = h b" "OPENtls_LH_new al h c = Some lh"
  shows "lh_ok key 0 lh" "lh_lookup key lh = Map.empty"
proof -
  have b: "concat (lh_b lh) = []" and pm: "lh_pmax lh = 8" "num_alloc_nodes lh = 16" "lh_p lh = 0" "num_nodes lh = 8"
      "length (lh_b lh) = 16" "num_items lh = 0" "up_load lh = 512"
    using assms(3) by (auto simp: OPENtls_LH_new_def split: if_splits)
  have cl: "lh_client key lh"
  proof -
    have "lh_comp lh = c" "lh_hash lh = h"
      using assms(3) by (auto simp: OPENtls_LH_new_def split: if_splits)
    with assms(1, 2) show ?thesis
      unfolding lh_client_def by blast
  qed
  have "lh_shape lh"
    using pm by (simp add: lh_shape_def exI [of _ 0])
  moreover have "filed (lh_hash lh) (lh_p lh) (lh_pmax lh) (lh_b lh)"
  proof -
    have "lh_b lh ! i = []" if "i < length (lh_b lh)" for i
      using b nth_mem [OF that] by simp
    then show ?thesis by (simp add: filed_def)
  qed
  ultimately show "lh_ok key 0 lh"
    using cl pm b by (simp add: lh_ok_def lh_wf_def lh_items_def del: concat_eq_Nil_conv)
  show "lh_lookup key lh = Map.empty"
    using b by (simp add: lh_lookup_def fun_eq_iff del: concat_eq_Nil_conv)
qed

text \<open>
  C6: The hash table is a finite map. Whatever insertions, deletions and look-ups follow its
  creation, up to half a billion insertions (2 to the power 29), every operation returns, without an access outside the
  bucket array, and returns what the same operation on a map returns; the only exception is an insertion that
  fails for lack of memory, which says so and leaves the map as it was. This needs that the
  reallocations of shrinking tables succeed.
\<close>

theorem lhash_refines_map:
  assumes "\<And>a b. c a b = 0 \<longleftrightarrow> key a = key b" "\<And>a b. key a = key b \<Longrightarrow> h a = h b"
    and "OPENtls_LH_new al h c = Some lh" "insertions ops \<le> 2 ^ 29" "dels_ok array_ok ops"
  shows "\<exists>rs lh'. run_table OPENtls_LH_insert OPENtls_LH_delete OPENtls_LH_retrieve (\<lambda>lh. lh_error lh \<noteq> 0) lh ops = Some (rs, lh')
    \<and> map_results key Map.empty ops (map snd rs) = (map fst rs, lh_lookup key lh')
    \<and> OPENtls_LH_num_items lh' = card (dom (lh_lookup key lh'))"
proof -
  note new = new_ok [OF assms(1-3)]
  obtain rs lh' where r: "run_table OPENtls_LH_insert OPENtls_LH_delete OPENtls_LH_retrieve (\<lambda>lh. lh_error lh \<noteq> 0) lh ops = Some (rs, lh')"
      "lh_ok key (insertions ops) lh'" "map_results key Map.empty ops (map snd rs) = (map fst rs, lh_lookup key lh')"
    using lht.run_refines_map [OF new(1), of ops] assms(4, 5) new(2) by auto
  have "num_items lh' = card (dom (lh_lookup key lh'))"
    by (rule num_items_card) (rule lh_okD(1) [OF r(2)])
  with r show ?thesis
    by (auto simp: OPENtls_LH_num_items_def)
qed

section \<open>Iteration\<close>

lemma doall_util_fn_fold:
  "i \<le> length b \<Longrightarrow> doall_util_fn i b f s = Some (fold f (map node_data (concat (rev (take i b)))) s)"
  by (induction i arbitrary: s) (simp_all add: take_Suc_conv_app_nth fold_map comp_def)

text \<open>
  \<open>OPENtls_LH_doall\<close> calls the function given to it exactly once for every item in the table,
  in an order that does not depend on the function.
\<close>

theorem doall_visits_each_once:
  assumes "lh_ok key n lh"
  shows "\<exists>ds. mset ds = lh_items lh \<and> (\<forall>f s. OPENtls_LH_doall lh f s = Some (fold f ds s))"
proof (intro exI conjI allI)
  let ?ds = "map node_data (concat (rev (take (num_nodes lh) (lh_b lh))))"
  have wf: "lh_wf key lh" and le: "num_nodes lh \<le> length (lh_b lh)"
    using lh_okD(1) [OF assms] by (simp_all add: lh_wf_def lh_shape_def)
  show "OPENtls_LH_doall lh f s = Some (fold f ?ds s)" for f s
    unfolding OPENtls_LH_doall_def by (rule doall_util_fn_fold [OF le])
  have "lh_b lh ! i = []" if "num_nodes lh \<le> i" "i < length (lh_b lh)" for i
    by (rule unused_bucket_empty [OF wf that])
  then have "concat (drop (num_nodes lh) (lh_b lh)) = []"
    by (auto simp: in_set_conv_nth)
  then have "concat (lh_b lh) = concat (take (num_nodes lh) (lh_b lh))"
    using concat_append [of "take (num_nodes lh) (lh_b lh)" "drop (num_nodes lh) (lh_b lh)"]
    by (simp only: append_take_drop_id append_Nil2)
  then show "mset ?ds = lh_items lh"
    by (simp add: lh_items_def mset_concat rev_map flip: sum_mset_sum_list)
qed

lemma flush_loop_spec:
  "i \<le> length b \<Longrightarrow> flush_loop i b = Some (replicate i [] @ drop i b)"
proof (induction i)
  case 0
  then show ?case by simp
next
  case (Suc i)
  then show ?case
    by (simp add: list_update_append Cons_nth_drop_Suc [symmetric] replicate_append_same)
qed

text \<open>
  Flushing removes every item, but leaves the count of items as it was.
\<close>

lemma flush_keeps_count:
  assumes "lh_ok key n lh"
  shows "\<exists>lh'. OPENtls_LH_flush lh = Some lh' \<and> lh_items lh' = {#} \<and> OPENtls_LH_num_items lh' = OPENtls_LH_num_items lh"
proof -
  have wf: "lh_wf key lh" and le: "num_nodes lh \<le> length (lh_b lh)"
    using lh_okD(1) [OF assms] by (simp_all add: lh_wf_def lh_shape_def)
  have "lh_b lh ! i = []" if "num_nodes lh \<le> i" "i < length (lh_b lh)" for i
    by (rule unused_bucket_empty [OF wf that])
  then have "concat (drop (num_nodes lh) (lh_b lh)) = []"
    by (auto simp: in_set_conv_nth)
  then show ?thesis
    using flush_loop_spec [OF le]
    by (auto simp: OPENtls_LH_flush_def OPENtls_LH_num_items_def lh_items_def in_set_replicate)
qed

section \<open>A failed contraction\<close>

lemma contract_fails:
  assumes "lh_wf key lh" "num_nodes lh \<le> 8 + 2 ^ 28" "lh_p lh = 0" "\<not> array_ok al"
  shows "contract al lh = Some (lh\<lparr>lh_b := (lh_b lh)[num_nodes lh - 1 := []], lh_error := lh_error lh + 1\<rparr>)"
proof -
  have shape: "num_nodes lh = lh_pmax lh" "length (lh_b lh) = 2 * lh_pmax lh" "0 < lh_pmax lh"
    using assms(1,3) by (auto simp: lh_wf_def lh_shape_def)
  have "wrap32 (lh_pmax lh + (2 ^ 32 - 1)) = lh_pmax lh - 1"
    by (rule wrap32_pred) (use shape assms(2) in simp_all)
  moreover have "wrap32 (8 * lh_pmax lh) \<noteq> 0"
    using assms(2) shape by (simp add: wrap32_def)
  ultimately show ?thesis
    using assms(3,4) shape by (simp add: contract_def Let_def del: One_nat_def)
qed

text \<open>Emptying a bucket takes exactly the keys that hash to it out of the table.\<close>

lemma in_lh_items:
  "y \<in># lh_items lh \<longleftrightarrow> (\<exists>j < length (lh_b lh). \<exists>n \<in> set (lh_b lh ! j). y = node_data n)"
proof -
  have "y \<in># lh_items lh \<longleftrightarrow> (\<exists>ns \<in> set (lh_b lh). \<exists>n \<in> set ns. y = node_data n)"
    by (auto simp: lh_items_def)
  also have "\<dots> \<longleftrightarrow> (\<exists>j < length (lh_b lh). \<exists>n \<in> set (lh_b lh ! j). y = node_data n)"
    by (metis in_set_conv_nth)
  finally show ?thesis .
qed

lemma items_cleared:
  assumes "lh_wf key lh" "i < length (lh_b lh)" "lh_b lh' = (lh_b lh)[i := []]"
  shows "y \<in># lh_items lh' \<longleftrightarrow> y \<in># lh_items lh \<and> bucket_of (lh_p lh) (lh_pmax lh) (lh_hash lh y) \<noteq> i"
proof -
  have fl: "filed (lh_hash lh) (lh_p lh) (lh_pmax lh) (lh_b lh)"
    using assms(1) by (simp add: lh_wf_def)
  have "(\<exists>n \<in> set (lh_b lh' ! j). y = node_data n) \<longleftrightarrow>
      (\<exists>n \<in> set (lh_b lh ! j). y = node_data n) \<and> bucket_of (lh_p lh) (lh_pmax lh) (lh_hash lh y) \<noteq> i"
    if "j < length (lh_b lh)" for j
    using filedD [OF fl that] that assms(3) by (cases "j = i"; fastforce)
  then show ?thesis
    unfolding in_lh_items using assms(3) by (metis length_list_update)
qed

lemma lookup_SomeD: "lh_lookup key lh k = Some y \<Longrightarrow> y \<in># lh_items lh \<and> key y = k"
  by (auto simp: lh_lookup_def lh_items_def find_Some_iff simp del: set_concat dest: nth_mem)

lemma lookup_cleared:
  assumes "lh_wf key lh" "i < length (lh_b lh)" "lh_b lh' = (lh_b lh)[i := []]"
  shows "lh_lookup key lh' k = (case lh_lookup key lh k of None \<Rightarrow> None
    | Some y \<Rightarrow> if bucket_of (lh_p lh) (lh_pmax lh) (lh_hash lh y) = i then None else Some y)"
proof (cases "lh_lookup key lh k")
  case None
  then have "lh_lookup key lh' k = None"
    using items_cleared [OF assms] by (auto simp: lookup_None_iff)
  with None show ?thesis by simp
next
  case (Some y)
  then have y: "z \<in># lh_items lh \<and> key z = k \<longleftrightarrow> z = y" for z
    using lookup_iff [OF assms(1), of k z] by auto
  have "z \<in># lh_items lh' \<and> key z = k \<longleftrightarrow> z = y \<and> bucket_of (lh_p lh) (lh_pmax lh) (lh_hash lh y) \<noteq> i" for z
    using items_cleared [OF assms, of z] y [of z] by auto
  note z = this
  show ?thesis
  proof (cases "lh_lookup key lh' k")
    case None
    then show ?thesis
      using z [of y] Some by (auto simp: lookup_None_iff)
  next
    case (Some x)
    then show ?thesis
      using z [of x] lookup_SomeD [OF Some] \<open>lh_lookup key lh k = Some y\<close> by auto
  qed
qed

text \<open>
  C34: When a deletion makes the table shrink past a power of two of buckets and the reallocation of the
  bucket array fails, \<open>OPENtls_LH_delete\<close> returns the deleted item as if nothing had happened, but every
  other item of the last bucket is lost too, and is still in the count. On every well-formed
  table: exactly the deleted key and the keys hashed to the last bucket cannot be found any more, all others
  can, and the number of items is one less than before.
\<close>

theorem failed_contraction_loses_items:
  assumes "lh_ok key n lh" "lh_lookup key lh (key d) = Some x"
    and "lh_p lh = 0" "num_nodes lh > 16" "(num_items lh - 1) * 256 div num_nodes lh \<le> down_load lh" "\<not> array_ok al"
  shows "\<exists>lh'. OPENtls_LH_delete al lh d = Some (Some x, lh') \<and> OPENtls_LH_num_items lh' = OPENtls_LH_num_items lh - 1
    \<and> (\<forall>k. lh_lookup key lh' k = (case lh_lookup key lh k of None \<Rightarrow> None
          | Some y \<Rightarrow> if k = key d \<or> unat (lh_hash lh y) mod num_nodes lh = num_nodes lh - 1 then None else Some y))"
proof (rule delete_found [OF assms(1,2), of al])
  fix l
  assume l: "OPENtls_LH_delete al lh d = map_option (Pair (Some x)) (shrink al l)" "lh_ok key n l"
    "lh_lookup key l = (lh_lookup key lh)(key d := None)" "num_items l = num_items lh - 1" "num_nodes l = num_nodes lh"
    "lh_p l = lh_p lh" "lh_hash l = lh_hash lh" "down_load l = down_load lh"
  note ok = lh_okD [OF l(2)]
  define lh' where "lh' = l\<lparr>lh_b := (lh_b l)[num_nodes l - 1 := []], lh_error := lh_error l + 1\<rparr>"
  have "load l = Some ((num_items lh - 1) * 256 div num_nodes lh)"
    using ok(3,4,6) l(4,5) by (simp add: load_def)
  then have "shrink al l = Some lh'"
    using contract_fails [OF ok(1,7) _ assms(6)] l assms(3-5) by (simp add: shrink_def lh'_def)
  moreover have pmax: "lh_pmax l = num_nodes lh" "length (lh_b l) = 2 * num_nodes l"
    using ok(1) l(5,6) assms(3) by (simp_all add: lh_wf_def lh_shape_def)
  have last: "num_nodes l - 1 < length (lh_b l)"
    using pmax(2) ok(6) by linarith
  have "lh_lookup key lh' k = (case lh_lookup key lh k of None \<Rightarrow> None
      | Some y \<Rightarrow> if k = key d \<or> unat (lh_hash lh y) mod num_nodes lh = num_nodes lh - 1 then None else Some y)" for k
    using lookup_cleared [OF ok(1) last, of lh' k] l assms(3) pmax(1)
    by (auto simp: lh'_def bucket_of_def split: option.splits)
  ultimately show ?thesis
    using l(1,4) by (auto simp: OPENtls_LH_num_items_def lh'_def)
qed

section \<open>Instances\<close>

text \<open>A table of strings with the default functions of \<open>OPENtls_LH_new\<close>.\<close>

fun strcmp :: "bytes \<Rightarrow> bytes \<Rightarrow> int" where
  "strcmp [] [] = 0"
| "strcmp [] (b # bs) = - 1"
| "strcmp (a # as) [] = 1"
| "strcmp (a # as) (b # bs) = (if a = b then strcmp as bs else if a < b then - 1 else 1)"

lemma strcmp_0: "strcmp a b = 0 \<longleftrightarrow> id a = id b"
  by (induction a b rule: strcmp.induct) auto

lemma strhash_0: "id a = id b \<Longrightarrow> OPENtls_LH_strhash a = OPENtls_LH_strhash b"
  by simp

lemma string_table_new:
  "OPENtls_LH_new \<lparr>node_ok = True, array_ok = True\<rparr> OPENtls_LH_strhash strcmp \<noteq> None"
  by (simp add: OPENtls_LH_new_def)

theorem lhash_refines_map_witness:
  "\<exists>lh rs lh'. OPENtls_LH_new \<lparr>node_ok = True, array_ok = True\<rparr> OPENtls_LH_strhash strcmp = Some lh
     \<and> run_table OPENtls_LH_insert OPENtls_LH_delete OPENtls_LH_retrieve (\<lambda>lh. lh_error lh \<noteq> 0) lh
         [Insert \<lparr>node_ok = True, array_ok = True\<rparr> [97], Retrieve [98], Delete \<lparr>node_ok = True, array_ok = True\<rparr> [97]] = Some (rs, lh')
     \<and> map_results id Map.empty
         [Insert \<lparr>node_ok = True, array_ok = True\<rparr> [97], Retrieve [98], Delete \<lparr>node_ok = True, array_ok = True\<rparr> [97]] (map snd rs)
       = (map fst rs, lh_lookup id lh')"
proof -
  obtain lh where lh: "OPENtls_LH_new \<lparr>node_ok = True, array_ok = True\<rparr> OPENtls_LH_strhash strcmp = Some lh"
    using string_table_new by blast
  show ?thesis
    using lhash_refines_map [where key = id, OF strcmp_0 strhash_0 lh,
        of "[Insert \<lparr>node_ok = True, array_ok = True\<rparr> [97], Retrieve [98], Delete \<lparr>node_ok = True, array_ok = True\<rparr> [97]]"] lh
    by (simp add: dels_ok_def del: run_table.simps map_results.simps) blast
qed

text \<open>
  A table of numbers with 32 buckets, each number in the bucket of its remainder; it has room
  for 33 distinct numbers before the first contraction.
\<close>

definition nat_node :: "nat \<Rightarrow> nat lhash_node" where
  "nat_node d = \<lparr>node_data = d, node_hash = of_nat d\<rparr>"

definition nat_table :: "nat list \<Rightarrow> nat LHASH" where
  "nat_table ds = \<lparr>lh_b = map (\<lambda>i. map nat_node (filter (\<lambda>d. d mod 32 = i) ds)) [0..<64],
     lh_comp = (\<lambda>a b. int a - int b), lh_hash = of_nat, num_nodes = 32, num_alloc_nodes = 64, lh_p = 0,
     lh_pmax = 32, up_load = 512, down_load = 256, num_items = length ds, num_expands = 0,
     num_expand_reallocs = 0, num_contracts = 0, num_contract_reallocs = 0, num_hash_calls = 0,
     num_comp_calls = 0, num_insert = 0, num_replace = 0, num_delete = 0, num_no_delete = 0,
     num_retrieve = 0, num_retrieve_miss = 0, num_hash_comps = 0, lh_error = 0\<rparr>"

lemma sum_filter_mod:
  "k \<le> n \<Longrightarrow> (\<Sum>i\<leftarrow>[0..<n]. mset (filter (\<lambda>d. d mod k = i) ds)) = mset ds" if "0 < k" for k :: nat
proof (induction ds)
  case (Cons d ds)
  have "mset (filter (\<lambda>d. d mod k = i) (d # ds)) = (if i = d mod k then {#d#} else {#}) + mset (filter (\<lambda>d. d mod k = i) ds)" for i
    by simp
  moreover have "(\<Sum>i\<leftarrow>[0..<n]. if i = d mod k then {#d#} else {#}) = {#d#}"
    using less_le_trans [OF mod_less_divisor [OF that] Cons.prems]
    by (simp add: interv_sum_list_conv_sum_set_nat sum.delta)
  ultimately show ?case
    using Cons by (simp only: sum_list_addf mset.simps(2)) simp
qed simp

lemma nat_table_items: "lh_items (nat_table ds) = mset ds"
proof -
  have "image_mset node_data (mset (concat (map (\<lambda>i. map nat_node (filter (\<lambda>d. d mod 32 = i) ds)) is)))
      = (\<Sum>i\<leftarrow>is. mset (filter (\<lambda>d. d mod 32 = i) ds))" for "is"
    by (induction "is") (simp_all add: nat_node_def multiset.map_comp comp_def)
  then show ?thesis
    using sum_filter_mod [of 32 64 ds] by (simp add: lh_items_def nat_table_def)
qed

lemma nat_table_ok:
  assumes "distinct ds" "\<forall>d \<in> set ds. d < 2 ^ 64" "length ds \<le> n" "48 \<le> n" "n \<le> 2 ^ 29"
  shows "lh_ok id n (nat_table ds)"
proof -
  have "filed of_nat 0 32 (lh_b (nat_table ds))"
    using assms(2) by (auto simp: filed_def nat_table_def nat_node_def bucket_of_def unat_of_nat)
  moreover have "lh_shape (nat_table ds)"
    by (simp add: lh_shape_def nat_table_def exI [of _ 2])
  moreover have "lh_client id (nat_table ds)"
    by (auto simp: lh_client_def nat_table_def)
  moreover have "count (mset ds) k \<le> 1" for k
    using assms(1) by (metis distinct_count_atmost_1 order_refl zero_le_one)
  ultimately show ?thesis
    using assms(3-5) by (simp add: lh_ok_def lh_wf_def nat_table_items) (simp add: nat_table_def)
qed

theorem failed_contraction_loses_items_witness:
  "\<exists>lh'. OPENtls_LH_delete \<lparr>node_ok = True, array_ok = False\<rparr> (nat_table [0..<33]) 5 = Some (Some 5, lh')
     \<and> OPENtls_LH_num_items lh' = 32 \<and> lh_lookup id (nat_table [0..<33]) 31 = Some 31
     \<and> lh_lookup id lh' 31 = None \<and> lh_lookup id lh' 30 = Some 30"
proof -
  let ?t = "nat_table [0..<33]"
  have ok: "lh_ok id 48 ?t"
    by (rule nat_table_ok) auto
  have look: "lh_lookup id ?t i = Some i" if "i < 33" for i
    using lookup_iff [OF lh_okD(1) [OF ok], of i i] that by (simp add: nat_table_items)
  have t: "lh_p ?t = 0" "num_nodes ?t = 32" "num_items ?t = 33" "down_load ?t = 256" "lh_hash ?t = of_nat"
    by (simp_all add: nat_table_def)
  obtain lh' where "OPENtls_LH_delete \<lparr>node_ok = True, array_ok = False\<rparr> ?t 5 = Some (Some 5, lh')"
      "OPENtls_LH_num_items lh' = 32"
      "\<forall>k. lh_lookup id lh' k = (case lh_lookup id ?t k of None \<Rightarrow> None
          | Some y \<Rightarrow> if k = id 5 \<or> unat (of_nat y :: u64) mod 32 = 32 - 1 then None else Some y)"
    using failed_contraction_loses_items [OF ok, of 5 5 "\<lparr>node_ok = True, array_ok = False\<rparr>",
        unfolded t OPENtls_LH_num_items_def] look [of 5]
    by (auto simp: OPENtls_LH_num_items_def)
  with look [of 31] look [of 30] show ?thesis
    by (intro exI [of _ lh']) simp
qed

theorem doall_visits_each_once_witness:
  "\<exists>lh ds. OPENtls_LH_new \<lparr>node_ok = True, array_ok = True\<rparr> OPENtls_LH_strhash strcmp = Some lh
     \<and> mset ds = lh_items lh \<and> OPENtls_LH_doall lh (\<lambda>_ n. n + 1) (0 :: nat) = Some (fold (\<lambda>_ n. n + 1) ds 0)"
proof -
  obtain lh where lh: "OPENtls_LH_new \<lparr>node_ok = True, array_ok = True\<rparr> OPENtls_LH_strhash strcmp = Some lh"
    using string_table_new by blast
  have "lh_ok id 0 lh"
    by (rule new_ok(1) [OF strcmp_0 strhash_0 lh])
  from doall_visits_each_once [OF this] obtain ds where "mset ds = lh_items lh"
      "\<forall>f (s :: nat). OPENtls_LH_doall lh f s = Some (fold f ds s)"
    by blast
  with lh show ?thesis by (intro exI [of _ lh] exI [of _ ds] conjI) simp_all
qed

end
