(* ===== verification/Base64.thy ===== *)
theory Base64
  imports Memory
begin

text \<open>
  Base64 (\<open>crypto/evp/encode.c\<close>): encoding and decoding of a stream that arrives in pieces, in
  the usual and in the SRP alphabet, with and without line breaks. Output goes to a block of the
  caller's, at increasing offsets; a write outside it, or a read outside the context's buffer, has
  no result (None), and so has a failed \<open>OPENtls_assert\<close>. The input of a call is a list of bytes,
  of at most \<open>INT_MAX\<close> elements.
\<close>

section \<open>Model\<close>

abbreviation (input) INT_MAX :: nat where "INT_MAX \<equiv> 0x7FFFFFFF"
abbreviation (input) EVP_ENCODE_CTX_NO_NEWLINES :: u32 where "EVP_ENCODE_CTX_NO_NEWLINES \<equiv> 1"
abbreviation (input) EVP_ENCODE_CTX_USE_SRP_ALPHABET :: u32 where "EVP_ENCODE_CTX_USE_SRP_ALPHABET \<equiv> 2"

definition data_bin2ascii :: bytes where
  "data_bin2ascii = map of_char ''ABCDEFGHIJKLMNOPQRSTUVWXYZabcdefghijklmnopqrstuvwxyz0123456789+/''"

definition srpdata_bin2ascii :: bytes where
  "srpdata_bin2ascii = map of_char ''0123456789ABCDEFGHIJKLMNOPQRSTUVWXYZabcdefghijklmnopqrstuvwxyz./''"

abbreviation (input) B64_EOF :: byte where "B64_EOF \<equiv> 0xF2"
abbreviation (input) B64_WS :: byte where "B64_WS \<equiv> 0xE0"
abbreviation (input) B64_ERROR :: byte where "B64_ERROR \<equiv> 0xFF"

definition B64_NOT_BASE64 :: "byte \<Rightarrow> bool" where
  "B64_NOT_BASE64 a \<longleftrightarrow> a OR 0x13 = 0xF3"

definition data_ascii2bin :: bytes where
  "data_ascii2bin =
    [0xFF, 0xFF, 0xFF, 0xFF, 0xFF, 0xFF, 0xFF, 0xFF, 0xFF, 0xE0, 0xF0, 0xFF, 0xFF, 0xF1, 0xFF, 0xFF,
     0xFF, 0xFF, 0xFF, 0xFF, 0xFF, 0xFF, 0xFF, 0xFF, 0xFF, 0xFF, 0xFF, 0xFF, 0xFF, 0xFF, 0xFF, 0xFF,
     0xE0, 0xFF, 0xFF, 0xFF, 0xFF, 0xFF, 0xFF, 0xFF, 0xFF, 0xFF, 0xFF, 0x3E, 0xFF, 0xF2, 0xFF, 0x3F,
     0x34, 0x35, 0x36, 0x37, 0x38, 0x39, 0x3A, 0x3B, 0x3C, 0x3D, 0xFF, 0xFF, 0xFF, 0x00, 0xFF, 0xFF,
     0xFF, 0x00, 0x01, 0x02, 0x03, 0x04, 0x05, 0x06, 0x07, 0x08, 0x09, 0x0A, 0x0B, 0x0C, 0x0D, 0x0E,
     0x0F, 0x10, 0x11, 0x12, 0x13, 0x14, 0x15, 0x16, 0x17, 0x18, 0x19, 0xFF, 0xFF, 0xFF, 0xFF, 0xFF,
     0xFF, 0x1A, 0x1B, 0x1C, 0x1D, 0x1E, 0x1F, 0x20, 0x21, 0x22, 0x23, 0x24, 0x25, 0x26, 0x27, 0x28,
     0x29, 0x2A, 0x2B, 0x2C, 0x2D, 0x2E, 0x2F, 0x30, 0x31, 0x32, 0x33, 0xFF, 0xFF, 0xFF, 0xFF, 0xFF]"

definition srpdata_ascii2bin :: bytes where
  "srpdata_ascii2bin =
    [0xFF, 0xFF, 0xFF, 0xFF, 0xFF, 0xFF, 0xFF, 0xFF, 0xFF, 0xE0, 0xF0, 0xFF, 0xFF, 0xF1, 0xFF, 0xFF,
     0xFF, 0xFF, 0xFF, 0xFF, 0xFF, 0xFF, 0xFF, 0xFF, 0xFF, 0xFF, 0xFF, 0xFF, 0xFF, 0xFF, 0xFF, 0xFF,
     0xE0, 0xFF, 0xFF, 0xFF, 0xFF, 0xFF, 0xFF, 0xFF, 0xFF, 0xFF, 0xFF, 0xFF, 0xFF, 0xF2, 0x3E, 0x3F,
     0x00, 0x01, 0x02, 0x03, 0x04, 0x05, 0x06, 0x07, 0x08, 0x09, 0xFF, 0xFF, 0xFF, 0x00, 0xFF, 0xFF,
     0xFF, 0x0A, 0x0B, 0x0C, 0x0D, 0x0E, 0x0F, 0x10, 0x11, 0x12, 0x13, 0x14, 0x15, 0x16, 0x17, 0x18,
     0x19, 0x1A, 0x1B, 0x1C, 0x1D, 0x1E, 0x1F, 0x20, 0x21, 0x22, 0x23, 0xFF, 0xFF, 0xFF, 0xFF, 0xFF,
     0xFF, 0x24, 0x25, 0x26, 0x27, 0x28, 0x29, 0x2A, 0x2B, 0x2C, 0x2D, 0x2E, 0x2F, 0x30, 0x31, 0x32,
     0x33, 0x34, 0x35, 0x36, 0x37, 0x38, 0x39, 0x3A, 0x3B, 0x3C, 0x3D, 0xFF, 0xFF, 0xFF, 0xFF, 0xFF]"

definition conv_bin2ascii :: "u64 \<Rightarrow> bytes \<Rightarrow> byte" where
  "conv_bin2ascii a table = table ! unat (a AND 0x3f)"

definition conv_ascii2bin :: "byte \<Rightarrow> bytes \<Rightarrow> byte" where
  "conv_ascii2bin a table = (if a AND 0x80 \<noteq> 0 then B64_ERROR else table ! unat a)"

record EVP_ENCODE_CTX =
  ctx_num :: nat
  ctx_length :: nat
  enc_data :: bytes
  line_num :: nat
  ctx_flags :: u32

definition EVP_EncodeInit :: "EVP_ENCODE_CTX \<Rightarrow> EVP_ENCODE_CTX" where
  "EVP_EncodeInit ctx = ctx\<lparr>ctx_length := 48, ctx_num := 0, line_num := 0, ctx_flags := 0\<rparr>"

definition evp_encode_ctx_set_flags :: "EVP_ENCODE_CTX \<Rightarrow> u32 \<Rightarrow> EVP_ENCODE_CTX" where
  "evp_encode_ctx_set_flags ctx fl = ctx\<lparr>ctx_flags := fl\<rparr>"

text \<open>The characters that the loop of \<open>evp_encodeblock_int\<close> writes.\<close>

fun encode_groups :: "bytes \<Rightarrow> bytes \<Rightarrow> bytes" where
  "encode_groups table [] = []"
| "encode_groups table [f0] =
     (let l = push_bit 16 (ucast f0) :: u64 in
      [conv_bin2ascii (drop_bit 18 l) table, conv_bin2ascii (drop_bit 12 l) table, of_char CHR ''='', of_char CHR ''=''])"
| "encode_groups table [f0, f1] =
     (let l = push_bit 16 (ucast f0) OR push_bit 8 (ucast f1) :: u64 in
      [conv_bin2ascii (drop_bit 18 l) table, conv_bin2ascii (drop_bit 12 l) table, conv_bin2ascii (drop_bit 6 l) table,
       of_char CHR ''=''])"
| "encode_groups table (f0 # f1 # f2 # f) =
     (let l = push_bit 16 (ucast f0) OR push_bit 8 (ucast f1) OR ucast f2 :: u64 in
      [conv_bin2ascii (drop_bit 18 l) table, conv_bin2ascii (drop_bit 12 l) table, conv_bin2ascii (drop_bit 6 l) table,
       conv_bin2ascii l table] @ encode_groups table f)"

definition evp_encodeblock_int :: "u32 option \<Rightarrow> bytes \<Rightarrow> nat \<Rightarrow> bytes \<Rightarrow> (nat \<times> bytes) option" where
  "evp_encodeblock_int fl out pos f =
     (let table = (if fl \<noteq> None \<and> the fl AND EVP_ENCODE_CTX_USE_SRP_ALPHABET \<noteq> 0 then srpdata_bin2ascii else data_bin2ascii);
          t = encode_groups table f in do {
        out \<leftarrow> mem_write out pos (t @ [0]);
        Some (length t, out)
      })"

definition EVP_EncodeBlock :: "bytes \<Rightarrow> bytes \<Rightarrow> (nat \<times> bytes) option" where
  "EVP_EncodeBlock out f = evp_encodeblock_int None out 0 f"

text \<open>A block, its line break and the terminating zero, as \<open>EVP_EncodeUpdate\<close> and \<open>EVP_EncodeFinal\<close> write them.\<close>

definition encode_line :: "EVP_ENCODE_CTX \<Rightarrow> bytes \<Rightarrow> nat \<Rightarrow> bytes \<Rightarrow> (nat \<times> bytes) option" where
  "encode_line ctx out pos f = do {
     (j, out) \<leftarrow> evp_encodeblock_int (Some (ctx_flags ctx)) out pos f;
     if ctx_flags ctx AND EVP_ENCODE_CTX_NO_NEWLINES = 0 then do {
       out \<leftarrow> mem_write out (pos + j) [of_char CHR 0x0A];
       out \<leftarrow> mem_write out (pos + j + 1) [0];
       Some (j + 1, out)
     } else do {
       out \<leftarrow> mem_write out (pos + j) [0];
       Some (j, out)
     }
   }"

partial_function (option) encode_loop :: "EVP_ENCODE_CTX \<Rightarrow> bytes \<Rightarrow> nat \<Rightarrow> bytes \<Rightarrow> (nat \<times> bytes \<times> bytes) option" where
  "encode_loop ctx out tot inp =
     (if length inp \<ge> ctx_length ctx \<and> tot \<le> INT_MAX then
        Option.bind (encode_line ctx out tot (take (ctx_length ctx) inp)) (\<lambda>(j, out).
          encode_loop ctx out (tot + j) (drop (ctx_length ctx) inp))
      else Some (tot, out, inp))"

declare encode_loop.simps [code]

text \<open>A line that begins with the bytes saved in the context.\<close>

definition encode_saved :: "EVP_ENCODE_CTX \<Rightarrow> bytes \<Rightarrow> bytes \<Rightarrow> (nat \<times> bytes \<times> bytes \<times> EVP_ENCODE_CTX) option" where
  "encode_saved ctx out inp =
     (if ctx_num ctx = 0 then Some (0, out, inp, ctx)
      else if ctx_num ctx > ctx_length ctx then None
      else do {
        let i = ctx_length ctx - ctx_num ctx;
        d \<leftarrow> mem_write (enc_data ctx) (ctx_num ctx) (take i inp);
        let ctx = ctx\<lparr>enc_data := d, ctx_num := 0\<rparr>;
        f \<leftarrow> mem_read d 0 (ctx_length ctx);
        (j, out) \<leftarrow> encode_line ctx out 0 f;
        Some (j, out, drop i inp, ctx)
      })"

text \<open>The result: the value returned, \<open>*outl\<close>, the output block and the context.\<close>

definition EVP_EncodeUpdate :: "EVP_ENCODE_CTX \<Rightarrow> bytes \<Rightarrow> bytes \<Rightarrow> (int \<times> nat \<times> bytes \<times> EVP_ENCODE_CTX) option" where
  "EVP_EncodeUpdate ctx out inp =
     (if inp = [] then Some (0, 0, out, ctx)
      else if \<not> ctx_length ctx \<le> 80 then None
      else if int (ctx_length ctx) - int (ctx_num ctx) > int (length inp) then do {
        d \<leftarrow> mem_write (enc_data ctx) (ctx_num ctx) inp;
        Some (1, 0, out, ctx\<lparr>enc_data := d, ctx_num := ctx_num ctx + length inp\<rparr>)
      }
      else do {
        (tot, out, inp, ctx) \<leftarrow> encode_saved ctx out inp;
        (tot, out, inp) \<leftarrow> encode_loop ctx out tot inp;
        if tot > INT_MAX then Some (0, 0, out, ctx)
        else do {
          d \<leftarrow> mem_write (enc_data ctx) 0 inp;
          Some (1, tot, out, ctx\<lparr>enc_data := d, ctx_num := length inp\<rparr>)
        }
      })"

definition EVP_EncodeFinal :: "EVP_ENCODE_CTX \<Rightarrow> bytes \<Rightarrow> (nat \<times> bytes \<times> EVP_ENCODE_CTX) option" where
  "EVP_EncodeFinal ctx out =
     (if ctx_num ctx \<noteq> 0 then do {
        f \<leftarrow> mem_read (enc_data ctx) 0 (ctx_num ctx);
        (ret, out) \<leftarrow> encode_line ctx out 0 f;
        Some (ret, out, ctx\<lparr>ctx_num := 0\<rparr>)
      }
      else Some (0, out, ctx))"

definition EVP_DecodeInit :: "EVP_ENCODE_CTX \<Rightarrow> EVP_ENCODE_CTX" where
  "EVP_DecodeInit ctx = ctx\<lparr>ctx_num := 0, ctx_length := 0, line_num := 0, ctx_flags := 0\<rparr>"

text \<open>
  The two loops at the start of \<open>evp_decodeblock_int\<close>: the first reads a byte before it looks
  at \<open>n\<close>.
\<close>

fun trim_ws :: "bytes \<Rightarrow> bytes \<Rightarrow> nat \<Rightarrow> (bytes \<times> nat) option" where
  "trim_ws table [] n = None"
| "trim_ws table (c # f) n =
     (if conv_ascii2bin c table = B64_WS \<and> n > 0 then trim_ws table f (n - 1) else Some (c # f, n))"

function strip_end :: "bytes \<Rightarrow> bytes \<Rightarrow> nat \<Rightarrow> nat" where
  "strip_end table f n =
     (if n > 3 \<and> B64_NOT_BASE64 (conv_ascii2bin (f ! (n - 1)) table) then strip_end table f (n - 1) else n)"
  by pat_completeness auto
termination
  by (relation "measure (\<lambda>(table, f, n). n)") auto

text \<open>The bytes that the last loop writes, and whether it ends without an error.\<close>

fun decode_quads :: "bytes \<Rightarrow> bytes \<Rightarrow> bool \<times> bytes" where
  "decode_quads table (c0 # c1 # c2 # c3 # f) =
     (let a = conv_ascii2bin c0 table; b = conv_ascii2bin c1 table;
          c = conv_ascii2bin c2 table; d = conv_ascii2bin c3 table in
      if a AND 0x80 \<noteq> 0 \<or> b AND 0x80 \<noteq> 0 \<or> c AND 0x80 \<noteq> 0 \<or> d AND 0x80 \<noteq> 0 then (False, [])
      else
        let l = push_bit 18 (ucast a) OR push_bit 12 (ucast b) OR push_bit 6 (ucast c) OR ucast d :: u64 in
        case decode_quads table f of (ok, t) \<Rightarrow> (ok, [ucast (drop_bit 16 l), ucast (drop_bit 8 l), ucast l] @ t))"
| "decode_quads table _ = (True, [])"

definition evp_decodeblock_int :: "u32 option \<Rightarrow> bytes \<Rightarrow> nat \<Rightarrow> bytes \<Rightarrow> nat \<Rightarrow> (int \<times> bytes) option" where
  "evp_decodeblock_int fl out pos f n =
     (let table = (if fl \<noteq> None \<and> the fl AND EVP_ENCODE_CTX_USE_SRP_ALPHABET \<noteq> 0 then srpdata_ascii2bin else data_ascii2bin) in do {
        (f, n) \<leftarrow> trim_ws table f n;
        if n > length f then None
        else
          let n = strip_end table f n in
          if n mod 4 \<noteq> 0 then Some (- 1, out)
          else case decode_quads table (take n f) of (ok, t) \<Rightarrow> do {
            out \<leftarrow> mem_write out pos t;
            Some (if ok then int (length t) else - 1, out)
          }
      })"

definition EVP_DecodeBlock :: "bytes \<Rightarrow> bytes \<Rightarrow> nat \<Rightarrow> (int \<times> bytes) option" where
  "EVP_DecodeBlock out f n = evp_decodeblock_int None out 0 f n"

text \<open>The variables of \<open>EVP_DecodeUpdate\<close>; \<open>out\<close> has moved by \<open>ret\<close>.\<close>

record dec_st =
  ds_n :: nat
  ds_d :: bytes
  ds_eof :: nat
  ds_ret :: nat
  ds_out :: bytes

definition decode_saved :: "u32 \<Rightarrow> dec_st \<Rightarrow> (bool \<times> dec_st) option" where
  "decode_saved fl s = do {
     (decoded_len, out) \<leftarrow> evp_decodeblock_int (Some fl) (ds_out s) (ds_ret s) (ds_d s) (ds_n s);
     let s = s\<lparr>ds_n := 0, ds_out := out\<rparr>;
     Some (if decoded_len < 0 \<or> int (ds_eof s) > decoded_len then (False, s)
           else (True, s\<lparr>ds_ret := ds_ret s + (nat decoded_len - ds_eof s)\<rparr>))
   }"

text \<open>\<open>Inl\<close> is the jump to \<open>end\<close> with an error, \<open>Inr\<close> continues at \<open>tail\<close> with \<open>seof\<close>.\<close>

fun decode_loop :: "u32 \<Rightarrow> bytes \<Rightarrow> dec_st \<Rightarrow> (unit + bool) option \<times> dec_st" where
  "decode_loop fl [] s = (Some (Inr False), s)"
| "decode_loop fl (tmp # inp) s =
     (let table = (if fl AND EVP_ENCODE_CTX_USE_SRP_ALPHABET \<noteq> 0 then srpdata_ascii2bin else data_ascii2bin);
          v = conv_ascii2bin tmp table in
      if v = B64_ERROR then (Some (Inl ()), s)
      else if tmp \<noteq> of_char CHR ''='' \<and> ds_eof s > 0 \<and> \<not> B64_NOT_BASE64 v then (Some (Inl ()), s)
      else
        let s = (if tmp = of_char CHR ''='' then s\<lparr>ds_eof := ds_eof s + 1\<rparr> else s) in
        if ds_eof s > 2 then (Some (Inl ()), s)
        else if v = B64_EOF then (Some (Inr True), s)
        else if \<not> B64_NOT_BASE64 v \<and> ds_n s \<ge> 64 then (Some (Inl ()), s)
        else
          let s = (if \<not> B64_NOT_BASE64 v then s\<lparr>ds_d := (ds_d s)[ds_n s := tmp], ds_n := ds_n s + 1\<rparr> else s) in
          if ds_n s = 64 then
            (case decode_saved fl s of
               None \<Rightarrow> (None, s)
             | Some (ok, s) \<Rightarrow> if ok then decode_loop fl inp s else (Some (Inl ()), s))
          else decode_loop fl inp s)"

definition EVP_DecodeUpdate :: "EVP_ENCODE_CTX \<Rightarrow> bytes \<Rightarrow> bytes \<Rightarrow> (int \<times> nat \<times> bytes \<times> EVP_ENCODE_CTX) option" where
  "EVP_DecodeUpdate ctx out inp =
     (let n = ctx_num ctx; d = enc_data ctx; fl = ctx_flags ctx;
          fin = (\<lambda>rv s. Some (rv, ds_ret s, ds_out s, ctx\<lparr>enc_data := ds_d s, ctx_num := ds_n s\<rparr>)) in
      if n > length d then None
      else
        let eof = (if n > 0 \<and> d ! (n - 1) = of_char CHR ''=''
                   then if n > 1 \<and> d ! (n - 2) = of_char CHR ''='' then 2 else 1 else 0);
            s = \<lparr>ds_n = n, ds_d = d, ds_eof = eof, ds_ret = 0, ds_out = out\<rparr> in
        if inp = [] then fin 0 s
        else case decode_loop fl inp s of
          (None, s) \<Rightarrow> None
        | (Some (Inl _), s) \<Rightarrow> fin (- 1) s
        | (Some (Inr seof), s) \<Rightarrow> do {
            (ok, s) \<leftarrow>
              (if ds_n s > 0 then
                 if ds_n s AND 3 = 0 then decode_saved fl s
                 else if seof then Some (False, s) else Some (True, s)
               else Some (True, s));
            if \<not> ok then fin (- 1) s
            else fin (if seof \<or> ds_n s = 0 \<and> ds_eof s > 0 then 0 else 1) s
          })"

definition EVP_DecodeFinal :: "EVP_ENCODE_CTX \<Rightarrow> bytes \<Rightarrow> (int \<times> nat \<times> bytes \<times> EVP_ENCODE_CTX) option" where
  "EVP_DecodeFinal ctx out =
     (if ctx_num ctx \<noteq> 0 then do {
        (i, out) \<leftarrow> evp_decodeblock_int (Some (ctx_flags ctx)) out 0 (enc_data ctx) (ctx_num ctx);
        Some (if i < 0 then (- 1, 0, out, ctx) else (1, nat i, out, ctx\<lparr>ctx_num := 0\<rparr>))
      }
      else Some (1, 0, out, ctx))"

section \<open>Alphabets\<close>

text \<open>
  What the code relies on of a pair of tables: the second inverts the first, reads the padding
  character as 0 and knows the line break. Both alphabets satisfy it.
\<close>

abbreviation (input) PAD :: byte where "PAD \<equiv> 0x3d"
abbreviation (input) NL :: byte where "NL \<equiv> 0x0a"

locale alphabet =
  fixes enc dec :: bytes
  assumes enc_length: "length enc = 64"
    and dec_enc: "i < 64 \<Longrightarrow> conv_ascii2bin (enc ! i) dec = of_nat i"
    and enc_pad: "i < 64 \<Longrightarrow> enc ! i \<noteq> PAD"
    and dec_pad: "conv_ascii2bin PAD dec = 0"
    and dec_nl: "conv_ascii2bin NL dec = 0xF0"

lemma inverse_tables:
  "map (\<lambda>c. conv_ascii2bin c data_ascii2bin) data_bin2ascii = map of_nat [0..<64]"
  "map (\<lambda>c. conv_ascii2bin c srpdata_ascii2bin) srpdata_bin2ascii = map of_nat [0..<64]"
  "PAD \<notin> set data_bin2ascii" "PAD \<notin> set srpdata_bin2ascii" "length data_bin2ascii = 64" "length srpdata_bin2ascii = 64"
  by code_simp+

lemma map_nth_eq: "map f xs = map g [0..<n] \<Longrightarrow> i < n \<Longrightarrow> f (xs ! i) = g i"
proof -
  assume eq: "map f xs = map g [0..<n]" and i: "i < n"
  then have "length xs = n"
    using map_eq_imp_length_eq [OF eq] by simp
  with arg_cong [OF eq, of "\<lambda>xs. xs ! i"] i show "f (xs ! i) = g i" by simp
qed

interpretation std: alphabet data_bin2ascii data_ascii2bin
proof
  show "data_bin2ascii ! i \<noteq> PAD" if "i < 64" for i
    using inverse_tables(3) nth_mem [of i data_bin2ascii] that inverse_tables(5) by metis
qed (use inverse_tables map_nth_eq [OF inverse_tables(1)] in \<open>simp_all add: conv_ascii2bin_def data_ascii2bin_def\<close>)

interpretation srp: alphabet srpdata_bin2ascii srpdata_ascii2bin
proof
  show "srpdata_bin2ascii ! i \<noteq> PAD" if "i < 64" for i
    using inverse_tables(4) nth_mem [of i srpdata_bin2ascii] that inverse_tables(6) by metis
qed (use inverse_tables map_nth_eq [OF inverse_tables(2)] in \<open>simp_all add: conv_ascii2bin_def srpdata_ascii2bin_def\<close>)

lemma pad_char [simp]: "(of_char CHR ''='' :: byte) = PAD" "(of_char CHR 0x0A :: byte) = NL"
  by simp_all

lemma and_63: "(x :: u64) AND 0x3f = take_bit 6 x"
  by (simp add: take_bit_eq_mask mask_eq_exp_minus_1)

lemma sextet_less: "unat (take_bit 6 (x :: u64)) < 64"
proof -
  have "unat (take_bit 6 x) = take_bit 6 (unat x)"
    by (simp add: unsigned_take_bit_eq)
  also have "\<dots> < 2 ^ 6"
    by (rule take_bit_nat_less_exp)
  finally show ?thesis by simp
qed

text \<open>Three bytes are the four sextets that encode them.\<close>

definition joined :: "byte \<Rightarrow> byte \<Rightarrow> byte \<Rightarrow> byte \<Rightarrow> u64" where
  "joined a b c d = push_bit 18 (ucast a) OR push_bit 12 (ucast b) OR push_bit 6 (ucast c) OR ucast d"

definition sextet :: "nat \<Rightarrow> u64 \<Rightarrow> byte" where
  "sextet k l = ucast (take_bit 6 (drop_bit k l))"

lemma sextet_drop: "sextet 0 (drop_bit k l) = sextet k l"
  by (simp add: sextet_def)

lemma sextet_high: "sextet k l AND 0x80 = 0"
proof -
  have "sextet k l = ucast (drop_bit k l) AND mask 6"
    by (rule bit_word_eqI) (auto simp: sextet_def bit_simps)
  then have "sextet k l AND 0x80 = ucast (drop_bit k l) AND (mask 6 AND 0x80)"
    by (simp only: and.assoc)
  also have "(mask 6 AND 0x80 :: byte) = 0"
    by (simp add: mask_eq_exp_minus_1)
  finally show ?thesis by simp
qed

definition triple :: "byte \<Rightarrow> byte \<Rightarrow> byte \<Rightarrow> u64" where
  "triple f0 f1 f2 = push_bit 16 (ucast f0) OR push_bit 8 (ucast f1) OR ucast f2"

lemma bit_triple:
  assumes "n < 8"
  shows "bit (triple f0 f1 f2) (16 + n) = bit f0 n" "bit (triple f0 f1 f2) (8 + n) = bit f1 n" "bit (triple f0 f1 f2) n = bit f2 n"
  using assms by (auto simp: triple_def bit_simps dest: bit_imp_le_length)

lemma bit_joined:
  assumes "n < 24"
  shows "bit (joined (sextet 18 l) (sextet 12 l) (sextet 6 l) (sextet 0 l)) n = bit l n"
proof -
  consider "n < 6" | m where "n = 6 + m" "m < 6" | m where "n = 12 + m" "m < 6" | m where "n = 18 + m" "m < 6"
  proof -
    have "n < 6 \<or> n = 6 + (n - 6) \<and> n - 6 < 6 \<or> n = 12 + (n - 12) \<and> n - 12 < 6 \<or> n = 18 + (n - 18) \<and> n - 18 < 6"
      using assms by linarith
    then show thesis using that by blast
  qed
  then show ?thesis
    by cases (auto simp: joined_def sextet_def bit_simps)
qed

lemma joined_bytes:
  fixes f0 f1 f2 :: byte
  defines "l \<equiv> triple f0 f1 f2"
  shows "ucast (drop_bit 16 (joined (sextet 18 l) (sextet 12 l) (sextet 6 l) (sextet 0 l))) = f0"
    and "ucast (drop_bit 8 (joined (sextet 18 l) (sextet 12 l) (sextet 6 l) (sextet 0 l))) = f1"
    and "ucast (joined (sextet 18 l) (sextet 12 l) (sextet 6 l) (sextet 0 l)) = f2"
  by (rule bit_word_eqI; simp add: l_def bit_joined bit_triple bit_unsigned_iff bit_drop_bit_eq)+

lemma sextet_low:
  "sextet 0 (triple f0 f1 0) = 0" "sextet 6 (triple f0 0 0) = 0"
  by (rule bit_word_eqI; auto simp: sextet_def triple_def bit_simps)+

lemma encode_groups_triple:
  "encode_groups table (f0 # f1 # f2 # f) =
     [conv_bin2ascii (drop_bit 18 (triple f0 f1 f2)) table, conv_bin2ascii (drop_bit 12 (triple f0 f1 f2)) table,
      conv_bin2ascii (drop_bit 6 (triple f0 f1 f2)) table, conv_bin2ascii (triple f0 f1 f2) table] @ encode_groups table f"
  "encode_groups table [f0, f1] =
     [conv_bin2ascii (drop_bit 18 (triple f0 f1 0)) table, conv_bin2ascii (drop_bit 12 (triple f0 f1 0)) table,
      conv_bin2ascii (drop_bit 6 (triple f0 f1 0)) table, PAD]"
  "encode_groups table [f0] =
     [conv_bin2ascii (drop_bit 18 (triple f0 0 0)) table, conv_bin2ascii (drop_bit 12 (triple f0 0 0)) table, PAD, PAD]"
  by (simp_all only: encode_groups.simps Let_def triple_def unsigned_0 push_bit_of_0 or.right_neutral pad_char)

lemma decode_quads_joined:
  "decode_quads table (c0 # c1 # c2 # c3 # f) =
     (if conv_ascii2bin c0 table AND 0x80 \<noteq> 0 \<or> conv_ascii2bin c1 table AND 0x80 \<noteq> 0
         \<or> conv_ascii2bin c2 table AND 0x80 \<noteq> 0 \<or> conv_ascii2bin c3 table AND 0x80 \<noteq> 0 then (False, [])
      else let l = joined (conv_ascii2bin c0 table) (conv_ascii2bin c1 table) (conv_ascii2bin c2 table) (conv_ascii2bin c3 table) in
        case decode_quads table f of (ok, t) \<Rightarrow> (ok, [ucast (drop_bit 16 l), ucast (drop_bit 8 l), ucast l] @ t))"
  by (simp only: decode_quads.simps Let_def joined_def)

lemma encode_groups_append:
  "length f mod 3 = 0 \<Longrightarrow> encode_groups table (f @ g) = encode_groups table f @ encode_groups table g"
proof (induction table f rule: encode_groups.induct)
  case (4 table f0 f1 f2 f)
  then show ?case by (simp add: Let_def)
qed simp_all

lemma length_encode_groups: "length (encode_groups table f) = (length f + 2) div 3 * 4"
proof (induction table f rule: encode_groups.induct)
  case (4 table f0 f1 f2 f)
  have "(length (f0 # f1 # f2 # f) + 2) div 3 = (length f + 2) div 3 + 1"
    by simp
  with 4 show ?case by (simp add: Let_def)
qed (simp_all add: Let_def)

lemmas groups_induct = encode_groups.induct [of "\<lambda>_. P" for P, case_names Nil One Two Three]

text \<open>The characters of an encoding are those that the decoder keeps.\<close>

definition is_char :: "bytes \<Rightarrow> byte \<Rightarrow> bool" where
  "is_char table c \<longleftrightarrow> (\<exists>x. c = conv_bin2ascii x table) \<or> c = PAD"

lemma encode_groups_chars: "c \<in> set (encode_groups table f) \<Longrightarrow> is_char table c"
  by (induction table f rule: encode_groups.induct) (auto simp: Let_def is_char_def)

text \<open>The number of padding characters.\<close>

definition pads :: "bytes \<Rightarrow> nat" where
  "pads f = (3 - length f mod 3) mod 3"

context alphabet
begin

lemma char_value: "conv_ascii2bin (conv_bin2ascii (drop_bit k l) enc) dec = sextet k l"
proof -
  have "conv_ascii2bin (conv_bin2ascii (drop_bit k l) enc) dec = of_nat (unat (take_bit 6 (drop_bit k l)))"
    by (simp add: conv_bin2ascii_def and_63 dec_enc sextet_less)
  then show ?thesis
    by (simp add: sextet_def)
qed

lemma char_value_0: "conv_ascii2bin (conv_bin2ascii l enc) dec = sextet 0 l"
  using char_value [of 0 l] by simp

lemma char_not_pad: "conv_bin2ascii x enc \<noteq> PAD"
  by (simp add: conv_bin2ascii_def and_63 enc_pad sextet_less)

lemma is_char_value:
  assumes "is_char enc c"
  shows "conv_ascii2bin c dec AND 0x80 = 0" "\<not> B64_NOT_BASE64 (conv_ascii2bin c dec)"
    and "conv_ascii2bin c dec \<noteq> B64_ERROR" "conv_ascii2bin c dec \<noteq> B64_EOF" "conv_ascii2bin c dec \<noteq> B64_WS"
proof -
  have h: "conv_ascii2bin c dec AND 0x80 = 0"
    using assms char_value_0 sextet_high dec_pad by (auto simp: is_char_def)
  then show "conv_ascii2bin c dec AND 0x80 = 0" .
  show "conv_ascii2bin c dec \<noteq> B64_ERROR" "conv_ascii2bin c dec \<noteq> B64_EOF" "conv_ascii2bin c dec \<noteq> B64_WS"
    using h by auto
  show "\<not> B64_NOT_BASE64 (conv_ascii2bin c dec)"
  proof
    assume "B64_NOT_BASE64 (conv_ascii2bin c dec)"
    then have "(conv_ascii2bin c dec OR 0x13) AND 0x80 = 0xF3 AND 0x80"
      by (simp only: B64_NOT_BASE64_def)
    then show False
      using h by (simp add: and.commute bit.conj_disj_distrib)
  qed
qed

lemma decode_group:
  "decode_quads dec (encode_groups enc (f0 # f1 # f2 # f) @ g) =
     (case decode_quads dec (encode_groups enc f @ g) of (ok, t) \<Rightarrow> (ok, f0 # f1 # f2 # t))"
  "decode_quads dec (encode_groups enc [f0, f1] @ g) = (case decode_quads dec g of (ok, t) \<Rightarrow> (ok, f0 # f1 # 0 # t))"
  "decode_quads dec (encode_groups enc [f0] @ g) = (case decode_quads dec g of (ok, t) \<Rightarrow> (ok, f0 # 0 # 0 # t))"
  using joined_bytes [of f0 f1 f2] joined_bytes [of f0 f1 0] joined_bytes [of f0 0 0]
  by (simp_all add: encode_groups_triple decode_quads_joined char_value_0 sextet_drop sextet_high
      dec_pad sextet_low Let_def del: encode_groups.simps decode_quads.simps split: prod.split)

lemma decode_encoded:
  "decode_quads dec (encode_groups enc f) = (True, f @ replicate (pads f) 0)"
proof (induction f rule: groups_induct)
  case (Three _ f0 f1 f2 f)
  then show ?case
    using decode_group(1) [of f0 f1 f2 f "[]"] by (simp add: pads_def)
next
  case (Two _ f0 f1)
  then show ?case
    using decode_group(2) [of f0 f1 "[]"] by (simp add: pads_def numeral_2_eq_2)
next
  case (One _ f0)
  then show ?case
    using decode_group(3) [of f0 "[]"] by (simp add: pads_def numeral_2_eq_2)
qed (simp add: pads_def)

end

section \<open>Encoding a stream\<close>

text \<open>
  The text of a stream of bytes: lines of 48 bytes each, in the alphabet and with the line breaks
  the flags ask for.
\<close>

definition bin_table :: "u32 \<Rightarrow> bytes" where
  "bin_table fl = (if fl AND EVP_ENCODE_CTX_USE_SRP_ALPHABET \<noteq> 0 then srpdata_bin2ascii else data_bin2ascii)"

definition line_text :: "u32 \<Rightarrow> bytes \<Rightarrow> bytes" where
  "line_text fl f = encode_groups (bin_table fl) f @ (if fl AND EVP_ENCODE_CTX_NO_NEWLINES = 0 then [NL] else [])"

function text_of :: "u32 \<Rightarrow> bytes \<Rightarrow> bytes" where
  "text_of fl bs = (if bs = [] then [] else line_text fl (take 48 bs) @ text_of fl (drop 48 bs))"
  by pat_completeness auto
termination
  by (relation "measure (\<lambda>(fl, bs). length bs)") auto

declare text_of.simps [simp del]

lemma text_of_Nil [simp]: "text_of fl [] = []"
  by (simp add: text_of.simps)

lemma text_of_append: "length a mod 48 = 0 \<Longrightarrow> text_of fl (a @ b) = text_of fl a @ text_of fl b"
proof (induction fl a rule: text_of.induct)
  case (1 fl a)
  show ?case
  proof (cases "a = []")
    case False
    with "1.prems" have "48 \<le> length a"
      by (metis length_0_conv mod_less not_le)
    with 1 False show ?thesis
      by (simp add: text_of.simps [of fl "a @ b"] text_of.simps [of fl a] le_mod_geq)
  qed simp
qed

lemma text_of_line: "length a = 48 \<Longrightarrow> text_of fl (a @ b) = line_text fl a @ text_of fl b"
  by (subst text_of.simps) auto

lemma length_line_text: "length (line_text fl f) \<le> (length f + 2) div 3 * 4 + 1"
  by (simp add: line_text_def length_encode_groups)

lemma length_text_of: "length (text_of fl bs) \<le> 65 * ((length bs + 47) div 48)"
proof (induction fl bs rule: text_of.induct)
  case (1 fl bs)
  show ?case
  proof (cases "bs = []")
    case False
    have "length (line_text fl (take 48 bs)) \<le> 65"
      using length_line_text [of fl "take 48 bs"] div_le_mono [of "length (take 48 bs) + 2" 50 3] by simp
    moreover have "(length bs + 47) div 48 = (length (drop 48 bs) + 47) div 48 + 1"
    proof (cases "length bs \<le> 48")
      case True
      have "0 < length bs" using False by simp
      then have "length bs + 47 = 48 + (length bs - 1)" "length bs - 1 < 48"
        using True by simp_all
      then show ?thesis
        using True by simp
    next
      case more: False
      then have "length bs + 47 = 48 + (length (drop 48 bs) + 47)" by simp
      then show ?thesis by (simp only: div_add_self1)
    qed
    ultimately show ?thesis
      using 1 [OF False] False by (subst text_of.simps) simp
  qed simp
qed

lemma encode_line_spec:
  assumes "pos + length (line_text (ctx_flags ctx) f) < length out"
  shows "\<exists>out'. encode_line ctx out pos f = Some (length (line_text (ctx_flags ctx) f), out') \<and> length out' = length out
    \<and> take (pos + length (line_text (ctx_flags ctx) f)) out' = take pos out @ line_text (ctx_flags ctx) f
    \<and> out' ! (pos + length (line_text (ctx_flags ctx) f)) = 0"
proof -
  have tab: "(if Some (ctx_flags ctx) \<noteq> None \<and> the (Some (ctx_flags ctx)) AND 2 \<noteq> 0 then srpdata_bin2ascii else data_bin2ascii)
      = bin_table (ctx_flags ctx)"
    by (simp add: bin_table_def)
  define t where "t = encode_groups (bin_table (ctx_flags ctx)) f"
  have blk: "evp_encodeblock_int (Some (ctx_flags ctx)) out pos f = map_option (Pair (length t)) (mem_write out pos (t @ [0]))"
    unfolding evp_encodeblock_int_def tab by (cases "mem_write out pos (t @ [0])") (simp_all add: Let_def t_def)
  show ?thesis
  proof (cases "ctx_flags ctx AND 1 = 0")
    case True
    with assms blk show ?thesis
      by (simp add: encode_line_def line_text_def mem_write_def nth_append flip: t_def; linarith)
  next
    case False
    with assms blk show ?thesis
      by (simp add: encode_line_def line_text_def mem_write_def nth_append flip: t_def; linarith)
  qed
qed

lemma encode_loop_spec:
  assumes "ctx_length ctx = 48" "length full mod 48 = 0" "length rest < 48"
    and "tot + length (text_of (ctx_flags ctx) full) \<le> INT_MAX" "tot + length (text_of (ctx_flags ctx) full) < length out"
  shows "\<exists>out'. encode_loop ctx out tot (full @ rest) = Some (tot + length (text_of (ctx_flags ctx) full), out', rest)
    \<and> length out' = length out \<and> take (tot + length (text_of (ctx_flags ctx) full)) out' = take tot out @ text_of (ctx_flags ctx) full"
  using assms
proof (induction "length full" arbitrary: full tot out rule: less_induct)
  case less
  show ?case
  proof (cases "full = []")
    case True
    with less.prems show ?thesis
      by (subst encode_loop.simps) simp
  next
    case False
    with less.prems(2) have len: "48 \<le> length full"
      by (metis length_0_conv mod_less not_le)
    define l where "l = line_text (ctx_flags ctx) (take 48 full)"
    have tx: "text_of (ctx_flags ctx) full = l @ text_of (ctx_flags ctx) (drop 48 full)"
      using text_of_line [of "take 48 full" "ctx_flags ctx" "drop 48 full"] len by (simp add: l_def)
    obtain out1 where o1: "encode_line ctx out tot (take 48 full) = Some (length l, out1)" "length out1 = length out"
        "take (tot + length l) out1 = take tot out @ l"
      using encode_line_spec [of tot ctx "take 48 full" out] less.prems(5) tx by (auto simp: l_def)
    obtain out2 where "encode_loop ctx out1 (tot + length l) (drop 48 full @ rest)
          = Some (tot + length l + length (text_of (ctx_flags ctx) (drop 48 full)), out2, rest)"
        "length out2 = length out1"
        "take (tot + length l + length (text_of (ctx_flags ctx) (drop 48 full))) out2
          = take (tot + length l) out1 @ text_of (ctx_flags ctx) (drop 48 full)"
    proof -
      have p: "length (drop 48 full) < length full" "length (drop 48 full) mod 48 = 0"
          "tot + length l + length (text_of (ctx_flags ctx) (drop 48 full)) \<le> INT_MAX"
          "tot + length l + length (text_of (ctx_flags ctx) (drop 48 full)) < length out1"
        using less.prems tx len o1(2) by (simp_all add: le_mod_geq)
      show thesis
        using less.hyps [OF p(1) less.prems(1) p(2) less.prems(3) p(3, 4)] that by blast
    qed
    with o1 less.prems(1, 4) len tx show ?thesis
      by (subst encode_loop.simps) (simp add: add.assoc)
  qed
qed

definition encode_ok :: "EVP_ENCODE_CTX \<Rightarrow> bool" where
  "encode_ok ctx \<longleftrightarrow> ctx_length ctx = 48 \<and> ctx_num ctx < 48 \<and> length (enc_data ctx) = 80"

definition saved :: "EVP_ENCODE_CTX \<Rightarrow> bytes" where
  "saved ctx = take (ctx_num ctx) (enc_data ctx)"

lemma encode_update_spec:
  fixes ctx inp
  defines "d \<equiv> saved ctx @ inp"
  defines "full \<equiv> take (length d - length d mod 48) d" and "rest \<equiv> drop (length d - length d mod 48) d"
  assumes "encode_ok ctx" "inp \<noteq> []"
    and "length (text_of (ctx_flags ctx) full) \<le> INT_MAX" "length (text_of (ctx_flags ctx) full) < length out"
  shows "\<exists>out' ctx'. EVP_EncodeUpdate ctx out inp = Some (1, length (text_of (ctx_flags ctx) full), out', ctx')
    \<and> take (length (text_of (ctx_flags ctx) full)) out' = text_of (ctx_flags ctx) full
    \<and> encode_ok ctx' \<and> ctx_flags ctx' = ctx_flags ctx \<and> saved ctx' = rest"
proof -
  have ok: "ctx_length ctx = 48" "ctx_num ctx < 48" "length (enc_data ctx) = 80" "length (saved ctx) = ctx_num ctx"
    using assms(4) by (simp_all add: encode_ok_def saved_def)
  have full: "length full mod 48 = 0" "length rest < 48" "d = full @ rest"
    by (simp_all add: full_def rest_def minus_mod_eq_mult_div [symmetric])
  show ?thesis
  proof (cases "length d < 48")
    case True
    then have "full = []" "rest = d"
      by (simp_all add: full_def rest_def)
    with True ok assms(5) show ?thesis
      by (simp add: EVP_EncodeUpdate_def mem_write_def encode_ok_def saved_def d_def)
  next
    case False
    then have ge: "\<not> int (ctx_length ctx) - int (ctx_num ctx) > int (length inp)"
      using ok by (simp add: d_def)
    obtain j out1 inp1 ctx1 full1 where start: "encode_saved ctx out inp = Some (j, out1, inp1, ctx1)"
        "inp1 = full1 @ rest" "length full1 mod 48 = 0" "length out1 = length out"
        "ctx_length ctx1 = 48" "length (enc_data ctx1) = 80" "ctx_flags ctx1 = ctx_flags ctx"
        "j + length (text_of (ctx_flags ctx) full1) = length (text_of (ctx_flags ctx) full)"
        "take j out1 @ text_of (ctx_flags ctx) full1 = text_of (ctx_flags ctx) full" "length (take j out1) = j"
    proof (cases "ctx_num ctx = 0")
      case True
      then show thesis
        using that [of 0 out inp ctx full] ok full by (simp add: encode_saved_def d_def saved_def)
    next
      case more: False
      define i where "i = 48 - ctx_num ctx"
      define f where "f = saved ctx @ take i inp"
      have i: "i \<le> length inp" "ctx_num ctx + i = 48"
        using False ok(2, 4) by (simp_all add: i_def d_def)
      have f: "length f = 48" "d = f @ drop i inp"
        using i ok(4) by (simp_all add: f_def d_def)
      define full1 where "full1 = drop 48 full"
      have "length full = 48 * (length d div 48)" "1 \<le> length d div 48"
        using False by (simp_all add: full_def minus_mod_eq_mult_div Suc_le_eq div_greater_zero_iff)
      then have len: "48 \<le> length full" by simp
      have "take 48 d = f" "drop 48 d = drop i inp"
        by (simp_all add: f)
      moreover have "take 48 d = take 48 full" "drop 48 d = full1 @ rest"
        unfolding full(3) using len by (simp_all add: full1_def)
      ultimately have f1: "full = f @ full1" "drop i inp = full1 @ rest" "length full1 mod 48 = 0"
        using full(1) len append_take_drop_id [of 48 full] by (simp_all add: full1_def le_mod_geq)
      define ctx1 where "ctx1 = ctx\<lparr>enc_data := f @ drop 48 (enc_data ctx), ctx_num := 0\<rparr>"
      define l where "l = line_text (ctx_flags ctx) f"
      have tx: "text_of (ctx_flags ctx) full = l @ text_of (ctx_flags ctx) full1"
        using f f1(1) by (simp add: text_of_line l_def)
      have w: "mem_write (enc_data ctx) (ctx_num ctx) (take i inp) = Some (f @ drop 48 (enc_data ctx))"
          "mem_read (f @ drop 48 (enc_data ctx)) 0 48 = Some f"
        using i f ok by (simp_all add: mem_write_def mem_read_def f_def saved_def i_def [symmetric])
      obtain out1 where out1: "encode_line ctx1 out 0 f = Some (length l, out1)" "length out1 = length out" "take (length l) out1 = l"
        using encode_line_spec [of 0 ctx1 f out] assms(7) tx by (auto simp: l_def ctx1_def)
      have res: "encode_saved ctx out inp = Some (length l, out1, drop i inp, ctx1)"
        using more ok w out1(1) by (simp add: encode_saved_def i_def [symmetric] ctx1_def)
      show thesis
        by (rule that [OF res f1(2, 3) out1(2)]) (use ok f out1 tx in \<open>simp_all add: ctx1_def\<close>)
    qed
    obtain out2 where o2: "encode_loop ctx1 out1 j inp1 = Some (length (text_of (ctx_flags ctx) full), out2, rest)"
        "take (length (text_of (ctx_flags ctx) full)) out2 = text_of (ctx_flags ctx) full"
      using encode_loop_spec [OF start(5, 3) full(2), of j out1] start assms(6, 7) by auto
    define dd where "dd = rest @ drop (length rest) (enc_data ctx1)"
    have "mem_write (enc_data ctx1) 0 rest = Some dd"
      using full(2) start(6) by (simp add: mem_write_def dd_def)
    then have "EVP_EncodeUpdate ctx out inp = Some (1, length (text_of (ctx_flags ctx) full), out2, ctx1\<lparr>enc_data := dd, ctx_num := length rest\<rparr>)"
      unfolding EVP_EncodeUpdate_def if_not_P [OF assms(5)] if_not_P [OF ge] start(1)
      using ok o2(1) assms(6) by simp
    moreover have "encode_ok (ctx1\<lparr>enc_data := dd, ctx_num := length rest\<rparr>)" "saved (ctx1\<lparr>enc_data := dd, ctx_num := length rest\<rparr>) = rest"
      using start full(2) by (simp_all add: encode_ok_def saved_def dd_def)
    ultimately show ?thesis
      using o2(2) start(7) by simp
  qed
qed

text \<open>
  A caller that encodes pieces, each into a buffer of the documented size \<open>EVP_ENCODE_LENGTH\<close>, and
  joins what it gets.
\<close>

definition EVP_ENCODE_LENGTH :: "nat \<Rightarrow> nat" where
  "EVP_ENCODE_LENGTH l = (l + 2) div 3 * 4 + (l div 48 + 1) * 2 + 80"

fun encode_pieces :: "(nat \<Rightarrow> bytes) \<Rightarrow> EVP_ENCODE_CTX \<Rightarrow> bytes list \<Rightarrow> (bytes \<times> EVP_ENCODE_CTX) option" where
  "encode_pieces buf ctx [] = do {
     (outl, out, ctx) \<leftarrow> EVP_EncodeFinal ctx (buf (EVP_ENCODE_LENGTH 0));
     Some (take outl out, ctx)
   }"
| "encode_pieces buf ctx (p # ps) = do {
     (ret, outl, out, ctx) \<leftarrow> EVP_EncodeUpdate ctx (buf (EVP_ENCODE_LENGTH (length p))) p;
     if ret \<noteq> 1 then None
     else do {
       (t, ctx) \<leftarrow> encode_pieces buf ctx ps;
       Some (take outl out @ t, ctx)
     }
   }"

lemma encode_length_enough:
  assumes "n < 48"
  shows "65 * ((n + l) div 48) < EVP_ENCODE_LENGTH l"
proof -
  have a: "(n + l) div 48 \<le> (l + 47) div 48"
    using assms by (intro div_le_mono) simp
  define k where "k = (l + 47) div 48"
  define x where "x = (l + 2) div 3"
  define y where "y = l div 48"
  have "48 * k \<le> l + 47"
    by (simp add: k_def)
  then have "16 * k \<le> x + 15" "k \<le> y + 1"
    unfolding x_def y_def by linarith+
  moreover have "q \<le> k \<Longrightarrow> 16 * k \<le> x + 15 \<Longrightarrow> k \<le> y + 1 \<Longrightarrow> 65 * q < x * 4 + (y + 1) * 2 + 80" for q
    by simp
  ultimately have "65 * ((n + l) div 48) < x * 4 + (y + 1) * 2 + 80"
    using a by (simp only: k_def)
  then show ?thesis
    by (simp add: EVP_ENCODE_LENGTH_def x_def y_def)
qed

lemma encode_pieces_spec:
  assumes "encode_ok ctx" "\<And>n. length (buf n) = n" "\<forall>p \<in> set ps. p \<noteq> []" "length (saved ctx @ concat ps) < 2 ^ 30"
  shows "\<exists>ctx'. encode_pieces buf ctx ps = Some (text_of (ctx_flags ctx) (saved ctx @ concat ps), ctx')"
  using assms(1, 3, 4)
proof (induction ps arbitrary: ctx)
  case Nil
  have len: "length (saved ctx) = ctx_num ctx" "ctx_num ctx < 48" "length (enc_data ctx) = 80"
    using Nil by (simp_all add: encode_ok_def saved_def)
  show ?case
  proof (cases "ctx_num ctx = 0")
    case True
    then show ?thesis
      by (simp add: EVP_EncodeFinal_def saved_def)
  next
    case False
    have tx: "text_of (ctx_flags ctx) (saved ctx) = line_text (ctx_flags ctx) (saved ctx)"
      using len False by (subst text_of.simps) auto
    have "length (line_text (ctx_flags ctx) (saved ctx)) < length (buf (EVP_ENCODE_LENGTH 0))"
      using length_line_text [of "ctx_flags ctx" "saved ctx"] len div_le_mono [of "ctx_num ctx + 2" 49 3]
      by (simp add: assms(2) EVP_ENCODE_LENGTH_def)
    with encode_line_spec [of 0 ctx "saved ctx"] obtain out' where
        "encode_line ctx (buf (EVP_ENCODE_LENGTH 0)) 0 (saved ctx) = Some (length (line_text (ctx_flags ctx) (saved ctx)), out')"
        "take (length (line_text (ctx_flags ctx) (saved ctx))) out' = line_text (ctx_flags ctx) (saved ctx)"
      by auto
    moreover have "mem_read (enc_data ctx) 0 (ctx_num ctx) = Some (saved ctx)"
      using len by (simp add: mem_read_def saved_def)
    ultimately show ?thesis
      using False tx by (simp add: EVP_EncodeFinal_def)
  qed
next
  case (Cons p ps)
  define d where "d = saved ctx @ p"
  define full where "full = take (length d - length d mod 48) d"
  define rest where "rest = drop (length d - length d mod 48) d"
  have len: "length (saved ctx) = ctx_num ctx" "ctx_num ctx < 48"
    using Cons.prems(1) by (simp_all add: encode_ok_def saved_def)
  have full: "length full mod 48 = 0" "full @ rest = d" "length full = 48 * (length d div 48)"
    by (simp_all add: full_def rest_def minus_mod_eq_mult_div)
  then have "(length full + 47) div 48 = length d div 48"
    by simp
  then have tl: "length (text_of (ctx_flags ctx) full) \<le> 65 * (length d div 48)"
    using length_text_of [of "ctx_flags ctx" full] by simp
  have room: "length (text_of (ctx_flags ctx) full) < length (buf (EVP_ENCODE_LENGTH (length p)))"
    using tl encode_length_enough [OF len(2), of "length p"] by (simp add: assms(2) d_def len)
  have "length d < 2 ^ 30"
    using Cons.prems(3) by (simp add: d_def)
  then have small: "length (text_of (ctx_flags ctx) full) \<le> INT_MAX"
    using tl by simp
  obtain out' ctx' where u: "EVP_EncodeUpdate ctx (buf (EVP_ENCODE_LENGTH (length p))) p
        = Some (1, length (text_of (ctx_flags ctx) full), out', ctx')"
      "take (length (text_of (ctx_flags ctx) full)) out' = text_of (ctx_flags ctx) full"
      "encode_ok ctx'" "ctx_flags ctx' = ctx_flags ctx" "saved ctx' = rest"
    using encode_update_spec [of ctx p, folded d_def, folded full_def rest_def, OF Cons.prems(1) _ small room] Cons.prems(2)
    by auto
  have "length (saved ctx' @ concat ps) < 2 ^ 30"
    using Cons.prems(3) u(5) full(2) by (auto simp: d_def dest!: arg_cong [of _ _ length])
  then obtain ctx2 where "encode_pieces buf ctx' ps = Some (text_of (ctx_flags ctx') (saved ctx' @ concat ps), ctx2)"
    using Cons.IH [OF u(3)] Cons.prems(2) by auto
  moreover have "text_of (ctx_flags ctx) (saved ctx @ concat (p # ps)) = text_of (ctx_flags ctx) full @ text_of (ctx_flags ctx) (rest @ concat ps)"
  proof -
    have eq: "saved ctx @ concat (p # ps) = full @ rest @ concat ps"
      using full(2) by (simp add: d_def flip: append_assoc)
    show ?thesis
      unfolding eq by (rule text_of_append [OF full(1)])
  qed
  ultimately show ?case
    using u by simp
qed

lemma encode_start:
  "length (enc_data ctx) = 80 \<Longrightarrow> encode_ok (evp_encode_ctx_set_flags (EVP_EncodeInit ctx) fl)
     \<and> saved (evp_encode_ctx_set_flags (EVP_EncodeInit ctx) fl) = [] \<and> ctx_flags (evp_encode_ctx_set_flags (EVP_EncodeInit ctx) fl) = fl"
  by (simp add: evp_encode_ctx_set_flags_def EVP_EncodeInit_def encode_ok_def saved_def)

text \<open>
  C35: Encoding does not depend on how the data is cut into pieces: whatever the pieces, every call
  succeeds, stays inside an output buffer of the documented size \<open>EVP_ENCODE_LENGTH\<close> of its piece,
  and the output of all calls together, up to the final one, is the text of the whole data, in
  lines of 48 bytes.
\<close>

theorem encode_streaming:
  assumes "length (enc_data ctx) = 80" "\<And>n. length (buf n) = n" "\<forall>p \<in> set ps. p \<noteq> []" "length (concat ps) < 2 ^ 30"
  shows "\<exists>ctx'. encode_pieces buf (evp_encode_ctx_set_flags (EVP_EncodeInit ctx) fl) ps = Some (text_of fl (concat ps), ctx')"
  using encode_pieces_spec [of "evp_encode_ctx_set_flags (EVP_EncodeInit ctx) fl" buf ps] encode_start [OF assms(1), of fl] assms(2-4)
  by simp

section \<open>Decoding is safe\<close>

definition asc_table :: "u32 \<Rightarrow> bytes" where
  "asc_table fl = (if fl AND EVP_ENCODE_CTX_USE_SRP_ALPHABET \<noteq> 0 then srpdata_ascii2bin else data_ascii2bin)"

interpretation tab: alphabet "bin_table fl" "asc_table fl" for fl
  by (cases "fl AND 2 = 0") (simp_all add: bin_table_def asc_table_def std.alphabet_axioms srp.alphabet_axioms)

lemma trim_ws_safe:
  "n < length f \<Longrightarrow> \<exists>f' n'. trim_ws table f n = Some (f', n') \<and> n' \<le> n \<and> n' < length f'"
proof (induction table f n rule: trim_ws.induct)
  case (2 table c f n)
  show ?case
  proof (cases "conv_ascii2bin c table = B64_WS \<and> n > 0")
    case True
    then have "n - 1 < length f" using "2.prems" by auto
    from 2(1) [OF True this] obtain f' n' where "trim_ws table f (n - 1) = Some (f', n')" "n' \<le> n - 1" "n' < length f'"
      by blast
    with True show ?thesis
      by (intro exI [of _ f'] exI [of _ n']) simp
  next
    case False
    with "2.prems" show ?thesis by auto
  qed
qed simp

lemma strip_end_le: "strip_end table f n \<le> n"
  by (induction table f n rule: strip_end.induct) (subst strip_end.simps, force simp del: strip_end.simps)

lemma length_decode_quads: "length (snd (decode_quads table f)) \<le> 3 * (length f div 4)"
proof (induction table f rule: decode_quads.induct)
  case (1 table c0 c1 c2 c3 f)
  have "length (c0 # c1 # c2 # c3 # f) div 4 = Suc (length f div 4)"
    by simp
  with 1 show ?case
    by (auto simp: Let_def split: prod.split simp del: length_Cons)
qed (simp_all add: Let_def)

lemma evp_decodeblock_int_unfold:
  "evp_decodeblock_int (Some fl) out pos f n = (let table = asc_table fl in do {
        (f, n) \<leftarrow> trim_ws table f n;
        if n > length f then None
        else
          let n = strip_end table f n in
          if n mod 4 \<noteq> 0 then Some (- 1, out)
          else case decode_quads table (take n f) of (ok, t) \<Rightarrow> do {
            out \<leftarrow> mem_write out pos t;
            Some (if ok then int (length t) else - 1, out)
          }
      })"
  by (simp add: evp_decodeblock_int_def asc_table_def)

lemma evp_decodeblock_safe:
  assumes "n < length f" "pos + 3 * (n div 4) \<le> length out"
  shows "\<exists>r out'. evp_decodeblock_int (Some fl) out pos f n = Some (r, out') \<and> length out' = length out \<and> r \<le> 3 * int (n div 4)"
proof -
  obtain f' n' where t: "trim_ws (asc_table fl) f n = Some (f', n')" "n' \<le> n" "n' < length f'"
    using trim_ws_safe [OF assms(1)] by blast
  define k where "k = strip_end (asc_table fl) f' n'"
  obtain ok bs where q: "decode_quads (asc_table fl) (take k f') = (ok, bs)"
    by (rule prod.exhaust)
  have "k \<le> n'"
    unfolding k_def by (rule strip_end_le)
  then have "length bs \<le> 3 * (n div 4)"
    using length_decode_quads [of "asc_table fl" "take k f'"] q t(2, 3) div_le_mono [of k n 4] by (simp add: min_def)
  then show ?thesis
    using t q assms(2)
    by (auto simp: evp_decodeblock_int_unfold Let_def mem_write_def simp flip: k_def simp del: strip_end.simps)
qed

lemma decode_saved_safe:
  assumes "ds_n s \<le> 64" "length (ds_d s) = 80" "ds_ret s + 3 * ((ds_n s + k) div 4) \<le> length (ds_out s)"
  shows "\<exists>ok s'. decode_saved fl s = Some (ok, s') \<and> ds_n s' = 0 \<and> ds_d s' = ds_d s \<and> ds_eof s' = ds_eof s
    \<and> length (ds_out s') = length (ds_out s) \<and> ds_ret s \<le> ds_ret s' \<and> ds_ret s' + 3 * (k div 4) \<le> length (ds_out s)
    \<and> ds_ret s' \<le> ds_ret s + 3 * (ds_n s div 4)"
proof -
  have div: "3 * (ds_n s div 4) + 3 * (k div 4) \<le> 3 * ((ds_n s + k) div 4)"
    using div_add1_eq [of "ds_n s" k 4] by simp
  then have "ds_ret s + 3 * (ds_n s div 4) \<le> length (ds_out s)"
    using assms(3) by linarith
  then obtain r out' where r: "evp_decodeblock_int (Some fl) (ds_out s) (ds_ret s) (ds_d s) (ds_n s) = Some (r, out')"
      "length out' = length (ds_out s)" "r \<le> 3 * int (ds_n s div 4)"
    using evp_decodeblock_safe [of "ds_n s" "ds_d s" "ds_ret s" "ds_out s" fl] assms(1, 2) by auto
  then have "nat r \<le> 3 * (ds_n s div 4)"
    by linarith
  then have bounds: "ds_ret s + 3 * (k div 4) \<le> length (ds_out s)"
      "ds_ret s + (nat r - ds_eof s) + 3 * (k div 4) \<le> length (ds_out s)"
      "ds_ret s + (nat r - ds_eof s) \<le> ds_ret s + 3 * (ds_n s div 4)"
    using div assms(3) by linarith+
  show ?thesis
    using r(1, 2) bounds by (cases "r < 0 \<or> r < int (ds_eof s)") (simp_all add: decode_saved_def Let_def, blast+)
qed

lemma decode_loop_unfold:
  "decode_loop fl (tmp # inp) s =
     (let v = conv_ascii2bin tmp (asc_table fl) in
      if v = B64_ERROR then (Some (Inl ()), s)
      else if tmp \<noteq> PAD \<and> ds_eof s > 0 \<and> \<not> B64_NOT_BASE64 v then (Some (Inl ()), s)
      else
        let s = (if tmp = PAD then s\<lparr>ds_eof := ds_eof s + 1\<rparr> else s) in
        if ds_eof s > 2 then (Some (Inl ()), s)
        else if v = B64_EOF then (Some (Inr True), s)
        else if \<not> B64_NOT_BASE64 v \<and> ds_n s \<ge> 64 then (Some (Inl ()), s)
        else
          let s = (if \<not> B64_NOT_BASE64 v then s\<lparr>ds_d := (ds_d s)[ds_n s := tmp], ds_n := ds_n s + 1\<rparr> else s) in
          if ds_n s = 64 then
            (case decode_saved fl s of
               None \<Rightarrow> (None, s)
             | Some (ok, s) \<Rightarrow> if ok then decode_loop fl inp s else (Some (Inl ()), s))
          else decode_loop fl inp s)"
  by (simp only: decode_loop.simps(2) pad_char asc_table_def Let_def)

declare decode_loop.simps(2) [simp del]

text \<open>
  What a call may have done to its variables: it has read \<open>j\<close> characters, and there is room for
  \<open>k\<close> more.
\<close>

definition dec_room :: "nat \<Rightarrow> dec_st \<Rightarrow> bool" where
  "dec_room k s \<longleftrightarrow> ds_n s < 64 \<and> length (ds_d s) = 80 \<and> ds_ret s + 3 * ((ds_n s + k) div 4) \<le> length (ds_out s)"

lemma dec_room_mono: "dec_room k s \<Longrightarrow> j \<le> k \<Longrightarrow> dec_room j s"
proof -
  assume "dec_room k s" "j \<le> k"
  then have "(ds_n s + j) div 4 \<le> (ds_n s + k) div 4"
    by (intro div_le_mono) simp
  with \<open>dec_room k s\<close> show "dec_room j s"
    unfolding dec_room_def by linarith
qed

lemma decode_loop_safe:
  assumes "dec_room (length inp) s"
  shows "\<exists>r s'. decode_loop fl inp s = (Some r, s') \<and> dec_room 0 s' \<and> length (ds_out s') = length (ds_out s)"
  using assms
proof (induction inp arbitrary: s)
  case Nil
  then show ?case by simp
next
  case (Cons tmp inp)
  define v where "v = conv_ascii2bin tmp (asc_table fl)"
  define s1 where "s1 = (if tmp = PAD then s\<lparr>ds_eof := ds_eof s + 1\<rparr> else s)"
  define s2 where "s2 = (if \<not> B64_NOT_BASE64 v then s1\<lparr>ds_d := (ds_d s1)[ds_n s1 := tmp], ds_n := ds_n s1 + 1\<rparr> else s1)"
  have r: "dec_room (Suc (length inp)) s1" "dec_room 0 s" "dec_room 0 s1"
    using Cons.prems dec_room_mono [OF Cons.prems, of 0] by (simp_all add: s1_def dec_room_def)
  have len: "length (ds_out s2) = length (ds_out s)" "length (ds_out s1) = length (ds_out s)"
    by (simp_all add: s2_def s1_def)
  have s2: "ds_n s2 \<le> 64" "length (ds_d s2) = 80" "ds_ret s2 + 3 * ((ds_n s2 + length inp) div 4) \<le> length (ds_out s2)"
    using r(1) dec_room_mono [OF r(1), of "length inp"] by (simp_all add: s2_def dec_room_def)
  have step: "\<exists>r s'. (if ds_n s2 = 64 then
            (case decode_saved fl s2 of
               None \<Rightarrow> (None, s2)
             | Some (ok, s) \<Rightarrow> if ok then decode_loop fl inp s else (Some (Inl ()), s))
          else decode_loop fl inp s2) = (Some r, s') \<and> dec_room 0 s' \<and> length (ds_out s') = length (ds_out s)"
  proof (cases "ds_n s2 = 64")
    case True
    obtain ok s3 where s3: "decode_saved fl s2 = Some (ok, s3)" "ds_n s3 = 0" "ds_d s3 = ds_d s2"
        "length (ds_out s3) = length (ds_out s2)" "ds_ret s3 + 3 * (length inp div 4) \<le> length (ds_out s2)"
      using decode_saved_safe [OF s2] by blast
    have "dec_room (length inp) s3"
      using s3 s2 by (simp add: dec_room_def)
    with Cons.IH [of s3] dec_room_mono [of "length inp" s3 0] True s3 len show ?thesis
      by (cases ok) auto
  next
    case False
    then have "dec_room (length inp) s2"
      using s2 by (simp add: dec_room_def)
    with Cons.IH [of s2] False len show ?thesis by auto
  qed
  then show ?case
    using r(2, 3) len(2)
    by (simp only: decode_loop_unfold Let_def v_def [symmetric] s1_def [symmetric] s2_def [symmetric]) auto
qed

definition decode_ok :: "EVP_ENCODE_CTX \<Rightarrow> bool" where
  "decode_ok ctx \<longleftrightarrow> ctx_num ctx < 64 \<and> length (enc_data ctx) = 80"

definition EVP_DECODE_LENGTH :: "nat \<Rightarrow> nat" where
  "EVP_DECODE_LENGTH l = (l + 3) div 4 * 3 + 80"

lemma decode_length_enough:
  assumes "n < 64"
  shows "3 * ((n + l) div 4) \<le> EVP_DECODE_LENGTH l"
proof -
  have "(n + l) div 4 \<le> (l + 3 + 15 * 4) div 4"
    using assms by (intro div_le_mono) simp
  also have "\<dots> = (l + 3) div 4 + 15"
    by presburger
  finally show ?thesis
    by (simp add: EVP_DECODE_LENGTH_def)
qed

text \<open>
  C36: Decoding is safe on arbitrary input: \<open>EVP_DecodeUpdate\<close> returns, reads and writes only inside
  the context's buffer and an output buffer of the documented size \<open>EVP_DECODE_LENGTH\<close>, reports
  at most that much output, and leaves a context for which the same holds again. Its result is
  -1, 0 or 1.
\<close>

theorem decode_update_safe:
  assumes "decode_ok ctx" "EVP_DECODE_LENGTH (length inp) \<le> length out"
  shows "\<exists>rv outl out' ctx'. EVP_DecodeUpdate ctx out inp = Some (rv, outl, out', ctx') \<and> rv \<in> {- 1, 0, 1}
    \<and> outl \<le> length out \<and> length out' = length out \<and> decode_ok ctx'"
proof -
  define eof :: nat where "eof = (if ctx_num ctx > 0 \<and> enc_data ctx ! (ctx_num ctx - 1) = PAD
                   then if ctx_num ctx > 1 \<and> enc_data ctx ! (ctx_num ctx - 2) = PAD then 2 else 1 else 0)"
  define s where "s = \<lparr>ds_n = ctx_num ctx, ds_d = enc_data ctx, ds_eof = eof, ds_ret = 0, ds_out = out\<rparr>"
  have room: "dec_room (length inp) s"
    using assms decode_length_enough [of "ctx_num ctx" "length inp"] by (simp add: dec_room_def s_def decode_ok_def)
  obtain r s1 where l: "decode_loop (ctx_flags ctx) inp s = (Some r, s1)" "dec_room 0 s1" "length (ds_out s1) = length out"
    using decode_loop_safe [OF room, of "ctx_flags ctx"] by (auto simp: s_def)
  have fin: "ds_ret t \<le> length out \<and> length (ds_out t) = length out \<and> decode_ok (ctx\<lparr>enc_data := ds_d t, ctx_num := ds_n t\<rparr>)"
    if "dec_room 0 t" "length (ds_out t) = length out" for t
    using that by (simp add: dec_room_def decode_ok_def)
  obtain ok s2 where s2: "decode_saved (ctx_flags ctx) s1 = Some (ok, s2)" "dec_room 0 s2" "length (ds_out s2) = length out"
    using decode_saved_safe [of s1 0 "ctx_flags ctx"] l(2, 3) by (fastforce simp: dec_room_def)
  have "\<not> ctx_num ctx > length (enc_data ctx)"
    using assms(1) by (simp add: decode_ok_def)
  then show ?thesis
    unfolding EVP_DecodeUpdate_def Let_def pad_char eof_def [symmetric] s_def [symmetric]
    using l s2 fin [OF l(2, 3)] fin [OF s2(2, 3)] fin [of s] room dec_room_mono [OF room, of 0]
    by (auto simp: s_def split: sum.splits)
qed

text \<open>
  \<open>EVP_DecodeBlock\<close> is not: given nothing but white space it looks at the byte after its input
  before it looks at the number of bytes left.
\<close>

lemma decode_block_reads_past_blanks: "EVP_DecodeBlock out (replicate n 0x20) n = None"
proof -
  have ws: "conv_ascii2bin 0x20 data_ascii2bin = B64_WS"
    by (simp add: conv_ascii2bin_def data_ascii2bin_def)
  have "trim_ws data_ascii2bin (replicate k 0x20) k = None" for k
    by (induction k) (simp_all add: ws)
  then show ?thesis
    by (simp add: EVP_DecodeBlock_def evp_decodeblock_int_def Let_def)
qed

section \<open>Decoding what was encoded\<close>

text \<open>The characters of a text without its line breaks, and their structure.\<close>

definition chars_of :: "u32 \<Rightarrow> bytes \<Rightarrow> bytes" where
  "chars_of fl bs = encode_groups (bin_table fl) bs"

lemma pads_less: "pads bs < 3"
  by (simp add: pads_def)

lemma encode_groups_padding:
  "\<exists>body. encode_groups table bs = body @ replicate (pads bs) PAD \<and> (\<forall>c \<in> set body. \<exists>x. c = conv_bin2ascii x table)"
proof (induction bs rule: groups_induct)
  case (Three _ f0 f1 f2 f)
  then obtain body where b: "encode_groups table f = body @ replicate (pads f) PAD" "\<forall>c \<in> set body. \<exists>x. c = conv_bin2ascii x table"
    by blast
  have "pads (f0 # f1 # f2 # f) = pads f"
    by (simp add: pads_def)
  with b show ?case
    by (intro exI [of _ "[conv_bin2ascii (drop_bit 18 (triple f0 f1 f2)) table, conv_bin2ascii (drop_bit 12 (triple f0 f1 f2)) table,
      conv_bin2ascii (drop_bit 6 (triple f0 f1 f2)) table, conv_bin2ascii (triple f0 f1 f2) table] @ body"])
      (auto simp: encode_groups_triple simp del: encode_groups.simps)
next
  case (Two _ f0 f1)
  then show ?case
    by (intro exI [of _ "[conv_bin2ascii (drop_bit 18 (triple f0 f1 0)) table, conv_bin2ascii (drop_bit 12 (triple f0 f1 0)) table,
      conv_bin2ascii (drop_bit 6 (triple f0 f1 0)) table]"])
      (auto simp: encode_groups_triple pads_def simp del: encode_groups.simps)
next
  case (One _ f0)
  then show ?case
    by (intro exI [of _ "[conv_bin2ascii (drop_bit 18 (triple f0 0 0)) table, conv_bin2ascii (drop_bit 12 (triple f0 0 0)) table]"])
      (auto simp: encode_groups_triple pads_def numeral_2_eq_2 simp del: encode_groups.simps)
next
  case (Nil _)
  then show ?case by (simp add: pads_def)
qed

lemma encode_groups_nl: "is_char (bin_table fl) c \<Longrightarrow> c \<noteq> NL"
  using tab.is_char_value(1) [of fl c] tab.dec_nl [of fl] by auto

lemma filter_text_of: "filter (\<lambda>c. c \<noteq> NL) (text_of fl bs) = chars_of fl bs"
proof (induction fl bs rule: text_of.induct)
  case (1 fl bs)
  show ?case
  proof (cases "bs = []")
    case False
    have "filter (\<lambda>c. c \<noteq> NL) (encode_groups (bin_table fl) (take 48 bs)) = encode_groups (bin_table fl) (take 48 bs)"
      using encode_groups_chars encode_groups_nl by (simp add: filter_id_conv) blast
    then have line: "filter (\<lambda>c. c \<noteq> NL) (line_text fl (take 48 bs)) = encode_groups (bin_table fl) (take 48 bs)"
      by (simp add: line_text_def)
    have "encode_groups (bin_table fl) bs = encode_groups (bin_table fl) (take 48 bs) @ encode_groups (bin_table fl) (drop 48 bs)"
    proof (cases "length bs \<le> 48")
      case False
      then have "length (take 48 bs) mod 3 = 0" by simp
      from encode_groups_append [OF this, of "bin_table fl" "drop 48 bs"] show ?thesis by simp
    qed simp
    with 1 [OF False] False line show ?thesis
      by (simp add: text_of.simps [of fl bs] chars_of_def)
  qed (simp add: chars_of_def)
qed

text \<open>A run of whole groups encodes the bytes in the same place.\<close>

lemma take_drop_groups:
  "take (4 * a) (encode_groups table bs) = encode_groups table (take (3 * a) bs)"
  "drop (4 * a) (encode_groups table bs) = encode_groups table (drop (3 * a) bs)"
proof -
  have "take (4 * a) (encode_groups table bs) = encode_groups table (take (3 * a) bs)
      \<and> drop (4 * a) (encode_groups table bs) = encode_groups table (drop (3 * a) bs)"
  proof (cases "3 * a \<le> length bs")
    case True
    then have "length (take (3 * a) bs) mod 3 = 0" "length (encode_groups table (take (3 * a) bs)) = 4 * a"
      by (simp_all add: length_encode_groups)
    then show ?thesis
      using encode_groups_append [of "take (3 * a) bs" table "drop (3 * a) bs"] by simp
  next
    case False
    then have "(length bs + 2) div 3 \<le> a"
      by simp
    then have "length (encode_groups table bs) \<le> 4 * a"
      by (simp add: length_encode_groups)
    with False show ?thesis by simp
  qed
  then show "take (4 * a) (encode_groups table bs) = encode_groups table (take (3 * a) bs)"
      "drop (4 * a) (encode_groups table bs) = encode_groups table (drop (3 * a) bs)"
    by blast+
qed

lemma seg_chars:
  "seg (chars_of fl bs) (4 * a) (4 * b) = chars_of fl (seg bs (3 * a) (3 * b))"
  by (simp add: seg_def chars_of_def take_drop_groups)

lemma is_char_chars: "c \<in> set (chars_of fl bs) \<Longrightarrow> is_char (bin_table fl) c"
  unfolding chars_of_def by (rule encode_groups_chars)

text \<open>Decoding whole groups that are in the context's buffer.\<close>

lemma decodeblock_groups:
  assumes "take n d = chars_of fl x" "0 < n" "n < length d" "pos + length x + pads x \<le> length out"
  shows "\<exists>out'. evp_decodeblock_int (Some fl) out pos d n = Some (int (length x + pads x), out')
    \<and> length out' = length out \<and> take (pos + length x) out' = take pos out @ x"
proof -
  have n: "n = length (chars_of fl x)"
    using assms(1, 3) by (metis length_take less_imp_le min.absorb2)
  then have n4: "n mod 4 = 0"
    by (simp add: chars_of_def length_encode_groups)
  have ch: "is_char (bin_table fl) (d ! i)" if "i < n" for i
  proof -
    have "d ! i = chars_of fl x ! i"
      using assms(1) that by (metis nth_take)
    with that n show ?thesis
      using is_char_chars nth_mem by metis
  qed
  obtain c d' where d: "d = c # d'"
    using assms(3) by (cases d) auto
  have t: "trim_ws (asc_table fl) d n = Some (d, n)"
    using tab.is_char_value(5) [OF ch [of 0]] assms(2) d by simp
  have e: "strip_end (asc_table fl) d n = n"
    using tab.is_char_value(2) [OF ch [of "n - 1"]] assms(2) by simp
  show ?thesis
    using t e n4 assms tab.decode_encoded [of fl x]
    by (simp add: evp_decodeblock_int_unfold Let_def chars_of_def mem_write_def del: strip_end.simps)
qed

lemma length_pads: "length x + pads x = 3 * ((length x + 2) div 3)"
proof -
  have "length x mod 3 = 0 \<or> length x mod 3 = 1 \<or> length x mod 3 = 2"
    by linarith
  then show ?thesis
    unfolding pads_def by (elim disjE) (simp_all, presburger+)
qed

lemma length_chars: "length (chars_of fl bs) = 4 * ((length bs + 2) div 3)"
  by (simp add: chars_of_def length_encode_groups)

text \<open>The number of characters before the padding.\<close>

definition body_length :: "u32 \<Rightarrow> bytes \<Rightarrow> nat" where
  "body_length fl bs = length (chars_of fl bs) - pads bs"

lemma char_is_pad:
  assumes "k < length (chars_of fl bs)"
  shows "chars_of fl bs ! k = PAD \<longleftrightarrow> body_length fl bs \<le> k"
proof -
  obtain body where b: "chars_of fl bs = body @ replicate (pads bs) PAD" "\<forall>c \<in> set body. \<exists>x. c = conv_bin2ascii x (bin_table fl)"
    using encode_groups_padding [of "bin_table fl" bs] by (auto simp: chars_of_def)
  then have "body_length fl bs = length body"
    by (simp add: body_length_def)
  moreover have "body ! k \<noteq> PAD" if "k < length body"
    using b(2) nth_mem [OF that] tab.char_not_pad [of _ fl] by auto
  ultimately show ?thesis
    using assms b(1) by (auto simp: nth_append)
qed

text \<open>A group boundary before the end is before the padding.\<close>

lemma boundary_before_padding:
  assumes "4 * a < length (chars_of fl bs)"
  shows "4 * a + 1 < body_length fl bs"
proof -
  have "a < (length bs + 2) div 3"
    using assms by (simp add: length_chars)
  then show ?thesis
    using pads_less [of bs] unfolding body_length_def length_chars by linarith
qed

text \<open>
  The state of the decoder when it has read the first \<open>k\<close> characters of the encoding of \<open>bs\<close>;
  \<open>W\<close> is the output of earlier calls.
\<close>

definition decoding :: "u32 \<Rightarrow> bytes \<Rightarrow> bytes \<Rightarrow> nat \<Rightarrow> dec_st \<Rightarrow> bool" where
  "decoding fl bs W k s \<longleftrightarrow> (\<exists>a. 4 * a + ds_n s = k \<and> k \<le> length (chars_of fl bs) \<and> ds_n s \<le> 64 \<and> length (ds_d s) = 80
     \<and> take (ds_n s) (ds_d s) = seg (chars_of fl bs) (4 * a) (ds_n s)
     \<and> (ds_n s > 0 \<or> k < length (chars_of fl bs) \<longrightarrow> ds_eof s = k - body_length fl bs) \<and> ds_eof s \<le> 2
     \<and> W @ take (ds_ret s) (ds_out s) = take (3 * a) bs \<and> ds_ret s \<le> length (ds_out s))"

lemma decode_saved_groups:
  assumes "decoding fl bs W k s" "0 < ds_n s" "ds_n s mod 4 = 0" "ds_ret s + 3 * (ds_n s div 4) \<le> length (ds_out s)"
  shows "\<exists>s'. decode_saved fl s = Some (True, s') \<and> decoding fl bs W k s' \<and> ds_n s' = 0"
proof -
  obtain a where a: "4 * a + ds_n s = k" "k \<le> length (chars_of fl bs)" "ds_n s \<le> 64" "length (ds_d s) = 80"
      "take (ds_n s) (ds_d s) = seg (chars_of fl bs) (4 * a) (ds_n s)" "ds_eof s = k - body_length fl bs" "ds_eof s \<le> 2"
      "W @ take (ds_ret s) (ds_out s) = take (3 * a) bs" "ds_ret s \<le> length (ds_out s)"
    using assms(1, 2) by (auto simp: decoding_def)
  obtain b where b: "ds_n s = 4 * b"
    using assms(3) by (metis mod_0_imp_dvd dvdE)
  define x where "x = seg bs (3 * a) (3 * b)"
  have x: "take (ds_n s) (ds_d s) = chars_of fl x"
    using a(5) b by (simp add: x_def seg_chars)
  have "length (take (ds_n s) (ds_d s)) = 4 * b"
    using a(3, 4) b by simp
  then have "(length x + 2) div 3 = b"
    using x by (simp add: length_chars)
  then have lx: "length x + pads x = 3 * b"
    by (simp add: length_pads)
  have k: "k = 4 * (a + b)" "0 < b"
    using a(1) b assms(2) by simp_all
  have eof: "ds_eof s = pads x"
  proof (cases "k < length (chars_of fl bs)")
    case True
    then have "a + b < (length bs + 2) div 3"
      by (simp add: k length_chars)
    then have "length x = 3 * b"
      by (simp add: x_def)
    moreover have "ds_eof s = 0"
      using boundary_before_padding [of "a + b" fl bs] True a(6) k by simp
    ultimately show ?thesis
      using lx by simp
  next
    case False
    then have e: "(length bs + 2) div 3 = a + b"
      using a(2) k by (simp add: length_chars)
    then have "length x = length bs - 3 * a" "3 * a \<le> length bs"
      using k(2) by (simp_all add: x_def)
    then have "length bs = length x + a * 3"
      by simp
    then have "pads x = pads bs"
      unfolding pads_def by (simp only: mod_mult_self1)
    moreover have "ds_eof s = pads bs"
      using a(6) e k pads_less [of bs] by (simp add: body_length_def length_chars)
    ultimately show ?thesis by simp
  qed
  obtain out' where o: "evp_decodeblock_int (Some fl) (ds_out s) (ds_ret s) (ds_d s) (ds_n s) = Some (int (3 * b), out')"
      "length out' = length (ds_out s)" "take (ds_ret s + length x) out' = take (ds_ret s) (ds_out s) @ x"
    using decodeblock_groups [OF x assms(2), of "ds_ret s" "ds_out s"] a(3, 4) assms(4) lx b by auto
  define s' where "s' = s\<lparr>ds_n := 0, ds_out := out', ds_ret := ds_ret s + length x\<rparr>"
  have "decode_saved fl s = Some (True, s')"
    using o(1) lx eof by (simp add: decode_saved_def s'_def)
  moreover have "decoding fl bs W k s'"
  proof -
    have "W @ take (ds_ret s + length x) out' = take (3 * (a + b)) bs"
      using a(8) o(3) by (simp add: x_def seg_def take_add distrib_left flip: append_assoc)
    moreover have "ds_ret s + length x \<le> length out'"
      using o(2) assms(4) lx b by simp
    ultimately show ?thesis
      unfolding decoding_def s'_def using a k by (intro exI [of _ "a + b"]) simp
  qed
  ultimately show ?thesis
    by (auto simp: s'_def)
qed

text \<open>Reading one more character.\<close>

definition saves :: "byte \<Rightarrow> dec_st \<Rightarrow> dec_st" where
  "saves c s = (let s = (if c = PAD then s\<lparr>ds_eof := ds_eof s + 1\<rparr> else s) in s\<lparr>ds_d := (ds_d s)[ds_n s := c], ds_n := ds_n s + 1\<rparr>)"

lemma decoding_saves:
  assumes "decoding fl bs W k s" "ds_n s < 64" "k < length (chars_of fl bs)"
  shows "decoding fl bs W (Suc k) (saves (chars_of fl bs ! k) s)"
proof -
  define c where "c = chars_of fl bs ! k"
  obtain a where a: "4 * a + ds_n s = k" "length (ds_d s) = 80"
      "take (ds_n s) (ds_d s) = seg (chars_of fl bs) (4 * a) (ds_n s)" "ds_eof s = k - body_length fl bs"
      "W @ take (ds_ret s) (ds_out s) = take (3 * a) bs" "ds_ret s \<le> length (ds_out s)"
    using assms(1, 3) by (auto simp: decoding_def)
  have pad: "c = PAD \<longleftrightarrow> body_length fl bs \<le> k"
    using char_is_pad [OF assms(3)] by (simp add: c_def)
  have eof: "ds_eof (saves c s) = Suc k - body_length fl bs"
    using pad a(4) by (auto simp: saves_def Let_def)
  have "Suc k - body_length fl bs \<le> 2"
    using assms(3) pads_less [of bs] by (simp add: body_length_def)
  moreover have "take (Suc (ds_n s)) ((ds_d s)[ds_n s := c]) = seg (chars_of fl bs) (4 * a) (Suc (ds_n s))"
  proof -
    have "take (Suc (ds_n s)) ((ds_d s)[ds_n s := c]) = take (ds_n s) (ds_d s) @ [c]"
      using assms(2) a(2) by (simp add: take_Suc_conv_app_nth)
    also have "\<dots> = seg (chars_of fl bs) (4 * a) (Suc (ds_n s))"
      using a(1, 3) assms(3) by (simp add: seg_def c_def take_Suc_conv_app_nth)
    finally show ?thesis .
  qed
  ultimately show ?thesis
    unfolding decoding_def c_def [symmetric] using a assms eof
    by (intro exI [of _ a]) (cases "c = PAD"; simp add: saves_def Let_def)
qed

lemma decode_loop_char:
  assumes "is_char (bin_table fl) c" "c = PAD \<or> ds_eof s = 0" "ds_eof (saves c s) \<le> 2" "ds_n s < 64"
  shows "decode_loop fl (c # inp) s =
    (if ds_n (saves c s) = 64 then
       (case decode_saved fl (saves c s) of
          None \<Rightarrow> (None, saves c s)
        | Some (ok, s) \<Rightarrow> if ok then decode_loop fl inp s else (Some (Inl ()), s))
     else decode_loop fl inp (saves c s))"
  using tab.is_char_value [OF assms(1)] assms(2-4)
  by (auto simp: decode_loop_unfold saves_def Let_def split: option.split)

lemma decode_loop_nl:
  assumes "ds_eof s \<le> 2" "ds_n s < 64"
  shows "decode_loop fl (NL # inp) s = decode_loop fl inp s"
  using assms tab.dec_nl [of fl] by (simp add: decode_loop_unfold Let_def B64_NOT_BASE64_def)

lemma decode_loop_groups:
  assumes "decoding fl bs W k s" "dec_room (length inp) s"
    and "filter (\<lambda>c. c \<noteq> NL) inp = seg (chars_of fl bs) k j" "k + j \<le> length (chars_of fl bs)"
  shows "\<exists>s'. decode_loop fl inp s = (Some (Inr False), s') \<and> decoding fl bs W (k + j) s' \<and> dec_room 0 s'"
  using assms
proof (induction inp arbitrary: k j s)
  case Nil
  have "length (seg (chars_of fl bs) k j) = j"
    using Nil.prems(4) by simp
  then have "j = 0"
    using Nil.prems(3) by (metis filter.simps(1) list.size(3))
  then show ?case
    using Nil.prems by simp
next
  case (Cons c inp)
  have n: "ds_n s < 64" "ds_eof s \<le> 2"
    using Cons.prems(1, 2) by (auto simp: dec_room_def decoding_def)
  show ?case
  proof (cases "c = NL")
    case True
    have "dec_room (length inp) s"
      using Cons.prems(2) dec_room_mono by fastforce
    then show ?thesis
      using Cons.IH [OF Cons.prems(1) _ _ Cons.prems(4)] Cons.prems(3) True decode_loop_nl [OF n(2, 1)] by simp
  next
    case False
    then have sg: "seg (chars_of fl bs) k j = c # filter (\<lambda>c. c \<noteq> NL) inp"
      using Cons.prems(3) by simp
    then obtain j' where j: "j = Suc j'" "k < length (chars_of fl bs)"
      using Cons.prems(4) by (cases j) (auto simp: seg_def)
    then have c: "c = chars_of fl bs ! k" "filter (\<lambda>c. c \<noteq> NL) inp = seg (chars_of fl bs) (Suc k) j'"
      using sg by (simp_all add: seg_def Cons_nth_drop_Suc [symmetric])
    have ic: "is_char (bin_table fl) c"
      using is_char_chars [of c fl bs] nth_mem [OF j(2)] c(1) by simp
    have pad: "c = PAD \<or> ds_eof s = 0"
      using char_is_pad [OF j(2)] Cons.prems(1) j(2) c(1) by (auto simp: decoding_def)
    define s2 where "s2 = saves c s"
    have d2: "decoding fl bs W (Suc k) s2"
      unfolding s2_def c(1) by (rule decoding_saves [OF Cons.prems(1) n(1) j(2)])
    have r2: "ds_n s2 = Suc (ds_n s)" "length (ds_d s2) = 80" "ds_eof s2 \<le> 2"
        "ds_ret s2 + 3 * ((ds_n s2 + length inp) div 4) \<le> length (ds_out s2)"
      using Cons.prems(2) d2 by (auto simp: s2_def saves_def Let_def dec_room_def decoding_def)
    have k: "Suc k + j' \<le> length (chars_of fl bs)" "Suc k + j' = k + j"
      using Cons.prems(4) j(1) by simp_all
    show ?thesis
    proof (cases "ds_n s2 = 64")
      case True
      have "ds_ret s2 + 3 * (ds_n s2 div 4) \<le> length (ds_out s2)"
        using r2(4) True div_le_mono [of 64 "64 + length inp" 4] by simp
      then obtain s3 where s3: "decode_saved fl s2 = Some (True, s3)" "decoding fl bs W (Suc k) s3" "ds_n s3 = 0"
        using decode_saved_groups [OF d2] True by auto
      have "dec_room (length inp) s3"
        using decode_saved_safe [of s2 "length inp" fl] True r2 s3 by (auto simp: dec_room_def)
      from Cons.IH [OF s3(2) this c(2) k(1)] show ?thesis
        using decode_loop_char [OF ic pad, of inp] r2(3) n(1) True s3(1) k(2) by (auto simp: s2_def)
    next
      case no: False
      then have "dec_room (length inp) s2"
        using r2 n(1) by (simp add: dec_room_def)
      from Cons.IH [OF d2 this c(2) k(1)] show ?thesis
        using decode_loop_char [OF ic pad, of inp] r2(3) n(1) no k(2) by (auto simp: s2_def)
    qed
  qed
qed

text \<open>A context between two calls of the decoder.\<close>

definition decode_at :: "u32 \<Rightarrow> bytes \<Rightarrow> bytes \<Rightarrow> nat \<Rightarrow> EVP_ENCODE_CTX \<Rightarrow> bool" where
  "decode_at fl bs W k ctx \<longleftrightarrow> decode_ok ctx \<and> ctx_flags ctx = fl \<and> k \<le> length (chars_of fl bs)
     \<and> (\<exists>a. 4 * a + ctx_num ctx = k \<and> take (ctx_num ctx) (enc_data ctx) = seg (chars_of fl bs) (4 * a) (ctx_num ctx) \<and> W = take (3 * a) bs)"

lemma nat_and_3: "(n :: nat) AND 3 = n mod 4"
  using take_bit_eq_mask [of 2 n] by (simp add: take_bit_eq_mod mask_eq_exp_minus_1)

lemma decoding_start:
  assumes "decode_at fl bs W k ctx"
  shows "decoding fl bs W k \<lparr>ds_n = ctx_num ctx, ds_d = enc_data ctx,
    ds_eof = (if ctx_num ctx > 0 \<and> enc_data ctx ! (ctx_num ctx - 1) = PAD
      then if ctx_num ctx > 1 \<and> enc_data ctx ! (ctx_num ctx - 2) = PAD then 2 else 1 else 0), ds_ret = 0, ds_out = out\<rparr>"
proof -
  obtain a where a: "4 * a + ctx_num ctx = k" "take (ctx_num ctx) (enc_data ctx) = seg (chars_of fl bs) (4 * a) (ctx_num ctx)"
      "W = take (3 * a) bs" and k: "k \<le> length (chars_of fl bs)" and ok: "ctx_num ctx < 64" "length (enc_data ctx) = 80"
    using assms by (auto simp: decode_at_def decode_ok_def)
  have pad: "enc_data ctx ! i = PAD \<longleftrightarrow> body_length fl bs \<le> 4 * a + i" if "i < ctx_num ctx" for i
  proof -
    have "enc_data ctx ! i = seg (chars_of fl bs) (4 * a) (ctx_num ctx) ! i"
      using that a(2) by (metis nth_take)
    also have "\<dots> = chars_of fl bs ! (4 * a + i)"
      using that a(1) k by (simp add: seg_def)
    finally show ?thesis
      using char_is_pad [of "4 * a + i" fl bs] that a(1) k by simp
  qed
  have two: "k - body_length fl bs \<le> 2"
    using k pads_less [of bs] by (simp add: body_length_def)
  have first: "4 * a < length (chars_of fl bs) \<Longrightarrow> 4 * a + 1 < body_length fl bs"
    by (rule boundary_before_padding)
  have eof: "ctx_num ctx > 0 \<or> k < length (chars_of fl bs) \<longrightarrow>
      (if ctx_num ctx > 0 \<and> enc_data ctx ! (ctx_num ctx - 1) = PAD
       then if ctx_num ctx > 1 \<and> enc_data ctx ! (ctx_num ctx - 2) = PAD then 2 else 1 else 0) = k - body_length fl bs"
  proof -
    consider "ctx_num ctx = 0" | "ctx_num ctx = 1" | "1 < ctx_num ctx" by linarith
    then show ?thesis
    proof cases
      case 1
      with first a(1) show ?thesis by auto
    next
      case 2
      with first a(1) k pad [of 0] show ?thesis by auto
    next
      case 3
      then have "enc_data ctx ! (ctx_num ctx - 1) = PAD \<longleftrightarrow> body_length fl bs \<le> k - 1"
          "enc_data ctx ! (ctx_num ctx - 2) = PAD \<longleftrightarrow> body_length fl bs \<le> k - 2"
        using pad [of "ctx_num ctx - 1"] pad [of "ctx_num ctx - 2"] a(1) by simp_all
      with 3 a(1) two show ?thesis by auto
    qed
  qed
  show ?thesis
    unfolding decoding_def using a k ok eof by (intro exI [of _ a]) simp
qed

lemma decode_update_groups:
  assumes "decode_at fl bs W k ctx" "inp \<noteq> []" "EVP_DECODE_LENGTH (length inp) \<le> length out"
    and "filter (\<lambda>c. c \<noteq> NL) inp = seg (chars_of fl bs) k j" "k + j \<le> length (chars_of fl bs)"
  shows "\<exists>rv outl out' ctx'. EVP_DecodeUpdate ctx out inp = Some (rv, outl, out', ctx') \<and> 0 \<le> rv
    \<and> decode_at fl bs (W @ take outl out') (k + j) ctx' \<and> (ctx_num ctx' mod 4 = 0 \<longrightarrow> ctx_num ctx' = 0)"
proof -
  define s where "s = \<lparr>ds_n = ctx_num ctx, ds_d = enc_data ctx,
    ds_eof = (if ctx_num ctx > 0 \<and> enc_data ctx ! (ctx_num ctx - 1) = PAD
      then if ctx_num ctx > 1 \<and> enc_data ctx ! (ctx_num ctx - 2) = PAD then 2 else 1 else 0), ds_ret = 0, ds_out = out\<rparr>"
  have ok: "ctx_num ctx < 64" "length (enc_data ctx) = 80" "ctx_flags ctx = fl"
    using assms(1) by (simp_all add: decode_at_def decode_ok_def)
  have room: "dec_room (length inp) s"
    using assms(3) decode_length_enough [OF ok(1), of "length inp"] ok by (simp add: dec_room_def s_def)
  obtain s1 where s1: "decode_loop fl inp s = (Some (Inr False), s1)" "decoding fl bs W (k + j) s1" "dec_room 0 s1"
    using decode_loop_groups [OF _ room assms(4, 5)] decoding_start [OF assms(1)] by (auto simp: s_def)
  obtain s2 where s2: "(if ds_n s1 > 0 then
                 if ds_n s1 AND 3 = 0 then decode_saved fl s1
                 else if False then Some (False, s1) else Some (True, s1)
               else Some (True, s1)) = Some (True, s2)" "decoding fl bs W (k + j) s2" "ds_n s2 < 64"
      "ds_n s2 mod 4 = 0 \<longrightarrow> ds_n s2 = 0"
  proof (cases "0 < ds_n s1 \<and> ds_n s1 mod 4 = 0")
    case True
    then obtain s2 where "decode_saved fl s1 = Some (True, s2)" "decoding fl bs W (k + j) s2" "ds_n s2 = 0"
      using decode_saved_groups [OF s1(2)] s1(3) by (auto simp: dec_room_def)
    with True show thesis
      by (intro that [of s2]) (auto simp: nat_and_3)
  next
    case False
    with s1 show thesis
      by (intro that [of s1]) (auto simp: nat_and_3 dec_room_def)
  qed
  define ctx' where "ctx' = ctx\<lparr>enc_data := ds_d s2, ctx_num := ds_n s2\<rparr>"
  have "EVP_DecodeUpdate ctx out inp = Some (if ds_n s2 = 0 \<and> ds_eof s2 > 0 then 0 else 1, ds_ret s2, ds_out s2, ctx')"
    unfolding EVP_DecodeUpdate_def Let_def pad_char s_def [symmetric] ok(3)
    using s1(1) s2(1) ok assms(2) by (simp add: ctx'_def)
  moreover have "decode_at fl bs (W @ take (ds_ret s2) (ds_out s2)) (k + j) ctx'"
    using s2(2, 3) ok(3) by (auto simp: decode_at_def decoding_def decode_ok_def ctx'_def)
  ultimately show ?thesis
    using s2(4) by (auto simp: ctx'_def)
qed

text \<open>A caller that decodes pieces into buffers of the documented size and joins what it gets.\<close>

fun decode_pieces :: "(nat \<Rightarrow> bytes) \<Rightarrow> EVP_ENCODE_CTX \<Rightarrow> bytes list \<Rightarrow> (bytes \<times> EVP_ENCODE_CTX) option" where
  "decode_pieces buf ctx [] = do {
     (ret, outl, out, ctx) \<leftarrow> EVP_DecodeFinal ctx (buf (EVP_DECODE_LENGTH 0));
     if ret < 0 then None else Some (take outl out, ctx)
   }"
| "decode_pieces buf ctx (p # ps) = do {
     (ret, outl, out, ctx) \<leftarrow> EVP_DecodeUpdate ctx (buf (EVP_DECODE_LENGTH (length p))) p;
     if ret < 0 then None
     else do {
       (t, ctx) \<leftarrow> decode_pieces buf ctx ps;
       Some (take outl out @ t, ctx)
     }
   }"

lemma decode_pieces_spec:
  assumes "\<And>n. length (buf n) = n" "\<forall>p \<in> set ps. p \<noteq> []" "decode_at fl bs W k ctx"
    and "filter (\<lambda>c. c \<noteq> NL) (concat ps) = drop k (chars_of fl bs)" "ctx_num ctx mod 4 = 0 \<longrightarrow> ctx_num ctx = 0"
  shows "\<exists>t ctx'. decode_pieces buf ctx ps = Some (t, ctx') \<and> W @ t = bs"
  using assms(2-)
proof (induction ps arbitrary: W k ctx)
  case Nil
  obtain a where a: "4 * a + ctx_num ctx = k" "W = take (3 * a) bs" "k \<le> length (chars_of fl bs)"
    using Nil.prems(2) by (auto simp: decode_at_def)
  have "k = length (chars_of fl bs)"
    using Nil.prems(3) a(3) by simp
  then have l: "4 * a + ctx_num ctx = 4 * ((length bs + 2) div 3)"
    using a(1) by (simp add: length_chars)
  then have "ctx_num ctx mod 4 = 0"
    by presburger
  with Nil.prems(4) have n: "ctx_num ctx = 0" by simp
  with l a(2) have "W = bs" by simp
  with n show ?case by (simp add: EVP_DecodeFinal_def)
next
  case (Cons p ps)
  define j where "j = length (filter (\<lambda>c. c \<noteq> NL) p)"
  have k: "k \<le> length (chars_of fl bs)"
    using Cons.prems(2) by (simp add: decode_at_def)
  have d: "drop k (chars_of fl bs) = filter (\<lambda>c. c \<noteq> NL) p @ filter (\<lambda>c. c \<noteq> NL) (concat ps)"
    using Cons.prems(3) by simp
  have f: "filter (\<lambda>c. c \<noteq> NL) p = seg (chars_of fl bs) k j" "filter (\<lambda>c. c \<noteq> NL) (concat ps) = drop (k + j) (chars_of fl bs)"
  proof -
    show "filter (\<lambda>c. c \<noteq> NL) p = seg (chars_of fl bs) k j"
      unfolding seg_def d by (simp add: j_def)
    have "drop (k + j) (chars_of fl bs) = drop j (drop k (chars_of fl bs))"
      by (simp add: add.commute)
    then show "filter (\<lambda>c. c \<noteq> NL) (concat ps) = drop (k + j) (chars_of fl bs)"
      unfolding d by (simp add: j_def)
  qed
  have "k + j \<le> length (chars_of fl bs)"
    using arg_cong [OF d, of length] k by (simp add: j_def)
  then obtain rv outl out' ctx1 where u: "EVP_DecodeUpdate ctx (buf (EVP_DECODE_LENGTH (length p))) p = Some (rv, outl, out', ctx1)"
      "0 \<le> rv" "decode_at fl bs (W @ take outl out') (k + j) ctx1" "ctx_num ctx1 mod 4 = 0 \<longrightarrow> ctx_num ctx1 = 0"
    using decode_update_groups [OF Cons.prems(2) _ _ f(1), of "buf (EVP_DECODE_LENGTH (length p))"] Cons.prems(1) assms(1) by auto
  then show ?case
    using Cons.IH [OF _ u(3) f(2) u(4)] Cons.prems(1) by auto
qed

text \<open>
  C7: Decoding inverts encoding. The text of any data, in either alphabet and with or without line
  breaks, cut into pieces in any way, is decoded by a sequence of calls into output buffers of the
  documented size: every call succeeds, and the output of all of them together is the data.
\<close>

theorem base64_roundtrip:
  assumes "length (enc_data ctx) = 80" "\<And>n. length (buf n) = n" "\<forall>p \<in> set ps. p \<noteq> []" "concat ps = text_of fl bs"
  shows "\<exists>ctx'. decode_pieces buf (evp_encode_ctx_set_flags (EVP_DecodeInit ctx) fl) ps = Some (bs, ctx')"
proof -
  have "decode_at fl bs [] 0 (evp_encode_ctx_set_flags (EVP_DecodeInit ctx) fl)"
    using assms(1) by (simp add: decode_at_def decode_ok_def evp_encode_ctx_set_flags_def EVP_DecodeInit_def)
  moreover have "ctx_num (evp_encode_ctx_set_flags (EVP_DecodeInit ctx) fl) = 0"
    by (simp add: evp_encode_ctx_set_flags_def EVP_DecodeInit_def)
  ultimately show ?thesis
    using decode_pieces_spec [OF assms(2, 3)] assms(4) filter_text_of [of fl bs] by fastforce
qed

section \<open>Examples\<close>

definition empty_ctx :: EVP_ENCODE_CTX where
  "empty_ctx = \<lparr>ctx_num = 0, ctx_length = 0, enc_data = replicate 80 0, line_num = 0, ctx_flags = 0\<rparr>"

lemma man_text: "text_of 0 [0x4d, 0x61, 0x6e, 0x4d] = map of_char ''TWFuTQ=='' @ [NL]"
proof -
  have "text_of 0 [0x4d, 0x61, 0x6e, 0x4d] = line_text 0 [0x4d, 0x61, 0x6e, 0x4d]"
    by (subst text_of.simps) simp
  also have "\<dots> = map of_char ''TWFuTQ=='' @ [NL]"
    by code_simp
  finally show ?thesis .
qed

theorem encode_streaming_witness:
  "\<exists>ctx'. encode_pieces (\<lambda>n. replicate n 0) (evp_encode_ctx_set_flags (EVP_EncodeInit empty_ctx) 0) [[0x4d], [0x61, 0x6e, 0x4d]]
     = Some (map of_char ''TWFuTQ=='' @ [NL], ctx')"
  using encode_streaming [of empty_ctx "\<lambda>n. replicate n 0" "[[0x4d], [0x61, 0x6e, 0x4d]]" 0] man_text
  by (simp add: empty_ctx_def)

theorem base64_roundtrip_witness:
  "\<exists>ctx'. decode_pieces (\<lambda>n. replicate n 0) (evp_encode_ctx_set_flags (EVP_DecodeInit empty_ctx) 0)
     [map of_char ''TWF'', map of_char ''uTQ='', [PAD, NL]] = Some ([0x4d, 0x61, 0x6e, 0x4d], ctx')"
  using base64_roundtrip [of empty_ctx "\<lambda>n. replicate n 0" "[map of_char ''TWF'', map of_char ''uTQ='', [PAD, NL]]" 0 "[0x4d, 0x61, 0x6e, 0x4d]"] man_text
  by (simp add: empty_ctx_def)

theorem decode_update_safe_witness:
  "\<exists>rv outl out' ctx'. EVP_DecodeUpdate empty_ctx (replicate 83 0) [0x54, 0x57] = Some (rv, outl, out', ctx') \<and> rv \<in> {- 1, 0, 1}
     \<and> outl \<le> 83 \<and> length out' = 83 \<and> decode_ok ctx'"
  using decode_update_safe [of empty_ctx "[0x54, 0x57]" "replicate 83 0"]
  by (simp add: empty_ctx_def decode_ok_def EVP_DECODE_LENGTH_def)

end
