(* ===== verification/Bio_Mem.thy ===== *)
theory Bio_Mem
  imports Buffer
begin

text \<open>
  The memory BIO, \<open>crypto/bio/bss_mem.c\<close>, and the generic read and write calls of
  \<open>crypto/bio/bio_lib.c\<close> on top of it (for BIOs without a callback). A memory BIO keeps the
  bytes in a \<open>BUF_MEM\<close> and a second struct \<open>readp\<close> that shares the block: for an ordinary BIO
  \<open>readp\<close> is the read cursor, for a read-only one (\<open>BIO_new_mem_buf\<close>) the roles are exchanged and
  \<open>readp\<close> keeps the initial state.

  The two data pointers are offsets into the block of \<open>bm_buf\<close>: \<open>bm_off\<close> for \<open>buf->data\<close> and
  \<open>rp_off\<close> for \<open>readp->data\<close>. As in Buffer, a result of None is an access outside the block, a
  reallocation through a pointer into the middle of a block, or a signed overflow.

  The locales \<open>byte_source\<close> and \<open>byte_sink\<close> are what the record layer relies on when it reads from
  and writes to a BIO.
\<close>

section \<open>Model\<close>

definition INT_MAX :: nat where
  "INT_MAX = 2 ^ 31 - 1"

record mem_bio =
  bm_buf :: BUF_MEM
  bm_off :: nat
  rp_off :: nat
  rp_length :: nat
  rp_max :: nat
  bm_rdonly :: bool
  bm_nonclear_rst :: bool
  bm_num :: int
  bm_retry_read :: bool
  bm_shutdown :: int
  bm_init :: bool
  bm_num_read :: u64
  bm_num_write :: u64

text \<open>\<open>*bbm->readp = *bbm->buf\<close> and the assignment back.\<close>

definition readp_from_buf :: "mem_bio \<Rightarrow> mem_bio" where
  "readp_from_buf b = b\<lparr>rp_off := bm_off b, rp_length := b_length (bm_buf b), rp_max := b_max (bm_buf b)\<rparr>"

definition buf_from_readp :: "mem_bio \<Rightarrow> mem_bio" where
  "buf_from_readp b =
     b\<lparr>bm_off := rp_off b, bm_buf := (bm_buf b)\<lparr>b_length := rp_length b, b_max := rp_max b\<rparr>\<rparr>"

definition empty_bio :: "BUF_MEM \<Rightarrow> mem_bio" where
  "empty_bio bm = \<lparr>bm_buf = bm, bm_off = 0, rp_off = 0, rp_length = 0, rp_max = 0, bm_rdonly = False,
     bm_nonclear_rst = False, bm_num = 0, bm_retry_read = False, bm_shutdown = 0, bm_init = False,
     bm_num_read = 0, bm_num_write = 0\<rparr>"

definition mem_init :: "allocator \<Rightarrow> u64 \<Rightarrow> mem_bio option" where
  "mem_init a flags =
     (case a 16 of None \<Rightarrow> None
      | Some _ \<Rightarrow>
        (case BUF_MEM_new_ex a flags of None \<Rightarrow> None
         | Some bm \<Rightarrow>
           (case a 32 of None \<Rightarrow> None
            | Some _ \<Rightarrow> Some ((readp_from_buf (empty_bio bm))
                \<lparr>bm_shutdown := 1, bm_init := True, bm_num := - 1\<rparr>))))"

definition mem_new :: "allocator \<Rightarrow> mem_bio option" where
  "mem_new a = mem_init a 0"

definition secmem_new :: "allocator \<Rightarrow> mem_bio option" where
  "secmem_new a = mem_init a BUF_MEM_FLAG_SECURE"

text \<open>\<open>BIO_new\<close> allocates the BIO itself; for \<open>len < 0\<close> the length is that of the string.\<close>

definition strlen :: "bytes \<Rightarrow> nat option" where
  "strlen m = (if 0 \<in> set m then Some (length (takeWhile (\<lambda>c. c \<noteq> 0) m)) else None)"

definition BIO_new_mem_buf :: "allocator \<Rightarrow> bytes option \<Rightarrow> int \<Rightarrow> mem_bio option option" where
  "BIO_new_mem_buf a buf len =
     (case buf of None \<Rightarrow> Some None
      | Some m \<Rightarrow> do {
          sz \<leftarrow> (if len < 0 then strlen m else Some (nat len));
          case mem_new a of
            None \<Rightarrow> Some None
          | Some b \<Rightarrow> Some (Some ((readp_from_buf
              (b\<lparr>bm_buf := (bm_buf b)\<lparr>b_data := Some m, b_length := sz, b_max := sz\<rparr>\<rparr>))
                \<lparr>bm_rdonly := True, bm_num := 0\<rparr>))
        })"

definition block :: "mem_bio \<Rightarrow> bytes" where
  "block b = (case b_data (bm_buf b) of None \<Rightarrow> [] | Some m \<Rightarrow> m)"

definition mem_buf_sync :: "mem_bio \<Rightarrow> mem_bio option" where
  "mem_buf_sync b =
     (if bm_init b \<and> rp_off b \<noteq> bm_off b then do {
        bs \<leftarrow> mem_read (block b) (rp_off b) (rp_length b);
        m \<leftarrow> mem_write (block b) (bm_off b) bs;
        Some (b\<lparr>bm_buf := (bm_buf b)\<lparr>b_data := Some m, b_length := rp_length b\<rparr>, rp_off := bm_off b\<rparr>)
      } else Some b)"

text \<open>
  \<open>cur_off\<close> and \<open>cur_length\<close> are \<open>bm->data\<close> and \<open>bm->length\<close> for the struct \<open>bm\<close> that holds the cursor.
\<close>

definition cur_off :: "mem_bio \<Rightarrow> nat" where
  "cur_off b = (if bm_rdonly b then bm_off b else rp_off b)"

definition cur_length :: "mem_bio \<Rightarrow> nat" where
  "cur_length b = (if bm_rdonly b then b_length (bm_buf b) else rp_length b)"

definition cur_advance :: "nat \<Rightarrow> mem_bio \<Rightarrow> mem_bio" where
  "cur_advance n b =
     (if bm_rdonly b
      then b\<lparr>bm_off := bm_off b + n,
             bm_buf := (bm_buf b)\<lparr>b_length := b_length (bm_buf b) - n, b_max := b_max (bm_buf b) - n\<rparr>\<rparr>
      else b\<lparr>rp_off := rp_off b + n, rp_length := rp_length b - n, rp_max := rp_max b - n\<rparr>)"

text \<open>The return value, the bytes copied to \<open>out\<close> (which is not NULL), and the BIO.\<close>

definition bio_mem_read :: "mem_bio \<Rightarrow> int \<Rightarrow> (int \<times> bytes \<times> mem_bio) option" where
  "bio_mem_read b outl =
     (let b = b\<lparr>bm_retry_read := False\<rparr>;
          ret = (if outl \<ge> 0 \<and> nat outl > cur_length b then int (cur_length b) else outl)
      in if ret > 0 then do {
           bs \<leftarrow> mem_read (block b) (cur_off b) (nat ret);
           Some (ret, bs, cur_advance (nat ret) b)
         }
         else if cur_length b = 0 then Some (bm_num b, [], b\<lparr>bm_retry_read := bm_num b \<noteq> 0\<rparr>)
         else Some (ret, [], b))"

definition bio_mem_write :: "allocator \<Rightarrow> allocator \<Rightarrow> mem_bio \<Rightarrow> bytes option \<Rightarrow> (int \<times> mem_bio) option" where
  "bio_mem_write a sec b inp =
     (case inp of None \<Rightarrow> Some (- 1, b)
      | Some bs \<Rightarrow>
          if bm_rdonly b then Some (- 1, b)
          else let b = b\<lparr>bm_retry_read := False\<rparr> in
          if bs = [] then Some (0, b)
          else do {
            let blen = rp_length b;
            b \<leftarrow> mem_buf_sync b;
            if blen + length bs > INT_MAX \<or> bm_off b \<noteq> 0 then None
            else do {
              (ok, buf) \<leftarrow> BUF_MEM_grow_clean a sec (bm_buf b) (blen + length bs);
              if ok = 0 then Some (- 1, b\<lparr>bm_buf := buf\<rparr>)
              else do {
                m \<leftarrow> mem_write (block (b\<lparr>bm_buf := buf\<rparr>)) blen bs;
                Some (int (length bs), readp_from_buf (b\<lparr>bm_buf := buf\<lparr>b_data := Some m\<rparr>\<rparr>))
              }
            }
          })"

datatype bio_ctrl_cmd = CTRL_RESET | CTRL_EOF | C_SET_BUF_MEM_EOF_RETURN int | CTRL_INFO
  | C_SET_BUF_MEM BUF_MEM int | C_GET_BUF_MEM_PTR | CTRL_GET_CLOSE | CTRL_SET_CLOSE int
  | CTRL_WPENDING | CTRL_PENDING | CTRL_DUP | CTRL_FLUSH | CTRL_PUSH | CTRL_POP | CTRL_OTHER

fun bio_mem_ctrl :: "mem_bio \<Rightarrow> bio_ctrl_cmd \<Rightarrow> (int \<times> mem_bio) option" where
  "bio_mem_ctrl b CTRL_RESET =
     (case b_data (bm_buf b) of None \<Rightarrow> Some (1, b)
      | Some m \<Rightarrow>
          if \<not> bm_rdonly b then
            if \<not> bm_nonclear_rst b then do {
              m \<leftarrow> memset m (bm_off b) 0 (b_max (bm_buf b));
              Some (1, readp_from_buf (b\<lparr>bm_buf := (bm_buf b)\<lparr>b_data := Some m, b_length := 0\<rparr>\<rparr>))
            } else Some (1, readp_from_buf b)
          else Some (1, buf_from_readp b))"
| "bio_mem_ctrl b CTRL_EOF = Some (of_bool (cur_length b = 0), b)"
| "bio_mem_ctrl b (C_SET_BUF_MEM_EOF_RETURN n) = Some (1, b\<lparr>bm_num := n\<rparr>)"
| "bio_mem_ctrl b CTRL_INFO = Some (int (cur_length b), b)"
| "bio_mem_ctrl b (C_SET_BUF_MEM bm n) =
     Some (1, readp_from_buf (b\<lparr>bm_shutdown := n, bm_buf := bm, bm_off := 0\<rparr>))"
| "bio_mem_ctrl b C_GET_BUF_MEM_PTR =
     (if \<not> bm_rdonly b then map_option (Pair 1) (mem_buf_sync b) else Some (1, b))"
| "bio_mem_ctrl b CTRL_GET_CLOSE = Some (bm_shutdown b, b)"
| "bio_mem_ctrl b (CTRL_SET_CLOSE n) = Some (1, b\<lparr>bm_shutdown := n\<rparr>)"
| "bio_mem_ctrl b CTRL_WPENDING = Some (0, b)"
| "bio_mem_ctrl b CTRL_PENDING = Some (int (cur_length b), b)"
| "bio_mem_ctrl b CTRL_DUP = Some (1, b)"
| "bio_mem_ctrl b CTRL_FLUSH = Some (1, b)"
| "bio_mem_ctrl b CTRL_PUSH = Some (0, b)"
| "bio_mem_ctrl b CTRL_POP = Some (0, b)"
| "bio_mem_ctrl b CTRL_OTHER = Some (0, b)"

text \<open>
  The loop of \<open>mem_gets\<close> counts the bytes up to and including the first newline, at most \<open>j\<close>.
\<close>

function gets_count :: "bytes \<Rightarrow> nat \<Rightarrow> nat \<Rightarrow> nat \<Rightarrow> nat option" where
  "gets_count m p i j =
     (if i < j then
        if p + i < length m then
          if m ! (p + i) = 10 then Some (i + 1) else gets_count m p (i + 1) j
        else None
      else Some i)"
  by pat_completeness auto

termination
  by (relation "measure (\<lambda>(m, p, i, j). j - i)") auto

declare gets_count.simps [simp del]

definition bio_mem_gets :: "mem_bio \<Rightarrow> int \<Rightarrow> (int \<times> bytes \<times> mem_bio) option" where
  "bio_mem_gets b sz =
     (let b = b\<lparr>bm_retry_read := False\<rparr>;
          j = sint (of_nat (cur_length b) :: 32 word);
          j = (if sz - 1 < j then sz - 1 else j)
      in if j \<le> 0 then Some (0, [0], b)
         else do {
           i \<leftarrow> gets_count (block b) (cur_off b) 0 (nat j);
           (ret, bs, b) \<leftarrow> bio_mem_read b (int i);
           Some (ret, if ret > 0 then bs @ [0] else bs, b)
         })"

definition bio_mem_puts :: "allocator \<Rightarrow> allocator \<Rightarrow> mem_bio \<Rightarrow> bytes \<Rightarrow> (int \<times> mem_bio) option" where
  "bio_mem_puts a sec b str = do {
     n \<leftarrow> strlen str;
     bio_mem_write a sec b (Some (take n str))
   }"

text \<open>
  \<open>BIO_read\<close> and \<open>BIO_write\<close> with the conversion functions of \<open>bio_meth.c\<close>, for a BIO whose method
  is the memory method and that has no callback.
\<close>

definition bread_conv :: "mem_bio \<Rightarrow> nat \<Rightarrow> (int \<times> nat \<times> bytes \<times> mem_bio) option" where
  "bread_conv b datal = do {
     let datal = (if datal > INT_MAX then INT_MAX else datal);
     (ret, bs, b) \<leftarrow> bio_mem_read b (int datal);
     Some (if ret \<le> 0 then (ret, 0, bs, b) else (1, nat ret, bs, b))
   }"

definition bio_read_intern :: "mem_bio \<Rightarrow> nat \<Rightarrow> (int \<times> nat \<times> bytes \<times> mem_bio) option" where
  "bio_read_intern b dlen =
     (if \<not> bm_init b then Some (- 2, 0, [], b)
      else do {
        (ret, n, bs, b) \<leftarrow> bread_conv b dlen;
        let b = (if ret > 0 then b\<lparr>bm_num_read := bm_num_read b + of_nat n\<rparr> else b);
        if ret > 0 \<and> n > dlen then Some (- 1, n, bs, b) else Some (ret, n, bs, b)
      })"

definition BIO_read :: "mem_bio \<Rightarrow> int \<Rightarrow> (int \<times> bytes \<times> mem_bio) option" where
  "BIO_read b dlen =
     (if dlen < 0 then Some (0, [], b)
      else do {
        (ret, n, bs, b) \<leftarrow> bio_read_intern b (nat dlen);
        Some (if ret > 0 then int n else ret, bs, b)
      })"

definition bwrite_conv ::
    "allocator \<Rightarrow> allocator \<Rightarrow> mem_bio \<Rightarrow> bytes \<Rightarrow> (int \<times> nat \<times> mem_bio) option" where
  "bwrite_conv a sec b bs = do {
     let bs = (if length bs > INT_MAX then take INT_MAX bs else bs);
     (ret, b) \<leftarrow> bio_mem_write a sec b (Some bs);
     Some (if ret \<le> 0 then (ret, 0, b) else (1, nat ret, b))
   }"

definition bio_write_intern ::
    "allocator \<Rightarrow> allocator \<Rightarrow> mem_bio \<Rightarrow> bytes \<Rightarrow> (int \<times> nat \<times> mem_bio) option" where
  "bio_write_intern a sec b bs =
     (if \<not> bm_init b then Some (- 2, 0, b)
      else do {
        (ret, n, b) \<leftarrow> bwrite_conv a sec b bs;
        Some (ret, n, if ret > 0 then b\<lparr>bm_num_write := bm_num_write b + of_nat n\<rparr> else b)
      })"

definition BIO_write :: "allocator \<Rightarrow> allocator \<Rightarrow> mem_bio \<Rightarrow> bytes \<Rightarrow> (int \<times> mem_bio) option" where
  "BIO_write a sec b bs = do {
     (ret, n, b) \<leftarrow> bio_write_intern a sec b bs;
     Some (if ret > 0 then int n else ret, b)
   }"

section \<open>The byte queue a memory BIO stands for\<close>

definition pending :: "mem_bio \<Rightarrow> bytes" where
  "pending b = seg (block b) (cur_off b) (cur_length b)"

definition mem_bio_ok :: "mem_bio \<Rightarrow> bool" where
  "mem_bio_ok b \<longleftrightarrow> bm_init b \<and> bm_num b \<le> 0 \<and>
     (if bm_rdonly b
      then bm_off b + b_length (bm_buf b) = rp_off b + rp_length b \<and> rp_off b \<le> bm_off b \<and>
           rp_off b + rp_length b \<le> length (block b)
      else buf_ok (bm_buf b) \<and> bm_off b = 0 \<and> rp_off b + rp_length b = b_length (bm_buf b))"

lemma cur_in_block: "mem_bio_ok b \<Longrightarrow> cur_off b + cur_length b \<le> length (block b)"
  by (auto simp: mem_bio_ok_def cur_off_def cur_length_def block_def buf_ok_def
      split: if_splits option.splits)

lemma length_pending: "mem_bio_ok b \<Longrightarrow> length (pending b) = cur_length b"
  using cur_in_block [of b] by (simp add: pending_def)

lemma pending_writable: "\<not> bm_rdonly b \<Longrightarrow> pending b = seg (block b) (rp_off b) (rp_length b)"
  by (simp add: pending_def cur_off_def cur_length_def)

lemma cur_retry [simp]:
  "cur_off (b\<lparr>bm_retry_read := v\<rparr>) = cur_off b" "cur_length (b\<lparr>bm_retry_read := v\<rparr>) = cur_length b"
  "block (b\<lparr>bm_retry_read := v\<rparr>) = block b" "pending (b\<lparr>bm_retry_read := v\<rparr>) = pending b"
  "mem_bio_ok (b\<lparr>bm_retry_read := v\<rparr>) = mem_bio_ok b"
  by (simp_all add: cur_off_def cur_length_def block_def pending_def mem_bio_ok_def)

lemma cur_num_read [simp]:
  "pending (b\<lparr>bm_num_read := v\<rparr>) = pending b" "mem_bio_ok (b\<lparr>bm_num_read := v\<rparr>) = mem_bio_ok b"
  "pending (b\<lparr>bm_num_write := v\<rparr>) = pending b" "mem_bio_ok (b\<lparr>bm_num_write := v\<rparr>) = mem_bio_ok b"
  by (simp_all add: cur_off_def cur_length_def block_def pending_def mem_bio_ok_def)

lemma cur_advance_spec:
  assumes "mem_bio_ok b" and "n \<le> cur_length b"
  shows "mem_bio_ok (cur_advance n b)" and "pending (cur_advance n b) = drop n (pending b)"
proof -
  show "mem_bio_ok (cur_advance n b)"
    using assms by (auto simp: mem_bio_ok_def cur_advance_def cur_length_def block_def split: if_splits)
  have "block (cur_advance n b) = block b" "cur_off (cur_advance n b) = cur_off b + n"
    "cur_length (cur_advance n b) = cur_length b - n"
    by (simp_all add: cur_advance_def block_def cur_off_def cur_length_def)
  then show "pending (cur_advance n b) = drop n (pending b)"
    by (simp add: pending_def seg_def drop_take add.commute)
qed

lemma bio_mem_read_spec:
  assumes "mem_bio_ok b" and "0 < n"
  shows "\<exists>ret bs b'. bio_mem_read b n = Some (ret, bs, b') \<and> mem_bio_ok b' \<and>
    (if pending b = [] then ret = bm_num b \<and> bs = [] \<and> pending b' = []
     else ret = min n (int (length (pending b))) \<and> bs = take (nat n) (pending b) \<and>
          pending b' = drop (nat n) (pending b))"
proof (cases "pending b = []")
  case True
  then have "cur_length b = 0"
    using length_pending [OF assms(1)] by simp
  then show ?thesis
    using assms True by (simp add: bio_mem_read_def Let_def)
next
  case False
  let ?b = "b\<lparr>bm_retry_read := False\<rparr>"
  let ?m = "min (nat n) (cur_length b)"
  have pos: "0 < cur_length b"
    using False length_pending [OF assms(1)] by (metis length_greater_0_conv)
  have "mem_read (block b) (cur_off b) ?m = Some (take ?m (pending b))"
    using cur_in_block [OF assms(1)] by (simp add: mem_read_def pending_def seg_def)
  then have "bio_mem_read b n = Some (int ?m, take ?m (pending b), cur_advance ?m ?b)"
    using pos assms(2)
    by (cases "cur_length b < nat n") (simp_all add: bio_mem_read_def Let_def min_def split: if_splits)
  moreover have "take ?m (pending b) = take (nat n) (pending b)"
    "drop ?m (pending b) = drop (nat n) (pending b)"
    using length_pending [OF assms(1)] by (auto simp: min_def)
  moreover have "mem_bio_ok (cur_advance ?m ?b)" "pending (cur_advance ?m ?b) = drop ?m (pending b)"
    using cur_advance_spec [of ?b ?m] assms(1) by simp_all
  moreover have "int ?m = min n (int (length (pending b)))"
    using assms(2) length_pending [OF assms(1)] by simp
  ultimately show ?thesis
    using False by metis
qed

lemma mem_buf_sync_spec:
  assumes "mem_bio_ok b" and "\<not> bm_rdonly b"
  shows "\<exists>b'. mem_buf_sync b = Some b' \<and> mem_bio_ok b' \<and> pending b' = pending b \<and>
    rp_off b' = 0 \<and> rp_length b' = rp_length b \<and> contents (bm_buf b') = pending b \<and>
    b_length (bm_buf b') = rp_length b \<and> \<not> bm_rdonly b' \<and> bm_off b' = 0"
proof (cases "rp_off b = 0")
  case True
  then show ?thesis
    using assms by (auto simp: mem_buf_sync_def mem_bio_ok_def pending_def contents_def cur_off_def
        cur_length_def block_def buf_ok_def split: option.splits)
next
  case False
  have ok: "buf_ok (bm_buf b)" "bm_off b = 0" "rp_off b + rp_length b = b_length (bm_buf b)" "bm_init b"
    "bm_num b \<le> 0"
    using assms by (simp_all add: mem_bio_ok_def)
  then obtain m where m: "b_data (bm_buf b) = Some m" "length m = b_max (bm_buf b)"
      "b_length (bm_buf b) \<le> b_max (bm_buf b)"
    using False by (auto simp: buf_ok_def split: option.splits)
  have rd: "mem_read m (rp_off b) (rp_length b) = Some (pending b)"
    using ok m assms(2) by (simp add: mem_read_def pending_def block_def cur_off_def cur_length_def)
  have len: "length (pending b) = rp_length b"
    using length_pending [OF assms(1)] assms(2) by (simp add: cur_length_def)
  have "mem_write m 0 (pending b) = Some (pending b @ drop (rp_length b) m)"
    using len ok m by (simp add: mem_write_def)
  then show ?thesis
    using False ok m rd len assms(2)
    by (simp add: mem_buf_sync_def block_def mem_bio_ok_def buf_ok_def pending_def [of "_ :: mem_bio"]
        contents_def cur_off_def cur_length_def)
qed

lemma bio_mem_write_spec:
  assumes "allocator_ok a" and "allocator_ok sec" and "mem_bio_ok b" and "\<not> bm_rdonly b"
    and "bs \<noteq> []" and "length (pending b) + length bs \<le> INT_MAX"
  shows "\<exists>ret b'. bio_mem_write a sec b (Some bs) = Some (ret, b') \<and> mem_bio_ok b' \<and>
    (ret = - 1 \<and> pending b' = pending b \<or>
     ret = int (length bs) \<and> pending b' = pending b @ bs)"
proof -
  let ?b = "b\<lparr>bm_retry_read := False\<rparr>"
  obtain c where c: "mem_buf_sync ?b = Some c" "mem_bio_ok c" "pending c = pending b" "rp_off c = 0"
    "rp_length c = rp_length b" "contents (bm_buf c) = pending b"
    "b_length (bm_buf c) = rp_length b" "\<not> bm_rdonly c" "bm_off c = 0"
    using mem_buf_sync_spec [of ?b] assms by auto
  have len: "length (pending b) = rp_length b"
    using length_pending [OF assms(3)] assms(4) by (simp add: cur_length_def)
  have bufc: "buf_ok (bm_buf c)" and c': "bm_init c" "bm_num c \<le> 0"
    using c(2,8) by (simp_all add: mem_bio_ok_def)
  let ?n = "rp_length b + length bs"
  have big: "b_length (bm_buf c) < ?n"
    using c(7) assms(5) by simp
  have eq: "BUF_MEM_grow_clean a sec (bm_buf c) ?n = BUF_MEM_grow a sec (bm_buf c) ?n"
    using big bufc by (auto simp: BUF_MEM_grow_clean_def BUF_MEM_grow_def buf_ok_def split: option.splits)
  obtain r buf where g: "BUF_MEM_grow_clean a sec (bm_buf c) ?n = Some (r, buf)" "buf_ok buf"
    and res: "r = 0 \<and> buf = bm_buf c \<or>
      r = ?n \<and> contents buf = resized (pending b) ?n \<and> b_length buf = ?n"
    using grow_spec [OF assms(1,2) bufc, of ?n] unfolding eq c(6) by auto
  show ?thesis
  proof (cases "r = 0")
    case True
    then have "buf = bm_buf c"
      using res big by auto
    then show ?thesis
      using True c assms g len
      by (auto simp: bio_mem_write_def Let_def intro!: exI [of _ "- 1"])
  next
    case False
    then have r: "r = ?n" "contents buf = resized (pending b) ?n" "b_length buf = ?n"
      using res by auto
    then obtain m where m: "b_data buf = Some m" "?n \<le> length m" "length m = b_max buf"
      using g(2) big by (auto simp: buf_ok_def split: option.splits)
    have tk: "take (rp_length b) m = pending b"
    proof -
      have "take (rp_length b) (contents buf) = pending b"
        using len unfolding r(2) by (simp add: resized_def)
      then show ?thesis
        using m r(3) by (simp add: contents_def min_def)
    qed
    have w: "mem_write m (rp_length b) bs = Some (pending b @ bs @ drop ?n m)"
      using m tk by (simp add: mem_write_def)
    let ?c = "readp_from_buf (c\<lparr>bm_buf := buf\<lparr>b_data := Some (pending b @ bs @ drop ?n m)\<rparr>\<rparr>)"
    have "bio_mem_write a sec b (Some bs) = Some (int (length bs), ?c)"
      using c g r m w assms len False by (simp add: bio_mem_write_def Let_def block_def)
    moreover have "mem_bio_ok ?c" "pending ?c = pending b @ bs"
      using c(8,9) c' m r len pending_writable [of ?c]
      by (simp_all add: mem_bio_ok_def readp_from_buf_def buf_ok_def block_def)
    ultimately show ?thesis by blast
  qed
qed

section \<open>The interface of a BIO that is read from\<close>

text \<open>
  \<open>avail\<close> is the sequence of bytes that reads will still deliver. A read takes a nonempty prefix of
  at most \<open>n\<close> bytes, or fails and takes nothing.
\<close>

locale byte_source =
  fixes rd :: "'b \<Rightarrow> int \<Rightarrow> (int \<times> bytes \<times> 'b) option"
    and avail :: "'b \<Rightarrow> bytes"
    and ok :: "'b \<Rightarrow> bool"
  assumes read_law: "ok b \<Longrightarrow> 0 < n \<Longrightarrow> n \<le> int INT_MAX \<Longrightarrow>
    \<exists>ret bs b'. rd b n = Some (ret, bs, b') \<and> ok b' \<and>
      (0 < ret \<and> int (length bs) = ret \<and> ret \<le> n \<and> avail b = bs @ avail b' \<or>
       ret \<le> 0 \<and> bs = [] \<and> avail b' = avail b)"

text \<open>A source that delivers whatever it has at once.\<close>

locale prompt_source = byte_source +
  assumes prompt: "ok b \<Longrightarrow> 0 < n \<Longrightarrow> n \<le> int INT_MAX \<Longrightarrow> avail b \<noteq> [] \<Longrightarrow> rd b n = Some (ret, bs, b') \<Longrightarrow>
    bs = take (nat n) (avail b)"

lemma BIO_read_spec:
  assumes "mem_bio_ok b" and "0 < n" and "n \<le> int INT_MAX"
  shows "\<exists>ret bs b'. BIO_read b n = Some (ret, bs, b') \<and> mem_bio_ok b' \<and>
    (if pending b = [] then ret = bm_num b \<and> bs = [] \<and> pending b' = []
     else ret = min n (int (length (pending b))) \<and> bs = take (nat n) (pending b) \<and>
          pending b' = drop (nat n) (pending b))"
proof -
  obtain ret bs b' where r: "bio_mem_read b n = Some (ret, bs, b')" "mem_bio_ok b'"
    and cases: "if pending b = [] then ret = bm_num b \<and> bs = [] \<and> pending b' = []
     else ret = min n (int (length (pending b))) \<and> bs = take (nat n) (pending b) \<and>
          pending b' = drop (nat n) (pending b)"
    using bio_mem_read_spec [OF assms(1,2)] by blast
  have init: "bm_init b" and num: "bm_num b \<le> 0"
    using assms(1) by (simp_all add: mem_bio_ok_def)
  have conv: "bread_conv b (nat n) = Some (if ret \<le> 0 then (ret, 0, bs, b') else (1, nat ret, bs, b'))"
    using assms(2,3) r(1) by (auto simp: bread_conv_def Let_def)
  show ?thesis
  proof (cases "pending b = []")
    case True
    then have "BIO_read b n = Some (ret, bs, b')"
      using conv init assms(2) num cases by (simp add: BIO_read_def bio_read_intern_def Let_def)
    then show ?thesis using r cases by auto
  next
    case False
    then have ret: "0 < ret" "ret \<le> n"
      using cases assms(2) by auto
    then have "BIO_read b n = Some (ret, bs, b'\<lparr>bm_num_read := bm_num_read b' + of_nat (nat ret)\<rparr>)"
      using conv init assms(2) by (simp add: BIO_read_def bio_read_intern_def Let_def)
    then show ?thesis using r cases False by auto
  qed
qed

interpretation membio: prompt_source BIO_read pending mem_bio_ok
proof
  fix b n assume b: "mem_bio_ok b" and n: "0 < n" "n \<le> int INT_MAX"
  then show "\<exists>ret bs b'. BIO_read b n = Some (ret, bs, b') \<and> mem_bio_ok b' \<and>
      (0 < ret \<and> int (length bs) = ret \<and> ret \<le> n \<and> pending b = bs @ pending b' \<or>
       ret \<le> 0 \<and> bs = [] \<and> pending b' = pending b)"
    using BIO_read_spec [OF b n] by (fastforce simp: mem_bio_ok_def min_def split: if_splits)
next
  fix b n ret bs b'
  assume "mem_bio_ok b" "0 < n" "n \<le> int INT_MAX" "pending b \<noteq> []" "BIO_read b n = Some (ret, bs, b')"
  then show "bs = take (nat n) (pending b)"
    using BIO_read_spec [of b n] by auto
qed

section \<open>Properties\<close>

text \<open>
  A history of a memory BIO: the bytes all the reads returned, the bytes the successful writes
  took, and the final state.
\<close>

datatype bio_op = OpRead int | OpWrite bytes

fun bio_run :: "allocator \<Rightarrow> allocator \<Rightarrow> mem_bio \<Rightarrow> bio_op list \<Rightarrow> (bytes \<times> bytes \<times> mem_bio) option" where
  "bio_run a sec b [] = Some ([], [], b)"
| "bio_run a sec b (OpRead n # ops) = do {
     (ret, bs, b) \<leftarrow> BIO_read b n;
     (out, inp, b) \<leftarrow> bio_run a sec b ops;
     Some (bs @ out, inp, b)
   }"
| "bio_run a sec b (OpWrite bs # ops) = do {
     (ret, b) \<leftarrow> BIO_write a sec b bs;
     (out, inp, b) \<leftarrow> bio_run a sec b ops;
     Some (out, (if ret > 0 then bs else []) @ inp, b)
   }"

fun bytes_written :: "bio_op list \<Rightarrow> nat" where
  "bytes_written [] = 0"
| "bytes_written (OpRead n # ops) = bytes_written ops"
| "bytes_written (OpWrite bs # ops) = length bs + bytes_written ops"

fun reads_in_range :: "bio_op list \<Rightarrow> bool" where
  "reads_in_range [] = True"
| "reads_in_range (OpRead n # ops) = (0 < n \<and> n \<le> int INT_MAX \<and> reads_in_range ops)"
| "reads_in_range (OpWrite bs # ops) = (bs \<noteq> [] \<and> reads_in_range ops)"

lemma BIO_write_spec:
  assumes "allocator_ok a" and "allocator_ok sec" and "mem_bio_ok b" and "\<not> bm_rdonly b"
    and "bs \<noteq> []" and "length (pending b) + length bs \<le> INT_MAX"
  shows "\<exists>ret b'. BIO_write a sec b bs = Some (ret, b') \<and> mem_bio_ok b' \<and>
    (ret = - 1 \<and> pending b' = pending b \<or>
     ret = int (length bs) \<and> pending b' = pending b @ bs)"
proof -
  obtain ret b' where w: "bio_mem_write a sec b (Some bs) = Some (ret, b')" "mem_bio_ok b'"
    "ret = - 1 \<and> pending b' = pending b \<or> ret = int (length bs) \<and> pending b' = pending b @ bs"
    using bio_mem_write_spec [OF assms] by blast
  moreover have "\<not> INT_MAX < length bs" "bm_init b"
    using assms(3,6) by (simp_all add: mem_bio_ok_def)
  ultimately show ?thesis
    using assms(5) by (auto simp: BIO_write_def bio_write_intern_def bwrite_conv_def Let_def)
qed

lemma rdonly_cur_advance [simp]: "bm_rdonly (cur_advance n b) = bm_rdonly b"
  by (simp add: cur_advance_def)

lemma rdonly_mem_read: "bio_mem_read b n = Some (ret, bs, b') \<Longrightarrow> bm_rdonly b' = bm_rdonly b"
  by (auto simp: bio_mem_read_def Let_def split: if_splits bind_splits)

lemma rdonly_mem_write: "bio_mem_write a sec b inp = Some (ret, b') \<Longrightarrow> bm_rdonly b' = bm_rdonly b"
  by (auto simp: bio_mem_write_def mem_buf_sync_def readp_from_buf_def Let_def
      split: if_splits bind_splits option.splits)

lemma rdonly_BIO_read: "BIO_read b n = Some (ret, bs, b') \<Longrightarrow> bm_rdonly b' = bm_rdonly b"
  by (auto simp: BIO_read_def bio_read_intern_def bread_conv_def Let_def dest!: rdonly_mem_read
      split: if_splits bind_splits)

lemma rdonly_BIO_write: "BIO_write a sec b bs = Some (ret, b') \<Longrightarrow> bm_rdonly b' = bm_rdonly b"
  by (auto simp: BIO_write_def bio_write_intern_def bwrite_conv_def Let_def dest!: rdonly_mem_write
      split: if_splits bind_splits)

section \<open>The interface of a BIO that is written to\<close>

text \<open>
  A BIO that is written to takes a non-empty prefix of the bytes, or none; \<open>sent\<close> is what it has
  taken so far. Up to \<open>cap\<close> bytes in all, refusing is only possible if the BIO is \<open>fallible\<close>.
\<close>

locale byte_sink =
  fixes wr :: "'b \<Rightarrow> bytes \<Rightarrow> (int \<times> 'b) option"
    and sent :: "'b \<Rightarrow> bytes"
    and ok :: "'b \<Rightarrow> bool"
    and cap :: nat
    and fallible :: bool
  assumes write_law: "ok b \<Longrightarrow> bs \<noteq> [] \<Longrightarrow> length (sent b) + length bs \<le> cap \<Longrightarrow>
    \<exists>ret b'. wr b bs = Some (ret, b') \<and> ok b' \<and>
      (0 < ret \<and> nat ret \<le> length bs \<and> sent b' = sent b @ take (nat ret) bs \<or>
       fallible \<and> ret \<le> 0 \<and> sent b' = sent b)"

text \<open>The memory BIO with its allocators, as such a BIO.\<close>

definition mem_sink_write :: "(allocator \<times> allocator) \<times> mem_bio \<Rightarrow> bytes
    \<Rightarrow> (int \<times> (allocator \<times> allocator) \<times> mem_bio) option" where
  "mem_sink_write = (\<lambda>(h, b) bs. map_option (\<lambda>(ret, b). (ret, h, b)) (BIO_write (fst h) (snd h) b bs))"

definition mem_sink_ok :: "(allocator \<times> allocator) \<times> mem_bio \<Rightarrow> bool" where
  "mem_sink_ok = (\<lambda>(h, b). allocator_ok (fst h) \<and> allocator_ok (snd h) \<and> mem_bio_ok b \<and> \<not> bm_rdonly b)"

definition mem_sink_total :: "(allocator \<times> allocator) \<times> mem_bio \<Rightarrow> bool" where
  "mem_sink_total x \<longleftrightarrow> mem_sink_ok x \<and> alloc_total (fst (fst x)) \<and> alloc_total (snd (fst x))"

lemma BIO_write_succeeds:
  assumes "alloc_total a" and "alloc_total sec" and "\<not> bm_rdonly b" and "bs \<noteq> []"
    and "rp_length b + length bs \<le> LIMIT_BEFORE_EXPANSION" and "bm_init b" and "length bs \<le> INT_MAX"
    and "BIO_write a sec b bs = Some (ret, b')"
  shows "ret = int (length bs)"
proof -
  have "ret = int (length bs)" if w: "bio_mem_write a sec b (Some bs) = Some (ret, c)" for ret c
  proof -
    have "BUF_MEM_grow_clean a sec buf (rp_length b + length bs) \<noteq> Some (0, buf')" for buf buf'
      using grow_clean_succeeds [OF assms(1,2,5), of buf 0 buf'] assms(4) by auto
    then show ?thesis
      using w assms(3,4) by (auto simp: bio_mem_write_def Let_def split: if_splits bind_splits)
  qed
  then show ?thesis
    using assms(4,6-8) by (fastforce simp: BIO_write_def bio_write_intern_def bwrite_conv_def Let_def split: if_splits bind_splits)
qed

lemma mem_sink_law:
  assumes "mem_sink_ok x" and "bs \<noteq> []" and "length (pending (snd x)) + length bs \<le> INT_MAX"
  shows "\<exists>ret b. mem_sink_write x bs = Some (ret, fst x, b) \<and> mem_sink_ok (fst x, b) \<and>
    (ret = - 1 \<and> pending b = pending (snd x) \<or> ret = int (length bs) \<and> pending b = pending (snd x) @ bs)"
proof -
  obtain h b where x: "x = (h, b)" by (cases x)
  obtain ret c where c: "BIO_write (fst h) (snd h) b bs = Some (ret, c)" "mem_bio_ok c"
    "ret = - 1 \<and> pending c = pending b \<or> ret = int (length bs) \<and> pending c = pending b @ bs"
    using BIO_write_spec [of "fst h" "snd h" b bs] assms x by (auto simp: mem_sink_ok_def)
  moreover have "\<not> bm_rdonly c"
    using rdonly_BIO_write [OF c(1)] assms(1) x by (simp add: mem_sink_ok_def)
  ultimately show ?thesis
    using assms(1) x by (simp add: mem_sink_write_def mem_sink_ok_def)
qed

interpretation mem_sink: byte_sink mem_sink_write "\<lambda>x. pending (snd x)" mem_sink_ok INT_MAX True
proof
  fix x and bs :: bytes
  assume "mem_sink_ok x" "bs \<noteq> []" "length (pending (snd x)) + length bs \<le> INT_MAX"
  from mem_sink_law [OF this] this(2)
  show "\<exists>ret y. mem_sink_write x bs = Some (ret, y) \<and> mem_sink_ok y \<and>
      (0 < ret \<and> nat ret \<le> length bs \<and> pending (snd y) = pending (snd x) @ take (nat ret) bs \<or>
       True \<and> ret \<le> 0 \<and> pending (snd y) = pending (snd x))"
    by fastforce
qed

text \<open>With allocators that never fail, the memory BIO always takes everything.\<close>

interpretation mem_sink_reliable: byte_sink mem_sink_write "\<lambda>x. pending (snd x)" mem_sink_total LIMIT_BEFORE_EXPANSION False
proof
  fix x and bs :: bytes
  assume x: "mem_sink_total x" and bs: "bs \<noteq> []" "length (pending (snd x)) + length bs \<le> LIMIT_BEFORE_EXPANSION"
  have lim: "length (pending (snd x)) + length bs \<le> INT_MAX"
    using bs(2) by (simp add: LIMIT_BEFORE_EXPANSION_def INT_MAX_def)
  obtain ret b where w: "mem_sink_write x bs = Some (ret, fst x, b)" "mem_sink_ok (fst x, b)"
    "ret = - 1 \<and> pending b = pending (snd x) \<or> ret = int (length bs) \<and> pending b = pending (snd x) @ bs"
    using mem_sink_law [OF _ bs(1) lim] x by (auto simp: mem_sink_total_def)
  have m: "mem_bio_ok (snd x)" "\<not> bm_rdonly (snd x)" "bm_init (snd x)"
    using x by (auto simp: mem_sink_total_def mem_sink_ok_def mem_bio_ok_def)
  then have "length (pending (snd x)) = rp_length (snd x)"
    using length_pending [of "snd x"] by (simp add: cur_length_def)
  then have "ret = int (length bs)"
    using BIO_write_succeeds [of "fst (fst x)" "snd (fst x)" "snd x" bs ret b] x bs m w(1) lim
    by (auto simp: mem_sink_total_def mem_sink_write_def split: prod.splits)
  then show "\<exists>ret y. mem_sink_write x bs = Some (ret, y) \<and> mem_sink_total y \<and>
      (0 < ret \<and> nat ret \<le> length bs \<and> pending (snd y) = pending (snd x) @ take (nat ret) bs \<or>
       False \<and> ret \<le> 0 \<and> pending (snd y) = pending (snd x))"
    using w x bs(1) by (auto simp: mem_sink_total_def)
qed

section \<open>A byte queue\<close>

lemma bio_run_fifo:
  assumes "allocator_ok a" and "allocator_ok sec" and "mem_bio_ok b" and "\<not> bm_rdonly b"
    and "reads_in_range ops" and "length (pending b) + bytes_written ops \<le> INT_MAX"
  shows "\<exists>out inp b'. bio_run a sec b ops = Some (out, inp, b') \<and> mem_bio_ok b' \<and>
    pending b @ inp = out @ pending b'"
  using assms(3-6)
proof (induction ops arbitrary: b rule: reads_in_range.induct)
  case 1
  then show ?case by simp
next
  case (2 n ops)
  obtain ret bs c where c: "BIO_read b n = Some (ret, bs, c)" "mem_bio_ok c" "pending b = bs @ pending c"
    using membio.read_law [of b n] "2.prems" by auto
  then obtain out inp b' where "bio_run a sec c ops = Some (out, inp, b')" "mem_bio_ok b'"
      "pending c @ inp = out @ pending b'"
    using "2.IH" [of c] "2.prems" rdonly_BIO_read [OF c(1)] by auto
  then show ?case using c by simp
next
  case (3 bs ops)
  have room: "length (pending b) + length bs \<le> INT_MAX" "bs \<noteq> []"
    using "3.prems" by simp_all
  obtain ret c where c: "BIO_write a sec b bs = Some (ret, c)" "mem_bio_ok c"
    and ret: "ret = - 1 \<and> pending c = pending b \<or> ret = int (length bs) \<and> pending c = pending b @ bs"
    using BIO_write_spec [OF assms(1,2) "3.prems"(1,2) room(2,1)] by blast
  moreover have "\<not> bm_rdonly c"
    using rdonly_BIO_write [OF c(1)] "3.prems"(2) by simp
  moreover have "length (pending c) + bytes_written ops \<le> INT_MAX"
    using ret "3.prems"(4) by auto
  ultimately obtain out inp b' where "bio_run a sec c ops = Some (out, inp, b')" "mem_bio_ok b'"
      "pending c @ inp = out @ pending b'"
    using "3.IH" [of c] "3.prems"(3) by auto
  then show ?case using c ret room by auto
qed

text \<open>
  C38: a memory BIO is a first-in first-out byte queue. For every sequence of reads and writes whose
  bytes stay within INT_MAX, no call touches memory outside the buffer, the invariant is kept, and
  the bytes that were pending followed by those the successful writes took are exactly the bytes the
  reads returned followed by those still pending; a write that fails for lack of memory loses nothing.
\<close>

theorem mem_bio_is_fifo:
  assumes "allocator_ok a" and "allocator_ok sec" and "mem_bio_ok b" and "\<not> bm_rdonly b"
    and "reads_in_range ops" and "length (pending b) + bytes_written ops \<le> INT_MAX"
  shows "\<exists>out inp b'. bio_run a sec b ops = Some (out, inp, b') \<and> mem_bio_ok b' \<and>
    pending b @ inp = out @ pending b'"
  using assms by (rule bio_run_fifo)

theorem mem_bio_is_fifo_witness:
  "\<exists>out inp b' b. mem_new sample_alloc = Some b \<and>
    bio_run sample_alloc sample_alloc b [OpWrite [1, 2, 3], OpRead 2, OpWrite [4], OpRead 9]
      = Some (out, inp, b') \<and> inp = out @ pending b'"
proof -
  let ?b = "the (mem_new sample_alloc)"
  have b: "mem_new sample_alloc = Some ?b" "mem_bio_ok ?b" "\<not> bm_rdonly ?b" "pending ?b = []"
    by (simp_all add: mem_new_def mem_init_def sample_alloc_def BUF_MEM_new_ex_def BUF_MEM_new_def
        mem_bio_ok_def readp_from_buf_def empty_bio_def buf_ok_def pending_def cur_length_def)
  show ?thesis
    using mem_bio_is_fifo [of sample_alloc sample_alloc ?b
        "[OpWrite [1, 2, 3], OpRead 2, OpWrite [4], OpRead 9]"] b
    by (auto simp: INT_MAX_def)
qed

text \<open>
  The sum of the pending bytes and the new ones is computed as an \<open>int\<close>: a write that takes the
  BIO beyond INT_MAX bytes overflows.
\<close>

lemma mem_write_overflows:
  assumes "mem_bio_ok b" and "\<not> bm_rdonly b" and "bs \<noteq> []"
    and "length (pending b) + length bs > INT_MAX"
  shows "bio_mem_write a sec b (Some bs) = None"
proof -
  let ?b = "b\<lparr>bm_retry_read := False\<rparr>"
  obtain c where "mem_buf_sync ?b = Some c"
    using mem_buf_sync_spec [of ?b] assms by auto
  moreover have "length (pending b) = rp_length b"
    using length_pending [OF assms(1)] assms(2) by (simp add: cur_length_def)
  ultimately show ?thesis
    using assms by (simp add: bio_mem_write_def Let_def)
qed

text \<open>
  A read-only BIO hands out the given bytes and nothing else, refuses writes, and \<open>BIO_reset\<close> makes
  all of them available again, however much has been read.
\<close>

lemma rdonly_reset:
  assumes "mem_bio_ok b" and "bm_rdonly b" and "b_data (bm_buf b) = Some m"
  shows "\<exists>b'. bio_mem_ctrl b CTRL_RESET = Some (1, b') \<and> mem_bio_ok b' \<and>
    pending b' = seg m (rp_off b) (rp_length b)"
  using assms by (simp add: buf_from_readp_def mem_bio_ok_def pending_def cur_off_def cur_length_def
      block_def)

lemma gets_count_spec:
  assumes "p + j \<le> length m" and "i \<le> j"
  shows "\<exists>k. gets_count m p i j = Some k \<and> i \<le> k \<and> k \<le> j \<and> (i < j \<longrightarrow> i < k) \<and>
    (\<forall>q. i \<le> q \<and> q + 1 < k \<longrightarrow> m ! (p + q) \<noteq> 10) \<and> (i < k \<and> k < j \<longrightarrow> m ! (p + k - 1) = 10)"
  using assms(2)
proof (induction "j - i" arbitrary: i)
  case 0
  then show ?case by (auto simp: gets_count.simps)
next
  case (Suc d)
  then have lt: "i < j" and bound: "p + i < length m"
    using assms(1) by simp_all
  show ?case
  proof (cases "m ! (p + i) = 10")
    case True
    then have "gets_count m p i j = Some (i + 1)"
      using lt bound by (subst gets_count.simps) simp
    then show ?thesis using True lt by auto
  next
    case False
    then have eq: "gets_count m p i j = gets_count m p (i + 1) j"
      using lt bound by (subst gets_count.simps) simp
    have "d = j - (i + 1)" "i + 1 \<le> j"
      using Suc.hyps(2) lt by simp_all
    then obtain k where k: "gets_count m p (i + 1) j = Some k" "i + 1 \<le> k" "k \<le> j"
      "\<forall>q. i + 1 \<le> q \<and> q + 1 < k \<longrightarrow> m ! (p + q) \<noteq> 10" "i + 1 < j \<longrightarrow> i + 1 < k"
      "i + 1 < k \<and> k < j \<longrightarrow> m ! (p + k - 1) = 10"
      using Suc.hyps(1) [of "i + 1"] by blast
    have "m ! (p + q) \<noteq> 10" if "i \<le> q" "q + 1 < k" for q
      using that k(4) False by (cases "q = i") auto
    then show ?thesis
      using eq k by (intro exI [of _ k]) auto
  qed
qed

end
