(* ===== verification/Record_Read.thy ===== *)
theory Record_Read
  imports Bio_Mem Handshake_State
begin

text \<open>
  Buffered reading in the record layer: the read buffer (\<open>tls/record/tls3_buffer.c\<close>) and
  \<open>tls3_read_n\<close> (\<open>tls/record/rec_layer_s3.c\<close>), through which every byte of a connection comes in.
  \<open>tls3_read_n\<close> collects the next \<open>n\<close> bytes of the input in one piece, the \<open>packet\<close>, whatever the sizes
  in which the BIO delivers them; it may read ahead, and it moves data inside the buffer to keep
  the payload aligned.

  The buffer is a block of memory at address \<open>rb_addr\<close>; \<open>rb_offset\<close>, \<open>rl_packet\<close> are offsets into
  it. Reading from the BIO is the parameter \<open>rd\<close>, allocation the parameter \<open>malloc\<close>, which gives the
  address and the initial bytes of a block. The theorems about reading are proved in the locale
  \<open>byte_source\<close> and hold for the memory BIO by its interpretation.
\<close>

section \<open>Model\<close>

record tls3_BUFFER =
  rb_buf :: "bytes option"
  rb_addr :: nat
  rb_default_len :: nat
  rb_len :: nat
  rb_offset :: nat
  rb_left :: nat

record 'b rlayer =
  rl_rbuf :: tls3_BUFFER
  rl_packet :: nat
  rl_packet_length :: nat
  rl_read_ahead :: bool
  rl_rbio :: "'b option"
  rl_ktls_recv :: bool
  rl_is_dtls :: bool
  rl_release_buffers :: bool
  rl_allow_compression :: bool
  rl_rwstate :: int
  rl_fatal :: "(int \<times> int) list"

definition tls3_RT_HEADER_LENGTH :: nat where "tls3_RT_HEADER_LENGTH = 5"
definition DTLS1_RT_HEADER_LENGTH :: nat where "DTLS1_RT_HEADER_LENGTH = 13"
definition tls3_ALIGN_PAYLOAD :: nat where "tls3_ALIGN_PAYLOAD = 8"
definition tls3_RT_MAX_PLAIN_LENGTH :: nat where "tls3_RT_MAX_PLAIN_LENGTH = 16384"
definition tls3_RT_MAX_MD_SIZE :: nat where "tls3_RT_MAX_MD_SIZE = 64"
definition tls3_RT_MAX_COMPRESSED_OVERHEAD :: nat where "tls3_RT_MAX_COMPRESSED_OVERHEAD = 1024"
definition tls3_RT_MAX_ENCRYPTED_OVERHEAD :: nat where
  "tls3_RT_MAX_ENCRYPTED_OVERHEAD = 256 + tls3_RT_MAX_MD_SIZE"
definition tls3_RT_MAX_TLS13_ENCRYPTED_OVERHEAD :: nat where
  "tls3_RT_MAX_TLS13_ENCRYPTED_OVERHEAD = 256"
definition tls3_RT_MAX_COMPRESSED_LENGTH :: nat where
  "tls3_RT_MAX_COMPRESSED_LENGTH = tls3_RT_MAX_PLAIN_LENGTH + tls3_RT_MAX_COMPRESSED_OVERHEAD"
definition tls3_RT_MAX_ENCRYPTED_LENGTH :: nat where
  "tls3_RT_MAX_ENCRYPTED_LENGTH = tls3_RT_MAX_ENCRYPTED_OVERHEAD + tls3_RT_MAX_COMPRESSED_LENGTH"
definition tls3_RT_MAX_TLS13_ENCRYPTED_LENGTH :: nat where
  "tls3_RT_MAX_TLS13_ENCRYPTED_LENGTH = tls3_RT_MAX_PLAIN_LENGTH + tls3_RT_MAX_TLS13_ENCRYPTED_OVERHEAD"

lemmas rt_consts = tls3_RT_HEADER_LENGTH_def DTLS1_RT_HEADER_LENGTH_def tls3_ALIGN_PAYLOAD_def
  tls3_RT_MAX_PLAIN_LENGTH_def tls3_RT_MAX_MD_SIZE_def tls3_RT_MAX_COMPRESSED_OVERHEAD_def
  tls3_RT_MAX_ENCRYPTED_OVERHEAD_def tls3_RT_MAX_TLS13_ENCRYPTED_OVERHEAD_def
  tls3_RT_MAX_COMPRESSED_LENGTH_def tls3_RT_MAX_ENCRYPTED_LENGTH_def
  tls3_RT_MAX_TLS13_ENCRYPTED_LENGTH_def

definition RT_APPLICATION_DATA :: byte where "RT_APPLICATION_DATA = 23"
abbreviation (input) ERR_R_MALLOC_FAILURE :: int where "ERR_R_MALLOC_FAILURE \<equiv> 65"
abbreviation (input) tls_R_READ_BIO_NOT_SET :: int where "tls_R_READ_BIO_NOT_SET \<equiv> 211"

text \<open>\<open>tlsfatal\<close>: the alert and the reason, for the state machine to act on.\<close>

definition rl_fail :: "int \<Rightarrow> int \<Rightarrow> 'b rlayer \<Rightarrow> 'b rlayer" where
  "rl_fail al reason s = s\<lparr>rl_fatal := rl_fatal s @ [(al, reason)]\<rparr>"

definition on_rbuf :: "(tls3_BUFFER \<Rightarrow> tls3_BUFFER) \<Rightarrow> 'b rlayer \<Rightarrow> 'b rlayer" where
  "on_rbuf f s = s\<lparr>rl_rbuf := f (rl_rbuf s)\<rparr>"

definition rbytes :: "'b rlayer \<Rightarrow> bytes" where
  "rbytes s = (case rb_buf (rl_rbuf s) of None \<Rightarrow> [] | Some m \<Rightarrow> m)"

subsection \<open>The buffer\<close>

definition tls3_BUFFER_set_data :: "tls3_BUFFER \<Rightarrow> bytes option \<Rightarrow> nat \<Rightarrow> tls3_BUFFER option" where
  "tls3_BUFFER_set_data b d n =
     (case d of
        None \<Rightarrow> Some (b\<lparr>rb_left := n, rb_offset := 0\<rparr>)
      | Some bs \<Rightarrow> (case rb_buf b of None \<Rightarrow> None
          | Some m \<Rightarrow> do {
              src \<leftarrow> mem_read bs 0 n;
              m \<leftarrow> mem_write m 0 src;
              Some (b\<lparr>rb_buf := Some m, rb_left := n, rb_offset := 0\<rparr>)
            }))"

definition tls3_BUFFER_clear :: "tls3_BUFFER \<Rightarrow> tls3_BUFFER" where
  "tls3_BUFFER_clear b = b\<lparr>rb_offset := 0, rb_left := 0\<rparr>"

definition tls3_BUFFER_release :: "tls3_BUFFER \<Rightarrow> tls3_BUFFER" where
  "tls3_BUFFER_release b = b\<lparr>rb_buf := None\<rparr>"

text \<open>\<open>(-tls3_RT_HEADER_LENGTH) & (tls3_ALIGN_PAYLOAD - 1)\<close> on size_t.\<close>

definition setup_align :: nat where
  "setup_align = usub 0 tls3_RT_HEADER_LENGTH mod tls3_ALIGN_PAYLOAD"

definition tls3_setup_read_buffer ::
    "(nat \<Rightarrow> (nat \<times> bytes) option) \<Rightarrow> 'b rlayer \<Rightarrow> bool \<times> 'b rlayer" where
  "tls3_setup_read_buffer malloc s =
     (let b = rl_rbuf s;
          headerlen = (if rl_is_dtls s then DTLS1_RT_HEADER_LENGTH else tls3_RT_HEADER_LENGTH)
      in case rb_buf b of
           Some _ \<Rightarrow> (True, s\<lparr>rl_packet := 0\<rparr>)
         | None \<Rightarrow>
             let len = tls3_RT_MAX_PLAIN_LENGTH + tls3_RT_MAX_ENCRYPTED_OVERHEAD + headerlen + setup_align;
                 len = (if rl_allow_compression s then len + tls3_RT_MAX_COMPRESSED_OVERHEAD else len);
                 len = (if rb_default_len b > len then rb_default_len b else len)
             in case malloc len of
                  None \<Rightarrow> (False, rl_fail tls_AD_NO_ALERT ERR_R_MALLOC_FAILURE s)
                | Some (addr, m) \<Rightarrow>
                    (True, s\<lparr>rl_rbuf := b\<lparr>rb_buf := Some m, rb_addr := addr, rb_len := len\<rparr>,
                             rl_packet := 0\<rparr>))"

definition tls3_release_read_buffer :: "'b rlayer \<Rightarrow> 'b rlayer" where
  "tls3_release_read_buffer = on_rbuf (rb_buf_update (\<lambda>_. None))"

subsection \<open>tls3_read_n\<close>

definition payload_align :: "nat \<Rightarrow> nat" where
  "payload_align addr =
     tls3_ALIGN_PAYLOAD - 1 - ((addr + tls3_RT_HEADER_LENGTH - 1) mod tls3_ALIGN_PAYLOAD)"

definition memmove_buf :: "nat \<Rightarrow> nat \<Rightarrow> nat \<Rightarrow> 'b rlayer \<Rightarrow> 'b rlayer option" where
  "memmove_buf dst src n s = do {
     bs \<leftarrow> mem_read (rbytes s) src n;
     m \<leftarrow> mem_write (rbytes s) dst bs;
     Some (on_rbuf (rb_buf_update (\<lambda>_. Some m)) s)
   }"

text \<open>
  The block \<open>if (!extend)\<close>: where the new packet starts. A large application data record is moved
  so that its payload is aligned.
\<close>

definition large_app_data :: "bytes \<Rightarrow> bool" where
  "large_app_data p \<longleftrightarrow> p ! 0 = RT_APPLICATION_DATA \<and> unat (p ! 3) * 256 + unat (p ! 4) \<ge> 128"

definition read_n_start :: "nat \<Rightarrow> 'b rlayer \<Rightarrow> 'b rlayer option" where
  "read_n_start align s =
     (let rb = rl_rbuf s; left = rb_left rb in do {
        s \<leftarrow> (if left = 0 then Some (on_rbuf (rb_offset_update (\<lambda>_. align)) s)
              else if align \<noteq> 0 \<and> left \<ge> tls3_RT_HEADER_LENGTH then do {
                p \<leftarrow> mem_read (rbytes s) (rb_offset rb) tls3_RT_HEADER_LENGTH;
                if large_app_data p then
                  map_option (on_rbuf (rb_offset_update (\<lambda>_. align)))
                    (memmove_buf align (rb_offset rb) left s)
                else Some s
              } else Some s);
        Some (s\<lparr>rl_packet := rb_offset (rl_rbuf s), rl_packet_length := 0\<rparr>)
      })"

definition read_n_clearold :: "nat \<Rightarrow> 'b rlayer \<Rightarrow> 'b rlayer option" where
  "read_n_clearold align s =
     (let len = rl_packet_length s in
      map_option (\<lambda>s. on_rbuf (rb_offset_update (\<lambda>_. len + align)) (s\<lparr>rl_packet := align\<rparr>))
        (memmove_buf align (rl_packet s) (len + rb_left (rl_rbuf s)) s))"

definition read_n_take :: "nat \<Rightarrow> nat \<Rightarrow> 'b rlayer \<Rightarrow> 'b rlayer" where
  "read_n_take left n s =
     on_rbuf (\<lambda>rb. rb\<lparr>rb_left := left - n, rb_offset := rb_offset rb + n\<rparr>)
       (s\<lparr>rl_packet_length := rl_packet_length s + n\<rparr>)"

text \<open>
  The reading loop; \<open>base\<close> is \<open>pkt + len\<close>. It stops with 1 when \<open>n\<close> bytes are there, or with the
  result of the failed read; \<open>n\<close> and \<open>left\<close> are returned. \<open>size_t\<close> becomes \<open>int\<close> in the call of
  \<open>BIO_read\<close>.
\<close>

definition read_failed :: "nat \<Rightarrow> nat \<Rightarrow> 'b rlayer \<Rightarrow> 'b rlayer" where
  "read_failed len left s =
     (let s = on_rbuf (rb_left_update (\<lambda>_. left)) s in
      if rl_release_buffers s \<and> \<not> rl_is_dtls s \<and> len + left = 0 then tls3_release_read_buffer s
      else s)"

definition to_int :: "nat \<Rightarrow> int" where
  "to_int n = sint (of_nat n :: 32 word)"

function read_n_loop :: "('b \<Rightarrow> int \<Rightarrow> (int \<times> bytes \<times> 'b) option) \<Rightarrow> nat \<Rightarrow> nat \<Rightarrow> nat \<Rightarrow> nat \<Rightarrow> nat
    \<Rightarrow> 'b rlayer \<Rightarrow> (int \<times> nat \<times> nat \<times> 'b rlayer) option" where
  "read_n_loop rd base len mx n left s =
     (if left < n then
        (case rl_rbio s of
           None \<Rightarrow> Some (- 1, n, left, read_failed len left (rl_fail tls_AD_INTERNAL_ERROR tls_R_READ_BIO_NOT_SET s))
         | Some b \<Rightarrow>
             (case rd b (to_int (usub mx left)) of
                None \<Rightarrow> None
              | Some (ret, bs, b') \<Rightarrow>
                  let s = s\<lparr>rl_rwstate := tls_READING, rl_rbio := Some b'\<rparr> in
                  if ret \<le> 0 then Some (ret, n, left, read_failed len left s)
                  else
                    (case mem_write (rbytes s) (base + left) bs of
                       None \<Rightarrow> None
                     | Some m \<Rightarrow>
                         let left' = left + nat ret;
                             n' = (if rl_is_dtls s \<and> n > left' then left' else n)
                         in read_n_loop rd base len mx n' left'
                              (on_rbuf (rb_buf_update (\<lambda>_. Some m)) s))))
      else Some (1, n, left, s))"
  by pat_completeness auto

termination
  by (relation "measure (\<lambda>(rd, base, len, mx, n, left, s). n - left)")
    (auto split: if_splits)

declare read_n_loop.simps [simp del]

text \<open>
  The second half, once the packet is in place: serve the request from the buffer or read more. The
  result is the return value, \<open>*readbytes\<close> when it is set, and the state.
\<close>

definition read_n_fill :: "('b \<Rightarrow> int \<Rightarrow> (int \<times> bytes \<times> 'b) option)
    \<Rightarrow> nat \<Rightarrow> nat \<Rightarrow> bool \<Rightarrow> nat \<Rightarrow> 'b rlayer \<Rightarrow> (int \<times> nat option \<times> 'b rlayer) option" where
  "read_n_fill rd n mx ext align s =
     (let left = rb_left (rl_rbuf s); len = rl_packet_length s in
      if rl_is_dtls s \<and> left = 0 \<and> ext then Some (0, None, s)
      else let n = (if rl_is_dtls s \<and> left > 0 \<and> n > left then left else n) in
      if left \<ge> n then Some (1, Some n, read_n_take left n s)
      else let room = usub (rb_len (rl_rbuf s)) (rb_offset (rl_rbuf s)) in
      if n > room then Some (- 1, None, rl_fail tls_AD_INTERNAL_ERROR ERR_R_INTERNAL_ERROR s)
      else let mx = (if \<not> rl_ktls_recv s \<and> \<not> rl_read_ahead s \<and> \<not> rl_is_dtls s then n
                     else min (max mx n) room) in do {
        (ret, n, left, s) \<leftarrow> read_n_loop rd (align + len) len mx n left s;
        if ret \<le> 0 then Some (ret, None, s)
        else Some (1, Some n, (read_n_take left n s)\<lparr>rl_rwstate := tls_NOTHING\<rparr>)
      })"

definition tls3_read_n :: "(nat \<Rightarrow> (nat \<times> bytes) option) \<Rightarrow> ('b \<Rightarrow> int \<Rightarrow> (int \<times> bytes \<times> 'b) option)
    \<Rightarrow> nat \<Rightarrow> nat \<Rightarrow> bool \<Rightarrow> bool \<Rightarrow> 'b rlayer \<Rightarrow> (int \<times> nat option \<times> 'b rlayer) option" where
  "tls3_read_n malloc rd n mx ext clearold s =
     (if n = 0 then Some (0, None, s)
      else let (okay, s) = (if rb_buf (rl_rbuf s) = None then tls3_setup_read_buffer malloc s else (True, s))
      in if \<not> okay then Some (- 1, None, s)
      else do {
        let align = payload_align (rb_addr (rl_rbuf s));
        s \<leftarrow> (if ext then Some s else read_n_start align s);
        s \<leftarrow> (if rl_packet s \<noteq> align \<and> clearold then read_n_clearold align s else Some s);
        read_n_fill rd n mx ext align s
      })"

section \<open>The input stream\<close>

definition unread :: "'b rlayer \<Rightarrow> bytes" where
  "unread s = seg (rbytes s) (rb_offset (rl_rbuf s)) (rb_left (rl_rbuf s))"

definition packet_bytes :: "'b rlayer \<Rightarrow> bytes" where
  "packet_bytes s = seg (rbytes s) (rl_packet s) (rl_packet_length s)"

text \<open>
  The invariant of the read buffer, and what \<open>packet\<close> is while a record is being collected: the
  bytes directly in front of the unread ones.
\<close>

definition rbuf_ok :: "'b rlayer \<Rightarrow> bool" where
  "rbuf_ok s \<longleftrightarrow>
     (let b = rl_rbuf s in
      case rb_buf b of
        None \<Rightarrow> rb_left b = 0
      | Some m \<Rightarrow> length m = rb_len b \<and> 8 \<le> rb_len b \<and> rb_len b \<le> INT_MAX \<and>
          (0 < rb_left b \<longrightarrow>
             payload_align (rb_addr b) \<le> rb_offset b \<and> rb_offset b + rb_left b \<le> rb_len b))"

definition packet_ok :: "'b rlayer \<Rightarrow> bool" where
  "packet_ok s \<longleftrightarrow> rb_buf (rl_rbuf s) \<noteq> None \<and>
     payload_align (rb_addr (rl_rbuf s)) \<le> rl_packet s \<and>
     rl_packet s + rl_packet_length s = rb_offset (rl_rbuf s) \<and>
     rb_offset (rl_rbuf s) \<le> rb_len (rl_rbuf s)"

lemma payload_align_less: "payload_align addr < 8"
  by (simp add: payload_align_def tls3_ALIGN_PAYLOAD_def)

definition malloc_ok :: "(nat \<Rightarrow> (nat \<times> bytes) option) \<Rightarrow> bool" where
  "malloc_ok malloc \<longleftrightarrow> (\<forall>n a m. malloc n = Some (a, m) \<longrightarrow> length m = n)"

text \<open>The part of the state that moving data around leaves alone.\<close>

definition same_conf :: "'b rlayer \<Rightarrow> 'b rlayer \<Rightarrow> bool" where
  "same_conf s s' \<longleftrightarrow> rl_rbio s' = rl_rbio s \<and> rl_is_dtls s' = rl_is_dtls s \<and>
     rb_left (rl_rbuf s') = rb_left (rl_rbuf s) \<and> rb_len (rl_rbuf s') = rb_len (rl_rbuf s) \<and>
     rb_addr (rl_rbuf s') = rb_addr (rl_rbuf s)"

lemma rbytes_on_rbuf [simp]:
  "rbytes (on_rbuf (rb_buf_update (\<lambda>_. Some m)) s) = m"
  "rbytes (on_rbuf (rb_offset_update f) s) = rbytes s"
  "rbytes (on_rbuf (rb_left_update f) s) = rbytes s"
  "rbytes (s\<lparr>rl_packet := p\<rparr>) = rbytes s" "rbytes (s\<lparr>rl_packet_length := k\<rparr>) = rbytes s"
  "rbytes (s\<lparr>rl_rwstate := w\<rparr>) = rbytes s" "rbytes (s\<lparr>rl_rbio := b\<rparr>) = rbytes s"
  "rbytes (rl_fail al rs s) = rbytes s"
  by (simp_all add: rbytes_def on_rbuf_def rl_fail_def)

lemma on_rbuf_fields [simp]:
  "rl_rbuf (on_rbuf f s) = f (rl_rbuf s)" "rl_packet (on_rbuf f s) = rl_packet s"
  "rl_packet_length (on_rbuf f s) = rl_packet_length s" "rl_rbio (on_rbuf f s) = rl_rbio s"
  "rl_is_dtls (on_rbuf f s) = rl_is_dtls s" "rl_read_ahead (on_rbuf f s) = rl_read_ahead s"
  "rl_ktls_recv (on_rbuf f s) = rl_ktls_recv s" "rl_release_buffers (on_rbuf f s) = rl_release_buffers s"
  "rl_rwstate (on_rbuf f s) = rl_rwstate s"
  by (simp_all add: on_rbuf_def)

lemma rl_fail_fields [simp]:
  "rl_rbuf (rl_fail al rs s) = rl_rbuf s" "rl_packet (rl_fail al rs s) = rl_packet s"
  "rl_packet_length (rl_fail al rs s) = rl_packet_length s" "rl_rbio (rl_fail al rs s) = rl_rbio s"
  "rl_is_dtls (rl_fail al rs s) = rl_is_dtls s" "rl_release_buffers (rl_fail al rs s) = rl_release_buffers s"
  by (simp_all add: rl_fail_def)

lemma rbytes_Some: "rb_buf (rl_rbuf s) = Some m \<Longrightarrow> rbytes s = m"
  by (simp add: rbytes_def)

lemma memmove_buf_spec:
  assumes "src + n \<le> length (rbytes s)" and "dst + n \<le> length (rbytes s)"
  shows "\<exists>m. memmove_buf dst src n s = Some (on_rbuf (rb_buf_update (\<lambda>_. Some m)) s) \<and>
    length m = length (rbytes s) \<and> seg m dst n = seg (rbytes s) src n"
proof -
  have l: "length (seg (rbytes s) src n) = n"
    using assms(1) by simp
  obtain m where m: "mem_write (rbytes s) dst (seg (rbytes s) src n) = Some m"
    using mem_write_total [of dst "seg (rbytes s) src n" "rbytes s"] assms(2) l by auto
  then have "length m = length (rbytes s)" "seg m dst n = seg (rbytes s) src n"
    using length_mem_write [OF m] seg_mem_write_same [OF m] l by simp_all
  then show ?thesis
    using m assms(1) by (auto simp: memmove_buf_def mem_read_def)
qed

lemma packet_unread_contiguous:
  assumes "packet_ok s"
  shows "packet_bytes s @ unread s =
    seg (rbytes s) (rl_packet s) (rl_packet_length s + rb_left (rl_rbuf s))"
  using assms by (simp add: packet_ok_def packet_bytes_def unread_def seg_append_split)

lemma setup_spec:
  assumes "malloc_ok malloc" and "rbuf_ok s" and "rb_buf (rl_rbuf s) = None"
    and "rb_default_len (rl_rbuf s) \<le> INT_MAX"
  shows "case tls3_setup_read_buffer malloc s of (okay, s') \<Rightarrow>
    (if okay then rb_buf (rl_rbuf s') \<noteq> None \<and> rbuf_ok s' \<and> unread s' = unread s \<and>
       tls3_RT_MAX_PLAIN_LENGTH + tls3_RT_MAX_ENCRYPTED_OVERHEAD + 8 \<le> rb_len (rl_rbuf s') \<and>
       rl_rbio s' = rl_rbio s \<and> rl_is_dtls s' = rl_is_dtls s \<and>
       rb_left (rl_rbuf s') = rb_left (rl_rbuf s)
     else s' = rl_fail tls_AD_NO_ALERT ERR_R_MALLOC_FAILURE s)"
proof -
  have "setup_align = 3"
    by (simp add: setup_align_def usub_def rt_consts)
  then show ?thesis
    using assms
    by (auto simp: tls3_setup_read_buffer_def rbuf_ok_def malloc_ok_def Let_def rt_consts INT_MAX_def
        unread_def split: option.splits)
qed

lemma read_n_start_spec:
  assumes ok: "rbuf_ok s" and m: "rb_buf (rl_rbuf s) = Some m"
  defines "align \<equiv> payload_align (rb_addr (rl_rbuf s))"
  shows "\<exists>s'. read_n_start align s = Some s' \<and> rbuf_ok s' \<and> packet_ok s' \<and> rl_packet_length s' = 0 \<and>
    unread s' = unread s \<and> same_conf s s'"
proof -
  let ?b = "rl_rbuf s"
  have len: "length m = rb_len ?b" "8 \<le> rb_len ?b" "rb_len ?b \<le> INT_MAX"
    and left: "0 < rb_left ?b \<longrightarrow> align \<le> rb_offset ?b \<and> rb_offset ?b + rb_left ?b \<le> rb_len ?b"
    using ok m by (simp_all add: rbuf_ok_def Let_def align_def)
  have al: "align < 8" by (simp add: align_def payload_align_less)
  have rb: "rbytes s = m" using m by (rule rbytes_Some)
  consider (empty) "rb_left ?b = 0" | (move) "0 < rb_left ?b" "align \<noteq> 0" "rb_left ?b \<ge> tls3_RT_HEADER_LENGTH"
      "large_app_data (seg m (rb_offset ?b) tls3_RT_HEADER_LENGTH)"
    | (stay) "0 < rb_left ?b" "\<not> (align \<noteq> 0 \<and> rb_left ?b \<ge> tls3_RT_HEADER_LENGTH \<and>
        large_app_data (seg m (rb_offset ?b) tls3_RT_HEADER_LENGTH))"
    by blast
  then show ?thesis
  proof cases
    case empty
    then show ?thesis
      using m len al
      by (auto simp: read_n_start_def Let_def rbuf_ok_def packet_ok_def unread_def same_conf_def align_def)
  next
    case move
    obtain m' where m': "memmove_buf align (rb_offset ?b) (rb_left ?b) s =
        Some (on_rbuf (rb_buf_update (\<lambda>_. Some m')) s)"
      "length m' = length m" "seg m' align (rb_left ?b) = seg m (rb_offset ?b) (rb_left ?b)"
      using memmove_buf_spec [of "rb_offset ?b" "rb_left ?b" s align] left move len rb by auto
    have "mem_read m (rb_offset ?b) tls3_RT_HEADER_LENGTH =
        Some (seg m (rb_offset ?b) tls3_RT_HEADER_LENGTH)"
      using left move len by (simp add: mem_read_def)
    then show ?thesis
      using move m m' len left rb
      by (auto simp: read_n_start_def Let_def rbuf_ok_def packet_ok_def unread_def same_conf_def align_def)
  next
    case stay
    have "rb_left ?b \<ge> tls3_RT_HEADER_LENGTH \<Longrightarrow> mem_read m (rb_offset ?b) tls3_RT_HEADER_LENGTH =
        Some (seg m (rb_offset ?b) tls3_RT_HEADER_LENGTH)"
      using left stay len by (simp add: mem_read_def)
    then show ?thesis
      using stay m len left rb
      by (auto simp: read_n_start_def Let_def rbuf_ok_def packet_ok_def unread_def same_conf_def align_def)
  qed
qed

lemma clearold_spec:
  assumes ok: "rbuf_ok s" "packet_ok s"
  defines "align \<equiv> payload_align (rb_addr (rl_rbuf s))"
  shows "\<exists>s'. read_n_clearold align s = Some s' \<and> rbuf_ok s' \<and> packet_ok s' \<and> rl_packet s' = align \<and>
    rl_packet_length s' = rl_packet_length s \<and> packet_bytes s' = packet_bytes s \<and>
    unread s' = unread s \<and> same_conf s s'"
proof -
  let ?b = "rl_rbuf s" and ?n = "rl_packet_length s + rb_left (rl_rbuf s)"
  obtain m where m: "rb_buf ?b = Some m"
    using ok(2) by (auto simp: packet_ok_def)
  have len: "length m = rb_len ?b" "8 \<le> rb_len ?b" "rb_len ?b \<le> INT_MAX" "rbytes s = m"
    using ok(1) m rbytes_Some [OF m] by (simp_all add: rbuf_ok_def Let_def)
  have pk: "align \<le> rl_packet s" "rl_packet s + rl_packet_length s = rb_offset ?b"
      "rl_packet s + ?n \<le> rb_len ?b"
    using ok m by (auto simp: packet_ok_def rbuf_ok_def Let_def align_def)
  obtain m' where m': "memmove_buf align (rl_packet s) ?n s = Some (on_rbuf (rb_buf_update (\<lambda>_. Some m')) s)"
      "length m' = length m" "seg m' align ?n = seg m (rl_packet s) ?n"
    using memmove_buf_spec [of "rl_packet s" ?n s align] pk len by auto
  have parts: "seg m' align (rl_packet_length s) = seg m (rl_packet s) (rl_packet_length s)"
    "seg m' (align + rl_packet_length s) (rb_left ?b) = seg m (rb_offset ?b) (rb_left ?b)"
  proof -
    have "seg m' align (rl_packet_length s) @ seg m' (align + rl_packet_length s) (rb_left ?b) =
        seg m (rl_packet s) (rl_packet_length s) @ seg m (rb_offset ?b) (rb_left ?b)"
      using m'(3) pk(2) by (simp add: seg_append_split)
    then show "seg m' align (rl_packet_length s) = seg m (rl_packet s) (rl_packet_length s)"
      "seg m' (align + rl_packet_length s) (rb_left ?b) = seg m (rb_offset ?b) (rb_left ?b)"
      using pk m'(2) len by (auto simp: append_eq_append_conv)
  qed
  show ?thesis
    using m m' len pk parts
    by (auto simp: read_n_clearold_def Let_def rbuf_ok_def packet_ok_def unread_def packet_bytes_def
        same_conf_def align_def add.commute)
qed

lemma seg_cong_take: "take (i + k) x = take (i + k) y \<Longrightarrow> seg x i k = seg y i k"
  by (metis add_diff_cancel_left' drop_take seg_def)

lemma take_mono_eq: "take j x = take j y \<Longrightarrow> i \<le> j \<Longrightarrow> take i x = take i y"
  by (metis min.absorb1 take_take)

lemma to_int_eq: "k \<le> INT_MAX \<Longrightarrow> to_int k = int k"
  by (simp add: to_int_def INT_MAX_def signed_of_nat signed_take_bit_int_eq_self)

lemma to_int_diff: "left \<le> mx \<Longrightarrow> mx \<le> INT_MAX \<Longrightarrow> to_int (usub mx left) = int (mx - left)"
  by (simp add: to_int_eq usub_eq INT_MAX_def SIZE_MAX_def)

text \<open>What the BIO of a connection will still deliver.\<close>

definition input_avail :: "('b \<Rightarrow> bytes) \<Rightarrow> 'b rlayer \<Rightarrow> bytes" where
  "input_avail avail s = (case rl_rbio s of None \<Rightarrow> [] | Some b \<Rightarrow> avail b)"

definition input_ok :: "('b \<Rightarrow> bool) \<Rightarrow> 'b rlayer \<Rightarrow> bool" where
  "input_ok ok s = (case rl_rbio s of None \<Rightarrow> True | Some b \<Rightarrow> ok b)"

text \<open>
  The outcome of the loop: \<open>m'\<close> is the block afterwards, in which the bytes that came in follow
  those at \<open>base + left\<close>.
\<close>

definition loop_post :: "('b \<Rightarrow> bytes) \<Rightarrow> nat \<Rightarrow> nat \<Rightarrow> nat \<Rightarrow> nat \<Rightarrow> nat \<Rightarrow> 'b rlayer \<Rightarrow> bytes \<Rightarrow>
    int \<Rightarrow> nat \<Rightarrow> nat \<Rightarrow> 'b rlayer \<Rightarrow> bytes \<Rightarrow> bool" where
  "loop_post avail base len mx n left s m ret n' left' s' m' \<longleftrightarrow>
     rl_packet s' = rl_packet s \<and> rl_packet_length s' = rl_packet_length s \<and>
     rb_offset (rl_rbuf s') = rb_offset (rl_rbuf s) \<and> rb_len (rl_rbuf s') = rb_len (rl_rbuf s) \<and>
     rb_addr (rl_rbuf s') = rb_addr (rl_rbuf s) \<and> left \<le> left' \<and> left' \<le> mx \<and>
     length m' = length m \<and> take (base + left) m' = take (base + left) m \<and>
     seg m' (base + left) (left' - left) @ input_avail avail s' = input_avail avail s \<and>
     (if ret = 1
      then rb_buf (rl_rbuf s') = Some m' \<and> n' \<le> left' \<and> n' \<le> n \<and> (\<not> rl_is_dtls s \<longrightarrow> n' = n) \<and>
           (0 < n \<longrightarrow> 0 < n')
      else ret \<le> 0 \<and> rb_left (rl_rbuf s') = left' \<and>
           (rb_buf (rl_rbuf s') = Some m' \<or> rb_buf (rl_rbuf s') = None \<and> len + left' = 0))"

lemma read_failed_fields [simp]:
  "rl_packet (read_failed len left s) = rl_packet s"
  "rl_packet_length (read_failed len left s) = rl_packet_length s"
  "rl_rbio (read_failed len left s) = rl_rbio s"
  "rb_offset (rl_rbuf (read_failed len left s)) = rb_offset (rl_rbuf s)"
  "rb_len (rl_rbuf (read_failed len left s)) = rb_len (rl_rbuf s)"
  "rb_addr (rl_rbuf (read_failed len left s)) = rb_addr (rl_rbuf s)"
  "rb_left (rl_rbuf (read_failed len left s)) = left"
  by (simp_all add: read_failed_def tls3_release_read_buffer_def Let_def)

lemma read_failed_buf:
  "rb_buf (rl_rbuf (read_failed len left s)) = rb_buf (rl_rbuf s) \<or>
    rb_buf (rl_rbuf (read_failed len left s)) = None \<and> len + left = 0"
  by (simp add: read_failed_def tls3_release_read_buffer_def Let_def)

lemma loop_post_failed:
  assumes "rb_buf (rl_rbuf t) = Some m" and "ret \<le> 0" and "left \<le> mx"
    and "rl_packet t = rl_packet s" "rl_packet_length t = rl_packet_length s" "rl_rbuf t = rl_rbuf s"
    and "input_avail avail t = input_avail avail s"
  shows "loop_post avail base len mx n left s m ret n left (read_failed len left t) m"
  using assms read_failed_buf [of len left t]
  by (auto simp: loop_post_def input_avail_def)

lemma loop_post_step:
  assumes w: "mem_write m (base + left) bs = Some m1" and bs: "length bs = k"
    and post: "loop_post avail base len mx n1 (left + k) s1 m1 ret n' left' s' m'"
    and n1: "n1 \<le> n" "\<not> rl_is_dtls s \<longrightarrow> n1 = n" "0 < n \<longrightarrow> 0 < n1"
    and s1: "rl_packet s1 = rl_packet s" "rl_packet_length s1 = rl_packet_length s"
      "rb_offset (rl_rbuf s1) = rb_offset (rl_rbuf s)" "rb_len (rl_rbuf s1) = rb_len (rl_rbuf s)"
      "rb_addr (rl_rbuf s1) = rb_addr (rl_rbuf s)" "rl_is_dtls s1 = rl_is_dtls s"
    and av: "input_avail avail s = bs @ input_avail avail s1"
  shows "loop_post avail base len mx n left s m ret n' left' s' m'"
proof -
  have left: "left + k \<le> left'" and tk: "take (base + (left + k)) m' = take (base + (left + k)) m1"
    and rest: "seg m' (base + (left + k)) (left' - (left + k)) @ input_avail avail s' = input_avail avail s1"
    using post by (simp_all add: loop_post_def)
  have "seg m' (base + left) k = bs"
    using seg_cong_take [of "base + left" k m' m1] tk seg_mem_write_same [OF w] bs
    by (simp add: add.assoc)
  moreover have "left' - left = k + (left' - (left + k))"
    using left by simp
  then have "seg m' (base + left) (left' - left) =
      seg m' (base + left) k @ seg m' (base + (left + k)) (left' - (left + k))"
    using seg_append_split [of m' "base + left" k "left' - (left + k)"] by (simp add: add.assoc)
  ultimately have "seg m' (base + left) (left' - left) @ input_avail avail s' = input_avail avail s"
    using rest av by simp
  moreover have "take (base + left) m' = take (base + left) m"
    using take_mono_eq [OF tk, of "base + left"] take_mem_write [OF w, of "base + left"] by simp
  ultimately show ?thesis
    using post n1 s1 left length_mem_write [OF w] unfolding loop_post_def by auto
qed

context byte_source
begin

lemma loop_spec:
  assumes "input_ok ok s" and "rb_buf (rl_rbuf s) = Some m" and "base + mx \<le> length m"
    and "n \<le> mx" and "left \<le> mx" and "mx \<le> INT_MAX"
  shows "\<exists>ret n' left' s' m'. read_n_loop rd base len mx n left s = Some (ret, n', left', s') \<and>
    input_ok ok s' \<and> loop_post avail base len mx n left s m ret n' left' s' m'"
  using assms
proof (induction "n - left" arbitrary: n left s m rule: less_induct)
  case less
  show ?case
  proof (cases "left < n")
    case False
    then have "read_n_loop rd base len mx n left s = Some (1, n, left, s)"
      by (simp add: read_n_loop.simps)
    moreover have "loop_post avail base len mx n left s m 1 n left s m"
      using False less.prems by (simp add: loop_post_def)
    ultimately show ?thesis
      using less.prems(1) by blast
  next
    case True
    show ?thesis
    proof (cases "rl_rbio s")
      case None
      let ?t = "rl_fail tls_AD_INTERNAL_ERROR tls_R_READ_BIO_NOT_SET s"
      have "read_n_loop rd base len mx n left s = Some (- 1, n, left, read_failed len left ?t)"
        using True None by (subst read_n_loop.simps) simp
      moreover have "loop_post avail base len mx n left s m (- 1) n left (read_failed len left ?t) m"
        using less.prems by (intro loop_post_failed) (simp_all add: input_avail_def)
      ultimately show ?thesis
        using None by (auto simp: input_ok_def)
    next
      case (Some b)
      have "0 < int (mx - left)" "int (mx - left) \<le> int INT_MAX" "ok b"
        using True less.prems Some by (simp_all add: input_ok_def)
      then obtain ret bs b' where rd: "rd b (int (mx - left)) = Some (ret, bs, b')" "ok b'"
        and res: "0 < ret \<and> int (length bs) = ret \<and> ret \<le> int (mx - left) \<and> avail b = bs @ avail b' \<or>
          ret \<le> 0 \<and> bs = [] \<and> avail b' = avail b"
        using read_law [of b "int (mx - left)"] by blast
      have rd': "rd b (to_int (usub mx left)) = Some (ret, bs, b')"
        using rd(1) to_int_diff less.prems by simp
      let ?t = "s\<lparr>rl_rwstate := tls_READING, rl_rbio := Some b'\<rparr>"
      show ?thesis
      proof (cases "ret \<le> 0")
        case le: True
        then have "read_n_loop rd base len mx n left s = Some (ret, n, left, read_failed len left ?t)"
          using True Some rd' by (subst read_n_loop.simps) (simp add: Let_def)
        moreover have "loop_post avail base len mx n left s m ret n left (read_failed len left ?t) m"
          using less.prems le res Some by (intro loop_post_failed) (auto simp: input_avail_def)
        ultimately show ?thesis
          using rd(2) by (auto simp: input_ok_def)
      next
        case pos: False
        let ?k = "nat ret"
        have k: "length bs = ?k" "left + ?k \<le> mx" "0 < ?k" and av: "avail b = bs @ avail b'"
          using pos res less.prems True by auto
        obtain m1 where m1: "mem_write m (base + left) bs = Some m1"
          using mem_write_total [of "base + left" bs m] k less.prems(3) by auto
        let ?n1 = "if rl_is_dtls s \<and> n > left + ?k then left + ?k else n"
        let ?s1 = "on_rbuf (rb_buf_update (\<lambda>_. Some m1)) ?t"
        have eq: "read_n_loop rd base len mx n left s = read_n_loop rd base len mx ?n1 (left + ?k) ?s1"
          using True Some rd' pos m1 rbytes_Some [OF less.prems(2)]
          by (subst read_n_loop.simps) (simp add: Let_def)
        have "?n1 - (left + ?k) < n - left"
          using True k by auto
        moreover have "input_ok ok ?s1" "base + mx \<le> length m1" "?n1 \<le> mx"
          using rd(2) less.prems length_mem_write [OF m1] k by (auto simp: input_ok_def)
        ultimately obtain r n' l' s' m' where
          ih: "read_n_loop rd base len mx ?n1 (left + ?k) ?s1 = Some (r, n', l', s')" "input_ok ok s'"
            "loop_post avail base len mx ?n1 (left + ?k) ?s1 m1 r n' l' s' m'"
          using less.hyps [of ?n1 "left + ?k" ?s1 m1] k less.prems(6) by auto
        have "loop_post avail base len mx n left s m r n' l' s' m'"
          using av Some k by (intro loop_post_step [OF m1 k(1) ih(3)]) (auto simp: input_avail_def)
        then show ?thesis
          using eq ih by auto
      qed
    qed
  qed
qed

end

text \<open>
  After the buffer has been set up and the data moved, the record is collected at \<open>packet\<close>: \<open>pre\<close>
  are the bytes of the packet so far.
\<close>

definition collecting :: "'b rlayer \<Rightarrow> bytes \<Rightarrow> 'b rlayer \<Rightarrow> bool" where
  "collecting s0 pre s \<longleftrightarrow> rbuf_ok s \<and> packet_ok s \<and> packet_bytes s = pre \<and> unread s = unread s0 \<and>
     rl_packet_length s = length pre \<and> rl_rbio s = rl_rbio s0 \<and> rl_is_dtls s = rl_is_dtls s0 \<and>
     rb_left (rl_rbuf s) = rb_left (rl_rbuf s0)"

lemma length_packet_bytes: "rbuf_ok s \<Longrightarrow> packet_ok s \<Longrightarrow> length (packet_bytes s) = rl_packet_length s"
  by (auto simp: packet_ok_def rbuf_ok_def packet_bytes_def rbytes_def Let_def)

lemma collecting_start:
  assumes "rbuf_ok s" and "rb_buf (rl_rbuf s) \<noteq> None" and "ext \<Longrightarrow> packet_ok s"
  shows "\<exists>t. (if ext then Some s else read_n_start (payload_align (rb_addr (rl_rbuf s))) s) = Some t \<and>
    collecting s (if ext then packet_bytes s else []) t \<and> rb_addr (rl_rbuf t) = rb_addr (rl_rbuf s) \<and>
    rb_len (rl_rbuf t) = rb_len (rl_rbuf s) \<and> (ext \<longrightarrow> t = s)"
proof (cases ext)
  case True
  then show ?thesis
    using assms length_packet_bytes [of s] by (simp add: collecting_def)
next
  case False
  obtain m where "rb_buf (rl_rbuf s) = Some m"
    using assms(2) by auto
  from read_n_start_spec [OF assms(1) this] False show ?thesis
    by (auto simp: collecting_def same_conf_def packet_bytes_def)
qed

lemma collecting_clearold:
  assumes "collecting s0 pre t"
  shows "\<exists>u. (if rl_packet t \<noteq> payload_align (rb_addr (rl_rbuf t)) \<and> clearold
      then read_n_clearold (payload_align (rb_addr (rl_rbuf t))) t else Some t) = Some u \<and>
    collecting s0 pre u \<and> rb_addr (rl_rbuf u) = rb_addr (rl_rbuf t) \<and> rb_len (rl_rbuf u) = rb_len (rl_rbuf t) \<and>
    (clearold \<or> rl_packet t = payload_align (rb_addr (rl_rbuf t)) \<longrightarrow>
       rl_packet u = payload_align (rb_addr (rl_rbuf t)))"
proof (cases "rl_packet t \<noteq> payload_align (rb_addr (rl_rbuf t)) \<and> clearold")
  case True
  have "rbuf_ok t" "packet_ok t"
    using assms by (simp_all add: collecting_def)
  from clearold_spec [OF this] True assms show ?thesis
    by (auto simp: collecting_def same_conf_def)
qed (use assms in auto)

text \<open>Taking \<open>n\<close> of the \<open>left\<close> bytes that follow the packet.\<close>

lemma read_n_take_fields [simp]:
  "rl_packet (read_n_take left n s) = rl_packet s"
  "rl_packet_length (read_n_take left n s) = rl_packet_length s + n"
  "rl_rbio (read_n_take left n s) = rl_rbio s" "rbytes (read_n_take left n s) = rbytes s"
  "rb_offset (rl_rbuf (read_n_take left n s)) = rb_offset (rl_rbuf s) + n"
  "rb_left (rl_rbuf (read_n_take left n s)) = left - n"
  "rb_buf (rl_rbuf (read_n_take left n s)) = rb_buf (rl_rbuf s)"
  "rb_len (rl_rbuf (read_n_take left n s)) = rb_len (rl_rbuf s)"
  "rb_addr (rl_rbuf (read_n_take left n s)) = rb_addr (rl_rbuf s)"
  by (simp_all add: read_n_take_def rbytes_def)

lemma take_spec:
  assumes "packet_ok s" and "rb_buf (rl_rbuf s) = Some m" and "length m = rb_len (rl_rbuf s)"
    and "8 \<le> rb_len (rl_rbuf s)" and "rb_len (rl_rbuf s) \<le> INT_MAX"
    and "rb_offset (rl_rbuf s) + left \<le> rb_len (rl_rbuf s)" and "n \<le> left"
  defines "s' \<equiv> read_n_take left n s"
  shows "rbuf_ok s'" "packet_ok s'" "length (packet_bytes s') = rl_packet_length s + n"
    and "packet_bytes s' @ unread s' = packet_bytes s @ seg m (rb_offset (rl_rbuf s)) left"
proof -
  have rb: "rbytes s = m" using assms(2) by (rule rbytes_Some)
  have pk: "rl_packet s + rl_packet_length s = rb_offset (rl_rbuf s)"
      "payload_align (rb_addr (rl_rbuf s)) \<le> rl_packet s"
    using assms(1) by (simp_all add: packet_ok_def)
  show ok: "rbuf_ok s'" and pok: "packet_ok s'"
    using assms pk by (simp_all add: s'_def rbuf_ok_def packet_ok_def Let_def)
  show "length (packet_bytes s') = rl_packet_length s + n"
    using length_packet_bytes [OF ok pok] by (simp add: s'_def)
  have "packet_bytes s' @ unread s' = seg m (rl_packet s) (rl_packet_length s + left)"
    using packet_unread_contiguous [OF pok] assms(7) by (simp add: s'_def rb add.assoc)
  also have "\<dots> = packet_bytes s @ seg m (rb_offset (rl_rbuf s)) left"
    using pk by (simp add: seg_append_split packet_bytes_def rb)
  finally show "packet_bytes s' @ unread s' = packet_bytes s @ seg m (rb_offset (rl_rbuf s)) left" .
qed

text \<open>
  What a call of \<open>tls3_read_n\<close> promises: on success the packet has grown by \<open>k\<close> bytes, which are the
  next ones of the input; on failure the input is where it was and can be read again.
\<close>

definition read_post :: "('b \<Rightarrow> bytes) \<Rightarrow> nat \<Rightarrow> bytes \<Rightarrow> 'b rlayer \<Rightarrow> int \<Rightarrow> nat option \<Rightarrow> 'b rlayer \<Rightarrow> bool" where
  "read_post avail n pre s ret rb s' \<longleftrightarrow> rbuf_ok s' \<and>
     (case rb of
        Some k \<Rightarrow> ret = 1 \<and> packet_ok s' \<and> 0 < k \<and> k \<le> n \<and> (\<not> rl_is_dtls s \<longrightarrow> k = n) \<and>
          length (packet_bytes s') = length pre + k \<and>
          packet_bytes s' @ unread s' @ input_avail avail s' = pre @ unread s @ input_avail avail s
      | None \<Rightarrow> ret \<le> 0 \<and> unread s' @ input_avail avail s' = unread s @ input_avail avail s \<and>
          (pre \<noteq> [] \<longrightarrow> packet_ok s' \<and> packet_bytes s' = pre))"

lemma collecting_fields:
  assumes "collecting s0 pre s"
  obtains m where "rb_buf (rl_rbuf s) = Some m" "rbytes s = m" "length m = rb_len (rl_rbuf s)"
    "8 \<le> rb_len (rl_rbuf s)" "rb_len (rl_rbuf s) \<le> INT_MAX"
    "rb_offset (rl_rbuf s) + rb_left (rl_rbuf s) \<le> rb_len (rl_rbuf s)"
    "rl_packet s + length pre = rb_offset (rl_rbuf s)"
    "unread s0 = seg m (rb_offset (rl_rbuf s)) (rb_left (rl_rbuf s))" "pre = seg m (rl_packet s) (length pre)"
proof -
  have ok: "rbuf_ok s" "packet_ok s" "packet_bytes s = pre" "unread s = unread s0"
    "rl_packet_length s = length pre"
    using assms by (simp_all add: collecting_def)
  obtain m where m: "rb_buf (rl_rbuf s) = Some m"
    using ok(2) by (auto simp: packet_ok_def)
  moreover have "rbytes s = m"
    using m by (rule rbytes_Some)
  moreover have "rb_offset (rl_rbuf s) + rb_left (rl_rbuf s) \<le> rb_len (rl_rbuf s)"
    using ok m by (cases "rb_left (rl_rbuf s)") (simp_all add: packet_ok_def rbuf_ok_def Let_def)
  ultimately show ?thesis
    using that ok by (simp add: packet_ok_def rbuf_ok_def Let_def unread_def packet_bytes_def)
qed

lemma fill_from_buffer:
  assumes c: "collecting s0 pre s" and n: "0 < n" "n \<le> rb_left (rl_rbuf s)" "n \<le> n0"
    and "\<not> rl_is_dtls s0 \<longrightarrow> n = n0"
  shows "read_post avail n0 pre s0 1 (Some n) (read_n_take (rb_left (rl_rbuf s)) n s)"
proof -
  obtain m where m: "rb_buf (rl_rbuf s) = Some m" "rbytes s = m" "length m = rb_len (rl_rbuf s)"
    "8 \<le> rb_len (rl_rbuf s)" "rb_len (rl_rbuf s) \<le> INT_MAX"
    "rb_offset (rl_rbuf s) + rb_left (rl_rbuf s) \<le> rb_len (rl_rbuf s)"
    "unread s0 = seg m (rb_offset (rl_rbuf s)) (rb_left (rl_rbuf s))"
    using c by (rule collecting_fields)
  have pk: "packet_ok s" "packet_bytes s = pre" "rl_packet_length s = length pre" "rl_rbio s = rl_rbio s0"
    using c by (simp_all add: collecting_def)
  note t = take_spec [OF pk(1) m(1,3-6) n(2)]
  show ?thesis
    using t n assms(5) pk(2-4) m(7)
    unfolding read_post_def by (simp add: input_avail_def)
qed

lemma fill_from_loop:
  assumes c: "collecting s0 pre s" and n: "0 < n" "n \<le> n0" "\<not> rl_is_dtls s0 \<longrightarrow> n = n0"
    and align: "rl_packet s = align" and m: "rb_buf (rl_rbuf s) = Some m"
    and room: "align + length pre + mx \<le> rb_len (rl_rbuf s)"
    and post: "loop_post avail (align + length pre) (length pre) mx n (rb_left (rl_rbuf s)) s m ret n' left' s' m'"
  shows "if ret \<le> 0 then read_post avail n0 pre s0 ret None s'
    else read_post avail n0 pre s0 1 (Some n') ((read_n_take left' n' s')\<lparr>rl_rwstate := tls_NOTHING\<rparr>)"
proof -
  let ?b = "rl_rbuf s" and ?base = "align + length pre" and ?left = "rb_left (rl_rbuf s)"
  have f: "rbytes s = m" "length m = rb_len ?b" "8 \<le> rb_len ?b" "rb_len ?b \<le> INT_MAX"
    "align + length pre = rb_offset ?b" "unread s0 = seg m (rb_offset ?b) ?left"
    "pre = seg m align (length pre)"
    using c m align by (auto elim: collecting_fields)
  have pk: "packet_ok s" "packet_bytes s = pre" "rl_packet_length s = length pre" "rl_rbio s = rl_rbio s0"
    "rl_is_dtls s = rl_is_dtls s0"
    using c by (simp_all add: collecting_def)
  have len': "length m' = rb_len ?b" and left': "?left \<le> left'" "?base + left' \<le> rb_len ?b"
    and tk: "take (?base + ?left) m' = take (?base + ?left) m"
    and inp: "seg m' (?base + ?left) (left' - ?left) @ input_avail avail s' = input_avail avail s"
    and place: "rl_packet s' = align" "rl_packet_length s' = length pre"
      "rb_offset (rl_rbuf s') = ?base" "rb_len (rl_rbuf s') = rb_len ?b" "rb_addr (rl_rbuf s') = rb_addr ?b"
    using post f room align pk by (simp_all add: loop_post_def)
  have un: "seg m' ?base left' = unread s0 @ seg m' (?base + ?left) (left' - ?left)"
    using seg_append_split [of m' ?base ?left "left' - ?left"] left' seg_cong_take [of ?base ?left m' m, OF tk] f
    by simp
  have pre': "seg m' align (length pre) = pre"
    using f(7) seg_cong_take [of align "length pre" m' m] take_mono_eq [OF tk, of ?base] by simp
  have av: "input_avail avail s = input_avail avail s0"
    using pk by (simp add: input_avail_def)
  have pok: "payload_align (rb_addr ?b) \<le> align" "?base \<le> rb_len ?b"
    using pk(1) align left' by (simp_all add: packet_ok_def)
  show ?thesis
  proof (cases "ret \<le> 0")
    case True
    then have rl: "rb_left (rl_rbuf s') = left'"
      and buf: "rb_buf (rl_rbuf s') = Some m' \<or> rb_buf (rl_rbuf s') = None \<and> length pre + left' = 0"
      using post by (simp_all add: loop_post_def)
    show ?thesis
    proof (cases "rb_buf (rl_rbuf s')")
      case None
      then have "rbuf_ok s'" "unread s' = []" "pre = []" "left' = 0"
        using buf rl by (auto simp: rbuf_ok_def unread_def)
      then show ?thesis
        using True un inp av left' by (simp add: read_post_def)
    next
      case (Some x)
      then have x: "x = m'" "rbytes s' = m'"
        using buf by (auto simp: rbytes_def)
      then have "rbuf_ok s'" "packet_ok s'" "packet_bytes s' = pre" "unread s' = seg m' ?base left'"
        using Some len' f place rl left' pok pre'
        by (auto simp: rbuf_ok_def packet_ok_def packet_bytes_def unread_def)
      then show ?thesis
        using True un inp av by (simp add: read_post_def)
    qed
  next
    case False
    then have ret: "ret = 1"
      using post by (auto simp: loop_post_def split: if_splits)
    then have buf: "rb_buf (rl_rbuf s') = Some m'" and n': "n' \<le> left'" "n' \<le> n" "0 < n'"
      "\<not> rl_is_dtls s0 \<longrightarrow> n' = n0"
      using post n pk by (simp_all add: loop_post_def)
    have "packet_ok s'" "packet_bytes s' = pre"
      using buf place pok pre' by (simp_all add: packet_ok_def packet_bytes_def rbytes_def)
    note t = take_spec [OF this(1) buf, of left' n'] this
    let ?t = "read_n_take left' n' s'"
    have t': "rbuf_ok ?t" "packet_ok ?t" "length (packet_bytes ?t) = length pre + n'"
        "packet_bytes ?t @ unread ?t = pre @ seg m' ?base left'"
      using t len' f place left' n' by simp_all
    moreover have "rbuf_ok (?t\<lparr>rl_rwstate := tls_NOTHING\<rparr>) = rbuf_ok ?t"
      "packet_ok (?t\<lparr>rl_rwstate := tls_NOTHING\<rparr>) = packet_ok ?t"
      "packet_bytes (?t\<lparr>rl_rwstate := tls_NOTHING\<rparr>) = packet_bytes ?t"
      "unread (?t\<lparr>rl_rwstate := tls_NOTHING\<rparr>) = unread ?t"
      "input_avail avail (?t\<lparr>rl_rwstate := tls_NOTHING\<rparr>) = input_avail avail s'"
      by (simp_all add: rbuf_ok_def packet_ok_def packet_bytes_def unread_def input_avail_def)
    moreover have "packet_bytes ?t @ unread ?t @ input_avail avail s' =
        pre @ unread s0 @ input_avail avail s0"
      using t'(4) un inp av by (metis append.assoc)
    ultimately show ?thesis
      using ret n n' unfolding read_post_def by simp
  qed
qed

lemma read_post_stay:
  assumes "collecting s0 pre s" and "ret \<le> 0"
  shows "read_post avail n0 pre s0 ret None s"
    and "read_post avail n0 pre s0 ret None (rl_fail al rs s)"
proof -
  have "rbuf_ok (rl_fail al rs s) = rbuf_ok s" "packet_ok (rl_fail al rs s) = packet_ok s"
    "packet_bytes (rl_fail al rs s) = packet_bytes s" "unread (rl_fail al rs s) = unread s"
    by (simp_all add: rbuf_ok_def packet_ok_def packet_bytes_def unread_def)
  then show "read_post avail n0 pre s0 ret None s" "read_post avail n0 pre s0 ret None (rl_fail al rs s)"
    using assms by (simp_all add: read_post_def collecting_def input_avail_def)
qed

context byte_source
begin

lemma fill_spec:
  assumes c: "collecting s0 pre s" and n: "0 < n" and io: "input_ok ok s0"
    and place: "rl_packet s = align \<or> n \<le> rb_left (rl_rbuf s)"
  shows "\<exists>ret rb s'. read_n_fill rd n mx ext align s = Some (ret, rb, s') \<and> input_ok ok s' \<and>
    read_post avail n pre s0 ret rb s'"
proof -
  let ?b = "rl_rbuf s" and ?left = "rb_left (rl_rbuf s)"
  obtain m where m: "rb_buf ?b = Some m" "length m = rb_len ?b" "rb_len ?b \<le> INT_MAX"
    "rb_offset ?b + ?left \<le> rb_len ?b" "rl_packet s + length pre = rb_offset ?b"
    using c by (rule collecting_fields)
  have bio: "rl_rbio s = rl_rbio s0" and dtls: "rl_is_dtls s = rl_is_dtls s0"
    and pl: "rl_packet_length s = length pre"
    using c by (simp_all add: collecting_def)
  have io': "input_ok ok s" "input_ok ok (rl_fail al rs s)" "input_ok ok (read_n_take l k s)" for al rs l k
    using io bio by (simp_all add: input_ok_def)
  define n1 where "n1 = (if rl_is_dtls s \<and> ?left > 0 \<and> n > ?left then ?left else n)"
  have n1: "0 < n1" "n1 \<le> n" "\<not> rl_is_dtls s0 \<longrightarrow> n1 = n" "\<not> ?left \<ge> n1 \<longrightarrow> rl_packet s = align"
    using n place dtls by (auto simp: n1_def)
  define room where "room = usub (rb_len ?b) (rb_offset ?b)"
  have room: "room = rb_len ?b - rb_offset ?b"
    using m by (simp add: room_def usub_eq INT_MAX_def SIZE_MAX_def)
  define mx1 where "mx1 = (if \<not> rl_ktls_recv s \<and> \<not> rl_read_ahead s \<and> \<not> rl_is_dtls s then n1
      else min (max mx n1) room)"
  note unf = read_n_fill_def Let_def n1_def [symmetric] room_def [symmetric] mx1_def [symmetric] pl
  consider (dtls) "rl_is_dtls s \<and> ?left = 0 \<and> ext" | (buf) "\<not> (rl_is_dtls s \<and> ?left = 0 \<and> ext)" "?left \<ge> n1"
    | (full) "\<not> (rl_is_dtls s \<and> ?left = 0 \<and> ext)" "\<not> ?left \<ge> n1" "n1 > room"
    | (read) "\<not> (rl_is_dtls s \<and> ?left = 0 \<and> ext)" "\<not> ?left \<ge> n1" "\<not> n1 > room"
    by blast
  then show ?thesis
  proof cases
    case dtls
    then show ?thesis
      using read_post_stay(1) [OF c, of 0] io' unfolding unf by auto
  next
    case buf
    then show ?thesis
      using fill_from_buffer [OF c n1(1) buf(2) n1(2,3)] io' unfolding unf by auto
  next
    case full
    then show ?thesis
      using read_post_stay(2) [OF c, of "- 1"] io' unfolding unf by auto
  next
    case read
    then have mx1: "n1 \<le> mx1" "mx1 \<le> room" and al: "rl_packet s = align"
      using n1 by (auto simp: mx1_def)
    have sp: "align + length pre + mx1 \<le> rb_len ?b" "?left \<le> mx1" "mx1 \<le> INT_MAX"
      using mx1 room m al read(2) by auto
    obtain ret n' left' s' m' where
      l: "read_n_loop rd (align + length pre) (length pre) mx1 n1 ?left s = Some (ret, n', left', s')"
        "input_ok ok s'"
        "loop_post avail (align + length pre) (length pre) mx1 n1 ?left s m ret n' left' s' m'"
      using loop_spec [OF io'(1) m(1), of "align + length pre" mx1 n1 ?left "length pre"] sp mx1 m(2)
      by auto
    have post: "if ret \<le> 0 then read_post avail n pre s0 ret None s'
        else read_post avail n pre s0 1 (Some n') ((read_n_take left' n' s')\<lparr>rl_rwstate := tls_NOTHING\<rparr>)"
      by (rule fill_from_loop [OF c n1(1-3) al m(1) sp(1) l(3)])
    have "input_ok ok ((read_n_take left' n' s')\<lparr>rl_rwstate := tls_NOTHING\<rparr>)"
      using l(2) by (simp add: input_ok_def)
    moreover have "read_n_fill rd n mx ext align s = (if ret \<le> 0 then Some (ret, None, s')
        else Some (1, Some n', (read_n_take left' n' s')\<lparr>rl_rwstate := tls_NOTHING\<rparr>))"
      using read l(1) unfolding unf by auto
    ultimately show ?thesis
      using post l(2) by (cases "ret \<le> 0") simp_all
  qed
qed

lemma read_n_spec:
  assumes mal: "malloc_ok malloc" and ok: "rbuf_ok s" and io: "input_ok ok s"
    and dl: "rb_default_len (rl_rbuf s) \<le> INT_MAX" and n: "0 < n" and pk: "ext \<Longrightarrow> packet_ok s"
    and place: "clearold \<or> n \<le> rb_left (rl_rbuf s) \<or>
      ext \<and> rl_packet s = payload_align (rb_addr (rl_rbuf s))"
  shows "\<exists>ret rb s'. tls3_read_n malloc rd n mx ext clearold s = Some (ret, rb, s') \<and> input_ok ok s' \<and>
    read_post avail n (if ext then packet_bytes s else []) s ret rb s'"
proof -
  let ?pre = "if ext then packet_bytes s else []"
  obtain okay t where t: "(if rb_buf (rl_rbuf s) = None then tls3_setup_read_buffer malloc s else (True, s)) = (okay, t)"
    by fastforce
  show ?thesis
  proof (cases okay)
    case False
    then have none: "rb_buf (rl_rbuf s) = None" and tt: "t = rl_fail tls_AD_NO_ALERT ERR_R_MALLOC_FAILURE s"
      using t setup_spec [OF mal ok _ dl] by (auto split: if_splits)
    then have "\<not> ext" using pk by (auto simp: packet_ok_def)
    then have "read_post avail n ?pre s (- 1) None t"
      using ok unfolding tt by (simp add: read_post_def rbuf_ok_def unread_def input_avail_def)
    moreover have "input_ok ok t" using io unfolding tt by (simp add: input_ok_def)
    ultimately show ?thesis
      using t False n by (simp add: tls3_read_n_def)
  next
    case True
    have tok: "rbuf_ok t" "rb_buf (rl_rbuf t) \<noteq> None" "unread t = unread s" "rl_rbio t = rl_rbio s"
      "rl_is_dtls t = rl_is_dtls s" "rb_left (rl_rbuf t) = rb_left (rl_rbuf s)" "ext \<longrightarrow> t = s"
      using t True setup_spec [OF mal ok _ dl] ok pk
      by (auto simp: rbuf_ok_def packet_ok_def Let_def split: if_splits option.splits)
    let ?al = "payload_align (rb_addr (rl_rbuf t))"
    obtain u where u: "(if ext then Some t else read_n_start ?al t) = Some u"
      "collecting t ?pre u" "rb_addr (rl_rbuf u) = rb_addr (rl_rbuf t)" "ext \<longrightarrow> u = t"
      using collecting_start [OF tok(1,2), of ext] tok(7) pk by (cases ext) auto
    obtain v where v: "(if rl_packet u \<noteq> ?al \<and> clearold then read_n_clearold ?al u else Some u) = Some v"
      "collecting t ?pre v" "clearold \<or> rl_packet u = ?al \<longrightarrow> rl_packet v = ?al"
      using collecting_clearold [OF u(2), of clearold] unfolding u(3) by blast
    have c: "collecting s ?pre v"
      using v(2) tok by (simp add: collecting_def)
    have "rl_packet v = ?al \<or> n \<le> rb_left (rl_rbuf v)"
      using place v(2,3) u(4) tok(6,7) by (auto simp: collecting_def)
    from fill_spec [OF c n io this, of mx ext] show ?thesis
      using t True n u(1) v(1) by (simp add: tls3_read_n_def)
  qed
qed

end

context prompt_source
begin

lemma loop_prompt:
  assumes "input_ok ok s" and "rl_rbio s \<noteq> None" and "left \<le> mx" and "n \<le> mx" and "mx \<le> INT_MAX"
    and "n \<le> left + length (input_avail avail s)"
    and "read_n_loop rd base len mx n left s = Some (ret, n', left', s')"
  shows "ret = 1"
  using assms
proof (induction "n - left" arbitrary: n left s rule: less_induct)
  case less
  show ?case
  proof (cases "left < n")
    case False
    then show ?thesis
      using less.prems(7) by (simp add: read_n_loop.simps)
  next
    case True
    obtain b where b: "rl_rbio s = Some b"
      using less.prems(2) by auto
    then have av: "input_avail avail s = avail b" "ok b" "avail b \<noteq> []"
      using less.prems True by (auto simp: input_avail_def input_ok_def)
    have range: "0 < int (mx - left)" "int (mx - left) \<le> int INT_MAX"
      using True less.prems by simp_all
    then obtain r bs b' where rd: "rd b (int (mx - left)) = Some (r, bs, b')" "ok b'"
      and res: "0 < r \<and> int (length bs) = r \<and> r \<le> int (mx - left) \<and> avail b = bs @ avail b' \<or>
        r \<le> 0 \<and> bs = [] \<and> avail b' = avail b"
      using read_law [OF av(2), of "int (mx - left)"] by blast
    have "bs = take (mx - left) (avail b)"
      using prompt [OF av(2) range av(3) rd(1)] by simp
    then have "bs \<noteq> []"
      using av(3) range(1) by simp
    then have r: "0 < r" "length bs = nat r" "nat r \<le> mx - left" "avail b = bs @ avail b'"
      using res by auto
    have rd': "rd b (to_int (usub mx left)) = Some (r, bs, b')"
      using rd(1) to_int_diff less.prems by simp
    let ?t = "s\<lparr>rl_rwstate := tls_READING, rl_rbio := Some b'\<rparr>"
    let ?n1 = "if rl_is_dtls s \<and> n > left + nat r then left + nat r else n"
    obtain m1 where m1: "mem_write (rbytes s) (base + left) bs = Some m1"
      using less.prems(7) True b rd' r(1) by (subst (asm) read_n_loop.simps) (auto simp: Let_def split: option.splits)
    let ?s1 = "on_rbuf (rb_buf_update (\<lambda>_. Some m1)) ?t"
    have "read_n_loop rd base len mx ?n1 (left + nat r) ?s1 = Some (ret, n', left', s')"
      using less.prems(7) True b rd' r(1) m1 by (subst (asm) read_n_loop.simps) (simp add: Let_def)
    moreover have "?n1 - (left + nat r) < n - left"
      using True r by auto
    moreover have "input_ok ok ?s1" "rl_rbio ?s1 \<noteq> None" "left + nat r \<le> mx" "?n1 \<le> mx"
      "?n1 \<le> left + nat r + length (input_avail avail ?s1)"
      using rd(2) r less.prems True av by (auto simp: input_ok_def input_avail_def)
    ultimately show ?thesis
      using less.hyps [of ?n1 "left + nat r" ?s1] less.prems(5) by blast
  qed
qed

lemma fill_prompt:
  assumes c: "collecting s0 pre s" and n: "0 < n" and io: "input_ok ok s0" and bio: "rl_rbio s0 \<noteq> None"
    and al: "rl_packet s = align" and fits: "align + length pre + n \<le> rb_len (rl_rbuf s)"
    and enough: "n \<le> rb_left (rl_rbuf s) + length (input_avail avail s0)" and tls: "\<not> rl_is_dtls s0"
  shows "\<exists>s'. read_n_fill rd n mx ext align s = Some (1, Some n, s')"
proof -
  let ?b = "rl_rbuf s" and ?left = "rb_left (rl_rbuf s)"
  obtain m where m: "rb_buf ?b = Some m" "length m = rb_len ?b" "rb_len ?b \<le> INT_MAX"
    "rb_offset ?b + ?left \<le> rb_len ?b" "rl_packet s + length pre = rb_offset ?b"
    using c by (rule collecting_fields)
  have s: "rl_rbio s = rl_rbio s0" "rl_packet_length s = length pre" "rl_is_dtls s = rl_is_dtls s0"
    using c by (simp_all add: collecting_def)
  have room: "usub (rb_len ?b) (rb_offset ?b) = rb_len ?b - rb_offset ?b"
    using m by (simp add: usub_eq INT_MAX_def SIZE_MAX_def)
  obtain ret rb s' where res: "read_n_fill rd n mx ext align s = Some (ret, rb, s')"
    and post: "read_post avail n pre s0 ret rb s'"
    using fill_spec [OF c n io disjI1 [OF al], of mx ext] by blast
  have "ret = 1"
  proof (cases "n \<le> ?left")
    case True
    then show ?thesis
      using res s tls by (simp add: read_n_fill_def Let_def)
  next
    case False
    let ?mx = "if \<not> rl_ktls_recv s \<and> \<not> rl_read_ahead s \<and> \<not> rl_is_dtls s then n
      else min (max mx n) (rb_len ?b - rb_offset ?b)"
    have mx: "?left \<le> ?mx" "n \<le> ?mx" "?mx \<le> INT_MAX" and nr: "\<not> n > rb_len ?b - rb_offset ?b"
      using False fits m al by auto
    have sp: "align + length pre + ?mx \<le> length m" and io': "input_ok ok s" and nd: "\<not> rl_is_dtls s"
      using fits m al io s tls by (auto simp: input_ok_def)
    have n1: "(if rl_is_dtls s \<and> 0 < ?left \<and> ?left < n then ?left else n) = n"
      using nd by simp
    obtain r n' l t where l: "read_n_loop rd (align + length pre) (length pre) ?mx n ?left s = Some (r, n', l, t)"
      using loop_spec [OF io' m(1) sp mx(2,1,3), of "length pre"] by blast
    have "r = 1"
      using loop_prompt [OF _ _ mx _ l] io bio enough s by (simp add: input_ok_def input_avail_def)
    then show ?thesis
      using res l False nr s(2) nd unfolding read_n_fill_def Let_def room n1 by simp
  qed
  then show ?thesis
    using res post tls by (auto simp: read_post_def split: option.splits)
qed

lemma read_n_prompt:
  assumes ok: "rbuf_ok s" and io: "input_ok ok s" and buf: "rb_buf (rl_rbuf s) \<noteq> None"
    and bio: "rl_rbio s \<noteq> None" and n: "0 < n" and pk: "ext \<Longrightarrow> packet_ok s" and tls: "\<not> rl_is_dtls s"
    and clear: "clearold \<or> ext \<and> rl_packet s = payload_align (rb_addr (rl_rbuf s))"
    and fits: "payload_align (rb_addr (rl_rbuf s)) + (if ext then rl_packet_length s else 0) + n
      \<le> rb_len (rl_rbuf s)"
    and enough: "n \<le> length (unread s) + length (input_avail avail s)"
  shows "\<exists>s'. tls3_read_n malloc rd n mx ext clearold s = Some (1, Some n, s')"
proof -
  let ?pre = "if ext then packet_bytes s else []" and ?al = "payload_align (rb_addr (rl_rbuf s))"
  obtain u where u: "(if ext then Some s else read_n_start ?al s) = Some u"
    "collecting s ?pre u" "rb_addr (rl_rbuf u) = rb_addr (rl_rbuf s)" "rb_len (rl_rbuf u) = rb_len (rl_rbuf s)"
    "ext \<longrightarrow> u = s"
    using collecting_start [OF ok buf pk] by blast
  obtain v where v: "(if rl_packet u \<noteq> ?al \<and> clearold then read_n_clearold ?al u else Some u) = Some v"
    "collecting s ?pre v" "rb_len (rl_rbuf v) = rb_len (rl_rbuf u)"
    "clearold \<or> rl_packet u = ?al \<longrightarrow> rl_packet v = ?al"
    using collecting_clearold [OF u(2), of clearold] unfolding u(3) by blast
  have al: "rl_packet v = ?al"
    using clear v(4) u(5) by blast
  have "length ?pre = (if ext then rl_packet_length s else 0)"
    using ok pk length_packet_bytes by (cases ext) simp_all
  moreover have "rb_left (rl_rbuf v) = rb_left (rl_rbuf s)"
    using v(2) by (simp add: collecting_def)
  moreover have "length (unread s) \<le> rb_left (rl_rbuf s)"
    by (simp add: unread_def)
  ultimately have "\<exists>s'. read_n_fill rd n mx ext ?al v = Some (1, Some n, s')"
    using fits enough v(3) u(4) by (intro fill_prompt [OF v(2) n io bio al _ _ tls]) simp_all
  then show ?thesis
    using u(1) v(1) n buf by (cases "rb_buf (rl_rbuf s)") (simp_all add: tls3_read_n_def)
qed

end

text \<open>
  C13: \<open>tls3_read_n\<close> refines a byte stream. Over the memory BIO, and for the ways the record layer calls
  it (the packet is moved to the front, or is already there, or the bytes are in the buffer), the
  function never leaves its buffer and keeps the buffer invariant. If it succeeds, the packet has
  grown by the next \<open>k\<close> bytes of the input (\<open>k = n\<close> for TLS), so that packet, unread bytes and
  bytes still in the BIO together are the input as it was: no byte is lost, repeated or
  reordered by reading ahead, partial reads and moves inside the buffer. If it fails, the unread
  input and the packet so far are unchanged and the call can be repeated.
\<close>

theorem tls3_read_n_refines_stream:
  assumes "malloc_ok malloc" and "rbuf_ok s" and "input_ok mem_bio_ok s"
    and "rb_default_len (rl_rbuf s) \<le> INT_MAX" and "0 < n" and "ext \<Longrightarrow> packet_ok s"
    and "clearold \<or> n \<le> rb_left (rl_rbuf s) \<or>
      ext \<and> rl_packet s = payload_align (rb_addr (rl_rbuf s))"
  defines "pre \<equiv> (if ext then packet_bytes s else [])"
  shows "\<exists>ret rb s'. tls3_read_n malloc BIO_read n mx ext clearold s = Some (ret, rb, s') \<and>
    rbuf_ok s' \<and> input_ok mem_bio_ok s' \<and>
    (case rb of
       Some k \<Rightarrow> ret = 1 \<and> packet_ok s' \<and> 0 < k \<and> k \<le> n \<and> (\<not> rl_is_dtls s \<longrightarrow> k = n) \<and>
         length (packet_bytes s') = length pre + k \<and>
         packet_bytes s' @ unread s' @ input_avail pending s' = pre @ unread s @ input_avail pending s
     | None \<Rightarrow> ret \<le> 0 \<and> unread s' @ input_avail pending s' = unread s @ input_avail pending s \<and>
         (pre \<noteq> [] \<longrightarrow> packet_ok s' \<and> packet_bytes s' = pre))"
  using membio.read_n_spec [OF assms(1-7), of mx] unfolding read_post_def pre_def by blast

definition sample_rlayer :: "mem_bio rlayer" where
  "sample_rlayer = \<lparr>rl_rbuf = \<lparr>rb_buf = None, rb_addr = 0, rb_default_len = 0, rb_len = 0, rb_offset = 0, rb_left = 0\<rparr>,
     rl_packet = 0, rl_packet_length = 0, rl_read_ahead = True,
     rl_rbio = Some ((empty_bio \<lparr>b_length = 3, b_data = Some [22, 3, 3], b_max = 3, b_flags = 0\<rparr>)
       \<lparr>rp_length := 3, rp_max := 3, bm_init := True\<rparr>),
     rl_ktls_recv = False, rl_is_dtls = False, rl_release_buffers = False, rl_allow_compression = False,
     rl_rwstate = 1, rl_fatal = []\<rparr>"

theorem tls3_read_n_refines_stream_witness:
  "\<exists>ret rb s'. tls3_read_n (\<lambda>n. Some (64, replicate n 0)) BIO_read 2 9 False True sample_rlayer
      = Some (ret, rb, s') \<and> rbuf_ok s' \<and>
    (rb = Some 2 \<longrightarrow> packet_bytes s' @ unread s' @ input_avail pending s' = [22, 3, 3])"
proof -
  have "malloc_ok (\<lambda>n. Some (64, replicate n 0))" "rbuf_ok sample_rlayer" "input_ok mem_bio_ok sample_rlayer"
    "unread sample_rlayer @ input_avail pending sample_rlayer = [22, 3, 3]"
    by (simp_all add: malloc_ok_def rbuf_ok_def sample_rlayer_def input_ok_def mem_bio_ok_def empty_bio_def
        buf_ok_def unread_def input_avail_def pending_def cur_off_def cur_length_def block_def seg_def)
  then show ?thesis
    using tls3_read_n_refines_stream [of "\<lambda>n. Some (64, replicate n 0)" sample_rlayer 2 False True 9]
    by (auto simp: sample_rlayer_def INT_MAX_def split: option.splits)
qed

text \<open>
  Reading always makes progress: when the buffer and the BIO together hold the \<open>n\<close> bytes that are
  asked for and the packet fits into the buffer, \<open>tls3_read_n\<close> returns 1 with exactly \<open>n\<close> bytes,
  whatever part of them has been buffered before and whether or not it reads ahead.
\<close>

theorem tls3_read_n_succeeds:
  assumes "rbuf_ok s" and "input_ok mem_bio_ok s" and "rb_buf (rl_rbuf s) \<noteq> None"
    and "rl_rbio s \<noteq> None" and "0 < n" and "ext \<Longrightarrow> packet_ok s" and "\<not> rl_is_dtls s"
    and "clearold \<or> ext \<and> rl_packet s = payload_align (rb_addr (rl_rbuf s))"
    and "payload_align (rb_addr (rl_rbuf s)) + (if ext then rl_packet_length s else 0) + n
      \<le> rb_len (rl_rbuf s)"
    and "n \<le> length (unread s) + length (input_avail pending s)"
  shows "\<exists>s'. tls3_read_n malloc BIO_read n mx ext clearold s = Some (1, Some n, s')"
  using assms by (rule membio.read_n_prompt)

definition sample_rlayer2 :: "mem_bio rlayer" where
  "sample_rlayer2 = sample_rlayer\<lparr>rl_rbuf := \<lparr>rb_buf = Some (replicate 64 0), rb_addr = 64,
     rb_default_len = 0, rb_len = 64, rb_offset = 0, rb_left = 0\<rparr>\<rparr>"

theorem tls3_read_n_succeeds_witness:
  "\<exists>s'. tls3_read_n (\<lambda>n. None) BIO_read 2 9 False True sample_rlayer2 = Some (1, Some 2, s')"
  by (rule tls3_read_n_succeeds)
    (simp_all add: rbuf_ok_def sample_rlayer2_def sample_rlayer_def input_ok_def mem_bio_ok_def empty_bio_def
      buf_ok_def unread_def input_avail_def pending_def cur_off_def cur_length_def block_def seg_def
      payload_align_def rt_consts INT_MAX_def)

end
