(* ===== verification/Constant_Time.thy ===== *)
theory Constant_Time
  imports Memory
begin

text \<open>
  The branch-free primitives of \<open>include/internal/constant_time.h\<close>. A condition is a mask, all
  ones for true and zero for false, computed from the top bit of a word expression; choices are
  made by masking. \<open>unsigned int\<close> is \<open>32 word\<close>, \<open>size_t\<close> and \<open>uint64_t\<close> are \<open>64 word\<close>, and a C
  \<open>int\<close> is an \<open>int\<close> that is cast with \<open>of_int\<close> and read back with \<open>sint\<close>.

  The locale \<open>ct_masks\<close> is what the users of these functions rely on: the comparisons are the
  masks of the comparisons they stand for, and selection by such a mask is a conditional. It is
  interpreted for both widths.
\<close>

section \<open>Operations\<close>

subsection \<open>unsigned int and uint32_t\<close>

definition constant_time_msb :: "u32 \<Rightarrow> u32" where
  "constant_time_msb a = 0 - drop_bit (4 * 8 - 1) a"

definition constant_time_msb_32 :: "u32 \<Rightarrow> u32" where
  "constant_time_msb_32 a = 0 - drop_bit 31 a"

definition constant_time_lt :: "u32 \<Rightarrow> u32 \<Rightarrow> u32" where
  "constant_time_lt a b = constant_time_msb (a XOR ((a XOR b) OR ((a - b) XOR b)))"

definition constant_time_lt_8 :: "u32 \<Rightarrow> u32 \<Rightarrow> byte" where
  "constant_time_lt_8 a b = ucast (constant_time_lt a b)"

definition constant_time_ge :: "u32 \<Rightarrow> u32 \<Rightarrow> u32" where
  "constant_time_ge a b = NOT (constant_time_lt a b)"

definition constant_time_ge_8 :: "u32 \<Rightarrow> u32 \<Rightarrow> byte" where
  "constant_time_ge_8 a b = ucast (constant_time_ge a b)"

definition constant_time_is_zero :: "u32 \<Rightarrow> u32" where
  "constant_time_is_zero a = constant_time_msb (NOT a AND (a - 1))"

definition constant_time_is_zero_8 :: "u32 \<Rightarrow> byte" where
  "constant_time_is_zero_8 a = ucast (constant_time_is_zero a)"

definition constant_time_is_zero_32 :: "u32 \<Rightarrow> u32" where
  "constant_time_is_zero_32 a = constant_time_msb_32 (NOT a AND (a - 1))"

definition constant_time_eq :: "u32 \<Rightarrow> u32 \<Rightarrow> u32" where
  "constant_time_eq a b = constant_time_is_zero (a XOR b)"

definition constant_time_eq_8 :: "u32 \<Rightarrow> u32 \<Rightarrow> byte" where
  "constant_time_eq_8 a b = ucast (constant_time_eq a b)"

definition constant_time_eq_int :: "int \<Rightarrow> int \<Rightarrow> u32" where
  "constant_time_eq_int a b = constant_time_eq (of_int a) (of_int b)"

definition constant_time_eq_int_8 :: "int \<Rightarrow> int \<Rightarrow> byte" where
  "constant_time_eq_int_8 a b = constant_time_eq_8 (of_int a) (of_int b)"

text \<open>The barriers only keep the compiler from knowing the value.\<close>

definition value_barrier :: "u32 \<Rightarrow> u32" where
  "value_barrier a = (let r = a in r)"

definition value_barrier_32 :: "u32 \<Rightarrow> u32" where
  "value_barrier_32 a = (let r = a in r)"

definition constant_time_select :: "u32 \<Rightarrow> u32 \<Rightarrow> u32 \<Rightarrow> u32" where
  "constant_time_select m a b = (value_barrier m AND a) OR (value_barrier (NOT m) AND b)"

definition constant_time_select_8 :: "byte \<Rightarrow> byte \<Rightarrow> byte \<Rightarrow> byte" where
  "constant_time_select_8 m a b = ucast (constant_time_select (ucast m) (ucast a) (ucast b))"

definition constant_time_select_32 :: "u32 \<Rightarrow> u32 \<Rightarrow> u32 \<Rightarrow> u32" where
  "constant_time_select_32 m a b = (value_barrier_32 m AND a) OR (value_barrier_32 (NOT m) AND b)"

definition constant_time_select_int :: "u32 \<Rightarrow> int \<Rightarrow> int \<Rightarrow> int" where
  "constant_time_select_int m a b = sint (constant_time_select m (of_int a) (of_int b))"

subsection \<open>size_t and uint64_t\<close>

definition constant_time_msb_s :: "u64 \<Rightarrow> u64" where
  "constant_time_msb_s a = 0 - drop_bit (8 * 8 - 1) a"

definition constant_time_msb_64 :: "u64 \<Rightarrow> u64" where
  "constant_time_msb_64 a = 0 - drop_bit 63 a"

definition constant_time_lt_s :: "u64 \<Rightarrow> u64 \<Rightarrow> u64" where
  "constant_time_lt_s a b = constant_time_msb_s (a XOR ((a XOR b) OR ((a - b) XOR b)))"

definition constant_time_lt_64 :: "u64 \<Rightarrow> u64 \<Rightarrow> u64" where
  "constant_time_lt_64 a b = constant_time_msb_64 (a XOR ((a XOR b) OR ((a - b) XOR b)))"

definition constant_time_ge_s :: "u64 \<Rightarrow> u64 \<Rightarrow> u64" where
  "constant_time_ge_s a b = NOT (constant_time_lt_s a b)"

definition constant_time_ge_8_s :: "u64 \<Rightarrow> u64 \<Rightarrow> byte" where
  "constant_time_ge_8_s a b = ucast (constant_time_ge_s a b)"

definition constant_time_is_zero_s :: "u64 \<Rightarrow> u64" where
  "constant_time_is_zero_s a = constant_time_msb_s (NOT a AND (a - 1))"

definition constant_time_eq_s :: "u64 \<Rightarrow> u64 \<Rightarrow> u64" where
  "constant_time_eq_s a b = constant_time_is_zero_s (a XOR b)"

definition constant_time_eq_8_s :: "u64 \<Rightarrow> u64 \<Rightarrow> byte" where
  "constant_time_eq_8_s a b = ucast (constant_time_eq_s a b)"

definition value_barrier_s :: "u64 \<Rightarrow> u64" where
  "value_barrier_s a = (let r = a in r)"

definition value_barrier_64 :: "u64 \<Rightarrow> u64" where
  "value_barrier_64 a = (let r = a in r)"

definition constant_time_select_s :: "u64 \<Rightarrow> u64 \<Rightarrow> u64 \<Rightarrow> u64" where
  "constant_time_select_s m a b = (value_barrier_s m AND a) OR (value_barrier_s (NOT m) AND b)"

definition constant_time_select_64 :: "u64 \<Rightarrow> u64 \<Rightarrow> u64 \<Rightarrow> u64" where
  "constant_time_select_64 m a b = (value_barrier_64 m AND a) OR (value_barrier_64 (NOT m) AND b)"

definition constant_time_select_int_s :: "u64 \<Rightarrow> int \<Rightarrow> int \<Rightarrow> int" where
  "constant_time_select_int_s m a b =
     sint (constant_time_select (ucast m) (of_int a) (of_int b))"

subsection \<open>Conditional swaps and table lookup\<close>

definition constant_time_cond_swap_32 :: "u32 \<Rightarrow> u32 \<Rightarrow> u32 \<Rightarrow> u32 \<times> u32" where
  "constant_time_cond_swap_32 m a b = (let x = a XOR b; x = x AND m in (a XOR x, b XOR x))"

definition constant_time_cond_swap_64 :: "u64 \<Rightarrow> u64 \<Rightarrow> u64 \<Rightarrow> u64 \<times> u64" where
  "constant_time_cond_swap_64 m a b = (let x = a XOR b; x = x AND m in (a XOR x, b XOR x))"

text \<open>
  \<open>i\<close> runs from 0 to \<open>len\<close> over two separate buffers; an access outside one of them has no result.
\<close>

fun cond_swap_from :: "byte \<Rightarrow> nat \<Rightarrow> nat \<Rightarrow> bytes \<Rightarrow> bytes \<Rightarrow> (bytes \<times> bytes) option" where
  "cond_swap_from m i 0 a b = Some (a, b)"
| "cond_swap_from m i (Suc n) a b =
     (if i < length a \<and> i < length b then
        let t = (a ! i XOR b ! i) AND m
        in cond_swap_from m (Suc i) n (a[i := a ! i XOR t]) (b[i := b ! i XOR t])
      else None)"

definition constant_time_cond_swap_buff ::
    "byte \<Rightarrow> bytes \<Rightarrow> bytes \<Rightarrow> nat \<Rightarrow> (bytes \<times> bytes) option" where
  "constant_time_cond_swap_buff m a b len = cond_swap_from m 0 len a b"

text \<open>
  The lookup walks over the whole table: \<open>p\<close> is the offset of \<open>tablec\<close>, \<open>row\<close> the bytes of
  \<open>out\<close> so far. The index counts down and may wrap below 0.
\<close>

fun lookup_row :: "byte \<Rightarrow> bytes \<Rightarrow> nat \<Rightarrow> nat \<Rightarrow> nat \<Rightarrow> bytes \<Rightarrow> bytes option" where
  "lookup_row m tbl p j 0 row = Some row"
| "lookup_row m tbl p j (Suc n) row =
     (if p < length tbl \<and> j < length row then
        lookup_row m tbl (Suc p) (Suc j) n
          (row[j := row ! j OR constant_time_select_8 m (tbl ! p) 0])
      else None)"

fun lookup_rows :: "bytes \<Rightarrow> nat \<Rightarrow> nat \<Rightarrow> nat \<Rightarrow> u64 \<Rightarrow> bytes \<Rightarrow> bytes option" where
  "lookup_rows tbl rowsize p 0 idx row = Some row"
| "lookup_rows tbl rowsize p (Suc n) idx row =
     (case lookup_row (ucast (constant_time_is_zero_s idx)) tbl p 0 rowsize row of
        None \<Rightarrow> None
      | Some row' \<Rightarrow> lookup_rows tbl rowsize (p + rowsize) n (idx - 1) row')"

definition constant_time_lookup ::
    "bytes \<Rightarrow> bytes \<Rightarrow> nat \<Rightarrow> nat \<Rightarrow> u64 \<Rightarrow> bytes option" where
  "constant_time_lookup out tbl rowsize numrows idx =
     (case memset out 0 0 rowsize of
        None \<Rightarrow> None
      | Some out' \<Rightarrow> lookup_rows tbl rowsize 0 numrows idx out')"

section \<open>The top bit of a word\<close>

lemma bit_top_iff: "bit (a :: 'a::len word) (LENGTH('a) - 1) \<longleftrightarrow> 2 ^ (LENGTH('a) - 1) \<le> unat a"
proof -
  let ?n = "LENGTH('a) - 1"
  have l: "unat a < 2 * 2 ^ ?n"
    using unsigned_less [of a] by (metis One_nat_def Suc_pred len_gt_0 power_Suc)
  have "bit a ?n \<longleftrightarrow> bit (unat a) ?n"
    by (simp add: bit_unsigned_iff)
  also have "\<dots> \<longleftrightarrow> odd (unat a div 2 ^ ?n)"
    by (rule bit_iff_odd)
  also have "\<dots> \<longleftrightarrow> 2 ^ ?n \<le> unat a"
  proof (cases "2 ^ ?n \<le> unat a")
    case True
    then have "unat a div 2 ^ ?n = 1"
      using l by (intro div_nat_eqI) simp_all
    then show ?thesis using True by simp
  next
    case False
    then show ?thesis by simp
  qed
  finally show ?thesis .
qed

lemma drop_top_bit:
  "drop_bit (LENGTH('a) - 1) (a :: 'a::len word) = of_bool (bit a (LENGTH('a) - 1))"
proof (rule bit_word_eqI)
  fix n assume n: "n < LENGTH('a)"
  show "bit (drop_bit (LENGTH('a) - 1) a) n = bit (of_bool (bit a (LENGTH('a) - 1)) :: 'a word) n"
  proof (cases n)
    case 0
    then show ?thesis by (simp add: bit_drop_bit_eq bit_1_iff)
  next
    case (Suc k)
    then show ?thesis
      using bit_imp_le_length [of a "LENGTH('a) - 1 + n"] n by (auto simp: bit_drop_bit_eq bit_1_iff)
  qed
qed

text \<open>The masks: all ones or zero.\<close>

definition mask_of :: "bool \<Rightarrow> 'a::len word" where
  "mask_of P = (if P then - 1 else 0)"

lemma mask_of_simps [simp]: "mask_of True = - 1" "mask_of False = 0"
  by (simp_all add: mask_of_def)

lemma msb_mask: "0 - drop_bit (LENGTH('a) - 1) (a :: 'a::len word) = mask_of (bit a (LENGTH('a) - 1))"
  unfolding drop_top_bit by (simp add: mask_of_def)

lemma not_mask_of [simp]: "NOT (mask_of P :: 'a::len word) = mask_of (\<not> P)"
  by (simp add: mask_of_def)

lemma mask_of_and [simp]: "mask_of P AND mask_of Q = (mask_of (P \<and> Q) :: 'a::len word)"
  by (simp add: mask_of_def)

lemma mask_of_or [simp]: "mask_of P OR mask_of Q = (mask_of (P \<or> Q) :: 'a::len word)"
  by (simp add: mask_of_def)

lemma mask_of_and_word: "mask_of P AND a = (if P then a else 0)"
  by (simp add: mask_of_def)

lemma word_and_mask_of: "a AND mask_of P = (if P then a else 0)"
  by (simp add: mask_of_def)

lemma ucast_mask_of [simp]:
  "LENGTH('b::len) \<le> LENGTH('a::len) \<Longrightarrow> ucast (mask_of P :: 'a word) = (mask_of P :: 'b word)"
  by (cases P) (auto intro!: bit_word_eqI simp: bit_ucast_iff)

text \<open>
  The comparison tricks, at every width. When the top bits of \<open>a\<close> and \<open>b\<close> agree, that of the
  wrapped difference is the borrow; when they differ, \<open>a < b\<close> exactly if \<open>a\<close>'s is clear.
\<close>

lemma top_power: "(2 :: nat) ^ LENGTH('a::len) = 2 * 2 ^ (LENGTH('a) - 1)"
  by (metis One_nat_def Suc_pred len_gt_0 power_Suc)

lemma lt_bit:
  "bit (a XOR ((a XOR b) OR ((a - b) XOR b))) (LENGTH('a) - 1) \<longleftrightarrow> a < (b :: 'a::len word)"
proof -
  let ?n = "LENGTH('a) - 1"
  have b: "unat x < 2 * 2 ^ ?n" for x :: "'a word"
    using unsigned_less [of x] top_power [where 'a = 'a] by metis
  have d: "unat (a - b) = (if unat b \<le> unat a then unat a - unat b else unat a + 2 * 2 ^ ?n - unat b)"
    by (simp add: unat_sub_if' top_power)
  have "bit (a XOR ((a XOR b) OR ((a - b) XOR b))) ?n \<longleftrightarrow>
    (bit a ?n \<noteq> ((bit a ?n \<noteq> bit b ?n) \<or> (bit (a - b) ?n \<noteq> bit b ?n)))"
    by (simp add: bit_simps)
  also have "\<dots> \<longleftrightarrow> unat a < unat b"
    unfolding bit_top_iff d using b [of a] b [of b] by auto
  finally show ?thesis by (simp add: word_less_nat_alt)
qed

lemma zero_bit: "bit (NOT a AND (a - 1)) (LENGTH('a) - 1) \<longleftrightarrow> a = (0 :: 'a::len word)"
proof (cases "a = 0")
  case False
  have "bit (NOT a AND (a - 1)) (LENGTH('a) - 1) \<longleftrightarrow>
      \<not> 2 ^ (LENGTH('a) - 1) \<le> unat a \<and> 2 ^ (LENGTH('a) - 1) \<le> unat (a - 1)"
    unfolding bit_top_iff [symmetric] by (simp add: bit_simps)
  moreover have "unat (a - 1) = unat a - 1"
    using False by (rule unat_minus_one)
  ultimately show ?thesis using False by linarith
qed simp

section \<open>The interface\<close>

locale ct_masks =
  fixes lt ge eq :: "'a::len word \<Rightarrow> 'a word \<Rightarrow> 'a word"
    and is_zero :: "'a word \<Rightarrow> 'a word"
    and select :: "'a word \<Rightarrow> 'a word \<Rightarrow> 'a word \<Rightarrow> 'a word"
  assumes lt_mask: "lt a b = mask_of (a < b)"
    and ge_mask: "ge a b = mask_of (b \<le> a)"
    and eq_mask: "eq a b = mask_of (a = b)"
    and is_zero_mask: "is_zero a = mask_of (a = 0)"
    and select_mask: "select (mask_of P) a b = (if P then a else b)"
begin

lemmas masks = lt_mask ge_mask eq_mask is_zero_mask select_mask

text \<open>The example of the header comment, and a conditional step by one.\<close>

lemma select_min: "select (lt a b) a b = min a b"
  by (auto simp: masks min_def)

lemma wrap_index: "lt j n AND j = (if j < n then j else 0)"
  by (simp add: masks mask_of_and_word)

lemma ge_iff_not_lt: "ge a b = NOT (lt a b)"
  by (simp add: masks not_less)

end

lemma xor_eq_0_iff: "a XOR b = 0 \<longleftrightarrow> a = (b :: 'a::len word)"
  by (auto simp: bit_eq_iff bit_simps)

lemma select_by_mask: "(mask_of P AND a) OR (mask_of (\<not> P) AND b) = (if P then a else b :: 'a::len word)"
  by (simp add: mask_of_def)

lemma top_32: "LENGTH(32) - 1 = 31" and top_64: "LENGTH(64) - 1 = 63"
  by simp_all

lemmas top_bit_32 = msb_mask [where 'a = 32, unfolded top_32] lt_bit [where 'a = 32, unfolded top_32]
  zero_bit [where 'a = 32, unfolded top_32]

lemmas top_bit_64 = msb_mask [where 'a = 64, unfolded top_64] lt_bit [where 'a = 64, unfolded top_64]
  zero_bit [where 'a = 64, unfolded top_64]

lemma msb_is_mask:
  "constant_time_msb a = mask_of (bit a 31)" "constant_time_msb_32 a = mask_of (bit a 31)"
  "constant_time_msb_s c = mask_of (bit c 63)" "constant_time_msb_64 c = mask_of (bit c 63)"
  using top_bit_32(1) [of a] top_bit_64(1) [of c]
  by (simp_all add: constant_time_msb_def constant_time_msb_32_def constant_time_msb_s_def
      constant_time_msb_64_def)

lemmas compare_defs = constant_time_lt_def constant_time_lt_s_def constant_time_lt_64_def
  constant_time_ge_def constant_time_ge_s_def constant_time_is_zero_def
  constant_time_is_zero_s_def constant_time_is_zero_32_def constant_time_eq_def
  constant_time_eq_s_def msb_is_mask top_bit_32(2,3) top_bit_64(2,3) not_mask_of not_less
  xor_eq_0_iff

lemmas select_defs = constant_time_select_def constant_time_select_s_def
  constant_time_select_32_def constant_time_select_64_def value_barrier_def value_barrier_32_def
  value_barrier_s_def value_barrier_64_def Let_def select_by_mask

interpretation uint: ct_masks constant_time_lt constant_time_ge constant_time_eq
    constant_time_is_zero constant_time_select
  by unfold_locales (simp_all only: compare_defs select_defs)

interpretation sizet: ct_masks constant_time_lt_s constant_time_ge_s constant_time_eq_s
    constant_time_is_zero_s constant_time_select_s
  by unfold_locales (simp_all only: compare_defs select_defs)

lemma masks_other_widths:
  "constant_time_lt_64 c d = mask_of (c < d)" "constant_time_is_zero_32 a = mask_of (a = 0)"
  "constant_time_select_32 (mask_of P) a b = (if P then a else b)"
  "constant_time_select_64 (mask_of P) c d = (if P then c else d)"
  by (simp_all only: compare_defs select_defs)

lemma masks_8:
  "constant_time_lt_8 a b = mask_of (a < b)" "constant_time_ge_8 a b = mask_of (b \<le> a)"
  "constant_time_eq_8 a b = mask_of (a = b)" "constant_time_is_zero_8 a = mask_of (a = 0)"
  "constant_time_ge_8_s c d = mask_of (d \<le> c)" "constant_time_eq_8_s c d = mask_of (c = d)"
  by (simp_all add: constant_time_lt_8_def constant_time_ge_8_def constant_time_eq_8_def
      constant_time_is_zero_8_def constant_time_ge_8_s_def constant_time_eq_8_s_def
      uint.masks sizet.masks)

lemma select_8: "constant_time_select_8 (mask_of P) a b = (if P then a else b)"
proof -
  show ?thesis
    by (cases P) (auto simp: constant_time_select_8_def constant_time_select_def value_barrier_def
        intro!: bit_word_eqI simp: bit_simps)
qed

definition is_int :: "int \<Rightarrow> bool" where
  "is_int x \<longleftrightarrow> - (2 ^ 31) \<le> x \<and> x < 2 ^ 31"

lemma sint_of_int_32: "is_int x \<Longrightarrow> sint (of_int x :: u32) = x"
  by (simp add: is_int_def int_word_sint)

lemma of_int_32_inject: "is_int x \<Longrightarrow> is_int y \<Longrightarrow> (of_int x :: u32) = of_int y \<longleftrightarrow> x = y"
  by (metis sint_of_int_32)

lemma masks_int:
  assumes "is_int x" and "is_int y"
  shows "constant_time_eq_int x y = mask_of (x = y)"
    and "constant_time_eq_int_8 x y = mask_of (x = y)"
    and "constant_time_select_int (mask_of P) x y = (if P then x else y)"
    and "constant_time_select_int_s (mask_of P) x y = (if P then x else y)"
  using assms
  by (simp_all add: constant_time_eq_int_def constant_time_eq_int_8_def masks_8 uint.masks
      of_int_32_inject constant_time_select_int_def constant_time_select_int_s_def sint_of_int_32)

lemma cond_swap_32_64:
  "constant_time_cond_swap_32 (mask_of P) a b = (if P then (b, a) else (a, b))"
  "constant_time_cond_swap_64 (mask_of P) c d = (if P then (d, c) else (c, d))"
  by (auto simp: constant_time_cond_swap_32_def constant_time_cond_swap_64_def mask_of_def Let_def
      xor.assoc [symmetric] intro!: bit_word_eqI simp: bit_simps)

section \<open>Buffers and tables\<close>

lemma cond_swap_from_spec:
  assumes "i + n \<le> length a" and "i + n \<le> length b"
  shows "cond_swap_from (mask_of P) i n a b =
    Some (if P then (take i a @ seg b i n @ drop (i + n) a, take i b @ seg a i n @ drop (i + n) b)
          else (a, b))"
  using assms
proof (induction n arbitrary: i a b)
  case 0
  then show ?case by simp
next
  case (Suc n)
  have x: "u XOR (u XOR v) = v" "v XOR (u XOR v) = u" for u v :: byte
    by (auto intro!: bit_word_eqI simp: bit_simps)
  have s: "seg c i (Suc n) = c ! i # seg c (Suc i) n" if "i < length c" for c :: bytes
    using that by (simp add: seg_def Cons_nth_drop_Suc [symmetric])
  have t: "take (Suc i) (c[i := v]) = take i c @ [v]" if "i < length c" for c :: bytes and v
    using that by (simp add: take_Suc_conv_app_nth)
  have d: "seg (c[i := v]) (Suc i) n = seg c (Suc i) n" for c :: bytes and v
    by (simp add: seg_def)
  show ?case
    using Suc by (cases P) (simp_all add: x s t d Let_def)
qed

lemma cond_swap_buff_spec:
  assumes "length a = n" and "length b = n"
  shows "constant_time_cond_swap_buff (mask_of P) a b n = Some (if P then (b, a) else (a, b))"
  using assms by (simp add: constant_time_cond_swap_buff_def cond_swap_from_spec)

lemma lookup_row_skip:
  assumes "p + n \<le> length tbl" and "j + n \<le> length row"
  shows "lookup_row (mask_of False) tbl p j n row = Some row"
  using assms by (induction n arbitrary: p j) (simp_all add: select_8 del: mask_of_simps)

lemma lookup_row_copy:
  assumes "p + n \<le> length tbl" and "j + n \<le> length row" and "seg row j n = replicate n 0"
  shows "lookup_row (mask_of True) tbl p j n row =
    Some (take j row @ seg tbl p n @ drop (j + n) row)"
  using assms
proof (induction n arbitrary: p j row)
  case 0
  then show ?case by simp
next
  case (Suc n)
  have s: "seg c i (Suc n) = c ! i # seg c (Suc i) n" if "i < length c" for c :: bytes and i
    using that by (simp add: seg_def Cons_nth_drop_Suc [symmetric])
  have t: "take (Suc j) (row[j := v]) = take j row @ [v]" for v
    using Suc.prems by (simp add: take_Suc_conv_app_nth)
  have d: "seg (row[j := v]) (Suc j) n = seg row (Suc j) n" for v
    by (simp add: seg_def)
  show ?case
    using Suc by (simp add: s t d select_8 del: mask_of_simps)
qed

lemma lookup_rows_spec:
  assumes "p + n * rowsize \<le> length tbl" and "length row = rowsize" and "n < 2 ^ 64"
    and "unat idx < n \<Longrightarrow> row = replicate rowsize 0"
  shows "lookup_rows tbl rowsize p n idx row =
    Some (if unat idx < n then seg tbl (p + unat idx * rowsize) rowsize else row)"
  using assms
proof (induction n arbitrary: p idx row)
  case 0
  then show ?case by simp
next
  case (Suc n)
  have mask: "ucast (constant_time_is_zero_s idx) = (mask_of (idx = 0) :: byte)"
    by (simp add: sizet.masks)
  show ?case
  proof (cases "idx = 0")
    case True
    have "lookup_row (mask_of (idx = 0)) tbl p 0 rowsize row = Some (seg tbl p rowsize)"
      using Suc.prems True lookup_row_copy [of p rowsize tbl 0 row] by simp
    then have "lookup_rows tbl rowsize p (Suc n) idx row =
        lookup_rows tbl rowsize (p + rowsize) n (idx - 1) (seg tbl p rowsize)"
      by (simp add: mask)
    moreover have "\<not> unat (idx - 1) < n"
      using True Suc.prems(3) by (simp add: unsigned_minus_1_eq_mask mask_eq_exp_minus_1)
    ultimately show ?thesis
      using Suc.IH [of "p + rowsize" "seg tbl p rowsize" "idx - 1"] Suc.prems True by simp
  next
    case False
    have "lookup_row (mask_of (idx = 0)) tbl p 0 rowsize row = Some row"
      using Suc.prems False lookup_row_skip [of p rowsize tbl 0 row] by simp
    moreover have "unat idx = Suc (unat (idx - 1))"
      using False by (simp add: unat_minus_one unat_gt_0)
    ultimately show ?thesis
      using Suc False by (simp add: mask add.assoc)
  qed
qed

text \<open>
  \<open>constant_time_lookup\<close>, which reads the whole table, has the effect of an indexed copy: for a
  table of \<open>numrows\<close> rows and an output of one row it stays within both buffers and leaves row
  \<open>idx\<close> in \<open>out\<close>, or zeros when \<open>idx\<close> is not a row, although the index wraps below zero on the way.
\<close>

theorem constant_time_lookup_correct:
  assumes "length tbl = rowsize * numrows" and "length out = rowsize" and "numrows < 2 ^ 64"
  shows "constant_time_lookup out tbl rowsize numrows idx =
    Some (if unat idx < numrows then seg tbl (unat idx * rowsize) rowsize else replicate rowsize 0)"
proof -
  have "memset out 0 0 rowsize = Some (replicate rowsize 0)"
    using assms(2) by (simp add: memset_def mem_write_def)
  then show ?thesis
    using assms lookup_rows_spec [of 0 numrows rowsize tbl "replicate rowsize 0" idx]
    by (simp add: constant_time_lookup_def mult.commute)
qed

theorem constant_time_lookup_correct_witness:
  "constant_time_lookup [9, 9] [1, 2, 3, 4, 5, 6] 2 3 1 = Some [3, 4]"
  using constant_time_lookup_correct [of "[1, 2, 3, 4, 5, 6]" 2 3 "[9, 9]" 1]
  by (simp add: seg_def)

end
