(* ===== verification/Cbc_Record.thy ===== *)
theory Cbc_Record
  imports Constant_Time
begin

text \<open>
  Removal of CBC padding and extraction of the MAC from a decrypted record
  (\<open>tls/record/tls3_record.c\<close>): \<open>tls3_cbc_remove_padding\<close>, \<open>tls1_cbc_remove_padding\<close> and
  \<open>tls3_cbc_copy_mac\<close>. These functions must not let an attacker learn from their timing how long
  the padding was, so they are written without branches on secret data, on top of the masks of
  Constant_Time. The theory proves that the masked arithmetic computes what the plain definition of
  the padding says, that no byte outside the record is touched, and that the MAC that is extracted
  is the one the sender placed in front of the padding.

  The bytes of a record lie in a block of memory; \<open>rdata\<close> and \<open>rinput\<close> are offsets into it. Sizes are
  \<open>64 word\<close>s. A function that would access a byte outside its block has no result (None).
\<close>

section \<open>Records\<close>

record tls3_RECORD =
  rec_version :: int
  rtype :: int
  rlength :: u64
  orig_len :: u64
  roff :: u64
  rdata :: nat
  rinput :: nat
  rcomp :: "bytes option"
  rread :: bool
  repoch :: nat
  rseq_num :: bytes

definition EVP_MAX_MD_SIZE :: nat where
  "EVP_MAX_MD_SIZE = 64"

text \<open>The counting loops below end because their counter is below a bound.\<close>

lemma unat_succ_below:
  assumes "i < (n :: 'a::len word)"
  shows "unat (i + 1) = Suc (unat i)"
proof -
  have "Suc (unat i) \<le> unat n"
    using assms by (simp add: word_less_nat_alt)
  also have "\<dots> < 2 ^ LENGTH('a)"
    by (rule unsigned_less)
  finally show ?thesis
    using unat_add_lem [of i 1] by simp
qed

lemma loop_step_less: "i < n \<Longrightarrow> unat n - unat (i + 1) < unat n - unat (i :: 'a::len word)"
  using unat_succ_below [of i n] by (simp add: word_less_nat_alt)

section \<open>Padding removal\<close>

definition tls3_cbc_remove_padding ::
    "bytes \<Rightarrow> tls3_RECORD \<Rightarrow> u64 \<Rightarrow> u64 \<Rightarrow> (int \<times> tls3_RECORD) option" where
  "tls3_cbc_remove_padding mem r block_size mac_size =
     (let overhead = 1 + mac_size in
      if overhead > rlength r then Some (0, r)
      else do {
        b \<leftarrow> byte_at mem (rdata r + unat (rlength r - 1));
        let padding_length = ucast b;
        let good = constant_time_ge_s (rlength r) (padding_length + overhead);
        let good = good AND constant_time_ge_s block_size (padding_length + 1);
        let r = r\<lparr>rlength := rlength r - (good AND (padding_length + 1))\<rparr>;
        Some (constant_time_select_int_s good 1 (- 1), r)
      })"

text \<open>
  The loop over the last \<open>to_check\<close> bytes. \<open>mask\<close> and \<open>padding_length ^ b\<close> are promoted to
  \<open>size_t\<close>, so the complement has all upper bits set.
\<close>

function check_padding ::
    "bytes \<Rightarrow> tls3_RECORD \<Rightarrow> u64 \<Rightarrow> u64 \<Rightarrow> u64 \<Rightarrow> u64 \<Rightarrow> u64 option" where
  "check_padding mem r padding_length to_check i good =
     (if i < to_check then do {
        let msk = constant_time_ge_8_s padding_length i;
        b \<leftarrow> byte_at mem (rdata r + unat (rlength r - 1 - i));
        check_padding mem r padding_length to_check (i + 1)
          (good AND NOT (ucast msk AND (padding_length XOR ucast b)))
      } else Some good)"
  by pat_completeness auto

termination
  by (relation "measure (\<lambda>(mem, r, p, n, i, g). unat n - unat i)") (auto simp: loop_step_less)

declare check_padding.simps [simp del]

definition tls1_cbc_remove_padding ::
    "bool \<Rightarrow> bool \<Rightarrow> bytes \<Rightarrow> tls3_RECORD \<Rightarrow> u64 \<Rightarrow> u64 \<Rightarrow> (int \<times> tls3_RECORD) option" where
  "tls1_cbc_remove_padding use_explicit_iv aead mem r block_size mac_size =
     (let overhead = 1 + mac_size in
      if use_explicit_iv \<and> overhead + block_size > rlength r then Some (0, r)
      else if \<not> use_explicit_iv \<and> overhead > rlength r then Some (0, r)
      else do {
        let r = (if use_explicit_iv
                 then r\<lparr>rdata := rdata r + unat block_size, rinput := rinput r + unat block_size,
                        rlength := rlength r - block_size, orig_len := orig_len r - block_size\<rparr>
                 else r);
        b \<leftarrow> byte_at mem (rdata r + unat (rlength r - 1));
        let padding_length = ucast b;
        if aead then Some (1, r\<lparr>rlength := rlength r - (padding_length + 1)\<rparr>)
        else do {
          let good = constant_time_ge_s (rlength r) (overhead + padding_length);
          let to_check = (if 256 > rlength r then rlength r else 256);
          good \<leftarrow> check_padding mem r padding_length to_check 0 good;
          let good = constant_time_eq_s 0xff (good AND 0xff);
          let r = r\<lparr>rlength := rlength r - (good AND (padding_length + 1))\<rparr>;
          Some (constant_time_select_int_s good 1 (- 1), r)
        }
      })"

section \<open>MAC extraction\<close>

text \<open>
  \<open>rotated_mac\<close> lies in a 128-byte buffer on the stack (\<open>rot\<close>) at the first 64-byte boundary, at
  offset \<open>base\<close>. The state of the scan is the buffer and the variables of the loop.
\<close>

record mac_scan =
  in_mac :: u64
  rotate_offset :: u64
  jpos :: u64
  rotated_mac :: bytes

definition scan_byte :: "u64 \<Rightarrow> u64 \<Rightarrow> u64 \<Rightarrow> nat \<Rightarrow> u64 \<Rightarrow> byte \<Rightarrow> mac_scan \<Rightarrow> mac_scan option" where
  "scan_byte mac_start mac_end md_size base i b st =
     (let mac_started = constant_time_eq_s i mac_start;
          mac_ended = constant_time_lt_s i mac_end;
          im = (in_mac st OR mac_started) AND mac_ended;
          j = jpos st
      in do {
        old \<leftarrow> byte_at (rotated_mac st) (base + unat j);
        let j' = j + 1;
        Some \<lparr>in_mac = im,
              rotate_offset = rotate_offset st OR (j AND mac_started),
              jpos = j' AND constant_time_lt_s j' md_size,
              rotated_mac = (rotated_mac st)[base + unat j := old OR ucast (ucast b AND im)]\<rparr>
      })"

function scan_mac :: "bytes \<Rightarrow> tls3_RECORD \<Rightarrow> u64 \<Rightarrow> u64 \<Rightarrow> u64 \<Rightarrow> nat \<Rightarrow> u64 \<Rightarrow> mac_scan \<Rightarrow> mac_scan option" where
  "scan_mac mem r mac_start mac_end md_size base i st =
     (if i < orig_len r then do {
        b \<leftarrow> byte_at mem (rdata r + unat i);
        st \<leftarrow> scan_byte mac_start mac_end md_size base i b st;
        scan_mac mem r mac_start mac_end md_size base (i + 1) st
      } else Some st)"
  by pat_completeness auto

termination
  by (relation "measure (\<lambda>(mem, r, s, e, n, b, i, st). unat (orig_len r) - unat i)")
    (auto simp: loop_step_less)

declare scan_mac.simps [simp del]

text \<open>
  The rotation: \<open>out[j++] = rotated_mac[rotate_offset++]\<close>, with a read of the other cache line.
\<close>

function rotate_mac :: "u64 \<Rightarrow> nat \<Rightarrow> bytes \<Rightarrow> u64 \<Rightarrow> u64 \<Rightarrow> bytes \<Rightarrow> bytes option" where
  "rotate_mac md_size base rot rotoff i out =
     (if i < md_size then do {
        _ \<leftarrow> byte_at rot (base + unat (rotoff XOR 32));
        b \<leftarrow> byte_at rot (base + unat rotoff);
        out \<leftarrow> mem_write out (unat i) [b];
        let rotoff = rotoff + 1;
        rotate_mac md_size base rot (rotoff AND constant_time_lt_s rotoff md_size) (i + 1) out
      } else Some out)"
  by pat_completeness auto

termination
  by (relation "measure (\<lambda>(n, b, rot, ro, i, out). unat n - unat i)") (auto simp: loop_step_less)

declare rotate_mac.simps [simp del]

text \<open>
  \<open>addr\<close> is the address of \<open>rotated_mac_buf\<close>, \<open>stack\<close> its uninitialised bytes. The result is the
  return value of the function and \<open>out\<close>.
\<close>

definition tls3_cbc_copy_mac ::
    "u64 \<Rightarrow> bytes \<Rightarrow> bytes \<Rightarrow> bytes \<Rightarrow> tls3_RECORD \<Rightarrow> u64 \<Rightarrow> (int \<times> bytes) option" where
  "tls3_cbc_copy_mac addr stack out mem r md_size =
     (let mac_end = rlength r;
          mac_start = mac_end - md_size
      in if \<not> (orig_len r \<ge> md_size \<and> md_size \<le> of_nat EVP_MAX_MD_SIZE) then Some (0, out)
         else do {
           let base = unat ((0 - addr) AND 63);
           let scan_start = (if orig_len r > md_size + 255 + 1
                             then orig_len r - (md_size + 255 + 1) else 0);
           rot \<leftarrow> memset stack base 0 (unat md_size);
           st \<leftarrow> scan_mac mem r mac_start mac_end md_size base scan_start
                  \<lparr>in_mac = 0, rotate_offset = 0, jpos = 0, rotated_mac = rot\<rparr>;
           out \<leftarrow> rotate_mac md_size base (rotated_mac st) (rotate_offset st) 0 out;
           Some (1, out)
         })"

section \<open>Padding\<close>

text \<open>
  What the padding of a record means: the last byte says how many more bytes of padding precede
  it; with the MAC they fit in the record, and in TLS all of them repeat that byte.
\<close>

definition tls3_padding_valid :: "nat \<Rightarrow> nat \<Rightarrow> bytes \<Rightarrow> bool" where
  "tls3_padding_valid block_size mac_size bs \<longleftrightarrow>
     unat (last bs) + 1 + mac_size \<le> length bs \<and> unat (last bs) + 1 \<le> block_size"

definition tls1_padding_valid :: "nat \<Rightarrow> bytes \<Rightarrow> bool" where
  "tls1_padding_valid mac_size bs \<longleftrightarrow>
     unat (last bs) + 1 + mac_size \<le> length bs \<and>
     (\<forall>b \<in> set (drop (length bs - (unat (last bs) + 1)) bs). b = last bs)"

definition record_bytes :: "bytes \<Rightarrow> tls3_RECORD \<Rightarrow> bytes" where
  "record_bytes mem r = seg mem (rdata r) (unat (rlength r))"

definition record_in :: "bytes \<Rightarrow> tls3_RECORD \<Rightarrow> bool" where
  "record_in mem r \<longleftrightarrow> rdata r + unat (orig_len r) \<le> length mem \<and> rlength r \<le> orig_len r"

lemma length_record_bytes: "record_in mem r \<Longrightarrow> length (record_bytes mem r) = unat (rlength r)"
  by (auto simp: record_in_def record_bytes_def word_le_nat_alt)

lemma nth_record_bytes:
  "record_in mem r \<Longrightarrow> k < unat (rlength r) \<Longrightarrow> record_bytes mem r ! k = mem ! (rdata r + k)"
  by (simp add: record_in_def record_bytes_def word_le_nat_alt seg_def)

lemma byte_at_record:
  "record_in mem r \<Longrightarrow> k < unat (rlength r) \<Longrightarrow>
    byte_at mem (rdata r + k) = Some (record_bytes mem r ! k)"
  by (simp add: byte_at_def nth_record_bytes) (simp add: record_in_def word_le_nat_alt)

lemma last_record_byte:
  assumes "record_in mem r" and "0 < rlength r"
  shows "byte_at mem (rdata r + unat (rlength r - 1)) = Some (last (record_bytes mem r))"
proof -
  have "unat (rlength r - 1) = unat (rlength r) - 1" and "0 < unat (rlength r)"
    using assms(2) by (simp_all add: unat_minus_one unat_gt_0 word_neq_0_conv)
  moreover have "record_bytes mem r \<noteq> []"
    using calculation(2) length_record_bytes [OF assms(1)] by auto
  ultimately show ?thesis
    using byte_at_record [OF assms(1), of "unat (rlength r) - 1"] length_record_bytes [OF assms(1)]
    by (simp add: last_conv_nth)
qed

lemma unat_byte_u64 [simp]: "unat (ucast (c :: byte) :: u64) = unat c"
  by (simp add: unsigned_ucast_eq take_bit_word_eq_self)

lemma low_byte_full: "x AND 0xff = (0xff :: u64) \<longleftrightarrow> (ucast x :: byte) = - 1"
proof -
  have m: "bit (0xff :: int) n \<longleftrightarrow> n < 8" for n
    using bit_mask_iff [where 'a = int, of 8 n] by (simp add: mask_numeral)
  have "(ucast x :: byte) = - 1 \<longleftrightarrow> (\<forall>n. n < 8 \<longrightarrow> bit x n)"
    by (auto simp: bit_eq_iff bit_simps)
  moreover have "x AND 0xff = (0xff :: u64) \<longleftrightarrow> (\<forall>n. n < 64 \<and> n < 8 \<longrightarrow> bit x n)"
    by (auto simp: bit_eq_iff bit_and_iff m)
  moreover have "n < 8 \<longleftrightarrow> n < 64 \<and> n < 8" for n :: nat
    by linarith
  ultimately show ?thesis by simp
qed

text \<open>One step of the check, on the low byte.\<close>

lemma check_step:
  "(good AND NOT (ucast (mask_of P :: byte) AND (ucast c XOR ucast b))) AND 0xff = (0xff :: u64)
    \<longleftrightarrow> good AND 0xff = 0xff \<and> (P \<longrightarrow> b = (c :: byte))"
proof -
  have u: "(ucast (ucast (y :: byte) :: u64) :: byte) = y" for y
    by (auto intro!: bit_word_eqI simp: bit_simps)
  have "(ucast (good AND NOT (ucast (mask_of P :: byte) AND (ucast c XOR ucast b))) :: byte)
      = ucast good AND NOT (mask_of P AND (c XOR b))"
    by (auto intro!: bit_word_eqI simp: bit_simps simp del: not_mask_of)
  moreover have "ucast good AND NOT (mask_of P AND (c XOR b)) = - 1 \<longleftrightarrow>
      (ucast good :: byte) = - 1 \<and> mask_of P AND (c XOR b) = 0"
    by (auto simp: bit_eq_iff bit_simps simp del: not_mask_of)
  moreover have "mask_of P AND (c XOR b) = 0 \<longleftrightarrow> (P \<longrightarrow> b = c)"
    by (auto simp: mask_of_and_word xor_eq_0_iff)
  ultimately show ?thesis
    by (simp only: low_byte_full)
qed

lemma check_padding_spec:
  assumes "record_in mem r" and "to_check \<le> rlength r"
  shows "\<exists>g. check_padding mem r (ucast c) to_check i good = Some g \<and>
    (g AND 0xff = 0xff \<longleftrightarrow> good AND 0xff = 0xff \<and>
      (\<forall>k. unat i \<le> k \<and> k < unat to_check \<and> k \<le> unat c \<longrightarrow>
         record_bytes mem r ! (unat (rlength r) - 1 - k) = c))"
proof (induction "unat to_check - unat i" arbitrary: i good)
  case 0
  then have "\<not> i < to_check"
    by (simp add: word_less_nat_alt)
  then show ?case
    by (subst check_padding.simps) (auto simp: word_less_nat_alt)
next
  case (Suc n)
  then have lt: "i < to_check"
    by (simp add: word_less_nat_alt)
  then have len: "unat i < unat (rlength r)"
    using assms(2) by (simp add: word_less_nat_alt word_le_nat_alt)
  let ?b = "record_bytes mem r ! (unat (rlength r) - 1 - unat i)"
  define good' where
    "good' = good AND NOT (ucast (mask_of (i \<le> ucast c) :: byte) AND (ucast c XOR ucast ?b))"
  have idx: "unat (rlength r - 1 - i) = unat (rlength r) - 1 - unat i"
  proof -
    have "1 + i \<le> rlength r" and "unat (1 + i) = Suc (unat i)"
      using unat_succ_below [OF lt] len by (simp_all add: word_le_nat_alt add.commute)
    then have "unat (rlength r - (1 + i)) = unat (rlength r) - Suc (unat i)"
      by (simp only: unat_sub)
    then show ?thesis
      by (simp add: diff_diff_eq)
  qed
  have step: "check_padding mem r (ucast c) to_check i good =
      check_padding mem r (ucast c) to_check (i + 1) good'"
    using lt len byte_at_record [OF assms(1), of "unat (rlength r) - 1 - unat i"]
    by (subst check_padding.simps) (simp add: masks_8 idx good'_def)
  have "n = unat to_check - unat (i + 1)"
    using Suc.hyps(2) unat_succ_below [OF lt] by simp
  then obtain g where g: "check_padding mem r (ucast c) to_check (i + 1) good' = Some g"
    and iff: "g AND 0xff = 0xff \<longleftrightarrow> good' AND 0xff = 0xff \<and>
      (\<forall>k. unat (i + 1) \<le> k \<and> k < unat to_check \<and> k \<le> unat c \<longrightarrow>
         record_bytes mem r ! (unat (rlength r) - 1 - k) = c)"
    using Suc.hyps(1) [of "i + 1" good'] by blast
  have "good' AND 0xff = 0xff \<longleftrightarrow> good AND 0xff = 0xff \<and> (unat i \<le> unat c \<longrightarrow> ?b = c)"
    unfolding good'_def check_step by (simp add: word_le_nat_alt)
  then show ?case
    using lt iff g step
    by (auto simp: unat_succ_below [OF lt] word_less_nat_alt le_eq_less_or_eq [of "unat i"] Suc_le_eq)
qed

text \<open>The bytes that are checked, as a suffix of the record.\<close>

lemma suffix_all_iff:
  assumes "p + 1 \<le> length bs"
  shows "(\<forall>b \<in> set (drop (length bs - (p + 1)) bs). b = c) \<longleftrightarrow>
    (\<forall>k \<le> p. bs ! (length bs - 1 - k) = c)"
proof
  assume all: "\<forall>b \<in> set (drop (length bs - (p + 1)) bs). b = c"
  show "\<forall>k \<le> p. bs ! (length bs - 1 - k) = c"
  proof (intro allI impI)
    fix k assume "k \<le> p"
    then have "drop (length bs - (p + 1)) bs ! (p - k) = bs ! (length bs - 1 - k)"
      and "p - k < length (drop (length bs - (p + 1)) bs)"
      using assms by (simp_all add: algebra_simps)
    then show "bs ! (length bs - 1 - k) = c"
      using all by (metis nth_mem)
  qed
next
  assume all: "\<forall>k \<le> p. bs ! (length bs - 1 - k) = c"
  show "\<forall>b \<in> set (drop (length bs - (p + 1)) bs). b = c"
  proof
    fix b assume "b \<in> set (drop (length bs - (p + 1)) bs)"
    then obtain q where q: "q < p + 1" and b: "b = bs ! (length bs - (p + 1) + q)"
      using assms by (auto simp: in_set_conv_nth)
    have "length bs - (p + 1) + q = length bs - 1 - (p - q)"
      using assms q by simp
    moreover have "bs ! (length bs - 1 - (p - q)) = c"
      using all diff_le_self by blast
    ultimately show "b = c"
      using b by (simp only:)
  qed
qed

lemma ge_overhead_iff:
  fixes n m :: u64 and c :: byte
  assumes "unat m \<le> EVP_MAX_MD_SIZE"
  shows "ucast c + (1 + m) \<le> n \<longleftrightarrow> unat c + 1 + unat m \<le> unat n"
    and "unat (1 + m) = 1 + unat m"
    and "unat (ucast c + 1 :: u64) = unat c + 1"
proof -
  have c: "unat c < 256"
    by simp
  show m: "unat (1 + m) = 1 + unat m"
    using assms by (simp add: EVP_MAX_MD_SIZE_def unat_word_ariths)
  show "unat (ucast c + 1 :: u64) = unat c + 1"
    by (simp add: unat_word_ariths, rule mod_less, insert c, linarith)
  have "unat (ucast c + (1 + m)) = unat c + 1 + unat m"
    using assms m
    by (simp add: unat_word_ariths EVP_MAX_MD_SIZE_def) (rule mod_less, insert c, linarith)
  then show "ucast c + (1 + m) \<le> n \<longleftrightarrow> unat c + 1 + unat m \<le> unat n"
    by (simp add: word_le_nat_alt)
qed

lemma overhead_block:
  fixes m n :: u64
  assumes "unat m \<le> EVP_MAX_MD_SIZE" and "unat n \<le> 32"
  shows "unat (1 + m + n) = 1 + unat m + unat n"
  using assms by (simp add: EVP_MAX_MD_SIZE_def unat_word_ariths)

text \<open>
  For \<open>tlsv3\<close> records the masked arithmetic of \<open>tls3_cbc_remove_padding\<close> is the definition of
  minimal padding: a record too short for MAC and length byte is rejected untouched (0); otherwise
  1 with the padding cut off when the padding is valid, and -1 with the length kept when it is not.
\<close>

theorem tls3_cbc_remove_padding_correct:
  assumes "record_in mem r" and "unat mac_size \<le> EVP_MAX_MD_SIZE"
  shows "tls3_cbc_remove_padding mem r block_size mac_size = Some
    (if unat (rlength r) < 1 + unat mac_size then (0, r)
     else if tls3_padding_valid (unat block_size) (unat mac_size) (record_bytes mem r)
     then (1, r\<lparr>rlength := rlength r - (ucast (last (record_bytes mem r)) + 1)\<rparr>)
     else (- 1, r))"
proof (cases "unat (rlength r) < 1 + unat mac_size")
  case True
  then show ?thesis
    using ge_overhead_iff(2) [OF assms(2)] by (simp add: tls3_cbc_remove_padding_def word_less_nat_alt)
next
  case False
  let ?c = "last (record_bytes mem r)"
  have pos: "0 < rlength r" and ov: "\<not> rlength r < 1 + mac_size"
    using False ge_overhead_iff(2) [OF assms(2)] by (simp_all add: word_less_nat_alt)
  let ?ok = "tls3_padding_valid (unat block_size) (unat mac_size) (record_bytes mem r)"
  have "ucast ?c + (1 + mac_size) \<le> rlength r \<and> ucast ?c + 1 \<le> block_size \<longleftrightarrow> ?ok"
    using ge_overhead_iff(1) [OF assms(2), of ?c] ge_overhead_iff(3) [OF assms(2), of ?c]
    by (simp add: tls3_padding_valid_def length_record_bytes [OF assms(1)] word_le_nat_alt)
  then have good: "constant_time_ge_s (rlength r) (ucast ?c + (1 + mac_size)) AND
      constant_time_ge_s block_size (ucast ?c + 1) = mask_of ?ok"
    by (simp add: sizet.masks)
  have "tls3_cbc_remove_padding mem r block_size mac_size =
    Some (constant_time_select_int_s (mask_of ?ok) 1 (- 1),
          r\<lparr>rlength := rlength r - (mask_of ?ok AND (ucast ?c + 1))\<rparr>)"
    using ov by (simp add: tls3_cbc_remove_padding_def last_record_byte [OF assms(1) pos] Let_def good)
  then show ?thesis
    using False by (simp add: masks_int is_int_def mask_of_and_word)
qed

text \<open>
  The record after the explicit IV has been skipped, and the verdict of the plain definition.
\<close>

definition skip_iv :: "bool \<Rightarrow> u64 \<Rightarrow> tls3_RECORD \<Rightarrow> tls3_RECORD" where
  "skip_iv use_explicit_iv block_size r =
     (if use_explicit_iv
      then r\<lparr>rdata := rdata r + unat block_size, rinput := rinput r + unat block_size,
             rlength := rlength r - block_size, orig_len := orig_len r - block_size\<rparr>
      else r)"

lemma record_in_skip_iv:
  assumes "record_in mem r" and "use_explicit_iv \<Longrightarrow> block_size \<le> rlength r"
  shows "record_in mem (skip_iv use_explicit_iv block_size r)"
proof (cases use_explicit_iv)
  case True
  then have "block_size \<le> rlength r" and "rlength r \<le> orig_len r"
    using assms by (simp_all add: record_in_def)
  then show ?thesis
    using assms(1) True
    by (auto simp: record_in_def skip_iv_def unat_sub word_le_nat_alt)
qed (simp add: skip_iv_def assms(1))

definition check_count :: "tls3_RECORD \<Rightarrow> u64" where
  "check_count r = (if 256 > rlength r then rlength r else 256)"

lemma check_count_le: "check_count r \<le> rlength r"
  by (simp add: check_count_def not_less)

lemma unat_check_count: "unat (check_count r) = min 256 (unat (rlength r))"
  by (simp add: check_count_def word_less_nat_alt)

lemma check_padding_decides:
  assumes r: "record_in mem r" and mac: "unat mac_size \<le> EVP_MAX_MD_SIZE" and pos: "0 < rlength r"
  defines "bs \<equiv> record_bytes mem r"
  shows "\<exists>g. check_padding mem r (ucast (last bs)) (check_count r) 0
      (mask_of (ucast (last bs) + (1 + mac_size) \<le> rlength r)) = Some g \<and>
      constant_time_eq_s 0xff (g AND 0xff) = mask_of (tls1_padding_valid (unat mac_size) bs)"
proof -
  let ?c = "last bs"
  let ?fits = "ucast ?c + (1 + mac_size) \<le> rlength r"
  have fits: "?fits \<longleftrightarrow> unat ?c + 1 + unat mac_size \<le> length bs"
    using ge_overhead_iff(1) [OF mac, of ?c "rlength r"] length_record_bytes [OF r]
    by (simp add: bs_def)
  obtain g where g: "check_padding mem r (ucast ?c) (check_count r) 0 (mask_of ?fits) = Some g"
    and iff: "g AND 0xff = 0xff \<longleftrightarrow> mask_of ?fits AND 0xff = (0xff :: u64) \<and>
      (\<forall>k. unat (0 :: u64) \<le> k \<and> k < unat (check_count r) \<and> k \<le> unat ?c \<longrightarrow>
         record_bytes mem r ! (unat (rlength r) - 1 - k) = ?c)"
    using check_padding_spec [OF r check_count_le, of ?c 0 "mask_of ?fits"] by blast
  have full: "mask_of ?fits AND 0xff = (0xff :: u64) \<longleftrightarrow> ?fits"
    by (simp add: mask_of_and_word)
  have "g AND 0xff = 0xff \<longleftrightarrow> tls1_padding_valid (unat mac_size) bs"
  proof (cases ?fits)
    case True
    have len: "length bs = unat (rlength r)"
      unfolding bs_def by (rule length_record_bytes [OF r])
    have range: "unat (0 :: u64) \<le> k \<and> k < unat (check_count r) \<and> k \<le> unat ?c \<longleftrightarrow> k \<le> unat ?c" for k
      using True le_less_trans [OF _ unat_byte_bound [of ?c]] unfolding fits unat_check_count len
      by auto
    have "g AND 0xff = 0xff \<longleftrightarrow> (\<forall>k \<le> unat ?c. bs ! (length bs - 1 - k) = ?c)"
      unfolding iff full range len bs_def [symmetric] using True by blast
    also have "\<dots> \<longleftrightarrow> (\<forall>b \<in> set (drop (length bs - (unat ?c + 1)) bs). b = ?c)"
      using True by (intro suffix_all_iff [symmetric]) (simp add: fits)
    finally show ?thesis
      using True unfolding fits tls1_padding_valid_def by blast
  next
    case False
    then show ?thesis
      using fits unfolding iff full tls1_padding_valid_def by blast
  qed
  then have "constant_time_eq_s 0xff (g AND 0xff) = mask_of (tls1_padding_valid (unat mac_size) bs)"
    unfolding sizet.eq_mask by (auto simp only: eq_commute [of "0xff :: u64"])
  then show ?thesis using g by blast
qed

text \<open>
  C14: the masked loop of \<open>tls1_cbc_remove_padding\<close> decides exactly the padding of TLS. When the
  record is too short for IV, MAC and length byte it is rejected untouched (0). Otherwise the IV is
  skipped, and the answer is 1 with the padding removed when all the padding bytes repeat the last
  byte and leave room for the MAC, and -1 with the length kept in every other case; no byte outside
  the record is read.
\<close>

theorem tls1_cbc_remove_padding_correct:
  assumes "record_in mem r" and "unat mac_size \<le> EVP_MAX_MD_SIZE" and "unat block_size \<le> 32"
  shows "tls1_cbc_remove_padding iv False mem r block_size mac_size = Some
    (let r' = skip_iv iv block_size r; bs = record_bytes mem r' in
     if unat (rlength r) < 1 + unat mac_size + (if iv then unat block_size else 0) then (0, r)
     else if tls1_padding_valid (unat mac_size) bs
     then (1, r'\<lparr>rlength := rlength r' - (ucast (last bs) + 1)\<rparr>)
     else (- 1, r'))"
proof (cases "unat (rlength r) < 1 + unat mac_size + (if iv then unat block_size else 0)")
  case True
  then show ?thesis
    using ge_overhead_iff(2) [OF assms(2)] overhead_block [OF assms(2,3)]
    by (auto simp: tls1_cbc_remove_padding_def word_less_nat_alt Let_def)
next
  case False
  define r' where "r' = skip_iv iv block_size r"
  define bs where "bs = record_bytes mem r'"
  let ?c = "last bs"
  have "iv \<Longrightarrow> block_size \<le> rlength r"
    using False by (simp add: word_le_nat_alt)
  then have r': "record_in mem r'"
    unfolding r'_def by (rule record_in_skip_iv [OF assms(1)])
  have len: "length bs = unat (rlength r')"
    unfolding bs_def by (rule length_record_bytes [OF r'])
  have ov: "1 + unat mac_size \<le> unat (rlength r')"
    using False by (auto simp: r'_def skip_iv_def unat_sub word_le_nat_alt)
  then have pos: "0 < rlength r'"
    by (simp add: word_less_nat_alt)
  have mo: "1 + mac_size + block_size > rlength r \<longleftrightarrow> unat (rlength r) < 1 + unat mac_size + unat block_size"
    and m: "1 + mac_size > rlength r \<longleftrightarrow> unat (rlength r) < 1 + unat mac_size"
    using ge_overhead_iff(2) [OF assms(2)] overhead_block [OF assms(2,3)]
    by (simp_all add: word_less_nat_alt)
  obtain g where g: "check_padding mem r' (ucast ?c) (check_count r') 0
      (mask_of (ucast ?c + (1 + mac_size) \<le> rlength r')) = Some g"
    and ok: "constant_time_eq_s 0xff (g AND 0xff) = mask_of (tls1_padding_valid (unat mac_size) bs)"
    using check_padding_decides [OF r' assms(2) pos] unfolding bs_def by blast
  have last: "byte_at mem (rdata r' + unat (rlength r' - 1)) = Some ?c"
    unfolding bs_def by (rule last_record_byte [OF r' pos])
  have "tls1_cbc_remove_padding iv False mem r block_size mac_size = Some
      (constant_time_select_int_s (mask_of (tls1_padding_valid (unat mac_size) bs)) 1 (- 1),
       r'\<lparr>rlength := rlength r' - (mask_of (tls1_padding_valid (unat mac_size) bs) AND (ucast ?c + 1))\<rparr>)"
    using False g ok last
    unfolding tls1_cbc_remove_padding_def Let_def skip_iv_def [symmetric] r'_def [symmetric]
      check_count_def [symmetric]
    by (auto simp: mo m sizet.ge_mask add.commute [of "1 + mac_size" "ucast (last bs)"])
  then show ?thesis
    using False by (simp add: masks_int is_int_def mask_of_and_word bs_def r'_def Let_def)
qed

section \<open>MAC extraction\<close>

text \<open>
  The index that runs over \<open>rotated_mac\<close> wraps at \<open>md_size\<close> without a branch.
\<close>

lemma wrap_next:
  assumes "unat j < unat n" and "unat n \<le> 64"
  shows "unat ((j + 1) AND constant_time_lt_s (j + 1) n) = Suc (unat j) mod unat (n :: u64)"
proof -
  have "unat (j + 1) = Suc (unat j)"
    using assms by (intro unat_succ_below [of j n]) (simp add: word_less_nat_alt)
  then show ?thesis
    using assms(1)
    by (cases "Suc (unat j) = unat n") (simp_all add: sizet.lt_mask word_and_mask_of word_less_nat_alt)
qed

text \<open>
  The state of the scan before byte \<open>i\<close>, in numbers: \<open>d\<close> is the record, \<open>ss\<close> the start of the scan,
  \<open>s\<close> and \<open>e\<close> the bounds of the MAC of \<open>n\<close> bytes. Every byte of the MAC seen so far is at its
  position modulo \<open>n\<close>; the positions of the others are still zero.
\<close>

definition scan_inv :: "(nat \<Rightarrow> byte) \<Rightarrow> nat \<Rightarrow> nat \<Rightarrow> nat \<Rightarrow> nat \<Rightarrow> nat \<Rightarrow> nat \<Rightarrow> mac_scan \<Rightarrow> bool" where
  "scan_inv d ss s n base len i st \<longleftrightarrow>
     in_mac st = mask_of (s < i \<and> i \<le> s + n) \<and>
     unat (jpos st) = (i - ss) mod n \<and>
     unat (rotate_offset st) = (if s < i then (s - ss) mod n else 0) \<and>
     length (rotated_mac st) = len \<and>
     (\<forall>k. s \<le> k \<and> k < s + n \<longrightarrow>
        rotated_mac st ! (base + (k - ss) mod n) = (if k < i then d k else 0))"

lemma mod_window_le:
  fixes a b n :: nat
  assumes "a \<le> b" "b < a + n" "a mod n = b mod n"
  shows "a = b"
proof -
  obtain q where q: "b = a + n * q"
    using mod_eq_nat1E [OF assms(3) [symmetric] assms(1)] by metis
  then have "q = 0"
    using assms(2) by (cases q) simp_all
  then show ?thesis using q by simp
qed

lemma mod_window_inj:
  fixes a b u n :: nat
  assumes "u \<le> a" "a < u + n" "u \<le> b" "b < u + n" "a mod n = b mod n"
  shows "a = b"
  using mod_window_le [of a b n] mod_window_le [of b a n] assms by linarith

lemma scan_position_inj:
  fixes k i ss s n :: nat
  assumes "s \<le> k" "k < s + n" "s \<le> i" "i < s + n" "ss \<le> s" "(k - ss) mod n = (i - ss) mod n"
  shows "k = i"
  using mod_window_inj [of "s - ss" "k - ss" n "i - ss"] assms by linarith

lemma in_mac_step:
  assumes "s = unat mac_start" and "s + n = unat mac_end"
  shows "(mask_of (s < unat i \<and> unat i \<le> s + n) OR constant_time_eq_s i mac_start) AND
      constant_time_lt_s i mac_end = mask_of (s \<le> unat i \<and> unat i < s + n)"
proof -
  have "i = mac_start \<longleftrightarrow> unat i = s" and "i < mac_end \<longleftrightarrow> unat i < s + n"
    using assms by (simp_all add: word_unat_eq_iff word_less_nat_alt)
  then have "(s < unat i \<and> unat i \<le> s + n \<or> i = mac_start) \<and> i < mac_end \<longleftrightarrow>
      s \<le> unat i \<and> unat i < s + n"
    by linarith
  then show ?thesis
    by (simp add: sizet.masks)
qed

lemma masked_byte: "ucast (ucast b AND (mask_of P :: u64)) = (if P then b else (0 :: byte))"
  by (cases P) (auto intro!: bit_word_eqI simp: bit_simps)

lemma scan_byte_eq:
  assumes "in_mac st = mask_of (s < unat i \<and> unat i \<le> s + n)"
    and "s = unat mac_start" and "s + n = unat mac_end"
    and "base + unat (jpos st) < length (rotated_mac st)"
  shows "scan_byte mac_start mac_end md_size base i b st = Some
    \<lparr>in_mac = mask_of (s \<le> unat i \<and> unat i < s + n),
     rotate_offset = rotate_offset st OR (jpos st AND mask_of (i = mac_start)),
     jpos = (jpos st + 1) AND constant_time_lt_s (jpos st + 1) md_size,
     rotated_mac = (rotated_mac st)[base + unat (jpos st) :=
       rotated_mac st ! (base + unat (jpos st)) OR
         (if s \<le> unat i \<and> unat i < s + n then b else 0)]\<rparr>"
proof -
  have "byte_at (rotated_mac st) (base + unat (jpos st)) =
      Some (rotated_mac st ! (base + unat (jpos st)))"
    using assms(4) by (simp add: byte_at_def)
  then show ?thesis
    unfolding scan_byte_def Let_def assms(1) in_mac_step [OF assms(2,3)] masked_byte
    by (simp add: sizet.eq_mask)
qed

lemma rotate_offset_step:
  assumes "unat ro = (if s < unat i then (s - ss) mod n else 0)"
    and "unat j = (unat i - ss) mod n" and "s = unat mac_start"
  shows "unat (ro OR (j AND mask_of (i = mac_start))) =
    (if s < Suc (unat i) then (s - ss) mod n else 0)"
proof (cases "i = mac_start")
  case True
  then have "ro = 0"
    using assms(1,3) by (simp add: unat_eq_zero)
  then show ?thesis using True assms(2,3) by simp
next
  case False
  then have "unat i \<noteq> s"
    using assms(3) by (simp add: word_unat_eq_iff)
  then show ?thesis using False assms(1) by (auto simp: less_Suc_eq)
qed

lemma rotated_step:
  fixes rot :: bytes
  assumes pos: "\<And>k. s \<le> k \<and> k < s + n \<Longrightarrow> rot ! (base + (k - ss) mod n) = (if k < i then d k else 0)"
    and len: "base + (i - ss) mod n < length rot" and ss: "ss \<le> s" and k: "s \<le> k \<and> k < s + n"
  shows "rot[base + (i - ss) mod n := rot ! (base + (i - ss) mod n) OR
      (if s \<le> i \<and> i < s + n then d i else 0)] ! (base + (k - ss) mod n) =
    (if k < Suc i then d k else 0)"
proof (cases "k = i")
  case True
  then show ?thesis
    using k pos [OF k] len by simp
next
  case False
  then have "(k - ss) mod n = (i - ss) mod n \<Longrightarrow> \<not> (s \<le> i \<and> i < s + n)"
    using k scan_position_inj [of s k n i ss] ss by blast
  then have "rot[base + (i - ss) mod n := rot ! (base + (i - ss) mod n) OR
      (if s \<le> i \<and> i < s + n then d i else 0)] ! (base + (k - ss) mod n) = rot ! (base + (k - ss) mod n)"
    by (cases "(k - ss) mod n = (i - ss) mod n") auto
  then show ?thesis
    using False pos [OF k] by (simp add: less_Suc_eq)
qed

lemma scan_byte_step:
  assumes inv: "scan_inv d ss s n base len (unat i) st"
    and n: "n = unat md_size" "0 < n" "n \<le> 64" and room: "base + n \<le> len"
    and s: "s = unat mac_start" "s + n = unat mac_end" and ss: "ss \<le> s" "ss \<le> unat i"
  shows "\<exists>st'. scan_byte mac_start mac_end md_size base i (d (unat i)) st = Some st' \<and>
    scan_inv d ss s n base len (Suc (unat i)) st'"
proof -
  have j: "unat (jpos st) = (unat i - ss) mod n" and len: "length (rotated_mac st) = len"
    and ro: "unat (rotate_offset st) = (if s < unat i then (s - ss) mod n else 0)"
    and im: "in_mac st = mask_of (s < unat i \<and> unat i \<le> s + n)"
    and pos: "\<And>k. s \<le> k \<and> k < s + n \<Longrightarrow>
      rotated_mac st ! (base + (k - ss) mod n) = (if k < unat i then d k else 0)"
    using inv unfolding scan_inv_def by blast+
  have jn: "unat (jpos st) < n"
    using n(2) by (simp add: j)
  then have b: "base + unat (jpos st) < length (rotated_mac st)"
    using room len by linarith
  have "unat ((jpos st + 1) AND constant_time_lt_s (jpos st + 1) md_size) = (Suc (unat i) - ss) mod n"
    using wrap_next [of "jpos st" md_size] jn n ss by (simp add: j Suc_diff_le mod_Suc_eq)
  moreover have "s < Suc (unat i) \<and> Suc (unat i) \<le> s + n \<longleftrightarrow> s \<le> unat i \<and> unat i < s + n"
    by linarith
  ultimately show ?thesis
    using rotate_offset_step [OF ro j s(1)] rotated_step [OF pos b [unfolded j] ss(1)] len
    unfolding scan_byte_eq [OF im s b] scan_inv_def
    by (simp add: j)
qed

lemma scan_mac_spec:
  assumes n: "n = unat md_size" "0 < n" "n \<le> 64" and room: "base + n \<le> len"
    and s: "s = unat mac_start" "s + n = unat mac_end" and ss: "ss \<le> s" "ss \<le> unat i"
    and mem: "rdata r + unat (orig_len r) \<le> length mem"
    and i: "unat i \<le> unat (orig_len r)"
    and inv: "scan_inv (\<lambda>k. mem ! (rdata r + k)) ss s n base len (unat i) st"
  shows "\<exists>st'. scan_mac mem r mac_start mac_end md_size base i st = Some st' \<and>
    scan_inv (\<lambda>k. mem ! (rdata r + k)) ss s n base len (unat (orig_len r)) st'"
  using ss(2) i inv
proof (induction "unat (orig_len r) - unat i" arbitrary: i st)
  case 0
  then have "\<not> i < orig_len r" and "unat i = unat (orig_len r)"
    by (simp_all add: word_less_nat_alt)
  then show ?case
    using "0.prems"(3) by (simp add: scan_mac.simps)
next
  case (Suc m)
  then have lt: "i < orig_len r"
    by (simp add: word_less_nat_alt)
  obtain st' where st': "scan_byte mac_start mac_end md_size base i (mem ! (rdata r + unat i)) st = Some st'"
    and inv': "scan_inv (\<lambda>k. mem ! (rdata r + k)) ss s n base len (unat (i + 1)) st'"
    using scan_byte_step [OF Suc.prems(3) n room s ss(1) Suc.prems(1)] unat_succ_below [OF lt] by auto
  have "byte_at mem (rdata r + unat i) = Some (mem ! (rdata r + unat i))"
    using lt mem by (simp add: byte_at_def word_less_nat_alt)
  then have "scan_mac mem r mac_start mac_end md_size base i st =
      scan_mac mem r mac_start mac_end md_size base (i + 1) st'"
    using lt st' by (subst scan_mac.simps) simp
  moreover have "m = unat (orig_len r) - unat (i + 1)" "ss \<le> unat (i + 1)"
      "unat (i + 1) \<le> unat (orig_len r)"
    using Suc unat_succ_below [OF lt] lt by (simp_all add: word_less_nat_alt)
  ultimately show ?case
    using Suc.hyps(1) [of "i + 1" st'] inv' by simp
qed

lemma xor_32_bound:
  assumes "unat x < 64"
  shows "unat (x XOR 32 :: u64) < 64"
proof -
  have "take_bit 6 (unat x) = unat x"
    using assms by (intro take_bit_nat_eq_self) simp
  then have "unat (x XOR 32) = take_bit 6 (unat x XOR 32)"
    by (simp add: unsigned_xor_eq take_bit_xor)
  also have "\<dots> < 2 ^ 6"
    by (rule take_bit_nat_less_exp)
  finally show ?thesis by simp
qed

lemma rotate_mac_spec:
  assumes n: "n = unat md_size" "n \<le> 64" and rot: "base + 64 \<le> length rot"
    and i: "unat i \<le> n" and out: "n \<le> length out"
    and ro: "0 < n \<Longrightarrow> unat ro = (off + unat i) mod n"
  shows "rotate_mac md_size base rot ro i out = Some (take (unat i) out @
    map (\<lambda>k. rot ! (base + (off + k) mod n)) [unat i..<n] @ drop n out)"
  using i out ro
proof (induction "n - unat i" arbitrary: i ro out)
  case 0
  then have "\<not> i < md_size" and "unat i = n"
    using n by (simp_all add: word_less_nat_alt)
  then show ?case
    by (simp add: rotate_mac.simps)
next
  case (Suc m)
  then have lt: "i < md_size" and pos: "0 < n" and lt': "unat i < n"
    using n by (simp_all add: word_less_nat_alt)
  have ro: "unat ro = (off + unat i) mod n"
    using Suc.prems(3) pos by simp
  then have ron: "unat ro < n"
    using pos by simp
  let ?ro = "(ro + 1) AND constant_time_lt_s (ro + 1) md_size"
  let ?out = "out[unat i := rot ! (base + unat ro)]"
  have "unat (ro XOR 32) < 64"
    using ron n by (intro xor_32_bound) simp
  then have "rotate_mac md_size base rot ro i out = rotate_mac md_size base rot ?ro (i + 1) ?out"
    using lt lt' Suc.prems(2) ron rot n
    by (subst rotate_mac.simps) (simp add: byte_at_def mem_write_single Let_def)
  also have "\<dots> = Some (take (unat (i + 1)) ?out @
      map (\<lambda>k. rot ! (base + (off + k) mod n)) [unat (i + 1)..<n] @ drop n ?out)"
  proof (rule Suc.hyps(1))
    show "m = n - unat (i + 1)" "unat (i + 1) \<le> n" "n \<le> length ?out"
      using Suc lt' unat_succ_below [OF lt] by simp_all
    show "unat ?ro = (off + unat (i + 1)) mod n"
      using wrap_next [of ro md_size] ron n unat_succ_below [OF lt] by (simp add: ro mod_Suc_eq)
  qed
  also have "\<dots> = Some (take (unat i) out @
      map (\<lambda>k. rot ! (base + (off + k) mod n)) [unat i..<n] @ drop n out)"
    using lt' Suc.prems(2) unat_succ_below [OF lt]
    by (simp add: take_Suc_conv_app_nth upt_conv_Cons ro)
  finally show ?case .
qed

lemma and_63_bound: "unat (x AND 63 :: u64) < 64"
proof -
  have "x AND 63 = take_bit 6 x"
    by (simp add: take_bit_eq_mask mask_numeral)
  then have "unat (x AND 63) = take_bit 6 (unat x)"
    by (simp add: unsigned_take_bit_eq)
  also have "\<dots> < 2 ^ 6"
    by (rule take_bit_nat_less_exp)
  finally show ?thesis by simp
qed

lemma scan_start_bound:
  fixes orig len md :: u64
  assumes "unat md \<le> 64" and "unat orig \<le> unat len + 256" and "unat md \<le> unat len"
  shows "unat (if orig > md + 255 + 1 then orig - (md + 255 + 1) else 0) \<le> unat len - unat md"
proof -
  have "md + 255 + 1 = 256 + md"
    by simp
  moreover have "unat (256 + md) = 256 + unat md"
    using assms(1) by (simp add: unat_word_ariths)
  ultimately show ?thesis
    using assms by (auto simp: word_less_nat_alt unat_sub word_le_nat_alt)
qed

lemma scan_inv_init:
  assumes "memset stack base 0 n = Some rot" and "ss \<le> s" and "0 < n"
  shows "scan_inv d ss s n base (length stack) ss
    \<lparr>in_mac = 0, rotate_offset = 0, jpos = 0, rotated_mac = rot\<rparr>"
proof -
  have "rot ! (base + q) = 0" if "q < n" for q
    using assms(1) that by (auto simp: memset_def mem_write_def nth_append split: if_splits)
  then show ?thesis
    using assms length_memset [OF assms(1)] by (auto simp: scan_inv_def)
qed

lemma scan_inv_final:
  assumes inv: "scan_inv d ss s n base len m st" and "ss \<le> s" "s + n \<le> m" "0 < n"
  shows "map (\<lambda>k. rotated_mac st ! (base + (unat (rotate_offset st) + k) mod n)) [0..<n] =
    map (\<lambda>k. d (s + k)) [0..<n]"
proof (rule map_cong [OF refl])
  fix k assume "k \<in> set [0..<n]"
  then have k: "k < n" by simp
  have "unat (rotate_offset st) = (s - ss) mod n"
    using inv assms(3,4) by (simp add: scan_inv_def)
  then have "(unat (rotate_offset st) + k) mod n = (s + k - ss) mod n"
    using assms(2) by (simp add: mod_add_left_eq)
  moreover have "rotated_mac st ! (base + (s + k - ss) mod n) = d (s + k)"
    using inv k assms(3) by (simp add: scan_inv_def)
  ultimately show "rotated_mac st ! (base + (unat (rotate_offset st) + k) mod n) = d (s + k)"
    by simp
qed

text \<open>
  C37: \<open>tls3_cbc_copy_mac\<close> extracts the MAC. For every record whose padding took at most 256 bytes and
  whose remaining length holds the MAC, wherever the rotation buffer lies on the stack and whatever
  it contained, the function stays within its buffers, succeeds, and copies to \<open>out\<close> exactly the
  \<open>md_size\<close> bytes that end at the current length of the record.
\<close>

theorem tls3_cbc_copy_mac_correct:
  assumes r: "record_in mem r" and stack: "length stack = 64 + EVP_MAX_MD_SIZE"
    and md: "0 < unat md_size" "unat md_size \<le> EVP_MAX_MD_SIZE" "unat md_size \<le> unat (rlength r)"
    and window: "unat (orig_len r) \<le> unat (rlength r) + 256" and out: "length out = unat md_size"
  shows "tls3_cbc_copy_mac addr stack out mem r md_size =
    Some (1, seg mem (rdata r + (unat (rlength r) - unat md_size)) (unat md_size))"
proof -
  let ?n = "unat md_size" and ?e = "unat (rlength r)" and ?o = "unat (orig_len r)"
  let ?s = "?e - ?n"
  let ?base = "unat ((0 - addr) AND 63)"
  define sc where "sc = (if orig_len r > md_size + 255 + 1 then orig_len r - (md_size + 255 + 1) else 0)"
  have n64: "?n \<le> 64" and len: "length stack = 128" and base: "?base < 64"
    using md(2) stack and_63_bound [of "0 - addr"] by (simp_all add: EVP_MAX_MD_SIZE_def)
  have eo: "?e \<le> ?o" and mem: "rdata r + ?o \<le> length mem"
    using r by (simp_all add: record_in_def word_le_nat_alt)
  have sc: "unat sc \<le> ?s" "unat sc \<le> ?o"
    using scan_start_bound [OF n64 window md(3)] eo by (simp_all add: sc_def)
  have s: "?s = unat (rlength r - md_size)" "?s + ?n = unat (rlength r)"
    using md(3) by (simp_all add: unat_sub word_le_nat_alt)
  obtain rot where rot: "memset stack ?base 0 ?n = Some rot"
    using memset_total [of ?base ?n stack 0] len base n64 by auto
  obtain st where st: "scan_mac mem r (rlength r - md_size) (rlength r) md_size ?base sc
      \<lparr>in_mac = 0, rotate_offset = 0, jpos = 0, rotated_mac = rot\<rparr> = Some st"
    and inv: "scan_inv (\<lambda>k. mem ! (rdata r + k)) (unat sc) ?s ?n ?base 128 ?o st"
    using scan_mac_spec [OF refl md(1) n64 _ s sc(1) order_refl mem sc(2)
        scan_inv_init [OF rot sc(1) md(1)]] base n64 len by auto
  have "rotate_mac md_size ?base (rotated_mac st) (rotate_offset st) 0 out =
      Some (map (\<lambda>k. mem ! (rdata r + (?s + k))) [0..<?n])"
    using rotate_mac_spec [OF refl n64, of ?base "rotated_mac st" 0 out "rotate_offset st"
        "unat (rotate_offset st)"] scan_inv_final [OF inv sc(1) _ md(1)] inv base eo md(3) out
    by (simp add: scan_inv_def)
  moreover have "map (\<lambda>k. mem ! (rdata r + (?s + k))) [0..<?n] = seg mem (rdata r + ?s) ?n"
    using mem eo s(2) by (intro nth_equalityI) (auto simp: seg_def add.assoc)
  ultimately show ?thesis
    using rot st md eo unfolding tls3_cbc_copy_mac_def Let_def sc_def [symmetric]
    by (simp add: EVP_MAX_MD_SIZE_def word_le_nat_alt)
qed

definition sample_record :: tls3_RECORD where
  "sample_record = \<lparr>rec_version = 0x0302, rtype = 23, rlength = 6, orig_len = 6, roff = 0,
     rdata = 0, rinput = 0, rcomp = None, rread = False, repoch = 0, rseq_num = []\<rparr>"

theorem tls3_cbc_remove_padding_correct_witness:
  "tls3_cbc_remove_padding [7, 8, 9, 0, 0, 2] sample_record 8 2 =
    Some (1, sample_record\<lparr>rlength := 3\<rparr>)"
  using tls3_cbc_remove_padding_correct [of "[7, 8, 9, 0, 0, 2]" sample_record 2 8]
  by (simp add: record_in_def sample_record_def EVP_MAX_MD_SIZE_def record_bytes_def
      tls3_padding_valid_def)

theorem tls1_cbc_remove_padding_correct_witness:
  "tls1_cbc_remove_padding False False [7, 8, 9, 2, 2, 2] sample_record 8 2 =
    Some (1, sample_record\<lparr>rlength := 3\<rparr>)"
  using tls1_cbc_remove_padding_correct [of "[7, 8, 9, 2, 2, 2]" sample_record 2 8 False]
  by (simp add: record_in_def sample_record_def EVP_MAX_MD_SIZE_def record_bytes_def
      tls1_padding_valid_def skip_iv_def Let_def)

theorem tls3_cbc_copy_mac_correct_witness:
  "tls3_cbc_copy_mac 100 (replicate 128 5) [0, 0] [7, 8, 9, 2, 2, 2]
     (sample_record\<lparr>rlength := 3\<rparr>) 2 = Some (1, [8, 9])"
  using tls3_cbc_copy_mac_correct [of "[7, 8, 9, 2, 2, 2]" "sample_record\<lparr>rlength := 3\<rparr>"
      "replicate 128 5" 2 "[0, 0]" 100]
  by (simp add: record_in_def sample_record_def EVP_MAX_MD_SIZE_def seg_def)

end
