(* ===== verification/Record_Get.thy ===== *)
theory Record_Get
  imports Record_Read Cbc_Record Packet
begin

text \<open>
  \<open>tls3_get_record\<close> of \<open>tls/record/tls3_record.c\<close>: framing of the input into records, the checks on
  the record header, the removal of protection and the checks on the plaintext. The function is cut
  at its loops and comments into definitions of which each translates a stretch of the source:
  header, body, the loop that collects several records for a pipelining cipher, the treatment of
  ChangeCipherSpec in TLS 1.3, encrypt-then-MAC, the MAC check, the failure exit and the final checks
  on each record.

  The state is the read side of the record layer (Record_Read), the records, the handshake state
  (Handshake_State), whose \<open>otls_statem_fatal\<close> is \<open>tlsfatal\<close>, and what the function consults of the
  negotiated parameters. Decryption and MAC computation are calls through the method table
  (\<open>s->method->tls3_enc\<close>): they are parameters, as are the properties of the EVP cipher. The model is
  of a build without kernel TLS, of a connection without compression (\<open>s->expand\<close> is NULL), and
  leaves out the message callback, which only observes.
\<close>

section \<open>State\<close>

record ('b, 'c) gconn =
  g_rl :: "'b rlayer"
  g_core :: tls
  g_rrec :: "tls3_RECORD list"
  g_read_body :: bool
  g_numrpipes :: nat
  g_empty_record_count :: nat
  g_is_first_record :: bool
  g_read_sequence :: bytes
  g_enc_read_ctx :: "'c option"
  g_enc_write_ctx :: "'c option"
  g_write_hash :: bool
  g_read_hash :: bool
  g_read_md_size :: "int option"
  g_use_explicit_iv :: bool
  g_session :: bool
  g_max_fragment_len_mode :: nat
  g_max_pipelines :: nat
  g_sess_max_early_data :: u32
  g_psk_max_early_data :: "u32 option"
  g_recv_max_early_data :: u32
  g_early_data_count :: u32

record ('b, 'c) get_env =
  e_malloc :: "nat \<Rightarrow> (nat \<times> bytes) option"
  e_bio_read :: "'b \<Rightarrow> int \<Rightarrow> (int \<times> bytes \<times> 'b) option"
  e_pipeline :: "'c \<Rightarrow> bool"
  e_cbc_mode :: "'c \<Rightarrow> bool"
  e_enc :: "tls3_RECORD list \<Rightarrow> ('b, 'c) gconn \<Rightarrow> int \<times> tls3_RECORD list \<times> ('b, 'c) gconn"
  e_mac :: "tls3_RECORD \<Rightarrow> ('b, 'c) gconn \<Rightarrow> int \<times> bytes \<times> ('b, 'c) gconn"
  e_stack_addr :: u64
  e_stack :: bytes

abbreviation (input) RT_CCS :: int where "RT_CCS \<equiv> 20"
abbreviation (input) RT_ALERT :: int where "RT_ALERT \<equiv> 21"
abbreviation (input) RT_HANDSHAKE :: int where "RT_HANDSHAKE \<equiv> 22"
abbreviation (input) RT_APPDATA :: int where "RT_APPDATA \<equiv> 23"
abbreviation (input) tls2_VERSION :: int where "tls2_VERSION \<equiv> 2"
abbreviation (input) TLS1_2_VERSION :: int where "TLS1_2_VERSION \<equiv> 0x0303"
abbreviation (input) tls_AD_BAD_RECORD_MAC :: int where "tls_AD_BAD_RECORD_MAC \<equiv> 20"
abbreviation (input) tls_AD_RECORD_OVERFLOW :: int where "tls_AD_RECORD_OVERFLOW \<equiv> 22"
abbreviation (input) tls_AD_DECODE_ERROR :: int where "tls_AD_DECODE_ERROR \<equiv> 50"
abbreviation (input) tls_AD_PROTOCOL_VERSION :: int where "tls_AD_PROTOCOL_VERSION \<equiv> 70"
abbreviation (input) tls_R_BLOCK_CIPHER_PAD_IS_WRONG :: int where "tls_R_BLOCK_CIPHER_PAD_IS_WRONG \<equiv> 129"
abbreviation (input) tls_R_DATA_LENGTH_TOO_LONG :: int where "tls_R_DATA_LENGTH_TOO_LONG \<equiv> 146"
abbreviation (input) tls_R_ENCRYPTED_LENGTH_TOO_LONG :: int where "tls_R_ENCRYPTED_LENGTH_TOO_LONG \<equiv> 150"
abbreviation (input) tls_R_HTTPS_PROXY_REQUEST :: int where "tls_R_HTTPS_PROXY_REQUEST \<equiv> 155"
abbreviation (input) tls_R_HTTP_REQUEST :: int where "tls_R_HTTP_REQUEST \<equiv> 156"
abbreviation (input) tls_R_LENGTH_TOO_SHORT :: int where "tls_R_LENGTH_TOO_SHORT \<equiv> 160"
abbreviation (input) tls_R_TOO_MUCH_EARLY_DATA :: int where "tls_R_TOO_MUCH_EARLY_DATA \<equiv> 164"
abbreviation (input) tls_R_PACKET_LENGTH_TOO_LONG :: int where "tls_R_PACKET_LENGTH_TOO_LONG \<equiv> 198"
abbreviation (input) tls_R_INVALID_CCS_MESSAGE :: int where "tls_R_INVALID_CCS_MESSAGE \<equiv> 260"
abbreviation (input) tls_R_UNEXPECTED_CCS_MESSAGE :: int where "tls_R_UNEXPECTED_CCS_MESSAGE \<equiv> 262"
abbreviation (input) tls_R_WRONG_VERSION_NUMBER :: int where "tls_R_WRONG_VERSION_NUMBER \<equiv> 267"
abbreviation (input) R_BAD_LENGTH :: int where "R_BAD_LENGTH \<equiv> 271"
abbreviation (input) tls_R_DECRYPTION_FAILED_OR_BAD_RECORD_MAC :: int where
  "tls_R_DECRYPTION_FAILED_OR_BAD_RECORD_MAC \<equiv> 281"
abbreviation (input) tls_R_RECORD_TOO_SMALL :: int where "tls_R_RECORD_TOO_SMALL \<equiv> 298"
abbreviation (input) tls_R_BAD_RECORD_TYPE :: int where "tls_R_BAD_RECORD_TYPE \<equiv> 443"
abbreviation (input) ERR_LIB_EVP :: int where "ERR_LIB_EVP \<equiv> 6"
abbreviation (input) TLS1_FLAGS_ENCRYPT_THEN_MAC_READ :: u32 where
  "TLS1_FLAGS_ENCRYPT_THEN_MAC_READ \<equiv> 0x100"

definition MAX_EMPTY_RECORDS :: nat where "MAX_EMPTY_RECORDS = 32"
definition tls2_RT_HEADER_LENGTH :: nat where "tls2_RT_HEADER_LENGTH = 2"
definition MIN_tls2_RECORD_LEN :: nat where "MIN_tls2_RECORD_LEN = 9"
definition EARLY_DATA_CIPHERTEXT_OVERHEAD :: nat where
  "EARLY_DATA_CIPHERTEXT_OVERHEAD = 6 * (16 + 1) + 2"

definition on_gcore :: "(tls \<Rightarrow> tls) \<Rightarrow> ('b, 'c) gconn \<Rightarrow> ('b, 'c) gconn" where
  "on_gcore f g = g\<lparr>g_core := f (g_core g)\<rparr>"

definition g_fatal :: "int \<Rightarrow> int \<Rightarrow> ('b, 'c) gconn \<Rightarrow> ('b, 'c) gconn" where
  "g_fatal al reason = on_gcore (otls_statem_fatal al reason)"

definition on_rec :: "nat \<Rightarrow> (tls3_RECORD \<Rightarrow> tls3_RECORD) \<Rightarrow> ('b, 'c) gconn \<Rightarrow> ('b, 'c) gconn" where
  "on_rec j f g = g\<lparr>g_rrec := (g_rrec g)[j := f (g_rrec g ! j)]\<rparr>"

definition tls_READ_ETM :: "('b, 'c) gconn \<Rightarrow> bool" where
  "tls_READ_ETM g \<longleftrightarrow> s3_flags (g_core g) AND TLS1_FLAGS_ENCRYPT_THEN_MAC_READ \<noteq> 0"

definition EVP_MD_CTX_size :: "int option \<Rightarrow> int" where
  "EVP_MD_CTX_size md = (case md of None \<Rightarrow> - 1 | Some n \<Rightarrow> n)"

text \<open>A step either returns from \<open>tls3_get_record\<close> or goes on.\<close>

datatype 'g outcome = Return int 'g | Continue 'g

definition fail :: "int \<Rightarrow> int \<Rightarrow> ('b, 'c) gconn \<Rightarrow> ('b, 'c) gconn outcome option" where
  "fail al reason g = Some (Return (- 1) (g_fatal al reason g))"

definition and_then ::
    "'g outcome option \<Rightarrow> ('g \<Rightarrow> 'g outcome option) \<Rightarrow> 'g outcome option" where
  "and_then x f = (case x of None \<Rightarrow> None | Some (Return r g) \<Rightarrow> Some (Return r g) | Some (Continue g) \<Rightarrow> f g)"

section \<open>Helpers\<close>

definition tls3_RECORD_clear :: "nat \<Rightarrow> tls3_RECORD list \<Rightarrow> tls3_RECORD list" where
  "tls3_RECORD_clear num_recs rs =
     map (\<lambda>r. \<lparr>rec_version = 0, rtype = 0, rlength = 0, orig_len = 0, roff = 0, rdata = 0, rinput = 0,
       rcomp = rcomp r, rread = False, repoch = 0, rseq_num = replicate 8 0\<rparr>) (take num_recs rs)
     @ drop num_recs rs"

definition tls3_RECORD_release :: "nat \<Rightarrow> tls3_RECORD list \<Rightarrow> tls3_RECORD list" where
  "tls3_RECORD_release num_recs rs = map (\<lambda>r. r\<lparr>rcomp := None\<rparr>) (take num_recs rs) @ drop num_recs rs"

definition tls3_RECORD_set_seq_num :: "tls3_RECORD \<Rightarrow> bytes \<Rightarrow> tls3_RECORD option" where
  "tls3_RECORD_set_seq_num r seq = do { s \<leftarrow> mem_read seq 0 8; Some (r\<lparr>rseq_num := s\<rparr>) }"

definition tls3_record_app_data_waiting :: "('b, 'c) gconn \<Rightarrow> bool option" where
  "tls3_record_app_data_waiting g =
     (let rbuf = rl_rbuf (g_rl g) in
      case rb_buf rbuf of None \<Rightarrow> Some False
      | Some m \<Rightarrow>
          if rb_left rbuf < tls3_RT_HEADER_LENGTH then Some False
          else do {
            p \<leftarrow> mem_read m (rb_offset rbuf) tls3_RT_HEADER_LENGTH;
            if p ! 0 \<noteq> RT_APPLICATION_DATA then Some False
            else let len = unat (p ! 3) * 256 + unat (p ! 4)
            in Some (\<not> rb_left rbuf < tls3_RT_HEADER_LENGTH + len)
          })"

text \<open>
  The sum \<open>max_early_data + overhead\<close> is computed in \<open>uint32_t\<close> and wraps; the comparison is made in
  \<open>size_t\<close>.
\<close>

definition early_data_count_ok ::
    "('b, 'c) gconn \<Rightarrow> nat \<Rightarrow> nat \<Rightarrow> bool \<Rightarrow> (bool \<times> ('b, 'c) gconn) option" where
  "early_data_count_ok g len overhead sending =
     (let core = g_core g;
          use_psk = (\<not> server core \<and> g_sess_max_early_data g = 0);
          al = (if sending then tls_AD_INTERNAL_ERROR else tls3_AD_UNEXPECTED_MESSAGE)
      in if use_psk \<and> \<not> (case g_psk_max_early_data g of None \<Rightarrow> False | Some v \<Rightarrow> v > 0) then
           Some (False, g_fatal tls_AD_INTERNAL_ERROR ERR_R_INTERNAL_ERROR g)
         else
           let sess_max = (if use_psk then the (g_psk_max_early_data g) else g_sess_max_early_data g);
               max_early_data =
                 (if \<not> server core then sess_max
                  else if ext_early_data core \<noteq> tls_EARLY_DATA_ACCEPTED then g_recv_max_early_data g
                  else if g_recv_max_early_data g < sess_max then g_recv_max_early_data g else sess_max)
           in if max_early_data = 0 then Some (False, g_fatal al tls_R_TOO_MUCH_EARLY_DATA g)
           else let max_early_data = max_early_data + of_nat overhead
           in if uadd (unat (g_early_data_count g)) len > unat max_early_data
              then Some (False, g_fatal al tls_R_TOO_MUCH_EARLY_DATA g)
              else Some (True, g\<lparr>g_early_data_count := g_early_data_count g + of_nat len\<rparr>))"

section \<open>Framing\<close>

text \<open>\<open>tls3_read_n\<close> on this connection; fatal errors go to the state machine.\<close>

definition g_read_n ::
    "('b, 'c) get_env \<Rightarrow> nat \<Rightarrow> nat \<Rightarrow> bool \<Rightarrow> bool \<Rightarrow> ('b, 'c) gconn \<Rightarrow> (int \<times> ('b, 'c) gconn) option" where
  "g_read_n e n mx ext clearold g = do {
     (ret, _, rl) \<leftarrow> tls3_read_n (e_malloc e) (e_bio_read e) n mx ext clearold (g_rl g);
     Some (ret, on_gcore (\<lambda>s. fold (\<lambda>(al, rs). otls_statem_fatal al rs) (rl_fatal rl)
                                 (s\<lparr>rwstate := rl_rwstate rl\<rparr>))
                  (g\<lparr>g_rl := rl\<lparr>rl_fatal := []\<rparr>\<rparr>))
   }"

definition header_v2 :: "nat \<Rightarrow> u64 \<Rightarrow> ('b, 'c) gconn \<Rightarrow> ('b, 'c) gconn outcome option" where
  "header_v2 j tlsv2len g =
     (let len = tlsv2len AND 0x7fff;
          g = on_rec j (\<lambda>r. r\<lparr>rtype := RT_HANDSHAKE, rec_version := tls2_VERSION, rlength := len\<rparr>) g
      in if unat len > usub (rb_len (rl_rbuf (g_rl g))) tls2_RT_HEADER_LENGTH
         then fail tls_AD_RECORD_OVERFLOW tls_R_PACKET_LENGTH_TOO_LONG g
         else if unat len < MIN_tls2_RECORD_LEN
         then fail tls_AD_DECODE_ERROR tls_R_LENGTH_TOO_SHORT g
         else Some (Continue g))"

text \<open>A record with the wrong version, as seen by \<open>if (!s->first_packet ...)\<close>.\<close>

definition wrong_version :: "nat \<Rightarrow> int \<Rightarrow> ('b, 'c) gconn \<Rightarrow> ('b, 'c) gconn outcome option" where
  "wrong_version j ver g =
     (let core = g_core g in
      if (version core div 0x100) mod 0x100 = ver div 0x100 \<and> g_enc_write_ctx g = None \<and> \<not> g_write_hash g then
        if rtype (g_rrec g ! j) = RT_ALERT then fail tls_AD_NO_ALERT tls_R_WRONG_VERSION_NUMBER g
        else fail tls_AD_PROTOCOL_VERSION tls_R_WRONG_VERSION_NUMBER (on_gcore (version_update (\<lambda>_. ver)) g)
      else fail tls_AD_PROTOCOL_VERSION tls_R_WRONG_VERSION_NUMBER g)"

definition ascii :: "string \<Rightarrow> bytes" where
  "ascii str = map of_char str"

definition not_tls :: "bytes \<Rightarrow> ('b, 'c) gconn \<Rightarrow> ('b, 'c) gconn outcome option" where
  "not_tls p g =
     (if g_is_first_record g then
        if take 4 p = ascii ''GET '' \<or> take 5 p = ascii ''POST '' \<or> take 5 p = ascii ''HEAD ''
           \<or> take 4 p = ascii ''PUT '' then fail tls_AD_NO_ALERT tls_R_HTTP_REQUEST g
        else if take 5 p = ascii ''CONNE'' then fail tls_AD_NO_ALERT tls_R_HTTPS_PROXY_REQUEST g
        else fail tls_AD_NO_ALERT tls_R_WRONG_VERSION_NUMBER g
      else fail tls_AD_PROTOCOL_VERSION tls_R_WRONG_VERSION_NUMBER g)"

definition header_v3 :: "nat \<Rightarrow> bytes \<Rightarrow> int \<Rightarrow> int \<Rightarrow> u64 \<Rightarrow> ('b, 'c) gconn \<Rightarrow> ('b, 'c) gconn outcome option" where
  "header_v3 j p ty ver len g =
     (let g = on_rec j (\<lambda>r. r\<lparr>rtype := ty, rec_version := ver, rlength := len\<rparr>) g; core = g_core g in
      if \<not> first_packet core \<and> \<not> tls_IS_TLS13 core \<and> hello_retry_request core \<noteq> tls_HRR_PENDING
         \<and> ver \<noteq> version core then wrong_version j ver g
      else if ver div 0x100 \<noteq> 3 then not_tls p g
      else if tls_IS_TLS13 core \<and> g_enc_read_ctx g \<noteq> None \<and> ty \<noteq> RT_APPDATA
         \<and> (ty \<noteq> RT_CCS \<or> \<not> tls_IS_FIRST_HANDSHAKE core)
         \<and> (ty \<noteq> RT_ALERT \<or> enc_read_state (statem core) \<noteq> ENC_READ_STATE_ALLOW_PLAIN_ALERTS)
      then fail tls3_AD_UNEXPECTED_MESSAGE tls_R_BAD_RECORD_TYPE g
      else if tls_IS_TLS13 core \<and> g_enc_read_ctx g \<noteq> None \<and> ver \<noteq> TLS1_2_VERSION
      then fail tls_AD_DECODE_ERROR tls_R_WRONG_VERSION_NUMBER g
      else if unat len > usub (rb_len (rl_rbuf (g_rl g))) tls3_RT_HEADER_LENGTH
      then fail tls_AD_RECORD_OVERFLOW tls_R_PACKET_LENGTH_TOO_LONG g
      else Some (Continue g))"

definition parse_header :: "nat \<Rightarrow> ('b, 'c) gconn \<Rightarrow> ('b, 'c) gconn outcome option" where
  "parse_header j g =
     (let rl = g_rl g; m = rbytes rl in
      case PACKET_buf_init (rl_packet rl) (rl_packet_length rl) of
        None \<Rightarrow> fail tls_AD_INTERNAL_ERROR ERR_R_INTERNAL_ERROR g
      | Some pkt \<Rightarrow> do {
          (v2len, q) \<leftarrow> PACKET_get_net_2 m pkt;
          (v2type, _) \<leftarrow> PACKET_get_1 m q;
          case (v2len, v2type) of
            (Some l2, Some t2) \<Rightarrow>
              if server (g_core g) \<and> g_is_first_record g \<and> l2 AND 0x8000 \<noteq> 0 \<and> t2 = 1
              then header_v2 j (ucast l2) g
              else do {
                (ty, q) \<leftarrow> PACKET_get_1 m pkt;
                (ver, q) \<leftarrow> PACKET_get_net_2 m q;
                (len, q) \<leftarrow> PACKET_get_net_2 m q;
                case (ty, ver, len) of
                  (Some t, Some v, Some l) \<Rightarrow>
                    header_v3 j (packet_bytes rl) (int (unat t)) (int (unat v)) (ucast l) g
                | _ \<Rightarrow> fail tls_AD_DECODE_ERROR ERR_R_INTERNAL_ERROR g
              }
          | _ \<Rightarrow> fail tls_AD_DECODE_ERROR ERR_R_INTERNAL_ERROR g
        })"

definition get_header :: "('b, 'c) get_env \<Rightarrow> nat \<Rightarrow> ('b, 'c) gconn \<Rightarrow> ('b, 'c) gconn outcome option" where
  "get_header e j g =
     (if g_read_body g \<and> \<not> rl_packet_length (g_rl g) < tls3_RT_HEADER_LENGTH then Some (Continue g)
      else do {
        (ret, g) \<leftarrow> g_read_n e tls3_RT_HEADER_LENGTH (rb_len (rl_rbuf (g_rl g))) False (j = 0) g;
        if ret \<le> 0 then Some (Return ret g)
        else parse_header j (g\<lparr>g_read_body := True\<rparr>)
      })"

text \<open>The length check of the record, with \<open>s->expand\<close> NULL.\<close>

definition max_record_length :: "('b, 'c) gconn \<Rightarrow> nat" where
  "max_record_length g =
     (if tls_IS_TLS13 (g_core g) then tls3_RT_MAX_TLS13_ENCRYPTED_LENGTH
      else tls3_RT_MAX_ENCRYPTED_LENGTH - tls3_RT_MAX_COMPRESSED_OVERHEAD)"

definition get_body :: "('b, 'c) get_env \<Rightarrow> nat \<Rightarrow> ('b, 'c) gconn \<Rightarrow> ('b, 'c) gconn outcome option" where
  "get_body e j g =
     (let r = g_rrec g ! j; v2 = (rec_version r = tls2_VERSION) in
      if unat (rlength r) > max_record_length g
      then fail tls_AD_RECORD_OVERFLOW tls_R_ENCRYPTED_LENGTH_TOO_LONG g
      else let more = (if v2 then usub (uadd (unat (rlength r)) tls2_RT_HEADER_LENGTH) tls3_RT_HEADER_LENGTH
                       else unat (rlength r)) in do {
        (ret, g) \<leftarrow> (if more > 0 then g_read_n e more more True False g else Some (1, g));
        if ret \<le> 0 then Some (Return ret g)
        else
          let inp = rl_packet (g_rl g) + (if v2 then tls2_RT_HEADER_LENGTH else tls3_RT_HEADER_LENGTH);
              g = on_rec j (\<lambda>r. r\<lparr>rinput := inp, rdata := inp, orig_len := rlength r, rread := False\<rparr>) g
          in Some (Continue (g\<lparr>g_read_body := False, g_is_first_record := False,
                               g_rl := (g_rl g)\<lparr>rl_packet_length := 0\<rparr>\<rparr>))
      })"

definition more_pipelines :: "('b, 'c) get_env \<Rightarrow> nat \<Rightarrow> nat \<Rightarrow> ('b, 'c) gconn \<Rightarrow> bool option" where
  "more_pipelines e j max_recs g =
     (if j + 1 < max_recs \<and> rtype (g_rrec g ! j) = RT_APPDATA \<and> g_use_explicit_iv g
         \<and> (case g_enc_read_ctx g of None \<Rightarrow> False | Some c \<Rightarrow> e_pipeline e c)
      then tls3_record_app_data_waiting g else Some False)"

text \<open>The do-while loop; it leaves the number of records read.\<close>

function collect_records ::
    "('b, 'c) get_env \<Rightarrow> nat \<Rightarrow> nat \<Rightarrow> ('b, 'c) gconn \<Rightarrow> (nat \<times> ('b, 'c) gconn outcome) option" where
  "collect_records e j max_recs g =
     (case and_then (get_header e j g) (get_body e j) of
        None \<Rightarrow> None
      | Some (Return r g) \<Rightarrow> Some (j, Return r g)
      | Some (Continue g) \<Rightarrow>
          (case more_pipelines e j max_recs g of
             None \<Rightarrow> None
           | Some True \<Rightarrow> (if j + 1 < max_recs then collect_records e (j + 1) max_recs g else None)
           | Some False \<Rightarrow> Some (j + 1, Continue g)))"
  by pat_completeness auto

termination
  by (relation "measure (\<lambda>(e, j, n, g). n - j)") auto

declare collect_records.simps [simp del]

section \<open>Protection\<close>

definition bump_empty :: "int \<Rightarrow> ('b, 'c) gconn \<Rightarrow> ('b, 'c) gconn outcome option" where
  "bump_empty reason g =
     (let g = g\<lparr>g_empty_record_count := g_empty_record_count g + 1\<rparr> in
      if g_empty_record_count g > MAX_EMPTY_RECORDS then fail tls3_AD_UNEXPECTED_MESSAGE reason g
      else Some (Continue g))"

definition is_ignored_ccs :: "nat \<Rightarrow> ('b, 'c) gconn \<Rightarrow> bool" where
  "is_ignored_ccs n g \<longleftrightarrow> n = 1 \<and> rtype (g_rrec g ! (n - 1)) = RT_CCS
     \<and> (tls_IS_TLS13 (g_core g) \<or> hello_retry_request (g_core g) \<noteq> tls_HRR_NONE)
     \<and> tls_IS_FIRST_HANDSHAKE (g_core g)"

definition ignore_ccs :: "('b, 'c) gconn \<Rightarrow> ('b, 'c) gconn outcome option" where
  "ignore_ccs g =
     (let r = g_rrec g ! 0 in
      if rlength r \<noteq> 1 then fail tls_AD_ILLEGAL_PARAMETER tls_R_INVALID_CCS_MESSAGE g
      else do {
        b \<leftarrow> byte_at (rbytes (g_rl g)) (rdata r);
        if b \<noteq> 1 then fail tls_AD_ILLEGAL_PARAMETER tls_R_INVALID_CCS_MESSAGE g
        else and_then (bump_empty tls_R_UNEXPECTED_CCS_MESSAGE (on_rec 0 (rtype_update (\<lambda>_. RT_HANDSHAKE)) g))
          (\<lambda>g. Some (Return 1 ((on_rec 0 (rread_update (\<lambda>_. True)) g)\<lparr>g_numrpipes := 1\<rparr>)))
      })"

text \<open>Encrypt-then-MAC: record \<open>j\<close> of \<open>n\<close>.\<close>

function etm_check :: "('b, 'c) get_env \<Rightarrow> u64 \<Rightarrow> nat \<Rightarrow> nat \<Rightarrow> ('b, 'c) gconn \<Rightarrow> ('b, 'c) gconn outcome option" where
  "etm_check e mac_size j n g =
     (if j < n then
        (if rlength (g_rrec g ! j) < mac_size then fail tls_AD_DECODE_ERROR tls_R_LENGTH_TOO_SHORT g
         else
           let g = on_rec j (\<lambda>r. r\<lparr>rlength := rlength r - mac_size\<rparr>) g;
               r = g_rrec g ! j;
               (i, md, g) = e_mac e r g
           in case mem_read (rbytes (g_rl g)) (rdata r + unat (rlength r)) (unat mac_size) of
                None \<Rightarrow> None
              | Some mac \<Rightarrow>
                  if i = 0 \<or> take (unat mac_size) md \<noteq> mac
                  then fail tls_AD_BAD_RECORD_MAC tls_R_DECRYPTION_FAILED_OR_BAD_RECORD_MAC g
                  else etm_check e mac_size (j + 1) n g)
      else Some (Continue g))"
  by pat_completeness auto

termination
  by (relation "measure (\<lambda>(e, s, j, n, g). n - j)") auto

declare etm_check.simps [simp del]

definition etm_phase :: "('b, 'c) get_env \<Rightarrow> nat \<Rightarrow> ('b, 'c) gconn \<Rightarrow> ('b, 'c) gconn outcome option" where
  "etm_phase e n g =
     (if tls_READ_ETM g \<and> g_read_hash g then
        let imac_size = EVP_MD_CTX_size (g_read_md_size g) in
        if \<not> (imac_size \<ge> 0 \<and> imac_size \<le> int EVP_MAX_MD_SIZE)
        then fail tls_AD_INTERNAL_ERROR ERR_LIB_EVP g
        else etm_check e (of_int imac_size) 0 n g
      else Some (Continue g))"

text \<open>
  The exit for a record that could not be decrypted while early data is being skipped, and the
  common exit for a bad record.
\<close>

definition skip_early_record :: "nat \<Rightarrow> ('b, 'c) gconn \<Rightarrow> ('b, 'c) gconn outcome option" where
  "skip_early_record len g = do {
     (okay, g) \<leftarrow> early_data_count_ok g len EARLY_DATA_CIPHERTEXT_OVERHEAD False;
     if \<not> okay then Some (Return (- 1) g)
     else Some (Return 1 ((on_rec 0 (\<lambda>r. r\<lparr>rlength := 0, rread := True\<rparr>) g)
            \<lparr>g_numrpipes := 1, g_read_sequence := replicate 8 0\<rparr>))
   }"

definition bad_record :: "int \<Rightarrow> nat \<Rightarrow> nat \<Rightarrow> ('b, 'c) gconn \<Rightarrow> ('b, 'c) gconn outcome option" where
  "bad_record reason n len g =
     (if otls_statem_in_error (g_core g) then Some (Return (- 1) g)
      else if n = 1 \<and> otls_statem_skip_early_data (g_core g) then skip_early_record len g
      else fail tls_AD_BAD_RECORD_MAC reason g)"

text \<open>
  The MAC of record \<open>j\<close>: how it is extracted, and the loop over the records, which accumulates
  \<open>enc_err\<close>.
\<close>

definition extract_mac :: "('b, 'c) get_env \<Rightarrow> u64 \<Rightarrow> nat \<Rightarrow> ('b, 'c) gconn \<Rightarrow> (int \<times> bytes) option" where
  "extract_mac e mac_size j g =
     (let r = g_rrec g ! j in
      if (case g_enc_read_ctx g of None \<Rightarrow> False | Some c \<Rightarrow> e_cbc_mode e c)
      then tls3_cbc_copy_mac (e_stack_addr e) (e_stack e) (replicate (unat mac_size) 0)
             (rbytes (g_rl g)) r mac_size
      else do {
        mac \<leftarrow> mem_read (rbytes (g_rl g)) (rdata r + unat (rlength r - mac_size)) (unat mac_size);
        Some (1, mac)
      })"

definition mac_one ::
    "('b, 'c) get_env \<Rightarrow> u64 \<Rightarrow> nat \<Rightarrow> ('b, 'c) gconn \<Rightarrow> (bool \<times> ('b, 'c) gconn outcome) option" where
  "mac_one e mac_size j g =
     (let r = g_rrec g ! j;
          cbc = (case g_enc_read_ctx g of None \<Rightarrow> False | Some c \<Rightarrow> e_cbc_mode e c)
      in if orig_len r < mac_size \<or> (cbc \<and> orig_len r < mac_size + 1)
         then map_option (Pair False) (fail tls_AD_DECODE_ERROR tls_R_LENGTH_TOO_SHORT g)
         else do {
           (okay, mac) \<leftarrow> extract_mac e mac_size j g;
           if okay = 0 then map_option (Pair False) (fail tls_AD_INTERNAL_ERROR ERR_R_INTERNAL_ERROR g)
           else
             let g = on_rec j (\<lambda>r. r\<lparr>rlength := rlength r - mac_size\<rparr>) g;
                 r = g_rrec g ! j;
                 (i, md, g) = e_mac e r g
             in Some ((i = 0 \<or> take (unat mac_size) md \<noteq> mac)
                        \<or> unat (rlength r) > tls3_RT_MAX_COMPRESSED_LENGTH + unat mac_size, Continue g)
         })"

function mac_check :: "('b, 'c) get_env \<Rightarrow> u64 \<Rightarrow> nat \<Rightarrow> nat \<Rightarrow> int \<Rightarrow> ('b, 'c) gconn
    \<Rightarrow> (int \<times> ('b, 'c) gconn outcome) option" where
  "mac_check e mac_size j n enc_err g =
     (if j < n then
        (case mac_one e mac_size j g of
           None \<Rightarrow> None
         | Some (bad, Return r g) \<Rightarrow> Some (enc_err, Return r g)
         | Some (bad, Continue g) \<Rightarrow>
             mac_check e mac_size (j + 1) n (if bad then - 1 else enc_err) g)
      else Some (enc_err, Continue g))"
  by pat_completeness auto

termination
  by (relation "measure (\<lambda>(e, s, j, n, x, g). n - j)") auto

declare mac_check.simps [simp del]

definition mac_phase :: "('b, 'c) get_env \<Rightarrow> bool \<Rightarrow> nat \<Rightarrow> int \<Rightarrow> ('b, 'c) gconn
    \<Rightarrow> (int \<times> ('b, 'c) gconn outcome) option" where
  "mac_phase e sess n enc_err g =
     (if sess \<and> g_enc_read_ctx g \<noteq> None \<and> \<not> tls_READ_ETM g \<and> g_read_md_size g \<noteq> None then
        let mac_size = (of_int (EVP_MD_CTX_size (g_read_md_size g)) :: u64) in
        if \<not> unat mac_size \<le> EVP_MAX_MD_SIZE
        then map_option (Pair enc_err) (fail tls_AD_INTERNAL_ERROR ERR_R_INTERNAL_ERROR g)
        else mac_check e mac_size 0 n enc_err g
      else Some (enc_err, Continue g))"

definition decrypt_phase :: "('b, 'c) get_env \<Rightarrow> nat \<Rightarrow> ('b, 'c) gconn \<Rightarrow> ('b, 'c) gconn outcome option" where
  "decrypt_phase e n g =
     (let first_rec_len = unat (rlength (g_rrec g ! 0));
          sess = g_session g;
          (enc_err, recs, g) = e_enc e (take n (g_rrec g)) g;
          g = g\<lparr>g_rrec := recs @ drop n (g_rrec g)\<rparr>
      in if enc_err = 0 then bad_record tls_R_BLOCK_CIPHER_PAD_IS_WRONG n (unat (rlength (g_rrec g ! 0))) g
      else do {
        (enc_err, res) \<leftarrow> mac_phase e sess n enc_err g;
        and_then (Some res) (\<lambda>g.
          if enc_err < 0 then bad_record tls_R_DECRYPTION_FAILED_OR_BAD_RECORD_MAC n first_rec_len g
          else Some (Continue g))
      })"

section \<open>Plaintext checks\<close>

text \<open>\<open>for (end = length - 1; end > 0 && data[end] == 0; end--)\<close>\<close>

fun strip_padding :: "bytes \<Rightarrow> nat \<Rightarrow> nat \<Rightarrow> nat option" where
  "strip_padding m off 0 = Some 0"
| "strip_padding m off (Suc k) = do {
     b \<leftarrow> byte_at m (off + Suc k);
     if b = 0 then strip_padding m off k else Some (Suc k)
   }"

definition inner_plaintext :: "nat \<Rightarrow> ('b, 'c) gconn \<Rightarrow> ('b, 'c) gconn outcome option" where
  "inner_plaintext j g =
     (let r = g_rrec g ! j in
      if tls_IS_TLS13 (g_core g) \<and> g_enc_read_ctx g \<noteq> None \<and> rtype r \<noteq> RT_ALERT then
        if rlength r = 0 \<or> rtype r \<noteq> RT_APPDATA
        then fail tls3_AD_UNEXPECTED_MESSAGE tls_R_BAD_RECORD_TYPE g
        else do {
          k \<leftarrow> strip_padding (rbytes (g_rl g)) (rdata r) (unat (rlength r) - 1);
          ty \<leftarrow> byte_at (rbytes (g_rl g)) (rdata r + k);
          let ty = int (unat ty);
          let g = on_rec j (\<lambda>r. r\<lparr>rlength := of_nat k, rtype := ty\<rparr>) g;
          if ty \<noteq> RT_APPDATA \<and> ty \<noteq> RT_ALERT \<and> ty \<noteq> RT_HANDSHAKE
          then fail tls3_AD_UNEXPECTED_MESSAGE tls_R_BAD_RECORD_TYPE g
          else Some (Continue g)
        }
      else Some (Continue g))"

definition USE_MAX_FRAGMENT_LENGTH_EXT :: "('b, 'c) gconn \<Rightarrow> bool" where
  "USE_MAX_FRAGMENT_LENGTH_EXT g \<longleftrightarrow> g_max_fragment_len_mode g \<ge> 1 \<and> g_max_fragment_len_mode g \<le> 4"

definition GET_MAX_FRAGMENT_LENGTH :: "('b, 'c) gconn \<Rightarrow> nat" where
  "GET_MAX_FRAGMENT_LENGTH g = 512 * 2 ^ (g_max_fragment_len_mode g - 1)"

definition check_record :: "nat \<Rightarrow> ('b, 'c) gconn \<Rightarrow> ('b, 'c) gconn outcome option" where
  "check_record j g =
     and_then (inner_plaintext j g) (\<lambda>g.
       let r = g_rrec g ! j in
       if tls_IS_TLS13 (g_core g) \<and> (rtype r = RT_HANDSHAKE \<or> rtype r = RT_ALERT) \<and> rlength r = 0
       then fail tls3_AD_UNEXPECTED_MESSAGE R_BAD_LENGTH g
       else if unat (rlength r) > tls3_RT_MAX_PLAIN_LENGTH
       then fail tls_AD_RECORD_OVERFLOW tls_R_DATA_LENGTH_TOO_LONG g
       else if g_session g \<and> USE_MAX_FRAGMENT_LENGTH_EXT g \<and> unat (rlength r) > GET_MAX_FRAGMENT_LENGTH g
       then fail tls_AD_RECORD_OVERFLOW tls_R_DATA_LENGTH_TOO_LONG g
       else
         let g = on_rec j (roff_update (\<lambda>_. 0)) g in
         if rlength r = 0 then bump_empty tls_R_RECORD_TOO_SMALL g
         else Some (Continue (g\<lparr>g_empty_record_count := 0\<rparr>)))"

function check_records :: "nat \<Rightarrow> nat \<Rightarrow> ('b, 'c) gconn \<Rightarrow> ('b, 'c) gconn outcome option" where
  "check_records j n g =
     (if j < n then and_then (check_record j g) (check_records (j + 1) n) else Some (Continue g))"
  by pat_completeness auto

termination
  by (relation "measure (\<lambda>(j, n, g). n - j)") auto

declare check_records.simps [simp del]

definition finish_get :: "nat \<Rightarrow> ('b, 'c) gconn \<Rightarrow> ('b, 'c) gconn outcome option" where
  "finish_get n g =
     (let r = g_rrec g ! 0 in do {
        (okay, g) \<leftarrow> (if early_data_state (g_core g) = tls_EARLY_DATA_READING \<and> rtype r = RT_APPDATA
                     then early_data_count_ok g (unat (rlength r)) 0 False else Some (True, g));
        if \<not> okay then Some (Return (- 1) g) else Some (Return 1 (g\<lparr>g_numrpipes := n\<rparr>))
      })"

definition process_records :: "('b, 'c) get_env \<Rightarrow> nat \<Rightarrow> ('b, 'c) gconn \<Rightarrow> ('b, 'c) gconn outcome option" where
  "process_records e n g =
     (if is_ignored_ccs n g then ignore_ccs g
      else and_then (etm_phase e n g) (\<lambda>g.
           and_then (decrypt_phase e n g) (\<lambda>g.
           and_then (check_records 0 n g) (finish_get n))))"

definition tls3_get_record :: "('b, 'c) get_env \<Rightarrow> ('b, 'c) gconn \<Rightarrow> (int \<times> ('b, 'c) gconn) option" where
  "tls3_get_record e g =
     (let max_recs = (if g_max_pipelines g = 0 then 1 else g_max_pipelines g) in do {
        (n, res) \<leftarrow> collect_records e 0 max_recs g;
        out \<leftarrow> and_then (Some res) (process_records e n);
        (case out of Return r g \<Rightarrow> Some (r, g) | Continue g \<Rightarrow> None)
      })"

section \<open>Rejection does not depend on the padding\<close>

lemma and_then_simps [simp]:
  "and_then None f = None" "and_then (Some (Return r g)) f = Some (Return r g)"
  "and_then (Some (Continue g)) f = f g"
  by (simp_all add: and_then_def)

lemma and_then_Continue:
  "and_then x f = Some (Continue g') \<longleftrightarrow> (\<exists>h. x = Some (Continue h) \<and> f h = Some (Continue g'))"
  by (auto simp: and_then_def split: option.splits outcome.splits)

lemma and_then_Return:
  "and_then x f = Some (Return r g') \<longleftrightarrow>
    x = Some (Return r g') \<or> (\<exists>h. x = Some (Continue h) \<and> f h = Some (Return r g'))"
  by (auto simp: and_then_def split: option.splits outcome.splits)

lemma fail_not_Continue [simp]: "fail al rs g \<noteq> Some (Continue g')" "fail al rs g \<noteq> None"
  by (simp_all add: fail_def)

lemma bad_record_not_Continue [simp]: "bad_record rs n len g \<noteq> Some (Continue g')"
  by (auto simp: bad_record_def skip_early_record_def split: bind_splits)

text \<open>\<open>enc_err\<close> only accumulates: the state does not depend on it.\<close>

lemma mac_check_acc:
  "(\<forall>x. mac_check e ms j n x g = None) \<or>
   (\<exists>out bad. \<forall>x. mac_check e ms j n x g = Some (if bad then - 1 else x, out))"
proof (induction "n - j" arbitrary: j g)
  case 0
  then have "\<forall>x. mac_check e ms j n x g = Some (if False then - 1 else x, Continue g)"
    by (simp add: mac_check.simps)
  then show ?case by blast
next
  case (Suc d)
  then have jn: "j < n" by simp
  show ?case
  proof (cases "mac_one e ms j g")
    case None
    then show ?thesis
      using jn by (simp add: mac_check.simps)
  next
    case (Some res)
    then obtain bad out where res: "mac_one e ms j g = Some (bad, out)"
      by (cases res) auto
    show ?thesis
    proof (cases out)
      case (Return r g')
      then have "\<forall>x. mac_check e ms j n x g = Some (if False then - 1 else x, Return r g')"
        using jn res by (simp add: mac_check.simps)
      then show ?thesis by blast
    next
      case (Continue g')
      then have step: "mac_check e ms j n x g = mac_check e ms (j + 1) n (if bad then - 1 else x) g'" for x
        using jn res by (simp add: mac_check.simps [of e ms j])
      have "(\<forall>x. mac_check e ms (j + 1) n x g' = None) \<or>
          (\<exists>out b. \<forall>x. mac_check e ms (j + 1) n x g' = Some (if b then - 1 else x, out))"
        using Suc.hyps(1) [of "j + 1" g'] Suc.hyps(2) by simp
      then show ?thesis
      proof
        assume "\<exists>out b. \<forall>x. mac_check e ms (j + 1) n x g' = Some (if b then - 1 else x, out)"
        then obtain out b where "\<forall>x. mac_check e ms (j + 1) n x g' = Some (if b then - 1 else x, out)"
          by blast
        then have "\<forall>x. mac_check e ms j n x g = Some (if b \<or> bad then - 1 else x, out)"
          by (simp add: step)
        then show ?thesis by blast
      qed (simp add: step)
    qed
  qed
qed

text \<open>Without a cipher, the step does nothing.\<close>

lemma decrypt_phase_plain:
  assumes "e_enc e (take n (g_rrec g)) g = (1, take n (g_rrec g), g)" and "g_enc_read_ctx g = None"
  shows "decrypt_phase e n g = Some (Continue g)"
  using assms by (simp add: decrypt_phase_def mac_phase_def)

text \<open>
  The same decryption, except that valid padding is reported as invalid.
\<close>

definition padding_reported_bad :: "('b, 'c) get_env \<Rightarrow> ('b, 'c) get_env" where
  "padding_reported_bad e = e\<lparr>e_enc := (\<lambda>rs g. case e_enc e rs g of (v, rs', g') \<Rightarrow>
     (if v = 1 then - 1 else v, rs', g'))\<rparr>"

lemma padding_reported_bad_fields:
  "e_cbc_mode (padding_reported_bad e) = e_cbc_mode e" "e_mac (padding_reported_bad e) = e_mac e"
  "e_stack_addr (padding_reported_bad e) = e_stack_addr e" "e_stack (padding_reported_bad e) = e_stack e"
  by (simp_all add: padding_reported_bad_def)

lemma mac_one_padding: "mac_one (padding_reported_bad e) = mac_one e"
  by (intro ext) (simp only: mac_one_def extract_mac_def padding_reported_bad_fields)

lemma mac_check_padding: "mac_check (padding_reported_bad e) ms j n x g = mac_check e ms j n x g"
proof (induction e ms j n x g rule: mac_check.induct)
  case (1 e ms j n x g)
  then show ?case
    by (subst (1 2) mac_check.simps) (auto simp: mac_one_padding split: option.splits outcome.splits)
qed

lemma enc_padding:
  "e_enc e rs g = (v, rs', g') \<Longrightarrow>
    e_enc (padding_reported_bad e) rs g = (if v = 1 then - 1 else v, rs', g')"
  by (simp add: padding_reported_bad_def)

lemma mac_phase_padding: "mac_phase (padding_reported_bad e) = mac_phase e"
  by (intro ext) (simp only: mac_phase_def mac_check_padding)

lemma mac_phase_acc:
  "(\<forall>x. mac_phase e sess n x g = None) \<or>
   (\<exists>out bad. \<forall>x. mac_phase e sess n x g = Some (if bad then - 1 else x, out))"
proof (cases "sess \<and> g_enc_read_ctx g \<noteq> None \<and> \<not> tls_READ_ETM g \<and> g_read_md_size g \<noteq> None")
  case True
  let ?ms = "of_int (EVP_MD_CTX_size (g_read_md_size g)) :: u64"
  show ?thesis
  proof (cases "unat ?ms \<le> EVP_MAX_MD_SIZE")
    case le: True
    then show ?thesis
      using True mac_check_acc [of e ?ms 0 n g] by (simp add: mac_phase_def)
  next
    case False
    then have "\<forall>x. mac_phase e sess n x g =
        Some (if False then - 1 else x, Return (- 1) (g_fatal tls_AD_INTERNAL_ERROR ERR_R_INTERNAL_ERROR g))"
      using True by (simp add: mac_phase_def fail_def)
    then show ?thesis by blast
  qed
next
  case False
  then have "\<forall>x. mac_phase e sess n x g = Some (if False then - 1 else x, Continue g)"
    by (simp only: mac_phase_def if_False simp_thms)
  then show ?thesis by blast
qed

text \<open>
  C10: no padding oracle. Whenever the decryption step of \<open>tls3_get_record\<close> rejects a batch of records
  whose padding was found valid, it would have rejected it with the very same alert, error and state
  had the padding been found invalid: what an attacker sees of a rejected record does not depend on
  whether its padding or only its MAC was wrong.
\<close>

theorem rejection_hides_padding:
  assumes "decrypt_phase e n g = Some (Return r g')"
  shows "decrypt_phase (padding_reported_bad e) n g = decrypt_phase e n g"
proof -
  obtain v rs h where enc: "e_enc e (take n (g_rrec g)) g = (v, rs, h)"
    by (cases "e_enc e (take n (g_rrec g)) g")
  note enc' = enc_padding [OF enc]
  let ?k = "h\<lparr>g_rrec := rs @ drop n (g_rrec h)\<rparr>"
  show ?thesis
  proof (cases "v = 1")
    case False
    then show ?thesis
      using enc enc' by (simp add: decrypt_phase_def mac_phase_padding Let_def)
  next
    case True
    show ?thesis
      using mac_phase_acc [of e "g_session g" n ?k]
    proof
      assume "\<forall>x. mac_phase e (g_session g) n x ?k = None"
      then show ?thesis
        using enc enc' True by (simp add: decrypt_phase_def mac_phase_padding)
    next
      assume "\<exists>out bad. \<forall>x. mac_phase e (g_session g) n x ?k = Some (if bad then - 1 else x, out)"
      then obtain out bad where "\<And>x. mac_phase e (g_session g) n x ?k = Some (if bad then - 1 else x, out)"
        by blast
      then show ?thesis
        using assms enc enc' True
        by (cases out; cases bad) (auto simp: decrypt_phase_def mac_phase_padding)
    qed
  qed
qed

section \<open>What a delivered record is\<close>

text \<open>
  What the caller may assume of a record that is handed to it: unless it is marked as read already,
  it starts at offset 0, its length is within the limit of the protocol and the negotiated one, and
  TLS 1.3 has no empty handshake messages and alerts, and behind encryption no other types.
\<close>

definition delivered_ok :: "('b, 'c) gconn \<Rightarrow> tls3_RECORD \<Rightarrow> bool" where
  "delivered_ok g r \<longleftrightarrow> rread r \<or>
     unat (rlength r) \<le> tls3_RT_MAX_PLAIN_LENGTH \<and> roff r = 0 \<and>
     (g_session g \<and> USE_MAX_FRAGMENT_LENGTH_EXT g \<longrightarrow> unat (rlength r) \<le> GET_MAX_FRAGMENT_LENGTH g) \<and>
     (tls_IS_TLS13 (g_core g) \<longrightarrow>
        (rtype r \<in> {RT_HANDSHAKE, RT_ALERT} \<longrightarrow> rlength r \<noteq> 0) \<and>
        (g_enc_read_ctx g \<noteq> None \<longrightarrow> rtype r \<in> {RT_APPDATA, RT_ALERT, RT_HANDSHAKE}))"

definition rrecs_ok :: "('b, 'c) gconn \<Rightarrow> bool" where
  "rrecs_ok g \<longleftrightarrow> g_rrec g \<noteq> [] \<and> g_max_pipelines g \<le> length (g_rrec g) \<and>
     g_empty_record_count g \<le> MAX_EMPTY_RECORDS"

text \<open>Decryption rewrites the records it is given and MAC computation none.\<close>

definition crypto_ok :: "('b, 'c) get_env \<Rightarrow> bool" where
  "crypto_ok e \<longleftrightarrow>
     (\<forall>rs g v rs' g'. e_enc e rs g = (v, rs', g') \<longrightarrow> length rs' = length rs \<and> g_rrec g' = g_rrec g \<and>
        g_empty_record_count g' = g_empty_record_count g \<and> g_max_pipelines g' = g_max_pipelines g) \<and>
     (\<forall>r g i md g'. e_mac e r g = (i, md, g') \<longrightarrow> g_rrec g' = g_rrec g \<and>
        g_empty_record_count g' = g_empty_record_count g \<and> g_max_pipelines g' = g_max_pipelines g)"

definition same_shape :: "('b, 'c) gconn \<Rightarrow> ('b, 'c) gconn \<Rightarrow> bool" where
  "same_shape g g' \<longleftrightarrow> length (g_rrec g') = length (g_rrec g) \<and>
     g_empty_record_count g' = g_empty_record_count g \<and> g_max_pipelines g' = g_max_pipelines g"

lemma same_shape_refl [simp]: "same_shape g g"
  by (simp add: same_shape_def)

lemma same_shape_trans: "same_shape g h \<Longrightarrow> same_shape h k \<Longrightarrow> same_shape g k"
  by (simp add: same_shape_def)

lemma rrecs_ok_shape: "same_shape g g' \<Longrightarrow> rrecs_ok g' \<longleftrightarrow> rrecs_ok g"
  by (simp add: same_shape_def rrecs_ok_def flip: length_greater_0_conv)

lemma on_rec_fields [simp]:
  "g_rrec (on_rec j f g) = (g_rrec g)[j := f (g_rrec g ! j)]" "g_core (on_rec j f g) = g_core g"
  "g_rl (on_rec j f g) = g_rl g" "g_session (on_rec j f g) = g_session g"
  "g_enc_read_ctx (on_rec j f g) = g_enc_read_ctx g" "g_max_pipelines (on_rec j f g) = g_max_pipelines g"
  "g_empty_record_count (on_rec j f g) = g_empty_record_count g"
  "g_max_fragment_len_mode (on_rec j f g) = g_max_fragment_len_mode g"
  "g_numrpipes (on_rec j f g) = g_numrpipes g" "g_is_first_record (on_rec j f g) = g_is_first_record g"
  "g_read_md_size (on_rec j f g) = g_read_md_size g" "g_read_hash (on_rec j f g) = g_read_hash g"
  by (simp_all add: on_rec_def)

lemma fragment_length_cong:
  "g_max_fragment_len_mode g' = g_max_fragment_len_mode g \<Longrightarrow>
    USE_MAX_FRAGMENT_LENGTH_EXT g' = USE_MAX_FRAGMENT_LENGTH_EXT g \<and>
    GET_MAX_FRAGMENT_LENGTH g' = GET_MAX_FRAGMENT_LENGTH g"
  by (simp add: USE_MAX_FRAGMENT_LENGTH_EXT_def GET_MAX_FRAGMENT_LENGTH_def)

lemma delivered_ok_cong:
  assumes "g_session g' = g_session g" "g_core g' = g_core g" "g_enc_read_ctx g' = g_enc_read_ctx g"
    "g_max_fragment_len_mode g' = g_max_fragment_len_mode g"
  shows "delivered_ok g' = delivered_ok g"
  using assms fragment_length_cong [OF assms(4)] by (simp add: delivered_ok_def fun_eq_iff)

text \<open>Framing.\<close>

lemma same_shape_on_rec [simp]: "same_shape g (on_rec j f g)"
  by (simp add: same_shape_def)

lemma header_v2_shape: "header_v2 j l g = Some (Continue g') \<Longrightarrow> same_shape g g'"
  by (auto simp: header_v2_def Let_def split: if_splits)

lemma wrong_version_stops: "wrong_version j v g \<noteq> Some (Continue g')"
  by (simp add: wrong_version_def Let_def)

lemma not_tls_stops: "not_tls p g \<noteq> Some (Continue g')"
  by (simp add: not_tls_def)

lemma header_v3_shape: "header_v3 j p t v l g = Some (Continue g') \<Longrightarrow> same_shape g g'"
  by (auto simp: header_v3_def Let_def wrong_version_stops not_tls_stops split: if_splits)

lemma parse_header_shape: "parse_header j g = Some (Continue g') \<Longrightarrow> same_shape g g'"
  by (auto simp: parse_header_def Let_def header_v2_shape header_v3_shape
      split: option.splits if_splits bind_splits)

lemma g_read_n_shape: "g_read_n e n mx ext co g = Some (ret, g') \<Longrightarrow> same_shape g g'"
  by (auto simp: g_read_n_def on_gcore_def same_shape_def split: bind_splits)

lemma get_header_shape: "get_header e j g = Some (Continue g') \<Longrightarrow> same_shape g g'"
  by (auto simp: get_header_def same_shape_def split: if_splits bind_splits
      dest!: g_read_n_shape parse_header_shape)

lemma get_body_shape: "get_body e j g = Some (Continue g') \<Longrightarrow> same_shape g g'"
  by (auto simp: get_body_def Let_def same_shape_def split: if_splits bind_splits
      dest!: g_read_n_shape)

lemma collect_records_shape:
  "collect_records e j mx g = Some (n, Continue g') \<Longrightarrow> j < mx \<Longrightarrow> same_shape g g' \<and> j < n \<and> n \<le> mx"
proof (induction "mx - j" arbitrary: j g)
  case (Suc d)
  obtain h where h: "and_then (get_header e j g) (get_body e j) = Some (Continue h)"
    using Suc(3) by (subst (asm) collect_records.simps) (auto split: option.splits outcome.splits)
  then have gh: "same_shape g h"
    by (auto simp: and_then_def split: option.splits outcome.splits
        dest!: get_header_shape get_body_shape elim: same_shape_trans)
  obtain b where b: "more_pipelines e j mx h = Some b"
    using Suc(3) h by (subst (asm) collect_records.simps) (auto split: option.splits)
  show ?case
  proof (cases b)
    case True
    then have "collect_records e (j + 1) mx h = Some (n, Continue g')" "j + 1 < mx"
      using Suc(3) h b by (subst (asm) collect_records.simps; simp split: if_splits)+
    moreover have "d = mx - (j + 1)"
      using Suc(2) by simp
    ultimately show ?thesis
      using Suc(1) [of "j + 1" h] same_shape_trans [OF gh, of g'] by simp
  next
    case False
    then show ?thesis
      using Suc(3,4) h b gh by (subst (asm) collect_records.simps) simp
  qed
qed simp

text \<open>Removal of protection.\<close>

lemma etm_check_shape:
  "crypto_ok e \<Longrightarrow> etm_check e ms j n g = Some (Continue g') \<Longrightarrow> same_shape g g'"
proof (induction "n - j" arbitrary: j g)
  case (Suc d)
  let ?g = "on_rec j (\<lambda>r. r\<lparr>rlength := rlength r - ms\<rparr>) g"
  obtain i md h where h: "e_mac e (g_rrec ?g ! j) ?g = (i, md, h)"
    by (cases "e_mac e (g_rrec ?g ! j) ?g")
  then have "same_shape ?g h"
    using Suc(3) by (simp add: crypto_ok_def same_shape_def)
  moreover have "etm_check e ms (j + 1) n h = Some (Continue g')"
    using Suc(2,4) h by (subst (asm) etm_check.simps) (auto simp: Let_def split: if_splits option.splits)
  then have "same_shape h g'"
    using Suc(1) [of "j + 1" h] Suc(2,3) by simp
  ultimately show ?case
    using same_shape_on_rec same_shape_trans by blast
qed (simp add: etm_check.simps)

lemma mac_one_shape:
  "crypto_ok e \<Longrightarrow> mac_one e ms j g = Some (bad, Continue g') \<Longrightarrow> same_shape g g'"
  by (auto simp: mac_one_def fail_def Let_def crypto_ok_def same_shape_def
      split: if_splits bind_splits prod.splits)

lemma mac_check_shape:
  "crypto_ok e \<Longrightarrow> mac_check e ms j n x g = Some (v, Continue g') \<Longrightarrow> same_shape g g'"
proof (induction "n - j" arbitrary: j g x)
  case (Suc d)
  obtain bad h where h: "mac_one e ms j g = Some (bad, Continue h)"
    "mac_check e ms (j + 1) n (if bad then - 1 else x) h = Some (v, Continue g')"
    using Suc(2,4) by (subst (asm) (2) mac_check.simps) (auto split: option.splits outcome.splits if_splits)
  then show ?case
    using Suc(1) [of "j + 1" _ h] Suc(2,3) mac_one_shape same_shape_trans by (metis Suc_eq_plus1 diff_Suc_1 diff_diff_left)
qed (simp add: mac_check.simps)


lemma enc_shape:
  assumes "crypto_ok e" and "e_enc e (take n (g_rrec g)) g = (v, recs, h)"
  shows "same_shape g (h\<lparr>g_rrec := recs @ drop n (g_rrec h)\<rparr>)"
  using assms unfolding crypto_ok_def same_shape_def by fastforce

lemma decrypt_phase_shape:
  assumes c: "crypto_ok e" and d: "decrypt_phase e n g = Some (Continue g')"
  shows "same_shape g g'"
proof -
  obtain v recs h where enc: "e_enc e (take n (g_rrec g)) g = (v, recs, h)"
    by (cases "e_enc e (take n (g_rrec g)) g")
  show ?thesis
    using d enc_shape [OF c enc]
    by (auto simp: decrypt_phase_def mac_phase_def enc Let_def fail_def and_then_Continue split: if_splits bind_splits
        intro: same_shape_trans [OF enc_shape [OF c enc] mac_check_shape [OF c]])
qed


text \<open>The checks on the plaintext.\<close>

lemma inner_plaintext_spec:
  assumes "inner_plaintext j g = Some (Continue g')" and "j < length (g_rrec g)"
  shows "same_shape g g' \<and> g_core g' = g_core g \<and> g_session g' = g_session g \<and>
    g_enc_read_ctx g' = g_enc_read_ctx g \<and> g_max_fragment_len_mode g' = g_max_fragment_len_mode g \<and>
    (\<forall>i. i \<noteq> j \<longrightarrow> g_rrec g' ! i = g_rrec g ! i) \<and>
    (tls_IS_TLS13 (g_core g) \<and> g_enc_read_ctx g \<noteq> None \<longrightarrow>
       rtype (g_rrec g' ! j) \<in> {RT_APPDATA, RT_ALERT, RT_HANDSHAKE})"
  using assms by (auto simp: inner_plaintext_def Let_def split: if_splits bind_splits)

lemma check_record_spec:
  assumes "check_record j g = Some (Continue g')" and "j < length (g_rrec g)"
  shows "length (g_rrec g') = length (g_rrec g) \<and> g_max_pipelines g' = g_max_pipelines g \<and>
    g_empty_record_count g' \<le> MAX_EMPTY_RECORDS \<and> delivered_ok g' (g_rrec g' ! j) \<and>
    (\<forall>i. i \<noteq> j \<longrightarrow> g_rrec g' ! i = g_rrec g ! i) \<and> delivered_ok g' = delivered_ok g"
proof -
  obtain h where h: "inner_plaintext j g = Some (Continue h)"
    using assms(1) by (auto simp: check_record_def and_then_Continue)
  let ?r = "g_rrec h ! j"
  note hs = inner_plaintext_spec [OF h assms(2)]
  have lim: "\<not> (tls_IS_TLS13 (g_core h) \<and> (rtype ?r = RT_HANDSHAKE \<or> rtype ?r = RT_ALERT) \<and> rlength ?r = 0)"
    "unat (rlength ?r) \<le> tls3_RT_MAX_PLAIN_LENGTH"
    "g_session h \<and> USE_MAX_FRAGMENT_LENGTH_EXT h \<longrightarrow> unat (rlength ?r) \<le> GET_MAX_FRAGMENT_LENGTH h"
    using assms(1) by (auto simp: check_record_def h Let_def split: if_splits)
  have g': "g' = (on_rec j (roff_update (\<lambda>_. 0)) h)\<lparr>g_empty_record_count := g_empty_record_count g'\<rparr>"
    "g_empty_record_count g' \<le> MAX_EMPTY_RECORDS"
    using assms(1) by (auto simp: check_record_def h Let_def bump_empty_def on_rec_def split: if_splits)
  have rec: "g_rrec g' = (g_rrec h)[j := ?r\<lparr>roff := 0\<rparr>]" and fields: "g_core g' = g_core h"
    "g_session g' = g_session h" "g_enc_read_ctx g' = g_enc_read_ctx h" "g_max_pipelines g' = g_max_pipelines h"
    "g_max_fragment_len_mode g' = g_max_fragment_len_mode h"
    by (subst g'(1), simp)+
  have "delivered_ok h (?r\<lparr>roff := 0\<rparr>)"
    using lim hs by (auto simp: delivered_ok_def)
  moreover have "delivered_ok h = delivered_ok g" "delivered_ok g' = delivered_ok g"
    using fields hs by (intro delivered_ok_cong; simp)+
  ultimately show ?thesis
    using rec fields hs g'(2) assms(2) by (simp add: same_shape_def)
qed

lemma check_records_spec:
  "check_records j n g = Some (Continue g') \<Longrightarrow> n \<le> length (g_rrec g) \<Longrightarrow> rrecs_ok g \<Longrightarrow>
    rrecs_ok g' \<and> g_max_pipelines g' = g_max_pipelines g \<and> length (g_rrec g') = length (g_rrec g) \<and>
    (\<forall>i < j. g_rrec g' ! i = g_rrec g ! i) \<and>
    delivered_ok g' = delivered_ok g \<and> (\<forall>i. j \<le> i \<and> i < n \<longrightarrow> delivered_ok g' (g_rrec g' ! i))"
proof (induction "n - j" arbitrary: j g)
  case (Suc d)
  then obtain h where h: "check_record j g = Some (Continue h)" "check_records (j + 1) n h = Some (Continue g')"
    by (subst (asm) (3) check_records.simps) (auto simp: and_then_Continue split: if_splits)
  have "j < length (g_rrec g)" using Suc(2,4) by simp
  note hs = check_record_spec [OF h(1) this]
  have "rrecs_ok h"
    using hs Suc(5) by (simp add: rrecs_ok_def flip: length_greater_0_conv)
  then have IH: "rrecs_ok g' \<and> g_max_pipelines g' = g_max_pipelines h \<and> length (g_rrec g') = length (g_rrec h) \<and>
    (\<forall>i < j + 1. g_rrec g' ! i = g_rrec h ! i) \<and> delivered_ok g' = delivered_ok h \<and>
    (\<forall>i. j + 1 \<le> i \<and> i < n \<longrightarrow> delivered_ok g' (g_rrec g' ! i))"
    using Suc(1) [of "j + 1" h] Suc(2,4) h(2) hs by (metis Suc_eq_plus1 diff_Suc_1 diff_diff_left)
  have "delivered_ok g' (g_rrec g' ! i)" if "j \<le> i" "i < n" for i
    using IH hs that by (cases "i = j") auto
  then show ?case
    using IH hs by auto
qed (auto simp: check_records.simps rrecs_ok_def)


lemma finish_get_spec:
  assumes "finish_get n g = Some (Return 1 g')"
  shows "g_numrpipes g' = n \<and> g_rrec g' = g_rrec g \<and> g_max_pipelines g' = g_max_pipelines g \<and>
    g_empty_record_count g' = g_empty_record_count g \<and> delivered_ok g' = delivered_ok g"
proof -
  have "\<exists>c. g' = g\<lparr>g_early_data_count := c, g_numrpipes := n\<rparr>"
    using assms
    by (auto simp: finish_get_def early_data_count_ok_def Let_def split: if_splits bind_splits)
       (rule exI [of _ "g_early_data_count g"], simp)+
  then show ?thesis
    by (auto intro!: delivered_ok_cong)
qed

lemma ignore_ccs_spec:
  assumes "ignore_ccs g = Some (Return 1 g')" and "rrecs_ok g"
  shows "g_numrpipes g' = 1 \<and> rrecs_ok g' \<and> g_max_pipelines g' = g_max_pipelines g \<and> rread (g_rrec g' ! 0)"
  using assms
  by (auto simp: ignore_ccs_def Let_def and_then_Return bump_empty_def fail_def rrecs_ok_def split: if_splits bind_splits)

lemma skip_early_record_spec:
  assumes "skip_early_record len g = Some (Return 1 g')" and "rrecs_ok g"
  shows "g_numrpipes g' = 1 \<and> rrecs_ok g' \<and> g_max_pipelines g' = g_max_pipelines g \<and> rread (g_rrec g' ! 0)"
  using assms
  by (auto simp: skip_early_record_def early_data_count_ok_def Let_def rrecs_ok_def split: if_splits bind_splits)

lemma bad_record_spec:
  assumes "bad_record rs n len g = Some (Return 1 g')" and "rrecs_ok g"
  shows "g_numrpipes g' = 1 \<and> rrecs_ok g' \<and> g_max_pipelines g' = g_max_pipelines g \<and> rread (g_rrec g' ! 0)"
  using assms by (auto simp: bad_record_def fail_def skip_early_record_spec split: if_splits)


text \<open>Every other way out is a failure.\<close>

lemma fail_Return [simp]: "fail al rs g = Some (Return r g') \<longleftrightarrow> r = - 1 \<and> g' = g_fatal al rs g"
  by (auto simp: fail_def)

lemma parse_header_fails: "parse_header j g = Some (Return r g') \<Longrightarrow> r = - 1"
  by (auto simp: parse_header_def Let_def header_v2_def header_v3_def wrong_version_def not_tls_def
      split: option.splits if_splits bind_splits)

lemma get_header_fails: "get_header e j g = Some (Return r g') \<Longrightarrow> r \<le> 0"
  by (auto simp: get_header_def split: if_splits bind_splits dest!: parse_header_fails)

lemma get_body_fails: "get_body e j g = Some (Return r g') \<Longrightarrow> r \<le> 0"
  by (auto simp: get_body_def Let_def split: if_splits bind_splits)

lemma collect_records_fails: "collect_records e j mx g = Some (n, Return r g') \<Longrightarrow> r \<le> 0"
proof (induction "mx - j" arbitrary: j g rule: less_induct)
  case less
  have "collect_records e (j + 1) mx h = Some (n, Return r g') \<Longrightarrow> j + 1 < mx \<Longrightarrow> r \<le> 0" for h
    using less.hyps [of "j + 1" h] by simp
  then show ?case
    using less.prems unfolding collect_records.simps [of e j mx g]
    by (auto simp: and_then_Return split: option.splits outcome.splits if_splits bool.splits
        dest: get_header_fails get_body_fails)
qed

lemma etm_check_fails: "etm_check e ms j n g = Some (Return r g') \<Longrightarrow> r = - 1"
proof (induction "n - j" arbitrary: j g)
  case (Suc d)
  have "d = n - (j + 1)" "j < n" using Suc(2) by simp_all
  then show ?case
    using Suc.prems Suc.hyps(1) [of "j + 1"] unfolding etm_check.simps [of e ms j n g]
    by (auto simp: Let_def split: option.splits prod.splits if_splits)
qed (simp add: etm_check.simps)

lemma mac_check_fails: "mac_check e ms j n x g = Some (v, Return r g') \<Longrightarrow> r = - 1"
proof (induction "n - j" arbitrary: j g x)
  case (Suc d)
  have "mac_one e ms j g = Some (bad, Return r h) \<Longrightarrow> r = - 1" for bad r h
    by (auto simp: mac_one_def Let_def fail_def split: if_splits bind_splits prod.splits)
  moreover have "d = n - (j + 1)" "j < n" using Suc(2) by simp_all
  ultimately show ?case
    using Suc.prems Suc.hyps(1) [of "j + 1"] unfolding mac_check.simps [of e ms j n x g] by (auto split: option.splits outcome.splits if_splits)
qed (simp add: mac_check.simps)

lemma check_records_fails: "check_records j n g = Some (Return r g') \<Longrightarrow> r = - 1"
proof (induction "n - j" arbitrary: j g)
  case (Suc d)
  have "check_record j g = Some (Return r h) \<Longrightarrow> r = - 1" for r h
    by (auto simp: check_record_def inner_plaintext_def bump_empty_def and_then_Return Let_def
        split: if_splits bind_splits)
  moreover have "d = n - (j + 1)" "j < n" using Suc(2) by simp_all
  ultimately show ?case
    using Suc.prems Suc.hyps(1) [of "j + 1"] unfolding check_records.simps [of j n g] by (auto simp: and_then_Return split: if_splits)
qed (simp add: check_records.simps)

lemma decrypt_phase_Return:
  assumes c: "crypto_ok e" and ok: "rrecs_ok g" and d: "decrypt_phase e n g = Some (Return 1 g')"
  shows "g_numrpipes g' = 1 \<and> rrecs_ok g' \<and> g_max_pipelines g' = g_max_pipelines g \<and> rread (g_rrec g' ! 0)"
proof -
  obtain v recs h where enc: "e_enc e (take n (g_rrec g)) g = (v, recs, h)"
    by (cases "e_enc e (take n (g_rrec g)) g")
  let ?h = "h\<lparr>g_rrec := recs @ drop n (g_rrec h)\<rparr>"
  have "\<exists>rs len k. bad_record rs n len k = Some (Return 1 g') \<and> same_shape ?h k"
    using d mac_check_shape [OF c, of _ 0 n _ ?h]
    by (auto simp: decrypt_phase_def mac_phase_def enc Let_def and_then_Return split: if_splits bind_splits
        dest!: mac_check_fails intro: same_shape_refl) blast
  then obtain rs len k where k: "bad_record rs n len k = Some (Return 1 g')" "same_shape ?h k"
    by blast
  then have "same_shape g k"
    using enc_shape [OF c enc] same_shape_trans by blast
  then show ?thesis
    using bad_record_spec [OF k(1)] rrecs_ok_shape ok by (metis same_shape_def)
qed


lemma process_records_delivers:
  assumes c: "crypto_ok e" and hok: "rrecs_ok h" and n: "0 < n" "n \<le> max 1 (g_max_pipelines h)"
    and p: "process_records e n h = Some (Return 1 g')"
  shows "rrecs_ok g' \<and> 0 < g_numrpipes g' \<and> g_numrpipes g' \<le> max 1 (g_max_pipelines g') \<and>
    (\<forall>j < g_numrpipes g'. delivered_ok g' (g_rrec g' ! j))"
proof -
  have single: ?thesis if "g_numrpipes g' = 1 \<and> rrecs_ok g' \<and> g_max_pipelines g' = q \<and> rread (g_rrec g' ! 0)" for q
    using that by (simp add: delivered_ok_def)
  consider (ccs) "ignore_ccs h = Some (Return 1 g')"
    | (go) k where "etm_phase e n h = Some (Continue k)"
        "and_then (decrypt_phase e n k) (\<lambda>g. and_then (check_records 0 n g) (finish_get n)) = Some (Return 1 g')"
    using p etm_check_fails
    by (auto simp: process_records_def etm_phase_def and_then_Return Let_def split: if_splits) fastforce+
  then show ?thesis
  proof cases
    case ccs
    then show ?thesis
      using ignore_ccs_spec [OF _ hok] by (intro single) simp
  next
    case go
    have hk: "same_shape h k"
      using go(1) etm_check_shape [OF c] by (auto simp: etm_phase_def Let_def split: if_splits)
    have kok: "rrecs_ok k" using hok rrecs_ok_shape [OF hk] by simp
    from go(2) consider "decrypt_phase e n k = Some (Return 1 g')"
      | l m where "decrypt_phase e n k = Some (Continue l)" "check_records 0 n l = Some (Continue m)"
          "finish_get n m = Some (Return 1 g')"
      using check_records_fails by (fastforce simp: and_then_Return)
    then show ?thesis
    proof cases
      case 1
      then show ?thesis by (intro single) (rule decrypt_phase_Return [OF c kok])
    next
      case 2
      have hl: "same_shape h l"
        using decrypt_phase_shape [OF c 2(1)] hk same_shape_trans by blast
      then have lok: "rrecs_ok l" using hok rrecs_ok_shape by blast
      have "n \<le> length (g_rrec l)"
        using n(2) hl hok Suc_leI [of 0 "length (g_rrec h)"] by (auto simp: same_shape_def rrecs_ok_def)
      note m = check_records_spec [OF 2(2) this lok]
      note f = finish_get_spec [OF 2(3)]
      have "g_max_pipelines g' = g_max_pipelines h"
        using f m hl by (simp add: same_shape_def)
      then show ?thesis
        using f m n by (auto simp: rrecs_ok_def)
    qed
  qed
qed

text \<open>
  C12: what \<open>tls3_get_record\<close> delivers. When it returns 1 it has delivered at least one and at most
  \<open>max_pipelines\<close> records, the number of empty records in a row is within \<open>MAX_EMPTY_RECORDS\<close>, and each
  delivered record is well-formed: unless it is marked as already read, it is within the
  plaintext limit of the protocol and the negotiated fragment length; in TLS 1.3 it is no empty
  handshake or alert record, and once reading is encrypted it is application data, an alert or a
  handshake record. Decryption and MAC may do anything to the bytes and lengths of the records.
\<close>

theorem tls3_get_record_delivers:
  assumes "crypto_ok e" and "rrecs_ok g" and "tls3_get_record e g = Some (1, g')"
  shows "rrecs_ok g' \<and> 0 < g_numrpipes g' \<and> g_numrpipes g' \<le> max 1 (g_max_pipelines g') \<and>
    (\<forall>j < g_numrpipes g'. delivered_ok g' (g_rrec g' ! j))"
proof -
  let ?mx = "if g_max_pipelines g = 0 then 1 else g_max_pipelines g"
  obtain n res where n: "collect_records e 0 ?mx g = Some (n, res)"
    and p: "and_then (Some res) (process_records e n) = Some (Return 1 g')"
    using assms(3) by (auto simp: tls3_get_record_def Let_def split: bind_splits outcome.splits)
  then obtain h where h: "collect_records e 0 ?mx g = Some (n, Continue h)" "process_records e n h = Some (Return 1 g')"
    using collect_records_fails [of e 0 ?mx g n 1 g'] by (auto simp: and_then_Return)
  then have gh: "same_shape g h" "0 < n" "n \<le> ?mx"
    using collect_records_shape [OF h(1)] by (auto split: if_splits)
  then have "rrecs_ok h" "n \<le> max 1 (g_max_pipelines h)"
    using assms(2) rrecs_ok_shape [OF gh(1)] by (auto simp: same_shape_def split: if_splits)
  then show ?thesis
    using process_records_delivers [OF assms(1) _ gh(2) _ h(2)] by blast
qed

definition sample_get_env :: "(mem_bio, nat) get_env" where
  "sample_get_env = \<lparr>e_malloc = (\<lambda>n. None), e_bio_read = BIO_read, e_pipeline = (\<lambda>c. False),
     e_cbc_mode = (\<lambda>c. False), e_enc = (\<lambda>rs g. (1, rs, g)), e_mac = (\<lambda>r g. (1, [7, 7], g)),
     e_stack_addr = 0, e_stack = []\<rparr>"

definition sample_record :: tls3_RECORD where
  "sample_record = \<lparr>rec_version = 0x0303, rtype = 23, rlength = 0, orig_len = 0, roff = 0, rdata = 0, rinput = 0,
     rcomp = None, rread = False, repoch = 0, rseq_num = replicate 8 0\<rparr>"

text \<open>A connection that has read the header of an empty record.\<close>

definition sample_conn :: "(mem_bio, nat) gconn" where
  "sample_conn = \<lparr>g_rl = sample_rlayer2\<lparr>rl_packet_length := 5\<rparr>,
     g_core = sample_tls 0x0303 False TLS_ST_CR_SRVR_HELLO, g_rrec = [sample_record, sample_record],
     g_read_body = True, g_numrpipes = 0, g_empty_record_count = 0, g_is_first_record = False,
     g_read_sequence = replicate 8 0, g_enc_read_ctx = None, g_enc_write_ctx = None, g_write_hash = False,
     g_read_hash = False, g_read_md_size = None, g_use_explicit_iv = False, g_session = False,
     g_max_fragment_len_mode = 0, g_max_pipelines = 0, g_sess_max_early_data = 0,
     g_psk_max_early_data = None, g_recv_max_early_data = 0, g_early_data_count = 0\<rparr>"

lemma sample_get_record: "\<exists>g'. tls3_get_record sample_get_env sample_conn = Some (1, g') \<and> g_numrpipes g' = 1"
proof -
  have "get_header sample_get_env 0 sample_conn = Some (Continue sample_conn)"
    by (simp add: get_header_def sample_conn_def tls3_RT_HEADER_LENGTH_def)
  moreover have "\<exists>h. get_body sample_get_env 0 sample_conn = Some (Continue h) \<and> g_enc_read_ctx h = None \<and>
      rtype (g_rrec h ! 0) = 23 \<and> rlength (g_rrec h ! 0) = 0 \<and> \<not> g_read_hash h \<and> g_empty_record_count h = 0 \<and>
      \<not> g_session h \<and> \<not> tls_IS_TLS13 (g_core h) \<and> length (g_rrec h) = 2 \<and> \<not> tls_READ_ETM h \<and>
      early_data_state (g_core h) = tls_EARLY_DATA_NONE"
    by (simp add: get_body_def Let_def sample_conn_def sample_record_def on_rec_def tls_READ_ETM_def sample_defs)
  then obtain h where h: "get_body sample_get_env 0 sample_conn = Some (Continue h)" "g_enc_read_ctx h = None"
    "rtype (g_rrec h ! 0) = 23" "rlength (g_rrec h ! 0) = 0" "\<not> g_read_hash h" "g_empty_record_count h = 0"
    "\<not> g_session h" "\<not> tls_IS_TLS13 (g_core h)" "length (g_rrec h) = 2" "\<not> tls_READ_ETM h"
    "early_data_state (g_core h) = tls_EARLY_DATA_NONE"
    by blast
  ultimately have "collect_records sample_get_env 0 1 sample_conn = Some (1, Continue h)"
    by (simp add: collect_records.simps more_pipelines_def)
  moreover have "g_max_pipelines sample_conn = 0" by (simp add: sample_conn_def)
  moreover have "decrypt_phase sample_get_env 1 h = Some (Continue h)"
    using h by (intro decrypt_phase_plain) (simp_all add: sample_get_env_def)
  ultimately show ?thesis
    using h by (simp add: tls3_get_record_def process_records_def is_ignored_ccs_def etm_phase_def
      check_records.simps check_record_def inner_plaintext_def bump_empty_def MAX_EMPTY_RECORDS_def finish_get_def)
qed

theorem tls3_get_record_delivers_witness:
  "\<exists>g'. tls3_get_record sample_get_env sample_conn = Some (1, g') \<and> rrecs_ok g' \<and>
    g_numrpipes g' = 1 \<and> delivered_ok g' (g_rrec g' ! 0)"
proof -
  obtain g' where g': "tls3_get_record sample_get_env sample_conn = Some (1, g')" "g_numrpipes g' = 1"
    using sample_get_record by blast
  have "crypto_ok sample_get_env" "rrecs_ok sample_conn"
    by (simp_all add: crypto_ok_def sample_get_env_def rrecs_ok_def sample_conn_def MAX_EMPTY_RECORDS_def)
  from tls3_get_record_delivers [OF this g'(1)] g' show ?thesis by simp
qed

text \<open>The same connection with a MAC of two bytes, and a record whose MAC is wrong.\<close>

definition sample_mac_conn :: "(mem_bio, nat) gconn" where
  "sample_mac_conn = sample_conn\<lparr>g_enc_read_ctx := Some 0, g_read_md_size := Some 2, g_session := True,
     g_rrec := [sample_record\<lparr>rlength := 4, orig_len := 4\<rparr>]\<rparr>"

theorem rejection_hides_padding_witness:
  "\<exists>g'. decrypt_phase sample_get_env 1 sample_mac_conn = Some (Return (- 1) g') \<and>
    decrypt_phase (padding_reported_bad sample_get_env) 1 sample_mac_conn = Some (Return (- 1) g')"
proof -
  have "[7, 7] \<noteq> replicate 2 (0 :: byte)"
    by (subst numeral_2_eq_2) simp
  then have "\<exists>g'. decrypt_phase sample_get_env 1 sample_mac_conn = Some (Return (- 1) g')"
    by (simp add: decrypt_phase_def mac_phase_def sample_get_env_def sample_mac_conn_def sample_conn_def tls_READ_ETM_def
        EVP_MD_CTX_size_def EVP_MAX_MD_SIZE_def mac_check.simps mac_one_def extract_mac_def sample_record_def
        mem_read_def seg_def on_rec_def bad_record_def otls_statem_in_error_def otls_statem_skip_early_data_def
        sample_rlayer2_def rbytes_def sample_defs)
  then obtain g' where "decrypt_phase sample_get_env 1 sample_mac_conn = Some (Return (- 1) g')" ..
  with rejection_hides_padding [OF this] show ?thesis by simp
qed


section \<open>The content type of TLS 1.3\<close>

lemma strip_padding_spec:
  assumes "\<And>i. i < k \<Longrightarrow> byte_at m (off + (n + Suc i)) = Some 0" and "byte_at m (off + n) = Some b" and "b \<noteq> 0"
  shows "strip_padding m off (n + k) = Some n"
  using assms
proof (induction k)
  case 0
  then show ?case by (cases n) simp_all
qed simp

lemma byte_at_seg:
  assumes "off + n \<le> length m" and "i < n"
  shows "byte_at m (off + i) = Some (seg m off n ! i)"
  using assms by (simp add: byte_at_def seg_def)

text \<open>
  C39: the record format of TLS 1.3 is undone. A decrypted record of the outer type application data
  whose plaintext is the content, followed by the byte of the real type (application data, alert or
  handshake) and any number of zero bytes of padding is turned into a record of the real type that
  holds exactly the content.
\<close>

theorem inner_plaintext_correct:
  assumes "tls_IS_TLS13 (g_core g)" and "g_enc_read_ctx g \<noteq> None" and "j < length (g_rrec g)"
  defines "r \<equiv> g_rrec g ! j"
  assumes "rtype r = RT_APPDATA" and "rdata r + unat (rlength r) \<le> length (rbytes (g_rl g))"
    and "seg (rbytes (g_rl g)) (rdata r) (unat (rlength r)) = content @ [ty] @ replicate k 0"
    and "ty \<in> {21, 22, 23}"
  shows "inner_plaintext j g =
    Some (Continue (on_rec j (\<lambda>r. r\<lparr>rlength := of_nat (length content), rtype := int (unat ty)\<rparr>) g))"
proof -
  let ?m = "rbytes (g_rl g)" and ?n = "length content"
  have len: "unat (rlength r) = ?n + Suc k"
    using arg_cong [OF assms(7), of length] assms(6) by simp
  have at: "byte_at ?m (rdata r + i) = Some ((content @ [ty] @ replicate k 0) ! i)" if "i < ?n + Suc k" for i
    using byte_at_seg [OF assms(6), of i] that len assms(7) by simp
  have "strip_padding ?m (rdata r) (?n + k) = Some ?n"
  proof (rule strip_padding_spec)
    show "byte_at ?m (rdata r + ?n) = Some ty"
      using at [of ?n] by simp
    show "byte_at ?m (rdata r + (?n + Suc i)) = Some 0" if "i < k" for i
      using at [of "?n + Suc i"] that by (simp add: nth_append)
  qed (use assms(8) in auto)
  moreover have "byte_at ?m (rdata r + ?n) = Some ty"
    using at [of ?n] by simp
  moreover have "rlength r \<noteq> 0" "unat (rlength r) - 1 = ?n + k"
    using len by auto
  moreover have "uint ty \<in> {21, 22, 23}"
    using assms(8) by auto
  ultimately show ?thesis
    using assms(1,2,5) unfolding r_def by (auto simp: inner_plaintext_def Let_def)
qed

definition sample_13_conn :: "(mem_bio, nat) gconn" where
  "sample_13_conn = sample_conn\<lparr>g_core := sample_tls 0x0304 False TLS_ST_OK, g_enc_read_ctx := Some 0,
     g_rl := sample_rlayer2\<lparr>rl_rbuf := \<lparr>rb_buf = Some [0, 4, 5, 22, 0, 0, 9, 9], rb_addr = 64,
       rb_default_len = 0, rb_len = 8, rb_offset = 0, rb_left = 0\<rparr>\<rparr>,
     g_rrec := [sample_record\<lparr>rlength := 5, rdata := 1\<rparr>]\<rparr>"

theorem inner_plaintext_correct_witness:
  "inner_plaintext 0 sample_13_conn =
    Some (Continue (on_rec 0 (\<lambda>r. r\<lparr>rlength := 2, rtype := 22\<rparr>) sample_13_conn))"
proof -
  have "replicate 2 (0 :: byte) = [0, 0]"
    by (simp add: numeral_2_eq_2)
  then show ?thesis
    using inner_plaintext_correct [of sample_13_conn 0 "[4, 5]" 22 2]
    by (simp add: sample_13_conn_def sample_conn_def sample_record_def sample_defs rbytes_def seg_def)
qed

section \<open>Skipped early data\<close>

text \<open>
  \<open>early_data_count_ok\<close> adds the overhead to the limit in \<open>uint32_t\<close>: with a limit so close to the
  maximum that the sum wraps, any record longer than the small remainder is refused.
\<close>

lemma early_data_limit_wraps:
  assumes "server (g_core g)" and "ext_early_data (g_core g) \<noteq> tls_EARLY_DATA_ACCEPTED"
    and "g_recv_max_early_data g = 0xffffffff" and "g_early_data_count g = 0" and "103 < len" and "len \<le> 16640"
  shows "early_data_count_ok g len EARLY_DATA_CIPHERTEXT_OVERHEAD False =
    Some (False, g_fatal tls3_AD_UNEXPECTED_MESSAGE tls_R_TOO_MUCH_EARLY_DATA g)"
  using assms by (simp add: early_data_count_ok_def EARLY_DATA_CIPHERTEXT_OVERHEAD_def uadd_eq SIZE_MAX_def)

end
