(* ===== verification/Record_Frame.thy ===== *)
theory Record_Frame
  imports Record_Get
begin

text \<open>
  A stream of records through \<open>tls3_get_record\<close>: as long as no cipher is in use, the records written
  one after the other on the wire are delivered one per call, each with its type and its bytes,
  however the bytes are distributed over the read buffer and the BIO. The proof puts the contract of
  \<open>tls3_read_n\<close> over the memory BIO (Record_Read) under the header and body phases of \<open>tls3_get_record\<close>.
\<close>

section \<open>What tls3_read_n leaves alone\<close>

definition same_buffer :: "'b rlayer \<Rightarrow> 'b rlayer \<Rightarrow> bool" where
  "same_buffer s s' \<longleftrightarrow> rb_addr (rl_rbuf s') = rb_addr (rl_rbuf s) \<and> rb_len (rl_rbuf s') = rb_len (rl_rbuf s) \<and>
     rb_default_len (rl_rbuf s') = rb_default_len (rl_rbuf s) \<and> rl_is_dtls s' = rl_is_dtls s \<and>
     rl_fatal s' = rl_fatal s \<and> (rl_rbio s \<noteq> None \<longrightarrow> rl_rbio s' \<noteq> None)"

lemma same_buffer_refl [simp]: "same_buffer s s"
  by (simp add: same_buffer_def)

lemma same_buffer_trans: "same_buffer s t \<Longrightarrow> same_buffer t u \<Longrightarrow> same_buffer s u"
  by (simp add: same_buffer_def)

lemma on_rbuf_fatal: "rl_fatal (on_rbuf f s) = rl_fatal s"
  by (simp add: on_rbuf_def)

lemma memmove_buf_frame: "memmove_buf d src n s = Some s' \<Longrightarrow> same_buffer s s' \<and> rl_packet s' = rl_packet s"
  by (auto simp: memmove_buf_def same_buffer_def on_rbuf_fatal split: bind_splits)

lemma read_n_start_frame: "read_n_start al s = Some s' \<Longrightarrow> same_buffer s s'"
  by (auto simp: read_n_start_def Let_def same_buffer_def on_rbuf_fatal split: bind_splits if_splits
      dest!: memmove_buf_frame)

lemma read_n_clearold_frame: "read_n_clearold al s = Some s' \<Longrightarrow> same_buffer s s' \<and> rl_packet s' = al"
  by (auto simp: read_n_clearold_def Let_def same_buffer_def on_rbuf_fatal dest!: memmove_buf_frame)

lemma same_buffer_simps [simp]:
  "same_buffer s (read_n_take l n t) \<longleftrightarrow> same_buffer s t"
  "same_buffer s (t\<lparr>rl_rwstate := w\<rparr>) \<longleftrightarrow> same_buffer s t"
  by (simp_all add: read_n_take_def same_buffer_def on_rbuf_fatal)

lemma read_n_loop_frame:
  "read_n_loop rd base len mx n left s = Some (r, n', left', s') \<Longrightarrow> 0 < r \<Longrightarrow> same_buffer s s' \<and> rl_packet s' = rl_packet s"
proof (induction "n - left" arbitrary: n left s rule: less_induct)
  case less
  show ?case
  proof (cases "left < n")
    case True
    obtain b ret bs b' m where st: "rl_rbio s = Some b" "rd b (to_int (usub mx left)) = Some (ret, bs, b')" "0 < ret"
      "mem_write (rbytes s) (base + left) bs = Some m"
      using less.prems True unfolding read_n_loop.simps [of rd base len mx n left s]
      by (auto simp: Let_def split: option.splits if_splits)
    let ?n1 = "if rl_is_dtls s \<and> n > left + nat ret then left + nat ret else n"
    let ?s1 = "on_rbuf (rb_buf_update (\<lambda>_. Some m)) (s\<lparr>rl_rwstate := tls_READING, rl_rbio := Some b'\<rparr>)"
    have "read_n_loop rd base len mx ?n1 (left + nat ret) ?s1 = Some (r, n', left', s')"
      using less.prems True st unfolding read_n_loop.simps [of rd base len mx n left s] by (simp add: Let_def)
    moreover have "?n1 - (left + nat ret) < n - left"
      using True st(3) by auto
    ultimately have "same_buffer ?s1 s' \<and> rl_packet s' = rl_packet ?s1"
      using less.hyps less.prems(2) by blast
    then show ?thesis
      by (simp add: same_buffer_def on_rbuf_fatal)
  qed (use less.prems in \<open>simp add: read_n_loop.simps same_buffer_refl\<close>)
qed

lemma read_n_fill_frame:
  "read_n_fill rd n mx ext al s = Some (1, rb, s') \<Longrightarrow> same_buffer s s' \<and> rl_packet s' = rl_packet s"
  by (auto simp: read_n_fill_def Let_def split: if_splits bind_splits dest!: read_n_loop_frame)

lemma read_n_frame:
  assumes r: "tls3_read_n malloc rd n mx ext clearold s = Some (1, rb, s')" and buf: "rb_buf (rl_rbuf s) \<noteq> None"
  shows "same_buffer s s' \<and> (clearold \<or> ext \<and> rl_packet s = payload_align (rb_addr (rl_rbuf s)) \<longrightarrow>
    rl_packet s' = payload_align (rb_addr (rl_rbuf s')))"
proof -
  let ?al = "payload_align (rb_addr (rl_rbuf s))"
  obtain u v where u: "(if ext then Some s else read_n_start ?al s) = Some u"
    and v: "(if rl_packet u \<noteq> ?al \<and> clearold then read_n_clearold ?al u else Some u) = Some v"
    and f: "read_n_fill rd n mx ext ?al v = Some (1, rb, s')"
    using r buf by (auto simp: tls3_read_n_def Let_def split: if_splits bind_splits)
  have su: "same_buffer s u"
    using u read_n_start_frame same_buffer_refl by (auto split: if_splits)
  have uv: "same_buffer u v" "clearold \<or> rl_packet u = ?al \<longrightarrow> rl_packet v = ?al"
    using v read_n_clearold_frame same_buffer_refl by (auto split: if_splits)
  have fs: "same_buffer v s'" "rl_packet s' = rl_packet v"
    using read_n_fill_frame [OF f] by auto
  have all: "same_buffer s s'"
    using su uv fs same_buffer_trans by blast
  moreover have "?al = payload_align (rb_addr (rl_rbuf s'))"
    using all by (simp add: same_buffer_def)
  moreover have "ext \<longrightarrow> u = s" using u by (auto split: if_splits)
  ultimately show ?thesis
    using uv(2) fs(2) by auto
qed


section \<open>Reading from the stream\<close>

definition input_stream :: "mem_bio rlayer \<Rightarrow> bytes" where
  "input_stream s = unread s @ input_avail pending s"

text \<open>A read buffer with room for a record, over a memory BIO.\<close>

definition rl_ready :: "mem_bio rlayer \<Rightarrow> bool" where
  "rl_ready s \<longleftrightarrow> rbuf_ok s \<and> input_ok mem_bio_ok s \<and> rb_buf (rl_rbuf s) \<noteq> None \<and> rl_rbio s \<noteq> None \<and>
     \<not> rl_is_dtls s \<and> rb_default_len (rl_rbuf s) \<le> INT_MAX \<and> rl_fatal s = [] \<and>
     payload_align (rb_addr (rl_rbuf s)) + tls3_RT_HEADER_LENGTH + tls3_RT_MAX_PLAIN_LENGTH \<le> rb_len (rl_rbuf s)"

abbreviation at_front :: "mem_bio rlayer \<Rightarrow> bool" where
  "at_front s \<equiv> Record_Read.packet_ok s \<and> rl_packet s = payload_align (rb_addr (rl_rbuf s))"

lemma read_step:
  assumes mal: "malloc_ok malloc" and ok: "rl_ready s" and n: "0 < n" and ext: "ext \<Longrightarrow> at_front s" "ext \<or> clearold"
    and fits: "(if ext then rl_packet_length s else 0) + n \<le> tls3_RT_HEADER_LENGTH + tls3_RT_MAX_PLAIN_LENGTH"
    and enough: "n \<le> length (input_stream s)"
  shows "\<exists>s'. tls3_read_n malloc BIO_read n mx ext clearold s = Some (1, Some n, s') \<and> rl_ready s' \<and> at_front s' \<and>
    same_buffer s s' \<and> packet_bytes s' = (if ext then packet_bytes s else []) @ take n (input_stream s) \<and>
    input_stream s' = drop n (input_stream s)"
proof -
  let ?pre = "if ext then packet_bytes s else []"
  note s = ok [unfolded rl_ready_def]
  have pk: "ext \<Longrightarrow> Record_Read.packet_ok s"
    and place: "clearold \<or> ext \<and> rl_packet s = payload_align (rb_addr (rl_rbuf s))"
    using ext by auto
  obtain s' where r: "tls3_read_n malloc BIO_read n mx ext clearold s = Some (1, Some n, s')"
    using membio.read_n_prompt [of s n ext clearold malloc mx] s n pk place fits enough
    by (auto simp: input_stream_def)
  have "clearold \<or> n \<le> rb_left (rl_rbuf s) \<or> ext \<and> rl_packet s = payload_align (rb_addr (rl_rbuf s))"
    using place by blast
  then have post: "input_ok mem_bio_ok s'" "read_post pending n ?pre s 1 (Some n) s'"
    using membio.read_n_spec [OF mal, of s n ext clearold mx] s n pk r by auto
  have fr: "same_buffer s s'" "rl_packet s' = payload_align (rb_addr (rl_rbuf s'))"
    using read_n_frame [OF r] s place by blast+
  have p: "rbuf_ok s'" "Record_Read.packet_ok s'" "length (packet_bytes s') = length ?pre + n"
    "packet_bytes s' @ input_stream s' = ?pre @ input_stream s"
    using post(2) by (simp_all add: read_post_def input_stream_def)
  have "packet_bytes s' @ input_stream s' = (?pre @ take n (input_stream s)) @ drop n (input_stream s)"
    using p(4) by simp
  moreover have "length (packet_bytes s') = length (?pre @ take n (input_stream s))"
    using p(3) enough by simp
  ultimately have "packet_bytes s' = ?pre @ take n (input_stream s)" "input_stream s' = drop n (input_stream s)"
    by (metis append_eq_append_conv)+
  moreover have "rb_buf (rl_rbuf s') \<noteq> None"
    using p(2) by (simp add: Record_Read.packet_ok_def)
  then have "rl_ready s'"
    using s p post fr by (simp add: rl_ready_def same_buffer_def)
  ultimately show ?thesis
    using r fr p(2) by auto
qed

lemma packet_in_buffer:
  assumes "rbuf_ok s" and "Record_Read.packet_ok s"
  shows "rl_packet s + rl_packet_length s \<le> length (rbytes s)"
  using assms by (auto simp: rbuf_ok_def Record_Read.packet_ok_def rbytes_def Let_def)

lemma byte_of_packet:
  assumes "rbuf_ok s" and "Record_Read.packet_ok s" and "packet_bytes s = bs" and "i < length bs"
  shows "byte_at (rbytes s) (rl_packet s + i) = Some (bs ! i)"
proof -
  have "length bs = rl_packet_length s"
    using length_packet_bytes [OF assms(1,2)] assms(3) by simp
  then show ?thesis
    using byte_at_seg [OF packet_in_buffer [OF assms(1,2)], of i] assms(3,4) by (simp add: packet_bytes_def)
qed

lemma g_read_n_success:
  assumes "tls3_read_n (e_malloc e) (e_bio_read e) n mx ext co (g_rl g) = Some (ret, rb, s')" and "rl_fatal s' = []"
  shows "g_read_n e n mx ext co g =
    Some (ret, g\<lparr>g_rl := s', g_core := (g_core g)\<lparr>rwstate := rl_rwstate s'\<rparr>\<rparr>)"
proof -
  have "s'\<lparr>rl_fatal := []\<rparr> = s'"
    using assms(2) by (cases s') simp
  then show ?thesis
    using assms by (simp add: g_read_n_def on_gcore_def)
qed

section \<open>Records on the wire\<close>

text \<open>A record: its type, the minor version in its header, and its bytes.\<close>

type_synonym frame = "byte \<times> byte \<times> bytes"

definition wire :: "frame \<Rightarrow> bytes" where
  "wire f = (case f of (ty, v, body) \<Rightarrow> [ty, 3, v] @ be_bytes 2 (length body) @ body)"

text \<open>Header checks of \<open>tls3_get_record\<close> that such a record passes.\<close>

definition frame_ok :: "(mem_bio, 'c) gconn \<Rightarrow> frame \<Rightarrow> bool" where
  "frame_ok g f \<longleftrightarrow> (case f of (ty, v, body) \<Rightarrow>
     \<not> bit ty 7 \<and> ty \<noteq> 20 \<and> body \<noteq> [] \<and> length body \<le> tls3_RT_MAX_PLAIN_LENGTH \<and>
     (first_packet (g_core g) \<or> tls_IS_TLS13 (g_core g) \<or> hello_retry_request (g_core g) = tls_HRR_PENDING \<or>
        version (g_core g) = 0x0300 + uint v) \<and>
     (early_data_state (g_core g) = tls_EARLY_DATA_READING \<longrightarrow> ty \<noteq> 23) \<and>
     (g_session g \<and> USE_MAX_FRAGMENT_LENGTH_EXT g \<longrightarrow> length body \<le> GET_MAX_FRAGMENT_LENGTH g))"

lemma not_v2: "\<not> bit (ty :: byte) 7 \<Longrightarrow> (push_bit 8 (ucast ty) OR ucast (b :: byte) :: u32) AND 0x8000 = 0"
proof -
  assume "\<not> bit ty 7"
  then have "\<not> bit (push_bit 8 (ucast ty) OR ucast b :: u32) 15"
    by (simp add: bit_simps) (use bit_imp_le_length [of b 15] in auto)
  then show ?thesis
    using and_exp_eq_0_iff_not_bit [of "push_bit 8 (ucast ty) OR ucast b :: u32" 15] by simp
qed

lemma header_values:
  fixes ty v h l :: byte
  shows "int (unat (ucast ty :: u32)) = uint ty"
    "int (unat (push_bit 8 (ucast (3 :: byte)) OR ucast v :: u32)) = 0x0300 + uint v"
    "(ucast (push_bit 8 (ucast h) OR ucast l :: u32) :: u64) = of_nat (be_val [h, l])"
    "unat (of_nat (be_val [h, l]) :: u64) = be_val [h, l]"
proof -
  have bound: "be_val [h, l] < 256 ^ 2"
    using be_val_bound [of "[h, l]"] by simp
  show 4: "unat (of_nat (be_val [h, l]) :: u64) = be_val [h, l]"
    using bound by (simp only: unsigned_of_nat) (simp add: take_bit_nat_eq_self)
  show "int (unat (ucast ty :: u32)) = uint ty"
    by simp
  show "int (unat (push_bit 8 (ucast (3 :: byte)) OR ucast v :: u32)) = 0x0300 + uint v"
    unfolding or_be_2 by (simp add: be_val_def)
  have "unat (ucast (push_bit 8 (ucast h) OR ucast l :: u32) :: u64) = be_val [h, l]"
    using or_be_2 [of h l] bound by (simp only: unsigned_ucast_eq) (simp add: take_bit_nat_eq_self)
  then show "(ucast (push_bit 8 (ucast h) OR ucast l :: u32) :: u64) = of_nat (be_val [h, l])"
    using 4 by (metis unsigned_word_eqI)
qed

lemma parse_header_plain:
  assumes bytes: "rbuf_ok s" "Record_Read.packet_ok s" "packet_bytes s = [ty, 3, v, h, l]"
    and g: "g_rl g = s" "g_enc_read_ctx g = None" and ty: "\<not> bit ty 7"
    and ver: "first_packet (g_core g) \<or> tls_IS_TLS13 (g_core g) \<or> hello_retry_request (g_core g) = tls_HRR_PENDING \<or>
        version (g_core g) = 0x0300 + uint v"
    and len: "be_val [h, l] + tls3_RT_HEADER_LENGTH \<le> rb_len (rl_rbuf s)" "rb_len (rl_rbuf s) \<le> INT_MAX"
  shows "parse_header j g = Some (Continue (on_rec j (\<lambda>r. r\<lparr>rtype := uint ty, rec_version := 0x0300 + uint v,
    rlength := of_nat (be_val [h, l])\<rparr>) g))"
proof -
  let ?m = "rbytes s" and ?p = "rl_packet s"
  have pl: "rl_packet_length s = 5"
    using length_packet_bytes [OF bytes(1,2)] bytes(3) by simp
  have at: "byte_at ?m ?p = Some ty" "byte_at ?m (?p + 1) = Some 3" "byte_at ?m (?p + 2) = Some v"
    "byte_at ?m (?p + 3) = Some h" "byte_at ?m (?p + 4) = Some l"
    using byte_of_packet [OF bytes, of 0] byte_of_packet [OF bytes, of 1] byte_of_packet [OF bytes, of 2]
      byte_of_packet [OF bytes, of 3] byte_of_packet [OF bytes, of 4] by simp_all
  have at': "byte_at ?m (Suc ?p) = Some 3" "byte_at ?m (Suc (Suc ?p)) = Some v" "byte_at ?m (Suc (?p + 2)) = Some h"
    "byte_at ?m (Suc (?p + 3)) = Some l" using at by (simp_all add: eval_nat_numeral)
  have get: "PACKET_get_net_2 ?m \<lparr>pcurr = ?p, remaining = 5\<rparr> =
      Some (Some (push_bit 8 (ucast ty) OR ucast (3 :: byte)), \<lparr>pcurr = ?p + 2, remaining = 3\<rparr>)"
    "PACKET_get_1 ?m \<lparr>pcurr = ?p + 2, remaining = 3\<rparr> = Some (Some (ucast v), \<lparr>pcurr = ?p + 3, remaining = 2\<rparr>)"
    "PACKET_get_1 ?m \<lparr>pcurr = ?p, remaining = 5\<rparr> = Some (Some (ucast ty), \<lparr>pcurr = ?p + 1, remaining = 4\<rparr>)"
    "PACKET_get_net_2 ?m \<lparr>pcurr = ?p + 1, remaining = 4\<rparr> =
      Some (Some (push_bit 8 (ucast (3 :: byte)) OR ucast v), \<lparr>pcurr = ?p + 3, remaining = 2\<rparr>)"
    "PACKET_get_net_2 ?m \<lparr>pcurr = ?p + 3, remaining = 2\<rparr> =
      Some (Some (push_bit 8 (ucast h) OR ucast l), \<lparr>pcurr = ?p + 5, remaining = 0\<rparr>)"
    using at at'
    by (simp_all add: PACKET_get_net_2_def PACKET_get_1_def PACKET_peek_1_def PACKET_peek_net_2_def
        get_after_def PACKET_remaining_def packet_forward_def usub_eq SIZE_MAX_def)
  define g1 where "g1 = on_rec j (\<lambda>r. r\<lparr>rtype := uint ty, rec_version := 0x0300 + uint v,
    rlength := of_nat (be_val [h, l])\<rparr>) g"
  note val = header_values(1) [of ty] header_values(2) [of v] header_values(3,4) [of h l]
  have "usub (rb_len (rl_rbuf s)) tls3_RT_HEADER_LENGTH = rb_len (rl_rbuf s) - tls3_RT_HEADER_LENGTH"
    using len by (simp add: usub_eq SIZE_MAX_def INT_MAX_def)
  moreover have "g_core g1 = g_core g" "g_enc_read_ctx g1 = None" "g_rl g1 = s"
    using g by (simp_all add: g1_def)
  moreover have "0 \<le> uint v" "uint v < 256"
    using unsigned_less [of v, where ?'a = int] by simp_all
  then have "(0x0300 + uint v) div 0x100 = 3"
    by (intro int_div_pos_eq [where r = "uint v"]) simp_all
  moreover have "\<not> (\<not> first_packet (g_core g) \<and> \<not> tls_IS_TLS13 (g_core g) \<and>
      hello_retry_request (g_core g) \<noteq> tls_HRR_PENDING \<and> 0x0300 + uint v \<noteq> version (g_core g))"
    using ver by auto
  moreover have "\<not> be_val [h, l] > rb_len (rl_rbuf s) - tls3_RT_HEADER_LENGTH"
    using len by simp
  ultimately have v3: "header_v3 j p (uint ty) (0x0300 + uint v) (of_nat (be_val [h, l])) g = Some (Continue g1)" for p
    unfolding header_v3_def g1_def [symmetric] Let_def val(4) by (simp only: simp_thms if_False)
  show ?thesis
    using get v3 not_v2 [OF ty, of 3] val(1-3) g(1) pl
    by (simp add: parse_header_def PACKET_buf_init_def SIZE_MAX_def g1_def)
qed

text \<open>
  A connection before its first record, without a cipher, and the environment it runs in: with no
  cipher \<open>tls3_enc\<close> leaves the records as they are.
\<close>

definition conn_ready :: "(mem_bio, 'c) gconn \<Rightarrow> bool" where
  "conn_ready g \<longleftrightarrow> rl_ready (g_rl g) \<and> \<not> g_read_body g \<and> g_rrec g \<noteq> [] \<and> g_enc_read_ctx g = None \<and> \<not> g_read_hash g"

definition plain_env :: "(mem_bio, 'c) get_env \<Rightarrow> bool" where
  "plain_env e \<longleftrightarrow> malloc_ok (e_malloc e) \<and> e_bio_read e = BIO_read \<and>
     (\<forall>rs g. g_enc_read_ctx g = None \<longrightarrow> e_enc e rs g = (1, rs, g))"

abbreviation header_bytes :: "frame \<Rightarrow> bytes" where
  "header_bytes f \<equiv> (case f of (ty, v, body) \<Rightarrow> [ty, 3, v] @ be_bytes 2 (length body))"

lemma wire_split: "wire (ty, v, body) = header_bytes (ty, v, body) @ body" "length (header_bytes (ty, v, body)) = 5"
  by (simp_all add: wire_def)

lemma get_header_plain:
  assumes e: "plain_env e" and g: "conn_ready g" and f: "frame_ok g (ty, v, body)"
    and st: "input_stream (g_rl g) = wire (ty, v, body) @ rest"
  shows "\<exists>s. get_header e 0 g = Some (Continue (on_rec 0 (\<lambda>r. r\<lparr>rtype := uint ty, rec_version := 0x0300 + uint v,
      rlength := of_nat (length body)\<rparr>)
      (g\<lparr>g_rl := s, g_core := (g_core g)\<lparr>rwstate := rl_rwstate s\<rparr>, g_read_body := True\<rparr>))) \<and>
    rl_ready s \<and> at_front s \<and> packet_bytes s = header_bytes (ty, v, body) \<and> input_stream s = body @ rest"
proof -
  let ?n = "length body"
  have "malloc_ok (e_malloc e)" "rl_ready (g_rl g)" "0 < tls3_RT_HEADER_LENGTH"
    using e g by (simp_all add: plain_env_def conn_ready_def tls3_RT_HEADER_LENGTH_def)
  note step = read_step [OF this, of False True "rb_len (rl_rbuf (g_rl g))"]
  obtain s where s: "tls3_read_n (e_malloc e) BIO_read tls3_RT_HEADER_LENGTH (rb_len (rl_rbuf (g_rl g))) False True (g_rl g) =
      Some (1, Some tls3_RT_HEADER_LENGTH, s)" "rl_ready s" "at_front s"
    "packet_bytes s = take 5 (input_stream (g_rl g))" "input_stream s = drop 5 (input_stream (g_rl g))"
    using step st by (auto simp: wire_split tls3_RT_HEADER_LENGTH_def)
  have pk: "packet_bytes s = [ty, 3, v, of_nat (?n div 256), of_nat ?n]" "input_stream s = body @ rest"
    using s(4,5) st by (simp_all add: wire_def)
  have n: "?n \<le> tls3_RT_MAX_PLAIN_LENGTH"
    using f by (simp add: frame_ok_def)
  have val: "be_val [of_nat (?n div 256), of_nat ?n] = ?n"
    using be_val_be_bytes [of 2 ?n] n by (simp add: tls3_RT_MAX_PLAIN_LENGTH_def)
  let ?g = "g\<lparr>g_rl := s, g_core := (g_core g)\<lparr>rwstate := rl_rwstate s\<rparr>, g_read_body := True\<rparr>"
  have "g_read_n e tls3_RT_HEADER_LENGTH (rb_len (rl_rbuf (g_rl g))) False True g =
      Some (1, g\<lparr>g_rl := s, g_core := (g_core g)\<lparr>rwstate := rl_rwstate s\<rparr>\<rparr>)"
    using s e by (intro g_read_n_success) (simp_all add: plain_env_def rl_ready_def)
  moreover have "parse_header 0 ?g = Some (Continue (on_rec 0 (\<lambda>r. r\<lparr>rtype := uint ty, rec_version := 0x0300 + uint v,
      rlength := of_nat (be_val [of_nat (?n div 256), of_nat ?n])\<rparr>) ?g))"
  proof (rule parse_header_plain [where s = s])
    show "be_val [of_nat (?n div 256), of_nat ?n] + tls3_RT_HEADER_LENGTH \<le> rb_len (rl_rbuf s)"
      unfolding val using n s(2) by (simp add: rl_ready_def)
  qed (use s(2,3) pk f g in \<open>auto simp: rl_ready_def frame_ok_def conn_ready_def rbuf_ok_def tls_IS_TLS13_def
      tls_IS_DTLS_def Let_def split: option.splits\<close>)
  ultimately have "get_header e 0 g = Some (Continue (on_rec 0 (\<lambda>r. r\<lparr>rtype := uint ty, rec_version := 0x0300 + uint v,
      rlength := of_nat ?n\<rparr>) ?g))"
    using g unfolding val by (simp add: get_header_def conn_ready_def)
  then show ?thesis
    using s(2,3) pk by auto
qed

lemma rl_ready_reset [simp]:
  "rl_ready (s\<lparr>rl_packet_length := k\<rparr>) = rl_ready s"
  "input_stream (s\<lparr>rl_packet_length := k\<rparr>) = input_stream s"
  by (simp_all add: rl_ready_def rbuf_ok_def input_ok_def input_stream_def unread_def input_avail_def)

lemma plain_length_fits: "tls3_RT_MAX_PLAIN_LENGTH \<le> max_record_length g"
  by (simp add: max_record_length_def rt_consts)

lemma get_body_plain:
  assumes e: "plain_env e" and s: "rl_ready (g_rl g)" "at_front (g_rl g)" "packet_bytes (g_rl g) = hdr"
    "length hdr = 5" "input_stream (g_rl g) = body @ rest"
    and r: "rec_version (g_rrec g ! 0) \<noteq> tls2_VERSION" "rlength (g_rrec g ! 0) = of_nat (length body)"
    and n: "body \<noteq> []" "length body \<le> tls3_RT_MAX_PLAIN_LENGTH"
  shows "\<exists>s p. get_body e 0 g = Some (Continue ((on_rec 0 (\<lambda>r. r\<lparr>rinput := p, rdata := p, orig_len := rlength r,
      rread := False\<rparr>) g)\<lparr>g_rl := s, g_core := (g_core g)\<lparr>rwstate := rl_rwstate s\<rparr>, g_read_body := False,
      g_is_first_record := False\<rparr>)) \<and>
    rl_ready s \<and> input_stream s = rest \<and> seg (rbytes s) p (length body) = body"
proof -
  let ?n = "length body"
  have len: "unat (of_nat ?n :: u64) = ?n"
    using n(2) by (simp only: unsigned_of_nat) (simp add: take_bit_nat_eq_self tls3_RT_MAX_PLAIN_LENGTH_def)
  have pl: "rl_packet_length (g_rl g) = 5"
    using s length_packet_bytes [of "g_rl g"] by (simp add: rl_ready_def)
  obtain t where t: "tls3_read_n (e_malloc e) BIO_read ?n ?n True False (g_rl g) = Some (1, Some ?n, t)"
    "rl_ready t" "at_front t" "packet_bytes t = hdr @ body" "input_stream t = rest"
    using read_step [OF _ s(1), of "e_malloc e" ?n True False ?n] s n pl e
    by (auto simp: plain_env_def tls3_RT_HEADER_LENGTH_def)
  let ?p = "rl_packet t + tls3_RT_HEADER_LENGTH"
  have "rl_packet_length t = 5 + ?n"
    using t s(4) length_packet_bytes [of t] by (simp add: rl_ready_def)
  then have "seg (rbytes t) (rl_packet t) 5 @ seg (rbytes t) ?p ?n = hdr @ body"
    using t(4) seg_append_split [of "rbytes t" "rl_packet t" 5 ?n]
    by (simp add: packet_bytes_def tls3_RT_HEADER_LENGTH_def)
  moreover have "length (seg (rbytes t) (rl_packet t) 5) = length hdr"
    using packet_in_buffer [of t] t(2,3) s(4) \<open>rl_packet_length t = 5 + ?n\<close> by (simp add: rl_ready_def)
  ultimately have body: "seg (rbytes t) ?p ?n = body"
    by simp
  have "g_read_n e ?n ?n True False g = Some (1, g\<lparr>g_rl := t, g_core := (g_core g)\<lparr>rwstate := rl_rwstate t\<rparr>\<rparr>)"
    using t e by (intro g_read_n_success) (simp_all add: plain_env_def rl_ready_def)
  moreover have "\<not> ?n > max_record_length g"
    using n(2) plain_length_fits [of g] by simp
  ultimately show ?thesis
    using r n(1) len t(2,5) body
    by (intro exI [of _ "t\<lparr>rl_packet_length := 0\<rparr>"] exI [of _ ?p]) (simp add: get_body_def Let_def on_rec_def)
qed

text \<open>The record after its header and body have been read, and the whole of \<open>tls3_get_record\<close>.\<close>

definition frame_record :: "frame \<Rightarrow> nat \<Rightarrow> tls3_RECORD \<Rightarrow> tls3_RECORD" where
  "frame_record f p r = (case f of (ty, v, body) \<Rightarrow> r\<lparr>rtype := uint ty, rec_version := 0x0300 + uint v,
     rlength := of_nat (length body), rinput := p, rdata := p, orig_len := of_nat (length body), rread := False\<rparr>)"

lemma collect_plain:
  assumes e: "plain_env e" and g: "conn_ready g" and f: "frame_ok g (ty, v, body)"
    and st: "input_stream (g_rl g) = wire (ty, v, body) @ rest"
  shows "\<exists>s p w. collect_records e 0 mx g = Some (1, Continue
      (g\<lparr>g_rl := s, g_core := (g_core g)\<lparr>rwstate := w\<rparr>, g_rrec := (g_rrec g)[0 := frame_record (ty, v, body) p (g_rrec g ! 0)],
         g_read_body := False, g_is_first_record := False\<rparr>)) \<and>
    rl_ready s \<and> input_stream s = rest \<and> seg (rbytes s) p (length body) = body"
proof -
  let ?hdr = "\<lambda>r :: tls3_RECORD. r\<lparr>rtype := uint ty, rec_version := 0x0300 + uint v, rlength := of_nat (length body)\<rparr>"
  obtain s where s: "get_header e 0 g = Some (Continue (on_rec 0 ?hdr
      (g\<lparr>g_rl := s, g_core := (g_core g)\<lparr>rwstate := rl_rwstate s\<rparr>, g_read_body := True\<rparr>)))"
    "rl_ready s" "at_front s" "packet_bytes s = header_bytes (ty, v, body)" "input_stream s = body @ rest"
    using get_header_plain [OF assms] by blast
  let ?g = "on_rec 0 ?hdr (g\<lparr>g_rl := s, g_core := (g_core g)\<lparr>rwstate := rl_rwstate s\<rparr>, g_read_body := True\<rparr>)"
  have ne: "0 < length (g_rrec g)" using g by (simp add: conn_ready_def)
  have "0 \<le> uint v" by simp
  then have r: "rec_version (g_rrec ?g ! 0) \<noteq> tls2_VERSION" "rlength (g_rrec ?g ! 0) = of_nat (length body)"
    using ne by (simp_all add: add_nonneg_eq_0_iff)
  have n: "body \<noteq> []" "length body \<le> tls3_RT_MAX_PLAIN_LENGTH"
    using f by (simp_all add: frame_ok_def)
  have st: "rl_ready (g_rl ?g)" "at_front (g_rl ?g)" "packet_bytes (g_rl ?g) = header_bytes (ty, v, body)"
    "input_stream (g_rl ?g) = body @ rest"
    using s by simp_all
  obtain t p where t: "get_body e 0 ?g = Some (Continue ((on_rec 0 (\<lambda>r. r\<lparr>rinput := p, rdata := p, orig_len := rlength r,
      rread := False\<rparr>) ?g)\<lparr>g_rl := t, g_core := (g_core ?g)\<lparr>rwstate := rl_rwstate t\<rparr>, g_read_body := False,
      g_is_first_record := False\<rparr>))" "rl_ready t" "input_stream t = rest" "seg (rbytes t) p (length body) = body"
    using get_body_plain [OF e st(1-3) wire_split(2) st(4) r n] by blast
  have "g_enc_read_ctx g = None" using g by (simp add: conn_ready_def)
  then have "collect_records e 0 mx g = Some (1, Continue
      (g\<lparr>g_rl := t, g_core := (g_core g)\<lparr>rwstate := rl_rwstate t\<rparr>, g_rrec := (g_rrec g)[0 := frame_record (ty, v, body) p (g_rrec g ! 0)],
         g_read_body := False, g_is_first_record := False\<rparr>))"
    using s(1) t(1) ne
    by (subst collect_records.simps) (simp add: more_pipelines_def on_rec_def frame_record_def)
  then show ?thesis
    using t(2-4) by blast
qed

lemma check_plain:
  assumes "g_rrec g \<noteq> []" and "g_enc_read_ctx g = None" and "rlength (g_rrec g ! 0) = of_nat n" and "0 < n"
    and "n \<le> tls3_RT_MAX_PLAIN_LENGTH"
    and "g_session g \<and> USE_MAX_FRAGMENT_LENGTH_EXT g \<longrightarrow> n \<le> GET_MAX_FRAGMENT_LENGTH g"
  shows "check_records 0 1 g = Some (Continue ((on_rec 0 (roff_update (\<lambda>_. 0)) g)\<lparr>g_empty_record_count := 0\<rparr>))"
proof -
  have len: "unat (of_nat n :: u64) = n"
    using assms(5) by (simp only: unsigned_of_nat) (simp add: take_bit_nat_eq_self tls3_RT_MAX_PLAIN_LENGTH_def)
  then have "(of_nat n :: u64) \<noteq> 0"
    using assms(4) by (metis less_numeral_extra(3) unsigned_0)
  then have "check_record 0 g = Some (Continue ((on_rec 0 (roff_update (\<lambda>_. 0)) g)\<lparr>g_empty_record_count := 0\<rparr>))"
    using assms len by (auto simp: check_record_def inner_plaintext_def Let_def)
  then show ?thesis
    by (simp add: check_records.simps)
qed

text \<open>What a call delivers as record 0.\<close>

definition delivered :: "(mem_bio, 'c) gconn \<Rightarrow> int \<times> int \<times> bytes" where
  "delivered g = (let r = g_rrec g ! 0 in
     (rtype r, rec_version r, seg (rbytes (g_rl g)) (rdata r + unat (roff r)) (unat (rlength r))))"

lemma one_record:
  fixes g :: "(mem_bio, 'c) gconn"
  assumes e: "plain_env e" and g: "conn_ready g" and f: "frame_ok g (ty, v, body)"
    and st: "input_stream (g_rl g) = wire (ty, v, body) @ rest"
  shows "\<exists>g'. tls3_get_record e g = Some (1, g') \<and> conn_ready g' \<and> frame_ok g' = frame_ok g \<and> g_numrpipes g' = 1 \<and>
    delivered g' = (uint ty, 0x0300 + uint v, body) \<and> input_stream (g_rl g') = rest"
proof -
  let ?mx = "if g_max_pipelines g = 0 then 1 else g_max_pipelines g"
  obtain s p w where s: "collect_records e 0 ?mx g = Some (1, Continue
      (g\<lparr>g_rl := s, g_core := (g_core g)\<lparr>rwstate := w\<rparr>, g_rrec := (g_rrec g)[0 := frame_record (ty, v, body) p (g_rrec g ! 0)],
         g_read_body := False, g_is_first_record := False\<rparr>))"
    "rl_ready s" "input_stream s = rest" "seg (rbytes s) p (length body) = body"
    using collect_plain [OF assms] by blast
  define h where "h = g\<lparr>g_rl := s, g_core := (g_core g)\<lparr>rwstate := w\<rparr>,
     g_rrec := (g_rrec g)[0 := frame_record (ty, v, body) p (g_rrec g ! 0)], g_read_body := False, g_is_first_record := False\<rparr>"
  have ne: "g_rrec g \<noteq> []" "0 < length (g_rrec g)" using g by (auto simp: conn_ready_def)
  have r: "g_rrec h ! 0 = frame_record (ty, v, body) p (g_rrec g ! 0)" "g_rrec h \<noteq> []" "g_enc_read_ctx h = None"
    "\<not> g_read_hash h" "frame_ok h = frame_ok g"
    using ne g
    by (auto simp: h_def conn_ready_def frame_ok_def tls_IS_TLS13_def tls_IS_DTLS_def fragment_length_cong fun_eq_iff
        USE_MAX_FRAGMENT_LENGTH_EXT_def GET_MAX_FRAGMENT_LENGTH_def)
  have n: "body \<noteq> []" "length body \<le> tls3_RT_MAX_PLAIN_LENGTH"
    "g_session h \<and> USE_MAX_FRAGMENT_LENGTH_EXT h \<longrightarrow> length body \<le> GET_MAX_FRAGMENT_LENGTH h"
    "ty \<noteq> 20" "early_data_state (g_core h) = tls_EARLY_DATA_READING \<longrightarrow> ty \<noteq> 23"
    using f unfolding r(5) [symmetric] by (simp_all add: frame_ok_def)
  have ty: "uint ty \<noteq> 20" "early_data_state (g_core h) = tls_EARLY_DATA_READING \<longrightarrow> uint ty \<noteq> 23"
    using n(4,5) word_uint_eq_iff [of ty 20] word_uint_eq_iff [of ty 23] by simp_all
  define k where "k = (on_rec 0 (roff_update (\<lambda>_. 0)) h)\<lparr>g_empty_record_count := 0\<rparr>"
  have chk: "check_records 0 1 h = Some (Continue k)"
    unfolding k_def using r n by (intro check_plain) (simp_all add: frame_record_def)
  have dec: "decrypt_phase e 1 h = Some (Continue h)"
    using e r(3) by (intro decrypt_phase_plain) (simp_all add: plain_env_def)
  have k: "g_rrec k ! 0 = (frame_record (ty, v, body) p (g_rrec g ! 0))\<lparr>roff := 0\<rparr>"
    "g_core k = g_core h" "g_rl k = s"
    using r ne by (simp_all add: k_def h_def)
  have "tls3_get_record e g = Some (1, k\<lparr>g_numrpipes := 1\<rparr>)"
    using s(1) r(1,4) ty dec chk k unfolding h_def [symmetric]
    by (auto simp: tls3_get_record_def process_records_def is_ignored_ccs_def etm_phase_def finish_get_def
        frame_record_def)
  moreover have "frame_ok (k\<lparr>g_numrpipes := 1\<rparr>) = frame_ok h"
    by (simp add: frame_ok_def fun_eq_iff k_def USE_MAX_FRAGMENT_LENGTH_EXT_def GET_MAX_FRAGMENT_LENGTH_def)
  moreover have "conn_ready (k\<lparr>g_numrpipes := 1\<rparr>)"
    using r s(2) by (simp add: conn_ready_def k_def h_def on_rec_def)
  moreover have "unat (of_nat (length body) :: u64) = length body"
    using n(2) by (simp only: unsigned_of_nat) (simp add: take_bit_nat_eq_self tls3_RT_MAX_PLAIN_LENGTH_def)
  then have "delivered (k\<lparr>g_numrpipes := 1\<rparr>) = (uint ty, 0x0300 + uint v, body)"
    using k s(4) by (simp add: delivered_def frame_record_def)
  ultimately show ?thesis
    using r(5) s(3) k(3) by simp
qed

section \<open>A stream of records\<close>

text \<open>\<open>n\<close> calls of \<open>tls3_get_record\<close>, as long as they succeed, with what they deliver.\<close>

fun get_records :: "(mem_bio, 'c) get_env \<Rightarrow> nat \<Rightarrow> (mem_bio, 'c) gconn
    \<Rightarrow> ((int \<times> int \<times> bytes) list \<times> (mem_bio, 'c) gconn) option" where
  "get_records e 0 g = Some ([], g)"
| "get_records e (Suc n) g = do {
     (r, g) \<leftarrow> tls3_get_record e g;
     if r \<le> 0 then None
     else do { (ds, g') \<leftarrow> get_records e n g; Some (delivered g # ds, g') }
   }"

lemma get_records_stream:
  assumes "plain_env e"
  shows "conn_ready g \<Longrightarrow> list_all (frame_ok g) fs \<Longrightarrow> input_stream (g_rl g) = concat (map wire fs) @ rest \<Longrightarrow>
    \<exists>g'. get_records e (length fs) g = Some (map (\<lambda>(ty, v, body). (uint ty, 0x0300 + uint v, body)) fs, g') \<and>
      conn_ready g' \<and> input_stream (g_rl g') = rest"
proof (induction fs arbitrary: g)
  case (Cons f fs)
  obtain ty v body where f: "f = (ty, v, body)" by (cases f)
  obtain h where h: "tls3_get_record e g = Some (1, h)" "conn_ready h" "frame_ok h = frame_ok g"
    "delivered h = (uint ty, 0x0300 + uint v, body)" "input_stream (g_rl h) = concat (map wire fs) @ rest"
    using one_record [OF assms Cons.prems(1), of ty v body "concat (map wire fs) @ rest"] Cons.prems f by auto
  then obtain g' where "get_records e (length fs) h = Some (map (\<lambda>(ty, v, body). (uint ty, 0x0300 + uint v, body)) fs, g')"
    "conn_ready g'" "input_stream (g_rl g') = rest"
    using Cons.IH [of h] Cons.prems(2) by auto
  then show ?case
    using h f by simp
qed simp

text \<open>
  C11: records in, records out. On a connection without a cipher, when the input (the rest of the read
  buffer and the BIO together) is a sequence of records on the wire, each of which passes the header
  checks, followed by anything, then successive calls of \<open>tls3_get_record\<close> return 1 and deliver
  exactly these records, in order, with their types, versions and bytes, and leave the rest of the
  input unread. This holds whatever part of the input is already in the buffer, with and without
  read-ahead, and across the moves of data inside the buffer.
\<close>

theorem record_stream_delivered:
  assumes "plain_env e" and "conn_ready g" and "list_all (frame_ok g) fs"
    and "input_stream (g_rl g) = concat (map wire fs) @ rest"
  shows "\<exists>g'. get_records e (length fs) g = Some (map (\<lambda>(ty, v, body). (uint ty, 0x0300 + uint v, body)) fs, g') \<and>
    conn_ready g' \<and> input_stream (g_rl g') = rest"
  using get_records_stream [OF assms] .

text \<open>Two records, the first of them split between the read buffer and the BIO.\<close>

definition sample_stream_conn :: "(mem_bio, nat) gconn" where
  "sample_stream_conn = sample_conn\<lparr>g_read_body := False, g_rl := sample_rlayer
     \<lparr>rl_rbuf := \<lparr>rb_buf = Some ([0, 0, 0, 22, 3, 3] @ replicate 16500 0), rb_addr = 64, rb_default_len = 0,
        rb_len = 16506, rb_offset = 3, rb_left = 3\<rparr>,
      rl_rbio := Some ((empty_bio \<lparr>b_length = 11, b_data = Some [0, 2, 8, 9, 21, 3, 3, 0, 1, 5, 23], b_max = 11, b_flags = 0\<rparr>)
        \<lparr>rp_length := 11, rp_max := 11, bm_init := True\<rparr>)\<rparr>\<rparr>"

theorem record_stream_delivered_witness:
  "\<exists>g'. get_records sample_get_env 2 sample_stream_conn = Some ([(22, 0x0303, [8, 9]), (21, 0x0303, [5])], g') \<and>
    input_stream (g_rl g') = [23]"
proof -
  let ?fs = "[(22, 3, [8, 9]), (21, 3, [5])] :: frame list"
  have "plain_env sample_get_env"
    by (simp add: plain_env_def sample_get_env_def malloc_ok_def)
  moreover have "conn_ready sample_stream_conn"
    by (simp add: conn_ready_def rl_ready_def sample_stream_conn_def sample_conn_def sample_rlayer_def rbuf_ok_def
        input_ok_def mem_bio_ok_def empty_bio_def buf_ok_def payload_align_def rt_consts INT_MAX_def)
  moreover have "list_all (frame_ok sample_stream_conn) ?fs"
    by (simp add: frame_ok_def sample_stream_conn_def sample_conn_def sample_defs rt_consts)
  moreover have "input_stream (g_rl sample_stream_conn) = concat (map wire ?fs) @ [23]"
    by (simp add: input_stream_def sample_stream_conn_def sample_rlayer_def empty_bio_def unread_def rbytes_def
        seg_def input_avail_def pending_def cur_off_def cur_length_def Bio_Mem.block_def wire_def)
  ultimately obtain g' where "get_records sample_get_env (length ?fs) sample_stream_conn =
      Some (map (\<lambda>(ty, v, body). (uint ty, 0x0300 + uint v, body)) ?fs, g')" "input_stream (g_rl g') = [23]"
    using record_stream_delivered [of sample_get_env sample_stream_conn ?fs "[23]"] by blast
  moreover have "Suc (Suc 0) = 2" by simp
  ultimately show ?thesis
    by (simp del: get_records.simps One_nat_def)
qed

end
