(* ===== verification/Record_Write.thy ===== *)
theory Record_Write
  imports Record_Frame
begin

text \<open>
  Writing in the record layer: the write buffers (\<open>ssl/record/ssl3_buffer.c\<close>), \<open>tls3_write_pending\<close>,
  \<open>do_tls3_write\<close> and \<open>tls3_write_bytes\<close> (\<open>ssl/record/rec_layer_s3.c\<close>). \<open>tls3_write_bytes\<close> cuts the data
  into fragments, \<open>do_tls3_write\<close> builds the records of one or several pipelines with the packet writer
  (WPacket) inside the write buffers, adds the inner content type and padding of TLS 1.3 and the MAC,
  has them encrypted, and \<open>tls3_write_pending\<close> hands them to the BIO; a write that did not go through
  is taken up again by the next call.

  Encryption, MAC, the handshake and the dispatch of alerts are calls through the method table and
  parameters here, as are allocation, the BIO and the properties of the cipher. The model is of a build
  without multi-block and kernel TLS, of a connection without compression, and leaves out the message
  callback. A user's buffer is its address and its bytes. What a failed call leaves in the write
  buffers is not recorded, since it is overwritten before it is read.
\<close>

section \<open>State\<close>

record ('b, 'c, 'w) wconn =
  w_g :: "('b, 'c) gconn"
  w_wbuf :: "tls3_BUFFER list"
  w_numwpipes :: nat
  w_wnum :: nat
  w_wpend_tot :: nat
  w_wpend_type :: int
  w_wpend_ret :: nat
  w_wpend_buf :: nat
  w_wbio :: "'w option"
  w_mode :: u32
  w_allow_compression :: bool
  w_max_send_fragment :: nat
  w_split_send_fragment :: nat
  w_write_md_size :: "int option"
  w_empty_fragment_done :: bool
  w_need_empty_fragments :: bool
  w_alert_dispatch :: bool
  w_block_padding :: nat

datatype cipher_mode = CBC_MODE | GCM_MODE | CCM_MODE | OTHER_MODE

record ('b, 'c, 'w) put_env =
  p_heap :: heap
  p_malloc :: "nat \<Rightarrow> (nat \<times> bytes) option"
  p_bio_write :: "'w \<Rightarrow> bytes \<Rightarrow> (int \<times> 'w) option"
  p_pipeline :: "'c \<Rightarrow> bool"
  p_cipher_mode :: "'c \<Rightarrow> cipher_mode"
  p_iv_length :: "'c \<Rightarrow> int"
  p_enc :: "tls3_RECORD list \<Rightarrow> bytes list \<Rightarrow> ('b, 'c, 'w) wconn
    \<Rightarrow> int \<times> tls3_RECORD list \<times> bytes list \<times> ('b, 'c, 'w) wconn"
  p_tls13_enc :: "tls3_RECORD list \<Rightarrow> bytes list \<Rightarrow> ('b, 'c, 'w) wconn
    \<Rightarrow> int \<times> tls3_RECORD list \<times> bytes list \<times> ('b, 'c, 'w) wconn"
  p_mac :: "tls3_RECORD \<Rightarrow> bytes \<Rightarrow> ('b, 'c, 'w) wconn \<Rightarrow> int \<times> bytes \<times> ('b, 'c, 'w) wconn"
  p_dispatch_alert :: "('b, 'c, 'w) wconn \<Rightarrow> int \<times> ('b, 'c, 'w) wconn"
  p_handshake_func :: "('b, 'c, 'w) wconn \<Rightarrow> int \<times> ('b, 'c, 'w) wconn"
  p_padding_cb :: "(int \<Rightarrow> nat \<Rightarrow> nat) option"

abbreviation (input) tls_R_BAD_WRITE_RETRY :: int where "tls_R_BAD_WRITE_RETRY \<equiv> 127"
abbreviation (input) tls_R_BIO_NOT_SET :: int where "tls_R_BIO_NOT_SET \<equiv> 128"
abbreviation (input) TLS1_VERSION :: int where "TLS1_VERSION \<equiv> 0x0301"
abbreviation (input) tls_MODE_ENABLE_PARTIAL_WRITE :: u32 where "tls_MODE_ENABLE_PARTIAL_WRITE \<equiv> 1"
abbreviation (input) tls_MODE_ACCEPT_MOVING_WRITE_BUFFER :: u32 where
  "tls_MODE_ACCEPT_MOVING_WRITE_BUFFER \<equiv> 2"
abbreviation (input) tls_MODE_RELEASE_BUFFERS :: u32 where "tls_MODE_RELEASE_BUFFERS \<equiv> 0x10"
abbreviation (input) tls_OP_DONT_INSERT_EMPTY_FRAGMENTS :: u32 where
  "tls_OP_DONT_INSERT_EMPTY_FRAGMENTS \<equiv> 0x800"

definition tls_MAX_PIPELINES :: nat where "tls_MAX_PIPELINES = 32"
definition tls_RT_MAX_CIPHER_BLOCK_SIZE :: nat where "tls_RT_MAX_CIPHER_BLOCK_SIZE = 16"
definition tls3_RT_SEND_MAX_ENCRYPTED_OVERHEAD :: nat where
  "tls3_RT_SEND_MAX_ENCRYPTED_OVERHEAD = tls_RT_MAX_CIPHER_BLOCK_SIZE + tls3_RT_MAX_MD_SIZE"

abbreviation w_core :: "('b, 'c, 'w) wconn \<Rightarrow> tls" where
  "w_core s \<equiv> g_core (w_g s)"

definition on_wcore :: "(tls \<Rightarrow> tls) \<Rightarrow> ('b, 'c, 'w) wconn \<Rightarrow> ('b, 'c, 'w) wconn" where
  "on_wcore f s = s\<lparr>w_g := on_gcore f (w_g s)\<rparr>"

definition w_fatal :: "int \<Rightarrow> int \<Rightarrow> ('b, 'c, 'w) wconn \<Rightarrow> ('b, 'c, 'w) wconn" where
  "w_fatal al reason = on_wcore (otls_statem_fatal al reason)"

definition on_wbuf :: "nat \<Rightarrow> (tls3_BUFFER \<Rightarrow> tls3_BUFFER) \<Rightarrow> ('b, 'c, 'w) wconn \<Rightarrow> ('b, 'c, 'w) wconn" where
  "on_wbuf j f s = s\<lparr>w_wbuf := (w_wbuf s)[j := f (w_wbuf s ! j)]\<rparr>"

definition mode_set :: "u32 \<Rightarrow> ('b, 'c, 'w) wconn \<Rightarrow> bool" where
  "mode_set m s \<longleftrightarrow> w_mode s AND m \<noteq> 0"

definition tls_WRITE_ETM :: "('b, 'c, 'w) wconn \<Rightarrow> bool" where
  "tls_WRITE_ETM s \<longleftrightarrow> s3_flags (w_core s) AND TLS1_FLAGS_ENCRYPT_THEN_MAC_WRITE \<noteq> 0"

definition tls_TREAT_AS_TLS13 :: "tls \<Rightarrow> bool" where
  "tls_TREAT_AS_TLS13 s \<longleftrightarrow> tls_IS_TLS13 s \<or> early_data_state s = tls_EARLY_DATA_CONNECTING
     \<or> early_data_state s = tls_EARLY_DATA_CONNECT_RETRY \<or> early_data_state s = tls_EARLY_DATA_WRITING
     \<or> early_data_state s = tls_EARLY_DATA_WRITE_RETRY \<or> hello_retry_request s = tls_HRR_PENDING"

definition TLS1_get_version :: "tls \<Rightarrow> int" where
  "TLS1_get_version s = (if version s div 0x100 = 3 then version s else 0)"

definition tls_get_max_send_fragment :: "('b, 'c, 'w) wconn \<Rightarrow> nat" where
  "tls_get_max_send_fragment s =
     (if g_session (w_g s) \<and> USE_MAX_FRAGMENT_LENGTH_EXT (w_g s) then GET_MAX_FRAGMENT_LENGTH (w_g s)
      else w_max_send_fragment s)"

definition tls_get_split_send_fragment :: "('b, 'c, 'w) wconn \<Rightarrow> nat" where
  "tls_get_split_send_fragment s =
     (if g_session (w_g s) \<and> USE_MAX_FRAGMENT_LENGTH_EXT (w_g s)
         \<and> w_split_send_fragment s > GET_MAX_FRAGMENT_LENGTH (w_g s) then GET_MAX_FRAGMENT_LENGTH (w_g s)
      else if w_split_send_fragment s > w_max_send_fragment s then w_max_send_fragment s
      else w_split_send_fragment s)"

section \<open>Write buffers\<close>

definition RECORD_LAYER_write_pending :: "('b, 'c, 'w) wconn \<Rightarrow> bool" where
  "RECORD_LAYER_write_pending s \<longleftrightarrow>
     w_numwpipes s > 0 \<and> rb_left (w_wbuf s ! (w_numwpipes s - 1)) \<noteq> 0"

text \<open>The length of a write buffer when the caller gives none.\<close>

definition write_buffer_len :: "('b, 'c, 'w) wconn \<Rightarrow> nat" where
  "write_buffer_len s =
     (let headerlen = (if tls_IS_DTLS (w_core s) then DTLS1_RT_HEADER_LENGTH + 1 else tls3_RT_HEADER_LENGTH);
          len = tls_get_max_send_fragment s + tls3_RT_SEND_MAX_ENCRYPTED_OVERHEAD + headerlen + setup_align;
          len = (if w_allow_compression s then len + tls3_RT_MAX_COMPRESSED_OVERHEAD else len)
      in if options (w_core s) AND tls_OP_DONT_INSERT_EMPTY_FRAGMENTS = 0
         then len + headerlen + setup_align + tls3_RT_SEND_MAX_ENCRYPTED_OVERHEAD else len)"

text \<open>The loop over the pipelines, from \<open>i\<close> on, \<open>k\<close> of them left.\<close>

fun setup_pipes :: "('b, 'c, 'w) put_env \<Rightarrow> nat \<Rightarrow> nat \<Rightarrow> nat \<Rightarrow> ('b, 'c, 'w) wconn
    \<Rightarrow> (bool \<times> ('b, 'c, 'w) wconn) option" where
  "setup_pipes e len i 0 s = Some (True, s)"
| "setup_pipes e len i (Suc k) s =
     (if i < length (w_wbuf s) then
        let s = (if rb_len (w_wbuf s ! i) \<noteq> len then on_wbuf i (rb_buf_update (\<lambda>_. None)) s else s) in
        case rb_buf (w_wbuf s ! i) of
          Some _ \<Rightarrow> setup_pipes e len (i + 1) k s
        | None \<Rightarrow>
            (case p_malloc e len of
               None \<Rightarrow> Some (False, w_fatal tls_AD_NO_ALERT ERR_R_MALLOC_FAILURE (s\<lparr>w_numwpipes := i\<rparr>))
             | Some (addr, m) \<Rightarrow>
                 setup_pipes e len (i + 1) k (on_wbuf i (\<lambda>_. \<lparr>rb_buf = Some m, rb_addr = addr, rb_default_len = 0,
                   rb_len = len, rb_offset = 0, rb_left = 0\<rparr>) s))
      else None)"

definition tls3_setup_write_buffer :: "('b, 'c, 'w) put_env \<Rightarrow> nat \<Rightarrow> nat \<Rightarrow> ('b, 'c, 'w) wconn
    \<Rightarrow> (bool \<times> ('b, 'c, 'w) wconn) option" where
  "tls3_setup_write_buffer e numwpipes len s =
     (let s = s\<lparr>w_numwpipes := numwpipes\<rparr>;
          len = (if len = 0 then write_buffer_len s else len)
      in setup_pipes e len 0 numwpipes s)"

definition tls3_release_write_buffer :: "('b, 'c, 'w) wconn \<Rightarrow> ('b, 'c, 'w) wconn" where
  "tls3_release_write_buffer s =
     s\<lparr>w_wbuf := map (rb_buf_update (\<lambda>_. None)) (take (w_numwpipes s) (w_wbuf s)) @ drop (w_numwpipes s) (w_wbuf s),
       w_numwpipes := 0\<rparr>"

section \<open>tls3_write_pending\<close>

text \<open>Each step of the loop below passes a buffer or leaves less in one.\<close>

lemma on_wbuf_less:
  assumes "w_wbuf t = w_wbuf s" and "i < length (w_wbuf s)" and "0 < n" and "n \<le> rb_left (w_wbuf s ! i)"
  shows "sum_list (map rb_left (w_wbuf (on_wbuf i (\<lambda>wb. wb\<lparr>rb_left := rb_left wb - n, rb_offset := f wb\<rparr>) t)))
    < sum_list (map rb_left (w_wbuf s))"
proof -
  let ?l = "map rb_left (w_wbuf s)"
  have "?l ! i \<le> sum_list ?l"
    using assms(2) by (intro member_le_sum_list) simp_all
  then show ?thesis
    using assms by (simp add: on_wbuf_def map_update sum_list_update)
qed

lemma length_on_wbuf [simp]: "length (w_wbuf (on_wbuf i f s)) = length (w_wbuf s)"
  by (simp add: on_wbuf_def)

text \<open>
  The loop. A pipeline beyond the array of buffers would be an access out of bounds, and so would the
  rest of a buffer of which the BIO claims to have written more than there is.
\<close>

function write_pending_loop :: "('b, 'c, 'w) put_env \<Rightarrow> nat \<Rightarrow> ('b, 'c, 'w) wconn
    \<Rightarrow> (int \<times> nat option \<times> ('b, 'c, 'w) wconn) option" where
  "write_pending_loop e i s =
     (if i < length (w_wbuf s) then
        let wb = w_wbuf s ! i in
        if rb_left wb = 0 \<and> i < usub (w_numwpipes s) 1 then write_pending_loop e (i + 1) s
        else (case w_wbio s of
          None \<Rightarrow>
            let s = w_fatal tls_AD_INTERNAL_ERROR tls_R_BIO_NOT_SET s
            in Some (- 1, None, if tls_IS_DTLS (w_core s) then on_wbuf i (rb_left_update (\<lambda>_. 0)) s else s)
        | Some b \<Rightarrow>
            (case rb_buf wb of
               None \<Rightarrow> None
             | Some m \<Rightarrow>
                 (case mem_read m (rb_offset wb) (rb_left wb) of
                    None \<Rightarrow> None
                  | Some bs \<Rightarrow>
                      (case p_bio_write e b bs of
                         None \<Rightarrow> None
                       | Some (ret, b) \<Rightarrow>
                           let s = (on_wcore (rwstate_update (\<lambda>_. tls_WRITING)) s)\<lparr>w_wbio := Some b\<rparr>;
                               n = nat ret
                           in if ret \<le> 0 then
                                Some (ret, None,
                                  if tls_IS_DTLS (w_core s) then on_wbuf i (rb_left_update (\<lambda>_. 0)) s else s)
                              else if n > rb_left wb then None
                              else
                                let s' = on_wbuf i (\<lambda>wb. wb\<lparr>rb_left := rb_left wb - n, rb_offset := rb_offset wb + n\<rparr>) s
                                in if n = rb_left wb \<and> \<not> i + 1 < w_numwpipes s then
                                     Some (1, Some (w_wpend_ret s), on_wcore (rwstate_update (\<lambda>_. tls_NOTHING)) s')
                                   else write_pending_loop e i s'))))
      else None)"
  by pat_completeness auto

termination
  by (relation "measure (\<lambda>(e, i, s). sum_list (map rb_left (w_wbuf s)) + (length (w_wbuf s) - i))")
    (auto simp: on_wcore_def intro!: diff_less_mono on_wbuf_less)

declare write_pending_loop.simps [simp del]

definition tls3_write_pending :: "('b, 'c, 'w) put_env \<Rightarrow> int \<Rightarrow> nat \<Rightarrow> nat \<Rightarrow> ('b, 'c, 'w) wconn
    \<Rightarrow> (int \<times> nat option \<times> ('b, 'c, 'w) wconn) option" where
  "tls3_write_pending e ty buf len s =
     (if w_wpend_tot s > len
         \<or> (\<not> mode_set tls_MODE_ACCEPT_MOVING_WRITE_BUFFER s \<and> w_wpend_buf s \<noteq> buf)
         \<or> w_wpend_type s \<noteq> ty
      then Some (- 1, None, w_fatal tls_AD_INTERNAL_ERROR tls_R_BAD_WRITE_RETRY s)
      else write_pending_loop e 0 s)"

section \<open>do_tls3_write\<close>

text \<open>A chain of packet operations joined by \<open>||\<close>: it stops at the first that fails.\<close>

fun pk_seq :: "(WPACKET \<Rightarrow> (bool \<times> WPACKET) option) list \<Rightarrow> WPACKET \<Rightarrow> (bool \<times> WPACKET) option" where
  "pk_seq [] p = Some (True, p)"
| "pk_seq (f # fs) p = do { (ok, p) \<leftarrow> f p; if ok then pk_seq fs p else Some (False, p) }"

definition pk_allocate :: "heap \<Rightarrow> nat \<Rightarrow> WPACKET \<Rightarrow> (bool \<times> WPACKET) option" where
  "pk_allocate h n p = map_option (\<lambda>(ok, d, p). (ok, p)) (WPACKET_allocate_bytes h p n)"

definition pk_reserve :: "heap \<Rightarrow> nat \<Rightarrow> WPACKET \<Rightarrow> (bool \<times> WPACKET) option" where
  "pk_reserve h n p = map_option (\<lambda>(ok, d, p). (ok, p)) (WPACKET_reserve_bytes h p n)"

definition pk_when :: "bool \<Rightarrow> (WPACKET \<Rightarrow> (bool \<times> WPACKET) option) \<Rightarrow> WPACKET \<Rightarrow> (bool \<times> WPACKET) option" where
  "pk_when c f p = (if c then f p else Some (True, p))"

abbreviation empty_packet :: WPACKET where
  "empty_packet \<equiv> \<lparr>wbuf = None, staticbuf = None, curr = 0, written = 0, maxsize = 0, subs = []\<rparr>"

text \<open>The packet over write buffer \<open>j\<close>, with the first \<open>skip\<close> bytes passed over.\<close>

definition init_pkt :: "('b, 'c, 'w) put_env \<Rightarrow> nat \<Rightarrow> nat \<Rightarrow> ('b, 'c, 'w) wconn \<Rightarrow> (bool \<times> WPACKET) option" where
  "init_pkt e j skip s =
     (let wb = w_wbuf s ! j in
      pk_seq [\<lambda>p. WPACKET_init_static_len (p_heap e) p (rb_buf wb) (rb_len wb) 0, pk_allocate (p_heap e) skip]
        empty_packet)"

definition write_align :: "nat \<Rightarrow> nat \<Rightarrow> nat" where
  "write_align addr headers =
     tls3_ALIGN_PAYLOAD - 1 - ((addr + headers * tls3_RT_HEADER_LENGTH - 1) mod tls3_ALIGN_PAYLOAD)"

fun init_pkts :: "('b, 'c, 'w) put_env \<Rightarrow> nat \<Rightarrow> nat \<Rightarrow> ('b, 'c, 'w) wconn
    \<Rightarrow> (bool \<times> WPACKET list \<times> ('b, 'c, 'w) wconn) option" where
  "init_pkts e j 0 s = Some (True, [], s)"
| "init_pkts e j (Suc k) s =
     (if j < length (w_wbuf s) then
        let align = write_align (rb_addr (w_wbuf s ! j)) 1;
            s = on_wbuf j (rb_offset_update (\<lambda>_. align)) s
        in do {
          (ok, p) \<leftarrow> init_pkt e j align s;
          if \<not> ok then Some (False, [], s)
          else do { (ok, ps, s) \<leftarrow> init_pkts e (j + 1) k s; Some (ok, p # ps, s) }
        }
      else None)"

definition init_packets :: "('b, 'c, 'w) put_env \<Rightarrow> bool \<Rightarrow> nat \<Rightarrow> nat \<Rightarrow> ('b, 'c, 'w) wconn
    \<Rightarrow> (bool \<times> WPACKET list \<times> ('b, 'c, 'w) wconn) option" where
  "init_packets e empty_frag prefix_len numpipes s =
     (if empty_frag then
        let align = write_align (rb_addr (w_wbuf s ! 0)) 2;
            s = on_wbuf 0 (rb_offset_update (\<lambda>_. align)) s
        in do { (ok, p) \<leftarrow> init_pkt e 0 align s; Some (ok, [p], s) }
      else if prefix_len \<noteq> 0 then do {
        (ok, p) \<leftarrow> init_pkt e 0 (rb_offset (w_wbuf s ! 0) + prefix_len) s;
        Some (ok, [p], s)
      }
      else init_pkts e 0 numpipes s)"

definition explicit_iv_len :: "('b, 'c, 'w) put_env \<Rightarrow> ('b, 'c, 'w) wconn \<Rightarrow> nat" where
  "explicit_iv_len e s =
     (case g_enc_write_ctx (w_g s) of
        None \<Rightarrow> 0
      | Some c \<Rightarrow>
          if g_use_explicit_iv (w_g s) \<and> \<not> tls_TREAT_AS_TLS13 (w_core s) then
            (case p_cipher_mode e c of
               CBC_MODE \<Rightarrow> if p_iv_length e c \<le> 1 then 0 else nat (p_iv_length e c)
             | GCM_MODE \<Rightarrow> 8
             | CCM_MODE \<Rightarrow> 8
             | OTHER_MODE \<Rightarrow> 0)
          else 0)"

text \<open>The outer type and version of a record.\<close>

definition hides_type :: "int \<Rightarrow> ('b, 'c, 'w) wconn \<Rightarrow> bool" where
  "hides_type ty s \<longleftrightarrow> tls_TREAT_AS_TLS13 (w_core s) \<and> g_enc_write_ctx (w_g s) \<noteq> None
     \<and> (enc_write_state (statem (w_core s)) \<noteq> ENC_WRITE_STATE_WRITE_PLAIN_ALERTS \<or> ty \<noteq> RT_ALERT)"

definition record_version :: "('b, 'c, 'w) wconn \<Rightarrow> int" where
  "record_version s =
     (let core = w_core s in
      if hs core = TLS_ST_CW_CLNT_HELLO \<and> \<not> renegotiate core \<and> TLS1_get_version core > TLS1_VERSION
         \<and> hello_retry_request core = tls_HRR_NONE then TLS1_VERSION
      else if version core = TLS1_3_VERSION then TLS1_2_VERSION else version core)"

definition put_header :: "('b, 'c, 'w) put_env \<Rightarrow> int \<Rightarrow> int \<Rightarrow> nat \<Rightarrow> nat \<Rightarrow> WPACKET \<Rightarrow> (bool \<times> WPACKET) option" where
  "put_header e rectype ver eivlen maxcomplen =
     (let h = p_heap e in
      pk_seq [\<lambda>p. WPACKET_put_bytes h p (of_int rectype) 1, \<lambda>p. WPACKET_put_bytes h p (of_int ver) 2,
        \<lambda>p. WPACKET_start_sub_packet_len h p 2, pk_when (eivlen > 0) (pk_allocate h eivlen),
        pk_when (maxcomplen > 0) (pk_reserve h maxcomplen)])"

text \<open>The padding of TLS 1.3, \<open>rlen\<close> being the length with the type byte.\<close>

definition padding_len :: "('b, 'c, 'w) put_env \<Rightarrow> int \<Rightarrow> nat \<Rightarrow> ('b, 'c, 'w) wconn \<Rightarrow> nat" where
  "padding_len e ty rlen s =
     (let max_send_fragment = tls_get_max_send_fragment s in
      if rlen < max_send_fragment then
        let max_padding = max_send_fragment - rlen;
            padding = (case p_padding_cb e of
                Some cb \<Rightarrow> cb ty rlen
              | None \<Rightarrow>
                  if w_block_padding s > 0 then
                    let msk = w_block_padding s - 1;
                        remainder = (if w_block_padding s AND msk = 0 then rlen AND msk
                                     else rlen mod w_block_padding s)
                    in if remainder = 0 then 0 else w_block_padding s - remainder
                  else 0)
        in min padding max_padding
      else 0)"

definition put_inner_type :: "('b, 'c, 'w) put_env \<Rightarrow> int \<Rightarrow> nat \<Rightarrow> ('b, 'c, 'w) wconn \<Rightarrow> WPACKET
    \<Rightarrow> (bool \<times> WPACKET) option" where
  "put_inner_type e ty n s =
     pk_when (hides_type ty s) (pk_seq [\<lambda>p. WPACKET_put_bytes (p_heap e) p (of_int ty) 1,
       \<lambda>p. WPACKET_memset (p_heap e) p 0 (padding_len e ty (n + 1) s)])"

text \<open>Computing the MAC of a record and appending it.\<close>

definition put_mac :: "('b, 'c, 'w) put_env \<Rightarrow> nat \<Rightarrow> tls3_RECORD \<Rightarrow> WPACKET \<Rightarrow> ('b, 'c, 'w) wconn
    \<Rightarrow> (bool \<times> WPACKET \<times> ('b, 'c, 'w) wconn) option" where
  "put_mac e mac_size r p s = do {
     (ok, d, p) \<leftarrow> WPACKET_allocate_bytes (p_heap e) p mac_size;
     if \<not> ok then Some (False, p, s)
     else
       let (i, md, s) = p_mac e r (WPacket.block p) s
       in map_option (\<lambda>p. (i \<noteq> 0, p, s)) (store p d (take mac_size md))
   }"

text \<open>One pass of the loop that builds the records: the record of the first \<open>n\<close> bytes of \<open>data\<close>.\<close>

definition build_record :: "('b, 'c, 'w) put_env \<Rightarrow> int \<Rightarrow> nat \<Rightarrow> nat \<Rightarrow> bytes \<Rightarrow> nat \<Rightarrow> WPACKET \<Rightarrow> ('b, 'c, 'w) wconn
    \<Rightarrow> (bool \<times> tls3_RECORD \<times> WPACKET \<times> ('b, 'c, 'w) wconn) option" where
  "build_record e ty mac_size eivlen data n p s =
     (let h = p_heap e; rectype = (if hides_type ty s then RT_APPDATA else ty);
          r = \<lparr>rec_version = record_version s, rtype = rectype, rlength = of_nat n, orig_len = 0, roff = 0,
               rdata = 0, rinput = 0, rcomp = None, rread = False, repoch = 0, rseq_num = replicate 8 0\<rparr>;
          fatal = w_fatal tls_AD_INTERNAL_ERROR ERR_R_INTERNAL_ERROR
      in do {
        (ok, p) \<leftarrow> put_header e rectype (record_version s) eivlen n p;
        if \<not> ok then Some (False, r, p, fatal s) else do {
        let r = (if n > 0 then r\<lparr>rdata := curr p, rinput := curr p\<rparr> else r);
        (ok, p) \<leftarrow> WPACKET_memcpy h p data n;
        if \<not> ok then Some (False, r, p, fatal s) else do {
        (ok, p) \<leftarrow> put_inner_type e ty n s p;
        if \<not> ok then Some (False, r, p, fatal s) else do {
        let r = (if hides_type ty s then r\<lparr>rlength := of_nat (n + 1 + padding_len e ty (n + 1) s)\<rparr> else r);
        (ok, p, s) \<leftarrow> (if \<not> tls_WRITE_ETM s \<and> mac_size \<noteq> 0 then put_mac e mac_size r p s else Some (True, p, s));
        if \<not> ok then Some (False, r, p, fatal s) else do {
        (ok, p) \<leftarrow> pk_reserve h tls_RT_MAX_CIPHER_BLOCK_SIZE p;
        (case (ok, WPACKET_get_length p) of
           (True, Some len) \<Rightarrow>
             Some (True, r\<lparr>rdata := usub (curr p) len, rinput := usub (curr p) len, rlength := of_nat len\<rparr>, p, s)
         | _ \<Rightarrow> Some (False, r, p, fatal s))
        }}}}
      })"

fun build_records :: "('b, 'c, 'w) put_env \<Rightarrow> int \<Rightarrow> nat \<Rightarrow> nat \<Rightarrow> bytes \<Rightarrow> nat list \<Rightarrow> WPACKET list \<Rightarrow> ('b, 'c, 'w) wconn
    \<Rightarrow> (bool \<times> tls3_RECORD list \<times> WPACKET list \<times> ('b, 'c, 'w) wconn) option" where
  "build_records e ty mac_size eivlen data [] ps s = Some (True, [], ps, s)"
| "build_records e ty mac_size eivlen data (n # ns) [] s = None"
| "build_records e ty mac_size eivlen data (n # ns) (p # ps) s = do {
     (ok, r, p, s) \<leftarrow> build_record e ty mac_size eivlen data n p s;
     if \<not> ok then Some (False, [], p # ps, s)
     else do {
       (ok, rs, ps, s) \<leftarrow> build_records e ty mac_size eivlen (drop n data) ns ps s;
       Some (ok, r # rs, p # ps, s)
     }
   }"

text \<open>
  Encryption, in place. While the version is not yet negotiated but early data is sent, it is
  \<open>tls13_enc\<close>.
\<close>

definition encrypt_records :: "('b, 'c, 'w) put_env \<Rightarrow> tls3_RECORD list \<Rightarrow> WPACKET list \<Rightarrow> ('b, 'c, 'w) wconn
    \<Rightarrow> bool \<times> tls3_RECORD list \<times> WPACKET list \<times> ('b, 'c, 'w) wconn" where
  "encrypt_records e rs ps s =
     (let enc = (if enc_write_state (statem (w_core s)) = ENC_WRITE_STATE_WRITE_PLAIN_ALERTS
                 then p_tls13_enc e else p_enc e);
          (i, rs, ms, s) = enc rs (map WPacket.block ps) s;
          ps = map2 (\<lambda>p m. set_GETBUF p m) ps ms
      in if i < 1 then
           (False, rs, ps, if otls_statem_in_error (w_core s) then s
                           else w_fatal tls_AD_INTERNAL_ERROR ERR_R_INTERNAL_ERROR s)
         else (True, rs, ps, s))"

text \<open>One pass of the loop that completes the records: room for the overhead of encryption and the MAC.\<close>

definition finish_record :: "('b, 'c, 'w) put_env \<Rightarrow> nat \<Rightarrow> tls3_RECORD \<Rightarrow> WPACKET \<Rightarrow> ('b, 'c, 'w) wconn
    \<Rightarrow> (bool \<times> tls3_RECORD \<times> WPACKET \<times> ('b, 'c, 'w) wconn) option" where
  "finish_record e mac_size r p s =
     (let h = p_heap e; fatal = w_fatal tls_AD_INTERNAL_ERROR ERR_R_INTERNAL_ERROR in
      case WPACKET_get_length p of
        None \<Rightarrow> Some (False, r, p, fatal s)
      | Some origlen \<Rightarrow>
          if origlen > unat (rlength r) then Some (False, r, p, fatal s)
          else do {
            (ok, p) \<leftarrow> pk_when (unat (rlength r) > origlen) (pk_allocate h (unat (rlength r) - origlen)) p;
            if \<not> ok then Some (False, r, p, fatal s) else do {
            (ok, p, s) \<leftarrow> (if tls_WRITE_ETM s \<and> mac_size \<noteq> 0 then put_mac e mac_size r p s else Some (True, p, s));
            if \<not> ok then Some (False, r, p, fatal s) else do {
            let r = (if tls_WRITE_ETM s \<and> mac_size \<noteq> 0 then r\<lparr>rlength := rlength r + of_nat mac_size\<rparr> else r);
            (ok, p) \<leftarrow> (if WPACKET_get_length p = None then Some (False, p) else pk_seq [WPACKET_close, WPACKET_finish] p);
            if \<not> ok then Some (False, r, p, fatal s)
            else Some (True, r\<lparr>rlength := rlength r + of_nat tls3_RT_HEADER_LENGTH\<rparr>, p, s)
            }}
          })"

text \<open>
  The loop itself; the bytes built in the packet are those of the write buffer. An empty fragment is
  not written but its length returned.
\<close>

fun finish_records :: "('b, 'c, 'w) put_env \<Rightarrow> nat \<Rightarrow> bool \<Rightarrow> nat \<Rightarrow> nat \<Rightarrow> tls3_RECORD list \<Rightarrow> WPACKET list
    \<Rightarrow> ('b, 'c, 'w) wconn \<Rightarrow> (((int \<times> nat option) option) \<times> ('b, 'c, 'w) wconn) option" where
  "finish_records e mac_size empty_frag prefix_len j (r # rs) (p # ps) s = do {
     (ok, r, p, s) \<leftarrow> finish_record e mac_size r p s;
     if \<not> ok then Some (Some (- 1, None), s)
     else
       let s = on_wbuf j (rb_buf_update (\<lambda>_. Some (WPacket.block p))) s in
       if empty_frag then
         (if j > 0 then Some (Some (- 1, None), w_fatal tls_AD_INTERNAL_ERROR ERR_R_INTERNAL_ERROR s)
          else Some (Some (1, Some (unat (rlength r))), s))
       else finish_records e mac_size empty_frag prefix_len (j + 1) rs ps
              (on_wbuf j (rb_left_update (\<lambda>_. prefix_len + unat (rlength r))) s)
   }"
| "finish_records e mac_size empty_frag prefix_len j (r # rs) [] s = None"
| "finish_records e mac_size empty_frag prefix_len j [] ps s = Some (None, s)"

definition write_records :: "('b, 'c, 'w) put_env \<Rightarrow> int \<Rightarrow> nat \<Rightarrow> bytes \<Rightarrow> nat list \<Rightarrow> bool \<Rightarrow> nat \<Rightarrow> nat
    \<Rightarrow> ('b, 'c, 'w) wconn \<Rightarrow> (int \<times> nat option \<times> ('b, 'c, 'w) wconn) option" where
  "write_records e ty buf data pipelens empty_frag mac_size prefix_len s = do {
     (ok, ps, s) \<leftarrow> init_packets e empty_frag prefix_len (length pipelens) s;
     if \<not> ok then Some (- 1, None, w_fatal tls_AD_INTERNAL_ERROR ERR_R_INTERNAL_ERROR s)
     else do {
       (ok, rs, ps, s) \<leftarrow> build_records e ty mac_size (explicit_iv_len e s) data pipelens ps s;
       if \<not> ok then Some (- 1, None, s)
       else
         let (ok, rs, ps, s) = encrypt_records e rs ps s in
         if \<not> ok then Some (- 1, None, s)
         else do {
           (res, s) \<leftarrow> finish_records e mac_size empty_frag prefix_len 0 rs ps s;
           (case res of
              Some (ret, wr) \<Rightarrow> Some (ret, wr, s)
            | None \<Rightarrow>
                let tot = sum_list pipelens in
                tls3_write_pending e ty buf tot
                  (s\<lparr>w_wpend_tot := tot, w_wpend_buf := buf, w_wpend_type := ty, w_wpend_ret := tot\<rparr>))
         }
     }
   }"

text \<open>
  The function calls itself at most once, to prepare an empty fragment in front of the data
  against the known-IV weakness of CBC: \<open>self\<close> is that call.
\<close>

definition empty_fragment ::
    "(bool \<Rightarrow> ('b, 'c, 'w) wconn \<Rightarrow> (int \<times> nat option \<times> ('b, 'c, 'w) wconn) option)
    \<Rightarrow> int \<Rightarrow> bool \<Rightarrow> bool \<Rightarrow> ('b, 'c, 'w) wconn \<Rightarrow> (bool \<times> nat \<times> ('b, 'c, 'w) wconn) option" where
  "empty_fragment self ty clear empty_frag s =
     (if \<not> clear \<and> \<not> empty_frag \<and> \<not> w_empty_fragment_done s then do {
        (ok, prefix_len, s) \<leftarrow>
          (if w_need_empty_fragments s \<and> ty = RT_APPDATA then do {
             (ret, wr, s) \<leftarrow> self True s;
             let n = (case wr of None \<Rightarrow> 0 | Some n \<Rightarrow> n);
             if ret \<le> 0 then Some (False, 0, s)
             else if n > tls3_RT_HEADER_LENGTH + tls3_RT_SEND_MAX_ENCRYPTED_OVERHEAD
             then Some (False, 0, w_fatal tls_AD_INTERNAL_ERROR ERR_R_INTERNAL_ERROR s)
             else Some (True, n, s)
           } else Some (True, 0, s));
        Some (ok, prefix_len, if ok then s\<lparr>w_empty_fragment_done := True\<rparr> else s)
      } else Some (True, 0, s))"

definition do_write_body ::
    "(bool \<Rightarrow> ('b, 'c, 'w) wconn \<Rightarrow> (int \<times> nat option \<times> ('b, 'c, 'w) wconn) option)
    \<Rightarrow> ('b, 'c, 'w) put_env \<Rightarrow> int \<Rightarrow> nat \<Rightarrow> bytes \<Rightarrow> nat list \<Rightarrow> bool \<Rightarrow> ('b, 'c, 'w) wconn
    \<Rightarrow> (int \<times> nat option \<times> ('b, 'c, 'w) wconn) option" where
  "do_write_body self e ty buf data pipelens empty_frag s =
     (let tot = sum_list pipelens; numpipes = length pipelens in
      if RECORD_LAYER_write_pending s then tls3_write_pending e ty buf tot s
      else let (i, s) = (if w_alert_dispatch s then p_dispatch_alert e s else (1, s)) in
      if i \<le> 0 then Some (i, None, s)
      else do {
        (ok, s) \<leftarrow> (if w_numwpipes s < numpipes then tls3_setup_write_buffer e numpipes 0 s else Some (True, s));
        if \<not> ok then Some (- 1, None, s)
        else if tot = 0 \<and> \<not> empty_frag then Some (0, None, s)
        else
          let keyed = (g_session (w_g s) \<and> g_enc_write_ctx (w_g s) \<noteq> None \<and> w_write_md_size s \<noteq> None);
              clear = (\<not> keyed \<and> g_enc_write_ctx (w_g s) = None);
              mac_size = (if keyed then EVP_MD_CTX_size (w_write_md_size s) else 0)
          in if mac_size < 0 then Some (- 1, None, w_fatal tls_AD_INTERNAL_ERROR ERR_R_INTERNAL_ERROR s)
          else do {
            (ok, prefix_len, s) \<leftarrow> empty_fragment self ty clear empty_frag s;
            if \<not> ok then Some (- 1, None, s)
            else write_records e ty buf data pipelens empty_frag (nat mac_size) prefix_len s
          }
      })"

definition do_tls3_write :: "('b, 'c, 'w) put_env \<Rightarrow> int \<Rightarrow> nat \<Rightarrow> bytes \<Rightarrow> nat list \<Rightarrow> bool \<Rightarrow> ('b, 'c, 'w) wconn
    \<Rightarrow> (int \<times> nat option \<times> ('b, 'c, 'w) wconn) option" where
  "do_tls3_write e ty buf data =
     do_write_body (do_write_body (\<lambda>_ _. None) e ty buf data [0]) e ty buf data"

section \<open>tls3_write_bytes\<close>

text \<open>How much goes into each pipeline of one call of \<open>do_tls3_write\<close>.\<close>

definition pipe_lens :: "nat \<Rightarrow> nat \<Rightarrow> nat \<Rightarrow> nat \<Rightarrow> nat list" where
  "pipe_lens n split_frag max_frag maxpipes =
     (let numpipes = min (if n = 0 then 1 else (n - 1) div split_frag + 1) maxpipes in
      if n div numpipes \<ge> max_frag then replicate numpipes max_frag
      else map (\<lambda>j. n div numpipes + (if j < n mod numpipes then 1 else 0)) [0..<numpipes])"

partial_function (option) write_bytes_loop :: "('b, 'c, 'w) put_env \<Rightarrow> int \<Rightarrow> nat \<Rightarrow> bytes \<Rightarrow> nat \<Rightarrow> nat \<Rightarrow> nat
    \<Rightarrow> nat \<Rightarrow> nat \<Rightarrow> ('b, 'c, 'w) wconn \<Rightarrow> (int \<times> nat option \<times> ('b, 'c, 'w) wconn) option" where
  "write_bytes_loop e ty buf data split_frag max_frag maxpipes n tot s = do {
     (i, wr, s) \<leftarrow> do_tls3_write e ty (buf + tot) (drop tot data) (pipe_lens n split_frag max_frag maxpipes) False s;
     if i \<le> 0 then Some (i, None, s\<lparr>w_wnum := tot\<rparr>)
     else
       let tmpwrit = (case wr of None \<Rightarrow> 0 | Some k \<Rightarrow> k) in
       if tmpwrit = n \<or> ty = RT_APPDATA \<and> mode_set tls_MODE_ENABLE_PARTIAL_WRITE s then
         let s = s\<lparr>w_empty_fragment_done := False\<rparr>;
             s = (if tmpwrit = n \<and> mode_set tls_MODE_RELEASE_BUFFERS s \<and> \<not> tls_IS_DTLS (w_core s)
                  then tls3_release_write_buffer s else s)
         in Some (1, Some (tot + tmpwrit), s)
       else write_bytes_loop e ty buf data split_frag max_frag maxpipes (usub n tmpwrit) (tot + tmpwrit) s
   }"

text \<open>After what is left of an earlier write has gone out, \<open>tot\<close> bytes of \<open>data\<close> are done.\<close>

definition write_bytes_rest :: "('b, 'c, 'w) put_env \<Rightarrow> int \<Rightarrow> nat \<Rightarrow> bytes \<Rightarrow> nat \<Rightarrow> ('b, 'c, 'w) wconn
    \<Rightarrow> (int \<times> nat option \<times> ('b, 'c, 'w) wconn) option" where
  "write_bytes_rest e ty buf data tot s =
     (let len = length data; max_frag = tls_get_max_send_fragment s; split_frag = tls_get_split_send_fragment s;
          maxpipes = g_max_pipelines (w_g s);
          fatal = Some (- 1, None, w_fatal tls_AD_INTERNAL_ERROR ERR_R_INTERNAL_ERROR s)
      in if tot = len then
           Some (1, Some tot, if mode_set tls_MODE_RELEASE_BUFFERS s \<and> \<not> tls_IS_DTLS (w_core s)
                              then tls3_release_write_buffer s else s)
         else if maxpipes > tls_MAX_PIPELINES then fatal
         else let maxpipes = (if maxpipes = 0 \<or> \<not> g_use_explicit_iv (w_g s)
                \<or> (case g_enc_write_ctx (w_g s) of None \<Rightarrow> True | Some c \<Rightarrow> \<not> p_pipeline e c) then 1 else maxpipes)
         in if max_frag = 0 \<or> split_frag = 0 \<or> split_frag > max_frag then fatal
         else write_bytes_loop e ty buf data split_frag max_frag maxpipes (usub len tot) tot s)"

definition write_bytes_start :: "('b, 'c, 'w) put_env \<Rightarrow> nat \<Rightarrow> ('b, 'c, 'w) wconn
    \<Rightarrow> (int \<times> ('b, 'c, 'w) wconn) option" where
  "write_bytes_start e len s =
     (let s = on_wcore (rwstate_update (\<lambda>_. tls_NOTHING)) s; wb = w_wbuf s ! 0 in
      if len < w_wnum s \<or> rb_left wb \<noteq> 0 \<and> len < uadd (w_wnum s) (w_wpend_tot s)
      then Some (- 1, w_fatal tls_AD_INTERNAL_ERROR R_BAD_LENGTH s)
      else do {
        (ok, g) \<leftarrow> (if early_data_state (w_core s) = tls_EARLY_DATA_WRITING
                   then early_data_count_ok (w_g s) len 0 True else Some (True, w_g s));
        let s = s\<lparr>w_g := g\<rparr>;
        if \<not> ok then Some (- 1, s)
        else
          let s = s\<lparr>w_wnum := 0\<rparr>;
              s = (if rb_left wb = 0 \<and> key_update (w_core s) \<noteq> tls_KEY_UPDATE_NONE
                   then on_wcore (otls_statem_set_in_init True) s else s)
          in if tls_in_init (w_core s) \<and> in_handshake (statem (w_core s)) = 0
                \<and> early_data_state (w_core s) \<noteq> tls_EARLY_DATA_UNAUTH_WRITING
             then let (i, s) = p_handshake_func e s in Some (if i = 0 then - 1 else i, s)
             else Some (1, s)
      })"

definition tls3_write_bytes :: "('b, 'c, 'w) put_env \<Rightarrow> int \<Rightarrow> nat \<Rightarrow> bytes \<Rightarrow> ('b, 'c, 'w) wconn
    \<Rightarrow> (int \<times> nat option \<times> ('b, 'c, 'w) wconn) option" where
  "tls3_write_bytes e ty buf data s = do {
     let tot = w_wnum s;
     (i, s) \<leftarrow> write_bytes_start e (length data) s;
     if i < 0 then Some (i, None, s)
     else if rb_left (w_wbuf s ! 0) \<noteq> 0 then do {
       (i, wr, s) \<leftarrow> tls3_write_pending e ty (buf + tot) (w_wpend_tot s) s;
       if i \<le> 0 then Some (i, None, s\<lparr>w_wnum := tot\<rparr>)
       else write_bytes_rest e ty buf data (tot + (case wr of None \<Rightarrow> 0 | Some k \<Rightarrow> k)) s
     }
     else write_bytes_rest e ty buf data tot s
   }"

end
