(* ===== verification/Record_Send.thy ===== *)
theory Record_Send
  imports Record_Write
begin

text \<open>
  What goes out: \<open>tls3_write_bytes\<close> on a connection that does not use a cipher. From the packet writer up,
  a fragment becomes a record in the write buffer, the buffer is handed to the BIO piece by piece, and the
  loop goes through the data; the contract that is carried through is that what the BIO has taken, what
  the connection still owes and the records of the rest of the data together never change (\<open>byte_sink\<close>
  of Bio_Mem is all that is known of the BIO). At the end the records are read again by the reader of
  Record_Frame, and the pipelines are treated.
\<close>

section \<open>A record in a write buffer\<close>

text \<open>A packet over a caller's buffer of \<open>N\<close> bytes, with the frames \<open>fs\<close> open.\<close>

definition static_pkt :: "nat \<Rightarrow> WPacket.frame list \<Rightarrow> WPACKET \<Rightarrow> bool" where
  "static_pkt N fs p \<longleftrightarrow> writer_ok p \<and> wpacket_abs p = fs \<and> static_len p = Some N \<and> maxsize p = N"

lemma static_pkt_staticbuf: "static_pkt N fs p \<Longrightarrow> staticbuf p \<noteq> None"
  by (auto simp: static_pkt_def)

lemma static_pkt_step:
  assumes "heap_ok h" and "fst h 40 \<noteq> None" and p: "static_pkt N fs p" and op: "not_limit op"
    "frames_size fs + op_size op \<le> N" "abs_step op fs = Some fs'"
  shows "\<exists>q. wpacket_step h op p = Some (True, q) \<and> static_pkt N fs' q"
proof -
  have w: "writer_ok p" "wpacket_abs p = fs" "static_len p = Some N" "maxsize p = N"
    using p by (simp_all add: static_pkt_def)
  obtain q where q: "wpacket_step h op p = Some (True, q)"
    using succeedsD [OF step_complete [OF w(1) assms(1) static_pkt_staticbuf [OF p] assms(2), of op fs']] op w by auto
  have "refines_step p (abs_step op) (wpacket_step h op p)"
    using op(1) not_limit_safe by (intro step_refines w(1) assms(1)) auto
  then show ?thesis
    using q w op(3) step_maxsize [OF w(1) assms(1) op(1) q] by (auto simp: refines_step_def static_pkt_def)
qed

lemma static_pkt_reserve:
  assumes p: "static_pkt N fs p" and "fs \<noteq> []" and "0 < n" and "frames_size fs + n \<le> N"
  shows "pk_reserve h n p = Some (True, p)"
proof -
  have w: "room_ok p" "subs p \<noteq> []" "written p = frames_size fs" "maxsize p = N"
    using p assms(2) writer_room written_frames_size [of p] subs_frames [of p] by (auto simp: static_pkt_def)
  moreover have "wbuf p = None"
    using w(1) static_pkt_staticbuf [OF p] by (auto simp: room_ok_def)
  moreover have "usub (maxsize p) (written p) = maxsize p - written p"
    using w(1) by (auto simp: room_ok_def size_arith)
  ultimately show ?thesis
    using assms(3,4) by (auto simp: pk_reserve_def WPACKET_reserve_bytes_def)
qed

lemma static_pkt_length:
  assumes "static_pkt N ((lb, fl, c) # fs) p"
  shows "WPACKET_get_length p = Some (length c)"
proof -
  have w: "room_ok p" "subs_ok (written p) (subs p)" "wpacket_abs p = (lb, fl, c) # fs" "\<not> WPACKET_is_null_buf p"
    using assms by (simp_all add: static_pkt_def writer_ok_def wpacket_ok_def)
  obtain s ss where s: "subs p = s # ss"
    using w(3) by (cases "subs p") (simp_all add: wpacket_abs_def)
  then have "c = drop (pwritten s) (take (written p) (WPacket.block p))" "pwritten s \<le> written p"
    using w(2,3) by (simp_all add: wpacket_abs_def)
  moreover have "written p \<le> SIZE_MAX" "written p \<le> length (WPacket.block p)"
    using room_ok_bounds [OF w(1)] written_le_block [OF w(1,4)] by simp_all
  ultimately show ?thesis
    using s by (simp add: WPACKET_get_length_def usub_eq)
qed

lemma static_pkt_init:
  assumes h: "heap_ok h" "fst h 40 \<noteq> None" and al: "0 < al" "al \<le> length m" and len: "length m \<le> SIZE_MAX"
  shows "\<exists>p pad. pk_seq [\<lambda>p. WPACKET_init_static_len h p (Some m) (length m) 0, pk_allocate h al] empty_packet = Some (True, p)
    \<and> static_pkt (length m) [(0, 0, pad)] p \<and> length pad = al"
proof -
  have "0 < length m" using al by linarith
  then obtain q where q: "WPACKET_init_static_len h empty_packet (Some m) (length m) 0 = Some (True, q)" "writer_ok q"
    "wpacket_abs q = [(0, 0, [])]" "static_len q = Some (length m)" "maxsize q = length m"
    using init_static_complete [OF h order_refl len, of 0 empty_packet] al len by (auto simp: maxmaxsize_def)
  have w: "room_ok q" "\<not> WPACKET_is_null_buf q" "subs q \<noteq> []" "written q = 0"
    using q writer_room written_frames_size [of q] subs_frames [of q] by auto
  obtain d r where r: "WPACKET_allocate_bytes h q al = Some (True, d, r)"
    using allocate_static [OF w(1) _ w(3), of al h] q al w(4) by auto
  then have ext: "extends q al r"
    using allocate_spec [OF w(1) h(1), of al] by auto
  let ?pad = "take al (WPacket.block r)"
  have "al \<le> length (WPacket.block r)"
    using ext written_le_block [of r] w by (simp add: extends_def)
  then have "appended q ?pad r"
    using ext w(2,4) by (simp add: extends_def appended_def)
  then have "static_pkt (length m) [(0, 0, ?pad)] r"
    using appended_refines [of q ?pad r] q w(3) by (auto simp: static_pkt_def appended_def)
  moreover have "pk_seq [\<lambda>p. WPACKET_init_static_len h p (Some m) (length m) 0, pk_allocate h al] empty_packet = Some (True, r)"
    using q(1) r by (simp add: pk_allocate_def)
  ultimately show ?thesis
    using \<open>al \<le> length (WPacket.block r)\<close> by auto
qed

lemma static_pkt_finish:
  assumes p: "static_pkt N [(0, 0, c)] p"
  shows "\<exists>q. WPACKET_finish p = Some (True, q) \<and> length (WPacket.block q) = N \<and> take (length c) (WPacket.block q) = c"
proof -
  have w: "writer_ok p" "wpacket_abs p = [(0, 0, c)]" "static_len p = Some N"
    using p by (simp_all add: static_pkt_def)
  have wr: "written p = length c"
    using written_frames_size [OF w(1)] w(2) by simp
  obtain s where s: "subs p = [s]" "lenbytes s = 0" "sub_flags s = 0" "take (written p) (WPacket.block p) = c"
    using w(1,2) by (cases "subs p" rule: remdups_adj.cases) (auto simp: wpacket_abs_def writer_ok_def wpacket_ok_def)
  then have "WPACKET_finish p = Some (True, p\<lparr>subs := []\<rparr>)"
    by (simp add: WPACKET_finish_def wpacket_intern_close_def Let_def)
  then show ?thesis
    using w(3) s(4) wr by (auto simp: WPacket.block_def GETBUF_def)
qed

lemma memcpy_prefix:
  assumes "n \<le> length data"
  shows "WPACKET_memcpy h p data n = WPACKET_memcpy h p (take n data) n"
proof -
  have "mem_read data 0 n = mem_read (take n data) 0 n"
    using assms by (simp add: mem_read_def)
  then show ?thesis by (simp only: WPACKET_memcpy_def)
qed

text \<open>The two numbers of the header.\<close>

lemma unat_of_int_u32: "0 \<le> k \<Longrightarrow> k < 2 ^ 32 \<Longrightarrow> unat (of_int k :: u32) = nat k"
  by (simp add: unat_eq_nat_uint uint_word_of_int_eq take_bit_int_eq_self)

lemma header_number_bytes:
  fixes ty v :: byte
  shows "unat (of_int (uint ty) :: u32) = unat ty" "unat (of_int (0x0300 + uint v) :: u32) = 0x0300 + unat v"
    "be_bytes 1 (unat ty) = [ty]" "be_bytes 2 (0x0300 + unat v) = [3, v]" "unat ty < 256" "unat v < 256"
proof -
  show b: "unat ty < 256" "unat v < 256"
    using unsigned_less [of ty, where ?'a = nat] unsigned_less [of v, where ?'a = nat] by simp_all
  have i: "0 \<le> uint ty" "uint ty < 256" "0 \<le> uint v" "uint v < 256"
    using unsigned_less [of ty, where ?'a = int] unsigned_less [of v, where ?'a = int] by simp_all
  then show "unat (of_int (uint ty) :: u32) = unat ty" "unat (of_int (0x0300 + uint v) :: u32) = 0x0300 + unat v"
    using unat_of_int_u32 [of "uint ty"] unat_of_int_u32 [of "0x0300 + uint v"]
    by (simp_all add: nat_add_distrib)
  show "be_bytes 1 (unat ty) = [ty]" by simp
  have "(0x0300 + unat v) div 256 = 3" using b(2) by (intro div_nat_eqI) simp_all
  then show "be_bytes 2 (0x0300 + unat v) = [3, v]" by simp
qed

lemma put_header_plain:
  fixes ty v :: byte
  assumes h: "heap_ok (p_heap e)" "fst (p_heap e) 40 \<noteq> None" and p: "static_pkt N [(0, 0, pad)] p"
    and n: "0 < n" and room: "length pad + 5 + n \<le> N"
  shows "\<exists>q. put_header e (uint ty) (0x0300 + uint v) 0 n p = Some (True, q) \<and>
    static_pkt N [(2, 0, []), (0, 0, pad @ [ty, 3, v])] q"
proof -
  note hd = header_number_bytes(1,3,5) [of ty] header_number_bytes(2,4,6) [of v]
  obtain a where a: "WPACKET_put_bytes (p_heap e) p (of_int (uint ty)) 1 = Some (True, a)" "static_pkt N [(0, 0, pad @ [ty])] a"
    using static_pkt_step [OF h p, of "Put_bytes (of_int (uint ty)) 1"] hd room by auto
  have "abs_step (Put_bytes (of_int (0x0300 + uint v)) 2) [(0, 0, pad @ [ty])] = Some [(0, 0, pad @ [ty, 3, v])]"
    unfolding abs_step.simps hd(4,5) abs_put.simps using less_trans [OF hd(6), of 64768] by simp
  from static_pkt_step [OF h a(2) _ _ this]
  obtain b where b: "WPACKET_put_bytes (p_heap e) a (of_int (0x0300 + uint v)) 2 = Some (True, b)"
    "static_pkt N [(0, 0, pad @ [ty, 3, v])] b"
    using room by auto
  obtain c where c: "WPACKET_start_sub_packet_len (p_heap e) b 2 = Some (True, c)"
    "static_pkt N [(2, 0, []), (0, 0, pad @ [ty, 3, v])] c"
    using static_pkt_step [OF h b(2), of "Start_sub 2"] room by (auto simp: abs_start_def)
  have "pk_reserve (p_heap e) n c = Some (True, c)"
    using room by (intro static_pkt_reserve [OF c(2) _ n]) auto
  then show ?thesis
    using a b c n by (simp add: put_header_def Let_def pk_when_def)
qed

text \<open>A connection without a cipher for writing, and the values that follow from it.\<close>

abbreviation no_cipher :: "('b, 'c, 'w) wconn \<Rightarrow> bool" where
  "no_cipher s \<equiv> g_enc_write_ctx (w_g s) = None"

lemma no_cipher_simps:
  assumes "no_cipher s"
  shows "\<not> hides_type ty s" "explicit_iv_len e s = 0"
  using assms by (simp_all add: hides_type_def explicit_iv_len_def)

lemma build_record_plain:
  fixes ty v :: byte
  assumes h: "heap_ok (p_heap e)" "fst (p_heap e) 40 \<noteq> None" and p: "static_pkt N [(0, 0, pad)] p"
    and s: "no_cipher s" "record_version s = 0x0300 + uint v"
    and n: "0 < n" "n \<le> length data" "n < 2 ^ 16" and room: "length pad + 5 + n + 16 \<le> N"
  shows "\<exists>r q. build_record e (uint ty) 0 0 data n p s = Some (True, r, q, s) \<and> unat (rlength r) = n \<and>
    static_pkt N [(2, 0, take n data), (0, 0, pad @ [ty, 3, v])] q"
proof -
  obtain a where a: "put_header e (uint ty) (0x0300 + uint v) 0 n p = Some (True, a)"
    "static_pkt N [(2, 0, []), (0, 0, pad @ [ty, 3, v])] a"
    using put_header_plain [OF h p n(1)] room by fastforce
  have "abs_step (Memcpy (take n data)) [(2, 0, []), (0, 0, pad @ [ty, 3, v])] =
      Some [(2, 0, take n data), (0, 0, pad @ [ty, 3, v])]"
    using n by auto
  from static_pkt_step [OF h a(2) _ _ this]
  obtain q where q: "WPACKET_memcpy (p_heap e) a data n = Some (True, q)"
    "static_pkt N [(2, 0, take n data), (0, 0, pad @ [ty, 3, v])] q"
    using n room memcpy_prefix [of n data "p_heap e" a] by auto
  have "pk_reserve (p_heap e) tls_RT_MAX_CIPHER_BLOCK_SIZE q = Some (True, q)"
    using room n by (intro static_pkt_reserve [OF q(2)]) (simp_all add: tls_RT_MAX_CIPHER_BLOCK_SIZE_def)
  moreover have "WPACKET_get_length q = Some n"
    using static_pkt_length [OF q(2)] n by simp
  moreover have "unat (of_nat n :: u64) = n"
    using n(3) by (simp only: unsigned_of_nat) (simp add: take_bit_nat_eq_self)
  ultimately show ?thesis
    using a(1) q s no_cipher_simps(1) [OF s(1)]
    by (simp add: build_record_def Let_def put_inner_type_def pk_when_def)
qed

lemma finish_record_plain:
  assumes h: "heap_ok (p_heap e)" "fst (p_heap e) 40 \<noteq> None"
    and q: "static_pkt N [(2, 0, body), (0, 0, pad)] q" and r: "unat (rlength r) = length body" "length body < 2 ^ 16"
  shows "\<exists>r' t. finish_record e 0 r q s = Some (True, r', t, s) \<and> unat (rlength r') = length body + 5 \<and>
    length (WPacket.block t) = N \<and>
    take (length pad + length body + 2) (WPacket.block t) = pad @ be_bytes 2 (length body) @ body"
proof -
  have "abs_output (2, 0, body) = Some (be_bytes 2 (length body) @ body)"
    using r(2) by (simp add: abs_output_def)
  then have "abs_step Close [(2, 0, body), (0, 0, pad)] = Some [(0, 0, pad @ be_bytes 2 (length body) @ body)]"
    by simp
  moreover have "frames_size [(2, 0, body), (0, 0, pad)] \<le> N"
    using q writer_room [of q] written_frames_size [of q] by (auto simp: static_pkt_def room_ok_def)
  ultimately obtain u where u: "WPACKET_close q = Some (True, u)" "static_pkt N [(0, 0, pad @ be_bytes 2 (length body) @ body)] u"
    using static_pkt_step [OF h q, of Close] by auto
  obtain t where t: "WPACKET_finish u = Some (True, t)" "length (WPacket.block t) = N"
    "take (length pad + length body + 2) (WPacket.block t) = pad @ be_bytes 2 (length body) @ body"
    using static_pkt_finish [OF u(2)] by (auto simp: algebra_simps)
  have "unat (rlength r + 5) = length body + 5"
    using r by (subst unat_plus_simple [THEN iffD1]) (simp_all add: no_olen_add_nat)
  then show ?thesis
    using static_pkt_length [OF q] r(1) u(1) t
    by (auto simp: finish_record_def Let_def pk_when_def tls3_RT_HEADER_LENGTH_def)
qed

section \<open>One fragment\<close>

text \<open>The bytes a write buffer still owes, and a buffer fit for fragments of up to \<open>mx\<close> bytes.\<close>

definition owed_of :: "tls3_BUFFER \<Rightarrow> bytes" where
  "owed_of wb = (case rb_buf wb of None \<Rightarrow> [] | Some m \<Rightarrow> seg m (rb_offset wb) (rb_left wb))"

definition wbuf_fits :: "nat \<Rightarrow> tls3_BUFFER \<Rightarrow> bool" where
  "wbuf_fits mx wb \<longleftrightarrow> (case rb_buf wb of None \<Rightarrow> False
     | Some m \<Rightarrow> length m = rb_len wb \<and> rb_offset wb + rb_left wb \<le> length m) \<and>
     rb_len wb \<le> SIZE_MAX \<and> mx + 24 \<le> rb_len wb \<and> 8 dvd rb_addr wb"

lemma write_align_8: "8 dvd addr \<Longrightarrow> write_align addr 1 = 3"
  by (auto simp: write_align_def tls3_ALIGN_PAYLOAD_def tls3_RT_HEADER_LENGTH_def elim!: dvdE)

lemma set_GETBUF_block: "static_pkt N fs p \<Longrightarrow> set_GETBUF p (WPacket.block p) = p"
  by (cases p) (auto simp: static_pkt_def set_GETBUF_def WPacket.block_def GETBUF_def)

text \<open>The environment of a connection without a cipher: encryption leaves the records as they are.\<close>

definition plain_put_env :: "('b, 'c, 'w) put_env \<Rightarrow> bool" where
  "plain_put_env e \<longleftrightarrow> heap_ok (p_heap e) \<and> fst (p_heap e) 40 \<noteq> None \<and>
     (\<forall>rs ms s. g_enc_write_ctx (w_g s) = None \<longrightarrow> p_enc e rs ms s = (1, rs, ms, s) \<and> p_tls13_enc e rs ms s = (1, rs, ms, s))"

lemma write_records_plain:
  fixes ty v :: byte
  assumes e: "plain_put_env e" and s: "no_cipher s" "record_version s = 0x0300 + uint v"
    and wb: "w_wbuf s = wb # wbs" "wbuf_fits mx wb" and n: "0 < n" "n \<le> mx" "n \<le> length data" "mx < 2 ^ 16"
  shows "\<exists>m. length m = rb_len wb \<and> seg m 3 (n + 5) = wire (ty, v, take n data) \<and>
    write_records e (uint ty) buf data [n] False 0 0 s = tls3_write_pending e (uint ty) buf n
      (s\<lparr>w_wbuf := wb\<lparr>rb_offset := 3, rb_buf := Some m, rb_left := n + 5\<rparr> # wbs,
         w_wpend_tot := n, w_wpend_buf := buf, w_wpend_type := uint ty, w_wpend_ret := n\<rparr>)"
proof -
  have h: "heap_ok (p_heap e)" "fst (p_heap e) 40 \<noteq> None"
    using e by (simp_all add: plain_put_env_def)
  obtain m0 where m0: "rb_buf wb = Some m0" "length m0 = rb_len wb" "mx + 24 \<le> length m0" "length m0 \<le> SIZE_MAX"
    "write_align (rb_addr wb) 1 = 3"
    using wb(2) write_align_8 by (auto simp: wbuf_fits_def split: option.splits)
  let ?s = "s\<lparr>w_wbuf := wb\<lparr>rb_offset := 3\<rparr> # wbs\<rparr>"
  have s': "no_cipher ?s" "record_version ?s = 0x0300 + uint v" "explicit_iv_len e ?s = 0"
    using s no_cipher_simps(2) [of ?s e] by (simp_all add: record_version_def)
  obtain p pad where p: "pk_seq [\<lambda>p. WPACKET_init_static_len (p_heap e) p (Some m0) (length m0) 0, pk_allocate (p_heap e) 3]
      empty_packet = Some (True, p)" "static_pkt (length m0) [(0, 0, pad)] p" "length pad = 3"
    using static_pkt_init [OF h, of 3 m0] m0 by auto
  have init: "init_packets e False 0 (Suc 0) s = Some (True, [p], ?s)"
    using wb(1) m0 p(1) by (simp add: init_packets_def Let_def init_pkt_def on_wbuf_def del: pk_seq.simps)
  obtain r q where q: "build_record e (uint ty) 0 0 data n p ?s = Some (True, r, q, ?s)" "unat (rlength r) = n"
    "static_pkt (length m0) [(2, 0, take n data), (0, 0, pad @ [ty, 3, v])] q"
    using build_record_plain [OF h p(2) s'(1,2) n(1,3)] n p(3) m0(3) by fastforce
  have enc: "encrypt_records e [r] [q] ?s = (True, [r], [q], ?s)"
    using e s'(1) set_GETBUF_block [OF q(3)] by (simp add: encrypt_records_def plain_put_env_def)
  obtain r' t where t: "finish_record e 0 r q ?s = Some (True, r', t, ?s)" "unat (rlength r') = n + 5"
    "length (WPacket.block t) = length m0"
    "take (n + 8) (WPacket.block t) = pad @ [ty, 3, v] @ be_bytes 2 n @ take n data"
    using finish_record_plain [OF h q(3)] q(2) n p(3) by (fastforce simp: algebra_simps)
  have "seg (WPacket.block t) 3 (n + 5) = drop 3 (take (n + 8) (WPacket.block t))"
    by (simp add: seg_def drop_take add.commute)
  then have "seg (WPacket.block t) 3 (n + 5) = wire (ty, v, take n data)"
    using n(3) unfolding t(4) by (simp add: p(3) wire_def)
  then show ?thesis
    using init q(1) enc t(1-3) m0(2) s'(3)
    by (intro exI [of _ "WPacket.block t"]) (simp add: write_records_def on_wbuf_def Let_def)
qed

text \<open>What does not change while data is written, and what must hold of it.\<close>

definition settings :: "('b, 'c, 'w) wconn \<Rightarrow> ('b, 'c, 'w) wconn" where
  "settings s = s\<lparr>w_g := on_gcore (rwstate_update (\<lambda>_. 0)) (w_g s), w_wbuf := [], w_numwpipes := 0, w_wnum := 0,
     w_wpend_tot := 0, w_wpend_type := 0, w_wpend_ret := 0, w_wpend_buf := 0, w_wbio := None,
     w_empty_fragment_done := False\<rparr>"

lemma settings_simps [simp]:
  "settings (on_wcore (rwstate_update f) s) = settings s"
  "settings (s\<lparr>w_g := on_gcore (rwstate_update f) (w_g s)\<rparr>) = settings s"
  "settings (s\<lparr>w_wbuf := wbs\<rparr>) = settings s" "settings (s\<lparr>w_numwpipes := k\<rparr>) = settings s"
  "settings (s\<lparr>w_wnum := k\<rparr>) = settings s" "settings (s\<lparr>w_wpend_tot := k\<rparr>) = settings s"
  "settings (s\<lparr>w_wpend_type := i\<rparr>) = settings s" "settings (s\<lparr>w_wpend_ret := k\<rparr>) = settings s"
  "settings (s\<lparr>w_wpend_buf := k\<rparr>) = settings s" "settings (s\<lparr>w_wbio := b\<rparr>) = settings s"
  "settings (s\<lparr>w_empty_fragment_done := d\<rparr>) = settings s"
  by (simp_all add: settings_def on_wcore_def on_gcore_def)

definition plain_settings :: "('b, 'c, 'w) put_env \<Rightarrow> byte \<Rightarrow> ('b, 'c, 'w) wconn \<Rightarrow> bool" where
  "plain_settings e v s \<longleftrightarrow> no_cipher s \<and> \<not> w_alert_dispatch s \<and> record_version s = 0x0300 + uint v \<and>
     \<not> tls_IS_DTLS (w_core s) \<and> key_update (w_core s) = tls_KEY_UPDATE_NONE \<and>
     early_data_state (w_core s) \<noteq> tls_EARLY_DATA_WRITING \<and>
     (tls_in_init (w_core s) \<longrightarrow> in_handshake (statem (w_core s)) \<noteq> 0) \<and>
     0 < tls_get_max_send_fragment s \<and> tls_get_max_send_fragment s \<le> tls3_RT_MAX_PLAIN_LENGTH \<and>
     0 < tls_get_split_send_fragment s \<and> tls_get_split_send_fragment s \<le> tls_get_max_send_fragment s \<and>
     g_max_pipelines (w_g s) \<le> tls_MAX_PIPELINES \<and>
     (case p_malloc e (write_buffer_len s) of None \<Rightarrow> False | Some (addr, m) \<Rightarrow> length m = write_buffer_len s \<and> 8 dvd addr)"

lemma settings_of_settings:
  "tls_get_max_send_fragment (settings t) = tls_get_max_send_fragment t"
  "tls_get_split_send_fragment (settings t) = tls_get_split_send_fragment t" "mode_set md (settings t) = mode_set md t"
  "record_version (settings t) = record_version t" "write_buffer_len (settings t) = write_buffer_len t"
  "tls_IS_DTLS (w_core (settings t)) = tls_IS_DTLS (w_core t)"
  by (simp_all add: settings_def on_gcore_def record_version_def tls_IS_DTLS_def Let_def TLS1_get_version_def
      tls_get_max_send_fragment_def tls_get_split_send_fragment_def mode_set_def write_buffer_len_def
      USE_MAX_FRAGMENT_LENGTH_EXT_def GET_MAX_FRAGMENT_LENGTH_def)

lemma plain_settings_settings: "plain_settings e v (settings t) = plain_settings e v t"
  unfolding plain_settings_def settings_of_settings by (simp add: settings_def on_gcore_def tls_in_init_def)

lemma settings_values:
  assumes "settings s' = settings s"
  shows "plain_settings e v s' = plain_settings e v s" "tls_get_max_send_fragment s' = tls_get_max_send_fragment s"
    "tls_get_split_send_fragment s' = tls_get_split_send_fragment s" "mode_set md s' = mode_set md s"
  using assms by (metis plain_settings_settings, metis settings_of_settings(1), metis settings_of_settings(2),
      metis settings_of_settings(3))

text \<open>
  The write buffers of a connection that uses one pipeline: buffer 0 is fit for the fragments, or there
  is none yet.
\<close>

definition plain_buffers :: "('b, 'c, 'w) wconn \<Rightarrow> bool" where
  "plain_buffers s \<longleftrightarrow> w_wbuf s \<noteq> [] \<and> w_numwpipes s \<le> 1 \<and>
     (if w_numwpipes s = 0 then rb_buf (w_wbuf s ! 0) = None \<and> rb_left (w_wbuf s ! 0) = 0
      else wbuf_fits (tls_get_max_send_fragment s) (w_wbuf s ! 0))"

lemma plain_buffers_frame [simp]:
  "plain_buffers (s\<lparr>w_wnum := k\<rparr>) = plain_buffers s"
  "plain_buffers (s\<lparr>w_empty_fragment_done := d\<rparr>) = plain_buffers s"
  "plain_buffers (on_wcore (rwstate_update f) s) = plain_buffers s"
  using settings_values(2) [of "s\<lparr>w_wnum := k\<rparr>" s] settings_values(2) [of "s\<lparr>w_empty_fragment_done := d\<rparr>" s]
    settings_values(2) [of "on_wcore (rwstate_update f) s" s]
  by (simp_all add: plain_buffers_def on_wcore_def)

lemma max_send_fragment_frame [simp]:
  "tls_get_max_send_fragment (s\<lparr>w_wnum := k\<rparr>) = tls_get_max_send_fragment s"
  by (rule settings_values(2)) simp

lemma write_buffer_len_enough: "tls_get_max_send_fragment s + 24 \<le> write_buffer_len s"
  by (simp add: write_buffer_len_def Let_def tls3_RT_SEND_MAX_ENCRYPTED_OVERHEAD_def tls_RT_MAX_CIPHER_BLOCK_SIZE_def
      rt_consts tls3_RT_HEADER_LENGTH_def)

lemma setup_align_less: "setup_align < 8"
  by (simp add: setup_align_def tls3_ALIGN_PAYLOAD_def)

lemma write_buffer_len_bound: "tls_get_max_send_fragment s \<le> tls3_RT_MAX_PLAIN_LENGTH \<Longrightarrow> write_buffer_len s \<le> SIZE_MAX"
  using setup_align_less
  by (simp add: write_buffer_len_def Let_def tls3_RT_SEND_MAX_ENCRYPTED_OVERHEAD_def tls_RT_MAX_CIPHER_BLOCK_SIZE_def
      rt_consts SIZE_MAX_def)

lemma setup_plain:
  assumes "plain_settings e v s" and "plain_buffers s" and "w_numwpipes s = 0"
  shows "\<exists>wb. tls3_setup_write_buffer e 1 0 s = Some (True, s\<lparr>w_numwpipes := 1, w_wbuf := wb # tl (w_wbuf s)\<rparr>) \<and>
    wbuf_fits (tls_get_max_send_fragment s) wb \<and> rb_left wb = 0"
proof -
  let ?len = "write_buffer_len s" and ?s = "s\<lparr>w_numwpipes := 1\<rparr>"
  have len: "write_buffer_len ?s = ?len"
    using settings_of_settings(5) [of ?s] settings_of_settings(5) [of s] by simp
  obtain addr m where m: "p_malloc e ?len = Some (addr, m)" "length m = ?len" "8 dvd addr"
    using assms(1) by (auto simp: plain_settings_def split: option.splits)
  obtain wb wbs where wb: "w_wbuf s = wb # wbs" "rb_buf wb = None"
    using assms(2,3) by (cases "w_wbuf s") (auto simp: plain_buffers_def)
  let ?wb = "\<lparr>rb_buf = Some m, rb_addr = addr, rb_default_len = 0, rb_len = ?len, rb_offset = 0, rb_left = 0\<rparr>"
  have "0 < ?len" using write_buffer_len_enough [of s] by simp
  then have "tls3_setup_write_buffer e 1 0 s = Some (True, s\<lparr>w_numwpipes := 1, w_wbuf := ?wb # wbs\<rparr>)"
    using len m wb by (simp add: tls3_setup_write_buffer_def Let_def on_wbuf_def)
  moreover have "wbuf_fits (tls_get_max_send_fragment s) ?wb"
    using m write_buffer_len_enough [of s] write_buffer_len_bound [of s] assms(1)
    by (simp add: wbuf_fits_def plain_settings_def)
  ultimately show ?thesis
    using wb(1) by (intro exI [of _ ?wb]) simp
qed

lemma do_write_plain:
  fixes ty v :: byte
  assumes e: "plain_put_env e" and s: "plain_settings e v s" "plain_buffers s" "rb_left (w_wbuf s ! 0) = 0"
    and n: "0 < n" "n \<le> tls_get_max_send_fragment s" "n \<le> length data"
  shows "\<exists>wb. do_tls3_write e (uint ty) buf data [n] False s = tls3_write_pending e (uint ty) buf n
      (s\<lparr>w_numwpipes := 1, w_wbuf := wb # tl (w_wbuf s),
         w_wpend_tot := n, w_wpend_buf := buf, w_wpend_type := uint ty, w_wpend_ret := n\<rparr>) \<and>
    wbuf_fits (tls_get_max_send_fragment s) wb \<and> rb_left wb = n + 5 \<and> owed_of wb = wire (ty, v, take n data)"
proof -
  let ?mx = "tls_get_max_send_fragment s"
  obtain wb where wb: "(if w_numwpipes s < 1 then tls3_setup_write_buffer e 1 0 s else Some (True, s)) =
      Some (True, s\<lparr>w_numwpipes := 1, w_wbuf := wb # tl (w_wbuf s)\<rparr>)" "wbuf_fits ?mx wb"
  proof (cases "w_numwpipes s = 0")
    case True
    then show ?thesis using setup_plain [OF s(1,2)] that by auto
  next
    case False
    then have "w_numwpipes s = 1" "w_wbuf s = w_wbuf s ! 0 # tl (w_wbuf s)" "wbuf_fits ?mx (w_wbuf s ! 0)"
      using s(2) by (cases "w_wbuf s"; auto simp: plain_buffers_def)+
    moreover from this have "s\<lparr>w_numwpipes := 1, w_wbuf := w_wbuf s ! 0 # tl (w_wbuf s)\<rparr> = s" by simp
    ultimately show ?thesis using that [of "w_wbuf s ! 0"] by simp
  qed
  let ?s = "s\<lparr>w_numwpipes := 1, w_wbuf := wb # tl (w_wbuf s)\<rparr>"
  have c: "plain_settings e v ?s" using s(1) settings_values(1) [of ?s s] by simp
  obtain m where m: "length m = rb_len wb" "seg m 3 (n + 5) = wire (ty, v, take n data)"
    "write_records e (uint ty) buf data [n] False 0 0 ?s = tls3_write_pending e (uint ty) buf n
      (?s\<lparr>w_wbuf := wb\<lparr>rb_offset := 3, rb_buf := Some m, rb_left := n + 5\<rparr> # tl (w_wbuf s),
         w_wpend_tot := n, w_wpend_buf := buf, w_wpend_type := uint ty, w_wpend_ret := n\<rparr>)"
    using write_records_plain [OF e _ _ _ wb(2) n(1,2,3), of ?s v "tl (w_wbuf s)" ty buf] c s(1)
    by (auto simp: plain_settings_def rt_consts)
  have "\<not> RECORD_LAYER_write_pending s"
    using s(2,3) by (auto simp: RECORD_LAYER_write_pending_def plain_buffers_def le_Suc_eq)
  then have "do_tls3_write e (uint ty) buf data [n] False s = write_records e (uint ty) buf data [n] False 0 0 ?s"
    using wb(1) [unfolded One_nat_def] s(1) n(1) c
    by (simp add: do_tls3_write_def do_write_body_def Let_def plain_settings_def empty_fragment_def)
  moreover have "wbuf_fits ?mx (wb\<lparr>rb_offset := 3, rb_buf := Some m, rb_left := n + 5\<rparr>)"
    using wb(2) m(1) n(2) by (auto simp: wbuf_fits_def split: option.splits)
  ultimately show ?thesis
    using m by (intro exI [of _ "wb\<lparr>rb_offset := 3, rb_buf := Some m, rb_left := n + 5\<rparr>"]) (simp add: owed_of_def)
qed

section \<open>Into the BIO\<close>

lemma owed_of_part:
  assumes "n \<le> rb_left wb"
  shows "owed_of wb = take n (owed_of wb) @ owed_of (wb\<lparr>rb_left := rb_left wb - n, rb_offset := rb_offset wb + n\<rparr>)"
proof (cases "rb_buf wb")
  case (Some m)
  have "seg m (rb_offset wb) (rb_left wb) = seg m (rb_offset wb) n @ seg m (rb_offset wb + n) (rb_left wb - n)"
    using assms seg_append_split [of m "rb_offset wb" n "rb_left wb - n"] by simp
  moreover have "take n (seg m (rb_offset wb) (rb_left wb)) = seg m (rb_offset wb) n"
    using assms by (simp add: seg_def min_def)
  ultimately show ?thesis
    using Some by (simp add: owed_of_def)
qed (simp add: owed_of_def)

text \<open>What \<open>tls3_write_pending\<close> does to the one write buffer in use.\<close>

definition drained :: "('b \<Rightarrow> bytes) \<Rightarrow> ('b \<Rightarrow> bool) \<Rightarrow> tls3_BUFFER \<Rightarrow> 'b \<Rightarrow> tls3_BUFFER \<Rightarrow> 'b \<Rightarrow> bool" where
  "drained sent ok wb b wb' b' \<longleftrightarrow> ok b' \<and> sent b' @ owed_of wb' = sent b @ owed_of wb \<and> rb_buf wb' = rb_buf wb \<and>
     rb_addr wb' = rb_addr wb \<and> rb_len wb' = rb_len wb \<and> rb_offset wb' + rb_left wb' = rb_offset wb + rb_left wb"

lemma on_wcore_frame [simp]:
  "w_numwpipes (on_wcore f s) = w_numwpipes s" "w_wbuf (on_wcore f s) = w_wbuf s" "w_wbio (on_wcore f s) = w_wbio s"
  "w_wpend_ret (on_wcore f s) = w_wpend_ret s" "w_wpend_tot (on_wcore f s) = w_wpend_tot s"
  "w_wpend_type (on_wcore f s) = w_wpend_type s" "w_wpend_buf (on_wcore f s) = w_wpend_buf s"
  "w_wnum (on_wcore f s) = w_wnum s" "mode_set md (on_wcore f s) = mode_set md s" "w_mode (on_wcore f s) = w_mode s"
  by (simp_all add: on_wcore_def mode_set_def)

lemma drained_trans: "drained sent ok wb b wb1 b1 \<Longrightarrow> drained sent ok wb1 b1 wb2 b2 \<Longrightarrow> drained sent ok wb b wb2 b2"
  by (simp add: drained_def)

lemma wbuf_fits_drained: "drained sent ok wb b wb' b' \<Longrightarrow> wbuf_fits mx wb \<Longrightarrow> wbuf_fits mx wb'"
  by (auto simp: drained_def wbuf_fits_def split: option.splits)

lemma length_owed_of: "wbuf_fits mx wb \<Longrightarrow> length (owed_of wb) = rb_left wb"
  by (auto simp: wbuf_fits_def owed_of_def split: option.splits)

text \<open>One pass of the loop of \<open>tls3_write_pending\<close> over a single pipeline.\<close>

lemma pending_pass:
  assumes s: "w_numwpipes s = 1" "\<not> tls_IS_DTLS (w_core s)" "w_wbuf s = wb # wbs" "wbuf_fits mx wb" "0 < rb_left wb" "w_wbio s = Some b"
    and w: "p_bio_write e b (owed_of wb) = Some (ret, b1)"
  defines "wb1 \<equiv> wb\<lparr>rb_left := rb_left wb - nat ret, rb_offset := rb_offset wb + nat ret\<rparr>"
  shows "ret \<le> 0 \<Longrightarrow> write_pending_loop e 0 s =
      Some (ret, None, (on_wcore (rwstate_update (\<lambda>_. tls_WRITING)) s)\<lparr>w_wbuf := wb # wbs, w_wbio := Some b1\<rparr>)"
    "0 < ret \<Longrightarrow> nat ret = rb_left wb \<Longrightarrow> write_pending_loop e 0 s = Some (1, Some (w_wpend_ret s),
      (on_wcore (rwstate_update (\<lambda>_. tls_NOTHING)) s)\<lparr>w_wbuf := wb1 # wbs, w_wbio := Some b1\<rparr>)"
    "0 < ret \<Longrightarrow> nat ret < rb_left wb \<Longrightarrow> write_pending_loop e 0 s = write_pending_loop e 0
      ((on_wcore (rwstate_update (\<lambda>_. tls_WRITING)) s)\<lparr>w_wbuf := wb1 # wbs, w_wbio := Some b1\<rparr>)"
proof -
  obtain m where m: "rb_buf wb = Some m" "mem_read m (rb_offset wb) (rb_left wb) = Some (owed_of wb)"
    using s(4) by (auto simp: wbuf_fits_def owed_of_def mem_read_def split: option.splits)
  have eq: "s\<lparr>w_g := g, w_wbio := c\<rparr> = s\<lparr>w_g := g, w_wbuf := wb # wbs, w_wbio := c\<rparr>" for g c
    using s(3) by simp
  have swap: "s\<lparr>w_g := g, w_wbio := c, w_wbuf := x\<rparr> = s\<lparr>w_g := g, w_wbuf := x, w_wbio := c\<rparr>" for g c x
    by simp
  show "ret \<le> 0 \<Longrightarrow> write_pending_loop e 0 s =
      Some (ret, None, (on_wcore (rwstate_update (\<lambda>_. tls_WRITING)) s)\<lparr>w_wbuf := wb # wbs, w_wbio := Some b1\<rparr>)"
    using s m w by (subst write_pending_loop.simps) (simp add: on_wcore_def on_gcore_def tls_IS_DTLS_def eq)
  show "0 < ret \<Longrightarrow> nat ret = rb_left wb \<Longrightarrow> write_pending_loop e 0 s = Some (1, Some (w_wpend_ret s),
      (on_wcore (rwstate_update (\<lambda>_. tls_NOTHING)) s)\<lparr>w_wbuf := wb1 # wbs, w_wbio := Some b1\<rparr>)"
    using s m w by (subst write_pending_loop.simps) (simp add: on_wcore_def on_gcore_def on_wbuf_def wb1_def)
  show "0 < ret \<Longrightarrow> nat ret < rb_left wb \<Longrightarrow> write_pending_loop e 0 s = write_pending_loop e 0
      ((on_wcore (rwstate_update (\<lambda>_. tls_WRITING)) s)\<lparr>w_wbuf := wb1 # wbs, w_wbio := Some b1\<rparr>)"
    using s m w by (subst write_pending_loop.simps) (simp add: on_wcore_def on_gcore_def on_wbuf_def wb1_def Let_def swap)
qed

context byte_sink
begin

lemma write_pending_drains:
  assumes e: "p_bio_write e = wr"
  shows "w_numwpipes s = 1 \<Longrightarrow> \<not> tls_IS_DTLS (w_core s) \<Longrightarrow> w_wbuf s = wb # wbs \<Longrightarrow> wbuf_fits mx wb \<Longrightarrow>
    0 < rb_left wb \<Longrightarrow> w_wbio s = Some b \<Longrightarrow> ok b \<Longrightarrow> length (sent b) + rb_left wb \<le> cap \<Longrightarrow>
    \<exists>ret k rw wb' b'. write_pending_loop e 0 s =
        Some (ret, k, (on_wcore (rwstate_update (\<lambda>_. rw)) s)\<lparr>w_wbuf := wb' # wbs, w_wbio := Some b'\<rparr>) \<and>
      drained sent ok wb b wb' b' \<and>
      (ret = 1 \<and> k = Some (w_wpend_ret s) \<and> rb_left wb' = 0 \<or> fallible \<and> ret \<le> 0 \<and> k = None \<and> 0 < rb_left wb')"
proof (induction "rb_left wb" arbitrary: s wb b rule: less_induct)
  case less
  have len: "length (owed_of wb) = rb_left wb" "owed_of wb \<noteq> []"
    using length_owed_of [OF less.prems(4)] less.prems(5) by auto
  obtain ret b1 where w: "p_bio_write e b (owed_of wb) = Some (ret, b1)" "ok b1"
    "0 < ret \<and> nat ret \<le> rb_left wb \<and> sent b1 = sent b @ take (nat ret) (owed_of wb) \<or>
     fallible \<and> ret \<le> 0 \<and> sent b1 = sent b"
    using write_law [OF less.prems(7) len(2)] len(1) less.prems(8) e by auto
  let ?wb = "wb\<lparr>rb_left := rb_left wb - nat ret, rb_offset := rb_offset wb + nat ret\<rparr>"
  let ?t = "(on_wcore (rwstate_update (\<lambda>_. tls_WRITING)) s)\<lparr>w_wbuf := ?wb # wbs, w_wbio := Some b1\<rparr>"
  note pass = pending_pass [OF less.prems(1-6) w(1)]
  have part: "drained sent ok wb b ?wb b1"
    using w owed_of_part [of "nat ret" wb] by (auto simp: drained_def)
  consider "ret \<le> 0" "fallible" | "0 < ret" "nat ret = rb_left wb" | "0 < ret" "nat ret < rb_left wb"
    using w(3) by fastforce
  then show ?case
  proof cases
    case 1
    then show ?thesis
      using pass(1) less.prems(5) w
      by (intro exI [of _ ret] exI [of _ None] exI [of _ tls_WRITING] exI [of _ wb] exI [of _ b1]) (auto simp: drained_def)
  next
    case 2
    then show ?thesis
      using pass(2) part by (intro exI conjI) auto
  next
    case 3
    have "length (sent b1) + rb_left ?wb \<le> cap" "\<not> tls_IS_DTLS (w_core ?t)"
      using w(3) len(1) less.prems(2,8) 3 by (auto simp: on_wcore_def on_gcore_def tls_IS_DTLS_def)
    then obtain ret' k rw wb' b' where "write_pending_loop e 0 ?t =
        Some (ret', k, (on_wcore (rwstate_update (\<lambda>_. rw)) ?t)\<lparr>w_wbuf := wb' # wbs, w_wbio := Some b'\<rparr>)"
      "drained sent ok ?wb b1 wb' b'"
      "ret' = 1 \<and> k = Some (w_wpend_ret ?t) \<and> rb_left wb' = 0 \<or> fallible \<and> ret' \<le> 0 \<and> k = None \<and> 0 < rb_left wb'"
      using less.hyps [of ?wb ?t b1] less.prems(1) 3 w(2) wbuf_fits_drained [OF part less.prems(4)] by auto
    then show ?thesis
      using drained_trans [OF part] pass(3) [OF 3]
      by (intro exI [of _ ret'] exI [of _ k] exI [of _ rw] exI [of _ wb'] exI [of _ b']) (simp add: on_wcore_def on_gcore_def)
  qed
qed

end

section \<open>All of the data\<close>

text \<open>The data cut into fragments, and the records that carry them.\<close>

function fragments :: "nat \<Rightarrow> bytes \<Rightarrow> bytes list" where
  "fragments mx d = (if d = [] \<or> mx = 0 then [] else take mx d # fragments mx (drop mx d))"
  by pat_completeness auto

termination
  by (relation "measure (\<lambda>(mx, d). length d)") auto

declare fragments.simps [simp del]

definition frames_of :: "nat \<Rightarrow> byte \<Rightarrow> byte \<Rightarrow> bytes \<Rightarrow> Record_Frame.frame list" where
  "frames_of mx ty v d = map (\<lambda>c. (ty, v, c)) (fragments mx d)"

definition record_stream :: "nat \<Rightarrow> byte \<Rightarrow> byte \<Rightarrow> bytes \<Rightarrow> bytes" where
  "record_stream mx ty v d = concat (map wire (frames_of mx ty v d))"

lemma record_stream_Nil [simp]: "record_stream mx ty v [] = []"
  by (simp add: record_stream_def frames_of_def fragments.simps)

lemma record_stream_step:
  assumes "d \<noteq> []" and "0 < mx"
  shows "record_stream mx ty v d = wire (ty, v, take mx d) @ record_stream mx ty v (drop mx d)"
  using assms by (simp add: record_stream_def frames_of_def fragments.simps [of mx d])

lemma fragments_concat: "0 < mx \<Longrightarrow> concat (fragments mx d) = d"
proof (induction mx d rule: fragments.induct)
  case (1 mx d)
  then show ?case
    by (cases "d = []") (auto simp: fragments.simps [of mx d] fragments.simps [of mx "[]"])
qed

lemma fragments_bounds: "c \<in> set (fragments mx d) \<Longrightarrow> c \<noteq> [] \<and> length c \<le> mx"
proof (induction mx d rule: fragments.induct)
  case (1 mx d)
  then show ?case
    by (cases "d = [] \<or> mx = 0") (auto simp: fragments.simps [of mx d])
qed

lemma pipe_lens_single: "0 < n \<Longrightarrow> 0 < mx \<Longrightarrow> pipe_lens n split_frag mx 1 = [min n mx]"
  by (auto simp: pipe_lens_def)

text \<open>Where a write stands: what of \<open>data\<close> is still to be sent, and when a call may take it up.\<close>

definition unsent :: "byte \<Rightarrow> byte \<Rightarrow> bytes \<Rightarrow> ('b, 'c, 'w) wconn \<Rightarrow> bytes" where
  "unsent ty v data s = owed_of (w_wbuf s ! 0) @ record_stream (tls_get_max_send_fragment s) ty v
     (drop (w_wnum s + (if rb_left (w_wbuf s ! 0) = 0 then 0 else w_wpend_tot s)) data)"

definition resumable :: "byte \<Rightarrow> nat \<Rightarrow> bytes \<Rightarrow> ('b, 'c, 'w) wconn \<Rightarrow> bool" where
  "resumable ty buf data s \<longleftrightarrow> w_wnum s \<le> length data \<and> (rb_left (w_wbuf s ! 0) \<noteq> 0 \<longrightarrow>
     w_wnum s + w_wpend_tot s \<le> length data \<and> w_wpend_ret s = w_wpend_tot s \<and> w_wpend_type s = uint ty \<and>
     (mode_set tls_MODE_ACCEPT_MOVING_WRITE_BUFFER s \<or> w_wpend_buf s = buf + w_wnum s))"

text \<open>
  The outcome of a call that had \<open>todo\<close> (with what was sent before in front) to bring on its way: it
  is done, up to byte \<open>k\<close>, or it is stuck in a state from which it can be taken up.
\<close>

definition write_outcome :: "bool \<Rightarrow> ('w \<Rightarrow> bytes) \<Rightarrow> ('w \<Rightarrow> bool) \<Rightarrow> byte \<Rightarrow> byte \<Rightarrow> nat \<Rightarrow> bytes \<Rightarrow> ('b, 'c, 'w) wconn \<Rightarrow> bytes
    \<Rightarrow> int \<times> nat option \<times> ('b, 'c, 'w) wconn \<Rightarrow> bool" where
  "write_outcome fallible sent ok ty v buf data s todo res \<longleftrightarrow> (case res of (r, wr, s') \<Rightarrow>
     settings s' = settings s \<and> plain_buffers s' \<and> (\<exists>b. w_wbio s' = Some b \<and> ok b \<and>
       (if r = 1 then w_wnum s' = 0 \<and> rb_left (w_wbuf s' ! 0) = 0 \<and> (\<exists>k \<le> length data. wr = Some k \<and>
            (k = length data \<or> ty = 23 \<and> mode_set tls_MODE_ENABLE_PARTIAL_WRITE s) \<and>
            sent b @ record_stream (tls_get_max_send_fragment s) ty v (drop k data) = todo)
        else fallible \<and> r \<le> 0 \<and> wr = None \<and> resumable ty buf data s' \<and> sent b @ unsent ty v data s' = todo)))"

lemma write_outcome_cong:
  assumes "settings s' = settings s"
  shows "write_outcome fallible sent ok ty v buf data s' todo res = write_outcome fallible sent ok ty v buf data s todo res"
  using settings_values(2,4) [OF assms] assms by (simp add: write_outcome_def split: prod.split)

lemma release_plain:
  assumes "plain_buffers s" and "rb_left (w_wbuf s ! 0) = 0"
  shows "plain_buffers (tls3_release_write_buffer s)" "rb_left (w_wbuf (tls3_release_write_buffer s) ! 0) = 0"
    "settings (tls3_release_write_buffer s) = settings s" "w_wbio (tls3_release_write_buffer s) = w_wbio s"
    "w_wnum (tls3_release_write_buffer s) = w_wnum s"
proof -
  obtain wb wbs where wb: "w_wbuf s = wb # wbs"
    using assms(1) by (cases "w_wbuf s") (auto simp: plain_buffers_def)
  have "w_wbuf (tls3_release_write_buffer s) = wb\<lparr>rb_buf := None\<rparr> # wbs"
  proof (cases "w_numwpipes s = 0")
    case True
    then have "wb\<lparr>rb_buf := None\<rparr> = wb" using assms(1) wb by (cases wb) (simp add: plain_buffers_def)
    with True wb show ?thesis by (simp add: tls3_release_write_buffer_def)
  next
    case False
    then have "w_numwpipes s = Suc 0" using assms(1) by (simp add: plain_buffers_def)
    with wb show ?thesis by (simp add: tls3_release_write_buffer_def)
  qed
  then show "plain_buffers (tls3_release_write_buffer s)" "rb_left (w_wbuf (tls3_release_write_buffer s) ! 0) = 0"
    using assms(2) wb by (simp_all add: plain_buffers_def tls3_release_write_buffer_def)
qed (simp_all add: tls3_release_write_buffer_def)

text \<open>The state after the last byte went out, with the buffer kept or released.\<close>

lemma write_outcome_done:
  assumes "plain_buffers s" "rb_left (w_wbuf s ! 0) = 0" "w_wnum s = 0" "w_wbio s = Some b" "ok b" "settings s = settings s0"
    and "k \<le> length data" "k = length data \<or> ty = 23 \<and> mode_set tls_MODE_ENABLE_PARTIAL_WRITE s0"
    and "sent b @ record_stream (tls_get_max_send_fragment s0) ty v (drop k data) = todo"
  shows "write_outcome fallible sent ok ty v buf data s0 todo (1, Some k, if c then tls3_release_write_buffer s else s)"
  using assms release_plain [OF assms(1,2)] by (auto simp: write_outcome_def)

lemma uint_eq_23: "uint (ty :: byte) = 23 \<longleftrightarrow> ty = 23"
  by (simp add: word_uint_eq_iff)

text \<open>One pass of the loop of \<open>tls3_write_bytes\<close>.\<close>

lemma loop_pass:
  fixes ty :: byte
  assumes "pipe_lens N sp mx 1 = [n]"
    and "do_tls3_write e (uint ty) (buf + tot) (drop tot data) [n] False s = Some (ret, k, s')"
  defines "t \<equiv> s'\<lparr>w_empty_fragment_done := False\<rparr>"
  shows "ret \<le> 0 \<Longrightarrow> write_bytes_loop e (uint ty) buf data sp mx 1 N tot s = Some (ret, None, s'\<lparr>w_wnum := tot\<rparr>)"
    "ret = 1 \<Longrightarrow> k = Some n \<Longrightarrow> n = N \<or> ty = 23 \<and> mode_set tls_MODE_ENABLE_PARTIAL_WRITE s' \<Longrightarrow>
      write_bytes_loop e (uint ty) buf data sp mx 1 N tot s = Some (1, Some (tot + n),
        if n = N \<and> mode_set tls_MODE_RELEASE_BUFFERS t \<and> \<not> tls_IS_DTLS (w_core t) then tls3_release_write_buffer t else t)"
    "ret = 1 \<Longrightarrow> k = Some n \<Longrightarrow> n \<noteq> N \<Longrightarrow> \<not> (ty = 23 \<and> mode_set tls_MODE_ENABLE_PARTIAL_WRITE s') \<Longrightarrow>
      write_bytes_loop e (uint ty) buf data sp mx 1 N tot s =
        write_bytes_loop e (uint ty) buf data sp mx 1 (usub N n) (tot + n) s'"
proof -
  note step = write_bytes_loop.simps [of e "uint ty" buf data sp mx 1 N tot s] and
    simps = assms(1,2) Option.bind.simps prod.case option.case Let_def uint_eq_23 simp_thms not_one_le_zero if_True if_False
  show "ret \<le> 0 \<Longrightarrow> write_bytes_loop e (uint ty) buf data sp mx 1 N tot s = Some (ret, None, s'\<lparr>w_wnum := tot\<rparr>)"
    by (subst step) (simp only: simps)
  show "ret = 1 \<Longrightarrow> k = Some n \<Longrightarrow> n = N \<or> ty = 23 \<and> mode_set tls_MODE_ENABLE_PARTIAL_WRITE s' \<Longrightarrow>
      write_bytes_loop e (uint ty) buf data sp mx 1 N tot s = Some (1, Some (tot + n),
        if n = N \<and> mode_set tls_MODE_RELEASE_BUFFERS t \<and> \<not> tls_IS_DTLS (w_core t) then tls3_release_write_buffer t else t)"
    unfolding t_def by (subst step) (auto simp only: simps)
  show "ret = 1 \<Longrightarrow> k = Some n \<Longrightarrow> n \<noteq> N \<Longrightarrow> \<not> (ty = 23 \<and> mode_set tls_MODE_ENABLE_PARTIAL_WRITE s') \<Longrightarrow>
      write_bytes_loop e (uint ty) buf data sp mx 1 N tot s =
        write_bytes_loop e (uint ty) buf data sp mx 1 (usub N n) (tot + n) s'"
    by (subst step) (auto simp only: simps)
qed

context byte_sink
begin

lemma pending_call:
  assumes e: "p_bio_write e = wr" and s: "plain_settings e v s" "plain_buffers s" "rb_left (w_wbuf s ! 0) \<noteq> 0"
    "resumable ty buf data (s\<lparr>w_wnum := tot\<rparr>)" and b: "w_wbio s = Some b" "ok b" "length (sent b) + rb_left (w_wbuf s ! 0) \<le> cap"
  shows "\<exists>ret k s' b'. tls3_write_pending e (uint ty) (buf + tot) (w_wpend_tot s) s = Some (ret, k, s') \<and>
    settings s' = settings s \<and> plain_buffers s' \<and> w_wbio s' = Some b' \<and> ok b' \<and> w_wnum s' = w_wnum s \<and>
    sent b' @ owed_of (w_wbuf s' ! 0) = sent b @ owed_of (w_wbuf s ! 0) \<and>
    (ret = 1 \<and> k = Some (w_wpend_tot s) \<and> rb_left (w_wbuf s' ! 0) = 0 \<or>
     fallible \<and> ret \<le> 0 \<and> k = None \<and> rb_left (w_wbuf s' ! 0) \<noteq> 0 \<and> resumable ty buf data (s'\<lparr>w_wnum := tot\<rparr>) \<and> w_wpend_tot s' = w_wpend_tot s)"
proof -
  obtain wb wbs where wb: "w_wbuf s = wb # wbs"
    using s(2) by (cases "w_wbuf s") (auto simp: plain_buffers_def)
  have one: "w_numwpipes s = 1" "wbuf_fits (tls_get_max_send_fragment s) wb" "0 < rb_left wb" "\<not> tls_IS_DTLS (w_core s)"
    using s(1-3) wb by (auto simp: plain_buffers_def plain_settings_def split: if_splits)
  obtain ret k rw wb' b' where r: "write_pending_loop e 0 s =
      Some (ret, k, (on_wcore (rwstate_update (\<lambda>_. rw)) s)\<lparr>w_wbuf := wb' # wbs, w_wbio := Some b'\<rparr>)"
    "drained sent ok wb b wb' b'"
    "ret = 1 \<and> k = Some (w_wpend_ret s) \<and> rb_left wb' = 0 \<or> fallible \<and> ret \<le> 0 \<and> k = None \<and> 0 < rb_left wb'"
    using write_pending_drains [OF e one(1,4) wb one(2,3) b(1,2)] b(3) wb by auto
  let ?s = "(on_wcore (rwstate_update (\<lambda>_. rw)) s)\<lparr>w_wbuf := wb' # wbs, w_wbio := Some b'\<rparr>"
  have set: "settings ?s = settings s" by simp
  have "tls3_write_pending e (uint ty) (buf + tot) (w_wpend_tot s) s = Some (ret, k, ?s)"
    using s(3,4) r(1) by (auto simp: tls3_write_pending_def resumable_def mode_set_def)
  moreover have "plain_buffers ?s"
    using one(1) wbuf_fits_drained [OF r(2) one(2)] settings_values(2) [OF set] by (simp add: plain_buffers_def)
  moreover have "rb_left wb' \<noteq> 0 \<Longrightarrow> resumable ty buf data (?s\<lparr>w_wnum := tot\<rparr>)"
    using s(3,4) by (simp add: resumable_def mode_set_def on_wcore_def)
  ultimately show ?thesis
    using set r(2,3) wb s(3,4) by (intro exI [of _ ret] exI [of _ k] exI [of _ ?s] exI [of _ b']) (auto simp: drained_def resumable_def)
qed

text \<open>One call of \<open>do_tls3_write\<close> in the loop, from byte \<open>w_wnum s\<close> of the data on.\<close>

lemma fragment_call:
  assumes e: "plain_put_env e" "p_bio_write e = wr"
    and s: "plain_settings e v s" "plain_buffers s" "rb_left (w_wbuf s ! 0) = 0"
    and b: "w_wbio s = Some b" "ok b" and tot: "tot < length data" and mx: "mx = tls_get_max_send_fragment s"
    and n: "n = min (length data - tot) mx"
    and room: "length (sent b) + length (record_stream mx ty v (drop tot data)) \<le> cap"
  shows "\<exists>ret k s' b'. do_tls3_write e (uint ty) (buf + tot) (drop tot data) [n] False s = Some (ret, k, s') \<and>
    settings s' = settings s \<and> plain_buffers s' \<and> w_wbio s' = Some b' \<and> ok b' \<and>
    sent b' @ owed_of (w_wbuf s' ! 0) @ record_stream mx ty v (drop (tot + n) data) =
      sent b @ record_stream mx ty v (drop tot data) \<and>
    (ret = 1 \<and> k = Some n \<and> rb_left (w_wbuf s' ! 0) = 0 \<and> w_wnum s' = w_wnum s \<or>
     fallible \<and> ret \<le> 0 \<and> k = None \<and> rb_left (w_wbuf s' ! 0) \<noteq> 0 \<and> resumable ty buf data (s'\<lparr>w_wnum := tot\<rparr>) \<and> w_wpend_tot s' = n)"
proof -
  have n': "0 < n" "n \<le> mx" "n \<le> length (drop tot data)" "n \<le> tls_get_max_send_fragment s"
    using tot s(1) mx n by (auto simp: plain_settings_def)
  obtain wb where wb: "do_tls3_write e (uint ty) (buf + tot) (drop tot data) [n] False s =
      tls3_write_pending e (uint ty) (buf + tot) n (s\<lparr>w_numwpipes := 1, w_wbuf := wb # tl (w_wbuf s),
         w_wpend_tot := n, w_wpend_buf := buf + tot, w_wpend_type := uint ty, w_wpend_ret := n\<rparr>)"
    "wbuf_fits mx wb" "rb_left wb = n + 5" "owed_of wb = wire (ty, v, take n (drop tot data))"
    using do_write_plain [OF e(1) s n'(1,4,3)] mx by blast
  have first: "record_stream mx ty v (drop tot data) = owed_of wb @ record_stream mx ty v (drop (tot + n) data)"
  proof -
    have "take mx (drop tot data) = take n (drop tot data)" "drop mx (drop tot data) = drop (tot + n) data"
      using n tot by (auto simp: min_def add.commute)
    then show ?thesis
      using record_stream_step [of "drop tot data" mx ty v] tot n' wb(4) by simp
  qed
  define t where "t = s\<lparr>w_numwpipes := 1, w_wbuf := wb # tl (w_wbuf s),
         w_wpend_tot := n, w_wpend_buf := buf + tot, w_wpend_type := uint ty, w_wpend_ret := n\<rparr>"
  have t: "settings t = settings s" "w_wbio t = Some b" "w_wbuf t ! 0 = wb" "w_wnum t = w_wnum s" "w_wpend_tot t = n"
    "w_numwpipes t = 1" "w_wbuf t \<noteq> []"
    using b by (simp_all add: t_def)
  have t': "plain_settings e v t" "plain_buffers t" "resumable ty buf data (t\<lparr>w_wnum := tot\<rparr>)"
    using settings_values [OF t(1)] s(1) t wb(2) mx n'(3) tot by (auto simp: plain_buffers_def resumable_def t_def)
  have "length (sent b) + rb_left (w_wbuf t ! 0) \<le> cap"
    using room first length_owed_of [OF wb(2)] t(3) by simp
  from pending_call [OF e(2) t'(1,2) _ t'(3) t(2) b(2) this]
  obtain ret k s' b' where "tls3_write_pending e (uint ty) (buf + tot) n t = Some (ret, k, s')"
    "settings s' = settings s" "plain_buffers s'" "w_wbio s' = Some b'" "ok b'" "w_wnum s' = w_wnum s"
    "sent b' @ owed_of (w_wbuf s' ! 0) = sent b @ owed_of wb"
    "ret = 1 \<and> k = Some n \<and> rb_left (w_wbuf s' ! 0) = 0 \<or>
     fallible \<and> ret \<le> 0 \<and> k = None \<and> rb_left (w_wbuf s' ! 0) \<noteq> 0 \<and> resumable ty buf data (s'\<lparr>w_wnum := tot\<rparr>) \<and> w_wpend_tot s' = n"
    using t wb(3) by auto
  then show ?thesis
    using wb(1) first unfolding t_def [symmetric]
    by (intro exI [of _ ret] exI [of _ k] exI [of _ s'] exI [of _ b']) (auto simp: append_assoc [symmetric] simp del: append_assoc)
qed

lemma loop_outcome:
  fixes s :: "('x, 'c, 'b) wconn"
  assumes e: "plain_put_env e" "p_bio_write e = wr" and len: "length data \<le> SIZE_MAX" and sp: "0 < sp"
  shows "plain_settings e v s \<Longrightarrow> plain_buffers s \<Longrightarrow> rb_left (w_wbuf s ! 0) = 0 \<Longrightarrow> w_wnum s = 0 \<Longrightarrow>
    w_wbio s = Some b \<Longrightarrow> ok b \<Longrightarrow> tot < length data \<Longrightarrow> mx = tls_get_max_send_fragment s \<Longrightarrow>
    length (sent b) + length (record_stream mx ty v (drop tot data)) \<le> cap \<Longrightarrow>
    \<exists>res. write_bytes_loop e (uint ty) buf data sp mx 1 (length data - tot) tot s = Some res \<and>
      write_outcome fallible sent ok ty v buf data s (sent b @ record_stream mx ty v (drop tot data)) res"
proof (induction "length data - tot" arbitrary: tot s b rule: less_induct)
  case less
  note s = less.prems
  let ?N = "length data - tot"
  let ?n = "min ?N mx"
  let ?todo = "sent b @ record_stream mx ty v (drop tot data)"
  have mx: "0 < mx" "pipe_lens ?N sp mx 1 = [?n]"
    using s(1,7,8) pipe_lens_single [of ?N mx] by (simp_all add: plain_settings_def)
  obtain ret k s' b' where r: "do_tls3_write e (uint ty) (buf + tot) (drop tot data) [?n] False s = Some (ret, k, s')"
    "settings s' = settings s" "plain_buffers s'" "w_wbio s' = Some b'" "ok b'"
    "sent b' @ owed_of (w_wbuf s' ! 0) @ record_stream mx ty v (drop (tot + ?n) data) = ?todo"
    "ret = 1 \<and> k = Some ?n \<and> rb_left (w_wbuf s' ! 0) = 0 \<and> w_wnum s' = w_wnum s \<or>
     fallible \<and> ret \<le> 0 \<and> k = None \<and> rb_left (w_wbuf s' ! 0) \<noteq> 0 \<and> resumable ty buf data (s'\<lparr>w_wnum := tot\<rparr>) \<and> w_wpend_tot s' = ?n"
    using fragment_call [OF e s(1-3,5-8) refl s(9)] by blast
  note cong = write_outcome_cong [OF r(2)] and vals = settings_values [OF r(2)]
  note pass = loop_pass [OF mx(2) r(1)]
  consider "ret \<le> 0" | "ret = 1" "?n = ?N \<or> ty = 23 \<and> mode_set tls_MODE_ENABLE_PARTIAL_WRITE s'"
    | "ret = 1" "?n \<noteq> ?N" "\<not> (ty = 23 \<and> mode_set tls_MODE_ENABLE_PARTIAL_WRITE s')"
    using r(7) by blast
  then show ?case
  proof cases
    case 1
    have "write_outcome fallible sent ok ty v buf data s ?todo (ret, None, s'\<lparr>w_wnum := tot\<rparr>)"
      using 1 r(2-7) s(8) vals(2) by (auto simp: write_outcome_def unsent_def)
    with pass(1) [OF 1] show ?thesis by blast
  next
    case 2
    then have ok: "k = Some ?n" "rb_left (w_wbuf s' ! 0) = 0" "w_wnum s' = 0" using r(7) s(4) by auto
    have "write_outcome fallible sent ok ty v buf data s ?todo
      (1, Some (tot + ?n), if c then tls3_release_write_buffer (s'\<lparr>w_empty_fragment_done := False\<rparr>)
        else s'\<lparr>w_empty_fragment_done := False\<rparr>)" for c
    proof (rule write_outcome_done)
      show "sent b' @ record_stream (tls_get_max_send_fragment s) ty v (drop (tot + ?n) data) = ?todo"
        using r(6) ok(2) s(8) by (simp add: owed_of_def split: option.splits)
      show "tot + ?n = length data \<or> ty = 23 \<and> mode_set tls_MODE_ENABLE_PARTIAL_WRITE s"
        using 2(2) s(7) vals(4) by (metis le_add_diff_inverse less_imp_le)
    qed (use s(7) in \<open>simp_all add: ok r(2-5)\<close>)
    with pass(2) [OF 2(1) ok(1) 2(2)] show ?thesis by blast
  next
    case 3
    then have ok: "k = Some mx" "?n = mx" "mx < ?N" "rb_left (w_wbuf s' ! 0) = 0" "w_wnum s' = 0"
      using r(7) s(4) by auto
    have todo: "sent b' @ record_stream mx ty v (drop (tot + mx) data) = ?todo"
      using r(6) ok(2,4) by (simp add: owed_of_def split: option.splits)
    have "length (sent b') + length (record_stream mx ty v (drop (tot + mx) data)) \<le> cap"
      using s(9) arg_cong [OF todo, of length] by simp
    moreover have "length data - (tot + mx) < ?N" "tot + mx < length data" using ok(3) mx(1) by auto
    ultimately obtain res where "write_bytes_loop e (uint ty) buf data sp mx 1 (length data - (tot + mx)) (tot + mx) s' = Some res"
      "write_outcome fallible sent ok ty v buf data s' ?todo res"
      using less.hyps [of "tot + mx" s' b'] r(3-5) ok vals(1,2) s(1,8) todo by auto
    moreover have "usub ?N mx = length data - (tot + mx)"
      using ok(3) len by (simp add: usub_eq)
    ultimately show ?thesis
      using pass(3) [OF 3(1) _ 3(2,3)] ok(1,2) cong by auto
  qed
qed

lemma rest_outcome:
  fixes s :: "('x, 'c, 'b) wconn"
  assumes e: "plain_put_env e" "p_bio_write e = wr" and len: "length data \<le> SIZE_MAX"
    and s: "plain_settings e v s" "plain_buffers s" "rb_left (w_wbuf s ! 0) = 0" "w_wnum s = 0" "w_wbio s = Some b" "ok b"
    and tot: "tot \<le> length data" and mx: "mx = tls_get_max_send_fragment s"
    and room: "length (sent b) + length (record_stream mx ty v (drop tot data)) \<le> cap"
  shows "\<exists>res. write_bytes_rest e (uint ty) buf data tot s = Some res \<and>
    write_outcome fallible sent ok ty v buf data s (sent b @ record_stream mx ty v (drop tot data)) res"
proof (cases "tot = length data")
  case True
  then show ?thesis
    using write_outcome_done [of s b ok s tot data ty sent v "sent b" fallible buf
        "mode_set tls_MODE_RELEASE_BUFFERS s \<and> \<not> tls_IS_DTLS (w_core s)"] s
    by (simp add: write_bytes_rest_def Let_def)
next
  case False
  then have lt: "tot < length data" using tot by simp
  have conf: "0 < mx" "0 < tls_get_split_send_fragment s" "tls_get_split_send_fragment s \<le> mx"
    "g_max_pipelines (w_g s) \<le> tls_MAX_PIPELINES" "no_cipher s" "usub (length data) tot = length data - tot"
    using s(1) mx len tot by (simp_all add: plain_settings_def usub_eq)
  have "write_bytes_rest e (uint ty) buf data tot s =
      write_bytes_loop e (uint ty) buf data (tls_get_split_send_fragment s) mx 1 (length data - tot) tot s"
    using False conf mx by (simp add: write_bytes_rest_def Let_def)
  then show ?thesis
    using loop_outcome [OF e len conf(2) s lt mx room] by simp
qed

lemma start_plain:
  assumes "plain_settings e v s" and "resumable ty buf data s" and "length data \<le> SIZE_MAX"
  shows "write_bytes_start e (length data) s =
    Some (1, (on_wcore (rwstate_update (\<lambda>_. tls_NOTHING)) s)\<lparr>w_wnum := 0\<rparr>)"
  using assms by (auto simp: write_bytes_start_def Let_def plain_settings_def resumable_def uadd_eq on_wcore_def
      on_gcore_def tls_in_init_def)

text \<open>The two ways on from there: a record is still in the buffer, or not.\<close>

lemma resume_outcome:
  fixes s :: "('x, 'c, 'b) wconn"
  assumes e: "plain_put_env e" "p_bio_write e = wr" and len: "length data \<le> SIZE_MAX"
    and s: "plain_settings e v s" "plain_buffers s" "rb_left (w_wbuf s ! 0) \<noteq> 0" "w_wnum s = 0"
      "resumable ty buf data (s\<lparr>w_wnum := tot\<rparr>)"
    and b: "w_wbio s = Some b" "ok b"
    and room: "length (sent b) + length (unsent ty v data (s\<lparr>w_wnum := tot\<rparr>)) \<le> cap"
  shows "\<exists>res. (do { (i, wr, s) \<leftarrow> tls3_write_pending e (uint ty) (buf + tot) (w_wpend_tot s) s;
      if i \<le> 0 then Some (i, None, s\<lparr>w_wnum := tot\<rparr>)
      else write_bytes_rest e (uint ty) buf data (tot + (case wr of None \<Rightarrow> 0 | Some k \<Rightarrow> k)) s }) = Some res \<and>
    write_outcome fallible sent ok ty v buf data s (sent b @ unsent ty v data (s\<lparr>w_wnum := tot\<rparr>)) res"
proof -
  let ?mx = "tls_get_max_send_fragment s" and ?k = "w_wpend_tot s" and ?todo = "sent b @ unsent ty v data (s\<lparr>w_wnum := tot\<rparr>)"
  have un: "unsent ty v data (s\<lparr>w_wnum := tot\<rparr>) = owed_of (w_wbuf s ! 0) @ record_stream ?mx ty v (drop (tot + ?k) data)"
    using s(3) by (simp add: unsent_def)
  have "length (owed_of (w_wbuf s ! 0)) = rb_left (w_wbuf s ! 0)"
    using s(2,3) by (intro length_owed_of) (auto simp: plain_buffers_def split: if_splits)
  then have owed: "length (sent b) + rb_left (w_wbuf s ! 0) \<le> cap"
    using room un by simp
  obtain ret k s' b' where r: "tls3_write_pending e (uint ty) (buf + tot) ?k s = Some (ret, k, s')"
    "settings s' = settings s" "plain_buffers s'" "w_wbio s' = Some b'" "ok b'" "w_wnum s' = 0"
    "sent b' @ owed_of (w_wbuf s' ! 0) = sent b @ owed_of (w_wbuf s ! 0)"
    "ret = 1 \<and> k = Some ?k \<and> rb_left (w_wbuf s' ! 0) = 0 \<or>
     fallible \<and> ret \<le> 0 \<and> k = None \<and> rb_left (w_wbuf s' ! 0) \<noteq> 0 \<and> resumable ty buf data (s'\<lparr>w_wnum := tot\<rparr>) \<and> w_wpend_tot s' = ?k"
    using pending_call [OF e(2) s(1-3,5) b owed] s(4) by auto
  note vals = settings_values [OF r(2)] and cong = write_outcome_cong [OF r(2)]
  show ?thesis
  proof (cases "ret = 1")
    case True
    then have fin: "k = Some ?k" "rb_left (w_wbuf s' ! 0) = 0" using r(8) by auto
    have todo: "?todo = sent b' @ record_stream ?mx ty v (drop (tot + ?k) data)"
      using r(7) fin(2) un by (simp add: owed_of_def split: option.splits)
    have "length (sent b') + length (record_stream ?mx ty v (drop (tot + ?k) data)) \<le> cap"
      using room arg_cong [OF todo, of length] by simp
    moreover have "tot + ?k \<le> length data" using s(3,5) by (simp add: resumable_def)
    ultimately show ?thesis
      using rest_outcome [OF e len _ r(3) fin(2) r(6,4,5), of v "tot + ?k" ?mx ty buf] vals(1,2) s(1) todo cong True fin(1) r(1)
      by simp
  next
    case False
    then have "ret \<le> 0" using r(8) by blast
    moreover have "write_outcome fallible sent ok ty v buf data s ?todo (ret, None, s'\<lparr>w_wnum := tot\<rparr>)"
      using False r(2-8) vals(2) un
      by (auto simp: write_outcome_def unsent_def append_assoc [symmetric] simp del: append_assoc)
    ultimately show ?thesis
      using r(1) by simp
  qed
qed

lemma write_bytes_outcome:
  fixes s :: "('x, 'c, 'b) wconn"
  assumes e: "plain_put_env e" "p_bio_write e = wr" and len: "length data \<le> SIZE_MAX"
    and s: "plain_settings e v s" "plain_buffers s" "resumable ty buf data s" and b: "w_wbio s = Some b" "ok b"
    and room: "length (sent b) + length (unsent ty v data s) \<le> cap"
  shows "\<exists>res. tls3_write_bytes e (uint ty) buf data s = Some res \<and>
    write_outcome fallible sent ok ty v buf data s (sent b @ unsent ty v data s) res"
proof -
  define t where "t = (on_wcore (rwstate_update (\<lambda>_. tls_NOTHING)) s)\<lparr>w_wnum := 0\<rparr>"
  let ?tot = "w_wnum s"
  have t: "settings t = settings s" "plain_buffers t" "w_wbuf t = w_wbuf s" "w_wbio t = Some b" "w_wnum t = 0"
    "resumable ty buf data (t\<lparr>w_wnum := ?tot\<rparr>)" "w_wpend_tot t = w_wpend_tot s"
    using s b by (simp_all add: t_def resumable_def mode_set_def)
  note vals = settings_values [OF t(1)] and cong = write_outcome_cong [OF t(1)]
  have pt: "plain_settings e v t" using vals(1) s(1) by simp
  have un: "unsent ty v data (t\<lparr>w_wnum := ?tot\<rparr>) = unsent ty v data s"
    using t(3,7) vals(2) by (simp add: unsent_def)
  have start: "write_bytes_start e (length data) s = Some (1, t)"
    unfolding t_def by (rule start_plain [OF s(1,3) len])
  show ?thesis
  proof (cases "rb_left (w_wbuf s ! 0) = 0")
    case True
    then have "unsent ty v data s = record_stream (tls_get_max_send_fragment t) ty v (drop ?tot data)"
      using vals(2) by (simp add: unsent_def owed_of_def split: option.splits)
    moreover have "?tot \<le> length data" using s(3) by (simp add: resumable_def)
    moreover have "tls3_write_bytes e (uint ty) buf data s = write_bytes_rest e (uint ty) buf data ?tot t"
      using start True t(3) by (simp add: tls3_write_bytes_def)
    ultimately show ?thesis
      using rest_outcome [OF e len pt t(2) _ t(5,4) b(2), of ?tot "tls_get_max_send_fragment t" ty buf] True t(3) room cong
      by simp
  next
    case False
    then show ?thesis
      using resume_outcome [OF e len pt t(2) _ t(5,6,4) b(2)] t(3) room un cong start by (simp add: tls3_write_bytes_def Let_def)
  qed
qed

end

section \<open>Retries\<close>

text \<open>The caller's loop around a BIO that may not take everything: the same call again, at most \<open>n\<close> times.\<close>

fun write_retry :: "('b, 'c, 'w) put_env \<Rightarrow> int \<Rightarrow> nat \<Rightarrow> bytes \<Rightarrow> nat \<Rightarrow> ('b, 'c, 'w) wconn
    \<Rightarrow> (int \<times> nat option \<times> ('b, 'c, 'w) wconn) option" where
  "write_retry e ty buf data 0 s = tls3_write_bytes e ty buf data s"
| "write_retry e ty buf data (Suc n) s = do {
     (r, wr, s) \<leftarrow> tls3_write_bytes e ty buf data s;
     if r > 0 then Some (r, wr, s) else write_retry e ty buf data n s
   }"

context byte_sink
begin

lemma retry_outcome:
  fixes s :: "('x, 'c, 'b) wconn"
  assumes e: "plain_put_env e" "p_bio_write e = wr" and len: "length data \<le> SIZE_MAX"
  shows "plain_settings e v s \<Longrightarrow> plain_buffers s \<Longrightarrow> resumable ty buf data s \<Longrightarrow> w_wbio s = Some b \<Longrightarrow> ok b \<Longrightarrow>
    length (sent b) + length (unsent ty v data s) \<le> cap \<Longrightarrow>
    \<exists>res. write_retry e (uint ty) buf data n s = Some res \<and>
      write_outcome fallible sent ok ty v buf data s (sent b @ unsent ty v data s) res"
proof (induction n arbitrary: s b)
  case 0
  then show ?case
    using write_bytes_outcome [OF e len] by simp
next
  case (Suc n)
  let ?todo = "sent b @ unsent ty v data s"
  obtain r k s' where r: "tls3_write_bytes e (uint ty) buf data s = Some (r, k, s')"
    "write_outcome fallible sent ok ty v buf data s ?todo (r, k, s')"
    using write_bytes_outcome [OF e len Suc.prems] by auto
  show ?case
  proof (cases "r = 1")
    case True
    then show ?thesis using r by simp
  next
    case False
    then obtain b' where b': "settings s' = settings s" "plain_buffers s'" "w_wbio s' = Some b'" "ok b'" "r \<le> 0"
      "resumable ty buf data s'" "sent b' @ unsent ty v data s' = ?todo"
      using r(2) by (auto simp: write_outcome_def)
    have "plain_settings e v s'"
      using settings_values(1) [OF b'(1)] Suc.prems(1) by simp
    moreover have "length (sent b') + length (unsent ty v data s') \<le> cap"
      using Suc.prems(6) arg_cong [OF b'(7), of length] by simp
    ultimately show ?thesis
      using Suc.IH [of s' b'] b' r(1) write_outcome_cong [OF b'(1)] by auto
  qed
qed

end

text \<open>
  C8: data is sent exactly once, whatever the BIO does. On a connection without a cipher that uses one
  pipeline, over any BIO that takes a prefix of what it is given or refuses, let \<open>tls3_write_bytes\<close> be
  called for some data and called again, up to \<open>n\<close> times, as long as it fails. No call touches memory
  outside the buffers. When one succeeds, the BIO has received exactly the records that carry the data,
  cut at the maximal fragment length: no byte is lost, repeated or reordered by the partial writes in
  between (in the mode for partial writes, those of the part that is reported as written). When all
  fail, what the BIO has received and what the connection still owes together are these records.
\<close>

theorem retried_write_exact:
  fixes s :: "('x, 'c, 'w) wconn"
  assumes "byte_sink (p_bio_write e) sent ok cap fallible" and "plain_put_env e" and "plain_settings e v s"
    and "plain_buffers s" and "rb_left (w_wbuf s ! 0) = 0" and "w_wnum s = 0" and "w_wbio s = Some b" and "ok b"
    and "length data \<le> SIZE_MAX" and "mx = tls_get_max_send_fragment s"
    and "length (sent b) + length (record_stream mx ty v data) \<le> cap"
  shows "\<exists>r wr s' b'. write_retry e (uint ty) buf data n s = Some (r, wr, s') \<and> w_wbio s' = Some b' \<and>
    (r = 1 \<and> (\<exists>k. wr = Some k \<and> (k = length data \<or> k \<le> length data \<and> ty = 23 \<and> mode_set tls_MODE_ENABLE_PARTIAL_WRITE s) \<and>
        sent b' @ record_stream mx ty v (drop k data) = sent b @ record_stream mx ty v data) \<or>
     fallible \<and> r \<le> 0 \<and> wr = None \<and> sent b' @ unsent ty v data s' = sent b @ record_stream mx ty v data)"
proof -
  have "unsent ty v data s = record_stream mx ty v data" "resumable ty buf data s"
    using assms(5,6,10) by (simp_all add: unsent_def owed_of_def resumable_def split: option.split)
  then obtain res where "write_retry e (uint ty) buf data n s = Some res"
    "write_outcome fallible sent ok ty v buf data s (sent b @ record_stream mx ty v data) res"
    using byte_sink.retry_outcome [OF assms(1,2) refl assms(9,3,4) _ assms(7,8)] assms(11) by metis
  then show ?thesis
    using assms(10) by (cases res) (auto simp: write_outcome_def split: if_splits)
qed

text \<open>A connection that has not written anything yet, with fragments of up to four bytes.\<close>

definition sample_put_env :: "(mem_bio, nat, (allocator \<times> allocator) \<times> mem_bio) put_env" where
  "sample_put_env = \<lparr>p_heap = sample_heap, p_malloc = (\<lambda>n. Some (64, replicate n 0)), p_bio_write = mem_sink_write,
     p_pipeline = (\<lambda>c. False), p_cipher_mode = (\<lambda>c. OTHER_MODE), p_iv_length = (\<lambda>c. 0),
     p_enc = (\<lambda>rs ms s. (1, rs, ms, s)), p_tls13_enc = (\<lambda>rs ms s. (1, rs, ms, s)), p_mac = (\<lambda>r m s. (1, [], s)),
     p_dispatch_alert = (\<lambda>s. (1, s)), p_handshake_func = (\<lambda>s. (1, s)), p_padding_cb = None\<rparr>"

definition sample_sink :: "(allocator \<times> allocator) \<times> mem_bio" where
  "sample_sink = (sample_heap, (empty_bio \<lparr>b_length = 0, b_data = None, b_max = 0, b_flags = 0\<rparr>)\<lparr>bm_init := True, bm_num := - 1\<rparr>)"

definition sample_wconn :: "(mem_bio, nat, (allocator \<times> allocator) \<times> mem_bio) wconn" where
  "sample_wconn = \<lparr>w_g = sample_conn,
     w_wbuf = replicate tls_MAX_PIPELINES \<lparr>rb_buf = None, rb_addr = 0, rb_default_len = 0, rb_len = 0, rb_offset = 0, rb_left = 0\<rparr>,
     w_numwpipes = 0, w_wnum = 0, w_wpend_tot = 0, w_wpend_type = 0, w_wpend_ret = 0, w_wpend_buf = 0,
     w_wbio = Some sample_sink, w_mode = 0, w_allow_compression = False, w_max_send_fragment = 4,
     w_split_send_fragment = 4, w_write_md_size = None, w_empty_fragment_done = False, w_need_empty_fragments = False,
     w_alert_dispatch = False, w_block_padding = 0\<rparr>"

lemma sample_sink_total: "mem_sink_total sample_sink" "pending (snd sample_sink) = []"
  by (simp_all add: mem_sink_total_def sample_sink_def mem_sink_ok_def sample_heap_def alloc_total_def sample_alloc_def
      mem_bio_ok_def empty_bio_def buf_ok_def pending_def cur_off_def cur_length_def Bio_Mem.block_def)

lemma sample_put_env_plain: "plain_put_env sample_put_env" "p_bio_write sample_put_env = mem_sink_write"
  using sample_heap_ok by (simp_all add: plain_put_env_def sample_put_env_def) (simp_all add: sample_heap_def sample_alloc_def)

lemma sample_sink_law:
  "byte_sink (p_bio_write sample_put_env) (\<lambda>x. pending (snd x)) mem_sink_total LIMIT_BEFORE_EXPANSION False"
  unfolding sample_put_env_plain(2) by (rule mem_sink_reliable.byte_sink_axioms)

lemma sample_wconn_plain:
  "plain_settings sample_put_env 3 sample_wconn" "plain_buffers sample_wconn" "rb_left (w_wbuf sample_wconn ! 0) = 0"
  "w_wnum sample_wconn = 0" "w_wbio sample_wconn = Some sample_sink" "tls_get_max_send_fragment sample_wconn = 4"
  "\<not> mode_set tls_MODE_ENABLE_PARTIAL_WRITE sample_wconn"
  by (simp_all add: plain_settings_def sample_wconn_def sample_conn_def sample_put_env_def sample_defs plain_buffers_def
      tls_get_max_send_fragment_def tls_get_split_send_fragment_def mode_set_def record_version_def tls_MAX_PIPELINES_def
      rt_consts Let_def)

lemma sample_record_stream: "record_stream 4 23 3 [1, 2, 3, 4, 5, 6] = [23, 3, 3, 0, 4, 1, 2, 3, 4, 23, 3, 3, 0, 2, 5, 6]"
  by (simp add: record_stream_def frames_of_def fragments.simps wire_def)

theorem retried_write_exact_witness:
  "\<exists>s' x. write_retry sample_put_env 23 1000 [1, 2, 3, 4, 5, 6] 2 sample_wconn = Some (1, Some 6, s') \<and> w_wbio s' = Some x \<and>
    pending (snd x) = [23, 3, 3, 0, 4, 1, 2, 3, 4, 23, 3, 3, 0, 2, 5, 6]"
proof -
  have "length (pending (snd sample_sink)) + length (record_stream 4 23 3 [1, 2, 3, 4, 5, 6]) \<le> LIMIT_BEFORE_EXPANSION"
    by (simp add: sample_sink_total(2) sample_record_stream LIMIT_BEFORE_EXPANSION_def)
  moreover have "length [1, 2, 3, 4, 5, 6 :: byte] \<le> SIZE_MAX" "\<not> (23 = (23 :: byte) \<and> mode_set tls_MODE_ENABLE_PARTIAL_WRITE sample_wconn)"
    using sample_wconn_plain(7) by (simp_all add: SIZE_MAX_def)
  moreover note retried_write_exact [OF sample_sink_law sample_put_env_plain(1) sample_wconn_plain(1-5) sample_sink_total(1),
      of "[1, 2, 3, 4, 5, 6]" 4 23 1000 2]
  ultimately obtain s' x where
    "write_retry sample_put_env (uint (23 :: byte)) 1000 [1, 2, 3, 4, 5, 6] 2 sample_wconn = Some (1, Some 6, s')"
    "w_wbio s' = Some x" "pending (snd x) = record_stream 4 23 3 [1, 2, 3, 4, 5, 6]"
    using sample_wconn_plain(6) sample_sink_total(2) by auto
  then show ?thesis
    by (intro exI [of _ s'] exI [of _ x]) (simp add: sample_record_stream)
qed

section \<open>From the writer to the reader\<close>

text \<open>A reading connection on the BIO that was written to.\<close>

definition attach :: "mem_bio \<Rightarrow> (mem_bio, 'c) gconn \<Rightarrow> (mem_bio, 'c) gconn" where
  "attach b g = g\<lparr>g_rl := (g_rl g)\<lparr>rl_rbio := Some b\<rparr>\<rparr>"

lemma attach_ready: "conn_ready g \<Longrightarrow> mem_bio_ok b \<Longrightarrow> conn_ready (attach b g)"
  by (simp add: attach_def conn_ready_def rl_ready_def input_ok_def rbuf_ok_def)

lemma attach_frame_ok: "frame_ok (attach b g) = frame_ok g"
  by (simp add: attach_def frame_ok_def fun_eq_iff USE_MAX_FRAGMENT_LENGTH_EXT_def GET_MAX_FRAGMENT_LENGTH_def)

lemma attach_stream: "unread (g_rl g) = [] \<Longrightarrow> input_stream (g_rl (attach b g)) = pending b"
  by (simp add: attach_def input_stream_def unread_def input_avail_def)

text \<open>
  C9: what is written is read. A connection without a cipher writes data, of any length that the memory
  BIO can hold, with one call of \<open>tls3_write_bytes\<close> to a memory BIO whose allocators do not fail: the
  call returns 1 and reports all of the data as written. A second connection that reads from this BIO
  with \<open>tls3_get_record\<close>, once per record, then gets the fragments of the data, each with the type and
  the version they were written with; put together they are the data.
\<close>

theorem written_records_read_back:
  fixes g :: "(mem_bio, 'd) gconn"
  assumes "plain_put_env e" and "p_bio_write e = mem_sink_write" and "plain_settings e v s" and "plain_buffers s"
    and "rb_left (w_wbuf s ! 0) = 0" and "w_wnum s = 0" and "w_wbio s = Some x" and "mem_sink_total x"
    and "pending (snd x) = []" and "length data \<le> SIZE_MAX" and "mx = tls_get_max_send_fragment s"
    and "length (record_stream mx ty v data) \<le> LIMIT_BEFORE_EXPANSION" and "\<not> mode_set tls_MODE_ENABLE_PARTIAL_WRITE s"
    and "plain_env e'" and "conn_ready g" and "unread (g_rl g) = []" and "list_all (frame_ok g) (frames_of mx ty v data)"
  shows "\<exists>s' h b g'. tls3_write_bytes e (uint ty) buf data s = Some (1, Some (length data), s') \<and> w_wbio s' = Some (h, b) \<and>
    get_records e' (length (fragments mx data)) (attach b g) =
      Some (map (\<lambda>c. (uint ty, 0x0300 + uint v, c)) (fragments mx data), g') \<and>
    concat (fragments mx data) = data"
proof -
  have un: "unsent ty v data s = record_stream mx ty v data" "resumable ty buf data s"
    using assms(5,6,11) by (simp_all add: unsent_def owed_of_def resumable_def split: option.split)
  obtain r k s' where w: "tls3_write_bytes e (uint ty) buf data s = Some (r, k, s')"
    "write_outcome False (\<lambda>x. pending (snd x)) mem_sink_total ty v buf data s (record_stream mx ty v data) (r, k, s')"
    using mem_sink_reliable.write_bytes_outcome [OF assms(1,2,10,3,4) un(2) assms(7,8)] un(1) assms(9,12) by auto
  then obtain h b where b: "r = 1" "k = Some (length data)" "w_wbio s' = Some (h, b)" "mem_sink_total (h, b)"
    "pending b = record_stream mx ty v data"
    using assms(13) by (auto simp: write_outcome_def split: if_splits)
  have "mem_bio_ok b" using b(4) by (simp add: mem_sink_total_def mem_sink_ok_def)
  then obtain g' where "get_records e' (length (frames_of mx ty v data)) (attach b g) =
      Some (map (\<lambda>(ty, v, body). (uint ty, 0x0300 + uint v, body)) (frames_of mx ty v data), g')"
    using get_records_stream [OF assms(14) attach_ready [OF assms(15)], of b "frames_of mx ty v data" "[]"]
      attach_stream [OF assms(16), of b] assms(17) attach_frame_ok [of b g] b(5) by (auto simp: record_stream_def)
  moreover have "0 < mx" using assms(3,11) by (simp add: plain_settings_def)
  ultimately show ?thesis
    using w(1) b(1-3) fragments_concat [of mx data] by (auto simp: frames_of_def comp_def)
qed

theorem written_records_read_back_witness:
  "\<exists>s' h b g'. tls3_write_bytes sample_put_env 23 1000 [1, 2, 3, 4, 5, 6] sample_wconn = Some (1, Some 6, s') \<and>
    w_wbio s' = Some (h, b) \<and> get_records sample_get_env 2 (attach b
      (sample_stream_conn\<lparr>g_rl := (g_rl sample_stream_conn)\<lparr>rl_rbuf := (rl_rbuf (g_rl sample_stream_conn))\<lparr>rb_left := 0\<rparr>\<rparr>\<rparr>)) =
      Some ([(23, 0x0303, [1, 2, 3, 4]), (23, 0x0303, [5, 6])], g')"
proof -
  let ?g = "sample_stream_conn\<lparr>g_rl := (g_rl sample_stream_conn)\<lparr>rl_rbuf := (rl_rbuf (g_rl sample_stream_conn))\<lparr>rb_left := 0\<rparr>\<rparr>\<rparr>"
  have f: "fragments 4 [1, 2, 3, 4, 5, 6 :: byte] = [[1, 2, 3, 4], [5, 6]]"
    by (simp add: fragments.simps)
  have g: "plain_env sample_get_env" "conn_ready ?g" "unread (g_rl ?g) = []"
    "list_all (frame_ok ?g) (frames_of 4 23 3 [1, 2, 3, 4, 5, 6])"
    by (simp_all add: plain_env_def sample_get_env_def malloc_ok_def conn_ready_def rl_ready_def sample_stream_conn_def
        sample_conn_def sample_rlayer_def rbuf_ok_def input_ok_def mem_bio_ok_def empty_bio_def buf_ok_def payload_align_def
        rt_consts INT_MAX_def unread_def frames_of_def f frame_ok_def sample_defs)
  have len: "length [1, 2, 3, 4, 5, 6 :: byte] \<le> SIZE_MAX"
    "length (record_stream 4 23 3 [1, 2, 3, 4, 5, 6]) \<le> LIMIT_BEFORE_EXPANSION"
    by (simp_all add: SIZE_MAX_def sample_record_stream LIMIT_BEFORE_EXPANSION_def)
  have "Suc (Suc 0) = 2" by simp
  with written_records_read_back [OF sample_put_env_plain sample_wconn_plain(1-5) sample_sink_total len(1)
      sample_wconn_plain(6) [symmetric] len(2) sample_wconn_plain(7) g, of 1000]
  show ?thesis unfolding f by (simp del: get_records.simps)
qed

section \<open>Pipelines\<close>

text \<open>
  How the data is dealt out to the pipelines: every pipeline gets something, none more than the maximal
  fragment, there are not more pipelines than allowed, and all of the data is used unless it fills them.
\<close>

lemma sum_list_dealt: "(\<Sum>j\<leftarrow>[0..<k]. q + (if j < r then 1 else 0)) = k * q + min k (r :: nat)"
  by (induction k) auto

lemma pipe_lens_bounds:
  assumes "0 < n" and "0 < split_frag" and "split_frag \<le> mx" and "0 < maxpipes"
  defines "ls \<equiv> pipe_lens n split_frag mx maxpipes"
  shows "1 \<le> length ls" "length ls \<le> maxpipes" "l \<in> set ls \<Longrightarrow> 0 < l \<and> l \<le> mx" "sum_list ls \<le> n"
    "sum_list ls = n \<or> ls = replicate (length ls) mx"
proof -
  define k where "k = min ((n - 1) div split_frag + 1) maxpipes"
  have k: "0 < k" "k \<le> maxpipes" "k \<le> n"
  proof -
    have "(n - 1) div split_frag \<le> n - 1" by simp
    then have "(n - 1) div split_frag + 1 \<le> n" using assms(1) by linarith
    then show "0 < k" "k \<le> maxpipes" "k \<le> n" using assms(4) by (auto simp: k_def)
  qed
  have ls: "ls = (if n div k \<ge> mx then replicate k mx else map (\<lambda>j. n div k + (if j < n mod k then 1 else 0)) [0..<k])"
    using assms(1) by (simp add: ls_def pipe_lens_def k_def Let_def)
  have one: "0 < n div k" using k by (simp add: div_greater_zero_iff)
  show "1 \<le> length ls" "length ls \<le> maxpipes" using k by (simp_all add: ls)
  show "0 < l \<and> l \<le> mx" if "l \<in> set ls"
    using that one assms(2,3) by (auto simp: ls split: if_splits)
  have "k * mx \<le> n" if "mx \<le> n div k"
    using that k(1) by (metis div_times_less_eq_dividend le_trans mult.commute mult_le_mono2)
  moreover have "(\<Sum>j\<leftarrow>[0..<k]. n div k + (if j < n mod k then 1 else 0)) = n"
    using k(1) by (subst sum_list_dealt) (simp add: min_absorb2 less_imp_le)
  ultimately show "sum_list ls \<le> n" "sum_list ls = n \<or> ls = replicate (length ls) mx"
    by (auto simp: ls sum_list_replicate)
qed

text \<open>The padding of TLS 1.3 stays within the maximal fragment.\<close>

lemma padding_len_fits:
  assumes "rlen \<le> tls_get_max_send_fragment s"
  shows "rlen + padding_len e ty rlen s \<le> tls_get_max_send_fragment s"
proof -
  have "padding_len e ty rlen s \<le> tls_get_max_send_fragment s - rlen"
    by (simp add: padding_len_def Let_def)
  then show ?thesis using assms by linarith
qed

text \<open>
  C40: an idle pipeline makes a write fail. When the write buffers were set up for two pipelines and a
  record goes out through the first of them only, \<open>tls3_write_pending\<close> hands the whole record to the
  BIO, and then goes on to the second buffer, which is empty: it writes zero bytes, and a BIO that
  returns 0 for that makes the call return 0 although nothing is left to be sent. The connection has no
  write pending then, so that a retry by the caller builds the record again and sends it twice.
\<close>

theorem idle_pipeline_fails_write:
  assumes "w_numwpipes s = 2" and "w_wbuf s = wb # wb' # wbs" and "rb_buf wb = Some m" and "rb_buf wb' = Some m'"
    and "rb_offset wb + rb_left wb \<le> length m" and "rb_offset wb' \<le> length m'" and "0 < rb_left wb" and "rb_left wb' = 0"
    and "w_wbio s = Some b" and "p_bio_write e b (seg m (rb_offset wb) (rb_left wb)) = Some (int (rb_left wb), c)"
    and "p_bio_write e c [] = Some (0, d)" and "\<not> tls_IS_DTLS (w_core s)"
    and "w_wpend_tot s \<le> len" and "w_wpend_buf s = buf" and "w_wpend_type s = ty"
  shows "\<exists>s'. tls3_write_pending e ty buf len s = Some (0, None, s') \<and> w_wbio s' = Some d \<and>
    rb_left (w_wbuf s' ! 0) = 0 \<and> rb_left (w_wbuf s' ! 1) = 0 \<and> \<not> RECORD_LAYER_write_pending s'"
proof -
  let ?t = "\<lambda>b w. (on_wcore (rwstate_update (\<lambda>_. tls_WRITING)) s)\<lparr>w_wbio := Some b, w_wbuf := w # wb' # wbs\<rparr>"
  let ?w = "wb\<lparr>rb_left := 0, rb_offset := rb_offset wb + rb_left wb\<rparr>"
  have "write_pending_loop e 0 s = write_pending_loop e 0 (?t c ?w)"
    using assms by (subst write_pending_loop.simps)
      (simp add: mem_read_def Let_def on_wcore_def on_gcore_def on_wbuf_def)
  also have "\<dots> = write_pending_loop e 1 (?t c ?w)"
    using assms(1,2) by (subst write_pending_loop.simps) (simp add: usub_eq SIZE_MAX_def)
  also have "\<dots> = Some (0, None, ?t d ?w)"
    using assms by (subst write_pending_loop.simps)
      (simp add: mem_read_def Let_def on_wcore_def on_gcore_def usub_eq SIZE_MAX_def tls_IS_DTLS_def)
  finally show ?thesis
    using assms(1,8,13-15) by (simp add: tls3_write_pending_def RECORD_LAYER_write_pending_def)
qed

text \<open>One call of \<open>tls3_write_bytes\<close> gets there: with two pipelines, 40000 bytes leave a single fragment.\<close>

lemma pipelines_shrink:
  "pipe_lens 40000 16384 16384 2 = replicate 2 16384" "pipe_lens (40000 - 2 * 16384) 16384 16384 2 = [7232]"
  by (simp_all add: pipe_lens_def Let_def)

lemma mem_sink_write_empty: "mem_sink_ok x \<Longrightarrow> \<exists>y. mem_sink_write x [] = Some (0, y)"
  by (auto simp: mem_sink_ok_def mem_sink_write_def BIO_write_def bio_write_intern_def bwrite_conv_def bio_mem_write_def
      mem_bio_ok_def Let_def split: prod.splits)

definition sample_wbuf :: "bytes \<Rightarrow> nat \<Rightarrow> tls3_BUFFER" where
  "sample_wbuf m left = \<lparr>rb_buf = Some m, rb_addr = 0, rb_default_len = 0, rb_len = length m, rb_offset = 0, rb_left = left\<rparr>"

definition sample_idle_pipeline :: "(mem_bio, nat, (allocator \<times> allocator) \<times> mem_bio) wconn" where
  "sample_idle_pipeline = sample_wconn\<lparr>w_numwpipes := 2, w_wbuf := [sample_wbuf [23, 3, 3, 0, 1, 9] 6, sample_wbuf [0] 0],
     w_wpend_tot := 1, w_wpend_buf := 1000, w_wpend_type := 23, w_wpend_ret := 1\<rparr>"

theorem idle_pipeline_fails_write_witness:
  "\<exists>s'. tls3_write_pending sample_put_env 23 1000 1 sample_idle_pipeline = Some (0, None, s') \<and>
    rb_left (w_wbuf s' ! 0) = 0 \<and> \<not> RECORD_LAYER_write_pending s'"
proof -
  let ?bs = "[23, 3, 3, 0, 1, 9] :: bytes"
  obtain b1 where b1: "mem_sink_write sample_sink ?bs = Some (int 6, b1)" "mem_sink_total b1"
  proof -
    have "length (pending (snd sample_sink)) + length ?bs \<le> INT_MAX" "mem_sink_ok sample_sink"
      using sample_sink_total by (simp_all add: INT_MAX_def mem_sink_total_def)
    then obtain ret b where w: "mem_sink_write sample_sink ?bs = Some (ret, fst sample_sink, b)" "mem_sink_ok (fst sample_sink, b)"
      "ret = - 1 \<or> ret = int 6"
      using mem_sink_law [of sample_sink ?bs] by auto
    moreover have "\<exists>ret y. mem_sink_write sample_sink ?bs = Some (ret, y) \<and> 0 < ret"
      using mem_sink_reliable.write_law [OF sample_sink_total(1), of ?bs] sample_sink_total(2)
      by (auto simp: LIMIT_BEFORE_EXPANSION_def)
    ultimately show ?thesis
      using that [of "(fst sample_sink, b)"] sample_sink_total(1) by (auto simp: mem_sink_total_def)
  qed
  obtain b2 where b2: "mem_sink_write b1 [] = Some (0, b2)"
    using mem_sink_write_empty [of b1] b1(2) unfolding mem_sink_total_def by blast
  have "\<exists>s'. tls3_write_pending sample_put_env 23 1000 1 sample_idle_pipeline = Some (0, None, s') \<and> w_wbio s' = Some b2 \<and>
      rb_left (w_wbuf s' ! 0) = 0 \<and> rb_left (w_wbuf s' ! 1) = 0 \<and> \<not> RECORD_LAYER_write_pending s'"
    by (rule idle_pipeline_fails_write [where b = sample_sink and c = b1 and m = ?bs and m' = "[0]"
          and wb = "sample_wbuf ?bs 6" and wb' = "sample_wbuf [0] 0"])
      (use b1(1) b2 in \<open>simp_all add: sample_idle_pipeline_def sample_wconn_def sample_put_env_def sample_conn_def sample_defs
        sample_wbuf_def\<close>)
  then show ?thesis by blast
qed

end
